(* ===== verification/Prelude.thy ===== *)
theory Prelude
  imports Main "HOL-Library.Word"
begin

text \<open>
  Shared vocabulary of the development: machine types, the result type of fallible Rust code
  (a value, an error value, or a panic), checked \<open>usize\<close> arithmetic as the dev profile compiles
  it, the operations of the \<open>bitflags\<close> macro, and the generic list lemmas the components share.
\<close>

unbundle bit_operations_syntax

named_theorems flag_simps \<open>rewriting of bitflags tests\<close>
named_theorems chk_simps \<open>unfolding of checked arithmetic\<close>

type_synonym u8 = "8 word"
type_synonym u16 = "16 word"
type_synonym u32 = "32 word"
type_synonym u64 = "64 word"

section \<open>Results\<close>

text \<open>
  A Rust computation ends in \<open>Ok\<close>, in \<open>Err\<close>, or panics (an explicit \<open>panic!\<close>, an
  \<open>unwrap\<close> of \<open>None\<close>, an index out of range, or an arithmetic overflow in the dev profile,
  which is the Makefile's default).
\<close>

datatype ('e, 'a) res = Ok 'a | Err 'e | Panic

fun bind_res :: "('e, 'a) res \<Rightarrow> ('a \<Rightarrow> ('e, 'b) res) \<Rightarrow> ('e, 'b) res" where
  "bind_res (Ok a) f = f a"
| "bind_res (Err e) f = Err e"
| "bind_res Panic f = Panic"

fun map_err :: "('e \<Rightarrow> 'f) \<Rightarrow> ('e, 'a) res \<Rightarrow> ('f, 'a) res" where
  "map_err f (Ok a) = Ok a"
| "map_err f (Err e) = Err (f e)"
| "map_err f Panic = Panic"

definition ok_or :: "'e \<Rightarrow> 'a option \<Rightarrow> ('e, 'a) res" where
  "ok_or e x = (case x of None \<Rightarrow> Err e | Some a \<Rightarrow> Ok a)"

definition is_ok :: "('e, 'a) res \<Rightarrow> bool" where
  "is_ok r = (case r of Ok _ \<Rightarrow> True | _ \<Rightarrow> False)"

lemma is_ok_simps [simp]: "is_ok (Ok a)" "\<not> is_ok (Err e)" "\<not> is_ok Panic"
  by (simp_all add: is_ok_def)

lemma is_ok_iff: "is_ok r \<longleftrightarrow> (\<exists>a. r = Ok a)"
  by (cases r) auto

lemma bind_res_Ok_iff [simp]: "bind_res m f = Ok b \<longleftrightarrow> (\<exists>a. m = Ok a \<and> f a = Ok b)"
  by (cases m) auto

lemma bind_res_Err_iff:
  "bind_res m f = Err e \<longleftrightarrow> m = Err e \<or> (\<exists>a. m = Ok a \<and> f a = Err e)"
  by (cases m) auto

lemma map_err_Ok_iff [simp]: "map_err f m = Ok a \<longleftrightarrow> m = Ok a"
  by (cases m) auto

lemma ok_or_simps [simp]: "ok_or e None = Err e" "ok_or e (Some a) = Ok a"
  by (simp_all add: ok_or_def)

lemma ok_or_Ok_iff [simp]: "ok_or e x = Ok a \<longleftrightarrow> x = Some a"
  by (cases x) auto

section \<open>Checked usize arithmetic\<close>

text \<open>
  \<open>usize\<close> values are natural numbers below \<open>2 ^ 64\<close>; the overflow of each addition,
  subtraction and multiplication is written out where the code can reach it.
\<close>

abbreviation usize_limit :: nat where
  "usize_limit \<equiv> 2 ^ 64"

definition chk_add :: "nat \<Rightarrow> nat \<Rightarrow> ('e, nat) res" where
  "chk_add a b = (if a + b < usize_limit then Ok (a + b) else Panic)"

definition chk_sub :: "nat \<Rightarrow> nat \<Rightarrow> ('e, nat) res" where
  "chk_sub a b = (if b \<le> a then Ok (a - b) else Panic)"

definition chk_mul :: "nat \<Rightarrow> nat \<Rightarrow> ('e, nat) res" where
  "chk_mul a b = (if a * b < usize_limit then Ok (a * b) else Panic)"

lemma chk_add_Ok [chk_simps]: "chk_add a b = Ok c \<longleftrightarrow> c = a + b \<and> a + b < usize_limit"
  by (auto simp: chk_add_def)

lemma chk_add_eq: "a + b < usize_limit \<Longrightarrow> chk_add a b = Ok (a + b)"
  by (simp add: chk_add_def)

lemma chk_sub_eq: "b \<le> a \<Longrightarrow> chk_sub a b = Ok (a - b)"
  by (simp add: chk_sub_def)

lemma chk_mul_eq: "a * b < usize_limit \<Longrightarrow> chk_mul a b = Ok (a * b)"
  by (simp add: chk_mul_def)

lemma chk_add_not_Err [simp]: "chk_add a b \<noteq> Err e"
  by (simp add: chk_add_def)

lemma chk_sub_Ok [chk_simps]: "chk_sub a b = Ok c \<longleftrightarrow> c = a - b \<and> b \<le> a"
  by (auto simp: chk_sub_def)

lemma chk_mul_Ok [chk_simps]: "chk_mul a b = Ok c \<longleftrightarrow> c = a * b \<and> a * b < usize_limit"
  by (auto simp: chk_mul_def)

section \<open>Bitflags\<close>

text \<open>The methods the \<open>bitflags!\<close> macro generates, on the underlying word.\<close>

definition contains :: "'a::len word \<Rightarrow> 'a word \<Rightarrow> bool" where
  "contains a b \<longleftrightarrow> a AND b = b"

definition intersects :: "'a::len word \<Rightarrow> 'a word \<Rightarrow> bool" where
  "intersects a b \<longleftrightarrow> a AND b \<noteq> 0"

definition flags_remove :: "'a::len word \<Rightarrow> 'a word \<Rightarrow> 'a word" where
  "flags_remove a b = a AND NOT b"

definition from_bits_truncate :: "'a::len word \<Rightarrow> 'a word \<Rightarrow> 'a word" where
  "from_bits_truncate known v = v AND known"

lemma contains_bit: "contains a b \<longleftrightarrow> (\<forall>n. bit b n \<longrightarrow> bit a n)"
  unfolding contains_def bit_eq_iff by (auto simp: bit_and_iff dest: bit_imp_le_length)

lemma intersects_bit: "intersects a b \<longleftrightarrow> (\<exists>n. bit a n \<and> bit b n)"
  unfolding intersects_def bit_eq_iff by (auto simp: bit_and_iff dest: bit_imp_le_length)

lemma contains_refl [simp]: "contains a a"
  by (simp add: contains_def)

lemma contains_zero [simp]: "contains a 0"
  by (simp add: contains_def)

lemma contains_trans: "contains a b \<Longrightarrow> contains b c \<Longrightarrow> contains a c"
  by (auto simp: contains_bit)

lemma contains_antisym: "contains a b \<Longrightarrow> contains b a \<Longrightarrow> a = b"
  by (auto simp: contains_bit bit_eq_iff)

lemma contains_and_left [simp]: "contains a (a AND b)"
  by (auto simp: contains_bit bit_and_iff)

lemma contains_and_right [simp]: "contains b (a AND b)"
  by (auto simp: contains_bit bit_and_iff)

lemma contains_or_left [flag_simps]: "contains (a OR b) a"
  by (auto simp: contains_bit bit_or_iff)

lemma contains_or_right [flag_simps]: "contains (a OR b) b"
  by (auto simp: contains_bit bit_or_iff)

lemma contains_or_mono: "contains a c \<Longrightarrow> contains (a OR b) c"
  by (auto simp: contains_bit bit_or_iff)

lemma contains_or_iff: "contains a (b OR c) \<longleftrightarrow> contains a b \<and> contains a c"
  by (auto simp: contains_bit bit_or_iff)

lemma flags_remove_bit: "bit (flags_remove a b) n \<longleftrightarrow> bit a n \<and> \<not> bit b n"
  unfolding flags_remove_def
  by (cases "n < LENGTH('a)") (auto simp: bit_and_iff bit_not_iff dest: bit_imp_le_length)

lemma flags_remove_not_intersects [simp]: "\<not> intersects (flags_remove a b) b"
  by (auto simp: intersects_bit flags_remove_bit)

lemma flags_remove_contains: "contains a (flags_remove a b)"
  by (auto simp: contains_bit flags_remove_bit)

lemma contains_intersects: "contains a b \<Longrightarrow> b \<noteq> 0 \<Longrightarrow> intersects a b"
  by (auto simp: contains_def intersects_def)

lemma from_bits_truncate_all [simp]: "from_bits_truncate (- 1) v = v"
  by (simp add: from_bits_truncate_def)

lemma from_bits_truncate_known: "contains known (from_bits_truncate known v)"
  by (simp add: from_bits_truncate_def)

section \<open>Lists\<close>

lemma distinct_remove1_not_in: "distinct xs \<Longrightarrow> x \<notin> set (remove1 x xs)"
  by simp

lemma length_filter_mono: "(\<And>x. P x \<Longrightarrow> Q x) \<Longrightarrow> length (filter P xs) \<le> length (filter Q xs)"
  by (induction xs) auto

lemma map_of_filter_neq: "map_of (filter (\<lambda>p. fst p \<noteq> k) xs) k = None"
  by (induction xs) auto

lemma map_of_filter_neq_other: "j \<noteq> k \<Longrightarrow> map_of (filter (\<lambda>p. fst p \<noteq> k) xs) j = map_of xs j"
  by (induction xs) auto

end
