(* ===== verification/Errors.thy ===== *)
theory Errors
  imports Prelude
begin

text \<open>
  The syscall error ABI: \<open>kernel/src/error.rs\<close> (error numbers, \<open>Error::mux\<close>,
  \<open>Error::demux\<close>, \<open>Error::text\<close>) and the decoder user space runs on the returned register,
  \<open>libradon/src/syscall.rs\<close>'s \<open>result_from_retval\<close>. Registers are 64-bit words,
  error numbers are \<open>i32\<close>.
\<close>

section \<open>Error numbers\<close>

type_synonym i32 = "32 word"

datatype error = Error (errno: i32)

definition EPERM :: i32 where "EPERM = 1"
definition ENOENT :: i32 where "ENOENT = 2"
definition ESRCH :: i32 where "ESRCH = 3"
definition EBADF :: i32 where "EBADF = 9"
definition EAGAIN :: i32 where "EAGAIN = 11"
definition ENOMEM :: i32 where "ENOMEM = 12"
definition EACCES :: i32 where "EACCES = 13"
definition EEXIST :: i32 where "EEXIST = 17"
definition EINVAL :: i32 where "EINVAL = 22"
definition EPIPE :: i32 where "EPIPE = 32"
definition ENOSYS :: i32 where "ENOSYS = 38"
definition EWOULDBLOCK :: i32 where "EWOULDBLOCK = 41"

lemmas errno_defs = EPERM_def ENOENT_def ESRCH_def EBADF_def EAGAIN_def ENOMEM_def EACCES_def EEXIST_def EINVAL_def EPIPE_def ENOSYS_def EWOULDBLOCK_def

text \<open>Every constant of the file, in order: the error number of the n-th name is n + 1.\<close>

definition errno_names :: "string list" where
  "errno_names = [
    ''EPERM'', ''ENOENT'', ''ESRCH'', ''EINTR'', ''EIO'', ''ENXIO'', ''E2BIG'', ''ENOEXEC'',
    ''EBADF'', ''ECHILD'', ''EAGAIN'', ''ENOMEM'', ''EACCES'', ''EFAULT'', ''ENOTBLK'',
    ''EBUSY'', ''EEXIST'', ''EXDEV'', ''ENODEV'', ''ENOTDIR'', ''EISDIR'', ''EINVAL'',
    ''ENFILE'', ''EMFILE'', ''ENOTTY'', ''ETXTBSY'', ''EFBIG'', ''ENOSPC'', ''ESPIPE'',
    ''EROFS'', ''EMLINK'', ''EPIPE'', ''EDOM'', ''ERANGE'', ''EDEADLK'', ''ENAMETOOLONG'',
    ''ENOLCK'', ''ENOSYS'', ''ENOTEMPTY'', ''ELOOP'', ''EWOULDBLOCK'', ''ENOMSG'', ''EIDRM'',
    ''ECHRNG'', ''EL2NSYNC'', ''EL3HLT'', ''EL3RST'', ''ELNRNG'', ''EUNATCH'', ''ENOCSI'',
    ''EL2HLT'', ''EBADE'', ''EBADR'', ''EXFULL'', ''ENOANO'', ''EBADRQC'', ''EBADSLT'',
    ''EDEADLOCK'', ''EBFONT'', ''ENOSTR'', ''ENODATA'', ''ETIME'', ''ENOSR'', ''ENONET'',
    ''ENOPKG'', ''EREMOTE'', ''ENOLINK'', ''EADV'', ''ESRMNT'', ''ECOMM'', ''EPROTO'',
    ''EMULTIHOP'', ''EDOTDOT'', ''EBADMSG'', ''EOVERFLOW'', ''ENOTUNIQ'', ''EBADFD'',
    ''EREMCHG'', ''ELIBACC'', ''ELIBBAD'', ''ELIBSCN'', ''ELIBMAX'', ''ELIBEXEC'', ''EILSEQ'',
    ''ERESTART'', ''ESTRPIPE'', ''EUSERS'', ''ENOTSOCK'', ''EDESTADDRREQ'', ''EMSGSIZE'',
    ''EPROTOTYPE'', ''ENOPROTOOPT'', ''EPROTONOSUPPORT'', ''ESOCKTNOSUPPORT'', ''EOPNOTSUPP'',
    ''EPFNOSUPPORT'', ''EAFNOSUPPORT'', ''EADDRINUSE'', ''EADDRNOTAVAIL'', ''ENETDOWN'',
    ''ENETUNREACH'', ''ENETRESET'', ''ECONNABORTED'', ''ECONNRESET'', ''ENOBUFS'', ''EISCONN'',
    ''ENOTCONN'', ''ESHUTDOWN'', ''ETOOMANYREFS'', ''ETIMEDOUT'', ''ECONNREFUSED'',
    ''EHOSTDOWN'', ''EHOSTUNREACH'', ''EALREADY'', ''EINPROGRESS'', ''ESTALE'', ''EUCLEAN'',
    ''ENOTNAM'', ''ENAVAIL'', ''EISNAM'', ''EREMOTEIO'', ''EDQUOT'', ''ENOMEDIUM'',
    ''EMEDIUMTYPE'', ''ECANCELED'', ''ENOKEY'', ''EKEYEXPIRED'', ''EKEYREVOKED'',
    ''EKEYREJECTED'', ''EOWNERDEAD'', ''ENOTRECOVERABLE'', ''ERSVD'']"

definition STR_ERROR :: "string list" where
  "STR_ERROR = [
    ''Success'', ''Operation not permitted'', ''No such file or directory'',
    ''No such process'', ''Interrupted system call'', ''I/O error'',
    ''No such device or address'', ''Argument list too long'', ''Exec format error'',
    ''Bad file number'', ''No child processes'', ''Try again'', ''Out of memory'',
    ''Permission denied'', ''Bad address'', ''Block device required'',
    ''Device or resource busy'', ''File exists'', ''Cross-device link'', ''No such device'',
    ''Not a directory'', ''Is a directory'', ''Invalid argument'', ''File table overflow'',
    ''Too many open files'', ''Not a typewriter'', ''Text file busy'', ''File too large'',
    ''No space left on device'', ''Illegal seek'', ''Read-only file system'',
    ''Too many links'', ''Broken pipe'', ''Math argument out of domain of func'',
    ''Math result not representable'', ''Resource deadlock would occur'',
    ''File name too long'', ''No record locks available'', ''Function not implemented'',
    ''Directory not empty'', ''Too many symbolic links encountered'',
    ''Operation would block'', ''No message of desired type'', ''Identifier removed'',
    ''Channel number out of range'', ''Level 2 not synchronized'', ''Level 3 halted'',
    ''Level 3 reset'', ''Link number out of range'', ''Protocol driver not attached'',
    ''No CSI structure available'', ''Level 2 halted'', ''Invalid exchange'',
    ''Invalid request descriptor'', ''Exchange full'', ''No anode'', ''Invalid request code'',
    ''Invalid slot'', ''Resource deadlock would occur'', ''Bad font file format'',
    ''Device not a stream'', ''No data available'', ''Timer expired'',
    ''Out of streams resources'', ''Machine is not on the network'', ''Package not installed'',
    ''Object is remote'', ''Link has been severed'', ''Advertise error'', ''Srmount error'',
    ''Communication error on send'', ''Protocol error'', ''Multihop attempted'',
    ''RFS specific error'', ''Not a data message'', ''Value too large for defined data type'',
    ''Name not unique on network'', ''File descriptor in bad state'',
    ''Remote address changed'', ''Can not access a needed shared library'',
    ''Accessing a corrupted shared library'', ''.lib section in a.out corrupted'',
    ''Attempting to link in too many shared libraries'',
    ''Cannot exec a shared library directly'', ''Illegal byte sequence'',
    ''Interrupted system call should be restarted'', ''Streams pipe error'',
    ''Too many users'', ''Socket operation on non-socket'', ''Destination address required'',
    ''Message too long'', ''Protocol wrong type for socket'', ''Protocol not available'',
    ''Protocol not supported'', ''Socket type not supported'',
    ''Operation not supported on transport endpoint'', ''Protocol family not supported'',
    ''Address family not supported by protocol'', ''Address already in use'',
    ''Cannot assign requested address'', ''Network is down'', ''Network is unreachable'',
    ''Network dropped connection because of reset'', ''Software caused connection abort'',
    ''Connection reset by peer'', ''No buffer space available'',
    ''Transport endpoint is already connected'', ''Transport endpoint is not connected'',
    ''Cannot send after transport endpoint shutdown'', ''Too many references: cannot splice'',
    ''Connection timed out'', ''Connection refused'', ''Host is down'', ''No route to host'',
    ''Operation already in progress'', ''Operation now in progress'',
    ''Stale NFS file handle'', ''Structure needs cleaning'', ''Not a XENIX named type file'',
    ''No XENIX semaphores available'', ''Is a named type file'', ''Remote I/O error'',
    ''Quota exceeded'', ''No medium found'', ''Wrong medium type'', ''Operation Canceled'',
    ''Required key not available'', ''Key has expired'', ''Key has been revoked'',
    ''Key was rejected by service'', ''Owner died'', ''State not recoverable'',
    ''Reserved (formerly scheme-kernel message code)'']"

section \<open>Encoding and decoding\<close>

text \<open>\<open>-error.errno as usize\<close>: negate in \<open>i32\<close> (which overflows at the minimum), sign-extend.\<close>

fun mux :: "(error, u64) res \<Rightarrow> (error, u64) res" where
  "mux (Ok v) = Ok v"
| "mux (Err e) = (if errno e = 0x80000000 then Panic else Ok (scast (- errno e)))"
| "mux Panic = Panic"

definition demux :: "u64 \<Rightarrow> (error, u64) res" where
  "demux v =
     (let low = ucast v :: i32
      in if low = 0x80000000 then Panic
         else if 1 \<le> sint (- low) \<and> sint (- low) < int (length STR_ERROR)
         then Err (Error (- low)) else Ok v)"

definition error_text :: "error \<Rightarrow> string" where
  "error_text e =
     (let i = unat (scast (errno e) :: u64)
      in if i < length STR_ERROR then STR_ERROR ! i else ''Unknown Error'')"

definition result_from_retval :: "u64 \<Rightarrow> (error, u64) res" where
  "result_from_retval ret =
     (let sret = sint ret
      in if sret < 0 \<and> - 4096 \<le> sret then Err (Error (word_of_int (- sret))) else Ok ret)"

section \<open>Signed arithmetic of error numbers\<close>
lemma length_STR_ERROR [simp]: "length STR_ERROR = 133"
  by (simp add: STR_ERROR_def)

lemma sint_i32_range: "- 2147483648 \<le> sint (e :: i32)" "sint (e :: i32) < 2147483648"
  using sint_greater_eq[of e] sint_less[of e] by simp_all

lemma i32_min_sint: "(e :: i32) = 0x80000000 \<Longrightarrow> sint e = - 2147483648"
  by simp

lemma sint_scast_i32: "sint (scast (e :: i32) :: u64) = sint e"
  by (rule sint_up_scast) (simp add: is_up_def source_size target_size word_size)

lemma sint_uminus_i32: "sint (e :: i32) \<noteq> - 2147483648 \<Longrightarrow> sint (- e) = - sint e"
  using sint_i32_range[of e] unfolding sint_word_minus
  by (intro signed_take_bit_int_eq_self) simp_all

lemma i32_of_sint: "word_of_int (sint (e :: i32)) = e"
  by simp

lemma uint_u64_bound: "0 \<le> uint (v :: u64)" "uint (v :: u64) < 2 ^ 64"
  using uint_bounded[of v] by simp_all

lemma sint_u64: "sint (v :: u64) = (if uint v < 2 ^ 63 then uint v else uint v - 2 ^ 64)"
proof (cases "uint v < 2 ^ 63")
  case True
  then have "uint v div 2 ^ 63 = 0"
    using uint_u64_bound[of v] by simp
  with True show ?thesis
    by (simp add: sint_uint signed_take_bit_eq_take_bit_minus take_bit_int_eq_self bit_iff_odd)
next
  case False
  then have "uint v div 2 ^ 63 = 1"
    using uint_u64_bound[of v] by simp
  with False uint_u64_bound[of v] show ?thesis
    by (simp add: sint_uint signed_take_bit_eq_take_bit_minus take_bit_int_eq_self bit_iff_odd)
qed

section \<open>The round trip through the return register\<close>

text \<open>Every error number from 1 to 4096 that a handler returns reaches user space
  unchanged: \<open>Error::mux\<close> does not panic and \<open>result_from_retval\<close> decodes the register to the
  same error.\<close>

theorem syscall_error_roundtrip:
  assumes "1 \<le> sint e" and "sint e \<le> 4096"
  shows "\<exists>w. mux (Err (Error e)) = Ok w \<and> result_from_retval w = Err (Error e)"
proof -
  have "e \<noteq> 0x80000000" using assms i32_min_sint[of e] by auto
  moreover have "sint (scast (- e) :: u64) = - sint e"
    using assms by (simp add: sint_scast_i32 sint_uminus_i32)
  ultimately show ?thesis
    using assms by (simp add: result_from_retval_def)
qed

theorem syscall_error_roundtrip_witness:
  "\<exists>w. mux (Err (Error EINVAL)) = Ok w \<and> result_from_retval w = Err (Error EINVAL)"
  by (rule syscall_error_roundtrip) (simp_all add: EINVAL_def)

text \<open>A success value is passed through by \<open>mux\<close>, and user space reads it back as a
  success exactly when it lies below the top 4096 values of the register.\<close>

theorem syscall_value_roundtrip:
  "mux (Ok v) = Ok v \<and> (result_from_retval v = Ok v \<longleftrightarrow> uint v < 2 ^ 64 - 4096)"
  using uint_u64_bound[of v] by (simp add: result_from_retval_def sint_u64)

text \<open>The kernel's own decoder \<open>Error::demux\<close> looks at the low 32 bits only, so it turns the
  success value \<open>0x1FFFFFFFF\<close>, which user space reads correctly, into \<open>EPERM\<close>.\<close>

theorem demux_misreads:
   "result_from_retval 0x1FFFFFFFF = Ok 0x1FFFFFFFF \<and> demux 0x1FFFFFFFF = Err (Error EPERM)"
  by (simp add: result_from_retval_def demux_def EPERM_def)

end
