(* ===== verification/Ordered_Map.thy ===== *)
theory Ordered_Map
  imports Prelude "HOL-Library.Multiset"
begin

text \<open>
  The standard library's \<open>BTreeMap\<close> as the kernel and the servers use it: a finite map whose
  iteration visits the keys in ascending order. The interface is the locale \<open>keyed_store\<close>;
  the model is a list of entries sorted by key, which interprets it.
\<close>

section \<open>The interface\<close>

locale keyed_store =
  fixes get :: "'m \<Rightarrow> 'k::linorder \<Rightarrow> 'v option"
    and put :: "'k \<Rightarrow> 'v \<Rightarrow> 'm \<Rightarrow> 'm"
    and del :: "'k \<Rightarrow> 'm \<Rightarrow> 'm"
    and entries :: "'m \<Rightarrow> ('k \<times> 'v) list"
    and ok :: "'m \<Rightarrow> bool"
    and nothing :: "'m"
  assumes get_nothing: "get nothing k = None"
    and get_put: "get (put k v m) j = (if j = k then Some v else get m j)"
    and get_del: "get (del k m) j = (if j = k then None else get m j)"
    and entries_get: "ok m \<Longrightarrow> (k, v) \<in> set (entries m) \<longleftrightarrow> get m k = Some v"
    and entries_sorted: "ok m \<Longrightarrow> sorted_wrt (<) (map fst (entries m))"
    and ok_nothing: "ok nothing"
    and ok_put: "ok m \<Longrightarrow> ok (put k v m)"
    and ok_del: "ok m \<Longrightarrow> ok (del k m)"
begin

lemma distinct_entries: "ok m \<Longrightarrow> distinct (entries m)"
  by (metis distinct_map entries_sorted strict_sorted_iff)

lemma distinct_keys: "ok m \<Longrightarrow> distinct (map fst (entries m))"
  using entries_sorted strict_sorted_iff by blast

lemma entries_set: "ok m \<Longrightarrow> set (entries m) = {(k, v). get m k = Some v}"
  by (auto simp: entries_get)

lemma mset_entries_put:
  assumes "ok m" and "get m k = None"
  shows "mset (entries (put k v m)) = add_mset (k, v) (mset (entries m))"
proof -
  have "set (entries (put k v m)) = insert (k, v) (set (entries m))"
    using assms by (auto simp: entries_get ok_put get_put split: if_splits)
  moreover have "(k, v) \<notin> set (entries m)"
    using assms by (simp add: entries_get)
  ultimately show ?thesis
    using assms(1) by (metis List.finite_set distinct_entries mset_set.insert mset_set_set ok_put)
qed

lemma mset_entries_del:
  assumes "ok m" and "get m k = Some v"
  shows "mset (entries m) = add_mset (k, v) (mset (entries (del k m)))"
proof -
  have "set (entries m) = insert (k, v) (set (entries (del k m)))"
    using assms by (auto simp: entries_get ok_del get_del split: if_splits)
  moreover have "(k, v) \<notin> set (entries (del k m))"
    using assms by (simp add: entries_get ok_del get_del)
  ultimately show ?thesis
    using assms(1) by (metis List.finite_set distinct_entries mset_set.insert mset_set_set ok_del)
qed

lemma length_entries_put:
  "ok m \<Longrightarrow> get m k = None \<Longrightarrow> length (entries (put k v m)) = Suc (length (entries m))"
  using mset_entries_put[of m k v] by (metis size_add_mset size_mset)

lemma length_entries_del:
  "ok m \<Longrightarrow> get m k = Some v \<Longrightarrow> Suc (length (entries (del k m))) = length (entries m)"
  using mset_entries_del[of m k v] by (metis size_add_mset size_mset)

lemma entries_ext:
  assumes "ok m" and "ok m'" and "\<And>k. get m k = get m' k"
  shows "entries m = entries m'"
proof -
  have same: "set (entries m) = set (entries m')"
    using assms by (auto simp: entries_get)
  show ?thesis
  proof (rule map_sorted_distinct_set_unique[where f = fst])
    show "inj_on fst (set (entries m) \<union> set (entries m'))"
      using same distinct_keys[OF assms(1)] by (simp add: distinct_map)
    show "sorted (map fst (entries m))" "sorted (map fst (entries m'))"
      using assms by (auto simp: entries_sorted strict_sorted_imp_sorted)
    show "distinct (map fst (entries m))" "distinct (map fst (entries m'))"
      using assms by (auto simp: distinct_keys)
  qed (fact same)
qed

end

section \<open>Sorted lists of entries\<close>

type_synonym ('k, 'v) btree = "('k \<times> 'v) list"

definition bt_get :: "('k::linorder, 'v) btree \<Rightarrow> 'k \<Rightarrow> 'v option" where
  "bt_get m k = map_of m k"

fun bt_insert :: "'k::linorder \<Rightarrow> 'v \<Rightarrow> ('k, 'v) btree \<Rightarrow> ('k, 'v) btree" where
  "bt_insert k v [] = [(k, v)]"
| "bt_insert k v ((j, w) # m) =
     (if k < j then (k, v) # (j, w) # m
      else if k = j then (k, v) # m
      else (j, w) # bt_insert k v m)"

definition bt_remove :: "'k::linorder \<Rightarrow> ('k, 'v) btree \<Rightarrow> ('k, 'v) btree" where
  "bt_remove k m = filter (\<lambda>p. fst p \<noteq> k) m"

definition bt_wf :: "('k::linorder, 'v) btree \<Rightarrow> bool" where
  "bt_wf m \<longleftrightarrow> sorted_wrt (<) (map fst m)"

lemma map_of_bt_insert: "map_of (bt_insert k v m) = (map_of m)(k \<mapsto> v)"
  by (induction k v m rule: bt_insert.induct) (auto simp: fun_eq_iff)

lemma bt_get_insert: "bt_get (bt_insert k v m) j = (if j = k then Some v else bt_get m j)"
  by (simp add: bt_get_def map_of_bt_insert)

lemma bt_get_remove: "bt_get (bt_remove k m) j = (if j = k then None else bt_get m j)"
  by (simp add: bt_get_def bt_remove_def map_of_filter_neq map_of_filter_neq_other)

lemma set_bt_insert: "fst ` set (bt_insert k v m) = insert k (fst ` set m)"
  by (induction k v m rule: bt_insert.induct) auto

lemma bt_wf_insert: "bt_wf m \<Longrightarrow> bt_wf (bt_insert k v m)"
  unfolding bt_wf_def
proof (induction k v m rule: bt_insert.induct)
  case (2 k v j w m)
  have "\<forall>x \<in> set (map fst (bt_insert k v m)). x = k \<or> x \<in> fst ` set m"
    using set_bt_insert[of k v m] by auto
  with 2 show ?case by fastforce
qed simp

lemma bt_wf_remove: "bt_wf m \<Longrightarrow> bt_wf (bt_remove k m)"
  by (induction m) (auto simp: bt_wf_def bt_remove_def)

lemma bt_wf_distinct: "bt_wf m \<Longrightarrow> distinct (map fst m)"
  by (simp add: bt_wf_def strict_sorted_iff)

interpretation btm: keyed_store bt_get bt_insert bt_remove "\<lambda>m. m" bt_wf "[]"
proof unfold_locales
  fix m :: "('a::linorder, 'b) btree" and k v
  assume "bt_wf m"
  then show "(k, v) \<in> set m \<longleftrightarrow> bt_get m k = Some v"
    by (simp add: bt_get_def bt_wf_distinct map_of_eq_Some_iff)
qed (auto simp: bt_get_def map_of_bt_insert bt_get_remove[unfolded bt_get_def]
      bt_wf_insert bt_wf_remove, simp_all add: bt_wf_def)

lemma bt_get_Nil [simp]: "bt_get [] k = None"
  by (simp add: bt_get_def)

declare bt_get_insert [simp] bt_get_remove [simp] bt_wf_insert [simp] bt_wf_remove [simp]

lemma bt_wf_Nil [simp]: "bt_wf []"
  by (simp add: bt_wf_def)

lemma bt_get_Some_mem: "bt_get m k = Some v \<Longrightarrow> (k, v) \<in> set m"
  by (simp add: bt_get_def map_of_SomeD)

lemma bt_remove_absent: "bt_get m k = None \<Longrightarrow> bt_remove k m = m"
  unfolding bt_remove_def bt_get_def
  by (induction m) (auto split: if_splits)

end
