(* ===== verification/Signals.thy ===== *)
theory Signals
  imports Prelude
begin

text \<open>
  Signals and their observers: \<open>kernel/src/object/signal.rs\<close> and \<open>SignalState\<close> of
  \<open>kernel/src/object/mod.rs\<close>. An observer's callback is a closure; the only closures the kernel
  registers are those of \<open>Port::bind\<close>, which hold a weak port reference and a key, so a
  callback is modelled by that pair. An operation returns, beside the new state, the calls it makes,
  in order; the port component runs them.
\<close>

section \<open>Signals\<close>

type_synonym signals = u32

definition READABLE :: signals where "READABLE = 1"
definition WRITABLE :: signals where "WRITABLE = 2"
definition PEER_CLOSED :: signals where "PEER_CLOSED = 4"
definition TERMINATED :: signals where "TERMINATED = 8"
definition SIGNALED :: signals where "SIGNALED = 16"
definition USER_0 :: signals where "USER_0 = 0x1000000"
definition USER_1 :: signals where "USER_1 = 0x2000000"
definition USER_2 :: signals where "USER_2 = 0x4000000"
definition USER_3 :: signals where "USER_3 = 0x8000000"

lemmas signal_defs = READABLE_def WRITABLE_def PEER_CLOSED_def TERMINATED_def SIGNALED_def
  USER_0_def USER_1_def USER_2_def USER_3_def

definition all_signals :: signals where
  "all_signals = READABLE OR WRITABLE OR PEER_CLOSED OR TERMINATED OR SIGNALED
     OR USER_0 OR USER_1 OR USER_2 OR USER_3"

definition signals_from_bits_truncate :: "u32 \<Rightarrow> signals" where
  "signals_from_bits_truncate v = from_bits_truncate all_signals v"

lemma signals_nonzero [simp]: "READABLE \<noteq> 0" "WRITABLE \<noteq> 0" "PEER_CLOSED \<noteq> 0" "TERMINATED \<noteq> 0"
  by (simp_all add: signal_defs)

section \<open>Observers\<close>

type_synonym oid = nat

datatype callback = PortNotify (cb_port: oid) (cb_key: nat)

type_synonym calls = "(callback \<times> signals) list"

record observer =
  so_key :: nat
  so_trigger :: signals
  so_callback :: callback
  so_once :: bool

record signal_state =
  ss_signals :: signals
  ss_observers :: "observer list"

definition ss_new :: signal_state where
  "ss_new = \<lparr>ss_signals = 0, ss_observers = []\<rparr>"

definition ss_get :: "signal_state \<Rightarrow> signals" where
  "ss_get s = ss_signals s"

text \<open>\<open>notify\<close>: the loop calls the matching observers and collects the indices of those
  registered for one shot, which are then removed from the back.\<close>

definition vec_remove :: "nat \<Rightarrow> 'a list \<Rightarrow> 'a list" where
  "vec_remove i xs = take i xs @ drop (Suc i) xs"

fun notify_scan :: "signals \<Rightarrow> nat \<Rightarrow> observer list \<Rightarrow> calls \<times> nat list" where
  "notify_scan changed i [] = ([], [])"
| "notify_scan changed i (ob # obs) =
     (let (cs, rm) = notify_scan changed (Suc i) obs
      in if intersects changed (so_trigger ob)
         then ((so_callback ob, changed AND so_trigger ob) # cs, if so_once ob then i # rm else rm)
         else (cs, rm))"

definition ss_notify :: "signals \<Rightarrow> signal_state \<Rightarrow> calls \<times> signal_state" where
  "ss_notify changed s =
     (let (cs, to_remove) = notify_scan changed 0 (ss_observers s)
      in (cs, s\<lparr>ss_observers := fold vec_remove (rev to_remove) (ss_observers s)\<rparr>))"

definition ss_set :: "signals \<Rightarrow> signal_state \<Rightarrow> calls \<times> signal_state" where
  "ss_set x s =
     (let old = ss_signals s;
          s' = s\<lparr>ss_signals := old OR x\<rparr>;
          changed = ss_signals s' AND NOT old
      in if changed \<noteq> 0 then ss_notify changed s' else ([], s'))"

definition ss_clear :: "signals \<Rightarrow> signal_state \<Rightarrow> signal_state" where
  "ss_clear x s = s\<lparr>ss_signals := ss_signals s AND NOT x\<rparr>"

definition ss_add_observer :: "observer \<Rightarrow> signal_state \<Rightarrow> calls \<times> signal_state" where
  "ss_add_observer ob s =
     (let current = ss_signals s;
          pushed = s\<lparr>ss_observers := ss_observers s @ [ob]\<rparr>
      in if intersects current (so_trigger ob)
         then ([(so_callback ob, current AND so_trigger ob)], if so_once ob then s else pushed)
         else ([], pushed))"

definition ss_remove_observer :: "nat \<Rightarrow> signal_state \<Rightarrow> signal_state" where
  "ss_remove_observer k s = s\<lparr>ss_observers := filter (\<lambda>ob. so_key ob \<noteq> k) (ss_observers s)\<rparr>"

section \<open>What notification does\<close>

abbreviation triggered :: "signals \<Rightarrow> observer \<Rightarrow> bool" where
  "triggered changed ob \<equiv> intersects changed (so_trigger ob)"

lemma notify_scan_calls:
  "fst (notify_scan changed i obs) =
     map (\<lambda>ob. (so_callback ob, changed AND so_trigger ob)) (filter (triggered changed) obs)"
  by (induction changed i obs rule: notify_scan.induct) (auto simp: case_prod_beta Let_def)

lemma vec_remove_append: "length pre = i \<Longrightarrow> vec_remove i (pre @ x # xs) = pre @ xs"
  by (simp add: vec_remove_def)

lemma notify_scan_removes:
  assumes "length pre = i"
  shows "fold vec_remove (rev (snd (notify_scan changed i obs))) (pre @ obs) =
    pre @ filter (\<lambda>ob. \<not> (so_once ob \<and> triggered changed ob)) obs"
  using assms
proof (induction changed i obs arbitrary: pre rule: notify_scan.induct)
  case (2 changed i ob obs)
  have "fold vec_remove (rev (snd (notify_scan changed (Suc i) obs))) ((pre @ [ob]) @ obs) =
    (pre @ [ob]) @ filter (\<lambda>ob. \<not> (so_once ob \<and> triggered changed ob)) obs"
    using "2.prems" by (intro "2.IH") simp
  then show ?case
    using "2.prems" by (auto simp: case_prod_beta Let_def vec_remove_append)
qed simp

lemma ss_notify_eq:
  "ss_notify changed s =
     (map (\<lambda>ob. (so_callback ob, changed AND so_trigger ob)) (filter (triggered changed) (ss_observers s)),
      s\<lparr>ss_observers := filter (\<lambda>ob. \<not> (so_once ob \<and> triggered changed ob)) (ss_observers s)\<rparr>)"
  using notify_scan_removes[of "[]" 0 changed "ss_observers s"] notify_scan_calls[of changed 0 "ss_observers s"]
  by (auto simp: ss_notify_def case_prod_beta)

lemma or_and_not: "(a OR b) AND NOT a = b AND NOT (a :: 'a::len word)"
  by (rule bit_word_eqI) (auto simp: bit_simps)

lemma not_triggered_zero: "\<not> triggered 0 ob"
  by (simp add: intersects_def)

lemmas notify_simps = ss_notify_eq or_and_not not_triggered_zero

text \<open>Raising signals calls every observer whose trigger meets a newly raised signal,
  exactly once and in registration order, with the new signals it watches; one-shot observers
  that were called are dropped and all others stay, in order. Signals that were already up call
  nobody.\<close>

theorem ss_set_notifies:
  "ss_set x s =
     (let new = x AND NOT (ss_signals s)
      in (map (\<lambda>ob. (so_callback ob, new AND so_trigger ob))
            (filter (\<lambda>ob. intersects new (so_trigger ob)) (ss_observers s)),
          \<lparr>ss_signals = ss_signals s OR x,
           ss_observers =
             filter (\<lambda>ob. \<not> (so_once ob \<and> intersects new (so_trigger ob))) (ss_observers s)\<rparr>))"
  by (simp add: ss_set_def notify_simps Let_def)

section \<open>One-shot observers over a run\<close>

datatype ss_op = SSet signals | SClear signals | SRemove nat

fun ss_step :: "ss_op \<Rightarrow> signal_state \<Rightarrow> calls \<times> signal_state" where
  "ss_step (SSet x) s = ss_set x s"
| "ss_step (SClear x) s = ([], ss_clear x s)"
| "ss_step (SRemove k) s = ([], ss_remove_observer k s)"

fun ss_run :: "ss_op list \<Rightarrow> signal_state \<Rightarrow> calls \<times> signal_state" where
  "ss_run [] s = ([], s)"
| "ss_run (p # ps) s =
     (let (cs, s') = ss_step p s; (cs', s'') = ss_run ps s' in (cs @ cs', s''))"

definition registered :: "callback \<Rightarrow> signal_state \<Rightarrow> nat" where
  "registered cb s = length (filter (\<lambda>ob. so_callback ob = cb) (ss_observers s))"

definition called :: "callback \<Rightarrow> calls \<Rightarrow> nat" where
  "called cb cs = length (filter (\<lambda>c. fst c = cb) cs)"

definition one_shot :: "callback \<Rightarrow> signal_state \<Rightarrow> bool" where
  "one_shot cb s \<longleftrightarrow> list_all (\<lambda>ob. so_callback ob = cb \<longrightarrow> so_once ob) (ss_observers s)"

lemma called_triggered:
  "called cb (map (\<lambda>ob. (so_callback ob, f ob)) obs) = length (filter (\<lambda>ob. so_callback ob = cb) obs)"
  by (induction obs) (auto simp: called_def)

lemma one_shot_split:
  assumes "list_all (\<lambda>ob. so_callback ob = cb \<longrightarrow> so_once ob) obs"
  shows "length (filter (\<lambda>ob. so_callback ob = cb) (filter (triggered new) obs)) +
    length (filter (\<lambda>ob. so_callback ob = cb) (filter (\<lambda>ob. \<not> (so_once ob \<and> triggered new ob)) obs)) =
    length (filter (\<lambda>ob. so_callback ob = cb) obs)"
  using assms by (induction obs) auto

lemma one_shot_step:
  assumes "one_shot cb s" and "ss_step p s = (cs, s')"
  shows "one_shot cb s' \<and> called cb cs + registered cb s' \<le> registered cb s"
proof (cases p)
  case (SSet x)
  with assms show ?thesis
    using one_shot_split[of cb "ss_observers s" "x AND NOT (ss_signals s)"]
    by (auto simp: ss_set_def notify_simps one_shot_def registered_def called_triggered Let_def
        list_all_iff split: if_splits)
      (simp_all add: called_def)
next
  case (SClear x)
  with assms show ?thesis
    by (auto simp: ss_clear_def one_shot_def registered_def called_def)
next
  case (SRemove k)
  have "length (filter (\<lambda>ob. so_callback ob = cb) (filter (\<lambda>ob. so_key ob \<noteq> k) (ss_observers s)))
    \<le> length (filter (\<lambda>ob. so_callback ob = cb) (ss_observers s))"
    unfolding filter_filter by (rule length_filter_mono) auto
  with SRemove assms show ?thesis
    by (auto simp: ss_remove_observer_def one_shot_def registered_def called_def list_all_iff)
qed

text \<open>Over any sequence of raising, clearing and unregistering, a callback registered only
  for one shot is called at most as often as it was registered.\<close>

theorem one_shot_at_most_once:
  "one_shot cb s \<Longrightarrow> ss_run ps s = (cs, s') \<Longrightarrow> called cb cs + registered cb s' \<le> registered cb s"
proof (induction ps arbitrary: s cs)
  case (Cons p ps)
  obtain c1 s1 where 1: "ss_step p s = (c1, s1)" by force
  obtain c2 s2 where 2: "ss_run ps s1 = (c2, s2)" by force
  from one_shot_step[OF Cons.prems(1) 1]
  have "one_shot cb s1" and "called cb c1 + registered cb s1 \<le> registered cb s" by auto
  moreover from Cons.prems(2) 1 2 have "cs = c1 @ c2" "s2 = s'" by auto
  ultimately show ?case
    using Cons.IH[of s1 c2] 2 by (simp add: called_def)
qed (simp add: called_def)

theorem one_shot_at_most_once_witness:
  "called (PortNotify 7 1)
     (fst (ss_run [SSet READABLE, SClear READABLE, SSet READABLE]
       \<lparr>ss_signals = 0, ss_observers = [\<lparr>so_key = 1, so_trigger = READABLE,
          so_callback = PortNotify 7 1, so_once = True\<rparr>]\<rparr>)) \<le> 1"
proof -
  let ?s = "\<lparr>ss_signals = 0, ss_observers = [\<lparr>so_key = 1, so_trigger = READABLE,
          so_callback = PortNotify 7 1, so_once = True\<rparr>]\<rparr>"
  let ?ps = "[SSet READABLE, SClear READABLE, SSet READABLE]"
  have "one_shot (PortNotify 7 1) ?s" by (simp add: one_shot_def)
  then show ?thesis
    using one_shot_at_most_once[of "PortNotify 7 1" ?s ?ps "fst (ss_run ?ps ?s)" "snd (ss_run ?ps ?s)"]
    by (simp add: registered_def)
qed

end
