(* ===== verification/Handles.thy ===== *)
theory Handles
  imports Ordered_Map Signals
begin

text \<open>
  Handles, rights and the per-process handle table: \<open>kernel/src/object/handle.rs\<close>. Kernel
  objects are named by object identifiers (the \<open>Arc\<close> pointers of the code); a handle is a
  \<open>u32\<close> value. \<open>next_id += 1\<close> panics at the end of the \<open>u32\<close> range in the dev profile.
\<close>

section \<open>Handles and rights\<close>

definition handle_from :: "nat \<Rightarrow> nat" where
  "handle_from v = v mod 2 ^ 32"

definition handle_is_valid :: "nat \<Rightarrow> bool" where
  "handle_is_valid h \<longleftrightarrow> h \<noteq> 0"

type_synonym rights = u32

definition R_READ :: rights where "R_READ = 1"
definition R_WRITE :: rights where "R_WRITE = 2"
definition R_EXECUTE :: rights where "R_EXECUTE = 4"
definition R_MAP :: rights where "R_MAP = 8"
definition R_DUPLICATE :: rights where "R_DUPLICATE = 16"
definition R_TRANSFER :: rights where "R_TRANSFER = 32"
definition R_WAIT :: rights where "R_WAIT = 64"
definition R_SIGNAL :: rights where "R_SIGNAL = 128"
definition R_MANAGE :: rights where "R_MANAGE = 256"
definition R_BASIC :: rights where "R_BASIC = R_READ OR R_WRITE OR R_WAIT"
definition R_ALL :: rights where "R_ALL = 0xFFFFFFFF"

lemmas rights_defs = R_READ_def R_WRITE_def R_EXECUTE_def R_MAP_def R_DUPLICATE_def
  R_TRANSFER_def R_WAIT_def R_SIGNAL_def R_MANAGE_def R_BASIC_def R_ALL_def

text \<open>\<open>ALL\<close> makes every bit a known flag, so \<open>from_bits_truncate\<close> keeps them all.\<close>

definition rights_from_bits_truncate :: "u32 \<Rightarrow> rights" where
  "rights_from_bits_truncate v = from_bits_truncate R_ALL v"

section \<open>The handle table\<close>

record handle_entry =
  he_object :: oid
  he_rights :: rights

record handle_table =
  ht_handles :: "(nat, handle_entry) btree"
  ht_next_id :: nat

definition ht_new :: handle_table where
  "ht_new = \<lparr>ht_handles = [], ht_next_id = 1\<rparr>"

definition ht_insert :: "oid \<Rightarrow> rights \<Rightarrow> handle_table \<Rightarrow> ('e, nat \<times> handle_table) res" where
  "ht_insert obj r t =
     (let h = ht_next_id t
      in if Suc h < 2 ^ 32
         then Ok (h, t\<lparr>ht_next_id := Suc h,
                ht_handles := bt_insert h \<lparr>he_object = obj, he_rights = r\<rparr> (ht_handles t)\<rparr>)
         else Panic)"

definition ht_get :: "handle_table \<Rightarrow> nat \<Rightarrow> rights \<Rightarrow> oid option" where
  "ht_get t h required =
     (case bt_get (ht_handles t) h of
        None \<Rightarrow> None
      | Some e \<Rightarrow> if contains (he_rights e) required then Some (he_object e) else None)"

definition ht_get_entry :: "handle_table \<Rightarrow> nat \<Rightarrow> handle_entry option" where
  "ht_get_entry t h = bt_get (ht_handles t) h"

definition ht_get_unchecked :: "handle_table \<Rightarrow> nat \<Rightarrow> oid option" where
  "ht_get_unchecked t h = map_option he_object (bt_get (ht_handles t) h)"

definition ht_get_rights :: "handle_table \<Rightarrow> nat \<Rightarrow> rights option" where
  "ht_get_rights t h = map_option he_rights (bt_get (ht_handles t) h)"

definition ht_remove :: "nat \<Rightarrow> handle_table \<Rightarrow> handle_entry option \<times> handle_table" where
  "ht_remove h t = (bt_get (ht_handles t) h, t\<lparr>ht_handles := bt_remove h (ht_handles t)\<rparr>)"

definition ht_duplicate ::
  "nat \<Rightarrow> rights \<Rightarrow> handle_table \<Rightarrow> ('e, nat option \<times> handle_table) res" where
  "ht_duplicate h new_rights t =
     (case bt_get (ht_handles t) h of
        None \<Rightarrow> Ok (None, t)
      | Some e \<Rightarrow>
          if \<not> contains (he_rights e) R_DUPLICATE then Ok (None, t)
          else let n = ht_next_id t
               in if Suc n < 2 ^ 32
                  then Ok (Some n, t\<lparr>ht_next_id := Suc n,
                         ht_handles := bt_insert n
                           \<lparr>he_object = he_object e, he_rights = he_rights e AND new_rights\<rparr>
                           (ht_handles t)\<rparr>)
                  else Panic)"

definition ht_transfer :: "nat \<Rightarrow> handle_table \<Rightarrow> (oid \<times> rights) option \<times> handle_table" where
  "ht_transfer h t =
     (case bt_get (ht_handles t) h of
        None \<Rightarrow> (None, t)
      | Some e \<Rightarrow>
          if \<not> contains (he_rights e) R_TRANSFER then (None, t)
          else (Some (he_object e, he_rights e), t\<lparr>ht_handles := bt_remove h (ht_handles t)\<rparr>))"

text \<open>\<open>transfer_many\<close>: a first loop checks every handle, a second one moves them out.\<close>

fun transfer_check :: "nat list \<Rightarrow> handle_table \<Rightarrow> bool" where
  "transfer_check [] t = True"
| "transfer_check (h # hs) t =
     (case bt_get (ht_handles t) h of
        None \<Rightarrow> False
      | Some e \<Rightarrow> if \<not> contains (he_rights e) R_TRANSFER then False else transfer_check hs t)"

fun transfer_take :: "nat list \<Rightarrow> handle_table \<Rightarrow> (oid \<times> rights) list \<times> handle_table" where
  "transfer_take [] t = ([], t)"
| "transfer_take (h # hs) t =
     (case ht_remove h t of
        (Some e, t') \<Rightarrow>
          (let (rs, t'') = transfer_take hs t' in ((he_object e, he_rights e) # rs, t''))
      | (None, t') \<Rightarrow> transfer_take hs t')"

definition ht_transfer_many ::
  "nat list \<Rightarrow> handle_table \<Rightarrow> (oid \<times> rights) list option \<times> handle_table" where
  "ht_transfer_many hs t =
     (if transfer_check hs t then (let (rs, t') = transfer_take hs t in (Some rs, t'))
      else (None, t))"

definition ht_receive :: "oid \<Rightarrow> rights \<Rightarrow> handle_table \<Rightarrow> ('e, nat \<times> handle_table) res" where
  "ht_receive obj r t = ht_insert obj r t"

fun ht_receive_many ::
  "(oid \<times> rights) list \<Rightarrow> handle_table \<Rightarrow> ('e, nat list \<times> handle_table) res" where
  "ht_receive_many [] t = Ok ([], t)"
| "ht_receive_many ((obj, r) # os) t =
     bind_res (ht_insert obj r t) (\<lambda>(h, t').
       bind_res (ht_receive_many os t') (\<lambda>(hs, t''). Ok (h # hs, t'')))"

definition ht_len :: "handle_table \<Rightarrow> nat" where
  "ht_len t = length (ht_handles t)"

definition ht_is_empty :: "handle_table \<Rightarrow> bool" where
  "ht_is_empty t \<longleftrightarrow> ht_handles t = []"

definition ht_clear :: "handle_table \<Rightarrow> handle_table" where
  "ht_clear t = t\<lparr>ht_handles := []\<rparr>"

section \<open>Well-formed tables\<close>

definition ht_wf :: "handle_table \<Rightarrow> bool" where
  "ht_wf t \<longleftrightarrow> bt_wf (ht_handles t) \<and> 1 \<le> ht_next_id t \<and> ht_next_id t < 2 ^ 32 \<and>
     (\<forall>h. bt_get (ht_handles t) h \<noteq> None \<longrightarrow> 1 \<le> h \<and> h < ht_next_id t)"

abbreviation ht_lookup :: "handle_table \<Rightarrow> nat \<Rightarrow> handle_entry option" where
  "ht_lookup t \<equiv> bt_get (ht_handles t)"

lemma ht_wf_new: "ht_wf ht_new"
  by (simp add: ht_wf_def ht_new_def)

lemma ht_wf_fresh: "ht_wf t \<Longrightarrow> ht_next_id t \<le> h \<Longrightarrow> ht_lookup t h = None"
  unfolding ht_wf_def by (meson leD)

lemma ht_wf_remove: "ht_wf t \<Longrightarrow> ht_wf (t\<lparr>ht_handles := bt_remove h (ht_handles t)\<rparr>)"
  by (auto simp: ht_wf_def split: if_splits)

lemma ht_wf_put:
  "ht_wf t \<Longrightarrow> Suc (ht_next_id t) < 2 ^ 32 \<Longrightarrow>
   ht_wf (t\<lparr>ht_next_id := Suc (ht_next_id t), ht_handles := bt_insert (ht_next_id t) e (ht_handles t)\<rparr>)"
  unfolding ht_wf_def by (auto simp: less_Suc_eq split: if_splits)

lemma ht_insert_cases:
  assumes "ht_insert obj r t = Ok (h, t')"
  obtains "h = ht_next_id t" "Suc h < 2 ^ 32"
    "t' = t\<lparr>ht_next_id := Suc h, ht_handles := bt_insert h \<lparr>he_object = obj, he_rights = r\<rparr> (ht_handles t)\<rparr>"
  using assms by (auto simp: ht_insert_def Let_def split: if_splits)

lemma ht_wf_insert: "ht_insert obj r t = Ok (h, t') \<Longrightarrow> ht_wf t \<Longrightarrow> ht_wf t'"
  by (erule ht_insert_cases) (use ht_wf_put in auto)

text \<open>What any operation may do to a table: handles below the old counter keep their entry or
  lose it, and only handles between the old and the new counter are new.\<close>

definition ht_evolves :: "handle_table \<Rightarrow> handle_table \<Rightarrow> bool" where
  "ht_evolves t u \<longleftrightarrow> ht_next_id t \<le> ht_next_id u \<and>
     (\<forall>h < ht_next_id t. ht_lookup u h = None \<or> ht_lookup u h = ht_lookup t h)"

lemma ht_evolves_refl [simp]: "ht_evolves t t"
  by (simp add: ht_evolves_def)

lemma ht_evolves_trans: "ht_evolves t u \<Longrightarrow> ht_evolves u v \<Longrightarrow> ht_evolves t v"
  unfolding ht_evolves_def by (metis order_trans less_le_trans)

lemma ht_evolves_remove: "ht_evolves t (t\<lparr>ht_handles := bt_remove h (ht_handles t)\<rparr>)"
  by (simp add: ht_evolves_def)

lemma ht_evolves_put:
  "ht_evolves t (t\<lparr>ht_next_id := Suc (ht_next_id t), ht_handles := bt_insert (ht_next_id t) e (ht_handles t)\<rparr>)"
  by (simp add: ht_evolves_def)

lemma ht_evolves_insert: "ht_insert obj r t = Ok (h, t') \<Longrightarrow> ht_evolves t t'"
  by (erule ht_insert_cases) (simp add: ht_evolves_def)

lemma transfer_take_preserves:
  "transfer_take hs t = (rs, t') \<Longrightarrow> ht_wf t \<Longrightarrow> ht_wf t' \<and> ht_evolves t t' \<and> ht_next_id t' = ht_next_id t"
proof (induction hs arbitrary: t rs)
  case (Cons h hs)
  let ?u = "t\<lparr>ht_handles := bt_remove h (ht_handles t)\<rparr>"
  obtain rs' where "transfer_take hs ?u = (rs', t')"
    using Cons.prems(1) by (auto simp: ht_remove_def split: option.splits prod.splits)
  then have "ht_wf t'" "ht_evolves ?u t'" "ht_next_id t' = ht_next_id t"
    using Cons.IH[of ?u rs'] Cons.prems(2) ht_wf_remove by auto
  then show ?case
    using ht_evolves_trans[OF ht_evolves_remove] by blast
qed simp

lemma receive_many_preserves:
  "ht_receive_many os t = Ok (hs, t') \<Longrightarrow> ht_wf t \<Longrightarrow> ht_wf t' \<and> ht_evolves t t'"
proof (induction os arbitrary: t hs)
  case (Cons o1 os)
  obtain obj r where o1: "o1 = (obj, r)" by force
  from Cons.prems(1) o1 obtain h u hs' where
    ins: "ht_insert obj r t = (Ok (h, u) :: ('a, nat \<times> handle_table) res)" and
    rest: "ht_receive_many os u = (Ok (hs', t') :: ('a, nat list \<times> handle_table) res)"
    by auto
  from ins Cons.prems(2) have "ht_wf u" "ht_evolves t u"
    by (auto intro: ht_wf_insert ht_evolves_insert)
  with Cons.IH[OF rest] show ?case
    by (auto intro: ht_evolves_trans)
qed simp

section \<open>Runs of table operations\<close>

datatype ht_op =
    HInsert oid rights
  | HRemove nat
  | HDuplicate nat rights
  | HTransfer nat
  | HTransferMany "nat list"
  | HReceiveMany "(oid \<times> rights) list"
  | HClear

fun ht_step :: "ht_op \<Rightarrow> handle_table \<Rightarrow> (unit, handle_table) res" where
  "ht_step (HInsert obj r) t = bind_res (ht_insert obj r t) (\<lambda>(h, t'). Ok t')"
| "ht_step (HRemove h) t = Ok (snd (ht_remove h t))"
| "ht_step (HDuplicate h r) t = bind_res (ht_duplicate h r t) (\<lambda>(h', t'). Ok t')"
| "ht_step (HTransfer h) t = Ok (snd (ht_transfer h t))"
| "ht_step (HTransferMany hs) t = Ok (snd (ht_transfer_many hs t))"
| "ht_step (HReceiveMany os) t = bind_res (ht_receive_many os t) (\<lambda>(hs, t'). Ok t')"
| "ht_step HClear t = Ok (ht_clear t)"

fun ht_run :: "ht_op list \<Rightarrow> handle_table \<Rightarrow> (unit, handle_table) res" where
  "ht_run [] t = Ok t"
| "ht_run (p # ps) t = bind_res (ht_step p t) (ht_run ps)"

lemma ht_step_preserves: "ht_step p t = Ok u \<Longrightarrow> ht_wf t \<Longrightarrow> ht_wf u \<and> ht_evolves t u"
proof (induction p t rule: ht_step.induct)
  case (3 h r t)
  then show ?case
    by (auto simp: ht_duplicate_def Let_def ht_evolves_put split: option.splits if_splits
        intro!: ht_wf_put)
next
  case (4 h t)
  then show ?case
    by (auto simp: ht_transfer_def ht_evolves_remove ht_wf_remove split: option.splits)
next
  case (5 hs t)
  then show ?case
    by (auto simp: ht_transfer_many_def split: prod.splits dest: transfer_take_preserves)
next
  case (7 t)
  then show ?case by (auto simp: ht_clear_def ht_wf_def ht_evolves_def)
qed (auto simp: ht_remove_def ht_evolves_remove ht_wf_remove
      intro: ht_wf_insert ht_evolves_insert dest: receive_many_preserves)

lemma ht_run_preserves: "ht_run ps t = Ok u \<Longrightarrow> ht_wf t \<Longrightarrow> ht_wf u \<and> ht_evolves t u"
proof (induction ps arbitrary: t)
  case (Cons p ps)
  then obtain s where "ht_step p t = Ok s" "ht_run ps s = Ok u" by auto
  with Cons show ?case
    using ht_step_preserves ht_evolves_trans by blast
qed simp

text \<open>C33: every table reached from \<open>HandleTable::new\<close> by any sequence of operations is
  well-formed: keys are sorted and unique, no entry sits under the invalid handle 0, and every
  handle lies below the counter, so the next handle handed out is fresh.\<close>

theorem handle_table_invariant: "ht_run ps ht_new = Ok t \<Longrightarrow> ht_wf t"
  using ht_run_preserves ht_wf_new by blast

theorem handle_table_invariant_witness:
  "\<exists>t. ht_run [HInsert 5 R_ALL, HDuplicate 1 R_READ, HRemove 1] ht_new = Ok t \<and> ht_wf t"
proof -
  let ?ps = "[HInsert 5 R_ALL, HDuplicate 1 R_READ, HRemove 1]"
  let ?t = "\<lparr>ht_handles = [(2, \<lparr>he_object = 5, he_rights = R_READ\<rparr>)], ht_next_id = 3\<rparr>"
  have "ht_run ?ps ht_new = Ok ?t"
    by (simp add: ht_new_def ht_insert_def ht_duplicate_def ht_remove_def bt_get_def bt_remove_def
        contains_def rights_defs)
  with handle_table_invariant show ?thesis by blast
qed

text \<open>Handle values are never reused. Once a handle the table has given out is closed or
  transferred away, no later sequence of operations makes it valid again.\<close>

theorem closed_handle_stays_closed:
  assumes "ht_wf t" and "h < ht_next_id t" and "ht_get_entry t h = None"
    and "ht_run ps t = Ok u"
  shows "ht_get_entry u h = None"
  using ht_run_preserves[OF assms(4,1)] assms(2,3)
  by (auto simp: ht_evolves_def ht_get_entry_def)

theorem closed_handle_stays_closed_witness:
  "\<exists>u. ht_run [HInsert 9 R_ALL] \<lparr>ht_handles = [], ht_next_id = 2\<rparr> = Ok u \<and> ht_get_entry u 1 = None"
proof -
  let ?t = "\<lparr>ht_handles = [], ht_next_id = 2\<rparr>"
  have wf: "ht_wf ?t" and run: "\<exists>u. ht_run [HInsert 9 R_ALL] ?t = Ok u"
    by (simp_all add: ht_wf_def ht_insert_def)
  from run obtain u where u: "ht_run [HInsert 9 R_ALL] ?t = Ok u" by blast
  have "ht_get_entry u 1 = None"
    by (rule closed_handle_stays_closed[OF wf _ _ u]) (simp_all add: ht_get_entry_def)
  with u show ?thesis by blast
qed

section \<open>Rights\<close>

text \<open>\<open>get\<close> yields an object exactly when the handle is present with every required
  right.\<close>

theorem ht_get_iff:
  "ht_get t h required = Some obj \<longleftrightarrow>
     (\<exists>e. ht_get_entry t h = Some e \<and> he_object e = obj \<and> contains (he_rights e) required)"
  by (auto simp: ht_get_def ht_get_entry_def split: option.splits)

text \<open>\<open>duplicate\<close> refuses a handle without the \<open>DUPLICATE\<close> right and leaves the table as it
  was; otherwise it adds one fresh handle to the same object, whose rights are the requested ones
  that the original already had, and every other handle is unchanged.\<close>

theorem duplicate_attenuates:
  assumes "ht_wf t" and "ht_duplicate h req t = Ok (out, t')"
  shows "(\<not> (\<exists>e. ht_get_entry t h = Some e \<and> contains (he_rights e) R_DUPLICATE) \<and> out = None \<and> t' = t) \<or>
    (\<exists>e n. ht_get_entry t h = Some e \<and> contains (he_rights e) R_DUPLICATE \<and> out = Some n \<and>
       ht_get_entry t n = None \<and>
       ht_get_entry t' n = Some \<lparr>he_object = he_object e, he_rights = he_rights e AND req\<rparr> \<and>
       contains (he_rights e) (he_rights e AND req) \<and>
       (\<forall>j. j \<noteq> n \<longrightarrow> ht_get_entry t' j = ht_get_entry t j))"
proof (cases "\<exists>e. ht_get_entry t h = Some e \<and> contains (he_rights e) R_DUPLICATE")
  case False
  with assms(2) show ?thesis
    by (auto simp: ht_duplicate_def ht_get_entry_def split: option.splits if_splits)
next
  case True
  then obtain e where e: "ht_get_entry t h = Some e" "contains (he_rights e) R_DUPLICATE" by blast
  have "ht_get_entry t (ht_next_id t) = None"
    using ht_wf_fresh[OF assms(1)] by (simp add: ht_get_entry_def)
  with e assms(2) show ?thesis
    by (auto simp: ht_duplicate_def ht_get_entry_def Let_def split: if_splits)
qed

theorem duplicate_attenuates_witness:
  "\<exists>t'. ht_duplicate 1 R_READ \<lparr>ht_handles = [(1, \<lparr>he_object = 5, he_rights = R_ALL\<rparr>)], ht_next_id = 2\<rparr>
      = (Ok (Some 2, t') :: (unit, nat option \<times> handle_table) res) \<and>
     ht_get_entry t' 2 = Some \<lparr>he_object = 5, he_rights = R_READ\<rparr>"
proof -
  let ?t = "\<lparr>ht_handles = [(1::nat, \<lparr>he_object = 5, he_rights = R_ALL\<rparr>)], ht_next_id = 2\<rparr>"
  have wf: "ht_wf ?t" by (simp add: ht_wf_def bt_wf_def bt_get_def)
  obtain t' where dup: "ht_duplicate 1 R_READ ?t = (Ok (Some 2, t') :: (unit, nat option \<times> handle_table) res)"
    by (simp add: ht_duplicate_def bt_get_def contains_def rights_defs)
  have get: "ht_get_entry ?t 1 = Some \<lparr>he_object = 5, he_rights = R_ALL\<rparr>"
    by (simp add: ht_get_entry_def bt_get_def)
  have "R_ALL AND R_READ = R_READ" by (simp add: rights_defs)
  with duplicate_attenuates[OF wf dup] get have "ht_get_entry t' 2 = Some \<lparr>he_object = 5, he_rights = R_READ\<rparr>"
    by auto
  with dup show ?thesis by blast
qed

text \<open>Authority over an object: some handle of the table reaches it with these rights.\<close>

definition authority :: "handle_table \<Rightarrow> oid \<Rightarrow> rights \<Rightarrow> bool" where
  "authority t obj r \<longleftrightarrow> (\<exists>h e. ht_lookup t h = Some e \<and> he_object e = obj \<and> contains (he_rights e) r)"

fun ht_imports :: "ht_op \<Rightarrow> (oid \<times> rights) list" where
  "ht_imports (HInsert obj r) = [(obj, r)]"
| "ht_imports (HReceiveMany os) = os"
| "ht_imports _ = []"

definition granted :: "(oid \<times> rights) list \<Rightarrow> oid \<Rightarrow> rights \<Rightarrow> bool" where
  "granted gs obj r \<longleftrightarrow> (\<exists>g. (obj, g) \<in> set gs \<and> contains g r)"

lemma granted_append [simp]: "granted (xs @ ys) obj r \<longleftrightarrow> granted xs obj r \<or> granted ys obj r"
  by (auto simp: granted_def)

lemma authority_put:
  assumes "authority (t\<lparr>ht_next_id := n, ht_handles := bt_insert k e (ht_handles t)\<rparr>) obj r"
  shows "authority t obj r \<or> he_object e = obj \<and> contains (he_rights e) r"
  using assms by (auto simp: authority_def split: if_splits)

lemma authority_shrink:
  "authority u obj r \<Longrightarrow> (\<And>h. ht_lookup u h = None \<or> ht_lookup u h = ht_lookup t h) \<Longrightarrow> authority t obj r"
  unfolding authority_def by (metis option.discI)

lemma authority_remove:
  "authority (t\<lparr>ht_handles := bt_remove h (ht_handles t)\<rparr>) obj r \<Longrightarrow> authority t obj r"
  by (erule authority_shrink) simp

lemma authority_insert:
  "ht_insert obj r t = Ok (h, t') \<Longrightarrow> authority t' ob q \<Longrightarrow> authority t ob q \<or> granted [(obj, r)] ob q"
  by (erule ht_insert_cases) (auto simp: granted_def dest: authority_put)

lemma authority_receive_many:
  "ht_receive_many os t = Ok (hs, t') \<Longrightarrow> authority t' ob q \<Longrightarrow> authority t ob q \<or> granted os ob q"
proof (induction os arbitrary: t hs)
  case (Cons o1 os)
  obtain obj r where o1: "o1 = (obj, r)" by force
  from Cons.prems(1) o1 obtain h u hs' where
    ins: "ht_insert obj r t = (Ok (h, u) :: ('a, nat \<times> handle_table) res)" and
    rest: "ht_receive_many os u = (Ok (hs', t') :: ('a, nat list \<times> handle_table) res)"
    by auto
  from Cons.IH[OF rest Cons.prems(2)] authority_insert[OF ins] o1 show ?case
    by (auto simp: granted_def)
qed simp

lemma authority_transfer_take:
  "transfer_take hs t = (rs, t') \<Longrightarrow> authority t' ob q \<Longrightarrow> authority t ob q"
proof (induction hs arbitrary: t rs)
  case (Cons h hs)
  let ?u = "t\<lparr>ht_handles := bt_remove h (ht_handles t)\<rparr>"
  obtain rs' where "transfer_take hs ?u = (rs', t')"
    using Cons.prems(1) by (auto simp: ht_remove_def split: option.splits prod.splits)
  then have "authority ?u ob q"
    using Cons.IH[of ?u rs'] Cons.prems(2) by blast
  then show ?case
    by (rule authority_remove)
qed simp

lemma authority_step:
  assumes "ht_step p t = Ok u" and "authority u ob q"
  shows "authority t ob q \<or> granted (ht_imports p) ob q"
proof (cases p)
  case (HDuplicate h r)
  with assms show ?thesis
    by (auto simp: ht_duplicate_def Let_def authority_def granted_def
        split: option.splits if_splits)
      (metis contains_trans contains_and_left)+
next
  case (HTransferMany hs)
  with assms show ?thesis
    by (auto simp: ht_transfer_many_def split: if_splits prod.splits dest: authority_transfer_take)
next
  case HClear
  with assms show ?thesis by (auto simp: ht_clear_def authority_def)
qed (use assms in \<open>auto simp: ht_remove_def ht_transfer_def split: option.splits if_splits
       dest: authority_remove dest!: authority_insert authority_receive_many\<close>)

text \<open>Authority is confined. After any sequence of table operations, a right held over an
  object was held at the start or was imported by an insertion or a received message that carried
  at least that right.\<close>

theorem authority_confined:
  "ht_run ps t = Ok u \<Longrightarrow> authority u obj r \<Longrightarrow>
   authority t obj r \<or> granted (concat (map ht_imports ps)) obj r"
proof (induction ps arbitrary: t)
  case (Cons p ps)
  then obtain s where "ht_step p t = Ok s" "ht_run ps s = Ok u" by auto
  with Cons authority_step show ?case by fastforce
qed simp

theorem authority_confined_witness:
  "\<not> authority \<lparr>ht_handles = [(2, \<lparr>he_object = 5, he_rights = R_READ\<rparr>)], ht_next_id = 3\<rparr> 5 R_WRITE"
proof
  let ?t = "\<lparr>ht_handles = [(1::nat, \<lparr>he_object = 5, he_rights = R_READ OR R_DUPLICATE\<rparr>)], ht_next_id = 2\<rparr>"
  let ?u = "\<lparr>ht_handles = [(2::nat, \<lparr>he_object = 5, he_rights = R_READ\<rparr>)], ht_next_id = 3\<rparr>"
  assume "authority ?u 5 R_WRITE"
  moreover have "ht_run [HDuplicate 1 R_READ, HRemove 1] ?t = Ok ?u"
    by (simp add: ht_duplicate_def ht_remove_def bt_get_def bt_remove_def contains_def rights_defs)
  ultimately have "authority ?t 5 R_WRITE \<or> granted [] 5 R_WRITE"
    using authority_confined[of "[HDuplicate 1 R_READ, HRemove 1]" ?t ?u 5 R_WRITE] by simp
  then show False
    by (auto simp: authority_def granted_def bt_get_def contains_def rights_defs split: if_splits)
qed

section \<open>Moving capabilities between tables\<close>

definition ht_caps :: "handle_table \<Rightarrow> (oid \<times> rights) multiset" where
  "ht_caps t = image_mset (\<lambda>(h, e). (he_object e, he_rights e)) (mset (ht_handles t))"

lemma ht_wf_bt: "ht_wf t \<Longrightarrow> bt_wf (ht_handles t)"
  by (simp add: ht_wf_def)

lemma ht_caps_put:
  assumes "ht_wf t"
  shows "ht_caps (t\<lparr>ht_next_id := n, ht_handles := bt_insert (ht_next_id t) e (ht_handles t)\<rparr>) =
     add_mset (he_object e, he_rights e) (ht_caps t)"
  using btm.mset_entries_put[OF ht_wf_bt[OF assms] ht_wf_fresh[OF assms order_refl]]
  by (simp add: ht_caps_def)

lemma ht_caps_remove:
  assumes "ht_wf t" and "ht_lookup t h = Some e"
  shows "ht_caps t =
    add_mset (he_object e, he_rights e) (ht_caps (t\<lparr>ht_handles := bt_remove h (ht_handles t)\<rparr>))"
  using btm.mset_entries_del[OF ht_wf_bt[OF assms(1)] assms(2)] by (simp add: ht_caps_def)

lemma transfer_take_caps:
  "transfer_take hs t = (rs, t') \<Longrightarrow> ht_wf t \<Longrightarrow> ht_caps t = ht_caps t' + mset rs"
proof (induction hs arbitrary: t rs)
  case (Cons h hs)
  let ?u = "t\<lparr>ht_handles := bt_remove h (ht_handles t)\<rparr>"
  show ?case
  proof (cases "ht_lookup t h")
    case None
    with Cons show ?thesis
      using ht_wf_remove[of t h] bt_remove_absent[OF None] by (simp add: ht_remove_def)
  next
    case (Some e)
    with Cons.prems(1) obtain rs' where
      "transfer_take hs ?u = (rs', t')" "rs = (he_object e, he_rights e) # rs'"
      by (auto simp: ht_remove_def split: prod.splits)
    with Cons Some show ?thesis
      using ht_wf_remove[of t h] ht_caps_remove[of t h e] by simp
  qed
qed simp

lemma receive_many_caps:
  "ht_receive_many os t = Ok (hs, t') \<Longrightarrow> ht_wf t \<Longrightarrow> ht_caps t' = ht_caps t + mset os"
proof (induction os arbitrary: t hs)
  case (Cons o1 os)
  obtain obj r where o1: "o1 = (obj, r)" by force
  from Cons.prems(1) o1 obtain h u hs' where
    ins: "ht_insert obj r t = (Ok (h, u) :: ('a, nat \<times> handle_table) res)" and
    rest: "ht_receive_many os u = (Ok (hs', t') :: ('a, nat list \<times> handle_table) res)"
    by auto
  have "ht_caps u = add_mset (obj, r) (ht_caps t)"
    using ins Cons.prems(2) by (auto elim!: ht_insert_cases simp: ht_caps_put)
  moreover have "ht_wf u" using ins Cons.prems(2) by (rule ht_wf_insert)
  ultimately show ?case
    using Cons.IH[OF rest] o1 by simp
qed simp

lemma transfer_check_iff:
  "transfer_check hs t \<longleftrightarrow> (\<forall>h \<in> set hs. \<exists>e. ht_lookup t h = Some e \<and> contains (he_rights e) R_TRANSFER)"
  by (induction hs) (auto split: option.splits)

lemma transfer_take_lookup:
  "transfer_take hs t = (rs, t') \<Longrightarrow> ht_lookup t' h = (if h \<in> set hs then None else ht_lookup t h)"
proof (induction hs arbitrary: t rs)
  case (Cons h' hs)
  let ?u = "t\<lparr>ht_handles := bt_remove h' (ht_handles t)\<rparr>"
  obtain rs' where "transfer_take hs ?u = (rs', t')"
    using Cons.prems by (auto simp: ht_remove_def split: option.splits prod.splits)
  from Cons.IH[OF this] show ?case by simp
qed simp

text \<open>The elements of a list without repetitions, in the order of their first occurrences.\<close>

fun firsts :: "'a list \<Rightarrow> 'a list" where
  "firsts [] = []"
| "firsts (x # xs) = x # removeAll x (firsts xs)"

lemma set_firsts [simp]: "set (firsts xs) = set xs"
  by (induction xs) auto

lemma firsts_distinct: "distinct xs \<Longrightarrow> firsts xs = xs"
  by (induction xs) auto

lemma transfer_take_results:
  assumes "transfer_take hs t = (rs, t')"
  shows "map Some rs = map (\<lambda>h. map_option (\<lambda>e. (he_object e, he_rights e)) (ht_lookup t h)) (filter (\<lambda>h. ht_lookup t h \<noteq> None) (firsts hs))"
  using assms
proof (induction hs arbitrary: t rs)
  case (Cons h hs)
  let ?u = "t\<lparr>ht_handles := bt_remove h (ht_handles t)\<rparr>"
  obtain rs' where take: "transfer_take hs ?u = (rs', t')" "rs = (case ht_lookup t h of None \<Rightarrow> rs' | Some e \<Rightarrow> (he_object e, he_rights e) # rs')"
    using Cons.prems by (auto simp: ht_remove_def split: option.splits prod.splits)
  have "filter (\<lambda>k. ht_lookup ?u k \<noteq> None) (firsts hs) = filter (\<lambda>k. ht_lookup t k \<noteq> None) (removeAll h (firsts hs))"
    unfolding removeAll_filter_not_eq filter_filter by (rule filter_cong) auto
  with Cons.IH[OF take(1)]
  have "map Some rs' = map (\<lambda>k. map_option (\<lambda>e. (he_object e, he_rights e)) (ht_lookup t k)) (filter (\<lambda>k. ht_lookup t k \<noteq> None) (removeAll h (firsts hs)))"
    by (auto intro!: map_cong)
  with take(2) show ?case by (auto split: option.splits)
qed simp

text \<open>C27: \<open>transfer_many\<close> is all or nothing. If a handle is missing or lacks \<open>TRANSFER\<close> it fails and the table is untouched; otherwise it returns the object and the
  rights behind each of the handles, in the order in which they are first given, and removes exactly those handles. A handle that is given more than once counts once.\<close>

theorem transfer_many_all_or_nothing:
  assumes "ht_transfer_many hs t = (out, t')"
  shows "case out of
      None \<Rightarrow> t' = t \<and>
        (\<exists>h \<in> set hs. \<forall>e. ht_get_entry t h = Some e \<longrightarrow> \<not> contains (he_rights e) R_TRANSFER)
    | Some rs \<Rightarrow>
        map Some rs = map (\<lambda>h. map_option (\<lambda>e. (he_object e, he_rights e)) (ht_get_entry t h)) (firsts hs) \<and>
        (\<forall>h \<in> set hs. \<exists>e. ht_get_entry t h = Some e \<and> contains (he_rights e) R_TRANSFER) \<and>
        (\<forall>h. ht_get_entry t' h = (if h \<in> set hs then None else ht_get_entry t h))"
proof (cases "transfer_check hs t")
  case True
  with assms obtain rs where "out = Some rs" and take: "transfer_take hs t = (rs, t')"
    by (auto simp: ht_transfer_many_def split: prod.splits)
  moreover from True have all: "\<forall>h \<in> set hs. \<exists>e. ht_lookup t h = Some e \<and> contains (he_rights e) R_TRANSFER"
    by (simp add: transfer_check_iff)
  then have "filter (\<lambda>h. ht_lookup t h \<noteq> None) (firsts hs) = firsts hs" by (intro filter_True) auto
  ultimately show ?thesis
    using transfer_take_results[OF take] transfer_take_lookup[OF take] all by (simp add: ht_get_entry_def)
next
  case False
  with assms have "out = None" "t' = t"
    by (simp_all add: ht_transfer_many_def)
  with False show ?thesis
    by (auto simp: transfer_check_iff ht_get_entry_def)
qed

theorem transfer_many_all_or_nothing_witness:
  "snd (ht_transfer_many [1, 2] \<lparr>ht_handles = [(1, \<lparr>he_object = 5, he_rights = R_ALL\<rparr>)], ht_next_id = 2\<rparr>)
     = \<lparr>ht_handles = [(1, \<lparr>he_object = 5, he_rights = R_ALL\<rparr>)], ht_next_id = 2\<rparr> \<and>
   (\<exists>t'. ht_transfer_many [2, 1, 2] \<lparr>ht_handles = [(1, \<lparr>he_object = 5, he_rights = R_ALL\<rparr>), (2, \<lparr>he_object = 6, he_rights = R_ALL\<rparr>)], ht_next_id = 3\<rparr>
      = (Some [(6, R_ALL), (5, R_ALL)], t') \<and> ht_get_entry t' 1 = None)"
proof -
  let ?t = "\<lparr>ht_handles = [(1::nat, \<lparr>he_object = 5, he_rights = R_ALL\<rparr>)], ht_next_id = 2\<rparr>"
  let ?u = "\<lparr>ht_handles = [(1::nat, \<lparr>he_object = 5, he_rights = R_ALL\<rparr>), (2, \<lparr>he_object = 6, he_rights = R_ALL\<rparr>)], ht_next_id = 3\<rparr>"
  obtain t' where "ht_transfer_many [1, 2] ?t = (None, t')"
    by (simp add: ht_transfer_many_def bt_get_def contains_def rights_defs)
  with transfer_many_all_or_nothing[of "[1, 2]" ?t None t'] have "snd (ht_transfer_many [1, 2] ?t) = ?t" by simp
  moreover have "transfer_check [2, 1, 2] ?u" by (simp add: bt_get_def contains_def rights_defs)
  then obtain rs t' where u: "ht_transfer_many [2, 1, 2] ?u = (Some rs, t')"
    by (cases "transfer_take [2, 1, 2] ?u") (auto simp: ht_transfer_many_def)
  from transfer_many_all_or_nothing[OF u] have "map Some rs = map Some [(6, R_ALL), (5, R_ALL)]" "ht_get_entry t' 1 = None"
    by (simp_all add: ht_get_entry_def bt_get_def)
  with u have "ht_transfer_many [2, 1, 2] ?u = (Some [(6, R_ALL), (5, R_ALL)], t')" "ht_get_entry t' 1 = None" by (auto dest: map_injective)
  ultimately show ?thesis by blast
qed

text \<open>Moving handles from one process to another through a message neither creates nor
  destroys capabilities: the object references with their rights in both tables together are the
  same multiset before and after.\<close>

theorem transfer_conserves_capabilities:
  assumes "ht_wf t" and "ht_wf u"
    and "ht_transfer_many hs t = (Some rs, t')"
    and "ht_receive_many rs u = Ok (hs', u')"
  shows "ht_caps t' + ht_caps u' = ht_caps t + ht_caps u"
proof -
  have "transfer_take hs t = (rs, t')"
    using assms(3) by (auto simp: ht_transfer_many_def split: if_splits prod.splits)
  then have "ht_caps t = ht_caps t' + mset rs"
    using assms(1) by (rule transfer_take_caps)
  with receive_many_caps[OF assms(4,2)] show ?thesis by simp
qed

theorem transfer_conserves_capabilities_witness:
  "\<exists>t' u'. ht_transfer_many [1] \<lparr>ht_handles = [(1, \<lparr>he_object = 5, he_rights = R_ALL\<rparr>)], ht_next_id = 2\<rparr>
      = (Some [(5, R_ALL)], t') \<and>
    ht_receive_many [(5, R_ALL)] ht_new = (Ok ([1], u') :: (unit, nat list \<times> handle_table) res) \<and>
    ht_caps t' + ht_caps u' = {#(5, R_ALL)#}"
proof -
  let ?t = "\<lparr>ht_handles = [(1::nat, \<lparr>he_object = 5, he_rights = R_ALL\<rparr>)], ht_next_id = 2\<rparr>"
  have wf: "ht_wf ?t" by (simp add: ht_wf_def bt_wf_def bt_get_def)
  obtain t' where tr: "ht_transfer_many [1] ?t = (Some [(5, R_ALL)], t')"
    by (simp add: ht_transfer_many_def ht_remove_def bt_get_def contains_def rights_defs)
  obtain u' where rc: "ht_receive_many [(5, R_ALL)] ht_new = (Ok ([1], u') :: (unit, nat list \<times> handle_table) res)"
    by (simp add: ht_insert_def ht_new_def)
  have "ht_caps t' + ht_caps u' = {#(5, R_ALL)#}"
    using transfer_conserves_capabilities[OF wf ht_wf_new tr rc] by (simp add: ht_caps_def ht_new_def)
  with tr rc show ?thesis by blast
qed

section \<open>What moves\<close>

lemma receive_many_lookup:
  "ht_receive_many os t = Ok (hs, t') \<Longrightarrow> ht_lookup t' h = Some e \<Longrightarrow>
   ht_lookup t h = Some e \<or> (he_object e, he_rights e) \<in> set os"
proof (induction os arbitrary: t hs)
  case (Cons o1 os)
  obtain obj r where o1: "o1 = (obj, r)" by force
  from Cons.prems(1) o1 obtain n u hs' where
    ins: "ht_insert obj r t = (Ok (n, u) :: ('a, nat \<times> handle_table) res)" and
    rest: "ht_receive_many os u = (Ok (hs', t') :: ('a, nat list \<times> handle_table) res)"
    by auto
  from Cons.IH[OF rest Cons.prems(2)] ins o1 show ?case
    by (auto elim!: ht_insert_cases split: if_splits)
qed simp

lemma transfer_take_subset:
  "transfer_take hs t = (rs, t') \<Longrightarrow> (x, q) \<in> set rs \<Longrightarrow> \<exists>h e. ht_lookup t h = Some e \<and> he_object e = x \<and> he_rights e = q"
proof (induction hs arbitrary: t rs)
  case (Cons h hs)
  let ?u = "t\<lparr>ht_handles := bt_remove h (ht_handles t)\<rparr>"
  obtain rs' where rs': "transfer_take hs ?u = (rs', t')"
    using Cons.prems(1) by (auto simp: ht_remove_def split: option.splits prod.splits)
  have *: "\<exists>h e. ht_lookup t h = Some e \<and> he_object e = x \<and> he_rights e = q" if "(x, q) \<in> set rs'"
    using Cons.IH[OF rs' that] by (auto split: if_splits)
  show ?case
  proof (cases "ht_lookup t h")
    case None
    with Cons.prems rs' * show ?thesis by (auto simp: ht_remove_def)
  next
    case (Some e)
    with Cons.prems rs' have "(x, q) = (he_object e, he_rights e) \<or> (x, q) \<in> set rs'" by (auto simp: ht_remove_def)
    with Some * show ?thesis by blast
  qed
qed simp

lemma receive_many_keeps: "ht_receive_many os t = Ok (hs, t') \<Longrightarrow> h < ht_next_id t \<Longrightarrow> ht_lookup t' h = ht_lookup t h"
proof (induction os arbitrary: t hs)
  case (Cons o1 os)
  obtain obj r where o1: "o1 = (obj, r)" by force
  from Cons.prems(1) o1 obtain n u hs' where
    ins: "ht_insert obj r t = (Ok (n, u) :: ('a, nat \<times> handle_table) res)" and
    rest: "ht_receive_many os u = (Ok (hs', t') :: ('a, nat list \<times> handle_table) res)"
    by auto
  with Cons.IH[OF rest] Cons.prems(2) show ?case by (auto elim!: ht_insert_cases)
qed simp

lemma receive_many_results:
  assumes "ht_receive_many os t = Ok (hs, t')" and "ht_wf t"
  shows "hs = [ht_next_id t..<ht_next_id t + length os] \<and> ht_next_id t + length os < 2 ^ 32 \<and>
    (\<forall>i < length os. ht_lookup t' (ht_next_id t + i) = Some \<lparr>he_object = fst (os ! i), he_rights = snd (os ! i)\<rparr>)"
  using assms
proof (induction os arbitrary: t hs)
  case Nil
  then show ?case by (simp add: ht_wf_def)
next
  case (Cons o1 os)
  obtain obj r where o1: "o1 = (obj, r)" by force
  from Cons.prems(1) o1 obtain n u hs' where
    ins: "ht_insert obj r t = (Ok (n, u) :: ('a, nat \<times> handle_table) res)" and
    rest: "ht_receive_many os u = (Ok (hs', t') :: ('a, nat list \<times> handle_table) res)" and hs: "hs = n # hs'"
    by auto
  from ins have n: "n = ht_next_id t" "ht_next_id u = Suc n" "ht_lookup u n = Some \<lparr>he_object = obj, he_rights = r\<rparr>"
    by (auto elim!: ht_insert_cases)
  have wf: "ht_wf u" using ins Cons.prems(2) by (rule ht_wf_insert)
  note IH = Cons.IH[OF rest wf]
  have "ht_lookup t' n = ht_lookup u n" using receive_many_keeps[OF rest, of n] n(2) by simp
  moreover have "[n..<n + Suc (length os)] = n # [Suc n..<n + Suc (length os)]" by (rule upt_conv_Cons) simp
  ultimately show ?case using IH n hs o1
    by (auto simp: less_Suc_eq_0_disj simp del: upt_Suc)
qed

lemma transfer_many_results:
  assumes "ht_transfer_many hs t = (Some obs, t')" and "distinct hs"
  shows "length obs = length hs \<and> (\<forall>i < length hs.
    ht_lookup t (hs ! i) = Some \<lparr>he_object = fst (obs ! i), he_rights = snd (obs ! i)\<rparr> \<and> ht_lookup t' (hs ! i) = None)"
proof -
  have take: "transfer_take hs t = (obs, t')" and chk: "\<forall>h \<in> set hs. ht_lookup t h \<noteq> None"
    using assms(1) by (auto simp: ht_transfer_many_def transfer_check_iff split: if_splits prod.splits)
  have "filter (\<lambda>h. ht_lookup t h \<noteq> None) hs = hs" using chk by simp
  then have eq: "map Some obs = map (\<lambda>h. map_option (\<lambda>e. (he_object e, he_rights e)) (ht_lookup t h)) hs"
    using transfer_take_results[OF take] firsts_distinct[OF assms(2)] by simp
  from arg_cong[OF eq, of length] have len: "length obs = length hs" by simp
  have "ht_lookup t (hs ! i) = Some \<lparr>he_object = fst (obs ! i), he_rights = snd (obs ! i)\<rparr>" if "i < length hs" for i
  proof -
    from arg_cong[OF eq, of "\<lambda>xs. xs ! i"] len that
    have "Some (obs ! i) = map_option (\<lambda>e. (he_object e, he_rights e)) (ht_lookup t (hs ! i))" by simp
    then show ?thesis by (cases "ht_lookup t (hs ! i)") auto
  qed
  with len transfer_take_lookup[OF take] show ?thesis by simp
qed

end
