(* ===== verification/Frames.thy ===== *)
theory Frames
  imports Prelude
begin

text \<open>
  Physical frames: the allocators of \<open>kernel/crates/rmm/src/allocator/frame\<close> for the
  \<open>X8664Arch\<close> architecture. Kernel memory is a function from virtual addresses to bytes, reached
  through the direct map (\<open>phys_to_virt\<close>). The page that holds the table of \<open>BuddyEntry\<close>
  values is modelled as a list of 128 records, since no entry covers that page; the usage bytes and the
  contents of the frames are bytes of the memory.
\<close>

section \<open>Addresses\<close>

type_synonym kmem = "nat \<Rightarrow> u8"

definition PAGE_SHIFT :: nat where "PAGE_SHIFT = 12"
definition PAGE_SIZE :: nat where "PAGE_SIZE = 4096"
definition PAGE_OFFSET_MASK :: nat where "PAGE_OFFSET_MASK = PAGE_SIZE - 1"
definition PHYS_OFFSET :: nat where "PHYS_OFFSET = 0xFFFF800000000000"

definition phys_to_virt :: "nat \<Rightarrow> ('e, nat) res" where
  "phys_to_virt p = (if p + PHYS_OFFSET < usize_limit then Ok (p + PHYS_OFFSET) else Panic)"

text \<open>\<open>x >> PAGE_SHIFT\<close> and \<open>x << PAGE_SHIFT\<close> on \<open>usize\<close>; the left shift drops high bits.\<close>

definition shr_page :: "nat \<Rightarrow> nat" where
  "shr_page x = x div 2 ^ PAGE_SHIFT"

definition shl_page :: "nat \<Rightarrow> nat" where
  "shl_page x = x * 2 ^ PAGE_SHIFT mod usize_limit"

definition write_bytes :: "nat \<Rightarrow> u8 \<Rightarrow> nat \<Rightarrow> kmem \<Rightarrow> kmem" where
  "write_bytes a v n m = (\<lambda>x. if a \<le> x \<and> x < a + n then v else m x)"

record memory_area =
  ma_base :: nat
  ma_size :: nat

record frame_usage =
  fu_used :: nat
  fu_total :: nat

definition fu_free :: "frame_usage \<Rightarrow> (unit, nat) res" where
  "fu_free u = chk_sub (fu_total u) (fu_used u)"

section \<open>The bump allocator\<close>

record bump =
  bm_orig :: "memory_area list \<times> nat"
  bm_cur :: "memory_area list \<times> nat"

fun bump_skip :: "memory_area list \<Rightarrow> nat \<Rightarrow> memory_area list \<times> nat" where
  "bump_skip [] off = ([], off)"
| "bump_skip (a # as) off = (if ma_size a \<le> off then bump_skip as (off - ma_size a) else (a # as, off))"

definition bump_new :: "memory_area list \<Rightarrow> nat \<Rightarrow> bump" where
  "bump_new areas off = \<lparr>bm_orig = bump_skip areas off, bm_cur = bump_skip areas off\<rparr>"

definition bump_areas :: "bump \<Rightarrow> memory_area list" where
  "bump_areas b = fst (bm_orig b)"

definition bump_free_areas :: "bump \<Rightarrow> memory_area list \<times> nat" where
  "bump_free_areas b = bm_cur b"

definition bump_abs_offset :: "bump \<Rightarrow> (unit, nat) res" where
  "bump_abs_offset b =
     (case bm_cur b of ([], off) \<Rightarrow> Ok 0 | (a # as, off) \<Rightarrow> chk_add (ma_base a) off)"

text \<open>\<open>iter().sum::<usize>()\<close>, whose additions are checked.\<close>

definition chk_sum :: "nat list \<Rightarrow> ('e, nat) res" where
  "chk_sum xs = (if sum_list xs < usize_limit then Ok (sum_list xs) else Panic)"

definition bump_usage :: "bump \<Rightarrow> (unit, frame_usage) res" where
  "bump_usage b =
     bind_res (chk_sum (map ma_size (fst (bm_orig b)))) (\<lambda>osum.
     bind_res (chk_sub osum (snd (bm_orig b))) (\<lambda>total.
     bind_res (chk_sum (map ma_size (fst (bm_cur b)))) (\<lambda>csum.
     bind_res (chk_sub csum (snd (bm_cur b))) (\<lambda>free.
     bind_res (chk_sub total free) (\<lambda>used.
       Ok \<lparr>fu_used = used div PAGE_SIZE, fu_total = total div PAGE_SIZE\<rparr>)))))"

definition bump_offset :: "bump \<Rightarrow> (unit, nat) res" where
  "bump_offset b =
     bind_res (bump_usage b) (\<lambda>u.
     bind_res (fu_free u) (\<lambda>free.
     bind_res (chk_sub (fu_total u) free) (\<lambda>used. chk_mul used PAGE_SIZE)))"

text \<open>The loop of \<open>allocate\<close> drops areas from the front until the first one has room.\<close>

fun bump_find :: "nat \<Rightarrow> memory_area list \<Rightarrow> nat \<Rightarrow> (unit, nat option \<times> memory_area list \<times> nat) res" where
  "bump_find req [] off = Ok (None, [], off)"
| "bump_find req (a # as) off =
     bind_res (chk_sub (ma_size a) off) (\<lambda>room.
       if room < req then bump_find req as 0
       else bind_res (chk_add off req) (\<lambda>off'.
            bind_res (chk_add (ma_base a) off) (\<lambda>block. Ok (Some block, a # as, off'))))"

definition bump_allocate :: "nat \<Rightarrow> bump \<times> kmem \<Rightarrow> (unit, nat option \<times> bump \<times> kmem) res" where
  "bump_allocate count s =
     (let (b, m) = s
      in bind_res (chk_mul count PAGE_SIZE) (\<lambda>req.
         bind_res (bump_find req (fst (bm_cur b)) (snd (bm_cur b))) (\<lambda>(found, as, off).
           let b' = b\<lparr>bm_cur := (as, off)\<rparr>
           in case found of
                None \<Rightarrow> Ok (None, b', m)
              | Some block \<Rightarrow>
                  bind_res (phys_to_virt block) (\<lambda>v. Ok (Some block, b', write_bytes v 0 req m)))))"

text \<open>\<open>BumpAllocator::free\<close> is \<open>unimplemented!\<close>.\<close>

definition bump_free :: "nat \<Rightarrow> nat \<Rightarrow> bump \<times> kmem \<Rightarrow> (unit, bump \<times> kmem) res" where
  "bump_free addr count s = Panic"

section \<open>Buddy entries\<close>

record buddy_entry =
  be_base :: nat
  be_size :: nat
  be_skip :: nat
  be_used :: nat

definition be_empty :: buddy_entry where
  "be_empty = \<lparr>be_base = 0, be_size = 0, be_skip = 0, be_used = 0\<rparr>"

definition be_pages :: "buddy_entry \<Rightarrow> nat" where
  "be_pages e = shr_page (be_size e)"

definition be_usage_pages :: "buddy_entry \<Rightarrow> nat" where
  "be_usage_pages e = shr_page (be_pages e + PAGE_OFFSET_MASK)"

text \<open>\<open>Err ()\<close> is the \<open>None\<close> of these functions.\<close>

definition be_usage_addr :: "buddy_entry \<Rightarrow> nat \<Rightarrow> (unit, nat) res" where
  "be_usage_addr e page =
     (if page < be_pages e then bind_res (chk_add (be_base e) page) phys_to_virt else Err ())"

definition be_usage :: "buddy_entry \<Rightarrow> nat \<Rightarrow> kmem \<Rightarrow> (unit, u8) res" where
  "be_usage e page m = bind_res (be_usage_addr e page) (\<lambda>a. Ok (m a))"

definition be_set_usage :: "buddy_entry \<Rightarrow> nat \<Rightarrow> u8 \<Rightarrow> kmem \<Rightarrow> (unit, kmem) res" where
  "be_set_usage e page u m = bind_res (be_usage_addr e page) (\<lambda>a. Ok (m(a := u)))"

section \<open>The buddy allocator\<close>

record buddy =
  ba_table_virt :: nat
  ba_table :: "buddy_entry list"
  ba_mem :: kmem

definition BUDDY_ENTRIES :: nat where
  "BUDDY_ENTRIES = PAGE_SIZE div 32"

subsection \<open>allocate\<close>

fun scan_free ::
  "buddy_entry \<Rightarrow> nat \<Rightarrow> kmem \<Rightarrow> nat list \<Rightarrow> nat \<Rightarrow> nat \<Rightarrow> (unit, nat \<times> nat) res" where
  "scan_free e count m [] free_page free_count = Ok (free_page, free_count)"
| "scan_free e count m (page # pages) free_page free_count =
     bind_res (be_usage e page m) (\<lambda>u.
       if u = 0 then
         if Suc free_count = count then Ok (free_page, Suc free_count)
         else scan_free e count m pages free_page (Suc free_count)
       else scan_free e count m pages (page + 1) 0)"

text \<open>Marking a run: an early \<open>None\<close> carries the memory as it is by then.\<close>

fun mark_pages :: "buddy_entry \<Rightarrow> nat list \<Rightarrow> kmem \<Rightarrow> (kmem, kmem) res" where
  "mark_pages e [] m = Ok m"
| "mark_pages e (page # pages) m =
     bind_res (map_err (\<lambda>_. m) (be_usage e page m)) (\<lambda>u.
       if u = 255 then Panic
       else bind_res (map_err (\<lambda>_. m) (be_set_usage e page (u + 1) m)) (\<lambda>m1.
            bind_res (chk_add (be_base e) (shl_page page)) (\<lambda>p.
            bind_res (phys_to_virt p) (\<lambda>v. mark_pages e pages (write_bytes v 0 PAGE_SIZE m1)))))"

fun allocate_in ::
  "nat \<Rightarrow> buddy_entry list \<Rightarrow> kmem \<Rightarrow> (unit, nat option \<times> buddy_entry list \<times> kmem) res" where
  "allocate_in count [] m = Ok (None, [], m)"
| "allocate_in count (e # es) m =
     (case scan_free e count m [be_skip e..<be_pages e] (be_skip e) 0 of
        Panic \<Rightarrow> Panic
      | Err _ \<Rightarrow> Ok (None, e # es, m)
      | Ok (free_page, free_count) \<Rightarrow>
          if free_count = count then
            (case mark_pages e [free_page..<free_page + free_count] m of
               Panic \<Rightarrow> Panic
             | Err m' \<Rightarrow> Ok (None, e # es, m')
             | Ok m' \<Rightarrow>
                 bind_res (chk_add (be_used e) free_count) (\<lambda>used.
                 bind_res (chk_add (be_base e) (shl_page free_page)) (\<lambda>addr.
                   Ok (Some addr,
                       e\<lparr>be_skip := if be_skip e = free_page then free_page + free_count else be_skip e,
                         be_used := used\<rparr> # es,
                       m'))))
          else bind_res (allocate_in count es m) (\<lambda>(r, es', m'). Ok (r, e # es', m')))"

definition buddy_allocate :: "nat \<Rightarrow> buddy \<Rightarrow> (unit, nat option \<times> buddy) res" where
  "buddy_allocate count b =
     (if ba_table_virt b = 0 then Ok (None, b)
      else bind_res (allocate_in count (ba_table b) (ba_mem b)) (\<lambda>(r, es, m).
             Ok (r, b\<lparr>ba_table := es, ba_mem := m\<rparr>)))"

subsection \<open>free\<close>

fun free_pages :: "buddy_entry \<Rightarrow> nat list \<Rightarrow> kmem \<Rightarrow> (unit, buddy_entry \<times> kmem) res" where
  "free_pages e [] m = Ok (e, m)"
| "free_pages e (page # pages) m =
     (case be_usage e page m of
        Ok u \<Rightarrow>
          if u = 0 then Panic
          else bind_res
            (if u - 1 = 0 then
               bind_res (chk_sub (be_used e) 1) (\<lambda>used.
                 Ok (e\<lparr>be_skip := if page < be_skip e then page else be_skip e, be_used := used\<rparr>))
             else Ok e)
            (\<lambda>e'. case be_set_usage e' page (u - 1) m of
                Ok m' \<Rightarrow> free_pages e' pages m'
              | _ \<Rightarrow> Panic)
      | _ \<Rightarrow> Panic)"

fun free_in ::
  "nat \<Rightarrow> nat \<Rightarrow> nat \<Rightarrow> buddy_entry list \<Rightarrow> kmem \<Rightarrow> (unit, buddy_entry list \<times> kmem) res" where
  "free_in base count bytes [] m = Ok ([], m)"
| "free_in base count bytes (e # es) m =
     bind_res
       (if base \<ge> be_base e
        then bind_res (chk_add base bytes) (\<lambda>top.
             bind_res (chk_add (be_base e) (be_size e)) (\<lambda>etop. Ok (top \<le> etop)))
        else Ok False)
       (\<lambda>inside.
          if inside then
            let start = shr_page (base - be_base e)
            in bind_res (free_pages e [start..<start + count] m) (\<lambda>(e', m'). Ok (e' # es, m'))
          else bind_res (free_in base count bytes es m) (\<lambda>(es', m'). Ok (e # es', m')))"

definition buddy_free :: "nat \<Rightarrow> nat \<Rightarrow> buddy \<Rightarrow> (unit, buddy) res" where
  "buddy_free base count b =
     (if ba_table_virt b = 0 then Ok b
      else bind_res (chk_mul count PAGE_SIZE) (\<lambda>bytes.
           bind_res (free_in base count bytes (ba_table b) (ba_mem b)) (\<lambda>(es, m).
             Ok (b\<lparr>ba_table := es, ba_mem := m\<rparr>))))"

definition buddy_allocate_one :: "buddy \<Rightarrow> (unit, nat option \<times> buddy) res" where
  "buddy_allocate_one b = buddy_allocate 1 b"

definition buddy_free_one :: "nat \<Rightarrow> buddy \<Rightarrow> (unit, buddy) res" where
  "buddy_free_one addr b = buddy_free addr 1 b"

subsection \<open>usage\<close>

fun usage_sum :: "buddy_entry list \<Rightarrow> nat \<Rightarrow> nat \<Rightarrow> (unit, frame_usage) res" where
  "usage_sum [] tot used = Ok \<lparr>fu_used = used, fu_total = tot\<rparr>"
| "usage_sum (e # es) tot used =
     bind_res (chk_add tot (shr_page (be_size e))) (\<lambda>tot'.
     bind_res (chk_add used (be_used e)) (\<lambda>used'. usage_sum es tot' used'))"

definition buddy_usage :: "buddy \<Rightarrow> (unit, frame_usage) res" where
  "buddy_usage b = usage_sum (ba_table b) 0 0"

subsection \<open>new\<close>

text \<open>Placing one area: the first entry that touches it grows, or the first empty entry takes it.\<close>

fun place_area :: "memory_area \<Rightarrow> buddy_entry list \<Rightarrow> (unit, buddy_entry list) res" where
  "place_area a [] = Ok []"
| "place_area a (e # es) =
     bind_res (chk_add (ma_base a) (ma_size a)) (\<lambda>atop.
       if atop = be_base e then
         bind_res (chk_add (be_size e) (ma_size a)) (\<lambda>sz. Ok (e\<lparr>be_base := ma_base a, be_size := sz\<rparr> # es))
       else bind_res (chk_add (be_base e) (be_size e)) (\<lambda>etop.
         if ma_base a = etop then
           bind_res (chk_add (be_size e) (ma_size a)) (\<lambda>sz. Ok (e\<lparr>be_size := sz\<rparr> # es))
         else if be_size e = 0 then Ok (e\<lparr>be_base := ma_base a, be_size := ma_size a\<rparr> # es)
         else bind_res (place_area a es) (\<lambda>es'. Ok (e # es'))))"

fun place_areas :: "memory_area list \<Rightarrow> nat \<Rightarrow> buddy_entry list \<Rightarrow> (unit, buddy_entry list) res" where
  "place_areas [] offset es = Ok es"
| "place_areas (a # as) offset es =
     (if ma_size a \<le> offset then place_areas as (offset - ma_size a) es
      else if offset > 0 then
        bind_res (chk_add (ma_base a) offset) (\<lambda>base.
        bind_res (place_area \<lparr>ma_base = base, ma_size = ma_size a - offset\<rparr> es) (place_areas as 0))
      else bind_res (place_area a es) (place_areas as 0))"

fun zero_pages :: "nat \<Rightarrow> nat list \<Rightarrow> kmem \<Rightarrow> (unit, kmem) res" where
  "zero_pages start [] m = Ok m"
| "zero_pages start (p # ps) m =
     bind_res (chk_add start (shl_page p)) (\<lambda>a. zero_pages start ps (write_bytes a 0 PAGE_SIZE m))"

fun set_used :: "buddy_entry \<Rightarrow> nat list \<Rightarrow> kmem \<Rightarrow> (unit, kmem) res" where
  "set_used e [] m = Ok m"
| "set_used e (p # ps) m = bind_res (be_set_usage e p 1 m) (set_used e ps)"

fun setup_maps :: "buddy_entry list \<Rightarrow> kmem \<Rightarrow> (unit, buddy_entry list \<times> kmem) res" where
  "setup_maps [] m = Ok ([], m)"
| "setup_maps (e # es) m =
     (let up = be_usage_pages e
      in bind_res
           (if be_pages e > up then
              bind_res (be_usage_addr e 0) (\<lambda>start.
              bind_res (zero_pages start [0..<up] m) (set_used e [0..<up]))
            else Ok m)
           (\<lambda>m'. bind_res (setup_maps es m') (\<lambda>(es', m'').
                  Ok (e\<lparr>be_skip := up, be_used := up\<rparr> # es', m''))))"

definition buddy_new :: "bump \<Rightarrow> kmem \<Rightarrow> (unit, buddy option) res" where
  "buddy_new bump m =
     bind_res (bump_allocate 1 (bump, m)) (\<lambda>(r, bump', m').
       case r of
         None \<Rightarrow> Ok None
       | Some table_phys \<Rightarrow>
           bind_res (phys_to_virt table_phys) (\<lambda>table_virt.
           bind_res (bump_offset bump') (\<lambda>offset.
           bind_res (place_areas (bump_areas bump') offset (replicate BUDDY_ENTRIES be_empty)) (\<lambda>es.
             case setup_maps es m' of
               Panic \<Rightarrow> Panic
             | Err _ \<Rightarrow> Ok None
             | Ok (es', m'') \<Rightarrow>
                 Ok (Some \<lparr>ba_table_virt = table_virt, ba_table = es', ba_mem = m''\<rparr>)))))"

section \<open>Geometry of an entry\<close>

lemmas page_defs = PAGE_SHIFT_def PAGE_SIZE_def PAGE_OFFSET_MASK_def shr_page_def

definition phys_limit :: nat where
  "phys_limit = 2 ^ 47"

lemma phys_to_virt_ok: "p < phys_limit \<Longrightarrow> phys_to_virt p = Ok (p + PHYS_OFFSET)"
  by (simp add: phys_to_virt_def PHYS_OFFSET_def phys_limit_def)

lemma be_pages_eq: "be_pages e = be_size e div 4096"
  by (simp add: be_pages_def page_defs)

lemma be_usage_pages_cover: "be_pages e \<le> be_usage_pages e * 4096"
  by (simp add: be_usage_pages_def page_defs)

lemma be_page_inside: "p < be_pages e \<Longrightarrow> p * 4096 + 4096 \<le> be_size e"
  by (auto simp: be_pages_eq less_eq_div_iff_mult_less_eq Suc_le_eq[symmetric] simp del: Suc_le_eq)

definition be_bounded :: "buddy_entry \<Rightarrow> bool" where
  "be_bounded e \<longleftrightarrow> be_base e + be_size e \<le> phys_limit"

abbreviation be_byte :: "buddy_entry \<Rightarrow> kmem \<Rightarrow> nat \<Rightarrow> u8" where
  "be_byte e m p \<equiv> m (be_base e + p + PHYS_OFFSET)"

lemma shl_page_eq: "p < be_pages e \<Longrightarrow> be_bounded e \<Longrightarrow> shl_page p = p * 4096"
  using be_page_inside[of p e] by (simp add: shl_page_def PAGE_SHIFT_def be_bounded_def phys_limit_def)

lemma be_usage_addr_ok:
  assumes "be_bounded e" and "p < be_pages e"
  shows "be_usage_addr e p = Ok (be_base e + p + PHYS_OFFSET)"
proof -
  have "be_base e + p < phys_limit"
    using assms be_page_inside[OF assms(2)] by (simp add: be_bounded_def)
  with assms(2) show ?thesis
    by (simp add: be_usage_addr_def phys_to_virt_ok chk_add_eq phys_limit_def)
qed

lemma be_frame_ok:
  assumes "be_bounded e" and "p < be_pages e"
  shows "chk_add (be_base e) (shl_page p) = Ok (be_base e + p * 4096)"
    and "phys_to_virt (be_base e + p * 4096) = Ok (be_base e + p * 4096 + PHYS_OFFSET)"
proof -
  have "be_base e + p * 4096 < phys_limit"
    using assms be_page_inside[OF assms(2)] by (simp add: be_bounded_def)
  then show "chk_add (be_base e) (shl_page p) = Ok (be_base e + p * 4096)"
    and "phys_to_virt (be_base e + p * 4096) = Ok (be_base e + p * 4096 + PHYS_OFFSET)"
    using shl_page_eq[OF assms(2,1)] by (simp_all add: phys_to_virt_ok chk_add_eq phys_limit_def)
qed

lemmas be_access = be_usage_def be_set_usage_def be_usage_addr_ok be_frame_ok

section \<open>The invariant of an entry\<close>

text \<open>An entry too small to hold its usage map hands out no page at all.\<close>

definition be_taken :: "buddy_entry \<Rightarrow> kmem \<Rightarrow> nat \<Rightarrow> bool" where
  "be_taken e m p \<longleftrightarrow> be_pages e \<le> be_usage_pages e \<or> be_byte e m p \<noteq> 0"

definition be_ok :: "buddy_entry \<Rightarrow> kmem \<Rightarrow> bool" where
  "be_ok e m \<longleftrightarrow> be_bounded e \<and> be_usage_pages e \<le> be_skip e \<and> be_skip e \<le> be_pages e \<and>
     (\<forall>p < be_skip e. be_taken e m p) \<and>
     (\<forall>p < be_pages e. be_usage_pages e < be_pages e \<longrightarrow> be_byte e m p \<le> 1) \<and>
     be_used e = card {p. p < be_pages e \<and> be_taken e m p}"

definition be_range :: "buddy_entry \<Rightarrow> nat set" where
  "be_range e = {be_base e ..< be_base e + be_size e}"

definition agree_on :: "nat set \<Rightarrow> kmem \<Rightarrow> kmem \<Rightarrow> bool" where
  "agree_on A m m' \<longleftrightarrow> (\<forall>x \<in> A. m' (x + PHYS_OFFSET) = m (x + PHYS_OFFSET))"

lemma agree_on_byte:
  "agree_on (be_range e) m m' \<Longrightarrow> p < be_pages e \<Longrightarrow> be_byte e m' p = be_byte e m p"
  using be_page_inside[of p e] by (auto simp: agree_on_def be_range_def)

lemma agree_on_taken:
  "agree_on (be_range e) m m' \<Longrightarrow> p < be_pages e \<Longrightarrow> be_taken e m' p = be_taken e m p"
  by (simp add: be_taken_def agree_on_byte)

lemma be_ok_agree:
  assumes "agree_on (be_range e) m m'" and "be_ok e m"
  shows "be_ok e m'"
proof -
  have "{p. p < be_pages e \<and> be_taken e m' p} = {p. p < be_pages e \<and> be_taken e m p}"
    using agree_on_taken[OF assms(1)] by auto
  with assms show ?thesis
    by (auto simp: be_ok_def agree_on_byte agree_on_taken)
qed

section \<open>Scanning for a run\<close>

definition no_run_before :: "buddy_entry \<Rightarrow> kmem \<Rightarrow> nat \<Rightarrow> nat \<Rightarrow> nat \<Rightarrow> bool" where
  "no_run_before e m count hi lim \<longleftrightarrow>
     (\<forall>q \<ge> be_skip e. q < lim \<longrightarrow> (\<exists>r. q \<le> r \<and> r < q + count \<and> r < hi \<and> be_byte e m r \<noteq> 0))"

lemma scan_free_spec:
  assumes "be_bounded e" and "be_skip e \<le> fp" and "\<forall>p. fp \<le> p \<and> p < fp + fc \<longrightarrow> be_byte e m p = 0"
    and "fp + fc + k = be_pages e" and "fc < count" and "no_run_before e m count (fp + fc) fp"
  shows "\<exists>fp' fc'. scan_free e count m [fp + fc..<be_pages e] fp fc = Ok (fp', fc') \<and>
     be_skip e \<le> fp' \<and> fp' + fc' \<le> be_pages e \<and> fc' \<le> count \<and>
     (\<forall>p. fp' \<le> p \<and> p < fp' + fc' \<longrightarrow> be_byte e m p = 0) \<and>
     (fc' \<noteq> count \<longrightarrow> fp' + fc' = be_pages e \<and> no_run_before e m count (be_pages e) fp')"
  using assms
proof (induction k arbitrary: fp fc)
  case 0
  then show ?case by auto
next
  case (Suc k)
  let ?p = "fp + fc"
  have p: "?p < be_pages e" and upt: "[?p..<be_pages e] = ?p # [Suc ?p..<be_pages e]"
    using Suc.prems(4) by (simp_all add: upt_conv_Cons)
  have usage: "be_usage e ?p m = Ok (be_byte e m ?p)"
    using p Suc.prems(1) by (simp add: be_access)
  show ?case
  proof (cases "be_byte e m ?p = 0")
    case True
    then have free: "\<forall>q. fp \<le> q \<and> q < fp + Suc fc \<longrightarrow> be_byte e m q = 0"
      using Suc.prems(3) by (auto simp: less_Suc_eq)
    show ?thesis
    proof (cases "Suc fc = count")
      case True
      with \<open>be_byte e m ?p = 0\<close> usage upt free p Suc.prems(2) show ?thesis by auto
    next
      case False
      have "no_run_before e m count (fp + Suc fc) fp"
        using Suc.prems(6) unfolding no_run_before_def by (metis add_Suc_right less_Suc_eq)
      with Suc.IH[of fp "Suc fc"] Suc.prems free False have
        "\<exists>fp' fc'. scan_free e count m [fp + Suc fc..<be_pages e] fp (Suc fc) = Ok (fp', fc') \<and>
         be_skip e \<le> fp' \<and> fp' + fc' \<le> be_pages e \<and> fc' \<le> count \<and>
         (\<forall>p. fp' \<le> p \<and> p < fp' + fc' \<longrightarrow> be_byte e m p = 0) \<and>
         (fc' \<noteq> count \<longrightarrow> fp' + fc' = be_pages e \<and> no_run_before e m count (be_pages e) fp')"
        by simp
      with True False usage upt show ?thesis by simp
    qed
  next
    case False
    have "no_run_before e m count (Suc ?p) (Suc ?p)"
      unfolding no_run_before_def
    proof (intro allI impI)
      fix q assume "be_skip e \<le> q" "q < Suc ?p"
      show "\<exists>r\<ge>q. r < q + count \<and> r < Suc ?p \<and> be_byte e m r \<noteq> 0"
      proof (cases "q < fp")
        case True
        with \<open>be_skip e \<le> q\<close> Suc.prems(6) show ?thesis
          unfolding no_run_before_def by (meson less_SucI)
      next
        case False
        then show ?thesis
          using \<open>q < Suc ?p\<close> \<open>be_byte e m ?p \<noteq> 0\<close> Suc.prems(5) by (intro exI[of _ ?p]) auto
      qed
    qed
    with Suc.IH[of "Suc ?p" 0] Suc.prems have
        "\<exists>fp' fc'. scan_free e count m [Suc ?p..<be_pages e] (Suc ?p) 0 = Ok (fp', fc') \<and>
         be_skip e \<le> fp' \<and> fp' + fc' \<le> be_pages e \<and> fc' \<le> count \<and>
         (\<forall>p. fp' \<le> p \<and> p < fp' + fc' \<longrightarrow> be_byte e m p = 0) \<and>
         (fc' \<noteq> count \<longrightarrow> fp' + fc' = be_pages e \<and> no_run_before e m count (be_pages e) fp')"
      by simp
    with False usage upt show ?thesis by simp
  qed
qed

section \<open>Marking and freeing a run\<close>

lemma be_update_simps [simp]:
  "be_pages (e\<lparr>be_skip := s\<rparr>) = be_pages e" "be_pages (e\<lparr>be_used := u\<rparr>) = be_pages e"
  "be_usage_pages (e\<lparr>be_skip := s\<rparr>) = be_usage_pages e"
  "be_usage_pages (e\<lparr>be_used := u\<rparr>) = be_usage_pages e"
  "be_bounded (e\<lparr>be_skip := s\<rparr>) = be_bounded e" "be_bounded (e\<lparr>be_used := u\<rparr>) = be_bounded e"
  "be_range (e\<lparr>be_skip := s\<rparr>) = be_range e" "be_range (e\<lparr>be_used := u\<rparr>) = be_range e"
  by (simp_all add: be_pages_def be_usage_pages_def be_bounded_def be_range_def)

definition marked :: "buddy_entry \<Rightarrow> nat set \<Rightarrow> kmem \<Rightarrow> kmem" where
  "marked e P m = (\<lambda>x.
     if \<exists>p \<in> P. x = be_base e + p + PHYS_OFFSET then 1
     else if \<exists>p \<in> P. be_base e + p * 4096 + PHYS_OFFSET \<le> x \<and> x < be_base e + p * 4096 + PHYS_OFFSET + 4096
     then 0 else m x)"

lemma usage_byte_before_frames:
  "q < be_pages e \<Longrightarrow> be_usage_pages e \<le> p \<Longrightarrow> be_base e + q < be_base e + p * 4096"
  using be_usage_pages_cover[of e] mult_le_mono1[of "be_usage_pages e" p 4096] by linarith

lemma marked_byte_other:
  assumes "P \<subseteq> {be_usage_pages e..<be_pages e}" and "q < be_pages e"
  shows "be_byte e (marked e P m) q = (if q \<in> P then 1 else be_byte e m q)"
proof -
  have "\<not> be_base e + p * 4096 + PHYS_OFFSET \<le> be_base e + q + PHYS_OFFSET" if "p \<in> P" for p
    using usage_byte_before_frames[OF assms(2), of p] assms(1) that by force
  then show ?thesis by (auto simp: marked_def)
qed

lemma mark_pages_spec:
  assumes "be_bounded e" and "distinct ps" and "set ps \<subseteq> {be_usage_pages e..<be_pages e}"
    and "\<forall>p \<in> set ps. be_byte e m p = 0"
  shows "mark_pages e ps m = Ok (marked e (set ps) m)"
  using assms(2-4)
proof (induction ps arbitrary: m)
  case Nil
  then show ?case by (simp add: marked_def)
next
  case (Cons p ps)
  let ?m = "write_bytes (be_base e + p * 4096 + PHYS_OFFSET) 0 4096 (m(be_base e + p + PHYS_OFFSET := 1))"
  have p: "be_usage_pages e \<le> p" "p < be_pages e" "be_byte e m p = 0" using Cons.prems by auto
  have low: "be_base e + q < be_base e + p * 4096" if "q < be_pages e" for q
    using usage_byte_before_frames[OF that p(1)] .
  have "be_byte e ?m q = 0" if "q \<in> set ps" for q
  proof -
    have "q < be_pages e" "q \<noteq> p" "be_byte e m q = 0" using that Cons.prems by auto
    with low[of q] show ?thesis by (simp add: write_bytes_def)
  qed
  then have "mark_pages e ps ?m = Ok (marked e (set ps) ?m)"
    using Cons.IH[of ?m] Cons.prems by simp
  moreover have "marked e (set ps) ?m = marked e (set (p # ps)) m"
  proof
    fix x
    have "\<not> q * 4096 \<le> p" if "q \<in> set ps" for q
      using usage_byte_before_frames[OF p(2), of q] Cons.prems(2) that by force
    then show "marked e (set ps) ?m x = marked e (set (p # ps)) m x"
      using low[OF p(2)] by (auto simp: marked_def write_bytes_def)
  qed
  ultimately show ?case
    using p assms(1) by (simp add: be_access PAGE_SIZE_def)
qed

lemma marked_outside:
  assumes "P \<subseteq> {..<be_pages e}" and "x \<notin> be_range e"
  shows "marked e P m (x + PHYS_OFFSET) = m (x + PHYS_OFFSET)"
proof -
  have "\<not> (\<exists>p \<in> P. x = be_base e + p)"
    using assms be_page_inside by (fastforce simp: be_range_def)
  moreover have "\<not> (\<exists>p \<in> P. be_base e + p * 4096 \<le> x \<and> x < be_base e + p * 4096 + 4096)"
    using assms be_page_inside[of _ e] by (fastforce simp: be_range_def)
  ultimately show ?thesis by (auto simp: marked_def)
qed

lemma card_taken_add:
  assumes "finite A" and "B \<inter> A = {}" and "finite B"
  shows "card (A \<union> B) = card A + card B"
  using assms by (simp add: card_Un_disjoint Int_commute)

lemma be_ok_mark:
  assumes ok: "be_ok e m" and fp: "be_skip e \<le> fp" "fp + n \<le> be_pages e"
    and free: "\<forall>p. fp \<le> p \<and> p < fp + n \<longrightarrow> be_byte e m p = 0" and n: "0 < n"
  shows "be_ok (e\<lparr>be_skip := if be_skip e = fp then fp + n else be_skip e, be_used := be_used e + n\<rparr>)
          (marked e {fp..<fp + n} m)"
proof -
  let ?e = "e\<lparr>be_skip := if be_skip e = fp then fp + n else be_skip e, be_used := be_used e + n\<rparr>"
  let ?m = "marked e {fp..<fp + n} m"
  have small: "be_usage_pages e < be_pages e" using ok fp n by (simp add: be_ok_def)
  have sub: "{fp..<fp + n} \<subseteq> {be_usage_pages e..<be_pages e}" using ok fp by (auto simp: be_ok_def)
  have byte: "be_byte e ?m q = (if q \<in> {fp..<fp + n} then 1 else be_byte e m q)" if "q < be_pages e" for q
    using marked_byte_other[OF sub that] .
  have taken: "be_taken ?e ?m q \<longleftrightarrow> q \<in> {fp..<fp + n} \<or> be_taken e m q" if "q < be_pages e" for q
    using byte[OF that] by (auto simp: be_taken_def)
  have "{p. p < be_pages e \<and> be_taken ?e ?m p} = {p. p < be_pages e \<and> be_taken e m p} \<union> {fp..<fp + n}"
    using taken fp by auto
  moreover have "{fp..<fp + n} \<inter> {p. p < be_pages e \<and> be_taken e m p} = {}"
    using free small by (auto simp: be_taken_def)
  ultimately have "card {p. p < be_pages e \<and> be_taken ?e ?m p} = be_used e + n"
    using ok by (simp add: card_taken_add be_ok_def)
  moreover have "\<forall>p < be_skip ?e. be_taken ?e ?m p"
    using ok fp taken by (auto simp: be_ok_def) (meson leI)
  moreover have "\<forall>p < be_pages e. be_byte e ?m p \<le> 1"
    using ok small byte by (auto simp: be_ok_def)
  ultimately show ?thesis
    using ok fp by (auto simp: be_ok_def)
qed

definition unmarked :: "buddy_entry \<Rightarrow> nat set \<Rightarrow> kmem \<Rightarrow> kmem" where
  "unmarked e P m = (\<lambda>x. if \<exists>p \<in> P. x = be_base e + p + PHYS_OFFSET then 0 else m x)"

lemma unmarked_byte: "be_byte e (unmarked e P m) q = (if q \<in> P then 0 else be_byte e m q)"
  by (auto simp: unmarked_def)

lemma be_ok_unmark:
  assumes ok: "be_ok e m" and p: "be_usage_pages e \<le> p" "p < be_pages e" and used: "be_byte e m p \<noteq> 0"
  shows "be_ok (e\<lparr>be_skip := if p < be_skip e then p else be_skip e, be_used := be_used e - 1\<rparr>)
          (unmarked e {p} m)" and "0 < be_used e"
proof -
  let ?e = "e\<lparr>be_skip := if p < be_skip e then p else be_skip e, be_used := be_used e - 1\<rparr>"
  let ?m = "unmarked e {p} m"
  have small: "be_usage_pages e < be_pages e" using p by simp
  have taken: "be_taken ?e ?m q \<longleftrightarrow> q \<noteq> p \<and> be_taken e m q" for q
    using small by (simp add: be_taken_def unmarked_byte)
  have set: "{q. q < be_pages e \<and> be_taken e m q} = insert p {q. q < be_pages e \<and> be_taken ?e ?m q}"
    using taken p used by (auto simp: be_taken_def)
  then have "card {q. q < be_pages e \<and> be_taken e m q} = Suc (card {q. q < be_pages e \<and> be_taken ?e ?m q})"
    using taken by (simp add: card_insert_if)
  then have card: "be_used e = Suc (card {q. q < be_pages e \<and> be_taken ?e ?m q})"
    using ok by (simp add: be_ok_def)
  moreover have "\<forall>q < be_skip ?e. be_taken ?e ?m q"
    using ok taken by (auto simp: be_ok_def)
  moreover have "\<forall>q < be_pages e. be_byte e ?m q \<le> 1"
    using ok small by (auto simp: be_ok_def unmarked_byte)
  ultimately show "be_ok ?e ?m" "0 < be_used e"
    using ok p by (auto simp: be_ok_def)
qed

section \<open>The table\<close>

fun table_ok :: "buddy_entry list \<Rightarrow> kmem \<Rightarrow> bool" where
  "table_ok [] m \<longleftrightarrow> True"
| "table_ok (e # es) m \<longleftrightarrow>
     be_ok e m \<and> (\<forall>e' \<in> set es. be_range e \<inter> be_range e' = {}) \<and> table_ok es m"

definition frames :: "nat \<Rightarrow> nat \<Rightarrow> nat set" where
  "frames a n = (\<lambda>i. a + i * 4096) ` {..<n}"

definition frame_bytes :: "nat \<Rightarrow> nat set" where
  "frame_bytes f = {f ..< f + 4096}"

definition be_free :: "buddy_entry \<Rightarrow> kmem \<Rightarrow> nat set" where
  "be_free e m = {be_base e + p * 4096 | p. p < be_pages e \<and> \<not> be_taken e m p}"

definition table_free :: "buddy_entry list \<Rightarrow> kmem \<Rightarrow> nat set" where
  "table_free es m = (\<Union>e \<in> set es. be_free e m)"

text \<open>The bytes that hold usage counters.\<close>

definition map_area :: "buddy_entry list \<Rightarrow> nat set" where
  "map_area es = (\<Union>e \<in> set es. {be_base e ..< be_base e + min (be_usage_pages e * 4096) (be_size e)})"

text \<open>\<open>changed_only A m m'\<close>: physical bytes outside \<open>A\<close> keep their value.\<close>

definition changed_only :: "nat set \<Rightarrow> kmem \<Rightarrow> kmem \<Rightarrow> bool" where
  "changed_only A m m' \<longleftrightarrow> (\<forall>x. x \<notin> A \<longrightarrow> m' (x + PHYS_OFFSET) = m (x + PHYS_OFFSET))"

lemma changed_only_agree: "changed_only A m m' \<Longrightarrow> A \<inter> B = {} \<Longrightarrow> agree_on B m m'"
  by (auto simp: changed_only_def agree_on_def)

lemma changed_only_mono: "changed_only A m m' \<Longrightarrow> A \<subseteq> B \<Longrightarrow> changed_only B m m'"
  by (auto simp: changed_only_def)

lemma table_ok_agree:
  "table_ok es m \<Longrightarrow> (\<And>e. e \<in> set es \<Longrightarrow> agree_on (be_range e) m m') \<Longrightarrow> table_ok es m'"
  by (induction es) (auto intro: be_ok_agree)

lemma be_free_agree: "agree_on (be_range e) m m' \<Longrightarrow> be_free e m' = be_free e m"
  by (auto simp: be_free_def agree_on_taken)

lemma table_free_agree:
  "(\<And>e. e \<in> set es \<Longrightarrow> agree_on (be_range e) m m') \<Longrightarrow> table_free es m' = table_free es m"
  unfolding table_free_def by (rule SUP_cong) (simp_all add: be_free_agree)

lemma be_free_in_range: "f \<in> be_free e m \<Longrightarrow> frame_bytes f \<subseteq> be_range e"
  using be_page_inside by (fastforce simp: be_free_def frame_bytes_def be_range_def)

lemma be_free_self: "f \<in> be_free e m \<Longrightarrow> f \<in> be_range e"
  using be_free_in_range[of f e m] by (auto simp: frame_bytes_def)

lemma table_free_Cons: "table_free (e # es) m = be_free e m \<union> table_free es m"
  by (simp add: table_free_def)

lemma table_free_disjoint:
  assumes "table_ok (e # es) m" and "f \<in> be_free e m"
  shows "f \<notin> table_free es m'"
  using assms be_free_self by (fastforce simp: table_free_def)

lemma frames_in_entry:
  "frames (be_base e + fp * 4096) n = (\<lambda>p. be_base e + p * 4096) ` {fp..<fp + n}"
proof -
  have "{fp..<fp + n} = (+) fp ` {..<n}"
    using image_add_atLeastLessThan[of fp 0 n] by (simp add: atLeast0LessThan add.commute)
  then show ?thesis
    by (auto simp: frames_def image_image algebra_simps)
qed

definition no_free_run :: "nat \<Rightarrow> buddy_entry \<Rightarrow> kmem \<Rightarrow> bool" where
  "no_free_run n e m \<longleftrightarrow> (\<forall>q. q + n \<le> be_pages e \<longrightarrow> (\<exists>p. q \<le> p \<and> p < q + n \<and> be_taken e m p))"

lemma scan_entry:
  assumes "be_ok e m" and "0 < n"
  obtains fp fc where "scan_free e n m [be_skip e..<be_pages e] (be_skip e) 0 = Ok (fp, fc)"
    "be_skip e \<le> fp" "fp + fc \<le> be_pages e" "\<forall>p. fp \<le> p \<and> p < fp + fc \<longrightarrow> be_byte e m p = 0"
    "fc \<noteq> n \<longrightarrow> no_free_run n e m"
proof -
  have k: "be_skip e + 0 + (be_pages e - be_skip e) = be_pages e"
    and "no_run_before e m n (be_skip e + 0) (be_skip e)"
    and "\<forall>p. be_skip e \<le> p \<and> p < be_skip e + 0 \<longrightarrow> be_byte e m p = 0"
    using assms by (auto simp: be_ok_def no_run_before_def)
  with scan_free_spec[of e "be_skip e" 0 m _ n, OF _ _ _ k] assms obtain fp fc where
    scan: "scan_free e n m [be_skip e..<be_pages e] (be_skip e) 0 = Ok (fp, fc)"
    "be_skip e \<le> fp" "fp + fc \<le> be_pages e" "\<forall>p. fp \<le> p \<and> p < fp + fc \<longrightarrow> be_byte e m p = 0" "fc \<le> n"
    and none: "fc \<noteq> n \<longrightarrow> fp + fc = be_pages e \<and> no_run_before e m n (be_pages e) fp"
    unfolding be_ok_def add_0_right by blast
  have "no_free_run n e m" if ne: "fc \<noteq> n"
    unfolding no_free_run_def
  proof (intro allI impI)
    fix q assume q: "q + n \<le> be_pages e"
    consider "q < be_skip e" | "be_skip e \<le> q" "q < fp" | "fp \<le> q" by linarith
    then show "\<exists>p\<ge>q. p < q + n \<and> be_taken e m p"
    proof cases
      case 1
      then show ?thesis using assms by (auto simp: be_ok_def intro: exI[of _ q])
    next
      case 2
      then show ?thesis using none ne by (auto simp: no_run_before_def be_taken_def)
    next
      case 3
      then show ?thesis using none ne q scan(5) by simp
    qed
  qed
  with scan that show thesis by blast
qed

lemma be_free_mark:
  assumes ok: "be_ok e m" and fp: "be_skip e \<le> fp" "fp + n \<le> be_pages e"
    and free: "\<forall>p. fp \<le> p \<and> p < fp + n \<longrightarrow> be_byte e m p = 0" and n: "0 < n"
  defines "a \<equiv> be_base e + fp * 4096"
  shows "frames a n \<subseteq> be_free e m"
    and "be_free (e\<lparr>be_skip := s, be_used := u\<rparr>) (marked e {fp..<fp + n} m) = be_free e m - frames a n"
proof -
  have sub: "{fp..<fp + n} \<subseteq> {be_usage_pages e..<be_pages e}" using ok fp by (auto simp: be_ok_def)
  have small: "be_usage_pages e < be_pages e" using ok fp n by (simp add: be_ok_def)
  show "frames a n \<subseteq> be_free e m"
    using free fp small unfolding a_def frames_in_entry by (auto simp: be_free_def be_taken_def)
  show "be_free (e\<lparr>be_skip := s, be_used := u\<rparr>) (marked e {fp..<fp + n} m) = be_free e m - frames a n"
    unfolding a_def frames_in_entry
    by (auto simp: be_free_def be_taken_def marked_byte_other[OF sub] split: if_splits)
qed

lemma marked_changes:
  assumes ok: "be_ok e m" and fp: "be_skip e \<le> fp" "fp + n \<le> be_pages e"
  defines "a \<equiv> be_base e + fp * 4096"
  shows "changed_only (map_area [e] \<union> \<Union> (frame_bytes ` frames a n)) m (marked e {fp..<fp + n} m)"
    and "f \<in> frames a n \<Longrightarrow> x \<in> frame_bytes f \<Longrightarrow> marked e {fp..<fp + n} m (x + PHYS_OFFSET) = 0"
proof -
  have usage: "be_base e + p \<in> map_area [e]" if "p \<in> {fp..<fp + n}" for p
  proof -
    have "p < be_pages e" using that fp by simp
    with be_usage_pages_cover[of e] be_page_inside[of p e] show ?thesis
      by (simp add: map_area_def)
  qed
  have frame: "x \<in> \<Union> (frame_bytes ` frames a n)"
    if "p \<in> {fp..<fp + n}" "be_base e + p * 4096 \<le> x" "x < be_base e + p * 4096 + 4096" for p x
    using that unfolding a_def frames_in_entry by (auto simp: frame_bytes_def)
  show "changed_only (map_area [e] \<union> \<Union> (frame_bytes ` frames a n)) m (marked e {fp..<fp + n} m)"
    unfolding changed_only_def
  proof (intro allI impI)
    fix x assume out: "x \<notin> map_area [e] \<union> \<Union> (frame_bytes ` frames a n)"
    then have "\<not> (\<exists>p \<in> {fp..<fp + n}. x + PHYS_OFFSET = be_base e + p + PHYS_OFFSET)"
      using usage by auto
    moreover have "\<not> (\<exists>p \<in> {fp..<fp + n}. be_base e + p * 4096 + PHYS_OFFSET \<le> x + PHYS_OFFSET \<and>
        x + PHYS_OFFSET < be_base e + p * 4096 + PHYS_OFFSET + 4096)"
    proof
      assume "\<exists>p \<in> {fp..<fp + n}. be_base e + p * 4096 + PHYS_OFFSET \<le> x + PHYS_OFFSET \<and>
        x + PHYS_OFFSET < be_base e + p * 4096 + PHYS_OFFSET + 4096"
      then obtain p where "p \<in> {fp..<fp + n}" "be_base e + p * 4096 \<le> x" "x < be_base e + p * 4096 + 4096"
        by auto
      from frame[OF this] out show False by blast
    qed
    ultimately show "marked e {fp..<fp + n} m (x + PHYS_OFFSET) = m (x + PHYS_OFFSET)"
      unfolding marked_def by presburger
  qed
  assume f: "f \<in> frames a n" and x: "x \<in> frame_bytes f"
  then obtain p where p: "p \<in> {fp..<fp + n}" "f = be_base e + p * 4096"
    unfolding a_def frames_in_entry by auto
  then have in_p: "be_base e + p * 4096 + PHYS_OFFSET \<le> x + PHYS_OFFSET"
    "x + PHYS_OFFSET < be_base e + p * 4096 + PHYS_OFFSET + 4096"
    using x by (auto simp: frame_bytes_def)
  have "x \<noteq> be_base e + q" if "q \<in> {fp..<fp + n}" for q
    using usage_byte_before_frames[of q e p] that p in_p fp ok by (auto simp: be_ok_def)
  with p in_p show "marked e {fp..<fp + n} m (x + PHYS_OFFSET) = 0"
    unfolding marked_def by auto
qed

definition table_range :: "buddy_entry list \<Rightarrow> nat set" where
  "table_range es = (\<Union>e \<in> set es. be_range e)"

lemma map_area_range: "map_area es \<subseteq> table_range es"
  by (fastforce simp: map_area_def table_range_def be_range_def)

lemma table_free_range: "f \<in> table_free es m \<Longrightarrow> frame_bytes f \<subseteq> table_range es"
  using be_free_in_range by (fastforce simp: table_free_def table_range_def)

lemma table_ok_head_disjoint: "table_ok (e # es) m \<Longrightarrow> be_range e \<inter> table_range es = {}"
  by (auto simp: table_range_def)

lemma table_range_map: "map be_range es' = map be_range es \<Longrightarrow> table_range es' = table_range es"
  unfolding table_range_def by (metis image_set)

lemma map_area_Cons: "map_area (e # es) = map_area [e] \<union> map_area es"
  by (simp add: map_area_def)

lemma map_area_update [simp]:
  "map_area (e\<lparr>be_skip := s, be_used := u\<rparr> # es) = map_area (e # es)"
  by (simp add: map_area_def)

text \<open>A run of frames that an allocator may hand out: inside one entry, past its usage map.\<close>

definition managed :: "buddy_entry list \<Rightarrow> nat \<Rightarrow> nat \<Rightarrow> bool" where
  "managed es a n \<longleftrightarrow> (\<exists>e \<in> set es. \<exists>p. a = be_base e + p * 4096 \<and> be_usage_pages e \<le> p \<and> p + n \<le> be_pages e)"

text \<open>What a successful or failed allocation in a table does.\<close>

definition alloc_post ::
  "nat \<Rightarrow> buddy_entry list \<Rightarrow> kmem \<Rightarrow> nat option \<Rightarrow> buddy_entry list \<Rightarrow> kmem \<Rightarrow> bool" where
  "alloc_post n es m r es' m' \<longleftrightarrow>
     table_ok es' m' \<and> map be_range es' = map be_range es \<and> map_area es' = map_area es \<and>
     (case r of
        None \<Rightarrow> es' = es \<and> m' = m \<and> (\<forall>e \<in> set es. no_free_run n e m)
      | Some a \<Rightarrow>
          managed es a n \<and> frames a n \<subseteq> table_free es m \<and> table_free es' m' = table_free es m - frames a n \<and>
          changed_only (map_area es \<union> \<Union> (frame_bytes ` frames a n)) m m' \<and>
          (\<forall>f \<in> frames a n. \<forall>x \<in> frame_bytes f. m' (x + PHYS_OFFSET) = 0))"

lemma alloc_post_SomeI:
  assumes "table_ok es' m'" and "map be_range es' = map be_range es" and "map_area es' = map_area es"
    and "frames a n \<subseteq> table_free es m" and "table_free es' m' = table_free es m - frames a n"
    and "changed_only (map_area es \<union> \<Union> (frame_bytes ` frames a n)) m m'"
    and "\<And>f x. f \<in> frames a n \<Longrightarrow> x \<in> frame_bytes f \<Longrightarrow> m' (x + PHYS_OFFSET) = 0"
    and "managed es a n"
  shows "alloc_post n es m (Some a) es' m'"
  using assms by (simp add: alloc_post_def)

lemma alloc_post_here:
  assumes ok: "table_ok (e # es) m" and fp: "be_skip e \<le> fp" "fp + n \<le> be_pages e"
    and free: "\<forall>p. fp \<le> p \<and> p < fp + n \<longrightarrow> be_byte e m p = 0" and n: "0 < n"
  shows "alloc_post n (e # es) m (Some (be_base e + fp * 4096))
    (e\<lparr>be_skip := if be_skip e = fp then fp + n else be_skip e, be_used := be_used e + n\<rparr> # es)
    (marked e {fp..<fp + n} m)"
proof -
  let ?a = "be_base e + fp * 4096" and ?m = "marked e {fp..<fp + n} m"
  let ?e = "e\<lparr>be_skip := if be_skip e = fp then fp + n else be_skip e, be_used := be_used e + n\<rparr>"
  have beok: "be_ok e m" using ok by simp
  note facts = be_free_mark[OF beok fp free n] marked_changes[OF beok fp]
  have agree: "agree_on (be_range e') m ?m" if "e' \<in> set es" for e'
    unfolding agree_on_def
  proof
    fix x assume "x \<in> be_range e'"
    then have "x \<notin> be_range e" using ok that by auto
    with fp show "?m (x + PHYS_OFFSET) = m (x + PHYS_OFFSET)"
      by (intro marked_outside) auto
  qed
  have others: "table_free es ?m = table_free es m" by (rule table_free_agree) (rule agree)
  show ?thesis
  proof (rule alloc_post_SomeI)
    have "table_ok es ?m" by (rule table_ok_agree[of es m]) (use ok agree in auto)
    then show "table_ok (?e # es) ?m"
      using be_ok_mark[OF beok fp free n] ok by simp
    show "managed (e # es) ?a n"
      using fp beok by (fastforce simp: managed_def be_ok_def)
    show "frames ?a n \<subseteq> table_free (e # es) m"
      unfolding table_free_Cons using facts(1) by blast
    have "frames ?a n \<inter> table_free es m = {}"
      using facts(1) table_free_disjoint[OF ok] by blast
    then show "table_free (?e # es) ?m = table_free (e # es) m - frames ?a n"
      unfolding table_free_Cons facts(2) others by blast
    show "changed_only (map_area (e # es) \<union> \<Union> (frame_bytes ` frames ?a n)) m ?m"
      unfolding map_area_Cons[of e es] by (rule changed_only_mono[OF facts(3)]) blast
    show "?m (x + PHYS_OFFSET) = 0" if "f \<in> frames ?a n" "x \<in> frame_bytes f" for f x
      using that by (rule facts(4))
    show "map be_range (?e # es) = map be_range (e # es)" "map_area (?e # es) = map_area (e # es)"
      by (simp_all only: list.map map_area_update be_update_simps)
  qed
qed

lemma alloc_post_later:
  assumes ok: "table_ok (e # es) m" and none: "no_free_run n e m" and post: "alloc_post n es m r es' m'"
  shows "alloc_post n (e # es) m r (e # es') m'"
proof -
  have ok': "table_ok es' m'" and rng: "map be_range es' = map be_range es"
    and area: "map_area es' = map_area es"
    using post by (simp_all add: alloc_post_def)
  have dis: "be_range e \<inter> be_range e' = {}" if "e' \<in> set es'" for e'
  proof -
    have "be_range e' \<in> set (map be_range es)" unfolding rng[symmetric] using that by simp
    with ok show ?thesis by auto
  qed
  show ?thesis
  proof (cases r)
    case None
    with post ok none show ?thesis by (simp add: alloc_post_def)
  next
    case (Some a)
    let ?C = "map_area es \<union> \<Union> (frame_bytes ` frames a n)"
    have post': "frames a n \<subseteq> table_free es m" "table_free es' m' = table_free es m - frames a n"
      "changed_only ?C m m'" "managed es a n" "\<forall>f \<in> frames a n. \<forall>x \<in> frame_bytes f. m' (x + PHYS_OFFSET) = 0"
      using post Some by (simp_all add: alloc_post_def)
    have "?C \<subseteq> table_range es"
      using map_area_range[of es] table_free_range post'(1) by blast
    with table_ok_head_disjoint[OF ok] have "?C \<inter> be_range e = {}" by auto
    with post'(3) have agree: "agree_on (be_range e) m m'" by (rule changed_only_agree)
    show ?thesis
      unfolding Some
    proof (rule alloc_post_SomeI)
      show "table_ok (e # es') m'"
        using be_ok_agree[OF agree] ok ok' dis by simp
      show "map be_range (e # es') = map be_range (e # es)" "map_area (e # es') = map_area (e # es)"
        using rng area by (simp_all add: map_area_Cons[of e es] map_area_Cons[of e es'])
      show "frames a n \<subseteq> table_free (e # es) m"
        unfolding table_free_Cons using post'(1) by blast
      show "table_free (e # es') m' = table_free (e # es) m - frames a n"
        using table_free_disjoint[OF ok] post'(1)
        unfolding table_free_Cons be_free_agree[OF agree] post'(2) by blast
      show "changed_only (map_area (e # es) \<union> \<Union> (frame_bytes ` frames a n)) m m'"
        unfolding map_area_Cons[of e es] by (rule changed_only_mono[OF post'(3)]) blast
      show "m' (x + PHYS_OFFSET) = 0" if "f \<in> frames a n" "x \<in> frame_bytes f" for f x
        using that post'(5) by simp
      show "managed (e # es) a n"
        using post'(4) by (auto simp: managed_def)
    qed
  qed
qed

lemma be_used_bound: "be_ok e m \<Longrightarrow> be_used e \<le> be_pages e"
proof -
  assume "be_ok e m"
  then have "be_used e = card {p. p < be_pages e \<and> be_taken e m p}" by (simp add: be_ok_def)
  also have "\<dots> \<le> card {..<be_pages e}" by (intro card_mono) auto
  finally show ?thesis by simp
qed

lemma be_pages_bound: "be_bounded e \<Longrightarrow> be_pages e \<le> 2 ^ 35"
  by (simp add: be_bounded_def be_pages_eq phys_limit_def)

lemma allocate_in_spec:
  "table_ok es m \<Longrightarrow> 0 < n \<Longrightarrow> \<exists>r es' m'. allocate_in n es m = Ok (r, es', m') \<and> alloc_post n es m r es' m'"
proof (induction es)
  case Nil
  then show ?case by (simp add: alloc_post_def)
next
  case (Cons e es)
  then have ok: "be_ok e m" and bnd: "be_bounded e" by (auto simp: be_ok_def)
  obtain fp fc where scan: "scan_free e n m [be_skip e..<be_pages e] (be_skip e) 0 = Ok (fp, fc)"
    "be_skip e \<le> fp" "fp + fc \<le> be_pages e" "\<forall>p. fp \<le> p \<and> p < fp + fc \<longrightarrow> be_byte e m p = 0"
    "fc \<noteq> n \<longrightarrow> no_free_run n e m"
    by (rule scan_entry[OF ok Cons.prems(2)])
  show ?case
  proof (cases "fc = n")
    case True
    have mark: "mark_pages e [fp..<fp + n] m = Ok (marked e {fp..<fp + n} m)"
      using mark_pages_spec[OF bnd, of "[fp..<fp + n]" m] scan True ok by (auto simp: be_ok_def)
    have "be_used e + n < usize_limit"
      using be_used_bound[OF ok] be_pages_bound[OF bnd] scan(3) True by simp
    moreover have "fp < be_pages e" using scan(3) True Cons.prems(2) by simp
    ultimately show ?thesis
      using alloc_post_here[OF Cons.prems(1) scan(2)] scan True mark Cons.prems(2)
      by (simp add: chk_add_eq[of "be_used e"] be_frame_ok(1)[OF bnd] del: upt_Suc)
  next
    case False
    obtain r es' m' where rest: "allocate_in n es m = Ok (r, es', m')" "alloc_post n es m r es' m'"
      using Cons by auto
    with False scan alloc_post_later[OF Cons.prems(1) _ rest(2)] show ?thesis by simp
  qed
qed

section \<open>Freeing in the table\<close>

lemma be_frames_simps [simp]:
  "be_free (e\<lparr>be_skip := s\<rparr>) m = be_free e m" "be_free (e\<lparr>be_used := u\<rparr>) m = be_free e m"
  by (simp_all add: be_free_def be_taken_def)

lemma byte_le_one: "(w :: u8) \<le> 1 \<Longrightarrow> w \<noteq> 0 \<Longrightarrow> w = 1"
  by (metis le_less word_le_sub1 word_less_1 word_neq_0_conv)

text \<open>An entry whose allocation data changed but not its place.\<close>

definition same_place :: "buddy_entry \<Rightarrow> buddy_entry \<Rightarrow> bool" where
  "same_place e e' \<longleftrightarrow> be_base e' = be_base e \<and> be_size e' = be_size e"

lemma same_place_simps:
  assumes "same_place e e'"
  shows "be_range e' = be_range e" and "be_pages e' = be_pages e" and "be_usage_pages e' = be_usage_pages e"
    and "be_bounded e' = be_bounded e" and "be_free e' m = be_free e m" and "unmarked e' P m = unmarked e P m"
  using assms by (simp_all add: same_place_def be_range_def be_pages_def be_usage_pages_def
      be_bounded_def be_free_def be_taken_def unmarked_def)

lemma free_pages_spec:
  assumes "be_ok e m" and "distinct ps" and "set ps \<subseteq> {be_usage_pages e..<be_pages e}"
    and "\<forall>p \<in> set ps. be_byte e m p \<noteq> 0"
  shows "\<exists>e'. free_pages e ps m = Ok (e', unmarked e (set ps) m) \<and> same_place e e' \<and>
     be_ok e' (unmarked e (set ps) m)"
  using assms
proof (induction ps arbitrary: e m)
  case Nil
  then show ?case by (simp add: unmarked_def same_place_def)
next
  case (Cons p ps)
  let ?e = "e\<lparr>be_skip := if p < be_skip e then p else be_skip e, be_used := be_used e - 1\<rparr>"
  let ?m = "unmarked e {p} m"
  have p: "be_usage_pages e \<le> p" "p < be_pages e" "be_byte e m p \<noteq> 0" using Cons.prems by auto
  have one: "be_byte e m p = 1"
    using Cons.prems(1) p by (intro byte_le_one) (auto simp: be_ok_def)
  have bnd: "be_bounded e" using Cons.prems(1) by (simp add: be_ok_def)
  have place: "same_place e ?e" by (simp add: same_place_def)
  note unm = be_ok_unmark[OF Cons.prems(1) p]
  have "\<forall>q \<in> set ps. be_byte ?e ?m q \<noteq> 0"
    using Cons.prems(2,4) by (auto simp: unmarked_byte)
  with Cons.IH[of ?e ?m] unm(1) Cons.prems obtain e' where
    rest: "free_pages ?e ps ?m = Ok (e', unmarked ?e (set ps) ?m)" "same_place ?e e'"
    "be_ok e' (unmarked ?e (set ps) ?m)"
    by (auto simp: same_place_simps[OF place])
  have mem: "unmarked ?e (set ps) ?m = unmarked e (set (p # ps)) m"
    by (auto simp: unmarked_def fun_eq_iff)
  have "be_set_usage ?e p (1 - 1) m = Ok ?m"
    using be_usage_addr_ok[of ?e p] p(2) bnd
    by (simp add: be_set_usage_def unmarked_def fun_eq_iff)
  moreover have "be_usage e p m = Ok 1"
    using p bnd one by (simp add: be_access)
  ultimately have "free_pages e (p # ps) m = free_pages ?e ps ?m"
    using unm(2) by (simp add: chk_sub_eq)
  with rest mem place show ?case
    by (auto simp: same_place_def)
qed

definition free_post ::
  "nat \<Rightarrow> nat \<Rightarrow> buddy_entry list \<Rightarrow> kmem \<Rightarrow> buddy_entry list \<Rightarrow> kmem \<Rightarrow> bool" where
  "free_post a n es m es' m' \<longleftrightarrow>
     table_ok es' m' \<and> map be_range es' = map be_range es \<and> map_area es' = map_area es \<and>
     table_free es' m' = table_free es m \<union> frames a n \<and> changed_only (map_area es) m m'"

lemma run_inside:
  "p + n \<le> be_pages e \<Longrightarrow> be_base e + p * 4096 + n * 4096 \<le> be_base e + be_size e"
  by (simp add: be_pages_eq less_eq_div_iff_mult_less_eq add_mult_distrib)

lemma be_free_unmark:
  assumes "P \<subseteq> {be_usage_pages e..<be_pages e}" and "P \<noteq> {}"
  shows "be_free e (unmarked e P m) = be_free e m \<union> (\<lambda>p. be_base e + p * 4096) ` P"
proof -
  have "be_usage_pages e < be_pages e" using assms by fastforce
  moreover have "p < be_pages e" if "p \<in> P" for p using assms(1) that by auto
  ultimately show ?thesis
    by (auto simp: be_free_def be_taken_def unmarked_byte split: if_splits)
qed

lemma unmarked_changes:
  assumes "P \<subseteq> {..<be_pages e}"
  shows "changed_only (map_area [e]) m (unmarked e P m)"
proof -
  have "be_base e + p \<in> map_area [e]" if "p \<in> P" for p
    using that assms be_usage_pages_cover[of e] be_page_inside[of p e]
    by (auto simp: map_area_def)
  then show ?thesis by (auto simp: changed_only_def unmarked_def)
qed

lemma free_post_here:
  assumes ok: "table_ok (e # es) m" and p: "be_usage_pages e \<le> p" "p + n \<le> be_pages e" and n: "0 < n"
    and e': "same_place e e'" "be_ok e' (unmarked e {p..<p + n} m)"
  shows "free_post (be_base e + p * 4096) n (e # es) m (e' # es) (unmarked e {p..<p + n} m)"
proof -
  let ?m = "unmarked e {p..<p + n} m"
  have ch: "changed_only (map_area [e]) m ?m"
    using p by (intro unmarked_changes) auto
  have agree: "agree_on (be_range f) m ?m" if "f \<in> set es" for f
  proof (rule changed_only_agree[OF ch])
    show "map_area [e] \<inter> be_range f = {}"
      using map_area_range[of "[e]"] ok that by (auto simp: table_range_def)
  qed
  have others: "table_free es ?m = table_free es m" by (rule table_free_agree) (rule agree)
  have "table_ok es ?m" by (rule table_ok_agree[of es m]) (use ok agree in auto)
  then have "table_ok (e' # es) ?m"
    using e' ok by (simp add: same_place_simps)
  moreover have "be_free e ?m = be_free e m \<union> frames (be_base e + p * 4096) n"
    unfolding frames_in_entry using p n by (intro be_free_unmark) auto
  then have "table_free (e' # es) ?m = table_free (e # es) m \<union> frames (be_base e + p * 4096) n"
    unfolding table_free_Cons others same_place_simps(5)[OF e'(1)] by auto
  moreover have "map_area (e' # es) = map_area (e # es)"
    using e'(1) by (simp add: map_area_def same_place_simps) (simp add: same_place_def)
  ultimately show ?thesis
    using e'(1) changed_only_mono[OF ch, of "map_area (e # es)"]
    by (simp add: free_post_def same_place_simps map_area_Cons[of e es])
qed

lemma free_post_later:
  assumes ok: "table_ok (e # es) m" and post: "free_post a n es m es' m'"
  shows "free_post a n (e # es) m (e # es') m'"
proof -
  have facts: "table_ok es' m'" "map be_range es' = map be_range es" "map_area es' = map_area es"
    "table_free es' m' = table_free es m \<union> frames a n" "changed_only (map_area es) m m'"
    using post by (simp_all add: free_post_def)
  have dis: "be_range e \<inter> be_range e' = {}" if "e' \<in> set es'" for e'
  proof -
    have "be_range e' \<in> set (map be_range es)" unfolding facts(2)[symmetric] using that by simp
    with ok show ?thesis by auto
  qed
  have "map_area es \<inter> be_range e = {}"
    using map_area_range[of es] table_ok_head_disjoint[OF ok] by auto
  with facts(5) have agree: "agree_on (be_range e) m m'" by (rule changed_only_agree)
  have "table_ok (e # es') m'"
    using be_ok_agree[OF agree] ok facts(1) dis by simp
  moreover have "table_free (e # es') m' = table_free (e # es) m \<union> frames a n"
    unfolding table_free_Cons be_free_agree[OF agree] facts(4) by auto
  moreover have "changed_only (map_area (e # es)) m m'"
    unfolding map_area_Cons[of e es] by (rule changed_only_mono[OF facts(5)]) blast
  ultimately show ?thesis
    using facts(2,3) by (simp add: free_post_def map_area_Cons[of e es] map_area_Cons[of e es'])
qed

text \<open>A managed run none of whose frames is free carries nonzero counters.\<close>

lemma managed_bytes:
  assumes "e \<in> set es" and "p + n \<le> be_pages e" and "be_usage_pages e \<le> p"
    and "frames (be_base e + p * 4096) n \<inter> table_free es m = {}" and "p \<le> q" "q < p + n"
  shows "be_byte e m q \<noteq> 0"
proof -
  have "be_base e + q * 4096 \<in> frames (be_base e + p * 4096) n"
    unfolding frames_in_entry using assms(5,6) by auto
  then have "be_base e + q * 4096 \<notin> be_free e m" using assms(1,4) by (auto simp: table_free_def)
  moreover have "be_usage_pages e < be_pages e" "q < be_pages e" using assms by simp_all
  ultimately show ?thesis by (auto simp: be_free_def be_taken_def)
qed

text \<open>The entry that \<open>free\<close> finds for an address is the one that covers it.\<close>

lemma free_in_Cons:
  assumes "table_ok (e # es) m" and "0 < n" and "a + n * 4096 \<le> phys_limit"
  shows "free_in a n (n * 4096) (e # es) m =
    (if be_base e \<le> a \<and> a + n * 4096 \<le> be_base e + be_size e
     then bind_res (free_pages e [(a - be_base e) div 4096..<(a - be_base e) div 4096 + n] m)
            (\<lambda>(e', m'). Ok (e' # es, m'))
     else bind_res (free_in a n (n * 4096) es m) (\<lambda>(es', m'). Ok (e # es', m')))"
proof -
  have bnd: "be_base e + be_size e \<le> phys_limit"
    using assms(1) by (simp add: be_ok_def be_bounded_def)
  have "chk_add a (n * 4096) = (Ok (a + n * 4096) :: (unit, nat) res)"
    "chk_add (be_base e) (be_size e) = (Ok (be_base e + be_size e) :: (unit, nat) res)"
    using assms(3) bnd by (simp_all add: chk_add_eq phys_limit_def)
  then show ?thesis by (simp add: page_defs Let_def)
qed

lemma free_in_spec:
  "table_ok es m \<Longrightarrow> managed es a n \<and> frames a n \<inter> table_free es m = {} \<Longrightarrow> 0 < n \<Longrightarrow>
   \<exists>es' m'. free_in a n (n * 4096) es m = Ok (es', m') \<and> free_post a n es m es' m'"
proof (induction es)
  case Nil
  then show ?case by (simp add: managed_def)
next
  case (Cons e es)
  from Cons.prems(2) obtain w p where
    w: "w \<in> set (e # es)" "a = be_base w + p * 4096" "be_usage_pages w \<le> p" "p + n \<le> be_pages w"
    by (auto simp: managed_def)
  then have w5: "\<forall>q. p \<le> q \<and> q < p + n \<longrightarrow> be_byte w m q \<noteq> 0"
    using managed_bytes[of w "e # es" p n m] Cons.prems(2) by blast
  have top: "a + n * 4096 \<le> be_base w + be_size w" using run_inside[OF w(4)] w(2) by simp
  have "be_bounded w" using Cons.prems(1) w(1) by (induction es) (auto simp: be_ok_def)
  with top have lim: "a + n * 4096 \<le> phys_limit" by (simp add: be_bounded_def)
  note step = free_in_Cons[OF Cons.prems(1,3) lim]
  show ?case
  proof (cases "w = e")
    case True
    have "set [p..<p + n] \<subseteq> {be_usage_pages e..<be_pages e}" using w(3,4) True by auto
    then obtain e' where "free_pages e [p..<p + n] m = Ok (e', unmarked e (set [p..<p + n]) m)"
      "same_place e e'" "be_ok e' (unmarked e (set [p..<p + n]) m)"
      using free_pages_spec[of e m "[p..<p + n]"] Cons.prems(1) w5 True by auto
    moreover from True w(2) top have "be_base e \<le> a" "a + n * 4096 \<le> be_base e + be_size e"
      "(a - be_base e) div 4096 = p" by simp_all
    ultimately show ?thesis
      using free_post_here[OF Cons.prems(1) w(3)[unfolded True] w(4)[unfolded True] Cons.prems(3)]
        True w(2) unfolding step by simp
  next
    case False
    have "a \<in> be_range w" using w(2) top Cons.prems(3) by (simp add: be_range_def)
    moreover have "be_range e \<inter> be_range w = {}" using False w(1) Cons.prems(1) by auto
    ultimately have "\<not> (be_base e \<le> a \<and> a + n * 4096 \<le> be_base e + be_size e)"
      using Cons.prems(3) by (auto simp: be_range_def)
    moreover have "managed es a n \<and> frames a n \<inter> table_free es m = {}"
      using w False Cons.prems(2) by (auto simp: managed_def table_free_Cons)
    then obtain es' m' where "free_in a n (n * 4096) es m = Ok (es', m')" "free_post a n es m es' m'"
      using Cons.IH Cons.prems(1,3) by auto
    ultimately show ?thesis
      unfolding step using free_post_later[OF Cons.prems(1)] by auto
  qed
qed

text \<open>Freeing a frame that is free panics.\<close>

lemma free_in_double:
  "table_ok es m \<Longrightarrow> f \<in> table_free es m \<Longrightarrow> free_in f 1 4096 es m = Panic"
proof (induction es)
  case (Cons e es)
  show ?case
  proof (cases "f \<in> be_free e m")
    case True
    then obtain p where p: "f = be_base e + p * 4096" "p < be_pages e" "\<not> be_taken e m p"
      by (auto simp: be_free_def)
    have bnd: "be_bounded e" using Cons.prems(1) by (simp add: be_ok_def)
    have "f + 1 * 4096 \<le> be_base e + be_size e" using be_page_inside[OF p(2)] p(1) by simp
    moreover from this have "f + 1 * 4096 \<le> phys_limit" using bnd by (simp add: be_bounded_def)
    moreover have "be_usage e p m = Ok 0"
      using p bnd by (simp add: be_access be_taken_def)
    ultimately show ?thesis
      using free_in_Cons[OF Cons.prems(1), of 1 f] p(1) by simp
  next
    case False
    then have f: "f \<in> table_free es m" using Cons.prems(2) by (simp add: table_free_Cons)
    then obtain e' where e': "e' \<in> set es" "f \<in> be_free e' m" by (auto simp: table_free_def)
    then have "f + 1 * 4096 \<le> be_base e' + be_size e'" "f \<in> be_range e'"
      using be_free_in_range[OF e'(2)] be_free_self by (auto simp: frame_bytes_def be_range_def)
    moreover have "be_bounded e'" using Cons.prems(1) e'(1) by (induction es) (auto simp: be_ok_def)
    ultimately have lim: "f + 1 * 4096 \<le> phys_limit" by (simp add: be_bounded_def)
    have "f \<notin> be_range e" using Cons.prems(1) e' \<open>f \<in> be_range e'\<close> by auto
    then have "\<not> (be_base e \<le> f \<and> f + 1 * 4096 \<le> be_base e + be_size e)"
      by (auto simp: be_range_def)
    then have "free_in f 1 4096 (e # es) m =
        bind_res (free_in f 1 4096 es m) (\<lambda>(es', m'). Ok (e # es', m'))"
      using free_in_Cons[OF Cons.prems(1) _ lim] by (auto simp del: free_in.simps free_pages.simps)
    then show ?thesis
      using Cons.IH Cons.prems(1) f by simp
  qed
qed (simp add: table_free_def)

section \<open>Counting\<close>

lemma inj_frame: "inj (\<lambda>p. b + p * (4096 :: nat))"
  by (simp add: inj_def)

lemma card_be_free: "be_ok e m \<Longrightarrow> card (be_free e m) = be_pages e - be_used e"
proof -
  assume ok: "be_ok e m"
  let ?T = "{p. p < be_pages e \<and> be_taken e m p}"
  have "be_free e m = (\<lambda>p. be_base e + p * 4096) ` ({..<be_pages e} - ?T)"
    by (auto simp: be_free_def)
  then have "card (be_free e m) = card ({..<be_pages e} - ?T)"
    by (simp add: card_image inj_on_subset[OF inj_frame])
  also have "\<dots> = be_pages e - card ?T" by (subst card_Diff_subset) auto
  finally show ?thesis using ok by (simp add: be_ok_def)
qed

lemma finite_be_free: "finite (be_free e m)"
proof -
  have "be_free e m \<subseteq> (\<lambda>p. be_base e + p * 4096) ` {..<be_pages e}" by (auto simp: be_free_def)
  then show ?thesis by (rule finite_subset) simp
qed

lemma card_table_free:
  "table_ok es m \<Longrightarrow> card (table_free es m) = sum_list (map (\<lambda>e. be_pages e - be_used e) es)"
proof (induction es)
  case (Cons e es)
  have "be_free e m \<inter> table_free es m = {}" using table_free_disjoint[OF Cons.prems] by blast
  moreover have "finite (table_free es m)" by (simp add: table_free_def finite_be_free)
  ultimately show ?case
    using Cons by (simp add: table_free_Cons card_Un_disjoint finite_be_free card_be_free)
qed (simp add: table_free_def)

lemma usage_sum_spec:
  "table_ok es m \<Longrightarrow> tot + length es * 2 ^ 35 < usize_limit \<Longrightarrow> used \<le> tot \<Longrightarrow>
   \<exists>u t. usage_sum es tot used = Ok \<lparr>fu_used = u, fu_total = t\<rparr> \<and> u \<le> t \<and>
     t = tot + sum_list (map be_pages es) \<and>
     t - u = tot - used + sum_list (map (\<lambda>e. be_pages e - be_used e) es)"
proof (induction es arbitrary: tot used)
  case (Cons e es)
  have le: "be_used e \<le> be_pages e" "be_pages e \<le> 2 ^ 35"
    using Cons.prems(1) be_used_bound be_pages_bound by (auto simp: be_ok_def)
  have "tot + be_pages e < usize_limit" "used + be_used e < usize_limit"
    using Cons.prems(2,3) le by simp_all
  then have "chk_add tot (shr_page (be_size e)) = (Ok (tot + be_pages e) :: (unit, nat) res)"
    "chk_add used (be_used e) = (Ok (used + be_used e) :: (unit, nat) res)"
    by (simp_all add: chk_add_eq be_pages_def)
  moreover have "tot + be_pages e + length es * 2 ^ 35 < usize_limit"
    using Cons.prems(2) le(2) by simp
  moreover have "used + be_used e \<le> tot + be_pages e" using Cons.prems(3) le(1) by simp
  ultimately show ?case
    using Cons.IH[of "tot + be_pages e" "used + be_used e"] Cons.prems(1,3) le(1) by auto
qed simp

section \<open>The allocator as a component\<close>

definition buddy_inv :: "buddy \<Rightarrow> bool" where
  "buddy_inv b \<longleftrightarrow> ba_table_virt b \<noteq> 0 \<and> length (ba_table b) = BUDDY_ENTRIES \<and>
     table_ok (ba_table b) (ba_mem b)"

definition free_frames :: "buddy \<Rightarrow> nat set" where
  "free_frames b = table_free (ba_table b) (ba_mem b)"

text \<open>Allocation and freeing change counters, never the place of an entry.\<close>

abbreviation places :: "buddy_entry list \<Rightarrow> (nat \<times> nat) list" where
  "places es \<equiv> map (\<lambda>e. (be_base e, be_size e)) es"

lemma free_pages_place: "free_pages e ps m = Ok (e', m') \<Longrightarrow> same_place e e'"
proof (induction e ps m rule: free_pages.induct)
  case (2 e p ps m)
  let ?upd = "\<lambda>u. if u - 1 = 0 then bind_res (chk_sub (be_used e) 1) (\<lambda>used.
        Ok (e\<lparr>be_skip := if p < be_skip e then p else be_skip e, be_used := used\<rparr>)) else (Ok e :: (unit, buddy_entry) res)"
  obtain u where u: "be_usage e p m = Ok u" "u \<noteq> 0"
    using "2.prems" by (cases "be_usage e p m") (auto split: if_splits)
  from "2.prems" have "bind_res (?upd u) (\<lambda>e'. case be_set_usage e' p (u - 1) m of
      Ok m' \<Rightarrow> free_pages e' ps m' | _ \<Rightarrow> Panic) = Ok (e', m')"
    unfolding free_pages.simps u(1) res.case if_not_P[OF u(2)] .
  then obtain e1 where e1: "?upd u = Ok e1" and rest: "(case be_set_usage e1 p (u - 1) m of
      Ok m' \<Rightarrow> free_pages e1 ps m' | _ \<Rightarrow> Panic) = Ok (e', m')"
    unfolding bind_res_Ok_iff by blast
  then obtain m1 where m1: "be_set_usage e1 p (u - 1) m = Ok m1"
    by (cases "be_set_usage e1 p (u - 1) m") simp_all
  have "free_pages e1 ps m1 = Ok (e', m')" using rest m1 by simp
  moreover have "same_place e e1" using e1 by (auto simp: same_place_def split: if_splits)
  ultimately show ?case using "2.IH"[OF u m1] by (simp add: same_place_def)
qed (simp add: same_place_def)

lemma free_in_places: "free_in a n k es m = Ok (es', m') \<Longrightarrow> places es' = places es"
proof (induction a n k es m arbitrary: es' rule: free_in.induct)
  case (2 a n k e es m)
  then show ?case
    by (auto simp: Let_def same_place_def split: if_splits dest!: free_pages_place)
qed simp

lemma allocate_in_places: "allocate_in n es m = Ok (r, es', m') \<Longrightarrow> places es' = places es"
proof (induction n es m arbitrary: es' r m' rule: allocate_in.induct)
  case (2 n e es m)
  then show ?case by (auto split: res.splits if_splits)
qed simp

lemma managed_places: "places es' = places es \<Longrightarrow> managed es' a n = managed es a n"
proof -
  have "managed es a n \<longleftrightarrow> (\<exists>(b, s) \<in> set (places es). \<exists>p. a = b + p * 4096 \<and>
      shr_page (shr_page s + PAGE_OFFSET_MASK) \<le> p \<and> p + n \<le> shr_page s)" for es
    by (auto simp: managed_def be_pages_def be_usage_pages_def)
  then show "places es' = places es \<Longrightarrow> ?thesis" by presburger
qed

end
