(* ===== verification/Frame_Allocation.thy ===== *)
theory Frame_Allocation
  imports Frames
begin

text \<open>
  The contract of a frame allocator as a locale, what a client may conclude from it, the proof that the
  buddy allocator meets it, the set-up of the buddy table by \<open>BuddyAllocator::new\<close>, and the
  properties of physical frame allocation.
\<close>

section \<open>The contract of a frame allocator\<close>

text \<open>
  What the rest of the kernel relies on. \<open>avail\<close> is the set of free frames, \<open>run\<close> tells which runs of
  frames the allocator could ever hand out, \<open>content\<close> is the memory behind the frames.
\<close>

locale frame_allocator =
  fixes sound :: "'s \<Rightarrow> bool"
    and avail :: "'s \<Rightarrow> nat set"
    and run :: "'s \<Rightarrow> nat \<Rightarrow> nat \<Rightarrow> bool"
    and content :: "'s \<Rightarrow> nat \<Rightarrow> u8"
    and alloc :: "nat \<Rightarrow> 's \<Rightarrow> (unit, nat option \<times> 's) res"
    and release :: "nat \<Rightarrow> nat \<Rightarrow> 's \<Rightarrow> (unit, 's) res"
  assumes alloc_returns: "sound s \<Longrightarrow> 0 < n \<Longrightarrow> \<exists>r s'. alloc n s = Ok (r, s') \<and> sound s'"
    and alloc_none: "sound s \<Longrightarrow> 0 < n \<Longrightarrow> alloc n s = Ok (None, s') \<Longrightarrow> s' = s"
    and alloc_takes: "sound s \<Longrightarrow> 0 < n \<Longrightarrow> alloc n s = Ok (Some a, s') \<Longrightarrow>
      frames a n \<subseteq> avail s \<and> avail s' = avail s - frames a n \<and> run s a n"
    and alloc_run: "sound s \<Longrightarrow> 0 < n \<Longrightarrow> alloc n s = Ok (r, s') \<Longrightarrow> run s' = run s"
    and alloc_zeroed: "sound s \<Longrightarrow> 0 < n \<Longrightarrow> alloc n s = Ok (Some a, s') \<Longrightarrow>
      f \<in> frames a n \<Longrightarrow> x \<in> frame_bytes f \<Longrightarrow> content s' x = 0"
    and alloc_keeps: "sound s \<Longrightarrow> 0 < n \<Longrightarrow> alloc n s = Ok (Some a, s') \<Longrightarrow> run s b k \<Longrightarrow>
      frames a n \<inter> frames b k = {} \<Longrightarrow> f \<in> frames b k \<Longrightarrow> x \<in> frame_bytes f \<Longrightarrow> content s' x = content s x"
    and release_returns: "sound s \<Longrightarrow> 0 < n \<Longrightarrow> run s a n \<Longrightarrow> frames a n \<inter> avail s = {} \<Longrightarrow>
      \<exists>s'. release a n s = Ok s' \<and> sound s' \<and> avail s' = avail s \<union> frames a n \<and> run s' = run s"
    and release_keeps: "sound s \<Longrightarrow> 0 < n \<Longrightarrow> run s a n \<Longrightarrow> frames a n \<inter> avail s = {} \<Longrightarrow>
      release a n s = Ok s' \<Longrightarrow> run s b k \<Longrightarrow> f \<in> frames b k \<Longrightarrow> x \<in> frame_bytes f \<Longrightarrow> content s' x = content s x"

text \<open>A client: it asks for runs of frames and gives back runs it holds, in any order.\<close>

datatype frame_op = AllocRun nat | FreeRun nat

fun frame_client ::
  "(nat \<Rightarrow> 's \<Rightarrow> (unit, nat option \<times> 's) res) \<Rightarrow> (nat \<Rightarrow> nat \<Rightarrow> 's \<Rightarrow> (unit, 's) res) \<Rightarrow>
   frame_op list \<Rightarrow> 's \<Rightarrow> (nat \<times> nat) list \<Rightarrow> (unit, 's \<times> (nat \<times> nat) list) res" where
  "frame_client alloc release [] s held = Ok (s, held)"
| "frame_client alloc release (AllocRun n # ops) s held =
     bind_res (alloc (Suc n) s) (\<lambda>(r, s').
       frame_client alloc release ops s' (case r of None \<Rightarrow> held | Some a \<Rightarrow> (a, Suc n) # held))"
| "frame_client alloc release (FreeRun i # ops) s held =
     (if i < length held
      then bind_res (release (fst (held ! i)) (snd (held ! i)) s) (\<lambda>s'.
             frame_client alloc release ops s' (take i held @ drop (Suc i) held))
      else frame_client alloc release ops s held)"

abbreviation held_frames :: "(nat \<times> nat) list \<Rightarrow> nat set" where
  "held_frames held \<equiv> \<Union> ((\<lambda>(a, n). frames a n) ` set held)"

fun disjoint_runs :: "(nat \<times> nat) list \<Rightarrow> bool" where
  "disjoint_runs [] = True"
| "disjoint_runs ((a, n) # held) \<longleftrightarrow> frames a n \<inter> held_frames held = {} \<and> disjoint_runs held"

lemma disjoint_runs_append:
  "disjoint_runs (xs @ ys) \<longleftrightarrow> disjoint_runs xs \<and> disjoint_runs ys \<and> held_frames xs \<inter> held_frames ys = {}"
  by (induction xs rule: disjoint_runs.induct) auto

lemma disjoint_runs_remove:
  assumes "disjoint_runs held" and "i < length held"
  shows "disjoint_runs (take i held @ drop (Suc i) held)"
    and "held_frames (take i held @ drop (Suc i) held) = held_frames held - frames (fst (held ! i)) (snd (held ! i))"
proof -
  obtain a n where an: "held ! i = (a, n)" by force
  have split: "held = take i held @ (a, n) # drop (Suc i) held"
    using an assms(2) id_take_nth_drop by metis
  then have d: "disjoint_runs (take i held)" "disjoint_runs (drop (Suc i) held)"
    "frames a n \<inter> held_frames (drop (Suc i) held) = {}"
    "held_frames (take i held) \<inter> (frames a n \<union> held_frames (drop (Suc i) held)) = {}"
    using assms(1) disjoint_runs_append[of "take i held" "(a, n) # drop (Suc i) held"] by auto
  then show "disjoint_runs (take i held @ drop (Suc i) held)"
    by (auto simp: disjoint_runs_append)
  have "held_frames held = held_frames (take i held) \<union> frames a n \<union> held_frames (drop (Suc i) held)"
    by (subst split) auto
  with d an show "held_frames (take i held @ drop (Suc i) held) = held_frames held - frames (fst (held ! i)) (snd (held ! i))"
    by auto
qed

definition ledger_ok :: "('s \<Rightarrow> bool) \<Rightarrow> ('s \<Rightarrow> nat set) \<Rightarrow> ('s \<Rightarrow> nat \<Rightarrow> nat \<Rightarrow> bool) \<Rightarrow> nat set \<Rightarrow>
    's \<Rightarrow> (nat \<times> nat) list \<Rightarrow> bool" where
  "ledger_ok sound avail run F s held \<longleftrightarrow> sound s \<and> disjoint_runs held \<and>
     held_frames held \<inter> avail s = {} \<and> held_frames held \<union> avail s = F \<and>
     list_all (\<lambda>(a, n). 0 < n \<and> run s a n) held"

context frame_allocator
begin

lemma ledger_alloc:
  assumes "ledger_ok sound avail run F s held" and "alloc (Suc n) s = Ok (r, s')"
  shows "ledger_ok sound avail run F s' (case r of None \<Rightarrow> held | Some a \<Rightarrow> (a, Suc n) # held)"
proof (cases r)
  case None
  with assms alloc_none[of s "Suc n" s'] show ?thesis by (simp add: ledger_ok_def)
next
  case (Some a)
  have "sound s" using assms(1) by (simp add: ledger_ok_def)
  with assms(2) alloc_returns[of s "Suc n"] alloc_takes[of s "Suc n" a s'] alloc_run[of s "Suc n" r s'] Some
  have "sound s'" "frames a (Suc n) \<subseteq> avail s" "avail s' = avail s - frames a (Suc n)" "run s a (Suc n)" "run s' = run s"
    by auto
  with Some assms(1) show ?thesis
    by (auto simp: ledger_ok_def)
qed

lemma ledger_free:
  assumes "ledger_ok sound avail run F s held" and "i < length held"
  shows "\<exists>s'. release (fst (held ! i)) (snd (held ! i)) s = Ok s' \<and>
    ledger_ok sound avail run F s' (take i held @ drop (Suc i) held)"
proof -
  let ?a = "fst (held ! i)" and ?n = "snd (held ! i)"
  have mem: "(?a, ?n) \<in> set held" using assms(2) by simp
  then have "frames ?a ?n \<subseteq> held_frames held" by force
  then have "frames ?a ?n \<inter> avail s = {}" "0 < ?n" "run s ?a ?n" "sound s"
    using assms(1) mem by (auto simp: ledger_ok_def list_all_iff)
  then obtain s' where s': "release ?a ?n s = Ok s'" "sound s'" "avail s' = avail s \<union> frames ?a ?n" "run s' = run s"
    using release_returns by metis
  have "list_all (\<lambda>(a, n). 0 < n \<and> run s' a n) (take i held @ drop (Suc i) held)"
    using assms(1) s'(4) set_take_subset[of i held] set_drop_subset[of "Suc i" held]
    by (auto simp: ledger_ok_def list_all_iff)
  moreover have L: "disjoint_runs held" "held_frames held \<inter> avail s = {}" "held_frames held \<union> avail s = F"
    using assms(1) by (simp_all add: ledger_ok_def)
  note rm = disjoint_runs_remove[OF L(1) assms(2)]
  have "held_frames (take i held @ drop (Suc i) held) \<inter> avail s' = {}"
    unfolding rm(2) s'(3) using L(2) by blast
  moreover have "held_frames (take i held @ drop (Suc i) held) \<union> avail s' = F"
    unfolding rm(2) s'(3) using L(3) \<open>frames ?a ?n \<subseteq> held_frames held\<close> by blast
  ultimately have "ledger_ok sound avail run F s' (take i held @ drop (Suc i) held)"
    using rm(1) s'(2) unfolding ledger_ok_def by simp
  with s'(1) show ?thesis by blast
qed

theorem client_never_shares:
  "ledger_ok sound avail run F s held \<Longrightarrow>
   \<exists>s' held'. frame_client alloc release ops s held = Ok (s', held') \<and> ledger_ok sound avail run F s' held'"
proof (induction ops arbitrary: s held)
  case (Cons opn ops)
  show ?case
  proof (cases opn)
    case (AllocRun n)
    have "sound s" using Cons.prems by (simp add: ledger_ok_def)
    then obtain r s' where "alloc (Suc n) s = Ok (r, s')" using alloc_returns[of s "Suc n"] by auto
    with AllocRun Cons.IH[OF ledger_alloc[OF Cons.prems this]] show ?thesis by simp
  next
    case (FreeRun i)
    show ?thesis
    proof (cases "i < length held")
      case True
      from ledger_free[OF Cons.prems True] obtain s' where
        "release (fst (held ! i)) (snd (held ! i)) s = Ok s'"
        "ledger_ok sound avail run F s' (take i held @ drop (Suc i) held)" by blast
      with FreeRun True Cons.IH[of s' "take i held @ drop (Suc i) held"] show ?thesis by simp
    qed (use FreeRun Cons in simp)
  qed
qed simp

end

section \<open>The buddy allocator meets the contract\<close>

lemma table_ok_pairwise:
  "table_ok es m \<Longrightarrow> e \<in> set es \<Longrightarrow> e' \<in> set es \<Longrightarrow> e = e' \<or> be_range e \<inter> be_range e' = {}"
  by (induction es) auto

lemma table_ok_entry: "table_ok es m \<Longrightarrow> e \<in> set es \<Longrightarrow> be_ok e m"
  by (induction es) auto

definition table_frames :: "buddy_entry list \<Rightarrow> nat set" where
  "table_frames es = {be_base e + p * 4096 | e p. e \<in> set es \<and> be_usage_pages e \<le> p \<and> p < be_pages e}"

lemma table_free_frames:
  assumes "table_ok es m" and "f \<in> table_free es m"
  shows "f \<in> table_frames es"
proof -
  from assms(2) obtain e p where e: "e \<in> set es" "f = be_base e + p * 4096" "p < be_pages e" "\<not> be_taken e m p"
    by (auto simp: table_free_def be_free_def)
  have "be_ok e m" using assms(1) e(1) by (rule table_ok_entry)
  with e have "be_usage_pages e \<le> p" by (auto simp: be_ok_def) (meson leI order_trans)
  with e show ?thesis by (auto simp: table_frames_def)
qed

lemma managed_frames:
  assumes "managed es a n" and "f \<in> frames a n"
  shows "f \<in> table_frames es"
proof -
  from assms obtain e p q where "e \<in> set es" "be_usage_pages e \<le> p" "p + n \<le> be_pages e"
    "f = be_base e + q * 4096" "p \<le> q" "q < p + n"
    by (auto simp: managed_def frames_in_entry)
  then show ?thesis
    unfolding table_frames_def by (intro CollectI exI[of _ e] exI[of _ q]) auto
qed

lemma frame_not_in_maps:
  assumes "table_ok es m" and "f \<in> table_frames es" and "x \<in> frame_bytes f"
  shows "x \<notin> map_area es"
proof
  assume "x \<in> map_area es"
  then obtain e' where e': "e' \<in> set es" "be_base e' \<le> x" "x < be_base e' + min (be_usage_pages e' * 4096) (be_size e')"
    by (auto simp: map_area_def)
  obtain e p where e: "e \<in> set es" "f = be_base e + p * 4096" "be_usage_pages e \<le> p" "p < be_pages e"
    using assms(2) by (auto simp: table_frames_def)
  have "x \<in> be_range e"
    using assms(3) e be_page_inside[OF e(4)] by (auto simp: frame_bytes_def be_range_def)
  moreover have "x \<in> be_range e'" using e' by (auto simp: be_range_def)
  ultimately have "e = e'" using table_ok_pairwise[OF assms(1) e(1) e'(1)] by auto
  moreover have "be_usage_pages e * 4096 \<le> p * 4096" using e(3) by simp
  ultimately show False using e' assms(3) e(2) by (auto simp: frame_bytes_def)
qed

lemma frames_disjoint:
  assumes "table_ok es m" and "f \<in> table_frames es" and "g \<in> table_frames es" and "f \<noteq> g" and "x \<in> frame_bytes f"
  shows "x \<notin> frame_bytes g"
proof
  assume g: "x \<in> frame_bytes g"
  obtain e p where e: "e \<in> set es" "f = be_base e + p * 4096" "p < be_pages e"
    using assms(2) by (auto simp: table_frames_def)
  obtain e' q where e': "e' \<in> set es" "g = be_base e' + q * 4096" "q < be_pages e'"
    using assms(3) by (auto simp: table_frames_def)
  have "x \<in> be_range e" "x \<in> be_range e'"
    using g assms(5) e e' be_page_inside[OF e(3)] be_page_inside[OF e'(3)]
    by (auto simp: frame_bytes_def be_range_def)
  then have same: "e = e'" using table_ok_pairwise[OF assms(1) e(1) e'(1)] by auto
  with assms(4) e e' have "p < q \<or> q < p" by auto
  then have "p * 4096 + 4096 \<le> q * 4096 \<or> q * 4096 + 4096 \<le> p * 4096"
    using mult_le_mono1[of "Suc p" q 4096] mult_le_mono1[of "Suc q" p 4096] by auto
  with g assms(5) e(2) e'(2) same show False by (auto simp: frame_bytes_def)
qed

abbreviation buddy_run :: "buddy \<Rightarrow> nat \<Rightarrow> nat \<Rightarrow> bool" where
  "buddy_run b \<equiv> managed (ba_table b)"

definition phys_byte :: "buddy \<Rightarrow> nat \<Rightarrow> u8" where
  "phys_byte b x = ba_mem b (x + PHYS_OFFSET)"

lemma buddy_allocate_cases:
  assumes "buddy_inv b" and "0 < n"
  obtains r es m where "buddy_allocate n b = Ok (r, b\<lparr>ba_table := es, ba_mem := m\<rparr>)"
    "alloc_post n (ba_table b) (ba_mem b) r es m" "buddy_inv (b\<lparr>ba_table := es, ba_mem := m\<rparr>)"
    "managed es = managed (ba_table b)"
proof -
  from assms have ok: "table_ok (ba_table b) (ba_mem b)" "ba_table_virt b \<noteq> 0"
    "length (ba_table b) = BUDDY_ENTRIES" by (simp_all add: buddy_inv_def)
  from allocate_in_spec[OF ok(1) assms(2)] obtain r es m where
    al: "allocate_in n (ba_table b) (ba_mem b) = Ok (r, es, m)" "alloc_post n (ba_table b) (ba_mem b) r es m"
    by blast
  have "managed es = managed (ba_table b)"
    by (intro ext managed_places) (rule allocate_in_places[OF al(1)])
  moreover from al have "table_ok es m" "length es = length (ba_table b)"
    by (auto simp: alloc_post_def dest: map_eq_imp_length_eq)
  ultimately show thesis using al ok that[of r m es]
    by (simp add: buddy_allocate_def buddy_inv_def)
qed

lemma buddy_free_cases:
  assumes "buddy_inv b" and "0 < n" and "buddy_run b a n" and "frames a n \<inter> free_frames b = {}"
  obtains es m where "buddy_free a n b = Ok (b\<lparr>ba_table := es, ba_mem := m\<rparr>)"
    "free_post a n (ba_table b) (ba_mem b) es m" "buddy_inv (b\<lparr>ba_table := es, ba_mem := m\<rparr>)"
    "managed es = managed (ba_table b)"
proof -
  from assms have ok: "table_ok (ba_table b) (ba_mem b)" "ba_table_virt b \<noteq> 0"
    "length (ba_table b) = BUDDY_ENTRIES" by (simp_all add: buddy_inv_def)
  from free_in_spec[OF ok(1)] assms obtain es m where
    fr: "free_in a n (n * 4096) (ba_table b) (ba_mem b) = Ok (es, m)" "free_post a n (ba_table b) (ba_mem b) es m"
    by (metis free_frames_def)
  have small: "n * 4096 < usize_limit"
  proof -
    from assms(3) obtain e p where "e \<in> set (ba_table b)" "p + n \<le> be_pages e" by (auto simp: managed_def)
    moreover from this have "be_bounded e" using table_ok_entry[OF ok(1)] by (auto simp: be_ok_def)
    ultimately show ?thesis using be_pages_bound[of e] by simp
  qed
  have "managed es = managed (ba_table b)"
    by (intro ext managed_places) (rule free_in_places[OF fr(1)])
  moreover from fr have "table_ok es m" "length es = length (ba_table b)"
    by (auto simp: free_post_def dest: map_eq_imp_length_eq)
  ultimately show thesis using fr ok that[of m es] small
    by (simp add: buddy_free_def buddy_inv_def chk_mul_eq PAGE_SIZE_def)
qed

interpretation bfa: frame_allocator buddy_inv free_frames buddy_run phys_byte buddy_allocate buddy_free
proof unfold_locales
  fix b n a s' assume inv: "buddy_inv b" and n: "(0::nat) < n"
  obtain r es m where al: "buddy_allocate n b = Ok (r, b\<lparr>ba_table := es, ba_mem := m\<rparr>)"
    "alloc_post n (ba_table b) (ba_mem b) r es m" "buddy_inv (b\<lparr>ba_table := es, ba_mem := m\<rparr>)"
    "managed es = managed (ba_table b)"
    by (rule buddy_allocate_cases[OF inv n])
  have ok: "table_ok (ba_table b) (ba_mem b)" using inv by (simp add: buddy_inv_def)
  show "\<exists>r s'. buddy_allocate n b = Ok (r, s') \<and> buddy_inv s'" using al by blast
  show "s' = b" if "buddy_allocate n b = Ok (None, s')"
    using that al by (auto simp: alloc_post_def)
  show "frames a n \<subseteq> free_frames b \<and> free_frames s' = free_frames b - frames a n \<and> buddy_run b a n"
    if "buddy_allocate n b = Ok (Some a, s')"
    using that al by (auto simp: alloc_post_def free_frames_def)
  show "buddy_run s' = buddy_run b" if "buddy_allocate n b = Ok (r', s')" for r'
    using that al by auto
  show "phys_byte s' x = 0" if "buddy_allocate n b = Ok (Some a, s')" "f \<in> frames a n" "x \<in> frame_bytes f" for f x
    using that al by (auto simp: alloc_post_def phys_byte_def)
  show "phys_byte s' x = phys_byte b x" if "buddy_allocate n b = Ok (Some a, s')" "buddy_run b c k"
    "frames a n \<inter> frames c k = {}" "f \<in> frames c k" "x \<in> frame_bytes f" for c k f x
  proof -
    have post: "frames a n \<subseteq> table_free (ba_table b) (ba_mem b)" "s' = b\<lparr>ba_table := es, ba_mem := m\<rparr>"
      "changed_only (map_area (ba_table b) \<union> \<Union> (frame_bytes ` frames a n)) (ba_mem b) m"
      using al(1,2) that(1) by (auto simp: alloc_post_def)
    have f: "f \<in> table_frames (ba_table b)" using that(2,4) by (rule managed_frames)
    have "x \<notin> map_area (ba_table b)" using frame_not_in_maps[OF ok f that(5)] .
    moreover have "x \<notin> frame_bytes g" if g: "g \<in> frames a n" for g
    proof (rule frames_disjoint[OF ok f])
      show "g \<in> table_frames (ba_table b)" using g post(1) table_free_frames[OF ok] by auto
      show "f \<noteq> g" "x \<in> frame_bytes f" using g \<open>frames a n \<inter> frames c k = {}\<close> \<open>f \<in> frames c k\<close> \<open>x \<in> frame_bytes f\<close> by auto
    qed
    ultimately show ?thesis
      using post(2,3) by (auto simp: changed_only_def phys_byte_def)
  qed
next
  fix b n a s' assume inv: "buddy_inv b" and n: "(0::nat) < n" and run: "buddy_run b a n"
    and held: "frames a n \<inter> free_frames b = {}"
  obtain es m where fr: "buddy_free a n b = Ok (b\<lparr>ba_table := es, ba_mem := m\<rparr>)"
    "free_post a n (ba_table b) (ba_mem b) es m" "buddy_inv (b\<lparr>ba_table := es, ba_mem := m\<rparr>)"
    "managed es = managed (ba_table b)"
    by (rule buddy_free_cases[OF inv n run held])
  have ok: "table_ok (ba_table b) (ba_mem b)" using inv by (simp add: buddy_inv_def)
  show "\<exists>s'. buddy_free a n b = Ok s' \<and> buddy_inv s' \<and> free_frames s' = free_frames b \<union> frames a n \<and>
      buddy_run s' = buddy_run b"
    using fr by (auto simp: free_post_def free_frames_def)
  show "phys_byte s' x = phys_byte b x" if "buddy_free a n b = Ok s'" "buddy_run b c k"
    "f \<in> frames c k" "x \<in> frame_bytes f" for c k f x
    using that fr frame_not_in_maps[OF ok managed_frames[OF that(2,3)] that(4)]
    by (auto simp: free_post_def changed_only_def phys_byte_def)
qed

section \<open>Setting up the table\<close>

definition area_range :: "memory_area \<Rightarrow> nat set" where
  "area_range a = {ma_base a ..< ma_base a + ma_size a}"

fun entries_ok :: "buddy_entry list \<Rightarrow> bool" where
  "entries_ok [] \<longleftrightarrow> True"
| "entries_ok (e # es) \<longleftrightarrow> be_bounded e \<and> be_range e \<inter> table_range es = {} \<and> entries_ok es"

fun areas_ok :: "memory_area list \<Rightarrow> bool" where
  "areas_ok [] \<longleftrightarrow> True"
| "areas_ok (a # as) \<longleftrightarrow> ma_base a + ma_size a \<le> phys_limit \<and> 4096 dvd ma_size a \<and>
     (\<forall>a' \<in> set as. area_range a \<inter> area_range a' = {}) \<and> areas_ok as"

lemma table_range_Cons [simp]: "table_range (e # es) = be_range e \<union> table_range es"
  by (simp add: table_range_def)

lemma table_range_Nil [simp]: "table_range [] = {}"
  by (simp add: table_range_def)

lemma place_area_spec:
  assumes "entries_ok es" and "ma_base a + ma_size a \<le> phys_limit" and "area_range a \<inter> table_range es = {}"
  shows "\<exists>es'. place_area a es = Ok es' \<and> entries_ok es' \<and> length es' = length es \<and>
     table_range es' \<subseteq> table_range es \<union> area_range a"
  using assms
proof (induction es)
  case (Cons e es)
  have bnd: "be_base e + be_size e \<le> phys_limit" using Cons.prems(1) by (simp add: be_bounded_def)
  have adds: "chk_add (ma_base a) (ma_size a) = (Ok (ma_base a + ma_size a) :: (unit, nat) res)"
    "chk_add (be_base e) (be_size e) = (Ok (be_base e + be_size e) :: (unit, nat) res)"
    using Cons.prems(2) bnd by (simp_all add: chk_add_eq phys_limit_def)
  have dis: "be_range e \<inter> table_range es = {}" "area_range a \<inter> table_range es = {}" "entries_ok es"
    using Cons.prems by auto
  consider (start) "ma_base a + ma_size a = be_base e"
    | (stop) "ma_base a + ma_size a \<noteq> be_base e" "ma_base a = be_base e + be_size e"
    | (fresh) "ma_base a + ma_size a \<noteq> be_base e" "ma_base a \<noteq> be_base e + be_size e" "be_size e = 0"
    | (next_entry) "ma_base a + ma_size a \<noteq> be_base e" "ma_base a \<noteq> be_base e + be_size e" "be_size e \<noteq> 0"
    by blast
  then show ?case
  proof cases
    case start
    let ?e = "e\<lparr>be_base := ma_base a, be_size := be_size e + ma_size a\<rparr>"
    have "be_range ?e = area_range a \<union> be_range e" using start by (auto simp: be_range_def area_range_def)
    moreover have "be_bounded ?e" using start bnd by (simp add: be_bounded_def)
    moreover have "chk_add (be_size e) (ma_size a) = (Ok (be_size e + ma_size a) :: (unit, nat) res)"
      using start bnd by (simp add: chk_add_eq phys_limit_def)
    ultimately show ?thesis using start adds dis by auto
  next
    case stop
    let ?e = "e\<lparr>be_size := be_size e + ma_size a\<rparr>"
    have "be_range ?e = area_range a \<union> be_range e" using stop by (auto simp: be_range_def area_range_def)
    moreover have "be_bounded ?e" using stop Cons.prems(2) by (simp add: be_bounded_def)
    moreover have "chk_add (be_size e) (ma_size a) = (Ok (be_size e + ma_size a) :: (unit, nat) res)"
      using stop Cons.prems(2) by (simp add: chk_add_eq phys_limit_def)
    ultimately show ?thesis using stop adds dis by auto
  next
    case fresh
    let ?e = "e\<lparr>be_base := ma_base a, be_size := ma_size a\<rparr>"
    have "be_range ?e = area_range a" by (auto simp: be_range_def area_range_def)
    moreover have "be_bounded ?e" using Cons.prems(2) by (simp add: be_bounded_def)
    ultimately show ?thesis using fresh adds dis by auto
  next
    case next_entry
    from Cons.IH[OF dis(3) Cons.prems(2) dis(2)] obtain es' where
      "place_area a es = Ok es'" "entries_ok es'" "length es' = length es"
      "table_range es' \<subseteq> table_range es \<union> area_range a" by blast
    with next_entry adds Cons.prems show ?thesis by auto
  qed
qed simp

lemma place_areas_spec:
  assumes "entries_ok es" and "areas_ok as" and "\<forall>a \<in> set as. area_range a \<inter> table_range es = {}"
  shows "\<exists>es'. place_areas as 0 es = Ok es' \<and> entries_ok es' \<and> length es' = length es \<and>
     table_range es' \<subseteq> table_range es \<union> (\<Union>a \<in> set as. area_range a)"
  using assms
proof (induction as arbitrary: es)
  case (Cons a as)
  show ?case
  proof (cases "ma_size a = 0")
    case True
    with Cons show ?thesis by fastforce
  next
    case False
    from place_area_spec[OF Cons.prems(1), of a] Cons.prems(2,3) obtain es1 where
      es1: "place_area a es = Ok es1" "entries_ok es1" "length es1 = length es"
      "table_range es1 \<subseteq> table_range es \<union> area_range a" by (auto simp del: Un_iff)
    have "\<forall>a' \<in> set as. area_range a' \<inter> table_range es1 = {}"
      using es1(4) Cons.prems(2,3) by fastforce
    with Cons.IH[OF es1(2)] Cons.prems(2) obtain es' where
      "place_areas as 0 es1 = Ok es'" "entries_ok es'" "length es' = length es1"
      "table_range es' \<subseteq> table_range es1 \<union> (\<Union>a \<in> set as. area_range a)" by auto
    with es1 False show ?thesis by auto
  qed
qed simp

lemma zero_pages_spec:
  "(\<forall>p \<in> set ps. start + p * 4096 < usize_limit) \<Longrightarrow>
   zero_pages start ps m = Ok (\<lambda>x. if \<exists>p \<in> set ps. start + p * 4096 \<le> x \<and> x < start + p * 4096 + 4096 then 0 else m x)"
proof (induction ps arbitrary: m)
  case (Cons p ps)
  have "shl_page p = p * 4096" using Cons.prems by (simp add: shl_page_def PAGE_SHIFT_def)
  moreover have "start + p * 4096 < usize_limit" using Cons.prems by simp
  ultimately show ?case
    using Cons by (auto simp: chk_add_eq write_bytes_def PAGE_SIZE_def fun_eq_iff)
qed simp

lemma set_used_spec:
  "be_bounded e \<Longrightarrow> set ps \<subseteq> {..<be_pages e} \<Longrightarrow>
   set_used e ps m = Ok (\<lambda>x. if \<exists>p \<in> set ps. x = be_base e + p + PHYS_OFFSET then 1 else m x)"
proof (induction ps arbitrary: m)
  case (Cons p ps)
  then show ?case by (simp add: be_access fun_eq_iff)
qed simp

lemma usage_pages_small: "be_usage_pages e \<noteq> 0 \<longleftrightarrow> be_pages e \<noteq> 0" "be_usage_pages e \<le> be_pages e"
  by (auto simp: be_usage_pages_def page_defs)

text \<open>The memory after the usage map of one entry has been set up.\<close>

lemma setup_entry:
  assumes bnd: "be_bounded e" and big: "be_usage_pages e < be_pages e"
  shows "\<exists>m'. bind_res (be_usage_addr e 0) (\<lambda>start.
      bind_res (zero_pages start [0..<be_usage_pages e] m) (set_used e [0..<be_usage_pages e])) = Ok m' \<and>
    changed_only (map_area [e]) m m' \<and>
    (\<forall>p < be_pages e. be_byte e m' p = (if p < be_usage_pages e then 1 else 0))"
proof -
  let ?up = "be_usage_pages e" and ?s = "be_base e + PHYS_OFFSET"
  let ?z = "\<lambda>x. if \<exists>p \<in> {0..<?up}. ?s + p * 4096 \<le> x \<and> x < ?s + p * 4096 + 4096 then 0 else m x"
  let ?m = "\<lambda>x. if \<exists>p \<in> {0..<?up}. x = be_base e + p + PHYS_OFFSET then 1 else ?z x"
  have inside: "p * 4096 + 4096 \<le> be_size e" if "p < ?up" for p
    using that big be_page_inside[of p e] by simp
  have addr: "be_usage_addr e 0 = Ok ?s" using be_usage_addr_ok[OF bnd, of 0] big by simp
  have "?s + p * 4096 < usize_limit" if "p < ?up" for p
    using inside[OF that] bnd by (simp add: be_bounded_def phys_limit_def PHYS_OFFSET_def)
  then have z: "zero_pages ?s [0..<?up] m = Ok ?z"
    using zero_pages_spec[of "[0..<?up]" ?s m] by simp
  have "set_used e [0..<?up] ?z = Ok ?m"
    using set_used_spec[OF bnd, of "[0..<?up]" ?z] big by (simp add: subset_iff)
  with addr z have "bind_res (be_usage_addr e 0) (\<lambda>start.
      bind_res (zero_pages start [0..<?up] m) (set_used e [0..<?up])) = Ok ?m" by simp
  moreover have "be_byte e ?m p = (if p < ?up then 1 else 0)" if "p < be_pages e" for p
  proof -
    have "p < ?up * 4096" using that be_usage_pages_cover[of e] by simp
    then have "p div 4096 < ?up" by (simp add: less_mult_imp_div_less)
    moreover have "p div 4096 * 4096 \<le> p" "p < p div 4096 * 4096 + 4096" by simp_all
    ultimately have "\<exists>q \<in> {0..<?up}. ?s + q * 4096 \<le> be_base e + p + PHYS_OFFSET \<and>
        be_base e + p + PHYS_OFFSET < ?s + q * 4096 + 4096"
      by (intro bexI[of _ "p div 4096"]) auto
    then show ?thesis by auto
  qed
  moreover have "changed_only (map_area [e]) m ?m"
  proof -
    have "x \<in> map_area [e]" if "p < ?up" "be_base e + p * 4096 \<le> x" "x < be_base e + p * 4096 + 4096" for p x
    proof -
      have "p * 4096 + 4096 \<le> ?up * 4096" using that(1) mult_le_mono1[of "Suc p" ?up 4096] by simp
      with that inside[of p] show ?thesis by (simp add: map_area_def)
    qed
    moreover have "be_base e + p \<in> map_area [e]" if "p < ?up" for p
      using that big inside[of p] by (simp add: map_area_def)
    ultimately show ?thesis by (auto simp: changed_only_def)
  qed
  ultimately show ?thesis by blast
qed

lemma map_area_places: "places es' = places es \<Longrightarrow> map_area es' = map_area es"
proof -
  have "map_area es = (\<Union>(b, s) \<in> set (places es). {b ..< b + min (shr_page (shr_page s + PAGE_OFFSET_MASK) * 4096) s})" for es
    by (simp add: map_area_def be_pages_def be_usage_pages_def)
  then show "places es' = places es \<Longrightarrow> ?thesis" by presburger
qed

lemma table_range_places: "places es' = places es \<Longrightarrow> table_range es' = table_range es"
proof -
  have "table_range es = (\<Union>(b, s) \<in> set (places es). {b ..< b + s})" for es
    by (simp add: table_range_def be_range_def)
  then show "places es' = places es \<Longrightarrow> ?thesis" by presburger
qed

lemma setup_be_ok:
  assumes "be_bounded e"
    and "be_usage_pages e < be_pages e \<longrightarrow> (\<forall>p < be_pages e. be_byte e m p = (if p < be_usage_pages e then 1 else 0))"
  shows "be_ok (e\<lparr>be_skip := be_usage_pages e, be_used := be_usage_pages e\<rparr>) m"
proof -
  let ?e = "e\<lparr>be_skip := be_usage_pages e, be_used := be_usage_pages e\<rparr>"
  have taken: "be_taken ?e m p \<longleftrightarrow> p < be_usage_pages e" if "p < be_pages e" for p
    using assms(2) that by (auto simp: be_taken_def split: if_splits)
  have "{p. p < be_pages e \<and> be_taken ?e m p} = {..<be_usage_pages e}"
    using taken usage_pages_small(2)[of e] by auto
  then have "card {p. p < be_pages e \<and> be_taken ?e m p} = be_usage_pages e" by simp
  moreover have "\<forall>p < be_usage_pages e. be_taken ?e m p"
    using taken usage_pages_small(2)[of e] by simp
  ultimately show ?thesis
    using assms usage_pages_small(2)[of e] by (auto simp: be_ok_def)
qed

lemma setup_maps_spec:
  "entries_ok es \<Longrightarrow> \<exists>es' m'. setup_maps es m = Ok (es', m') \<and> table_ok es' m' \<and> places es' = places es \<and>
     changed_only (map_area es) m m'"
proof (induction es arbitrary: m)
  case Nil
  then show ?case by (simp add: changed_only_def)
next
  case (Cons e es)
  let ?init = "\<lambda>m. if be_usage_pages e < be_pages e then bind_res (be_usage_addr e 0) (\<lambda>start.
      bind_res (zero_pages start [0..<be_usage_pages e] m) (set_used e [0..<be_usage_pages e])) else Ok m"
  let ?e = "e\<lparr>be_skip := be_usage_pages e, be_used := be_usage_pages e\<rparr>"
  have bnd: "be_bounded e" and rest: "entries_ok es" and dis: "be_range e \<inter> table_range es = {}"
    using Cons.prems by auto
  obtain m1 where m1: "?init m = Ok m1" "changed_only (map_area [e]) m m1"
    "be_usage_pages e < be_pages e \<longrightarrow> (\<forall>p < be_pages e. be_byte e m1 p = (if p < be_usage_pages e then 1 else 0))"
    using setup_entry[OF bnd, of m] by (cases "be_usage_pages e < be_pages e") (auto simp: changed_only_def)
  from Cons.IH[OF rest, of m1] obtain es' m' where
    es': "setup_maps es m1 = Ok (es', m')" "table_ok es' m'" "places es' = places es" "changed_only (map_area es) m1 m'"
    by blast
  have "map_area es \<inter> be_range e = {}" using map_area_range[of es] dis by auto
  with es'(4) have agree: "agree_on (be_range e) m1 m'" by (rule changed_only_agree)
  have "be_ok ?e m1" using bnd m1(3) by (rule setup_be_ok)
  moreover have "agree_on (be_range ?e) m1 m'" using agree by simp
  ultimately have "be_ok ?e m'" by (metis be_ok_agree)
  moreover have "be_range ?e \<inter> be_range e' = {}" if "e' \<in> set es'" for e'
  proof -
    have "be_range e' \<subseteq> table_range es'" using that by (auto simp: table_range_def)
    with dis table_range_places[OF es'(3)] show ?thesis by auto
  qed
  ultimately have "table_ok (?e # es') m'" using es'(2) by simp
  moreover have "setup_maps (e # es) m = Ok (?e # es', m')"
    using m1(1) es'(1) by (simp add: Let_def)
  moreover have "changed_only (map_area (e # es)) m m'"
    using m1(2) es'(4) unfolding map_area_Cons[of e es] by (auto simp: changed_only_def)
  ultimately show ?case using es'(3) by (intro exI[of _ "?e # es'"] exI[of _ m']) simp
qed

lemma entries_ok_empty: "entries_ok (replicate k be_empty)" "table_range (replicate k be_empty) = {}"
proof -
  have r: "be_range be_empty = {}" "be_bounded be_empty" by (simp_all add: be_range_def be_bounded_def be_empty_def)
  show "table_range (replicate k be_empty) = {}" by (induction k) (simp_all add: r)
  then show "entries_ok (replicate k be_empty)"
    using r by (induction k) (auto simp: table_range_def)
qed

text \<open>The bump allocator's view of the areas once the table page has been taken.\<close>

lemma sum_list_le_areas:
  "sum_list (map ma_size (a # as)) < usize_limit \<Longrightarrow> ma_size a < usize_limit"
  by simp

lemma bump_take_table:
  assumes "4096 \<le> ma_size a" and "ma_base a + ma_size a \<le> phys_limit"
    and "sum_list (map ma_size (a # as)) < usize_limit"
  defines "b \<equiv> \<lparr>bm_orig = (a # as, 0), bm_cur = (a # as, 0)\<rparr>"
  shows "bump_allocate 1 (b, m) =
      Ok (Some (ma_base a), b\<lparr>bm_cur := (a # as, 4096)\<rparr>, write_bytes (ma_base a + PHYS_OFFSET) 0 4096 m)"
    and "bump_offset (b\<lparr>bm_cur := (a # as, 4096)\<rparr>) = Ok 4096"
proof -
  show "bump_allocate 1 (b, m) =
      Ok (Some (ma_base a), b\<lparr>bm_cur := (a # as, 4096)\<rparr>, write_bytes (ma_base a + PHYS_OFFSET) 0 4096 m)"
    using assms(1,2)
    by (simp add: b_def bump_allocate_def chk_mul_eq chk_sub_eq chk_add_eq PAGE_SIZE_def phys_to_virt_def
        phys_limit_def PHYS_OFFSET_def)
  let ?S = "sum_list (map ma_size (a # as))"
  have "4096 \<le> ?S" using assms(1) by simp
  then have "1 \<le> ?S div 4096" by (simp add: div_greater_zero_iff)
  have "bump_usage (b\<lparr>bm_cur := (a # as, 4096)\<rparr>) = Ok \<lparr>fu_used = 1, fu_total = ?S div 4096\<rparr>"
    using assms(3) \<open>4096 \<le> ?S\<close>
    by (simp add: b_def bump_usage_def chk_sum_def chk_sub_eq PAGE_SIZE_def)
  with \<open>1 \<le> ?S div 4096\<close> show "bump_offset (b\<lparr>bm_cur := (a # as, 4096)\<rparr>) = Ok 4096"
    by (simp add: bump_offset_def fu_free_def chk_sub_eq chk_mul_eq PAGE_SIZE_def)
qed

section \<open>Properties\<close>

text \<open>\<open>BuddyAllocator::new\<close>. Given disjoint, page-sized memory areas below the limit of the
  direct map, the first with room for the table, setting up the allocator neither panics nor fails; its
  invariant holds, every frame it manages comes from the areas, and the page that holds the
  table itself is not among them.\<close>

theorem buddy_new_establishes:
  assumes "areas_ok (a # as)" and "0 < ma_size a" and "sum_list (map ma_size (a # as)) < usize_limit"
  shows "\<exists>b. buddy_new (bump_new (a # as) 0) m = Ok (Some b) \<and> buddy_inv b \<and>
    table_range (ba_table b) \<subseteq> \<Union> (area_range ` set (a # as)) - frame_bytes (ma_base a) \<and>
    ba_table_virt b = ma_base a + PHYS_OFFSET"
proof -
  have room: "4096 \<le> ma_size a" using assms(1,2) by (auto simp: dvd_def)
  have lim: "ma_base a + ma_size a \<le> phys_limit" using assms(1) by simp
  have bump: "bump_new (a # as) 0 = \<lparr>bm_orig = (a # as, 0), bm_cur = (a # as, 0)\<rparr>"
    using assms(2) by (simp add: bump_new_def)
  note take = bump_take_table[OF room lim assms(3)]
  let ?es = "replicate BUDDY_ENTRIES be_empty" and ?A = "\<Union> (area_range ` set as)"
  let ?a = "\<lparr>ma_base = ma_base a + 4096, ma_size = ma_size a - 4096\<rparr>"
  let ?m = "write_bytes (ma_base a + PHYS_OFFSET) 0 4096 m"
  have sub: "area_range ?a \<union> ?A \<subseteq> \<Union> (area_range ` set (a # as)) - frame_bytes (ma_base a)"
  proof -
    have "frame_bytes (ma_base a) \<subseteq> area_range a" using room by (auto simp: frame_bytes_def area_range_def)
    moreover have "area_range a \<inter> ?A = {}" using assms(1) by auto
    moreover have "area_range ?a \<subseteq> area_range a - frame_bytes (ma_base a)"
      by (auto simp: frame_bytes_def area_range_def)
    ultimately show ?thesis unfolding list.set image_insert Union_insert by blast
  qed
  have "\<exists>es'. place_areas (a # as) 4096 ?es = Ok es' \<and> entries_ok es' \<and> length es' = BUDDY_ENTRIES \<and>
      table_range es' \<subseteq> area_range ?a \<union> ?A"
  proof (cases "ma_size a = 4096")
    case True
    with place_areas_spec[of ?es as] assms(1) show ?thesis by (auto simp: entries_ok_empty)
  next
    case False
    have bases: "chk_add (ma_base a) 4096 = (Ok (ma_base a + 4096) :: (unit, nat) res)"
      using lim room by (simp add: chk_add_eq phys_limit_def)
    obtain es1 where es1: "place_area ?a ?es = Ok es1" "entries_ok es1" "length es1 = BUDDY_ENTRIES"
      "table_range es1 \<subseteq> area_range ?a"
      using place_area_spec[of ?es ?a] lim room by (auto simp: entries_ok_empty)
    have "\<forall>a' \<in> set as. area_range a' \<inter> table_range es1 = {}"
      using es1(4) assms(1) by (fastforce simp: area_range_def)
    with place_areas_spec[OF es1(2), of as] assms(1) obtain es' where
      "place_areas as 0 es1 = Ok es'" "entries_ok es'" "length es' = BUDDY_ENTRIES"
      "table_range es' \<subseteq> table_range es1 \<union> ?A" using es1(3) by auto
    with es1 False room bases show ?thesis by auto
  qed
  then obtain es where es: "place_areas (a # as) 4096 ?es = Ok es" "entries_ok es" "length es = BUDDY_ENTRIES"
    "table_range es \<subseteq> area_range ?a \<union> ?A" by blast
  from setup_maps_spec[OF es(2), of ?m] obtain es' m' where
    es': "setup_maps es ?m = Ok (es', m')" "table_ok es' m'" "places es' = places es" by blast
  let ?b = "\<lparr>ba_table_virt = ma_base a + PHYS_OFFSET, ba_table = es', ba_mem = m'\<rparr>"
  have "buddy_new (bump_new (a # as) 0) m = Ok (Some ?b)"
    using take es es' lim room
    by (simp add: buddy_new_def bump bump_areas_def phys_to_virt_ok phys_limit_def del: place_areas.simps)
  moreover have "buddy_inv ?b"
    using es'(2) map_eq_imp_length_eq[OF es'(3)] es(3) by (simp add: buddy_inv_def PHYS_OFFSET_def)
  moreover have "table_range es' \<subseteq> \<Union> (area_range ` set (a # as)) - frame_bytes (ma_base a)"
    using es(4) sub table_range_places[OF es'(3)] by blast
  ultimately show ?thesis by (intro exI[of _ ?b]) simp
qed

theorem buddy_new_establishes_witness:
  "\<exists>b. buddy_new (bump_new [\<lparr>ma_base = 0x100000, ma_size = 0x4000\<rparr>] 0) (\<lambda>_. 7) = Ok (Some b) \<and> buddy_inv b"
  using buddy_new_establishes[of "\<lparr>ma_base = 0x100000, ma_size = 0x4000\<rparr>" "[]" "\<lambda>_. 7"]
  by (auto simp: phys_limit_def)

text \<open>An allocator with one area of four pages at \<open>0x100000\<close>, as \<open>new\<close> leaves it.\<close>

definition sample_buddy :: buddy where
  "sample_buddy = \<lparr>ba_table_virt = 0xFFFF800000000000,
     ba_table = \<lparr>be_base = 0x100000, be_size = 0x4000, be_skip = 1, be_used = 1\<rparr> # replicate 127 be_empty,
     ba_mem = (\<lambda>x. if x = 0x100000 + PHYS_OFFSET then 1 else 0)\<rparr>"

lemma table_ok_empty: "table_ok (replicate k be_empty) m"
proof -
  have "be_ok be_empty m" "be_range be_empty = {}"
    by (simp_all add: be_ok_def be_bounded_def be_empty_def be_pages_def be_usage_pages_def page_defs be_range_def)
  then show ?thesis by (induction k) auto
qed

lemma sample_buddy_inv: "buddy_inv sample_buddy"
proof -
  let ?e = "\<lparr>be_base = 0x100000, be_size = 0x4000, be_skip = Suc 0, be_used = Suc 0\<rparr>"
  let ?m = "\<lambda>x. if x = 0x100000 + PHYS_OFFSET then 1 else 0 :: u8"
  have pages: "be_pages ?e = 4" "be_usage_pages ?e = 1"
    by (simp_all add: be_pages_def be_usage_pages_def page_defs)
  have "{p. p < 4 \<and> be_taken ?e ?m p} = {0}"
    by (auto simp: be_taken_def pages split: if_splits)
  then have "be_ok ?e ?m"
    unfolding be_ok_def pages by (simp add: be_bounded_def be_taken_def phys_limit_def)
  moreover have "be_range be_empty = {}" by (simp add: be_range_def be_empty_def)
  ultimately show ?thesis
    by (simp add: buddy_inv_def sample_buddy_def table_ok_empty BUDDY_ENTRIES_def PAGE_SIZE_def)
qed

lemma sample_allocate: "\<exists>b'. buddy_allocate 2 sample_buddy = Ok (Some 0x101000, b')"
  by (simp add: buddy_allocate_def sample_buddy_def be_pages_def page_defs be_usage_def be_set_usage_def
      be_usage_addr_def phys_to_virt_def PHYS_OFFSET_def chk_add_def shl_page_def write_bytes_def upt_rec)

text \<open>Allocation is sound. The run handed out consists of frames that were free, is removed from
  the free frames and reads as zero, and every other run the allocator manages, in
  particular one a client holds, keeps its contents.\<close>

theorem buddy_allocate_fresh:
  assumes "buddy_inv b" and "0 < n" and "buddy_allocate n b = Ok (Some a, b')"
  shows "buddy_inv b' \<and> frames a n \<subseteq> free_frames b \<and> free_frames b' = free_frames b - frames a n \<and>
    (\<forall>f \<in> frames a n. \<forall>x \<in> frame_bytes f. phys_byte b' x = 0) \<and>
    (\<forall>c k. buddy_run b c k \<and> frames a n \<inter> frames c k = {} \<longrightarrow>
       (\<forall>f \<in> frames c k. \<forall>x \<in> frame_bytes f. phys_byte b' x = phys_byte b x))"
proof -
  have "buddy_inv b'" using bfa.alloc_returns[OF assms(1,2)] assms(3) by auto
  moreover note bfa.alloc_takes[OF assms]
  moreover have "\<forall>f \<in> frames a n. \<forall>x \<in> frame_bytes f. phys_byte b' x = 0"
    using bfa.alloc_zeroed[OF assms] by blast
  moreover have "\<forall>c k. buddy_run b c k \<and> frames a n \<inter> frames c k = {} \<longrightarrow>
       (\<forall>f \<in> frames c k. \<forall>x \<in> frame_bytes f. phys_byte b' x = phys_byte b x)"
    using bfa.alloc_keeps[OF assms] by blast
  ultimately show ?thesis by blast
qed

theorem buddy_allocate_fresh_witness:
  "\<exists>b'. buddy_allocate 2 sample_buddy = Ok (Some 0x101000, b') \<and> buddy_inv b' \<and>
     free_frames b' = free_frames sample_buddy - frames 0x101000 2"
proof -
  obtain b' where "buddy_allocate 2 sample_buddy = Ok (Some 0x101000, b')" using sample_allocate by blast
  moreover from buddy_allocate_fresh[OF sample_buddy_inv _ this]
  have "buddy_inv b'" "free_frames b' = free_frames sample_buddy - frames 0x101000 2" by simp_all
  ultimately show ?thesis by blast
qed

lemma no_free_run_frames:
  assumes "table_ok es m" and "e \<in> set es" and "no_free_run n e m" and "p + n \<le> be_pages e"
  shows "\<not> frames (be_base e + p * 4096) n \<subseteq> table_free es m"
proof
  assume sub: "frames (be_base e + p * 4096) n \<subseteq> table_free es m"
  from assms(3,4) obtain q where q: "p \<le> q" "q < p + n" "be_taken e m q" by (auto simp: no_free_run_def)
  let ?f = "be_base e + q * 4096"
  have "?f \<in> frames (be_base e + p * 4096) n" unfolding frames_in_entry using q by auto
  with sub obtain e' where e': "e' \<in> set es" "?f \<in> be_free e' m" by (auto simp: table_free_def)
  have "?f \<in> be_range e" using be_page_inside[of q e] q assms(4) by (simp add: be_range_def)
  with be_free_self[OF e'(2)] table_ok_pairwise[OF assms(1,2) e'(1)] have "e' = e" by auto
  with e'(2) q(3) show False by (auto simp: be_free_def)
qed

text \<open>Allocation is complete. A request for at least one frame never panics, and it is refused only when no
  run of that many frames is free; then nothing changes.\<close>

theorem buddy_allocate_complete:
  assumes "buddy_inv b" and "0 < n"
  shows "\<exists>r b'. buddy_allocate n b = Ok (r, b') \<and> buddy_inv b' \<and>
    (r = None \<longleftrightarrow> (\<nexists>a. buddy_run b a n \<and> frames a n \<subseteq> free_frames b)) \<and> (r = None \<longrightarrow> b' = b)"
proof -
  have ok: "table_ok (ba_table b) (ba_mem b)" using assms(1) by (simp add: buddy_inv_def)
  obtain r es m where al: "buddy_allocate n b = Ok (r, b\<lparr>ba_table := es, ba_mem := m\<rparr>)"
    "alloc_post n (ba_table b) (ba_mem b) r es m" "buddy_inv (b\<lparr>ba_table := es, ba_mem := m\<rparr>)"
    by (rule buddy_allocate_cases[OF assms])
  have "\<nexists>a. buddy_run b a n \<and> frames a n \<subseteq> free_frames b" if "r = None"
    using al(2) that no_free_run_frames[OF ok] by (auto simp: alloc_post_def managed_def free_frames_def)
  moreover have "\<exists>a. buddy_run b a n \<and> frames a n \<subseteq> free_frames b" if "r = Some a" for a
    using al(2) that by (auto simp: alloc_post_def free_frames_def)
  moreover have "b\<lparr>ba_table := es, ba_mem := m\<rparr> = b" if "r = None"
    using al(2) that by (simp add: alloc_post_def)
  ultimately show ?thesis
    using al(1,3) by (cases r) blast+
qed

theorem buddy_allocate_complete_witness:
  "\<exists>b'. buddy_allocate 5 sample_buddy = Ok (None, b') \<or>
     (\<exists>a. buddy_allocate 5 sample_buddy = Ok (Some a, b') \<and> buddy_run sample_buddy a 5)"
  using buddy_allocate_complete[OF sample_buddy_inv, of 5] bfa.alloc_takes[OF sample_buddy_inv, of 5]
  by (metis not_None_eq zero_less_numeral)

text \<open>C4: no frame is ever handed out twice. Whatever sequence of requests and returns of held
  runs a client makes, the allocator does not panic, the runs held are pairwise disjoint, none of their frames is
  free, and held and free frames together are exactly the frames that were free at the start.\<close>

theorem frames_never_shared:
  assumes "buddy_inv b"
  shows "\<exists>b' held. frame_client buddy_allocate buddy_free ops b [] = Ok (b', held) \<and> buddy_inv b' \<and>
    disjoint_runs held \<and> held_frames held \<inter> free_frames b' = {} \<and> held_frames held \<union> free_frames b' = free_frames b"
  using bfa.client_never_shares[of "free_frames b" b "[]" ops] assms
  by (auto simp: ledger_ok_def)

theorem frames_never_shared_witness:
  "\<exists>b' held. frame_client buddy_allocate buddy_free [AllocRun 0, AllocRun 1, FreeRun 1] sample_buddy [] = Ok (b', held) \<and>
     disjoint_runs held"
  using frames_never_shared[OF sample_buddy_inv, of "[AllocRun 0, AllocRun 1, FreeRun 1]"] by blast

text \<open>A double free is caught. Freeing a frame that is free panics.\<close>

theorem buddy_double_free_panics:
  "buddy_inv b \<Longrightarrow> f \<in> free_frames b \<Longrightarrow> buddy_free_one f b = Panic"
  using free_in_double[of "ba_table b" "ba_mem b" f]
  by (simp add: buddy_free_one_def buddy_free_def buddy_inv_def free_frames_def chk_mul_eq PAGE_SIZE_def)

theorem buddy_double_free_panics_witness: "buddy_free_one 0x103000 sample_buddy = Panic"
proof (rule buddy_double_free_panics[OF sample_buddy_inv])
  let ?e = "\<lparr>be_base = 0x100000, be_size = 0x4000, be_skip = 1, be_used = 1\<rparr>"
  have "0x103000 \<in> be_free ?e (ba_mem sample_buddy)"
    unfolding be_free_def
    by (intro CollectI exI[of _ 3])
      (simp add: be_taken_def sample_buddy_def be_pages_def be_usage_pages_def page_defs)
  then show "0x103000 \<in> free_frames sample_buddy"
    by (simp add: free_frames_def sample_buddy_def table_free_def)
qed

text \<open>The usage report is exact: \<open>usage\<close> does not panic, and the free count it gives is the
  number of free frames.\<close>

theorem buddy_usage_exact:
  assumes "buddy_inv b"
  shows "\<exists>u. buddy_usage b = Ok u \<and> fu_free u = Ok (card (free_frames b))"
proof -
  have ok: "table_ok (ba_table b) (ba_mem b)" "length (ba_table b) = 128"
    using assms by (simp_all add: buddy_inv_def BUDDY_ENTRIES_def PAGE_SIZE_def)
  then have "(0::nat) + length (ba_table b) * 2 ^ 35 < usize_limit" by simp
  from usage_sum_spec[OF ok(1) this order_refl] card_table_free[OF ok(1)] show ?thesis
    by (auto simp: buddy_usage_def fu_free_def chk_sub_eq free_frames_def)
qed

theorem buddy_usage_exact_witness:
  "\<exists>u. buddy_usage sample_buddy = Ok u \<and> fu_free u = Ok (card (free_frames sample_buddy))"
  by (rule buddy_usage_exact[OF sample_buddy_inv])

end
