(* ===== verification/Tasks.thy ===== *)
theory Tasks
  imports Ordered_Map Signals Frame_Allocation
begin

text \<open>
  Tasks and schedulers: \<open>kernel/src/task/state.rs\<close>, \<open>task/sched.rs\<close>, \<open>task/mod.rs\<close>. A task is
  named by a reference (its \<open>Arc\<close>); the heap maps references to tasks, and a weak reference
  upgrades exactly when the heap has it. Queues hold references, \<open>Arc::ptr_eq\<close> is equality of
  references, and \<open>position\<close> followed by \<open>remove\<close> is \<open>remove1\<close>. The saved CPU context of a task
  and the switch itself (\<open>switch_to\<close>) are not modelled.
\<close>

section \<open>Task states\<close>

datatype task_state = Created | Ready | Running | Blocked | Stopped | Exited

fun is_schedulable :: "task_state \<Rightarrow> bool" where
  "is_schedulable Ready = True"
| "is_schedulable Running = True"
| "is_schedulable _ = False"

fun is_terminated :: "task_state \<Rightarrow> bool" where
  "is_terminated Exited = True"
| "is_terminated _ = False"

fun can_start :: "task_state \<Rightarrow> bool" where
  "can_start Created = True"
| "can_start Stopped = True"
| "can_start _ = False"

type_synonym tref = nat

record task =
  t_tid :: nat
  t_name :: string
  t_process :: "oid option"
  t_state :: task_state
  t_cpu_id :: nat
  t_exit_code :: "32 word option"
  t_kernel_stack_top :: nat
  t_syscall_stack_top :: nat
  t_user_syscall_stack :: nat
  t_running :: bool

type_synonym theap = "tref \<Rightarrow> task option"

definition upd_task :: "tref \<Rightarrow> (task \<Rightarrow> task) \<Rightarrow> theap \<Rightarrow> theap" where
  "upd_task t f h = (case h t of None \<Rightarrow> h | Some k \<Rightarrow> h(t \<mapsto> f k))"

definition set_state :: "tref \<Rightarrow> task_state \<Rightarrow> theap \<Rightarrow> theap" where
  "set_state t st h = upd_task t (\<lambda>k. k\<lparr>t_state := st\<rparr>) h"

text \<open>An \<open>Arc\<close> keeps its task alive, so the default does not arise for a reference a queue holds.\<close>

definition state_of :: "theap \<Rightarrow> tref \<Rightarrow> task_state" where
  "state_of h t = (case h t of None \<Rightarrow> Exited | Some k \<Rightarrow> t_state k)"

section \<open>The scheduler\<close>

record scheduler =
  sc_idle :: "tref option"
  sc_current :: "tref option"
  sc_ready :: "tref list"
  sc_blocked :: "tref list"
  sc_stopped :: "tref list"

definition sc_new :: scheduler where
  "sc_new = \<lparr>sc_idle = None, sc_current = None, sc_ready = [], sc_blocked = [], sc_stopped = []\<rparr>"

definition sc_set_idle_task :: "tref \<Rightarrow> scheduler \<Rightarrow> scheduler" where
  "sc_set_idle_task t s = s\<lparr>sc_idle := Some t, sc_current := Some t\<rparr>"

definition sc_get_current_task :: "scheduler \<Rightarrow> tref option" where
  "sc_get_current_task s = (case sc_current s of Some t \<Rightarrow> Some t | None \<Rightarrow> sc_idle s)"

definition sc_set_current_task :: "tref \<Rightarrow> scheduler \<Rightarrow> scheduler" where
  "sc_set_current_task t s =
     (let s' = (if sc_idle s = None then s\<lparr>sc_idle := Some t\<rparr> else s) in s'\<lparr>sc_current := Some t\<rparr>)"

definition remove_from_all_queues :: "tref \<Rightarrow> scheduler \<Rightarrow> scheduler" where
  "remove_from_all_queues t s =
     s\<lparr>sc_ready := remove1 t (sc_ready s), sc_blocked := remove1 t (sc_blocked s),
       sc_stopped := remove1 t (sc_stopped s)\<rparr>"

type_synonym sched_heap = "scheduler \<times> theap"

fun sc_add_task :: "tref \<Rightarrow> sched_heap \<Rightarrow> sched_heap" where
  "sc_add_task t (s, h) =
     (let s1 = remove_from_all_queues t s
      in (s1\<lparr>sc_ready := sc_ready s1 @ [t]\<rparr>, set_state t Ready h))"

fun sc_remove_task :: "tref \<Rightarrow> sched_heap \<Rightarrow> sched_heap" where
  "sc_remove_task t (s, h) =
     (let s1 = remove_from_all_queues t s
      in (s1, if sc_current s1 = Some t then set_state t Stopped h else h))"

fun sc_block_current_task :: "sched_heap \<Rightarrow> sched_heap" where
  "sc_block_current_task (s, h) =
     (case sc_current s of
        None \<Rightarrow> (s, h)
      | Some c \<Rightarrow> (s\<lparr>sc_blocked := sc_blocked s @ [c]\<rparr>, set_state c Blocked h))"

fun sc_block_task :: "tref \<Rightarrow> sched_heap \<Rightarrow> sched_heap" where
  "sc_block_task t (s, h) =
     (if sc_current s = Some t then sc_block_current_task (s, h)
      else let s1 = remove_from_all_queues t s
           in (s1\<lparr>sc_blocked := sc_blocked s1 @ [t]\<rparr>, set_state t Blocked h))"

fun sc_unblock_task :: "tref \<Rightarrow> sched_heap \<Rightarrow> sched_heap" where
  "sc_unblock_task t (s, h) =
     (s\<lparr>sc_blocked := remove1 t (sc_blocked s), sc_ready := sc_ready s @ [t]\<rparr>, set_state t Ready h)"

fun sc_stop_task :: "tref \<Rightarrow> sched_heap \<Rightarrow> sched_heap" where
  "sc_stop_task t (s, h) =
     (if sc_current s = Some t then (s, set_state t Stopped h)
      else let s1 = remove_from_all_queues t s
           in (s1\<lparr>sc_stopped := sc_stopped s1 @ [t]\<rparr>, set_state t Stopped h))"

fun sc_resume_task :: "tref \<Rightarrow> sched_heap \<Rightarrow> sched_heap" where
  "sc_resume_task t (s, h) =
     (s\<lparr>sc_stopped := remove1 t (sc_stopped s), sc_ready := sc_ready s @ [t]\<rparr>, set_state t Ready h)"

text \<open>\<open>schedule\<close>: first the current task is put away, then the next one is picked.\<close>

fun put_away :: "sched_heap \<Rightarrow> sched_heap" where
  "put_away (s, h) =
     (case sc_current s of
        None \<Rightarrow> (s, h)
      | Some c \<Rightarrow>
          let s1 = s\<lparr>sc_current := None\<rparr>
          in case state_of h c of
               Ready \<Rightarrow> (s1\<lparr>sc_ready := sc_ready s @ [c]\<rparr>, set_state c Ready h)
             | Running \<Rightarrow> (s1\<lparr>sc_ready := sc_ready s @ [c]\<rparr>, set_state c Ready h)
             | Blocked \<Rightarrow> (if c \<in> set (sc_blocked s) then s1 else s1\<lparr>sc_blocked := sc_blocked s @ [c]\<rparr>, h)
             | _ \<Rightarrow> (s1, h))"

fun pick_next :: "sched_heap \<Rightarrow> (unit, tref \<times> sched_heap) res" where
  "pick_next (s, h) =
     (case sc_ready s of
        n # rest \<Rightarrow> Ok (n, s\<lparr>sc_ready := rest, sc_current := Some n\<rparr>, set_state n Running h)
      | [] \<Rightarrow>
          (case sc_idle s of
             None \<Rightarrow> Panic
           | Some i \<Rightarrow> Ok (i, s\<lparr>sc_current := Some i\<rparr>, set_state i Running h)))"

definition sc_schedule :: "sched_heap \<Rightarrow> (unit, tref \<times> sched_heap) res" where
  "sc_schedule sh = pick_next (put_away sh)"

definition sc_ready_count :: "scheduler \<Rightarrow> nat" where
  "sc_ready_count s = length (sc_ready s)"

definition sc_blocked_count :: "scheduler \<Rightarrow> nat" where
  "sc_blocked_count s = length (sc_blocked s)"

definition sc_stopped_count :: "scheduler \<Rightarrow> nat" where
  "sc_stopped_count s = length (sc_stopped s)"

section \<open>The task system\<close>

record task_sys =
  tk_heap :: theap
  tk_scheds :: "(nat, scheduler) btree"
  tk_archids :: "(nat, nat) btree"
  tk_cpu_count :: nat
  tk_next_tid :: nat
  tk_next_cpuid :: nat
  tk_all :: "tref list"
  tk_frames :: buddy

definition STACK_SIZE :: nat where "STACK_SIZE = 4 * 1024 * 1024"

definition get_archid_by_cpuid :: "nat \<Rightarrow> 'z task_sys_scheme \<Rightarrow> (unit, nat) res" where
  "get_archid_by_cpuid cpuid s = (case bt_get (tk_archids s) cpuid of None \<Rightarrow> Panic | Some a \<Rightarrow> Ok a)"

definition get_scheduler_by_archid :: "nat \<Rightarrow> 'z task_sys_scheme \<Rightarrow> (unit, scheduler) res" where
  "get_scheduler_by_archid a s = (case bt_get (tk_scheds s) a of None \<Rightarrow> Panic | Some sc \<Rightarrow> Ok sc)"

definition get_scheduler_by_cpuid :: "nat \<Rightarrow> 'z task_sys_scheme \<Rightarrow> (unit, scheduler) res" where
  "get_scheduler_by_cpuid c s = bind_res (get_archid_by_cpuid c s) (\<lambda>a. get_scheduler_by_archid a s)"

text \<open>The current CPU is given by its architecture id, \<open>me\<close>.\<close>

definition get_current_task :: "nat \<Rightarrow> 'z task_sys_scheme \<Rightarrow> (unit, tref option) res" where
  "get_current_task me s = bind_res (get_scheduler_by_archid me s) (\<lambda>sc. Ok (sc_get_current_task sc))"

text \<open>Running a scheduler method under the scheduler of one CPU.\<close>

definition on_scheduler :: "nat \<Rightarrow> (sched_heap \<Rightarrow> sched_heap) \<Rightarrow> 'z task_sys_scheme \<Rightarrow> (unit, 'z task_sys_scheme) res" where
  "on_scheduler a f s =
     bind_res (get_scheduler_by_archid a s) (\<lambda>sc.
       let (sc', h') = f (sc, tk_heap s)
       in Ok (s\<lparr>tk_scheds := bt_insert a sc' (tk_scheds s), tk_heap := h'\<rparr>))"

definition cpu_of :: "theap \<Rightarrow> tref \<Rightarrow> nat" where
  "cpu_of h t = (case h t of None \<Rightarrow> 0 | Some k \<Rightarrow> t_cpu_id k)"

definition alloc_cpuid :: "'z task_sys_scheme \<Rightarrow> (unit, nat \<times> 'z task_sys_scheme) res" where
  "alloc_cpuid s =
     (if tk_cpu_count s = 0 then Panic
      else Ok (tk_next_cpuid s mod tk_cpu_count s, s\<lparr>tk_next_cpuid := (tk_next_cpuid s + 1) mod usize_limit\<rparr>))"

text \<open>\<open>new_inner\<close> places the task at a reference not in use.\<close>

definition alloc_stack :: "'z task_sys_scheme \<Rightarrow> (unit, nat \<times> 'z task_sys_scheme) res" where
  "alloc_stack s =
     bind_res (buddy_allocate (STACK_SIZE div PAGE_SIZE) (tk_frames s)) (\<lambda>(r, fr).
       case r of
         None \<Rightarrow> Panic
       | Some p \<Rightarrow> bind_res (phys_to_virt p) (\<lambda>v. Ok (v, s\<lparr>tk_frames := fr\<rparr>)))"

definition new_inner ::
  "nat \<Rightarrow> nat \<Rightarrow> string \<Rightarrow> oid option \<Rightarrow> bool \<Rightarrow> tref \<Rightarrow> 'z task_sys_scheme \<Rightarrow> (unit, 'z task_sys_scheme) res" where
  "new_inner tid cpu name process is_idle t s =
     bind_res (alloc_stack s) (\<lambda>(kstack, s1).
     bind_res (alloc_stack s1) (\<lambda>(sstack, s2).
     bind_res (chk_add kstack STACK_SIZE) (\<lambda>ktop.
     bind_res (chk_add sstack STACK_SIZE) (\<lambda>stop.
       Ok (s2\<lparr>tk_heap := (tk_heap s2)(t \<mapsto>
             \<lparr>t_tid = tid, t_name = name, t_process = process,
              t_state = (if is_idle then Ready else Created), t_cpu_id = cpu, t_exit_code = None,
              t_kernel_stack_top = ktop, t_syscall_stack_top = stop, t_user_syscall_stack = 0,
              t_running = False\<rparr>)\<rparr>)))))"

definition new_idle :: "nat \<Rightarrow> tref \<Rightarrow> 'z task_sys_scheme \<Rightarrow> (unit, 'z task_sys_scheme) res" where
  "new_idle cpu t s = new_inner 0 cpu ''idle'' None True t s"

definition fetch_tid :: "'z task_sys_scheme \<Rightarrow> nat \<times> 'z task_sys_scheme" where
  "fetch_tid s = (tk_next_tid s, s\<lparr>tk_next_tid := (tk_next_tid s + 1) mod usize_limit\<rparr>)"

definition new_kernel :: "string \<Rightarrow> tref \<Rightarrow> 'z task_sys_scheme \<Rightarrow> (unit, 'z task_sys_scheme) res" where
  "new_kernel name t s =
     (let (tid, s1) = fetch_tid s
      in bind_res (alloc_cpuid s1) (\<lambda>(cpu, s2). new_inner tid cpu name None False t s2))"

definition new_user :: "string \<Rightarrow> oid \<Rightarrow> tref \<Rightarrow> 'z task_sys_scheme \<Rightarrow> (unit, 'z task_sys_scheme) res" where
  "new_user name process t s =
     (let (tid, s1) = fetch_tid s
      in bind_res (alloc_cpuid s1) (\<lambda>(cpu, s2). new_inner tid cpu name (Some process) False t s2))"

text \<open>\<open>Drop for Task\<close>: the last reference goes away and both stacks are given back.\<close>

definition drop_task :: "tref \<Rightarrow> 'z task_sys_scheme \<Rightarrow> (unit, 'z task_sys_scheme) res" where
  "drop_task t s =
     (case tk_heap s t of
        None \<Rightarrow> Ok s
      | Some k \<Rightarrow>
          bind_res (chk_sub (t_kernel_stack_top k) PHYS_OFFSET) (\<lambda>kt.
          bind_res (chk_sub kt STACK_SIZE) (\<lambda>kp.
          bind_res (buddy_free kp (STACK_SIZE div PAGE_SIZE) (tk_frames s)) (\<lambda>f1.
          bind_res (chk_sub (t_syscall_stack_top k) PHYS_OFFSET) (\<lambda>st.
          bind_res (chk_sub st STACK_SIZE) (\<lambda>sp.
          bind_res (buddy_free sp (STACK_SIZE div PAGE_SIZE) f1) (\<lambda>f2.
            Ok (s\<lparr>tk_frames := f2, tk_heap := (tk_heap s)(t := None)\<rparr>))))))))"

definition register_task :: "tref \<Rightarrow> 'z task_sys_scheme \<Rightarrow> 'z task_sys_scheme" where
  "register_task t s = s\<lparr>tk_all := tk_all s @ [t]\<rparr>"

definition unregister_task :: "tref \<Rightarrow> 'z task_sys_scheme \<Rightarrow> 'z task_sys_scheme" where
  "unregister_task t s = s\<lparr>tk_all := remove1 t (tk_all s)\<rparr>"

definition start_task :: "tref \<Rightarrow> 'z task_sys_scheme \<Rightarrow> (unit, 'z task_sys_scheme) res" where
  "start_task t s =
     (if \<not> can_start (state_of (tk_heap s) t) then Ok s
      else let s1 = s\<lparr>tk_heap := set_state t Ready (tk_heap s)\<rparr>
           in bind_res (get_archid_by_cpuid (cpu_of (tk_heap s1) t) s1) (\<lambda>a. on_scheduler a (sc_add_task t) s1))"

text \<open>\<open>block_task\<close> up to its waiting loop, with the loop's \<open>need_delay\<close>; while that and the
  task's \<open>running\<close> flag hold, the caller calls \<open>schedule\<close>, which is a step of its own.\<close>

definition block_task :: "nat \<Rightarrow> tref \<Rightarrow> 'z task_sys_scheme \<Rightarrow> (unit, bool \<times> 'z task_sys_scheme) res" where
  "block_task me t s =
     (let s1 = s\<lparr>tk_heap := set_state t Blocked (tk_heap s)\<rparr>;
          cpu = cpu_of (tk_heap s1) t
      in bind_res (get_archid_by_cpuid cpu s1) (\<lambda>a.
         bind_res (on_scheduler a (sc_block_task t) s1) (\<lambda>s2.
         bind_res (get_current_task me s2) (\<lambda>c.
           case c of None \<Rightarrow> Panic | Some c \<Rightarrow> Ok (cpu \<noteq> cpu_of (tk_heap s2) c, s2)))))"

definition unblock_task :: "tref \<Rightarrow> 'z task_sys_scheme \<Rightarrow> (unit, 'z task_sys_scheme) res" where
  "unblock_task t s =
     (if state_of (tk_heap s) t \<noteq> Blocked then Ok s
      else let s1 = s\<lparr>tk_heap := set_state t Ready (tk_heap s)\<rparr>
           in bind_res (get_archid_by_cpuid (cpu_of (tk_heap s1) t) s1) (\<lambda>a. on_scheduler a (sc_unblock_task t) s1))"

definition stop_task :: "tref \<Rightarrow> 'z task_sys_scheme \<Rightarrow> (unit, 'z task_sys_scheme) res" where
  "stop_task t s =
     (let s1 = s\<lparr>tk_heap := set_state t Stopped (tk_heap s)\<rparr>
      in bind_res (get_archid_by_cpuid (cpu_of (tk_heap s1) t) s1) (\<lambda>a. on_scheduler a (sc_stop_task t) s1))"

text \<open>\<open>exit_task\<close> returns the process whose \<open>on_thread_exit\<close> it then calls.\<close>

definition exit_task :: "tref \<Rightarrow> 32 word \<Rightarrow> 'z task_sys_scheme \<Rightarrow> (unit, oid option \<times> 'z task_sys_scheme) res" where
  "exit_task t code s =
     (let s1 = s\<lparr>tk_heap := upd_task t (\<lambda>k. k\<lparr>t_state := Exited, t_exit_code := Some code\<rparr>) (tk_heap s)\<rparr>
      in bind_res (get_archid_by_cpuid (cpu_of (tk_heap s1) t) s1) (\<lambda>a.
         bind_res (on_scheduler a (sc_remove_task t) s1) (\<lambda>s2.
           Ok (case tk_heap s2 t of None \<Rightarrow> None | Some k \<Rightarrow> t_process k, s2))))"

text \<open>\<open>schedule\<close> on the CPU \<open>me\<close>, up to \<open>switch_to\<close>.\<close>

definition schedule :: "nat \<Rightarrow> 'z task_sys_scheme \<Rightarrow> (unit, tref \<times> tref \<times> 'z task_sys_scheme) res" where
  "schedule me s =
     bind_res (get_scheduler_by_archid me s) (\<lambda>sc.
       case sc_get_current_task sc of
         None \<Rightarrow> Panic
       | Some prev \<Rightarrow>
           bind_res (sc_schedule (sc, upd_task prev (\<lambda>k. k\<lparr>t_running := False\<rparr>) (tk_heap s))) (\<lambda>(n, sc', h').
             Ok (prev, n, s\<lparr>tk_scheds := bt_insert me sc' (tk_scheds s),
                   tk_heap := upd_task n (\<lambda>k. k\<lparr>t_running := True\<rparr>) h'\<rparr>)))"

text \<open>\<open>create_kernel_task\<close>, without the saved context.\<close>

definition create_kernel_task :: "string \<Rightarrow> tref \<Rightarrow> 'z task_sys_scheme \<Rightarrow> (unit, 'z task_sys_scheme) res" where
  "create_kernel_task name t s =
     bind_res (new_kernel name t s) (\<lambda>s1. start_task t (register_task t s1))"

section \<open>Picking the next task\<close>

lemma upd_task_other [simp]: "t' \<noteq> t \<Longrightarrow> upd_task t f h t' = h t'"
  by (simp add: upd_task_def split: option.splits)

lemma upd_task_None_iff [simp]: "upd_task t f h t' = None \<longleftrightarrow> h t' = None"
  by (auto simp: upd_task_def split: option.splits)

lemma set_state_None_iff [simp]: "set_state t st h t' = None \<longleftrightarrow> h t' = None"
  by (simp add: set_state_def)

lemma state_of_set_state: "h t \<noteq> None \<Longrightarrow> state_of (set_state t st h) t' = (if t' = t then st else state_of h t')"
  by (auto simp: state_of_def set_state_def upd_task_def)

definition runnable_current :: "sched_heap \<Rightarrow> tref list" where
  "runnable_current sh =
     (case sc_current (fst sh) of
        None \<Rightarrow> []
      | Some c \<Rightarrow> if is_schedulable (state_of (snd sh) c) then [c] else [])"

lemma put_away_spec:
  "sc_ready (fst (put_away sh)) = sc_ready (fst sh) @ runnable_current sh \<and>
   sc_current (fst (put_away sh)) = None \<and> sc_idle (fst (put_away sh)) = sc_idle (fst sh) \<and>
   sc_stopped (fst (put_away sh)) = sc_stopped (fst sh) \<and>
   (\<forall>t. snd (put_away sh) t = None \<longleftrightarrow> snd sh t = None)"
  by (cases sh) (auto simp: runnable_current_def Let_def split: option.splits task_state.splits)

lemma put_away_blocked:
  "sc_blocked (fst (put_away (s, h))) =
     (case sc_current s of
        None \<Rightarrow> sc_blocked s
      | Some c \<Rightarrow> if state_of h c = Blocked \<and> c \<notin> set (sc_blocked s) then sc_blocked s @ [c] else sc_blocked s)"
  by (auto simp: Let_def split: option.splits task_state.splits)

text \<open>\<open>schedule\<close> is round robin. The current task goes to the back of the ready queue if it may
  still run; then the head of the queue becomes current, in state \<open>Running\<close>, and the rest of the queue
  keeps its order. Only when the queue is empty does the idle task run.\<close>

theorem schedule_round_robin:
  assumes "sc_idle s = Some i"
  shows "\<exists>n s' h'. sc_schedule (s, h) = Ok (n, s', h') \<and> sc_current s' = Some n \<and>
     (case sc_ready s @ runnable_current (s, h) of
        [] \<Rightarrow> n = i \<and> sc_ready s' = []
      | t # ts \<Rightarrow> n = t \<and> sc_ready s' = ts) \<and>
     sc_stopped s' = sc_stopped s \<and> (h n \<noteq> None \<longrightarrow> state_of h' n = Running)"
proof -
  obtain s1 h1 where sh1: "put_away (s, h) = (s1, h1)" by force
  note pa = put_away_spec[of "(s, h)", unfolded sh1]
  show ?thesis
    using pa assms
    by (auto simp: sc_schedule_def sh1 state_of_set_state simp del: put_away.simps split: list.splits)
qed

theorem schedule_round_robin_witness:
  "\<exists>n s' h'. sc_schedule (\<lparr>sc_idle = Some 0, sc_current = None, sc_ready = [5, 6], sc_blocked = [], sc_stopped = []\<rparr>,
     \<lambda>_. None) = Ok (n, s', h') \<and> n = 5 \<and> sc_ready s' = [6]"
  using schedule_round_robin[of "\<lparr>sc_idle = Some 0, sc_current = None, sc_ready = [5, 6], sc_blocked = [], sc_stopped = []\<rparr>"
      0 "\<lambda>_. None"]
  by (auto simp: runnable_current_def)

section \<open>Scheduler operations as steps\<close>

text \<open>\<open>QBlockCurrent\<close> is what a task that goes to sleep runs: block, then schedule.\<close>

datatype sched_op =
    QAdd tref | QRemove tref | QBlock tref | QUnblock tref | QStop tref | QResume tref
  | QSchedule | QBlockCurrent

fun sched_do :: "sched_op \<Rightarrow> sched_heap \<Rightarrow> (unit, tref list \<times> sched_heap) res" where
  "sched_do (QAdd t) sh = Ok ([], sc_add_task t sh)"
| "sched_do (QRemove t) sh = Ok ([], sc_remove_task t sh)"
| "sched_do (QBlock t) sh = Ok ([], sc_block_task t sh)"
| "sched_do (QUnblock t) sh = Ok ([], sc_unblock_task t sh)"
| "sched_do (QStop t) sh = Ok ([], sc_stop_task t sh)"
| "sched_do (QResume t) sh = Ok ([], sc_resume_task t sh)"
| "sched_do QSchedule sh = bind_res (sc_schedule sh) (\<lambda>(n, sh'). Ok ([n], sh'))"
| "sched_do QBlockCurrent sh = bind_res (sc_schedule (sc_block_current_task sh)) (\<lambda>(n, sh'). Ok ([n], sh'))"

fun sched_run :: "sched_op list \<Rightarrow> sched_heap \<Rightarrow> (unit, tref list \<times> sched_heap) res" where
  "sched_run [] sh = Ok ([], sh)"
| "sched_run (p # ps) sh =
     bind_res (sched_do p sh) (\<lambda>(ns, sh'). bind_res (sched_run ps sh') (\<lambda>(ns', sh''). Ok (ns @ ns', sh'')))"

subsection \<open>No starvation\<close>

fun op_target :: "sched_op \<Rightarrow> tref option" where
  "op_target (QAdd t) = Some t"
| "op_target (QRemove t) = Some t"
| "op_target (QBlock t) = Some t"
| "op_target (QUnblock t) = Some t"
| "op_target (QStop t) = Some t"
| "op_target (QResume t) = Some t"
| "op_target _ = None"

fun switches :: "sched_op \<Rightarrow> bool" where
  "switches QSchedule = True"
| "switches QBlockCurrent = True"
| "switches _ = False"

text \<open>The task waits in the ready queue behind at most \<open>k\<close> others.\<close>

definition waits :: "tref \<Rightarrow> nat \<Rightarrow> sched_heap \<Rightarrow> bool" where
  "waits t k sh \<longleftrightarrow> (\<exists>pre post. sc_ready (fst sh) = pre @ t # post \<and> length pre \<le> k)"

lemma waits_append: "waits t k sh \<Longrightarrow> sc_ready (fst sh') = sc_ready (fst sh) @ xs \<Longrightarrow> waits t k sh'"
  by (fastforce simp: waits_def)

lemma waits_remove:
  assumes "waits t k sh" and "x \<noteq> t" and "sc_ready (fst sh') = remove1 x (sc_ready (fst sh)) @ xs"
  shows "waits t k sh'"
proof -
  from assms(1) obtain pre post where r: "sc_ready (fst sh) = pre @ t # post" "length pre \<le> k"
    by (auto simp: waits_def)
  have "remove1 x (sc_ready (fst sh)) =
      (if x \<in> set pre then remove1 x pre @ t # post else pre @ t # remove1 x post)"
    using r(1) assms(2) by (simp add: remove1_append)
  moreover have "length (remove1 x pre) \<le> k" using r(2) by (auto simp: length_remove1)
  ultimately show ?thesis
    using assms(3) r(2) unfolding waits_def by (cases "x \<in> set pre") fastforce+
qed

lemma waits_schedule:
  assumes "waits t k sh"
  shows "\<exists>n sh'. sc_schedule sh = Ok (n, sh') \<and> (n = t \<or> (\<exists>j. k = Suc j \<and> waits t j sh'))"
proof -
  obtain s1 h1 where sh1: "put_away sh = (s1, h1)" by force
  from put_away_spec[of sh, unfolded sh1] have "sc_ready s1 = sc_ready (fst sh) @ runnable_current sh" by simp
  with assms obtain pre post where r: "sc_ready s1 = pre @ t # post" "length pre \<le> k"
    by (fastforce simp: waits_def)
  then show ?thesis
  proof (cases pre)
    case Nil
    with r sh1 show ?thesis by (simp add: sc_schedule_def)
  next
    case (Cons x pre')
    with r(2) obtain j where "k = Suc j" "length pre' \<le> j" by (cases k) auto
    with r Cons sh1 show ?thesis
      by (auto simp: sc_schedule_def waits_def)
  qed
qed

lemma waits_do:
  assumes "waits t k sh" and "op_target p \<noteq> Some t"
  shows "\<exists>ns sh'. sched_do p sh = Ok (ns, sh') \<and>
    (if switches p then t \<in> set ns \<or> (\<exists>j. k = Suc j \<and> waits t j sh') else waits t k sh')"
proof -
  obtain s h where sh: "sh = (s, h)" by force
  have blk: "waits t k (sc_block_current_task sh)"
    using assms(1) by (rule waits_append[where xs = "[]"]) (simp add: sh split: option.splits)
  note rm = waits_remove[OF assms(1)] and ap = waits_append[OF assms(1)]
  show ?thesis
  proof (cases p)
    case (QAdd x)
    with assms(2) have "waits t k (sc_add_task x sh)"
      by (intro rm[of x, where xs = "[x]"]) (simp_all add: sh remove_from_all_queues_def Let_def)
    with QAdd show ?thesis by simp
  next
    case (QRemove x)
    with assms(2) have "waits t k (sc_remove_task x sh)"
      by (intro rm[of x, where xs = "[]"]) (simp_all add: sh remove_from_all_queues_def Let_def)
    with QRemove show ?thesis by simp
  next
    case (QUnblock x)
    have "waits t k (sc_unblock_task x sh)" by (rule ap[where xs = "[x]"]) (simp add: sh)
    with QUnblock show ?thesis by simp
  next
    case (QResume x)
    have "waits t k (sc_resume_task x sh)" by (rule ap[where xs = "[x]"]) (simp add: sh)
    with QResume show ?thesis by simp
  next
    case (QBlock x)
    then have "x \<noteq> t" using assms(2) by simp
    then have "waits t k (sc_block_task x sh)"
    proof (cases "sc_current s = Some x")
      case True
      with blk show ?thesis by (simp add: sh)
    next
      case False
      with \<open>x \<noteq> t\<close> show ?thesis
        by (intro rm[of x, where xs = "[]"]) (simp_all add: sh remove_from_all_queues_def Let_def)
    qed
    with QBlock show ?thesis by simp
  next
    case (QStop x)
    then have "x \<noteq> t" using assms(2) by simp
    then have "waits t k (sc_stop_task x sh)"
    proof (cases "sc_current s = Some x")
      case True
      then show ?thesis by (intro ap[where xs = "[]"]) (simp add: sh)
    next
      case False
      with \<open>x \<noteq> t\<close> show ?thesis
        by (intro rm[of x, where xs = "[]"]) (simp_all add: sh remove_from_all_queues_def Let_def)
    qed
    with QStop show ?thesis by simp
  next
    case QSchedule
    with waits_schedule[OF assms(1)] show ?thesis by fastforce
  next
    case QBlockCurrent
    with waits_schedule[OF blk] show ?thesis by fastforce
  qed
qed

lemma waits_run:
  assumes "waits t k sh" and "\<forall>p \<in> set ps. op_target p \<noteq> Some t" and "k < length (filter switches ps)"
  shows "\<exists>m ns sh'. sched_run (take m ps) sh = Ok (ns, sh') \<and> t \<in> set ns"
  using assms
proof (induction ps arbitrary: k sh)
  case (Cons p ps)
  from waits_do[OF Cons.prems(1), of p] Cons.prems(2) obtain ns sh' where
    step: "sched_do p sh = Ok (ns, sh')"
    "if switches p then t \<in> set ns \<or> (\<exists>j. k = Suc j \<and> waits t j sh') else waits t k sh'"
    by auto
  show ?case
  proof (cases "t \<in> set ns")
    case True
    with step(1) have "sched_run (take 1 (p # ps)) sh = Ok (ns, sh')" by simp
    with True show ?thesis by blast
  next
    case False
    with step(2) obtain j where "waits t j sh'" "j < length (filter switches ps)"
      using Cons.prems(3) by (cases "switches p") auto
    with Cons.IH[of j sh'] Cons.prems(2) obtain m ns' sh'' where
      "sched_run (take m ps) sh' = Ok (ns', sh'')" "t \<in> set ns'" by auto
    with step(1) have "sched_run (take (Suc m) (p # ps)) sh = Ok (ns @ ns', sh'')" "t \<in> set (ns @ ns')"
      by simp_all
    then show ?thesis by blast
  qed
qed simp

text \<open>C26: no starvation. A task that waits in the ready queue behind \<open>k\<close> others gets the CPU within
  \<open>k + 1\<close> switches, whatever is done to other tasks meanwhile.\<close>

theorem ready_task_runs:
  assumes "sc_ready (fst sh) = pre @ t # post" and "\<forall>p \<in> set ps. op_target p \<noteq> Some t"
    and "length pre < length (filter switches ps)"
  shows "\<exists>m ns sh'. sched_run (take m ps) sh = Ok (ns, sh') \<and> t \<in> set ns"
proof (rule waits_run[OF _ assms(2,3)])
  show "waits t (length pre) sh" using assms(1) by (auto simp: waits_def)
qed

theorem ready_task_runs_witness:
  "\<exists>m ns sh'. sched_run (take m [QSchedule, QAdd 9, QSchedule])
     (\<lparr>sc_idle = Some 0, sc_current = Some 0, sc_ready = [5, 6], sc_blocked = [], sc_stopped = []\<rparr>, \<lambda>_. None)
     = Ok (ns, sh') \<and> 6 \<in> set ns"
  by (rule ready_task_runs[of _ "[5]" 6 "[]"]) simp_all

subsection \<open>Each task in one place\<close>

abbreviation queued :: "scheduler \<Rightarrow> tref list" where
  "queued s \<equiv> sc_ready s @ sc_blocked s @ sc_stopped s"

text \<open>A task that has put itself to sleep is still current, and in the queue of blocked tasks, until it switches away; it is then not
  runnable.\<close>

definition sched_wf :: "sched_heap \<Rightarrow> bool" where
  "sched_wf sh \<longleftrightarrow> distinct (queued (fst sh)) \<and>
     (\<forall>c. sc_current (fst sh) = Some c \<longrightarrow> c \<notin> set (sc_ready (fst sh)) \<and> c \<notin> set (sc_stopped (fst sh)) \<and>
        (c \<in> set (sc_blocked (fst sh)) \<longrightarrow> state_of (snd sh) c \<noteq> Ready \<and> state_of (snd sh) c \<noteq> Running)) \<and>
     (\<forall>i. sc_idle (fst sh) = Some i \<longrightarrow> i \<notin> set (sc_blocked (fst sh)) \<and> i \<notin> set (sc_stopped (fst sh)))"

text \<open>When an operation is in order: nobody starts or wakes the task that is still current, a task puts itself to sleep once and not
  again before it has switched away, only tasks that are blocked or stopped are woken or resumed, and the idle task is left alone. Blocking the current task (\<open>QBlock\<close>) and switching
  away from it (\<open>QSchedule\<close>) are separate steps between which others may come, as in the code.\<close>

fun in_order :: "sched_op \<Rightarrow> sched_heap \<Rightarrow> bool" where
  "in_order (QAdd t) (s, h) \<longleftrightarrow> sc_current s \<noteq> Some t"
| "in_order (QRemove t) (s, h) \<longleftrightarrow> True"
| "in_order (QBlock t) (s, h) \<longleftrightarrow> sc_idle s \<noteq> Some t \<and> (sc_current s = Some t \<longrightarrow> t \<notin> set (sc_blocked s) \<and> h t \<noteq> None)"
| "in_order (QUnblock t) (s, h) \<longleftrightarrow> t \<in> set (sc_blocked s) \<and> sc_current s \<noteq> Some t"
| "in_order (QStop t) (s, h) \<longleftrightarrow> sc_idle s \<noteq> Some t"
| "in_order (QResume t) (s, h) \<longleftrightarrow> t \<in> set (sc_stopped s)"
| "in_order QSchedule (s, h) \<longleftrightarrow> (\<forall>i. sc_current s = Some i \<and> sc_idle s = Some i \<longrightarrow> state_of h i \<noteq> Blocked)"
| "in_order QBlockCurrent (s, h) \<longleftrightarrow>
     (\<exists>c. sc_current s = Some c \<and> sc_idle s \<noteq> Some c \<and> c \<notin> set (sc_blocked s) \<and> h c \<noteq> None)"

inductive sched_step :: "sched_heap \<Rightarrow> sched_heap \<Rightarrow> bool" where
  step: "in_order p sh \<Longrightarrow> sched_do p sh = Ok (ns, sh') \<Longrightarrow> sched_step sh sh'"

inductive_cases sched_stepE: "sched_step sh sh'"

lemma sched_wf_put_away:
  assumes "sched_wf (s, h)" and "\<forall>i. sc_current s = Some i \<and> sc_idle s = Some i \<longrightarrow> state_of h i \<noteq> Blocked"
  shows "sched_wf (put_away (s, h))"
proof (cases "sc_current s")
  case None
  with assms show ?thesis by simp
next
  case (Some c)
  with assms show ?thesis by (cases "state_of h c") (auto simp: sched_wf_def Let_def)
qed

lemma sched_wf_pick:
  assumes "sched_wf (s, h)" and "pick_next (s, h) = Ok (n, sh')"
  shows "sched_wf sh'"
  using assms by (auto simp: sched_wf_def split: list.splits option.splits)

lemma sched_wf_schedule:
  assumes "sched_wf (s, h)" and "\<forall>i. sc_current s = Some i \<and> sc_idle s = Some i \<longrightarrow> state_of h i \<noteq> Blocked" and "sc_schedule (s, h) = Ok (n, sh')"
  shows "sched_wf sh'"
  using sched_wf_put_away[OF assms(1,2)] assms(3) sched_wf_pick
  by (cases "put_away (s, h)") (auto simp: sc_schedule_def simp del: put_away.simps)

lemma sched_wf_block_current:
  assumes "sched_wf (s, h)" and "sc_current s = Some c" "sc_idle s \<noteq> Some c" "c \<notin> set (sc_blocked s)" "h c \<noteq> None"
  shows "sched_wf (sc_block_current_task (s, h))"
proof -
  have "state_of (set_state c Blocked h) c = Blocked" using assms(5) by (auto simp: state_of_set_state)
  with assms show ?thesis by (auto simp: sched_wf_def)
qed

lemma sched_wf_heap:
  assumes "sched_wf (s, h)" and "sc_current s = Some t \<Longrightarrow> x \<noteq> Ready \<and> x \<noteq> Running"
  shows "sched_wf (s, set_state t x h)"
  using assms by (auto simp: sched_wf_def state_of_def set_state_def upd_task_def split: option.splits)

lemma sched_wf_remove: "sched_wf (s, h) \<Longrightarrow> sched_wf (remove_from_all_queues t s, h)"
  by (auto simp: sched_wf_def remove_from_all_queues_def dest: notin_set_remove1)

lemma remove_all_notin: "distinct (queued s) \<Longrightarrow> t \<notin> set (queued (remove_from_all_queues t s))"
  by (auto simp: remove_from_all_queues_def)

lemma sched_wf_do:
  assumes "sched_wf sh" and "in_order p sh" and "sched_do p sh = Ok (ns, sh')"
  shows "sched_wf sh'"
proof -
  obtain s h where sh: "sh = (s, h)" by force
  have wf: "sched_wf (s, h)" using assms(1) sh by simp
  have out: "t \<notin> set (queued (remove_from_all_queues t s))" for t
    using wf remove_all_notin by (simp add: sched_wf_def)
  have cur: "sc_current (remove_from_all_queues t s) = sc_current s" "sc_idle (remove_from_all_queues t s) = sc_idle s" for t
    by (simp_all add: remove_from_all_queues_def)
  have rm: "sched_wf (remove_from_all_queues t s, set_state t x h)" if "sc_current s = Some t \<Longrightarrow> x \<noteq> Ready \<and> x \<noteq> Running" for t x
    using sched_wf_heap[OF sched_wf_remove[OF wf]] that cur by simp
  have st: "sched_wf (s, set_state t x h)" if "sc_current s = Some t \<Longrightarrow> x \<noteq> Ready \<and> x \<noteq> Running" for t x
    using sched_wf_heap[OF wf that] .
  show ?thesis
  proof (cases p)
    case (QAdd t)
    with assms rm[of t Ready] out[of t] cur[of t] show ?thesis by (auto simp: sh sched_wf_def Let_def)
  next
    case (QRemove t)
    with assms(3) rm[of t Stopped] sched_wf_remove[OF wf, of t] show ?thesis by (auto simp: sh Let_def)
  next
    case (QBlock t)
    with assms rm[of t Blocked] out[of t] cur[of t] sched_wf_block_current[OF wf, of t] show ?thesis
      by (cases "sc_current s = Some t") (auto simp: sh sched_wf_def Let_def)
  next
    case (QUnblock t)
    with assms st[of t Ready] show ?thesis by (auto simp: sh sched_wf_def dest: notin_set_remove1)
  next
    case (QStop t)
    with assms rm[of t Stopped] st[of t Stopped] out[of t] cur[of t] show ?thesis
      by (cases "sc_current s = Some t") (auto simp: sh sched_wf_def Let_def)
  next
    case (QResume t)
    with assms(2) wf have "sc_current s \<noteq> Some t" by (auto simp: sh sched_wf_def)
    with QResume assms st[of t Ready] show ?thesis by (auto simp: sh sched_wf_def dest: notin_set_remove1)
  next
    case QSchedule
    with assms(2,3) sched_wf_schedule[OF wf] show ?thesis by (auto simp: sh)
  next
    case QBlockCurrent
    with assms(2) obtain c where c: "sc_current s = Some c" "sc_idle s \<noteq> Some c" "c \<notin> set (sc_blocked s)" "h c \<noteq> None" by (auto simp: sh)
    with sched_wf_block_current[OF wf c] QBlockCurrent assms(3) show ?thesis
      by (auto simp: sh intro: sched_wf_schedule split: option.splits)
  qed
qed

text \<open>C32: in every state reached from a fresh scheduler by operations in order, each task sits in at most one queue, at most once; the current
  task is in none, except that it is in the queue of blocked tasks and not runnable from when it has blocked until it switches away; the idle task is never blocked or stopped. In order means above all that no task is woken
  between blocking itself and switching away: the code does not prevent this, and then the property fails (see below).\<close>

theorem scheduler_queues_disjoint:
  assumes "sched_step\<^sup>*\<^sup>* (sc_set_idle_task i sc_new, h) sh"
  shows "sched_wf sh"
  using assms
proof (induction rule: rtranclp_induct)
  case base
  then show ?case by (simp add: sched_wf_def sc_set_idle_task_def sc_new_def)
next
  case (step sh1 sh2)
  then show ?case by (blast elim: sched_stepE intro: sched_wf_do)
qed

theorem scheduler_queues_disjoint_witness:
  "sched_wf (sc_add_task 7 (sc_set_idle_task 0 sc_new, \<lambda>_. None))"
proof (rule scheduler_queues_disjoint)
  let ?sh = "(sc_set_idle_task 0 sc_new, \<lambda>_. None) :: sched_heap"
  have "sched_step ?sh (sc_add_task 7 ?sh)"
    by (rule sched_step.step[where p = "QAdd 7" and ns = "[]"]) (simp_all add: sc_set_idle_task_def sc_new_def)
  then show "sched_step\<^sup>*\<^sup>* (sc_set_idle_task 0 sc_new, \<lambda>_. None) (sc_add_task 7 (sc_set_idle_task 0 sc_new, \<lambda>_. None))"
    by blast
qed

subsection \<open>What goes wrong out of order\<close>

text \<open>A wake-up that arrives after a task has blocked itself and before it has switched away
  enters the task into the ready queue twice: once by the wake-up and once more by \<open>schedule\<close>, which
  finds it runnable again.\<close>

theorem early_wakeup_duplicates:
  assumes "sc_current s = Some c" and "h c = Some k" and "sc_ready s = t # ts" and "c \<noteq> t"
    and "c \<notin> set ts" and "c \<notin> set (sc_blocked s)"
  shows "\<exists>sh'. sc_schedule (sc_unblock_task c (sc_block_task c (s, h))) = Ok (t, sh') \<and>
    count_list (sc_ready (fst sh')) c = 2"
proof -
  have st: "state_of (set_state c Ready (set_state c Blocked h)) c = Ready"
    using assms(2) by (simp add: state_of_set_state)
  have "count_list ts c = 0" using assms(5) by (simp add: count_list_0_iff)
  then show ?thesis
    using assms st by (simp add: sc_schedule_def)
qed

definition sample_task :: task where
  "sample_task = \<lparr>t_tid = 1, t_name = ''init'', t_process = None, t_state = Running, t_cpu_id = 0,
     t_exit_code = None, t_kernel_stack_top = 0, t_syscall_stack_top = 0, t_user_syscall_stack = 0,
     t_running = True\<rparr>"

theorem early_wakeup_duplicates_witness:
  "\<exists>sh'. sc_schedule (sc_unblock_task 7 (sc_block_task 7
      (\<lparr>sc_idle = Some 0, sc_current = Some 7, sc_ready = [5], sc_blocked = [], sc_stopped = []\<rparr>,
       [7 \<mapsto> sample_task]))) = Ok (5, sh') \<and> count_list (sc_ready (fst sh')) 7 = 2"
  by (rule early_wakeup_duplicates[of _ _ _ sample_task _ "[]"]) simp_all

text \<open>A task that exits while it is current does not stay \<open>Exited\<close>: \<open>remove_task\<close> overwrites its
  state with \<open>Stopped\<close>, from which \<open>start_task\<close> makes it ready again.\<close>

theorem exited_task_restarts:
  assumes "tk_heap s t = Some k" and "bt_get (tk_archids s) (t_cpu_id k) = Some a"
    and "bt_get (tk_scheds s) a = Some sc" and "sc_current sc = Some t"
  shows "\<exists>p s1 s2 sc2. exit_task t code s = Ok (p, s1) \<and> state_of (tk_heap s1) t = Stopped \<and>
    start_task t s1 = Ok s2 \<and> bt_get (tk_scheds s2) a = Some sc2 \<and> t \<in> set (sc_ready sc2)"
proof -
  let ?h = "upd_task t (\<lambda>k. k\<lparr>t_state := Exited, t_exit_code := Some code\<rparr>) (tk_heap s)"
  let ?sc = "remove_from_all_queues t sc"
  let ?s1 = "s\<lparr>tk_heap := set_state t Stopped ?h, tk_scheds := bt_insert a ?sc (tk_scheds s)\<rparr>"
  have cur: "sc_current ?sc = Some t" using assms(4) by (simp add: remove_from_all_queues_def)
  have h: "?h t = Some (k\<lparr>t_state := Exited, t_exit_code := Some code\<rparr>)"
    using assms(1) by (simp add: upd_task_def)
  then have "exit_task t code s = Ok (t_process k, ?s1)" and st: "state_of (tk_heap ?s1) t = Stopped"
    using assms cur
    by (simp_all add: exit_task_def Let_def cpu_of_def get_archid_by_cpuid_def on_scheduler_def
        get_scheduler_by_archid_def set_state_def state_of_def) (simp_all add: upd_task_def)
  moreover have "\<exists>s2 sc2. start_task t ?s1 = Ok s2 \<and> bt_get (tk_scheds s2) a = Some sc2 \<and> t \<in> set (sc_ready sc2)"
    using st assms h
    by (simp add: start_task_def Let_def cpu_of_def get_archid_by_cpuid_def on_scheduler_def
        get_scheduler_by_archid_def) (simp add: set_state_def upd_task_def)
  ultimately show ?thesis by blast
qed

theorem exited_task_restarts_witness:
  "\<exists>p s1 s2 sc2. exit_task 7 0 \<lparr>tk_heap = [7 \<mapsto> sample_task],
      tk_scheds = [(3, \<lparr>sc_idle = Some 0, sc_current = Some 7, sc_ready = [], sc_blocked = [], sc_stopped = []\<rparr>)],
      tk_archids = [(0, 3)], tk_cpu_count = 1, tk_next_tid = 2, tk_next_cpuid = 0, tk_all = [7],
      tk_frames = sample_buddy\<rparr> = Ok (p, s1) \<and> state_of (tk_heap s1) 7 = Stopped \<and>
    start_task 7 s1 = Ok s2 \<and> bt_get (tk_scheds s2) 3 = Some sc2 \<and> 7 \<in> set (sc_ready sc2)"
  by (rule exited_task_restarts[where k = sample_task and sc =
        "\<lparr>sc_idle = Some 0, sc_current = Some 7, sc_ready = [], sc_blocked = [], sc_stopped = []\<rparr>"])
    (simp_all add: sample_task_def bt_get_def)

section \<open>Kernel stacks\<close>

lemma alloc_stack_spec:
  assumes "buddy_inv (tk_frames s)" and "alloc_stack s = Ok (v, s')"
  shows "\<exists>p fr. v = p + PHYS_OFFSET \<and> s' = s\<lparr>tk_frames := fr\<rparr> \<and> buddy_inv fr \<and> buddy_run (tk_frames s) p 1024 \<and>
    buddy_run fr = buddy_run (tk_frames s) \<and>
    frames p 1024 \<subseteq> free_frames (tk_frames s) \<and> free_frames fr = free_frames (tk_frames s) - frames p 1024"
proof -
  have count: "STACK_SIZE div PAGE_SIZE = 1024" by (simp add: STACK_SIZE_def PAGE_SIZE_def)
  from assms(2) obtain p fr where al: "buddy_allocate 1024 (tk_frames s) = Ok (Some p, fr)"
    and v: "phys_to_virt p = (Ok v :: (unit, nat) res)" and s': "s' = s\<lparr>tk_frames := fr\<rparr>"
    unfolding alloc_stack_def count by (auto split: option.splits)
  have "v = p + PHYS_OFFSET" using v by (simp add: phys_to_virt_def split: if_splits)
  moreover have "buddy_inv fr" using bfa.alloc_returns[OF assms(1), of 1024] al by auto
  ultimately show ?thesis
    using bfa.alloc_takes[OF assms(1) _ al] bfa.alloc_run[OF assms(1) _ al] s' by auto
qed

text \<open>A task's stacks are not leaked and not freed twice: creating a task and dropping it gives back
  exactly the frames it took, without a panic.\<close>

theorem task_stacks_returned:
  assumes "buddy_inv (tk_frames s)" and "new_inner tid cpu name proc idle t s = Ok s1"
  shows "\<exists>s2. drop_task t s1 = Ok s2 \<and> buddy_inv (tk_frames s2) \<and>
    free_frames (tk_frames s2) = free_frames (tk_frames s) \<and> tk_heap s2 t = None"
proof -
  from assms(2) obtain kv sa sv sb kt st where
    a1: "alloc_stack s = Ok (kv, sa)" and a2: "alloc_stack sa = Ok (sv, sb)" and
    kt: "kt = kv + STACK_SIZE" "st = sv + STACK_SIZE" and
    s1: "tk_frames s1 = tk_frames sb" "\<exists>k. tk_heap s1 t = Some k \<and> t_kernel_stack_top k = kt \<and> t_syscall_stack_top k = st"
    by (auto simp: new_inner_def chk_simps)
  from alloc_stack_spec[OF assms(1) a1] obtain p fr where
    p: "kv = p + PHYS_OFFSET" "sa = s\<lparr>tk_frames := fr\<rparr>" "buddy_inv fr" "buddy_run (tk_frames s) p 1024"
    "buddy_run fr = buddy_run (tk_frames s)" "frames p 1024 \<subseteq> free_frames (tk_frames s)"
    "free_frames fr = free_frames (tk_frames s) - frames p 1024" by blast
  from alloc_stack_spec[OF _ a2] p(2,3) obtain q gr where
    q: "sv = q + PHYS_OFFSET" "sb = sa\<lparr>tk_frames := gr\<rparr>" "buddy_inv gr" "buddy_run fr q 1024"
    "buddy_run gr = buddy_run fr" "frames q 1024 \<subseteq> free_frames fr" "free_frames gr = free_frames fr - frames q 1024"
    by auto
  have "frames p 1024 \<inter> free_frames gr = {}" using p(7) q(7) by auto
  with bfa.release_returns[OF q(3), of 1024 p] p(4,5) q(5) obtain f1 where
    f1: "buddy_free p 1024 gr = Ok f1" "buddy_inv f1" "free_frames f1 = free_frames gr \<union> frames p 1024" "buddy_run f1 = buddy_run gr"
    by auto
  have "frames q 1024 \<inter> free_frames f1 = {}" using p(7) q(6,7) f1(3) by auto
  with bfa.release_returns[OF f1(2), of 1024 q] q(4,5) f1(4) obtain f2 where
    f2: "buddy_free q 1024 f1 = Ok f2" "buddy_inv f2" "free_frames f2 = free_frames f1 \<union> frames q 1024"
    by auto
  have count: "STACK_SIZE div PAGE_SIZE = 1024" by (simp add: STACK_SIZE_def PAGE_SIZE_def)
  obtain k where k: "tk_heap s1 t = Some k" "t_kernel_stack_top k = kt" "t_syscall_stack_top k = st" using s1(2) by blast
  have "drop_task t s1 = Ok (s1\<lparr>tk_frames := f2, tk_heap := (tk_heap s1)(t := None)\<rparr>)"
    using k kt p(1) q(1,2) f1(1) f2(1) s1(1) by (simp add: drop_task_def count chk_sub_eq)
  moreover have "free_frames f2 = free_frames (tk_frames s)"
    using f2(3) f1(3) q(6,7) p(6,7) by blast
  ultimately show ?thesis using f2(2) by auto
qed

text \<open>An allocator with one area of 16 MB, of which the first page holds the usage map.\<close>

definition large_entry :: "nat \<Rightarrow> buddy_entry" where
  "large_entry k = \<lparr>be_base = 0x100000, be_size = 0x1000000, be_skip = k, be_used = k\<rparr>"

definition large_buddy :: "nat \<Rightarrow> kmem \<Rightarrow> buddy" where
  "large_buddy k m = \<lparr>ba_table_virt = 1, ba_table = large_entry k # replicate 127 be_empty, ba_mem = m\<rparr>"

definition large_mem :: "nat \<Rightarrow> kmem \<Rightarrow> bool" where
  "large_mem k m \<longleftrightarrow> (\<forall>p < 4096. m (0x100000 + p + PHYS_OFFSET) = (if p < k then 1 else 0))"

lemma large_entry_pages [simp]:
  "be_pages (large_entry k) = 4096" "be_usage_pages (large_entry k) = 1" "be_base (large_entry k) = 0x100000"
  "be_skip (large_entry k) = k" "be_used (large_entry k) = k" "be_bounded (large_entry k)"
  by (simp_all add: large_entry_def be_pages_def be_usage_pages_def page_defs be_bounded_def phys_limit_def)

lemma large_buddy_inv:
  assumes "large_mem k m" and "1 \<le> k" and "k \<le> 4096"
  shows "buddy_inv (large_buddy k m)"
proof -
  have taken: "be_taken (large_entry k) m p \<longleftrightarrow> p < k" if "p < 4096" for p
    using assms(1) that by (simp add: be_taken_def large_mem_def)
  have "{p. p < 4096 \<and> be_taken (large_entry k) m p} = {..<k}"
    using taken assms(3) by auto
  moreover have "\<forall>p < k. be_taken (large_entry k) m p" using taken assms(3) by simp
  ultimately have "be_ok (large_entry k) m"
    using assms by (auto simp: be_ok_def large_mem_def)
  moreover have "be_range be_empty = {}" by (simp add: be_range_def be_empty_def)
  ultimately show ?thesis
    by (simp add: buddy_inv_def large_buddy_def table_ok_empty BUDDY_ENTRIES_def PAGE_SIZE_def)
qed

lemma scan_all_free:
  assumes "be_bounded e" and "\<forall>p. fp \<le> p \<and> p < fp + n \<longrightarrow> be_byte e m p = 0" and "fp + n \<le> be_pages e"
    and "fc < n" and "fc + j = n"
  shows "scan_free e n m [fp + fc..<be_pages e] fp fc = Ok (fp, n)"
  using assms(4,5)
proof (induction j arbitrary: fc)
  case (Suc j)
  have p: "fp + fc < be_pages e" using assms(3) Suc.prems by simp
  then have upt: "[fp + fc..<be_pages e] = (fp + fc) # [fp + Suc fc..<be_pages e]" by (simp add: upt_conv_Cons)
  have "be_usage e (fp + fc) m = Ok 0"
    using p assms(1,2) Suc.prems by (simp add: be_access)
  with upt Suc show ?case by (cases "Suc fc = n") auto
qed simp

lemma large_allocate:
  assumes "large_mem k m" and "1 \<le> k" and "k + 1024 \<le> 4096"
  shows "\<exists>m'. buddy_allocate 1024 (large_buddy k m) = Ok (Some (0x100000 + k * 4096), large_buddy (k + 1024) m') \<and>
    large_mem (k + 1024) m'"
proof -
  let ?e = "large_entry k" and ?m = "marked (large_entry k) {k..<k + 1024} m"
  have free: "\<forall>p. k \<le> p \<and> p < k + 1024 \<longrightarrow> be_byte ?e m p = 0"
    using assms by (simp add: large_mem_def)
  have scan: "scan_free ?e 1024 m [k..<4096] k 0 = Ok (k, 1024)"
    using scan_all_free[of ?e k 1024 m 0 1024] free assms(3) by simp
  have mark: "mark_pages ?e [k..<k + 1024] m = Ok ?m"
    using mark_pages_spec[of ?e "[k..<k + 1024]" m] free assms by auto
  have addr: "chk_add 0x100000 (shl_page k) = (Ok (0x100000 + k * 4096) :: (unit, nat) res)"
    using be_frame_ok(1)[of ?e k] assms(3) by simp
  have used: "chk_add k 1024 = (Ok (k + 1024) :: (unit, nat) res)" using assms(3) by (simp add: chk_add_eq)
  have "buddy_allocate 1024 (large_buddy k m) = Ok (Some (0x100000 + k * 4096), large_buddy (k + 1024) ?m)"
    using scan mark addr used
    by (simp add: buddy_allocate_def large_buddy_def) (simp add: large_entry_def)
  moreover have "large_mem (k + 1024) ?m"
  proof -
    have sub: "{k..<k + 1024} \<subseteq> {be_usage_pages ?e..<be_pages ?e}" using assms(2,3) by auto
    show ?thesis
      unfolding large_mem_def
    proof (intro allI impI)
      fix p :: nat assume "p < 4096"
      then show "?m (0x100000 + p + PHYS_OFFSET) = (if p < k + 1024 then 1 else 0)"
        using marked_byte_other[OF sub, of p m] assms(1) by (auto simp: large_mem_def)
    qed
  qed
  ultimately show ?thesis by blast
qed

theorem task_stacks_returned_witness:
  "\<exists>s1 s2. new_inner 1 0 ''init'' None False 7 \<lparr>tk_heap = \<lambda>_. None, tk_scheds = [], tk_archids = [], tk_cpu_count = 1,
      tk_next_tid = 2, tk_next_cpuid = 0, tk_all = [],
      tk_frames = large_buddy 1 (\<lambda>x. if x = 0x100000 + PHYS_OFFSET then 1 else 0)\<rparr> = Ok s1 \<and>
    drop_task 7 s1 = Ok s2 \<and> free_frames (tk_frames s2) =
      free_frames (large_buddy 1 (\<lambda>x. if x = 0x100000 + PHYS_OFFSET then 1 else 0))"
proof -
  let ?m = "\<lambda>x. if x = 0x100000 + PHYS_OFFSET then 1 else 0 :: u8"
  let ?s = "\<lparr>tk_heap = \<lambda>_. None, tk_scheds = [], tk_archids = [], tk_cpu_count = 1,
      tk_next_tid = 2, tk_next_cpuid = 0, tk_all = [], tk_frames = large_buddy 1 ?m\<rparr>"
  have m: "large_mem 1 ?m" by (auto simp: large_mem_def)
  from large_allocate[OF m] obtain m1 where
    m1: "buddy_allocate 1024 (large_buddy 1 ?m) = Ok (Some 0x101000, large_buddy 1025 m1)" "large_mem 1025 m1" by auto
  from large_allocate[OF m1(2)] obtain m2 where
    m2: "buddy_allocate 1024 (large_buddy 1025 m1) = Ok (Some 0x501000, large_buddy 2049 m2)" by auto
  have "\<exists>s1. new_inner 1 0 ''init'' None False 7 ?s = Ok s1"
    using m1(1) m2
    by (simp add: new_inner_def alloc_stack_def STACK_SIZE_def PAGE_SIZE_def phys_to_virt_def PHYS_OFFSET_def chk_add_def)
  then obtain s1 where s1: "new_inner 1 0 ''init'' None False 7 ?s = Ok s1" by blast
  have "buddy_inv (tk_frames ?s)" using large_buddy_inv[OF m] by simp
  from task_stacks_returned[OF this s1] s1 show ?thesis by auto
qed

end
