(* ===== verification/Wait_Queue.thy ===== *)
theory Wait_Queue
  imports Tasks
begin

text \<open>
  Wait queues: \<open>kernel/src/object/wait_queue.rs\<close>. A waiter holds a weak task reference, which upgrades
  when the task is in the heap. Waiting is three steps, each under its own lock: enter the queue, block
  the task, switch away.
\<close>

record waiter =
  w_task :: tref
  w_woken :: bool

type_synonym wait_queue = "waiter list"

definition wq_new :: wait_queue where
  "wq_new = []"

text \<open>The first part of \<open>wait\<close>: the current task enters the queue.\<close>

definition wq_enter :: "tref \<Rightarrow> wait_queue \<Rightarrow> wait_queue" where
  "wq_enter t q = q @ [\<lparr>w_task = t, w_woken = False\<rparr>]"

text \<open>The second part of \<open>wait\<close>: \<open>block(current)\<close>, which for the task's own CPU has no delay
  loop, and \<open>schedule()\<close>.\<close>

definition wq_sleep :: "nat \<Rightarrow> tref \<Rightarrow> 'z task_sys_scheme \<Rightarrow> (unit, 'z task_sys_scheme) res" where
  "wq_sleep me t s =
     bind_res (block_task me t s) (\<lambda>(delay, s1). bind_res (schedule me s1) (\<lambda>(prev, n, s2). Ok s2))"

fun wq_wake_one :: "wait_queue \<Rightarrow> 'z task_sys_scheme \<Rightarrow> (unit, bool \<times> wait_queue \<times> 'z task_sys_scheme) res" where
  "wq_wake_one [] s = Ok (False, [], s)"
| "wq_wake_one (w # ws) s =
     (if tk_heap s (w_task w) = None then wq_wake_one ws s
      else bind_res (unblock_task (w_task w) s) (\<lambda>s'. Ok (True, ws, s')))"

fun wake_each :: "wait_queue \<Rightarrow> 'z task_sys_scheme \<Rightarrow> (unit, nat \<times> 'z task_sys_scheme) res" where
  "wake_each [] s = Ok (0, s)"
| "wake_each (w # ws) s =
     (if tk_heap s (w_task w) = None then wake_each ws s
      else bind_res (unblock_task (w_task w) s) (\<lambda>s'.
           bind_res (wake_each ws s') (\<lambda>(n, s''). Ok (Suc n, s''))))"

definition wq_wake_all :: "wait_queue \<Rightarrow> 'z task_sys_scheme \<Rightarrow> (unit, nat \<times> wait_queue \<times> 'z task_sys_scheme) res" where
  "wq_wake_all q s = bind_res (wake_each q s) (\<lambda>(n, s'). Ok (n, [], s'))"

definition wq_has_waiters :: "wait_queue \<Rightarrow> bool" where
  "wq_has_waiters q \<longleftrightarrow> q \<noteq> []"

section \<open>Waking\<close>

text \<open>The task system is in order for a task: its CPU has a scheduler.\<close>

definition placed :: "'z task_sys_scheme \<Rightarrow> tref \<Rightarrow> bool" where
  "placed s t \<longleftrightarrow> (\<exists>k a sc. tk_heap s t = Some k \<and> bt_get (tk_archids s) (t_cpu_id k) = Some a \<and>
     bt_get (tk_scheds s) a = Some sc)"

text \<open>The task waits for the CPU in the ready queue of its scheduler.\<close>

definition is_ready :: "'z task_sys_scheme \<Rightarrow> tref \<Rightarrow> bool" where
  "is_ready s t \<longleftrightarrow> (\<exists>k a sc. tk_heap s t = Some k \<and> t_state k = Ready \<and>
     bt_get (tk_archids s) (t_cpu_id k) = Some a \<and> bt_get (tk_scheds s) a = Some sc \<and> t \<in> set (sc_ready sc))"

lemma unblock_task_spec:
  assumes "placed s t" and "state_of (tk_heap s) t = Blocked"
  shows "\<exists>s'. unblock_task t s = Ok s' \<and> is_ready s' t \<and> tk_archids s' = tk_archids s \<and>
    (\<forall>t'. t' \<noteq> t \<longrightarrow> tk_heap s' t' = tk_heap s t')"
proof -
  from assms(1) obtain k a sc where k: "tk_heap s t = Some k" "bt_get (tk_archids s) (t_cpu_id k) = Some a"
    "bt_get (tk_scheds s) a = Some sc" by (auto simp: placed_def)
  then show ?thesis
    using assms(2)
    by (auto simp: unblock_task_def Let_def on_scheduler_def get_scheduler_by_archid_def get_archid_by_cpuid_def
        cpu_of_def is_ready_def set_state_def upd_task_def)
qed

lemma unblock_task_not_blocked: "state_of (tk_heap s) t \<noteq> Blocked \<Longrightarrow> unblock_task t s = Ok s"
  by (simp add: unblock_task_def)

lemma wake_one_spec:
  assumes "dropWhile (\<lambda>w. tk_heap s (w_task w) = None) q = w # ws"
    and "placed s (w_task w)" and "state_of (tk_heap s) (w_task w) = Blocked"
  shows "\<exists>s'. wq_wake_one q s = Ok (True, ws, s') \<and> is_ready s' (w_task w)"
  using assms
proof (induction q)
  case (Cons v q)
  show ?case
  proof (cases "tk_heap s (w_task v) = None")
    case False
    with Cons.prems unblock_task_spec[of s "w_task w"] show ?thesis by auto
  qed (use Cons in simp)
qed simp

end
