(* ===== verification/Channel.thy ===== *)
theory Channel
  imports Handles Wait_Queue
begin

text \<open>
  Channels: \<open>kernel/src/object/channel.rs\<close>. The channels form a heap indexed by object identifiers; the
  weak reference to the peer upgrades exactly when the peer is in the heap. Operations return the
  callbacks they make and the wait queue they wake; \<open>Ipc\<close> runs them.
\<close>

section \<open>Data\<close>

record message =
  msg_data :: "u8 list"
  msg_objects :: "(oid \<times> rights) list"

definition msg_new :: "u8 list \<Rightarrow> message" where
  "msg_new d = \<lparr>msg_data = d, msg_objects = []\<rparr>"

definition msg_with_objects :: "u8 list \<Rightarrow> (oid \<times> rights) list \<Rightarrow> message" where
  "msg_with_objects d obs = \<lparr>msg_data = d, msg_objects = obs\<rparr>"

definition msg_is_empty :: "message \<Rightarrow> bool" where
  "msg_is_empty m \<longleftrightarrow> msg_data m = [] \<and> msg_objects m = []"

definition msg_object_count :: "message \<Rightarrow> nat" where
  "msg_object_count m = length (msg_objects m)"

record channel =
  ch_messages :: "message list"
  ch_peer :: "oid option"
  ch_signals :: signals
  ch_observers :: "observer list"
  ch_capacity :: nat
  ch_closed :: bool
  ch_waiters :: wait_queue

type_synonym chans = "oid \<Rightarrow> channel option"

datatype channel_error = PeerClosed | Empty | Full | InvalidMessage

definition DEFAULT_CAPACITY :: nat where "DEFAULT_CAPACITY = 64"

section \<open>Operations\<close>

definition ch_fresh :: "oid \<Rightarrow> channel" where
  "ch_fresh peer = \<lparr>ch_messages = [], ch_peer = Some peer, ch_signals = WRITABLE, ch_observers = [],
     ch_capacity = DEFAULT_CAPACITY, ch_closed = False, ch_waiters = wq_new\<rparr>"

definition ch_create_pair :: "oid \<Rightarrow> oid \<Rightarrow> chans \<Rightarrow> chans" where
  "ch_create_pair a b H = H(a \<mapsto> ch_fresh b, b \<mapsto> ch_fresh a)"

text \<open>\<open>peer.as_ref().and_then(|p| p.upgrade())\<close>.\<close>

definition upgrade_peer :: "chans \<Rightarrow> channel \<Rightarrow> (oid \<times> channel) option" where
  "upgrade_peer H c =
     (case ch_peer c of None \<Rightarrow> None | Some p \<Rightarrow> map_option (\<lambda>d. (p, d)) (H p))"

text \<open>\<open>send\<close>: the new heap, the callbacks, and the peer whose wait queue is woken.\<close>

definition ch_send :: "oid \<Rightarrow> message \<Rightarrow> chans \<Rightarrow> (channel_error, calls \<times> oid \<times> chans) res" where
  "ch_send a msg H =
     (case H a of
        None \<Rightarrow> Panic
      | Some c \<Rightarrow>
          if ch_closed c then Err PeerClosed
          else case upgrade_peer H c of
            None \<Rightarrow> Err PeerClosed
          | Some (p, d) \<Rightarrow>
              if ch_closed d then Err PeerClosed
              else if length (ch_messages d) \<ge> ch_capacity d then Err Full
              else let old = ch_signals d;
                       d1 = d\<lparr>ch_messages := ch_messages d @ [msg], ch_signals := old OR READABLE\<rparr>
                   in if \<not> contains old READABLE then
                        Ok (map (\<lambda>ob. (so_callback ob, READABLE))
                              (filter (\<lambda>ob. contains (so_trigger ob) READABLE) (ch_observers d)),
                            p,
                            H(p \<mapsto> d1\<lparr>ch_observers :=
                               filter (\<lambda>ob. \<not> (so_once ob \<and> contains (so_trigger ob) READABLE)) (ch_observers d)\<rparr>))
                      else Ok ([], p, H(p \<mapsto> d1)))"

definition ch_try_recv :: "oid \<Rightarrow> chans \<Rightarrow> (channel_error, message \<times> chans) res" where
  "ch_try_recv a H =
     (case H a of
        None \<Rightarrow> Panic
      | Some c \<Rightarrow>
          (case ch_messages c of
             msg # rest \<Rightarrow>
               let c1 = c\<lparr>ch_messages := rest,
                          ch_signals := if rest = [] then flags_remove (ch_signals c) READABLE else ch_signals c\<rparr>;
                   H1 = H(a \<mapsto> c1)
               in (case upgrade_peer H1 c1 of
                     None \<Rightarrow> Ok (msg, H1)
                   | Some (p, d) \<Rightarrow>
                       Ok (msg, if length (ch_messages d) < ch_capacity d
                                then H1(p \<mapsto> d\<lparr>ch_signals := ch_signals d OR WRITABLE\<rparr>) else H1))
           | [] \<Rightarrow> (case upgrade_peer H c of None \<Rightarrow> Err PeerClosed | Some _ \<Rightarrow> Err Empty)))"

text \<open>\<open>close\<close>: the callbacks, and the peer whose waiters are all woken.\<close>

definition ch_close :: "oid \<Rightarrow> chans \<Rightarrow> calls \<times> oid option \<times> chans" where
  "ch_close a H =
     (case H a of
        None \<Rightarrow> ([], None, H)
      | Some c \<Rightarrow>
          let H1 = H(a \<mapsto> c\<lparr>ch_closed := True, ch_peer := None\<rparr>)
          in case upgrade_peer H1 c of
               None \<Rightarrow> ([], None, H1)
             | Some (p, d) \<Rightarrow>
                 (map (\<lambda>ob. (so_callback ob, PEER_CLOSED))
                    (filter (\<lambda>ob. contains (so_trigger ob) PEER_CLOSED) (ch_observers d)),
                  Some p,
                  H1(p \<mapsto> d\<lparr>ch_peer := None, ch_signals := ch_signals d OR PEER_CLOSED\<rparr>)))"

text \<open>\<open>Drop\<close>: when the last reference goes away the channel is closed and leaves the heap.\<close>

definition ch_drop :: "oid \<Rightarrow> chans \<Rightarrow> calls \<times> oid option \<times> chans" where
  "ch_drop a H = (let (cs, w, H') = ch_close a H in (cs, w, H'(a := None)))"

definition ch_pending_count :: "oid \<Rightarrow> chans \<Rightarrow> nat" where
  "ch_pending_count a H = (case H a of None \<Rightarrow> 0 | Some c \<Rightarrow> length (ch_messages c))"

definition ch_has_peer :: "oid \<Rightarrow> chans \<Rightarrow> bool" where
  "ch_has_peer a H \<longleftrightarrow> (case H a of None \<Rightarrow> False | Some c \<Rightarrow> upgrade_peer H c \<noteq> None)"

text \<open>The test that \<open>recv\<close> makes between an empty \<open>try_recv\<close> and going to sleep.\<close>

definition ch_recv_gives_up :: "oid \<Rightarrow> chans \<Rightarrow> bool" where
  "ch_recv_gives_up a H \<longleftrightarrow>
     (case H a of None \<Rightarrow> False | Some c \<Rightarrow> upgrade_peer H c = None \<and> ch_messages c = [])"

section \<open>The kernel object interface\<close>

definition ch_signal_set :: "signals \<Rightarrow> channel \<Rightarrow> channel" where
  "ch_signal_set x c = c\<lparr>ch_signals := ch_signals c OR x\<rparr>"

definition ch_signal_clear :: "signals \<Rightarrow> channel \<Rightarrow> channel" where
  "ch_signal_clear x c = c\<lparr>ch_signals := flags_remove (ch_signals c) x\<rparr>"

definition ch_add_signal_observer :: "observer \<Rightarrow> channel \<Rightarrow> calls \<times> channel" where
  "ch_add_signal_observer ob c =
     (let pushed = c\<lparr>ch_observers := ch_observers c @ [ob]\<rparr>
      in if intersects (ch_signals c) (so_trigger ob)
         then ([(so_callback ob, ch_signals c AND so_trigger ob)], if so_once ob then c else pushed)
         else ([], pushed))"

definition ch_remove_signal_observer :: "nat \<Rightarrow> channel \<Rightarrow> channel" where
  "ch_remove_signal_observer k c = c\<lparr>ch_observers := filter (\<lambda>ob. so_key ob \<noteq> k) (ch_observers c)\<rparr>"

section \<open>The abstract channel\<close>

text \<open>What a pair of ends promises: two bounded queues and whether the pair is open.\<close>

datatype side = SideA | SideB

fun other :: "side \<Rightarrow> side" where
  "other SideA = SideB"
| "other SideB = SideA"

record duplex =
  dx_inbox :: "side \<Rightarrow> message list"
  dx_open :: bool

datatype ch_op = CSend side message | CRecv side | CClose side

fun duplex_do :: "ch_op \<Rightarrow> duplex \<Rightarrow> (channel_error, message option \<times> duplex) res" where
  "duplex_do (CSend e m) d =
     (if \<not> dx_open d then Err PeerClosed
      else if length (dx_inbox d (other e)) \<ge> DEFAULT_CAPACITY then Err Full
      else Ok (None, d\<lparr>dx_inbox := (dx_inbox d)(other e := dx_inbox d (other e) @ [m])\<rparr>))"
| "duplex_do (CRecv e) d =
     (case dx_inbox d e of
        m # rest \<Rightarrow> Ok (Some m, d\<lparr>dx_inbox := (dx_inbox d)(e := rest)\<rparr>)
      | [] \<Rightarrow> Err (if dx_open d then Empty else PeerClosed))"
| "duplex_do (CClose e) d = Ok (None, d\<lparr>dx_open := False\<rparr>)"

text \<open>The same operations on the concrete channels; \<open>ids\<close> names the two ends.\<close>

fun ch_do :: "(side \<Rightarrow> oid) \<Rightarrow> ch_op \<Rightarrow> chans \<Rightarrow> (channel_error, message option \<times> chans) res" where
  "ch_do ids (CSend e m) H = bind_res (ch_send (ids e) m H) (\<lambda>(cs, w, H'). Ok (None, H'))"
| "ch_do ids (CRecv e) H = bind_res (ch_try_recv (ids e) H) (\<lambda>(m, H'). Ok (Some m, H'))"
| "ch_do ids (CClose e) H = (let (cs, w, H') = ch_close (ids e) H in Ok (None, H'))"

definition ch_ok :: "channel \<Rightarrow> bool" where
  "ch_ok c \<longleftrightarrow> ch_capacity c = DEFAULT_CAPACITY \<and> length (ch_messages c) \<le> ch_capacity c \<and>
     (contains (ch_signals c) READABLE \<longleftrightarrow> ch_messages c \<noteq> [])"

definition pair_inv :: "(side \<Rightarrow> oid) \<Rightarrow> chans \<Rightarrow> bool" where
  "pair_inv ids H \<longleftrightarrow> ids SideA \<noteq> ids SideB \<and>
     (\<forall>e. \<exists>c. H (ids e) = Some c \<and> ch_ok c) \<and>
     ((\<forall>e c. H (ids e) = Some c \<longrightarrow> ch_peer c = Some (ids (other e)) \<and> \<not> ch_closed c) \<or>
      (\<forall>e c. H (ids e) = Some c \<longrightarrow> ch_peer c = None))"

definition ch_abs :: "(side \<Rightarrow> oid) \<Rightarrow> chans \<Rightarrow> duplex" where
  "ch_abs ids H =
     \<lparr>dx_inbox = (\<lambda>e. case H (ids e) of None \<Rightarrow> [] | Some c \<Rightarrow> ch_messages c),
      dx_open = (case H (ids SideA) of None \<Rightarrow> False | Some c \<Rightarrow> ch_peer c \<noteq> None)\<rparr>"

lemma side_all: "(\<forall>e. P e) \<longleftrightarrow> P SideA \<and> P SideB"
  by (metis side.exhaust)

lemma other_neq [simp]: "other e \<noteq> e" "e \<noteq> other e" "other (other e) = e"
  by (cases e; simp)+

text \<open>The two ends as a client of the invariant sees them.\<close>

lemma pair_invE:
  assumes "pair_inv ids H"
  obtains c d where "H (ids e) = Some c" "H (ids (other e)) = Some d" "ch_ok c" "ch_ok d"
    "ids (other e) \<noteq> ids e"
    "ch_peer c = Some (ids (other e)) \<and> ch_peer d = Some (ids e) \<and> \<not> ch_closed c \<and> \<not> ch_closed d \<and> dx_open (ch_abs ids H) \<or>
     ch_peer c = None \<and> ch_peer d = None \<and> \<not> dx_open (ch_abs ids H)"
  using assms unfolding pair_inv_def side_all ch_abs_def by (cases e) auto

lemma pair_invI:
  assumes "ids (other e) \<noteq> ids e" and "H (ids e) = Some c" and "H (ids (other e)) = Some d" and "ch_ok c" and "ch_ok d"
    and "ch_peer c = Some (ids (other e)) \<and> ch_peer d = Some (ids e) \<and> \<not> ch_closed c \<and> \<not> ch_closed d \<or>
     ch_peer c = None \<and> ch_peer d = None"
  shows "pair_inv ids H"
  using assms unfolding pair_inv_def side_all by (cases e) auto

lemma ch_abs_eqI:
  assumes "H (ids e) = Some c" and "H (ids (other e)) = Some d" and "dx_inbox D e = ch_messages c"
    and "dx_inbox D (other e) = ch_messages d" and "dx_open D \<longleftrightarrow> ch_peer c \<noteq> None" and "dx_open D \<longleftrightarrow> ch_peer d \<noteq> None"
  shows "ch_abs ids H = D"
proof -
  have "dx_inbox (ch_abs ids H) x = dx_inbox D x" for x
    using assms by (cases x; cases e) (auto simp: ch_abs_def)
  moreover have "dx_open (ch_abs ids H) = dx_open D"
    using assms by (cases e) (auto simp: ch_abs_def)
  ultimately show ?thesis by (intro duplex.equality) auto
qed

lemma ch_abs_inbox: "H (ids e) = Some c \<Longrightarrow> dx_inbox (ch_abs ids H) e = ch_messages c"
  by (simp add: ch_abs_def)

lemma readable_or [simp]: "contains (x OR READABLE) READABLE"
  by (rule contains_or_right)

lemma readable_removed [simp]: "\<not> contains (flags_remove x READABLE) READABLE"
  using contains_intersects[of "flags_remove x READABLE" READABLE] by auto

lemma contains_or_disjoint: "b AND c = 0 \<Longrightarrow> contains (a OR b) c \<longleftrightarrow> contains a c" for a b c :: "'a::len word"
  by (simp add: contains_def bit.conj_disj_distrib2)

lemma readable_or_other [simp]:
  "contains (x OR WRITABLE) READABLE \<longleftrightarrow> contains x READABLE" "contains (x OR PEER_CLOSED) READABLE \<longleftrightarrow> contains x READABLE"
  by (rule contains_or_disjoint, simp add: signal_defs)+

lemmas ch_ops = ch_send_def ch_try_recv_def ch_close_def upgrade_peer_def

lemma send_refines:
  assumes "pair_inv ids H"
  shows "case duplex_do (CSend e m) (ch_abs ids H) of
      Ok (r, D) \<Rightarrow> \<exists>H'. ch_do ids (CSend e m) H = Ok (r, H') \<and> pair_inv ids H' \<and> ch_abs ids H' = D
    | Err x \<Rightarrow> ch_do ids (CSend e m) H = Err x
    | Panic \<Rightarrow> False"
proof -
  from pair_invE[OF assms, of e] obtain c d where cd: "H (ids e) = Some c" "H (ids (other e)) = Some d"
    "ch_ok c" "ch_ok d" "ids (other e) \<noteq> ids e"
    "ch_peer c = Some (ids (other e)) \<and> ch_peer d = Some (ids e) \<and> \<not> ch_closed c \<and> \<not> ch_closed d \<and> dx_open (ch_abs ids H) \<or>
     ch_peer c = None \<and> ch_peer d = None \<and> \<not> dx_open (ch_abs ids H)" by metis
  have inbox: "dx_inbox (ch_abs ids H) (other e) = ch_messages d" "dx_inbox (ch_abs ids H) e = ch_messages c"
    using cd by (simp_all add: ch_abs_inbox)
  have cap: "ch_capacity d = DEFAULT_CAPACITY" using cd(4) by (simp add: ch_ok_def)
  show ?thesis
  proof (cases "dx_open (ch_abs ids H) \<and> length (ch_messages d) < DEFAULT_CAPACITY")
    case True
    let ?D = "(ch_abs ids H)\<lparr>dx_inbox := (dx_inbox (ch_abs ids H))(other e := ch_messages d @ [m])\<rparr>"
    have peers: "ch_peer c = Some (ids (other e))" "ch_peer d = Some (ids e)" "\<not> ch_closed c" "\<not> ch_closed d"
      using cd(6) True by auto
    from True cd peers cap obtain cs d' where d': "ch_send (ids e) m H = Ok (cs, ids (other e), H(ids (other e) \<mapsto> d'))"
      "ch_messages d' = ch_messages d @ [m]" "ch_peer d' = ch_peer d" "ch_closed d' = ch_closed d"
      "ch_capacity d' = ch_capacity d" "ch_signals d' = ch_signals d OR READABLE"
      by (cases "contains (ch_signals d) READABLE") (auto simp: ch_ops Let_def)
    let ?H = "H(ids (other e) \<mapsto> d')"
    have "ch_ok d'" using d' cd(4) True cap by (simp add: ch_ok_def)
    then have "pair_inv ids ?H"
      using cd peers d' by (intro pair_invI[of ids e ?H c d']) auto
    moreover have "ch_abs ids ?H = ?D"
      using cd peers d' inbox True by (intro ch_abs_eqI[of ?H ids e c d']) auto
    ultimately show ?thesis using True d'(1) inbox by auto
  next
    case False
    with cd cap inbox show ?thesis by (auto simp: ch_ops)
  qed
qed

lemma recv_refines:
  assumes "pair_inv ids H"
  shows "case duplex_do (CRecv e) (ch_abs ids H) of
      Ok (r, D) \<Rightarrow> \<exists>H'. ch_do ids (CRecv e) H = Ok (r, H') \<and> pair_inv ids H' \<and> ch_abs ids H' = D
    | Err x \<Rightarrow> ch_do ids (CRecv e) H = Err x
    | Panic \<Rightarrow> False"
proof -
  from pair_invE[OF assms, of e] obtain c d where cd: "H (ids e) = Some c" "H (ids (other e)) = Some d"
    "ch_ok c" "ch_ok d" "ids (other e) \<noteq> ids e"
    "ch_peer c = Some (ids (other e)) \<and> ch_peer d = Some (ids e) \<and> \<not> ch_closed c \<and> \<not> ch_closed d \<and> dx_open (ch_abs ids H) \<or>
     ch_peer c = None \<and> ch_peer d = None \<and> \<not> dx_open (ch_abs ids H)" by metis
  have inbox: "dx_inbox (ch_abs ids H) (other e) = ch_messages d" "dx_inbox (ch_abs ids H) e = ch_messages c"
    using cd by (simp_all add: ch_abs_inbox)
  show ?thesis
  proof (cases "ch_messages c")
    case Nil
    with cd inbox show ?thesis by (auto simp: ch_ops)
  next
    case (Cons m rest)
    let ?D = "(ch_abs ids H)\<lparr>dx_inbox := (dx_inbox (ch_abs ids H))(e := rest)\<rparr>"
    let ?c = "c\<lparr>ch_messages := rest,
       ch_signals := if rest = [] then flags_remove (ch_signals c) READABLE else ch_signals c\<rparr>"
    let ?w = "d\<lparr>ch_signals := ch_signals d OR WRITABLE\<rparr>"
    have "\<exists>d'. ch_try_recv (ids e) H = Ok (m, H(ids e \<mapsto> ?c, ids (other e) \<mapsto> d')) \<and> (d' = d \<or> d' = ?w)"
    proof (cases "ch_peer c = None \<or> \<not> length (ch_messages d) < ch_capacity d")
      case True
      have "H(ids e \<mapsto> ?c) = H(ids e \<mapsto> ?c, ids (other e) \<mapsto> d)" using cd(2,5) by (auto simp: fun_eq_iff)
      with True cd Cons have "ch_try_recv (ids e) H = Ok (m, H(ids e \<mapsto> ?c, ids (other e) \<mapsto> d))"
        by (auto simp: ch_ops Let_def)
      then show ?thesis by blast
    next
      case False
      with cd Cons have "ch_try_recv (ids e) H = Ok (m, H(ids e \<mapsto> ?c, ids (other e) \<mapsto> ?w))"
        by (auto simp: ch_ops Let_def)
      then show ?thesis by blast
    qed
    then obtain d' where H0: "ch_try_recv (ids e) H = Ok (m, H(ids e \<mapsto> ?c, ids (other e) \<mapsto> d'))" "d' = d \<or> d' = ?w"
      by blast
    then obtain H' where H': "ch_try_recv (ids e) H = Ok (m, H')" "H' (ids e) = Some ?c" "H' (ids (other e)) = Some d'"
      "d' = d \<or> d' = ?w"
      using H0 cd(5) by (metis fun_upd_apply)
    have "ch_ok ?c" "ch_ok d'" using cd(3,4) Cons H'(4) by (auto simp: ch_ok_def)
    then have "pair_inv ids H'"
      using cd H' by (intro pair_invI[of ids e H' ?c d']) auto
    moreover have "ch_abs ids H' = ?D"
      using cd H' inbox by (intro ch_abs_eqI[of H' ids e ?c d']) auto
    ultimately show ?thesis using H'(1) inbox Cons by auto
  qed
qed

lemma close_refines:
  assumes "pair_inv ids H"
  shows "case duplex_do (CClose e) (ch_abs ids H) of
      Ok (r, D) \<Rightarrow> \<exists>H'. ch_do ids (CClose e) H = Ok (r, H') \<and> pair_inv ids H' \<and> ch_abs ids H' = D
    | Err x \<Rightarrow> ch_do ids (CClose e) H = Err x
    | Panic \<Rightarrow> False"
proof -
  from pair_invE[OF assms, of e] obtain c d where cd: "H (ids e) = Some c" "H (ids (other e)) = Some d"
    "ch_ok c" "ch_ok d" "ids (other e) \<noteq> ids e"
    "ch_peer c = Some (ids (other e)) \<and> ch_peer d = Some (ids e) \<and> \<not> ch_closed c \<and> \<not> ch_closed d \<and> dx_open (ch_abs ids H) \<or>
     ch_peer c = None \<and> ch_peer d = None \<and> \<not> dx_open (ch_abs ids H)" by metis
  have inbox: "dx_inbox (ch_abs ids H) (other e) = ch_messages d" "dx_inbox (ch_abs ids H) e = ch_messages c"
    using cd by (simp_all add: ch_abs_inbox)
  let ?c = "c\<lparr>ch_closed := True, ch_peer := None\<rparr>"
  let ?d = "d\<lparr>ch_peer := None, ch_signals := ch_signals d OR PEER_CLOSED\<rparr>"
  have "\<exists>cs w H' d'. ch_close (ids e) H = (cs, w, H') \<and> H' (ids e) = Some ?c \<and> H' (ids (other e)) = Some d' \<and>
    (d' = d \<and> ch_peer d = None \<or> d' = ?d)"
    using cd by (cases "ch_peer c") (auto simp: ch_ops Let_def)
  then obtain cs w H' d' where H'0: "ch_close (ids e) H = (cs, w, H')" "H' (ids e) = Some ?c" "H' (ids (other e)) = Some d'"
    "d' = d \<and> ch_peer d = None \<or> d' = ?d" by blast
  then have H': "ch_close (ids e) H = (cs, w, H')" "H' (ids e) = Some ?c" "H' (ids (other e)) = Some d'"
    "ch_peer d' = None" "ch_messages d' = ch_messages d" "ch_ok d'"
    using cd(4) by (auto simp: ch_ok_def)
  have "ch_ok ?c" using cd(3) by (simp add: ch_ok_def)
  then have "pair_inv ids H'"
    using cd H' by (intro pair_invI[of ids e H' ?c d']) auto
  moreover have "ch_abs ids H' = (ch_abs ids H)\<lparr>dx_open := False\<rparr>"
    using cd H' inbox by (intro ch_abs_eqI[of H' ids e ?c d']) auto
  ultimately show ?thesis using H'(1) by auto
qed

lemma create_pair_inv: "a \<noteq> b \<Longrightarrow> pair_inv (case_side a b) (ch_create_pair a b H)"
  by (rule pair_invI[of _ SideA _ "ch_fresh b" "ch_fresh a"])
    (auto simp: ch_create_pair_def ch_fresh_def ch_ok_def contains_def signal_defs)

lemma create_pair_abs:
  "a \<noteq> b \<Longrightarrow> ch_abs (case_side a b) (ch_create_pair a b H) = \<lparr>dx_inbox = \<lambda>_. [], dx_open = True\<rparr>"
  by (rule ch_abs_eqI[of _ _ SideA "ch_fresh b" "ch_fresh a"]) (auto simp: ch_create_pair_def ch_fresh_def)

text \<open>C15: channels refine their abstract specification. Whatever is done at either end of a pair, the
  concrete operation returns what the two bounded queues return, errors included, and leaves
  channels that represent the new queues; the invariant (capacity kept, \<open>READABLE\<close> up exactly when a message waits,
  ends linked both ways or not at all) is preserved.\<close>

theorem channel_refines_duplex:
  assumes "pair_inv ids H"
  shows "case duplex_do p (ch_abs ids H) of
      Ok (r, D) \<Rightarrow> \<exists>H'. ch_do ids p H = Ok (r, H') \<and> pair_inv ids H' \<and> ch_abs ids H' = D
    | Err x \<Rightarrow> ch_do ids p H = Err x
    | Panic \<Rightarrow> False"
  using assms by (cases p) (simp_all only: send_refines recv_refines close_refines)

theorem channel_refines_duplex_witness:
  "\<exists>H'. ch_do (case_side 1 2) (CSend SideA (msg_new [7])) (ch_create_pair 1 2 (\<lambda>_. None)) = Ok (None, H') \<and>
     dx_inbox (ch_abs (case_side 1 2) H') SideB = [msg_new [7]]"
  using channel_refines_duplex[OF create_pair_inv[of 1 2 "\<lambda>_. None"], of "CSend SideA (msg_new [7])"]
  by (auto simp: create_pair_abs DEFAULT_CAPACITY_def)

section \<open>First in, first out\<close>

text \<open>A run at both ends, with the messages each end has sent and received so far.\<close>

type_synonym ch_log = "(side \<Rightarrow> message list) \<times> (side \<Rightarrow> message list)"

fun ch_log_step :: "ch_op \<Rightarrow> (channel_error, message option \<times> chans) res \<Rightarrow> ch_log \<Rightarrow> ch_log" where
  "ch_log_step (CSend e m) (Ok _) (sent, got) = (sent(e := sent e @ [m]), got)"
| "ch_log_step (CRecv e) (Ok (Some m, _)) (sent, got) = (sent, got(e := got e @ [m]))"
| "ch_log_step _ _ log = log"

fun ch_run :: "(side \<Rightarrow> oid) \<Rightarrow> ch_op list \<Rightarrow> chans \<Rightarrow> ch_log \<Rightarrow> (unit, chans \<times> ch_log) res" where
  "ch_run ids [] H log = Ok (H, log)"
| "ch_run ids (p # ps) H log =
     (case ch_do ids p H of
        Panic \<Rightarrow> Panic
      | Err x \<Rightarrow> ch_run ids ps H log
      | Ok (r, H') \<Rightarrow> ch_run ids ps H' (ch_log_step p (Ok (r, H')) log))"

definition log_ok :: "(side \<Rightarrow> oid) \<Rightarrow> chans \<Rightarrow> ch_log \<Rightarrow> bool" where
  "log_ok ids H log \<longleftrightarrow> (\<forall>e. fst log (other e) = snd log e @ dx_inbox (ch_abs ids H) e)"

lemma duplex_log:
  assumes "duplex_do p D = Ok (r, D')" and "\<forall>e. sent (other e) = got e @ dx_inbox D e"
  shows "\<forall>e. fst (ch_log_step p (Ok (r, H')) (sent, got)) (other e) =
    snd (ch_log_step p (Ok (r, H')) (sent, got)) e @ dx_inbox D' e"
proof (cases p)
  case (CSend e m)
  have "other x = e \<longleftrightarrow> x = other e" for x by (cases x; cases e) auto
  moreover have "sent e = got (other e) @ dx_inbox D (other e)"
    using assms(2)[rule_format, of "other e"] by simp
  ultimately show ?thesis using CSend assms by (auto split: if_splits)
qed (use assms in \<open>auto split: list.splits\<close>)

lemma run_log:
  "pair_inv ids H \<Longrightarrow> log_ok ids H log \<Longrightarrow>
   \<exists>H' log'. ch_run ids ps H log = Ok (H', log') \<and> pair_inv ids H' \<and> log_ok ids H' log'"
proof (induction ps arbitrary: H log)
  case (Cons p ps)
  obtain sent got where log: "log = (sent, got)" by force
  have ref: "case duplex_do p (ch_abs ids H) of
      Ok (r, D) \<Rightarrow> \<exists>H'. ch_do ids p H = Ok (r, H') \<and> pair_inv ids H' \<and> ch_abs ids H' = D
    | Err x \<Rightarrow> ch_do ids p H = Err x
    | Panic \<Rightarrow> False"
    using Cons.prems(1) by (cases p) (simp_all only: send_refines recv_refines close_refines)
  show ?case
  proof (cases "duplex_do p (ch_abs ids H)")
    case (Ok rD)
    obtain r D where rD: "rD = (r, D)" by force
    from ref Ok rD obtain H1 where H1: "ch_do ids p H = Ok (r, H1)" "pair_inv ids H1" "ch_abs ids H1 = D" by auto
    have "log_ok ids H1 (ch_log_step p (Ok (r, H1)) log)"
      using duplex_log[OF Ok[unfolded rD], of sent got H1] Cons.prems(2) H1(3) log by (simp add: log_ok_def)
    from Cons.IH[OF H1(2) this] H1(1) show ?thesis by simp
  next
    case (Err x)
    with ref Cons show ?thesis by simp
  next
    case Panic
    with ref show ?thesis by simp
  qed
qed simp

text \<open>Channels are reliable and in order. After any sequence of sends, receives and closes at both ends of a
  fresh pair, which never panics, the messages one end sent successfully are exactly those the other end
  received followed by those waiting there, in the order of sending, and at most 64 wait.\<close>

theorem channel_fifo:
  assumes "a \<noteq> b"
  shows "\<exists>H' sent got. ch_run (case_side a b) ps (ch_create_pair a b H) (\<lambda>_. [], \<lambda>_. []) = Ok (H', sent, got) \<and>
    (\<forall>e. \<exists>c. H' (case_side a b e) = Some c \<and> sent (other e) = got e @ ch_messages c \<and> length (ch_messages c) \<le> 64)"
proof -
  let ?ids = "case_side a b" and ?H = "ch_create_pair a b H"
  have "log_ok ?ids ?H (\<lambda>_. [], \<lambda>_. [])" by (simp add: log_ok_def create_pair_abs[OF assms])
  from run_log[OF create_pair_inv[OF assms] this] obtain H' sent got where
    run: "ch_run ?ids ps ?H (\<lambda>_. [], \<lambda>_. []) = Ok (H', sent, got)" "pair_inv ?ids H'" "log_ok ?ids H' (sent, got)"
    by (metis surj_pair)
  have "\<exists>c. H' (?ids e) = Some c \<and> sent (other e) = got e @ ch_messages c \<and> length (ch_messages c) \<le> 64" for e
    using pair_invE[OF run(2), of e] run(3) ch_abs_inbox[of H' ?ids e]
    by (metis (no_types, lifting) DEFAULT_CAPACITY_def ch_ok_def fst_conv log_ok_def snd_conv)
  with run(1) show ?thesis by blast
qed

theorem channel_fifo_witness:
  "\<exists>H' sent got. ch_run (case_side 1 2) [CSend SideA (msg_new [1]), CRecv SideB, CClose SideA]
     (ch_create_pair 1 2 (\<lambda>_. None)) (\<lambda>_. [], \<lambda>_. []) = Ok (H', sent, got)"
  using channel_fifo[of 1 2 "[CSend SideA (msg_new [1]), CRecv SideB, CClose SideA]" "\<lambda>_. None"] by auto

text \<open>Notification is on the edge. A successful send calls the peer's observers of \<open>READABLE\<close>, once each and
  in order, exactly when the peer's queue was empty before; it always asks to wake one waiter of the peer.\<close>

theorem send_notifies_on_edge:
  assumes "pair_inv ids H" and "H (ids (other e)) = Some d" and "ch_send (ids e) m H = Ok (cs, w, H')"
  shows "w = ids (other e) \<and> cs = (if ch_messages d = []
      then map (\<lambda>ob. (so_callback ob, READABLE)) (filter (\<lambda>ob. contains (so_trigger ob) READABLE) (ch_observers d))
      else [])"
proof -
  from pair_invE[OF assms(1), of e] assms(2) obtain c where c: "H (ids e) = Some c" "ch_ok d"
    "ch_peer c = Some (ids (other e)) \<or> ch_peer c = None" by (metis option.inject)
  then show ?thesis
    using assms(2,3) by (auto simp: ch_ops ch_ok_def Let_def split: if_splits)
qed

theorem send_notifies_on_edge_witness:
  "\<exists>cs w H'. ch_send 1 (msg_new [7]) (ch_create_pair 1 2 (\<lambda>_. None)) = Ok (cs, w, H') \<and> w = 2 \<and> cs = []"
proof -
  let ?H = "ch_create_pair 1 2 (\<lambda>_. None)" and ?ids = "case_side 1 2 :: side \<Rightarrow> oid"
  obtain cs w H' where send: "ch_send 1 (msg_new [7]) ?H = Ok (cs, w, H')"
    by (simp add: ch_ops ch_create_pair_def ch_fresh_def DEFAULT_CAPACITY_def contains_def signal_defs)
  have d: "?H (?ids (other SideA)) = Some (ch_fresh 1)" by (simp add: ch_create_pair_def)
  have "ch_send (?ids SideA) (msg_new [7]) ?H = Ok (cs, w, H')" using send by simp
  from send_notifies_on_edge[OF create_pair_inv d this] have "w = 2 \<and> cs = []" by (simp add: ch_fresh_def)
  with send show ?thesis by blast
qed

end
