(* ===== verification/Port.thy ===== *)
theory Port
  imports Channel
begin

text \<open>
  Ports: \<open>kernel/src/object/port.rs\<close>, their data and the parts of the operations that touch one port only.
  \<open>Ipc\<close> adds what reaches other objects: binding, unbinding, delivery of signals and waking.
\<close>

datatype packet_type = PtSignal | PtUser | PtTimer

record port_packet =
  pp_key :: nat
  pp_signals :: signals
  pp_type :: packet_type
  pp_reserved :: u32
  pp_data :: "u64 list"

definition pp_zeroed :: port_packet where
  "pp_zeroed = \<lparr>pp_key = 0, pp_signals = 0, pp_type = PtUser, pp_reserved = 0, pp_data = [0, 0, 0, 0]\<rparr>"

definition pp_signal :: "nat \<Rightarrow> signals \<Rightarrow> port_packet" where
  "pp_signal k x = \<lparr>pp_key = k, pp_signals = x, pp_type = PtSignal, pp_reserved = 0, pp_data = [0, 0, 0, 0]\<rparr>"

definition pp_user :: "nat \<Rightarrow> u64 list \<Rightarrow> port_packet" where
  "pp_user k d = \<lparr>pp_key = k, pp_signals = 0, pp_type = PtUser, pp_reserved = 0, pp_data = d\<rparr>"

datatype bind_options = Once | Persistent

definition bind_options_from :: "u32 \<Rightarrow> bind_options" where
  "bind_options_from v = (if v = 0 then Once else Persistent)"

record binding =
  bi_key :: nat
  bi_object :: oid
  bi_trigger :: signals
  bi_options :: bind_options

record port =
  po_packets :: "port_packet list"
  po_bindings :: "binding list"
  po_signals :: signals
  po_observers :: "observer list"
  po_waiters :: wait_queue
  po_next_key :: nat

datatype port_error = AlreadyBound | NotFound | WouldBlock | InvalidArgs | Timeout

definition po_new :: port where
  "po_new = \<lparr>po_packets = [], po_bindings = [], po_signals = 0, po_observers = [], po_waiters = wq_new, po_next_key = 1\<rparr>"

definition po_alloc_key :: "port \<Rightarrow> nat \<times> port" where
  "po_alloc_key p = (po_next_key p, p\<lparr>po_next_key := (po_next_key p + 1) mod 2 ^ 64\<rparr>)"

definition po_pending_count :: "port \<Rightarrow> nat" where
  "po_pending_count p = length (po_packets p)"

text \<open>The part of \<open>on_object_signal\<close> under the lock: the packet is queued, and the callbacks to make are
  collected.\<close>

definition po_signal_arrives :: "nat \<Rightarrow> signals \<Rightarrow> port \<Rightarrow> calls \<times> port" where
  "po_signal_arrives k x p =
     (map (\<lambda>ob. (so_callback ob, READABLE)) (filter (\<lambda>ob. contains (so_trigger ob) READABLE) (po_observers p)),
      p\<lparr>po_packets := po_packets p @ [pp_signal k x], po_signals := po_signals p OR READABLE\<rparr>)"

definition po_enqueue :: "port_packet \<Rightarrow> port \<Rightarrow> port" where
  "po_enqueue pk p = p\<lparr>po_packets := po_packets p @ [pk], po_signals := po_signals p OR READABLE\<rparr>"

text \<open>\<open>try_dequeue\<close> into a buffer of \<open>n\<close> packets: the packets written, the port, and the bindings that are
  dropped, whose objects forget the observer.\<close>

fun drop_once :: "nat list \<Rightarrow> binding list \<Rightarrow> binding list \<times> binding list" where
  "drop_once [] bs = ([], bs)"
| "drop_once (k # ks) bs =
     (case find (\<lambda>b. bi_key b = k \<and> bi_options b = Once) bs of
        None \<Rightarrow> drop_once ks bs
      | Some b \<Rightarrow> let (ds, bs') = drop_once ks (remove1 b bs) in (b # ds, bs'))"

definition po_try_dequeue :: "nat \<Rightarrow> port \<Rightarrow> port_packet list \<times> binding list \<times> port" where
  "po_try_dequeue n p =
     (if po_packets p = [] \<or> n = 0 then ([], [], p)
      else let count = min n (length (po_packets p));
               taken = take count (po_packets p);
               rest = drop count (po_packets p);
               (dropped, bs) = drop_once (map pp_key (filter (\<lambda>pk. pp_type pk = PtSignal) taken)) (po_bindings p)
           in (taken, dropped,
               p\<lparr>po_packets := rest,
                 po_signals := if rest = [] then flags_remove (po_signals p) READABLE else po_signals p,
                 po_bindings := bs\<rparr>))"

text \<open>One turn of the loop in \<open>wait\<close>, given the time: done, timed out, or go to sleep.\<close>

datatype wait_turn = WaitDone "port_packet list" | WaitTimeout | WaitSleep

definition po_wait_turn ::
  "nat \<Rightarrow> nat option \<Rightarrow> nat \<Rightarrow> nat \<Rightarrow> port \<Rightarrow> (unit, wait_turn \<times> binding list \<times> port) res" where
  "po_wait_turn n timeout start now p =
     (let (pks, dropped, p') = po_try_dequeue n p
      in if length pks > 0 then Ok (WaitDone pks, dropped, p')
         else case timeout of
             Some 0 \<Rightarrow> Ok (WaitTimeout, dropped, p')
           | Some t \<Rightarrow>
               bind_res (chk_sub now start) (\<lambda>elapsed.
                 Ok (if elapsed > t then WaitTimeout else WaitSleep, dropped, p'))
           | None \<Rightarrow> Ok (WaitSleep, dropped, p'))"

section \<open>The kernel object interface\<close>

definition po_signal_set :: "signals \<Rightarrow> port \<Rightarrow> calls \<times> port" where
  "po_signal_set x p =
     (let old = po_signals p;
          p1 = p\<lparr>po_signals := old OR x\<rparr>;
          changed = po_signals p1 AND NOT old
      in (if changed \<noteq> 0
          then map (\<lambda>ob. (so_callback ob, changed)) (filter (\<lambda>ob. intersects (so_trigger ob) changed) (po_observers p1))
          else [], p1))"

definition po_signal_clear :: "signals \<Rightarrow> port \<Rightarrow> port" where
  "po_signal_clear x p = p\<lparr>po_signals := flags_remove (po_signals p) x\<rparr>"

definition po_add_signal_observer :: "observer \<Rightarrow> port \<Rightarrow> calls \<times> port" where
  "po_add_signal_observer ob p =
     (let pushed = p\<lparr>po_observers := po_observers p @ [ob]\<rparr>
      in if intersects (po_signals p) (so_trigger ob)
         then ([(so_callback ob, po_signals p AND so_trigger ob)], if so_once ob then p else pushed)
         else ([], pushed))"

definition po_remove_signal_observer :: "nat \<Rightarrow> port \<Rightarrow> port" where
  "po_remove_signal_observer k p = p\<lparr>po_observers := filter (\<lambda>ob. so_key ob \<noteq> k) (po_observers p)\<rparr>"

end
