(* ===== verification/Ipc.thy ===== *)
theory Ipc
  imports Port "HOL-Library.Multiset_Order"
begin

text \<open>
  Channels, ports and tasks together: delivery of signals from objects to ports, waking of waiting tasks, and
  the blocking operations. An object is a channel, a port, or one whose observers are a plain \<open>SignalState\<close>
  (a process, a VMO, a VMAR). Each operation below is what one thread does under one acquisition of
  each lock; the locks themselves are not part of the state.
\<close>

record kernel = task_sys +
  k_chans :: chans
  k_ports :: "oid \<Rightarrow> port option"
  k_plain :: "oid \<Rightarrow> signal_state option"

section \<open>Waking the waiters of an object\<close>

definition wake_port :: "oid \<Rightarrow> kernel \<Rightarrow> (unit, kernel) res" where
  "wake_port p s =
     (case k_ports s p of
        None \<Rightarrow> Ok s
      | Some q \<Rightarrow>
          bind_res (wq_wake_one (po_waiters q) s) (\<lambda>(woken, ws, s').
            Ok (s'\<lparr>k_ports := (k_ports s')(p \<mapsto> q\<lparr>po_waiters := ws\<rparr>)\<rparr>)))"

definition wake_chan :: "oid \<Rightarrow> kernel \<Rightarrow> (unit, kernel) res" where
  "wake_chan c s =
     (case k_chans s c of
        None \<Rightarrow> Ok s
      | Some ch \<Rightarrow>
          bind_res (wq_wake_one (ch_waiters ch) s) (\<lambda>(woken, ws, s').
            Ok (s'\<lparr>k_chans := (k_chans s')(c \<mapsto> ch\<lparr>ch_waiters := ws\<rparr>)\<rparr>)))"

definition wake_chan_all :: "oid \<Rightarrow> kernel \<Rightarrow> (unit, kernel) res" where
  "wake_chan_all c s =
     (case k_chans s c of
        None \<Rightarrow> Ok s
      | Some ch \<Rightarrow>
          bind_res (wq_wake_all (ch_waiters ch) s) (\<lambda>(n, ws, s').
            Ok (s'\<lparr>k_chans := (k_chans s')(c \<mapsto> ch\<lparr>ch_waiters := ws\<rparr>)\<rparr>)))"

section \<open>Delivery\<close>

text \<open>
  The callback of a binding upgrades its weak port reference and calls \<open>on_object_signal\<close>: queue a
  packet, call the port's own observers (recursively), wake one waiter. The recursion is a work
  list of pending calls and wake-ups, in the order the nested calls make them. It need not end: \<open>None\<close> stands
  for a recursion without end.
\<close>

datatype work = Call callback signals | Wake oid

abbreviation calls_of :: "calls \<Rightarrow> work list" where
  "calls_of cs \<equiv> map (\<lambda>(cb, x). Call cb x) cs"

partial_function (option) deliver :: "work list \<Rightarrow> kernel \<Rightarrow> (unit, kernel) res option" where
  "deliver ws s =
     (case ws of
        [] \<Rightarrow> Some (Ok s)
      | Call cb x # rest \<Rightarrow>
          (case k_ports s (cb_port cb) of
             None \<Rightarrow> deliver rest s
           | Some q \<Rightarrow>
               (let (cs, q') = po_signal_arrives (cb_key cb) x q
                in deliver (calls_of cs @ Wake (cb_port cb) # rest)
                     (s\<lparr>k_ports := (k_ports s)(cb_port cb \<mapsto> q')\<rparr>)))
      | Wake p # rest \<Rightarrow>
          (case wake_port p s of
             Ok s' \<Rightarrow> deliver rest s'
           | Err e \<Rightarrow> Some (Err e)
           | Panic \<Rightarrow> Some Panic))"

definition run_calls :: "calls \<Rightarrow> kernel \<Rightarrow> (unit, kernel) res option" where
  "run_calls cs s = deliver (calls_of cs) s"

text \<open>Continue with a delivery that has ended without a panic.\<close>

definition after :: "(unit, kernel) res option \<Rightarrow> (kernel \<Rightarrow> ('e, 'a) res option) \<Rightarrow> ('e, 'a) res option" where
  "after d f =
     (case d of None \<Rightarrow> None | Some (Ok s) \<Rightarrow> f s | Some (Err _) \<Rightarrow> Some Panic | Some Panic \<Rightarrow> Some Panic)"

definition lift_res :: "(unit, 'a) res \<Rightarrow> ('e, 'a) res" where
  "lift_res r = (case r of Ok a \<Rightarrow> Ok a | _ \<Rightarrow> Panic)"

section \<open>Channel operations\<close>

definition k_send :: "oid \<Rightarrow> message \<Rightarrow> kernel \<Rightarrow> (channel_error, kernel) res option" where
  "k_send a m s =
     (case ch_send a m (k_chans s) of
        Panic \<Rightarrow> Some Panic
      | Err e \<Rightarrow> Some (Err e)
      | Ok (cs, p, H) \<Rightarrow>
          after (run_calls cs (s\<lparr>k_chans := H\<rparr>)) (\<lambda>s1. Some (lift_res (wake_chan p s1))))"

definition k_try_recv :: "oid \<Rightarrow> kernel \<Rightarrow> (channel_error, message \<times> kernel) res" where
  "k_try_recv a s = bind_res (ch_try_recv a (k_chans s)) (\<lambda>(m, H). Ok (m, s\<lparr>k_chans := H\<rparr>))"

definition k_close :: "oid \<Rightarrow> kernel \<Rightarrow> (channel_error, kernel) res option" where
  "k_close a s =
     (case ch_close a (k_chans s) of
        (cs, p, H) \<Rightarrow>
          after (run_calls cs (s\<lparr>k_chans := H\<rparr>)) (\<lambda>s1.
            Some (case p of None \<Rightarrow> Ok s1 | Some p \<Rightarrow> lift_res (wake_chan_all p s1))))"

text \<open>
  One turn of the loop in \<open>recv\<close> consists of steps between which other CPUs run: \<open>try_recv\<close>; the test of the
  peer, after which the caller gives up or goes on; entering the wait queue; and blocking with the switch
  to another task.
\<close>

datatype recv_turn = RecvDone "(channel_error, message) res" | RecvWait

definition recv_poll :: "oid \<Rightarrow> kernel \<Rightarrow> recv_turn \<times> kernel" where
  "recv_poll a s =
     (case k_try_recv a s of
        Ok (m, s') \<Rightarrow> (RecvDone (Ok m), s')
      | Err Empty \<Rightarrow> (RecvWait, s)
      | Err e \<Rightarrow> (RecvDone (Err e), s)
      | Panic \<Rightarrow> (RecvDone Panic, s))"

definition recv_check :: "oid \<Rightarrow> kernel \<Rightarrow> recv_turn" where
  "recv_check a s = (if ch_recv_gives_up a (k_chans s) then RecvDone (Err PeerClosed) else RecvWait)"

definition recv_enter :: "oid \<Rightarrow> tref \<Rightarrow> kernel \<Rightarrow> kernel" where
  "recv_enter a t s =
     (case k_chans s a of
        None \<Rightarrow> s
      | Some c \<Rightarrow> s\<lparr>k_chans := (k_chans s)(a \<mapsto> c\<lparr>ch_waiters := wq_enter t (ch_waiters c)\<rparr>)\<rparr>)"

definition recv_sleep :: "nat \<Rightarrow> tref \<Rightarrow> kernel \<Rightarrow> (unit, kernel) res" where
  "recv_sleep me t s = wq_sleep me t s"

section \<open>Observers of any object\<close>

definition k_add_observer :: "oid \<Rightarrow> observer \<Rightarrow> kernel \<Rightarrow> (unit, kernel) res option" where
  "k_add_observer x ob s =
     (case k_chans s x of
        Some c \<Rightarrow> (let (cs, c') = ch_add_signal_observer ob c
                   in run_calls cs (s\<lparr>k_chans := (k_chans s)(x \<mapsto> c')\<rparr>))
      | None \<Rightarrow>
          (case k_ports s x of
             Some p \<Rightarrow> (let (cs, p') = po_add_signal_observer ob p
                        in run_calls cs (s\<lparr>k_ports := (k_ports s)(x \<mapsto> p')\<rparr>))
           | None \<Rightarrow>
               (case k_plain s x of
                  Some g \<Rightarrow> (let (cs, g') = ss_add_observer ob g
                             in run_calls cs (s\<lparr>k_plain := (k_plain s)(x \<mapsto> g')\<rparr>))
                | None \<Rightarrow> Some (Ok s))))"

definition k_remove_observer :: "oid \<Rightarrow> nat \<Rightarrow> kernel \<Rightarrow> kernel" where
  "k_remove_observer x k s =
     (case k_chans s x of
        Some c \<Rightarrow> s\<lparr>k_chans := (k_chans s)(x \<mapsto> ch_remove_signal_observer k c)\<rparr>
      | None \<Rightarrow>
          (case k_ports s x of
             Some p \<Rightarrow> s\<lparr>k_ports := (k_ports s)(x \<mapsto> po_remove_signal_observer k p)\<rparr>
           | None \<Rightarrow>
               (case k_plain s x of
                  Some g \<Rightarrow> s\<lparr>k_plain := (k_plain s)(x \<mapsto> ss_remove_observer k g)\<rparr>
                | None \<Rightarrow> s)))"

section \<open>Port operations\<close>

definition k_bind :: "oid \<Rightarrow> nat \<Rightarrow> oid \<Rightarrow> signals \<Rightarrow> bind_options \<Rightarrow> kernel \<Rightarrow> (port_error, kernel) res option" where
  "k_bind p key x trigger opts s =
     (case k_ports s p of
        None \<Rightarrow> Some Panic
      | Some q \<Rightarrow>
          if list_ex (\<lambda>b. bi_key b = key) (po_bindings q) then Some (Err AlreadyBound)
          else after (k_add_observer x \<lparr>so_key = key, so_trigger = trigger,
                          so_callback = PortNotify p key, so_once = (opts = Once)\<rparr> s) (\<lambda>s1.
            case k_ports s1 p of
              None \<Rightarrow> Some Panic
            | Some q1 \<Rightarrow>
                Some (Ok (s1\<lparr>k_ports := (k_ports s1)(p \<mapsto> q1\<lparr>po_bindings := po_bindings q1 @
                  [\<lparr>bi_key = key, bi_object = x, bi_trigger = trigger, bi_options = opts\<rparr>]\<rparr>)\<rparr>))))"

definition k_unbind :: "oid \<Rightarrow> nat \<Rightarrow> kernel \<Rightarrow> (port_error, kernel) res" where
  "k_unbind p key s =
     (case k_ports s p of
        None \<Rightarrow> Panic
      | Some q \<Rightarrow>
          (case find (\<lambda>b. bi_key b = key) (po_bindings q) of
             None \<Rightarrow> Err NotFound
           | Some b \<Rightarrow>
               Ok (k_remove_observer (bi_object b) key
                    (s\<lparr>k_ports := (k_ports s)(p \<mapsto> q\<lparr>po_bindings := remove1 b (po_bindings q)\<rparr>)\<rparr>))))"

definition k_queue :: "oid \<Rightarrow> port_packet \<Rightarrow> kernel \<Rightarrow> (unit, kernel) res" where
  "k_queue p pk s =
     (case k_ports s p of
        None \<Rightarrow> Ok s
      | Some q \<Rightarrow> wake_port p (s\<lparr>k_ports := (k_ports s)(p \<mapsto> po_enqueue pk q)\<rparr>))"

definition forget_bindings :: "binding list \<Rightarrow> kernel \<Rightarrow> kernel" where
  "forget_bindings bs s = fold (\<lambda>b. k_remove_observer (bi_object b) (bi_key b)) bs s"

definition k_try_dequeue :: "oid \<Rightarrow> nat \<Rightarrow> kernel \<Rightarrow> port_packet list \<times> kernel" where
  "k_try_dequeue p n s =
     (case k_ports s p of
        None \<Rightarrow> ([], s)
      | Some q \<Rightarrow>
          (let (pks, dropped, q') = po_try_dequeue n q
           in (pks, forget_bindings dropped (s\<lparr>k_ports := (k_ports s)(p \<mapsto> q')\<rparr>))))"

definition port_wait_enter :: "oid \<Rightarrow> tref \<Rightarrow> kernel \<Rightarrow> kernel" where
  "port_wait_enter p t s =
     (case k_ports s p of
        None \<Rightarrow> s
      | Some q \<Rightarrow> s\<lparr>k_ports := (k_ports s)(p \<mapsto> q\<lparr>po_waiters := wq_enter t (po_waiters q)\<rparr>)\<rparr>)"

definition k_port_signal_set :: "oid \<Rightarrow> signals \<Rightarrow> kernel \<Rightarrow> (unit, kernel) res option" where
  "k_port_signal_set p x s =
     (case k_ports s p of
        None \<Rightarrow> Some (Ok s)
      | Some q \<Rightarrow> (let (cs, q') = po_signal_set x q in run_calls cs (s\<lparr>k_ports := (k_ports s)(p \<mapsto> q')\<rparr>)))"

section \<open>Delivery ends\<close>

lemma deliver_Nil [simp]: "deliver [] s = Some (Ok s)"
  by (subst deliver.simps) simp

lemma deliver_Call:
  "deliver (Call cb x # rest) s =
     (case k_ports s (cb_port cb) of
        None \<Rightarrow> deliver rest s
      | Some q \<Rightarrow> deliver (calls_of (fst (po_signal_arrives (cb_key cb) x q)) @ Wake (cb_port cb) # rest)
          (s\<lparr>k_ports := (k_ports s)(cb_port cb \<mapsto> snd (po_signal_arrives (cb_key cb) x q))\<rparr>))"
  by (subst deliver.simps) (simp add: case_prod_beta Let_def split: option.splits)

lemma deliver_Wake:
  "deliver (Wake p # rest) s =
     (case wake_port p s of Ok s' \<Rightarrow> deliver rest s' | Err e \<Rightarrow> Some (Err e) | Panic \<Rightarrow> Some Panic)"
  by (subst deliver.simps) (simp split: res.splits)

text \<open>What delivery and waking leave alone: everything of a port but its packets, signals and waiters.\<close>

definition port_static :: "port \<Rightarrow> observer list \<times> binding list" where
  "port_static q = (po_observers q, po_bindings q)"

definition same_ports :: "kernel \<Rightarrow> kernel \<Rightarrow> bool" where
  "same_ports s s' \<longleftrightarrow> (\<forall>p. map_option port_static (k_ports s' p) = map_option port_static (k_ports s p))"

lemma same_ports_refl [simp]: "same_ports s s"
  by (simp add: same_ports_def)

lemma same_ports_trans: "same_ports s s' \<Longrightarrow> same_ports s' s'' \<Longrightarrow> same_ports s s''"
  by (simp add: same_ports_def)

lemma same_portsD:
  "same_ports s s' \<Longrightarrow> k_ports s' p = Some q' \<Longrightarrow>
   \<exists>q. k_ports s p = Some q \<and> po_observers q' = po_observers q \<and> po_bindings q' = po_bindings q"
  unfolding same_ports_def port_static_def by (drule spec[of _ p]) (auto dest: sym)

lemma on_scheduler_ports: "on_scheduler a f s = Ok s' \<Longrightarrow> k_ports s' = k_ports s \<and> k_chans s' = k_chans s"
  by (auto simp: on_scheduler_def case_prod_beta Let_def)

lemma unblock_ports: "unblock_task t s = Ok s' \<Longrightarrow> k_ports s' = k_ports s \<and> k_chans s' = k_chans s"
  by (auto simp: unblock_task_def Let_def split: if_splits dest: on_scheduler_ports)

lemma wake_one_ports: "wq_wake_one q s = Ok (w, ws, s') \<Longrightarrow> k_ports s' = k_ports s \<and> k_chans s' = k_chans s"
  by (induction q s rule: wq_wake_one.induct) (auto split: if_splits dest: unblock_ports)

lemma wake_port_same: "wake_port p s = Ok s' \<Longrightarrow> same_ports s s'"
  by (auto simp: wake_port_def same_ports_def port_static_def split: option.splits dest!: wake_one_ports)

lemma signal_arrives_same:
  "k_ports s p = Some q \<Longrightarrow> same_ports s (s\<lparr>k_ports := (k_ports s)(p \<mapsto> snd (po_signal_arrives k x q))\<rparr>)"
  by (auto simp: same_ports_def port_static_def po_signal_arrives_def)

text \<open>Ports that watch ports form no cycle: a rank falls along every observer that \<open>READABLE\<close> triggers.\<close>

definition ranked :: "(oid \<Rightarrow> nat) \<Rightarrow> kernel \<Rightarrow> bool" where
  "ranked rank s \<longleftrightarrow> (\<forall>p q ob. k_ports s p = Some q \<longrightarrow> ob \<in> set (po_observers q) \<longrightarrow>
     contains (so_trigger ob) READABLE \<longrightarrow> rank (cb_port (so_callback ob)) < rank p)"

lemma ranked_same: "ranked rank s \<Longrightarrow> same_ports s s' \<Longrightarrow> ranked rank s'"
  unfolding ranked_def by (metis same_portsD)

fun work_rank :: "(oid \<Rightarrow> nat) \<Rightarrow> work \<Rightarrow> nat" where
  "work_rank rank (Call cb x) = Suc (rank (cb_port cb))"
| "work_rank rank (Wake p) = 0"

lemma mset_replace_less:
  fixes r :: nat
  assumes "\<forall>k \<in> set ks. k < r"
  shows "mset (ks @ ys) < mset (r # ys)"
proof -
  have "mset ys + mset ks < mset ys + {#r#}"
    unfolding less_multiset_def
    by (rule one_step_implies_multp) (use assms in auto)
  then show ?thesis by (simp add: add.commute)
qed

lemma deliver_returns: "ranked rank s \<Longrightarrow> \<exists>r. deliver ws s = Some r"
proof (induction "mset (map (work_rank rank) ws)" arbitrary: ws s rule: less_induct)
  case less
  show ?case
  proof (cases ws)
    case (Cons w rest)
    show ?thesis
    proof (cases w)
      case (Call cb x)
      show ?thesis
      proof (cases "k_ports s (cb_port cb)")
        case None
        have "mset (map (work_rank rank) rest) < mset (map (work_rank rank) ws)"
          using mset_replace_less[of "[]"] by (simp add: Cons)
        with less.hyps less.prems None Cons Call show ?thesis by (simp add: deliver_Call)
      next
        case (Some q)
        let ?ws = "calls_of (fst (po_signal_arrives (cb_key cb) x q)) @ Wake (cb_port cb) # rest"
        let ?s = "s\<lparr>k_ports := (k_ports s)(cb_port cb \<mapsto> snd (po_signal_arrives (cb_key cb) x q))\<rparr>"
        have "\<forall>k \<in> set (map (work_rank rank) (calls_of (fst (po_signal_arrives (cb_key cb) x q)) @ [Wake (cb_port cb)])).
            k < work_rank rank w"
          using less.prems Some Call by (auto simp: po_signal_arrives_def ranked_def)
        from mset_replace_less[OF this, of "map (work_rank rank) rest"]
        have "mset (map (work_rank rank) ?ws) < mset (map (work_rank rank) ws)" by (simp add: Cons)
        moreover have "ranked rank ?s"
          using less.prems signal_arrives_same[OF Some] by (rule ranked_same)
        ultimately show ?thesis
          using less.hyps[of ?ws ?s] Some Cons Call by (simp add: deliver_Call)
      qed
    next
      case (Wake p)
      have "mset (map (work_rank rank) rest) < mset (map (work_rank rank) ws)"
        using mset_replace_less[of "[]"] by (simp add: Cons)
      moreover have "ranked rank s'" if "wake_port p s = Ok s'" for s'
        using less.prems wake_port_same[OF that] by (rule ranked_same)
      ultimately show ?thesis
        using less.hyps[of rest] Cons Wake by (cases "wake_port p s") (auto simp: deliver_Wake)
    qed
  qed simp
qed

text \<open>C31: delivery of signals ends. If the ports that watch ports form no cycle, the callbacks of any operation run
  to completion (or to a panic of the scheduler), however many observers there are.\<close>

theorem delivery_terminates:
  assumes "ranked rank s"
  shows "\<exists>r. run_calls cs s = Some r"
  using deliver_returns[OF assms] by (simp add: run_calls_def)

definition empty_kernel :: kernel where
  "empty_kernel = \<lparr>tk_heap = \<lambda>_. None, tk_scheds = [], tk_archids = [], tk_cpu_count = 1, tk_next_tid = 1,
     tk_next_cpuid = 0, tk_all = [], tk_frames = sample_buddy, k_chans = \<lambda>_. None, k_ports = \<lambda>_. None, k_plain = \<lambda>_. None\<rparr>"

text \<open>Port 1 watches port 2: an observer of port 2 notifies port 1.\<close>

definition watch :: "oid \<Rightarrow> observer" where
  "watch p = \<lparr>so_key = 1, so_trigger = READABLE, so_callback = PortNotify p 1, so_once = False\<rparr>"

theorem delivery_terminates_witness:
  "\<exists>r. run_calls [(PortNotify 2 9, READABLE)]
     (empty_kernel\<lparr>k_ports := [1 \<mapsto> po_new, 2 \<mapsto> po_new\<lparr>po_observers := [watch 1]\<rparr>]\<rparr>) = Some r"
proof (rule delivery_terminates)
  show "ranked id (empty_kernel\<lparr>k_ports := [1 \<mapsto> po_new, 2 \<mapsto> po_new\<lparr>po_observers := [watch 1]\<rparr>]\<rparr>)"
    by (auto simp: ranked_def po_new_def watch_def split: if_splits)
qed

section \<open>A port that watches itself\<close>

text \<open>Every self-notification of a port that watches itself leaves one more self-notification to do.\<close>

definition watches_itself :: "oid \<Rightarrow> kernel \<Rightarrow> bool" where
  "watches_itself p s \<longleftrightarrow> (\<exists>q ob. k_ports s p = Some q \<and> ob \<in> set (po_observers q) \<and>
     contains (so_trigger ob) READABLE \<and> cb_port (so_callback ob) = p)"

definition calls_port :: "oid \<Rightarrow> work \<Rightarrow> bool" where
  "calls_port p w \<longleftrightarrow> (\<exists>cb x. w = Call cb x \<and> cb_port cb = p)"

lemma watches_itself_same: "watches_itself p s \<Longrightarrow> same_ports s s' \<Longrightarrow> watches_itself p s'"
  unfolding watches_itself_def same_ports_def port_static_def
  by (drule spec[of _ p]) (auto simp: map_option_case split: option.splits)

lemma self_call_again:
  assumes "watches_itself p s" and "k_ports s p = Some q"
  shows "\<exists>w \<in> set (calls_of (fst (po_signal_arrives k x q))). calls_port p w"
  using assms by (force simp: watches_itself_def po_signal_arrives_def calls_port_def)

lemma deliver_self_stuck:
  assumes "deliver ws s = Some r"
  shows "watches_itself p s \<longrightarrow> (\<exists>w \<in> set ws. calls_port p w) \<longrightarrow> \<not> is_ok r"
proof (rule deliver.raw_induct[where P = "\<lambda>ws s r. watches_itself p s \<longrightarrow> (\<exists>w \<in> set ws. calls_port p w) \<longrightarrow> \<not> is_ok r",
      OF _ assms])
  fix D :: "work list \<Rightarrow> kernel \<Rightarrow> (unit, kernel) res option" and ws s r
  assume IH: "\<And>ws s r. D ws s = Some r \<Longrightarrow>
      watches_itself p s \<longrightarrow> (\<exists>w \<in> set ws. calls_port p w) \<longrightarrow> \<not> is_ok r"
    and eq: "(case ws of
        [] \<Rightarrow> Some (Ok s)
      | Call cb x # rest \<Rightarrow>
          (case k_ports s (cb_port cb) of
             None \<Rightarrow> D rest s
           | Some q \<Rightarrow>
               (let (cs, q') = po_signal_arrives (cb_key cb) x q
                in D (calls_of cs @ Wake (cb_port cb) # rest)
                     (s\<lparr>k_ports := (k_ports s)(cb_port cb \<mapsto> q')\<rparr>)))
      | Wake p # rest \<Rightarrow>
          (case wake_port p s of
             Ok s' \<Rightarrow> D rest s'
           | Err e \<Rightarrow> Some (Err e)
           | Panic \<Rightarrow> Some Panic)) = Some r"
  show "watches_itself p s \<longrightarrow> (\<exists>w \<in> set ws. calls_port p w) \<longrightarrow> \<not> is_ok r"
  proof (intro impI)
    assume self: "watches_itself p s" and "\<exists>w \<in> set ws. calls_port p w"
    then obtain w v rest where w: "w \<in> set (v # rest)" "calls_port p w" and ws: "ws = v # rest" by (cases ws) auto
    show "\<not> is_ok r"
    proof (cases v)
      case (Wake q)
      then have "w \<in> set rest" using w by (auto simp: calls_port_def)
      with w(2) have "\<exists>w \<in> set rest. calls_port p w" by blast
      with Wake eq IH ws wake_port_same[of q s] watches_itself_same[OF self] show ?thesis
        by (cases "wake_port q s") auto
    next
      case (Call cb x)
      show ?thesis
      proof (cases "k_ports s (cb_port cb)")
        case None
        then have "cb_port cb \<noteq> p" using self by (auto simp: watches_itself_def)
        with w Call have "\<exists>w \<in> set rest. calls_port p w" by (auto simp: calls_port_def)
        with None Call ws eq IH[of rest s r] self show ?thesis by simp
      next
        case (Some q)
        let ?ws = "calls_of (fst (po_signal_arrives (cb_key cb) x q)) @ Wake (cb_port cb) # rest"
        let ?s = "s\<lparr>k_ports := (k_ports s)(cb_port cb \<mapsto> snd (po_signal_arrives (cb_key cb) x q))\<rparr>"
        have again: "watches_itself p ?s"
          using self signal_arrives_same[OF Some] by (rule watches_itself_same)
        have "\<exists>w \<in> set ?ws. calls_port p w"
        proof (cases "cb_port cb = p")
          case True
          then have "k_ports s p = Some q" using Some by simp
          from self_call_again[OF self this] show ?thesis by (metis Un_iff set_append)
        next
          case False
          with w Call have "w \<in> set rest" by (auto simp: calls_port_def)
          with w(2) show ?thesis by auto
        qed
        moreover have "D ?ws ?s = Some r"
          using eq ws Call Some by (simp add: case_prod_beta Let_def)
        ultimately show ?thesis using IH[of ?ws ?s r] again by blast
      qed
    qed
  qed
qed

text \<open>A port must not watch itself. If an observer of a port notifies that same port on \<open>READABLE\<close>, which
  \<open>sys_port_bind\<close> does not refuse, then no signal delivered to the port is ever dealt with: the callbacks
  recurse without end.\<close>

theorem self_watching_port_diverges:
  assumes "watches_itself p s"
  shows "\<nexists>s'. run_calls [(PortNotify p k, x)] s = Some (Ok s')"
  using deliver_self_stuck[of "[Call (PortNotify p k) x]" s _ p] assms
  by (auto simp: run_calls_def calls_port_def)

theorem self_watching_port_diverges_witness:
  "\<nexists>s'. run_calls [(PortNotify 1 5, READABLE)]
     (empty_kernel\<lparr>k_ports := [1 \<mapsto> po_new\<lparr>po_observers := [watch 1]\<rparr>]\<rparr>) = Some (Ok s')"
  by (rule self_watching_port_diverges) (simp add: watches_itself_def watch_def)

section \<open>From a channel to a port\<close>

text \<open>End to end. When a message arrives at an idle channel that a port watches, the message is queued at the
  channel, and the port gets exactly one new packet, with the binding's key and \<open>READABLE\<close>, behind the packets it
  had.\<close>

theorem send_reaches_port:
  assumes "pair_inv ids (k_chans s)" and "dx_open (ch_abs ids (k_chans s))"
    and "k_chans s (ids (other e)) = Some d" and "ch_messages d = []" and "ch_waiters d = []"
    and "ch_observers d = [\<lparr>so_key = key, so_trigger = READABLE, so_callback = PortNotify p key, so_once = False\<rparr>]"
    and "k_ports s p = Some q" and "po_observers q = []" and "po_waiters q = []"
  shows "\<exists>s' d' q'. k_send (ids e) m s = Some (Ok s') \<and> k_chans s' (ids (other e)) = Some d' \<and> ch_messages d' = [m] \<and>
    k_ports s' p = Some q' \<and> po_packets q' = po_packets q @ [pp_signal key READABLE]"
proof -
  from pair_invE[OF assms(1), of e] assms(2,3) obtain c where c: "k_chans s (ids e) = Some c" "ch_ok d"
    "ch_peer c = Some (ids (other e))" "\<not> ch_closed c" "\<not> ch_closed d"
    by (metis option.inject)
  let ?d = "d\<lparr>ch_messages := [m], ch_signals := ch_signals d OR READABLE, ch_observers :=
      [\<lparr>so_key = key, so_trigger = READABLE, so_callback = PortNotify p key, so_once = False\<rparr>]\<rparr>"
  have send: "ch_send (ids e) m (k_chans s) =
      Ok ([(PortNotify p key, READABLE)], ids (other e), (k_chans s)(ids (other e) \<mapsto> ?d))"
    using c assms(3,4,6) by (simp add: ch_ops ch_ok_def DEFAULT_CAPACITY_def Let_def)
  let ?q = "q\<lparr>po_packets := po_packets q @ [pp_signal key READABLE], po_signals := po_signals q OR READABLE\<rparr>"
  let ?s1 = "s\<lparr>k_chans := (k_chans s)(ids (other e) \<mapsto> ?d)\<rparr>"
  let ?s2 = "?s1\<lparr>k_ports := (k_ports s)(p \<mapsto> ?q)\<rparr>"
  let ?s3 = "?s1\<lparr>k_ports := (k_ports s)(p \<mapsto> ?q\<lparr>po_waiters := []\<rparr>)\<rparr>"
  have "wake_port p ?s2 = Ok ?s3" using assms(9) by (simp add: wake_port_def)
  then have "run_calls [(PortNotify p key, READABLE)] ?s1 = Some (Ok ?s3)"
    using assms(7,8) by (simp add: run_calls_def deliver_Call deliver_Wake po_signal_arrives_def)
  moreover have "wake_chan (ids (other e)) ?s3 =
      Ok (?s3\<lparr>k_chans := (k_chans ?s3)(ids (other e) \<mapsto> ?d\<lparr>ch_waiters := []\<rparr>)\<rparr>)"
    using assms(5) by (simp add: wake_chan_def)
  ultimately show ?thesis
    using send by (auto simp: k_send_def after_def lift_res_def)
qed

theorem send_reaches_port_witness:
  "\<exists>s' d' q'. k_send 1 (msg_new [7]) (empty_kernel\<lparr>
       k_chans := (ch_create_pair 1 2 (\<lambda>_. None))(2 \<mapsto> (ch_fresh 1)\<lparr>ch_observers :=
         [\<lparr>so_key = 9, so_trigger = READABLE, so_callback = PortNotify 3 9, so_once = False\<rparr>]\<rparr>),
       k_ports := [3 \<mapsto> po_new]\<rparr>) = Some (Ok s') \<and> k_chans s' 2 = Some d' \<and> ch_messages d' = [msg_new [7]] \<and>
    k_ports s' 3 = Some q' \<and> po_packets q' = [pp_signal 9 READABLE]"
proof -
  let ?d = "(ch_fresh 1)\<lparr>ch_observers :=
         [\<lparr>so_key = 9, so_trigger = READABLE, so_callback = PortNotify 3 9, so_once = False\<rparr>]\<rparr>"
  let ?H = "(ch_create_pair 1 2 (\<lambda>_. None))(2 \<mapsto> ?d)" and ?ids = "case_side 1 2 :: side \<Rightarrow> oid"
  let ?s = "empty_kernel\<lparr>k_chans := ?H, k_ports := [3 \<mapsto> po_new]\<rparr>"
  have inv: "pair_inv ?ids ?H"
    by (rule pair_invI[of _ SideA _ "ch_fresh 2" ?d])
      (auto simp: ch_create_pair_def ch_fresh_def ch_ok_def contains_def signal_defs)
  have "dx_open (ch_abs ?ids ?H)" by (simp add: ch_abs_def ch_create_pair_def ch_fresh_def)
  from send_reaches_port[where ids = ?ids and s = ?s and e = SideA and p = 3 and key = 9 and q = po_new and d = ?d
      and m = "msg_new [7]"] inv this
  show ?thesis by (simp add: ch_fresh_def po_new_def wq_new_def)
qed

section \<open>Taking packets\<close>

definition po_ok :: "port \<Rightarrow> bool" where
  "po_ok p \<longleftrightarrow> distinct (map bi_key (po_bindings p)) \<and> (contains (po_signals p) READABLE \<longleftrightarrow> po_packets p \<noteq> [])"

lemma find_SomeD: "find P xs = Some x \<Longrightarrow> P x \<and> x \<in> set xs"
  by (induction xs) (auto split: if_splits)

lemma drop_once_spec:
  assumes "distinct (map bi_key bs)" and "drop_once ks bs = (ds, bs')"
  shows "distinct (map bi_key bs') \<and> set bs' = {b \<in> set bs. \<not> (bi_options b = Once \<and> bi_key b \<in> set ks)}"
  using assms
proof (induction ks arbitrary: bs ds)
  case (Cons k ks)
  show ?case
  proof (cases "find (\<lambda>b. bi_key b = k \<and> bi_options b = Once) bs")
    case None
    with Cons show ?thesis by (fastforce simp: find_None_iff)
  next
    case (Some b)
    then have b: "bi_key b = k" "bi_options b = Once" "b \<in> set bs" by (auto dest: find_SomeD)
    obtain ds1 where rest: "drop_once ks (remove1 b bs) = (ds1, bs')"
      using Cons.prems(2) Some by (auto split: prod.splits)
    have d: "distinct (map bi_key (remove1 b bs))" "distinct bs"
      using Cons.prems(1) by (auto simp: distinct_map inj_on_def)
    have "bi_key c \<noteq> k" if "c \<in> set bs" "c \<noteq> b" for c
      using Cons.prems(1) that b by (auto simp: distinct_map inj_on_def)
    with Cons.IH[OF d(1) rest] b d(2) show ?thesis by auto
  qed
qed auto

text \<open>Packets leave a port in the order they came. \<open>try_dequeue\<close> returns the oldest packets, as many as the
  buffer holds, and keeps the others in order; \<open>READABLE\<close> stays up exactly while packets wait, binding keys stay
  unique, and exactly the one-shot bindings whose signal was taken are dropped.\<close>

theorem dequeue_fifo:
  assumes "po_ok p" and "po_try_dequeue n p = (pks, dropped, p')"
  shows "pks @ po_packets p' = po_packets p \<and> length pks = min n (length (po_packets p)) \<and> po_ok p' \<and>
    set (po_bindings p') = {b \<in> set (po_bindings p).
      \<not> (bi_options b = Once \<and> (\<exists>pk \<in> set pks. pp_type pk = PtSignal \<and> pp_key pk = bi_key b))}"
proof (cases "po_packets p = [] \<or> n = 0")
  case True
  with assms show ?thesis by (auto simp: po_try_dequeue_def)
next
  case False
  let ?c = "min n (length (po_packets p))"
  obtain ds bs where ds: "drop_once (map pp_key (filter (\<lambda>pk. pp_type pk = PtSignal) (take ?c (po_packets p)))) (po_bindings p) = (ds, bs)"
    by force
  have d: "distinct (map bi_key (po_bindings p))" using assms(1) by (simp add: po_ok_def)
  have pks: "pks = take ?c (po_packets p)" and p': "p' = p\<lparr>po_packets := drop ?c (po_packets p),
      po_signals := if drop ?c (po_packets p) = [] then flags_remove (po_signals p) READABLE else po_signals p,
      po_bindings := bs\<rparr>"
    using assms(2) False ds by (simp_all add: po_try_dequeue_def Let_def)
  have "po_ok p'"
    using assms(1) drop_once_spec[OF d ds] by (auto simp: po_ok_def p')
  moreover have "set bs = {b \<in> set (po_bindings p).
      \<not> (bi_options b = Once \<and> (\<exists>pk \<in> set pks. pp_type pk = PtSignal \<and> pp_key pk = bi_key b))}"
  proof -
    have "bi_key b \<in> set (map pp_key (filter (\<lambda>pk. pp_type pk = PtSignal) (take ?c (po_packets p)))) \<longleftrightarrow>
        (\<exists>pk \<in> set pks. pp_type pk = PtSignal \<and> pp_key pk = bi_key b)" for b
      unfolding pks by (auto simp: image_iff)
    with drop_once_spec[OF d ds] show ?thesis by blast
  qed
  ultimately show ?thesis by (simp add: p' pks)
qed

theorem dequeue_fifo_witness:
  "\<exists>dropped p'. po_try_dequeue 1 (po_new\<lparr>po_packets := [pp_signal 1 READABLE, pp_signal 2 READABLE], po_signals := READABLE\<rparr>)
     = ([pp_signal 1 READABLE], dropped, p') \<and> po_packets p' = [pp_signal 2 READABLE] \<and> po_ok p'"
proof -
  let ?p = "po_new\<lparr>po_packets := [pp_signal 1 READABLE, pp_signal 2 READABLE], po_signals := READABLE\<rparr>"
  have ok: "po_ok ?p" by (simp add: po_ok_def po_new_def)
  obtain dropped p' where "po_try_dequeue 1 ?p = ([pp_signal 1 READABLE], dropped, p')"
    by (simp add: po_try_dequeue_def case_prod_beta Let_def)
  with dequeue_fifo[OF ok this] show ?thesis by auto
qed

section \<open>A lost wake-up\<close>

definition receiver :: task where
  "receiver = sample_task\<lparr>t_tid := 7\<rparr>"

definition racy_kernel :: kernel where
  "racy_kernel = empty_kernel\<lparr>tk_heap := [5 \<mapsto> sample_task\<lparr>t_state := Ready\<rparr>, 7 \<mapsto> receiver],
     tk_scheds := [(0, \<lparr>sc_idle = Some 5, sc_current = Some 7, sc_ready = [5], sc_blocked = [], sc_stopped = []\<rparr>)],
     tk_archids := [(0, 0)], k_chans := ch_create_pair 1 2 (\<lambda>_. None)\<rparr>"

text \<open>\<open>recv\<close> can sleep through a message. A receiver finds its channel empty; a sender on another CPU then puts a message
  there and finds nobody to wake; the receiver goes on to enter the wait queue and to block. In the end the
  message waits, and the receiver is blocked, in no ready queue, with nobody left to wake it.\<close>

theorem recv_lost_wakeup:
  "\<exists>s1 s2 sc c. recv_poll 2 racy_kernel = (RecvWait, racy_kernel) \<and>
     k_send 1 (msg_new [42]) racy_kernel = Some (Ok s1) \<and>
     recv_check 2 s1 = RecvWait \<and>
     recv_sleep 0 7 (recv_enter 2 7 s1) = Ok s2 \<and>
     k_chans s2 2 = Some c \<and> ch_messages c = [msg_new [42]] \<and>
     state_of (tk_heap s2) 7 = Blocked \<and> bt_get (tk_scheds s2) 0 = Some sc \<and> 7 \<notin> set (sc_ready sc)"
proof -
  let ?c = "(ch_fresh 1)\<lparr>ch_messages := [msg_new [42]], ch_signals := WRITABLE OR READABLE, ch_observers := [], ch_waiters := []\<rparr>"
  let ?s1 = "racy_kernel\<lparr>k_chans := (k_chans racy_kernel)(2 \<mapsto> ?c)\<rparr>"
  have poll: "recv_poll 2 racy_kernel = (RecvWait, racy_kernel)"
    by (simp add: recv_poll_def k_try_recv_def ch_ops racy_kernel_def empty_kernel_def ch_create_pair_def ch_fresh_def)
  have send: "k_send 1 (msg_new [42]) racy_kernel = Some (Ok ?s1)"
    by (simp add: k_send_def ch_ops racy_kernel_def empty_kernel_def ch_create_pair_def ch_fresh_def
        DEFAULT_CAPACITY_def run_calls_def after_def lift_res_def wake_chan_def wq_new_def contains_def signal_defs Let_def)
  have check: "recv_check 2 ?s1 = RecvWait"
    by (simp add: recv_check_def ch_recv_gives_up_def ch_fresh_def)
  have "\<exists>s2 sc c. recv_sleep 0 7 (recv_enter 2 7 ?s1) = Ok s2 \<and>
     k_chans s2 2 = Some c \<and> ch_messages c = [msg_new [42]] \<and>
     state_of (tk_heap s2) 7 = Blocked \<and> bt_get (tk_scheds s2) 0 = Some sc \<and> 7 \<notin> set (sc_ready sc)"
    by (simp add: recv_sleep_def recv_enter_def wq_sleep_def block_task_def schedule_def racy_kernel_def empty_kernel_def
        receiver_def sample_task_def get_archid_by_cpuid_def get_scheduler_by_archid_def on_scheduler_def
        get_current_task_def sc_get_current_task_def sc_schedule_def cpu_of_def set_state_def upd_task_def
        state_of_def bt_get_def Let_def)
  with poll send check show ?thesis by blast
qed

end
