(* ===== verification/Bytes.thy ===== *)
theory Bytes
  imports Prelude
begin

text \<open>
  Integers in memory: little-endian encoding and decoding, and reading and writing byte ranges of an
  address space. Structures that cross a boundary (system call arguments, files, protocol messages) are read and
  written through these.
\<close>

section \<open>Little-endian integers\<close>

primrec le_bytes :: "nat \<Rightarrow> nat \<Rightarrow> u8 list" where
  "le_bytes 0 v = []"
| "le_bytes (Suc n) v = word_of_nat v # le_bytes n (v div 256)"

primrec le_value :: "u8 list \<Rightarrow> nat" where
  "le_value [] = 0"
| "le_value (b # bs) = unat b + 256 * le_value bs"

lemma length_le_bytes [simp]: "length (le_bytes n v) = n"
  by (induction n arbitrary: v) simp_all

lemma unat_word_of_nat_u8 [simp]: "unat (word_of_nat v :: u8) = v mod 256"
  by (simp add: unat_of_nat)

lemma unat_u8_less: "unat (b :: u8) < 256"
  using unsigned_less[of b, where ?'a = nat] by simp

lemma le_value_bytes: "le_value (le_bytes n v) = v mod 256 ^ n"
proof (induction n arbitrary: v)
  case (Suc n)
  have "v mod 256 ^ Suc n = v mod 256 + 256 * (v div 256 mod 256 ^ n)"
    by (simp add: mod_mult2_eq)
  with Suc show ?case by simp
qed simp

lemma le_roundtrip: "v < 256 ^ n \<Longrightarrow> le_value (le_bytes n v) = v"
  by (simp add: le_value_bytes)

lemma le_value_less: "le_value bs < 256 ^ length bs"
proof (induction bs)
  case (Cons b bs)
  have "unat b < 256" by (rule unat_u8_less)
  with Cons show ?case by simp
qed simp

lemma le_bytes_value: "le_bytes (length bs) (le_value bs) = bs"
proof (induction bs)
  case (Cons b bs)
  have b: "unat b < 256" by (rule unat_u8_less)
  have "(256 :: u8) = 0" by simp
  then have "word_of_nat (unat b + 256 * le_value bs) = b"
    by (simp only: of_nat_add of_nat_mult of_nat_numeral mult_zero_left add_0_right of_nat_unat ucast_id)
  with b Cons show ?case by simp
qed simp

text \<open>The field of \<open>n\<close> bytes at an offset of a structure.\<close>

definition field :: "u8 list \<Rightarrow> nat \<Rightarrow> nat \<Rightarrow> 'a::len word" where
  "field bs off n = word_of_nat (le_value (take n (drop off bs)))"

lemma field_le_bytes:
  fixes w :: "'a::len word"
  assumes "LENGTH('a) = 8 * n"
  shows "word_of_nat (le_value (le_bytes n (unat w))) = w"
proof -
  have "(256 :: nat) ^ n = 2 ^ LENGTH('a)" by (simp add: assms power_mult)
  then have "unat w mod 256 ^ n = unat w" using unsigned_less[of w, where ?'a = nat] by simp
  then show ?thesis by (simp add: le_value_bytes)
qed

lemmas field_word = field_le_bytes[where 'a = 16 and n = 2, simplified]
  field_le_bytes[where 'a = 32 and n = 4, simplified] field_le_bytes[where 'a = 64 and n = 8, simplified]

section \<open>Byte ranges\<close>

definition mem_read :: "(nat \<Rightarrow> u8) \<Rightarrow> nat \<Rightarrow> nat \<Rightarrow> u8 list" where
  "mem_read m a n = map (\<lambda>i. m (a + i)) [0..<n]"

definition mem_write :: "nat \<Rightarrow> u8 list \<Rightarrow> (nat \<Rightarrow> u8) \<Rightarrow> nat \<Rightarrow> u8" where
  "mem_write a bs m x = (if a \<le> x \<and> x < a + length bs then bs ! (x - a) else m x)"

definition mem_u32 :: "(nat \<Rightarrow> u8) \<Rightarrow> nat \<Rightarrow> nat" where
  "mem_u32 m a = le_value (mem_read m a 4)"

definition mem_u64 :: "(nat \<Rightarrow> u8) \<Rightarrow> nat \<Rightarrow> nat" where
  "mem_u64 m a = le_value (mem_read m a 8)"

lemma length_mem_read [simp]: "length (mem_read m a n) = n"
  by (simp add: mem_read_def)

lemma mem_read_nth [simp]: "i < n \<Longrightarrow> mem_read m a n ! i = m (a + i)"
  by (simp add: mem_read_def)

lemma mem_read_write_same: "mem_read (mem_write a bs m) a (length bs) = bs"
  by (rule nth_equalityI) (simp_all add: mem_write_def)

lemma mem_read_write_other:
  "a + n \<le> b \<or> b + length bs \<le> a \<Longrightarrow> mem_read (mem_write b bs m) a n = mem_read m a n"
  by (rule nth_equalityI) (auto simp: mem_write_def)

lemma mem_read_append: "mem_read m a (n + k) = mem_read m a n @ mem_read m (a + n) k"
  by (rule nth_equalityI) (auto simp: nth_append)

lemma mem_write_append: "mem_write a (bs @ cs) m = mem_write (a + length bs) cs (mem_write a bs m)"
  by (rule ext) (auto simp: mem_write_def nth_append)

lemma mem_read_array:
  "i < length xs \<Longrightarrow> mem_read (mem_write a (concat (map (le_bytes n) xs)) m) (a + n * i) n = le_bytes n (xs ! i)"
proof (induction xs arbitrary: a i m)
  case (Cons x xs)
  let ?m = "mem_write a (le_bytes n x) m"
  show ?case
  proof (cases i)
    case 0
    have "mem_read (mem_write (a + n) (concat (map (le_bytes n) xs)) ?m) a n = mem_read ?m a n"
      by (rule mem_read_write_other) simp
    with 0 show ?thesis using mem_read_write_same[of a "le_bytes n x" m] by (simp add: mem_write_append)
  next
    case (Suc j)
    then have e: "a + n * i = a + n + n * j" by simp
    show ?thesis using Cons.prems Cons.IH[of j "a + n" ?m] unfolding e by (simp add: mem_write_append Suc)
  qed
qed simp

lemma length_concat_le [simp]: "length (concat (map (le_bytes n) xs)) = n * length xs"
  by (induction xs) simp_all

lemma le_bytes_numeral: "le_bytes (numeral k) v = word_of_nat v # le_bytes (pred_numeral k) (v div 256)"
  by (simp only: numeral_eq_Suc le_bytes.simps)

lemma mem_read_part: "mem_read m a n = bs \<Longrightarrow> i + k \<le> n \<Longrightarrow> mem_read m (a + i) k = take k (drop i bs)"
  by (rule nth_equalityI) (auto simp: add.assoc)

text \<open>Byte ranges that do not overlap.\<close>

definition apart :: "nat \<Rightarrow> nat \<Rightarrow> nat \<Rightarrow> nat \<Rightarrow> bool" where
  "apart a n b k \<longleftrightarrow> a + n \<le> b \<or> b + k \<le> a"

section \<open>Strings\<close>

text \<open>A string is its UTF-8 bytes, which \<open>utf8_valid\<close> recognises as the standard library does.\<close>

definition utf8_cont :: "u8 \<Rightarrow> bool" where
  "utf8_cont b \<longleftrightarrow> 0x80 \<le> b \<and> b \<le> 0xBF"

definition utf8_between :: "u8 \<Rightarrow> u8 \<Rightarrow> u8 \<Rightarrow> bool" where
  "utf8_between lo hi b \<longleftrightarrow> lo \<le> b \<and> b \<le> hi"

text \<open>The range of the second byte, and how many bytes follow it, for a first byte that starts a sequence.\<close>

definition utf8_lead :: "u8 \<Rightarrow> (u8 \<times> u8 \<times> nat) option" where
  "utf8_lead b =
     (if utf8_between 0xC2 0xDF b then Some (0x80, 0xBF, 0)
      else if b = 0xE0 then Some (0xA0, 0xBF, 1)
      else if utf8_between 0xE1 0xEC b \<or> utf8_between 0xEE 0xEF b then Some (0x80, 0xBF, 1)
      else if b = 0xED then Some (0x80, 0x9F, 1)
      else if b = 0xF0 then Some (0x90, 0xBF, 2)
      else if utf8_between 0xF1 0xF3 b then Some (0x80, 0xBF, 2)
      else if b = 0xF4 then Some (0x80, 0x8F, 2)
      else None)"

function utf8_valid :: "u8 list \<Rightarrow> bool" where
  "utf8_valid [] \<longleftrightarrow> True"
| "utf8_valid (b # bs) \<longleftrightarrow>
     (if b < 0x80 then utf8_valid bs
      else case utf8_lead b of
             None \<Rightarrow> False
           | Some (lo, hi, n) \<Rightarrow>
               (case bs of
                  [] \<Rightarrow> False
                | c # cs \<Rightarrow> utf8_between lo hi c \<and> n \<le> length cs \<and> list_all utf8_cont (take n cs) \<and> utf8_valid (drop n cs)))"
  by pat_completeness auto
termination by (relation "measure length") auto

definition from_utf8 :: "u8 list \<Rightarrow> u8 list option" where
  "from_utf8 bs = (if utf8_valid bs then Some bs else None)"

end
