(* ===== verification/Ipc_Syscalls.thy ===== *)
theory Ipc_Syscalls
  imports Ipc Errors Bytes
begin

text \<open>
  The system calls on handles, ports and channels: \<open>kernel/src/syscall/object.rs\<close>. A process is its pid, its
  handle table and its user memory. The strong counts of the \<open>Arc\<close> references to kernel objects are part of the
  state, since dropping the last reference closes a channel and releases what its messages and bindings hold.
  User pointers are dereferenced as the code does, without validation. A result of \<open>None\<close>
  stands for a call that does not return because delivery of a signal never ends.
\<close>

section \<open>State\<close>

record sys =
  sy_k :: kernel
  sy_tables :: "nat \<Rightarrow> handle_table option"
  sy_umem :: "nat option \<Rightarrow> nat \<Rightarrow> u8"
  sy_refs :: "oid \<Rightarrow> nat"
  sy_next :: oid

type_synonym outcome = "((error, nat) res \<times> sys) option"

abbreviation fail :: "i32 \<Rightarrow> sys \<Rightarrow> outcome" where
  "fail e s \<equiv> Some (Err (Error e), s)"

text \<open>\<open>current_process()\<close>, for a task of process \<open>me\<close>, and its handle table.\<close>

definition current_table :: "nat option \<Rightarrow> sys \<Rightarrow> (nat \<times> handle_table) option" where
  "current_table me s = (case me of None \<Rightarrow> None | Some pid \<Rightarrow> map_option (\<lambda>t. (pid, t)) (sy_tables s pid))"

definition set_table :: "nat \<Rightarrow> handle_table \<Rightarrow> sys \<Rightarrow> sys" where
  "set_table pid t s = s\<lparr>sy_tables := (sy_tables s)(pid \<mapsto> t)\<rparr>"

section \<open>Reference counts\<close>

definition arc_clone :: "oid \<Rightarrow> sys \<Rightarrow> sys" where
  "arc_clone x s = s\<lparr>sy_refs := (sy_refs s)(x := Suc (sy_refs s x))\<rparr>"

text \<open>
  Dropping references. When the last one goes, the object leaves the heap: a channel is closed first
  (its \<open>Drop\<close>), then the objects in its queued messages are dropped; of a port, the objects of its bindings.
\<close>

partial_function (option) drop_arcs :: "oid list \<Rightarrow> sys \<Rightarrow> (unit, sys) res option" where
  "drop_arcs xs s =
     (case xs of
        [] \<Rightarrow> Some (Ok s)
      | x # xs \<Rightarrow>
          if sy_refs s x > 1 then drop_arcs xs (s\<lparr>sy_refs := (sy_refs s)(x := sy_refs s x - 1)\<rparr>)
          else let s1 = s\<lparr>sy_refs := (sy_refs s)(x := 0)\<rparr>
               in case k_chans (sy_k s) x of
                    Some c \<Rightarrow>
                      (case k_close x (sy_k s) of
                         None \<Rightarrow> None
                       | Some (Ok k) \<Rightarrow>
                           drop_arcs (map fst (concat (map msg_objects (ch_messages c))) @ xs)
                             (s1\<lparr>sy_k := k\<lparr>k_chans := (k_chans k)(x := None)\<rparr>\<rparr>)
                       | Some _ \<Rightarrow> Some Panic)
                  | None \<Rightarrow>
                      (case k_ports (sy_k s) x of
                         Some p \<Rightarrow>
                           drop_arcs (map bi_object (po_bindings p) @ xs)
                             (s1\<lparr>sy_k := (sy_k s)\<lparr>k_ports := (k_ports (sy_k s))(x := None)\<rparr>\<rparr>)
                       | None \<Rightarrow>
                           drop_arcs xs (s1\<lparr>sy_k := (sy_k s)\<lparr>k_plain := (k_plain (sy_k s))(x := None)\<rparr>\<rparr>)))"

text \<open>Return \<open>r\<close> after the references \<open>xs\<close> have gone out of scope.\<close>

definition dropping :: "oid list \<Rightarrow> (error, nat) res \<times> sys \<Rightarrow> outcome" where
  "dropping xs q =
     (case drop_arcs xs (snd q) of
        None \<Rightarrow> None
      | Some (Ok s) \<Rightarrow> Some (fst q, s)
      | Some _ \<Rightarrow> Some (Panic, snd q))"

text \<open>A reference obtained from the handle table is held for the rest of the call.\<close>

definition holding :: "oid \<Rightarrow> sys \<Rightarrow> (sys \<Rightarrow> outcome) \<Rightarrow> outcome" where
  "holding x s f = Option.bind (f (arc_clone x s)) (dropping [x])"

section \<open>Handles\<close>

definition sys_handle_close :: "nat option \<Rightarrow> nat \<Rightarrow> sys \<Rightarrow> outcome" where
  "sys_handle_close me h s =
     (case current_table me s of
        None \<Rightarrow> fail EINVAL s
      | Some (pid, t) \<Rightarrow>
          (case ht_remove (handle_from h) t of
             (None, _) \<Rightarrow> fail EBADF s
           | (Some e, t') \<Rightarrow> dropping [he_object e] (Ok 0, set_table pid t' s)))"

definition sys_handle_duplicate :: "nat option \<Rightarrow> nat \<Rightarrow> nat \<Rightarrow> sys \<Rightarrow> outcome" where
  "sys_handle_duplicate me h r s =
     (case current_table me s of
        None \<Rightarrow> fail EINVAL s
      | Some (pid, t) \<Rightarrow>
          (case ht_duplicate (handle_from h) (rights_from_bits_truncate (word_of_nat r)) t of
             Ok (None, _) \<Rightarrow> fail EBADF s
           | Ok (Some n, t') \<Rightarrow>
               (case ht_get_unchecked t (handle_from h) of
                  None \<Rightarrow> Some (Panic, s)
                | Some x \<Rightarrow> Some (Ok n, arc_clone x (set_table pid t' s)))
           | Err e \<Rightarrow> Some (Err e, s)
           | Panic \<Rightarrow> Some (Panic, s)))"

section \<open>Ports\<close>

text \<open>\<open>Arc::new\<close>: a fresh identifier with one reference, which the table entry takes.\<close>

definition insert_object :: "nat \<Rightarrow> oid \<Rightarrow> rights \<Rightarrow> sys \<Rightarrow> (error, nat) res \<times> sys" where
  "insert_object pid x r s =
     (case sy_tables s pid of
        None \<Rightarrow> (Panic, s)
      | Some t \<Rightarrow>
          (case ht_insert x r t of
             Ok (h, t') \<Rightarrow> (Ok h, set_table pid t' s)
           | Err e \<Rightarrow> (Err e, s)
           | Panic \<Rightarrow> (Panic, s)))"

definition new_port :: "sys \<Rightarrow> oid \<times> sys" where
  "new_port s =
     (let x = sy_next s; k = sy_k s
      in (x, s\<lparr>sy_k := k\<lparr>k_ports := (k_ports k)(x \<mapsto> po_new)\<rparr>, sy_refs := (sy_refs s)(x := 1), sy_next := Suc x\<rparr>))"

definition sys_port_create :: "nat option \<Rightarrow> sys \<Rightarrow> outcome" where
  "sys_port_create me s =
     (let (x, s1) = new_port s
      in case current_table me s of
           None \<Rightarrow> dropping [x] (Err (Error EINVAL), s1)
         | Some (pid, t) \<Rightarrow> Some (insert_object pid x (R_BASIC OR R_DUPLICATE) s1))"

text \<open>The layout of \<open>PortPacket\<close> (\<open>repr(C)\<close>, 56 bytes, with padding before the data).\<close>

definition packet_type_value :: "packet_type \<Rightarrow> nat" where
  "packet_type_value ty = (case ty of PtSignal \<Rightarrow> 0 | PtUser \<Rightarrow> 1 | PtTimer \<Rightarrow> 2)"

definition store_packet :: "nat \<Rightarrow> port_packet \<Rightarrow> (nat \<Rightarrow> u8) \<Rightarrow> nat \<Rightarrow> u8" where
  "store_packet a pk m =
     mem_write (a + 24) (concat (map (\<lambda>d. le_bytes 8 (unat d)) (pp_data pk)))
       (mem_write a (le_bytes 8 (pp_key pk) @ le_bytes 4 (unat (pp_signals pk)) @
          le_bytes 4 (packet_type_value (pp_type pk)) @ le_bytes 4 (unat (pp_reserved pk))) m)"

fun store_packets :: "nat \<Rightarrow> port_packet list \<Rightarrow> (nat \<Rightarrow> u8) \<Rightarrow> nat \<Rightarrow> u8" where
  "store_packets a [] m = m"
| "store_packets a (pk # pks) m = store_packets (a + 56) pks (store_packet a pk m)"

text \<open>
  The calls read and write user memory through raw pointers: none of them tests that a pointer lies in the lower half of the
  address space, that it is mapped, or that its mapping is writable. The model gives each process a memory of its own, so it
  covers pointers into memory that no other process shares and that the kernel does not use. A buffer in a memory object
  that another process has mapped too, and a pointer to the kernel's own half, are outside the model: the code
  would write to the other process, or to the kernel.
\<close>

definition write_user :: "nat option \<Rightarrow> ((nat \<Rightarrow> u8) \<Rightarrow> nat \<Rightarrow> u8) \<Rightarrow> sys \<Rightarrow> sys" where
  "write_user me f s = s\<lparr>sy_umem := (sy_umem s)(me := f (sy_umem s me))\<rparr>"

text \<open>
  \<open>sys_port_wait\<close>: one turn of the loop in \<open>Port::wait\<close>, that began at time \<open>start\<close> and reads the clock as \<open>now\<close>.
  The turn ends the call, or the task goes to sleep.
\<close>

datatype turn = Done outcome | Sleep sys

definition port_turn :: "nat option \<Rightarrow> oid \<Rightarrow> nat \<Rightarrow> nat \<Rightarrow> nat option \<Rightarrow> nat \<Rightarrow> nat \<Rightarrow> sys \<Rightarrow> turn" where
  "port_turn me p a n timeout start now s =
     (case k_ports (sy_k s) p of
        None \<Rightarrow> Done (Some (Panic, s))
      | Some q \<Rightarrow>
          (case po_wait_turn n timeout start now q of
             Ok (w, dropped, q') \<Rightarrow>
               (let s1 = s\<lparr>sy_k := forget_bindings dropped ((sy_k s)\<lparr>k_ports := (k_ports (sy_k s))(p \<mapsto> q')\<rparr>)\<rparr>
                in case w of
                     WaitDone pks \<Rightarrow>
                       Done (dropping (map bi_object dropped) (Ok (length pks), write_user me (store_packets a pks) s1))
                   | WaitTimeout \<Rightarrow> Done (fail EWOULDBLOCK s1)
                   | WaitSleep \<Rightarrow> Sleep s1)
           | _ \<Rightarrow> Done (Some (Panic, s))))"

definition sys_port_wait_check :: "nat option \<Rightarrow> nat \<Rightarrow> nat \<Rightarrow> nat \<Rightarrow> sys \<Rightarrow> (error, oid) res" where
  "sys_port_wait_check me ph packets_ptr max_count s =
     (if packets_ptr = 0 \<or> max_count = 0 then Err (Error EINVAL)
      else case current_table me s of
             None \<Rightarrow> Err (Error EINVAL)
           | Some (pid, t) \<Rightarrow>
               (case ht_get t (handle_from ph) R_WAIT of
                  None \<Rightarrow> Err (Error EBADF)
                | Some p \<Rightarrow> if k_ports (sy_k s) p = None then Err (Error EINVAL) else Ok p))"

definition port_timeout :: "nat \<Rightarrow> nat option" where
  "port_timeout timeout_ns = (if timeout_ns = usize_limit - 1 then None else Some timeout_ns)"

definition port_resume :: "nat option \<Rightarrow> oid \<Rightarrow> nat \<Rightarrow> nat \<Rightarrow> nat option \<Rightarrow> nat \<Rightarrow> nat \<Rightarrow> sys \<Rightarrow> turn" where
  "port_resume me p a n timeout start now s =
     (case port_turn me p a n timeout start now s of
        Done q \<Rightarrow> Done (Option.bind q (dropping [p]))
      | Sleep s1 \<Rightarrow> Sleep s1)"

text \<open>The call up to the end of its first turn; \<open>port_resume\<close> takes the later ones.\<close>

definition sys_port_wait :: "nat option \<Rightarrow> nat \<Rightarrow> nat \<Rightarrow> nat \<Rightarrow> nat \<Rightarrow> nat \<Rightarrow> nat \<Rightarrow> sys \<Rightarrow> turn" where
  "sys_port_wait me ph packets_ptr max_count timeout_ns start now s =
     (case sys_port_wait_check me ph packets_ptr max_count s of
        Err e \<Rightarrow> Done (Some (Err e, s))
      | Panic \<Rightarrow> Done (Some (Panic, s))
      | Ok p \<Rightarrow>
          port_resume me p packets_ptr max_count (port_timeout timeout_ns) start now (arc_clone p s))"

definition sys_port_bind :: "nat option \<Rightarrow> nat \<Rightarrow> nat \<Rightarrow> nat \<Rightarrow> nat \<Rightarrow> nat \<Rightarrow> sys \<Rightarrow> outcome" where
  "sys_port_bind me ph key oh sigs opts s =
     (case current_table me s of
        None \<Rightarrow> fail EINVAL s
      | Some (pid, t) \<Rightarrow>
          (case ht_get t (handle_from ph) R_WRITE of
             None \<Rightarrow> fail EBADF s
           | Some p \<Rightarrow> holding p s (\<lambda>s1.
               case ht_get t (handle_from oh) R_WAIT of
                 None \<Rightarrow> fail EBADF s1
               | Some x \<Rightarrow> (let s2 = arc_clone x s1 in
                   if k_ports (sy_k s) p = None then dropping [x] (Err (Error EINVAL), s2)
                   else case k_bind p key x (signals_from_bits_truncate (word_of_nat sigs))
                               (bind_options_from (word_of_nat opts)) (sy_k s2) of
                          None \<Rightarrow> None
                        | Some (Ok k) \<Rightarrow> Some (Ok 0, s2\<lparr>sy_k := k\<rparr>)
                        | Some (Err AlreadyBound) \<Rightarrow> dropping [x] (Err (Error EEXIST), s2)
                        | Some (Err _) \<Rightarrow> dropping [x] (Err (Error EINVAL), s2)
                        | Some Panic \<Rightarrow> Some (Panic, s2)))))"

definition sys_port_unbind :: "nat option \<Rightarrow> nat \<Rightarrow> nat \<Rightarrow> sys \<Rightarrow> outcome" where
  "sys_port_unbind me ph key s =
     (case current_table me s of
        None \<Rightarrow> fail EINVAL s
      | Some (pid, t) \<Rightarrow>
          (case ht_get t (handle_from ph) R_WRITE of
             None \<Rightarrow> fail EBADF s
           | Some p \<Rightarrow> holding p s (\<lambda>s1.
               case k_ports (sy_k s1) p of
                 None \<Rightarrow> fail EINVAL s1
               | Some q \<Rightarrow>
                   (case k_unbind p key (sy_k s1) of
                      Ok k \<Rightarrow> dropping (case find (\<lambda>b. bi_key b = key) (po_bindings q) of None \<Rightarrow> [] | Some b \<Rightarrow> [bi_object b])
                                (Ok 0, s1\<lparr>sy_k := k\<rparr>)
                    | Err _ \<Rightarrow> fail EINVAL s1
                    | Panic \<Rightarrow> Some (Panic, s1)))))"

definition sys_port_queue :: "nat option \<Rightarrow> nat \<Rightarrow> nat \<Rightarrow> nat \<Rightarrow> sys \<Rightarrow> outcome" where
  "sys_port_queue me ph key data_ptr s =
     (case current_table me s of
        None \<Rightarrow> fail EINVAL s
      | Some (pid, t) \<Rightarrow>
          (case ht_get t (handle_from ph) R_WRITE of
             None \<Rightarrow> fail EBADF s
           | Some p \<Rightarrow> holding p s (\<lambda>s1.
               if k_ports (sy_k s1) p = None then fail EINVAL s1
               else let d = (if data_ptr \<noteq> 0 then map (\<lambda>i. word_of_nat (mem_u64 (sy_umem s1 me) (data_ptr + 8 * i))) [0..<4]
                             else [0, 0, 0, 0])
                    in case k_queue p (pp_user key d) (sy_k s1) of
                         Ok k \<Rightarrow> Some (Ok 0, s1\<lparr>sy_k := k\<rparr>)
                       | _ \<Rightarrow> Some (Panic, s1))))"

section \<open>Channels\<close>

definition new_channels :: "sys \<Rightarrow> oid \<times> oid \<times> sys" where
  "new_channels s =
     (let a = sy_next s; b = Suc a; k = sy_k s
      in (a, b, s\<lparr>sy_k := k\<lparr>k_chans := ch_create_pair a b (k_chans k)\<rparr>,
                  sy_refs := (sy_refs s)(a := 1, b := 1), sy_next := Suc b\<rparr>))"

definition sys_channel_create :: "nat option \<Rightarrow> nat \<Rightarrow> sys \<Rightarrow> outcome" where
  "sys_channel_create me handles_out s =
     (if handles_out = 0 then fail EINVAL s
      else let (a, b, s1) = new_channels s; r = R_BASIC OR R_DUPLICATE OR R_TRANSFER
           in case current_table me s of
                None \<Rightarrow> dropping [b, a] (Err (Error EINVAL), s1)
              | Some (pid, t) \<Rightarrow>
                  (case insert_object pid a r s1 of
                     (Ok h0, s2) \<Rightarrow>
                       (case insert_object pid b r s2 of
                          (Ok h1, s3) \<Rightarrow> Some (Ok 0, write_user me (mem_write handles_out (le_bytes 4 h0 @ le_bytes 4 h1)) s3)
                        | (Err e, s3) \<Rightarrow> Some (Err e, s3)
                        | (Panic, s3) \<Rightarrow> Some (Panic, s3))
                   | (Err e, s2) \<Rightarrow> Some (Err e, s2)
                   | (Panic, s2) \<Rightarrow> Some (Panic, s2)))"

definition read_handles :: "(nat \<Rightarrow> u8) \<Rightarrow> nat \<Rightarrow> nat \<Rightarrow> nat list" where
  "read_handles m a n = (if a \<noteq> 0 \<and> n > 0 then map (\<lambda>i. mem_u32 m (a + 4 * i)) [0..<n] else [])"

definition read_data :: "(nat \<Rightarrow> u8) \<Rightarrow> nat \<Rightarrow> nat \<Rightarrow> u8 list" where
  "read_data m a n = (if a \<noteq> 0 \<and> n > 0 then mem_read m a n else [])"

definition send_errno :: "channel_error \<Rightarrow> i32" where
  "send_errno e = (case e of PeerClosed \<Rightarrow> EPIPE | Full \<Rightarrow> EAGAIN | _ \<Rightarrow> EINVAL)"

definition recv_errno :: "channel_error \<Rightarrow> i32" where
  "recv_errno e = (case e of PeerClosed \<Rightarrow> EPIPE | Empty \<Rightarrow> EAGAIN | _ \<Rightarrow> EINVAL)"

definition take_handles :: "nat list \<Rightarrow> handle_table \<Rightarrow> (oid \<times> rights) list option \<times> handle_table" where
  "take_handles hs t = (if hs \<noteq> [] then ht_transfer_many hs t else (Some [], t))"

definition sys_channel_send :: "nat option \<Rightarrow> nat \<Rightarrow> nat \<Rightarrow> nat \<Rightarrow> nat \<Rightarrow> nat \<Rightarrow> sys \<Rightarrow> outcome" where
  "sys_channel_send me ch data_ptr data_len handles_ptr handles_count s =
     (let hs = read_handles (sy_umem s me) handles_ptr handles_count
      in case current_table me s of
           None \<Rightarrow> fail EINVAL s
         | Some (pid, t) \<Rightarrow>
             (case ht_get t (handle_from ch) R_WRITE of
                None \<Rightarrow> fail EBADF s
              | Some c \<Rightarrow> holding c s (\<lambda>s1.
                  if k_chans (sy_k s1) c = None then fail EINVAL s1
                  else case take_handles hs t of
                         (None, _) \<Rightarrow> fail EPERM s1
                       | (Some obs, t') \<Rightarrow>
                           (let s2 = set_table pid t' s1;
                                d = read_data (sy_umem s2 me) data_ptr data_len
                            in case k_send c (msg_with_objects d obs) (sy_k s2) of
                                 None \<Rightarrow> None
                               | Some (Ok k) \<Rightarrow> Some (Ok 0, s2\<lparr>sy_k := k\<rparr>)
                               | Some (Err e) \<Rightarrow> dropping (map fst obs) (Err (Error (send_errno e)), s2)
                               | Some Panic \<Rightarrow> Some (Panic, s2)))))"

text \<open>What happens to a received message: the data that fits is copied out, the objects get handles if there is room
  for at least one of them and are dropped otherwise, and the true lengths are reported.\<close>

definition recv_finish :: "nat option \<Rightarrow> nat \<Rightarrow> nat \<Rightarrow> nat \<Rightarrow> nat \<Rightarrow> nat \<Rightarrow> message \<Rightarrow> sys \<Rightarrow> outcome" where
  "recv_finish me data_ptr data_len handles_ptr handles_count actual_out m s =
     (let n = min data_len (length (msg_data m));
          s1 = (if data_ptr \<noteq> 0 \<and> n > 0 then write_user me (mem_write data_ptr (take n (msg_data m))) s else s);
          report = (\<lambda>k s. if actual_out \<noteq> 0
                     then write_user me (mem_write actual_out (le_bytes 8 (length (msg_data m)) @ le_bytes 8 k)) s else s)
      in if msg_objects m \<noteq> [] \<and> handles_ptr \<noteq> 0 \<and> handles_count > 0 then
           (case current_table me s1 of
              None \<Rightarrow> dropping (map fst (msg_objects m)) (Err (Error EINVAL), s1)
            | Some (pid, t) \<Rightarrow>
                (case ht_receive_many (msg_objects m) t of
                   Ok (hs, t') \<Rightarrow>
                     (let s2 = write_user me (mem_write handles_ptr (concat (map (le_bytes 4) (take handles_count hs)))) (set_table pid t' s1)
                      in Some (Ok 0, report (length hs) s2))
                 | Err e \<Rightarrow> Some (Err e, s1)
                 | Panic \<Rightarrow> Some (Panic, s1)))
         else dropping (map fst (msg_objects m)) (Ok 0, report 0 s1))"

definition recv_channel :: "nat option \<Rightarrow> nat \<Rightarrow> sys \<Rightarrow> (error, oid) res" where
  "recv_channel me ch s =
     (case current_table me s of
        None \<Rightarrow> Err (Error EINVAL)
      | Some (pid, t) \<Rightarrow>
          (case ht_get t (handle_from ch) R_READ of
             None \<Rightarrow> Err (Error EBADF)
           | Some c \<Rightarrow> if k_chans (sy_k s) c = None then Err (Error EINVAL) else Ok c))"

definition sys_channel_try_recv :: "nat option \<Rightarrow> nat \<Rightarrow> nat \<Rightarrow> nat \<Rightarrow> nat \<Rightarrow> nat \<Rightarrow> nat \<Rightarrow> sys \<Rightarrow> outcome" where
  "sys_channel_try_recv me ch data_ptr data_len handles_ptr handles_count actual_out s =
     (case recv_channel me ch s of
        Err e \<Rightarrow> Some (Err e, s)
      | Panic \<Rightarrow> Some (Panic, s)
      | Ok c \<Rightarrow> holding c s (\<lambda>s1.
          case k_try_recv c (sy_k s1) of
            Ok (m, k) \<Rightarrow> recv_finish me data_ptr data_len handles_ptr handles_count actual_out m (s1\<lparr>sy_k := k\<rparr>)
          | Err e \<Rightarrow> fail (recv_errno e) s1
          | Panic \<Rightarrow> Some (Panic, s1)))"

text \<open>\<open>sys_channel_recv\<close>: one turn of the loop in \<open>Channel::recv\<close>; the call ends, or the task enters the wait queue
  and takes another turn when it is woken.\<close>

definition recv_turn ::
  "nat option \<Rightarrow> oid \<Rightarrow> nat \<Rightarrow> nat \<Rightarrow> nat \<Rightarrow> nat \<Rightarrow> nat \<Rightarrow> sys \<Rightarrow> turn" where
  "recv_turn me c data_ptr data_len handles_ptr handles_count actual_out s =
     (case recv_poll c (sy_k s) of
        (RecvDone (Ok m), k) \<Rightarrow>
          Done (Option.bind (recv_finish me data_ptr data_len handles_ptr handles_count actual_out m (s\<lparr>sy_k := k\<rparr>)) (dropping [c]))
      | (RecvDone (Err e), k) \<Rightarrow> Done (dropping [c] (Err (Error (recv_errno e)), s))
      | (RecvDone Panic, k) \<Rightarrow> Done (Some (Panic, s))
      | (RecvWait, k) \<Rightarrow>
          (case recv_check c (sy_k s) of
             RecvDone _ \<Rightarrow> Done (dropping [c] (Err (Error (recv_errno PeerClosed)), s))
           | RecvWait \<Rightarrow> Sleep s))"

definition sys_channel_recv :: "nat option \<Rightarrow> nat \<Rightarrow> nat \<Rightarrow> nat \<Rightarrow> nat \<Rightarrow> nat \<Rightarrow> nat \<Rightarrow> sys \<Rightarrow> turn" where
  "sys_channel_recv me ch data_ptr data_len handles_ptr handles_count actual_out s =
     (case recv_channel me ch s of
        Err e \<Rightarrow> Done (Some (Err e, s))
      | Panic \<Rightarrow> Done (Some (Panic, s))
      | Ok c \<Rightarrow> recv_turn me c data_ptr data_len handles_ptr handles_count actual_out (arc_clone c s))"

end
