(* ===== verification/Ipc_Isolation.thy ===== *)
theory Ipc_Isolation
  imports Ipc_Syscalls
begin

text \<open>
  What the system calls of \<open>Ipc_Syscalls\<close> guarantee across processes: where capabilities are, that no
  sequence of calls creates authority, that a call leaves the tables of other processes alone and writes only to its buffers,
  that a message with handles arrives as it was sent, and what a refused send loses.
\<close>

section \<open>Where capabilities are\<close>

text \<open>A capability is held by a process, or travels in a message.\<close>

definition table_caps :: "(nat \<Rightarrow> handle_table option) \<Rightarrow> (oid \<times> rights) set" where
  "table_caps T = {(he_object e, he_rights e) | pid t h e. T pid = Some t \<and> ht_lookup t h = Some e}"

definition message_caps :: "chans \<Rightarrow> (oid \<times> rights) set" where
  "message_caps H = {k. \<exists>c ch m. H c = Some ch \<and> m \<in> set (ch_messages ch) \<and> k \<in> set (msg_objects m)}"

definition caps :: "sys \<Rightarrow> (oid \<times> rights) set" where
  "caps s = table_caps (sy_tables s) \<union> message_caps (k_chans (sy_k s))"

lemma message_capI: "H c = Some ch \<Longrightarrow> m \<in> set (ch_messages ch) \<Longrightarrow> k \<in> set (msg_objects m) \<Longrightarrow> k \<in> message_caps H"
  by (auto simp: message_caps_def)

lemma message_caps_mono:
  assumes "\<And>c ch'. H' c = Some ch' \<Longrightarrow> \<exists>ch. H c = Some ch \<and> set (ch_messages ch') \<subseteq> set (ch_messages ch)"
  shows "message_caps H' \<subseteq> message_caps H"
  unfolding message_caps_def using assms by blast

lemma message_caps_upd:
  assumes "H c = Some ch" and "set (ch_messages ch') \<subseteq> set (ch_messages ch)"
  shows "message_caps (H(c \<mapsto> ch')) \<subseteq> message_caps H"
  using assms by (intro message_caps_mono) (auto split: if_splits)

lemma message_caps_remove: "message_caps (H(c := None)) \<subseteq> message_caps H"
  by (intro message_caps_mono) (auto split: if_splits)

subsection \<open>Delivery and waking\<close>

lemma wake_port_chans: "wake_port p s = Ok s' \<Longrightarrow> k_chans s' = k_chans s"
  by (auto simp: wake_port_def split: option.splits dest!: wake_one_ports)

lemma deliver_chans:
  assumes "deliver ws s = Some r"
  shows "\<forall>s'. r = Ok s' \<longrightarrow> k_chans s' = k_chans s"
proof (rule deliver.raw_induct[where P = "\<lambda>ws s r. \<forall>s'. r = Ok s' \<longrightarrow> k_chans s' = k_chans s", OF _ assms])
  fix D :: "work list \<Rightarrow> kernel \<Rightarrow> (unit, kernel) res option" and ws s r
  assume IH: "\<And>ws s r. D ws s = Some r \<Longrightarrow> \<forall>s'. r = Ok s' \<longrightarrow> k_chans s' = k_chans s"
    and eq: "(case ws of
        [] \<Rightarrow> Some (Ok s)
      | Call cb x # rest \<Rightarrow>
          (case k_ports s (cb_port cb) of
             None \<Rightarrow> D rest s
           | Some q \<Rightarrow>
               (let (cs, q') = po_signal_arrives (cb_key cb) x q
                in D (calls_of cs @ Wake (cb_port cb) # rest)
                     (s\<lparr>k_ports := (k_ports s)(cb_port cb \<mapsto> q')\<rparr>)))
      | Wake p # rest \<Rightarrow>
          (case wake_port p s of
             Ok s' \<Rightarrow> D rest s'
           | Err e \<Rightarrow> Some (Err e)
           | Panic \<Rightarrow> Some Panic)) = Some r"
  show "\<forall>s'. r = Ok s' \<longrightarrow> k_chans s' = k_chans s"
    using eq by (auto split: list.splits work.splits option.splits res.splits prod.splits dest!: IH wake_port_chans)
qed

lemma run_calls_chans: "run_calls cs s = Some (Ok s') \<Longrightarrow> k_chans s' = k_chans s"
  using deliver_chans by (fastforce simp: run_calls_def)

lemma wake_each_ports: "wake_each q s = Ok (n, s') \<Longrightarrow> k_ports s' = k_ports s \<and> k_chans s' = k_chans s"
  by (induction q s arbitrary: n rule: wake_each.induct) (auto split: if_splits dest!: unblock_ports)

lemma wake_chan_caps:
  assumes "wake_chan c s = Ok s'"
  shows "message_caps (k_chans s') \<subseteq> message_caps (k_chans s)"
proof (cases "k_chans s c")
  case None
  with assms show ?thesis by (simp add: wake_chan_def)
next
  case (Some ch)
  with assms obtain w ws k where k: "wq_wake_one (ch_waiters ch) s = Ok (w, ws, k)"
    "s' = k\<lparr>k_chans := (k_chans k)(c \<mapsto> ch\<lparr>ch_waiters := ws\<rparr>)\<rparr>" by (auto simp: wake_chan_def)
  with wake_one_ports[OF k(1)] Some show ?thesis by (simp add: message_caps_upd)
qed

lemma wake_chan_all_caps:
  assumes "wake_chan_all c s = Ok s'"
  shows "message_caps (k_chans s') \<subseteq> message_caps (k_chans s)"
proof (cases "k_chans s c")
  case None
  with assms show ?thesis by (simp add: wake_chan_all_def)
next
  case (Some ch)
  with assms obtain n ws k where k: "wq_wake_all (ch_waiters ch) s = Ok (n, ws, k)"
    "s' = k\<lparr>k_chans := (k_chans k)(c \<mapsto> ch\<lparr>ch_waiters := ws\<rparr>)\<rparr>" by (auto simp: wake_chan_all_def)
  then have "k_chans k = k_chans s" by (auto simp: wq_wake_all_def dest!: wake_each_ports)
  with k(2) Some show ?thesis by (simp add: message_caps_upd)
qed

lemma after_Ok:
  "after d f = Some (Ok a) \<longleftrightarrow> (\<exists>s. d = Some (Ok s) \<and> f s = Some (Ok a))"
  by (auto simp: after_def split: option.splits res.splits)

lemma lift_res_Ok [simp]: "lift_res r = Ok a \<longleftrightarrow> r = Ok a"
  by (cases r) (auto simp: lift_res_def)

subsection \<open>Kernel operations\<close>

lemma k_send_caps:
  assumes "k_send c m k = Some (Ok k')"
  shows "message_caps (k_chans k') \<subseteq> message_caps (k_chans k) \<union> set (msg_objects m)"
proof -
  from assms obtain cs p H k1 where s: "ch_send c m (k_chans k) = Ok (cs, p, H)"
    "run_calls cs (k\<lparr>k_chans := H\<rparr>) = Some (Ok k1)" "wake_chan p k1 = Ok k'"
    by (auto simp: k_send_def after_Ok split: res.splits)
  from s(1) obtain d d' where d: "k_chans k p = Some d" "H = (k_chans k)(p \<mapsto> d')" "ch_messages d' = ch_messages d @ [m]"
    by (auto simp: ch_send_def upgrade_peer_def Let_def split: option.splits if_splits)
  have "message_caps H \<subseteq> message_caps (k_chans k) \<union> set (msg_objects m)"
    using d unfolding message_caps_def by (fastforce split: if_splits)
  with wake_chan_caps[OF s(3)] run_calls_chans[OF s(2)] show ?thesis by auto
qed

lemma k_close_caps:
  assumes "k_close c k = Some (Ok k')"
  shows "message_caps (k_chans k') \<subseteq> message_caps (k_chans k)"
proof -
  obtain cs p H where cl: "ch_close c (k_chans k) = (cs, p, H)" by (metis prod_cases3)
  have "message_caps H \<subseteq> message_caps (k_chans k)"
  proof (rule message_caps_mono)
    fix x ch' assume "H x = Some ch'"
    with cl show "\<exists>ch. k_chans k x = Some ch \<and> set (ch_messages ch') \<subseteq> set (ch_messages ch)"
      by (auto simp: ch_close_def upgrade_peer_def Let_def split: option.splits if_splits)
  qed
  moreover from assms cl obtain k1 where "run_calls cs (k\<lparr>k_chans := H\<rparr>) = Some (Ok k1)"
    "(case p of None \<Rightarrow> Ok k1 | Some p \<Rightarrow> lift_res (wake_chan_all p k1)) = (Ok k' :: (channel_error, kernel) res)"
    by (auto simp: k_close_def after_Ok)
  ultimately show ?thesis
    using wake_chan_all_caps run_calls_chans by (fastforce split: option.splits)
qed

lemma k_try_recv_caps:
  assumes "k_try_recv c k = Ok (m, k')"
  shows "message_caps (k_chans k') \<union> set (msg_objects m) \<subseteq> message_caps (k_chans k)"
proof -
  from assms obtain H where H: "ch_try_recv c (k_chans k) = Ok (m, H)" "k' = k\<lparr>k_chans := H\<rparr>"
    by (auto simp: k_try_recv_def)
  then obtain ch rest where ch: "k_chans k c = Some ch" "ch_messages ch = m # rest"
    by (auto simp: ch_try_recv_def Let_def split: option.splits list.splits)
  then have "set (msg_objects m) \<subseteq> message_caps (k_chans k)"
    unfolding message_caps_def by (metis (mono_tags, lifting) list.set_intros(1) mem_Collect_eq subsetI)
  moreover have "message_caps H \<subseteq> message_caps (k_chans k)"
  proof (rule message_caps_mono)
    fix x ch' assume "H x = Some ch'"
    with H(1) ch show "\<exists>ch. k_chans k x = Some ch \<and> set (ch_messages ch') \<subseteq> set (ch_messages ch)"
      by (auto simp: ch_try_recv_def upgrade_peer_def Let_def split: option.splits if_splits)
  qed
  ultimately show ?thesis by (simp add: H(2))
qed

lemma add_observer_caps:
  assumes "k_add_observer x ob k = Some (Ok k')"
  shows "message_caps (k_chans k') \<subseteq> message_caps (k_chans k)"
proof (cases "k_chans k x")
  case (Some c)
  let ?c = "snd (ch_add_signal_observer ob c)"
  have "ch_messages ?c = ch_messages c" by (simp add: ch_add_signal_observer_def Let_def)
  with Some have "message_caps ((k_chans k)(x \<mapsto> ?c)) \<subseteq> message_caps (k_chans k)" by (intro message_caps_upd) auto
  with assms Some show ?thesis
    by (auto simp: k_add_observer_def case_prod_beta dest!: run_calls_chans)
next
  case None
  with assms show ?thesis
    by (auto simp: k_add_observer_def case_prod_beta Let_def split: option.splits dest!: run_calls_chans)
qed

lemma k_bind_caps:
  assumes "k_bind p key x tr opts k = Some (Ok k')"
  shows "message_caps (k_chans k') \<subseteq> message_caps (k_chans k)"
proof -
  from assms obtain ob k1 where "k_add_observer x ob k = Some (Ok k1)" "k_chans k' = k_chans k1"
    by (auto simp: k_bind_def after_Ok split: option.splits if_splits)
  with add_observer_caps show ?thesis by fastforce
qed

lemma remove_observer_caps: "message_caps (k_chans (k_remove_observer x key k)) \<subseteq> message_caps (k_chans k)"
proof (cases "k_chans k x")
  case (Some c)
  then have "message_caps ((k_chans k)(x \<mapsto> ch_remove_signal_observer key c)) \<subseteq> message_caps (k_chans k)"
    by (intro message_caps_upd) (auto simp: ch_remove_signal_observer_def)
  with Some show ?thesis by (simp add: k_remove_observer_def)
qed (simp add: k_remove_observer_def split: option.splits)

lemma forget_bindings_caps: "message_caps (k_chans (forget_bindings bs k)) \<subseteq> message_caps (k_chans k)"
  unfolding forget_bindings_def
  by (induction bs arbitrary: k) (auto dest: remove_observer_caps[THEN subsetD])

lemma k_unbind_caps: "k_unbind p key k = Ok k' \<Longrightarrow> message_caps (k_chans k') \<subseteq> message_caps (k_chans k)"
  using remove_observer_caps by (fastforce simp: k_unbind_def split: option.splits)

lemma k_queue_chans: "k_queue p pk k = Ok k' \<Longrightarrow> k_chans k' = k_chans k"
  by (auto simp: k_queue_def split: option.splits dest!: wake_port_chans)

subsection \<open>Dropping references\<close>

text \<open>What a call may do: \<open>evolves me s s'\<close> holds when the tables and the modelled memory of every process but the caller are
  untouched, identifiers are only handed out upwards, and every capability on an object that existed before
  was there before with at least the same rights.\<close>

definition evolves :: "nat option \<Rightarrow> sys \<Rightarrow> sys \<Rightarrow> bool" where
  "evolves me s s' \<longleftrightarrow> sy_next s \<le> sy_next s' \<and>
     (\<forall>pid. Some pid \<noteq> me \<longrightarrow> sy_tables s' pid = sy_tables s pid) \<and>
     (\<forall>m. m \<noteq> me \<longrightarrow> sy_umem s' m = sy_umem s m) \<and>
     (\<forall>x q. (x, q) \<in> caps s' \<longrightarrow> x < sy_next s \<longrightarrow> (\<exists>q0. (x, q0) \<in> caps s \<and> contains q0 q))"

lemma evolves_refl [simp]: "evolves me s s"
  unfolding evolves_def using contains_refl by blast

lemma evolves_trans: "evolves me s s1 \<Longrightarrow> evolves me s1 s2 \<Longrightarrow> evolves me s s2"
proof -
  assume a: "evolves me s s1" and b: "evolves me s1 s2"
  have "\<exists>q0. (x, q0) \<in> caps s \<and> contains q0 q" if "(x, q) \<in> caps s2" "x < sy_next s" for x q
  proof -
    from a that(2) have "x < sy_next s1" by (simp add: evolves_def)
    with b that(1) obtain q1 where q1: "(x, q1) \<in> caps s1" "contains q1 q" unfolding evolves_def by blast
    with a that(2) obtain q0 where "(x, q0) \<in> caps s" "contains q0 q1" unfolding evolves_def by blast
    with q1(2) contains_trans show ?thesis by blast
  qed
  with a b show ?thesis by (simp add: evolves_def)
qed

lemma evolves_shrink:
  assumes "sy_next s' = sy_next s" "sy_tables s' = sy_tables s" "\<And>m. m \<noteq> me \<Longrightarrow> sy_umem s' m = sy_umem s m"
    and "message_caps (k_chans (sy_k s')) \<subseteq> message_caps (k_chans (sy_k s))"
  shows "evolves me s s'"
  using assms unfolding evolves_def caps_def by (auto intro: contains_refl)

lemma evolves_refs [simp]: "evolves me s (s\<lparr>sy_refs := r\<rparr>)"
  by (rule evolves_shrink) simp_all

lemma evolves_clone [simp]: "evolves me s (arc_clone x s)"
  by (simp add: arc_clone_def)

lemma evolves_write_user [simp]: "evolves me s (write_user me f s)"
  by (rule evolves_shrink) (simp_all add: write_user_def)

lemma evolves_kernel: "message_caps (k_chans k) \<subseteq> message_caps (k_chans (sy_k s)) \<Longrightarrow> evolves me s (s\<lparr>sy_k := k\<rparr>)"
  by (rule evolves_shrink) simp_all

definition kept :: "sys \<Rightarrow> sys \<Rightarrow> bool" where
  "kept s s' \<longleftrightarrow> sy_tables s' = sy_tables s \<and> sy_umem s' = sy_umem s \<and> sy_next s' = sy_next s \<and>
     message_caps (k_chans (sy_k s')) \<subseteq> message_caps (k_chans (sy_k s))"

lemma kept_refl [simp]: "kept s s"
  by (simp add: kept_def)

lemma kept_step: "kept s1 s' \<Longrightarrow> kept s s1 \<Longrightarrow> kept s s'"
  by (auto simp: kept_def)

lemma kept_evolves: "kept s s' \<Longrightarrow> evolves me s s'"
  by (rule evolves_shrink) (simp_all add: kept_def)

lemma drop_arcs_kept:
  assumes "drop_arcs xs s = Some r"
  shows "\<forall>s'. r = Ok s' \<longrightarrow> kept s s'"
proof (rule drop_arcs.raw_induct[where P = "\<lambda>xs s r. \<forall>s'. r = Ok s' \<longrightarrow> kept s s'", OF _ assms])
  fix D :: "oid list \<Rightarrow> sys \<Rightarrow> (unit, sys) res option" and xs s r
  assume IH: "\<And>xs s r. D xs s = Some r \<Longrightarrow> \<forall>s'. r = Ok s' \<longrightarrow> kept s s'"
    and eq: "(case xs of
        [] \<Rightarrow> Some (Ok s)
      | x # xs \<Rightarrow>
          if sy_refs s x > 1 then D xs (s\<lparr>sy_refs := (sy_refs s)(x := sy_refs s x - 1)\<rparr>)
          else let s1 = s\<lparr>sy_refs := (sy_refs s)(x := 0)\<rparr>
               in case k_chans (sy_k s) x of
                    Some c \<Rightarrow>
                      (case k_close x (sy_k s) of
                         None \<Rightarrow> None
                       | Some (Ok k) \<Rightarrow>
                           D (map fst (concat (map msg_objects (ch_messages c))) @ xs)
                             (s1\<lparr>sy_k := k\<lparr>k_chans := (k_chans k)(x := None)\<rparr>\<rparr>)
                       | Some _ \<Rightarrow> Some Panic)
                  | None \<Rightarrow>
                      (case k_ports (sy_k s) x of
                         Some p \<Rightarrow>
                           D (map bi_object (po_bindings p) @ xs)
                             (s1\<lparr>sy_k := (sy_k s)\<lparr>k_ports := (k_ports (sy_k s))(x := None)\<rparr>\<rparr>)
                       | None \<Rightarrow>
                           D xs (s1\<lparr>sy_k := (sy_k s)\<lparr>k_plain := (k_plain (sy_k s))(x := None)\<rparr>\<rparr>))) = Some r"
  have next_D: "D ys s1 = Some (Ok s') \<Longrightarrow> kept s s1 \<Longrightarrow> kept s s'" for ys s1 s'
    using IH kept_step by blast
  have closed: "message_caps ((k_chans k)(x := None)) \<subseteq> message_caps (k_chans (sy_k s))"
    if "k_close x (sy_k s) = Some (Ok k)" for x k
    using k_close_caps[OF that] message_caps_remove by blast
  show "\<forall>s'. r = Ok s' \<longrightarrow> kept s s'"
  proof (intro allI impI)
    fix s' assume "r = Ok s'"
    with eq show "kept s s'"
      by (auto simp: Let_def kept_def[of s "_\<lparr>sy_k := _\<rparr>"] kept_def[of s "_\<lparr>sy_refs := _\<rparr>"] closed
          split: list.splits if_splits option.splits res.splits elim!: next_D)
  qed
qed

lemma dropping_evolves: "dropping xs (q, s) = Some (r, s') \<Longrightarrow> evolves me s s'"
  by (auto simp: dropping_def split: option.splits res.splits dest!: drop_arcs_kept intro: kept_evolves)

lemma evolves_dropping: "dropping xs (q, s1) = Some (r, s') \<Longrightarrow> evolves me s s1 \<Longrightarrow> evolves me s s'"
  using dropping_evolves evolves_trans by blast

lemma evolves_holding:
  assumes "holding x s f = Some (r, s')"
    and "\<And>q s1. f (arc_clone x s) = Some (q, s1) \<Longrightarrow> evolves me (arc_clone x s) s1"
  shows "evolves me s s'"
proof -
  from assms(1) obtain q s1 where f: "f (arc_clone x s) = Some (q, s1)" "dropping [x] (q, s1) = Some (r, s')"
    by (auto simp: holding_def bind_eq_Some_conv)
  from assms(2)[OF f(1)] have "evolves me s s1" by (rule evolves_trans[OF evolves_clone])
  with f(2) show ?thesis by (rule evolves_dropping)
qed

subsection \<open>Handle tables\<close>

lemma current_table_Some:
  "current_table me s = Some (pid, t) \<longleftrightarrow> me = Some pid \<and> sy_tables s pid = Some t"
  by (cases me) (auto simp: current_table_def)

lemma clone_simps [simp]:
  "sy_k (arc_clone x s) = sy_k s" "sy_tables (arc_clone x s) = sy_tables s" "sy_umem (arc_clone x s) = sy_umem s"
  "sy_next (arc_clone x s) = sy_next s" "sy_refs (arc_clone x s) = (sy_refs s)(x := Suc (sy_refs s x))"
  by (simp_all add: arc_clone_def)

lemma current_table_clone [simp]: "current_table me (arc_clone x s) = current_table me s"
  by (cases me) (simp_all add: current_table_def)

lemma set_table_simps [simp]:
  "sy_k (set_table pid t s) = sy_k s" "sy_tables (set_table pid t s) = (sy_tables s)(pid \<mapsto> t)"
  "sy_umem (set_table pid t s) = sy_umem s" "sy_next (set_table pid t s) = sy_next s" "sy_refs (set_table pid t s) = sy_refs s"
  by (simp_all add: set_table_def)

lemma write_user_simps [simp]:
  "sy_k (write_user me f s) = sy_k s" "sy_tables (write_user me f s) = sy_tables s"
  "sy_next (write_user me f s) = sy_next s" "sy_refs (write_user me f s) = sy_refs s"
  "sy_umem (write_user me f s) = (sy_umem s)(me := f (sy_umem s me))"
  by (simp_all add: write_user_def)

lemma table_cap: "sy_tables s pid = Some t \<Longrightarrow> ht_lookup t h = Some e \<Longrightarrow> (he_object e, he_rights e) \<in> caps s"
  by (auto simp: caps_def table_caps_def)

lemma table_caps_upd:
  "(x, q) \<in> table_caps (T(pid \<mapsto> t')) \<Longrightarrow>
   (x, q) \<in> table_caps T \<or> (\<exists>h e. ht_lookup t' h = Some e \<and> he_object e = x \<and> he_rights e = q)"
  by (auto simp: table_caps_def split: if_splits)

lemma evolves_upd:
  assumes "me = Some pid" and "sy_next s' = sy_next s" and "sy_tables s' = (sy_tables s)(pid \<mapsto> t')"
    and "\<And>m. m \<noteq> me \<Longrightarrow> sy_umem s' m = sy_umem s m"
    and "\<And>h e. ht_lookup t' h = Some e \<Longrightarrow>
           sy_next s \<le> he_object e \<or> (\<exists>q0. (he_object e, q0) \<in> caps s \<and> contains q0 (he_rights e))"
    and "message_caps (k_chans (sy_k s')) \<subseteq> caps s"
  shows "evolves me s s'"
proof -
  have "\<exists>q0. (x, q0) \<in> caps s \<and> contains q0 q" if "(x, q) \<in> caps s'" "x < sy_next s" for x q
  proof -
    from that(1) assms(3) have "(x, q) \<in> table_caps ((sy_tables s)(pid \<mapsto> t')) \<or> (x, q) \<in> message_caps (k_chans (sy_k s'))"
      by (simp add: caps_def)
    then consider (old) "(x, q) \<in> caps s" | (new) h e where "ht_lookup t' h = Some e" "he_object e = x" "he_rights e = q"
      using assms(6) table_caps_upd unfolding caps_def by blast
    then show ?thesis
    proof cases
      case old
      then show ?thesis using contains_refl by blast
    next
      case new
      with assms(5)[OF new(1)] that(2) show ?thesis by auto
    qed
  qed
  with assms show ?thesis unfolding evolves_def by auto
qed

lemma evolves_upd_old:
  assumes "me = Some pid" and "\<And>h e. ht_lookup t' h = Some e \<Longrightarrow> (he_object e, he_rights e) \<in> caps s"
    and "sy_next s' = sy_next s" "sy_tables s' = (sy_tables s)(pid \<mapsto> t')"
    "\<And>m. m \<noteq> me \<Longrightarrow> sy_umem s' m = sy_umem s m" "message_caps (k_chans (sy_k s')) \<subseteq> caps s"
  shows "evolves me s s'"
proof (rule evolves_upd[OF assms(1,3-5) _ assms(6)])
  fix h e assume "ht_lookup t' h = Some e"
  from assms(2)[OF this] contains_refl
  show "sy_next s \<le> he_object e \<or> (\<exists>q0. (he_object e, q0) \<in> caps s \<and> contains q0 (he_rights e))" by blast
qed

lemma evolves_set_table:
  assumes "me = Some pid" 
    and "\<And>h e. ht_lookup t' h = Some e \<Longrightarrow>
           sy_next s \<le> he_object e \<or> (\<exists>q0. (he_object e, q0) \<in> caps s \<and> contains q0 (he_rights e))"
  shows "evolves me s (set_table pid t' s)"
  by (rule evolves_upd[OF assms(1) _ _ _ assms(2)]) (auto simp: caps_def)

lemma insert_object_evolves:
  assumes "insert_object pid x r s = (q, s')" and "sy_next s0 \<le> x" and "evolves (Some pid) s0 s"
  shows "evolves (Some pid) s0 s'"
proof (cases "\<exists>h t t'. sy_tables s pid = Some t \<and> ht_insert x r t = (Ok (h, t') :: (error, nat \<times> handle_table) res) \<and> s' = set_table pid t' s")
  case True
  then obtain h t t' where t: "sy_tables s pid = Some t" "ht_insert x r t = (Ok (h, t') :: (error, nat \<times> handle_table) res)" "s' = set_table pid t' s" by blast
  have "evolves (Some pid) s0 s'" unfolding evolves_def
  proof (intro conjI allI impI)
    fix y q assume y: "(y, q) \<in> caps s'" "y < sy_next s0"
    have "ht_lookup t' k = Some e \<Longrightarrow> he_object e = x \<or> ht_lookup t k = Some e" for k e
      using t(2) by (auto elim!: ht_insert_cases split: if_splits)
    moreover from y(1) t(3) have "(y, q) \<in> caps s \<or> (\<exists>k e. ht_lookup t' k = Some e \<and> he_object e = y \<and> he_rights e = q)"
      using table_caps_upd by (fastforce simp: caps_def)
    ultimately have "(y, q) \<in> caps s" using y(2) assms(2) table_cap[OF t(1)] by fastforce
    with y assms(3) show "\<exists>q0. (y, q0) \<in> caps s0 \<and> contains q0 q" by (simp add: evolves_def)
  qed (use t assms(3) in \<open>auto simp: evolves_def\<close>)
  then show ?thesis .
next
  case False
  with assms(1) have "s' = s"
    by (auto simp: insert_object_def split: option.splits res.splits)
  with assms(3) show ?thesis by simp
qed

section \<open>Every call evolves the system\<close>

lemma close_evolves: "sys_handle_close me h s = Some (r, s') \<Longrightarrow> evolves me s s'"
proof -
  assume a: "sys_handle_close me h s = Some (r, s')"
  show ?thesis
  proof (cases "current_table me s")
    case None
    with a show ?thesis by (simp add: sys_handle_close_def)
  next
    case (Some pt)
    then obtain pid t where t: "current_table me s = Some (pid, t)" by force
    then have me: "me = Some pid" "sy_tables s pid = Some t" by (simp_all add: current_table_Some)
    let ?t = "t\<lparr>ht_handles := bt_remove (handle_from h) (ht_handles t)\<rparr>"
    have "evolves me s (set_table pid ?t s)"
      by (rule evolves_set_table[OF me(1)]) (auto split: if_splits intro: table_cap[OF me(2)] contains_refl)
    with a t show ?thesis
      by (auto simp: sys_handle_close_def ht_remove_def split: option.splits elim!: evolves_dropping)
  qed
qed

lemma duplicate_evolves: "sys_handle_duplicate me h r s = Some (q, s') \<Longrightarrow> evolves me s s'"
proof -
  assume a: "sys_handle_duplicate me h r s = Some (q, s')"
  show ?thesis
  proof (cases "s' = s")
    case False
    let ?r = "rights_from_bits_truncate (word_of_nat r)"
    from False a obtain pid t n t' x where t: "current_table me s = Some (pid, t)"
      "ht_duplicate (handle_from h) ?r t = (Ok (Some n, t') :: (error, nat option \<times> handle_table) res)"
      "s' = arc_clone x (set_table pid t' s)"
      by (auto simp: sys_handle_duplicate_def split: option.splits res.splits prod.splits)
    then have me: "me = Some pid" "sy_tables s pid = Some t" by (simp_all add: current_table_Some)
    from t(2) obtain e0 where e0: "ht_lookup t (handle_from h) = Some e0" by (auto simp: ht_duplicate_def split: option.splits)
    with t(2) have new: "e = \<lparr>he_object = he_object e0, he_rights = he_rights e0 AND ?r\<rparr> \<or> ht_lookup t k = Some e"
      if "ht_lookup t' k = Some e" for k e
      using that by (auto simp: ht_duplicate_def Let_def split: if_splits)
    have "evolves me s (set_table pid t' s)"
    proof (rule evolves_set_table[OF me(1)])
      fix k e assume "ht_lookup t' k = Some e"
      from new[OF this] have "\<exists>q0. (he_object e, q0) \<in> caps s \<and> contains q0 (he_rights e)"
      proof
        assume "e = \<lparr>he_object = he_object e0, he_rights = he_rights e0 AND ?r\<rparr>"
        then show ?thesis using table_cap[OF me(2) e0] contains_and_left by auto
      next
        assume "ht_lookup t k = Some e"
        then show ?thesis using table_cap[OF me(2)] contains_refl by blast
      qed
      then show "sy_next s \<le> he_object e \<or> (\<exists>q0. (he_object e, q0) \<in> caps s \<and> contains q0 (he_rights e))" ..
    qed
    with t(3) show ?thesis using evolves_trans evolves_clone by blast
  qed simp
qed

lemma new_port_evolves: "new_port s = (x, s1) \<Longrightarrow> evolves me s s1 \<and> x = sy_next s"
  by (auto simp: new_port_def Let_def evolves_def caps_def intro: contains_refl)

lemma port_create_evolves: "sys_port_create me s = Some (r, s') \<Longrightarrow> evolves me s s'"
proof -
  assume a: "sys_port_create me s = Some (r, s')"
  obtain x s1 where n: "new_port s = (x, s1)" by force
  note ev = new_port_evolves[OF n]
  show ?thesis
  proof (cases "current_table me s")
    case None
    with a n ev show ?thesis by (auto simp: sys_port_create_def elim!: evolves_dropping)
  next
    case (Some pt)
    then obtain pid t where t: "current_table me s = Some (pid, t)" by force
    with a n have "insert_object pid x (R_BASIC OR R_DUPLICATE) s1 = (r, s')" by (simp add: sys_port_create_def)
    with ev t show ?thesis using insert_object_evolves by (auto simp: current_table_Some)
  qed
qed

lemma new_channels_evolves: "new_channels s = (a, b, s1) \<Longrightarrow> evolves me s s1 \<and> a = sy_next s \<and> b = Suc a"
proof -
  assume n: "new_channels s = (a, b, s1)"
  have "message_caps (ch_create_pair x y H) \<subseteq> message_caps H" for x y H
    unfolding message_caps_def by (auto simp: ch_create_pair_def ch_fresh_def split: if_splits)
  with n show ?thesis
    by (fastforce simp: new_channels_def Let_def evolves_def caps_def intro: contains_refl)
qed

lemma channel_create_evolves: "sys_channel_create me out s = Some (r, s') \<Longrightarrow> evolves me s s'"
proof -
  assume a: "sys_channel_create me out s = Some (r, s')"
  obtain x y s1 where n: "new_channels s = (x, y, s1)" by (metis prod_cases3)
  note ev = new_channels_evolves[OF n]
  show ?thesis
  proof (cases "current_table me s")
    case None
    with a n ev show ?thesis by (auto simp: sys_channel_create_def split: if_splits elim!: evolves_dropping)
  next
    case (Some pt)
    then obtain pid t where t: "current_table me s = Some (pid, t)" by force
    then have me: "me = Some pid" by (simp add: current_table_Some)
    let ?r = "R_BASIC OR R_DUPLICATE OR R_TRANSFER"
    obtain h0 s2 h1 s3 where i: "insert_object pid x ?r s1 = (h0, s2)" "insert_object pid y ?r s2 = (h1, s3)"
      by (metis prod.exhaust)
    have s2: "evolves me s s2" using insert_object_evolves[OF i(1)] ev me by simp
    then have "evolves me s s3" using insert_object_evolves[OF i(2)] ev me by simp
    moreover from this have "evolves me s (write_user me f s3)" for f using evolves_trans evolves_write_user by blast
    ultimately show ?thesis using s2 a n t i
      by (auto simp: sys_channel_create_def split: if_splits res.splits)
  qed
qed

lemma port_bind_evolves: "sys_port_bind me ph key oh sigs opts s = Some (r, s') \<Longrightarrow> evolves me s s'"
proof -
  assume a: "sys_port_bind me ph key oh sigs opts s = Some (r, s')"
  have k: "evolves me s1 ((arc_clone x s1)\<lparr>sy_k := k\<rparr>)" if "k_bind p key x tr opts (sy_k s1) = Some (Ok k)" for p x tr opts k s1
    using k_bind_caps[OF that] by (intro evolves_shrink) simp_all
  show ?thesis
  proof (cases "\<exists>pid t p. current_table me s = Some (pid, t) \<and> ht_get t (handle_from ph) R_WRITE = Some p")
    case False
    with a show ?thesis by (auto simp: sys_port_bind_def split: option.splits)
  next
    case True
    then obtain pid t p where t: "current_table me s = Some (pid, t)" "ht_get t (handle_from ph) R_WRITE = Some p" by blast
    show ?thesis
      by (rule evolves_holding[OF a[unfolded sys_port_bind_def t option.case prod.case]])
        (auto simp: Let_def split: option.splits if_splits res.splits port_error.splits
          elim!: evolves_dropping intro: k)
  qed
qed

lemma port_unbind_evolves: "sys_port_unbind me ph key s = Some (r, s') \<Longrightarrow> evolves me s s'"
proof -
  assume a: "sys_port_unbind me ph key s = Some (r, s')"
  have k: "evolves me s1 (s1\<lparr>sy_k := k\<rparr>)" if "k_unbind p key (sy_k s1) = Ok k" for p k s1
    using k_unbind_caps[OF that] by (rule evolves_kernel)
  show ?thesis
  proof (cases "\<exists>pid t p. current_table me s = Some (pid, t) \<and> ht_get t (handle_from ph) R_WRITE = Some p")
    case False
    with a show ?thesis by (auto simp: sys_port_unbind_def split: option.splits)
  next
    case True
    then obtain pid t p where t: "current_table me s = Some (pid, t)" "ht_get t (handle_from ph) R_WRITE = Some p" by blast
    show ?thesis
      by (rule evolves_holding[OF a[unfolded sys_port_unbind_def t option.case prod.case]])
        (auto simp del: clone_simps split: option.splits res.splits elim!: evolves_dropping intro: k)
  qed
qed

lemma port_queue_evolves: "sys_port_queue me ph key a s = Some (r, s') \<Longrightarrow> evolves me s s'"
  unfolding sys_port_queue_def
  by (auto simp: Let_def split: option.splits prod.splits if_splits res.splits
      elim!: evolves_holding intro!: evolves_kernel dest!: k_queue_chans)

text \<open>The state a turn leaves behind, if it ends.\<close>

fun turn_state :: "turn \<Rightarrow> sys option" where
  "turn_state (Done q) = map_option snd q"
| "turn_state (Sleep s) = Some s"

lemma port_turn_evolves: "turn_state (port_turn me p a n timeout start now s) = Some s' \<Longrightarrow> evolves me s s'"
proof -
  assume t: "turn_state (port_turn me p a n timeout start now s) = Some s'"
  have k: "evolves me s (s\<lparr>sy_k := forget_bindings bs ((sy_k s)\<lparr>k_ports := P\<rparr>)\<rparr>)" for bs P
    using forget_bindings_caps[of bs "(sy_k s)\<lparr>k_ports := P\<rparr>"] by (intro evolves_kernel) simp
  then have "evolves me s (write_user me f (s\<lparr>sy_k := forget_bindings bs ((sy_k s)\<lparr>k_ports := P\<rparr>)\<rparr>))" for f bs P
    using evolves_trans evolves_write_user by blast
  with t k show ?thesis
    by (auto simp: port_turn_def Let_def split: option.splits res.splits wait_turn.splits elim!: evolves_dropping)
qed

lemma bind_dropping:
  assumes "Option.bind q (dropping xs) = Some (r, s')" and "\<And>r1 s1. q = Some (r1, s1) \<Longrightarrow> evolves me s s1"
  shows "evolves me s s'"
  using assms by (auto simp: bind_eq_Some_conv elim!: evolves_dropping)

lemma port_resume_evolves: "turn_state (port_resume me p a n timeout start now s) = Some s' \<Longrightarrow> evolves me s s'"
  using port_turn_evolves[of me p a n timeout start now s]
  by (cases "port_turn me p a n timeout start now s") (auto simp: port_resume_def elim!: bind_dropping)

lemma port_wait_evolves: "turn_state (sys_port_wait me ph a n timeout start now s) = Some s' \<Longrightarrow> evolves me s s'"
  by (auto simp: sys_port_wait_def split: res.splits dest!: port_resume_evolves intro: evolves_trans[OF evolves_clone])

subsection \<open>Messages\<close>

lemma recv_finish_evolves:
  assumes "recv_finish me data_ptr data_len handles_ptr handles_count actual_out m (s\<lparr>sy_k := k\<rparr>) = Some (r, s')"
    and caps: "message_caps (k_chans k) \<union> set (msg_objects m) \<subseteq> message_caps (k_chans (sy_k s))"
  shows "evolves me s s'"
proof -
  have wr: "evolves u s s1 \<Longrightarrow> evolves u s (write_user u f s1)" for u f s1 using evolves_trans evolves_write_user by blast
  have k: "evolves u s (s\<lparr>sy_k := k\<rparr>)" for u using caps by (intro evolves_kernel) simp
  have tab: "evolves (Some pid) s (set_table pid t' (write_user (Some pid) g (s\<lparr>sy_k := k\<rparr>)))"
    "evolves (Some pid) s (set_table pid t' (s\<lparr>sy_k := k\<rparr>))"
    if "sy_tables s pid = Some t"
      "ht_receive_many (msg_objects m) t = (Ok (hs, t') :: (error, nat list \<times> handle_table) res)" for g pid t hs t'
  proof -
    have new: "(he_object e, he_rights e) \<in> caps s" if "ht_lookup t' h = Some e" for h e
      using receive_many_lookup[OF \<open>ht_receive_many (msg_objects m) t = _\<close> that] table_cap[OF \<open>sy_tables s pid = Some t\<close>] caps
      by (auto simp: caps_def)
    show "evolves (Some pid) s (set_table pid t' (write_user (Some pid) g (s\<lparr>sy_k := k\<rparr>)))"
      "evolves (Some pid) s (set_table pid t' (s\<lparr>sy_k := k\<rparr>))"
      by (rule evolves_upd_old[OF refl new]; use caps in \<open>auto simp: caps_def\<close>)+
  qed
  from assms(1) show ?thesis
    by (auto simp: recv_finish_def Let_def current_table_Some split: if_splits option.splits prod.splits res.splits
        elim!: evolves_dropping intro!: wr k intro: tab)
qed

lemma recv_message_evolves:
  assumes "k_try_recv c (sy_k s) = Ok (m, k)" and "recv_finish me dp dl hp hc ao m (s\<lparr>sy_k := k\<rparr>) = Some (r, s')"
  shows "evolves me s s'"
  using recv_finish_evolves[OF assms(2) k_try_recv_caps[OF assms(1)]] .

lemma try_recv_evolves:
  "sys_channel_try_recv me ch dp dl hp hc ao s = Some (r, s') \<Longrightarrow> evolves me s s'"
  unfolding sys_channel_try_recv_def
  by (auto simp del: clone_simps split: res.splits elim!: evolves_holding intro: recv_message_evolves)

lemma recv_turn_evolves: "turn_state (recv_turn me c dp dl hp hc ao s) = Some s' \<Longrightarrow> evolves me s s'"
  by (auto simp: recv_turn_def recv_poll_def split: res.splits prod.splits channel_error.splits recv_turn.splits
      elim!: bind_dropping evolves_dropping intro: recv_message_evolves)

lemma recv_evolves: "turn_state (sys_channel_recv me ch dp dl hp hc ao s) = Some s' \<Longrightarrow> evolves me s s'"
  by (auto simp: sys_channel_recv_def split: res.splits dest!: recv_turn_evolves intro: evolves_trans[OF evolves_clone])

lemma transfer_many_caps:
  assumes "take_handles hs t = (Some obs, t')" and "sy_tables s pid = Some t"
  shows "set obs \<subseteq> caps s" "ht_lookup t' h = Some e \<Longrightarrow> (he_object e, he_rights e) \<in> caps s"
proof -
  have "transfer_take hs t = (obs, t')"
    using assms(1) by (auto simp: take_handles_def ht_transfer_many_def split: if_splits prod.splits)
  note take = this
  show "set obs \<subseteq> caps s" using transfer_take_subset[OF take] table_cap[OF assms(2)] by fastforce
  show "ht_lookup t' h = Some e \<Longrightarrow> (he_object e, he_rights e) \<in> caps s"
    using transfer_take_lookup[OF take, of h] table_cap[OF assms(2)] by (auto split: if_splits)
qed

lemma send_evolves: "sys_channel_send me ch dp dl hp hc s = Some (r, s') \<Longrightarrow> evolves me s s'"
proof -
  assume a: "sys_channel_send me ch dp dl hp hc s = Some (r, s')"
  show ?thesis
  proof (cases "current_table me s")
    case None
    with a show ?thesis by (simp add: sys_channel_send_def Let_def)
  next
    case (Some pt)
    then obtain pid t where t: "current_table me s = Some (pid, t)" by force
    then have me: "me = Some pid" "sy_tables s pid = Some t" by (simp_all add: current_table_Some)
    let ?hs = "read_handles (sy_umem s me) hp hc"
    have ok: "evolves me s1 (set_table pid t' s1)"
      "k_send c (msg_with_objects d obs) (sy_k s1) = Some (Ok k) \<Longrightarrow> evolves me s1 ((set_table pid t' s1)\<lparr>sy_k := k\<rparr>)"
      if "take_handles ?hs t = (Some obs, t')" "sy_tables s1 pid = Some t" for s1 obs t' c d k
    proof -
      note tr = transfer_many_caps[OF that]
      show "evolves me s1 (set_table pid t' s1)"
        by (rule evolves_set_table[OF me(1)]) (use tr(2) contains_refl in blast)
      assume "k_send c (msg_with_objects d obs) (sy_k s1) = Some (Ok k)"
      from k_send_caps[OF this] tr(1) have "message_caps (k_chans k) \<subseteq> caps s1"
        by (auto simp: msg_with_objects_def caps_def)
      then show "evolves me s1 ((set_table pid t' s1)\<lparr>sy_k := k\<rparr>)"
        by (intro evolves_upd_old[OF me(1) tr(2)]) simp_all
    qed
    show ?thesis
    proof (cases "ht_get t (handle_from ch) R_WRITE")
      case None
      with a t show ?thesis by (simp add: sys_channel_send_def Let_def)
    next
      case (Some c)
      have tab: "sy_tables (arc_clone c s) pid = Some t" using me by simp
      show ?thesis
        by (rule evolves_holding[OF a[unfolded sys_channel_send_def Let_def t Some option.case prod.case]])
          (auto split: option.splits prod.splits if_splits res.splits elim!: evolves_dropping
            dest!: ok[OF _ tab] simp: ok[OF _ tab])
    qed
  qed
qed

section \<open>The calls together\<close>

text \<open>A call with its arguments, or a later turn of a wait that has been woken up: any such turn, for any object.\<close>

datatype ipc_call =
    HandleClose nat
  | HandleDuplicate nat nat
  | PortCreate
  | PortWait nat nat nat nat nat nat
  | PortResume oid nat nat "nat option" nat nat
  | PortBind nat nat nat nat nat
  | PortUnbind nat nat
  | PortQueue nat nat nat
  | ChannelCreate nat
  | ChannelSend nat nat nat nat nat
  | ChannelRecv nat nat nat nat nat nat
  | RecvResume oid nat nat nat nat nat
  | ChannelTryRecv nat nat nat nat nat nat

fun ipc_do :: "nat option \<Rightarrow> ipc_call \<Rightarrow> sys \<Rightarrow> turn" where
  "ipc_do me (HandleClose h) s = Done (sys_handle_close me h s)"
| "ipc_do me (HandleDuplicate h r) s = Done (sys_handle_duplicate me h r s)"
| "ipc_do me PortCreate s = Done (sys_port_create me s)"
| "ipc_do me (PortWait ph a n t start now) s = sys_port_wait me ph a n t start now s"
| "ipc_do me (PortResume p a n t start now) s = port_resume me p a n t start now s"
| "ipc_do me (PortBind ph key oh sigs opts) s = Done (sys_port_bind me ph key oh sigs opts s)"
| "ipc_do me (PortUnbind ph key) s = Done (sys_port_unbind me ph key s)"
| "ipc_do me (PortQueue ph key a) s = Done (sys_port_queue me ph key a s)"
| "ipc_do me (ChannelCreate a) s = Done (sys_channel_create me a s)"
| "ipc_do me (ChannelSend ch dp dl hp hc) s = Done (sys_channel_send me ch dp dl hp hc s)"
| "ipc_do me (ChannelRecv ch dp dl hp hc ao) s = sys_channel_recv me ch dp dl hp hc ao s"
| "ipc_do me (RecvResume c dp dl hp hc ao) s = recv_turn me c dp dl hp hc ao s"
| "ipc_do me (ChannelTryRecv ch dp dl hp hc ao) s = Done (sys_channel_try_recv me ch dp dl hp hc ao s)"

lemmas call_evolves = close_evolves duplicate_evolves port_create_evolves port_wait_evolves port_resume_evolves
  port_bind_evolves port_unbind_evolves port_queue_evolves channel_create_evolves send_evolves recv_evolves
  recv_turn_evolves try_recv_evolves

lemma ipc_do_evolves: "turn_state (ipc_do me c s) = Some s' \<Longrightarrow> evolves me s s'"
  by (cases c) (auto dest: call_evolves)

text \<open>Processes run arbitrary code between calls, which reads and writes their own memory.\<close>

inductive ipc_reach :: "sys \<Rightarrow> sys \<Rightarrow> bool" where
  start: "ipc_reach s s"
| call: "ipc_reach s s1 \<Longrightarrow> turn_state (ipc_do me c s1) = Some s2 \<Longrightarrow> ipc_reach s s2"
| user: "ipc_reach s s1 \<Longrightarrow> ipc_reach s (write_user me f s1)"

definition derived :: "sys \<Rightarrow> sys \<Rightarrow> bool" where
  "derived s s' \<longleftrightarrow> sy_next s \<le> sy_next s' \<and>
     (\<forall>x q. (x, q) \<in> caps s' \<longrightarrow> x < sy_next s \<longrightarrow> (\<exists>q0. (x, q0) \<in> caps s \<and> contains q0 q))"

lemma derived_trans: "derived s s1 \<Longrightarrow> evolves me s1 s2 \<Longrightarrow> derived s s2"
proof -
  assume a: "derived s s1" and b: "evolves me s1 s2"
  have "\<exists>q0. (x, q0) \<in> caps s \<and> contains q0 q" if "(x, q) \<in> caps s2" "x < sy_next s" for x q
  proof -
    from a that(2) have "x < sy_next s1" by (simp add: derived_def)
    with b that(1) obtain q1 where q1: "(x, q1) \<in> caps s1" "contains q1 q" unfolding evolves_def by blast
    with a that(2) obtain q0 where "(x, q0) \<in> caps s" "contains q0 q1" unfolding derived_def by blast
    with q1(2) contains_trans show ?thesis by blast
  qed
  with a b show ?thesis by (simp add: derived_def evolves_def)
qed

lemma ipc_reach_derived: "ipc_reach s s' \<Longrightarrow> derived s s'"
proof (induction rule: ipc_reach.induct)
  case (start s)
  show ?case unfolding derived_def using contains_refl by blast
next
  case (call s s1 me c s2)
  then show ?case using derived_trans ipc_do_evolves by blast
next
  case (user s s1 me f)
  then show ?case using derived_trans evolves_write_user by blast
qed

text \<open>C1: no sequence of handle, port and channel calls, by any number of processes running any code, creates
  authority. Whatever right some process holds over an object that existed at the start, or some message carries,
  was held or carried at the start with at least that right.\<close>

theorem ipc_authority_confined:
  assumes "ipc_reach s s'" and "(x, q) \<in> caps s'" and "x < sy_next s"
  shows "\<exists>q0. (x, q0) \<in> caps s \<and> contains q0 q"
  using ipc_reach_derived[OF assms(1)] assms(2,3) unfolding derived_def by blast

subsection \<open>A small system\<close>

text \<open>Two processes with one end each of a channel; the first one also holds a port.\<close>

definition two_processes :: sys where
  "two_processes =
     \<lparr>sy_k = empty_kernel\<lparr>k_chans := ch_create_pair 0 1 Map.empty, k_ports := [2 \<mapsto> po_new]\<rparr>,
      sy_tables = [1 \<mapsto> \<lparr>ht_handles = [(1, \<lparr>he_object = 0, he_rights = R_BASIC\<rparr>), (2, \<lparr>he_object = 2, he_rights = R_ALL\<rparr>)], ht_next_id = 3\<rparr>,
                   2 \<mapsto> \<lparr>ht_handles = [(1, \<lparr>he_object = 1, he_rights = R_BASIC\<rparr>)], ht_next_id = 2\<rparr>],
      sy_umem = (\<lambda>_. mem_write 100 [7, 8, 9] (mem_write 200 (le_bytes 4 2) (\<lambda>_. 0))),
      sy_refs = (\<lambda>x. if x < 3 then 1 else 0), sy_next = 3\<rparr>"

section \<open>A message across\<close>

subsection \<open>References held during a call\<close>

lemma drop_arcs_Nil [simp]: "drop_arcs [] s = Some (Ok s)"
  by (simp add: drop_arcs.simps)

lemma drop_arcs_shared: "sy_refs s x > 1 \<Longrightarrow> drop_arcs (x # xs) s = drop_arcs xs (s\<lparr>sy_refs := (sy_refs s)(x := sy_refs s x - 1)\<rparr>)"
  by (simp add: drop_arcs.simps[of "x # xs"])

lemma drop_arcs_port:
  "sy_refs s x \<le> 1 \<Longrightarrow> k_chans (sy_k s) x = None \<Longrightarrow> k_ports (sy_k s) x = Some p \<Longrightarrow>
   drop_arcs (x # xs) s = drop_arcs (map bi_object (po_bindings p) @ xs)
     (s\<lparr>sy_refs := (sy_refs s)(x := 0), sy_k := (sy_k s)\<lparr>k_ports := (k_ports (sy_k s))(x := None)\<rparr>\<rparr>)"
  by (simp add: drop_arcs.simps[of "x # xs"])

lemma dropping_result: "dropping xs (r, s) = Some (Ok v, s') \<Longrightarrow> r = Ok v"
  by (auto simp: dropping_def split: option.splits res.splits)

lemma dropping_kept: "dropping xs (r, s) = Some (q, s') \<Longrightarrow> kept s s'"
  by (auto simp: dropping_def split: option.splits res.splits dest!: drop_arcs_kept)

lemma holding_Ok:
  assumes "holding x s f = Some (Ok v, s')"
  obtains s1 where "f (arc_clone x s) = Some (Ok v, s1)" "dropping [x] (Ok v, s1) = Some (Ok v, s')"
  using assms dropping_result by (fastforce simp: holding_def bind_eq_Some_conv)

lemma dropping_shared:
  "sy_refs s x > 1 \<Longrightarrow> dropping [x] (r, s) = Some (r, s\<lparr>sy_refs := (sy_refs s)(x := sy_refs s x - 1)\<rparr>)"
  by (simp add: dropping_def drop_arcs_shared)

subsection \<open>Sending\<close>

lemma k_send_inbox:
  assumes "k_send c m k = Some (Ok k')" and "k_chans k c = Some cc" and "ch_peer cc = Some d" and "k_chans k d = Some cd"
  shows "\<exists>cd'. k_chans k' d = Some cd' \<and> ch_messages cd' = ch_messages cd @ [m]"
proof -
  from assms obtain cs H k1 where s: "ch_send c m (k_chans k) = Ok (cs, d, H)"
    "run_calls cs (k\<lparr>k_chans := H\<rparr>) = Some (Ok k1)" "wake_chan d k1 = Ok k'"
    by (auto simp: k_send_def after_Ok ch_send_def upgrade_peer_def Let_def split: res.splits if_splits)
  from s(1) assms obtain d' where d': "H d = Some d'" "ch_messages d' = ch_messages cd @ [m]"
    by (auto simp: ch_send_def upgrade_peer_def Let_def split: if_splits)
  with run_calls_chans[OF s(2)] have "k_chans k1 d = Some d'" by simp
  with s(3) obtain w ws k2 where "wq_wake_one (ch_waiters d') k1 = Ok (w, ws, k2)"
    "k' = k2\<lparr>k_chans := (k_chans k2)(d \<mapsto> d'\<lparr>ch_waiters := ws\<rparr>)\<rparr>"
    by (auto simp: wake_chan_def)
  with d'(2) show ?thesis by simp
qed

lemma send_Ok:
  assumes "sys_channel_send (Some pid) ch dp dl hp hc s = Some (Ok v, s')" and "sy_tables s pid = Some t"
    and c: "ht_get t (handle_from ch) R_WRITE = Some c" and refs: "1 \<le> sy_refs s c"
  obtains obs t' k where
    "take_handles (read_handles (sy_umem s (Some pid)) hp hc) t = (Some obs, t')"
    "k_send c (msg_with_objects (read_data (sy_umem s (Some pid)) dp dl) obs) (sy_k s) = Some (Ok k)"
    "s' = (set_table pid t' s)\<lparr>sy_k := k\<rparr>"
proof -
  have t: "current_table (Some pid) s = Some (pid, t)" using assms(2) by (simp add: current_table_Some)
  from assms(1)[unfolded sys_channel_send_def Let_def t c option.case prod.case] show ?thesis
  proof (rule holding_Ok)
    fix s1
    assume drop: "dropping [c] (Ok v, s1) = Some (Ok v, s')" and
      "(if k_chans (sy_k (arc_clone c s)) c = None then fail EINVAL (arc_clone c s)
        else case take_handles (read_handles (sy_umem s (Some pid)) hp hc) t of
            (None, _) \<Rightarrow> fail EPERM (arc_clone c s)
          | (Some obs, t') \<Rightarrow>
              (case k_send c (msg_with_objects (read_data (sy_umem (set_table pid t' (arc_clone c s)) (Some pid)) dp dl) obs)
                  (sy_k (set_table pid t' (arc_clone c s))) of
                 None \<Rightarrow> None
               | Some (Ok k) \<Rightarrow> Some (Ok 0, (set_table pid t' (arc_clone c s))\<lparr>sy_k := k\<rparr>)
               | Some (Err e) \<Rightarrow> dropping (map fst obs) (Err (Error (send_errno e)), set_table pid t' (arc_clone c s))
               | Some Panic \<Rightarrow> Some (Panic, set_table pid t' (arc_clone c s)))) = Some (Ok v, s1)"
    then obtain obs t' k where k: "take_handles (read_handles (sy_umem s (Some pid)) hp hc) t = (Some obs, t')"
      "k_send c (msg_with_objects (read_data (sy_umem s (Some pid)) dp dl) obs) (sy_k s) = Some (Ok k)"
      "s1 = (set_table pid t' (arc_clone c s))\<lparr>sy_k := k\<rparr>"
      by (auto split: if_splits option.splits prod.splits res.splits dest: dropping_result)
    from drop dropping_shared[of s1 c "Ok v"] refs have "s' = (set_table pid t' s)\<lparr>sy_k := k\<rparr>"
      by (simp add: k(3) set_table_def arc_clone_def)
    with k(1,2) show ?thesis by (rule that)
  qed
qed

subsection \<open>Receiving\<close>

lemma try_recv_Ok:
  assumes "sys_channel_try_recv (Some pid) ch dq dm hq hn ao s = Some (Ok v, s')" and "sy_tables s pid = Some t"
    and "ht_get t (handle_from ch) R_READ = Some d" and "k_chans (sy_k s) d = Some cd" and "ch_messages cd = m # rest"
  obtains k s1 where "recv_finish (Some pid) dq dm hq hn ao m ((arc_clone d s)\<lparr>sy_k := k\<rparr>) = Some (Ok v, s1)" "kept s1 s'"
proof -
  have ok: "recv_channel (Some pid) ch s = Ok d"
    using assms(2-4) by (simp add: recv_channel_def current_table_def)
  obtain k where k: "k_try_recv d (sy_k s) = Ok (m, k)"
    using assms(4,5) by (cases "upgrade_peer ((k_chans (sy_k s))(d \<mapsto> cd\<lparr>ch_messages := rest,
      ch_signals := if rest = [] then flags_remove (ch_signals cd) READABLE else ch_signals cd\<rparr>)) (cd\<lparr>ch_messages := rest,
      ch_signals := if rest = [] then flags_remove (ch_signals cd) READABLE else ch_signals cd\<rparr>)")
      (auto simp: k_try_recv_def ch_try_recv_def Let_def)
  from assms(1)[unfolded sys_channel_try_recv_def ok res.case]
  show ?thesis by (rule holding_Ok) (use k that dropping_kept in auto)
qed

lemma recv_finish_handles:
  assumes "recv_finish (Some pid) dq dm hq hn ao m s = Some (Ok v, s')" and "sy_tables s pid = Some t"
    and "msg_objects m \<noteq> []" "hq \<noteq> 0" "hn > 0" "dq \<noteq> 0" "ao \<noteq> 0" "dm > 0" "msg_data m \<noteq> []"
  obtains hs t' where "ht_receive_many (msg_objects m) t = (Ok (hs, t') :: (error, nat list \<times> handle_table) res)"
    "sy_tables s' = (sy_tables s)(pid \<mapsto> t')"
    "sy_umem s' (Some pid) = mem_write ao (le_bytes 8 (length (msg_data m)) @ le_bytes 8 (length hs))
       (mem_write hq (concat (map (le_bytes 4) (take hn hs))) (mem_write dq (take dm (msg_data m)) (sy_umem s (Some pid))))"
proof -
  have "take (min dm (length (msg_data m))) (msg_data m) = take dm (msg_data m)" by (simp add: min_def)
  with assms show ?thesis
    by (auto simp: recv_finish_def Let_def current_table_def split: res.splits prod.splits intro: that)
qed

text \<open>C2: a message crosses from one process to another. If a send with data and handles succeeds on an empty channel,
  and the other end then receives it into separate buffers that are large enough, the receiver's memory holds the bytes the sender's
  memory held, with their number; each handle value written for the receiver names, in its table, the same object with
  the same rights as the sender's handle did in the sender's; and the sender's handles are gone.\<close>

theorem message_crosses:
  assumes send: "sys_channel_send (Some p1) h1 dp dl hp hc s = Some (Ok u, s1)"
    and recv: "sys_channel_try_recv (Some p2) h2 dq dm hq hn ao s1 = Some (Ok v, s2)"
    and procs: "p1 \<noteq> p2" "sy_tables s p1 = Some t1" "sy_tables s p2 = Some t2" "ht_wf t2"
    and refs: "1 \<le> sy_refs s c"
    and ends: "ht_get t1 (handle_from h1) R_WRITE = Some c" "k_chans (sy_k s) c = Some cc" "ch_peer cc = Some d"
      "k_chans (sy_k s) d = Some cd" "ch_messages cd = []" "ht_get t2 (handle_from h2) R_READ = Some d"
    and sizes: "dp \<noteq> 0" "dq \<noteq> 0" "hp \<noteq> 0" "hq \<noteq> 0" "ao \<noteq> 0" "0 < dl" "dl \<le> dm" "dl < 2 ^ 64" "0 < hc" "hc \<le> hn"
    and dist: "distinct (read_handles (sy_umem s (Some p1)) hp hc)"
    and sep: "apart dq dl hq (4 * hc)" "apart dq dl ao 16" "apart hq (4 * hc) ao 16"
  shows "\<exists>t1' t2'. sy_tables s2 p1 = Some t1' \<and> sy_tables s2 p2 = Some t2' \<and>
    mem_read (sy_umem s2 (Some p2)) dq dl = mem_read (sy_umem s (Some p1)) dp dl \<and>
    mem_u64 (sy_umem s2 (Some p2)) ao = dl \<and>
    (\<forall>i < hc. ht_get_entry t2' (mem_u32 (sy_umem s2 (Some p2)) (hq + 4 * i)) =
                ht_get_entry t1 (mem_u32 (sy_umem s (Some p1)) (hp + 4 * i)) \<and>
              ht_get_entry t1' (mem_u32 (sy_umem s (Some p1)) (hp + 4 * i)) = None)"
proof -
  let ?hs = "read_handles (sy_umem s (Some p1)) hp hc"
  let ?d = "mem_read (sy_umem s (Some p1)) dp dl"
  from sizes have hs: "?hs = map (\<lambda>i. mem_u32 (sy_umem s (Some p1)) (hp + 4 * i)) [0..<hc]" "?hs \<noteq> []" "length ?hs = hc"
    by (auto simp: read_handles_def)
  from sizes have rd: "read_data (sy_umem s (Some p1)) dp dl = ?d" by (simp add: read_data_def)
  from send_Ok[OF send procs(2) ends(1) refs] rd obtain obs t1' k where k:
    "take_handles ?hs t1 = (Some obs, t1')" "k_send c (msg_with_objects ?d obs) (sy_k s) = Some (Ok k)"
    "s1 = (set_table p1 t1' s)\<lparr>sy_k := k\<rparr>" by auto
  then have "ht_transfer_many ?hs t1 = (Some obs, t1')" using hs(2) by (simp add: take_handles_def)
  from transfer_many_results[OF this dist] have obs: "length obs = hc"
    "\<And>i. i < hc \<Longrightarrow> ht_lookup t1 (?hs ! i) = Some \<lparr>he_object = fst (obs ! i), he_rights = snd (obs ! i)\<rparr>"
    "\<And>i. i < hc \<Longrightarrow> ht_lookup t1' (?hs ! i) = None" using hs(3) by auto
  let ?m = "msg_with_objects ?d obs"
  from k_send_inbox[OF k(2) ends(2-4)] ends(5) obtain cd' where cd': "k_chans (sy_k s1) d = Some cd'" "ch_messages cd' = [?m]"
    by (auto simp: k(3))
  have t2: "sy_tables s1 p2 = Some t2" using k(3) procs by simp
  from try_recv_Ok[OF recv t2 ends(6) cd'] obtain k' s3 where
    fin: "recv_finish (Some p2) dq dm hq hn ao ?m ((arc_clone d s1)\<lparr>sy_k := k'\<rparr>) = Some (Ok v, s3)" and kept: "kept s3 s2" .
  have m: "msg_objects ?m = obs" "msg_data ?m = ?d" by (simp_all add: msg_with_objects_def)
  from sizes obs(1) have ne: "msg_objects ?m \<noteq> []" "hn > 0" "dm > 0" "msg_data ?m \<noteq> []"
    unfolding m by (auto simp flip: length_greater_0_conv)
  have tab: "sy_tables ((arc_clone d s1)\<lparr>sy_k := k'\<rparr>) p2 = Some t2" using t2 by simp
  from recv_finish_handles[OF fin tab ne(1) sizes(4) ne(2) sizes(2,5) ne(3,4)] obtain hs' t2' where r:
    "ht_receive_many obs t2 = (Ok (hs', t2') :: (error, nat list \<times> handle_table) res)"
    "sy_tables s3 = (sy_tables s1)(p2 \<mapsto> t2')"
    "sy_umem s3 (Some p2) = mem_write ao (le_bytes 8 (length ?d) @ le_bytes 8 (length hs'))
       (mem_write hq (concat (map (le_bytes 4) (take hn hs'))) (mem_write dq (take dm ?d) (sy_umem s1 (Some p2))))"
    unfolding m by auto
  note rm = receive_many_results[OF r(1) procs(4)]
  have len: "length hs' = hc" "take hn hs' = hs'" "take dm ?d = ?d" using rm obs(1) sizes by auto
  let ?mem = "sy_umem s2 (Some p2)"
  let ?a = "concat (map (le_bytes 4) hs')"
  have mem: "?mem = mem_write ao (le_bytes 8 dl @ le_bytes 8 hc) (mem_write hq ?a (mem_write dq ?d (sy_umem s1 (Some p2))))"
    using r(3) kept by (simp add: kept_def len)
  have "mem_read ?mem dq dl = mem_read (mem_write dq ?d (sy_umem s1 (Some p2))) dq (length ?d)"
    using sep by (simp add: mem apart_def len mem_read_write_other disj_commute)
  then have data: "mem_read ?mem dq dl = ?d" by (simp only: mem_read_write_same)
  have "mem_u64 ?mem ao = dl"
    using sizes(8) mem_read_write_same[of ao "le_bytes 8 dl"]
    by (simp add: mem mem_write_append mem_u64_def mem_read_write_other le_value_bytes)
  moreover have "mem_u32 ?mem (hq + 4 * i) = ht_next_id t2 + i" if "i < hc" for i
  proof -
    have "hq + 4 * i + 4 \<le> hq + 4 * hc" using that by simp
    then have "mem_read ?mem (hq + 4 * i) 4 = mem_read (mem_write hq ?a (mem_write dq ?d (sy_umem s1 (Some p2)))) (hq + 4 * i) 4"
      unfolding mem using sep(3) by (intro mem_read_write_other) (auto simp: apart_def)
    also have "\<dots> = le_bytes 4 (hs' ! i)" using that by (intro mem_read_array) (simp add: len)
    finally show ?thesis using rm obs(1) that by (simp add: mem_u32_def le_value_bytes)
  qed
  moreover have "sy_tables s2 p1 = Some t1'" "sy_tables s2 p2 = Some t2'" using kept r(2) k(3) procs(1) by (simp_all add: kept_def)
  ultimately show ?thesis using data rm obs hs(1) by (auto simp: ht_get_entry_def)
qed

lemma two_processes_sel [simp]:
  "sy_k two_processes = empty_kernel\<lparr>k_chans := ch_create_pair 0 1 Map.empty, k_ports := [2 \<mapsto> po_new]\<rparr>"
  "sy_tables two_processes = [1 \<mapsto> \<lparr>ht_handles = [(1, \<lparr>he_object = 0, he_rights = R_BASIC\<rparr>), (2, \<lparr>he_object = 2, he_rights = R_ALL\<rparr>)], ht_next_id = 3\<rparr>,
     2 \<mapsto> \<lparr>ht_handles = [(1, \<lparr>he_object = 1, he_rights = R_BASIC\<rparr>)], ht_next_id = 2\<rparr>]"
  "sy_refs two_processes = (\<lambda>x. if x < 3 then 1 else 0)" "sy_next two_processes = 3"
  by (simp_all add: two_processes_def)

lemma two_processes_mem [simp]:
  "mem_read (sy_umem two_processes m) 100 3 = [7, 8, 9]" "mem_u32 (sy_umem two_processes m) 200 = 2"
proof -
  let ?m = "mem_write 200 (le_bytes 4 2) (\<lambda>_. 0)"
  show "mem_read (sy_umem two_processes m) 100 3 = [7, 8, 9]"
    using mem_read_write_same[of 100 "[7, 8, 9]" ?m] by (simp add: two_processes_def numeral_3_eq_3)
  have "mem_read (mem_write 100 [7, 8, 9] ?m) 200 4 = le_bytes 4 2"
    using mem_read_write_same[of 200 "le_bytes 4 2"] by (simp add: mem_read_write_other)
  then show "mem_u32 (sy_umem two_processes m) 200 = 2"
    by (simp add: mem_u32_def two_processes_def le_value_bytes)
qed

lemmas table_eval = current_table_def Let_def handle_from_def ht_get_def bt_get_def contains_def rights_defs
  take_handles_def ht_transfer_many_def ht_remove_def bt_remove_def
lemmas chan_eval = ch_create_pair_def ch_fresh_def ch_ops DEFAULT_CAPACITY_def empty_kernel_def signal_defs wq_new_def

definition sent_message :: message where
  "sent_message = msg_with_objects [7, 8, 9] [(2, R_ALL)]"

lemma k_send_eval:
  "\<exists>k. k_send 0 sent_message (sy_k two_processes) = Some (Ok k) \<and> k_chans k 1 = Some ((ch_fresh 0)\<lparr>ch_messages := [sent_message], ch_signals := WRITABLE OR READABLE\<rparr>) \<and> k_chans k 0 = Some (ch_fresh 1)"
  by (simp add: k_send_def chan_eval contains_def run_calls_def after_def lift_res_def wake_chan_def Let_def)

lemma send_eval:
  obtains k where "k_send 0 sent_message (sy_k two_processes) = Some (Ok k)"
    "k_chans k 1 = Some ((ch_fresh 0)\<lparr>ch_messages := [sent_message], ch_signals := WRITABLE OR READABLE\<rparr>)" "k_chans k 0 = Some (ch_fresh 1)"
    "sys_channel_send (Some 1) 1 100 3 200 1 two_processes = Some (Ok 0, (set_table 1
       \<lparr>ht_handles = [(1, \<lparr>he_object = 0, he_rights = R_BASIC\<rparr>)], ht_next_id = 3\<rparr> two_processes)\<lparr>sy_k := k\<rparr>)"
proof -
  from k_send_eval obtain k where k: "k_send 0 sent_message (sy_k two_processes) = Some (Ok k)"
    "k_chans k 1 = Some ((ch_fresh 0)\<lparr>ch_messages := [sent_message], ch_signals := WRITABLE OR READABLE\<rparr>)" "k_chans k 0 = Some (ch_fresh 1)" by blast
  have r: "(\<lambda>x :: nat. if x < 3 then 1 else 0)(0 := Suc 0) = (\<lambda>x. if x < 3 then 1 else (0 :: nat))" by (rule ext) simp
  have "k_send 0 (msg_with_objects [7, 8, 9] [(2, R_ALL)]) (empty_kernel\<lparr>k_chans := ch_create_pair 0 1 Map.empty, k_ports := [2 \<mapsto> po_new]\<rparr>) = Some (Ok k)"
    using k(1) by (simp add: sent_message_def)
  then have "sys_channel_send (Some 1) 1 100 3 200 1 two_processes = Some (Ok 0, (set_table 1
       \<lparr>ht_handles = [(1, \<lparr>he_object = 0, he_rights = R_BASIC\<rparr>)], ht_next_id = 3\<rparr> two_processes)\<lparr>sy_k := k\<rparr>)"
    by (simp add: sys_channel_send_def holding_def dropping_shared read_handles_def read_data_def table_eval ch_create_pair_def set_table_def arc_clone_def r)
       
  with k show ?thesis by (rule that)
qed

theorem ipc_authority_confined_witness:
  "\<exists>s'. ipc_reach two_processes s' \<and> (\<exists>q. (2, q) \<in> caps s') \<and>
     (\<forall>q. (1, q) \<in> caps s' \<longrightarrow> contains R_BASIC q)"
proof -
  obtain k where k: "k_chans k 1 = Some ((ch_fresh 0)\<lparr>ch_messages := [sent_message], ch_signals := WRITABLE OR READABLE\<rparr>)"
    "sys_channel_send (Some 1) 1 100 3 200 1 two_processes = Some (Ok 0, (set_table 1
       \<lparr>ht_handles = [(1, \<lparr>he_object = 0, he_rights = R_BASIC\<rparr>)], ht_next_id = 3\<rparr> two_processes)\<lparr>sy_k := k\<rparr>)"
    using send_eval by metis
  let ?s = "(set_table 1 \<lparr>ht_handles = [(1, \<lparr>he_object = 0, he_rights = R_BASIC\<rparr>)], ht_next_id = 3\<rparr> two_processes)\<lparr>sy_k := k\<rparr>"
  have "turn_state (ipc_do (Some 1) (ChannelSend 1 100 3 200 1) two_processes) = Some ?s" using k(2) by simp
  then have reach: "ipc_reach two_processes ?s" by (rule ipc_reach.call[OF ipc_reach.start])
  have "(2, R_ALL) \<in> message_caps (k_chans k)"
    using message_capI[of "k_chans k" 1, OF k(1)] by (simp add: sent_message_def msg_with_objects_def)
  then have "(2, R_ALL) \<in> caps ?s" by (simp add: caps_def)
  moreover have old: "q0 = R_BASIC" if "(1, q0) \<in> caps two_processes" for q0
    using that by (auto simp: caps_def table_caps_def message_caps_def bt_get_def chan_eval split: if_splits)
      (metis handle_entry.select_convs(2))
  have "contains R_BASIC q" if "(1, q) \<in> caps ?s" for q
    using ipc_authority_confined[OF reach that] old by auto
  ultimately show ?thesis using reach by blast
qed

theorem message_crosses_witness:
  "\<exists>s1 s2 t2. sys_channel_send (Some 1) 1 100 3 200 1 two_processes = Some (Ok 0, s1) \<and>
     sys_channel_try_recv (Some 2) 1 300 8 400 4 500 s1 = Some (Ok 0, s2) \<and>
     mem_read (sy_umem s2 (Some 2)) 300 3 = [7, 8, 9] \<and> sy_tables s2 2 = Some t2 \<and>
     ht_get_entry t2 (mem_u32 (sy_umem s2 (Some 2)) 400) = Some \<lparr>he_object = 2, he_rights = R_ALL\<rparr>"
proof -
  let ?t1 = "\<lparr>ht_handles = [(1, \<lparr>he_object = 0, he_rights = R_BASIC\<rparr>), (2, \<lparr>he_object = 2, he_rights = R_ALL\<rparr>)], ht_next_id = 3\<rparr>"
  let ?t2 = "\<lparr>ht_handles = [(1, \<lparr>he_object = 1, he_rights = R_BASIC\<rparr>)], ht_next_id = 2\<rparr>"
  obtain k where k: "k_chans k 1 = Some ((ch_fresh 0)\<lparr>ch_messages := [sent_message], ch_signals := WRITABLE OR READABLE\<rparr>)"
    "k_chans k 0 = Some (ch_fresh 1)"
    "sys_channel_send (Some 1) 1 100 3 200 1 two_processes = Some (Ok 0, (set_table 1
       \<lparr>ht_handles = [(1, \<lparr>he_object = 0, he_rights = R_BASIC\<rparr>)], ht_next_id = 3\<rparr> two_processes)\<lparr>sy_k := k\<rparr>)"
    using send_eval by metis
  let ?s = "(set_table 1 \<lparr>ht_handles = [(1, \<lparr>he_object = 0, he_rights = R_BASIC\<rparr>)], ht_next_id = 3\<rparr> two_processes)\<lparr>sy_k := k\<rparr>"
  have get: "ht_get ?t1 (handle_from 1) R_WRITE = Some 0" "ht_get ?t2 (handle_from 1) R_READ = Some 1"
    by (simp_all add: table_eval)
  have "\<exists>s2. sys_channel_try_recv (Some 2) 1 300 8 400 4 500 ?s = Some (Ok 0, s2)"
    using k(1,2) get(2) by (simp add: sys_channel_try_recv_def recv_channel_def current_table_def k_try_recv_def ch_try_recv_def
        upgrade_peer_def Let_def ch_fresh_def holding_def dropping_shared recv_finish_def sent_message_def msg_with_objects_def
        ht_insert_def write_user_def set_table_def arc_clone_def)
  then obtain s2 where recv: "sys_channel_try_recv (Some 2) 1 300 8 400 4 500 ?s = Some (Ok 0, s2)" by blast
  have wf: "ht_wf ?t2" by (simp add: ht_wf_def bt_wf_def bt_get_def)
  have "\<exists>t1' t2'. sy_tables s2 1 = Some t1' \<and> sy_tables s2 2 = Some t2' \<and>
    mem_read (sy_umem s2 (Some 2)) 300 3 = mem_read (sy_umem two_processes (Some 1)) 100 3 \<and>
    mem_u64 (sy_umem s2 (Some 2)) 500 = 3 \<and>
    (\<forall>i < 1. ht_get_entry t2' (mem_u32 (sy_umem s2 (Some 2)) (400 + 4 * i)) =
                ht_get_entry ?t1 (mem_u32 (sy_umem two_processes (Some 1)) (200 + 4 * i)) \<and>
              ht_get_entry t1' (mem_u32 (sy_umem two_processes (Some 1)) (200 + 4 * i)) = None)"
    by (rule message_crosses[OF k(3) recv, where ?t1.0 = ?t1 and ?t2.0 = ?t2 and c = 0 and d = 1 and cc = "ch_fresh 1" and cd = "ch_fresh 0"])
      (use wf get in \<open>simp_all add: ch_create_pair_def ch_fresh_def read_handles_def apart_def\<close>)
  with k(3) recv show ?thesis by (auto simp: ht_get_entry_def bt_get_def)
qed

section \<open>Isolation and loss\<close>

subsection \<open>What a call writes\<close>

text \<open>The bytes of the caller's memory that a call is given to write to; a null pointer names none. A later turn of
  a port wait has passed the test for null already.\<close>

definition span :: "nat \<Rightarrow> nat \<Rightarrow> nat set" where
  "span a n = (if a = 0 then {} else {a..<a + n})"

fun buffers :: "ipc_call \<Rightarrow> nat set" where
  "buffers (ChannelCreate a) = span a 8"
| "buffers (ChannelRecv ch dp dl hp hc ao) = span dp dl \<union> span hp (4 * hc) \<union> span ao 16"
| "buffers (RecvResume c dp dl hp hc ao) = span dp dl \<union> span hp (4 * hc) \<union> span ao 16"
| "buffers (ChannelTryRecv ch dp dl hp hc ao) = span dp dl \<union> span hp (4 * hc) \<union> span ao 16"
| "buffers (PortWait ph a n t start now) = span a (56 * n)"
| "buffers (PortResume p a n t start now) = {a..<a + 56 * n}"
| "buffers _ = {}"

text \<open>The data of a packet has the type \<open>[u64; 4]\<close>.\<close>

definition four_words :: "kernel \<Rightarrow> bool" where
  "four_words k \<longleftrightarrow> (\<forall>q \<in> ran (k_ports k). \<forall>pk \<in> set (po_packets q). length (pp_data pk) = 4)"

definition within :: "nat option \<Rightarrow> nat set \<Rightarrow> sys \<Rightarrow> sys \<Rightarrow> bool" where
  "within me A s s' \<longleftrightarrow> (\<forall>x. x \<notin> A \<longrightarrow> sy_umem s' me x = sy_umem s me x)"

lemma within_same: "sy_umem s' = sy_umem s \<Longrightarrow> within me A s s'"
  by (simp add: within_def)

lemma within_quiet [simp]: "within me A s s" "within me A s (arc_clone x s)" "within me A s (s\<lparr>sy_k := k\<rparr>)"
  by (simp_all add: within_def)

lemma within_trans: "within me A s s1 \<Longrightarrow> within me A s1 s2 \<Longrightarrow> within me A s s2"
  by (simp add: within_def)

lemma within_mono: "within me A s s' \<Longrightarrow> A \<subseteq> B \<Longrightarrow> within me B s s'"
  by (auto simp: within_def)

lemma dropping_umem: "dropping xs (r, s) = Some (q, s') \<Longrightarrow> sy_umem s' = sy_umem s"
  by (auto dest: dropping_kept simp: kept_def)

lemma within_dropping: "dropping xs (r, s1) = Some (q, s') \<Longrightarrow> within me A s s1 \<Longrightarrow> within me A s s'"
  by (auto dest!: dropping_umem simp: within_def)

lemma within_bind: "Option.bind q (dropping xs) = Some (r, s') \<Longrightarrow> (\<And>r1 s1. q = Some (r1, s1) \<Longrightarrow> within me A s s1) \<Longrightarrow> within me A s s'"
  by (auto simp: bind_eq_Some_conv elim!: within_dropping)

lemma within_holding:
  assumes "holding x s f = Some (r, s')" and "\<And>q s1. f (arc_clone x s) = Some (q, s1) \<Longrightarrow> within me A (arc_clone x s) s1"
  shows "within me A s s'"
  using assms unfolding holding_def by (elim within_bind) (auto simp: within_def)

lemma within_write: "{a..<a + length bs} \<subseteq> A \<Longrightarrow> within me A s s1 \<Longrightarrow> within me A s (write_user me (mem_write a bs) s1)"
  by (auto simp: within_def mem_write_def)

lemma store_packets_outside:
  "\<forall>pk \<in> set pks. length (pp_data pk) = 4 \<Longrightarrow> x \<notin> {a..<a + 56 * length pks} \<Longrightarrow> store_packets a pks m x = m x"
proof (induction pks arbitrary: a m)
  case (Cons pk pks)
  have "length (concat (map (\<lambda>d. le_bytes 8 (unat d)) (pp_data pk))) = 32"
    using Cons.prems(1) by (simp add: length_concat comp_def sum_list_triv)
  then have "store_packet a pk m x = m x"
    using Cons.prems(2) by (auto simp: store_packet_def mem_write_def)
  with Cons show ?case by auto
qed simp

subsection \<open>Each call writes to its buffers\<close>

lemma insert_object_umem: "insert_object pid x r s = (q, s') \<Longrightarrow> sy_umem s' = sy_umem s"
  by (auto simp: insert_object_def split: option.splits res.splits)

lemma new_umem: "new_port s = (x, s1) \<Longrightarrow> sy_umem s1 = sy_umem s" "new_channels s = (a, b, s1) \<Longrightarrow> sy_umem s1 = sy_umem s"
  by (auto simp: new_port_def new_channels_def Let_def)

lemma holding_umem:
  "holding x s f = Some (r, s') \<Longrightarrow> (\<And>q s1. f (arc_clone x s) = Some (q, s1) \<Longrightarrow> sy_umem s1 = sy_umem s) \<Longrightarrow> sy_umem s' = sy_umem s"
  by (auto simp: holding_def bind_eq_Some_conv dest!: dropping_umem)

lemma handle_umem:
  "sys_handle_close me h s = Some (r, s') \<Longrightarrow> sy_umem s' = sy_umem s"
  "sys_handle_duplicate me h n s = Some (r, s') \<Longrightarrow> sy_umem s' = sy_umem s"
  by (auto simp: sys_handle_close_def sys_handle_duplicate_def split: option.splits prod.splits res.splits dest!: dropping_umem)

lemma port_umem:
  "sys_port_create me s = Some (r, s') \<Longrightarrow> sy_umem s' = sy_umem s"
  "sys_port_bind me ph key oh sigs opts s = Some (r, s') \<Longrightarrow> sy_umem s' = sy_umem s"
  "sys_port_unbind me ph key s = Some (r, s') \<Longrightarrow> sy_umem s' = sy_umem s"
  "sys_port_queue me ph key a s = Some (r, s') \<Longrightarrow> sy_umem s' = sy_umem s"
  subgoal by (auto simp: sys_port_create_def split: option.splits prod.splits dest!: dropping_umem insert_object_umem new_umem)
  subgoal by (auto simp: sys_port_bind_def Let_def split: option.splits prod.splits if_splits res.splits port_error.splits
        elim!: holding_umem dest!: dropping_umem)
  subgoal by (auto simp: sys_port_unbind_def split: option.splits prod.splits res.splits elim!: holding_umem dest!: dropping_umem)
  subgoal by (auto simp: sys_port_queue_def Let_def split: option.splits prod.splits if_splits res.splits elim!: holding_umem)
  done

lemma send_umem: "sys_channel_send me ch dp dl hp hc s = Some (r, s') \<Longrightarrow> sy_umem s' = sy_umem s"
  by (auto simp: sys_channel_send_def Let_def split: option.splits prod.splits if_splits res.splits
      elim!: holding_umem dest!: dropping_umem)

lemma create_within: "sys_channel_create me a s = Some (r, s') \<Longrightarrow> within me (span a 8) s s'"
  by (auto simp: sys_channel_create_def span_def Let_def split: option.splits prod.splits if_splits res.splits
      dest!: dropping_umem insert_object_umem new_umem intro!: within_write intro: within_same)

lemma recv_finish_within:
  assumes "recv_finish me dp dl hp hc ao m s = Some (r, s')"
  shows "within me (span dp dl \<union> span hp (4 * hc) \<union> span ao 16) s s'"
proof -
  let ?A = "span dp dl \<union> span hp (4 * hc) \<union> span ao 16"
  have handles: "length (concat (map (le_bytes 4) (take hc hs))) \<le> 4 * hc" for hs
    by (simp add: length_concat comp_def sum_list_triv)
  define n where "n = min dl (length (msg_data m))"
  define s1 where "s1 = (if dp \<noteq> 0 \<and> n > 0 then write_user me (mem_write dp (take n (msg_data m))) s else s)"
  define report where "report = (\<lambda>k s. if ao \<noteq> 0
      then write_user me (mem_write ao (le_bytes 8 (length (msg_data m)) @ le_bytes 8 k)) s else s)"
  have s1: "within me ?A s s1"
    unfolding s1_def n_def by (auto intro!: within_write simp: span_def)
  have report: "within me ?A s s2 \<Longrightarrow> within me ?A s (report k s2)" for k s2
    unfolding report_def by (auto intro!: within_write simp: span_def)
  have out: "within me ?A s (write_user me (mem_write hp (concat (map (le_bytes 4) (take hc hs)))) (set_table pid t s1))" if "hp \<noteq> 0" for hs pid t
  proof (rule within_write)
    show "{hp..<hp + length (concat (map (le_bytes 4) (take hc hs)))} \<subseteq> ?A"
      using handles[of hs] that by (fastforce simp: span_def)
    show "within me ?A s (set_table pid t s1)" using s1 by (simp add: within_def)
  qed
  from assms s1 show ?thesis
    unfolding recv_finish_def Let_def n_def[symmetric] s1_def[symmetric] report_def[symmetric]
    by (auto split: if_splits option.splits prod.splits res.splits elim!: within_dropping intro!: report out s1)
qed

lemma within_kernel: "within me A (s\<lparr>sy_k := k\<rparr>) s' = within me A s s'" "within me A (arc_clone x s) s' = within me A s s'"
  by (simp_all add: within_def)

lemma recv_within:
  "sys_channel_try_recv me ch dp dl hp hc ao s = Some (r, s') \<Longrightarrow> within me (span dp dl \<union> span hp (4 * hc) \<union> span ao 16) s s'"
  "turn_state (recv_turn me c dp dl hp hc ao s) = Some s' \<Longrightarrow> within me (span dp dl \<union> span hp (4 * hc) \<union> span ao 16) s s'"
  subgoal by (auto simp: sys_channel_try_recv_def within_kernel split: res.splits elim!: within_holding
        dest!: recv_finish_within intro: within_same)
  subgoal by (auto simp: recv_turn_def within_kernel split: res.splits prod.splits recv_turn.splits
        elim!: within_bind within_dropping dest!: recv_finish_within intro: within_same)
  done

lemma wait_turn_packets:
  "po_wait_turn n timeout start now q = Ok (WaitDone pks, dropped, q') \<Longrightarrow> length pks \<le> n \<and> set pks \<subseteq> set (po_packets q)"
  by (auto simp: po_wait_turn_def po_try_dequeue_def Let_def split: prod.splits if_splits option.splits nat.splits dest: in_set_takeD)

lemma port_turn_within:
  assumes "turn_state (port_turn me p a n timeout start now s) = Some s'" and "four_words (sy_k s)"
  shows "within me {a..<a + 56 * n} s s'"
proof -
  have w: "within me {a..<a + 56 * n} s (write_user me (store_packets a pks) (s\<lparr>sy_k := k\<rparr>))"
    if q: "k_ports (sy_k s) p = Some q" "po_wait_turn n timeout start now q = Ok (WaitDone pks, dropped, q')" for q pks dropped q' k
  proof -
    note pks = wait_turn_packets[OF q(2)]
    with assms(2) q(1) have "\<forall>pk \<in> set pks. length (pp_data pk) = 4" by (auto simp: four_words_def ran_def)
    with pks show ?thesis by (auto simp: within_def intro!: store_packets_outside)
  qed
  from assms(1) show ?thesis
    by (auto simp: port_turn_def Let_def split: option.splits res.splits wait_turn.splits
        elim!: within_dropping intro: within_same w)
qed

lemma port_within:
  "turn_state (port_resume me p a n timeout start now s) = Some s' \<Longrightarrow> four_words (sy_k s) \<Longrightarrow> within me {a..<a + 56 * n} s s'"
  "turn_state (sys_port_wait me ph a n t start now s) = Some s' \<Longrightarrow> four_words (sy_k s) \<Longrightarrow> within me (span a (56 * n)) s s'"
proof -
  show resume: "turn_state (port_resume me p a n timeout start now s) = Some s' \<Longrightarrow> four_words (sy_k s) \<Longrightarrow> within me {a..<a + 56 * n} s s'"
    for p timeout s
    using port_turn_within[of me p a n timeout start now s]
    by (cases "port_turn me p a n timeout start now s") (auto simp: port_resume_def elim!: within_bind)
  show "turn_state (sys_port_wait me ph a n t start now s) = Some s' \<Longrightarrow> four_words (sy_k s) \<Longrightarrow> within me (span a (56 * n)) s s'"
    using resume[of _ "port_timeout t" "arc_clone _ s"]
    by (auto simp: sys_port_wait_def sys_port_wait_check_def span_def within_kernel
        split: res.splits if_splits option.splits intro: within_same)
qed

lemma ipc_do_within:
  "turn_state (ipc_do me c s) = Some s' \<Longrightarrow> four_words (sy_k s) \<Longrightarrow> within me (buffers c) s s'"
  by (cases c) (auto simp: sys_channel_recv_def within_kernel split: res.splits
      dest!: handle_umem port_umem send_umem create_within recv_within port_within intro: within_same)

text \<open>C3: a system call on handles, ports or channels, or a later turn of such a call that waits, does not touch the handle table
  of any process but the caller, and of the memory the caller's pointers refer to it changes only bytes of the buffers
  that the arguments of the call name. (The pointers themselves are used as they are given: see \<open>write_user\<close>.)\<close>

theorem ipc_isolates:
  assumes "turn_state (ipc_do me c s) = Some s'" and "four_words (sy_k s)"
  shows "(\<forall>pid. Some pid \<noteq> me \<longrightarrow> sy_tables s' pid = sy_tables s pid) \<and>
    (\<forall>x. x \<notin> buffers c \<longrightarrow> sy_umem s' me x = sy_umem s me x)"
  using ipc_do_evolves[OF assms(1)] ipc_do_within[OF assms] by (simp add: evolves_def within_def)

theorem ipc_isolates_witness:
  "\<exists>s'. turn_state (ipc_do (Some 1) (ChannelSend 1 100 3 200 1) two_processes) = Some s' \<and>
     sy_tables s' 2 = Some \<lparr>ht_handles = [(1, \<lparr>he_object = 1, he_rights = R_BASIC\<rparr>)], ht_next_id = 2\<rparr> \<and>
     sy_umem s' (Some 1) 100 = 7"
proof -
  obtain s' where s': "turn_state (ipc_do (Some 1) (ChannelSend 1 100 3 200 1) two_processes) = Some s'"
    using send_eval by (metis ipc_do.simps(10) option.simps(9) turn_state.simps(1))
  have "four_words (sy_k two_processes)" by (auto simp: four_words_def two_processes_def ran_def po_new_def split: if_splits)
  from ipc_isolates[OF s' this] have "sy_tables s' 2 = sy_tables two_processes 2" "sy_umem s' (Some 1) 100 = sy_umem two_processes (Some 1) 100"
    by simp_all
  moreover have "sy_umem two_processes (Some 1) 100 = 7" by (simp add: two_processes_def mem_write_def)
  ultimately show ?thesis using s' by auto
qed

text \<open>A send that the channel refuses (it is full, or its peer is gone) has already taken the handles out of the sender's table
  and does not put them back: they are gone from it, and they are in no message either.\<close>

theorem refused_send_loses_handles:
  assumes "sys_channel_send (Some pid) ch dp dl hp hc s = Some (r, s')" and "sy_tables s pid = Some t"
    and "ht_get t (handle_from ch) R_WRITE = Some c" and "k_chans (sy_k s) c \<noteq> None"
    and "take_handles (read_handles (sy_umem s (Some pid)) hp hc) t = (Some obs, t')"
    and "k_send c (msg_with_objects (read_data (sy_umem s (Some pid)) dp dl) obs) (sy_k s) = Some (Err e)"
  shows "r \<in> {Err (Error (send_errno e)), Panic} \<and> sy_tables s' pid = Some t' \<and>
    (\<forall>h \<in> set (read_handles (sy_umem s (Some pid)) hp hc). ht_get_entry t' h = None) \<and>
    message_caps (k_chans (sy_k s')) \<subseteq> message_caps (k_chans (sy_k s))"
proof -
  let ?s = "set_table pid t' (arc_clone c s)"
  have t: "current_table (Some pid) s = Some (pid, t)" using assms(2) by (simp add: current_table_Some)
  have res: "q \<in> {q0, Panic}" if "dropping xs (q0, s0) = Some (q, s1)" for xs q0 s0 q s1
    using that by (auto simp: dropping_def split: option.splits res.splits)
  from assms obtain q s1 where d: "dropping (map fst obs) (Err (Error (send_errno e)), ?s) = Some (q, s1)"
    "dropping [c] (q, s1) = Some (r, s')"
    by (auto simp: sys_channel_send_def Let_def t holding_def bind_eq_Some_conv)
  have "kept ?s s'" using dropping_kept[OF d(2)] dropping_kept[OF d(1)] by (rule kept_step)
  moreover have "transfer_take (read_handles (sy_umem s (Some pid)) hp hc) t = (obs, t')"
    using assms(5) by (auto simp: take_handles_def ht_transfer_many_def split: if_splits prod.splits)
  ultimately show ?thesis using res[OF d(1)] res[OF d(2)]
    by (auto simp: kept_def ht_get_entry_def transfer_take_lookup)
qed

text \<open>The same two processes after the second one has closed its end.\<close>

definition peer_gone :: sys where
  "peer_gone = two_processes\<lparr>sy_k := (sy_k two_processes)\<lparr>k_chans := [0 \<mapsto> ch_fresh 1]\<rparr>\<rparr>"

theorem refused_send_loses_handles_witness:
  "\<exists>s' t'. sys_channel_send (Some 1) 1 100 3 200 1 peer_gone = Some (Err (Error EPIPE), s') \<and>
     sy_tables s' 1 = Some t' \<and> ht_get_entry t' 2 = None"
proof -
  let ?t = "\<lparr>ht_handles = [(1, \<lparr>he_object = 0, he_rights = R_BASIC\<rparr>), (2, \<lparr>he_object = 2, he_rights = R_ALL\<rparr>)], ht_next_id = 3\<rparr>"
  let ?t' = "\<lparr>ht_handles = [(1, \<lparr>he_object = 0, he_rights = R_BASIC\<rparr>)], ht_next_id = 3\<rparr>"
  have mem: "read_handles (sy_umem peer_gone (Some 1)) 200 1 = [2]" "read_data (sy_umem peer_gone (Some 1)) 100 3 = [7, 8, 9]"
    by (simp_all add: peer_gone_def read_handles_def read_data_def)
  have get: "ht_get ?t (handle_from 1) R_WRITE = Some 0" "take_handles [2] ?t = (Some [(2, R_ALL)], ?t')"
    by (simp_all add: table_eval)
  have tab: "sy_tables peer_gone 1 = Some ?t" "k_chans (sy_k peer_gone) 0 = Some (ch_fresh 1)" by (simp_all add: peer_gone_def)
  have sel: "sy_refs peer_gone = (\<lambda>x. if x < 3 then 1 else 0)" "k_ports (sy_k peer_gone) 2 = Some po_new" "k_chans (sy_k peer_gone) 2 = None"
    by (simp_all add: peer_gone_def)
  have refused: "k_send 0 (msg_with_objects [7, 8, 9] [(2, R_ALL)]) (sy_k peer_gone) = Some (Err PeerClosed)"
    by (simp add: peer_gone_def k_send_def chan_eval)
  have "\<exists>s'. sys_channel_send (Some 1) 1 100 3 200 1 peer_gone = Some (Err (Error EPIPE), s')"
    using tab get refused mem sel
    by (simp add: sys_channel_send_def current_table_def Let_def holding_def send_errno_def dropping_def drop_arcs_port
        drop_arcs_shared po_new_def)
  then obtain s' where send: "sys_channel_send (Some 1) 1 100 3 200 1 peer_gone = Some (Err (Error EPIPE), s')" by blast
  have "sy_tables s' 1 = Some ?t' \<and> (\<forall>h \<in> set (read_handles (sy_umem peer_gone (Some 1)) 200 1). ht_get_entry ?t' h = None)"
    using refused_send_loses_handles[OF send tab(1) get(1), of "[(2, R_ALL)]" ?t' PeerClosed] tab(2) get(2) refused mem by simp
  with send mem show ?thesis by auto
qed

end
