(* ===== verification/Frame_Memory.thy ===== *)
theory Frame_Memory
  imports Frame_Allocation
begin

text \<open>
  The memory behind the frames: what a holder of frames may do to their bytes without disturbing the
  allocator, and what the allocator's own operations leave alone. The objects that hold frames
  (virtual memory objects) are proved against these facts.
\<close>

section \<open>The allocator depends on its usage maps only\<close>

lemma map_area_byte:
  assumes "e \<in> set es" and "p < be_pages e"
  shows "be_base e + p \<in> map_area es"
proof -
  have "p < be_usage_pages e * 4096" using be_usage_pages_cover[of e] assms(2) by simp
  moreover have "p < be_size e" using be_page_inside[OF assms(2)] by simp
  ultimately show ?thesis using assms(1) unfolding map_area_def by (intro UN_I[of e]) auto
qed

lemma agree_map_byte:
  assumes "agree_on (map_area es) m m'" and "e \<in> set es" and "p < be_pages e"
  shows "be_byte e m' p = be_byte e m p" and "be_taken e m' p = be_taken e m p"
  using assms map_area_byte[OF assms(2,3)] by (auto simp: agree_on_def be_taken_def)

lemma be_ok_agree_map:
  assumes "agree_on (map_area es) m m'" and "e \<in> set es" and "be_ok e m"
  shows "be_ok e m'"
proof -
  have "{p. p < be_pages e \<and> be_taken e m' p} = {p. p < be_pages e \<and> be_taken e m p}"
    using agree_map_byte(2)[OF assms(1,2)] by auto
  with assms show ?thesis
    by (auto simp: be_ok_def agree_map_byte)
qed

lemma table_agree_map:
  assumes "agree_on (map_area es) m m'"
  shows "table_ok es m \<Longrightarrow> table_ok es m'" and "table_free es m' = table_free es m"
proof -
  have "be_free e m' = be_free e m" if "e \<in> set es" for e
    using agree_map_byte(2)[OF assms that] by (auto simp: be_free_def)
  then show "table_free es m' = table_free es m"
    unfolding table_free_def by (intro SUP_cong) auto
  have "table_ok fs m'" if "table_ok fs m" "set fs \<subseteq> set es" for fs
    using that be_ok_agree_map[OF assms] by (induction fs) auto
  then show "table_ok es m \<Longrightarrow> table_ok es m'" by blast
qed

section \<open>Single frames\<close>

abbreviation frame_of :: "buddy \<Rightarrow> nat \<Rightarrow> bool" where
  "frame_of b f \<equiv> managed (ba_table b) f (Suc 0)"

lemma frames_one [simp]: "frames f (Suc 0) = {f}"
  by (auto simp: frames_def)

lemma frame_of_table_frames: "frame_of b f \<longleftrightarrow> f \<in> table_frames (ba_table b)"
  by (fastforce simp: managed_def table_frames_def Suc_le_eq)

lemma run_frames:
  assumes "buddy_run b a n" and "f \<in> frames a n"
  shows "frame_of b f"
  using managed_frames[OF assms] by (simp add: frame_of_table_frames)

lemma free_frame_of: "buddy_inv b \<Longrightarrow> f \<in> free_frames b \<Longrightarrow> frame_of b f"
  using table_free_frames[of "ba_table b" "ba_mem b" f]
  by (simp add: frame_of_table_frames buddy_inv_def free_frames_def)

lemma frame_of_range:
  assumes "frame_of b f"
  shows "frame_bytes f \<subseteq> table_range (ba_table b)"
proof -
  from assms obtain e p where e: "e \<in> set (ba_table b)" "f = be_base e + p * 4096" "p < be_pages e"
    by (auto simp: managed_def)
  then have "frame_bytes f \<subseteq> be_range e"
    using be_page_inside[of p e] by (auto simp: frame_bytes_def be_range_def)
  with e(1) show ?thesis by (auto simp: table_range_def)
qed

lemma frame_of_limit:
  assumes "buddy_inv b" and "frame_of b f"
  shows "f + 4096 \<le> phys_limit"
proof -
  from assms(2) obtain e p where e: "e \<in> set (ba_table b)" "f = be_base e + p * 4096" "p < be_pages e"
    by (auto simp: managed_def)
  with assms(1) have "be_bounded e" using table_ok_entry by (auto simp: buddy_inv_def be_ok_def)
  with e be_page_inside[of p e] show ?thesis by (simp add: be_bounded_def)
qed

lemma frames_apart:
  assumes "buddy_inv b" and "frame_of b f" and "frame_of b g" and "f \<noteq> g"
  shows "frame_bytes f \<inter> frame_bytes g = {}"
  using frames_disjoint[of "ba_table b" "ba_mem b" f g] assms
  by (auto simp: buddy_inv_def frame_of_table_frames)

section \<open>Writing into a frame\<close>

text \<open>Storing into frames that are handed out, or into memory the allocator does not manage,
  leaves the allocator as it was.\<close>

lemma poke_frames_inv:
  assumes "buddy_inv b" and "changed_only A (ba_mem b) m" and "A \<inter> map_area (ba_table b) = {}"
  shows "buddy_inv (b\<lparr>ba_mem := m\<rparr>)" and "free_frames (b\<lparr>ba_mem := m\<rparr>) = free_frames b"
proof -
  have "agree_on (map_area (ba_table b)) (ba_mem b) m"
    using changed_only_agree[OF assms(2)] assms(3) by blast
  from table_agree_map[OF this] assms(1)
  show "buddy_inv (b\<lparr>ba_mem := m\<rparr>)" "free_frames (b\<lparr>ba_mem := m\<rparr>) = free_frames b"
    by (simp_all add: buddy_inv_def free_frames_def)
qed

lemma frame_of_no_map:
  assumes "buddy_inv b" and "frame_of b f"
  shows "frame_bytes f \<inter> map_area (ba_table b) = {}"
  using frame_not_in_maps[of "ba_table b" "ba_mem b" f] assms by (auto simp: buddy_inv_def frame_of_table_frames)

section \<open>Allocating and freeing\<close>

text \<open>\<open>granted b a n b'\<close>: the run was free and has been handed out; the bytes of all other frames,
  and those outside the managed areas, are as before.\<close>

definition granted :: "buddy \<Rightarrow> nat \<Rightarrow> nat \<Rightarrow> buddy \<Rightarrow> bool" where
  "granted b a n b' \<longleftrightarrow> buddy_inv b' \<and> buddy_run b a n \<and> frames a n \<subseteq> free_frames b \<and>
     free_frames b' = free_frames b - frames a n \<and> buddy_run b' = buddy_run b \<and>
     table_range (ba_table b') = table_range (ba_table b) \<and>
     (\<forall>f. frame_of b f \<and> f \<notin> frames a n \<longrightarrow> (\<forall>x \<in> frame_bytes f. phys_byte b' x = phys_byte b x)) \<and>
     (\<forall>x. x \<notin> table_range (ba_table b) \<longrightarrow> phys_byte b' x = phys_byte b x)"

lemma allocate_granted:
  assumes "buddy_inv b" and "0 < n"
  obtains (none) "buddy_allocate n b = Ok (None, b)" "\<nexists>a. buddy_run b a n \<and> frames a n \<subseteq> free_frames b"
    | (some) a b' where "buddy_allocate n b = Ok (Some a, b')" "granted b a n b'"
        "\<forall>f \<in> frames a n. \<forall>x \<in> frame_bytes f. phys_byte b' x = 0"
proof -
  obtain r es m where al: "buddy_allocate n b = Ok (r, b\<lparr>ba_table := es, ba_mem := m\<rparr>)"
    "alloc_post n (ba_table b) (ba_mem b) r es m" "buddy_inv (b\<lparr>ba_table := es, ba_mem := m\<rparr>)"
    "managed es = managed (ba_table b)"
    by (rule buddy_allocate_cases[OF assms])
  have ok: "table_ok (ba_table b) (ba_mem b)" using assms(1) by (simp add: buddy_inv_def)
  show thesis
  proof (cases r)
    case None
    with al(1,2) have "buddy_allocate n b = Ok (None, b)" by (simp add: alloc_post_def)
    moreover have "\<nexists>a. buddy_run b a n \<and> frames a n \<subseteq> free_frames b"
      using al(2) None no_free_run_frames[OF ok] by (auto simp: alloc_post_def managed_def free_frames_def)
    ultimately show thesis by (rule none)
  next
    case (Some a)
    let ?b = "b\<lparr>ba_table := es, ba_mem := m\<rparr>"
    have alloc: "buddy_allocate n b = Ok (Some a, ?b)" using al(1) Some by simp
    have ranges: "table_range es = table_range (ba_table b)"
      and area: "changed_only (map_area (ba_table b) \<union> \<Union> (frame_bytes ` frames a n)) (ba_mem b) m"
      and free: "frames a n \<subseteq> table_free (ba_table b) (ba_mem b)"
      using al(2) Some table_range_map[of es "ba_table b"] by (simp_all add: alloc_post_def)
    have "phys_byte ?b x = phys_byte b x" if "frame_of b f" "f \<notin> frames a n" "x \<in> frame_bytes f" for f x
      using bfa.alloc_keeps[OF assms alloc that(1), of f x] that(2,3) by simp
    moreover have "phys_byte ?b x = phys_byte b x" if "x \<notin> table_range (ba_table b)" for x
    proof -
      have "x \<notin> map_area (ba_table b)" using that map_area_range by blast
      moreover have "x \<notin> frame_bytes f" if "f \<in> frames a n" for f
        using that free table_free_range \<open>x \<notin> table_range (ba_table b)\<close> by blast
      ultimately show ?thesis using area by (auto simp: changed_only_def phys_byte_def)
    qed
    ultimately have "granted b a n ?b"
      using al(3,4) ranges bfa.alloc_takes[OF assms alloc] unfolding granted_def by simp blast
    moreover have "\<forall>f \<in> frames a n. \<forall>x \<in> frame_bytes f. phys_byte ?b x = 0"
      using bfa.alloc_zeroed[OF assms alloc] by blast
    ultimately show thesis using some[OF alloc] by blast
  qed
qed

lemma no_single_free:
  assumes "buddy_inv b" and "\<nexists>a. buddy_run b a 1 \<and> frames a 1 \<subseteq> free_frames b"
  shows "free_frames b = {}"
proof (rule ccontr)
  assume "free_frames b \<noteq> {}"
  then obtain f where "f \<in> free_frames b" by blast
  with assms free_frame_of[OF assms(1)] show False by fastforce
qed

text \<open>A granted run may be filled by its new owner.\<close>

lemma granted_fill:
  assumes "granted b a n b'" and "changed_only (\<Union> (frame_bytes ` frames a n)) (ba_mem b') m"
  shows "granted b a n (b'\<lparr>ba_mem := m\<rparr>)"
proof -
  have inv: "buddy_inv b'" and run: "buddy_run b' a n" "buddy_run b' = buddy_run b"
    and ranges: "table_range (ba_table b') = table_range (ba_table b)"
    using assms(1) by (auto simp: granted_def)
  have fr: "frame_of b' f" if "f \<in> frames a n" for f using run_frames[OF run(1) that] .
  then have "\<Union> (frame_bytes ` frames a n) \<inter> map_area (ba_table b') = {}"
    using frame_of_no_map[OF inv] by blast
  note kept = poke_frames_inv[OF inv assms(2) this]
  have "phys_byte (b'\<lparr>ba_mem := m\<rparr>) x = phys_byte b' x" if "frame_of b f" "f \<notin> frames a n" "x \<in> frame_bytes f" for f x
  proof -
    have "x \<notin> frame_bytes g" if "g \<in> frames a n" for g
      using frames_apart[OF inv _ fr[OF that], of f] run(2) \<open>frame_of b f\<close> \<open>f \<notin> frames a n\<close> \<open>x \<in> frame_bytes f\<close> that
      by auto
    then show ?thesis using assms(2) by (auto simp: changed_only_def phys_byte_def)
  qed
  moreover have "phys_byte (b'\<lparr>ba_mem := m\<rparr>) x = phys_byte b' x" if "x \<notin> table_range (ba_table b)" for x
  proof -
    have "x \<notin> frame_bytes g" if "g \<in> frames a n" for g
      using frame_of_range[OF fr[OF that]] ranges \<open>x \<notin> table_range (ba_table b)\<close> by auto
    then show ?thesis using assms(2) by (auto simp: changed_only_def phys_byte_def)
  qed
  ultimately show ?thesis using assms(1) kept unfolding granted_def by simp blast
qed

text \<open>\<open>returned b f b'\<close>: the frame is free again, and no byte of a frame or outside the managed areas has changed.\<close>

definition returned :: "buddy \<Rightarrow> nat \<Rightarrow> buddy \<Rightarrow> bool" where
  "returned b f b' \<longleftrightarrow> buddy_inv b' \<and> free_frames b' = insert f (free_frames b) \<and> buddy_run b' = buddy_run b \<and>
     table_range (ba_table b') = table_range (ba_table b) \<and>
     (\<forall>g x. frame_of b g \<and> x \<in> frame_bytes g \<longrightarrow> phys_byte b' x = phys_byte b x) \<and>
     (\<forall>x. x \<notin> table_range (ba_table b) \<longrightarrow> phys_byte b' x = phys_byte b x)"

lemma free_one_returned:
  assumes "buddy_inv b" and "frame_of b f" and "f \<notin> free_frames b"
  shows "\<exists>b'. buddy_free_one f b = Ok b' \<and> returned b f b'"
proof -
  obtain es m where fr: "buddy_free f 1 b = Ok (b\<lparr>ba_table := es, ba_mem := m\<rparr>)"
    "free_post f 1 (ba_table b) (ba_mem b) es m" "buddy_inv (b\<lparr>ba_table := es, ba_mem := m\<rparr>)"
    "managed es = managed (ba_table b)"
    by (rule buddy_free_cases[OF assms(1) zero_less_one, of f]) (use assms in auto)
  let ?b = "b\<lparr>ba_table := es, ba_mem := m\<rparr>"
  have ch: "changed_only (map_area (ba_table b)) (ba_mem b) m"
    and ranges: "table_range es = table_range (ba_table b)"
    and free: "free_frames ?b = insert f (free_frames b)"
    using fr(2) table_range_map[of es "ba_table b"] by (simp_all add: free_post_def free_frames_def)
  have off: "phys_byte ?b x = phys_byte b x" if "x \<notin> map_area (ba_table b)" for x
    using that ch by (auto simp: changed_only_def phys_byte_def)
  have "phys_byte ?b x = phys_byte b x" if "frame_of b g" "x \<in> frame_bytes g" for g x
    by (rule off) (use frame_of_no_map[OF assms(1) that(1)] that(2) in blast)
  moreover have "phys_byte ?b x = phys_byte b x" if "x \<notin> table_range (ba_table b)" for x
    by (rule off) (use that map_area_range in blast)
  ultimately have "returned b f ?b"
    using fr(3,4) ranges free unfolding returned_def by simp blast
  with fr(1) show ?thesis by (auto simp: buddy_free_one_def)
qed

end
