(* ===== verification/Page_Table.thy ===== *)
theory Page_Table
  imports Bytes Frame_Memory
begin

text \<open>
  Page tables: \<open>kernel/crates/rmm/src/page\<close> for the \<open>X8664Arch\<close> architecture, over the buddy allocator. The tables are bytes of
  the memory, reached through the direct map. Entries and flags are 64-bit words, addresses natural numbers. A missing
  result (\<open>None\<close>) is \<open>Err ()\<close>, and the \<open>PageFlush\<close> of a successful operation is the address to flush. An operation that
  fails may already have taken frames, so results and states are returned side by side.
\<close>

unbundle bit_operations_syntax

section \<open>Constants of the architecture\<close>

definition PAGE_ENTRY_SHIFT :: nat where "PAGE_ENTRY_SHIFT = 9"
definition PAGE_LEVELS :: nat where "PAGE_LEVELS = 4"
definition ENTRY_ADDRESS_WIDTH :: nat where "ENTRY_ADDRESS_WIDTH = 40"
definition ENTRY_ADDRESS_SHIFT :: nat where "ENTRY_ADDRESS_SHIFT = PAGE_SHIFT"
definition ENTRY_FLAG_PRESENT :: u64 where "ENTRY_FLAG_PRESENT = push_bit 0 1"
definition ENTRY_FLAG_READONLY :: u64 where "ENTRY_FLAG_READONLY = 0"
definition ENTRY_FLAG_READWRITE :: u64 where "ENTRY_FLAG_READWRITE = push_bit 1 1"
definition ENTRY_FLAG_PAGE_USER :: u64 where "ENTRY_FLAG_PAGE_USER = push_bit 2 1"
definition ENTRY_FLAG_TABLE_USER :: u64 where "ENTRY_FLAG_TABLE_USER = ENTRY_FLAG_PAGE_USER"
definition ENTRY_FLAG_GLOBAL :: u64 where "ENTRY_FLAG_GLOBAL = push_bit 8 1"
definition ENTRY_FLAG_NO_GLOBAL :: u64 where "ENTRY_FLAG_NO_GLOBAL = 0"
definition ENTRY_FLAG_NO_EXEC :: u64 where "ENTRY_FLAG_NO_EXEC = push_bit 63 1"
definition ENTRY_FLAG_EXEC :: u64 where "ENTRY_FLAG_EXEC = 0"
definition ENTRY_FLAG_WRITE_COMBINING :: u64 where "ENTRY_FLAG_WRITE_COMBINING = push_bit 7 1"
definition ENTRY_FLAG_DEFAULT_PAGE :: u64 where "ENTRY_FLAG_DEFAULT_PAGE = ENTRY_FLAG_PRESENT"
definition ENTRY_FLAG_DEFAULT_TABLE :: u64 where "ENTRY_FLAG_DEFAULT_TABLE = ENTRY_FLAG_PRESENT OR ENTRY_FLAG_READWRITE"

definition PAGE_ADDRESS_SHIFT :: nat where "PAGE_ADDRESS_SHIFT = PAGE_LEVELS * PAGE_ENTRY_SHIFT + PAGE_SHIFT"
definition PAGE_ADDRESS_SIZE :: nat where "PAGE_ADDRESS_SIZE = 2 ^ PAGE_ADDRESS_SHIFT"
definition PAGE_ADDRESS_MASK :: nat where "PAGE_ADDRESS_MASK = PAGE_ADDRESS_SIZE - PAGE_SIZE"
definition PAGE_ENTRY_SIZE :: nat where "PAGE_ENTRY_SIZE = 2 ^ (PAGE_SHIFT - PAGE_ENTRY_SHIFT)"
definition PAGE_ENTRIES :: nat where "PAGE_ENTRIES = 2 ^ PAGE_ENTRY_SHIFT"
definition PAGE_ENTRY_MASK :: nat where "PAGE_ENTRY_MASK = PAGE_ENTRIES - 1"
definition ENTRY_ADDRESS_SIZE :: u64 where "ENTRY_ADDRESS_SIZE = push_bit ENTRY_ADDRESS_WIDTH 1"
definition ENTRY_ADDRESS_MASK :: u64 where "ENTRY_ADDRESS_MASK = ENTRY_ADDRESS_SIZE - 1"
definition ENTRY_FLAGS_MASK :: u64 where "ENTRY_FLAGS_MASK = NOT (push_bit ENTRY_ADDRESS_SHIFT ENTRY_ADDRESS_MASK)"

lemmas arch_consts = PAGE_ENTRY_SHIFT_def PAGE_LEVELS_def ENTRY_ADDRESS_WIDTH_def ENTRY_ADDRESS_SHIFT_def PAGE_SHIFT_def
  PAGE_SIZE_def PAGE_ADDRESS_SHIFT_def PAGE_ADDRESS_SIZE_def PAGE_ADDRESS_MASK_def PAGE_ENTRY_SIZE_def PAGE_ENTRIES_def
  PAGE_ENTRY_MASK_def ENTRY_ADDRESS_SIZE_def ENTRY_ADDRESS_MASK_def ENTRY_FLAGS_MASK_def

lemmas flag_consts = ENTRY_FLAG_PRESENT_def ENTRY_FLAG_READONLY_def ENTRY_FLAG_READWRITE_def ENTRY_FLAG_PAGE_USER_def
  ENTRY_FLAG_TABLE_USER_def ENTRY_FLAG_GLOBAL_def ENTRY_FLAG_NO_GLOBAL_def ENTRY_FLAG_NO_EXEC_def ENTRY_FLAG_EXEC_def
  ENTRY_FLAG_WRITE_COMBINING_def ENTRY_FLAG_DEFAULT_PAGE_def ENTRY_FLAG_DEFAULT_TABLE_def

definition virt_is_valid :: "nat \<Rightarrow> bool" where
  "virt_is_valid v = (let masked = v AND 0xFFFF800000000000 in masked = 0xFFFF800000000000 \<or> masked = 0)"

datatype table_kind = User | Kernel

definition virt_kind :: "nat \<Rightarrow> table_kind" where
  "virt_kind v = (if sint (word_of_nat v :: u64) < 0 then Kernel else User)"

section \<open>Flags\<close>

type_synonym page_flags = u64

definition pf_new :: page_flags where
  "pf_new = ENTRY_FLAG_DEFAULT_PAGE OR ENTRY_FLAG_READONLY OR ENTRY_FLAG_NO_EXEC OR ENTRY_FLAG_NO_GLOBAL"

definition pf_new_table :: page_flags where
  "pf_new_table = ENTRY_FLAG_DEFAULT_TABLE OR ENTRY_FLAG_NO_EXEC OR ENTRY_FLAG_NO_GLOBAL"

definition pf_custom_flag :: "u64 \<Rightarrow> bool \<Rightarrow> page_flags \<Rightarrow> page_flags" where
  "pf_custom_flag flag v d = (if v then d OR flag else d AND NOT flag)"

definition pf_has_flag :: "u64 \<Rightarrow> page_flags \<Rightarrow> bool" where
  "pf_has_flag flag d \<longleftrightarrow> d AND flag = flag"

definition pf_write_combining :: "bool \<Rightarrow> page_flags \<Rightarrow> page_flags" where
  "pf_write_combining v d = pf_custom_flag ENTRY_FLAG_WRITE_COMBINING v d"

definition pf_has_present :: "page_flags \<Rightarrow> bool" where
  "pf_has_present d = pf_has_flag ENTRY_FLAG_PRESENT d"

definition pf_user :: "bool \<Rightarrow> page_flags \<Rightarrow> page_flags" where
  "pf_user v d = pf_custom_flag ENTRY_FLAG_PAGE_USER v d"

definition pf_has_user :: "page_flags \<Rightarrow> bool" where
  "pf_has_user d = pf_has_flag ENTRY_FLAG_PAGE_USER d"

definition pf_write :: "bool \<Rightarrow> page_flags \<Rightarrow> page_flags" where
  "pf_write v d =
     (if v then pf_custom_flag ENTRY_FLAG_READWRITE True
                  (pf_custom_flag (ENTRY_FLAG_READONLY OR ENTRY_FLAG_READWRITE) False d)
      else pf_custom_flag ENTRY_FLAG_READONLY True
                  (pf_custom_flag (ENTRY_FLAG_READONLY OR ENTRY_FLAG_READWRITE) False d))"

definition pf_has_write :: "page_flags \<Rightarrow> bool" where
  "pf_has_write d \<longleftrightarrow> d AND (ENTRY_FLAG_READONLY OR ENTRY_FLAG_READWRITE) = ENTRY_FLAG_READWRITE"

definition pf_execute :: "bool \<Rightarrow> page_flags \<Rightarrow> page_flags" where
  "pf_execute v d = pf_custom_flag ENTRY_FLAG_EXEC v (pf_custom_flag ENTRY_FLAG_NO_EXEC (\<not> v) d)"

definition pf_has_execute :: "page_flags \<Rightarrow> bool" where
  "pf_has_execute d \<longleftrightarrow> d AND (ENTRY_FLAG_NO_EXEC OR ENTRY_FLAG_EXEC) = ENTRY_FLAG_EXEC"

definition pf_global :: "bool \<Rightarrow> page_flags \<Rightarrow> page_flags" where
  "pf_global v d = pf_custom_flag ENTRY_FLAG_GLOBAL v (pf_custom_flag ENTRY_FLAG_NO_GLOBAL (\<not> v) d)"

definition pf_is_global :: "page_flags \<Rightarrow> bool" where
  "pf_is_global d \<longleftrightarrow> d AND (ENTRY_FLAG_GLOBAL OR ENTRY_FLAG_NO_GLOBAL) = ENTRY_FLAG_GLOBAL"

section \<open>Entries\<close>

definition entry_new :: "nat \<Rightarrow> u64 \<Rightarrow> u64" where
  "entry_new address flags =
     push_bit ENTRY_ADDRESS_SHIFT (drop_bit PAGE_SHIFT (word_of_nat address) AND ENTRY_ADDRESS_MASK) OR flags"

definition entry_present :: "u64 \<Rightarrow> bool" where
  "entry_present d \<longleftrightarrow> d AND ENTRY_FLAG_PRESENT \<noteq> 0"

definition entry_address :: "u64 \<Rightarrow> (nat, nat) res" where
  "entry_address d =
     (let addr = unat (push_bit PAGE_SHIFT (drop_bit ENTRY_ADDRESS_SHIFT d AND ENTRY_ADDRESS_MASK))
      in if entry_present d then Ok addr else Err addr)"

definition entry_flags :: "u64 \<Rightarrow> page_flags" where
  "entry_flags d = d AND ENTRY_FLAGS_MASK"

definition entry_set_flags :: "page_flags \<Rightarrow> u64 \<Rightarrow> u64" where
  "entry_set_flags fl d = d AND NOT ENTRY_FLAGS_MASK OR fl"

section \<open>Tables\<close>

record page_table =
  pt_base :: nat
  pt_phys :: nat
  pt_level :: nat

definition pt_virt :: "page_table \<Rightarrow> (unit, nat) res" where
  "pt_virt t = phys_to_virt (pt_phys t)"

definition level_shift :: "page_table \<Rightarrow> nat" where
  "level_shift t = pt_level t * PAGE_ENTRY_SHIFT + PAGE_SHIFT"

text \<open>A shift by 64 or more panics; a left shift drops the bits it moves out.\<close>

definition chk_shl :: "nat \<Rightarrow> nat \<Rightarrow> ('e, nat) res" where
  "chk_shl x n = (if n < 64 then Ok (x * 2 ^ n mod usize_limit) else Panic)"

definition chk_shr :: "nat \<Rightarrow> nat \<Rightarrow> ('e, nat) res" where
  "chk_shr x n = (if n < 64 then Ok (x div 2 ^ n) else Panic)"

definition pt_entry_base :: "page_table \<Rightarrow> nat \<Rightarrow> (unit, nat) res" where
  "pt_entry_base t i =
     (if i < PAGE_ENTRIES then bind_res (chk_shl i (level_shift t)) (chk_add (pt_base t)) else Err ())"

definition pt_entry_virt :: "page_table \<Rightarrow> nat \<Rightarrow> (unit, nat) res" where
  "pt_entry_virt t i =
     (if i < PAGE_ENTRIES then bind_res (pt_virt t) (\<lambda>v. chk_add v (i * PAGE_ENTRY_SIZE)) else Err ())"

definition pt_entry :: "page_table \<Rightarrow> nat \<Rightarrow> kmem \<Rightarrow> (unit, u64) res" where
  "pt_entry t i m = bind_res (pt_entry_virt t i) (\<lambda>a. Ok (word_of_nat (mem_u64 m a)))"

definition pt_set_entry :: "page_table \<Rightarrow> nat \<Rightarrow> u64 \<Rightarrow> kmem \<Rightarrow> (unit, kmem) res" where
  "pt_set_entry t i e m = bind_res (pt_entry_virt t i) (\<lambda>a. Ok (mem_write a (le_bytes 8 (unat e)) m))"

definition pt_index_of :: "page_table \<Rightarrow> nat \<Rightarrow> (unit, nat) res" where
  "pt_index_of t v =
     (let address = v AND PAGE_ADDRESS_MASK;
          shift = level_shift t;
          level_mask = (PAGE_ENTRIES * 2 ^ (shift mod 64) + (usize_limit - 1)) mod usize_limit
      in if address \<ge> pt_base t then
           bind_res (chk_add (pt_base t) level_mask) (\<lambda>upper.
             if address \<le> upper then bind_res (chk_shr address shift) (\<lambda>x. Ok (x AND PAGE_ENTRY_MASK)) else Err ())
         else Err ())"

definition pt_next :: "page_table \<Rightarrow> nat \<Rightarrow> kmem \<Rightarrow> (unit, page_table) res" where
  "pt_next t i m =
     (if pt_level t = 0 then Err ()
      else bind_res (pt_entry_base t i) (\<lambda>base.
           bind_res (pt_entry t i m) (\<lambda>e.
           bind_res (map_err (\<lambda>_. ()) (entry_address e)) (\<lambda>phys.
             Ok \<lparr>pt_base = base, pt_phys = phys, pt_level = pt_level t - 1\<rparr>))))"

lemma pt_next_level: "pt_next t i m = Ok n \<Longrightarrow> pt_level n < pt_level t"
  by (auto simp: pt_next_def split: if_splits)

section \<open>The mapper\<close>

record page_mapper =
  pm_kind :: table_kind
  pm_table_addr :: nat

definition pm_new :: "table_kind \<Rightarrow> nat \<Rightarrow> page_mapper" where
  "pm_new kind addr = \<lparr>pm_kind = kind, pm_table_addr = addr\<rparr>"

definition pm_create :: "table_kind \<Rightarrow> buddy \<Rightarrow> (unit, page_mapper option \<times> buddy) res" where
  "pm_create kind b = bind_res (buddy_allocate_one b) (\<lambda>(r, b'). Ok (map_option (pm_new kind) r, b'))"

definition pm_table :: "page_mapper \<Rightarrow> page_table" where
  "pm_table p = \<lparr>pt_base = 0, pt_phys = pm_table_addr p, pt_level = PAGE_LEVELS - 1\<rparr>"

definition with_mem :: "kmem \<Rightarrow> buddy \<Rightarrow> buddy" where
  "with_mem m b = b\<lparr>ba_mem := m\<rparr>"

text \<open>The step of the loop in \<open>map_phys\<close>: the next table, which is made if it is missing. The result of \<open>set_entry\<close>
  is not looked at.\<close>

definition pt_descend :: "nat \<Rightarrow> page_table \<Rightarrow> nat \<Rightarrow> buddy \<Rightarrow> (unit, page_table) res \<times> buddy" where
  "pt_descend virt t i b =
     (case pt_next t i (ba_mem b) of
        Err _ \<Rightarrow>
          (case buddy_allocate_one b of
             Ok (Some next_phys, b1) \<Rightarrow>
               let flags = ENTRY_FLAG_DEFAULT_TABLE OR (if virt_kind virt = User then ENTRY_FLAG_TABLE_USER else 0)
               in (case pt_set_entry t i (entry_new next_phys flags) (ba_mem b1) of
                     Ok m \<Rightarrow> (pt_next t i m, with_mem m b1)
                   | Err _ \<Rightarrow> (pt_next t i (ba_mem b1), b1)
                   | Panic \<Rightarrow> (Panic, b1))
           | Ok (None, b1) \<Rightarrow> (Err (), b1)
           | _ \<Rightarrow> (Panic, b))
      | r \<Rightarrow> (r, b))"

lemma pt_descend_level: "pt_descend virt t i b = (Ok n, b') \<Longrightarrow> pt_level n < pt_level t"
  by (auto simp: pt_descend_def Let_def split: res.splits option.splits dest: pt_next_level)

function map_loop :: "nat \<Rightarrow> u64 \<Rightarrow> page_table \<Rightarrow> buddy \<Rightarrow> (unit, nat) res \<times> buddy" where
  "map_loop virt entry t b =
     (case pt_index_of t virt of
        Ok i \<Rightarrow>
          if pt_level t = 0 then
            (case pt_set_entry t i entry (ba_mem b) of
               Ok m \<Rightarrow> (Ok virt, with_mem m b)
             | Err _ \<Rightarrow> (Ok virt, b)
             | Panic \<Rightarrow> (Panic, b))
          else
            (case pt_descend virt t i b of
               (Ok next, b1) \<Rightarrow> map_loop virt entry next b1
             | (Err _, b1) \<Rightarrow> (Err (), b1)
             | (Panic, b1) \<Rightarrow> (Panic, b1))
      | Err _ \<Rightarrow> (Err (), b)
      | Panic \<Rightarrow> (Panic, b))"
  by pat_completeness auto
termination
  by (relation "measure (\<lambda>(virt, entry, t, b). pt_level t)") (auto intro: pt_descend_level[OF sym])

declare map_loop.simps [simp del]

definition pm_map_phys :: "page_mapper \<Rightarrow> nat \<Rightarrow> nat \<Rightarrow> page_flags \<Rightarrow> buddy \<Rightarrow> (unit, nat) res \<times> buddy" where
  "pm_map_phys p virt phys flags b = map_loop virt (entry_new phys flags) (pm_table p) b"

definition pm_map :: "page_mapper \<Rightarrow> nat \<Rightarrow> page_flags \<Rightarrow> buddy \<Rightarrow> (unit, nat) res \<times> buddy" where
  "pm_map p virt flags b =
     (case buddy_allocate_one b of
        Ok (Some phys, b1) \<Rightarrow> pm_map_phys p virt phys flags b1
      | Ok (None, b1) \<Rightarrow> (Err (), b1)
      | _ \<Rightarrow> (Panic, b))"

definition pm_map_linearly :: "page_mapper \<Rightarrow> nat \<Rightarrow> page_flags \<Rightarrow> buddy \<Rightarrow> (unit, nat \<times> nat) res \<times> buddy" where
  "pm_map_linearly p phys flags b =
     (case phys_to_virt phys of
        Ok virt \<Rightarrow>
          (case pm_map_phys p virt phys flags b of
             (Ok fl, b1) \<Rightarrow> (Ok (virt, fl), b1)
           | (Err e, b1) \<Rightarrow> (Err e, b1)
           | (Panic, b1) \<Rightarrow> (Panic, b1))
      | Err e \<Rightarrow> (Err e, b)
      | Panic \<Rightarrow> (Panic, b))"

text \<open>\<open>visit\<close> goes down to the lowest table; the closure is applied to what it finds.\<close>

function visit_loop :: "nat \<Rightarrow> page_table \<Rightarrow> kmem \<Rightarrow> (unit, page_table \<times> nat) res" where
  "visit_loop virt t m =
     bind_res (pt_index_of t virt) (\<lambda>i.
       if pt_level t = 0 then Ok (t, i)
       else (case pt_next t i m of
               Ok next \<Rightarrow> visit_loop virt next m
             | Err _ \<Rightarrow> Err ()
             | Panic \<Rightarrow> Panic))"
  by pat_completeness auto
termination
  by (relation "measure (\<lambda>(virt, t, m). pt_level t)") (auto dest!: pt_next_level)

declare visit_loop.simps [simp del]

definition pm_translate :: "page_mapper \<Rightarrow> nat \<Rightarrow> buddy \<Rightarrow> (unit, nat \<times> page_flags) res" where
  "pm_translate p virt b =
     bind_res (visit_loop virt (pm_table p) (ba_mem b)) (\<lambda>(t, i).
     bind_res (pt_entry t i (ba_mem b)) (\<lambda>e.
     bind_res (map_err (\<lambda>_. ()) (entry_address e)) (\<lambda>phys. Ok (phys, entry_flags e))))"

definition pm_remap_with_full ::
  "page_mapper \<Rightarrow> nat \<Rightarrow> (nat \<Rightarrow> page_flags \<Rightarrow> nat \<times> page_flags) \<Rightarrow> buddy \<Rightarrow> (unit, page_flags \<times> nat \<times> nat) res \<times> buddy" where
  "pm_remap_with_full p virt f b =
     (case bind_res (visit_loop virt (pm_table p) (ba_mem b)) (\<lambda>(t, i).
           bind_res (pt_entry t i (ba_mem b)) (\<lambda>e.
           bind_res (map_err (\<lambda>_. ()) (entry_address e)) (\<lambda>old_phys. Ok (t, i, old_phys, entry_flags e)))) of
        Ok (t, i, old_phys, old_flags) \<Rightarrow>
          (let (new_phys, new_flags) = f old_phys old_flags
           in case pt_set_entry t i (entry_new new_phys new_flags) (ba_mem b) of
                Ok m \<Rightarrow> (Ok (old_flags, old_phys, virt), with_mem m b)
              | Err _ \<Rightarrow> (Ok (old_flags, old_phys, virt), b)
              | Panic \<Rightarrow> (Panic, b))
      | Err e \<Rightarrow> (Err e, b)
      | Panic \<Rightarrow> (Panic, b))"

definition pm_remap_with ::
  "page_mapper \<Rightarrow> nat \<Rightarrow> (page_flags \<Rightarrow> page_flags) \<Rightarrow> buddy \<Rightarrow> (unit, page_flags \<times> nat \<times> nat) res \<times> buddy" where
  "pm_remap_with p virt map_flags b = pm_remap_with_full p virt (\<lambda>same_phys old_flags. (same_phys, map_flags old_flags)) b"

definition pm_remap :: "page_mapper \<Rightarrow> nat \<Rightarrow> page_flags \<Rightarrow> buddy \<Rightarrow> (unit, nat) res \<times> buddy" where
  "pm_remap p virt flags b =
     (case pm_remap_with p virt (\<lambda>_. flags) b of
        (Ok (_, _, fl), b1) \<Rightarrow> (Ok fl, b1)
      | (Err e, b1) \<Rightarrow> (Err e, b1)
      | (Panic, b1) \<Rightarrow> (Panic, b1))"

fun still_populated :: "page_table \<Rightarrow> nat list \<Rightarrow> kmem \<Rightarrow> (unit, bool) res" where
  "still_populated t [] m = Ok False"
| "still_populated t (j # js) m =
     (case pt_entry t j m of
        Ok e \<Rightarrow> if entry_present e then Ok True else still_populated t js m
      | _ \<Rightarrow> Panic)"

text \<open>The part of \<open>unmap_phys_inner\<close> after its recursive call.\<close>

definition drop_empty :: "page_table \<Rightarrow> nat \<Rightarrow> page_table \<Rightarrow> nat \<times> page_flags \<Rightarrow> buddy \<Rightarrow> (unit, nat \<times> page_flags) res \<times> buddy" where
  "drop_empty t i sub found b =
     (case still_populated sub [0..<PAGE_ENTRIES] (ba_mem b) of
        Ok populated \<Rightarrow>
          if populated then (Ok found, b)
          else (case buddy_free_one (pt_phys sub) b of
                  Ok b1 \<Rightarrow>
                    (case pt_set_entry t i (entry_new 0 0) (ba_mem b1) of
                       Ok m \<Rightarrow> (Ok found, with_mem m b1)
                     | Err _ \<Rightarrow> (Ok found, b1)
                     | Panic \<Rightarrow> (Panic, b1))
                | _ \<Rightarrow> (Panic, b))
      | _ \<Rightarrow> (Panic, b))"

function unmap_inner :: "nat \<Rightarrow> page_table \<Rightarrow> bool \<Rightarrow> buddy \<Rightarrow> (unit, nat \<times> page_flags) res \<times> buddy" where
  "unmap_inner virt t unmap_parents b =
     (case pt_index_of t virt of
        Ok i \<Rightarrow>
          if pt_level t = 0 then
            (case pt_entry t i (ba_mem b) of
               Panic \<Rightarrow> (Panic, b)
             | entry_opt \<Rightarrow>
                 (case pt_set_entry t i (entry_new 0 0) (ba_mem b) of
                    Panic \<Rightarrow> (Panic, b)
                  | stored \<Rightarrow>
                      (let b1 = (case stored of Ok m \<Rightarrow> with_mem m b | _ \<Rightarrow> b)
                       in (bind_res entry_opt (\<lambda>e.
                           bind_res (map_err (\<lambda>_. ()) (entry_address e)) (\<lambda>phys. Ok (phys, entry_flags e))), b1))))
          else
            (case pt_next t i (ba_mem b) of
               Ok sub \<Rightarrow>
                 (case unmap_inner virt sub unmap_parents b of
                    (Ok found, b1) \<Rightarrow> if unmap_parents then drop_empty t i sub found b1 else (Ok found, b1)
                  | (r, b1) \<Rightarrow> (r, b1))
             | Err _ \<Rightarrow> (Err (), b)
             | Panic \<Rightarrow> (Panic, b))
      | Err _ \<Rightarrow> (Err (), b)
      | Panic \<Rightarrow> (Panic, b))"
  by pat_completeness auto
termination
  by (relation "measure (\<lambda>(virt, t, up, b). pt_level t)") (auto dest!: pt_next_level)

declare unmap_inner.simps [simp del]

definition pm_unmap_phys :: "page_mapper \<Rightarrow> nat \<Rightarrow> bool \<Rightarrow> buddy \<Rightarrow> (unit, nat \<times> page_flags \<times> nat) res \<times> buddy" where
  "pm_unmap_phys p virt unmap_parents b =
     (case unmap_inner virt (pm_table p) unmap_parents b of
        (Ok (pa, pf), b1) \<Rightarrow> (Ok (pa, pf, virt), b1)
      | (Err e, b1) \<Rightarrow> (Err e, b1)
      | (Panic, b1) \<Rightarrow> (Panic, b1))"

definition pm_unmap :: "page_mapper \<Rightarrow> nat \<Rightarrow> bool \<Rightarrow> buddy \<Rightarrow> (unit, nat) res \<times> buddy" where
  "pm_unmap p virt unmap_parents b =
     (case pm_unmap_phys p virt unmap_parents b of
        (Ok (old, _, fl), b1) \<Rightarrow>
          (case buddy_free_one old b1 of
             Ok b2 \<Rightarrow> (Ok fl, b2)
           | _ \<Rightarrow> (Panic, b1))
      | (Err e, b1) \<Rightarrow> (Err e, b1)
      | (Panic, b1) \<Rightarrow> (Panic, b1))"

end
