(* ===== verification/Page_Mapping.thy ===== *)
theory Page_Mapping
  imports Page_Table
begin

section \<open>Entries\<close>

definition flags_ok :: "page_flags \<Rightarrow> bool" where
  "flags_ok fl \<longleftrightarrow> fl AND ENTRY_FLAGS_MASK = fl"

definition page_address :: "nat \<Rightarrow> bool" where
  "page_address p \<longleftrightarrow> p mod 4096 = 0 \<and> p < 2 ^ 52"

lemma entry_mask [simp]: "ENTRY_ADDRESS_MASK = mask 40"
  by (simp add: ENTRY_ADDRESS_MASK_def ENTRY_ADDRESS_SIZE_def ENTRY_ADDRESS_WIDTH_def mask_eq_exp_minus_1 push_bit_eq_mult)

lemma bit_flags_mask: "bit ENTRY_FLAGS_MASK i \<longleftrightarrow> i < 64 \<and> \<not> (12 \<le> i \<and> i < 52)"
  by (auto simp: ENTRY_FLAGS_MASK_def ENTRY_ADDRESS_SHIFT_def PAGE_SHIFT_def bit_simps)

lemma flags_ok_bit: "flags_ok fl \<Longrightarrow> bit fl i \<Longrightarrow> \<not> (12 \<le> i \<and> i < 52)"
  unfolding flags_ok_def by (metis bit_and_iff bit_flags_mask)

lemma page_address_bit:
  assumes "page_address p" and "bit (word_of_nat p :: u64) i"
  shows "12 \<le> i \<and> i < 52"
proof -
  obtain k where k: "p = k * 2 ^ 12" "k < 2 ^ 40"
    using assms(1) that[of "p div 4096"] by (auto simp: page_address_def)
  have "word_of_nat p = (push_bit 12 (word_of_nat k) :: u64)" by (simp add: k push_bit_eq_mult)
  with assms(2) have i: "12 \<le> i" "bit (word_of_nat k :: u64) (i - 12)" by (auto simp: bit_push_bit_iff)
  moreover have "word_of_nat k = (take_bit 40 (word_of_nat k) :: u64)"
    by (simp only: of_nat_take_bit[symmetric] take_bit_nat_eq_self[OF k(2)])
  ultimately have "bit (take_bit 40 (word_of_nat k) :: u64) (i - 12)" by metis
  with i(1) show ?thesis by (auto simp: bit_take_bit_iff)
qed

lemma entry_bits:
  "bit (entry_new p fl) i \<longleftrightarrow> (12 \<le> i \<and> i < 52 \<and> bit (word_of_nat p :: u64) i) \<or> bit fl i"
  by (auto simp: entry_new_def ENTRY_ADDRESS_SHIFT_def PAGE_SHIFT_def bit_simps dest: bit_imp_le_length)

lemma entry_new_parts:
  assumes "page_address p" and "flags_ok fl"
  shows "push_bit 12 (drop_bit 12 (entry_new p fl) AND mask 40) = word_of_nat p" and "entry_flags (entry_new p fl) = fl"
proof -
  show "push_bit 12 (drop_bit 12 (entry_new p fl) AND mask 40) = word_of_nat p"
  proof (rule bit_eqI)
    fix i
    assume "possible_bit TYPE(u64) i"
    show "bit (push_bit 12 (drop_bit 12 (entry_new p fl) AND mask 40)) i = bit (word_of_nat p :: u64) i"
      using page_address_bit[OF assms(1), of i] flags_ok_bit[OF assms(2), of i]
      by (auto simp: entry_bits bit_simps)
  qed
  show "entry_flags (entry_new p fl) = fl"
  proof (rule bit_eqI)
    fix i
    show "bit (entry_flags (entry_new p fl)) i = bit fl i"
      using flags_ok_bit[OF assms(2), of i] bit_imp_le_length[of fl i]
      by (auto simp: entry_flags_def entry_bits bit_and_iff bit_flags_mask)
  qed
qed

lemma present_bit: "entry_present d \<longleftrightarrow> bit d 0"
  by (simp add: entry_present_def ENTRY_FLAG_PRESENT_def bit_0 and_one_eq odd_iff_mod_2_eq_one)

lemma entry_present_new [simp]: "entry_present (entry_new p fl) = entry_present fl"
  by (simp add: present_bit entry_bits)

definition entry_frame :: "u64 \<Rightarrow> nat" where
  "entry_frame d = unat (push_bit 12 (drop_bit 12 d AND mask 40))"

lemma entry_address_eq: "entry_address d = (if entry_present d then Ok (entry_frame d) else Err (entry_frame d))"
  by (simp add: entry_address_def entry_frame_def Let_def ENTRY_ADDRESS_SHIFT_def PAGE_SHIFT_def)

lemma entry_frame_new: "page_address p \<Longrightarrow> flags_ok fl \<Longrightarrow> entry_frame (entry_new p fl) = p"
  unfolding entry_frame_def entry_new_parts(1) by (simp add: unat_of_nat page_address_def)

lemma entry_frame_address: "page_address (entry_frame d)"
proof -
  let ?x = "take_bit 40 (drop_bit 12 d)"
  have x: "unat ?x < 2 ^ 40" using take_bit_nat_less_exp[of 40 "unat (drop_bit 12 d)"] by (simp add: unsigned_take_bit_eq)
  have "entry_frame d = unat (push_bit 12 ?x)" by (simp add: entry_frame_def take_bit_eq_mask)
  also have "\<dots> = take_bit 64 (unat ?x * 4096)" unfolding unsigned_push_bit_eq by (simp add: push_bit_eq_mult)
  also have "\<dots> = unat ?x * 4096" using x by (intro take_bit_nat_eq_self) simp
  finally show ?thesis using x by (simp add: page_address_def)
qed

lemma entry_zero [simp]: "entry_new 0 0 = 0" "\<not> entry_present 0"
  by (simp_all add: entry_new_def entry_present_def)

section \<open>The path of an address\<close>

definition page_of :: "nat \<Rightarrow> nat" where
  "page_of v = v div 4096 mod 2 ^ 36"

definition slot :: "nat \<Rightarrow> nat \<Rightarrow> nat" where
  "slot l v = page_of v div 2 ^ (9 * l) mod 512"

definition table_at :: "nat \<Rightarrow> nat \<Rightarrow> nat \<Rightarrow> page_table" where
  "table_at l v f = \<lparr>pt_base = page_of v div 2 ^ (9 * l + 9) * 2 ^ (9 * l + 9) * 4096, pt_phys = f, pt_level = l\<rparr>"

lemma slot_less [simp]: "slot l v < 512"
  by (simp add: slot_def)

lemma page_of_less: "page_of v < 2 ^ 36"
  by (simp add: page_of_def)

lemma table_at_simps [simp]: "pt_phys (table_at l v f) = f" "pt_level (table_at l v f) = l"
  by (simp_all add: table_at_def)

lemma pm_table_at: "pm_table p = table_at 3 v (pm_table_addr p)"
  using page_of_less[of v] by (simp add: pm_table_def table_at_def PAGE_LEVELS_def)

lemma address_mask: "v AND PAGE_ADDRESS_MASK = page_of v * 4096"
proof -
  have "PAGE_ADDRESS_MASK = push_bit 12 (mask 36)"
    by (simp add: PAGE_ADDRESS_MASK_def PAGE_ADDRESS_SIZE_def PAGE_ADDRESS_SHIFT_def PAGE_LEVELS_def PAGE_ENTRY_SHIFT_def
        PAGE_SHIFT_def PAGE_SIZE_def push_bit_eq_mult mask_eq_exp_minus_1)
  moreover have "v AND push_bit 12 (mask 36) = push_bit 12 (drop_bit 12 v AND mask 36)"
    by (rule bit_eqI) (auto simp: bit_simps)
  ultimately show ?thesis
    by (simp add: page_of_def push_bit_eq_mult drop_bit_eq_div flip: take_bit_eq_mask) (simp add: take_bit_eq_mod)
qed

lemma level_cases: "l \<le> 3 \<Longrightarrow> l = 0 \<or> l = 1 \<or> l = 2 \<or> l = (3 :: nat)"
  by linarith

lemma level_numbers:
  assumes "l \<le> 3"
  shows "level_shift (table_at l v f) = 9 * l + 12" "(2 :: nat) ^ (9 * l + 9) \<le> 2 ^ 36"
    "(2 :: nat) ^ (9 * l + 12) = 2 ^ (9 * l) * 4096" "(2 :: nat) ^ (9 * l + 9) = 2 ^ (9 * l) * 512"
  using assms by (simp_all add: level_shift_def PAGE_ENTRY_SHIFT_def PAGE_SHIFT_def power_add)
    (use power_increasing[of "9 * l + 9" 36 "2 :: nat"] in \<open>simp add: power_add\<close>)

lemma and_entry_mask: "x AND PAGE_ENTRY_MASK = x mod 512"
proof -
  have "PAGE_ENTRY_MASK = mask 9"
    by (simp add: PAGE_ENTRY_MASK_def PAGE_ENTRIES_def PAGE_ENTRY_SHIFT_def mask_eq_exp_minus_1)
  then show ?thesis unfolding \<open>PAGE_ENTRY_MASK = mask 9\<close> take_bit_eq_mask[symmetric] by (simp add: take_bit_eq_mod)
qed

lemma page_sum_bound:
  fixes a c w :: nat
  assumes "a \<le> w" and "w < 2 ^ 36" and "c \<le> 2 ^ 36"
  shows "a * 4096 + c * 4096 < usize_limit"
proof -
  have "a < 2 ^ 36" using assms by simp
  with assms(3) show ?thesis by simp
qed

lemma index_of_table_at:
  assumes "l \<le> 3"
  shows "pt_index_of (table_at l v f) v = Ok (slot l v)"
proof -
  let ?w = "page_of v" and ?C = "2 ^ (9 * l + 9) :: nat"
  note nums = level_numbers[OF assms]
  have low: "?w div ?C * ?C \<le> ?w" by (rule div_times_less_eq_dividend)
  have high: "?w < ?w div ?C * ?C + ?C" using dividend_less_div_times[of ?C ?w] by simp
  have base: "pt_base (table_at l v f) = ?w div ?C * ?C * 4096" by (simp add: table_at_def)
  have "PAGE_ENTRIES * 2 ^ ((9 * l + 12) mod 64) = ?C * 4096"
    using assms by (simp add: PAGE_ENTRIES_def PAGE_ENTRY_SHIFT_def power_add)
  moreover have "(?C * 4096 + (usize_limit - 1)) mod usize_limit = ?C * 4096 - 1"
  proof -
    have "?C * 4096 + (usize_limit - 1) = (?C * 4096 - 1) + usize_limit" by simp
    moreover have "?C * 4096 - 1 < usize_limit" using nums(2) by simp
    ultimately show ?thesis by (simp only: mod_add_self2 mod_less)
  qed
  ultimately have mask: "(PAGE_ENTRIES * 2 ^ ((9 * l + 12) mod 64) + (usize_limit - 1)) mod usize_limit = ?C * 4096 - 1"
    by presburger
  have "?w div ?C * ?C * 4096 + (?C * 4096 - 1) < usize_limit"
    using page_sum_bound[OF low page_of_less nums(2)] by linarith
  moreover have "?w * 4096 \<le> ?w div ?C * ?C * 4096 + (?C * 4096 - 1)" using high by linarith
  moreover have "?w * 4096 div 2 ^ (9 * l + 12) = ?w div 2 ^ (9 * l)" unfolding nums(3) by simp
  moreover have "9 * l + 12 < 64" using assms by simp
  moreover have "pt_base (table_at l v f) \<le> ?w * 4096" using low by (simp add: base)
  ultimately show ?thesis
    unfolding pt_index_of_def Let_def nums(1) address_mask base mask
    by (simp add: chk_add_eq chk_shr_def and_entry_mask slot_def)
qed

lemma entry_base_table_at:
  assumes "l < 3"
  shows "pt_entry_base (table_at (Suc l) v f) (slot (Suc l) v) = Ok (pt_base (table_at l v g))"
proof -
  let ?w = "page_of v" and ?C = "2 ^ (9 * l + 9) :: nat"
  have S: "Suc l \<le> 3" using assms by simp
  have small: "slot (Suc l) v * ?C \<le> 512 * 2 ^ 27"
    using less_imp_le[OF slot_less[of "Suc l" v]] assms power_increasing[of "9 * l + 9" 27 "2 :: nat"]
    by (intro mult_le_mono) simp_all
  then have small': "slot (Suc l) v * ?C \<le> 2 ^ 36" by simp
  have split: "?w div ?C = ?w div (?C * 512) * 512 + slot (Suc l) v"
    unfolding slot_def div_mult2_eq by (simp add: add.commute)
  have pow: "(2 :: nat) ^ (9 * Suc l + 9) = ?C * 512" "(2 :: nat) ^ (9 * Suc l + 12) = ?C * 4096"
    by (simp_all add: power_add)
  have "?w div (?C * 512) * (?C * 512) \<le> ?w" by (rule div_times_less_eq_dividend)
  from page_sum_bound[OF this page_of_less small']
  have lim: "?w div (?C * 512) * (?C * 512) * 4096 + slot (Suc l) v * (?C * 4096) < usize_limit"
    by (simp only: mult.assoc)
  then have drop: "slot (Suc l) v * (?C * 4096) mod usize_limit = slot (Suc l) v * (?C * 4096)"
    by (intro mod_less) linarith
  have "?w div (?C * 512) * (?C * 512) * 4096 + slot (Suc l) v * (?C * 4096) = ?w div ?C * ?C * 4096"
    unfolding split by (simp add: algebra_simps)
  with lim have "chk_add (?w div (?C * 512) * (?C * 512) * 4096) (slot (Suc l) v * (?C * 4096)) =
      (Ok (?w div ?C * ?C * 4096) :: (unit, nat) res)"
    by (metis chk_add_eq)
  moreover have shift: "level_shift (table_at (Suc l) v f) = 9 * Suc l + 12" "9 * Suc l + 12 < 64"
    using level_numbers(1)[OF S] assms by simp_all
  moreover have "pt_base (table_at (Suc l) v f) = ?w div (?C * 512) * (?C * 512) * 4096"
    "pt_base (table_at l v g) = ?w div ?C * ?C * 4096" by (simp_all only: table_at_def page_table.simps pow)
  ultimately show ?thesis
    using slot_less[of "Suc l" v] unfolding pt_entry_base_def chk_shl_def shift(1) pow drop
    by (simp only: PAGE_ENTRIES_def PAGE_ENTRY_SHIFT_def if_True shift(2) bind_res.simps) simp
qed

section \<open>Entries in memory\<close>

definition entry_at :: "buddy \<Rightarrow> nat \<Rightarrow> nat \<Rightarrow> u64" where
  "entry_at b f i = word_of_nat (mem_u64 (ba_mem b) (f + PHYS_OFFSET + i * 8))"

definition put_entry :: "nat \<Rightarrow> nat \<Rightarrow> u64 \<Rightarrow> buddy \<Rightarrow> buddy" where
  "put_entry f i e b = with_mem (mem_write (f + PHYS_OFFSET + i * 8) (le_bytes 8 (unat e)) (ba_mem b)) b"

lemma entry_virt_ok:
  assumes "pt_phys t + 4096 \<le> phys_limit" and "i < 512"
  shows "pt_entry_virt t i = Ok (pt_phys t + PHYS_OFFSET + i * 8)"
  using assms by (simp add: pt_entry_virt_def pt_virt_def phys_to_virt_ok PAGE_ENTRIES_def PAGE_ENTRY_SHIFT_def
      PAGE_ENTRY_SIZE_def PAGE_SHIFT_def PHYS_OFFSET_def phys_limit_def chk_add_eq)

lemma entry_ok:
  assumes "pt_phys t + 4096 \<le> phys_limit" and "i < 512"
  shows "pt_entry t i (ba_mem b) = Ok (entry_at b (pt_phys t) i)"
    and "pt_set_entry t i e (ba_mem b) = Ok (ba_mem (put_entry (pt_phys t) i e b))"
  by (simp_all add: pt_entry_def pt_set_entry_def entry_virt_ok[OF assms] entry_at_def put_entry_def with_mem_def)

lemma put_entry_with_mem [simp]: "with_mem (ba_mem (put_entry f i e b)) b = put_entry f i e b"
  by (simp add: put_entry_def with_mem_def)

lemma entry_at_frame:
  assumes "\<forall>x \<in> frame_bytes f. phys_byte b' x = phys_byte b x" and "i < 512"
  shows "entry_at b' f i = entry_at b f i"
proof -
  have "mem_read (ba_mem b') (f + PHYS_OFFSET + i * 8) 8 = mem_read (ba_mem b) (f + PHYS_OFFSET + i * 8) 8"
  proof (rule nth_equalityI)
    fix k assume "k < length (mem_read (ba_mem b') (f + PHYS_OFFSET + i * 8) 8)"
    then have k: "k < 8" by simp
    with assms(2) have "f + i * 8 + k \<in> frame_bytes f" by (auto simp: frame_bytes_def)
    with assms(1) have "phys_byte b' (f + i * 8 + k) = phys_byte b (f + i * 8 + k)" by blast
    with k show "mem_read (ba_mem b') (f + PHYS_OFFSET + i * 8) 8 ! k = mem_read (ba_mem b) (f + PHYS_OFFSET + i * 8) 8 ! k"
      by (simp add: phys_byte_def ac_simps)
  qed simp
  then show ?thesis by (simp add: entry_at_def mem_u64_def)
qed

lemma put_entry_simps [simp]:
  "ba_table (put_entry f i e b) = ba_table b" "ba_table_virt (put_entry f i e b) = ba_table_virt b"
  by (simp_all add: put_entry_def with_mem_def)

lemma put_entry_byte:
  assumes "x \<notin> frame_bytes f" and "i < 512"
  shows "phys_byte (put_entry f i e b) x = phys_byte b x"
  using assms by (auto simp: phys_byte_def put_entry_def with_mem_def mem_write_def frame_bytes_def)

lemma entry_at_put_same: "entry_at (put_entry f i e b) f i = e"
proof -
  have len: "length (le_bytes 8 (unat e)) = 8" by simp
  have "unat e < 256 ^ 8" using unsigned_less[of e] by simp
  with mem_read_write_same[of "f + PHYS_OFFSET + i * 8" "le_bytes 8 (unat e)" "ba_mem b"]
  show ?thesis by (simp add: entry_at_def put_entry_def with_mem_def mem_u64_def le_value_bytes)
qed

lemma entry_at_put_slot: "j \<noteq> i \<Longrightarrow> entry_at (put_entry f i e b) f j = entry_at b f j"
  by (simp add: entry_at_def put_entry_def with_mem_def mem_u64_def)
    (subst mem_read_write_other, auto)

lemma put_entry_inv:
  assumes "buddy_inv b" and "frame_of b f" and "i < 512"
  shows "buddy_inv (put_entry f i e b)" and "free_frames (put_entry f i e b) = free_frames b"
proof -
  let ?m = "ba_mem (put_entry f i e b)"
  have "changed_only (frame_bytes f) (ba_mem b) ?m"
    using put_entry_byte[OF _ assms(3), of _ f e b] by (auto simp: changed_only_def phys_byte_def)
  from poke_frames_inv[OF assms(1) this frame_of_no_map[OF assms(1,2)]]
  show "buddy_inv (put_entry f i e b)" "free_frames (put_entry f i e b) = free_frames b"
    by (simp_all add: put_entry_def with_mem_def)
qed

lemma entry_at_put:
  assumes "buddy_inv b" and "frame_of b f" and "frame_of b g" and "i < 512" and "j < 512"
  shows "entry_at (put_entry f i e b) g j = (if g = f \<and> j = i then e else entry_at b g j)"
proof (cases "g = f")
  case False
  then have "frame_bytes g \<inter> frame_bytes f = {}" using frames_apart assms(1-3) by blast
  then have "\<forall>x \<in> frame_bytes g. phys_byte (put_entry f i e b) x = phys_byte b x"
    using put_entry_byte[OF _ assms(4)] by blast
  from entry_at_frame[OF this assms(5)] False show ?thesis by simp
qed (simp add: entry_at_put_same entry_at_put_slot)

section \<open>The tree of tables\<close>

definition step :: "buddy \<Rightarrow> nat \<Rightarrow> nat \<Rightarrow> nat option" where
  "step b f i = (if entry_present (entry_at b f i) then Some (entry_frame (entry_at b f i)) else None)"

definition walk :: "buddy \<Rightarrow> nat \<Rightarrow> nat list \<Rightarrow> nat option" where
  "walk b root p = fold (\<lambda>i r. Option.bind r (\<lambda>f. step b f i)) p (Some root)"

lemma walk_Nil [simp]: "walk b root [] = Some root"
  by (simp add: walk_def)

lemma walk_snoc: "walk b root (p @ [i]) = Option.bind (walk b root p) (\<lambda>f. step b f i)"
  by (simp add: walk_def)

text \<open>\<open>S\<close> is the set of slots of the root that belong to this tree; the other slots of a process' root
  are shared with the kernel.\<close>

definition paths :: "nat set \<Rightarrow> nat list set" where
  "paths S = {p. length p \<le> 3 \<and> set p \<subseteq> {..<512} \<and> (p \<noteq> [] \<longrightarrow> hd p \<in> S)}"

definition tables :: "nat set \<Rightarrow> buddy \<Rightarrow> nat \<Rightarrow> nat set" where
  "tables S b root = {f. \<exists>p \<in> paths S. walk b root p = Some f}"

definition tree_ok :: "nat set \<Rightarrow> buddy \<Rightarrow> nat \<Rightarrow> bool" where
  "tree_ok S b root \<longleftrightarrow> buddy_inv b \<and> (\<forall>f. frame_of b f \<longrightarrow> page_address f) \<and>
     (\<forall>p \<in> paths S. \<forall>f. walk b root p = Some f \<longrightarrow> frame_of b f \<and> f \<notin> free_frames b \<and>
        (\<forall>q \<in> paths S. walk b root q = Some f \<longrightarrow> q = p))"

definition path :: "nat \<Rightarrow> nat list" where
  "path v = [slot 3 v, slot 2 v, slot 1 v]"

text \<open>What the tables say about an address.\<close>

definition decode :: "u64 \<Rightarrow> (nat \<times> page_flags) option" where
  "decode e = (if entry_present e then Some (entry_frame e, entry_flags e) else None)"

definition mapped_to :: "buddy \<Rightarrow> nat \<Rightarrow> nat \<Rightarrow> (nat \<times> page_flags) option" where
  "mapped_to b root v = Option.bind (walk b root (path v)) (\<lambda>f. decode (entry_at b f (slot 0 v)))"

lemma paths_snoc: "p @ [i] \<in> paths S \<longleftrightarrow> p \<in> paths S \<and> length p < 3 \<and> i < 512 \<and> (p = [] \<longrightarrow> i \<in> S)"
  by (cases p) (auto simp: paths_def)

lemma paths_Nil [simp]: "[] \<in> paths S"
  by (simp add: paths_def)

lemma take_path [simp]:
  "path v \<in> paths S \<longleftrightarrow> slot 3 v \<in> S" "length (path v) = 3" 
  by (auto simp: path_def paths_def)

lemma slots_page: "page_of v = ((slot 3 v * 512 + slot 2 v) * 512 + slot 1 v) * 512 + slot 0 v"
proof -
  let ?x = "page_of v"
  let ?a = "?x div 512 div 512 div 512"
  have "?x div (512 * 512 * 512) < 512" using page_of_less[of v] by (simp add: less_mult_imp_div_less)
  then have "?a mod 512 = ?a" by (simp only: div_mult2_eq mod_less)
  moreover have "slot 3 v = ?a mod 512" "slot 2 v = ?x div 512 div 512 mod 512" "slot 1 v = ?x div 512 mod 512"
    "slot 0 v = ?x mod 512"
    by (simp_all add: slot_def flip: div_mult2_eq)
  ultimately show ?thesis by (simp only: div_mult_mod_eq)
qed

lemma path_inject: "path v = path w \<and> slot 0 v = slot 0 w \<longleftrightarrow> page_of v = page_of w"
proof
  assume "path v = path w \<and> slot 0 v = slot 0 w"
  then have "slot 3 v = slot 3 w" "slot 2 v = slot 2 w" "slot 1 v = slot 1 w" "slot 0 v = slot 0 w"
    by (simp_all add: path_def)
  then show "page_of v = page_of w" by (simp only: slots_page[of v] slots_page[of w])
qed (simp add: path_def slot_def)

lemma tree_okD:
  assumes "tree_ok S b root" and "p \<in> paths S" and "walk b root p = Some f"
  shows "frame_of b f" "f \<notin> free_frames b" "f + 4096 \<le> phys_limit" "page_address f"
    "q \<in> paths S \<Longrightarrow> walk b root q = Some f \<Longrightarrow> q = p"
proof -
  show f: "frame_of b f" "f \<notin> free_frames b" "q \<in> paths S \<Longrightarrow> walk b root q = Some f \<Longrightarrow> q = p"
    using assms unfolding tree_ok_def by blast+
  show "f + 4096 \<le> phys_limit" using f(1) assms(1) frame_of_limit by (auto simp: tree_ok_def)
  show "page_address f" using f(1) assms(1) by (auto simp: tree_ok_def)
qed

lemma tables_root [simp]: "root \<in> tables S b root"
  unfolding tables_def by (auto intro: bexI[of _ "[]"])

lemma tablesI: "p \<in> paths S \<Longrightarrow> walk b root p = Some f \<Longrightarrow> f \<in> tables S b root"
  by (auto simp: tables_def)

text \<open>Changing one entry of one table, where what hangs below it before and after has no further entries.\<close>

lemma walk_edit:
  assumes ok: "tree_ok S b root" and p0: "p0 \<in> paths S" "walk b root p0 = Some f"
    and same: "\<And>h j. h \<in> tables S b root \<Longrightarrow> j < 512 \<Longrightarrow> \<not> (h = f \<and> j = i) \<Longrightarrow> entry_at b' h j = entry_at b h j"
    and below: "\<And>g j. p0 @ [i] \<in> paths S \<Longrightarrow> step b f i = Some g \<Longrightarrow> j < 512 \<Longrightarrow> step b g j = None"
    and below': "\<And>g j. p0 @ [i] \<in> paths S \<Longrightarrow> step b' f i = Some g \<Longrightarrow> j < 512 \<Longrightarrow> step b' g j = None"
  shows "q \<in> paths S \<Longrightarrow> walk b' root q = (if q = p0 @ [i] then step b' f i else walk b root q)"
proof (induction q rule: rev_induct)
  case (snoc j r)
  then have r: "r \<in> paths S" "j < 512" and IH: "walk b' root r = (if r = p0 @ [i] then step b' f i else walk b root r)"
    by (auto simp: paths_snoc)
  show ?case
  proof (cases "r = p0 @ [i]")
    case True
    with r(1) have i: "p0 @ [i] \<in> paths S" by simp
    have "walk b' root r = step b' f i" "walk b root r = step b f i" using IH True p0(2) by (simp_all add: walk_snoc)
    then have "walk b' root (r @ [j]) = None" "walk b root (r @ [j]) = None"
      using below'[OF i _ r(2)] below[OF i _ r(2)]
      by (cases "step b' f i"; cases "step b f i"; simp add: walk_snoc[of _ _ r])+
    with True show ?thesis by simp
  next
    case False
    then have eq: "walk b' root r = walk b root r" using IH by simp
    show ?thesis
    proof (cases "walk b root r")
      case None
      with eq p0(2) show ?thesis by (auto simp: walk_snoc)
    next
      case (Some h)
      have "r = p0" if "h = f" using tree_okD(5)[OF ok p0 r(1)] Some that by simp
      then have "step b' h j = step b h j" if "\<not> (h = f \<and> j = i)"
        using same[OF tablesI[OF r(1) Some] r(2) that] by (simp add: step_def)
      with eq Some p0(2) \<open>h = f \<Longrightarrow> r = p0\<close> show ?thesis by (auto simp: walk_snoc)
    qed
  qed
qed simp

section \<open>Changing the tree\<close>

text \<open>The tables and the free frames together stay what they were, the bytes of all other frames are untouched, and so are
  the slots of the root that do not belong to the tree.\<close>

definition rebuilt :: "nat set \<Rightarrow> nat \<Rightarrow> buddy \<Rightarrow> buddy \<Rightarrow> bool" where
  "rebuilt S root b b' \<longleftrightarrow> tree_ok S b' root \<and> buddy_run b' = buddy_run b \<and>
     table_range (ba_table b') = table_range (ba_table b) \<and>
     tables S b' root \<union> free_frames b' = tables S b root \<union> free_frames b \<and>
     (\<forall>f x. frame_of b f \<and> f \<notin> tables S b root \<union> free_frames b \<and> x \<in> frame_bytes f \<longrightarrow> phys_byte b' x = phys_byte b x) \<and>
     (\<forall>x. x \<notin> table_range (ba_table b) \<longrightarrow> phys_byte b' x = phys_byte b x) \<and>
     (\<forall>j < 512. j \<notin> S \<longrightarrow> entry_at b' root j = entry_at b root j)"

lemma rebuilt_refl: "tree_ok S b root \<Longrightarrow> rebuilt S root b b"
  by (simp add: rebuilt_def)

lemma rebuilt_trans: "rebuilt S root b b' \<Longrightarrow> rebuilt S root b' b'' \<Longrightarrow> rebuilt S root b b''"
  unfolding rebuilt_def by simp

lemma tree_tables: "tree_ok S b root \<Longrightarrow> f \<in> tables S b root \<Longrightarrow> frame_of b f \<and> f \<notin> free_frames b"
  by (auto simp: tables_def dest: tree_okD(1,2))

lemma set_leaf:
  assumes ok: "tree_ok S b root" and p0: "p0 \<in> paths S" "walk b root p0 = Some f" "length p0 = 3" and i: "i < 512"
  shows "rebuilt S root b (put_entry f i e b)"
    and "slot 3 w \<in> S \<Longrightarrow> mapped_to (put_entry f i e b) root w =
      (if path w = p0 \<and> slot 0 w = i then decode e else mapped_to b root w)"
    and "q \<in> paths S \<Longrightarrow> walk (put_entry f i e b) root q = walk b root q"
proof -
  let ?b = "put_entry f i e b"
  have inv: "buddy_inv b" using ok by (simp add: tree_ok_def)
  note f = tree_okD[OF ok p0(1,2)]
  have ent: "entry_at ?b h j = (if h = f \<and> j = i then e else entry_at b h j)" if "h \<in> tables S b root" "j < 512" for h j
    using entry_at_put[OF inv f(1) _ i that(2), of h] tree_tables[OF ok that(1)] by simp
  have nopath: "p0 @ [i] \<notin> paths S" using p0(3) by (simp add: paths_snoc)
  have walks: "walk ?b root q = walk b root q" if q: "q \<in> paths S" for q
  proof -
    have "walk ?b root q = (if q = p0 @ [i] then step ?b f i else walk b root q)"
      by (rule walk_edit[OF ok p0(1,2)]) (use nopath ent q in auto)
    with q nopath show ?thesis by auto
  qed
  then show "q \<in> paths S \<Longrightarrow> walk ?b root q = walk b root q" .
  from walks have tabs: "tables S ?b root = tables S b root" by (auto simp: tables_def)
  have run: "buddy_run ?b = buddy_run b" by simp
  note keep = put_entry_inv[OF inv f(1) i, of e]
  have "tree_ok S ?b root" using ok keep walks by (simp add: tree_ok_def)
  moreover have "phys_byte ?b x = phys_byte b x" if "frame_of b g" "g \<notin> tables S b root" "x \<in> frame_bytes g" for g x
  proof (rule put_entry_byte[OF _ i])
    have "g \<noteq> f" using that(2) tablesI[OF p0(1,2)] by auto
    then show "x \<notin> frame_bytes f" using frames_apart[OF inv that(1) f(1)] that(3) by blast
  qed
  moreover have "phys_byte ?b x = phys_byte b x" if "x \<notin> table_range (ba_table b)" for x
    by (rule put_entry_byte[OF _ i]) (use that frame_of_range[OF f(1)] in blast)
  moreover have "root \<noteq> f" using tree_okD(5)[OF ok p0(1,2) paths_Nil] p0(3) by auto
  ultimately show "rebuilt S root b ?b"
    using keep(2) tabs ent[OF tables_root] unfolding rebuilt_def by auto
  assume w: "slot 3 w \<in> S"
  then have pw: "path w \<in> paths S" by simp
  show "mapped_to ?b root w = (if path w = p0 \<and> slot 0 w = i then decode e else mapped_to b root w)"
  proof (cases "walk b root (path w)")
    case (Some h)
    have "h = f \<longleftrightarrow> path w = p0" using tree_okD(5)[OF ok p0(1,2) pw] Some p0(2) by auto
    with Some show ?thesis using walks[OF pw] ent[OF tablesI[OF pw Some], of "slot 0 w"] by (auto simp: mapped_to_def)
  qed (use walks[OF pw] p0(2) in \<open>auto simp: mapped_to_def\<close>)
qed

lemma decode_step: "decode (entry_at b g j) = None \<longleftrightarrow> step b g j = None"
  by (simp add: decode_def step_def)

lemma mapped_None: "(\<And>g. walk b root (path w) = Some g \<Longrightarrow> step b g (slot 0 w) = None) \<Longrightarrow> mapped_to b root w = None"
  by (cases "walk b root (path w)") (auto simp: mapped_to_def decode_step)

text \<open>Hanging a table without entries below a slot, or taking one away.\<close>

lemma edit_child:
  assumes ok: "tree_ok S b root" and i: "p0 @ [i] \<in> paths S" and f: "walk b root p0 = Some f"
    and inv: "buddy_inv b'" and run: "buddy_run b' = buddy_run b"
    and same: "\<And>h j. h \<in> tables S b root \<Longrightarrow> j < 512 \<Longrightarrow> \<not> (h = f \<and> j = i) \<Longrightarrow> entry_at b' h j = entry_at b h j"
    and below: "\<And>g j. step b f i = Some g \<Longrightarrow> j < 512 \<Longrightarrow> step b g j = None"
    and below': "\<And>g j. step b' f i = Some g \<Longrightarrow> j < 512 \<Longrightarrow> step b' g j = None"
    and fresh: "set_option (step b' f i) \<subseteq> free_frames b - free_frames b'"
    and free: "free_frames b' \<subseteq> free_frames b \<union> set_option (step b f i)"
  shows "tree_ok S b' root"
    and "tables S b' root = tables S b root - set_option (step b f i) \<union> set_option (step b' f i)"
    and "slot 3 w \<in> S \<Longrightarrow> mapped_to b' root w = mapped_to b root w"
    and "q \<in> paths S \<Longrightarrow> walk b' root q = (if q = p0 @ [i] then step b' f i else walk b root q)"
proof -
  have p0: "p0 \<in> paths S" "i < 512" "length p0 < 3" using i by (auto simp: paths_snoc)
  have walks: "walk b' root q = (if q = p0 @ [i] then step b' f i else walk b root q)" if "q \<in> paths S" for q
    by (rule walk_edit[OF ok p0(1) f]) (use same below below' that in auto)
  then show "q \<in> paths S \<Longrightarrow> walk b' root q = (if q = p0 @ [i] then step b' f i else walk b root q)" .
  have child: "walk b root (p0 @ [i]) = step b f i" using f by (simp add: walk_snoc)
  have other: "h \<notin> set_option (step b f i) \<and> h \<notin> set_option (step b' f i) \<and> frame_of b h \<and> h \<notin> free_frames b'"
    if "q \<in> paths S" "q \<noteq> p0 @ [i]" "walk b root q = Some h" for q h
  proof -
    note h = tree_okD[OF ok that(1,3)]
    have "h \<notin> set_option (step b f i)" using h(5)[OF i] child that(2) by auto
    with h(1,2) fresh free show ?thesis by auto
  qed
  have frm: "frame_of b g" if "g \<in> free_frames b" for g
    using free_frame_of[OF _ that] ok by (simp add: tree_ok_def)
  show "tree_ok S b' root"
    unfolding tree_ok_def run
  proof (intro conjI ballI allI impI)
    show "buddy_inv b'" by (rule inv)
    show "page_address g" if "frame_of b g" for g using that ok by (simp add: tree_ok_def)
    fix q g assume q: "q \<in> paths S" "walk b' root q = Some g"
    have "frame_of b g \<and> g \<notin> free_frames b'"
    proof (cases "q = p0 @ [i]")
      case True
      with walks[OF q(1)] q(2) have "step b' f i = Some g" by simp
      with fresh frm show ?thesis by auto
    qed (use walks[OF q(1)] q(2) other[OF q(1)] in simp)
    then show "frame_of b g" "g \<notin> free_frames b'" by blast+
    fix r assume r: "r \<in> paths S" "walk b' root r = Some g"
    show "r = q"
    proof (cases "q = p0 @ [i] \<or> r = p0 @ [i]")
      case True
      have "x = p0 @ [i]" if "x \<in> paths S" "walk b' root x = Some g" "step b' f i = Some g" for x
        using walks[OF that(1)] that(2,3) other[OF that(1), of g] by (auto split: if_splits)
      with True walks[OF q(1)] walks[OF r(1)] q r show ?thesis by metis
    next
      case False
      then have "walk b root q = Some g" "walk b root r = Some g" using walks[OF q(1)] walks[OF r(1)] q r by auto
      then show ?thesis using tree_okD(5)[OF ok q(1) _ r(1)] by blast
    qed
  qed
  show "tables S b' root = tables S b root - set_option (step b f i) \<union> set_option (step b' f i)"
  proof (intro equalityI subsetI)
    fix g assume "g \<in> tables S b' root"
    then obtain q where "q \<in> paths S" "walk b' root q = Some g" by (auto simp: tables_def)
    with walks[of q] other[of q g] show "g \<in> tables S b root - set_option (step b f i) \<union> set_option (step b' f i)"
      by (auto simp: tables_def split: if_splits)
  next
    fix g assume g: "g \<in> tables S b root - set_option (step b f i) \<union> set_option (step b' f i)"
    show "g \<in> tables S b' root"
    proof (cases "step b' f i = Some g")
      case True
      with walks[OF i] show ?thesis by (intro tablesI[OF i]) simp
    next
      case False
      with g obtain q where q: "q \<in> paths S" "walk b root q = Some g" "step b f i \<noteq> Some g" by (auto simp: tables_def)
      with child have "q \<noteq> p0 @ [i]" by auto
      with walks[OF q(1)] q(2) show ?thesis by (intro tablesI[OF q(1)]) simp
    qed
  qed
  assume w: "slot 3 w \<in> S"
  then have pw: "path w \<in> paths S" by simp
  show "mapped_to b' root w = mapped_to b root w"
  proof (cases "path w = p0 @ [i]")
    case True
    have "mapped_to b' root w = None" "mapped_to b root w = None"
      by (rule mapped_None; use walks[OF pw] True child below' below in simp)+
    then show ?thesis by simp
  next
    case False
    show ?thesis
    proof (cases "walk b root (path w)")
      case (Some h)
      have "h = f \<Longrightarrow> path w = p0" using tree_okD(5)[OF ok p0(1) f pw] Some by simp
      then have "h \<noteq> f" using p0(3) take_path(2)[of w] by auto
      then have "entry_at b' h (slot 0 w) = entry_at b h (slot 0 w)" by (intro same tablesI[OF pw Some]) auto
      with Some walks[OF pw] False show ?thesis by (simp add: mapped_to_def)
    qed (use walks[OF pw] False in \<open>simp add: mapped_to_def\<close>)
  qed
qed

lemma zero_entry:
  assumes "\<forall>x \<in> frame_bytes g. phys_byte b x = 0" and "j < 512"
  shows "entry_at b g j = 0"
proof -
  let ?a = "g + PHYS_OFFSET + j * 8"
  have "mem_read (ba_mem b) ?a 8 = replicate 8 0"
  proof (rule nth_equalityI)
    fix k assume "k < length (mem_read (ba_mem b) ?a 8)"
    moreover from this assms(2) have "g + j * 8 + k \<in> frame_bytes g" by (auto simp: frame_bytes_def)
    with assms(1) have "ba_mem b (g + j * 8 + k + PHYS_OFFSET) = 0" by (simp add: phys_byte_def)
    ultimately show "mem_read (ba_mem b) ?a 8 ! k = replicate 8 0 ! k" by (simp add: ac_simps)
  qed simp
  then show ?thesis by (simp add: entry_at_def mem_u64_def eval_nat_numeral)
qed

text \<open>A new table from the allocator, hung into an empty slot.\<close>

lemma grow:
  assumes ok: "tree_ok S b root" and i: "p0 @ [i] \<in> paths S" and f: "walk b root p0 = Some f" and none: "step b f i = None"
    and gr: "granted b g 1 b1" and zero: "\<forall>x \<in> frame_bytes g. phys_byte b1 x = 0"
    and fl: "flags_ok fl" "entry_present fl"
  defines "b2 \<equiv> put_entry f i (entry_new g fl) b1"
  shows "rebuilt S root b b2" and "walk b2 root (p0 @ [i]) = Some g" and "step b2 f i = Some g"
    and "free_frames b2 = free_frames b - {g}"
    and "slot 3 w \<in> S \<Longrightarrow> mapped_to b2 root w = mapped_to b root w"
proof -
  have p0: "p0 \<in> paths S" "i < 512" using i by (auto simp: paths_snoc)
  note f' = tree_okD[OF ok p0(1) f]
  have inv: "buddy_inv b1" and run: "buddy_run b1 = buddy_run b" and range: "table_range (ba_table b1) = table_range (ba_table b)"
    and free: "g \<in> free_frames b" "free_frames b1 = free_frames b - {g}"
    and keep: "\<And>h x. frame_of b h \<Longrightarrow> h \<noteq> g \<Longrightarrow> x \<in> frame_bytes h \<Longrightarrow> phys_byte b1 x = phys_byte b x"
    and outer: "\<And>x. x \<notin> table_range (ba_table b) \<Longrightarrow> phys_byte b1 x = phys_byte b x"
    using gr by (auto simp: granted_def)
  have frg: "frame_of b g" using free_frame_of[OF _ free(1)] ok by (simp add: tree_ok_def)
  have fg: "f \<noteq> g" using f'(2) free(1) by auto
  have f1: "frame_of b1 f" "frame_of b1 g" using f'(1) frg run by auto
  have pg: "page_address g" using frg ok by (simp add: tree_ok_def)
  have run2: "buddy_run b2 = buddy_run b" using run by (simp add: b2_def)
  note kept = put_entry_inv[OF inv f1(1) p0(2), of "entry_new g fl"]
  have free2: "free_frames b2 = free_frames b - {g}" using kept(2) free(2) by (simp add: b2_def)
  then show "free_frames b2 = free_frames b - {g}" .
  have entf: "entry_at b2 f i = entry_new g fl" by (simp add: b2_def entry_at_put_same)
  then have stepf: "step b2 f i = Some g" using fl pg by (simp add: step_def entry_frame_new)
  then show "step b2 f i = Some g" .
  have same: "entry_at b2 h j = entry_at b h j" if "h \<in> tables S b root" "j < 512" "\<not> (h = f \<and> j = i)" for h j
  proof -
    have h: "frame_of b h" "h \<noteq> g" using tree_tables[OF ok that(1)] free(1) by auto
    then have "entry_at b2 h j = entry_at b1 h j"
      using entry_at_put[OF inv f1(1) _ p0(2) that(2), of h "entry_new g fl"] run that(3) by (auto simp: b2_def)
    with entry_at_frame[of h b1 b j] keep[OF h] that(2) show ?thesis by simp
  qed
  have empty: "step b2 g j = None" if "j < 512" for j
  proof -
    have "entry_at b2 g j = entry_at b1 g j"
      using entry_at_put[OF inv f1 p0(2) that, of "entry_new g fl"] fg by (simp add: b2_def)
    moreover have "entry_at b1 g j = 0" by (rule zero_entry[OF zero that])
    ultimately show ?thesis by (simp add: step_def)
  qed
  note ed = edit_child[OF ok i f, of b2]
  have tree: "tree_ok S b2 root"
    and tabs: "tables S b2 root = tables S b root - set_option (step b f i) \<union> set_option (step b2 f i)"
    and maps: "slot 3 w \<in> S \<Longrightarrow> mapped_to b2 root w = mapped_to b root w"
    and child: "\<And>q. q \<in> paths S \<Longrightarrow> walk b2 root q = (if q = p0 @ [i] then step b2 f i else walk b root q)"
    by (rule ed; use kept(1) run2 same empty none stepf free2 free(1) in \<open>auto simp: b2_def\<close>)+
  show "slot 3 w \<in> S \<Longrightarrow> mapped_to b2 root w = mapped_to b root w" by (rule maps)
  show "walk b2 root (p0 @ [i]) = Some g" using child[OF i] stepf by simp
  have "phys_byte b2 x = phys_byte b x" if "frame_of b h" "h \<notin> tables S b root \<union> free_frames b" "x \<in> frame_bytes h" for h x
  proof -
    have "h \<noteq> f" "h \<noteq> g" using that(2) tablesI[OF p0(1) f] free(1) by auto
    then have "x \<notin> frame_bytes f" using frames_apart[OF _ that(1) f'(1)] that(3) ok by (auto simp: tree_ok_def)
    then show ?thesis using keep[OF that(1) \<open>h \<noteq> g\<close> that(3)] put_entry_byte[OF _ p0(2)] by (simp add: b2_def)
  qed
  moreover have "phys_byte b2 x = phys_byte b x" if "x \<notin> table_range (ba_table b)" for x
  proof -
    have "x \<notin> frame_bytes f" using frame_of_range[OF f'(1)] that by blast
    from put_entry_byte[OF this p0(2)] outer[OF that] show ?thesis by (simp add: b2_def)
  qed
  moreover have "entry_at b2 root j = entry_at b root j" if "j < 512" "j \<notin> S" for j
  proof (rule same[OF tables_root that(1)])
    have "p0 = []" if "root = f" using tree_okD(5)[OF ok p0(1) f paths_Nil] that by simp
    with i that(2) show "\<not> (root = f \<and> j = i)" by (auto simp: paths_snoc)
  qed
  ultimately show "rebuilt S root b b2"
    unfolding rebuilt_def using tree run2 range tabs free2 free(1) none stepf by (auto simp: b2_def)
qed

text \<open>A table without entries, given back and cleared from its slot.\<close>

lemma prune:
  assumes ok: "tree_ok S b root" and i: "p0 @ [i] \<in> paths S" and f: "walk b root p0 = Some f" and g: "step b f i = Some g"
    and none: "\<And>j. j < 512 \<Longrightarrow> step b g j = None" and re: "returned b g b1"
  defines "b2 \<equiv> put_entry f i 0 b1"
  shows "rebuilt S root b b2" and "slot 3 w \<in> S \<Longrightarrow> mapped_to b2 root w = mapped_to b root w"
    and "q \<in> paths S \<Longrightarrow> q \<noteq> p0 @ [i] \<Longrightarrow> walk b2 root q = walk b root q"
proof -
  have p0: "p0 \<in> paths S" "i < 512" using i by (auto simp: paths_snoc)
  note f' = tree_okD[OF ok p0(1) f]
  have wg: "walk b root (p0 @ [i]) = Some g" using f g by (simp add: walk_snoc)
  note g' = tree_okD[OF ok i wg]
  have inv: "buddy_inv b1" and run: "buddy_run b1 = buddy_run b" and range: "table_range (ba_table b1) = table_range (ba_table b)"
    and free: "free_frames b1 = insert g (free_frames b)"
    and keep: "\<And>h x. frame_of b h \<Longrightarrow> x \<in> frame_bytes h \<Longrightarrow> phys_byte b1 x = phys_byte b x"
    and outer: "\<And>x. x \<notin> table_range (ba_table b) \<Longrightarrow> phys_byte b1 x = phys_byte b x"
    using re by (auto simp: returned_def)
  have f1: "frame_of b1 f" using f'(1) run by auto
  have run2: "buddy_run b2 = buddy_run b" using run by (simp add: b2_def)
  note kept = put_entry_inv[OF inv f1 p0(2), of 0]
  have free2: "free_frames b2 = insert g (free_frames b)" using kept(2) free by (simp add: b2_def)
  have stepf: "step b2 f i = None" by (simp add: b2_def step_def entry_at_put_same)
  have same: "entry_at b2 h j = entry_at b h j" if "h \<in> tables S b root" "j < 512" "\<not> (h = f \<and> j = i)" for h j
  proof -
    have h: "frame_of b h" using tree_tables[OF ok that(1)] by auto
    then have "entry_at b2 h j = entry_at b1 h j"
      using entry_at_put[OF inv f1 _ p0(2) that(2), of h 0] run that(3) by (auto simp: b2_def)
    with entry_at_frame[of h b1 b j] keep[OF h] that(2) show ?thesis by simp
  qed
  note ed = edit_child[OF ok i f, of b2]
  have tree: "tree_ok S b2 root"
    and tabs: "tables S b2 root = tables S b root - set_option (step b f i) \<union> set_option (step b2 f i)"
    and maps: "slot 3 w \<in> S \<Longrightarrow> mapped_to b2 root w = mapped_to b root w"
    and walks: "\<And>q. q \<in> paths S \<Longrightarrow> walk b2 root q = (if q = p0 @ [i] then step b2 f i else walk b root q)"
    by (rule ed; use kept(1) run2 same none g stepf free2 in \<open>auto simp: b2_def\<close>)+
  show "slot 3 w \<in> S \<Longrightarrow> mapped_to b2 root w = mapped_to b root w" by (rule maps)
  show "q \<in> paths S \<Longrightarrow> q \<noteq> p0 @ [i] \<Longrightarrow> walk b2 root q = walk b root q" using walks[of q] by simp
  have "phys_byte b2 x = phys_byte b x" if "frame_of b h" "h \<notin> tables S b root \<union> free_frames b" "x \<in> frame_bytes h" for h x
  proof -
    have "h \<noteq> f" using that(2) tablesI[OF p0(1) f] by auto
    then have "x \<notin> frame_bytes f" using frames_apart[OF _ that(1) f'(1)] that(3) ok by (auto simp: tree_ok_def)
    then show ?thesis using keep[OF that(1,3)] put_entry_byte[OF _ p0(2)] by (simp add: b2_def)
  qed
  moreover have "phys_byte b2 x = phys_byte b x" if "x \<notin> table_range (ba_table b)" for x
  proof -
    have "x \<notin> frame_bytes f" using frame_of_range[OF f'(1)] that by blast
    from put_entry_byte[OF this p0(2)] outer[OF that] show ?thesis by (simp add: b2_def)
  qed
  moreover have "entry_at b2 root j = entry_at b root j" if "j < 512" "j \<notin> S" for j
  proof (rule same[OF tables_root that(1)])
    have "p0 = []" if "root = f" using tree_okD(5)[OF ok p0(1) f paths_Nil] that by simp
    with i that(2) show "\<not> (root = f \<and> j = i)" by (auto simp: paths_snoc)
  qed
  ultimately show "rebuilt S root b b2"
    unfolding rebuilt_def using tree run2 range tabs free2 g stepf tablesI[OF i wg] by (auto simp: b2_def)
qed

section \<open>The operations\<close>

lemma next_at:
  assumes "Suc l \<le> 3" and "f + 4096 \<le> phys_limit"
  shows "pt_next (table_at (Suc l) v f) (slot (Suc l) v) (ba_mem b) =
    (case step b f (slot (Suc l) v) of None \<Rightarrow> Err () | Some g \<Rightarrow> Ok (table_at l v g))"
proof -
  have "pt_entry_base (table_at (Suc l) v f) (slot (Suc l) v) = Ok (pt_base (table_at l v g))" for g
    by (rule entry_base_table_at) (use assms(1) in simp)
  then show ?thesis
    using entry_ok(1)[of "table_at (Suc l) v f" "slot (Suc l) v" b] assms(2)
    by (auto simp: pt_next_def entry_address_eq step_def table_at_def)
qed

definition upper :: "nat \<Rightarrow> nat \<Rightarrow> nat list" where
  "upper l v = take (3 - l) (path v)"

lemma upper_Suc: "l < 3 \<Longrightarrow> upper l v = upper (Suc l) v @ [slot (Suc l) v]"
  using level_cases[of l] by (auto simp: upper_def path_def numeral_2_eq_2[symmetric])

lemma upper_simps: "upper 3 v = []" "upper 0 v = path v"
  by (simp_all add: upper_def path_def)

lemma upper_paths: "slot 3 v \<in> S \<Longrightarrow> upper l v \<in> paths S"
  by (auto simp: upper_def path_def paths_def take_Cons split: nat.splits)

lemma walk_append_None: "walk b root p = None \<Longrightarrow> walk b root (p @ q) = None"
  by (induction q rule: rev_induct) (simp_all add: walk_snoc flip: append_assoc)

lemma upper_None: "walk b root (upper l v) = None \<Longrightarrow> walk b root (path v) = None"
  using walk_append_None[of b root "upper l v" "drop (3 - l) (path v)"] by (simp add: upper_def)

lemma visit_at:
  assumes "tree_ok S b root" and "slot 3 v \<in> S" and "l \<le> 3" and "walk b root (upper l v) = Some f"
  shows "visit_loop v (table_at l v f) (ba_mem b) =
    (case walk b root (path v) of None \<Rightarrow> Err () | Some g \<Rightarrow> Ok (table_at 0 v g, slot 0 v))"
  using assms(3,4)
proof (induction l arbitrary: f)
  case 0
  then show ?case using index_of_table_at[of 0 v f] by (subst visit_loop.simps) (simp add: upper_simps)
next
  case (Suc l)
  note f = tree_okD[OF assms(1) upper_paths[OF assms(2)] Suc.prems(2)]
  have up: "upper l v = upper (Suc l) v @ [slot (Suc l) v]" using Suc.prems(1) by (simp add: upper_Suc)
  note nx = next_at[OF Suc.prems(1) f(3), of v b]
  show ?case
  proof (cases "step b f (slot (Suc l) v)")
    case None
    have "walk b root (upper l v) = None" using None Suc.prems(2) by (simp add: up walk_snoc)
    then have "walk b root (path v) = None" by (rule upper_None)
    then show ?thesis using nx None index_of_table_at[OF Suc.prems(1), of v f]
      by (subst visit_loop.simps) simp
  next
    case (Some g)
    then have "walk b root (upper l v) = Some g" using Suc.prems(2) by (simp add: up walk_snoc)
    from Suc.IH[OF _ this] Suc.prems(1) nx Some index_of_table_at[OF Suc.prems(1), of v f] show ?thesis
      by (subst visit_loop.simps) simp
  qed
qed

lemma translate_mapped:
  assumes "tree_ok S b (pm_table_addr p)" and "slot 3 v \<in> S"
  shows "pm_translate p v b = (case mapped_to b (pm_table_addr p) v of None \<Rightarrow> Err () | Some x \<Rightarrow> Ok x)"
proof -
  let ?r = "pm_table_addr p"
  have visit: "visit_loop v (pm_table p) (ba_mem b) =
      (case walk b ?r (path v) of None \<Rightarrow> Err () | Some g \<Rightarrow> Ok (table_at 0 v g, slot 0 v))"
    unfolding pm_table_at[of p v] by (rule visit_at[OF assms]) (simp_all add: upper_simps)
  show ?thesis
  proof (cases "walk b ?r (path v)")
    case (Some g)
    have pv: "path v \<in> paths S" using assms(2) by simp
    from tree_okD(3)[OF assms(1) pv Some] visit Some show ?thesis
      by (simp add: pm_translate_def mapped_to_def entry_ok decode_def entry_address_eq)
  qed (use visit in \<open>simp add: pm_translate_def mapped_to_def\<close>)
qed

lemma table_flags: "flags_ok ENTRY_FLAG_DEFAULT_TABLE" "flags_ok (ENTRY_FLAG_DEFAULT_TABLE OR ENTRY_FLAG_TABLE_USER)"
  "entry_present ENTRY_FLAG_DEFAULT_TABLE" "entry_present (ENTRY_FLAG_DEFAULT_TABLE OR ENTRY_FLAG_TABLE_USER)"
  by (simp_all add: flags_ok_def entry_present_def flag_consts ENTRY_FLAGS_MASK_def ENTRY_ADDRESS_SHIFT_def PAGE_SHIFT_def
      mask_eq_exp_minus_1)

text \<open>How much of the free memory an operation may take.\<close>

definition takes :: "nat \<Rightarrow> buddy \<Rightarrow> buddy \<Rightarrow> bool" where
  "takes n b b' \<longleftrightarrow> free_frames b' \<subseteq> free_frames b \<and> card (free_frames b) \<le> card (free_frames b') + n"

lemma finite_free [simp]: "finite (free_frames b)"
proof -
  have "be_free e m = (\<lambda>p. be_base e + p * 4096) ` {p. p < be_pages e \<and> \<not> be_taken e m p}" for e m
    by (auto simp: be_free_def)
  then show ?thesis by (simp add: free_frames_def table_free_def)
qed

lemma takes_refl [simp]: "takes n b b"
  by (simp add: takes_def)

lemma takes_trans: "takes m b b' \<Longrightarrow> takes n b' b'' \<Longrightarrow> takes (m + n) b b''"
  by (auto simp: takes_def)

lemma takes_mono: "takes m b b' \<Longrightarrow> m \<le> n \<Longrightarrow> takes n b b'"
  by (auto simp: takes_def)

lemma takes_one: "free_frames b' = free_frames b - {g} \<Longrightarrow> takes 1 b b'"
  by (simp add: takes_def card_Diff_singleton_if Diff_subset, linarith)

text \<open>One step down: the next table is there, or it is made, or memory is exhausted.\<close>

lemma descend_at:
  assumes ok: "tree_ok S b root" and v: "slot 3 v \<in> S" and l: "Suc l \<le> 3" and f: "walk b root (upper (Suc l) v) = Some f"
  obtains (there) g b' where "pt_descend v (table_at (Suc l) v f) (slot (Suc l) v) b = (Ok (table_at l v g), b')"
      "rebuilt S root b b'" "walk b' root (upper l v) = Some g" "\<And>w. slot 3 w \<in> S \<Longrightarrow> mapped_to b' root w = mapped_to b root w"
      "takes 1 b b'"
    | (full) "pt_descend v (table_at (Suc l) v f) (slot (Suc l) v) b = (Err (), b)" "free_frames b = {}"
        "walk b root (path v) = None"
proof -
  let ?t = "table_at (Suc l) v f" and ?i = "slot (Suc l) v"
  let ?fl = "ENTRY_FLAG_DEFAULT_TABLE OR (if virt_kind v = User then ENTRY_FLAG_TABLE_USER else 0)"
  have up: "upper l v = upper (Suc l) v @ [?i]" using l by (simp add: upper_Suc)
  have i: "upper (Suc l) v @ [?i] \<in> paths S" using upper_paths[OF v, of l] by (simp add: up)
  note f' = tree_okD[OF ok upper_paths[OF v] f]
  have inv: "buddy_inv b" using ok by (simp add: tree_ok_def)
  note nx = next_at[OF l f'(3), of v]
  show thesis
  proof (cases "step b f ?i")
    case (Some g)
    show thesis
    proof (rule there)
      show "pt_descend v ?t ?i b = (Ok (table_at l v g), b)" using nx[of b] Some by (simp add: pt_descend_def)
      show "walk b root (upper l v) = Some g" using f Some by (simp add: up walk_snoc)
    qed (use rebuilt_refl[OF ok] in simp_all)
  next
    case None
    show thesis
    proof (cases rule: allocate_granted[OF inv zero_less_one])
      case none: 1
      have "walk b root (upper l v) = None" using f None by (simp add: up walk_snoc)
      then have "walk b root (path v) = None" by (rule upper_None)
      moreover have "pt_descend v ?t ?i b = (Err (), b)"
        using nx[of b] None none(1) by (simp add: pt_descend_def buddy_allocate_one_def)
      ultimately show thesis using full no_single_free[OF inv none(2)] by blast
    next
      case (2 g b1)
      let ?b = "put_entry f ?i (entry_new g ?fl) b1"
      have fl: "flags_ok ?fl" "entry_present ?fl" using table_flags by simp_all
      have zero: "\<forall>x \<in> frame_bytes g. phys_byte b1 x = 0" using 2(3) by simp
      note gr = grow[OF ok i f None 2(2) zero fl]
      show thesis
      proof (rule there)
        show "pt_descend v ?t ?i b = (Ok (table_at l v g), ?b)"
          using nx[of b] None 2(1) entry_ok(2)[of ?t ?i "entry_new g ?fl" b1] f'(3) nx[of ?b] gr(3)
          by (simp add: pt_descend_def buddy_allocate_one_def Let_def)
        show "walk ?b root (upper l v) = Some g" using gr(2) by (simp add: up)
      qed (use gr takes_one[OF gr(4)] in simp_all)
    qed
  qed
qed

lemma map_at:
  assumes "tree_ok S b root" and "slot 3 v \<in> S" and "l \<le> 3" and "walk b root (upper l v) = Some f"
  shows "\<exists>r b'. map_loop v e (table_at l v f) b = (r, b') \<and> rebuilt S root b b' \<and> takes l b b' \<and>
    (r = Ok v \<and> (\<forall>w. slot 3 w \<in> S \<longrightarrow> mapped_to b' root w = (if page_of w = page_of v then decode e else mapped_to b root w)) \<or>
     r = Err () \<and> free_frames b' = {} \<and> mapped_to b root v = None \<and>
       (\<forall>w. slot 3 w \<in> S \<longrightarrow> mapped_to b' root w = mapped_to b root w))"
  using assms(1,3,4)
proof (induction l arbitrary: f b)
  case 0
  have pv: "path v \<in> paths S" using assms(2) by simp
  have w: "walk b root (path v) = Some f" using "0.prems"(3) by (simp add: upper_simps)
  note set = set_leaf[OF "0.prems"(1) pv w take_path(2) slot_less[of 0 v], where e = e]
  have "map_loop v e (table_at 0 v f) b = (Ok v, put_entry f (slot 0 v) e b)"
    using index_of_table_at[of 0 v f] entry_ok(2)[of "table_at 0 v f" "slot 0 v" e b] tree_okD(3)[OF "0.prems"(1) pv w]
    by (subst map_loop.simps) simp
  moreover have "takes 0 b (put_entry f (slot 0 v) e b)"
    using put_entry_inv(2)[OF _ tree_okD(1)[OF "0.prems"(1) pv w] slot_less] "0.prems"(1) by (simp add: tree_ok_def takes_def)
  ultimately show ?case using set path_inject by auto
next
  case (Suc l)
  have idx: "pt_index_of (table_at (Suc l) v f) v = Ok (slot (Suc l) v)" by (rule index_of_table_at[OF Suc.prems(2)])
  show ?case
  proof (cases rule: descend_at[OF Suc.prems(1) assms(2) Suc.prems(2,3)])
    case (1 g b')
    have ok': "tree_ok S b' root" using 1(2) by (simp add: rebuilt_def)
    from Suc.IH[OF ok' _ 1(3)] Suc.prems(2)
    obtain r b'' where IH: "map_loop v e (table_at l v g) b' = (r, b'')" "rebuilt S root b' b''"
      "takes l b' b''"
      "r = Ok v \<and> (\<forall>w. slot 3 w \<in> S \<longrightarrow> mapped_to b'' root w = (if page_of w = page_of v then decode e else mapped_to b' root w)) \<or>
       r = Err () \<and> free_frames b'' = {} \<and> mapped_to b' root v = None \<and>
         (\<forall>w. slot 3 w \<in> S \<longrightarrow> mapped_to b'' root w = mapped_to b' root w)"
      by auto
    have "map_loop v e (table_at (Suc l) v f) b = (r, b'')"
      using idx 1(1) IH(1) by (subst map_loop.simps) simp
    with IH(2,4) rebuilt_trans[OF 1(2)] takes_trans[OF 1(5) IH(3)] 1(4) assms(2) show ?thesis by auto
  next
    case 2
    have "map_loop v e (table_at (Suc l) v f) b = (Err (), b)"
      using idx 2(1) by (subst map_loop.simps) simp
    with 2 rebuilt_refl[OF Suc.prems(1)] show ?thesis by (auto simp: mapped_to_def)
  qed
qed

lemma populated_at:
  assumes "g + 4096 \<le> phys_limit" and "pt_phys t = g" and "set js \<subseteq> {..<512}"
  shows "still_populated t js (ba_mem b) = Ok (\<exists>j \<in> set js. step b g j \<noteq> None)"
  using assms(3)
proof (induction js)
  case (Cons j js)
  then show ?case using entry_ok(1)[of t j b] assms(1,2) by (auto simp: step_def)
qed simp

lemma drop_empty_at:
  assumes ok: "tree_ok S b root" and v: "slot 3 v \<in> S" and l: "Suc l \<le> 3" and f: "walk b root (upper (Suc l) v) = Some f"
    and g: "step b f (slot (Suc l) v) = Some g"
  shows "\<exists>b'. drop_empty (table_at (Suc l) v f) (slot (Suc l) v) (table_at l v g) x b = (Ok x, b') \<and> rebuilt S root b b' \<and>
    (\<forall>w. slot 3 w \<in> S \<longrightarrow> mapped_to b' root w = mapped_to b root w) \<and>
    (\<forall>k. Suc l \<le> k \<and> k \<le> 3 \<longrightarrow> walk b' root (upper k v) = walk b root (upper k v))"
proof -
  let ?t = "table_at (Suc l) v f" and ?i = "slot (Suc l) v" and ?s = "table_at l v g"
  have up: "upper l v = upper (Suc l) v @ [?i]" using l by (simp add: upper_Suc)
  have i: "upper (Suc l) v @ [?i] \<in> paths S" using upper_paths[OF v, of l] by (simp add: up)
  have wg: "walk b root (upper (Suc l) v @ [?i]) = Some g" using f g by (simp add: walk_snoc)
  note f' = tree_okD[OF ok upper_paths[OF v] f] and g' = tree_okD[OF ok i wg]
  have inv: "buddy_inv b" using ok by (simp add: tree_ok_def)
  have pop: "still_populated ?s [0..<PAGE_ENTRIES] (ba_mem b) = Ok (\<exists>j < 512. step b g j \<noteq> None)"
    using populated_at[OF g'(3), of ?s "[0..<PAGE_ENTRIES]" b]
    by (simp add: PAGE_ENTRIES_def PAGE_ENTRY_SHIFT_def atLeast0LessThan Bex_def)
  show ?thesis
  proof (cases "\<exists>j < 512. step b g j \<noteq> None")
    case True
    with pop f rebuilt_refl[OF ok] show ?thesis by (simp add: drop_empty_def)
  next
    case False
    obtain b1 where b1: "buddy_free_one g b = Ok b1" "returned b g b1"
      using free_one_returned[OF inv g'(1,2)] by blast
    note pr = prune[OF ok i f g _ b1(2)]
    let ?b = "put_entry f ?i 0 b1"
    have "drop_empty ?t ?i ?s x b = (Ok x, ?b)"
      using pop[unfolded eq_False[THEN iffD2, OF False]] b1(1) entry_ok(2)[of ?t ?i 0 b1] f'(3) by (simp add: drop_empty_def)
    moreover have "walk ?b root (upper k v) = walk b root (upper k v)" if "Suc l \<le> k" "k \<le> 3" for k
    proof (rule pr(3)[OF _ upper_paths[OF v]])
      have "length (upper k v) \<noteq> length (upper l v)" using that by (simp add: upper_def)
      then show "upper k v \<noteq> upper (Suc l) v @ [?i]" by (auto simp: up)
    qed (use False in simp)
    ultimately show ?thesis using pr(1,2) False by blast
  qed
qed

lemma unmap_at:
  assumes "tree_ok S b root" and "slot 3 v \<in> S" and "l \<le> 3" and "walk b root (upper l v) = Some f"
  shows "\<exists>b'. unmap_inner v (table_at l v f) up b =
      ((case mapped_to b root v of None \<Rightarrow> Err () | Some x \<Rightarrow> Ok x), b') \<and> rebuilt S root b b' \<and>
    (\<forall>w. slot 3 w \<in> S \<longrightarrow> mapped_to b' root w = (if page_of w = page_of v then None else mapped_to b root w)) \<and>
    (\<forall>k. l \<le> k \<and> k \<le> 3 \<longrightarrow> walk b' root (upper k v) = walk b root (upper k v))"
  using assms(3,4)
proof (induction l arbitrary: f)
  case 0
  have pv: "path v \<in> paths S" using assms(2) by simp
  have w: "walk b root (path v) = Some f" using "0.prems"(2) by (simp add: upper_simps)
  note set = set_leaf[OF assms(1) pv w take_path(2) slot_less[of 0 v], where e = 0]
  have "unmap_inner v (table_at 0 v f) up b =
      ((case mapped_to b root v of None \<Rightarrow> Err () | Some x \<Rightarrow> Ok x), put_entry f (slot 0 v) 0 b)"
    using index_of_table_at[of 0 v f] entry_ok(1)[of "table_at 0 v f" "slot 0 v" b]
      entry_ok(2)[of "table_at 0 v f" "slot 0 v" 0 b] tree_okD(3)[OF assms(1) pv w] w
    by (subst unmap_inner.simps) (simp add: mapped_to_def decode_def entry_address_eq)
  moreover have "decode 0 = None" by (simp add: decode_def)
  ultimately show ?case using set path_inject[of _ v] upper_paths[OF assms(2)] by auto
next
  case (Suc l)
  let ?i = "slot (Suc l) v"
  have idx: "pt_index_of (table_at (Suc l) v f) v = Ok ?i" by (rule index_of_table_at[OF Suc.prems(1)])
  note f = tree_okD[OF assms(1) upper_paths[OF assms(2)] Suc.prems(2)]
  have up: "upper l v = upper (Suc l) v @ [?i]" using Suc.prems(1) by (simp add: upper_Suc)
  note nx = next_at[OF Suc.prems(1) f(3), of v b]
  show ?case
  proof (cases "step b f ?i")
    case None
    have "walk b root (upper l v) = None" using None Suc.prems(2) by (simp add: up walk_snoc)
    then have unm: "mapped_to b root v = None" using upper_None by (simp add: mapped_to_def)
    have "mapped_to b root w = None" if "page_of w = page_of v" for w
      using that unm path_inject[of w v] by (auto simp: mapped_to_def)
    moreover have "unmap_inner v (table_at (Suc l) v f) up b = (Err (), b)"
      using idx nx None by (subst unmap_inner.simps) simp
    ultimately show ?thesis using unm rebuilt_refl[OF assms(1)] by auto
  next
    case (Some g)
    then have wg: "walk b root (upper l v) = Some g" using Suc.prems(2) by (simp add: up walk_snoc)
    from Suc.IH[OF _ this] Suc.prems(1) obtain b1 where b1:
      "unmap_inner v (table_at l v g) up b = ((case mapped_to b root v of None \<Rightarrow> Err () | Some x \<Rightarrow> Ok x), b1)"
      "rebuilt S root b b1"
      "\<And>w. slot 3 w \<in> S \<Longrightarrow> mapped_to b1 root w = (if page_of w = page_of v then None else mapped_to b root w)"
      "\<And>k. l \<le> k \<Longrightarrow> k \<le> 3 \<Longrightarrow> walk b1 root (upper k v) = walk b root (upper k v)"
      by auto
    have ok1: "tree_ok S b1 root" using b1(2) by (simp add: rebuilt_def)
    have f1: "walk b1 root (upper (Suc l) v) = Some f" using b1(4)[of "Suc l"] Suc.prems by simp
    have g1: "step b1 f ?i = Some g" using b1(4)[of l] wg f1 Suc.prems(1) by (simp add: up walk_snoc)
    show ?thesis
    proof (cases "up \<and> mapped_to b root v \<noteq> None")
      case False
      then have "unmap_inner v (table_at (Suc l) v f) up b = ((case mapped_to b root v of None \<Rightarrow> Err () | Some x \<Rightarrow> Ok x), b1)"
        using idx nx Some b1(1) by (subst unmap_inner.simps) (auto split: option.splits)
      then show ?thesis using b1 by auto
    next
      case True
      then obtain x where x: "mapped_to b root v = Some x" by auto
      from drop_empty_at[OF ok1 assms(2) Suc.prems(1) f1 g1, of x] obtain b2 where b2:
        "drop_empty (table_at (Suc l) v f) ?i (table_at l v g) x b1 = (Ok x, b2)" "rebuilt S root b1 b2"
        "\<forall>w. slot 3 w \<in> S \<longrightarrow> mapped_to b2 root w = mapped_to b1 root w"
        "\<forall>k. Suc l \<le> k \<and> k \<le> 3 \<longrightarrow> walk b2 root (upper k v) = walk b1 root (upper k v)" by blast
      have "unmap_inner v (table_at (Suc l) v f) up b = (Ok x, b2)"
        using idx nx Some b1(1) b2(1) True x by (subst unmap_inner.simps) simp
      with x b1 b2 rebuilt_trans[OF b1(2) b2(2)] show ?thesis by auto
    qed
  qed
qed

section \<open>Refinement of a map from pages to frames\<close>

definition own_pages :: "nat set \<Rightarrow> nat set" where
  "own_pages S = {n. n < 2 ^ 36 \<and> n div 2 ^ 27 \<in> S}"

definition aspace :: "nat set \<Rightarrow> page_mapper \<Rightarrow> buddy \<Rightarrow> nat \<Rightarrow> (nat \<times> page_flags) option" where
  "aspace S p b n =
     (if n \<in> own_pages S then (case pm_translate p (n * 4096) b of Ok x \<Rightarrow> Some x | _ \<Rightarrow> None) else None)"

datatype page_op = MapPhys nat nat page_flags | UnmapPhys nat bool | Remap nat page_flags

fun page_do :: "page_mapper \<Rightarrow> page_op \<Rightarrow> buddy \<Rightarrow> (unit, unit) res \<times> buddy" where
  "page_do p (MapPhys v phys fl) b = (case pm_map_phys p v phys fl b of (r, b') \<Rightarrow> (bind_res r (\<lambda>_. Ok ()), b'))"
| "page_do p (UnmapPhys v up) b = (case pm_unmap_phys p v up b of (r, b') \<Rightarrow> (bind_res r (\<lambda>_. Ok ()), b'))"
| "page_do p (Remap v fl) b = (case pm_remap p v fl b of (r, b') \<Rightarrow> (bind_res r (\<lambda>_. Ok ()), b'))"

fun page_spec :: "page_op \<Rightarrow> (nat \<Rightarrow> (nat \<times> page_flags) option) \<Rightarrow> nat \<Rightarrow> (nat \<times> page_flags) option" where
  "page_spec (MapPhys v phys fl) A = A(page_of v \<mapsto> (phys, fl))"
| "page_spec (UnmapPhys v up) A = A(page_of v := None)"
| "page_spec (Remap v fl) A = A(page_of v := map_option (\<lambda>(f, _). (f, fl)) (A (page_of v)))"

fun op_ok :: "nat set \<Rightarrow> page_op \<Rightarrow> bool" where
  "op_ok S (MapPhys v phys fl) \<longleftrightarrow> slot 3 v \<in> S \<and> page_address phys \<and> flags_ok fl \<and> entry_present fl"
| "op_ok S (UnmapPhys v up) \<longleftrightarrow> slot 3 v \<in> S"
| "op_ok S (Remap v fl) \<longleftrightarrow> slot 3 v \<in> S \<and> flags_ok fl \<and> entry_present fl"

text \<open>What an operation may refuse: a mapping when memory is exhausted, the others when nothing is mapped.\<close>

fun refusal :: "page_op \<Rightarrow> buddy \<Rightarrow> (nat \<Rightarrow> (nat \<times> page_flags) option) \<Rightarrow> bool" where
  "refusal (MapPhys v phys fl) b' A \<longleftrightarrow> free_frames b' = {} \<and> A (page_of v) = None"
| "refusal (UnmapPhys v up) b' A \<longleftrightarrow> A (page_of v) = None"
| "refusal (Remap v fl) b' A \<longleftrightarrow> A (page_of v) = None"

lemma page_of_page [simp]: "n < 2 ^ 36 \<Longrightarrow> page_of (n * 4096) = n"
  by (simp add: page_of_def)

lemma slot_page: "slot 3 v = page_of v div 2 ^ 27"
proof -
  have "page_of v div 2 ^ 27 < 512" using page_of_less[of v] by (simp add: less_mult_imp_div_less)
  then show ?thesis by (simp add: slot_def)
qed

lemma own_pages_slot: "n \<in> own_pages S \<longleftrightarrow> n < 2 ^ 36 \<and> slot 3 (n * 4096) \<in> S"
  by (auto simp: own_pages_def slot_page)

lemma aspace_mapped:
  assumes "tree_ok S b (pm_table_addr p)"
  shows "aspace S p b n = (if n \<in> own_pages S then mapped_to b (pm_table_addr p) (n * 4096) else None)"
  using translate_mapped[OF assms, of "n * 4096"]
  by (auto simp: aspace_def own_pages_slot split: option.splits)

lemma mapped_page: "page_of v = page_of w \<Longrightarrow> mapped_to b root v = mapped_to b root w"
  using path_inject[of v w] by (simp add: mapped_to_def)

lemma aspace_page:
  assumes "tree_ok S b (pm_table_addr p)" and "slot 3 v \<in> S"
  shows "aspace S p b (page_of v) = mapped_to b (pm_table_addr p) v"
proof -
  have "page_of v \<in> own_pages S" using assms(2) page_of_less[of v] by (simp add: own_pages_def slot_page)
  with aspace_mapped[OF assms(1)] mapped_page[of "page_of v * 4096" v] page_of_less[of v] show ?thesis by simp
qed

lemma aspace_change:
  assumes "tree_ok S b (pm_table_addr p)" and "tree_ok S b' (pm_table_addr p)" and "slot 3 v \<in> S"
    and "\<And>w. slot 3 w \<in> S \<Longrightarrow> mapped_to b' (pm_table_addr p) w = (if page_of w = page_of v then x else mapped_to b (pm_table_addr p) w)"
  shows "aspace S p b' = (aspace S p b)(page_of v := x)"
proof
  fix n
  have "page_of v \<in> own_pages S" using assms(3) page_of_less[of v] by (simp add: own_pages_def slot_page)
  with assms(4)[of "n * 4096"] show "aspace S p b' n = ((aspace S p b)(page_of v := x)) n"
    by (auto simp: aspace_mapped[OF assms(1)] aspace_mapped[OF assms(2)] own_pages_slot)
qed

lemma remap_at:
  assumes "tree_ok S b (pm_table_addr p)" and "slot 3 v \<in> S" and "flags_ok fl" and "entry_present fl"
  shows "\<exists>b'. pm_remap p v fl b = (if mapped_to b (pm_table_addr p) v = None then Err () else Ok v, b') \<and>
    rebuilt S (pm_table_addr p) b b' \<and>
    (\<forall>w. slot 3 w \<in> S \<longrightarrow> mapped_to b' (pm_table_addr p) w =
      (if page_of w = page_of v then map_option (\<lambda>(f, _). (f, fl)) (mapped_to b (pm_table_addr p) v)
       else mapped_to b (pm_table_addr p) w))"
proof -
  let ?r = "pm_table_addr p"
  have pv: "path v \<in> paths S" using assms(2) by simp
  have visit: "visit_loop v (pm_table p) (ba_mem b) =
      (case walk b ?r (path v) of None \<Rightarrow> Err () | Some g \<Rightarrow> Ok (table_at 0 v g, slot 0 v))"
    unfolding pm_table_at[of p v] by (rule visit_at[OF assms(1,2)]) (simp_all add: upper_simps)
  show ?thesis
  proof (cases "mapped_to b ?r v")
    case None
    have "pm_remap p v fl b = (Err (), b)"
    proof (cases "walk b ?r (path v)")
      case (Some g)
      with None have "\<not> entry_present (entry_at b g (slot 0 v))" by (auto simp: mapped_to_def decode_def split: if_splits)
      with Some visit tree_okD(3)[OF assms(1) pv Some] show ?thesis
        by (simp add: pm_remap_def pm_remap_with_def pm_remap_with_full_def entry_ok entry_address_eq)
    qed (use visit in \<open>simp add: pm_remap_def pm_remap_with_def pm_remap_with_full_def\<close>)
    moreover have "mapped_to b ?r w = None" if "page_of w = page_of v" for w using mapped_page[OF that] None by simp
    ultimately show ?thesis using None rebuilt_refl[OF assms(1)] by auto
  next
    case (Some x)
    obtain g where g: "walk b ?r (path v) = Some g" using Some by (auto simp: mapped_to_def bind_eq_Some_conv)
    note g' = tree_okD[OF assms(1) pv g]
    let ?e = "entry_at b g (slot 0 v)"
    have e: "entry_present ?e" "x = (entry_frame ?e, entry_flags ?e)"
      using Some g by (auto simp: mapped_to_def decode_def split: if_splits)
    let ?n = "entry_new (entry_frame ?e) fl"
    have dec: "decode ?n = Some (entry_frame ?e, fl)"
      using assms(3,4) entry_frame_address[of ?e] by (simp add: decode_def entry_frame_new entry_new_parts)
    have "pm_remap p v fl b = (Ok v, put_entry g (slot 0 v) ?n b)"
      using visit g g'(3) e(1) entry_ok(1)[of "table_at 0 v g" "slot 0 v" b] entry_ok(2)[of "table_at 0 v g" "slot 0 v" ?n b]
      by (simp add: pm_remap_def pm_remap_with_def pm_remap_with_full_def entry_address_eq)
    with set_leaf[OF assms(1) pv g take_path(2) slot_less, where e = ?n] dec e Some path_inject[of _ v]
    show ?thesis by (auto simp: slot_less)
  qed
qed

lemma page_do_refines:
  assumes ok: "tree_ok S b (pm_table_addr p)" and op: "op_ok S op"
  shows "\<exists>r b'. page_do p op b = (r, b') \<and> rebuilt S (pm_table_addr p) b b' \<and>
    (r = Ok () \<and> aspace S p b' = page_spec op (aspace S p b) \<or>
     r = Err () \<and> refusal op b' (aspace S p b) \<and> aspace S p b' = aspace S p b)"
proof -
  let ?r = "pm_table_addr p"
  have same: "aspace S p b' = aspace S p b"
    if "rebuilt S ?r b b'" "\<And>w. slot 3 w \<in> S \<Longrightarrow> mapped_to b' ?r w = mapped_to b ?r w" for b'
  proof
    fix n
    have "tree_ok S b' ?r" using that(1) by (simp add: rebuilt_def)
    with that(2) show "aspace S p b' n = aspace S p b n" by (simp add: aspace_mapped[OF ok] aspace_mapped own_pages_slot)
  qed
  have tree: "tree_ok S b' ?r" if "rebuilt S ?r b b'" for b' using that by (simp add: rebuilt_def)
  show ?thesis
  proof (cases op)
    case (MapPhys v phys fl)
    let ?e = "entry_new phys fl"
    have v: "slot 3 v \<in> S" and dec: "decode ?e = Some (phys, fl)"
      using op MapPhys by (simp_all add: decode_def entry_frame_new entry_new_parts)
    obtain r b' where m: "map_loop v ?e (pm_table p) b = (r, b')" "rebuilt S ?r b b'" "takes 3 b b'"
      "r = Ok v \<and> (\<forall>w. slot 3 w \<in> S \<longrightarrow> mapped_to b' ?r w = (if page_of w = page_of v then decode ?e else mapped_to b ?r w)) \<or>
       r = Err () \<and> free_frames b' = {} \<and> mapped_to b ?r v = None \<and> (\<forall>w. slot 3 w \<in> S \<longrightarrow> mapped_to b' ?r w = mapped_to b ?r w)"
      using map_at[OF ok v order_refl, of ?r ?e] by (auto simp: upper_simps pm_table_at[of p v])
    then have "r = Ok v \<and> aspace S p b' = (aspace S p b)(page_of v := Some (phys, fl)) \<or>
        r = Err () \<and> free_frames b' = {} \<and> aspace S p b (page_of v) = None \<and> aspace S p b' = aspace S p b"
      using aspace_change[OF ok tree[OF m(2)] v, of "decode ?e"] dec same[OF m(2)] aspace_page[OF ok v] by auto
    with m(1,2) MapPhys show ?thesis by (auto simp: pm_map_phys_def)
  next
    case (UnmapPhys v up)
    with op have v: "slot 3 v \<in> S" by simp
    obtain b' where u: "unmap_inner v (pm_table p) up b = ((case mapped_to b ?r v of None \<Rightarrow> Err () | Some x \<Rightarrow> Ok x), b')"
      "rebuilt S ?r b b'"
      "\<And>w. slot 3 w \<in> S \<Longrightarrow> mapped_to b' ?r w = (if page_of w = page_of v then None else mapped_to b ?r w)"
      using unmap_at[OF ok v order_refl, of ?r up] by (auto simp: upper_simps pm_table_at[of p v])
    note ch = aspace_change[OF ok tree[OF u(2)] v u(3)]
    show ?thesis
    proof (cases "mapped_to b ?r v")
      case None
      then have "aspace S p b (page_of v) = None" using aspace_page[OF ok v] by simp
      with ch have "aspace S p b' = aspace S p b" by (auto simp: fun_upd_idem)
      with u(1,2) UnmapPhys None \<open>aspace S p b (page_of v) = None\<close> show ?thesis by (simp add: pm_unmap_phys_def)
    next
      case (Some x)
      with u(1,2) UnmapPhys ch show ?thesis by (cases x) (simp add: pm_unmap_phys_def)
    qed
  next
    case (Remap v fl)
    with op have v: "slot 3 v \<in> S" and fl: "flags_ok fl" "entry_present fl" by simp_all
    obtain b' where m: "pm_remap p v fl b = (if mapped_to b ?r v = None then Err () else Ok v, b')" "rebuilt S ?r b b'"
      "\<And>w. slot 3 w \<in> S \<Longrightarrow> mapped_to b' ?r w = (if page_of w = page_of v
         then map_option (\<lambda>(f, _). (f, fl)) (mapped_to b ?r v) else mapped_to b ?r w)"
      using remap_at[OF ok v fl] by blast
    note ch = aspace_change[OF ok tree[OF m(2)] v m(3)]
    have "aspace S p b (page_of v) = mapped_to b ?r v" using aspace_page[OF ok v] .
    with m(1,2) Remap ch show ?thesis by (cases "mapped_to b ?r v") (auto simp: fun_upd_idem)
  qed
qed

fun page_run :: "page_mapper \<Rightarrow> page_op list \<Rightarrow> buddy \<Rightarrow> (unit, unit) res list \<times> buddy" where
  "page_run p [] b = ([], b)"
| "page_run p (op # ops) b =
     (case page_do p op b of (r, b1) \<Rightarrow> (case page_run p ops b1 of (rs, b2) \<Rightarrow> (r # rs, b2)))"

fun spec_run ::
  "page_op list \<Rightarrow> (unit, unit) res list \<Rightarrow> (nat \<Rightarrow> (nat \<times> page_flags) option) \<Rightarrow> nat \<Rightarrow> (nat \<times> page_flags) option" where
  "spec_run (op # ops) (r # rs) A = spec_run ops rs (if r = Ok () then page_spec op A else A)"
| "spec_run _ _ A = A"

lemma page_run_refines:
  assumes "tree_ok S b (pm_table_addr p)" and "\<forall>op \<in> set ops. op_ok S op"
  shows "\<exists>rs b'. page_run p ops b = (rs, b') \<and> Panic \<notin> set rs \<and> rebuilt S (pm_table_addr p) b b' \<and>
    aspace S p b' = spec_run ops rs (aspace S p b)"
  using assms
proof (induction ops arbitrary: b)
  case Nil
  then show ?case by (simp add: rebuilt_refl)
next
  case (Cons op ops)
  then obtain r b1 where r: "page_do p op b = (r, b1)" "rebuilt S (pm_table_addr p) b b1" "r \<noteq> Panic"
    "aspace S p b1 = (if r = Ok () then page_spec op (aspace S p b) else aspace S p b)"
    using page_do_refines[of S b p op] by fastforce
  then have "tree_ok S b1 (pm_table_addr p)" by (simp add: rebuilt_def)
  with Cons obtain rs b2 where rs: "page_run p ops b1 = (rs, b2)" "Panic \<notin> set rs" "rebuilt S (pm_table_addr p) b1 b2"
    "aspace S p b2 = spec_run ops rs (aspace S p b1)" by fastforce
  with r rebuilt_trans[OF r(2) rs(3)] show ?case by simp
qed

text \<open>A new mapper maps nothing.\<close>

lemma create_at:
  assumes inv: "buddy_inv b" and al: "\<forall>f. frame_of b f \<longrightarrow> page_address f" and c: "pm_create k b = Ok (Some p, b')"
  shows "tree_ok {..<512} b' (pm_table_addr p)" and "aspace {..<512} p b' = Map.empty"
    and "pm_table_addr p \<in> free_frames b" and "free_frames b' = free_frames b - {pm_table_addr p}"
    and "tables {..<512} b' (pm_table_addr p) = {pm_table_addr p}"
proof -
  let ?S = "{..<512 :: nat}"
  from allocate_granted[OF inv zero_less_one] c obtain f where f: "buddy_allocate 1 b = Ok (Some f, b')" "granted b f 1 b'"
    "\<forall>x \<in> frame_bytes f. phys_byte b' x = 0" and p: "p = pm_new k f"
    by (cases rule: allocate_granted[OF inv zero_less_one]) (auto simp: pm_create_def buddy_allocate_one_def)
  have root: "pm_table_addr p = f" by (simp add: p pm_new_def)
  have none: "step b' f j = None" if "j < 512" for j using zero_entry[OF f(3) that] by (simp add: step_def)
  have walks: "walk b' f q = (if q = [] then Some f else None)" if "q \<in> paths ?S" for q
    using that
  proof (induction q rule: rev_induct)
    case (snoc j r)
    then show ?case using none[of j] by (auto simp: paths_snoc walk_snoc split: if_splits)
  qed simp
  have free: "f \<in> free_frames b" "free_frames b' = free_frames b - {f}" and g: "buddy_inv b'" "buddy_run b' = buddy_run b"
    using f(2) by (auto simp: granted_def)
  then have "frame_of b f" using free_frame_of[OF inv] by blast
  with al free(2) g have "tree_ok ?S b' f" using walks by (auto simp: tree_ok_def split: if_splits)
  then show ok: "tree_ok ?S b' (pm_table_addr p)" by (simp add: root)
  show "pm_table_addr p \<in> free_frames b" "free_frames b' = free_frames b - {pm_table_addr p}" using free root by simp_all
  show "tables ?S b' (pm_table_addr p) = {pm_table_addr p}"
    using walks by (auto simp: tables_def root split: if_splits intro: bexI[of _ "[]"])
  show "aspace ?S p b' = Map.empty"
  proof
    fix n
    have "mapped_to b' f (n * 4096) = None" if "n \<in> own_pages ?S"
    proof -
      have "path (n * 4096) \<in> paths ?S" "path (n * 4096) \<noteq> []" using that by (simp_all add: own_pages_slot) (simp add: path_def)
      from walks[OF this(1)] this(2) show ?thesis by (simp add: mapped_to_def)
    qed
    then show "aspace ?S p b' n = None" using aspace_mapped[OF ok] by (simp add: root)
  qed
qed

section \<open>Properties\<close>

text \<open>C13: the page tables implement a map from pages to frames with flags. In every state whose tables form a tree of distinct frames
  that are not free, \<open>map_phys\<close>, \<open>unmap_phys\<close> and \<open>remap\<close> return without panic and change what \<open>translate\<close> answers for the pages of the tree
  exactly as the corresponding update of the map, for every level of missing or emptied tables; a mapping is refused only when no frame is left, an
  unmapping or change of flags only when nothing is mapped, and then no answer changes. The tables still form such a tree, tables and free
  frames together are the same frames as before, and no byte of any other frame and no other slot of the root has changed.\<close>

theorem page_tables_refine_map:
  assumes "tree_ok S b (pm_table_addr p)" and "op_ok S op"
  shows "\<exists>r b'. page_do p op b = (r, b') \<and> rebuilt S (pm_table_addr p) b b' \<and>
    (r = Ok () \<and> aspace S p b' = page_spec op (aspace S p b) \<or>
     r = Err () \<and> refusal op b' (aspace S p b) \<and> aspace S p b' = aspace S p b)"
  by (rule page_do_refines[OF assms])

lemma sample_aligned: "frame_of sample_buddy f \<Longrightarrow> page_address f"
  by (auto simp: managed_def sample_buddy_def be_empty_def page_address_def be_pages_def page_defs)

lemma sample_create: "\<exists>p b. pm_create User sample_buddy = Ok (Some p, b)"
  by (simp add: pm_create_def buddy_allocate_one_def buddy_allocate_def sample_buddy_def be_pages_def page_defs be_usage_def be_set_usage_def
      be_usage_addr_def phys_to_virt_def PHYS_OFFSET_def chk_add_def shl_page_def write_bytes_def upt_rec)

theorem page_tables_refine_map_witness:
  "\<exists>p b r b'. pm_create User sample_buddy = Ok (Some p, b) \<and> page_do p (MapPhys 0x400000 0x7000 pf_new) b = (r, b') \<and>
     (r = Ok () \<and> pm_translate p 0x400000 b' = Ok (0x7000, pf_new) \<or> r = Err () \<and> free_frames b' = {})"
proof -
  obtain p b where c: "pm_create User sample_buddy = Ok (Some p, b)" using sample_create by blast
  let ?op = "MapPhys 0x400000 0x7000 pf_new" and ?S = "{..<512 :: nat}"
  have al: "\<forall>f. frame_of sample_buddy f \<longrightarrow> page_address f" using sample_aligned by blast
  note new = create_at[OF sample_buddy_inv al c]
  have "op_ok ?S ?op"
    by (simp add: page_address_def flags_ok_def entry_present_def pf_new_def flag_consts ENTRY_FLAGS_MASK_def
        ENTRY_ADDRESS_SHIFT_def PAGE_SHIFT_def mask_eq_exp_minus_1)
  from page_tables_refine_map[OF new(1) this] obtain r b' where r: "page_do p ?op b = (r, b')" "rebuilt ?S (pm_table_addr p) b b'"
    "r = Ok () \<and> aspace ?S p b' = page_spec ?op (aspace ?S p b) \<or> r = Err () \<and> refusal ?op b' (aspace ?S p b)" by blast
  show ?thesis
  proof (cases "r = Ok ()")
    case True
    have tr: "tree_ok ?S b' (pm_table_addr p)" using r(2) by (simp add: rebuilt_def)
    have "mapped_to b' (pm_table_addr p) 0x400000 = Some (0x7000, pf_new)"
      using aspace_page[OF tr, where v = "0x400000"] True r(3) by simp
    with translate_mapped[OF tr, where v = "0x400000"] have "pm_translate p 0x400000 b' = Ok (0x7000, pf_new)" by simp
    with c r(1) True show ?thesis by blast
  next
    case False
    with r(3) have "r = Err ()" "free_frames b' = {}" by auto
    with c r(1) show ?thesis by blast
  qed
qed

text \<open>From the allocator on. A mapper that \<open>create\<close> returns maps nothing, and after any sequence of operations on it, \<open>translate\<close> answers
  what the sequence of successful updates says; no operation panics, and the frames of the tables and the free frames together are
  those that were free before.\<close>

theorem new_mapper_refines_map:
  assumes "buddy_inv b" and "\<forall>f. frame_of b f \<longrightarrow> page_address f" and "pm_create k b = Ok (Some p, b1)"
    and "\<forall>op \<in> set ops. op_ok {..<512} op"
  shows "\<exists>rs b'. page_run p ops b1 = (rs, b') \<and> Panic \<notin> set rs \<and>
    aspace {..<512} p b' = spec_run ops rs Map.empty \<and>
    tables {..<512} b' (pm_table_addr p) \<union> free_frames b' = free_frames b \<and>
    tables {..<512} b' (pm_table_addr p) \<inter> free_frames b' = {}"
proof -
  note new = create_at[OF assms(1-3)]
  obtain rs b' where r: "page_run p ops b1 = (rs, b')" "Panic \<notin> set rs" "rebuilt {..<512} (pm_table_addr p) b1 b'"
    "aspace {..<512} p b' = spec_run ops rs (aspace {..<512} p b1)"
    using page_run_refines[OF new(1) assms(4)] by blast
  then have "tables {..<512} b' (pm_table_addr p) \<union> free_frames b' = free_frames b" "tree_ok {..<512} b' (pm_table_addr p)"
    using new(3-5) by (auto simp: rebuilt_def)
  with r new(2) tree_tables[of "{..<512}" b' "pm_table_addr p"] show ?thesis by fastforce
qed

theorem new_mapper_refines_map_witness:
  "\<exists>p b1 rs b'. pm_create User sample_buddy = Ok (Some p, b1) \<and>
     page_run p [UnmapPhys 0x400000 True, MapPhys 0x400000 0x7000 pf_new] b1 = (rs, b') \<and> Panic \<notin> set rs \<and>
     tables {..<512} b' (pm_table_addr p) \<union> free_frames b' = free_frames sample_buddy"
proof -
  obtain p b where c: "pm_create User sample_buddy = Ok (Some p, b)" using sample_create by blast
  have al: "\<forall>f. frame_of sample_buddy f \<longrightarrow> page_address f" using sample_aligned by blast
  have "\<forall>op \<in> set [UnmapPhys 0x400000 True, MapPhys 0x400000 0x7000 pf_new]. op_ok {..<512} op"
    by (simp add: page_address_def flags_ok_def entry_present_def pf_new_def flag_consts ENTRY_FLAGS_MASK_def
        ENTRY_ADDRESS_SHIFT_def PAGE_SHIFT_def mask_eq_exp_minus_1)
  from new_mapper_refines_map[OF sample_buddy_inv al c this] c show ?thesis by blast
qed

end
