(* ===== verification/Vmo.thy ===== *)
theory Vmo
  imports Errors Signals Frame_Memory
begin

text \<open>
  Virtual memory objects: \<open>kernel/src/object/vmo.rs\<close>, on top of the frame allocator (\<open>FRAME_ALLOCATOR\<close>) and
  the memory behind it. The objects form a heap indexed by object identifiers; the parent of a
  copy-on-write clone is a strong reference and hence in the heap. An operation that fails may
  already have changed the state, so results and states are returned side by side.
\<close>

section \<open>Data\<close>

definition VMO_COMMIT :: u32 where "VMO_COMMIT = 1"
definition VMO_CONTIGUOUS :: u32 where "VMO_CONTIGUOUS = 2"
definition VMO_RESIZABLE :: u32 where "VMO_RESIZABLE = 4"
definition VMO_DISCARDABLE :: u32 where "VMO_DISCARDABLE = 8"

datatype page_state = Uncommitted | Committed nat bool | CopyOnWrite nat

record vmo =
  vm_size :: nat
  vm_pages :: "page_state list"
  vm_options :: u32
  vm_parent :: "oid option"
  vm_share_count :: nat
  vm_signal_state :: signal_state

datatype vmo_error = InvalidSize | NoMemory | OutOfRange | NotResizable | InvalidState | AccessDenied

record vm_sys =
  vs_frames :: buddy
  vs_vmos :: "oid \<Rightarrow> vmo option"

text \<open>\<open>(size + PAGE_SIZE - 1) & !(PAGE_SIZE - 1)\<close>.\<close>

definition page_align :: "nat \<Rightarrow> ('e, nat) res" where
  "page_align bytes =
     bind_res (chk_add bytes PAGE_SIZE) (\<lambda>a. bind_res (chk_sub a 1) (\<lambda>b. Ok (b div PAGE_SIZE * PAGE_SIZE)))"

text \<open>Memory of the frames, through the direct map.\<close>

definition vs_map_mem :: "(kmem \<Rightarrow> kmem) \<Rightarrow> vm_sys \<Rightarrow> vm_sys" where
  "vs_map_mem f s = s\<lparr>vs_frames := (vs_frames s)\<lparr>ba_mem := f (ba_mem (vs_frames s))\<rparr>\<rparr>"

text \<open>Take \<open>n\<close> frames and zero them: \<open>Err NoMemory\<close> when there are none.\<close>

definition take_frames :: "nat \<Rightarrow> vm_sys \<Rightarrow> (vmo_error, nat) res \<times> vm_sys" where
  "take_frames n s =
     (case buddy_allocate n (vs_frames s) of
        Panic \<Rightarrow> (Panic, s)
      | Err _ \<Rightarrow> (Panic, s)
      | Ok (None, fr) \<Rightarrow> (Err NoMemory, s\<lparr>vs_frames := fr\<rparr>)
      | Ok (Some phys, fr) \<Rightarrow>
          let s1 = s\<lparr>vs_frames := fr\<rparr>
          in case phys_to_virt phys of
               Ok virt \<Rightarrow> (Ok phys, vs_map_mem (write_bytes virt 0 (n * PAGE_SIZE)) s1)
             | Err e \<Rightarrow> (Err e, s1)
             | Panic \<Rightarrow> (Panic, s1))"

section \<open>Creation\<close>

fun commit_each :: "nat \<Rightarrow> vm_sys \<Rightarrow> (vmo_error, page_state list) res \<times> vm_sys" where
  "commit_each 0 s = (Ok [], s)"
| "commit_each (Suc n) s =
     (case take_frames 1 s of
        (Ok phys, s1) \<Rightarrow>
          (case commit_each n s1 of
             (Ok ps, s2) \<Rightarrow> (Ok (Committed phys True # ps), s2)
           | (Err e, s2) \<Rightarrow> (Err e, s2)
           | (Panic, s2) \<Rightarrow> (Panic, s2))
      | (Err e, s1) \<Rightarrow> (Err e, s1)
      | (Panic, s1) \<Rightarrow> (Panic, s1))"

definition new_vmo :: "nat \<Rightarrow> page_state list \<Rightarrow> u32 \<Rightarrow> oid option \<Rightarrow> vmo" where
  "new_vmo bytes pages opts parent = \<lparr>vm_size = bytes, vm_pages = pages, vm_options = opts, vm_parent = parent,
     vm_share_count = 1, vm_signal_state = ss_new\<rparr>"

definition put_vmo :: "oid \<Rightarrow> vmo \<Rightarrow> vm_sys \<Rightarrow> vm_sys" where
  "put_vmo v x s = s\<lparr>vs_vmos := (vs_vmos s)(v \<mapsto> x)\<rparr>"

text \<open>The new object takes the identifier \<open>v\<close>.\<close>

definition vm_create :: "oid \<Rightarrow> nat \<Rightarrow> u32 \<Rightarrow> vm_sys \<Rightarrow> (vmo_error, unit) res \<times> vm_sys" where
  "vm_create v bytes opts s =
     (if bytes = 0 then (Err InvalidSize, s)
      else case page_align bytes of
             Ok aligned \<Rightarrow>
               let page_count = aligned div PAGE_SIZE
               in if contains opts VMO_COMMIT then
                    if contains opts VMO_CONTIGUOUS then
                      case take_frames page_count s of
                        (Ok phys, s1) \<Rightarrow>
                          (Ok (), put_vmo v (new_vmo aligned
                             (map (\<lambda>i. Committed (phys + i * PAGE_SIZE) True) [0..<page_count]) opts None) s1)
                      | (Err e, s1) \<Rightarrow> (Err e, s1)
                      | (Panic, s1) \<Rightarrow> (Panic, s1)
                    else
                      case commit_each page_count s of
                        (Ok pages, s1) \<Rightarrow> (Ok (), put_vmo v (new_vmo aligned pages opts None) s1)
                      | (Err e, s1) \<Rightarrow> (Err e, s1)
                      | (Panic, s1) \<Rightarrow> (Panic, s1)
                  else (Ok (), put_vmo v (new_vmo aligned (replicate page_count Uncommitted) opts None) s)
           | Err e \<Rightarrow> (Err e, s)
           | Panic \<Rightarrow> (Panic, s))"

definition vm_create_physical :: "oid \<Rightarrow> nat \<Rightarrow> nat \<Rightarrow> vm_sys \<Rightarrow> (vmo_error, unit) res \<times> vm_sys" where
  "vm_create_physical v phys bytes s =
     (if bytes = 0 then (Err InvalidSize, s)
      else case page_align bytes of
             Ok aligned \<Rightarrow>
               let page_count = aligned div PAGE_SIZE
               in if \<forall>i < page_count. phys + i * PAGE_SIZE < usize_limit
                  then (Ok (), put_vmo v (new_vmo aligned
                         (map (\<lambda>i. Committed (phys + i * PAGE_SIZE) False) [0..<page_count]) 0 None) s)
                  else (Panic, s)
           | Err e \<Rightarrow> (Err e, s)
           | Panic \<Rightarrow> (Panic, s))"

definition vm_create_cow_clone :: "oid \<Rightarrow> oid \<Rightarrow> nat \<Rightarrow> nat \<Rightarrow> vm_sys \<Rightarrow> (vmo_error, unit) res \<times> vm_sys" where
  "vm_create_cow_clone v p offset bytes s =
     (case vs_vmos s p of
        None \<Rightarrow> (Panic, s)
      | Some x \<Rightarrow>
          (case chk_add offset bytes of
             Ok upto_end \<Rightarrow>
               if upto_end > vm_size x then (Err OutOfRange, s)
               else (case page_align bytes of
                       Ok aligned \<Rightarrow>
                         let page_count = aligned div PAGE_SIZE; start_page = offset div PAGE_SIZE
                         in (Ok (), put_vmo v (new_vmo aligned
                               (map (\<lambda>i. CopyOnWrite ((start_page + i) * PAGE_SIZE)) [0..<page_count]) 0 (Some p)) s)
                     | Err e \<Rightarrow> (Err e, s)
                     | Panic \<Rightarrow> (Panic, s))
           | Err e \<Rightarrow> (Err e, s)
           | Panic \<Rightarrow> (Panic, s)))"

section \<open>Releasing frames\<close>

definition release_page :: "page_state \<Rightarrow> buddy \<Rightarrow> (unit, buddy) res" where
  "release_page pg fr =
     (case pg of Committed phys can_free \<Rightarrow> if can_free then buddy_free_one phys fr else Ok fr | _ \<Rightarrow> Ok fr)"

fun release_pages :: "page_state list \<Rightarrow> buddy \<Rightarrow> (unit, buddy) res" where
  "release_pages [] fr = Ok fr"
| "release_pages (pg # pgs) fr = bind_res (release_page pg fr) (release_pages pgs)"

definition vm_resize :: "oid \<Rightarrow> nat \<Rightarrow> vm_sys \<Rightarrow> (vmo_error, unit) res \<times> vm_sys" where
  "vm_resize v new_size s =
     (case vs_vmos s v of
        None \<Rightarrow> (Panic, s)
      | Some x \<Rightarrow>
          if \<not> contains (vm_options x) VMO_RESIZABLE then (Err NotResizable, s)
          else case page_align new_size of
                 Ok aligned \<Rightarrow>
                   let n = aligned div PAGE_SIZE; old = length (vm_pages x)
                   in if n > old then
                        (Ok (), put_vmo v (x\<lparr>vm_pages := vm_pages x @ replicate (n - old) Uncommitted, vm_size := aligned\<rparr>) s)
                      else if n < old then
                        (case release_pages (drop n (vm_pages x)) (vs_frames s) of
                           Ok fr \<Rightarrow> (Ok (), put_vmo v (x\<lparr>vm_pages := take n (vm_pages x), vm_size := aligned\<rparr>) (s\<lparr>vs_frames := fr\<rparr>))
                         | _ \<Rightarrow> (Panic, s))
                      else (Ok (), put_vmo v (x\<lparr>vm_size := aligned\<rparr>) s)
               | Err e \<Rightarrow> (Err e, s)
               | Panic \<Rightarrow> (Panic, s))"

text \<open>\<open>Drop\<close>: the last reference goes away.\<close>

definition vm_drop :: "oid \<Rightarrow> vm_sys \<Rightarrow> (unit, vm_sys) res" where
  "vm_drop v s =
     (case vs_vmos s v of
        None \<Rightarrow> Ok s
      | Some x \<Rightarrow>
          bind_res (release_pages (vm_pages x) (vs_frames s)) (\<lambda>fr.
            Ok (s\<lparr>vs_frames := fr, vs_vmos := (vs_vmos s)(v := None)\<rparr>)))"

definition vm_get_physical :: "oid \<Rightarrow> vm_sys \<Rightarrow> (error, nat) res" where
  "vm_get_physical v s =
     (case vs_vmos s v of
        None \<Rightarrow> Panic
      | Some x \<Rightarrow>
          if \<not> contains (vm_options x) VMO_CONTIGUOUS then Err (Error EINVAL)
          else case vm_pages x of
                 [] \<Rightarrow> Err (Error EINVAL)
               | Committed phys _ # _ \<Rightarrow> Ok phys
               | _ \<Rightarrow> Err (Error EINVAL))"

section \<open>Committing and decommitting\<close>

definition page_span :: "nat \<Rightarrow> nat \<Rightarrow> ('e, nat \<times> nat) res" where
  "page_span offset bytes =
     bind_res (chk_add offset bytes) (\<lambda>a. bind_res (chk_add a PAGE_SIZE) (\<lambda>b. bind_res (chk_sub b 1) (\<lambda>c.
       Ok (offset div PAGE_SIZE, c div PAGE_SIZE))))"

fun commit_pages :: "nat list \<Rightarrow> page_state list \<Rightarrow> vm_sys \<Rightarrow> (vmo_error, unit) res \<times> page_state list \<times> vm_sys" where
  "commit_pages [] pgs s = (Ok (), pgs, s)"
| "commit_pages (i # is) pgs s =
     (case pgs ! i of
        Uncommitted \<Rightarrow>
          (case take_frames 1 s of
             (Ok phys, s1) \<Rightarrow> commit_pages is (pgs[i := Committed phys True]) s1
           | (Err e, s1) \<Rightarrow> (Err e, pgs, s1)
           | (Panic, s1) \<Rightarrow> (Panic, pgs, s1))
      | _ \<Rightarrow> commit_pages is pgs s)"

definition vm_commit :: "oid \<Rightarrow> nat \<Rightarrow> nat \<Rightarrow> vm_sys \<Rightarrow> (vmo_error, unit) res \<times> vm_sys" where
  "vm_commit v offset bytes s =
     (case vs_vmos s v of
        None \<Rightarrow> (Panic, s)
      | Some x \<Rightarrow>
          (case page_span offset bytes of
             Ok (start_page, end_page) \<Rightarrow>
               if end_page > length (vm_pages x) then (Err OutOfRange, s)
               else let (r, pgs, s1) = commit_pages [start_page..<end_page] (vm_pages x) s
                    in (r, put_vmo v (x\<lparr>vm_pages := pgs\<rparr>) s1)
           | Err e \<Rightarrow> (Err e, s)
           | Panic \<Rightarrow> (Panic, s)))"

fun decommit_pages :: "nat list \<Rightarrow> page_state list \<Rightarrow> buddy \<Rightarrow> (unit, page_state list \<times> buddy) res" where
  "decommit_pages [] pgs fr = Ok (pgs, fr)"
| "decommit_pages (i # is) pgs fr =
     (case pgs ! i of
        Committed phys can_free \<Rightarrow>
          if can_free then bind_res (buddy_free_one phys fr) (decommit_pages is (pgs[i := Uncommitted]))
          else decommit_pages is pgs fr
      | _ \<Rightarrow> decommit_pages is pgs fr)"

definition vm_decommit :: "oid \<Rightarrow> nat \<Rightarrow> nat \<Rightarrow> vm_sys \<Rightarrow> (vmo_error, unit) res \<times> vm_sys" where
  "vm_decommit v offset bytes s =
     (case vs_vmos s v of
        None \<Rightarrow> (Panic, s)
      | Some x \<Rightarrow>
          (case page_span offset bytes of
             Ok (start_page, end_page) \<Rightarrow>
               if end_page > length (vm_pages x) then (Err OutOfRange, s)
               else (case decommit_pages [start_page..<end_page] (vm_pages x) (vs_frames s) of
                       Ok (pgs, fr) \<Rightarrow> (Ok (), put_vmo v (x\<lparr>vm_pages := pgs\<rparr>) (s\<lparr>vs_frames := fr\<rparr>))
                     | _ \<Rightarrow> (Panic, s))
           | Err e \<Rightarrow> (Err e, s)
           | Panic \<Rightarrow> (Panic, s)))"

section \<open>Pages\<close>

text \<open>\<open>copy_nonoverlapping\<close> within kernel memory.\<close>

definition copy_mem :: "nat \<Rightarrow> nat \<Rightarrow> nat \<Rightarrow> kmem \<Rightarrow> kmem" where
  "copy_mem src dst n m = (\<lambda>x. if dst \<le> x \<and> x < dst + n then m (src + (x - dst)) else m x)"

text \<open>Allocate a frame for a copied page; unlike \<open>take_frames\<close> it is not zeroed a second time.\<close>

definition copy_frame :: "nat \<Rightarrow> vm_sys \<Rightarrow> (vmo_error, nat) res \<times> vm_sys" where
  "copy_frame src s =
     (case buddy_allocate 1 (vs_frames s) of
        Panic \<Rightarrow> (Panic, s)
      | Err _ \<Rightarrow> (Panic, s)
      | Ok (None, fr) \<Rightarrow> (Err NoMemory, s\<lparr>vs_frames := fr\<rparr>)
      | Ok (Some phys, fr) \<Rightarrow>
          let s1 = s\<lparr>vs_frames := fr\<rparr>
          in case bind_res (phys_to_virt src) (\<lambda>a. bind_res (phys_to_virt phys) (\<lambda>b. Ok (a, b))) of
               Ok (a, b) \<Rightarrow> (Ok phys, vs_map_mem (copy_mem a b PAGE_SIZE) s1)
             | Err e \<Rightarrow> (Err e, s1)
             | Panic \<Rightarrow> (Panic, s1))"

definition set_page :: "oid \<Rightarrow> nat \<Rightarrow> page_state \<Rightarrow> vm_sys \<Rightarrow> vm_sys" where
  "set_page v i pg s =
     (case vs_vmos s v of None \<Rightarrow> s | Some x \<Rightarrow> put_vmo v (x\<lparr>vm_pages := (vm_pages x)[i := pg]\<rparr>) s)"

text \<open>\<open>get_page\<close> asks the parent for a copy-on-write page, which may ask its own; \<open>None\<close> stands for a chain
  of parents without end.\<close>

partial_function (option) vm_get_page :: "oid \<Rightarrow> nat \<Rightarrow> bool \<Rightarrow> vm_sys \<Rightarrow> ((vmo_error, nat) res \<times> vm_sys) option" where
  "vm_get_page v offset write s =
     (case vs_vmos s v of
        None \<Rightarrow> Some (Panic, s)
      | Some x \<Rightarrow>
          let i = offset div PAGE_SIZE
          in if i \<ge> length (vm_pages x) then Some (Err OutOfRange, s)
             else case vm_pages x ! i of
                    Committed phys _ \<Rightarrow> Some (Ok phys, s)
                  | Uncommitted \<Rightarrow>
                      Some (case take_frames 1 s of
                              (Ok phys, s1) \<Rightarrow> (Ok phys, set_page v i (Committed phys True) s1)
                            | (Err e, s1) \<Rightarrow> (Err e, s1)
                            | (Panic, s1) \<Rightarrow> (Panic, s1))
                  | CopyOnWrite parent_offset \<Rightarrow>
                      (case vm_parent x of
                         None \<Rightarrow> Some (Err InvalidState, s)
                       | Some p \<Rightarrow>
                           Option.bind (vm_get_page p parent_offset False s) (\<lambda>(r, s1).
                             if write then
                               (case r of
                                  Ok parent_phys \<Rightarrow>
                                    Some (case copy_frame parent_phys s1 of
                                            (Ok phys, s2) \<Rightarrow> (Ok phys, set_page v i (Committed phys True) s2)
                                          | (Err e, s2) \<Rightarrow> (Err e, s2)
                                          | (Panic, s2) \<Rightarrow> (Panic, s2))
                                | Err e \<Rightarrow> Some (Err e, s1)
                                | Panic \<Rightarrow> Some (Panic, s1))
                             else Some (r, s1))))"

section \<open>Reading and writing\<close>

text \<open>Both loops go page by page; \<open>None\<close> as for \<open>vm_get_page\<close>. The bytes read so far are returned.\<close>

definition peek :: "nat \<Rightarrow> nat \<Rightarrow> vm_sys \<Rightarrow> u8 list" where
  "peek a n s = map (\<lambda>i. ba_mem (vs_frames s) (a + i)) [0..<n]"

definition poke :: "nat \<Rightarrow> u8 list \<Rightarrow> vm_sys \<Rightarrow> vm_sys" where
  "poke a bs s = vs_map_mem (\<lambda>m x. if a \<le> x \<and> x < a + length bs then bs ! (x - a) else m x) s"

function read_loop :: "oid \<Rightarrow> nat \<Rightarrow> nat \<Rightarrow> vm_sys \<Rightarrow> ((vmo_error, u8 list) res \<times> vm_sys) option" where
  "read_loop v offset todo s =
     (if todo = 0 then Some (Ok [], s)
      else let page_offset = offset mod PAGE_SIZE;
               chunk = min (PAGE_SIZE - page_offset) todo
           in case vm_get_page v offset False s of
                None \<Rightarrow> None
              | Some (Ok phys, s1) \<Rightarrow>
                  (case bind_res (phys_to_virt phys) (\<lambda>a. chk_add a page_offset) of
                     Ok src \<Rightarrow>
                       (case read_loop v (offset + chunk) (todo - chunk) s1 of
                          None \<Rightarrow> None
                        | Some (Ok bs, s2) \<Rightarrow> Some (Ok (peek src chunk s1 @ bs), s2)
                        | Some (Err e, s2) \<Rightarrow> Some (Err e, s2)
                        | Some (Panic, s2) \<Rightarrow> Some (Panic, s2))
                   | Err e \<Rightarrow> Some (Err e, s1)
                   | Panic \<Rightarrow> Some (Panic, s1))
              | Some (Err e, s1) \<Rightarrow> Some (Err e, s1)
              | Some (Panic, s1) \<Rightarrow> Some (Panic, s1))"
  by pat_completeness auto
termination
proof (relation "measure (\<lambda>(v, offset, todo, s). todo)")
qed (auto simp: PAGE_SIZE_def)

definition vm_read :: "oid \<Rightarrow> nat \<Rightarrow> nat \<Rightarrow> vm_sys \<Rightarrow> ((vmo_error, u8 list) res \<times> vm_sys) option" where
  "vm_read v offset len s =
     (case vs_vmos s v of
        None \<Rightarrow> Some (Panic, s)
      | Some x \<Rightarrow>
          if offset \<ge> vm_size x then Some (Ok [], s)
          else read_loop v offset (min len (vm_size x - offset)) s)"

function write_loop :: "oid \<Rightarrow> nat \<Rightarrow> u8 list \<Rightarrow> vm_sys \<Rightarrow> ((vmo_error, nat) res \<times> vm_sys) option" where
  "write_loop v offset bs s =
     (if bs = [] then Some (Ok 0, s)
      else let page_offset = offset mod PAGE_SIZE;
               chunk = min (PAGE_SIZE - page_offset) (length bs)
           in case vm_get_page v offset True s of
                None \<Rightarrow> None
              | Some (Ok phys, s1) \<Rightarrow>
                  (case bind_res (phys_to_virt phys) (\<lambda>a. chk_add a page_offset) of
                     Ok dst \<Rightarrow>
                       (case write_loop v (offset + chunk) (drop chunk bs) (poke dst (take chunk bs) s1) of
                          None \<Rightarrow> None
                        | Some (Ok n, s2) \<Rightarrow> Some (Ok (chunk + n), s2)
                        | Some (Err e, s2) \<Rightarrow> Some (Err e, s2)
                        | Some (Panic, s2) \<Rightarrow> Some (Panic, s2))
                   | Err e \<Rightarrow> Some (Err e, s1)
                   | Panic \<Rightarrow> Some (Panic, s1))
              | Some (Err e, s1) \<Rightarrow> Some (Err e, s1)
              | Some (Panic, s1) \<Rightarrow> Some (Panic, s1))"
  by pat_completeness auto
termination
proof (relation "measure (\<lambda>(v, offset, bs, s). length bs)")
qed (auto simp: PAGE_SIZE_def)

definition vm_write :: "oid \<Rightarrow> nat \<Rightarrow> u8 list \<Rightarrow> vm_sys \<Rightarrow> ((vmo_error, nat) res \<times> vm_sys) option" where
  "vm_write v offset bs s =
     (case vs_vmos s v of
        None \<Rightarrow> Some (Panic, s)
      | Some x \<Rightarrow>
          if offset \<ge> vm_size x then Some (Ok 0, s)
          else write_loop v offset (take (vm_size x - offset) bs) s)"

section \<open>As a kernel object\<close>

definition vm_signals :: "vmo \<Rightarrow> signals" where
  "vm_signals x = ss_get (vm_signal_state x)"

definition vm_signal_set :: "signals \<Rightarrow> vmo \<Rightarrow> calls \<times> vmo" where
  "vm_signal_set sg x = (let (cs, st) = ss_set sg (vm_signal_state x) in (cs, x\<lparr>vm_signal_state := st\<rparr>))"

definition vm_signal_clear :: "signals \<Rightarrow> vmo \<Rightarrow> vmo" where
  "vm_signal_clear sg x = x\<lparr>vm_signal_state := ss_clear sg (vm_signal_state x)\<rparr>"

definition vm_add_signal_observer :: "observer \<Rightarrow> vmo \<Rightarrow> calls \<times> vmo" where
  "vm_add_signal_observer ob x =
     (let (cs, st) = ss_add_observer ob (vm_signal_state x) in (cs, x\<lparr>vm_signal_state := st\<rparr>))"

definition vm_remove_signal_observer :: "nat \<Rightarrow> vmo \<Rightarrow> vmo" where
  "vm_remove_signal_observer key x = x\<lparr>vm_signal_state := ss_remove_observer key (vm_signal_state x)\<rparr>"

section \<open>Who holds which frame\<close>

text \<open>
  The ledger of a heap of objects: page \<open>i\<close> of object \<open>v\<close> owns frame \<open>f\<close>. Pages of physical
  objects (\<open>Committed _ False\<close>) own nothing.
\<close>

fun owned :: "page_state \<Rightarrow> nat option" where
  "owned (Committed f True) = Some f"
| "owned _ = None"

definition ledger :: "(oid \<Rightarrow> vmo option) \<Rightarrow> oid \<times> nat \<Rightarrow> nat option" where
  "ledger H k = (case H (fst k) of
     None \<Rightarrow> None
   | Some x \<Rightarrow> if snd k < length (vm_pages x) then owned (vm_pages x ! snd k) else None)"

text \<open>No frame is owned twice, and no owned frame is free.\<close>

definition books_ok :: "buddy \<Rightarrow> (oid \<times> nat \<Rightarrow> nat option) \<Rightarrow> bool" where
  "books_ok fr L \<longleftrightarrow> buddy_inv fr \<and> inj_on L (dom L) \<and> (\<forall>f \<in> ran L. frame_of fr f \<and> f \<notin> free_frames fr)"

definition ranked :: "(oid \<Rightarrow> nat) \<Rightarrow> (oid \<Rightarrow> vmo option) \<Rightarrow> bool" where
  "ranked rank H \<longleftrightarrow> (\<forall>v x p. H v = Some x \<longrightarrow> vm_parent x = Some p \<longrightarrow> H p \<noteq> None \<and> rank p < rank v)"

text \<open>The rest of the invariant: sizes match the pages, the parents of clones are in the heap and form no cycle,
  and physical pages lie in the direct map but outside the memory of the allocator.\<close>

definition vmo_ok :: "nat set \<Rightarrow> vmo \<Rightarrow> bool" where
  "vmo_ok R x \<longleftrightarrow> vm_size x = length (vm_pages x) * 4096 \<and> vm_size x < usize_limit \<and>
     (\<forall>f. Committed f False \<in> set (vm_pages x) \<longrightarrow> f + 4096 \<le> phys_limit \<and> frame_bytes f \<inter> R = {})"

definition heap_ok :: "nat set \<Rightarrow> (oid \<Rightarrow> vmo option) \<Rightarrow> bool" where
  "heap_ok R H \<longleftrightarrow> (\<forall>v x. H v = Some x \<longrightarrow> vmo_ok R x) \<and> (\<exists>rank. ranked rank H)"

definition vm_inv :: "vm_sys \<Rightarrow> bool" where
  "vm_inv s \<longleftrightarrow> books_ok (vs_frames s) (ledger (vs_vmos s)) \<and>
     heap_ok (table_range (ba_table (vs_frames s))) (vs_vmos s)"

text \<open>All frames accounted for: owned by an object or free.\<close>

definition accounts :: "vm_sys \<Rightarrow> nat set" where
  "accounts s = ran (ledger (vs_vmos s)) \<union> free_frames (vs_frames s)"

lemma ledger_put:
  "ledger (H(v \<mapsto> x)) k =
     (if fst k = v then if snd k < length (vm_pages x) then owned (vm_pages x ! snd k) else None else ledger H k)"
  by (simp add: ledger_def)

lemma ledger_set_page:
  assumes "H v = Some x" and "i < length (vm_pages x)"
  shows "ledger (H(v \<mapsto> x\<lparr>vm_pages := (vm_pages x)[i := pg]\<rparr>)) = (ledger H)((v, i) := owned pg)"
  using assms by (auto simp: ledger_def fun_eq_iff nth_list_update)

lemma ledger_page:
  "H v = Some x \<Longrightarrow> i < length (vm_pages x) \<Longrightarrow> ledger H (v, i) = owned (vm_pages x ! i)"
  by (simp add: ledger_def)

lemma owned_Some_iff: "owned pg = Some f \<longleftrightarrow> pg = Committed f True"
  by (cases pg rule: owned.cases) auto

lemma ran_upd_None: "L k = Some f \<Longrightarrow> inj_on L (dom L) \<Longrightarrow> ran (L(k := None)) = ran L - {f}"
  by (auto simp: ran_def inj_on_def dom_def) (metis option.inject)

lemma books_grant:
  assumes "books_ok fr L" and "granted fr a (Suc 0) fr'" and "L k = None"
  shows "books_ok fr' (L(k \<mapsto> a))" and "ran (L(k \<mapsto> a)) \<union> free_frames fr' = ran L \<union> free_frames fr"
proof -
  have free: "a \<in> free_frames fr" "free_frames fr' = free_frames fr - {a}" "frame_of fr a"
    "buddy_run fr' = buddy_run fr" "buddy_inv fr'"
    using assms(2) by (auto simp: granted_def)
  have fresh: "a \<notin> ran L" using assms(1) free(1) by (auto simp: books_ok_def)
  then have "inj_on (L(k \<mapsto> a)) (dom (L(k \<mapsto> a)))"
    using assms(1) by (auto simp: books_ok_def inj_on_def dom_def ran_def)
  with assms free show "books_ok fr' (L(k \<mapsto> a))" by (auto simp: books_ok_def)
  from assms(3) free show "ran (L(k \<mapsto> a)) \<union> free_frames fr' = ran L \<union> free_frames fr" by auto
qed

lemma books_return:
  assumes "books_ok fr L" and "L k = Some f"
  obtains fr' where "buddy_free_one f fr = Ok fr'" "returned fr f fr'" "books_ok fr' (L(k := None))"
    "ran (L(k := None)) \<union> free_frames fr' = ran L \<union> free_frames fr"
proof -
  have f: "frame_of fr f" "f \<notin> free_frames fr" "buddy_inv fr" "inj_on L (dom L)" "f \<in> ran L"
    using assms ranI[of L k f] by (auto simp: books_ok_def)
  from free_one_returned[OF f(3,1,2)] obtain fr' where fr': "buddy_free_one f fr = Ok fr'" "returned fr f fr'" by blast
  have ran: "ran (L(k := None)) = ran L - {f}" using ran_upd_None[OF assms(2) f(4)] .
  have "inj_on (L(k := None)) (dom (L(k := None)))" using f(4) by (auto simp: inj_on_def dom_def)
  with fr'(2) assms(1) have "books_ok fr' (L(k := None))"
    unfolding books_ok_def ran by (auto simp: returned_def)
  moreover have "ran (L(k := None)) \<union> free_frames fr' = ran L \<union> free_frames fr"
    using fr'(2) f(5) unfolding ran by (auto simp: returned_def)
  ultimately show thesis using that fr' by blast
qed

lemma heap_ok_pages:
  assumes "heap_ok R H" and "H v = Some x" and "length pgs = length (vm_pages x)"
    and "\<And>f. Committed f False \<in> set pgs \<Longrightarrow> Committed f False \<in> set (vm_pages x)"
  shows "heap_ok R (H(v \<mapsto> x\<lparr>vm_pages := pgs\<rparr>))"
proof -
  have "vmo_ok R x" using assms(1,2) by (simp add: heap_ok_def)
  then have "vmo_ok R (x\<lparr>vm_pages := pgs\<rparr>)" using assms(3,4) by (simp add: vmo_ok_def)
  moreover obtain rank where "ranked rank H" using assms(1) by (auto simp: heap_ok_def)
  then have "ranked rank (H(v \<mapsto> x\<lparr>vm_pages := pgs\<rparr>))" using assms(2) by (auto simp: ranked_def)
  ultimately show ?thesis using assms(1) by (auto simp: heap_ok_def)
qed

lemma set_page_devices:
  "owned pg \<noteq> None \<or> pg = Uncommitted \<Longrightarrow> Committed f False \<in> set (pgs[i := pg]) \<Longrightarrow> Committed f False \<in> set pgs"
  using set_update_subset_insert[of pgs i pg] by auto

lemma vm_inv_frames:
  assumes "vm_inv s" and "books_ok fr (ledger (vs_vmos s))"
    and "table_range (ba_table fr) = table_range (ba_table (vs_frames s))"
  shows "vm_inv (s\<lparr>vs_frames := fr\<rparr>)"
  using assms by (simp add: vm_inv_def)

section \<open>Taking frames\<close>

lemma write_bytes_changed:
  "changed_only {p ..< p + n} m (write_bytes (p + PHYS_OFFSET) v n m)"
  by (auto simp: changed_only_def write_bytes_def)

lemma frames_cover: "\<Union> (frame_bytes ` frames a n) = {a ..< a + n * 4096}"
proof -
  have "x \<in> \<Union> (frame_bytes ` frames a n)" if "a \<le> x" "x < a + n * 4096" for x
  proof -
    let ?i = "(x - a) div 4096"
    have "?i < n" using that by (simp add: less_mult_imp_div_less)
    moreover have "x \<in> frame_bytes (a + ?i * 4096)" using that by (auto simp: frame_bytes_def)
    ultimately show ?thesis by (auto simp: frames_def)
  qed
  moreover have "a \<le> x \<and> x < a + n * 4096" if "x \<in> \<Union> (frame_bytes ` frames a n)" for x
  proof -
    from that obtain i where i: "i < n" "a + i * 4096 \<le> x" "x < a + i * 4096 + 4096"
      by (auto simp: frames_def frame_bytes_def)
    have "Suc i * 4096 \<le> n * 4096" using i(1) by (intro mult_le_mono1) simp
    with i show ?thesis by simp
  qed
  ultimately show ?thesis by (intro set_eqI iffI) (simp_all only: atLeastLessThan_iff)
qed

lemma take_frames_spec:
  assumes "buddy_inv (vs_frames s)" and "0 < n"
  obtains (none) "take_frames n s = (Err NoMemory, s)"
        "\<nexists>a. buddy_run (vs_frames s) a n \<and> frames a n \<subseteq> free_frames (vs_frames s)"
    | (some) a fr where "take_frames n s = (Ok a, s\<lparr>vs_frames := fr\<rparr>)" "granted (vs_frames s) a n fr"
        "\<forall>f \<in> frames a n. \<forall>x \<in> frame_bytes f. phys_byte fr x = 0"
  using assms
proof (cases rule: allocate_granted[OF assms])
  case 1
  then show thesis by (intro none) (simp_all add: take_frames_def)
next
  case (2 a b')
  have "frame_of (vs_frames s) a"
    using 2(2) assms(2) run_frames[of "vs_frames s" a n a] by (auto simp: granted_def frames_def image_iff intro!: bexI[of _ 0])
  then have virt: "phys_to_virt a = (Ok (a + PHYS_OFFSET) :: (vmo_error, nat) res)"
    using frame_of_limit[OF assms(1)] by (intro phys_to_virt_ok) fastforce
  let ?m = "write_bytes (a + PHYS_OFFSET) 0 (n * 4096) (ba_mem b')"
  have "granted (vs_frames s) a n (b'\<lparr>ba_mem := ?m\<rparr>)"
    using write_bytes_changed[of a "n * 4096"] by (intro granted_fill[OF 2(2)]) (simp add: frames_cover)
  moreover have "phys_byte (b'\<lparr>ba_mem := ?m\<rparr>) x = 0" if "f \<in> frames a n" "x \<in> frame_bytes f" for f x
    using that 2(3) by (auto simp: phys_byte_def write_bytes_def)
  moreover have "take_frames n s = (Ok a, s\<lparr>vs_frames := b'\<lparr>ba_mem := ?m\<rparr>\<rparr>)"
    using 2(1) virt by (simp add: take_frames_def vs_map_mem_def PAGE_SIZE_def Let_def)
  ultimately show thesis using some by blast
qed

section \<open>What an object shows\<close>

text \<open>
  The contents of a page: its own bytes, or whatever a page of the parent shows.
\<close>

datatype cell = Bytes "nat \<Rightarrow> u8" | Link "oid \<times> nat" | Missing

definition frame_content :: "buddy \<Rightarrow> nat \<Rightarrow> nat \<Rightarrow> u8" where
  "frame_content fr f k = (if k < 4096 then phys_byte fr (f + k) else 0)"

fun page_cell :: "buddy \<Rightarrow> oid option \<Rightarrow> page_state \<Rightarrow> cell" where
  "page_cell fr p Uncommitted = Bytes (\<lambda>_. 0)"
| "page_cell fr p (Committed f _) = Bytes (frame_content fr f)"
| "page_cell fr None (CopyOnWrite off) = Missing"
| "page_cell fr (Some p) (CopyOnWrite off) = Link (p, off div PAGE_SIZE)"

definition cells :: "vm_sys \<Rightarrow> oid \<times> nat \<Rightarrow> cell" where
  "cells s k = (case vs_vmos s (fst k) of
     None \<Rightarrow> Missing
   | Some x \<Rightarrow> if snd k < length (vm_pages x) then page_cell (vs_frames s) (vm_parent x) (vm_pages x ! snd k)
              else Missing)"

inductive displays_in :: "(oid \<times> nat \<Rightarrow> cell) \<Rightarrow> oid \<times> nat \<Rightarrow> (nat \<Rightarrow> u8) \<Rightarrow> bool" for c where
  here: "c k = Bytes g \<Longrightarrow> displays_in c k g"
| there: "c k = Link j \<Longrightarrow> displays_in c j g \<Longrightarrow> displays_in c k g"

inductive_cases displays_inE: "displays_in c k g"

abbreviation displays :: "vm_sys \<Rightarrow> oid \<times> nat \<Rightarrow> (nat \<Rightarrow> u8) \<Rightarrow> bool" where
  "displays s \<equiv> displays_in (cells s)"

lemma displays_det: "displays_in c k g \<Longrightarrow> displays_in c k h \<Longrightarrow> h = g"
proof (induction rule: displays_in.induct)
  case (here k g)
  from here(2,1) show ?case by (cases rule: displays_inE) auto
next
  case (there k j g)
  from there(4,1,3) show ?case by (cases rule: displays_inE) auto
qed

text \<open>Replacing a page by a copy of what it shows changes nothing.\<close>

lemma displays_upd:
  assumes "displays_in c k g"
  shows "displays_in (c(k := Bytes g)) = displays_in c"
proof (intro ext iffI)
  fix j h
  show "displays_in c j h" if "displays_in (c(k := Bytes g)) j h"
    using that
  proof (induction rule: displays_in.induct)
    case (here j h)
    with assms show ?case by (auto split: if_splits intro: displays_in.here)
  next
    case (there j i h)
    then show ?case by (auto split: if_splits intro: displays_in.there)
  qed
  show "displays_in (c(k := Bytes g)) j h" if "displays_in c j h"
    using that
  proof (induction rule: displays_in.induct)
    case (here j h)
    show ?case
    proof (cases "j = k")
      case True
      with here assms have "h = g" by (auto dest: displays_in.here displays_det)
      with True show ?thesis by (auto intro: displays_in.here)
    qed (use here in \<open>auto intro: displays_in.here\<close>)
  next
    case (there j i h)
    show ?case
    proof (cases "j = k")
      case True
      with there(1,2) assms have "h = g" by (auto dest: displays_in.there displays_det)
      with True show ?thesis by (auto intro: displays_in.here)
    qed (use there in \<open>auto intro: displays_in.there\<close>)
  qed
qed

lemma cells_page:
  "vs_vmos s v = Some x \<Longrightarrow> i < length (vm_pages x) \<Longrightarrow>
   cells s (v, i) = page_cell (vs_frames s) (vm_parent x) (vm_pages x ! i)"
  by (simp add: cells_def)

section \<open>Quiet changes\<close>

text \<open>Same objects with the same sizes, options and parents, and no new physical pages.\<close>

definition same_vmo :: "vmo \<Rightarrow> vmo \<Rightarrow> bool" where
  "same_vmo x y \<longleftrightarrow> vm_size y = vm_size x \<and> length (vm_pages y) = length (vm_pages x) \<and>
     vm_options y = vm_options x \<and> vm_parent y = vm_parent x \<and>
     (\<forall>f. Committed f False \<in> set (vm_pages y) \<longrightarrow> Committed f False \<in> set (vm_pages x))"

definition same_shape :: "(oid \<Rightarrow> vmo option) \<Rightarrow> (oid \<Rightarrow> vmo option) \<Rightarrow> bool" where
  "same_shape H H' \<longleftrightarrow> (\<forall>v. rel_option same_vmo (H v) (H' v))"

lemma same_vmo_refl [simp]: "same_vmo x x"
  by (simp add: same_vmo_def)

lemma same_vmo_trans: "same_vmo x y \<Longrightarrow> same_vmo y z \<Longrightarrow> same_vmo x z"
  by (simp add: same_vmo_def)

lemma same_shape_refl [simp]: "same_shape H H"
  by (simp add: same_shape_def option.rel_refl)

lemma same_shape_trans:
  assumes "same_shape H H'" and "same_shape H' H''"
  shows "same_shape H H''"
  unfolding same_shape_def
proof
  fix v
  from assms have "rel_option same_vmo (H v) (H' v)" "rel_option same_vmo (H' v) (H'' v)"
    by (simp_all add: same_shape_def)
  then show "rel_option same_vmo (H v) (H'' v)"
    by (auto elim!: option.rel_cases intro: same_vmo_trans)
qed

lemma same_shape_Some:
  assumes "same_shape H H'" and "H v = Some x"
  obtains y where "H' v = Some y" "same_vmo x y"
  using assms by (auto simp: same_shape_def elim!: allE[of _ v] option.rel_cases)

lemma same_shape_back:
  assumes "same_shape H H'" and "H' v = Some y"
  obtains x where "H v = Some x" "same_vmo x y"
  using assms by (auto simp: same_shape_def elim!: allE[of _ v] option.rel_cases)

lemma same_shape_pages:
  "H v = Some x \<Longrightarrow> length pgs = length (vm_pages x) \<Longrightarrow>
   (\<And>f. Committed f False \<in> set pgs \<Longrightarrow> Committed f False \<in> set (vm_pages x)) \<Longrightarrow>
   same_shape H (H(v \<mapsto> x\<lparr>vm_pages := pgs\<rparr>))"
  by (auto simp: same_shape_def same_vmo_def option.rel_refl)

lemma ranked_shape:
  assumes "same_shape H H'" and "ranked rank H"
  shows "ranked rank H'"
  unfolding ranked_def
proof (intro allI impI)
  fix v y p assume y: "H' v = Some y" "vm_parent y = Some p"
  obtain x where "H v = Some x" "same_vmo x y" by (rule same_shape_back[OF assms(1) y(1)])
  with y(2) have "H v = Some x" "vm_parent x = Some p" by (simp_all add: same_vmo_def)
  with assms(2) obtain z where "H p = Some z" "rank p < rank v" unfolding ranked_def by blast
  with same_shape_Some[OF assms(1), of p z] show "H' p \<noteq> None \<and> rank p < rank v" by auto
qed

text \<open>A quiet change keeps the invariant and the balance of frames, and no object shows anything new.\<close>

definition quiet :: "vm_sys \<Rightarrow> vm_sys \<Rightarrow> bool" where
  "quiet s s' \<longleftrightarrow> vm_inv s' \<and> accounts s' = accounts s \<and> same_shape (vs_vmos s) (vs_vmos s') \<and>
     buddy_run (vs_frames s') = buddy_run (vs_frames s) \<and> displays s' = displays s"

lemma quiet_refl: "vm_inv s \<Longrightarrow> quiet s s"
  by (simp add: quiet_def)

lemma quiet_trans: "quiet s s' \<Longrightarrow> quiet s' s'' \<Longrightarrow> quiet s s''"
  by (auto simp: quiet_def intro: same_shape_trans)

lemma frame_content_eqI:
  "(\<And>x. x \<in> frame_bytes f \<Longrightarrow> phys_byte fr' x = phys_byte fr x) \<Longrightarrow> frame_content fr' f = frame_content fr f"
  by (auto simp: frame_content_def frame_bytes_def fun_eq_iff)

lemma page_content_kept:
  assumes "vm_inv s" and "vs_vmos s v = Some x" and "pg \<in> set (vm_pages x)"
    and "\<And>f. frame_of (vs_frames s) f \<Longrightarrow> owned pg = Some f \<Longrightarrow> f \<notin> free_frames (vs_frames s) \<Longrightarrow>
           frame_content fr' f = frame_content (vs_frames s) f"
    and "\<And>y. y \<notin> table_range (ba_table (vs_frames s)) \<Longrightarrow> phys_byte fr' y = phys_byte (vs_frames s) y"
  shows "page_cell fr' q pg = page_cell (vs_frames s) q pg"
proof (cases pg)
  case (Committed f b)
  show ?thesis
  proof (cases b)
    case True
    from assms(3) obtain i where "i < length (vm_pages x)" "vm_pages x ! i = pg" by (auto simp: in_set_conv_nth)
    with assms(2) Committed True have "ledger (vs_vmos s) (v, i) = Some f" by (simp add: ledger_page)
    then have "frame_of (vs_frames s) f" "f \<notin> free_frames (vs_frames s)"
      using assms(1) ranI[of "ledger (vs_vmos s)" "(v, i)" f] by (auto simp: vm_inv_def books_ok_def)
    with assms(4)[of f] Committed True show ?thesis by simp
  next
    case False
    then have "frame_bytes f \<inter> table_range (ba_table (vs_frames s)) = {}"
      using assms(1-3) Committed by (auto simp: vm_inv_def heap_ok_def vmo_ok_def)
    with assms(5) Committed show ?thesis
      by (auto intro!: frame_content_eqI)
  qed
qed (cases q; simp)+

text \<open>The move behind every commit: a fresh frame, filled with what the page shows, becomes the page.\<close>

lemma quiet_commit:
  assumes "vm_inv s" and "granted (vs_frames s) a (Suc 0) fr" and "vs_vmos s v = Some x"
    and "i < length (vm_pages x)" and "owned (vm_pages x ! i) = None"
    and "displays s (v, i) (frame_content fr a)"
  shows "quiet s (set_page v i (Committed a True) (s\<lparr>vs_frames := fr\<rparr>))"
proof -
  let ?s = "set_page v i (Committed a True) (s\<lparr>vs_frames := fr\<rparr>)"
  let ?x = "x\<lparr>vm_pages := (vm_pages x)[i := Committed a True]\<rparr>"
  have st: "vs_frames ?s = fr" "vs_vmos ?s = (vs_vmos s)(v \<mapsto> ?x)"
    using assms(3) by (simp_all add: set_page_def put_vmo_def)
  have led: "ledger (vs_vmos ?s) = (ledger (vs_vmos s))((v, i) \<mapsto> a)"
    using ledger_set_page[of "vs_vmos s" v x i "Committed a True"] assms(3,4) st by simp
  have free: "ledger (vs_vmos s) (v, i) = None" using assms(3-5) by (simp add: ledger_page)
  have books: "books_ok (vs_frames s) (ledger (vs_vmos s))" using assms(1) by (simp add: vm_inv_def)
  note grant = books_grant[OF books assms(2) free]
  have rng: "table_range (ba_table fr) = table_range (ba_table (vs_frames s))"
    and run: "buddy_run fr = buddy_run (vs_frames s)"
    and afree: "a \<in> free_frames (vs_frames s)"
    and kept: "\<And>f y. frame_of (vs_frames s) f \<Longrightarrow> f \<noteq> a \<Longrightarrow> y \<in> frame_bytes f \<Longrightarrow> phys_byte fr y = phys_byte (vs_frames s) y"
      "\<And>y. y \<notin> table_range (ba_table (vs_frames s)) \<Longrightarrow> phys_byte fr y = phys_byte (vs_frames s) y"
    using assms(2) by (auto simp: granted_def)
  have "heap_ok (table_range (ba_table (vs_frames s))) (vs_vmos ?s)"
    unfolding st using assms(1,3) set_page_devices[of "Committed a True"]
    by (intro heap_ok_pages) (auto simp: vm_inv_def)
  with grant(1) have inv: "vm_inv ?s" unfolding vm_inv_def led by (simp add: st rng)
  have "cells ?s = (cells s)((v, i) := Bytes (frame_content fr a))"
  proof (intro ext)
    fix k
    have same: "page_cell fr q pg = page_cell (vs_frames s) q pg"
      if "vs_vmos s w = Some y" "pg \<in> set (vm_pages y)" for w y q pg
      using that afree kept by (intro page_content_kept[OF assms(1)] frame_content_eqI) auto
    show "cells ?s k = ((cells s)((v, i) := Bytes (frame_content fr a))) k"
      using assms(3,4) same
      by (cases k) (auto simp: cells_def st nth_list_update split: option.splits)
  qed
  then have "displays ?s = displays s" using displays_upd[OF assms(6)] by simp
  moreover have "accounts ?s = accounts s" using grant(2) unfolding accounts_def led by (simp add: st)
  moreover have "same_shape (vs_vmos s) (vs_vmos ?s)"
    unfolding st by (rule same_shape_pages[of "vs_vmos s" v x]) (use assms(3) set_page_devices[of "Committed a True"] in auto)
  ultimately show ?thesis using inv run st by (simp add: quiet_def)
qed

section \<open>Getting a page\<close>

lemma copy_mem_changed:
  "changed_only (frame_bytes p) m (copy_mem a (p + PHYS_OFFSET) 4096 m)"
  by (auto simp: changed_only_def copy_mem_def frame_bytes_def)

text \<open>A copied frame holds what its source holds, unless the source was free.\<close>

lemma copy_frame_spec:
  assumes "buddy_inv (vs_frames s)" and "src + 4096 \<le> phys_limit"
    and "frame_of (vs_frames s) src \<and> src \<notin> free_frames (vs_frames s) \<or>
         frame_bytes src \<inter> table_range (ba_table (vs_frames s)) = {}"
  obtains (none) "copy_frame src s = (Err NoMemory, s)"
    | (some) a fr where "copy_frame src s = (Ok a, s\<lparr>vs_frames := fr\<rparr>)" "granted (vs_frames s) a (Suc 0) fr"
        "frame_content fr a = frame_content (vs_frames s) src"
proof (cases rule: allocate_granted[OF assms(1) zero_less_one])
  case 1
  then show thesis by (intro none) (simp add: copy_frame_def)
next
  case (2 a b')
  have "frame_of (vs_frames s) a" "a \<in> free_frames (vs_frames s)" using 2(2) by (auto simp: granted_def)
  then have lim: "a < phys_limit" "src < phys_limit" using frame_of_limit[OF assms(1)] assms(2) by fastforce+
  let ?m = "copy_mem (src + PHYS_OFFSET) (a + PHYS_OFFSET) 4096 (ba_mem b')"
  have "granted (vs_frames s) a (Suc 0) (b'\<lparr>ba_mem := ?m\<rparr>)"
    using 2(2) copy_mem_changed by (intro granted_fill) auto
  moreover have "frame_content (b'\<lparr>ba_mem := ?m\<rparr>) a = frame_content (vs_frames s) src"
  proof (rule ext)
    fix k
    have "phys_byte b' (src + k) = phys_byte (vs_frames s) (src + k)" if "k < 4096"
    proof -
      have "src + k \<in> frame_bytes src" using that by (simp add: frame_bytes_def)
      with assms(3) 2(2) \<open>a \<in> free_frames (vs_frames s)\<close> show ?thesis
        unfolding granted_def by (metis (no_types, lifting) IntI One_nat_def emptyE frames_one singletonD)
    qed
    then show "frame_content (b'\<lparr>ba_mem := ?m\<rparr>) a k = frame_content (vs_frames s) src k"
      by (simp add: frame_content_def phys_byte_def copy_mem_def ac_simps)
  qed
  moreover have "copy_frame src s = (Ok a, s\<lparr>vs_frames := b'\<lparr>ba_mem := ?m\<rparr>\<rparr>)"
    using 2(1) lim by (simp add: copy_frame_def vs_map_mem_def PAGE_SIZE_def Let_def phys_to_virt_ok)
  ultimately show thesis using some by blast
qed

text \<open>The frame a page refers to, its own or that of a physical object, is a frame that is not free or
  lies outside the allocator's memory.\<close>

definition reachable_frame :: "buddy \<Rightarrow> nat \<Rightarrow> bool" where
  "reachable_frame fr f \<longleftrightarrow> f + 4096 \<le> phys_limit \<and>
     (frame_of fr f \<and> f \<notin> free_frames fr \<or> frame_bytes f \<inter> table_range (ba_table fr) = {})"

lemma committed_reachable:
  assumes "vm_inv s" and "vs_vmos s v = Some x" and "i < length (vm_pages x)" and "vm_pages x ! i = Committed f b"
  shows "reachable_frame (vs_frames s) f"
proof (cases b)
  case True
  with assms have "ledger (vs_vmos s) (v, i) = Some f" by (simp add: ledger_page)
  then have "frame_of (vs_frames s) f" "f \<notin> free_frames (vs_frames s)"
    using assms(1) ranI[of "ledger (vs_vmos s)" "(v, i)" f] by (auto simp: vm_inv_def books_ok_def)
  moreover from this have "f + 4096 \<le> phys_limit"
    using assms(1) frame_of_limit by (auto simp: vm_inv_def books_ok_def)
  ultimately show ?thesis by (simp add: reachable_frame_def)
next
  case False
  with assms nth_mem[OF assms(3)] show ?thesis
    by (auto simp: reachable_frame_def vm_inv_def heap_ok_def vmo_ok_def)
qed

text \<open>What \<open>get_page\<close> promises: it returns, changes nothing that can be seen, and touches no object of higher
  rank; the frame it names holds what the page shows, and is the page's own when it is to be written.\<close>

definition got_page :: "(oid \<Rightarrow> nat) \<Rightarrow> oid \<Rightarrow> nat \<Rightarrow> bool \<Rightarrow> vm_sys \<Rightarrow> (vmo_error, nat) res \<Rightarrow> vm_sys \<Rightarrow> bool" where
  "got_page rank v i w s r s' \<longleftrightarrow> quiet s s' \<and> r \<noteq> Panic \<and>
     (\<forall>u. rank v < rank u \<longrightarrow> vs_vmos s' u = vs_vmos s u) \<and>
     (\<forall>f. r = Ok f \<longrightarrow> reachable_frame (vs_frames s') f \<and> displays s' (v, i) (frame_content (vs_frames s') f) \<and>
        (\<exists>x. vs_vmos s' v = Some x \<and> i < length (vm_pages x) \<and> (w \<longrightarrow> (\<exists>b. vm_pages x ! i = Committed f b))))"

lemma got_page_commit:
  assumes "vm_inv s" and "granted (vs_frames s) a (Suc 0) fr" and "vs_vmos s v = Some x"
    and "i < length (vm_pages x)" and "owned (vm_pages x ! i) = None"
    and "displays s (v, i) (frame_content fr a)"
  shows "got_page rank v i w s (Ok a) (set_page v i (Committed a True) (s\<lparr>vs_frames := fr\<rparr>))"
proof -
  let ?s = "set_page v i (Committed a True) (s\<lparr>vs_frames := fr\<rparr>)"
  have q: "quiet s ?s" by (rule quiet_commit[OF assms])
  have st: "vs_frames ?s = fr" "vs_vmos ?s = (vs_vmos s)(v \<mapsto> x\<lparr>vm_pages := (vm_pages x)[i := Committed a True]\<rparr>)"
    using assms(3) by (simp_all add: set_page_def put_vmo_def)
  have "reachable_frame fr a"
    using q assms(4) committed_reachable[of ?s v _ i a True] st by (simp add: quiet_def)
  moreover have "displays ?s (v, i) (frame_content fr a)" using q assms(6) by (simp add: quiet_def)
  ultimately show ?thesis using q assms(4) st by (auto simp: got_page_def)
qed

lemma got_page_trans:
  assumes "quiet s s1" and "got_page rank v i w s1 r s'"
    and "\<And>u. rank v < rank u \<Longrightarrow> vs_vmos s1 u = vs_vmos s u"
  shows "got_page rank v i w s r s'"
  using assms quiet_trans by (auto simp: got_page_def)

lemma got_page_stay: "vm_inv s \<Longrightarrow> got_page rank v i w s (Err e) s"
  by (simp add: got_page_def quiet_refl)

lemma vm_inv_buddy: "vm_inv s \<Longrightarrow> buddy_inv (vs_frames s)"
  by (simp add: vm_inv_def books_ok_def)

lemma get_page_committed:
  assumes "vm_inv s" and "vs_vmos s v = Some x" and "off div PAGE_SIZE < length (vm_pages x)"
    and "vm_pages x ! (off div PAGE_SIZE) = Committed f b"
  shows "vm_get_page v off w s = Some (Ok f, s)" and "got_page rank v (off div PAGE_SIZE) w s (Ok f) s"
proof -
  show "vm_get_page v off w s = Some (Ok f, s)"
    using assms(2-4) by (simp add: vm_get_page.simps[of v off w s])
  have "displays s (v, off div PAGE_SIZE) (frame_content (vs_frames s) f)"
    using assms by (intro displays_in.here) (simp add: cells_page)
  then show "got_page rank v (off div PAGE_SIZE) w s (Ok f) s"
    using committed_reachable[OF assms] assms by (simp add: got_page_def quiet_refl)
qed

lemma get_page_uncommitted:
  assumes "vm_inv s" and "vs_vmos s v = Some x" and "off div PAGE_SIZE < length (vm_pages x)"
    and "vm_pages x ! (off div PAGE_SIZE) = Uncommitted"
  shows "\<exists>r s'. vm_get_page v off w s = Some (r, s') \<and> got_page rank v (off div PAGE_SIZE) w s r s'"
proof (cases rule: take_frames_spec[OF vm_inv_buddy[OF assms(1)] zero_less_one])
  case 1
  then have "vm_get_page v off w s = Some (Err NoMemory, s)"
    using assms(2-4) by (simp add: vm_get_page.simps[of v off w s])
  with got_page_stay[OF assms(1)] show ?thesis by blast
next
  case (2 a fr)
  let ?s = "set_page v (off div PAGE_SIZE) (Committed a True) (s\<lparr>vs_frames := fr\<rparr>)"
  have "frame_content fr a = (\<lambda>_. 0)"
    using 2(3) by (auto simp: frame_content_def frame_bytes_def fun_eq_iff)
  then have "displays s (v, off div PAGE_SIZE) (frame_content fr a)"
    using assms by (intro displays_in.here) (simp add: cells_page)
  with 2(2) assms have "got_page rank v (off div PAGE_SIZE) w s (Ok a) ?s"
    by (intro got_page_commit) auto
  moreover have "vm_get_page v off w s = Some (Ok a, ?s)"
    using 2(1) assms(2-4) by (simp add: vm_get_page.simps[of v off w s])
  ultimately show ?thesis by blast
qed

text \<open>A copy-on-write page, once the parent's \<open>get_page\<close> has named a frame.\<close>

definition cow_result :: "oid \<Rightarrow> nat \<Rightarrow> bool \<Rightarrow> nat \<Rightarrow> vm_sys \<Rightarrow> (vmo_error, nat) res \<times> vm_sys" where
  "cow_result v i w f s = (if w then
     (case copy_frame f s of
        (Ok a, s2) \<Rightarrow> (Ok a, set_page v i (Committed a True) s2)
      | (Err e, s2) \<Rightarrow> (Err e, s2)
      | (Panic, s2) \<Rightarrow> (Panic, s2))
     else (Ok f, s))"

lemma cow_result_spec:
  assumes "vm_inv s" and "vs_vmos s v = Some x" and "i < length (vm_pages x)" and "owned (vm_pages x ! i) = None"
    and "reachable_frame (vs_frames s) f" and "displays s (v, i) (frame_content (vs_frames s) f)"
  shows "\<exists>r s'. cow_result v i w f s = (r, s') \<and> got_page rank v i w s r s'"
proof (cases w)
  case False
  with assms show ?thesis by (simp add: cow_result_def got_page_def quiet_refl)
next
  case True
  have f: "f + 4096 \<le> phys_limit"
    "frame_of (vs_frames s) f \<and> f \<notin> free_frames (vs_frames s) \<or>
     frame_bytes f \<inter> table_range (ba_table (vs_frames s)) = {}"
    using assms(5) by (auto simp: reachable_frame_def)
  show ?thesis
  proof (cases rule: copy_frame_spec[OF vm_inv_buddy[OF assms(1)] f])
    case 1
    with True got_page_stay[OF assms(1)] show ?thesis by (simp add: cow_result_def)
  next
    case (2 a fr)
    have "got_page rank v i w s (Ok a) (set_page v i (Committed a True) (s\<lparr>vs_frames := fr\<rparr>))"
      using assms 2(2,3) by (intro got_page_commit) auto
    with 2(1) True show ?thesis by (simp add: cow_result_def)
  qed
qed

lemma get_page_cow:
  assumes "vs_vmos s v = Some x" and "off div PAGE_SIZE < length (vm_pages x)"
    and "vm_pages x ! (off div PAGE_SIZE) = CopyOnWrite po" and "vm_parent x = Some p"
    and "vm_get_page p po False s = Some (r, s1)" and "r \<noteq> Panic"
  shows "vm_get_page v off w s =
    Some (case r of Ok f \<Rightarrow> cow_result v (off div PAGE_SIZE) w f s1 | Err e \<Rightarrow> (Err e, s1) | Panic \<Rightarrow> (Panic, s1))"
  using assms by (cases r) (simp_all add: vm_get_page.simps[of v off w s] cow_result_def)

lemma get_page_parent:
  assumes "ranked rank (vs_vmos s)" and "vs_vmos s v = Some x" and "off div PAGE_SIZE < length (vm_pages x)"
    and "vm_pages x ! (off div PAGE_SIZE) = CopyOnWrite po" and "vm_parent x = Some p"
    and "vm_get_page p po False s = Some (r, s1)" and "got_page rank p (po div PAGE_SIZE) False s r s1"
  shows "\<exists>r s'. vm_get_page v off w s = Some (r, s') \<and> got_page rank v (off div PAGE_SIZE) w s r s'"
proof -
  let ?i = "off div PAGE_SIZE"
  have rank: "rank p < rank v" using assms(1,2,5) by (auto simp: ranked_def)
  have q: "quiet s s1" and np: "r \<noteq> Panic" and kept: "\<And>u. rank p < rank u \<Longrightarrow> vs_vmos s1 u = vs_vmos s u"
    using assms(7) by (auto simp: got_page_def)
  have inv1: "vm_inv s1" using q by (simp add: quiet_def)
  have v1: "vs_vmos s1 v = Some x" using kept[OF rank] assms(2) by simp
  have kept': "vs_vmos s1 u = vs_vmos s u" if "rank v < rank u" for u using kept rank that by simp
  note get = get_page_cow[OF assms(2-6) np, of w]
  show ?thesis
  proof (cases r)
    case (Ok f)
    have "displays s1 (p, po div PAGE_SIZE) (frame_content (vs_frames s1) f)" "reachable_frame (vs_frames s1) f"
      using assms(7) Ok by (auto simp: got_page_def)
    moreover have "cells s1 (v, ?i) = Link (p, po div PAGE_SIZE)"
      using v1 assms(3-5) by (simp add: cells_page)
    ultimately have "\<exists>r' s'. cow_result v ?i w f s1 = (r', s') \<and> got_page rank v ?i w s1 r' s'"
      using v1 assms(3,4) inv1 by (intro cow_result_spec[of _ _ x]) (auto intro: displays_in.there)
    then obtain r' s' where r': "cow_result v ?i w f s1 = (r', s')" "got_page rank v ?i w s1 r' s'" by blast
    have "got_page rank v ?i w s r' s'" by (rule got_page_trans[OF q r'(2) kept'])
    with get r'(1) Ok show ?thesis by auto
  next
    case (Err e)
    have "got_page rank v ?i w s (Err e) s1" by (rule got_page_trans[OF q got_page_stay[OF inv1] kept'])
    with get Err show ?thesis by auto
  qed (use np in simp)
qed

lemma get_page_spec:
  assumes "vm_inv s" and "ranked rank (vs_vmos s)" and "vs_vmos s v = Some x"
  shows "\<exists>r s'. vm_get_page v off w s = Some (r, s') \<and> got_page rank v (off div PAGE_SIZE) w s r s'"
  using assms
proof (induction "rank v" arbitrary: v x off w rule: less_induct)
  case less
  let ?i = "off div PAGE_SIZE"
  consider (out) "\<not> ?i < length (vm_pages x)"
    | (mine) f b where "?i < length (vm_pages x)" "vm_pages x ! ?i = Committed f b"
    | (lazy) "?i < length (vm_pages x)" "vm_pages x ! ?i = Uncommitted"
    | (orphan) po where "?i < length (vm_pages x)" "vm_pages x ! ?i = CopyOnWrite po" "vm_parent x = None"
    | (clone) po p where "?i < length (vm_pages x)" "vm_pages x ! ?i = CopyOnWrite po" "vm_parent x = Some p"
    by (cases "vm_pages x ! ?i"; cases "vm_parent x") blast+
  then show ?case
  proof cases
    case out
    then have "vm_get_page v off w s = Some (Err OutOfRange, s)"
      using less.prems(3) by (simp add: vm_get_page.simps[of v off w s])
    with got_page_stay[OF less.prems(1)] show ?thesis by blast
  next
    case mine
    from get_page_committed[OF less.prems(1,3) this] show ?thesis by blast
  next
    case lazy
    then show ?thesis by (rule get_page_uncommitted[OF less.prems(1,3)])
  next
    case orphan
    then have "vm_get_page v off w s = Some (Err InvalidState, s)"
      using less.prems(3) by (simp add: vm_get_page.simps[of v off w s])
    with got_page_stay[OF less.prems(1)] show ?thesis by blast
  next
    case clone
    with less.prems(2,3) obtain y where p: "vs_vmos s p = Some y" "rank p < rank v"
      unfolding ranked_def by blast
    from less.hyps[OF p(2) less.prems(1,2) p(1), of po False] get_page_parent[OF less.prems(2,3) clone]
    show ?thesis by blast
  qed
qed

end
