(* ===== verification/Vmo_Contents.thy ===== *)
theory Vmo_Contents
  imports Vmo
begin

text \<open>
  What virtual memory objects show to their readers: the specifications of \<open>read\<close>, \<open>write\<close>, \<open>commit\<close>, \<open>decommit\<close>,
  \<open>resize\<close>, creation and dropping in terms of the contents of pages and of the ownership of frames, runs of
  the whole component, and its properties.
\<close>

section \<open>Reading\<close>

text \<open>\<open>bs\<close> is what object \<open>v\<close> shows from byte \<open>off\<close> on.\<close>

definition reads :: "vm_sys \<Rightarrow> oid \<Rightarrow> nat \<Rightarrow> u8 list \<Rightarrow> bool" where
  "reads s v off bs \<longleftrightarrow>
     (\<forall>j < length bs. \<exists>g. displays s (v, (off + j) div 4096) g \<and> bs ! j = g ((off + j) mod 4096))"

lemma reads_append: "reads s v off bs \<Longrightarrow> reads s v (off + length bs) cs \<Longrightarrow> reads s v off (bs @ cs)"
  unfolding reads_def
proof (intro allI impI)
  fix j
  assume b: "\<forall>j < length bs. \<exists>g. displays s (v, (off + j) div 4096) g \<and> bs ! j = g ((off + j) mod 4096)"
    and c: "\<forall>j < length cs. \<exists>g. displays s (v, (off + length bs + j) div 4096) g \<and> cs ! j = g ((off + length bs + j) mod 4096)"
    and j: "j < length (bs @ cs)"
  show "\<exists>g. displays s (v, (off + j) div 4096) g \<and> (bs @ cs) ! j = g ((off + j) mod 4096)"
  proof (cases "j < length bs")
    case True
    with b show ?thesis by (simp add: nth_append)
  next
    case False
    with j have "j - length bs < length cs" "off + length bs + (j - length bs) = off + j" by auto
    with c False show ?thesis by (metis nth_append)
  qed
qed

lemma in_page:
  assumes "j < 4096 - off mod (4096 :: nat)"
  shows "(off + j) div 4096 = off div 4096" and "(off + j) mod 4096 = off mod 4096 + j"
proof -
  have e: "off + j = off div 4096 * 4096 + (off mod 4096 + j)" by simp
  have s: "off mod 4096 + j < 4096" using assms by simp
  have split: "(q * 4096 + r) div 4096 = q" "(q * 4096 + r) mod 4096 = r" if "r < 4096" for q r :: nat
    using that by simp_all
  show "(off + j) div 4096 = off div 4096" "(off + j) mod 4096 = off mod 4096 + j"
    using split[OF s, of "off div 4096"] unfolding e[symmetric] by blast+
qed

lemma frame_address:
  assumes "reachable_frame fr f" and "k < 4096"
  shows "bind_res (phys_to_virt f) (\<lambda>a. chk_add a k) = Ok (f + PHYS_OFFSET + k)"
  using assms by (simp add: reachable_frame_def phys_to_virt_ok chk_add_eq phys_limit_def PHYS_OFFSET_def)

lemma peek_reads:
  assumes "displays s (v, off div 4096) (frame_content (vs_frames s) f)" and "n \<le> 4096 - off mod 4096"
  shows "reads s v off (peek (f + PHYS_OFFSET + off mod 4096) n s)"
  unfolding reads_def
proof (intro allI impI)
  fix j assume "j < length (peek (f + PHYS_OFFSET + off mod 4096) n s)"
  then have j: "j < n" "j < 4096 - off mod 4096" using assms(2) by (simp_all add: peek_def)
  then have "peek (f + PHYS_OFFSET + off mod 4096) n s ! j = frame_content (vs_frames s) f (off mod 4096 + j)"
    by (simp add: peek_def frame_content_def phys_byte_def ac_simps less_diff_conv)
  with assms(1) in_page[OF j(2)]
  show "\<exists>g. displays s (v, (off + j) div 4096) g \<and> peek (f + PHYS_OFFSET + off mod 4096) n s ! j = g ((off + j) mod 4096)"
    by metis
qed

lemma read_loop_spec:
  assumes "vm_inv s" and "ranked rank (vs_vmos s)" and "vs_vmos s v = Some x"
  shows "\<exists>r s'. read_loop v off todo s = Some (r, s') \<and> quiet s s' \<and> r \<noteq> Panic \<and>
    (\<forall>bs. r = Ok bs \<longrightarrow> length bs = todo \<and> reads s v off bs)"
  using assms
proof (induction v off todo s arbitrary: x rule: read_loop.induct)
  case (1 v off todo s)
  show ?case
  proof (cases "todo = 0")
    case True
    with "1.prems"(1) show ?thesis by (simp add: quiet_refl reads_def)
  next
    case False
    let ?po = "off mod PAGE_SIZE" and ?n = "min (PAGE_SIZE - off mod PAGE_SIZE) todo"
    note step = read_loop.simps[of v off todo s]
    from get_page_spec[OF "1.prems", of off False] obtain r s1 where
      g: "vm_get_page v off False s = Some (r, s1)" "got_page rank v (off div PAGE_SIZE) False s r s1" by blast
    have q: "quiet s s1" and np: "r \<noteq> Panic" using g(2) by (auto simp: got_page_def)
    show ?thesis
    proof (cases r)
      case (Err e)
      with step False g(1) q show ?thesis by simp
    next
      case (Ok f)
      have f: "reachable_frame (vs_frames s1) f" "displays s1 (v, off div PAGE_SIZE) (frame_content (vs_frames s1) f)"
        using g(2) Ok by (auto simp: got_page_def)
      let ?src = "f + PHYS_OFFSET + ?po"
      have addr: "bind_res (phys_to_virt f) (\<lambda>a. chk_add a ?po) = (Ok ?src :: (vmo_error, nat) res)"
        by (rule frame_address[OF f(1)]) (simp add: PAGE_SIZE_def)
      have s1: "vm_inv s1" "ranked rank (vs_vmos s1)" "same_shape (vs_vmos s) (vs_vmos s1)" "displays s1 = displays s"
        using q "1.prems"(2) ranked_shape by (auto simp: quiet_def)
      obtain y where y: "vs_vmos s1 v = Some y" using same_shape_Some[OF s1(3) "1.prems"(3)] by blast
      from "1.IH"[OF False refl refl g(1)[unfolded Ok] refl refl addr s1(1,2) y] obtain r2 s2 where
        r2: "read_loop v (off + ?n) (todo - ?n) s1 = Some (r2, s2)" "quiet s1 s2" "r2 \<noteq> Panic"
          "\<And>bs. r2 = Ok bs \<Longrightarrow> length bs = todo - ?n \<and> reads s1 v (off + ?n) bs" by blast
      have head: "reads s v off (peek ?src ?n s1)" "length (peek ?src ?n s1) = ?n"
        using peek_reads[of s1 v off f ?n] f(2) s1(4) by (simp_all add: reads_def PAGE_SIZE_def peek_def)
      have "reads s v off (peek ?src ?n s1 @ bs)" if "reads s1 v (off + ?n) bs" for bs
        using reads_append[OF head(1), of bs] that head(2) s1(4) by (simp add: reads_def)
      with step False g(1) Ok addr r2 quiet_trans[OF q r2(2)] head(2) show ?thesis
        by (cases r2) (simp_all add: Let_def del: read_loop.simps)
    qed (use np in simp)
  qed
qed

section \<open>Writing\<close>

definition patch :: "nat \<Rightarrow> u8 list \<Rightarrow> nat \<Rightarrow> (nat \<Rightarrow> u8) \<Rightarrow> nat \<Rightarrow> u8" where
  "patch off bs i g k =
     (if k < 4096 \<and> off \<le> i * 4096 + k \<and> i * 4096 + k < off + length bs then bs ! (i * 4096 + k - off) else g k)"

lemma patch_Nil [simp]: "patch off [] i g = g"
  by (auto simp: patch_def fun_eq_iff)

lemma patch_split:
  "n \<le> length bs \<Longrightarrow> patch (off + n) (drop n bs) i (patch off (take n bs) i g) = patch off bs i g"
  by (rule ext) (auto simp: patch_def not_less)

text \<open>\<open>kin H w v\<close>: \<open>w\<close> is \<open>v\<close> or a clone of a clone ... of it.\<close>

definition kin :: "(oid \<Rightarrow> vmo option) \<Rightarrow> oid \<Rightarrow> oid \<Rightarrow> bool" where
  "kin H w v \<longleftrightarrow> (w, v) \<in> {(u, p). \<exists>x. H u = Some x \<and> vm_parent x = Some p}\<^sup>*"

lemma kin_refl [simp]: "kin H v v"
  by (simp add: kin_def)

lemma kin_step: "H w = Some x \<Longrightarrow> vm_parent x = Some p \<Longrightarrow> kin H p v \<Longrightarrow> kin H w v"
  unfolding kin_def by (rule converse_rtrancl_into_rtrancl[of w p]) auto

lemma kin_rank:
  assumes "ranked rank H" and "kin H w v"
  shows "w = v \<or> rank v < rank w"
  using assms(2) unfolding kin_def
proof (induction rule: converse_rtrancl_induct)
  case (step y z)
  then have "rank z < rank y" using assms(1) by (auto simp: ranked_def)
  with step.IH show ?case by auto
qed simp

lemma kin_shape:
  assumes "same_shape H H'"
  shows "kin H' = kin H"
proof -
  have "(\<exists>x. H' u = Some x \<and> vm_parent x = Some p) \<longleftrightarrow> (\<exists>x. H u = Some x \<and> vm_parent x = Some p)" for u p
    using same_shape_Some[OF assms, of u] same_shape_back[OF assms, of u] unfolding same_vmo_def by metis
  then show ?thesis by (simp add: kin_def fun_eq_iff)
qed

lemma cells_Link:
  assumes "cells s k = Link j"
  obtains x where "vs_vmos s (fst k) = Some x" "vm_parent x = Some (fst j)"
proof -
  from assms obtain x where "vs_vmos s (fst k) = Some x"
    "page_cell (vs_frames s) (vm_parent x) (vm_pages x ! snd k) = Link j"
    by (auto simp: cells_def split: option.splits if_splits)
  with that show thesis by (cases "(vs_frames s, vm_parent x, vm_pages x ! snd k)" rule: page_cell.cases) auto
qed

lemma displays_unrelated:
  assumes "displays s k g" and "\<not> kin (vs_vmos s) (fst k) v" and "\<And>j. fst j \<noteq> v \<Longrightarrow> cells s' j = cells s j"
  shows "displays s' k g"
  using assms(1,2)
proof (induction rule: displays_in.induct)
  case (here k g)
  then have "fst k \<noteq> v" by auto
  with here assms(3)[of k] show ?case by (auto intro: displays_in.here)
next
  case (there k j g)
  then have "fst k \<noteq> v" by auto
  from there(1) obtain x where "vs_vmos s (fst k) = Some x" "vm_parent x = Some (fst j)" by (rule cells_Link)
  then have "\<not> kin (vs_vmos s) (fst j) v" using there(4) kin_step by blast
  with there assms(3)[of k] \<open>fst k \<noteq> v\<close> show ?case by (auto intro: displays_in.there)
qed

text \<open>What a write of \<open>bs\<close> at \<open>off\<close> into \<open>v\<close> does to what is seen: \<open>v\<close> shows the new bytes there
  and the old ones elsewhere, objects that do not descend from \<open>v\<close> are as before, and the new bytes can be read back.\<close>

definition wrote :: "vm_sys \<Rightarrow> oid \<Rightarrow> nat \<Rightarrow> u8 list \<Rightarrow> vm_sys \<Rightarrow> bool" where
  "wrote s v off bs s' \<longleftrightarrow>
     (\<forall>i g. displays s (v, i) g \<longrightarrow> displays s' (v, i) (patch off bs i g)) \<and>
     (\<forall>k g. \<not> kin (vs_vmos s) (fst k) v \<longrightarrow> displays s k g \<longrightarrow> displays s' k g) \<and> reads s' v off bs"

lemma wrote_refl: "displays s' = displays s \<Longrightarrow> wrote s v off [] s'"
  by (simp add: wrote_def reads_def)

lemma reads_patched:
  assumes "reads s v off bs" and "\<And>i g. displays s (v, i) g \<Longrightarrow> displays s' (v, i) (patch (off + length bs) cs i g)"
  shows "reads s' v off bs"
  unfolding reads_def
proof (intro allI impI)
  fix j assume j: "j < length bs"
  with assms(1) obtain g where g: "displays s (v, (off + j) div 4096) g" "bs ! j = g ((off + j) mod 4096)"
    by (auto simp: reads_def)
  have "patch (off + length bs) cs ((off + j) div 4096) g ((off + j) mod 4096) = g ((off + j) mod 4096)"
    using j by (simp add: patch_def)
  with assms(2)[OF g(1)] g(2)
  show "\<exists>g. displays s' (v, (off + j) div 4096) g \<and> bs ! j = g ((off + j) mod 4096)" by metis
qed

lemma wrote_trans:
  assumes "wrote s v off (take n bs) s1" and "wrote s1 v (off + n) (drop n bs) s2"
    and "same_shape (vs_vmos s) (vs_vmos s1)" and "n \<le> length bs"
  shows "wrote s v off bs s2"
proof -
  have len: "length (take n bs) = n" using assms(4) by simp
  have "reads s2 v off (take n bs)"
    by (rule reads_patched[of s1 v off "take n bs" s2 "drop n bs"])
      (use assms(1,2) in \<open>simp_all add: wrote_def len del: length_take\<close>)
  then have "reads s2 v off (take n bs @ drop n bs)"
    by (rule reads_append) (use assms(2) in \<open>simp add: wrote_def len del: length_take\<close>)
  then have "reads s2 v off bs" by simp
  moreover have "displays s2 (v, i) (patch off bs i g)" if "displays s (v, i) g" for i g
    using assms(1,2) that patch_split[OF assms(4), of off i g] by (fastforce simp: wrote_def)
  moreover have "displays s2 k g" if "\<not> kin (vs_vmos s) (fst k) v" "displays s k g" for k g
    using assms(1,2) that kin_shape[OF assms(3)] by (cases k) (simp add: wrote_def)
  ultimately show ?thesis by (simp add: wrote_def)
qed

lemma wrote_quiet: "quiet s s1 \<Longrightarrow> wrote s1 v off bs s2 \<Longrightarrow> wrote s v off bs s2"
  using kin_shape[of "vs_vmos s" "vs_vmos s1"] by (simp add: quiet_def wrote_def)

lemma poke_changed:
  "k + length bs \<le> 4096 \<Longrightarrow> changed_only (frame_bytes f) (ba_mem (vs_frames s)) (ba_mem (vs_frames (poke (f + PHYS_OFFSET + k) bs s)))"
  by (auto simp: changed_only_def poke_def vs_map_mem_def frame_bytes_def)

lemma poke_simps [simp]:
  "vs_vmos (poke a bs s) = vs_vmos s" "ba_table (vs_frames (poke a bs s)) = ba_table (vs_frames s)"
  by (simp_all add: poke_def vs_map_mem_def)

lemma poke_inv:
  assumes "vm_inv s" and "reachable_frame (vs_frames s) f" and "k + length bs \<le> 4096"
  shows "vm_inv (poke (f + PHYS_OFFSET + k) bs s)" and "accounts (poke (f + PHYS_OFFSET + k) bs s) = accounts s"
proof -
  let ?s = "poke (f + PHYS_OFFSET + k) bs s"
  have fr: "vs_frames ?s = (vs_frames s)\<lparr>ba_mem := ba_mem (vs_frames ?s)\<rparr>" by (simp add: poke_def vs_map_mem_def)
  have "frame_bytes f \<inter> map_area (ba_table (vs_frames s)) = {}"
    using assms(2) frame_of_no_map[OF vm_inv_buddy[OF assms(1)]] map_area_range[of "ba_table (vs_frames s)"]
    by (auto simp: reachable_frame_def)
  note kept = poke_frames_inv[OF vm_inv_buddy[OF assms(1)] poke_changed[OF assms(3)] this]
  have "buddy_inv (vs_frames ?s)" "free_frames (vs_frames ?s) = free_frames (vs_frames s)"
    using kept by (metis fr)+
  then show "vm_inv ?s" "accounts ?s = accounts s"
    using assms(1) by (simp_all add: vm_inv_def books_ok_def accounts_def)
qed

lemma patch_elsewhere:
  assumes "i \<noteq> off div 4096" and "off mod 4096 + length bs \<le> 4096"
  shows "patch off bs i g = g"
proof (rule ext)
  fix k
  have e: "off = off div 4096 * 4096 + off mod 4096" by simp
  have "i < off div 4096 \<or> off div 4096 < i" using assms(1) by auto
  then have "\<not> (k < 4096 \<and> off \<le> i * 4096 + k \<and> i * 4096 + k < off + length bs)"
    using e assms(2) by linarith
  then show "patch off bs i g k = g k" by (auto simp: patch_def)
qed

lemma poke_content_other:
  assumes "reachable_frame (vs_frames s) h" and "frame_of (vs_frames s) f" and "h \<noteq> f" and "buddy_inv (vs_frames s)"
    and "k + length bs \<le> 4096"
  shows "frame_content (vs_frames (poke (f + PHYS_OFFSET + k) bs s)) h = frame_content (vs_frames s) h"
proof -
  have "frame_bytes h \<inter> frame_bytes f = {}"
  proof (cases "frame_of (vs_frames s) h")
    case True
    then show ?thesis using frames_apart[OF assms(4) _ assms(2)] assms(3) by blast
  next
    case False
    with assms(1) frame_of_range[OF assms(2)] show ?thesis by (auto simp: reachable_frame_def)
  qed
  then have "phys_byte (vs_frames (poke (f + PHYS_OFFSET + k) bs s)) y = phys_byte (vs_frames s) y"
    if "y \<in> frame_bytes h" for y
    using poke_changed[OF assms(5), of f s] that by (auto simp: changed_only_def phys_byte_def)
  then show ?thesis by (rule frame_content_eqI)
qed

lemma poke_content_own:
  assumes "off mod 4096 + length bs \<le> 4096"
  shows "frame_content (vs_frames (poke (f + PHYS_OFFSET + off mod 4096) bs s)) f =
    patch off bs (off div 4096) (frame_content (vs_frames s) f)"
proof (rule ext)
  fix k
  have e: "off = off div 4096 * 4096 + off mod 4096" by simp
  show "frame_content (vs_frames (poke (f + PHYS_OFFSET + off mod 4096) bs s)) f k =
    patch off bs (off div 4096) (frame_content (vs_frames s) f) k"
  proof (cases "k < 4096 \<and> off mod 4096 \<le> k \<and> k < off mod 4096 + length bs")
    case True
    then have "off \<le> off div 4096 * 4096 + k" "off div 4096 * 4096 + k < off + length bs"
      "off div 4096 * 4096 + k - off = k - off mod 4096" using e by linarith+
    with True show ?thesis
      by (simp add: frame_content_def patch_def phys_byte_def poke_def vs_map_mem_def ac_simps)
  next
    case False
    then have "\<not> (k < 4096 \<and> off \<le> off div 4096 * 4096 + k \<and> off div 4096 * 4096 + k < off + length bs)"
      using e by linarith
    moreover have "\<not> (off mod 4096 \<le> k \<and> k < off mod 4096 + length bs)" using False assms by auto
    ultimately show ?thesis
      by (auto simp: frame_content_def patch_def phys_byte_def poke_def vs_map_mem_def)
  qed
qed

lemma poke_wrote:
  assumes "vm_inv s" and "ranked rank (vs_vmos s)" and "vs_vmos s v = Some x" and "off div 4096 < length (vm_pages x)"
    and "vm_pages x ! (off div 4096) = Committed f True" and "off mod 4096 + length bs \<le> 4096"
  shows "wrote s v off bs (poke (f + PHYS_OFFSET + off mod 4096) bs s)"
proof -
  let ?s = "poke (f + PHYS_OFFSET + off mod 4096) bs s" and ?i = "off div 4096"
  have led: "ledger (vs_vmos s) (v, ?i) = Some f" using assms(3-5) by (simp add: ledger_page)
  then have f: "frame_of (vs_frames s) f"
    using assms(1) ranI[of "ledger (vs_vmos s)" "(v, ?i)" f] by (auto simp: vm_inv_def books_ok_def)
  have same: "cells ?s k = cells s k" if "k \<noteq> (v, ?i)" for k
  proof -
    have "page_cell (vs_frames ?s) q pg = page_cell (vs_frames s) q pg"
      if "vs_vmos s (fst k) = Some y" "snd k < length (vm_pages y)" "vm_pages y ! snd k = pg" for y q pg
    proof (cases pg)
      case (Committed h b)
      have "h \<noteq> f"
      proof
        assume "h = f"
        show False
        proof (cases b)
          case True
          with that Committed \<open>h = f\<close> have "ledger (vs_vmos s) k = Some f" by (simp add: ledger_def)
          with led assms(1) \<open>k \<noteq> (v, ?i)\<close> show False
            unfolding vm_inv_def books_ok_def inj_on_def by (metis domI)
        next
          case False
          with that Committed \<open>h = f\<close> assms(1) nth_mem[OF that(2)] frame_of_range[OF f]
          have "frame_bytes f = {}" by (fastforce simp: vm_inv_def heap_ok_def vmo_ok_def)
          then show False by (simp add: frame_bytes_def)
        qed
      qed
      with poke_content_other[OF committed_reachable[OF assms(1) that(1,2)] f _ vm_inv_buddy[OF assms(1)] assms(6)]
        that(3) Committed show ?thesis by simp
    qed (cases q; simp)+
    then show ?thesis by (auto simp: cells_def split: option.splits)
  qed
  have here: "cells s (v, ?i) = Bytes (frame_content (vs_frames s) f)"
    "cells ?s (v, ?i) = Bytes (patch off bs ?i (frame_content (vs_frames s) f))"
    using assms(3-5) by (simp_all add: cells_page poke_content_own[OF assms(6)])
  have far: "displays ?s k g" if "\<not> kin (vs_vmos s) (fst k) v" "displays s k g" for k g
    by (rule displays_unrelated[OF that(2,1)]) (rule same, auto)
  moreover have "displays ?s (v, i) (patch off bs i g)" if d: "displays s (v, i) g" for i g
  proof (cases "i = ?i")
    case True
    with d here(1) have "g = frame_content (vs_frames s) f" by (auto elim: displays_inE)
    with True here(2) show ?thesis by (auto intro: displays_in.here)
  next
    case False
    have "patch off bs i g = g" using False assms(6) by (rule patch_elsewhere)
    moreover have "displays ?s (v, i) g"
    proof (cases rule: displays_inE[OF d])
      case 1
      with same[of "(v, i)"] False show ?thesis by (auto intro: displays_in.here)
    next
      case (2 j)
      then obtain x where "vs_vmos s v = Some x" "vm_parent x = Some (fst j)"
        by (auto elim: cells_Link)
      then have "rank (fst j) < rank v" using assms(2) by (auto simp: ranked_def)
      then have "\<not> kin (vs_vmos s) (fst j) v" using kin_rank[OF assms(2)] by fastforce
      with far 2(2) have "displays ?s j g" by blast
      with 2(1) same[of "(v, i)"] False show ?thesis by (auto intro: displays_in.there)
    qed
    ultimately show ?thesis by simp
  qed
  moreover have "reads ?s v off bs"
    unfolding reads_def
  proof (intro allI impI)
    fix j assume j: "j < length bs"
    with assms(6) have p: "(off + j) div 4096 = ?i" "(off + j) mod 4096 = off mod 4096 + j" by (auto intro!: in_page)
    moreover have "patch off bs ?i (frame_content (vs_frames s) f) (off mod 4096 + j) = bs ! j"
    proof -
      have "?i * 4096 + (off mod 4096 + j) = off + j" by simp
      with j assms(6) show ?thesis by (simp add: patch_def)
    qed
    ultimately show "\<exists>g. displays ?s (v, (off + j) div 4096) g \<and> bs ! j = g ((off + j) mod 4096)"
      using displays_in.here[of "cells ?s", OF here(2)] by metis
  qed
  ultimately show ?thesis by (simp add: wrote_def)
qed

definition steady :: "vm_sys \<Rightarrow> vm_sys \<Rightarrow> bool" where
  "steady s s' \<longleftrightarrow> vm_inv s' \<and> accounts s' = accounts s \<and> same_shape (vs_vmos s) (vs_vmos s')"

lemma steady_trans: "steady s s' \<Longrightarrow> steady s' s'' \<Longrightarrow> steady s s''"
  by (auto simp: steady_def intro: same_shape_trans)

lemma quiet_steady: "quiet s s' \<Longrightarrow> steady s s'"
  by (simp add: quiet_def steady_def)

text \<open>An object without physical pages.\<close>

definition ordinary :: "vmo \<Rightarrow> bool" where
  "ordinary x \<longleftrightarrow> (\<forall>f. Committed f False \<notin> set (vm_pages x))"

lemma write_loop_spec:
  assumes "vm_inv s" and "ranked rank (vs_vmos s)" and "vs_vmos s v = Some x"
  shows "\<exists>r s'. write_loop v off bs s = Some (r, s') \<and> steady s s' \<and> r \<noteq> Panic \<and>
    (ordinary x \<longrightarrow> (\<forall>n. r = Ok n \<longrightarrow> n = length bs \<and> wrote s v off bs s'))"
  using assms
proof (induction v off bs s arbitrary: x rule: write_loop.induct)
  case (1 v off bs s)
  show ?case
  proof (cases "bs = []")
    case True
    with "1.prems"(1) show ?thesis by (simp add: quiet_steady quiet_refl wrote_refl)
  next
    case False
    let ?po = "off mod PAGE_SIZE" and ?n = "min (PAGE_SIZE - off mod PAGE_SIZE) (length bs)"
    note step = write_loop.simps[of v off bs s]
    from get_page_spec[OF "1.prems", of off True] obtain r s1 where
      g: "vm_get_page v off True s = Some (r, s1)" "got_page rank v (off div PAGE_SIZE) True s r s1" by blast
    have q: "quiet s s1" and np: "r \<noteq> Panic" using g(2) by (auto simp: got_page_def)
    show ?thesis
    proof (cases r)
      case (Err e)
      with step False g(1) quiet_steady[OF q] show ?thesis by simp
    next
      case (Ok f)
      have f: "reachable_frame (vs_frames s1) f" using g(2) Ok by (auto simp: got_page_def)
      obtain y b where y: "vs_vmos s1 v = Some y" "off div 4096 < length (vm_pages y)"
        "vm_pages y ! (off div 4096) = Committed f b"
        using g(2) Ok by (auto simp: got_page_def PAGE_SIZE_def)
      let ?dst = "f + PHYS_OFFSET + ?po" and ?s = "poke (f + PHYS_OFFSET + ?po) (take ?n bs) s1"
      have addr: "bind_res (phys_to_virt f) (\<lambda>a. chk_add a ?po) = (Ok ?dst :: (vmo_error, nat) res)"
        by (rule frame_address[OF f]) (simp add: PAGE_SIZE_def)
      have fits: "?po + length (take ?n bs) \<le> 4096" by (simp add: PAGE_SIZE_def)
      have s1: "vm_inv s1" "ranked rank (vs_vmos s1)" "same_shape (vs_vmos s) (vs_vmos s1)"
        using q "1.prems"(2) ranked_shape by (auto simp: quiet_def)
      have poked: "steady s1 ?s" using poke_inv[OF s1(1) f fits] by (simp add: steady_def)
      then have "vm_inv ?s" "ranked rank (vs_vmos ?s)" "vs_vmos ?s v = Some y" using s1(2) y(1) by (simp_all add: steady_def)
      from "1.IH"[OF False refl refl g(1)[unfolded Ok] refl refl addr this] obtain r2 s2 where
        r2: "write_loop v (off + ?n) (drop ?n bs) ?s = Some (r2, s2)" "steady ?s s2" "r2 \<noteq> Panic"
          "ordinary y \<Longrightarrow> r2 = Ok m \<Longrightarrow> m = length bs - ?n \<and> wrote ?s v (off + ?n) (drop ?n bs) s2" for m by auto
      have all: "steady s s2" using steady_trans[OF quiet_steady[OF q] steady_trans[OF poked r2(2)]] .
      have "?n + m = length bs \<and> wrote s v off bs s2" if "ordinary x" "r2 = Ok m" for m
      proof -
        have "same_vmo x y" using same_shape_Some[OF s1(3) "1.prems"(3)] y(1) by auto
        with that(1) have ord: "ordinary y" by (auto simp: ordinary_def same_vmo_def)
        with y(2,3) have "b" using nth_mem[OF y(2)] by (cases b) (auto simp: ordinary_def)
        with y fits have "wrote s1 v off (take ?n bs) ?s"
          using poke_wrote[OF s1(1,2) y(1,2), of f "take ?n bs"] by (simp add: PAGE_SIZE_def)
        then have "wrote s v off (take ?n bs) ?s" by (rule wrote_quiet[OF q])
        from wrote_trans[OF this, of "s2"] r2(4)[OF ord that(2)] s1(3) show ?thesis by simp
      qed
      with step False g(1) Ok addr r2(1,3) all show ?thesis
        by (cases r2) (simp_all add: Let_def del: write_loop.simps)
    qed (use np in simp)
  qed
qed

section \<open>Committing and decommitting ranges\<close>

abbreviation with_pages :: "oid \<Rightarrow> vmo \<Rightarrow> page_state list \<Rightarrow> vm_sys \<Rightarrow> vm_sys" where
  "with_pages v x pgs s \<equiv> put_vmo v (x\<lparr>vm_pages := pgs\<rparr>) s"

lemma with_own_pages: "vs_vmos s v = Some x \<Longrightarrow> with_pages v x (vm_pages x) s = s"
  by (simp add: put_vmo_def fun_upd_idem)

lemma put_vmo_simps [simp]:
  "vs_frames (put_vmo v x s) = vs_frames s" "vs_vmos (put_vmo v x s) = (vs_vmos s)(v \<mapsto> x)"
  "put_vmo v x (s\<lparr>vs_frames := fr\<rparr>) = (put_vmo v x s)\<lparr>vs_frames := fr\<rparr>"
  by (simp_all add: put_vmo_def)

lemma set_page_with:
  "set_page v i pg ((with_pages v x pgs s)\<lparr>vs_frames := fr\<rparr>) = with_pages v x (pgs[i := pg]) (s\<lparr>vs_frames := fr\<rparr>)"
  by (simp add: set_page_def put_vmo_def)

lemma commit_pages_spec:
  assumes "vm_inv (with_pages v x pgs s)" and "\<forall>i \<in> set is. i < length pgs"
  shows "\<exists>r pgs' fr. commit_pages is pgs s = (r, pgs', s\<lparr>vs_frames := fr\<rparr>) \<and> r \<noteq> Panic \<and> length pgs' = length pgs \<and>
    quiet (with_pages v x pgs s) (with_pages v x pgs' (s\<lparr>vs_frames := fr\<rparr>)) \<and>
    (\<forall>e. r = Err e \<longrightarrow> e = NoMemory \<and> free_frames fr = {}) \<and>
    (r = Ok () \<longrightarrow> (\<forall>i \<in> set is. pgs' ! i \<noteq> Uncommitted)) \<and>
    (\<forall>i < length pgs. pgs ! i \<noteq> Uncommitted \<longrightarrow> pgs' ! i = pgs ! i)"
  using assms
proof (induction "is" arbitrary: pgs s)
  case Nil
  then show ?case by (intro exI[of _ "Ok ()"] exI[of _ pgs] exI[of _ "vs_frames s"]) (simp add: quiet_refl)
next
  case (Cons i "is")
  have i: "i < length pgs" "\<forall>i \<in> set is. i < length pgs" using Cons.prems(2) by auto
  show ?case
  proof (cases "pgs ! i = Uncommitted")
    case False
    then have "commit_pages (i # is) pgs s = commit_pages is pgs s" by (simp split: page_state.splits)
    moreover from Cons.IH[OF Cons.prems(1) i(2)] obtain r pgs' fr where
      "commit_pages is pgs s = (r, pgs', s\<lparr>vs_frames := fr\<rparr>)" "r \<noteq> Panic" "length pgs' = length pgs"
      "quiet (with_pages v x pgs s) (with_pages v x pgs' (s\<lparr>vs_frames := fr\<rparr>))"
      "\<forall>e. r = Err e \<longrightarrow> e = NoMemory \<and> free_frames fr = {}" "r = Ok () \<longrightarrow> (\<forall>i \<in> set is. pgs' ! i \<noteq> Uncommitted)"
      "\<forall>i < length pgs. pgs ! i \<noteq> Uncommitted \<longrightarrow> pgs' ! i = pgs ! i" by blast
    ultimately show ?thesis using False i(1) by (intro exI[of _ r] exI[of _ pgs'] exI[of _ fr]) auto
  next
    case unc: True
    have inv: "buddy_inv (vs_frames s)" using vm_inv_buddy[OF Cons.prems(1)] by simp
    show ?thesis
    proof (cases rule: take_frames_spec[OF inv zero_less_one])
      case 1
      with unc Cons.prems(1) no_single_free[OF inv] show ?thesis
        by (intro exI[of _ "Err NoMemory"] exI[of _ pgs] exI[of _ "vs_frames s"]) (simp add: quiet_refl)
    next
      case (2 a fr)
      let ?pgs = "pgs[i := Committed a True]" and ?s = "s\<lparr>vs_frames := fr\<rparr>"
      have "frame_content fr a = (\<lambda>_. 0)"
        using 2(3) by (auto simp: frame_content_def frame_bytes_def fun_eq_iff)
      then have "displays (with_pages v x pgs s) (v, i) (frame_content fr a)"
        using unc i(1) by (intro displays_in.here) (simp add: cells_def)
      then have q: "quiet (with_pages v x pgs s) (with_pages v x ?pgs ?s)"
        using quiet_commit[OF Cons.prems(1), of a fr v "x\<lparr>vm_pages := pgs\<rparr>" i] 2(2) unc i(1)
        by (simp add: set_page_with del: put_vmo_simps(3))
      then have "vm_inv (with_pages v x ?pgs ?s)" by (simp add: quiet_def)
      from Cons.IH[OF this] i(2) obtain r pgs' fr' where
        r: "commit_pages is ?pgs ?s = (r, pgs', ?s\<lparr>vs_frames := fr'\<rparr>)" "r \<noteq> Panic" "length pgs' = length ?pgs"
        "quiet (with_pages v x ?pgs ?s) (with_pages v x pgs' (?s\<lparr>vs_frames := fr'\<rparr>))"
        "\<forall>e. r = Err e \<longrightarrow> e = NoMemory \<and> free_frames fr' = {}" "r = Ok () \<longrightarrow> (\<forall>i \<in> set is. pgs' ! i \<noteq> Uncommitted)"
        "\<forall>i < length ?pgs. ?pgs ! i \<noteq> Uncommitted \<longrightarrow> pgs' ! i = ?pgs ! i" by auto
      have "commit_pages (i # is) pgs s = commit_pages is ?pgs ?s" using unc 2(1) by simp
      moreover have "pgs' ! i \<noteq> Uncommitted" using r(7) i(1) by simp
      moreover have "\<forall>j < length pgs. pgs ! j \<noteq> Uncommitted \<longrightarrow> pgs' ! j = pgs ! j"
        using r(7) unc by (metis length_list_update nth_list_update_neq)
      ultimately show ?thesis using r quiet_trans[OF q r(4)]
        by (intro exI[of _ r] exI[of _ pgs'] exI[of _ fr']) auto
    qed
  qed
qed

lemma returned_kept:
  assumes "vm_inv s" and "returned (vs_frames s) f fr" and "vs_vmos s v = Some x" and "pg \<in> set (vm_pages x)"
  shows "page_cell fr q pg = page_cell (vs_frames s) q pg"
  using assms(2) by (intro page_content_kept[OF assms(1,3,4)] frame_content_eqI) (auto simp: returned_def)

lemma decommit_page:
  assumes "vm_inv (with_pages v x pgs s)" and "i < length pgs" and "pgs ! i = Committed f True"
  shows "\<exists>fr. buddy_free_one f (vs_frames s) = Ok fr \<and>
    steady (with_pages v x pgs s) (with_pages v x (pgs[i := Uncommitted]) (s\<lparr>vs_frames := fr\<rparr>)) \<and>
    cells (with_pages v x (pgs[i := Uncommitted]) (s\<lparr>vs_frames := fr\<rparr>)) =
      (cells (with_pages v x pgs s))((v, i) := Bytes (\<lambda>_. 0))"
proof -
  let ?s = "with_pages v x pgs s" and ?H = "(vs_vmos s)(v \<mapsto> x\<lparr>vm_pages := pgs\<rparr>)"
  let ?H' = "(vs_vmos s)(v \<mapsto> x\<lparr>vm_pages := pgs[i := Uncommitted]\<rparr>)"
  have books: "books_ok (vs_frames s) (ledger ?H)" using assms(1) by (simp add: vm_inv_def)
  have led: "ledger ?H (v, i) = Some f" using assms(2,3) by (simp add: ledger_def)
  have led': "ledger ?H' = (ledger ?H)((v, i) := None)"
    using ledger_set_page[of ?H v "x\<lparr>vm_pages := pgs\<rparr>" i Uncommitted] assms(2) by simp
  obtain fr where fr: "buddy_free_one f (vs_frames s) = Ok fr" "returned (vs_frames s) f fr"
    "books_ok fr ((ledger ?H)((v, i) := None))"
    "ran ((ledger ?H)((v, i) := None)) \<union> free_frames fr = ran (ledger ?H) \<union> free_frames (vs_frames s)"
    by (rule books_return[OF books led])
  let ?s' = "with_pages v x (pgs[i := Uncommitted]) (s\<lparr>vs_frames := fr\<rparr>)"
  have dev: "Committed g False \<in> set pgs" if "Committed g False \<in> set (pgs[i := Uncommitted])" for g
    using that set_page_devices[of Uncommitted] by simp
  have rng: "table_range (ba_table fr) = table_range (ba_table (vs_frames s))" using fr(2) by (simp add: returned_def)
  have "heap_ok (table_range (ba_table fr)) ?H'"
    using heap_ok_pages[of _ ?H v "x\<lparr>vm_pages := pgs\<rparr>" "pgs[i := Uncommitted]"] assms(1) dev rng
    by (simp add: vm_inv_def)
  with fr(3) have "vm_inv ?s'" by (simp add: vm_inv_def led')
  moreover have "accounts ?s' = accounts ?s" using fr(4) by (simp add: accounts_def led')
  moreover have "same_shape (vs_vmos ?s) (vs_vmos ?s')"
    using same_shape_pages[of ?H v "x\<lparr>vm_pages := pgs\<rparr>" "pgs[i := Uncommitted]"] dev by simp
  moreover have "cells ?s' = (cells ?s)((v, i) := Bytes (\<lambda>_. 0))"
  proof (rule ext)
    fix k
    have same: "page_cell fr q pg = page_cell (vs_frames s) q pg"
      if "?H w = Some y" "pg \<in> set (vm_pages y)" for w y q pg
      using returned_kept[OF assms(1), of f fr w y pg q] fr(2) that by simp
    show "cells ?s' k = ((cells ?s)((v, i) := Bytes (\<lambda>_. 0))) k"
      using assms(2) same[of v "x\<lparr>vm_pages := pgs\<rparr>"] same[of "fst k"]
      by (cases k) (auto simp: cells_def nth_list_update split: option.splits)
  qed
  ultimately show ?thesis using fr(1) by (auto simp: steady_def)
qed

lemma decommit_pages_spec:
  assumes "vm_inv (with_pages v x pgs s)" and "\<forall>i \<in> set is. i < length pgs"
  shows "\<exists>pgs' fr. decommit_pages is pgs (vs_frames s) = Ok (pgs', fr) \<and> length pgs' = length pgs \<and>
    steady (with_pages v x pgs s) (with_pages v x pgs' (s\<lparr>vs_frames := fr\<rparr>)) \<and>
    cells (with_pages v x pgs' (s\<lparr>vs_frames := fr\<rparr>)) =
      (\<lambda>k. if fst k = v \<and> snd k \<in> set is \<and> owned (pgs ! snd k) \<noteq> None then Bytes (\<lambda>_. 0)
           else cells (with_pages v x pgs s) k)"
  using assms
proof (induction "is" arbitrary: pgs s)
  case Nil
  then show ?case by (intro exI[of _ pgs] exI[of _ "vs_frames s"]) (simp add: steady_def)
next
  case (Cons i "is")
  have i: "i < length pgs" "\<forall>i \<in> set is. i < length pgs" using Cons.prems(2) by auto
  show ?case
  proof (cases "owned (pgs ! i)")
    case None
    then have "decommit_pages (i # is) pgs (vs_frames s) = decommit_pages is pgs (vs_frames s)"
      by (cases "pgs ! i" rule: owned.cases) auto
    with Cons.IH[OF Cons.prems(1) i(2)] None show ?thesis by (auto simp: fun_eq_iff)
  next
    case (Some f)
    then have f: "pgs ! i = Committed f True" by (simp add: owned_Some_iff)
    let ?pgs = "pgs[i := Uncommitted]"
    from decommit_page[OF Cons.prems(1) i(1) f] obtain fr where
      fr: "buddy_free_one f (vs_frames s) = Ok fr"
        "steady (with_pages v x pgs s) (with_pages v x ?pgs (s\<lparr>vs_frames := fr\<rparr>))"
        "cells (with_pages v x ?pgs (s\<lparr>vs_frames := fr\<rparr>)) = (cells (with_pages v x pgs s))((v, i) := Bytes (\<lambda>_. 0))"
      by blast
    from Cons.IH[of ?pgs "s\<lparr>vs_frames := fr\<rparr>"] fr(2) i(2) obtain pgs' fr' where
      r: "decommit_pages is ?pgs fr = Ok (pgs', fr')" "length pgs' = length pgs"
        "steady (with_pages v x ?pgs (s\<lparr>vs_frames := fr\<rparr>)) (with_pages v x pgs' (s\<lparr>vs_frames := fr'\<rparr>))"
        "cells (with_pages v x pgs' (s\<lparr>vs_frames := fr'\<rparr>)) =
          (\<lambda>k. if fst k = v \<and> snd k \<in> set is \<and> owned (?pgs ! snd k) \<noteq> None then Bytes (\<lambda>_. 0)
               else cells (with_pages v x ?pgs (s\<lparr>vs_frames := fr\<rparr>)) k)"
      by (auto simp: steady_def)
    have "cells (with_pages v x pgs' (s\<lparr>vs_frames := fr'\<rparr>)) =
      (\<lambda>k. if fst k = v \<and> snd k \<in> set (i # is) \<and> owned (pgs ! snd k) \<noteq> None then Bytes (\<lambda>_. 0)
           else cells (with_pages v x pgs s) k)"
    proof (rule ext)
      fix k :: "oid \<times> nat"
      show "cells (with_pages v x pgs' (s\<lparr>vs_frames := fr'\<rparr>)) k =
        (if fst k = v \<and> snd k \<in> set (i # is) \<and> owned (pgs ! snd k) \<noteq> None then Bytes (\<lambda>_. 0)
           else cells (with_pages v x pgs s) k)"
        unfolding r(4) fr(3) using f i(1) by (cases k) (auto simp: nth_list_update)
    qed
    with r(1,2) fr(1) f steady_trans[OF fr(2) r(3)] show ?thesis by auto
  qed
qed

section \<open>Releasing and creating\<close>

text \<open>The ledger without the pages \<open>n\<close> to \<open>m\<close> of \<open>v\<close>.\<close>

definition strike :: "oid \<Rightarrow> nat \<Rightarrow> nat \<Rightarrow> (oid \<times> nat \<Rightarrow> nat option) \<Rightarrow> oid \<times> nat \<Rightarrow> nat option" where
  "strike v n m L k = (if fst k = v \<and> n \<le> snd k \<and> snd k < m then None else L k)"

lemma strike_Suc: "n < m \<Longrightarrow> strike v (Suc n) m (L((v, n) := None)) = strike v n m L"
  by (auto simp: strike_def fun_eq_iff)

lemma release_pages_spec:
  assumes "books_ok fr L" and "\<And>j. j < length pgs \<Longrightarrow> L (v, n + j) = owned (pgs ! j)"
  shows "\<exists>fr'. release_pages pgs fr = Ok fr' \<and> books_ok fr' (strike v n (n + length pgs) L) \<and>
    ran (strike v n (n + length pgs) L) \<union> free_frames fr' = ran L \<union> free_frames fr \<and>
    table_range (ba_table fr') = table_range (ba_table fr)"
  using assms
proof (induction pgs arbitrary: n L fr)
  case Nil
  have "strike v n (n + length []) L = L" by (auto simp: strike_def fun_eq_iff)
  with Nil show ?case by simp
next
  case (Cons pg pgs)
  have own: "L (v, n) = owned pg" using Cons.prems(2)[of 0] by simp
  have rest: "L (v, Suc n + j) = owned (pgs ! j)" if "j < length pgs" for j using Cons.prems(2)[of "Suc j"] that by simp
  show ?case
  proof (cases "owned pg")
    case None
    then have "release_page pg fr = Ok fr" by (cases pg rule: owned.cases) (auto simp: release_page_def)
    moreover have "strike v (Suc n) (Suc n + length pgs) L = strike v n (n + length (pg # pgs)) L"
      using own None by (auto simp: strike_def fun_eq_iff le_less Suc_le_eq)
    ultimately show ?thesis using Cons.IH[OF Cons.prems(1) rest] by simp
  next
    case (Some f)
    with own have "L (v, n) = Some f" by simp
    from books_return[OF Cons.prems(1) this] obtain fr1 where
      fr1: "buddy_free_one f fr = Ok fr1" "returned fr f fr1" "books_ok fr1 (L((v, n) := None))"
        "ran (L((v, n) := None)) \<union> free_frames fr1 = ran L \<union> free_frames fr" by blast
    have "release_page pg fr = Ok fr1" using Some fr1(1) by (simp add: owned_Some_iff release_page_def)
    moreover have strike: "strike v (Suc n) (Suc n + length pgs) (L((v, n) := None)) = strike v n (n + length (pg # pgs)) L"
      using strike_Suc[of n "Suc n + length pgs" v L] by simp
    moreover have rest': "(L((v, n) := None)) (v, Suc n + j) = owned (pgs ! j)" if "j < length pgs" for j
      using rest[OF that] by simp
    moreover have "table_range (ba_table fr1) = table_range (ba_table fr)" using fr1(2) by (simp add: returned_def)
    ultimately show ?thesis
      using Cons.IH[OF fr1(3) rest'] unfolding strike fr1(4) by simp
  qed
qed

lemma ranked_fresh:
  assumes "ranked rank H" and "H v = None" and "\<And>p. vm_parent x = Some p \<Longrightarrow> H p \<noteq> None"
  shows "\<exists>rank'. ranked rank' (H(v \<mapsto> x))"
proof -
  let ?rank = "rank(v := case vm_parent x of None \<Rightarrow> 0 | Some p \<Rightarrow> Suc (rank p))"
  have "ranked ?rank (H(v \<mapsto> x))"
    unfolding ranked_def
  proof (intro allI impI)
    fix w y p assume y: "(H(v \<mapsto> x)) w = Some y" "vm_parent y = Some p"
    have par: "H p \<noteq> None" "w \<noteq> v \<Longrightarrow> rank p < rank w"
      using y assms(1,3) unfolding ranked_def by (cases "w = v"; force)+
    then have "p \<noteq> v" using assms(2) by auto
    with par y show "(H(v \<mapsto> x)) p \<noteq> None \<and> ?rank p < ?rank w" by (cases "w = v") auto
  qed
  then show ?thesis by blast
qed

lemma heap_ok_new:
  assumes "heap_ok R H" and "H v = None" and "vmo_ok R x" and "\<And>p. vm_parent x = Some p \<Longrightarrow> H p \<noteq> None"
  shows "heap_ok R (H(v \<mapsto> x))"
proof -
  from assms(1) obtain rank where "ranked rank H" by (auto simp: heap_ok_def)
  from ranked_fresh[where x = x, OF this assms(2,4)] assms(1,3) show ?thesis by (auto simp: heap_ok_def)
qed

lemma vm_inv_new:
  assumes "vm_inv s" and "vs_vmos s v = None" and "vmo_ok (table_range (ba_table (vs_frames s))) x"
    and "\<And>p. vm_parent x = Some p \<Longrightarrow> vs_vmos s p \<noteq> None" and "\<forall>pg \<in> set (vm_pages x). owned pg = None"
  shows "vm_inv (put_vmo v x s)" and "accounts (put_vmo v x s) = accounts s"
proof -
  have led: "ledger ((vs_vmos s)(v \<mapsto> x)) = ledger (vs_vmos s)"
    using assms(2,5) by (auto simp: ledger_def fun_eq_iff)
  show "accounts (put_vmo v x s) = accounts s" by (simp add: accounts_def led)
  show "vm_inv (put_vmo v x s)"
    using heap_ok_new[of _ "vs_vmos s" v x] assms by (auto simp: vm_inv_def led)
qed

lemma books_ok_sub:
  assumes "books_ok fr L" and "\<And>k. L' k \<noteq> None \<Longrightarrow> L' k = L k"
  shows "books_ok fr L'"
proof -
  have sub: "L k = Some f" if "L' k = Some f" for k f using assms(2)[of k] that by simp
  then have "ran L' \<subseteq> ran L" by (fastforce simp: ran_def)
  moreover have "inj_on L' (dom L')"
  proof (rule inj_onI)
    fix j k assume "j \<in> dom L'" "k \<in> dom L'" "L' j = L' k"
    then obtain f where "L' j = Some f" "L' k = Some f" by auto
    then have "L j = Some f" "L k = Some f" by (simp_all add: sub)
    with assms(1) show "j = k" unfolding books_ok_def by (auto dest: inj_onD[of L "dom L" j k])
  qed
  ultimately show ?thesis using assms(1) by (auto simp: books_ok_def)
qed

text \<open>The pages a committed object starts with: an eager object is a lazy one, committed.\<close>

lemma commit_each_pages:
  assumes "length pre = m"
  shows "commit_each n s =
    (case commit_pages [m..<m + n] (pre @ replicate n Uncommitted) s of
       (Ok _, pgs, s1) \<Rightarrow> (Ok (drop m pgs), s1) | (Err e, pgs, s1) \<Rightarrow> (Err e, s1) | (Panic, pgs, s1) \<Rightarrow> (Panic, s1)) \<and>
    take m (fst (snd (commit_pages [m..<m + n] (pre @ replicate n Uncommitted) s))) = pre"
  using assms
proof (induction n arbitrary: pre m s)
  case (Suc n)
  have upt: "[m..<m + Suc n] = m # [Suc m..<Suc m + n]" by (simp add: upt_rec)
  have nth: "(pre @ replicate (Suc n) Uncommitted) ! m = Uncommitted" using Suc.prems by (simp add: nth_append)
  have upd: "(pre @ replicate (Suc n) Uncommitted)[m := Committed a True] = (pre @ [Committed a True]) @ replicate n Uncommitted" for a
    using Suc.prems by (simp add: list_update_append)
  obtain r s1 where t: "take_frames 1 s = (r, s1)" by force
  show ?case
  proof (cases r)
    case (Ok a)
    let ?c = "commit_pages [Suc m..<Suc m + n] ((pre @ [Committed a True]) @ replicate n Uncommitted) s1"
    have c: "commit_pages [m..<m + Suc n] (pre @ replicate (Suc n) Uncommitted) s = ?c"
      unfolding upt using nth upd t Ok by simp
    have IH: "commit_each n s1 = (case ?c of (Ok _, pgs, s1) \<Rightarrow> (Ok (drop (Suc m) pgs), s1)
        | (Err e, pgs, s1) \<Rightarrow> (Err e, s1) | (Panic, pgs, s1) \<Rightarrow> (Panic, s1))"
      "take (Suc m) (fst (snd ?c)) = pre @ [Committed a True]"
      using Suc.IH[of "pre @ [Committed a True]" "Suc m" s1] Suc.prems by auto
    obtain r' pgs s2 where c': "?c = (r', pgs, s2)" by (metis prod_cases3)
    have "length (take (Suc m) pgs) = Suc m" using IH(2) c' Suc.prems by simp
    then have "m < length pgs" by simp
    moreover from this have "take m pgs @ [pgs ! m] = pre @ [Committed a True]"
      using IH(2) c' by (simp add: take_Suc_conv_app_nth)
    ultimately have "drop m pgs = Committed a True # drop (Suc m) pgs" "take m pgs = pre"
      by (auto simp: Cons_nth_drop_Suc[symmetric])
    then show ?thesis unfolding c c' using IH(1) c' t Ok by (cases r') simp_all
  next
    case (Err e)
    then show ?thesis unfolding upt using nth t Suc.prems by simp
  next
    case Panic
    then show ?thesis unfolding upt using nth t Suc.prems by simp
  qed
qed simp

lemma page_align_eq:
  assumes "n + 4096 < usize_limit"
  shows "page_align n = Ok ((n + 4095) div 4096 * 4096)" and "(n + 4095) div 4096 * 4096 < usize_limit"
proof -
  have "(n + 4095) div 4096 * 4096 \<le> n + 4095" by simp
  with assms show "(n + 4095) div 4096 * 4096 < usize_limit" by linarith
  from assms show "page_align n = Ok ((n + 4095) div 4096 * 4096)"
    by (simp add: page_align_def PAGE_SIZE_def chk_add_eq chk_sub_eq)
qed

lemma heap_ok_remove:
  assumes "heap_ok R H" and "\<And>w x. H w = Some x \<Longrightarrow> vm_parent x \<noteq> Some v"
  shows "heap_ok R (H(v := None))"
proof -
  from assms(1) obtain rank where rank: "ranked rank H" by (auto simp: heap_ok_def)
  have "ranked rank (H(v := None))"
    unfolding ranked_def
  proof (intro allI impI)
    fix w x p assume w: "(H(v := None)) w = Some x" "vm_parent x = Some p"
    then have "H w = Some x" by (auto split: if_splits)
    with w(2) assms(2)[of w x] rank show "(H(v := None)) p \<noteq> None \<and> rank p < rank w"
      by (auto simp: ranked_def)
  qed
  with assms(1) show ?thesis by (auto simp: heap_ok_def)
qed

lemma no_children:
  assumes "vm_inv s" and "vs_vmos s v = None" and "vs_vmos s w = Some x"
  shows "vm_parent x \<noteq> Some v"
proof
  assume "vm_parent x = Some v"
  moreover obtain rank where "ranked rank (vs_vmos s)" using assms(1) by (auto simp: vm_inv_def heap_ok_def)
  ultimately show False using assms(2,3) unfolding ranked_def by blast
qed

text \<open>Giving up a new object: the frames already taken for it stay taken.\<close>

lemma vm_inv_give_up:
  assumes "vm_inv s" and "vs_vmos s v = None" and "vm_inv (put_vmo v x (s\<lparr>vs_frames := fr\<rparr>))" and "vm_parent x = None"
  shows "vm_inv (s\<lparr>vs_frames := fr\<rparr>)"
proof -
  have "heap_ok (table_range (ba_table fr)) ((vs_vmos s)(v \<mapsto> x))" using assms(3) by (simp add: vm_inv_def)
  moreover have "vm_parent y \<noteq> Some v" if "((vs_vmos s)(v \<mapsto> x)) w = Some y" for w y
    using no_children[OF assms(1,2), of w y] that assms(4) by (cases "w = v") auto
  ultimately have "heap_ok (table_range (ba_table fr)) (((vs_vmos s)(v \<mapsto> x))(v := None))"
    by (rule heap_ok_remove)
  moreover have "((vs_vmos s)(v \<mapsto> x))(v := None) = vs_vmos s" using assms(2) by (auto simp: fun_eq_iff)
  moreover have "books_ok fr (ledger (vs_vmos s))"
  proof (rule books_ok_sub)
    show "books_ok fr (ledger ((vs_vmos s)(v \<mapsto> x)))" using assms(3) by (simp add: vm_inv_def)
    show "ledger (vs_vmos s) k = ledger ((vs_vmos s)(v \<mapsto> x)) k" if "ledger (vs_vmos s) k \<noteq> None" for k
      using that assms(2) by (auto simp: ledger_def)
  qed
  ultimately show ?thesis by (simp add: vm_inv_def)
qed

lemma books_grant_run:
  assumes "books_ok fr L" and "granted fr a n fr'" and "\<And>i. L (v, i) = None"
  defines "L' \<equiv> \<lambda>k. if fst k = v \<and> snd k < n then Some (a + snd k * 4096) else L k"
  shows "books_ok fr' L'" and "ran L' \<union> free_frames fr' = ran L \<union> free_frames fr"
proof -
  have g: "frames a n \<subseteq> free_frames fr" "free_frames fr' = free_frames fr - frames a n" "buddy_run fr a n"
    "buddy_run fr' = buddy_run fr" "buddy_inv fr'"
    using assms(2) by (auto simp: granted_def)
  have L: "\<And>f. f \<in> ran L \<Longrightarrow> frame_of fr f \<and> f \<notin> free_frames fr" "inj_on L (dom L)"
    using assms(1) by (auto simp: books_ok_def)
  have ran: "ran L' = frames a n \<union> ran L"
  proof
    show "ran L' \<subseteq> frames a n \<union> ran L" by (auto simp: L'_def ran_def frames_def split: if_splits)
    have "L' (v, i) = Some (a + i * 4096)" if "i < n" for i using that by (simp add: L'_def)
    moreover have "L' k = L k" if "L k \<noteq> None" for k using that assms(3)[of "snd k"] by (cases k) (auto simp: L'_def)
    ultimately show "frames a n \<union> ran L \<subseteq> ran L'" by (force simp: ran_def frames_def)
  qed
  have fresh: "L k \<noteq> Some f" if "f \<in> frames a n" for k f
    using L(1)[of f] g(1) that ranI[of L k f] by auto
  have "inj_on L' (dom L')"
  proof (rule inj_onI)
    fix j k assume jk: "j \<in> dom L'" "k \<in> dom L'" "L' j = L' k"
    have mem: "a + i * 4096 \<in> frames a n" if "i < n" for i using that by (auto simp: frames_def)
    show "j = k"
    proof (cases "fst j = v \<and> snd j < n"; cases "fst k = v \<and> snd k < n")
      assume "fst j = v \<and> snd j < n" "fst k = v \<and> snd k < n"
      with jk(3) show "j = k" by (cases j; cases k) (auto simp: L'_def)
    next
      assume "fst j = v \<and> snd j < n" "\<not> (fst k = v \<and> snd k < n)"
      with jk(3) fresh[OF mem, of "snd j" k] show "j = k" by (auto simp: L'_def)
    next
      assume "\<not> (fst j = v \<and> snd j < n)" "fst k = v \<and> snd k < n"
      with jk(3) fresh[OF mem, of "snd k" j] show "j = k" by (auto simp: L'_def)
    next
      assume "\<not> (fst j = v \<and> snd j < n)" "\<not> (fst k = v \<and> snd k < n)"
      with jk have "L j = L k" "j \<in> dom L" "k \<in> dom L" by (auto simp: L'_def dom_def)
      with L(2) show "j = k" by (auto dest: inj_onD)
    qed
  qed
  moreover have "frame_of fr f" if "f \<in> frames a n" for f using run_frames[OF g(3) that] .
  ultimately show "books_ok fr' L'"
    unfolding books_ok_def ran using g L(1) by auto
  show "ran L' \<union> free_frames fr' = ran L \<union> free_frames fr" unfolding ran using g by auto
qed

text \<open>What every operation promises: it does not panic, keeps the invariant and takes no frame out of the books.\<close>

definition tidy :: "vm_sys \<Rightarrow> (vmo_error, 'a) res \<times> vm_sys \<Rightarrow> bool" where
  "tidy s q \<longleftrightarrow> fst q \<noteq> Panic \<and> vm_inv (snd q) \<and> accounts (snd q) = accounts s"

lemma tidy_same: "vm_inv s \<Longrightarrow> tidy s (Err e, s)"
  by (simp add: tidy_def)

lemma tidy_put:
  assumes "vm_inv s" and "vs_vmos s v = None" and "vmo_ok (table_range (ba_table (vs_frames s))) x"
    and "\<And>p. vm_parent x = Some p \<Longrightarrow> vs_vmos s p \<noteq> None" and "\<forall>pg \<in> set (vm_pages x). owned pg = None"
  shows "tidy s (Ok (), put_vmo v x s)"
  using vm_inv_new[OF assms] by (simp add: tidy_def)

lemma create_contiguous:
  assumes "vm_inv s" and "vs_vmos s v = None" and "granted (vs_frames s) a n fr" and "n * 4096 < usize_limit"
  shows "tidy s (Ok (), put_vmo v (new_vmo (n * 4096) (map (\<lambda>i. Committed (a + i * PAGE_SIZE) True) [0..<n]) opts None)
    (s\<lparr>vs_frames := fr\<rparr>))"
proof -
  let ?x = "new_vmo (n * 4096) (map (\<lambda>i. Committed (a + i * PAGE_SIZE) True) [0..<n]) opts None"
  let ?R = "table_range (ba_table fr)"
  have rng: "?R = table_range (ba_table (vs_frames s))" using assms(3) by (simp add: granted_def)
  have led: "ledger ((vs_vmos s)(v \<mapsto> ?x)) = (\<lambda>k. if fst k = v \<and> snd k < n then Some (a + snd k * 4096) else ledger (vs_vmos s) k)"
    using assms(2) by (auto simp: ledger_def new_vmo_def PAGE_SIZE_def fun_eq_iff)
  have books: "books_ok (vs_frames s) (ledger (vs_vmos s))" using assms(1) by (simp add: vm_inv_def)
  have none: "ledger (vs_vmos s) (v, i) = None" for i using assms(2) by (simp add: ledger_def)
  note grant = books_grant_run[OF books assms(3) none]
  have "heap_ok ?R ((vs_vmos s)(v \<mapsto> ?x))"
    unfolding rng using assms(1,2,4) by (intro heap_ok_new) (auto simp: vm_inv_def vmo_ok_def new_vmo_def)
  with grant(1) have "vm_inv (put_vmo v ?x (s\<lparr>vs_frames := fr\<rparr>))" by (simp add: vm_inv_def led)
  moreover have "accounts (put_vmo v ?x (s\<lparr>vs_frames := fr\<rparr>)) = accounts s" using grant(2) by (simp add: accounts_def led)
  ultimately show ?thesis by (simp add: tidy_def)
qed

lemma create_eager:
  assumes "vm_inv s" and "vs_vmos s v = None" and "n * 4096 < usize_limit"
  obtains (some) pgs fr where "commit_each n s = (Ok pgs, s\<lparr>vs_frames := fr\<rparr>)"
        "tidy s (Ok (), put_vmo v (new_vmo (n * 4096) pgs opts None) (s\<lparr>vs_frames := fr\<rparr>))"
        "quiet (put_vmo v (new_vmo (n * 4096) (replicate n Uncommitted) opts None) s)
           (put_vmo v (new_vmo (n * 4096) pgs opts None) (s\<lparr>vs_frames := fr\<rparr>))"
    | (none) fr where "commit_each n s = (Err NoMemory, s\<lparr>vs_frames := fr\<rparr>)" "vm_inv (s\<lparr>vs_frames := fr\<rparr>)"
        "free_frames fr = {}"
proof -
  let ?x = "new_vmo (n * 4096) (replicate n Uncommitted) opts None"
  have lazy: "tidy s (Ok (), put_vmo v ?x s)"
    using assms by (intro tidy_put) (auto simp: new_vmo_def vmo_ok_def)
  have pg: "?x\<lparr>vm_pages := pgs\<rparr> = new_vmo (n * 4096) pgs opts None" for pgs by (simp add: new_vmo_def)
  have "vm_inv (with_pages v ?x (replicate n Uncommitted) s)" using lazy by (simp add: tidy_def pg)
  from commit_pages_spec[OF this, of "[0..<n]"] obtain r pgs fr where
    c: "commit_pages [0..<n] (replicate n Uncommitted) s = (r, pgs, s\<lparr>vs_frames := fr\<rparr>)" "r \<noteq> Panic"
      "quiet (put_vmo v ?x s) (with_pages v ?x pgs (s\<lparr>vs_frames := fr\<rparr>))"
      "\<forall>e. r = Err e \<longrightarrow> e = NoMemory \<and> free_frames fr = {}"
    unfolding pg by auto
  have each: "commit_each n s = (case commit_pages [0..<n] (replicate n Uncommitted) s of
       (Ok _, pgs, s1) \<Rightarrow> (Ok pgs, s1) | (Err e, pgs, s1) \<Rightarrow> (Err e, s1) | (Panic, pgs, s1) \<Rightarrow> (Panic, s1))"
    using commit_each_pages[of "[]" 0 n s] by (auto split: prod.splits res.splits)
  show thesis
  proof (cases r)
    case (Ok u)
    then have "commit_each n s = (Ok pgs, s\<lparr>vs_frames := fr\<rparr>)" using each c(1) by simp
    then show thesis using c(3) lazy by (intro some[of pgs fr]) (simp_all add: tidy_def quiet_def pg del: put_vmo_simps(3))
  next
    case (Err e)
    then have "commit_each n s = (Err NoMemory, s\<lparr>vs_frames := fr\<rparr>)" "free_frames fr = {}" using each c(1,4) by auto
    moreover have "vm_inv (s\<lparr>vs_frames := fr\<rparr>)"
      using c(3) assms(2) by (intro vm_inv_give_up[OF assms(1,2), of "?x\<lparr>vm_pages := pgs\<rparr>"]) (simp_all add: quiet_def new_vmo_def del: put_vmo_simps(3))
    ultimately show thesis by (intro none[of fr])
  qed (use c(2) in simp)
qed

section \<open>Every operation keeps the books\<close>

lemma tidy_quiet: "quiet s s' \<Longrightarrow> r \<noteq> Panic \<Longrightarrow> tidy s (r, s')"
  by (simp add: tidy_def quiet_def)

lemma tidy_steady: "steady s s' \<Longrightarrow> r \<noteq> Panic \<Longrightarrow> tidy s (r, s')"
  by (simp add: tidy_def steady_def)

lemma vm_create_tidy:
  assumes "vm_inv s" and "vs_vmos s v = None" and "n + 4096 < usize_limit"
  shows "tidy s (vm_create v n opts s) \<or>
    fst (vm_create v n opts s) = Err NoMemory \<and> vm_inv (snd (vm_create v n opts s)) \<and>
    vs_vmos (snd (vm_create v n opts s)) = vs_vmos s \<and> free_frames (vs_frames (snd (vm_create v n opts s))) = {} \<and>
    contains opts VMO_COMMIT \<and> \<not> contains opts VMO_CONTIGUOUS"
proof (cases "n = 0")
  case True
  with assms(1) show ?thesis by (simp add: vm_create_def tidy_same)
next
  case False
  let ?k = "(n + 4095) div 4096"
  note align = page_align_eq[OF assms(3)]
  have k: "0 < ?k" using False by (simp add: div_greater_zero_iff)
  have pa: "page_align n = (Ok (?k * 4096) :: (vmo_error, nat) res)" by (rule align(1))
  consider (run) "contains opts VMO_COMMIT" "contains opts VMO_CONTIGUOUS"
    | (pages) "contains opts VMO_COMMIT" "\<not> contains opts VMO_CONTIGUOUS" | (lazy) "\<not> contains opts VMO_COMMIT"
    by blast
  then show ?thesis
  proof cases
    case run
    show ?thesis
    proof (cases rule: take_frames_spec[OF vm_inv_buddy[OF assms(1)] k])
      case 1
      with False pa run assms(1) show ?thesis by (simp add: vm_create_def PAGE_SIZE_def Let_def tidy_same)
    next
      case (2 a fr)
      from create_contiguous[OF assms(1,2) 2(2) align(2)] False pa run 2(1)
      show ?thesis by (simp add: vm_create_def PAGE_SIZE_def Let_def)
    qed
  next
    case pages
    show ?thesis
      by (cases rule: create_eager[OF assms(1,2) align(2), of opts])
        (use False pa pages in \<open>simp_all add: vm_create_def PAGE_SIZE_def Let_def\<close>)
  next
    case lazy
    have "tidy s (Ok (), put_vmo v (new_vmo (?k * 4096) (replicate ?k Uncommitted) opts None) s)"
      using assms(1,2) align(2) by (intro tidy_put) (auto simp: new_vmo_def vmo_ok_def)
    with False pa lazy show ?thesis by (simp add: vm_create_def PAGE_SIZE_def Let_def)
  qed
qed

lemma vm_create_physical_tidy:
  assumes "vm_inv s" and "vs_vmos s v = None" and "phys + n + 4096 \<le> phys_limit"
    and "{phys ..< phys + n + 4096} \<inter> table_range (ba_table (vs_frames s)) = {}"
  shows "tidy s (vm_create_physical v phys n s)"
proof (cases "n = 0")
  case True
  with assms(1) show ?thesis by (simp add: vm_create_physical_def tidy_same)
next
  case False
  let ?k = "(n + 4095) div 4096" and ?R = "table_range (ba_table (vs_frames s))"
  have n: "n + 4096 < usize_limit" using assms(3) by (simp add: phys_limit_def)
  have inside: "phys + i * 4096 + 4096 \<le> phys + n + 4096" if "i < ?k" for i
  proof -
    have "Suc i * 4096 \<le> ?k * 4096" using that by (intro mult_le_mono1) simp
    moreover have "?k * 4096 \<le> n + 4095" by simp
    ultimately show ?thesis by simp
  qed
  let ?x = "new_vmo (?k * 4096) (map (\<lambda>i. Committed (phys + i * PAGE_SIZE) False) [0..<?k]) 0 None"
  have page: "phys + i * 4096 + 4096 \<le> phys_limit \<and> frame_bytes (phys + i * 4096) \<inter> ?R = {}" if "i < ?k" for i
  proof
    show "phys + i * 4096 + 4096 \<le> phys_limit" using inside[OF that] assms(3) by simp
    have "frame_bytes (phys + i * 4096) \<subseteq> {phys ..< phys + n + 4096}"
      using inside[OF that] by (auto simp: frame_bytes_def)
    with assms(4) show "frame_bytes (phys + i * 4096) \<inter> ?R = {}" by blast
  qed
  have dev: "f + 4096 \<le> phys_limit \<and> frame_bytes f \<inter> ?R = {}" if "Committed f False \<in> set (vm_pages ?x)" for f
  proof -
    from that obtain i where "i < ?k" "f = phys + i * 4096" by (auto simp: new_vmo_def PAGE_SIZE_def)
    with page show ?thesis by blast
  qed
  then have "vmo_ok ?R ?x"
    using page_align_eq(2)[OF n] unfolding vmo_ok_def by (simp add: new_vmo_def)
  then have "tidy s (Ok (), put_vmo v ?x s)"
    using assms(1,2) by (intro tidy_put) (auto simp: new_vmo_def)
  moreover have "phys + i * 4096 < usize_limit" if "i < ?k" for i using page[OF that] by (simp add: phys_limit_def)
  moreover have "page_align n = (Ok (?k * 4096) :: (vmo_error, nat) res)" by (rule page_align_eq[OF n])
  ultimately show ?thesis using False by (simp add: vm_create_physical_def PAGE_SIZE_def Let_def)
qed

lemma vm_create_cow_clone_tidy:
  assumes "vm_inv s" and "vs_vmos s v = None" and "vs_vmos s p = Some x" and "off + n + 4096 < usize_limit"
  shows "tidy s (vm_create_cow_clone v p off n s)"
proof (cases "vm_size x < off + n")
  case True
  with assms show ?thesis by (simp add: vm_create_cow_clone_def chk_add_eq tidy_same)
next
  case False
  let ?k = "(n + 4095) div 4096"
  have n: "n + 4096 < usize_limit" using assms(4) by simp
  have "tidy s (Ok (), put_vmo v (new_vmo (?k * 4096)
      (map (\<lambda>i. CopyOnWrite ((off div PAGE_SIZE + i) * PAGE_SIZE)) [0..<?k]) 0 (Some p)) s)"
    using assms(1-3) page_align_eq(2)[OF n] by (intro tidy_put) (auto simp: new_vmo_def vmo_ok_def)
  moreover have "page_align n = (Ok (?k * 4096) :: (vmo_error, nat) res)" by (rule page_align_eq[OF n])
  ultimately show ?thesis
    using False assms(3,4) by (simp add: vm_create_cow_clone_def chk_add_eq PAGE_SIZE_def Let_def)
qed

lemma page_span_ok:
  assumes "off + n + 4096 < usize_limit"
  shows "page_span off n = Ok (off div 4096, (off + n + 4095) div 4096)"
  using assms by (simp add: page_span_def PAGE_SIZE_def chk_add_eq chk_sub_eq)

lemma vm_commit_spec:
  assumes "vm_inv s" and "vs_vmos s v = Some x" and "off + n + 4096 < usize_limit"
  shows "\<exists>r s'. vm_commit v off n s = (r, s') \<and> r \<noteq> Panic \<and> quiet s s'"
proof (cases "(off + n + 4095) div 4096 > length (vm_pages x)")
  case True
  with assms show ?thesis by (simp add: vm_commit_def page_span_ok quiet_refl)
next
  case False
  let ?is = "[off div 4096..<(off + n + 4095) div 4096]"
  have own: "with_pages v x (vm_pages x) s = s" by (rule with_own_pages[OF assms(2)])
  have "\<forall>i \<in> set ?is. i < length (vm_pages x)" using False by auto
  from commit_pages_spec[where v = v and x = x and pgs = "vm_pages x" and s = s, unfolded own, OF assms(1) this] obtain r pgs fr where
    "commit_pages ?is (vm_pages x) s = (r, pgs, s\<lparr>vs_frames := fr\<rparr>)" "r \<noteq> Panic"
    "quiet s (with_pages v x pgs (s\<lparr>vs_frames := fr\<rparr>))" by blast
  with False assms(2,3) show ?thesis by (simp add: vm_commit_def page_span_ok)
qed

lemma vm_decommit_spec:
  assumes "vm_inv s" and "vs_vmos s v = Some x" and "off + n + 4096 < usize_limit"
    and "(off + n + 4095) div 4096 \<le> length (vm_pages x)"
  shows "\<exists>s'. vm_decommit v off n s = (Ok (), s') \<and> steady s s' \<and>
    cells s' = (\<lambda>k. if fst k = v \<and> off div 4096 \<le> snd k \<and> snd k < (off + n + 4095) div 4096 \<and> owned (vm_pages x ! snd k) \<noteq> None
                     then Bytes (\<lambda>_. 0) else cells s k)"
proof -
  let ?is = "[off div 4096..<(off + n + 4095) div 4096]"
  have own: "with_pages v x (vm_pages x) s = s" by (rule with_own_pages[OF assms(2)])
  have "\<forall>i \<in> set ?is. i < length (vm_pages x)" using assms(4) by auto
  from decommit_pages_spec[where v = v and x = x and pgs = "vm_pages x" and s = s, unfolded own, OF assms(1) this] obtain pgs fr where
    "decommit_pages ?is (vm_pages x) (vs_frames s) = Ok (pgs, fr)"
    "steady s (with_pages v x pgs (s\<lparr>vs_frames := fr\<rparr>))"
    "cells (with_pages v x pgs (s\<lparr>vs_frames := fr\<rparr>)) =
      (\<lambda>k. if fst k = v \<and> snd k \<in> set ?is \<and> owned (vm_pages x ! snd k) \<noteq> None then Bytes (\<lambda>_. 0) else cells s k)" by blast
  with assms show ?thesis by (auto simp: vm_decommit_def page_span_ok not_less)
qed

lemma vm_decommit_tidy:
  assumes "vm_inv s" and "vs_vmos s v = Some x" and "off + n + 4096 < usize_limit"
  shows "tidy s (vm_decommit v off n s)"
proof (cases "(off + n + 4095) div 4096 \<le> length (vm_pages x)")
  case True
  from vm_decommit_spec[OF assms True] show ?thesis by (auto intro: tidy_steady)
next
  case False
  with assms show ?thesis by (simp add: vm_decommit_def page_span_ok tidy_same)
qed

lemma ledger_truncate:
  assumes "vs_vmos s v = Some x" and "n \<le> length (vm_pages x)"
  shows "ledger ((vs_vmos s)(v \<mapsto> x\<lparr>vm_pages := take n (vm_pages x), vm_size := m\<rparr>)) =
    strike v n (n + length (drop n (vm_pages x))) (ledger (vs_vmos s))"
  using assms by (auto simp: ledger_def strike_def fun_eq_iff)

lemma heap_ok_resize:
  assumes "heap_ok R H" and "H v = Some x" and "m = length pgs * 4096" and "m < usize_limit"
    and "\<And>f. Committed f False \<in> set pgs \<Longrightarrow> Committed f False \<in> set (vm_pages x)"
  shows "heap_ok R (H(v \<mapsto> x\<lparr>vm_pages := pgs, vm_size := m\<rparr>))"
proof -
  have "vmo_ok R x" using assms(1,2) by (simp add: heap_ok_def)
  then have "vmo_ok R (x\<lparr>vm_pages := pgs, vm_size := m\<rparr>)" using assms(3-5) by (simp add: vmo_ok_def)
  moreover obtain rank where "ranked rank H" using assms(1) by (auto simp: heap_ok_def)
  then have "ranked rank (H(v \<mapsto> x\<lparr>vm_pages := pgs, vm_size := m\<rparr>))" using assms(2) by (auto simp: ranked_def)
  ultimately show ?thesis using assms(1) by (auto simp: heap_ok_def)
qed

lemma vm_resize_tidy:
  assumes "vm_inv s" and "vs_vmos s v = Some x" and "n + 4096 < usize_limit"
  shows "tidy s (vm_resize v n s)"
proof (cases "contains (vm_options x) VMO_RESIZABLE")
  case False
  with assms show ?thesis by (simp add: vm_resize_def tidy_same)
next
  case resizable: True
  let ?k = "(n + 4095) div 4096" and ?len = "length (vm_pages x)" and ?R = "table_range (ba_table (vs_frames s))"
  have pa: "page_align n = (Ok (?k * 4096) :: (vmo_error, nat) res)" by (rule page_align_eq[OF assms(3)])
  note heap = heap_ok_resize[of ?R "vs_vmos s" v x "?k * 4096", OF _ assms(2) _ page_align_eq(2)[OF assms(3)]]
  consider (grow) "?k > ?len" | (shrink) "?k < ?len" | (same) "?k = ?len" by linarith
  then show ?thesis
  proof cases
    case grow
    let ?x = "x\<lparr>vm_pages := vm_pages x @ replicate (?k - ?len) Uncommitted, vm_size := ?k * 4096\<rparr>"
    have led: "ledger ((vs_vmos s)(v \<mapsto> ?x)) = ledger (vs_vmos s)"
      using assms(2) by (auto simp: ledger_def fun_eq_iff nth_append)
    have "heap_ok ?R ((vs_vmos s)(v \<mapsto> ?x))" using assms(1) grow by (intro heap) (auto simp: vm_inv_def)
    then have "tidy s (Ok (), put_vmo v ?x s)" using assms(1) by (simp add: tidy_def vm_inv_def accounts_def led)
    with assms(2) resizable pa grow show ?thesis by (simp add: vm_resize_def PAGE_SIZE_def Let_def)
  next
    case shrink
    have books: "books_ok (vs_frames s) (ledger (vs_vmos s))" using assms(1) by (simp add: vm_inv_def)
    have "ledger (vs_vmos s) (v, ?k + j) = owned (drop ?k (vm_pages x) ! j)" if "j < length (drop ?k (vm_pages x))" for j
      using that assms(2) shrink by (simp add: ledger_page)
    from release_pages_spec[OF books this] obtain fr where
      fr: "release_pages (drop ?k (vm_pages x)) (vs_frames s) = Ok fr"
        "books_ok fr (strike v ?k (?k + length (drop ?k (vm_pages x))) (ledger (vs_vmos s)))"
        "ran (strike v ?k (?k + length (drop ?k (vm_pages x))) (ledger (vs_vmos s))) \<union> free_frames fr =
         ran (ledger (vs_vmos s)) \<union> free_frames (vs_frames s)" "table_range (ba_table fr) = ?R"
      by blast
    let ?x = "x\<lparr>vm_pages := take ?k (vm_pages x), vm_size := ?k * 4096\<rparr>"
    have led: "ledger ((vs_vmos s)(v \<mapsto> ?x)) = strike v ?k (?k + length (drop ?k (vm_pages x))) (ledger (vs_vmos s))"
      using shrink by (intro ledger_truncate[OF assms(2)]) simp
    have "heap_ok ?R ((vs_vmos s)(v \<mapsto> ?x))"
      using assms(1) shrink by (intro heap) (auto simp: vm_inv_def dest: in_set_takeD)
    then have "tidy s (Ok (), put_vmo v ?x (s\<lparr>vs_frames := fr\<rparr>))"
      using fr(2-4) by (simp add: tidy_def vm_inv_def accounts_def led)
    with assms(2) resizable pa shrink fr(1) show ?thesis by (simp add: vm_resize_def PAGE_SIZE_def Let_def del: put_vmo_simps(3))
  next
    case same
    have "x\<lparr>vm_size := ?k * 4096\<rparr> = x\<lparr>vm_pages := vm_pages x, vm_size := ?k * 4096\<rparr>" by simp
    moreover have "heap_ok ?R ((vs_vmos s)(v \<mapsto> x\<lparr>vm_pages := vm_pages x, vm_size := ?k * 4096\<rparr>))"
      using assms(1) same by (intro heap) (auto simp: vm_inv_def)
    moreover have led: "ledger ((vs_vmos s)(v \<mapsto> x\<lparr>vm_size := ?k * 4096\<rparr>)) = ledger (vs_vmos s)"
      using assms(2) by (auto simp: ledger_def fun_eq_iff)
    ultimately have "tidy s (Ok (), put_vmo v (x\<lparr>vm_size := ?k * 4096\<rparr>) s)"
      using assms(1) by (simp add: tidy_def vm_inv_def accounts_def)
    with assms(2) resizable pa same show ?thesis by (simp add: vm_resize_def PAGE_SIZE_def Let_def)
  qed
qed

lemma vm_drop_spec:
  assumes "vm_inv s" and "\<And>w x. vs_vmos s w = Some x \<Longrightarrow> vm_parent x \<noteq> Some v"
  shows "\<exists>s'. vm_drop v s = Ok s' \<and> vm_inv s' \<and> accounts s' = accounts s \<and> vs_vmos s' = (vs_vmos s)(v := None)"
proof (cases "vs_vmos s v")
  case None
  then have "(vs_vmos s)(v := None) = vs_vmos s" by (auto simp: fun_eq_iff)
  with None assms(1) show ?thesis by (simp add: vm_drop_def)
next
  case (Some x)
  have books: "books_ok (vs_frames s) (ledger (vs_vmos s))" using assms(1) by (simp add: vm_inv_def)
  have "ledger (vs_vmos s) (v, 0 + j) = owned (vm_pages x ! j)" if "j < length (vm_pages x)" for j
    using that Some by (simp add: ledger_page)
  from release_pages_spec[OF books this] obtain fr where
    fr: "release_pages (vm_pages x) (vs_frames s) = Ok fr"
      "books_ok fr (strike v 0 (length (vm_pages x)) (ledger (vs_vmos s)))"
      "ran (strike v 0 (length (vm_pages x)) (ledger (vs_vmos s))) \<union> free_frames fr =
       ran (ledger (vs_vmos s)) \<union> free_frames (vs_frames s)"
      "table_range (ba_table fr) = table_range (ba_table (vs_frames s))"
    by auto
  have led: "ledger ((vs_vmos s)(v := None)) = strike v 0 (length (vm_pages x)) (ledger (vs_vmos s))"
    using Some by (auto simp: ledger_def strike_def fun_eq_iff)
  have "heap_ok (table_range (ba_table fr)) ((vs_vmos s)(v := None))"
    unfolding fr(4) by (rule heap_ok_remove) (use assms in \<open>auto simp: vm_inv_def\<close>)
  with fr Some show ?thesis by (simp add: vm_drop_def vm_inv_def accounts_def led)
qed

section \<open>Runs of the system\<close>

datatype vm_op = VmCreate oid nat u32 | VmPhysical oid nat nat | VmClone oid oid nat nat | VmResize oid nat
  | VmCommit oid nat nat | VmDecommit oid nat nat | VmGetPage oid nat bool | VmRead oid nat nat
  | VmWrite oid nat "u8 list" | VmDrop oid

text \<open>The outcome of an operation: \<open>None\<close> for a panic, otherwise the error, if any, and the state.\<close>

fun settle :: "(vmo_error, 'a) res \<times> vm_sys \<Rightarrow> (vmo_error option \<times> vm_sys) option" where
  "settle (Ok _, s) = Some (None, s)"
| "settle (Err e, s) = Some (Some e, s)"
| "settle (Panic, s) = None"

fun vm_do :: "vm_op \<Rightarrow> vm_sys \<Rightarrow> (vmo_error option \<times> vm_sys) option" where
  "vm_do (VmCreate v n opts) s = settle (vm_create v n opts s)"
| "vm_do (VmPhysical v phys n) s = settle (vm_create_physical v phys n s)"
| "vm_do (VmClone v p off n) s = settle (vm_create_cow_clone v p off n s)"
| "vm_do (VmResize v n) s = settle (vm_resize v n s)"
| "vm_do (VmCommit v off n) s = settle (vm_commit v off n s)"
| "vm_do (VmDecommit v off n) s = settle (vm_decommit v off n s)"
| "vm_do (VmGetPage v off w) s = Option.bind (vm_get_page v off w s) settle"
| "vm_do (VmRead v off n) s = Option.bind (vm_read v off n s) settle"
| "vm_do (VmWrite v off bs) s = Option.bind (vm_write v off bs s) settle"
| "vm_do (VmDrop v) s = (case vm_drop v s of Ok s' \<Rightarrow> Some (None, s') | _ \<Rightarrow> None)"

text \<open>What callers grant: sizes stay a page below the end of the address space, identifiers of new
  objects are fresh, physical ranges are not memory of the allocator, and an object with clones is not dropped,
  since every clone holds a reference to its parent.\<close>

fun vm_allowed :: "vm_op \<Rightarrow> vm_sys \<Rightarrow> bool" where
  "vm_allowed (VmCreate v n opts) s \<longleftrightarrow> vs_vmos s v = None \<and> n + 4096 < usize_limit"
| "vm_allowed (VmPhysical v phys n) s \<longleftrightarrow> vs_vmos s v = None \<and> phys + n + 4096 \<le> phys_limit \<and>
     {phys ..< phys + n + 4096} \<inter> table_range (ba_table (vs_frames s)) = {}"
| "vm_allowed (VmClone v p off n) s \<longleftrightarrow> vs_vmos s v = None \<and> vs_vmos s p \<noteq> None \<and> off + n + 4096 < usize_limit"
| "vm_allowed (VmResize v n) s \<longleftrightarrow> vs_vmos s v \<noteq> None \<and> n + 4096 < usize_limit"
| "vm_allowed (VmCommit v off n) s \<longleftrightarrow> vs_vmos s v \<noteq> None \<and> off + n + 4096 < usize_limit"
| "vm_allowed (VmDecommit v off n) s \<longleftrightarrow> vs_vmos s v \<noteq> None \<and> off + n + 4096 < usize_limit"
| "vm_allowed (VmGetPage v off w) s \<longleftrightarrow> vs_vmos s v \<noteq> None"
| "vm_allowed (VmRead v off n) s \<longleftrightarrow> vs_vmos s v \<noteq> None"
| "vm_allowed (VmWrite v off bs) s \<longleftrightarrow> vs_vmos s v \<noteq> None"
| "vm_allowed (VmDrop v) s \<longleftrightarrow> (\<forall>w x. vs_vmos s w = Some x \<longrightarrow> vm_parent x \<noteq> Some v)"

inductive vm_reach :: "vm_sys \<Rightarrow> vm_sys \<Rightarrow> bool" for s0 where
  start: "vm_reach s0 s0"
| step: "vm_reach s0 s \<Longrightarrow> vm_allowed op s \<Longrightarrow> vm_do op s = Some (e, s') \<Longrightarrow> vm_reach s0 s'"

lemma tidy_settle:
  assumes "tidy s q"
  shows "\<exists>e s'. settle q = Some (e, s') \<and> vm_inv s' \<and> accounts s' = accounts s"
  using assms by (cases q rule: settle.cases) (auto simp: tidy_def)

lemma vm_inv_rank: "vm_inv s \<Longrightarrow> \<exists>rank. ranked rank (vs_vmos s)"
  by (simp add: vm_inv_def heap_ok_def)

lemma vm_read_tidy:
  assumes "vm_inv s" and "vs_vmos s v = Some x"
  shows "\<exists>q. vm_read v off n s = Some q \<and> tidy s q"
proof (cases "vm_size x \<le> off")
  case True
  with assms show ?thesis by (simp add: vm_read_def tidy_def)
next
  case False
  obtain rank where "ranked rank (vs_vmos s)" using vm_inv_rank[OF assms(1)] by blast
  from read_loop_spec[OF assms(1) this assms(2), of off "min n (vm_size x - off)"] False assms(2) show ?thesis
    by (auto simp: vm_read_def tidy_quiet simp del: read_loop.simps)
qed

lemma vm_write_tidy:
  assumes "vm_inv s" and "vs_vmos s v = Some x"
  shows "\<exists>q. vm_write v off bs s = Some q \<and> tidy s q"
proof (cases "vm_size x \<le> off")
  case True
  with assms show ?thesis by (simp add: vm_write_def tidy_def)
next
  case False
  obtain rank where "ranked rank (vs_vmos s)" using vm_inv_rank[OF assms(1)] by blast
  from write_loop_spec[OF assms(1) this assms(2), of off "take (vm_size x - off) bs"] False assms(2) show ?thesis
    by (auto simp: vm_write_def tidy_steady simp del: write_loop.simps)
qed

lemma vm_get_page_tidy:
  assumes "vm_inv s" and "vs_vmos s v = Some x"
  shows "\<exists>q. vm_get_page v off w s = Some q \<and> tidy s q"
proof -
  obtain rank where "ranked rank (vs_vmos s)" using vm_inv_rank[OF assms(1)] by blast
  from get_page_spec[OF assms(1) this assms(2), of off w] obtain r s' where
    "vm_get_page v off w s = Some (r, s')" "quiet s s'" "r \<noteq> Panic" by (auto simp: got_page_def)
  then show ?thesis by (auto intro: tidy_quiet)
qed

text \<open>The outcome of a step: the invariant holds; only a creation that runs out of memory may lose frames.\<close>

definition safe_outcome :: "vm_op \<Rightarrow> vm_sys \<Rightarrow> (vmo_error option \<times> vm_sys) option \<Rightarrow> bool" where
  "safe_outcome op s q \<longleftrightarrow> (case q of None \<Rightarrow> False | Some (e, s') \<Rightarrow>
     vm_inv s' \<and> accounts s' \<subseteq> accounts s \<and>
     (accounts s' = accounts s \<or> e = Some NoMemory \<and> (\<exists>v n opts. op = VmCreate v n opts)))"

lemma tidy_safe: "tidy s q \<Longrightarrow> safe_outcome op s (settle q)"
  using tidy_settle[of s q] by (auto simp: safe_outcome_def)

lemma vm_do_safe:
  assumes "vm_inv s" and "vm_allowed op s"
  shows "safe_outcome op s (vm_do op s)"
proof (cases op)
  case (VmCreate v n opts)
  then have pre: "vs_vmos s v = None" "n + 4096 < usize_limit" using assms(2) by auto
  from vm_create_tidy[OF assms(1) pre, of opts] show ?thesis
  proof
    assume "tidy s (vm_create v n opts s)"
    from tidy_safe[OF this] VmCreate show ?thesis by simp
  next
    let ?q = "vm_create v n opts s"
    assume q: "fst ?q = Err NoMemory \<and> vm_inv (snd ?q) \<and> vs_vmos (snd ?q) = vs_vmos s \<and>
      free_frames (vs_frames (snd ?q)) = {} \<and> contains opts VMO_COMMIT \<and> \<not> contains opts VMO_CONTIGUOUS"
    then have "settle ?q = Some (Some NoMemory, snd ?q)" by (cases ?q) simp
    with q VmCreate show ?thesis by (auto simp: accounts_def safe_outcome_def)
  qed
next
  case (VmPhysical v phys n)
  with assms(2) have "tidy s (vm_create_physical v phys n s)" by (intro vm_create_physical_tidy[OF assms(1)]) simp_all
  from tidy_safe[OF this] VmPhysical show ?thesis by simp
next
  case (VmClone v p off n)
  with assms(2) obtain x where "vs_vmos s v = None" "vs_vmos s p = Some x" "off + n + 4096 < usize_limit" by auto
  from tidy_safe[OF vm_create_cow_clone_tidy[OF assms(1) this]] VmClone show ?thesis by simp
next
  case (VmResize v n)
  with assms(2) obtain x where "vs_vmos s v = Some x" "n + 4096 < usize_limit" by auto
  from tidy_safe[OF vm_resize_tidy[OF assms(1) this]] VmResize show ?thesis by simp
next
  case (VmCommit v off n)
  with assms(2) obtain x where "vs_vmos s v = Some x" "off + n + 4096 < usize_limit" by auto
  from vm_commit_spec[OF assms(1) this] have "tidy s (vm_commit v off n s)" by (auto intro: tidy_quiet)
  from tidy_safe[OF this] VmCommit show ?thesis by simp
next
  case (VmDecommit v off n)
  with assms(2) obtain x where "vs_vmos s v = Some x" "off + n + 4096 < usize_limit" by auto
  from tidy_safe[OF vm_decommit_tidy[OF assms(1) this]] VmDecommit show ?thesis by simp
next
  case (VmGetPage v off w)
  with assms(2) obtain x where "vs_vmos s v = Some x" by auto
  from vm_get_page_tidy[OF assms(1) this, of off w] VmGetPage show ?thesis by (auto intro: tidy_safe)
next
  case (VmRead v off n)
  with assms(2) obtain x where "vs_vmos s v = Some x" by auto
  from vm_read_tidy[OF assms(1) this, of off n] VmRead show ?thesis by (auto intro: tidy_safe)
next
  case (VmWrite v off bs)
  with assms(2) obtain x where "vs_vmos s v = Some x" by auto
  from vm_write_tidy[OF assms(1) this, of off bs] VmWrite show ?thesis by (auto intro: tidy_safe)
next
  case (VmDrop v)
  with assms(2) vm_drop_spec[OF assms(1), of v] show ?thesis by (auto simp: safe_outcome_def)
qed

section \<open>A sample system\<close>

text \<open>One lazy object of two pages over the sample allocator, and a clone of its first page.\<close>

definition sample_vm :: vm_sys where
  "sample_vm = \<lparr>vs_frames = sample_buddy,
     vs_vmos = [1 \<mapsto> new_vmo 8192 [Uncommitted, Uncommitted] 0 None, 2 \<mapsto> new_vmo 4096 [CopyOnWrite 0] 0 (Some 1)]\<rparr>"

lemma sample_vm_objects:
  "vs_vmos sample_vm 1 = Some (new_vmo 8192 [Uncommitted, Uncommitted] 0 None)"
  "vs_vmos sample_vm 2 = Some (new_vmo 4096 [CopyOnWrite 0] 0 (Some 1))"
  "vs_frames sample_vm = sample_buddy"
  by (simp_all add: sample_vm_def)

lemma sample_vm_inv: "vm_inv sample_vm"
proof -
  have led: "ledger (vs_vmos sample_vm) = Map.empty"
    by (auto simp: ledger_def sample_vm_def new_vmo_def fun_eq_iff nth_Cons split: nat.splits)
  have "ranked id (vs_vmos sample_vm)"
    by (auto simp: ranked_def sample_vm_def new_vmo_def split: if_splits)
  then have "heap_ok R (vs_vmos sample_vm)" for R
    by (auto simp: heap_ok_def vmo_ok_def sample_vm_def new_vmo_def split: if_splits)
  with led show ?thesis by (simp add: vm_inv_def books_ok_def sample_vm_def sample_buddy_inv)
qed

lemma sample_vm_get:
  assumes "off < 4096"
  obtains f s' where "vm_get_page 1 off w sample_vm = Some (Ok f, s')"
proof -
  have inv: "buddy_inv (vs_frames sample_vm)" by (simp add: sample_vm_objects sample_buddy_inv)
  have "\<exists>a. frame_of sample_buddy a \<and> a \<in> free_frames sample_buddy"
  proof -
    obtain b' where "buddy_allocate 2 sample_buddy = Ok (Some 0x101000, b')" using sample_allocate by blast
    from bfa.alloc_takes[OF sample_buddy_inv _ this] have "frames 0x101000 2 \<subseteq> free_frames sample_buddy" by simp
    moreover have "0x101000 \<in> frames 0x101000 2" by (simp add: frames_def image_iff)
    ultimately have "0x101000 \<in> free_frames sample_buddy" by blast
    with free_frame_of[OF sample_buddy_inv] show ?thesis by blast
  qed
  then have some: "\<exists>a. buddy_run (vs_frames sample_vm) a 1 \<and> frames a 1 \<subseteq> free_frames (vs_frames sample_vm)"
    by (simp add: sample_vm_objects)
  show thesis
  proof (cases rule: take_frames_spec[OF inv zero_less_one])
    case 1
    with some show thesis by blast
  next
    case (2 a fr)
    with assms have "\<exists>f s'. vm_get_page 1 off w sample_vm = Some (Ok f, s')"
      by (simp add: vm_get_page.simps[of 1 off] sample_vm_objects new_vmo_def PAGE_SIZE_def del: One_nat_def)
    with that show thesis by blast
  qed
qed

lemma commit_each_pages_owned:
  "commit_each n s = (Ok pgs, s') \<Longrightarrow> length pgs = n \<and> (\<forall>pg \<in> set pgs. owned pg \<noteq> None)"
  by (induction n arbitrary: s pgs s') (auto split: prod.splits res.splits)

text \<open>The sample allocator has three free frames, so sixteen pages cannot be committed.\<close>

lemma sample_too_small:
  assumes "commit_each 16 sample_vm = (Ok pgs, s1)"
    and "tidy sample_vm (Ok (), put_vmo 3 (new_vmo (16 * 4096) pgs opts None) s1)"
  shows False
proof -
  let ?s = "put_vmo 3 (new_vmo (16 * 4096) pgs opts None) s1"
  let ?L = "ledger (vs_vmos ?s)" and ?K = "Pair (3 :: oid) ` {..<16 :: nat}"
  have pgs: "length pgs = 16" "\<And>i. i < 16 \<Longrightarrow> owned (pgs ! i) \<noteq> None"
    using commit_each_pages_owned[OF assms(1)] by auto
  have own: "?L k \<noteq> None" if "k \<in> ?K" for k using that pgs by (auto simp: ledger_def new_vmo_def)
  have "inj_on ?L (dom ?L)" "accounts ?s = accounts sample_vm"
    using assms(2) unfolding tidy_def vm_inv_def books_ok_def snd_conv by blast+
  moreover have "?K \<subseteq> dom ?L"
  proof
    fix k assume "k \<in> ?K"
    from own[OF this] show "k \<in> dom ?L" by (rule domIff[THEN iffD2])
  qed
  ultimately have inj: "inj_on ?L ?K" and acc: "accounts ?s = accounts sample_vm" by (blast intro: inj_on_subset)+
  have "ledger (vs_vmos sample_vm) = Map.empty"
    by (auto simp: ledger_def sample_vm_def new_vmo_def fun_eq_iff nth_Cons split: nat.splits)
  with acc have ran: "ran ?L \<subseteq> free_frames sample_buddy"
    by (auto simp: accounts_def sample_vm_objects)
  have fin: "finite (free_frames sample_buddy)"
    by (simp add: free_frames_def table_free_def finite_be_free)
  have "?L ` ?K \<subseteq> Some ` free_frames sample_buddy"
  proof
    fix y assume "y \<in> ?L ` ?K"
    then obtain k where k: "k \<in> ?K" "y = ?L k" by (rule imageE)
    with own[OF k(1)] obtain f where "y = Some f" "?L k = Some f" by (metis not_None_eq)
    with ran ranI[of ?L k f] show "y \<in> Some ` free_frames sample_buddy" by blast
  qed
  from card_mono[OF _ this] fin have "card (?L ` ?K) \<le> card (free_frames sample_buddy)"
    by (simp add: card_image)
  moreover have "card (?L ` ?K) = 16" using inj by (simp add: card_image inj_on_def)
  moreover have "card (free_frames sample_buddy) \<le> 4"
  proof -
    have "free_frames sample_buddy \<subseteq> (\<lambda>p. 0x100000 + p * 4096) ` {..<4}"
      by (auto simp: free_frames_def table_free_def sample_buddy_def be_free_def be_pages_def be_empty_def page_defs)
    from card_mono[OF _ this] show ?thesis using card_image_le[of "{..<4}" "\<lambda>p. 0x100000 + p * (4096 :: nat)"] by simp
  qed
  ultimately show False by simp
qed

section \<open>Properties\<close>

text \<open>C5: frames of virtual memory objects are never lost, shared or freed twice. From a state that satisfies the invariant,
  in every reachable state the invariant holds: no frame belongs to two pages and no page's frame is free. Every admissible
  operation then returns without a panic (in particular without a double free, and without following
  parents for ever), keeps the invariant, and leaves owned and free frames together as they were, except for a creation
  that runs out of memory.\<close>

theorem vmo_frames_safe:
  assumes "vm_inv s0" and "vm_reach s0 s"
  shows "books_ok (vs_frames s) (ledger (vs_vmos s)) \<and>
    (\<forall>op. vm_allowed op s \<longrightarrow> (\<exists>e s'. vm_do op s = Some (e, s') \<and> vm_inv s' \<and> accounts s' \<subseteq> accounts s \<and>
       (accounts s' = accounts s \<or> e = Some NoMemory \<and> (\<exists>v n opts. op = VmCreate v n opts))))"
proof -
  have "vm_inv s"
    using assms(2,1)
  proof (induction rule: vm_reach.induct)
    case (step s op e s')
    with vm_do_safe[of s op] show ?case by (auto simp: safe_outcome_def)
  qed simp
  with vm_do_safe[of s] show ?thesis
    by (fastforce simp: safe_outcome_def vm_inv_def split: option.splits)
qed

theorem vmo_frames_safe_witness:
  "\<exists>e s'. vm_do (VmWrite 2 10 [7]) sample_vm = Some (e, s') \<and> vm_inv s' \<and> accounts s' = accounts sample_vm"
proof -
  have "vm_allowed (VmWrite 2 10 [7]) sample_vm" by (simp add: sample_vm_objects)
  with vmo_frames_safe[OF sample_vm_inv vm_reach.start] show ?thesis by blast
qed

text \<open>C14: \<open>get_page\<close> is transparent. It returns, never panics, and no page of any object shows other bytes afterwards,
  although frames may have been allocated on the way; the frame it names holds what the page shows, and
  for a write it is the page's own frame, so that the copy of a copy-on-write page has been made.\<close>

theorem vmo_get_page_transparent:
  assumes "vm_inv s" and "vs_vmos s v = Some x"
  shows "\<exists>r s'. vm_get_page v off w s = Some (r, s') \<and> r \<noteq> Panic \<and> displays s' = displays s \<and>
    (\<forall>f. r = Ok f \<longrightarrow> displays s (v, off div PAGE_SIZE) (frame_content (vs_frames s') f) \<and>
       (w \<longrightarrow> (\<exists>y b. vs_vmos s' v = Some y \<and> vm_pages y ! (off div PAGE_SIZE) = Committed f b)))"
proof -
  obtain rank where "ranked rank (vs_vmos s)" using vm_inv_rank[OF assms(1)] by blast
  from get_page_spec[OF assms(1) this assms(2), of off w] show ?thesis
    by (fastforce simp: got_page_def quiet_def)
qed

theorem vmo_get_page_transparent_witness:
  "\<exists>f s'. vm_get_page 1 0 True sample_vm = Some (Ok f, s') \<and> frame_content (vs_frames s') f = (\<lambda>_. 0)"
proof -
  obtain f s' where get: "vm_get_page 1 0 True sample_vm = Some (Ok f, s')" by (rule sample_vm_get[of 0 True]) simp
  with vmo_get_page_transparent[OF sample_vm_inv sample_vm_objects(1), of 0 True]
  have shown: "displays sample_vm (1, 0) (frame_content (vs_frames s') f)" by simp
  have "displays sample_vm (1, 0) (\<lambda>_. 0)"
    by (rule displays_in.here) (simp add: cells_def sample_vm_objects new_vmo_def del: One_nat_def)
  from this shown have "frame_content (vs_frames s') f = (\<lambda>_. 0)" by (rule displays_det)
  with get show ?thesis by blast
qed

text \<open>C8: \<open>write\<close> changes exactly the bytes it is given. For an object without physical pages, in a system whose physical objects cover only
  memory outside the frame allocator, it returns; if it succeeds, it has written as many of the bytes as fit below the object's size, the object shows them at the offset and its old bytes
  elsewhere, and every object that is not a clone of it, its own parent included, shows what it showed.\<close>

theorem vmo_write_isolated:
  assumes "vm_inv s" and "vs_vmos s v = Some x" and "ordinary x"
  shows "\<exists>r s'. vm_write v off bs s = Some (r, s') \<and> vm_inv s' \<and>
    (\<forall>n. r = Ok n \<longrightarrow> n = min (length bs) (vm_size x - off) \<and>
       (\<forall>i g. displays s (v, i) g \<longrightarrow> displays s' (v, i) (patch off (take n bs) i g)) \<and>
       (\<forall>k g. \<not> kin (vs_vmos s) (fst k) v \<and> displays s k g \<longrightarrow> displays s' k g))"
proof (cases "vm_size x \<le> off")
  case True
  with assms show ?thesis by (simp add: vm_write_def)
next
  case False
  obtain rank where "ranked rank (vs_vmos s)" using vm_inv_rank[OF assms(1)] by blast
  from write_loop_spec[OF assms(1) this assms(2), of off "take (vm_size x - off) bs"] obtain r s' where
    "write_loop v off (take (vm_size x - off) bs) s = Some (r, s')" "steady s s'"
    "\<And>n. r = Ok n \<Longrightarrow> n = min (length bs) (vm_size x - off) \<and> wrote s v off (take (vm_size x - off) bs) s'"
    using assms(3) by auto
  moreover have "take (min (length bs) (vm_size x - off)) bs = take (vm_size x - off) bs"
    by (simp add: min_def)
  ultimately show ?thesis using False assms(2)
    by (auto simp: vm_write_def steady_def wrote_def simp del: write_loop.simps)
qed

theorem vmo_write_isolated_witness:
  "\<exists>r s'. vm_write 2 10 [7] sample_vm = Some (r, s') \<and>
    (\<forall>n g. r = Ok n \<and> displays sample_vm (1, 0) g \<longrightarrow> displays s' (1, 0) g)"
proof -
  have "ordinary (new_vmo 4096 [CopyOnWrite 0] 0 (Some 1))" by (simp add: ordinary_def new_vmo_def)
  moreover have "\<not> kin (vs_vmos sample_vm) 1 2"
  proof
    assume "kin (vs_vmos sample_vm) 1 2"
    then obtain p x where "vs_vmos sample_vm 1 = Some x" "vm_parent x = Some p"
      unfolding kin_def by (auto elim: converse_rtranclE)
    then show False by (auto simp: sample_vm_def new_vmo_def)
  qed
  ultimately show ?thesis
    using vmo_write_isolated[OF sample_vm_inv sample_vm_objects(2), of 10 "[7]"] by fastforce
qed

text \<open>Reading back. What is read from an object right after a write at the same offset is what was written.\<close>

theorem vmo_read_after_write:
  assumes "vm_inv s" and "vs_vmos s v = Some x" and "ordinary x" and "off < vm_size x"
    and "vm_write v off bs s = Some (Ok n, s1)" and "vm_read v off n s1 = Some (Ok cs, s2)"
  shows "cs = take (vm_size x - off) bs"
proof -
  obtain rank where rank: "ranked rank (vs_vmos s)" using vm_inv_rank[OF assms(1)] by blast
  let ?bs = "take (vm_size x - off) bs"
  from write_loop_spec[OF assms(1) rank assms(2), of off ?bs] assms(2,4,5)
  have w: "steady s s1" "n = length ?bs" "wrote s v off ?bs s1"
    using assms(3) by (auto simp: vm_write_def simp del: write_loop.simps)
  have "same_shape (vs_vmos s) (vs_vmos s1)" using w(1) by (simp add: steady_def)
  from same_shape_Some[where v = v and x = x, OF this assms(2)] obtain y where y: "vs_vmos s1 v = Some y" "same_vmo x y" by blast
  have s1: "vm_inv s1" "ranked rank (vs_vmos s1)" using w(1) rank ranked_shape by (auto simp: steady_def)
  have "min n (vm_size y - off) = n" using w(2) y(2) by (auto simp: same_vmo_def)
  with read_loop_spec[OF s1 y(1), of off n] assms(4,6) y
  have r: "length cs = n" "reads s1 v off cs" by (auto simp: vm_read_def same_vmo_def simp del: read_loop.simps)
  have b: "reads s1 v off ?bs" using w(3) by (simp add: wrote_def)
  show ?thesis
  proof (rule nth_equalityI)
    show "length cs = length ?bs" using r(1) w(2) by simp
    fix j assume j: "j < length cs"
    then have "j < length ?bs" using r(1) w(2) by simp
    with b obtain g where "displays s1 (v, (off + j) div 4096) g" "?bs ! j = g ((off + j) mod 4096)"
      unfolding reads_def by blast
    moreover from r(2) j obtain h where "displays s1 (v, (off + j) div 4096) h" "cs ! j = h ((off + j) mod 4096)"
      unfolding reads_def by blast
    ultimately show "cs ! j = ?bs ! j" using displays_det by metis
  qed
qed

lemma sample_vm_write:
  assumes "length bs = 2"
  shows "\<exists>s1. vm_write 1 10 bs sample_vm = Some (Ok 2, s1)"
proof -
  obtain f s' where get: "vm_get_page 1 10 True sample_vm = Some (Ok f, s')" by (rule sample_vm_get[of 10 True]) simp
  have "reachable_frame (vs_frames s') f"
  proof -
    obtain rank where "ranked rank (vs_vmos sample_vm)" using vm_inv_rank[OF sample_vm_inv] by blast
    from get_page_spec[OF sample_vm_inv this sample_vm_objects(1), of 10 True] get show ?thesis
      by (simp add: got_page_def)
  qed
  then have "f < phys_limit" "f + PHYS_OFFSET + 10 < usize_limit"
    by (simp_all add: reachable_frame_def phys_limit_def PHYS_OFFSET_def)
  with get assms show ?thesis
    by (auto simp: vm_write_def sample_vm_objects new_vmo_def PAGE_SIZE_def phys_to_virt_ok chk_add_eq simp del: One_nat_def)
qed

theorem vmo_read_after_write_witness:
  "\<exists>s1. vm_write 1 10 [7, 8] sample_vm = Some (Ok 2, s1) \<and>
    (\<forall>cs s2. vm_read 1 10 2 s1 = Some (Ok cs, s2) \<longrightarrow> cs = [7, 8])"
proof -
  let ?x = "new_vmo 8192 [Uncommitted, Uncommitted] 0 None"
  have ord: "ordinary ?x" by (simp add: ordinary_def new_vmo_def)
  obtain s1 where w: "vm_write 1 10 [7, 8] sample_vm = Some (Ok 2, s1)" using sample_vm_write[of "[7, 8]"] by auto
  have "vm_size ?x = 8192" by (simp add: new_vmo_def)
  with vmo_read_after_write[OF sample_vm_inv sample_vm_objects(1) ord _ w] w show ?thesis by auto
qed

text \<open>A creation that fails takes all memory with it. When \<open>create\<close> is asked to commit single pages and runs out of memory,
  it has taken every free frame, and no object owns them: nothing gives them back.\<close>

theorem vmo_create_failure_drains:
  assumes "vm_inv s" and "vs_vmos s v = None" and "n + 4096 < usize_limit"
    and "contains opts VMO_COMMIT" and "\<not> contains opts VMO_CONTIGUOUS"
    and "vm_create v n opts s = (Err NoMemory, s')"
  shows "vs_vmos s' = vs_vmos s \<and> free_frames (vs_frames s') = {} \<and> accounts s' = accounts s - free_frames (vs_frames s)"
proof -
  let ?k = "(n + 4095) div 4096"
  note align = page_align_eq[OF assms(3)]
  have pa: "page_align n = (Ok (?k * 4096) :: (vmo_error, nat) res)" by (rule align(1))
  have n: "n \<noteq> 0"
  proof
    assume "n = 0"
    with assms(6) show False by (simp add: vm_create_def)
  qed
  have "ran (ledger (vs_vmos s)) \<inter> free_frames (vs_frames s) = {}" using assms(1) by (auto simp: vm_inv_def books_ok_def)
  moreover have "vs_vmos s' = vs_vmos s \<and> free_frames (vs_frames s') = {}"
    by (cases rule: create_eager[OF assms(1,2) align(2), of opts])
      (use n pa assms(4-6) in \<open>auto simp: vm_create_def PAGE_SIZE_def Let_def\<close>)
  ultimately show ?thesis by (auto simp: accounts_def)
qed

theorem vmo_create_failure_drains_witness:
  "\<exists>s'. vm_create 3 0x10000 VMO_COMMIT sample_vm = (Err NoMemory, s') \<and>
     vs_vmos s' = vs_vmos sample_vm \<and> free_frames (vs_frames s') = {}"
proof -
  have opts: "contains VMO_COMMIT VMO_COMMIT" "\<not> contains VMO_COMMIT VMO_CONTIGUOUS"
    by (simp_all add: contains_def VMO_COMMIT_def VMO_CONTIGUOUS_def)
  have fresh: "vs_vmos sample_vm 3 = None" by (simp add: sample_vm_def)
  have lim: "(16 :: nat) * 4096 < usize_limit" by simp
  have "\<exists>s'. vm_create 3 0x10000 VMO_COMMIT sample_vm = (Err NoMemory, s')"
  proof (cases rule: create_eager[OF sample_vm_inv fresh lim, of VMO_COMMIT])
    case (1 pgs fr)
    from sample_too_small[OF this(1,2)] show ?thesis by (rule FalseE)
  next
    case (2 fr)
    with opts show ?thesis by (simp add: vm_create_def page_align_eq PAGE_SIZE_def)
  qed
  then obtain s' where c: "vm_create 3 0x10000 VMO_COMMIT sample_vm = (Err NoMemory, s')" by blast
  from vmo_create_failure_drains[OF sample_vm_inv fresh _ opts c] c show ?thesis by simp
qed

end
