(* ===== verification/Vmar.thy ===== *)
theory Vmar
  imports Page_Mapping Vmo_Contents Ordered_Map
begin

text \<open>
  Address regions: \<open>kernel/src/object/vmar.rs\<close>, on top of virtual memory objects and page tables. The regions form a heap
  indexed by object identifiers. An operation that fails may already have changed the state, so results and states are returned
  side by side; \<open>None\<close> stands for a \<open>get_page\<close> that does not return. Translation caches are not part of the state: every
  successful change of an entry flushes the address it concerns.
\<close>

section \<open>Data\<close>

definition MF_READ :: u32 where "MF_READ = push_bit 0 1"
definition MF_WRITE :: u32 where "MF_WRITE = push_bit 1 1"
definition MF_EXECUTE :: u32 where "MF_EXECUTE = push_bit 2 1"
definition MF_SPECIFIC :: u32 where "MF_SPECIFIC = push_bit 3 1"
definition MF_OFFSET_IS_UPPER_LIMIT :: u32 where "MF_OFFSET_IS_UPPER_LIMIT = push_bit 4 1"

record mapping =
  mp_vmo :: oid
  mp_vmo_offset :: nat
  mp_size :: nat
  mp_flags :: u32

record vmar =
  va_base :: nat
  va_size :: nat
  va_is_root :: bool
  va_mappings :: "(nat, mapping) btree"
  va_children :: "oid list"
  va_next_alloc :: nat
  va_signal_state :: signal_state
  va_page_table :: "nat option"

datatype vmar_error = InvalidArgs | VaOutOfRange | NoSpace | Overlap | NotMapped | VmoFailed | VaAccessDenied

record as_sys =
  as_vm :: vm_sys
  as_vmars :: "oid \<Rightarrow> vmar option"

definition put_vmar :: "oid \<Rightarrow> vmar \<Rightarrow> as_sys \<Rightarrow> as_sys" where
  "put_vmar a x s = s\<lparr>as_vmars := (as_vmars s)(a \<mapsto> x)\<rparr>"

text \<open>The addition of \<open>align_up\<close> saturates.\<close>

definition align_up :: "nat \<Rightarrow> nat" where
  "align_up x = min (x + (PAGE_SIZE - 1)) (usize_limit - 1) div PAGE_SIZE * PAGE_SIZE"

definition align_down :: "nat \<Rightarrow> nat" where
  "align_down x = x div PAGE_SIZE * PAGE_SIZE"

section \<open>Page table entries\<close>

definition mapping_page_flags :: "u32 \<Rightarrow> page_flags" where
  "mapping_page_flags fl =
     pf_user True (pf_write (contains fl MF_WRITE) (pf_execute (contains fl MF_EXECUTE) pf_new))"

text \<open>A mapping that the page mapper refuses is ignored.\<close>

definition va_map_page :: "nat \<Rightarrow> nat \<Rightarrow> nat \<Rightarrow> u32 \<Rightarrow> buddy \<Rightarrow> (vmar_error, unit) res \<times> buddy" where
  "va_map_page pt virt phys fl b =
     (case pm_map_phys (pm_new User pt) virt phys (mapping_page_flags fl) b of
        (Panic, b1) \<Rightarrow> (Panic, b1)
      | (_, b1) \<Rightarrow> (Ok (), b1))"

definition va_unmap_page :: "nat \<Rightarrow> nat \<Rightarrow> buddy \<Rightarrow> (vmar_error, unit) res \<times> buddy" where
  "va_unmap_page pt virt b =
     (case pm_unmap_phys (pm_new User pt) virt True b of
        (Panic, b1) \<Rightarrow> (Panic, b1)
      | (_, b1) \<Rightarrow> (Ok (), b1))"

definition va_update_page_flags :: "nat \<Rightarrow> nat \<Rightarrow> u32 \<Rightarrow> buddy \<Rightarrow> (vmar_error, unit) res \<times> buddy" where
  "va_update_page_flags pt virt fl b =
     (case pm_remap_with (pm_new User pt) virt (\<lambda>_. mapping_page_flags fl) b of
        (Panic, b1) \<Rightarrow> (Panic, b1)
      | (_, b1) \<Rightarrow> (Ok (), b1))"

section \<open>Regions\<close>

definition va_create_root :: "nat \<Rightarrow> nat \<Rightarrow> nat \<Rightarrow> nat \<Rightarrow> vmar" where
  "va_create_root base sz next_alloc page_table =
     \<lparr>va_base = base, va_size = sz, va_is_root = True, va_mappings = [], va_children = [], va_next_alloc = next_alloc,
      va_signal_state = ss_new, va_page_table = Some page_table\<rparr>"

text \<open>The child takes the identifier \<open>c\<close>.\<close>

definition va_create_child :: "oid \<Rightarrow> oid \<Rightarrow> nat \<Rightarrow> nat \<Rightarrow> as_sys \<Rightarrow> (vmar_error, unit) res \<times> as_sys" where
  "va_create_child c a offset sz s =
     (case as_vmars s a of
        None \<Rightarrow> (Panic, s)
      | Some x \<Rightarrow>
          (case bind_res (chk_add (va_base x) offset) (\<lambda>child_base.
                bind_res (chk_add offset sz) (\<lambda>ends.
                  if ends > va_size x then Err VaOutOfRange else Ok child_base)) of
             Ok child_base \<Rightarrow>
               (Ok (), put_vmar c \<lparr>va_base = child_base, va_size = sz, va_is_root = False, va_mappings = [], va_children = [],
                         va_next_alloc = child_base, va_signal_state = ss_new, va_page_table = va_page_table x\<rparr>
                       (put_vmar a (x\<lparr>va_children := va_children x @ [c]\<rparr>) s))
           | Err e \<Rightarrow> (Err e, s)
           | Panic \<Rightarrow> (Panic, s)))"

section \<open>Mapping\<close>

text \<open>The choice of the address, which moves \<open>next_alloc\<close> when the caller leaves it to the region.\<close>

definition va_place :: "nat \<Rightarrow> u32 \<Rightarrow> nat option \<Rightarrow> vmar \<Rightarrow> (vmar_error, nat) res \<times> vmar" where
  "va_place aligned fl vaddr x =
     (case vaddr of
        Some addr \<Rightarrow>
          (if \<not> contains fl MF_SPECIFIC then Err InvalidArgs
           else if addr < va_base x then Err VaOutOfRange
           else bind_res (chk_add addr aligned) (\<lambda>ends.
                bind_res (chk_add (va_base x) (va_size x)) (\<lambda>limit.
                  if ends > limit then Err VaOutOfRange else Ok addr)), x)
      | None \<Rightarrow>
          (case bind_res (chk_add (va_next_alloc x) aligned) (\<lambda>ends.
                bind_res (chk_add (va_base x) (va_size x)) (\<lambda>limit. Ok (ends, limit))) of
             Ok (ends, limit) \<Rightarrow>
               if ends > limit then (Err NoSpace, x)
               else (Ok (va_next_alloc x), x\<lparr>va_next_alloc := ends\<rparr>)
           | Err e \<Rightarrow> (Err e, x)
           | Panic \<Rightarrow> (Panic, x)))"

fun va_check_overlap :: "nat \<Rightarrow> nat \<Rightarrow> (nat, mapping) btree \<Rightarrow> (vmar_error, unit) res" where
  "va_check_overlap addr aligned [] = Ok ()"
| "va_check_overlap addr aligned ((existing, mp) # ms) =
     bind_res (chk_add existing (mp_size mp)) (\<lambda>existing_end.
     bind_res (chk_add addr aligned) (\<lambda>new_end.
       if \<not> (new_end \<le> existing \<or> addr \<ge> existing_end) then Err Overlap
       else va_check_overlap addr aligned ms))"

text \<open>The loop over the pages \<open>i\<close> of the new mapping.\<close>

fun va_map_loop :: "nat \<Rightarrow> nat \<Rightarrow> oid \<Rightarrow> nat \<Rightarrow> u32 \<Rightarrow> nat list \<Rightarrow> vm_sys \<Rightarrow> ((vmar_error, unit) res \<times> vm_sys) option" where
  "va_map_loop pt addr v off fl [] s = Some (Ok (), s)"
| "va_map_loop pt addr v off fl (i # is) s =
     (case bind_res (chk_add addr (i * PAGE_SIZE)) (\<lambda>virt.
           bind_res (chk_add off (i * PAGE_SIZE)) (\<lambda>page_off. Ok (virt, page_off))) of
        Ok (virt, page_off) \<Rightarrow>
          (case vm_get_page v page_off False s of
             None \<Rightarrow> None
           | Some (Ok phys, s1) \<Rightarrow>
               (case va_map_page pt virt phys fl (vs_frames s1) of
                  (Ok _, b) \<Rightarrow> va_map_loop pt addr v off fl is (s1\<lparr>vs_frames := b\<rparr>)
                | (Err e, b) \<Rightarrow> Some (Err e, s1\<lparr>vs_frames := b\<rparr>)
                | (Panic, b) \<Rightarrow> Some (Panic, s1\<lparr>vs_frames := b\<rparr>))
           | Some (Err _, s1) \<Rightarrow> Some (Err VmoFailed, s1)
           | Some (Panic, s1) \<Rightarrow> Some (Panic, s1))
      | Err e \<Rightarrow> Some (Err e, s)
      | Panic \<Rightarrow> Some (Panic, s))"

definition va_map ::
  "oid \<Rightarrow> oid \<Rightarrow> nat \<Rightarrow> nat \<Rightarrow> u32 \<Rightarrow> nat option \<Rightarrow> as_sys \<Rightarrow> ((vmar_error, nat) res \<times> as_sys) option" where
  "va_map a v vmo_offset sz fl vaddr s =
     (case as_vmars s a of
        None \<Rightarrow> Some (Panic, s)
      | Some x \<Rightarrow>
          let aligned = align_up sz
          in case va_place aligned fl vaddr x of
               (Ok map_addr, x1) \<Rightarrow>
                 let s1 = put_vmar a x1 s;
                     store = (\<lambda>vm. (Ok map_addr, put_vmar a (x1\<lparr>va_mappings := bt_insert map_addr
                        \<lparr>mp_vmo = v, mp_vmo_offset = vmo_offset, mp_size = aligned, mp_flags = fl\<rparr> (va_mappings x1)\<rparr>)
                        (s1\<lparr>as_vm := vm\<rparr>)))
                 in (case va_check_overlap map_addr aligned (va_mappings x1) of
                       Ok _ \<Rightarrow>
                         (case va_page_table x1 of
                            None \<Rightarrow> Some (store (as_vm s1))
                          | Some pt \<Rightarrow>
                              (case va_map_loop pt map_addr v vmo_offset fl [0..<aligned div PAGE_SIZE] (as_vm s1) of
                                 None \<Rightarrow> None
                               | Some (Ok _, vm) \<Rightarrow> Some (store vm)
                               | Some (Err e, vm) \<Rightarrow> Some (Err e, s1\<lparr>as_vm := vm\<rparr>)
                               | Some (Panic, vm) \<Rightarrow> Some (Panic, s1\<lparr>as_vm := vm\<rparr>)))
                     | Err e \<Rightarrow> Some (Err e, s1)
                     | Panic \<Rightarrow> Some (Panic, s1))
             | (Err e, x1) \<Rightarrow> Some (Err e, s)
             | (Panic, x1) \<Rightarrow> Some (Panic, s))"

section \<open>Unmapping, protection, faults\<close>

text \<open>A loop over the pages of a region that works on page table entries only.\<close>

fun va_each_page :: "(nat \<Rightarrow> buddy \<Rightarrow> (vmar_error, unit) res \<times> buddy) \<Rightarrow> nat \<Rightarrow> nat list \<Rightarrow> buddy \<Rightarrow> (vmar_error, unit) res \<times> buddy" where
  "va_each_page f addr [] b = (Ok (), b)"
| "va_each_page f addr (i # is) b =
     (case chk_add addr (i * PAGE_SIZE) of
        Ok virt \<Rightarrow>
          (case f virt b of
             (Ok _, b1) \<Rightarrow> va_each_page f addr is b1
           | (Err e, b1) \<Rightarrow> (Err e, b1)
           | (Panic, b1) \<Rightarrow> (Panic, b1))
      | Err e \<Rightarrow> (Err e, b)
      | Panic \<Rightarrow> (Panic, b))"

definition as_map_frames :: "buddy \<Rightarrow> as_sys \<Rightarrow> as_sys" where
  "as_map_frames b s = s\<lparr>as_vm := (as_vm s)\<lparr>vs_frames := b\<rparr>\<rparr>"

text \<open>On success the removed mapping is returned as well: it is dropped at the end of the call, and with it a reference to
  its object.\<close>

definition va_unmap :: "oid \<Rightarrow> nat \<Rightarrow> nat \<Rightarrow> as_sys \<Rightarrow> (vmar_error, mapping) res \<times> as_sys" where
  "va_unmap a addr sz s =
     (case as_vmars s a of
        None \<Rightarrow> (Panic, s)
      | Some x \<Rightarrow>
          let aligned = align_up sz
          in case bt_get (va_mappings x) addr of
               None \<Rightarrow> (Err NotMapped, s)
             | Some mp \<Rightarrow>
                 let x1 = x\<lparr>va_mappings := bt_remove addr (va_mappings x)\<rparr>
                 in if mp_size mp \<noteq> aligned then
                      (Err InvalidArgs, put_vmar a (x1\<lparr>va_mappings := bt_insert addr mp (va_mappings x1)\<rparr>) s)
                    else case va_page_table x1 of
                           None \<Rightarrow> (Ok mp, put_vmar a x1 s)
                         | Some pt \<Rightarrow>
                             (case va_each_page (va_unmap_page pt) addr [0..<aligned div PAGE_SIZE] (vs_frames (as_vm s)) of
                                (Ok _, b) \<Rightarrow> (Ok mp, as_map_frames b (put_vmar a x1 s))
                              | (Err e, b) \<Rightarrow> (Err e, as_map_frames b (put_vmar a x1 s))
                              | (Panic, b) \<Rightarrow> (Panic, as_map_frames b (put_vmar a x1 s))))"

definition va_protect :: "oid \<Rightarrow> nat \<Rightarrow> nat \<Rightarrow> u32 \<Rightarrow> as_sys \<Rightarrow> (vmar_error, unit) res \<times> as_sys" where
  "va_protect a addr sz fl s =
     (case as_vmars s a of
        None \<Rightarrow> (Panic, s)
      | Some x \<Rightarrow>
          (case bt_get (va_mappings x) addr of
             None \<Rightarrow> (Err NotMapped, s)
           | Some mp \<Rightarrow>
               let s1 = put_vmar a (x\<lparr>va_mappings := bt_insert addr (mp\<lparr>mp_flags := fl\<rparr>) (va_mappings x)\<rparr>) s
               in case va_page_table x of
                    None \<Rightarrow> (Ok (), s1)
                  | Some pt \<Rightarrow>
                      (case va_each_page (\<lambda>virt. va_update_page_flags pt virt fl) addr [0..<mp_size mp div PAGE_SIZE]
                              (vs_frames (as_vm s)) of
                         (r, b) \<Rightarrow> (r, as_map_frames b s1))))"

fun va_find_fault :: "nat \<Rightarrow> (nat, mapping) btree \<Rightarrow> (vmar_error, nat \<times> mapping) res" where
  "va_find_fault addr [] = Err NotMapped"
| "va_find_fault addr ((base, mp) # ms) =
     (if addr \<ge> base then
        bind_res (chk_add base (mp_size mp)) (\<lambda>ends.
          if addr < ends then Ok (base, mp) else va_find_fault addr ms)
      else va_find_fault addr ms)"

definition va_handle_page_fault :: "oid \<Rightarrow> nat \<Rightarrow> bool \<Rightarrow> as_sys \<Rightarrow> ((vmar_error, unit) res \<times> as_sys) option" where
  "va_handle_page_fault a addr write s =
     (case as_vmars s a of
        None \<Rightarrow> Some (Panic, s)
      | Some x \<Rightarrow>
          (case va_find_fault addr (va_mappings x) of
             Ok (base, mp) \<Rightarrow>
               if write \<and> \<not> contains (mp_flags mp) MF_WRITE then Some (Err VaAccessDenied, s)
               else
                 let page_offset = align_down (addr - base)
                 in (case chk_add (mp_vmo_offset mp) page_offset of
                       Ok off \<Rightarrow>
                         (case vm_get_page (mp_vmo mp) off write (as_vm s) of
                            None \<Rightarrow> None
                          | Some (Ok phys, vm) \<Rightarrow>
                              (case va_page_table x of
                                 None \<Rightarrow> Some (Ok (), s\<lparr>as_vm := vm\<rparr>)
                               | Some pt \<Rightarrow>
                                   (case va_map_page pt (base + page_offset) phys (mp_flags mp) (vs_frames vm) of
                                      (r, b) \<Rightarrow> Some (r, as_map_frames b (s\<lparr>as_vm := vm\<rparr>))))
                          | Some (Err _, vm) \<Rightarrow> Some (Err VmoFailed, s\<lparr>as_vm := vm\<rparr>)
                          | Some (Panic, vm) \<Rightarrow> Some (Panic, s\<lparr>as_vm := vm\<rparr>))
                     | Err e \<Rightarrow> Some (Err e, s)
                     | Panic \<Rightarrow> Some (Panic, s))
           | Err e \<Rightarrow> Some (Err e, s)
           | Panic \<Rightarrow> Some (Panic, s)))"

section \<open>As a kernel object\<close>

definition va_page_table_addr :: "vmar \<Rightarrow> nat option" where
  "va_page_table_addr x = va_page_table x"

definition va_signals :: "vmar \<Rightarrow> signals" where
  "va_signals x = ss_get (va_signal_state x)"

definition va_signal_set :: "signals \<Rightarrow> vmar \<Rightarrow> calls \<times> vmar" where
  "va_signal_set sg x = (let (cs, st) = ss_set sg (va_signal_state x) in (cs, x\<lparr>va_signal_state := st\<rparr>))"

definition va_signal_clear :: "signals \<Rightarrow> vmar \<Rightarrow> vmar" where
  "va_signal_clear sg x = x\<lparr>va_signal_state := ss_clear sg (va_signal_state x)\<rparr>"

definition va_add_signal_observer :: "observer \<Rightarrow> vmar \<Rightarrow> calls \<times> vmar" where
  "va_add_signal_observer ob x =
     (let (cs, st) = ss_add_observer ob (va_signal_state x) in (cs, x\<lparr>va_signal_state := st\<rparr>))"

definition va_remove_signal_observer :: "nat \<Rightarrow> vmar \<Rightarrow> vmar" where
  "va_remove_signal_observer key x = x\<lparr>va_signal_state := ss_remove_observer key (va_signal_state x)\<rparr>"

end
