(* ===== verification/Address_Space.thy ===== *)
theory Address_Space
  imports Vmar
begin

text \<open>
  What address regions guarantee: page tables and virtual memory objects keep out of each other's frames, a mapping shows what its
  object shows, and what breaks this.
\<close>

section \<open>Tables and objects side by side\<close>

text \<open>A change that only takes free frames and fills them: every frame in use keeps its bytes.\<close>

definition leaves :: "buddy \<Rightarrow> buddy \<Rightarrow> bool" where
  "leaves b b' \<longleftrightarrow> buddy_inv b' \<and> buddy_run b' = buddy_run b \<and> table_range (ba_table b') = table_range (ba_table b) \<and>
     free_frames b' \<subseteq> free_frames b \<and>
     (\<forall>f x. frame_of b f \<and> f \<notin> free_frames b \<and> x \<in> frame_bytes f \<longrightarrow> phys_byte b' x = phys_byte b x) \<and>
     (\<forall>x. x \<notin> table_range (ba_table b) \<longrightarrow> phys_byte b' x = phys_byte b x)"

lemma leaves_refl: "buddy_inv b \<Longrightarrow> leaves b b"
  by (simp add: leaves_def)

lemma leaves_trans:
  assumes "leaves b b'" and "leaves b' b''"
  shows "leaves b b''"
proof -
  have "phys_byte b'' x = phys_byte b x" if "frame_of b f" "f \<notin> free_frames b" "x \<in> frame_bytes f" for f x
  proof -
    have "frame_of b' f" "f \<notin> free_frames b'" using that assms(1) by (auto simp: leaves_def)
    with that assms show ?thesis unfolding leaves_def by metis
  qed
  with assms show ?thesis by (auto simp: leaves_def)
qed

lemma granted_leaves: "granted b a n b' \<Longrightarrow> leaves b b'"
  unfolding granted_def leaves_def by blast

lemma take_frames_leaves:
  assumes "buddy_inv (vs_frames s)" and "take_frames 1 s = (r, s')"
  shows "leaves (vs_frames s) (vs_frames s')"
proof (cases rule: take_frames_spec[OF assms(1) zero_less_one])
  case 1
  with assms show ?thesis by (simp add: leaves_refl)
next
  case (2 a fr)
  with assms(2) granted_leaves show ?thesis by auto
qed

lemma copy_frame_leaves:
  assumes "buddy_inv (vs_frames s)" and "copy_frame src s = (r, s')"
  shows "leaves (vs_frames s) (vs_frames s')"
proof (cases rule: allocate_granted[OF assms(1) zero_less_one])
  case 1
  with assms show ?thesis by (simp add: copy_frame_def leaves_refl)
next
  case (2 a b')
  let ?m = "\<lambda>v. copy_mem v (a + PHYS_OFFSET) 4096 (ba_mem b')"
  have fill: "leaves (vs_frames s) (b'\<lparr>ba_mem := ?m v\<rparr>)" for v
    using 2(2) copy_mem_changed by (intro granted_leaves[of _ a 1] granted_fill) auto
  have "a < phys_limit"
    using 2(2) frame_of_limit[OF assms(1), of a] by (auto simp: granted_def)
  with assms(2) 2(1) fill granted_leaves[OF 2(2)] show ?thesis
    by (auto simp: copy_frame_def vs_map_mem_def PAGE_SIZE_def Let_def phys_to_virt_ok phys_to_virt_def[of src] split: if_splits)
qed

lemma set_page_frames [simp]: "vs_frames (set_page v i pg s) = vs_frames s"
  by (simp add: set_page_def put_vmo_def split: option.splits)

lemma get_page_leaves:
  assumes "vm_get_page v off w s = Some q" and "buddy_inv (vs_frames s)"
  shows "leaves (vs_frames s) (vs_frames (snd q))"
proof (rule vm_get_page.raw_induct[where P = "\<lambda>v off w s q. buddy_inv (vs_frames s) \<longrightarrow> leaves (vs_frames s) (vs_frames (snd q))",
      OF _ assms(1), rule_format, OF _ assms(2)], goal_cases)
  case (1 get v off w s q)
  note refl = leaves_refl[OF 1(3)]
  show ?case
  proof (cases "vs_vmos s v")
    case None
    with 1(2) refl show ?thesis by auto
  next
    case (Some x)
    let ?i = "off div PAGE_SIZE"
    have body: "?i < length (vm_pages x) \<Longrightarrow> vm_pages x ! ?i = Committed f b \<Longrightarrow> ?thesis"
      "\<not> ?i < length (vm_pages x) \<Longrightarrow> ?thesis" for f b
      using 1(2) Some refl by auto
    moreover have "?thesis" if "?i < length (vm_pages x)" "vm_pages x ! ?i = Uncommitted"
    proof -
      obtain r1 s1 where t: "take_frames 1 s = (r1, s1)" by fastforce
      then have "vs_frames (snd q) = vs_frames s1" using 1(2) Some that by (cases r1) (auto simp del: One_nat_def, (metis snd_conv)+)
      with take_frames_leaves[OF 1(3) t] show ?thesis by simp
    qed
    moreover have "?thesis" if cow: "?i < length (vm_pages x)" "vm_pages x ! ?i = CopyOnWrite po" for po
    proof (cases "vm_parent x")
      case None
      with Some cow 1(2) refl show ?thesis by auto
    next
      case parent: (Some p)
      with 1(2) Some cow obtain r s1 where g: "get p po False s = Some (r, s1)" by (auto simp: bind_eq_Some_conv)
      have l: "leaves (vs_frames s) (vs_frames s1)" using 1(1)[OF g 1(3)] by simp
      then have inv1: "buddy_inv (vs_frames s1)" by (simp add: leaves_def)
      show ?thesis
      proof (cases "w \<and> (\<exists>f. r = Ok f)")
        case False
        with 1(2) Some cow parent g l show ?thesis by (auto split: res.splits if_splits)
      next
        case True
        then obtain f where f: "r = Ok f" by blast
        obtain r2 s2 where c: "copy_frame f s1 = (r2, s2)" by fastforce
        have "vs_frames (snd q) = vs_frames s2"
          using 1(2)[symmetric] Some cow parent g True f c by (cases r2) auto
        with leaves_trans[OF l copy_frame_leaves[OF inv1 c]] show ?thesis by simp
      qed
    qed
    ultimately show ?thesis by (cases "vm_pages x ! ?i") blast+
  qed
qed

text \<open>The frame that \<open>get_page\<close> names is a page of some object: the object itself or one it is a clone of.\<close>

definition page_frame :: "vm_sys \<Rightarrow> nat \<Rightarrow> bool" where
  "page_frame s f \<longleftrightarrow> (\<exists>u y i b. vs_vmos s u = Some y \<and> i < length (vm_pages y) \<and> vm_pages y ! i = Committed f b)"

lemma get_page_named:
  assumes "vm_inv s" and "ranked rank (vs_vmos s)" and "vs_vmos s v = Some x" and "vm_get_page v off w s = Some (Ok f, s')"
  shows "page_frame s' f"
  using assms
proof (induction "rank v" arbitrary: v x off w s' rule: less_induct)
  case less
  let ?i = "off div PAGE_SIZE"
  have written: "page_frame s' f" if "vm_get_page v off True s = Some (Ok f, s')"
    using get_page_spec[OF less.prems(1-3), of off True] that by (auto simp: got_page_def page_frame_def)
  have i: "?i < length (vm_pages x)"
  proof (rule ccontr)
    assume "\<not> ?i < length (vm_pages x)"
    with less.prems(3) have "vm_get_page v off w s = Some (Err OutOfRange, s)" by (simp add: vm_get_page.simps[of v off w s])
    with less.prems(4) show False by simp
  qed
  show ?case
  proof (cases "\<exists>po. vm_pages x ! ?i = CopyOnWrite po \<and> \<not> w")
    case False
    then have "vm_get_page v off True s = vm_get_page v off w s"
      using less.prems(3) i by (cases "vm_pages x ! ?i") (auto simp: vm_get_page.simps[of v off] split: option.splits)
    with written less.prems(4) show ?thesis by simp
  next
    case True
    then obtain po where po: "vm_pages x ! ?i = CopyOnWrite po" "\<not> w" by blast
    with less.prems(3,4) i obtain p where p: "vm_parent x = Some p" "vm_get_page p po False s = Some (Ok f, s')"
      by (subst (asm) vm_get_page.simps) (auto simp: bind_eq_Some_conv split: option.splits)
    with less.prems(2,3) obtain y where y: "vs_vmos s p = Some y" "rank p < rank v" unfolding ranked_def by blast
    from less.hyps[OF y(2) less.prems(1,2) y(1) p(2)] show ?thesis .
  qed
qed

text \<open>Page tables do not notice it.\<close>

lemma leaves_entry:
  assumes "leaves b b'" and "frame_of b f" and "f \<notin> free_frames b" and "j < 512"
  shows "entry_at b' f j = entry_at b f j"
  using assms by (intro entry_at_frame) (auto simp: leaves_def)

lemma tables_same:
  assumes same: "\<And>g j. g \<in> tables S b root \<Longrightarrow> j < 512 \<Longrightarrow> entry_at b' g j = entry_at b g j"
  shows "p \<in> paths S \<Longrightarrow> walk b' root p = walk b root p"
    and "slot 3 w \<in> S \<Longrightarrow> mapped_to b' root w = mapped_to b root w"
proof -
  have walks: "walk b' root q = walk b root q" if "q \<in> paths S" for q
    using that
  proof (induction q rule: rev_induct)
    case (snoc j r)
    then have r: "r \<in> paths S" "j < 512" "walk b' root r = walk b root r" by (auto simp: paths_snoc)
    have "step b' h j = step b h j" if "walk b root r = Some h" for h
      using same[OF tablesI[OF r(1) that] r(2)] by (simp add: step_def)
    with r(3) show ?case by (cases "walk b root r") (auto simp: walk_snoc)
  qed simp
  then show "p \<in> paths S \<Longrightarrow> walk b' root p = walk b root p" .
  assume w: "slot 3 w \<in> S"
  then have pw: "path w \<in> paths S" by simp
  show "mapped_to b' root w = mapped_to b root w"
  proof (cases "walk b root (path w)")
    case (Some h)
    with same[OF tablesI[OF pw Some] slot_less] walks[OF pw] show ?thesis by (simp add: mapped_to_def)
  qed (use walks[OF pw] in \<open>simp add: mapped_to_def\<close>)
qed

lemma tree_leaves:
  assumes ok: "tree_ok S b root" and l: "leaves b b'"
  shows "tree_ok S b' root" and "tables S b' root = tables S b root"
    and "slot 3 w \<in> S \<Longrightarrow> mapped_to b' root w = mapped_to b root w"
    and "p \<in> paths S \<Longrightarrow> walk b' root p = walk b root p"
proof -
  have "entry_at b' g j = entry_at b g j" if "g \<in> tables S b root" "j < 512" for g j
    using leaves_entry[OF l _ _ that(2)] tree_tables[OF ok that(1)] by blast
  note same = tables_same[of S b root b', OF this]
  show walks: "walk b' root q = walk b root q" if "q \<in> paths S" for q using same(1)[OF _ _ that] .
  from walks show "tables S b' root = tables S b root" by (auto simp: tables_def)
  show "tree_ok S b' root"
    using ok l walks unfolding tree_ok_def leaves_def by (auto simp: subset_iff)
  show "slot 3 w \<in> S \<Longrightarrow> mapped_to b' root w = mapped_to b root w" using same(2) .
qed

lemma mapping_flags_ok: "flags_ok (mapping_page_flags fl)" "entry_present (mapping_page_flags fl)"
proof -
  have "flags_ok (pf_user True (pf_write w (pf_execute x pf_new)))"
    "entry_present (pf_user True (pf_write w (pf_execute x pf_new)))" for w x
    by (cases w; cases x; simp add: pf_user_def pf_write_def pf_execute_def pf_custom_flag_def pf_new_def flags_ok_def
        entry_present_def flag_consts ENTRY_FLAGS_MASK_def ENTRY_ADDRESS_SHIFT_def PAGE_SHIFT_def mask_eq_exp_minus_1)+
  then show "flags_ok (mapping_page_flags fl)" "entry_present (mapping_page_flags fl)"
    by (simp_all add: mapping_page_flags_def)
qed

lemma writable_flags: "contains fl MF_WRITE \<Longrightarrow> pf_has_write (mapping_page_flags fl)"
  by (cases "contains fl MF_EXECUTE") (simp_all add: mapping_page_flags_def pf_has_write_def pf_user_def pf_write_def
      pf_execute_def pf_custom_flag_def pf_new_def flag_consts)

text \<open>The invariant of an address space: the objects are in order, the tables under \<open>pt\<close> form a tree, and no table is a page of an
  object. Frames of physical objects are on page boundaries.\<close>

definition devices_aligned :: "vm_sys \<Rightarrow> bool" where
  "devices_aligned s \<longleftrightarrow> (\<forall>v x f. vs_vmos s v = Some x \<longrightarrow> Committed f False \<in> set (vm_pages x) \<longrightarrow> f mod 4096 = 0)"

definition as_ok :: "nat set \<Rightarrow> nat \<Rightarrow> vm_sys \<Rightarrow> bool" where
  "as_ok S pt s \<longleftrightarrow> vm_inv s \<and> tree_ok S (vs_frames s) pt \<and> tables S (vs_frames s) pt \<inter> ran (ledger (vs_vmos s)) = {} \<and>
     devices_aligned s"

text \<open>A frame that holds data: outside the allocator's memory, or in use and not a table.\<close>

definition data_frame :: "nat set \<Rightarrow> nat \<Rightarrow> buddy \<Rightarrow> nat \<Rightarrow> bool" where
  "data_frame S pt b f \<longleftrightarrow> page_address f \<and> reachable_frame b f \<and> f \<notin> tables S b pt"

text \<open>Nothing that objects show has changed, nor any data frame, and no frame is lost.\<close>

definition undisturbed :: "nat set \<Rightarrow> nat \<Rightarrow> vm_sys \<Rightarrow> vm_sys \<Rightarrow> bool" where
  "undisturbed S pt s s' \<longleftrightarrow> as_ok S pt s' \<and> displays s' = displays s \<and> same_shape (vs_vmos s) (vs_vmos s') \<and>
     accounts s' \<union> tables S (vs_frames s') pt = accounts s \<union> tables S (vs_frames s) pt \<and>
     (\<forall>f. data_frame S pt (vs_frames s) f \<longrightarrow>
        data_frame S pt (vs_frames s') f \<and> frame_content (vs_frames s') f = frame_content (vs_frames s) f) \<and>
     (\<forall>j < 512. j \<notin> S \<longrightarrow> entry_at (vs_frames s') pt j = entry_at (vs_frames s) pt j)"

lemma undisturbed_refl: "as_ok S pt s \<Longrightarrow> undisturbed S pt s s"
  by (simp add: undisturbed_def)

lemma undisturbed_trans: "undisturbed S pt s s' \<Longrightarrow> undisturbed S pt s' s'' \<Longrightarrow> undisturbed S pt s s''"
  unfolding undisturbed_def by (auto intro: same_shape_trans)

lemma data_frame_leaves:
  assumes "tree_ok S b pt" and "leaves b b'" and "data_frame S pt b f"
  shows "data_frame S pt b' f \<and> frame_content b' f = frame_content b f"
proof -
  have "frame_content b' f = frame_content b f"
    using assms(2,3) unfolding data_frame_def reachable_frame_def leaves_def by (intro frame_content_eqI) blast
  moreover have "reachable_frame b' f" using assms(2,3) by (auto simp: data_frame_def reachable_frame_def leaves_def)
  ultimately show ?thesis using assms(3) tree_leaves(2)[OF assms(1,2)] by (simp add: data_frame_def)
qed

lemma page_frame_data:
  assumes "as_ok S pt s" and "page_frame s f"
  shows "data_frame S pt (vs_frames s) f"
proof -
  obtain u y i b where p: "vs_vmos s u = Some y" "i < length (vm_pages y)" "vm_pages y ! i = Committed f b"
    using assms(2) by (auto simp: page_frame_def)
  have inv: "vm_inv s" and tree: "tree_ok S (vs_frames s) pt" using assms(1) by (auto simp: as_ok_def)
  have r: "reachable_frame (vs_frames s) f" by (rule committed_reachable[OF inv p])
  show ?thesis
  proof (cases b)
    case True
    with p have "ledger (vs_vmos s) (u, i) = Some f" by (simp add: ledger_page)
    then have "f \<in> ran (ledger (vs_vmos s))" by (rule ranI)
    then have "f \<notin> tables S (vs_frames s) pt" "frame_of (vs_frames s) f"
      using assms(1) inv by (auto simp: as_ok_def vm_inv_def books_ok_def)
    with r tree show ?thesis by (simp add: data_frame_def tree_ok_def)
  next
    case False
    then have c: "Committed f False \<in> set (vm_pages y)" using p nth_mem by metis
    then have out: "frame_bytes f \<inter> table_range (ba_table (vs_frames s)) = {}" and lim: "f + 4096 \<le> phys_limit"
      using inv p(1) by (auto simp: vm_inv_def heap_ok_def vmo_ok_def)
    have "f mod 4096 = 0" using assms(1) p(1) c by (auto simp: as_ok_def devices_aligned_def)
    with lim have pa: "page_address f" by (simp add: page_address_def phys_limit_def)
    have "f \<notin> tables S (vs_frames s) pt"
    proof
      assume "f \<in> tables S (vs_frames s) pt"
      then have "frame_bytes f \<subseteq> table_range (ba_table (vs_frames s))" using tree_tables[OF tree] frame_of_range by blast
      moreover have "f \<in> frame_bytes f" by (simp add: frame_bytes_def)
      ultimately show False using out by blast
    qed
    with r pa show ?thesis by (simp add: data_frame_def)
  qed
qed

lemma devices_aligned_shape: "devices_aligned s \<Longrightarrow> same_shape (vs_vmos s) (vs_vmos s') \<Longrightarrow> devices_aligned s'"
  unfolding devices_aligned_def
proof (intro allI impI)
  fix v y f
  assume d: "\<forall>v x f. vs_vmos s v = Some x \<longrightarrow> Committed f False \<in> set (vm_pages x) \<longrightarrow> f mod 4096 = 0"
    and sh: "same_shape (vs_vmos s) (vs_vmos s')" and y: "vs_vmos s' v = Some y" "Committed f False \<in> set (vm_pages y)"
  obtain x where "vs_vmos s v = Some x" "same_vmo x y" by (rule same_shape_back[OF sh y(1)])
  with d y(2) show "f mod 4096 = 0" by (auto simp: same_vmo_def)
qed

lemma get_page_undisturbed:
  assumes ok: "as_ok S pt s" and x: "vs_vmos s v = Some x"
  shows "\<exists>r s'. vm_get_page v off w s = Some (r, s') \<and> undisturbed S pt s s' \<and> r \<noteq> Panic \<and>
    leaves (vs_frames s) (vs_frames s') \<and>
    (\<forall>u. slot 3 u \<in> S \<longrightarrow> mapped_to (vs_frames s') pt u = mapped_to (vs_frames s) pt u) \<and>
    (\<forall>f. r = Ok f \<longrightarrow> data_frame S pt (vs_frames s') f \<and> displays s' (v, off div PAGE_SIZE) (frame_content (vs_frames s') f) \<and>
       off div PAGE_SIZE < length (vm_pages x))"
proof -
  have inv: "vm_inv s" and tree: "tree_ok S (vs_frames s) pt" and apart: "tables S (vs_frames s) pt \<inter> ran (ledger (vs_vmos s)) = {}"
    and dev: "devices_aligned s" using ok by (auto simp: as_ok_def)
  obtain rank where rank: "ranked rank (vs_vmos s)" using vm_inv_rank[OF inv] by blast
  obtain r s' where g: "vm_get_page v off w s = Some (r, s')" "got_page rank v (off div PAGE_SIZE) w s r s'"
    using get_page_spec[OF inv rank x] by blast
  have l: "leaves (vs_frames s) (vs_frames s')" using get_page_leaves[OF g(1) vm_inv_buddy[OF inv]] by simp
  note t = tree_leaves[OF tree l]
  have q: "quiet s s'" using g(2) by (simp add: got_page_def)
  have dev': "devices_aligned s'" using devices_aligned_shape[OF dev] q by (simp add: quiet_def)
  have "tables S (vs_frames s') pt \<inter> ran (ledger (vs_vmos s')) = {}"
    using q apart t(2) tree_tables[OF tree] by (auto simp: quiet_def accounts_def)
  then have ok': "as_ok S pt s'" using q t(1) dev' by (simp add: as_ok_def quiet_def)
  have "entry_at (vs_frames s') pt j = entry_at (vs_frames s) pt j" if "j < 512" for j
    using leaves_entry[OF l _ _ that] tree_tables[OF tree tables_root] by blast
  then have u: "undisturbed S pt s s'"
    using ok' q t(2) data_frame_leaves[OF tree l] by (simp add: undisturbed_def quiet_def)
  have "data_frame S pt (vs_frames s') f" if "r = Ok f" for f
    using page_frame_data[OF ok'] get_page_named[OF inv rank x] g(1) that by blast
  moreover have "off div PAGE_SIZE < length (vm_pages x)" if rf: "r = Ok f" for f
  proof -
    obtain y where y: "vs_vmos s' v = Some y" "off div PAGE_SIZE < length (vm_pages y)"
      using g(2) rf unfolding got_page_def by blast
    have sh: "same_shape (vs_vmos s) (vs_vmos s')" using q by (simp add: quiet_def)
    show ?thesis by (rule same_shape_Some[OF sh x]) (use y in \<open>simp add: same_vmo_def\<close>)
  qed
  ultimately show ?thesis using g u l t(3) by (auto simp: got_page_def)
qed

lemma rebuilt_frame:
  assumes ok: "as_ok S pt s" and re: "rebuilt S pt (vs_frames s) b" and f: "frame_of (vs_frames s) f" "f \<notin> free_frames (vs_frames s)"
    "f \<notin> tables S (vs_frames s) pt"
  shows "frame_of b f" "f \<notin> free_frames b" "f \<notin> tables S b pt" "frame_content b f = frame_content (vs_frames s) f"
proof -
  show "frame_of b f" using re f(1) by (simp add: rebuilt_def)
  have "f \<notin> tables S b pt \<union> free_frames b" using re f(2,3) by (simp add: rebuilt_def)
  then show "f \<notin> free_frames b" "f \<notin> tables S b pt" by auto
  show "frame_content b f = frame_content (vs_frames s) f"
    using re f by (intro frame_content_eqI) (auto simp: rebuilt_def)
qed

lemma rebuilt_undisturbed:
  assumes ok: "as_ok S pt s" and re: "rebuilt S pt (vs_frames s) b"
  shows "undisturbed S pt s (s\<lparr>vs_frames := b\<rparr>)"
proof -
  let ?s = "s\<lparr>vs_frames := b\<rparr>"
  have inv: "vm_inv s" and tree: "tree_ok S (vs_frames s) pt" and dev: "devices_aligned s"
    and apart: "tables S (vs_frames s) pt \<inter> ran (ledger (vs_vmos s)) = {}" using ok by (auto simp: as_ok_def)
  have own: "frame_of (vs_frames s) f" "f \<notin> free_frames (vs_frames s)" "f \<notin> tables S (vs_frames s) pt"
    if "f \<in> ran (ledger (vs_vmos s))" for f
    using that inv apart by (auto simp: vm_inv_def books_ok_def)
  note kept = rebuilt_frame[OF ok re own]
  have tree': "tree_ok S b pt" and range: "table_range (ba_table b) = table_range (ba_table (vs_frames s))"
    and all: "tables S b pt \<union> free_frames b = tables S (vs_frames s) pt \<union> free_frames (vs_frames s)"
    and outer: "\<And>x. x \<notin> table_range (ba_table (vs_frames s)) \<Longrightarrow> phys_byte b x = phys_byte (vs_frames s) x"
    using re by (auto simp: rebuilt_def)
  have "books_ok b (ledger (vs_vmos s))" using inv kept(1,2) tree' by (auto simp: vm_inv_def books_ok_def tree_ok_def)
  with inv range have inv': "vm_inv ?s" by (simp add: vm_inv_def)
  have "tables S b pt \<inter> ran (ledger (vs_vmos s)) = {}" using kept(3) by auto
  with inv' tree' dev have ok': "as_ok S pt ?s" by (simp add: as_ok_def devices_aligned_def)
  have "page_cell b q pg = page_cell (vs_frames s) q pg" if vx: "vs_vmos s v = Some x" and pg: "pg \<in> set (vm_pages x)" for v x pg q
  proof (rule page_content_kept[OF inv vx pg])
    fix f assume "owned pg = Some f"
    moreover obtain i where "i < length (vm_pages x)" "vm_pages x ! i = pg" using pg by (auto simp: in_set_conv_nth)
    ultimately have "ledger (vs_vmos s) (v, i) = Some f" using vx by (simp add: ledger_page)
    then show "frame_content b f = frame_content (vs_frames s) f" using kept(4) ranI by metis
  qed (rule outer)
  then have "cells ?s = cells s" by (auto simp: cells_def fun_eq_iff split: option.splits)
  then have "displays ?s = displays s" by simp
  moreover have "data_frame S pt b f \<and> frame_content b f = frame_content (vs_frames s) f" if d: "data_frame S pt (vs_frames s) f" for f
  proof (cases "frame_of (vs_frames s) f \<and> f \<notin> free_frames (vs_frames s)")
    case True
    with rebuilt_frame[OF ok re, of f] d show ?thesis by (simp add: data_frame_def reachable_frame_def)
  next
    case False
    with d have out: "frame_bytes f \<inter> table_range (ba_table (vs_frames s)) = {}" by (auto simp: data_frame_def reachable_frame_def)
    have "f \<in> frame_bytes f" by (simp add: frame_bytes_def)
    then have "f \<notin> tables S b pt" using tree_tables[OF tree'] frame_of_range[of b f] out range by blast
    moreover have "frame_content b f = frame_content (vs_frames s) f" using outer out by (intro frame_content_eqI) auto
    ultimately show ?thesis using d out range by (simp add: data_frame_def reachable_frame_def)
  qed
  moreover have "accounts ?s \<union> tables S b pt = accounts s \<union> tables S (vs_frames s) pt" using all by (auto simp: accounts_def)
  moreover have "\<forall>j < 512. j \<notin> S \<longrightarrow> entry_at b pt j = entry_at (vs_frames s) pt j" using re by (simp add: rebuilt_def)
  ultimately show ?thesis using ok' by (simp add: undisturbed_def)
qed

lemma map_page_at:
  assumes ok: "as_ok S pt s" and v: "slot 3 virt \<in> S" and p: "page_address phys"
  shows "\<exists>b. va_map_page pt virt phys fl (vs_frames s) = (Ok (), b) \<and> undisturbed S pt s (s\<lparr>vs_frames := b\<rparr>) \<and>
    takes 3 (vs_frames s) b \<and>
    ((\<forall>w. slot 3 w \<in> S \<longrightarrow> mapped_to b pt w =
        (if page_of w = page_of virt then Some (phys, mapping_page_flags fl) else mapped_to (vs_frames s) pt w)) \<or>
     free_frames b = {} \<and> mapped_to (vs_frames s) pt virt = None \<and>
       (\<forall>w. slot 3 w \<in> S \<longrightarrow> mapped_to b pt w = mapped_to (vs_frames s) pt w))"
proof -
  let ?fl = "mapping_page_flags fl" and ?p = "pm_new User pt"
  have tree: "tree_ok S (vs_frames s) pt" using ok by (simp add: as_ok_def)
  have root: "pm_table ?p = table_at 3 virt pt" by (simp add: pm_table_at[of _ virt] pm_new_def)
  have dec: "decode (entry_new phys ?fl) = Some (phys, ?fl)"
    using p mapping_flags_ok[of fl] by (simp add: decode_def entry_frame_new entry_new_parts)
  obtain r b where m: "map_loop virt (entry_new phys ?fl) (table_at 3 virt pt) (vs_frames s) = (r, b)" "rebuilt S pt (vs_frames s) b"
    "takes 3 (vs_frames s) b"
    "r = Ok virt \<and> (\<forall>w. slot 3 w \<in> S \<longrightarrow> mapped_to b pt w =
        (if page_of w = page_of virt then Some (phys, ?fl) else mapped_to (vs_frames s) pt w)) \<or>
     r = Err () \<and> free_frames b = {} \<and> mapped_to (vs_frames s) pt virt = None \<and>
       (\<forall>w. slot 3 w \<in> S \<longrightarrow> mapped_to b pt w = mapped_to (vs_frames s) pt w)"
    using map_at[OF tree v order_refl, of pt "entry_new phys ?fl"] by (auto simp: upper_simps dec)
  have "va_map_page pt virt phys fl (vs_frames s) = (Ok (), b)"
    using m(1,4) by (auto simp: va_map_page_def pm_map_phys_def root)
  with m(3,4) rebuilt_undisturbed[OF ok m(2)] show ?thesis by blast
qed

section \<open>Mapping an object\<close>

text \<open>An address of the region shows a page of an object: its entry names a frame that holds what the page shows. When memory for the
  tables has run out, the address may have been left without an entry.\<close>

definition shows_page :: "nat set \<Rightarrow> nat \<Rightarrow> vm_sys \<Rightarrow> oid \<Rightarrow> nat \<Rightarrow> u32 \<Rightarrow> nat \<Rightarrow> bool" where
  "shows_page S pt s v j fl va \<longleftrightarrow>
     (\<exists>f. mapped_to (vs_frames s) pt va = Some (f, mapping_page_flags fl) \<and> data_frame S pt (vs_frames s) f \<and>
        displays s (v, j) (frame_content (vs_frames s) f)) \<or>
     mapped_to (vs_frames s) pt va = None \<and> free_frames (vs_frames s) = {}"

lemma shows_page_kept:
  assumes "shows_page S pt s v j fl va" and "undisturbed S pt s s'" and "free_frames (vs_frames s') \<subseteq> free_frames (vs_frames s)"
    and "mapped_to (vs_frames s') pt va = mapped_to (vs_frames s) pt va"
  shows "shows_page S pt s' v j fl va"
  using assms by (auto simp: shows_page_def undisturbed_def)

definition page_span_ok :: "nat set \<Rightarrow> nat \<Rightarrow> nat \<Rightarrow> nat list \<Rightarrow> bool" where
  "page_span_ok S addr off is \<longleftrightarrow> distinct (map (\<lambda>i. page_of (addr + i * 4096)) is) \<and>
     (\<forall>i \<in> set is. addr + i * 4096 < usize_limit \<and> off + i * 4096 < usize_limit \<and> slot 3 (addr + i * 4096) \<in> S)"

lemma map_loop_spec:
  assumes "as_ok S pt s" and "vs_vmos s v = Some x" and "page_span_ok S addr off is"
  shows "\<exists>r s'. va_map_loop pt addr v off fl is s = Some (r, s') \<and> r \<in> {Ok (), Err VmoFailed} \<and> undisturbed S pt s s' \<and>
    free_frames (vs_frames s') \<subseteq> free_frames (vs_frames s) \<and>
    (\<forall>w. slot 3 w \<in> S \<longrightarrow> (\<forall>i \<in> set is. page_of w \<noteq> page_of (addr + i * 4096)) \<longrightarrow>
       mapped_to (vs_frames s') pt w = mapped_to (vs_frames s) pt w) \<and>
    (r = Ok () \<longrightarrow> (\<forall>i \<in> set is. shows_page S pt s' v ((off + i * 4096) div 4096) fl (addr + i * 4096) \<and>
       (off + i * 4096) div 4096 < length (vm_pages x)))"
  using assms
proof (induction "is" arbitrary: s x)
  case Nil
  then show ?case by (simp add: undisturbed_refl)
next
  case (Cons i "is")
  let ?va = "addr + i * 4096" and ?off = "off + i * 4096"
  have lim: "?va < usize_limit" "?off < usize_limit" and sl: "slot 3 ?va \<in> S" and rest: "page_span_ok S addr off is"
    and new: "\<forall>j \<in> set is. page_of ?va \<noteq> page_of (addr + j * 4096)"
    using Cons.prems(3) by (auto simp: page_span_ok_def)
  have addrs: "bind_res (chk_add addr (i * PAGE_SIZE)) (\<lambda>virt. bind_res (chk_add off (i * PAGE_SIZE)) (\<lambda>po. Ok (virt, po))) =
      (Ok (?va, ?off) :: (vmar_error, nat \<times> nat) res)"
    using lim by (simp add: chk_add_eq PAGE_SIZE_def)
  obtain r s1 where g: "vm_get_page v ?off False s = Some (r, s1)" "undisturbed S pt s s1" "r \<noteq> Panic"
    "leaves (vs_frames s) (vs_frames s1)" "\<And>u. slot 3 u \<in> S \<Longrightarrow> mapped_to (vs_frames s1) pt u = mapped_to (vs_frames s) pt u"
    "\<And>f. r = Ok f \<Longrightarrow> data_frame S pt (vs_frames s1) f \<and> displays s1 (v, ?off div PAGE_SIZE) (frame_content (vs_frames s1) f) \<and>
       ?off div PAGE_SIZE < length (vm_pages x)"
    using get_page_undisturbed[OF Cons.prems(1,2), of ?off False] by blast
  have free1: "free_frames (vs_frames s1) \<subseteq> free_frames (vs_frames s)" using g(4) by (simp add: leaves_def)
  show ?case
  proof (cases r)
    case (Err e)
    then have "va_map_loop pt addr v off fl (i # is) s = Some (Err VmoFailed, s1)" using addrs g(1) by simp
    with g(2,5) free1 show ?thesis by auto
  next
    case (Ok f)
    note f = g(6)[OF Ok]
    have ok1: "as_ok S pt s1" using g(2) by (simp add: undisturbed_def)
    have pf: "page_address f" using f by (simp add: data_frame_def)
    obtain b where b: "va_map_page pt ?va f fl (vs_frames s1) = (Ok (), b)" "undisturbed S pt s1 (s1\<lparr>vs_frames := b\<rparr>)"
      "takes 3 (vs_frames s1) b"
      "(\<forall>w. slot 3 w \<in> S \<longrightarrow> mapped_to b pt w =
          (if page_of w = page_of ?va then Some (f, mapping_page_flags fl) else mapped_to (vs_frames s1) pt w)) \<or>
       free_frames b = {} \<and> mapped_to (vs_frames s1) pt ?va = None \<and>
         (\<forall>w. slot 3 w \<in> S \<longrightarrow> mapped_to b pt w = mapped_to (vs_frames s1) pt w)"
      using map_page_at[OF ok1 sl pf, of fl] by blast
    let ?s2 = "s1\<lparr>vs_frames := b\<rparr>"
    have u2: "undisturbed S pt s ?s2" by (rule undisturbed_trans[OF g(2) b(2)])
    then have ok2: "as_ok S pt ?s2" and sh: "same_shape (vs_vmos s) (vs_vmos ?s2)" by (auto simp: undisturbed_def)
    obtain y where y: "vs_vmos ?s2 v = Some y" and "same_vmo x y" by (rule same_shape_Some[OF sh Cons.prems(2)])
    then have len: "length (vm_pages y) = length (vm_pages x)" by (simp add: same_vmo_def)
    have here: "shows_page S pt ?s2 v (?off div 4096) fl ?va"
      using b(2,4) f sl unfolding shows_page_def undisturbed_def by (auto simp: PAGE_SIZE_def)
    from Cons.IH[OF ok2 y rest] obtain r' s' where IH: "va_map_loop pt addr v off fl is ?s2 = Some (r', s')"
      "r' \<in> {Ok (), Err VmoFailed}" "undisturbed S pt ?s2 s'" "free_frames (vs_frames s') \<subseteq> free_frames b"
      "\<And>w. slot 3 w \<in> S \<Longrightarrow> \<forall>i \<in> set is. page_of w \<noteq> page_of (addr + i * 4096) \<Longrightarrow>
         mapped_to (vs_frames s') pt w = mapped_to b pt w"
      "r' = Ok () \<Longrightarrow> \<forall>i \<in> set is. shows_page S pt s' v ((off + i * 4096) div 4096) fl (addr + i * 4096) \<and>
         (off + i * 4096) div 4096 < length (vm_pages x)"
      unfolding len by auto
    have "va_map_loop pt addr v off fl (i # is) s = Some (r', s')" using addrs g(1) Ok b(1) IH(1) by simp
    moreover have "shows_page S pt s' v (?off div 4096) fl ?va"
      by (rule shows_page_kept[OF here IH(3)]) (use IH(4) IH(5)[OF sl new] in simp_all)
    moreover have "mapped_to (vs_frames s') pt w = mapped_to (vs_frames s) pt w"
      if "slot 3 w \<in> S" "\<forall>j \<in> set (i # is). page_of w \<noteq> page_of (addr + j * 4096)" for w
      using IH(5)[of w] b(4) g(5)[OF that(1)] that by auto
    moreover have "free_frames (vs_frames s') \<subseteq> free_frames (vs_frames s)" using IH(4) b(3) free1 by (auto simp: takes_def)
    ultimately show ?thesis using IH(2,6) undisturbed_trans[OF u2 IH(3)] f by (auto simp: PAGE_SIZE_def)
  qed (use g(3) in simp)
qed

section \<open>Regions\<close>

definition USER_SLOTS :: "nat set" where
  "USER_SLOTS = {..<256}"

definition within :: "vmar \<Rightarrow> nat \<Rightarrow> nat \<Rightarrow> bool" where
  "within x k n \<longleftrightarrow> va_base x \<le> k \<and> k + n \<le> va_base x + va_size x \<and> n mod 4096 = 0"

definition region_ok :: "vmar \<Rightarrow> bool" where
  "region_ok x \<longleftrightarrow> bt_wf (va_mappings x) \<and> va_base x + va_size x \<le> 2 ^ 47 \<and> va_base x \<le> va_next_alloc x \<and>
     va_next_alloc x \<le> va_base x + va_size x \<and>
     (\<forall>k m. bt_get (va_mappings x) k = Some m \<longrightarrow> within x k (mp_size m)) \<and>
     (\<forall>k m j n. bt_get (va_mappings x) k = Some m \<longrightarrow> bt_get (va_mappings x) j = Some n \<longrightarrow> k \<noteq> j \<longrightarrow>
        k + mp_size m \<le> j \<or> j + mp_size n \<le> k)"

lemma align_up_mult: "align_up sz mod 4096 = 0"
  by (simp add: align_up_def PAGE_SIZE_def)

lemma check_overlap_ok:
  assumes "\<And>k m. (k, m) \<in> set ms \<Longrightarrow> k + mp_size m < usize_limit" and "addr + n < usize_limit"
  shows "va_check_overlap addr n ms =
    (if \<forall>(k, m) \<in> set ms. addr + n \<le> k \<or> k + mp_size m \<le> addr then Ok () else Err Overlap)"
  using assms(1)
proof (induction ms)
  case (Cons km ms)
  obtain k m where km: "km = (k, m)" by fastforce
  have "k + mp_size m < usize_limit" using Cons.prems[of k m] km by simp
  with Cons assms(2) km show ?case by (auto simp: chk_add_eq)
qed simp

lemma span_user:
  assumes "addr + n * 4096 \<le> 2 ^ 47" and "off + n * 4096 < usize_limit"
  shows "page_span_ok USER_SLOTS addr off [0..<n]"
proof -
  have pg: "page_of (addr + i * 4096) = addr div 4096 + i" if "i < n" for i
  proof -
    have "addr + i * 4096 < 2 ^ 47" using that assms(1) by simp
    then have "(addr + i * 4096) div 4096 < 2 ^ 36" by (simp add: div_less_iff_less_mult)
    then show ?thesis by (simp add: page_of_def)
  qed
  have "slot 3 (addr + i * 4096) < 256" if "i < n" for i
  proof -
    have "addr + i * 4096 < 2 ^ 47" using that assms(1) by simp
    then have "(addr + i * 4096) div 4096 < 2 ^ 35" by (simp add: div_less_iff_less_mult)
    then show ?thesis using pg[OF that] by (simp add: slot_page div_less_iff_less_mult)
  qed
  moreover have "distinct (map (\<lambda>i. page_of (addr + i * 4096)) [0..<n])"
    unfolding distinct_map by (auto simp: inj_on_def pg)
  ultimately show ?thesis using assms by (auto simp: page_span_ok_def USER_SLOTS_def)
qed

lemma region_insert:
  assumes "region_ok x" and "within x addr n" and "\<forall>(k, m) \<in> set (va_mappings x). addr + n \<le> k \<or> k + mp_size m \<le> addr"
    and "va_base x \<le> na" and "na \<le> va_base x + va_size x" and "mp_size mp = n"
  shows "region_ok (x\<lparr>va_next_alloc := na, va_mappings := bt_insert addr mp (va_mappings x)\<rparr>)"
proof -
  have apart: "addr + n \<le> k \<or> k + mp_size m \<le> addr" if "bt_get (va_mappings x) k = Some m" for k m
    using assms(3) bt_get_Some_mem[OF that] by auto
  show ?thesis
    unfolding region_ok_def
  proof (intro conjI allI impI)
    fix k m j l
    assume "bt_get (va_mappings (x\<lparr>va_next_alloc := na, va_mappings := bt_insert addr mp (va_mappings x)\<rparr>)) k = Some m"
      "bt_get (va_mappings (x\<lparr>va_next_alloc := na, va_mappings := bt_insert addr mp (va_mappings x)\<rparr>)) j = Some l" "k \<noteq> j"
    then show "k + mp_size m \<le> j \<or> j + mp_size l \<le> k"
      using assms(1,6) apart[of k m] apart[of j l] by (auto simp: region_ok_def split: if_splits)
  qed (use assms in \<open>auto simp: region_ok_def within_def split: if_splits\<close>)
qed

lemma region_next:
  "region_ok x \<Longrightarrow> va_base x \<le> na \<Longrightarrow> na \<le> va_base x + va_size x \<Longrightarrow> region_ok (x\<lparr>va_next_alloc := na\<rparr>)"
  by (simp add: region_ok_def within_def)

lemma place_spec:
  assumes "region_ok x" and "n mod 4096 = 0" and "\<forall>va. vaddr = Some va \<longrightarrow> va + n < usize_limit"
    and "va_next_alloc x + n < usize_limit"
  obtains (refused) e where "va_place n fl vaddr x = (Err e, x)"
    | (placed) va na where "va_place n fl vaddr x = (Ok va, x\<lparr>va_next_alloc := na\<rparr>)" "within x va n" "va_base x \<le> na"
      "na \<le> va_base x + va_size x"
proof (cases vaddr)
  case (Some va)
  have lim: "va_base x + va_size x < usize_limit" using assms(1) by (simp add: region_ok_def)
  have na: "va_base x \<le> va_next_alloc x" "va_next_alloc x \<le> va_base x + va_size x" using assms(1) by (simp_all add: region_ok_def)
  show thesis
  proof (cases "contains fl MF_SPECIFIC \<and> va_base x \<le> va \<and> va + n \<le> va_base x + va_size x")
    case True
    then have "va_place n fl vaddr x = (Ok va, x\<lparr>va_next_alloc := va_next_alloc x\<rparr>)"
      using Some lim assms(3) by (auto simp: va_place_def chk_add_eq)
    then show thesis using placed[of va "va_next_alloc x"] True na assms(2) by (simp add: within_def)
  next
    case False
    then have "\<exists>e. va_place n fl vaddr x = (Err e, x)" using Some lim assms(3) by (auto simp: va_place_def chk_add_eq)
    then show thesis using refused by blast
  qed
next
  case None
  have lim: "va_base x + va_size x < usize_limit" "va_base x \<le> va_next_alloc x" using assms(1) by (simp_all add: region_ok_def)
  show thesis
  proof (cases "va_next_alloc x + n \<le> va_base x + va_size x")
    case True
    with None lim assms(4) placed[of "va_next_alloc x" "va_next_alloc x + n"] assms(2) show thesis
      by (simp add: va_place_def chk_add_eq within_def)
  next
    case False
    with None lim assms(4) refused[of NoSpace] show thesis by (simp add: va_place_def chk_add_eq)
  qed
qed

text \<open>What \<open>map\<close> does to a region and its address space.\<close>

definition mapping_of :: "oid \<Rightarrow> nat \<Rightarrow> nat \<Rightarrow> u32 \<Rightarrow> mapping" where
  "mapping_of v off n fl = \<lparr>mp_vmo = v, mp_vmo_offset = off, mp_size = n, mp_flags = fl\<rparr>"

definition map_outcome :: "oid \<Rightarrow> nat \<Rightarrow> oid \<Rightarrow> nat \<Rightarrow> nat \<Rightarrow> u32 \<Rightarrow> as_sys \<Rightarrow> (vmar_error, nat) res \<Rightarrow> as_sys \<Rightarrow> bool" where
  "map_outcome a pt v off n fl s r s' \<longleftrightarrow> undisturbed USER_SLOTS pt (as_vm s) (as_vm s') \<and>
     (\<exists>x x'. as_vmars s a = Some x \<and> as_vmars s' = (as_vmars s)(a \<mapsto> x') \<and> region_ok x' \<and> va_page_table x' = Some pt \<and>
       (case r of
          Panic \<Rightarrow> False
        | Err e \<Rightarrow> va_mappings x' = va_mappings x \<and> (e \<noteq> VmoFailed \<longrightarrow> as_vm s' = as_vm s)
        | Ok va \<Rightarrow> within x va n \<and> (\<forall>(k, m) \<in> set (va_mappings x). va + n \<le> k \<or> k + mp_size m \<le> va) \<and>
            va_mappings x' = bt_insert va (mapping_of v off n fl) (va_mappings x) \<and>
            (\<forall>i < n div 4096. shows_page USER_SLOTS pt (as_vm s') v ((off + i * 4096) div 4096) fl (va + i * 4096)) \<and>
            (\<forall>w. slot 3 w \<in> USER_SLOTS \<longrightarrow> (\<forall>i < n div 4096. page_of w \<noteq> page_of (va + i * 4096)) \<longrightarrow>
               mapped_to (vs_frames (as_vm s')) pt w = mapped_to (vs_frames (as_vm s)) pt w)))"

lemma va_map_spec:
  assumes x: "as_vmars s a = Some x" "region_ok x" "va_page_table x = Some pt" and ok: "as_ok USER_SLOTS pt (as_vm s)"
    and v: "vs_vmos (as_vm s) v \<noteq> None" and off: "off + align_up sz < usize_limit"
    and va: "\<And>u. vaddr = Some u \<Longrightarrow> u + align_up sz < usize_limit" and na: "va_next_alloc x + align_up sz < usize_limit"
  shows "\<exists>r s'. va_map a v off sz fl vaddr s = Some (r, s') \<and> map_outcome a pt v off (align_up sz) fl s r s'"
proof -
  let ?n = "align_up sz"
  have n: "?n mod 4096 = 0" by (rule align_up_mult)
  note same = undisturbed_refl[OF ok]
  have va': "\<forall>u. vaddr = Some u \<longrightarrow> u + ?n < usize_limit" using va by blast
  show ?thesis
  proof (cases rule: place_spec[where vaddr = vaddr and fl = fl, OF x(2) n va' na])
    case (1 e)
    then have "va_map a v off sz fl vaddr s = Some (Err e, s)" using x(1) by (simp add: va_map_def)
    moreover have "as_vmars s = (as_vmars s)(a \<mapsto> x)" using x(1) by auto
    ultimately show ?thesis using x same unfolding map_outcome_def by (intro exI conjI) (assumption, auto)
  next
    case (2 u m)
    let ?x = "x\<lparr>va_next_alloc := m\<rparr>"
    let ?s = "put_vmar a ?x s"
    have ms: "k + mp_size mp < usize_limit" if "(k, mp) \<in> set (va_mappings x)" for k mp
    proof -
      have "bt_get (va_mappings x) k = Some mp" using that x(2) by (simp add: btm.entries_get region_ok_def)
      with x(2) show ?thesis by (fastforce simp: region_ok_def within_def)
    qed
    have lim: "u + ?n \<le> 2 ^ 47" using 2(2) x(2) by (simp add: within_def region_ok_def)
    have chk: "va_check_overlap u ?n (va_mappings x) =
        (if \<forall>(k, mp) \<in> set (va_mappings x). u + ?n \<le> k \<or> k + mp_size mp \<le> u then Ok () else Err Overlap)"
      by (rule check_overlap_ok) (use ms lim in auto)
    have x': "region_ok ?x" by (rule region_next[OF x(2) 2(3,4)])
    show ?thesis
    proof (cases "\<forall>(k, mp) \<in> set (va_mappings x). u + ?n \<le> k \<or> k + mp_size mp \<le> u")
      case False
      then have "va_map a v off sz fl vaddr s = Some (Err Overlap, ?s)"
        using x(1) 2(1) chk by (simp add: va_map_def Let_def if_not_P[OF False])
      with x x' same show ?thesis by (simp add: map_outcome_def put_vmar_def) (intro exI[of _ ?x], simp)
    next
      case True
      have cnt: "?n div 4096 * 4096 = ?n" using n by (simp add: mod_eq_0_iff_dvd)
      obtain y where y: "vs_vmos (as_vm s) v = Some y" using v by blast
      have span: "page_span_ok USER_SLOTS u off [0..<?n div 4096]"
        by (rule span_user) (use lim off cnt in simp_all)
      obtain r vm where l: "va_map_loop pt u v off fl [0..<?n div 4096] (as_vm s) = Some (r, vm)" "r \<in> {Ok (), Err VmoFailed}"
        "undisturbed USER_SLOTS pt (as_vm s) vm"
        "\<forall>w. slot 3 w \<in> USER_SLOTS \<longrightarrow> (\<forall>i < ?n div 4096. page_of w \<noteq> page_of (u + i * 4096)) \<longrightarrow>
           mapped_to (vs_frames vm) pt w = mapped_to (vs_frames (as_vm s)) pt w"
        "r = Ok () \<Longrightarrow> \<forall>i < ?n div 4096. shows_page USER_SLOTS pt vm v ((off + i * 4096) div 4096) fl (u + i * 4096)"
        using map_loop_spec[OF ok y span, of fl] by auto
      let ?x2 = "?x\<lparr>va_mappings := bt_insert u (mapping_of v off ?n fl) (va_mappings x)\<rparr>"
      have x2: "region_ok ?x2" by (rule region_insert[OF x(2) 2(2) True 2(3,4)]) (simp add: mapping_of_def)
      have eval: "va_map a v off sz fl vaddr s = Some (case r of
          Ok _ \<Rightarrow> (Ok u, put_vmar a ?x2 (?s\<lparr>as_vm := vm\<rparr>)) | Err e \<Rightarrow> (Err e, ?s\<lparr>as_vm := vm\<rparr>) | Panic \<Rightarrow> (Panic, ?s\<lparr>as_vm := vm\<rparr>))"
        using x(1,3) 2(1) chk True l(1)
        by (simp add: va_map_def Let_def put_vmar_def PAGE_SIZE_def mapping_of_def split: res.splits)
      show ?thesis
      proof (cases "r = Ok ()")
        case r: True
        with True eval l(3-5) x x2 2(2) show ?thesis by (simp add: map_outcome_def put_vmar_def) (intro exI[of _ ?x2], simp)
      next
        case False
        with l(2) eval l(3) x x' show ?thesis by (simp add: map_outcome_def put_vmar_def) (intro exI[of _ ?x], simp)
      qed
    qed
  qed
qed


section \<open>Unmapping and protecting\<close>

lemma unmap_page_at:
  assumes ok: "as_ok S pt s" and v: "slot 3 virt \<in> S"
  shows "\<exists>b. va_unmap_page pt virt (vs_frames s) = (Ok (), b) \<and> undisturbed S pt s (s\<lparr>vs_frames := b\<rparr>) \<and>
    (\<forall>w. slot 3 w \<in> S \<longrightarrow> mapped_to b pt w = (if page_of w = page_of virt then None else mapped_to (vs_frames s) pt w))"
proof -
  let ?p = "pm_new User pt"
  have tree: "tree_ok S (vs_frames s) pt" using ok by (simp add: as_ok_def)
  have root: "pm_table ?p = table_at 3 virt pt" by (simp add: pm_table_at[of _ virt] pm_new_def)
  obtain b where b: "unmap_inner virt (table_at 3 virt pt) True (vs_frames s) =
      ((case mapped_to (vs_frames s) pt virt of None \<Rightarrow> Err () | Some x \<Rightarrow> Ok x), b)" "rebuilt S pt (vs_frames s) b"
    "\<forall>w. slot 3 w \<in> S \<longrightarrow> mapped_to b pt w = (if page_of w = page_of virt then None else mapped_to (vs_frames s) pt w)"
    using unmap_at[OF tree v order_refl, of pt True] by (auto simp: upper_simps)
  have "va_unmap_page pt virt (vs_frames s) = (Ok (), b)"
    using b(1) by (auto simp: va_unmap_page_def pm_unmap_phys_def root split: option.splits)
  with b(3) rebuilt_undisturbed[OF ok b(2)] show ?thesis by blast
qed

lemma update_page_at:
  assumes ok: "as_ok S pt s" and v: "slot 3 virt \<in> S"
  shows "\<exists>b. va_update_page_flags pt virt fl (vs_frames s) = (Ok (), b) \<and> undisturbed S pt s (s\<lparr>vs_frames := b\<rparr>) \<and>
    (\<forall>w. slot 3 w \<in> S \<longrightarrow> mapped_to b pt w =
      (if page_of w = page_of virt then map_option (\<lambda>(f, _). (f, mapping_page_flags fl)) (mapped_to (vs_frames s) pt w)
       else mapped_to (vs_frames s) pt w))"
proof -
  let ?p = "pm_new User pt"
  have p: "pm_table_addr ?p = pt" by (simp add: pm_new_def)
  have tree: "tree_ok S (vs_frames s) (pm_table_addr ?p)" using ok by (simp add: as_ok_def p)
  obtain b where b: "pm_remap ?p virt (mapping_page_flags fl) (vs_frames s) =
      (if mapped_to (vs_frames s) pt virt = None then Err () else Ok virt, b)" "rebuilt S pt (vs_frames s) b"
    "\<forall>w. slot 3 w \<in> S \<longrightarrow> mapped_to b pt w = (if page_of w = page_of virt
      then map_option (\<lambda>(f, _). (f, mapping_page_flags fl)) (mapped_to (vs_frames s) pt virt) else mapped_to (vs_frames s) pt w)"
    using remap_at[OF tree v mapping_flags_ok[of fl]] by (auto simp: p)
  obtain r b1 where r: "pm_remap_with ?p virt (\<lambda>_. mapping_page_flags fl) (vs_frames s) = (r, b1)" by fastforce
  with b(1) have "r \<noteq> Panic \<and> b1 = b" by (cases r) (simp_all add: pm_remap_def split: prod.splits if_splits)
  with r have "va_update_page_flags pt virt fl (vs_frames s) = (Ok (), b)" by (cases r) (simp_all add: va_update_page_flags_def)
  moreover have "mapped_to b pt w =
      (if page_of w = page_of virt then map_option (\<lambda>(f, _). (f, mapping_page_flags fl)) (mapped_to (vs_frames s) pt w)
       else mapped_to (vs_frames s) pt w)" if "slot 3 w \<in> S" for w
    using b(3) that mapped_page[of w virt "vs_frames s" pt] by (cases "page_of w = page_of virt") simp_all
  ultimately show ?thesis using rebuilt_undisturbed[OF ok b(2)] by blast
qed

text \<open>A loop over pages applies the change of one page to each of them.\<close>

lemma each_page_spec:
  assumes "as_ok S pt s" and "page_span_ok S addr off is"
    and op: "\<And>s virt. as_ok S pt s \<Longrightarrow> slot 3 virt \<in> S \<Longrightarrow>
      \<exists>b. f virt (vs_frames s) = (Ok (), b) \<and> undisturbed S pt s (s\<lparr>vs_frames := b\<rparr>) \<and>
        (\<forall>w. slot 3 w \<in> S \<longrightarrow> mapped_to b pt w =
          (if page_of w = page_of virt then g (mapped_to (vs_frames s) pt w) else mapped_to (vs_frames s) pt w))"
  shows "\<exists>b. va_each_page f addr is (vs_frames s) = (Ok (), b) \<and> undisturbed S pt s (s\<lparr>vs_frames := b\<rparr>) \<and>
    (\<forall>w. slot 3 w \<in> S \<longrightarrow> mapped_to b pt w =
      (if \<exists>i \<in> set is. page_of w = page_of (addr + i * 4096) then g (mapped_to (vs_frames s) pt w)
       else mapped_to (vs_frames s) pt w))"
  using assms(1,2)
proof (induction "is" arbitrary: s)
  case Nil
  have "s\<lparr>vs_frames := vs_frames s\<rparr> = s" by simp
  with Nil show ?case by (simp add: undisturbed_refl)
next
  case (Cons i "is")
  let ?va = "addr + i * 4096"
  have lim: "?va < usize_limit" and sl: "slot 3 ?va \<in> S" and rest: "page_span_ok S addr off is"
    and new: "\<forall>j \<in> set is. page_of ?va \<noteq> page_of (addr + j * 4096)"
    using Cons.prems(2) by (auto simp: page_span_ok_def)
  obtain b where b: "f ?va (vs_frames s) = (Ok (), b)" "undisturbed S pt s (s\<lparr>vs_frames := b\<rparr>)"
    "\<And>w. slot 3 w \<in> S \<Longrightarrow> mapped_to b pt w =
      (if page_of w = page_of ?va then g (mapped_to (vs_frames s) pt w) else mapped_to (vs_frames s) pt w)"
    using op[OF Cons.prems(1) sl] by blast
  then have ok: "as_ok S pt (s\<lparr>vs_frames := b\<rparr>)" by (simp add: undisturbed_def)
  from Cons.IH[OF this rest] obtain b' where b': "va_each_page f addr is b = (Ok (), b')"
    "undisturbed S pt (s\<lparr>vs_frames := b\<rparr>) (s\<lparr>vs_frames := b'\<rparr>)"
    "\<And>w. slot 3 w \<in> S \<Longrightarrow> mapped_to b' pt w =
      (if \<exists>i \<in> set is. page_of w = page_of (addr + i * 4096) then g (mapped_to b pt w) else mapped_to b pt w)"
    by auto
  have "va_each_page f addr (i # is) (vs_frames s) = (Ok (), b')" using lim b(1) b'(1) by (simp add: chk_add_eq PAGE_SIZE_def)
  moreover have "mapped_to b' pt w = (if \<exists>j \<in> set (i # is). page_of w = page_of (addr + j * 4096)
      then g (mapped_to (vs_frames s) pt w) else mapped_to (vs_frames s) pt w)" if "slot 3 w \<in> S" for w
    using b(3)[OF that] b'(3)[OF that] new by (cases "page_of w = page_of ?va") auto
  ultimately show ?case using undisturbed_trans[OF b(2) b'(2)] by auto
qed

text \<open>The pages of a mapping.\<close>

definition in_mapping :: "nat \<Rightarrow> mapping \<Rightarrow> nat \<Rightarrow> bool" where
  "in_mapping k m w \<longleftrightarrow> (\<exists>i < mp_size m div 4096. page_of w = page_of (k + i * 4096))"

lemma region_get:
  assumes "region_ok x" and "bt_get (va_mappings x) k = Some m"
  shows "within x k (mp_size m)" "page_span_ok USER_SLOTS k 0 [0..<mp_size m div 4096]"
proof -
  show w: "within x k (mp_size m)" using assms by (simp add: region_ok_def)
  have "mp_size m div 4096 * 4096 = mp_size m" using w by (simp add: within_def mod_eq_0_iff_dvd)
  with w assms(1) show "page_span_ok USER_SLOTS k 0 [0..<mp_size m div 4096]"
    by (intro span_user) (auto simp: within_def region_ok_def)
qed

lemma va_unmap_spec:
  assumes x: "as_vmars s a = Some x" "region_ok x" "va_page_table x = Some pt" and ok: "as_ok USER_SLOTS pt (as_vm s)"
    and m: "bt_get (va_mappings x) k = Some m" "mp_size m = align_up sz"
  shows "\<exists>b. va_unmap a k sz s = (Ok m, as_map_frames b (put_vmar a (x\<lparr>va_mappings := bt_remove k (va_mappings x)\<rparr>) s)) \<and>
    undisturbed USER_SLOTS pt (as_vm s) ((as_vm s)\<lparr>vs_frames := b\<rparr>) \<and>
    (\<forall>w. slot 3 w \<in> USER_SLOTS \<longrightarrow>
       mapped_to b pt w = (if in_mapping k m w then None else mapped_to (vs_frames (as_vm s)) pt w))"
proof -
  obtain b where b: "va_each_page (va_unmap_page pt) k [0..<mp_size m div 4096] (vs_frames (as_vm s)) = (Ok (), b)"
    "undisturbed USER_SLOTS pt (as_vm s) ((as_vm s)\<lparr>vs_frames := b\<rparr>)"
    "\<forall>w. slot 3 w \<in> USER_SLOTS \<longrightarrow>
       mapped_to b pt w = (if in_mapping k m w then None else mapped_to (vs_frames (as_vm s)) pt w)"
    using each_page_spec[OF ok region_get(2)[OF x(2) m(1)], where f = "va_unmap_page pt" and g = "\<lambda>_. None"] unmap_page_at
    by (auto simp: in_mapping_def Bex_def)
  with x m have "va_unmap a k sz s = (Ok m, as_map_frames b (put_vmar a (x\<lparr>va_mappings := bt_remove k (va_mappings x)\<rparr>) s))"
    by (simp add: va_unmap_def PAGE_SIZE_def Let_def)
  with b show ?thesis by blast
qed

lemma va_unmap_refused:
  assumes "as_vmars s a = Some x" and "region_ok x"
    and "\<And>m. bt_get (va_mappings x) k = Some m \<Longrightarrow> mp_size m \<noteq> align_up sz"
  shows "va_unmap a k sz s = (Err (if bt_get (va_mappings x) k = None then NotMapped else InvalidArgs), s)"
proof (cases "bt_get (va_mappings x) k")
  case (Some m)
  have wf: "bt_wf (va_mappings x)" using assms(2) by (simp add: region_ok_def)
  have "bt_insert k m (bt_remove k (va_mappings x)) = va_mappings x"
    using wf Some by (intro btm.entries_ext) (auto simp: bt_wf_insert bt_wf_remove bt_get_insert bt_get_remove)
  moreover have "as_vmars s = (as_vmars s)(a \<mapsto> x)" using assms(1) by auto
  ultimately show ?thesis using Some assms(1,3) by (simp add: va_unmap_def Let_def put_vmar_def)
qed (use assms(1) in \<open>simp add: va_unmap_def Let_def\<close>)

lemma va_protect_spec:
  assumes x: "as_vmars s a = Some x" "region_ok x" "va_page_table x = Some pt" and ok: "as_ok USER_SLOTS pt (as_vm s)"
    and m: "bt_get (va_mappings x) k = Some m"
  shows "\<exists>b. va_protect a k sz fl s =
      (Ok (), as_map_frames b (put_vmar a (x\<lparr>va_mappings := bt_insert k (m\<lparr>mp_flags := fl\<rparr>) (va_mappings x)\<rparr>) s)) \<and>
    undisturbed USER_SLOTS pt (as_vm s) ((as_vm s)\<lparr>vs_frames := b\<rparr>) \<and>
    (\<forall>w. slot 3 w \<in> USER_SLOTS \<longrightarrow> mapped_to b pt w =
       (if in_mapping k m w then map_option (\<lambda>(f, _). (f, mapping_page_flags fl)) (mapped_to (vs_frames (as_vm s)) pt w)
        else mapped_to (vs_frames (as_vm s)) pt w))"
proof -
  obtain b where b: "va_each_page (\<lambda>virt. va_update_page_flags pt virt fl) k [0..<mp_size m div 4096] (vs_frames (as_vm s)) = (Ok (), b)"
    "undisturbed USER_SLOTS pt (as_vm s) ((as_vm s)\<lparr>vs_frames := b\<rparr>)"
    "\<forall>w. slot 3 w \<in> USER_SLOTS \<longrightarrow> mapped_to b pt w =
       (if in_mapping k m w then map_option (\<lambda>(f, _). (f, mapping_page_flags fl)) (mapped_to (vs_frames (as_vm s)) pt w)
        else mapped_to (vs_frames (as_vm s)) pt w)"
    using each_page_spec[OF ok region_get(2)[OF x(2) m], where f = "\<lambda>virt. va_update_page_flags pt virt fl" and
        g = "map_option (\<lambda>(f, _). (f, mapping_page_flags fl))"] update_page_at
    by (auto simp: in_mapping_def Bex_def)
  with x m show ?thesis by (auto simp: va_protect_def PAGE_SIZE_def Let_def)
qed


section \<open>What page table entries stand for\<close>

text \<open>An entry is justified when a recorded mapping has the page, the flags are those of the mapping, and the frame is not a table and
  holds what the object shows there.\<close>

definition justified :: "nat \<Rightarrow> vm_sys \<Rightarrow> vmar \<Rightarrow> nat \<Rightarrow> bool" where
  "justified pt vm x w \<longleftrightarrow>
     (case mapped_to (vs_frames vm) pt w of
        None \<Rightarrow> True
      | Some (f, g) \<Rightarrow> \<exists>k m i. bt_get (va_mappings x) k = Some m \<and> i < mp_size m div 4096 \<and> page_of w = page_of (k + i * 4096) \<and>
          g = mapping_page_flags (mp_flags m) \<and> data_frame USER_SLOTS pt (vs_frames vm) f \<and>
          displays vm (mp_vmo m, (mp_vmo_offset m + i * 4096) div 4096) (frame_content (vs_frames vm) f))"

definition space_ok :: "bool \<Rightarrow> oid \<Rightarrow> nat \<Rightarrow> as_sys \<Rightarrow> bool" where
  "space_ok J a pt s \<longleftrightarrow> as_ok USER_SLOTS pt (as_vm s) \<and>
     (\<exists>x. as_vmars s a = Some x \<and> region_ok x \<and> va_page_table x = Some pt \<and>
        (J \<longrightarrow> (\<forall>w. slot 3 w \<in> USER_SLOTS \<longrightarrow> justified pt (as_vm s) x w)))"

lemma justifiedI:
  assumes "mapped_to (vs_frames vm) pt w = Some (f, mapping_page_flags (mp_flags m))" and "bt_get (va_mappings x) k = Some m"
    and "i < mp_size m div 4096" and "page_of w = page_of (k + i * 4096)" and "data_frame USER_SLOTS pt (vs_frames vm) f"
    and "displays vm (mp_vmo m, (mp_vmo_offset m + i * 4096) div 4096) (frame_content (vs_frames vm) f)"
  shows "justified pt vm x w"
  using assms unfolding justified_def by fastforce

lemma justified_kept:
  assumes "justified pt vm x w" and "undisturbed USER_SLOTS pt vm vm'"
    and "mapped_to (vs_frames vm') pt w = mapped_to (vs_frames vm) pt w"
    and "\<And>k m. bt_get (va_mappings x) k = Some m \<Longrightarrow> in_mapping k m w \<Longrightarrow> bt_get (va_mappings y) k = Some m"
  shows "justified pt vm' y w"
proof (cases "mapped_to (vs_frames vm) pt w")
  case (Some fg)
  obtain f g where fg: "fg = (f, g)" by fastforce
  with assms(1) Some obtain k m i where m: "bt_get (va_mappings x) k = Some m" "i < mp_size m div 4096" "page_of w = page_of (k + i * 4096)"
    "g = mapping_page_flags (mp_flags m)" "data_frame USER_SLOTS pt (vs_frames vm) f"
    "displays vm (mp_vmo m, (mp_vmo_offset m + i * 4096) div 4096) (frame_content (vs_frames vm) f)" by (auto simp: justified_def)
  then have "in_mapping k m w" by (auto simp: in_mapping_def)
  with m assms(2-4) Some fg show ?thesis unfolding justified_def undisturbed_def by fastforce
qed (use assms(3) in \<open>simp add: justified_def\<close>)

text \<open>The pages of different mappings differ.\<close>

lemma region_apart:
  "region_ok x \<Longrightarrow> bt_get (va_mappings x) k = Some m \<Longrightarrow> bt_get (va_mappings x) j = Some p \<Longrightarrow> k \<noteq> j \<Longrightarrow>
    j + mp_size p \<le> k \<or> k + mp_size m \<le> j"
  unfolding region_ok_def by blast

lemma pages_apart:
  assumes "region_ok x" and "bt_get (va_mappings x) k = Some m" and "in_mapping k m w"
    and "u + n \<le> k \<or> k + mp_size m \<le> u" and "n mod 4096 = 0" and "u + n \<le> 2 ^ 47" and "i < n div 4096"
  shows "page_of w \<noteq> page_of (u + i * 4096)"
proof -
  obtain j where j: "j < mp_size m div 4096" "page_of w = page_of (k + j * 4096)" using assms(3) by (auto simp: in_mapping_def)
  have w: "within x k (mp_size m)" by (rule region_get(1)[OF assms(1,2)])
  have pg: "page_of v = v div 4096" if "v < 2 ^ 47" for v
  proof -
    have "v div 4096 < 2 ^ 36" using that by (simp add: div_less_iff_less_mult)
    then show ?thesis by (simp add: page_of_def)
  qed
  have sz: "mp_size m div 4096 * 4096 = mp_size m" "n div 4096 * 4096 = n"
    using w assms(5) by (simp_all add: within_def mod_eq_0_iff_dvd)
  have lim: "k + mp_size m \<le> 2 ^ 47" using w assms(1) by (simp add: within_def region_ok_def)
  have jm: "j * 4096 + 4096 \<le> mp_size m" "i * 4096 + 4096 \<le> n" using j(1) assms(7) sz by linarith+
  have "page_of (k + j * 4096) = (k + j * 4096) div 4096" "page_of (u + i * 4096) = (u + i * 4096) div 4096"
    by (rule pg, use lim jm(1) in linarith) (rule pg, use assms(6) jm(2) in linarith)
  moreover have "(k + j * 4096) div 4096 \<noteq> (u + i * 4096) div 4096" using assms(4) jm by linarith
  ultimately show ?thesis using j(2) by simp
qed

datatype region_op = MapOp oid nat nat u32 "nat option" | UnmapOp nat nat | ProtectOp nat nat u32

fun region_do :: "oid \<Rightarrow> region_op \<Rightarrow> as_sys \<Rightarrow> ((vmar_error, unit) res \<times> as_sys) option" where
  "region_do a (MapOp v off sz fl vaddr) s =
     map_option (\<lambda>(r, s'). (bind_res r (\<lambda>_. Ok ()), s')) (va_map a v off sz fl vaddr s)"
| "region_do a (UnmapOp addr sz) s = (let (r, s') = va_unmap a addr sz s in Some (bind_res r (\<lambda>_. Ok ()), s'))"
| "region_do a (ProtectOp addr sz fl) s = Some (va_protect a addr sz fl s)"

fun region_run :: "oid \<Rightarrow> region_op list \<Rightarrow> as_sys \<Rightarrow> ((vmar_error, unit) res list \<times> as_sys) option" where
  "region_run a [] s = Some ([], s)"
| "region_run a (op # ops) s =
     Option.bind (region_do a op s) (\<lambda>(r, s1). Option.bind (region_run a ops s1) (\<lambda>(rs, s2). Some (r # rs, s2)))"

text \<open>Requests for at least one byte, below half of the 64-bit range, on an object that exists.\<close>

fun request_ok :: "(oid \<Rightarrow> bool) \<Rightarrow> region_op \<Rightarrow> bool" where
  "request_ok live (MapOp v off sz fl vaddr) \<longleftrightarrow> live v \<and> 0 < sz \<and> sz < 2 ^ 62 \<and> off < 2 ^ 62 \<and> (\<forall>u. vaddr = Some u \<longrightarrow> u < 2 ^ 62)"
| "request_ok live _ \<longleftrightarrow> True"

lemma align_up_bounds: "sz < 2 ^ 62 \<Longrightarrow> align_up sz < 2 ^ 63" "0 < sz \<Longrightarrow> 0 < align_up sz"
  by (auto simp: align_up_def PAGE_SIZE_def div_greater_zero_iff)

lemma request_outcome:
  assumes "space_ok J a pt s" and "request_ok (\<lambda>v. vs_vmos (as_vm s) v \<noteq> None) (MapOp v off sz fl vaddr)"
  shows "\<exists>r s'. va_map a v off sz fl vaddr s = Some (r, s') \<and> map_outcome a pt v off (align_up sz) fl s r s'"
proof -
  obtain x where x: "as_vmars s a = Some x" "region_ok x" "va_page_table x = Some pt" and ok: "as_ok USER_SLOTS pt (as_vm s)"
    using assms(1) unfolding space_ok_def by blast
  have "align_up sz < 2 ^ 63" using assms(2) align_up_bounds[of sz] by auto
  moreover have "va_next_alloc x \<le> 2 ^ 47" using x(2) by (auto simp: region_ok_def)
  ultimately show ?thesis using va_map_spec[OF x ok, of v off sz vaddr fl] assms(2) by force
qed

lemma space_map:
  assumes "space_ok J a pt s" and "request_ok (\<lambda>v. vs_vmos (as_vm s) v \<noteq> None) (MapOp v off sz fl vaddr)"
  shows "\<exists>r s'. va_map a v off sz fl vaddr s = Some (r, s') \<and> r \<noteq> Panic \<and> undisturbed USER_SLOTS pt (as_vm s) (as_vm s') \<and>
    space_ok (J \<and> r \<noteq> Err VmoFailed) a pt s'"
proof -
  obtain x where x: "as_vmars s a = Some x" "region_ok x" "va_page_table x = Some pt" and ok: "as_ok USER_SLOTS pt (as_vm s)"
    and just: "\<And>w. J \<Longrightarrow> slot 3 w \<in> USER_SLOTS \<Longrightarrow> justified pt (as_vm s) x w" using assms(1) unfolding space_ok_def by blast
  let ?n = "align_up sz"
  have n: "?n < 2 ^ 63" "0 < ?n" "?n mod 4096 = 0" using assms(2) align_up_bounds[of sz] align_up_mult[of sz] by auto
  obtain r s' where m: "va_map a v off sz fl vaddr s = Some (r, s')" "map_outcome a pt v off ?n fl s r s'"
    using request_outcome[OF assms] by blast
  have u: "undisturbed USER_SLOTS pt (as_vm s) (as_vm s')" and r: "r \<noteq> Panic" using m(2) by (auto simp: map_outcome_def)
  then have ok': "as_ok USER_SLOTS pt (as_vm s')" by (simp add: undisturbed_def)
  have "space_ok (J \<and> r \<noteq> Err VmoFailed) a pt s'"
  proof (cases r)
    case (Err e)
    with m(2) x(1) obtain x' where x': "as_vmars s' a = Some x'" "region_ok x'" "va_page_table x' = Some pt"
      "va_mappings x' = va_mappings x" "e \<noteq> VmoFailed \<Longrightarrow> as_vm s' = as_vm s" by (auto simp: map_outcome_def)
    then have "justified pt (as_vm s') x' w" if "J" "e \<noteq> VmoFailed" "slot 3 w \<in> USER_SLOTS" for w
      using that justified_kept[OF just[OF that(1,3)] u, of x'] by simp
    with x' ok' Err show ?thesis by (auto simp: space_ok_def)
  next
    case (Ok va)
    with m(2) x(1) obtain x' where x': "as_vmars s' a = Some x'" "region_ok x'" "va_page_table x' = Some pt"
      "va_mappings x' = bt_insert va (mapping_of v off ?n fl) (va_mappings x)" and w: "within x va ?n"
      and pages: "\<And>i. i < ?n div 4096 \<Longrightarrow> shows_page USER_SLOTS pt (as_vm s') v ((off + i * 4096) div 4096) fl (va + i * 4096)"
      and others: "\<And>w. slot 3 w \<in> USER_SLOTS \<Longrightarrow> (\<forall>i < ?n div 4096. page_of w \<noteq> page_of (va + i * 4096)) \<Longrightarrow>
        mapped_to (vs_frames (as_vm s')) pt w = mapped_to (vs_frames (as_vm s)) pt w"
      and apart: "\<forall>(k, m) \<in> set (va_mappings x). va + ?n \<le> k \<or> k + mp_size m \<le> va"
      by (auto simp: map_outcome_def)
    have mp: "bt_get (va_mappings x') va = Some (mapping_of v off ?n fl)" using x'(4) by (simp add: bt_get_insert)
    have "justified pt (as_vm s') x' w" if J and sl: "slot 3 w \<in> USER_SLOTS" for w
    proof (cases "\<exists>i < ?n div 4096. page_of w = page_of (va + i * 4096)")
      case True
      then obtain i where i: "i < ?n div 4096" "page_of w = page_of (va + i * 4096)" by blast
      show ?thesis
      proof (cases "mapped_to (vs_frames (as_vm s')) pt w")
        case None
        then show ?thesis by (simp add: justified_def)
      next
        case (Some fg)
        then show ?thesis
          using pages[OF i(1)] mapped_page[OF i(2), of "vs_frames (as_vm s')" pt] mp i
          by (auto simp: shows_page_def mapping_of_def intro!: justifiedI[where k = va and i = i])
      qed
    next
      case False
      have "k \<noteq> va" if "bt_get (va_mappings x) k = Some p" "in_mapping k p w" for k p
        using that n(2) apart bt_get_Some_mem[OF that(1)] by (auto simp: in_mapping_def)
      then show ?thesis
        using justified_kept[OF just[OF \<open>J\<close> sl] u others[OF sl], of x'] False x'(4) by (auto simp: bt_get_insert)
    qed
    with x' ok' show ?thesis by (auto simp: space_ok_def)
  qed (use r in simp)
  with m(1) u r show ?thesis by blast
qed

lemma space_unmap:
  assumes "space_ok J a pt s"
  shows "\<exists>r s'. va_unmap a k sz s = (r, s') \<and> r \<noteq> Panic \<and> undisturbed USER_SLOTS pt (as_vm s) (as_vm s') \<and> space_ok J a pt s'"
proof -
  obtain x where x: "as_vmars s a = Some x" "region_ok x" "va_page_table x = Some pt" and ok: "as_ok USER_SLOTS pt (as_vm s)"
    and just: "\<And>w. J \<Longrightarrow> slot 3 w \<in> USER_SLOTS \<Longrightarrow> justified pt (as_vm s) x w" using assms(1) unfolding space_ok_def by blast
  show ?thesis
  proof (cases "\<exists>m. bt_get (va_mappings x) k = Some m \<and> mp_size m = align_up sz")
    case False
    with va_unmap_refused[OF x(1,2), of k sz] undisturbed_refl[OF ok] assms show ?thesis by auto
  next
    case True
    then obtain m where m: "bt_get (va_mappings x) k = Some m" "mp_size m = align_up sz" by blast
    let ?y = "x\<lparr>va_mappings := bt_remove k (va_mappings x)\<rparr>"
    obtain b where b: "va_unmap a k sz s = (Ok m, as_map_frames b (put_vmar a ?y s))"
      "undisturbed USER_SLOTS pt (as_vm s) ((as_vm s)\<lparr>vs_frames := b\<rparr>)"
      "\<And>w. slot 3 w \<in> USER_SLOTS \<Longrightarrow>
         mapped_to b pt w = (if in_mapping k m w then None else mapped_to (vs_frames (as_vm s)) pt w)"
      using va_unmap_spec[OF x ok m] by blast
    have y: "region_ok ?y" using x(2) by (auto simp: region_ok_def within_def bt_wf_remove bt_get_remove split: if_splits)
    have "justified pt ((as_vm s)\<lparr>vs_frames := b\<rparr>) ?y w" if J and sl: "slot 3 w \<in> USER_SLOTS" for w
    proof (cases "in_mapping k m w")
      case True
      with b(3)[OF sl] show ?thesis by (simp add: justified_def)
    next
      case False
      show ?thesis by (rule justified_kept[OF just[OF \<open>J\<close> sl] b(2)]) (use False b(3)[OF sl] m(1) in \<open>auto simp: bt_get_remove\<close>)
    qed
    with b y x(3) have "space_ok J a pt (as_map_frames b (put_vmar a ?y s))"
      by (simp add: space_ok_def as_map_frames_def put_vmar_def undisturbed_def)
    with b show ?thesis by (simp add: as_map_frames_def put_vmar_def)
  qed
qed

lemma space_protect:
  assumes "space_ok J a pt s"
  shows "\<exists>r s'. va_protect a k sz fl s = (r, s') \<and> r \<noteq> Panic \<and> undisturbed USER_SLOTS pt (as_vm s) (as_vm s') \<and> space_ok J a pt s'"
proof -
  obtain x where x: "as_vmars s a = Some x" "region_ok x" "va_page_table x = Some pt" and ok: "as_ok USER_SLOTS pt (as_vm s)"
    and just: "\<And>w. J \<Longrightarrow> slot 3 w \<in> USER_SLOTS \<Longrightarrow> justified pt (as_vm s) x w" using assms(1) unfolding space_ok_def by blast
  show ?thesis
  proof (cases "bt_get (va_mappings x) k")
    case None
    then have "va_protect a k sz fl s = (Err NotMapped, s)" using x(1) by (simp add: va_protect_def)
    with undisturbed_refl[OF ok] assms show ?thesis by auto
  next
    case (Some m)
    let ?y = "x\<lparr>va_mappings := bt_insert k (m\<lparr>mp_flags := fl\<rparr>) (va_mappings x)\<rparr>"
    obtain b where b: "va_protect a k sz fl s = (Ok (), as_map_frames b (put_vmar a ?y s))"
      "undisturbed USER_SLOTS pt (as_vm s) ((as_vm s)\<lparr>vs_frames := b\<rparr>)"
      "\<And>w. slot 3 w \<in> USER_SLOTS \<Longrightarrow> mapped_to b pt w =
         (if in_mapping k m w then map_option (\<lambda>(f, _). (f, mapping_page_flags fl)) (mapped_to (vs_frames (as_vm s)) pt w)
          else mapped_to (vs_frames (as_vm s)) pt w)"
      using va_protect_spec[OF x ok Some] by blast
    have y: "region_ok ?y" using x(2) Some by (auto simp: region_ok_def within_def bt_wf_insert bt_get_insert split: if_splits)
    have "justified pt ((as_vm s)\<lparr>vs_frames := b\<rparr>) ?y w" if J and sl: "slot 3 w \<in> USER_SLOTS" for w
    proof (cases "in_mapping k m w")
      case False
      show ?thesis
        by (rule justified_kept[OF just[OF \<open>J\<close> sl] b(2)]) (use False b(3)[OF sl] Some in \<open>auto simp: bt_get_insert\<close>)
    next
      case True
      show ?thesis
      proof (cases "mapped_to (vs_frames (as_vm s)) pt w")
        case None
        with b(3)[OF sl] show ?thesis by (simp add: justified_def)
      next
      case fgs: (Some fg)
      then obtain f g where fg: "mapped_to (vs_frames (as_vm s)) pt w = Some (f, g)" by (cases fg) auto
      with just[OF \<open>J\<close> sl] obtain j p i where p: "bt_get (va_mappings x) j = Some p" "i < mp_size p div 4096"
        "page_of w = page_of (j + i * 4096)" "data_frame USER_SLOTS pt (vs_frames (as_vm s)) f"
        "displays (as_vm s) (mp_vmo p, (mp_vmo_offset p + i * 4096) div 4096) (frame_content (vs_frames (as_vm s)) f)"
        by (auto simp: justified_def)
      have "j = k"
        using pages_apart[OF x(2) Some _ region_apart[OF x(2) Some p(1)] _ _ p(2)] True p(3) region_get(1)[OF x(2) p(1)] x(2)
        by (auto simp: within_def region_ok_def)
      with p(1) Some have "j = k" "p = m" by simp_all
      with p b(2) b(3)[OF sl] fg True show ?thesis
        by (intro justifiedI[where k = k and i = i and m = "m\<lparr>mp_flags := fl\<rparr>" and f = f])
          (simp_all add: undisturbed_def bt_get_insert)
      qed
    qed
    with b y x(3) have "space_ok J a pt (as_map_frames b (put_vmar a ?y s))"
      by (simp add: space_ok_def as_map_frames_def put_vmar_def undisturbed_def)
    with b show ?thesis by (simp add: as_map_frames_def put_vmar_def)
  qed
qed


lemma space_do:
  assumes "space_ok J a pt s" and "request_ok (\<lambda>v. vs_vmos (as_vm s) v \<noteq> None) op"
  shows "\<exists>r s'. region_do a op s = Some (r, s') \<and> r \<noteq> Panic \<and> undisturbed USER_SLOTS pt (as_vm s) (as_vm s') \<and>
    space_ok (J \<and> r \<noteq> Err VmoFailed) a pt s'"
proof (cases op)
  case (MapOp v off sz fl vaddr)
  with assms(2) have "request_ok (\<lambda>v. vs_vmos (as_vm s) v \<noteq> None) (MapOp v off sz fl vaddr)" by simp
  from space_map[OF assms(1) this] obtain r s' where r: "va_map a v off sz fl vaddr s = Some (r, s')" "r \<noteq> Panic"
    "undisturbed USER_SLOTS pt (as_vm s) (as_vm s')" "space_ok (J \<and> r \<noteq> Err VmoFailed) a pt s'" by blast
  with MapOp show ?thesis by (cases r) auto
next
  case (UnmapOp k sz)
  from space_unmap[OF assms(1), of k sz] obtain r s' where r: "va_unmap a k sz s = (r, s')" "r \<noteq> Panic"
    "undisturbed USER_SLOTS pt (as_vm s) (as_vm s')" "space_ok J a pt s'" by blast
  then have "space_ok (J \<and> Q) a pt s'" for Q by (auto simp: space_ok_def)
  with r UnmapOp show ?thesis by (cases r) auto
next
  case (ProtectOp k sz fl)
  from space_protect[OF assms(1), of k sz fl] obtain r s' where r: "va_protect a k sz fl s = (r, s')" "r \<noteq> Panic"
    "undisturbed USER_SLOTS pt (as_vm s) (as_vm s')" "space_ok J a pt s'" by blast
  then have "space_ok (J \<and> Q) a pt s'" for Q by (auto simp: space_ok_def)
  with r ProtectOp show ?thesis by auto
qed

lemma request_ok_live: "request_ok live op \<Longrightarrow> (\<And>v. live v \<Longrightarrow> live' v) \<Longrightarrow> request_ok live' op"
  by (cases op) auto

lemma space_run:
  assumes "space_ok J a pt s" and "\<forall>op \<in> set ops. request_ok (\<lambda>v. vs_vmos (as_vm s) v \<noteq> None) op"
  shows "\<exists>rs s'. region_run a ops s = Some (rs, s') \<and> Panic \<notin> set rs \<and> undisturbed USER_SLOTS pt (as_vm s) (as_vm s') \<and>
    space_ok (J \<and> Err VmoFailed \<notin> set rs) a pt s'"
  using assms
proof (induction ops arbitrary: J s)
  case Nil
  then show ?case by (simp add: space_ok_def undisturbed_refl)
next
  case (Cons op ops)
  obtain r s1 where r: "region_do a op s = Some (r, s1)" "r \<noteq> Panic" "undisturbed USER_SLOTS pt (as_vm s) (as_vm s1)"
    "space_ok (J \<and> r \<noteq> Err VmoFailed) a pt s1" using space_do[OF Cons.prems(1), of op] Cons.prems(2) by auto
  have "vs_vmos (as_vm s1) v \<noteq> None" if "vs_vmos (as_vm s) v \<noteq> None" for v
    using that r(3) by (auto simp: undisturbed_def elim: same_shape_Some)
  then have "\<forall>op \<in> set ops. request_ok (\<lambda>v. vs_vmos (as_vm s1) v \<noteq> None) op"
    using Cons.prems(2) by (auto intro: request_ok_live)
  from Cons.IH[OF r(4) this] obtain rs s2 where "region_run a ops s1 = Some (rs, s2)" "Panic \<notin> set rs"
    "undisturbed USER_SLOTS pt (as_vm s1) (as_vm s2)" "space_ok ((J \<and> r \<noteq> Err VmoFailed) \<and> Err VmoFailed \<notin> set rs) a pt s2"
    by blast
  with r undisturbed_trans[OF r(3)] show ?case by (auto simp: eq_commute[of "Err VmoFailed" r])
qed


section \<open>Entries without a mapping\<close>

lemma first_page:
  assumes ok: "as_ok S pt s" and y: "vs_vmos s v = Some y" and span: "page_span_ok S addr off (i # is)"
    and get: "vm_get_page v (off + i * 4096) False s = Some (Ok f, s)" and free: "4 \<le> card (free_frames (vs_frames s))"
    and run: "va_map_loop pt addr v off fl (i # is) s = Some (r, s')"
  shows "mapped_to (vs_frames s') pt (addr + i * 4096) = Some (f, mapping_page_flags fl)"
proof -
  let ?va = "addr + i * 4096" and ?off = "off + i * 4096"
  have lim: "?va < usize_limit" "?off < usize_limit" and sl: "slot 3 ?va \<in> S" and rest: "page_span_ok S addr off is"
    and new: "\<forall>j \<in> set is. page_of ?va \<noteq> page_of (addr + j * 4096)" using span by (auto simp: page_span_ok_def)
  have "data_frame S pt (vs_frames s) f" using get_page_undisturbed[OF ok y, of ?off False] get by auto
  then have pf: "page_address f" by (simp add: data_frame_def)
  obtain b where b: "va_map_page pt ?va f fl (vs_frames s) = (Ok (), b)" "undisturbed S pt s (s\<lparr>vs_frames := b\<rparr>)"
    "takes 3 (vs_frames s) b"
    "(\<forall>w. slot 3 w \<in> S \<longrightarrow> mapped_to b pt w =
        (if page_of w = page_of ?va then Some (f, mapping_page_flags fl) else mapped_to (vs_frames s) pt w)) \<or>
     free_frames b = {} \<and> mapped_to (vs_frames s) pt ?va = None \<and>
       (\<forall>w. slot 3 w \<in> S \<longrightarrow> mapped_to b pt w = mapped_to (vs_frames s) pt w)"
    using map_page_at[OF ok sl pf, of fl] by blast
  have "mapped_to b pt ?va = Some (f, mapping_page_flags fl) \<or> free_frames b = {}"
    using b(4)
  proof
    assume "\<forall>w. slot 3 w \<in> S \<longrightarrow> mapped_to b pt w =
        (if page_of w = page_of ?va then Some (f, mapping_page_flags fl) else mapped_to (vs_frames s) pt w)"
    from this[rule_format, OF sl] show ?thesis by simp
  qed simp
  with b(3) have here: "mapped_to b pt ?va = Some (f, mapping_page_flags fl)" using free by (auto simp: takes_def)
  have ok1: "as_ok S pt (s\<lparr>vs_frames := b\<rparr>)" using b(2) by (simp add: undisturbed_def)
  have "va_map_loop pt addr v off fl is (s\<lparr>vs_frames := b\<rparr>) = Some (r, s')"
    using run get b(1) lim by (simp add: chk_add_eq PAGE_SIZE_def)
  with map_loop_spec[OF ok1 _ rest, of v y fl] y sl new here show ?thesis by auto
qed

lemma va_map_specific:
  assumes x: "as_vmars s a = Some x" "region_ok x" "va_page_table x = Some pt" and u: "contains fl MF_SPECIFIC" "within x u (align_up sz)"
    and apart: "\<forall>(k, m) \<in> set (va_mappings x). u + align_up sz \<le> k \<or> k + mp_size m \<le> u"
  shows "va_map a v off sz fl (Some u) s =
    (case va_map_loop pt u v off fl [0..<align_up sz div 4096] (as_vm s) of
       None \<Rightarrow> None
     | Some (Ok _, vm) \<Rightarrow> Some (Ok u, put_vmar a (x\<lparr>va_mappings := bt_insert u (mapping_of v off (align_up sz) fl) (va_mappings x)\<rparr>)
         (s\<lparr>as_vm := vm\<rparr>))
     | Some (Err e, vm) \<Rightarrow> Some (Err e, s\<lparr>as_vm := vm\<rparr>)
     | Some (Panic, vm) \<Rightarrow> Some (Panic, s\<lparr>as_vm := vm\<rparr>))"
proof -
  have lim: "va_base x \<le> u" "u + align_up sz \<le> va_base x + va_size x" "va_base x + va_size x < usize_limit"
    using u(2) x(2) by (auto simp: within_def region_ok_def)
  then have place: "va_place (align_up sz) fl (Some u) x = (Ok u, x)" using u(1) by (simp add: va_place_def chk_add_eq)
  have "k + mp_size mp < usize_limit" if "(k, mp) \<in> set (va_mappings x)" for k mp
  proof -
    have "bt_get (va_mappings x) k = Some mp" using that x(2) by (simp add: btm.entries_get region_ok_def)
    with x(2) show ?thesis by (fastforce simp: region_ok_def within_def)
  qed
  then have chk: "va_check_overlap u (align_up sz) (va_mappings x) = Ok ()"
    using check_overlap_ok[of "va_mappings x" u "align_up sz"] apart lim by simp
  have same: "(as_vmars s)(a \<mapsto> x) = as_vmars s" using x(1) by (simp add: fun_upd_idem)
  show ?thesis
    using x(1,3) place chk
    by (simp add: va_map_def Let_def PAGE_SIZE_def mapping_of_def same put_vmar_def split: option.splits res.splits)
qed

lemma single_page_map:
  assumes x: "as_vmars s a = Some x" "region_ok x" "va_page_table x = Some pt" and ok: "as_ok USER_SLOTS pt (as_vm s)"
    and u: "contains fl MF_SPECIFIC" "within x u 4096" and apart: "\<forall>(k, m) \<in> set (va_mappings x). u + 4096 \<le> k \<or> k + mp_size m \<le> u"
    and y: "vs_vmos (as_vm s) v = Some y" and get: "vm_get_page v off False (as_vm s) = Some (Ok f, as_vm s)" "off < usize_limit - 4096"
    and free: "4 \<le> card (free_frames (vs_frames (as_vm s)))"
  shows "\<exists>b. va_map a v off 4096 fl (Some u) s =
      Some (Ok u, put_vmar a (x\<lparr>va_mappings := bt_insert u (mapping_of v off 4096 fl) (va_mappings x)\<rparr>)
        (s\<lparr>as_vm := (as_vm s)\<lparr>vs_frames := b\<rparr>\<rparr>)) \<and>
    mapped_to b pt u = Some (f, mapping_page_flags fl)"
proof -
  have n: "align_up 4096 = 4096" by (simp add: align_up_def PAGE_SIZE_def)
  have lim: "u + 4096 \<le> 2 ^ 47" using u(2) x(2) by (auto simp: within_def region_ok_def)
  have span: "page_span_ok USER_SLOTS u off [0]" using span_user[of u 1 off] lim get(2) by simp
  then have sl: "slot 3 u \<in> USER_SLOTS" by (simp add: page_span_ok_def)
  have pf: "page_address f" using get_page_undisturbed[OF ok y, of off False] get(1) by (auto simp: data_frame_def)
  obtain b where b: "va_map_page pt u f fl (vs_frames (as_vm s)) = (Ok (), b)" using map_page_at[OF ok sl pf, of fl] by blast
  have run: "va_map_loop pt u v off fl [0] (as_vm s) = Some (Ok (), (as_vm s)\<lparr>vs_frames := b\<rparr>)"
    using b get lim by (simp add: chk_add_eq)
  from first_page[OF ok y span _ free run] get(1) have "mapped_to b pt u = Some (f, mapping_page_flags fl)" by simp
  moreover have "va_map a v off 4096 fl (Some u) s =
      Some (Ok u, put_vmar a (x\<lparr>va_mappings := bt_insert u (mapping_of v off 4096 fl) (va_mappings x)\<rparr>)
        (s\<lparr>as_vm := (as_vm s)\<lparr>vs_frames := b\<rparr>\<rparr>))"
    using va_map_specific[OF x u(1), of u 4096 v off] u(2) apart run by (simp add: n)
  ultimately show ?thesis by blast
qed

lemma committed_loop:
  assumes "vs_vmos s v = Some y" and "\<forall>pg \<in> set (vm_pages y). \<exists>f b. pg = Committed f b"
    and "va_map_loop pt addr v off fl is s = Some (r, s')"
  shows "vs_vmos s' = vs_vmos s"
  using assms(1,3)
proof (induction "is" arbitrary: s)
  case (Cons i "is")
  have "\<exists>r. vm_get_page v p False s = Some (r, s)" for p
  proof (cases "p div PAGE_SIZE < length (vm_pages y)")
    case True
    with assms(2) obtain f b where "vm_pages y ! (p div PAGE_SIZE) = Committed f b" by (meson nth_mem)
    with True Cons.prems(1) show ?thesis by (simp add: vm_get_page.simps[of v p])
  qed (use Cons.prems(1) in \<open>simp add: vm_get_page.simps[of v p]\<close>)
  then have get: "s1 = s" if "vm_get_page v p False s = Some (r1, s1)" for p r1 s1 using that by (metis option.inject prod.inject)
  from Cons.prems show ?case
    by (auto split: prod.splits res.splits option.splits dest!: get Cons.IH[rotated])
qed simp

text \<open>Giving pages back does not write to frames.\<close>

lemma release_pages_keeps:
  assumes "books_ok fr L" and "\<And>j. j < length pgs \<Longrightarrow> L (v, n + j) = owned (pgs ! j)" and "release_pages pgs fr = Ok fr'"
  shows "buddy_run fr' = buddy_run fr \<and> (\<forall>g x. frame_of fr g \<and> x \<in> frame_bytes g \<longrightarrow> phys_byte fr' x = phys_byte fr x)"
  using assms
proof (induction pgs arbitrary: n L fr)
  case (Cons pg pgs)
  have own: "L (v, n) = owned pg" using Cons.prems(2)[of 0] by simp
  have rest: "L (v, Suc n + j) = owned (pgs ! j)" if "j < length pgs" for j using Cons.prems(2)[of "Suc j"] that by simp
  show ?case
  proof (cases "owned pg")
    case None
    then have "release_page pg fr = Ok fr" by (cases pg rule: owned.cases) (auto simp: release_page_def)
    with Cons.IH[OF Cons.prems(1) rest] Cons.prems(3) show ?thesis by simp
  next
    case (Some f)
    with own have "L (v, n) = Some f" by simp
    from books_return[OF Cons.prems(1) this] obtain fr1 where
      fr1: "buddy_free_one f fr = Ok fr1" "returned fr f fr1" "books_ok fr1 (L((v, n) := None))" by blast
    have rel: "release_page pg fr = Ok fr1" using Some fr1(1) by (simp add: owned_Some_iff release_page_def)
    have rest': "(L((v, n) := None)) (v, Suc n + j) = owned (pgs ! j)" if "j < length pgs" for j using rest[OF that] by simp
    from Cons.IH[OF fr1(3) rest'] Cons.prems(3) rel fr1(2) show ?thesis by (auto simp: returned_def)
  qed
qed simp

lemma drop_frees:
  assumes inv: "vm_inv vm" and led: "ledger (vs_vmos vm) (v, i) = Some f"
    and clones: "\<And>w z. vs_vmos vm w = Some z \<Longrightarrow> vm_parent z \<noteq> Some v"
  shows "\<exists>s'. vm_drop v vm = Ok s' \<and> f \<in> free_frames (vs_frames s')"
proof -
  from vm_drop_spec[OF inv, of v] clones obtain s' where d: "vm_drop v vm = Ok s'" "accounts s' = accounts vm"
    "vs_vmos s' = (vs_vmos vm)(v := None)" by auto
  have "f \<in> accounts vm" using led by (auto simp: accounts_def intro: ranI)
  moreover have "f \<notin> ran (ledger (vs_vmos s'))"
  proof
    assume "f \<in> ran (ledger (vs_vmos s'))"
    then obtain w j where w: "ledger (vs_vmos s') (w, j) = Some f" by (auto simp: ran_def)
    then have "w \<noteq> v" "ledger (vs_vmos vm) (w, j) = Some f" by (auto simp: d(3) ledger_def split: option.splits if_splits)
    with led inv show False unfolding vm_inv_def books_ok_def inj_on_def by (metis domI prod.inject)
  qed
  ultimately show ?thesis using d by (auto simp: accounts_def)
qed

lemma drop_keeps_tables:
  assumes ok: "as_ok S pt s" and drop: "vm_drop v s = Ok s'" and w: "slot 3 w \<in> S"
  shows "mapped_to (vs_frames s') pt w = mapped_to (vs_frames s) pt w"
proof (cases "vs_vmos s v")
  case None
  with drop show ?thesis by (simp add: vm_drop_def)
next
  case (Some x)
  have books: "books_ok (vs_frames s) (ledger (vs_vmos s))" and tree: "tree_ok S (vs_frames s) pt"
    using ok by (auto simp: as_ok_def vm_inv_def)
  have led: "ledger (vs_vmos s) (v, 0 + j) = owned (vm_pages x ! j)" if "j < length (vm_pages x)" for j
    using that Some by (simp add: ledger_page)
  obtain fr where fr: "release_pages (vm_pages x) (vs_frames s) = Ok fr" "vs_frames s' = fr" using drop Some by (auto simp: vm_drop_def)
  note keeps = release_pages_keeps[OF books led fr(1)]
  show ?thesis unfolding fr(2)
  proof (rule tables_same(2)[OF _ w])
    fix g and j :: nat assume "g \<in> tables S (vs_frames s) pt" and j: "j < 512"
    then have "frame_of (vs_frames s) g" using tree_tables[OF tree] by blast
    with keeps j show "entry_at fr g j = entry_at (vs_frames s) g j" by (intro entry_at_frame) auto
  qed
qed


section \<open>An empty address space\<close>

text \<open>A top-level table with no entry in its user half is a tree by itself.\<close>

lemma empty_root:
  assumes none: "\<And>j. j \<in> USER_SLOTS \<Longrightarrow> \<not> entry_present (entry_at b pt j)" and "buddy_inv b" and "frame_of b pt" and "pt \<notin> free_frames b"
    and "\<And>f. frame_of b f \<Longrightarrow> page_address f"
  shows "tree_ok USER_SLOTS b pt" and "tables USER_SLOTS b pt = {pt}" and "slot 3 w \<in> USER_SLOTS \<Longrightarrow> mapped_to b pt w = None"
proof -
  have walks: "walk b pt q = (if q = [] then Some pt else None)" if "q \<in> paths USER_SLOTS" for q
    using that
  proof (induction q rule: rev_induct)
    case (snoc j r)
    then show ?case using none[of j] by (auto simp: paths_snoc walk_snoc step_def split: if_splits)
  qed simp
  show "tree_ok USER_SLOTS b pt" using walks assms by (auto simp: tree_ok_def split: if_splits)
  show "tables USER_SLOTS b pt = {pt}" using walks by (auto simp: tables_def split: if_splits intro: bexI[of _ "[]"])
  assume "slot 3 w \<in> USER_SLOTS"
  then have "path w \<in> paths USER_SLOTS" "path w \<noteq> []" by (simp, simp add: path_def)
  from walks[OF this(1)] this(2) show "mapped_to b pt w = None" by (simp add: mapped_to_def)
qed

section \<open>A sample address space\<close>

text \<open>An area of sixteen pages at \<open>0x200000\<close>, of which four are taken: the usage counters, an empty top-level table and two pages of
  objects. The object 2 is a clone of the object 1.\<close>

definition area_buddy :: buddy where
  "area_buddy = \<lparr>ba_table_virt = 0xFFFF800000000000,
     ba_table = \<lparr>be_base = 0x200000, be_size = 0x10000, be_skip = 1, be_used = 4\<rparr> # replicate 127 be_empty,
     ba_mem = (\<lambda>x. if 0x200000 + PHYS_OFFSET \<le> x \<and> x < 0x200004 + PHYS_OFFSET then 1 else 0)\<rparr>"

definition area_space :: as_sys where
  "area_space = \<lparr>as_vm = \<lparr>vs_frames = area_buddy,
     vs_vmos = [1 \<mapsto> new_vmo 4096 [Committed 0x202000 True] 0 None, 2 \<mapsto> new_vmo 4096 [CopyOnWrite 0] 0 (Some 1),
       3 \<mapsto> new_vmo 4096 [Committed 0x203000 True] 0 None]\<rparr>,
     as_vmars = [9 \<mapsto> va_create_root 0x400000 0x10000000 0x400000 0x201000]\<rparr>"

lemma area_taken:
  "{p. p < 16 \<and> be_taken \<lparr>be_base = 0x200000, be_size = 0x10000, be_skip = 1, be_used = 4\<rparr> (ba_mem area_buddy) p} = {..<4}"
  by (auto simp: be_taken_def be_pages_def be_usage_pages_def page_defs area_buddy_def split: if_splits)

lemma area_buddy_inv: "buddy_inv area_buddy"
proof -
  let ?e = "\<lparr>be_base = 0x200000, be_size = 0x10000, be_skip = 1, be_used = 4\<rparr>"
  have pages: "be_pages ?e = 16" "be_usage_pages ?e = 1" by (simp_all add: be_pages_def be_usage_pages_def page_defs)
  have taken: "be_taken ?e (ba_mem area_buddy) p" if "p < 4" for p using area_taken that by auto
  have "be_ok ?e (ba_mem area_buddy)"
    unfolding be_ok_def pages area_taken using taken[of 0] by (simp add: be_bounded_def phys_limit_def) (simp add: area_buddy_def)
  moreover have "be_range be_empty = {}" by (simp add: be_range_def be_empty_def)
  moreover have "ba_table area_buddy = ?e # replicate 127 be_empty" "ba_table_virt area_buddy = 0xFFFF800000000000"
    by (simp_all add: area_buddy_def)
  ultimately show ?thesis by (simp add: buddy_inv_def table_ok_empty BUDDY_ENTRIES_def PAGE_SIZE_def)
qed

lemma area_free: "free_frames area_buddy = (\<lambda>p. 0x200000 + p * 4096) ` {4..<16}"
proof -
  let ?e = "\<lparr>be_base = 0x200000, be_size = 0x10000, be_skip = 1, be_used = 4\<rparr>"
  have "be_free be_empty m = {}" for m by (simp add: be_free_def be_empty_def be_pages_def page_defs)
  moreover have "be_pages ?e = 16" by (simp add: be_pages_def page_defs)
  then have "be_free ?e (ba_mem area_buddy) = (\<lambda>p. 0x200000 + p * 4096) ` {4..<16}"
    unfolding be_free_def using area_taken by (auto simp: set_eq_iff image_iff not_less) (metis lessThan_iff not_less)+
  moreover have "ba_table area_buddy = ?e # replicate 127 be_empty" by (simp add: area_buddy_def)
  ultimately show ?thesis by (auto simp: free_frames_def table_free_def)
qed

lemma area_frames: "frame_of area_buddy f \<longleftrightarrow> (\<exists>p. 1 \<le> p \<and> p < 16 \<and> f = 0x200000 + p * 4096)"
proof -
  have "ba_table area_buddy = \<lparr>be_base = 0x200000, be_size = 0x10000, be_skip = 1, be_used = 4\<rparr> # replicate 127 be_empty"
    by (simp add: area_buddy_def)
  then show ?thesis by (auto simp: managed_def be_empty_def be_pages_def be_usage_pages_def page_defs)
qed

lemma area_root:
  "tree_ok USER_SLOTS area_buddy 0x201000" "tables USER_SLOTS area_buddy 0x201000 = {0x201000}"
  "slot 3 w \<in> USER_SLOTS \<Longrightarrow> mapped_to area_buddy 0x201000 w = None"
proof -
  have zero: "\<forall>x \<in> frame_bytes 0x201000. phys_byte area_buddy x = 0" by (auto simp: frame_bytes_def phys_byte_def area_buddy_def)
  have "\<not> entry_present (entry_at area_buddy 0x201000 j)" if "j \<in> USER_SLOTS" for j
    using zero_entry[OF zero, of j] that by (simp add: USER_SLOTS_def)
  note empty = empty_root[of area_buddy "0x201000", OF this area_buddy_inv]
  have "frame_of area_buddy 0x201000" "0x201000 \<notin> free_frames area_buddy" "\<And>f. frame_of area_buddy f \<Longrightarrow> page_address f"
    by (auto simp: area_frames area_free page_address_def intro: exI[of _ 1])
  then show "tree_ok USER_SLOTS area_buddy 0x201000" "tables USER_SLOTS area_buddy 0x201000 = {0x201000}"
    "slot 3 w \<in> USER_SLOTS \<Longrightarrow> mapped_to area_buddy 0x201000 w = None"
    using empty by auto
qed

lemma area_vm_inv: "vm_inv (as_vm area_space)"
proof -
  have led: "ledger (vs_vmos (as_vm area_space)) = [(1, 0) \<mapsto> 0x202000, (3, 0) \<mapsto> 0x203000]"
    by (auto simp: ledger_def area_space_def new_vmo_def fun_eq_iff)
  have "ranked id (vs_vmos (as_vm area_space))"
    by (auto simp: ranked_def area_space_def new_vmo_def split: if_splits)
  then have "heap_ok R (vs_vmos (as_vm area_space))" for R
    by (auto simp: heap_ok_def vmo_ok_def area_space_def new_vmo_def split: if_splits)
  moreover have "books_ok area_buddy [(1 :: oid, 0 :: nat) \<mapsto> 0x202000, (3, 0) \<mapsto> 0x203000]"
    using area_buddy_inv area_free by (auto simp: books_ok_def area_frames inj_on_def image_iff)
  ultimately show ?thesis unfolding vm_inv_def led by (simp add: area_space_def)
qed

lemma area_space_ok: "space_ok True 9 0x201000 area_space"
proof -
  have "ledger (vs_vmos (as_vm area_space)) = [(1, 0) \<mapsto> 0x202000, (3, 0) \<mapsto> 0x203000]"
    by (auto simp: ledger_def area_space_def new_vmo_def fun_eq_iff)
  moreover have "devices_aligned (as_vm area_space)"
    by (auto simp: devices_aligned_def area_space_def new_vmo_def split: if_splits)
  moreover have fr: "vs_frames (as_vm area_space) = area_buddy" by (simp add: area_space_def)
  ultimately have "as_ok USER_SLOTS 0x201000 (as_vm area_space)"
    using area_vm_inv area_root(1,2) by (auto simp: as_ok_def)
  moreover have "as_vmars area_space 9 = Some (va_create_root 0x400000 0x10000000 0x400000 0x201000)" by (simp add: area_space_def)
  moreover have "region_ok (va_create_root 0x400000 0x10000000 0x400000 0x201000)"
    by (simp add: va_create_root_def region_ok_def)
  ultimately show ?thesis
    using area_root(3) unfolding space_ok_def by (auto simp: justified_def fr va_create_root_def)
qed


lemma area_card: "card (free_frames (vs_frames (as_vm area_space))) = 12"
proof -
  have "vs_frames (as_vm area_space) = area_buddy" by (simp add: area_space_def)
  moreover have "inj_on (\<lambda>p :: nat. 0x200000 + p * 4096) {4..<16}" by (simp add: inj_on_def)
  ultimately show ?thesis by (simp add: area_free card_image)
qed

section \<open>Properties\<close>

text \<open>C9: page tables tell the truth about mappings. From a region whose entries are justified, any sequence of \<open>map\<close>, \<open>unmap\<close> and
  \<open>protect\<close> requests, in which the requests to map name an existing object, ask for at least one byte and have size, offset and address below \<open>2 ^ 62\<close>, returns without panic, changes nothing that any object shows,
  loses no frame and, unless one of the requests ended in a failure of the object, leaves every present entry justified: it belongs to a recorded
  mapping, carries the flags of that mapping, and its frame is no page table, is not free and holds what the object shows at that place.\<close>

theorem address_space_faithful:
  assumes "space_ok True a pt s" and "\<forall>op \<in> set ops. request_ok (\<lambda>v. vs_vmos (as_vm s) v \<noteq> None) op"
  shows "\<exists>rs s'. region_run a ops s = Some (rs, s') \<and> Panic \<notin> set rs \<and> undisturbed USER_SLOTS pt (as_vm s) (as_vm s') \<and>
    (Err VmoFailed \<notin> set rs \<longrightarrow> space_ok True a pt s')"
  using space_run[OF assms] by auto

theorem address_space_faithful_witness:
  "\<exists>rs s'. region_run 9 [MapOp 1 0 4096 0xB (Some 0x500000), MapOp 3 0 100 3 None, ProtectOp 0x500000 4096 1, UnmapOp 0x400000 4096]
       area_space = Some (rs, s') \<and> Panic \<notin> set rs \<and> undisturbed USER_SLOTS 0x201000 (as_vm area_space) (as_vm s')"
proof -
  have "\<forall>op \<in> set [MapOp 1 0 4096 0xB (Some 0x500000), MapOp 3 0 100 3 None, ProtectOp 0x500000 4096 1, UnmapOp 0x400000 4096].
      request_ok (\<lambda>v. vs_vmos (as_vm area_space) v \<noteq> None) op"
    by (simp add: area_space_def)
  from address_space_faithful[OF area_space_ok this] show ?thesis by blast
qed

text \<open>What a mapping shows. A request to map a part of an object either is refused with the region's records unchanged, and with the whole state
  unchanged unless the object failed, or records exactly the new mapping at an address range inside the region that meets no other mapping;
  then each of its pages has an entry with the requested flags whose frame holds what the object shows at that place (only when memory has run out
  may a page be left without an entry), and the entries of all other user pages are as before.\<close>

theorem vmar_map_shows:
  assumes "space_ok J a pt s" and "request_ok (\<lambda>v. vs_vmos (as_vm s) v \<noteq> None) (MapOp v off sz fl vaddr)"
  shows "\<exists>r s'. va_map a v off sz fl vaddr s = Some (r, s') \<and> map_outcome a pt v off (align_up sz) fl s r s'"
  by (rule request_outcome[OF assms])

theorem vmar_map_shows_witness:
  "\<exists>r s'. va_map 9 1 0 4096 3 None area_space = Some (r, s') \<and> map_outcome 9 0x201000 1 0 (align_up 4096) 3 area_space r s'"
proof -
  have "request_ok (\<lambda>v. vs_vmos (as_vm area_space) v \<noteq> None) (MapOp 1 0 4096 3 None)" by (simp add: area_space_def)
  from vmar_map_shows[OF area_space_ok this] show ?thesis .
qed

text \<open>C38: a failed mapping leaves its entries behind. When an object whose pages are all committed is mapped beyond its end, the call fails, no
  mapping is recorded, and yet the pages before the end stay mapped; once the object is dropped, its first frame is free while the page table
  still gives user code access to it.\<close>

theorem failed_map_use_after_free:
  assumes sp: "space_ok J a pt s" and x: "as_vmars s a = Some x" and fl: "contains fl MF_SPECIFIC" and u: "within x u (align_up sz)"
    and apart: "\<forall>(k, m) \<in> set (va_mappings x). u + align_up sz \<le> k \<or> k + mp_size m \<le> u"
    and y: "vs_vmos (as_vm s) v = Some y" "\<forall>pg \<in> set (vm_pages y). \<exists>f b. pg = Committed f b" "0 < length (vm_pages y)"
      "vm_pages y ! 0 = Committed f True"
    and beyond: "vm_size y < align_up sz" and free: "4 \<le> card (free_frames (vs_frames (as_vm s)))"
    and clones: "\<forall>w z. vs_vmos (as_vm s) w = Some z \<longrightarrow> vm_parent z \<noteq> Some v"
  shows "\<exists>s1 s2. va_map a v 0 sz fl (Some u) s = Some (Err VmoFailed, s1) \<and> as_vmars s1 = as_vmars s \<and>
    vm_drop v (as_vm s1) = Ok s2 \<and> f \<in> free_frames (vs_frames s2) \<and>
    mapped_to (vs_frames s2) pt u = Some (f, mapping_page_flags fl)"
proof -
  let ?n = "align_up sz"
  obtain ok: "as_ok USER_SLOTS pt (as_vm s)" and r: "region_ok x" "va_page_table x = Some pt"
    using sp x unfolding space_ok_def by auto
  have inv: "vm_inv (as_vm s)" using ok by (simp add: as_ok_def)
  then have vmo: "vm_size y = length (vm_pages y) * 4096" using y(1) by (auto simp: vm_inv_def heap_ok_def vmo_ok_def)
  have cnt: "?n div 4096 * 4096 = ?n" using align_up_mult[of sz] by (simp add: mod_eq_0_iff_dvd)
  have len: "length (vm_pages y) < ?n div 4096" using beyond vmo cnt by simp
  have lim: "u + ?n \<le> 2 ^ 47" using u r(1) by (auto simp: within_def region_ok_def)
  have span: "page_span_ok USER_SLOTS u 0 [0..<?n div 4096]" by (rule span_user) (use lim cnt in simp_all)
  obtain r1 vm where l: "va_map_loop pt u v 0 fl [0..<?n div 4096] (as_vm s) = Some (r1, vm)" "r1 \<in> {Ok (), Err VmoFailed}"
    "undisturbed USER_SLOTS pt (as_vm s) vm" "r1 = Ok () \<Longrightarrow> \<forall>i < ?n div 4096. i < length (vm_pages y)"
    using map_loop_spec[OF ok y(1) span, of fl] by auto
  with len have r1: "r1 = Err VmoFailed" by auto
  have same: "vs_vmos vm = vs_vmos (as_vm s)" by (rule committed_loop[OF y(1,2) l(1)])
  have "[0..<?n div 4096] = 0 # [1..<?n div 4096]" using len y(3) by (simp add: upt_conv_Cons)
  then have m: "mapped_to (vs_frames vm) pt u = Some (f, mapping_page_flags fl)"
    using first_page[OF ok y(1), where addr = u and off = 0 and i = 0 and ?is = "[1..<?n div 4096]" and f = f and fl = fl and r = r1 and s' = vm] span l(1) y free
    by (simp add: vm_get_page.simps[of v 0])
  let ?s1 = "s\<lparr>as_vm := vm\<rparr>"
  have call: "va_map a v 0 sz fl (Some u) s = Some (Err VmoFailed, ?s1)"
    using va_map_specific[OF x r fl u apart, of v 0] l(1) r1 by simp
  have ok1: "as_ok USER_SLOTS pt vm" using l(3) by (simp add: undisturbed_def)
  then have "vm_inv vm" by (simp add: as_ok_def)
  moreover have "ledger (vs_vmos vm) (v, 0) = Some f" using y same by (simp add: ledger_page)
  ultimately obtain s2 where d: "vm_drop v vm = Ok s2" "f \<in> free_frames (vs_frames s2)"
    using drop_frees[of vm v 0 f] clones same by auto
  have "\<forall>i \<in> set [0..<?n div 4096]. slot 3 (u + i * 4096) \<in> USER_SLOTS" using span by (simp add: page_span_ok_def)
  from bspec[OF this, of 0] have "slot 3 u \<in> USER_SLOTS" using len by simp
  then show ?thesis using call d m drop_keeps_tables[OF ok1 d(1), of u] by auto
qed

theorem failed_map_use_after_free_witness:
  "\<exists>s1 s2. va_map 9 3 0 8192 0xB (Some 0x500000) area_space = Some (Err VmoFailed, s1) \<and> vm_drop 3 (as_vm s1) = Ok s2 \<and>
     0x203000 \<in> free_frames (vs_frames s2) \<and> mapped_to (vs_frames s2) 0x201000 0x500000 = Some (0x203000, mapping_page_flags 0xB)"
proof -
  let ?x = "va_create_root 0x400000 0x10000000 0x400000 0x201000" and ?y = "new_vmo 4096 [Committed 0x203000 True] 0 None"
  have n: "align_up 8192 = 8192" by (simp add: align_up_def PAGE_SIZE_def)
  have "as_vmars area_space 9 = Some ?x" "contains 0xB MF_SPECIFIC" "within ?x 0x500000 (align_up 8192)"
    "\<forall>(k, m) \<in> set (va_mappings ?x). 0x500000 + align_up 8192 \<le> k \<or> k + mp_size m \<le> 0x500000"
    by (simp_all add: area_space_def contains_def MF_SPECIFIC_def within_def va_create_root_def n)
  moreover have "vs_vmos (as_vm area_space) 3 = Some ?y" "\<forall>pg \<in> set (vm_pages ?y). \<exists>f b. pg = Committed f b" "0 < length (vm_pages ?y)"
    "vm_pages ?y ! 0 = Committed 0x203000 True" "vm_size ?y < align_up 8192"
    "4 \<le> card (free_frames (vs_frames (as_vm area_space)))"
    using area_card by (auto simp: area_space_def new_vmo_def n)
  moreover have "\<forall>w z. vs_vmos (as_vm area_space) w = Some z \<longrightarrow> vm_parent z \<noteq> Some 3"
    by (auto simp: area_space_def new_vmo_def split: if_splits)
  ultimately show ?thesis using failed_map_use_after_free[OF area_space_ok] by blast
qed


text \<open>A mapping of no bytes wipes out a record. The overlap test lets a request for zero bytes at the address of an existing mapping pass:
  the record is replaced by an empty one, the page table is not touched, and the entries can no longer be removed, although the reference that kept
  the object alive is gone.\<close>

theorem empty_map_forgets_mapping:
  assumes sp: "space_ok J a pt s" and x: "as_vmars s a = Some x" and fl: "contains fl MF_SPECIFIC"
    and m: "bt_get (va_mappings x) k = Some m" "0 < mp_size m"
  shows "\<exists>s'. va_map a v off 0 fl (Some k) s = Some (Ok k, s') \<and> as_vm s' = as_vm s \<and>
    as_vmars s' a = Some (x\<lparr>va_mappings := bt_insert k (mapping_of v off 0 fl) (va_mappings x)\<rparr>) \<and>
    va_unmap a k (mp_size m) s' = (Err InvalidArgs, s')"
proof -
  have r: "region_ok x" "va_page_table x = Some pt" using sp x unfolding space_ok_def by auto
  have w: "within x k (mp_size m)" by (rule region_get(1)[OF r(1) m(1)])
  have z: "align_up 0 = 0" by (simp add: align_up_def PAGE_SIZE_def)
  have wf: "bt_wf (va_mappings x)" using r(1) by (simp add: region_ok_def)
  have "k + align_up 0 \<le> j \<or> j + mp_size p \<le> k" if "(j, p) \<in> set (va_mappings x)" for j p
  proof (cases "j = k")
    case False
    have "bt_get (va_mappings x) j = Some p" using that wf by (simp add: btm.entries_get)
    from region_apart[OF r(1) m(1) this] False show ?thesis by (auto simp: z)
  qed (simp add: z)
  then have apart: "\<forall>(j, p) \<in> set (va_mappings x). k + align_up 0 \<le> j \<or> j + mp_size p \<le> k" by blast
  let ?y = "x\<lparr>va_mappings := bt_insert k (mapping_of v off 0 fl) (va_mappings x)\<rparr>"
  have w0: "within x k (align_up 0)" using w by (simp add: within_def z)
  from va_map_specific[OF x r fl w0 apart, of v off]
  have call: "va_map a v off 0 fl (Some k) s = Some (Ok k, put_vmar a ?y s)" by (simp add: z)
  have n: "align_up (mp_size m) \<noteq> 0"
    using align_up_bounds(2)[OF m(2)] by simp
  have "region_ok (x\<lparr>va_next_alloc := va_next_alloc x, va_mappings := bt_insert k (mapping_of v off 0 fl) (va_mappings x)\<rparr>)"
    by (rule region_insert[OF r(1) w0 apart]) (use r(1) in \<open>simp_all add: region_ok_def mapping_of_def z\<close>)
  then have "region_ok ?y" by simp
  from va_unmap_refused[of "put_vmar a ?y s" a ?y k "mp_size m", OF _ this] n
  have "va_unmap a k (mp_size m) (put_vmar a ?y s) = (Err InvalidArgs, put_vmar a ?y s)"
    by (simp add: put_vmar_def bt_get_insert mapping_of_def)
  with call show ?thesis by (simp add: put_vmar_def)
qed

theorem empty_map_forgets_mapping_witness:
  "\<exists>s1 s2. va_map 9 1 0 4096 0xB (Some 0x500000) area_space = Some (Ok 0x500000, s1) \<and>
     va_map 9 3 0 0 0xB (Some 0x500000) s1 = Some (Ok 0x500000, s2) \<and> va_unmap 9 0x500000 4096 s2 = (Err InvalidArgs, s2)"
proof -
  let ?x = "va_create_root 0x400000 0x10000000 0x400000 0x201000" and ?y = "new_vmo 4096 [Committed 0x202000 True] 0 None"
  have x: "as_vmars area_space 9 = Some ?x" "region_ok ?x" "va_page_table ?x = Some 0x201000" "as_ok USER_SLOTS 0x201000 (as_vm area_space)"
    using area_space_ok by (auto simp: space_ok_def area_space_def va_create_root_def)
  have fl: "contains 0xB MF_SPECIFIC" by (simp add: contains_def MF_SPECIFIC_def)
  have y: "vs_vmos (as_vm area_space) 1 = Some ?y" by (simp add: area_space_def)
  have get: "vm_get_page 1 0 False (as_vm area_space) = Some (Ok 0x202000, as_vm area_space)"
    using y by (subst vm_get_page.simps) (simp add: new_vmo_def)
  obtain b where call: "va_map 9 1 0 4096 0xB (Some 0x500000) area_space =
      Some (Ok 0x500000, put_vmar 9 (?x\<lparr>va_mappings := bt_insert 0x500000 (mapping_of 1 0 4096 0xB) (va_mappings ?x)\<rparr>)
        (area_space\<lparr>as_vm := (as_vm area_space)\<lparr>vs_frames := b\<rparr>\<rparr>))"
    using single_page_map[OF x fl _ _ y get, where u = "0x500000"] area_card by (auto simp: within_def va_create_root_def)
  let ?s = "put_vmar 9 (?x\<lparr>va_mappings := bt_insert 0x500000 (mapping_of 1 0 4096 0xB) (va_mappings ?x)\<rparr>)
        (area_space\<lparr>as_vm := (as_vm area_space)\<lparr>vs_frames := b\<rparr>\<rparr>)"
  have "request_ok (\<lambda>v. vs_vmos (as_vm area_space) v \<noteq> None) (MapOp 1 0 4096 0xB (Some 0x500000))"
    by (simp add: area_space_def)
  from space_map[OF area_space_ok this] call have sp: "space_ok True 9 0x201000 ?s" by simp
  from empty_map_forgets_mapping[OF sp, of _ "0xB" "0x500000" "mapping_of 1 0 4096 0xB" 3 0] call fl show ?thesis
    by (auto simp: put_vmar_def bt_get_insert mapping_of_def)
qed

text \<open>A writable mapping of a clone writes to its parent. When the page of a copy-on-write clone has not been copied yet, \<open>map\<close> asks the object
  for the page without announcing a write, so that a mapping with the write flag gives user code a writable entry for the frame that is the parent's
  page.\<close>

theorem clone_mapped_writable:
  assumes sp: "space_ok J a pt s" and x: "as_vmars s a = Some x" and fl: "contains fl MF_SPECIFIC" "contains fl MF_WRITE"
    and u: "within x u 4096" and apart: "\<forall>(k, m) \<in> set (va_mappings x). u + 4096 \<le> k \<or> k + mp_size m \<le> u"
    and y: "vs_vmos (as_vm s) v = Some y" "i < length (vm_pages y)" "vm_pages y ! i = CopyOnWrite po" "vm_parent y = Some p"
    and z: "vs_vmos (as_vm s) p = Some z" "po div 4096 < length (vm_pages z)" "vm_pages z ! (po div 4096) = Committed f b"
    and free: "4 \<le> card (free_frames (vs_frames (as_vm s)))"
  shows "\<exists>s' g. va_map a v (i * 4096) 4096 fl (Some u) s = Some (Ok u, s') \<and> vs_vmos (as_vm s') = vs_vmos (as_vm s) \<and>
    mapped_to (vs_frames (as_vm s')) pt u = Some (f, g) \<and> pf_has_write g"
proof -
  have r: "region_ok x" "va_page_table x = Some pt" "as_ok USER_SLOTS pt (as_vm s)" using sp x unfolding space_ok_def by auto
  have "vmo_ok (table_range (ba_table (vs_frames (as_vm s)))) y" using r(3) y(1) unfolding as_ok_def vm_inv_def heap_ok_def by blast
  then have size: "length (vm_pages y) * 4096 < usize_limit" unfolding vmo_ok_def by simp
  have get: "vm_get_page v (i * 4096) False (as_vm s) = Some (Ok f, as_vm s)"
    using y z by (simp add: vm_get_page.simps[of v "i * 4096"] vm_get_page.simps[of p po] PAGE_SIZE_def)
  have "i * 4096 < usize_limit - 4096" using size y(2) by simp
  from single_page_map[OF x r fl(1) u apart y(1) get this free] obtain b' where
    call: "va_map a v (i * 4096) 4096 fl (Some u) s =
      Some (Ok u, put_vmar a (x\<lparr>va_mappings := bt_insert u (mapping_of v (i * 4096) 4096 fl) (va_mappings x)\<rparr>)
        (s\<lparr>as_vm := (as_vm s)\<lparr>vs_frames := b'\<rparr>\<rparr>))" "mapped_to b' pt u = Some (f, mapping_page_flags fl)" by blast
  with call writable_flags[OF fl(2)] show ?thesis by (auto simp: put_vmar_def)
qed

theorem clone_mapped_writable_witness:
  "\<exists>s' g. va_map 9 2 0 4096 0xB (Some 0x500000) area_space = Some (Ok 0x500000, s') \<and>
     mapped_to (vs_frames (as_vm s')) 0x201000 0x500000 = Some (0x202000, g) \<and> pf_has_write g"
proof -
  let ?x = "va_create_root 0x400000 0x10000000 0x400000 0x201000" and ?y = "new_vmo 4096 [CopyOnWrite 0] 0 (Some 1)"
    and ?z = "new_vmo 4096 [Committed 0x202000 True] 0 None"
  have "as_vmars area_space 9 = Some ?x" "contains 0xB MF_SPECIFIC" "contains 0xB MF_WRITE" "within ?x 0x500000 4096"
    "\<forall>(k, m) \<in> set (va_mappings ?x). 0x500000 + 4096 \<le> k \<or> k + mp_size m \<le> 0x500000"
    by (simp_all add: area_space_def contains_def MF_SPECIFIC_def MF_WRITE_def within_def va_create_root_def)
  moreover have "vs_vmos (as_vm area_space) 2 = Some ?y" "0 < length (vm_pages ?y)" "vm_pages ?y ! 0 = CopyOnWrite 0" "vm_parent ?y = Some 1"
    "vs_vmos (as_vm area_space) 1 = Some ?z" "0 div 4096 < length (vm_pages ?z)" "vm_pages ?z ! (0 div 4096) = Committed 0x202000 True"
    "4 \<le> card (free_frames (vs_frames (as_vm area_space)))"
    using area_card by (auto simp: area_space_def new_vmo_def)
  ultimately show ?thesis using clone_mapped_writable[OF area_space_ok, of ?x "0xB" "0x500000" 2 ?y 0 0 1 ?z "0x202000" True] by simp blast
qed

end
