(* ===== verification/Elf.thy ===== *)
theory Elf
  imports Bytes
begin

text \<open>
  The ELF parser: \<open>kernel/src/loader/elf.rs\<close> (\<open>init/src/elf.rs\<close> is the same file), for the x86-64 target. A file is a
  list of bytes; the references the parser casts into it are read field by field at the offsets the \<open>repr(C)\<close> layouts
  give. The additions and the multiplication on offsets panic on overflow.
\<close>

section \<open>Constants and enumerations\<close>

definition ELF_MAGIC :: "u8 list" where
  "ELF_MAGIC = [0x7f, 0x45, 0x4c, 0x46]"

datatype elf_class = ClassNone | Elf32 | Elf64

definition elf_class_value :: "elf_class \<Rightarrow> u8" where
  "elf_class_value c = (case c of ClassNone \<Rightarrow> 0 | Elf32 \<Rightarrow> 1 | Elf64 \<Rightarrow> 2)"

datatype elf_data = DataNone | Lsb | Msb

definition elf_data_value :: "elf_data \<Rightarrow> u8" where
  "elf_data_value d = (case d of DataNone \<Rightarrow> 0 | Lsb \<Rightarrow> 1 | Msb \<Rightarrow> 2)"

datatype elf_type = TypeNone | Relocatable | Executable | SharedObject | Core

definition elf_type_from :: "u16 \<Rightarrow> elf_type" where
  "elf_type_from v =
     (if v = 1 then Relocatable else if v = 2 then Executable else if v = 3 then SharedObject
      else if v = 4 then Core else TypeNone)"

datatype elf_machine = MachineNone | X86_64 | AArch64 | RiscV | LoongArch

definition elf_machine_from :: "u16 \<Rightarrow> elf_machine" where
  "elf_machine_from v =
     (if v = 62 then X86_64 else if v = 183 then AArch64 else if v = 243 then RiscV
      else if v = 258 then LoongArch else MachineNone)"

datatype segment_type = SegNull | Load | Dynamic | Interp | Note | Shlib | Phdr | Tls | GnuEhFrame | GnuStack | GnuRelro

definition segment_type_from :: "u32 \<Rightarrow> segment_type" where
  "segment_type_from v =
     (if v = 0 then SegNull else if v = 1 then Load else if v = 2 then Dynamic else if v = 3 then Interp
      else if v = 4 then Note else if v = 5 then Shlib else if v = 6 then Phdr else if v = 7 then Tls
      else if v = 0x6474e550 then GnuEhFrame else if v = 0x6474e551 then GnuStack
      else if v = 0x6474e552 then GnuRelro else SegNull)"

type_synonym segment_flags = u32

definition SEG_READ :: segment_flags where "SEG_READ = 1"
definition SEG_WRITE :: segment_flags where "SEG_WRITE = 2"
definition SEG_EXECUTE :: segment_flags where "SEG_EXECUTE = 4"

definition segment_flags_from_bits_truncate :: "u32 \<Rightarrow> segment_flags" where
  "segment_flags_from_bits_truncate v = from_bits_truncate (SEG_READ OR SEG_WRITE OR SEG_EXECUTE) v"

datatype elf_error =
    InvalidMagic
  | Not64Bit
  | InvalidEndian
  | NotExecutable
  | WrongArchitecture
  | FileTooSmall
  | InvalidProgramHeader
  | SegmentOutOfBounds

section \<open>Headers\<close>

record elf_header =
  eh_magic :: "u8 list"
  eh_class :: u8
  eh_data :: u8
  eh_version :: u8
  eh_os_abi :: u8
  eh_abi_version :: u8
  eh_padding :: "u8 list"
  eh_elf_type :: u16
  eh_machine :: u16
  eh_elf_version :: u32
  eh_entry :: u64
  eh_phoff :: u64
  eh_shoff :: u64
  eh_flags :: u32
  eh_ehsize :: u16
  eh_phentsize :: u16
  eh_phnum :: u16
  eh_shentsize :: u16
  eh_shnum :: u16
  eh_shstrndx :: u16

definition EH_SIZE :: nat where "EH_SIZE = 64"

text \<open>The cast of the first 64 bytes to \<open>Elf64Header\<close>.\<close>

definition read_header :: "u8 list \<Rightarrow> elf_header" where
  "read_header bs =
     \<lparr>eh_magic = take 4 bs, eh_class = field bs 4 1, eh_data = field bs 5 1, eh_version = field bs 6 1,
      eh_os_abi = field bs 7 1, eh_abi_version = field bs 8 1, eh_padding = take 7 (drop 9 bs),
      eh_elf_type = field bs 16 2, eh_machine = field bs 18 2, eh_elf_version = field bs 20 4,
      eh_entry = field bs 24 8, eh_phoff = field bs 32 8, eh_shoff = field bs 40 8, eh_flags = field bs 48 4,
      eh_ehsize = field bs 52 2, eh_phentsize = field bs 54 2, eh_phnum = field bs 56 2,
      eh_shentsize = field bs 58 2, eh_shnum = field bs 60 2, eh_shstrndx = field bs 62 2\<rparr>"

definition eh_validate :: "elf_header \<Rightarrow> (elf_error, unit) res" where
  "eh_validate h =
     (if eh_magic h \<noteq> ELF_MAGIC then Err InvalidMagic
      else if eh_class h \<noteq> elf_class_value Elf64 then Err Not64Bit
      else if eh_data h \<noteq> elf_data_value Lsb then Err InvalidEndian
      else let ty = elf_type_from (eh_elf_type h)
           in if ty \<noteq> Executable \<and> ty \<noteq> SharedObject then Err NotExecutable
              else if elf_machine_from (eh_machine h) \<noteq> X86_64 then Err WrongArchitecture
              else Ok ())"

definition eh_type :: "elf_header \<Rightarrow> elf_type" where
  "eh_type h = elf_type_from (eh_elf_type h)"

definition eh_machine_kind :: "elf_header \<Rightarrow> elf_machine" where
  "eh_machine_kind h = elf_machine_from (eh_machine h)"

record program_header =
  ph_seg_type :: u32
  ph_flags :: u32
  ph_offset :: u64
  ph_vaddr :: u64
  ph_paddr :: u64
  ph_filesz :: u64
  ph_memsz :: u64
  ph_align :: u64

definition PH_SIZE :: nat where "PH_SIZE = 56"

definition read_program_header :: "u8 list \<Rightarrow> program_header" where
  "read_program_header bs =
     \<lparr>ph_seg_type = field bs 0 4, ph_flags = field bs 4 4, ph_offset = field bs 8 8, ph_vaddr = field bs 16 8,
      ph_paddr = field bs 24 8, ph_filesz = field bs 32 8, ph_memsz = field bs 40 8, ph_align = field bs 48 8\<rparr>"

definition ph_type :: "program_header \<Rightarrow> segment_type" where
  "ph_type ph = segment_type_from (ph_seg_type ph)"

definition ph_segment_flags :: "program_header \<Rightarrow> segment_flags" where
  "ph_segment_flags ph = segment_flags_from_bits_truncate (ph_flags ph)"

definition ph_is_load :: "program_header \<Rightarrow> bool" where
  "ph_is_load ph \<longleftrightarrow> ph_type ph = Load"

section \<open>The parser\<close>

record elf_parser =
  ep_data :: "u8 list"
  ep_header :: elf_header

definition elf_parse :: "u8 list \<Rightarrow> (elf_error, elf_parser) res" where
  "elf_parse bs =
     (if length bs < EH_SIZE then Err FileTooSmall
      else let h = read_header bs
           in bind_res (eh_validate h) (\<lambda>_. Ok \<lparr>ep_data = bs, ep_header = h\<rparr>))"

definition elf_entry_point :: "elf_parser \<Rightarrow> u64" where
  "elf_entry_point p = eh_entry (ep_header p)"

definition elf_is_pie :: "elf_parser \<Rightarrow> bool" where
  "elf_is_pie p \<longleftrightarrow> eh_type (ep_header p) = SharedObject"

subsection \<open>Program headers\<close>

record ph_iter =
  it_data :: "u8 list"
  it_offset :: nat
  it_entry_size :: nat
  it_count :: nat
  it_index :: nat

definition elf_program_headers :: "elf_parser \<Rightarrow> ph_iter" where
  "elf_program_headers p =
     \<lparr>it_data = ep_data p, it_offset = unat (eh_phoff (ep_header p)), it_entry_size = unat (eh_phentsize (ep_header p)),
      it_count = unat (eh_phnum (ep_header p)), it_index = 0\<rparr>"

definition it_next :: "ph_iter \<Rightarrow> (elf_error, program_header option \<times> ph_iter) res" where
  "it_next it =
     (if it_index it \<ge> it_count it then Ok (None, it)
      else bind_res (chk_mul (it_index it) (it_entry_size it)) (\<lambda>d.
           bind_res (chk_add (it_offset it) d) (\<lambda>ph_off.
           bind_res (chk_add ph_off PH_SIZE) (\<lambda>ph_end.
             if ph_end > length (it_data it) then Ok (None, it)
             else Ok (Some (read_program_header (drop ph_off (it_data it))), it\<lparr>it_index := it_index it + 1\<rparr>)))))"

lemma it_next_Some:
  "it_next it = Ok (Some ph, it') \<Longrightarrow> it_index it < it_count it \<and> it' = it\<lparr>it_index := Suc (it_index it)\<rparr>"
  by (auto simp: it_next_def split: if_splits)

text \<open>What a loop over the iterator sees: the headers up to the first one that is missing.\<close>

function it_collect :: "ph_iter \<Rightarrow> (elf_error, program_header list) res" where
  "it_collect it =
     (case it_next it of
        Ok (None, it') \<Rightarrow> Ok []
      | Ok (Some ph, it') \<Rightarrow> bind_res (it_collect it') (\<lambda>phs. Ok (ph # phs))
      | Err e \<Rightarrow> Err e
      | Panic \<Rightarrow> Panic)"
  by pat_completeness auto
termination
  by (relation "measure (\<lambda>it. it_count it - it_index it)") (auto dest!: it_next_Some)

declare it_collect.simps [simp del]

subsection \<open>Segments\<close>

record load_segment =
  ls_vaddr :: nat
  ls_memsz :: nat
  ls_filesz :: nat
  ls_offset :: nat
  ls_flags :: segment_flags
  ls_data :: "u8 list option"

definition segment_data :: "u8 list \<Rightarrow> program_header \<Rightarrow> (elf_error, u8 list option) res" where
  "segment_data bs ph =
     (if ph_filesz ph > 0 then
        bind_res (chk_add (unat (ph_offset ph)) (unat (ph_filesz ph))) (\<lambda>end.
          if end \<le> length bs then Ok (Some (take (unat (ph_filesz ph)) (drop (unat (ph_offset ph)) bs)))
          else Ok None)
      else Ok None)"

definition load_segment_of :: "u8 list \<Rightarrow> program_header \<Rightarrow> (elf_error, load_segment) res" where
  "load_segment_of bs ph =
     bind_res (segment_data bs ph) (\<lambda>d.
       Ok \<lparr>ls_vaddr = unat (ph_vaddr ph), ls_memsz = unat (ph_memsz ph), ls_filesz = unat (ph_filesz ph),
           ls_offset = unat (ph_offset ph), ls_flags = ph_segment_flags ph, ls_data = d\<rparr>)"

text \<open>A loop over \<open>load_segments\<close> pulls a header, skips it unless it is loadable, and builds the segment before
  it pulls the next one.\<close>

function segs_collect :: "u8 list \<Rightarrow> ph_iter \<Rightarrow> (elf_error, load_segment list) res" where
  "segs_collect bs it =
     (case it_next it of
        Ok (None, it') \<Rightarrow> Ok []
      | Ok (Some ph, it') \<Rightarrow>
          if ph_is_load ph
          then bind_res (load_segment_of bs ph) (\<lambda>sg. bind_res (segs_collect bs it') (\<lambda>sgs. Ok (sg # sgs)))
          else segs_collect bs it'
      | Err e \<Rightarrow> Err e
      | Panic \<Rightarrow> Panic)"
  by pat_completeness auto
termination
  by (relation "measure (\<lambda>(bs, it). it_count it - it_index it)") (auto dest!: it_next_Some)

declare segs_collect.simps [simp del]

definition elf_load_segments :: "elf_parser \<Rightarrow> (elf_error, load_segment list) res" where
  "elf_load_segments p = segs_collect (ep_data p) (elf_program_headers p)"

text \<open>\<open>memory_bounds\<close>: the loop with its two running bounds.\<close>

function bounds_loop :: "ph_iter \<Rightarrow> nat option \<Rightarrow> nat option \<Rightarrow> (elf_error, nat option \<times> nat option) res" where
  "bounds_loop it lo hi =
     (case it_next it of
        Ok (None, it') \<Rightarrow> Ok (lo, hi)
      | Ok (Some ph, it') \<Rightarrow>
          if \<not> ph_is_load ph then bounds_loop it' lo hi
          else bind_res (chk_add (unat (ph_vaddr ph)) (unat (ph_memsz ph))) (\<lambda>end.
                 bounds_loop it'
                   (Some (case lo of None \<Rightarrow> unat (ph_vaddr ph) | Some m \<Rightarrow> min m (unat (ph_vaddr ph))))
                   (Some (case hi of None \<Rightarrow> end | Some m \<Rightarrow> max m end)))
      | Err e \<Rightarrow> Err e
      | Panic \<Rightarrow> Panic)"
  by pat_completeness auto
termination
  by (relation "measure (\<lambda>(it, lo, hi). it_count it - it_index it)") (auto dest!: it_next_Some)

declare bounds_loop.simps [simp del]

definition elf_memory_bounds :: "elf_parser \<Rightarrow> (elf_error, (nat \<times> nat) option) res" where
  "elf_memory_bounds p =
     bind_res (bounds_loop (elf_program_headers p) None None) (\<lambda>(lo, hi).
       Ok (case (lo, hi) of (Some a, Some b) \<Rightarrow> Some (a, b) | _ \<Rightarrow> None))"

definition ls_is_readable :: "load_segment \<Rightarrow> bool" where
  "ls_is_readable sg \<longleftrightarrow> contains (ls_flags sg) SEG_READ"

definition ls_is_writable :: "load_segment \<Rightarrow> bool" where
  "ls_is_writable sg \<longleftrightarrow> contains (ls_flags sg) SEG_WRITE"

definition ls_is_executable :: "load_segment \<Rightarrow> bool" where
  "ls_is_executable sg \<longleftrightarrow> contains (ls_flags sg) SEG_EXECUTE"

section \<open>The iterator against a plain list\<close>

text \<open>The headers the file shows: entry \<open>i\<close> of the table, up to the first one that does not fit into the file.\<close>

definition entry_fits :: "u8 list \<Rightarrow> nat \<Rightarrow> nat \<Rightarrow> nat \<Rightarrow> bool" where
  "entry_fits bs off es i \<longleftrightarrow> off + i * es + PH_SIZE \<le> length bs"

definition headers_from :: "u8 list \<Rightarrow> nat \<Rightarrow> nat \<Rightarrow> nat list \<Rightarrow> program_header list" where
  "headers_from bs off es js = map (\<lambda>i. read_program_header (drop (off + i * es) bs)) (takeWhile (entry_fits bs off es) js)"

definition visible_headers :: "elf_parser \<Rightarrow> program_header list" where
  "visible_headers p = headers_from (ep_data p) (unat (eh_phoff (ep_header p))) (unat (eh_phentsize (ep_header p)))
     [0..<unat (eh_phnum (ep_header p))]"

text \<open>No offset computed from the header overflows.\<close>

definition table_in_range :: "elf_parser \<Rightarrow> bool" where
  "table_in_range p \<longleftrightarrow> unat (eh_phoff (ep_header p)) + unat (eh_phnum (ep_header p)) * unat (eh_phentsize (ep_header p))
     + PH_SIZE < usize_limit"

definition iter_in_range :: "ph_iter \<Rightarrow> bool" where
  "iter_in_range it \<longleftrightarrow> it_offset it + it_count it * it_entry_size it + PH_SIZE < usize_limit"

abbreviation iter_rest :: "ph_iter \<Rightarrow> program_header list" where
  "iter_rest it \<equiv> headers_from (it_data it) (it_offset it) (it_entry_size it) [it_index it..<it_count it]"

lemma it_next_done: "it_index it \<ge> it_count it \<Longrightarrow> it_next it = Ok (None, it)"
  by (simp add: it_next_def)

lemma it_next_in_range:
  assumes "iter_in_range it" and "it_index it < it_count it"
  shows "it_next it = (if entry_fits (it_data it) (it_offset it) (it_entry_size it) (it_index it)
    then Ok (Some (read_program_header (drop (it_offset it + it_index it * it_entry_size it) (it_data it))),
             it\<lparr>it_index := Suc (it_index it)\<rparr>)
    else Ok (None, it))"
proof -
  have "it_index it * it_entry_size it \<le> it_count it * it_entry_size it" using assms(2) by simp
  with assms(1) have "it_index it * it_entry_size it < usize_limit"
    "it_offset it + it_index it * it_entry_size it < usize_limit"
    "it_offset it + it_index it * it_entry_size it + PH_SIZE < usize_limit" unfolding iter_in_range_def by linarith+
  with assms(2) show ?thesis by (simp add: it_next_def entry_fits_def chk_mul_eq chk_add_eq not_le)
qed

text \<open>Either the iterator is at its end and shows nothing more, or it yields the first of the headers it still shows.\<close>

lemma it_next_rest:
  assumes "iter_in_range it"
  obtains (finished) "it_next it = Ok (None, it)" "iter_rest it = []"
    | (step) ph it' where "it_next it = Ok (Some ph, it')" "it' = it\<lparr>it_index := Suc (it_index it)\<rparr>" "it_index it < it_count it"
        "iter_rest it = ph # iter_rest it'" "iter_in_range it'"
proof (cases "it_index it < it_count it")
  case False
  then show ?thesis using it_next_done by (intro finished) (auto simp: headers_from_def)
next
  case True
  note nx = it_next_in_range[OF assms True]
  have cons: "[it_index it..<it_count it] = it_index it # [Suc (it_index it)..<it_count it]" using True by (rule upt_conv_Cons)
  show ?thesis
  proof (cases "entry_fits (it_data it) (it_offset it) (it_entry_size it) (it_index it)")
    case fits: True
    let ?it = "it\<lparr>it_index := Suc (it_index it)\<rparr>"
    show ?thesis
      by (rule step[where it' = ?it]) (use nx fits True assms cons in \<open>auto simp: headers_from_def iter_in_range_def\<close>)
  next
    case False
    then show ?thesis using nx cons by (intro finished) (auto simp: headers_from_def)
  qed
qed

lemma it_collect_rest: "iter_in_range it \<Longrightarrow> it_collect it = Ok (iter_rest it)"
proof (induction "it_count it - it_index it" arbitrary: it)
  case 0
  then show ?case by (simp add: it_collect.simps[of it] it_next_done headers_from_def)
next
  case (Suc n)
  from Suc.prems show ?case
  proof (cases rule: it_next_rest)
    case finished
    then show ?thesis by (simp add: it_collect.simps[of it])
  next
    case (step ph it')
    with Suc.hyps(1)[of it'] Suc.hyps(2) show ?thesis by (simp add: it_collect.simps[of it])
  qed
qed

text \<open>The segments a list of headers stands for.\<close>

fun collect_segments :: "u8 list \<Rightarrow> program_header list \<Rightarrow> (elf_error, load_segment list) res" where
  "collect_segments bs [] = Ok []"
| "collect_segments bs (ph # phs) =
     (if ph_is_load ph
      then bind_res (load_segment_of bs ph) (\<lambda>sg. bind_res (collect_segments bs phs) (\<lambda>sgs. Ok (sg # sgs)))
      else collect_segments bs phs)"

lemma segs_collect_rest: "iter_in_range it \<Longrightarrow> segs_collect bs it = collect_segments bs (iter_rest it)"
proof (induction "it_count it - it_index it" arbitrary: it)
  case 0
  then show ?case by (simp add: segs_collect.simps[of _ it] it_next_done headers_from_def)
next
  case (Suc n)
  from Suc.prems show ?case
  proof (cases rule: it_next_rest)
    case finished
    then show ?thesis by (simp add: segs_collect.simps[of _ it])
  next
    case (step ph it')
    with Suc.hyps(1)[of it'] Suc.hyps(2) show ?thesis by (simp add: segs_collect.simps[of _ it])
  qed
qed

fun fold_bounds :: "program_header list \<Rightarrow> nat option \<Rightarrow> nat option \<Rightarrow> (elf_error, nat option \<times> nat option) res" where
  "fold_bounds [] lo hi = Ok (lo, hi)"
| "fold_bounds (ph # phs) lo hi =
     (if \<not> ph_is_load ph then fold_bounds phs lo hi
      else bind_res (chk_add (unat (ph_vaddr ph)) (unat (ph_memsz ph))) (\<lambda>end.
             fold_bounds phs
               (Some (case lo of None \<Rightarrow> unat (ph_vaddr ph) | Some m \<Rightarrow> min m (unat (ph_vaddr ph))))
               (Some (case hi of None \<Rightarrow> end | Some m \<Rightarrow> max m end))))"

lemma bounds_loop_rest: "iter_in_range it \<Longrightarrow> bounds_loop it lo hi = fold_bounds (iter_rest it) lo hi"
proof (induction "it_count it - it_index it" arbitrary: it lo hi)
  case 0
  then show ?case by (simp add: bounds_loop.simps[of it] it_next_done headers_from_def)
next
  case (Suc n)
  from Suc.prems show ?case
  proof (cases rule: it_next_rest)
    case finished
    then show ?thesis by (simp add: bounds_loop.simps[of it])
  next
    case (step ph it')
    with Suc.hyps(1)[of it'] Suc.hyps(2) show ?thesis by (simp add: bounds_loop.simps[of it])
  qed
qed

lemma table_iter:
  "table_in_range p \<Longrightarrow> iter_in_range (elf_program_headers p)"
  "iter_rest (elf_program_headers p) = visible_headers p"
  by (simp_all add: table_in_range_def iter_in_range_def elf_program_headers_def visible_headers_def)

section \<open>Segments\<close>

lemma segment_data_bounds:
  assumes "segment_data bs ph = Ok (Some d)"
  shows "unat (ph_offset ph) + unat (ph_filesz ph) \<le> length bs \<and> 0 < unat (ph_filesz ph) \<and>
    d = take (unat (ph_filesz ph)) (drop (unat (ph_offset ph)) bs)"
proof -
  from assms have "ph_filesz ph > 0" by (auto simp: segment_data_def split: if_splits)
  then have "0 < unat (ph_filesz ph)" by (simp add: word_less_nat_alt)
  with assms show ?thesis by (auto simp: segment_data_def chk_simps split: if_splits)
qed

lemma segs_collect_mem:
  "segs_collect bs it = Ok sgs \<Longrightarrow> sg \<in> set sgs \<Longrightarrow> \<exists>ph. ph_is_load ph \<and> load_segment_of bs ph = Ok sg"
proof (induction bs it arbitrary: sgs rule: segs_collect.induct)
  case (1 bs it)
  from "1.prems"(1)[unfolded segs_collect.simps[of bs it]] consider "sgs = []"
    | ph it' where "it_next it = Ok (Some ph, it')" "\<not> ph_is_load ph" "segs_collect bs it' = Ok sgs"
    | ph it' s0 ss where "it_next it = Ok (Some ph, it')" "ph_is_load ph" "load_segment_of bs ph = Ok s0"
        "segs_collect bs it' = Ok ss" "sgs = s0 # ss"
    by (auto split: res.splits prod.splits option.splits if_splits)
  then show ?case
  proof cases
    case 1
    with \<open>sg \<in> set sgs\<close> show ?thesis by simp
  next
    case (2 ph it')
    with "1.IH"(2)[OF 2(1) refl refl 2(2,3) \<open>sg \<in> set sgs\<close>] show ?thesis by blast
  next
    case (3 ph it' s0 ss)
    with "1.IH"(1)[OF 3(1) refl refl 3(2,4)] \<open>sg \<in> set sgs\<close> show ?thesis by auto
  qed
qed

text \<open>C30: a segment never refers to bytes outside the file. Whatever the file contains, each segment that
  \<open>load_segments\<close> yields with data has exactly the \<open>filesz\<close> bytes at its \<open>offset\<close>, all of them inside the file.\<close>

theorem segments_within_file:
  assumes "elf_parse bs = Ok p" and "elf_load_segments p = Ok sgs" and "sg \<in> set sgs" and "ls_data sg = Some d"
  shows "ls_offset sg + ls_filesz sg \<le> length bs \<and> length d = ls_filesz sg \<and> d = take (ls_filesz sg) (drop (ls_offset sg) bs)"
proof -
  have "ep_data p = bs" using assms(1) by (auto simp: elf_parse_def Let_def split: if_splits)
  with segs_collect_mem[of bs "elf_program_headers p" sgs sg] assms(2,3) obtain ph
    where "load_segment_of bs ph = Ok sg" by (auto simp: elf_load_segments_def)
  then have "segment_data bs ph = Ok (ls_data sg)" "ls_offset sg = unat (ph_offset ph)" "ls_filesz sg = unat (ph_filesz ph)"
    by (auto simp: load_segment_of_def)
  with segment_data_bounds[of bs ph d] assms(4) show ?thesis by auto
qed

text \<open>The segment a loadable header stands for, when its end does not overflow.\<close>

definition segment_of :: "u8 list \<Rightarrow> program_header \<Rightarrow> load_segment" where
  "segment_of bs ph =
     \<lparr>ls_vaddr = unat (ph_vaddr ph), ls_memsz = unat (ph_memsz ph), ls_filesz = unat (ph_filesz ph),
      ls_offset = unat (ph_offset ph), ls_flags = ph_segment_flags ph,
      ls_data = (if 0 < unat (ph_filesz ph) \<and> unat (ph_offset ph) + unat (ph_filesz ph) \<le> length bs
                 then Some (take (unat (ph_filesz ph)) (drop (unat (ph_offset ph)) bs)) else None)\<rparr>"

definition load_in_range :: "program_header \<Rightarrow> bool" where
  "load_in_range ph \<longleftrightarrow> (ph_is_load ph \<longrightarrow> unat (ph_offset ph) + unat (ph_filesz ph) < usize_limit)"

lemma load_segment_in_range:
  "ph_is_load ph \<Longrightarrow> load_in_range ph \<Longrightarrow> load_segment_of bs ph = Ok (segment_of bs ph)"
proof -
  assume a: "ph_is_load ph" "load_in_range ph"
  have "0 < ph_filesz ph \<longleftrightarrow> 0 < unat (ph_filesz ph)" by (simp add: word_less_nat_alt)
  with a show ?thesis
    by (simp add: load_segment_of_def segment_data_def segment_of_def load_in_range_def chk_add_eq)
qed

lemma collect_in_range:
  "list_all load_in_range phs \<Longrightarrow> collect_segments bs phs = Ok (map (segment_of bs) (filter ph_is_load phs))"
  by (induction phs) (auto simp: load_segment_in_range)

text \<open>\<open>load_segments\<close> yields what the table in the file says. When no offset overflows, it does not panic, and it
  yields one segment for each loadable entry of the program header table, in order, up to the first entry that does not
  fit into the file; a segment has data exactly when its file size is not zero and its bytes lie in the file.\<close>

theorem load_segments_exact:
  assumes "table_in_range p" and "list_all load_in_range (visible_headers p)"
  shows "elf_load_segments p = Ok (map (segment_of (ep_data p)) (filter ph_is_load (visible_headers p)))"
  using assms table_iter[of p] by (simp add: elf_load_segments_def segs_collect_rest collect_in_range)

section \<open>Memory bounds\<close>

definition seg_start :: "program_header \<Rightarrow> nat" where
  "seg_start ph = unat (ph_vaddr ph)"

definition seg_end :: "program_header \<Rightarrow> nat" where
  "seg_end ph = unat (ph_vaddr ph) + unat (ph_memsz ph)"

abbreviation loadable :: "elf_parser \<Rightarrow> program_header set" where
  "loadable p \<equiv> {ph \<in> set (visible_headers p). ph_is_load ph}"

lemma Min_insert_min: "finite S \<Longrightarrow> Min (insert (min a x) S) = Min (insert a (insert x S))" for a x :: nat
  by (cases "S = {}") (simp_all add: min.assoc)

lemma Max_insert_max: "finite S \<Longrightarrow> Max (insert (max a x) S) = Max (insert a (insert x S))" for a x :: nat
  by (cases "S = {}") (simp_all add: max.assoc)

lemma fold_bounds_set:
  assumes "\<forall>ph \<in> set phs. ph_is_load ph \<longrightarrow> seg_end ph < usize_limit"
  shows "fold_bounds phs (Some a) (Some b) =
    Ok (Some (Min (insert a (seg_start ` {ph \<in> set phs. ph_is_load ph}))), Some (Max (insert b (seg_end ` {ph \<in> set phs. ph_is_load ph}))))"
  using assms
proof (induction phs arbitrary: a b)
  case (Cons ph phs)
  show ?case
  proof (cases "ph_is_load ph")
    case True
    let ?L = "{ph \<in> set phs. ph_is_load ph}"
    have L: "{x \<in> set (ph # phs). ph_is_load x} = insert ph ?L" using True by auto
    have "fold_bounds (ph # phs) (Some a) (Some b) = fold_bounds phs (Some (min a (seg_start ph))) (Some (max b (seg_end ph)))"
      using True Cons.prems by (simp add: chk_add_eq seg_start_def seg_end_def)
    also have "\<dots> = Ok (Some (Min (insert (min a (seg_start ph)) (seg_start ` ?L))), Some (Max (insert (max b (seg_end ph)) (seg_end ` ?L))))"
      using Cons by simp
    also have "Min (insert (min a (seg_start ph)) (seg_start ` ?L)) = Min (insert a (insert (seg_start ph) (seg_start ` ?L)))"
      by (rule Min_insert_min) simp
    also have "Max (insert (max b (seg_end ph)) (seg_end ` ?L)) = Max (insert b (insert (seg_end ph) (seg_end ` ?L)))"
      by (rule Max_insert_max) simp
    finally show ?thesis unfolding L image_insert .
  next
    case False
    then have "{x \<in> set (ph # phs). ph_is_load x} = {x \<in> set phs. ph_is_load x}" by auto
    with False Cons show ?thesis by simp
  qed
qed simp

lemma fold_bounds_None:
  assumes "\<forall>ph \<in> set phs. ph_is_load ph \<longrightarrow> seg_end ph < usize_limit"
  shows "fold_bounds phs None None =
    (let L = {ph \<in> set phs. ph_is_load ph}
     in if L = {} then Ok (None, None) else Ok (Some (Min (seg_start ` L)), Some (Max (seg_end ` L))))"
  using assms
proof (induction phs)
  case (Cons ph phs)
  show ?case
  proof (cases "ph_is_load ph")
    case True
    have L: "{x \<in> set (ph # phs). ph_is_load x} = insert ph {x \<in> set phs. ph_is_load x}" using True by auto
    have "fold_bounds (ph # phs) None None = fold_bounds phs (Some (seg_start ph)) (Some (seg_end ph))"
      using True Cons.prems by (simp add: chk_add_eq seg_start_def seg_end_def)
    with fold_bounds_set[of phs "seg_start ph" "seg_end ph"] Cons.prems show ?thesis
      unfolding L Let_def by simp
  next
    case False
    then have "{x \<in> set (ph # phs). ph_is_load x} = {x \<in> set phs. ph_is_load x}" by auto
    with False Cons show ?thesis by simp
  qed
qed simp

text \<open>\<open>memory_bounds\<close> computes the least start and the greatest end of the loadable segments, and \<open>None\<close> exactly when
  there is none.\<close>

theorem memory_bounds_exact:
  assumes "table_in_range p" and "\<forall>ph \<in> loadable p. seg_end ph < usize_limit"
  shows "elf_memory_bounds p =
    Ok (if loadable p = {} then None else Some (Min (seg_start ` loadable p), Max (seg_end ` loadable p)))"
  using assms fold_bounds_None[of "visible_headers p"] table_iter[of p]
  by (auto simp: elf_memory_bounds_def bounds_loop_rest Let_def)

section \<open>Writing and reading a file\<close>

definition eh_bytes :: "elf_header \<Rightarrow> u8 list" where
  "eh_bytes h = eh_magic h @ [eh_class h, eh_data h, eh_version h, eh_os_abi h, eh_abi_version h] @ eh_padding h @
     le_bytes 2 (unat (eh_elf_type h)) @ le_bytes 2 (unat (eh_machine h)) @ le_bytes 4 (unat (eh_elf_version h)) @
     le_bytes 8 (unat (eh_entry h)) @ le_bytes 8 (unat (eh_phoff h)) @ le_bytes 8 (unat (eh_shoff h)) @
     le_bytes 4 (unat (eh_flags h)) @ le_bytes 2 (unat (eh_ehsize h)) @ le_bytes 2 (unat (eh_phentsize h)) @
     le_bytes 2 (unat (eh_phnum h)) @ le_bytes 2 (unat (eh_shentsize h)) @ le_bytes 2 (unat (eh_shnum h)) @
     le_bytes 2 (unat (eh_shstrndx h))"

definition ph_bytes :: "program_header \<Rightarrow> u8 list" where
  "ph_bytes ph = le_bytes 4 (unat (ph_seg_type ph)) @ le_bytes 4 (unat (ph_flags ph)) @ le_bytes 8 (unat (ph_offset ph)) @
     le_bytes 8 (unat (ph_vaddr ph)) @ le_bytes 8 (unat (ph_paddr ph)) @ le_bytes 8 (unat (ph_filesz ph)) @
     le_bytes 8 (unat (ph_memsz ph)) @ le_bytes 8 (unat (ph_align ph))"

lemma length_ph_bytes [simp]: "length (ph_bytes ph) = 56"
  by (simp add: ph_bytes_def)

lemma read_ph_bytes: "read_program_header (ph_bytes ph @ rest) = ph"
  by (simp add: read_program_header_def ph_bytes_def field_def field_word)

definition eh_shape :: "elf_header \<Rightarrow> bool" where
  "eh_shape h \<longleftrightarrow> length (eh_magic h) = 4 \<and> length (eh_padding h) = 7"

lemma length_eh_bytes: "eh_shape h \<Longrightarrow> length (eh_bytes h) = 64"
  by (simp add: eh_bytes_def eh_shape_def)

lemma read_eh_bytes: "eh_shape h \<Longrightarrow> read_header (eh_bytes h @ rest) = h"
  by (simp add: read_header_def eh_bytes_def field_def eh_shape_def field_word)

lemma drop_table:
  assumes "i < length phs"
  shows "\<exists>rest. drop (56 * i) (concat (map ph_bytes phs) @ tail) = ph_bytes (phs ! i) @ rest"
proof -
  let ?a = "concat (map ph_bytes (take i phs))"
  have "length ?a = 56 * i"
    using assms by (simp add: length_concat o_def sum_list_triv)
  moreover have "concat (map ph_bytes phs) = ?a @ ph_bytes (phs ! i) @ concat (map ph_bytes (drop (Suc i) phs))"
    by (subst id_take_nth_drop[OF assms]) simp
  ultimately show ?thesis by simp
qed

lemma length_table: "length (concat (map ph_bytes phs)) = 56 * length phs"
  by (simp add: length_concat o_def sum_list_triv)

text \<open>The parser inverts the layout of an ELF file. A file that consists of the bytes of a valid header, the bytes of a program
  header table at the offset the header gives, and anything else, is accepted; the parser shows that header and the
  iterator yields those program headers, in order.\<close>

theorem elf_roundtrip:
  assumes "eh_shape h" and "eh_validate h = Ok ()" and "eh_phentsize h = 56" and "unat (eh_phnum h) = length phs"
    and "unat (eh_phoff h) = 64 + length pad" and "bs = eh_bytes h @ pad @ concat (map ph_bytes phs) @ tail"
    and "length bs < 2 ^ 63"
  shows "\<exists>p. elf_parse bs = Ok p \<and> ep_header p = h \<and> it_collect (elf_program_headers p) = Ok phs"
proof -
  let ?p = "\<lparr>ep_data = bs, ep_header = h\<rparr>"
  let ?off = "64 + length pad"
  have len: "length bs = ?off + 56 * length phs + length tail"
    using assms(6) length_eh_bytes[OF assms(1)] by (simp add: length_table)
  have parse: "elf_parse bs = Ok ?p"
    using len assms(2,6) read_eh_bytes[OF assms(1)] by (simp add: elf_parse_def EH_SIZE_def)
  have range: "table_in_range ?p" using len assms(3-5,7) by (simp add: table_in_range_def PH_SIZE_def)
  have fits: "entry_fits bs ?off 56 i" if "i < length phs" for i
    using that len by (simp add: entry_fits_def PH_SIZE_def)
  have read: "read_program_header (drop (?off + i * 56) bs) = phs ! i" if i: "i < length phs" for i
  proof -
    from drop_table[OF i, of tail] obtain rest where "drop (56 * i) (concat (map ph_bytes phs) @ tail) = ph_bytes (phs ! i) @ rest" by blast
    moreover have "drop (?off + i * 56) bs = drop (56 * i) (concat (map ph_bytes phs) @ tail)"
      unfolding assms(6) using length_eh_bytes[OF assms(1)] by (simp add: mult.commute)
    ultimately show ?thesis by (simp add: read_ph_bytes)
  qed
  have tw: "takeWhile (entry_fits bs ?off 56) [0..<length phs] = [0..<length phs]"
    using fits by (simp add: takeWhile_eq_all_conv)
  have "visible_headers ?p = map (\<lambda>i. phs ! i) [0..<length phs]"
    using read assms(3-5) by (auto simp add: visible_headers_def headers_from_def tw)
  then have "it_collect (elf_program_headers ?p) = Ok phs"
    using it_collect_rest[OF table_iter(1)[OF range]] table_iter(2)[of ?p] by (simp add: map_nth)
  with parse show ?thesis by auto
qed

lemma word_of_nat_u16_eq: "v < 65536 \<Longrightarrow> n < 65536 \<Longrightarrow> (word_of_nat v :: u16) = word_of_nat n \<longleftrightarrow> v = n"
  by (simp add: word_of_nat_eq_iff take_bit_eq_mod)

text \<open>What the parser accepts: exactly the files of at least 64 bytes with the magic number, 64 bits, little-endian, an
  executable or shared-object type and the x86-64 machine number.\<close>

theorem elf_parse_accepts:
  "(\<exists>p. elf_parse bs = Ok p) \<longleftrightarrow> 64 \<le> length bs \<and> take 4 bs = [0x7f, 0x45, 0x4c, 0x46] \<and> bs ! 4 = 2 \<and> bs ! 5 = 1 \<and>
     le_value [bs ! 16, bs ! 17] \<in> {2, 3} \<and> le_value [bs ! 18, bs ! 19] = 62"
proof (cases "64 \<le> length bs")
  case True
  have one: "take 1 (drop i bs) = [bs ! i]" if "i < 64" for i
    using that True by (simp add: take_Suc_conv_app_nth)
  have two: "take 2 (drop i bs) = [bs ! i, bs ! (i + 1)]" if "i < 63" for i
    using that True by (simp add: numeral_2_eq_2 take_Suc_conv_app_nth)
  have byte: "field bs i 1 = bs ! i" if "i < 64" for i using one[OF that] by (simp add: field_def)
  have half: "(field bs i 2 = (word_of_nat n :: u16)) \<longleftrightarrow> le_value [bs ! i, bs ! (i + 1)] = n" if "i < 63" "n < 65536" for i n
  proof -
    have "le_value [bs ! i, bs ! (i + 1)] < 65536" using le_value_less[of "[bs ! i, bs ! (i + 1)]"] by simp
    then show ?thesis unfolding field_def two[OF that(1)] by (rule word_of_nat_u16_eq[OF _ that(2)])
  qed
  have ty: "elf_type_from (field bs 16 2) = Executable \<longleftrightarrow> le_value [bs ! 16, bs ! 17] = 2"
    "elf_type_from (field bs 16 2) = SharedObject \<longleftrightarrow> le_value [bs ! 16, bs ! 17] = 3"
    using half[of 16 2] half[of 16 3] by (auto simp: elf_type_from_def)
  have ma: "elf_machine_from (field bs 18 2) = X86_64 \<longleftrightarrow> le_value [bs ! 18, bs ! 19] = 62"
    using half[of 18 62] by (auto simp: elf_machine_from_def)
  show ?thesis using True ty ma byte[of 4] byte[of 5]
    by (auto simp: elf_parse_def eh_validate_def read_header_def EH_SIZE_def ELF_MAGIC_def elf_class_value_def
        elf_data_value_def Let_def simp del: le_value.simps)
next
  case False
  then show ?thesis by (simp add: elf_parse_def EH_SIZE_def)
qed

text \<open>The parser accepts files that make its users panic. If an accepted header has at least one program header and
  a table offset within 56 bytes of the end of the 64-bit range, every loop over the program headers overflows.\<close>

theorem crafted_table_panics:
  assumes "elf_parse bs = Ok p" and "0 < unat (eh_phnum (ep_header p))" and "usize_limit \<le> unat (eh_phoff (ep_header p)) + 56"
  shows "it_collect (elf_program_headers p) = Panic \<and> elf_load_segments p = Panic \<and> elf_memory_bounds p = Panic"
proof -
  have "unat (eh_phoff (ep_header p)) < usize_limit" using unsigned_less[of "eh_phoff (ep_header p)", where ?'a = nat] by simp
  then have "it_next (elf_program_headers p) = Panic"
    using assms(2,3) by (simp add: it_next_def elf_program_headers_def chk_mul_def chk_add_def PH_SIZE_def)
  then show ?thesis
    by (simp add: it_collect.simps[of "elf_program_headers p"] elf_load_segments_def elf_memory_bounds_def
        segs_collect.simps[of _ "elf_program_headers p"] bounds_loop.simps[of "elf_program_headers p"])
qed

section \<open>Witnesses\<close>

text \<open>An executable with one loadable segment: four bytes at offset 120 that go to address 4194304, with one page of memory.\<close>

definition sample_header :: "u64 \<Rightarrow> elf_header" where
  "sample_header off =
     \<lparr>eh_magic = ELF_MAGIC, eh_class = 2, eh_data = 1, eh_version = 1, eh_os_abi = 0, eh_abi_version = 0,
      eh_padding = replicate 7 0, eh_elf_type = 2, eh_machine = 62, eh_elf_version = 1, eh_entry = 4194304,
      eh_phoff = off, eh_shoff = 0, eh_flags = 0, eh_ehsize = 64, eh_phentsize = 56, eh_phnum = 1,
      eh_shentsize = 0, eh_shnum = 0, eh_shstrndx = 0\<rparr>"

definition sample_load :: program_header where
  "sample_load = \<lparr>ph_seg_type = 1, ph_flags = 5, ph_offset = 120, ph_vaddr = 4194304, ph_paddr = 0, ph_filesz = 4,
     ph_memsz = 4096, ph_align = 4096\<rparr>"

definition sample_file :: "u8 list" where
  "sample_file = eh_bytes (sample_header 64) @ [] @ concat (map ph_bytes [sample_load]) @ [1, 2, 3, 4]"

definition sample_parser :: elf_parser where
  "sample_parser = \<lparr>ep_data = sample_file, ep_header = sample_header 64\<rparr>"

lemma sample_shape: "eh_shape (sample_header off)" "eh_validate (sample_header off) = Ok ()"
  by (simp_all add: eh_shape_def sample_header_def ELF_MAGIC_def eh_validate_def elf_class_value_def elf_data_value_def
      elf_type_from_def elf_machine_from_def)

lemma sample_length: "length sample_file = 124"
  using length_eh_bytes[OF sample_shape(1)] by (simp add: sample_file_def)

lemma sample_parse: "elf_parse sample_file = Ok sample_parser"
  using sample_length sample_shape(2) read_eh_bytes[OF sample_shape(1)]
  by (simp add: elf_parse_def EH_SIZE_def sample_parser_def sample_file_def Let_def)

theorem elf_roundtrip_witness:
  "\<exists>p. elf_parse sample_file = Ok p \<and> ep_header p = sample_header 64 \<and> it_collect (elf_program_headers p) = Ok [sample_load]"
  by (rule elf_roundtrip[OF sample_shape _ _ _ sample_file_def]) (simp_all add: sample_header_def sample_length)

lemma sample_headers: "visible_headers sample_parser = [sample_load]"
proof -
  have "drop 64 sample_file = ph_bytes sample_load @ [1, 2, 3, 4]"
    using length_eh_bytes[OF sample_shape(1)] by (simp add: sample_file_def)
  then show ?thesis
    by (simp add: visible_headers_def headers_from_def sample_parser_def sample_header_def entry_fits_def sample_length PH_SIZE_def read_ph_bytes)
qed

lemma sample_load_facts: "ph_is_load sample_load" "seg_start sample_load = 4194304" "seg_end sample_load = 4198400" "load_in_range sample_load"
  by (simp_all add: ph_is_load_def ph_type_def sample_load_def segment_type_from_def seg_start_def seg_end_def load_in_range_def)

lemma sample_range: "table_in_range sample_parser"
  by (simp add: table_in_range_def sample_parser_def sample_header_def PH_SIZE_def)

lemma sample_segment: "ls_data (segment_of sample_file sample_load) = Some [1, 2, 3, 4]"
proof -
  have "drop 120 sample_file = [1, 2, 3, 4]"
    using length_eh_bytes[OF sample_shape(1)] by (simp add: sample_file_def)
  then show ?thesis by (simp add: segment_of_def sample_load_def sample_length)
qed

theorem load_segments_exact_witness:
  "elf_load_segments sample_parser = Ok [segment_of sample_file sample_load] \<and>
   ls_data (segment_of sample_file sample_load) = Some [1, 2, 3, 4]"
  using load_segments_exact[OF sample_range] sample_segment
  by (simp add: sample_headers sample_load_facts) (simp add: sample_parser_def)

theorem segments_within_file_witness:
  "\<exists>sgs sg. elf_load_segments sample_parser = Ok sgs \<and> sg \<in> set sgs \<and> ls_data sg = Some [1, 2, 3, 4] \<and>
     ls_offset sg + ls_filesz sg \<le> 124"
proof -
  let ?sg = "segment_of sample_file sample_load"
  have segs: "elf_load_segments sample_parser = Ok [?sg]"
    using sample_range table_iter[of sample_parser]
    by (simp add: elf_load_segments_def segs_collect_rest sample_headers load_segment_in_range sample_load_facts)
      (simp add: sample_parser_def)
  from segments_within_file[OF sample_parse segs, of ?sg] sample_segment sample_length
  have "ls_offset ?sg + ls_filesz ?sg \<le> 124" by simp
  with segs sample_segment show ?thesis by auto
qed

theorem memory_bounds_exact_witness: "elf_memory_bounds sample_parser = Ok (Some (4194304, 4198400))"
proof -
  have L: "loadable sample_parser = {sample_load}" by (auto simp: sample_headers sample_load_facts)
  show ?thesis using memory_bounds_exact[OF sample_range] unfolding L by (simp add: sample_load_facts)
qed

theorem crafted_table_panics_witness:
  "\<exists>p. elf_parse (eh_bytes (sample_header 0xFFFFFFFFFFFFFFF8)) = Ok p \<and> elf_load_segments p = Panic"
proof -
  let ?bs = "eh_bytes (sample_header 0xFFFFFFFFFFFFFFF8)"
  have parse: "elf_parse ?bs = Ok \<lparr>ep_data = ?bs, ep_header = sample_header 0xFFFFFFFFFFFFFFF8\<rparr>"
    using read_eh_bytes[OF sample_shape(1), where rest = "[]"] sample_shape(2) length_eh_bytes[OF sample_shape(1)]
    by (simp add: elf_parse_def EH_SIZE_def Let_def)
  have "unat (0xFFFFFFFFFFFFFFF8 :: u64) = usize_limit - 8" by simp
  with crafted_table_panics[OF parse] have "elf_load_segments \<lparr>ep_data = ?bs, ep_header = sample_header 0xFFFFFFFFFFFFFFF8\<rparr> = Panic"
    by (simp add: sample_header_def)
  with parse show ?thesis by blast
qed

end
