(* ===== verification/Program_Loader.thy ===== *)
theory Program_Loader
  imports Address_Space Elf
begin

text \<open>
  The program loader of the kernel, \<open>kernel/src/loader/program.rs\<close>, with the layout of user space, \<open>kernel/src/layout.rs\<close>: it parses a
  file, makes a page table and a root region, and for each loadable segment an object with the bytes of the file, which it maps. The identifiers of
  the new objects are taken from a counter. A failure drops the region and the objects mapped so far.
\<close>

section \<open>Layout\<close>

definition USER_SPACE_START :: nat where "USER_SPACE_START = 0x1000"
definition USER_SPACE_END :: nat where "USER_SPACE_END = 0x7FFFFFFF0000"
definition DEFAULT_STACK_SIZE :: nat where "DEFAULT_STACK_SIZE = 32 * 1024 * 1024"
definition STACK_TOP :: nat where "STACK_TOP = 0x7FFFFFFF0000"
definition ALLOC_START :: nat where "ALLOC_START = 0x600000000000"

section \<open>Data\<close>

datatype loader_error = ElfFailed elf_error | InvalidProgram | OutOfMemory

record loaded_program =
  lp_entry :: nat
  lp_stack_top :: nat
  lp_root_vmar :: oid
  lp_base_address :: nat
  lp_brk :: nat

record load_sys =
  ld_as :: as_sys
  ld_next :: oid

definition ld_map_vm :: "vm_sys \<Rightarrow> load_sys \<Rightarrow> load_sys" where
  "ld_map_vm vm s = s\<lparr>ld_as := (ld_as s)\<lparr>as_vm := vm\<rparr>\<rparr>"

section \<open>Operations\<close>

text \<open>The upper half of the top-level table of the kernel, at \<open>kpt\<close>, is copied.\<close>

fun copy_entries :: "nat \<Rightarrow> nat \<Rightarrow> nat list \<Rightarrow> kmem \<Rightarrow> kmem" where
  "copy_entries src dst [] m = m"
| "copy_entries src dst (i # is) m = copy_entries src dst is (mem_write (dst + i * 8) (mem_read m (src + i * 8) 8) m)"

definition copy_kernel_mappings :: "nat \<Rightarrow> nat \<Rightarrow> buddy \<Rightarrow> (loader_error, buddy) res" where
  "copy_kernel_mappings kpt page_table b =
     bind_res (phys_to_virt kpt) (\<lambda>src.
     bind_res (phys_to_virt page_table) (\<lambda>dst.
       Ok (with_mem (copy_entries src dst [256..<512] (ba_mem b)) b)))"

text \<open>The end of the last segment, rounded up.\<close>

fun max_end_loop :: "nat \<Rightarrow> load_segment list \<Rightarrow> nat \<Rightarrow> (loader_error, nat) res" where
  "max_end_loop base [] max_end = Ok max_end"
| "max_end_loop base (sg # sgs) max_end =
     bind_res (chk_add base (ls_vaddr sg)) (\<lambda>vaddr.
     bind_res (chk_add vaddr (ls_memsz sg)) (\<lambda>ends.
       max_end_loop base sgs (align_up (max max_end ends))))"

text \<open>The last reference to an object, or to the region with its mappings, is dropped.\<close>

fun drop_vmos :: "oid list \<Rightarrow> vm_sys \<Rightarrow> (unit, vm_sys) res" where
  "drop_vmos [] s = Ok s"
| "drop_vmos (v # vs) s = bind_res (vm_drop v s) (drop_vmos vs)"

definition drop_region :: "oid \<Rightarrow> as_sys \<Rightarrow> (unit, as_sys) res" where
  "drop_region a s =
     (case as_vmars s a of
        None \<Rightarrow> Ok s
      | Some x \<Rightarrow>
          bind_res (drop_vmos (map (\<lambda>(_, m). mp_vmo m) (va_mappings x)) (as_vm s)) (\<lambda>vm.
            Ok (s\<lparr>as_vm := vm, as_vmars := (as_vmars s)(a := None)\<rparr>)))"

text \<open>Map the object \<open>v\<close>, all of its \<open>sz\<close> bytes, at a fixed address; a refusal drops it.\<close>

definition map_whole :: "oid \<Rightarrow> oid \<Rightarrow> nat \<Rightarrow> u32 \<Rightarrow> nat \<Rightarrow> load_sys \<Rightarrow> ((loader_error, unit) res \<times> load_sys) option" where
  "map_whole a v sz fl addr s =
     (case va_map a v 0 sz fl (Some addr) (ld_as s) of
        None \<Rightarrow> None
      | Some (Ok _, as') \<Rightarrow> Some (Ok (), s\<lparr>ld_as := as'\<rparr>)
      | Some (Err _, as') \<Rightarrow>
          (case vm_drop v (as_vm as') of
             Ok vm \<Rightarrow> Some (Err OutOfMemory, s\<lparr>ld_as := as'\<lparr>as_vm := vm\<rparr>\<rparr>)
           | _ \<Rightarrow> Some (Panic, s\<lparr>ld_as := as'\<rparr>))
      | Some (Panic, as') \<Rightarrow> Some (Panic, s\<lparr>ld_as := as'\<rparr>))"

definition load_flags :: u32 where
  "load_flags = MF_READ OR MF_WRITE OR MF_EXECUTE OR MF_SPECIFIC"

definition stack_flags :: u32 where
  "stack_flags = MF_READ OR MF_WRITE OR MF_SPECIFIC"

text \<open>Where a segment goes: the page-aligned address, the offset of the first byte in the object and the size of the object.\<close>

definition segment_span :: "nat \<Rightarrow> load_segment \<Rightarrow> (loader_error, nat \<times> nat \<times> nat) res" where
  "segment_span base sg =
     bind_res (chk_add base (ls_vaddr sg)) (\<lambda>vaddr.
     bind_res (chk_sub vaddr (align_down vaddr)) (\<lambda>offset.
     bind_res (chk_add vaddr (ls_memsz sg)) (\<lambda>ends.
     bind_res (chk_sub (align_up ends) (align_down vaddr)) (\<lambda>sz. Ok (align_down vaddr, offset, sz)))))"

definition load_segment_at :: "oid \<Rightarrow> nat \<Rightarrow> load_segment \<Rightarrow> load_sys \<Rightarrow> ((loader_error, unit) res \<times> load_sys) option" where
  "load_segment_at a base sg s =
     (case segment_span base sg of
        Ok (addr, offset, sz) \<Rightarrow>
          (let v = ld_next s; s0 = s\<lparr>ld_next := Suc v\<rparr>
           in case vm_create v sz VMO_COMMIT (as_vm (ld_as s)) of
                (Ok _, vm1) \<Rightarrow>
                  (case ls_data sg of
                     None \<Rightarrow> Some (Panic, ld_map_vm vm1 s0)
                   | Some bs \<Rightarrow>
                       (case vm_write v offset bs vm1 of
                          None \<Rightarrow> None
                        | Some (Ok _, vm2) \<Rightarrow> map_whole a v sz load_flags addr (ld_map_vm vm2 s0)
                        | Some (Err _, vm2) \<Rightarrow>
                            (case vm_drop v vm2 of
                               Ok vm3 \<Rightarrow> Some (Err OutOfMemory, ld_map_vm vm3 s0)
                             | _ \<Rightarrow> Some (Panic, ld_map_vm vm2 s0))
                        | Some (Panic, vm2) \<Rightarrow> Some (Panic, ld_map_vm vm2 s0)))
              | (Err _, vm1) \<Rightarrow> Some (Err OutOfMemory, ld_map_vm vm1 s0)
              | (Panic, vm1) \<Rightarrow> Some (Panic, ld_map_vm vm1 s0))
      | Err e \<Rightarrow> Some (Err e, s)
      | Panic \<Rightarrow> Some (Panic, s))"

fun load_all :: "oid \<Rightarrow> nat \<Rightarrow> load_segment list \<Rightarrow> load_sys \<Rightarrow> ((loader_error, unit) res \<times> load_sys) option" where
  "load_all a base [] s = Some (Ok (), s)"
| "load_all a base (sg # sgs) s =
     (case load_segment_at a base sg s of
        None \<Rightarrow> None
      | Some (Ok _, s1) \<Rightarrow> load_all a base sgs s1
      | Some (Err e, s1) \<Rightarrow> Some (Err e, s1)
      | Some (Panic, s1) \<Rightarrow> Some (Panic, s1))"

definition load_stack :: "oid \<Rightarrow> load_sys \<Rightarrow> ((loader_error, unit) res \<times> load_sys) option" where
  "load_stack a s =
     (let v = ld_next s; s0 = s\<lparr>ld_next := Suc v\<rparr>
      in case vm_create v DEFAULT_STACK_SIZE VMO_COMMIT (as_vm (ld_as s)) of
           (Ok _, vm1) \<Rightarrow> map_whole a v DEFAULT_STACK_SIZE stack_flags (STACK_TOP - DEFAULT_STACK_SIZE) (ld_map_vm vm1 s0)
         | (Err _, vm1) \<Rightarrow> Some (Err OutOfMemory, ld_map_vm vm1 s0)
         | (Panic, vm1) \<Rightarrow> Some (Panic, ld_map_vm vm1 s0))"

text \<open>A table for the new address space, and its root region.\<close>

definition new_root :: "nat \<Rightarrow> load_sys \<Rightarrow> (loader_error, oid) res \<times> load_sys" where
  "new_root kpt s =
     (let vm = as_vm (ld_as s)
      in case buddy_allocate_one (vs_frames vm) of
           Ok (Some pt, b1) \<Rightarrow>
             (case bind_res (phys_to_virt pt) (\<lambda>virt. copy_kernel_mappings kpt pt (with_mem (write_bytes virt 0 PAGE_SIZE (ba_mem b1)) b1)) of
                Ok b2 \<Rightarrow>
                  (let a = ld_next s;
                       x = va_create_root USER_SPACE_START (USER_SPACE_END - USER_SPACE_START) ALLOC_START pt
                   in (Ok a, s\<lparr>ld_next := Suc a, ld_as := put_vmar a x ((ld_as s)\<lparr>as_vm := vm\<lparr>vs_frames := b2\<rparr>\<rparr>)\<rparr>))
              | Err e \<Rightarrow> (Err e, ld_map_vm (vm\<lparr>vs_frames := b1\<rparr>) s)
              | Panic \<Rightarrow> (Panic, ld_map_vm (vm\<lparr>vs_frames := b1\<rparr>) s))
         | Ok (None, b1) \<Rightarrow> (Err OutOfMemory, ld_map_vm (vm\<lparr>vs_frames := b1\<rparr>) s)
         | Err _ \<Rightarrow> (Panic, s)
         | Panic \<Rightarrow> (Panic, s))"

definition load_base :: "elf_parser \<Rightarrow> nat" where
  "load_base p = (if elf_is_pie p then 0x100000000 else 0)"

text \<open>An error after the region has been made drops it.\<close>

definition abandon :: "oid \<Rightarrow> ((loader_error, unit) res \<times> load_sys) option \<Rightarrow>
    (load_sys \<Rightarrow> ((loader_error, loaded_program) res \<times> load_sys) option) \<Rightarrow> ((loader_error, loaded_program) res \<times> load_sys) option" where
  "abandon a q k =
     (case q of
        None \<Rightarrow> None
      | Some (Ok _, s) \<Rightarrow> k s
      | Some (Err e, s) \<Rightarrow>
          (case drop_region a (ld_as s) of
             Ok as' \<Rightarrow> Some (Err e, s\<lparr>ld_as := as'\<rparr>)
           | _ \<Rightarrow> Some (Panic, s))
      | Some (Panic, s) \<Rightarrow> Some (Panic, s))"

definition program_load :: "nat \<Rightarrow> u8 list \<Rightarrow> load_sys \<Rightarrow> ((loader_error, loaded_program) res \<times> load_sys) option" where
  "program_load kpt elf_data s =
     (case map_err ElfFailed (elf_parse elf_data) of
        Ok p \<Rightarrow>
          (case bind_res (map_err ElfFailed (elf_load_segments p)) (\<lambda>sgs.
                bind_res (max_end_loop (load_base p) sgs 0) (\<lambda>max_end. Ok (sgs, max_end))) of
             Ok (sgs, max_end) \<Rightarrow>
               (case new_root kpt s of
                  (Ok a, s1) \<Rightarrow>
                    abandon a (load_all a (load_base p) sgs s1) (\<lambda>s2.
                    abandon a (load_stack a s2) (\<lambda>s3.
                      case bind_res (chk_add max_end 0xFFF) (\<lambda>m.
                           bind_res (chk_add (load_base p) (unat (elf_entry_point p))) (\<lambda>entry. Ok (m, entry))) of
                        Ok (m, entry) \<Rightarrow>
                          Some (Ok \<lparr>lp_entry = entry, lp_stack_top = STACK_TOP, lp_root_vmar = a,
                                    lp_base_address = load_base p, lp_brk = m div 4096 * 4096\<rparr>, s3)
                      | Err e \<Rightarrow> Some (Err e, s3)
                      | Panic \<Rightarrow> Some (Panic, s3)))
                | (Err e, s1) \<Rightarrow> Some (Err e, s1)
                | (Panic, s1) \<Rightarrow> Some (Panic, s1))
           | Err e \<Rightarrow> Some (Err e, s)
           | Panic \<Rightarrow> Some (Panic, s))
      | Err e \<Rightarrow> Some (Err e, s)
      | Panic \<Rightarrow> Some (Panic, s))"

end
