(* ===== verification/Program_Image.thy ===== *)
theory Program_Image
  imports Program_Loader
begin

text \<open>
  What the program loader achieves. The steps of loading are followed one object at a time: an object made with all its pages committed and filled with the bytes of
  a segment shows them; mapping it adds its pages to the page table and leaves those of earlier objects as they were. The last sections hold the properties of
  \<open>program_load\<close> and a sample system.
\<close>

section \<open>Objects of committed pages\<close>

lemma commit_each_count:
  assumes "buddy_inv (vs_frames s)" and "n \<le> card (free_frames (vs_frames s))"
  shows "\<exists>pgs fr. commit_each n s = (Ok pgs, s\<lparr>vs_frames := fr\<rparr>) \<and> leaves (vs_frames s) fr \<and> takes n (vs_frames s) fr \<and>
    length pgs = n \<and> (\<forall>pg \<in> set pgs. \<exists>f \<in> free_frames (vs_frames s). pg = Committed f True)"
  using assms
proof (induction n arbitrary: s)
  case 0
  have "s = s\<lparr>vs_frames := vs_frames s\<rparr>" by simp
  with 0 show ?case by (intro exI[of _ "[]"] exI[of _ "vs_frames s"]) (simp add: leaves_refl)
next
  case (Suc n)
  show ?case
  proof (cases rule: take_frames_spec[OF Suc.prems(1) zero_less_one])
    case 1
    with no_single_free[OF Suc.prems(1)] Suc.prems(2) show ?thesis by simp
  next
    case (2 a fr)
    let ?s = "s\<lparr>vs_frames := fr\<rparr>"
    have l: "leaves (vs_frames s) fr" by (rule granted_leaves[OF 2(2)])
    have free: "free_frames fr = free_frames (vs_frames s) - {a}" "a \<in> free_frames (vs_frames s)"
      using 2(2) by (auto simp: granted_def)
    then have "n \<le> card (free_frames (vs_frames ?s))" using Suc.prems(2) by simp
    moreover have "buddy_inv (vs_frames ?s)" using 2(2) by (simp add: granted_def)
    ultimately obtain pgs fr' where r: "commit_each n ?s = (Ok pgs, ?s\<lparr>vs_frames := fr'\<rparr>)" "leaves fr fr'" "takes n fr fr'"
      "length pgs = n" "\<forall>pg \<in> set pgs. \<exists>f \<in> free_frames fr. pg = Committed f True"
      using Suc.IH[of ?s] by auto
    have "takes (Suc n) (vs_frames s) fr'" using takes_trans[OF takes_one[OF free(1)] r(3)] by simp
    moreover have "\<forall>pg \<in> set (Committed a True # pgs). \<exists>f \<in> free_frames (vs_frames s). pg = Committed f True"
      using r(5) free by auto
    ultimately show ?thesis using r 2(1) leaves_trans[OF l r(2)] by auto
  qed
qed

text \<open>What the making of a new object leaves alone: everything but the object.\<close>

definition enlarged :: "nat set \<Rightarrow> nat \<Rightarrow> oid \<Rightarrow> vm_sys \<Rightarrow> vm_sys \<Rightarrow> bool" where
  "enlarged S pt v s s' \<longleftrightarrow> as_ok S pt s' \<and> (\<forall>w. w \<noteq> v \<longrightarrow> vs_vmos s' w = vs_vmos s w) \<and>
     (\<forall>w. slot 3 w \<in> S \<longrightarrow> mapped_to (vs_frames s') pt w = mapped_to (vs_frames s) pt w) \<and>
     (\<forall>j < 512. entry_at (vs_frames s') pt j = entry_at (vs_frames s) pt j) \<and>
     tables S (vs_frames s') pt = tables S (vs_frames s) pt \<and> free_frames (vs_frames s') \<subseteq> free_frames (vs_frames s) \<and>
     (\<forall>f. data_frame S pt (vs_frames s) f \<longrightarrow>
        data_frame S pt (vs_frames s') f \<and> frame_content (vs_frames s') f = frame_content (vs_frames s) f) \<and>
     (\<forall>k g. fst k \<noteq> v \<longrightarrow> displays s k g \<longrightarrow> displays s' k g)"

lemma enlarged_trans:
  assumes "enlarged S pt v s s1" and "enlarged S pt v s1 s2"
  shows "enlarged S pt v s s2"
  using assms unfolding enlarged_def by auto

lemma displays_put:
  assumes "vs_vmos s v = None" and "displays s k g"
  shows "displays (put_vmo v x s) k g"
proof -
  have "displays_in (cells (put_vmo v x s)) k g" if "displays_in (cells s) k g"
    using that
  proof (induction rule: displays_in.induct)
    case (here k g)
    then have "fst k \<noteq> v" using assms(1) by (auto simp: cells_def)
    with here show ?case by (intro displays_in.here) (auto simp: cells_def split: option.splits if_splits)
  next
    case (there k j g)
    then have "fst k \<noteq> v" using assms(1) by (auto simp: cells_def)
    with there show ?case by (intro displays_in.there[of _ k j]) (auto simp: cells_def split: option.splits if_splits)
  qed
  from this[OF assms(2)] show ?thesis .
qed

lemma create_committed:
  assumes ok: "as_ok S pt s" and v: "vs_vmos s v = None" and n: "0 < n" "n * 4096 + 4096 < usize_limit"
    and free: "n \<le> card (free_frames (vs_frames s))"
  shows "\<exists>pgs s1. vm_create v (n * 4096) VMO_COMMIT s = (Ok (), s1) \<and> enlarged S pt v s s1 \<and> takes n (vs_frames s) (vs_frames s1) \<and>
    vs_vmos s1 v = Some (new_vmo (n * 4096) pgs VMO_COMMIT None) \<and> length pgs = n \<and>
    (\<forall>pg \<in> set pgs. \<exists>f \<in> free_frames (vs_frames s). pg = Committed f True) \<and> (\<forall>i < n. displays s1 (v, i) (\<lambda>_. 0))"
proof -
  have inv: "vm_inv s" and tree: "tree_ok S (vs_frames s) pt" and dev: "devices_aligned s"
    and apart: "tables S (vs_frames s) pt \<inter> ran (ledger (vs_vmos s)) = {}" using ok by (auto simp: as_ok_def)
  have b: "buddy_inv (vs_frames s)" by (rule vm_inv_buddy[OF inv])
  obtain pgs fr where c: "commit_each n s = (Ok pgs, s\<lparr>vs_frames := fr\<rparr>)" "leaves (vs_frames s) fr" "takes n (vs_frames s) fr"
    "length pgs = n" "\<forall>pg \<in> set pgs. \<exists>f \<in> free_frames (vs_frames s). pg = Committed f True"
    using commit_each_count[OF b free] by blast
  let ?x = "\<lambda>pgs. new_vmo (n * 4096) pgs VMO_COMMIT None"
  let ?s = "put_vmo v (?x pgs) (s\<lparr>vs_frames := fr\<rparr>)" and ?l = "put_vmo v (?x (replicate n Uncommitted)) s"
  have "n * 4096 < usize_limit" using n(2) by simp
  then have made: "tidy s (Ok (), ?s)" "quiet ?l ?s"
    by (cases rule: create_eager[OF inv v, of n VMO_COMMIT]; use c(1) in auto)+
  have al: "page_align (n * 4096) = (Ok (n * 4096) :: (vmo_error, nat) res)" using page_align_eq(1)[OF n(2)] by simp
  have call: "vm_create v (n * 4096) VMO_COMMIT s = (Ok (), ?s)"
    using n c(1) al by (simp add: vm_create_def PAGE_SIZE_def contains_def VMO_COMMIT_def VMO_CONTIGUOUS_def Let_def)
  note t = tree_leaves[OF tree c(2)]
  have disp: "displays ?s = displays ?l" using made(2) by (simp add: quiet_def)
  have zero: "displays ?s (v, i) (\<lambda>_. 0)" if "i < n" for i
    unfolding disp using that by (intro displays_in.here) (simp add: cells_def new_vmo_def)
  have keep: "displays ?s k g" if "displays s k g" for k g unfolding disp by (rule displays_put[OF v that])
  have "ran (ledger (vs_vmos ?s)) \<subseteq> accounts s" using made(1) by (auto simp: tidy_def accounts_def)
  moreover have "ledger (vs_vmos ?s) k \<noteq> Some f" if "f \<in> tables S (vs_frames s) pt" for k f
  proof
    assume L: "ledger (vs_vmos ?s) k = Some f"
    show False
    proof (cases "fst k = v")
      case True
      with L have "Committed f True \<in> set pgs"
        by (auto simp: ledger_def new_vmo_def owned_Some_iff split: if_splits prod.splits) (metis nth_mem)
      with c(5) have "f \<in> free_frames (vs_frames s)" by auto
      with tree_tables[OF tree that] show False by blast
    next
      case False
      with L have "ledger (vs_vmos s) k = Some f" by (simp add: ledger_def split: prod.splits)
      with apart that show False by (auto intro: ranI)
    qed
  qed
  then have apart': "tables S fr pt \<inter> ran (ledger (vs_vmos ?s)) = {}" using t(2) by (auto simp: ran_def)
  have dev': "devices_aligned ?s" using dev c(5) by (auto simp: devices_aligned_def new_vmo_def)
  have ok': "as_ok S pt ?s" using made(1) t(1) apart' dev' by (simp add: as_ok_def tidy_def)
  have ent: "entry_at fr pt j = entry_at (vs_frames s) pt j" if "j < 512" for j
    using leaves_entry[OF c(2) _ _ that] tree_tables[OF tree tables_root] by blast
  have sub: "free_frames fr \<subseteq> free_frames (vs_frames s)" using c(2) by (simp add: leaves_def)
  have "enlarged S pt v s ?s"
    using ok' t(2,3) ent sub data_frame_leaves[OF tree c(2)] keep unfolding enlarged_def by simp
  with call zero c(3-5) show ?thesis by auto
qed


text \<open>A write into an object whose pages are all its own reaches only their frames.\<close>

lemma write_touches:
  assumes "vs_vmos s v = Some x" and "\<forall>pg \<in> set (vm_pages x). \<exists>f \<in> F. pg = Committed f True"
    and "write_loop v off bs s = Some (r, s')"
  shows "vs_vmos s' = vs_vmos s \<and> (off + length bs \<le> length (vm_pages x) * 4096 \<longrightarrow> (\<forall>e. r \<noteq> Err e)) \<and>
    (\<exists>m. vs_frames s' = (vs_frames s)\<lparr>ba_mem := m\<rparr> \<and> changed_only (\<Union> (frame_bytes ` F)) (ba_mem (vs_frames s)) m)"
  using assms(1,3)
proof (induction v off bs s arbitrary: r s' rule: write_loop.induct)
  case (1 v off bs s)
  let ?po = "off mod PAGE_SIZE" and ?n = "min (PAGE_SIZE - off mod PAGE_SIZE) (length bs)"
  note step = write_loop.simps[of v off bs s]
  have same: "\<exists>m. vs_frames s = (vs_frames s)\<lparr>ba_mem := m\<rparr> \<and> changed_only (\<Union> (frame_bytes ` F)) (ba_mem (vs_frames s)) m"
    by (rule exI[of _ "ba_mem (vs_frames s)"]) (simp add: changed_only_def)
  consider "bs = []" | "bs \<noteq> []" "length (vm_pages x) \<le> off div PAGE_SIZE" | "bs \<noteq> []" "off div PAGE_SIZE < length (vm_pages x)"
    by (cases "bs = []") (auto simp: not_less[symmetric])
  then show ?case
  proof cases
    case 1
    with "1.prems"(2) step have "r = Ok 0" "s' = s" by auto
    with same show ?thesis by simp
  next
    case 2
    have "vm_get_page v off True s = Some (Err OutOfRange, s)" using 2(2) "1.prems"(1) by (simp add: vm_get_page.simps[of v off])
    with "1.prems"(2) step 2(1) have "s' = s" by simp
    moreover have "\<not> off + length bs \<le> length (vm_pages x) * 4096"
      using 2 by (cases bs) (auto simp: PAGE_SIZE_def)
    ultimately show ?thesis using same by simp
  next
    case 3
    with assms(2) obtain f where f: "vm_pages x ! (off div PAGE_SIZE) = Committed f True" "f \<in> F" by (meson nth_mem)
    then have get: "vm_get_page v off True s = Some (Ok f, s)" using 3(2) "1.prems"(1) by (simp add: vm_get_page.simps[of v off])
    show ?thesis
    proof (cases "bind_res (phys_to_virt f) (\<lambda>a. chk_add a ?po) :: (vmo_error, nat) res")
      case (Ok dst)
      then have dst: "dst = f + PHYS_OFFSET + ?po" by (auto simp: phys_to_virt_def chk_add_def split: if_splits)
      let ?s = "poke dst (take ?n bs) s"
      obtain r2 s2 where r2: "write_loop v (off + ?n) (drop ?n bs) ?s = Some (r2, s2)"
        using "1.prems"(2) step 3(1) get Ok by (auto simp: Let_def split: option.splits)
      have out: "s' = s2" "(\<exists>e. r = Err e) \<longleftrightarrow> (\<exists>e. r2 = Err e)"
        using "1.prems"(2) step 3(1) get Ok r2 by (auto simp: Let_def split: res.splits)
      have sv: "vs_vmos ?s v = Some x" using "1.prems"(1) by simp
      from "1.IH"[OF 3(1) refl refl get refl refl Ok sv r2] obtain m where
        IH: "vs_vmos s2 = vs_vmos s" "vs_frames s2 = (vs_frames ?s)\<lparr>ba_mem := m\<rparr>"
        "changed_only (\<Union> (frame_bytes ` F)) (ba_mem (vs_frames ?s)) m"
        "off + ?n + length (drop ?n bs) \<le> length (vm_pages x) * 4096 \<Longrightarrow> \<forall>e. r2 \<noteq> Err e" by auto
      have "changed_only (frame_bytes f) (ba_mem (vs_frames s)) (ba_mem (vs_frames ?s))"
        unfolding dst by (rule poke_changed) (simp add: PAGE_SIZE_def)
      then have "changed_only (\<Union> (frame_bytes ` F)) (ba_mem (vs_frames s)) m"
        using IH(3) f(2) by (auto simp: changed_only_def)
      moreover have "vs_frames s2 = (vs_frames s)\<lparr>ba_mem := m\<rparr>" using IH(2) by (simp add: poke_def vs_map_mem_def)
      moreover have "off + ?n + length (drop ?n bs) = off + length bs" by simp
      ultimately show ?thesis using IH(1,4) out by auto
    next
      case (Err e)
      then show ?thesis by (auto simp: phys_to_virt_def chk_add_def bind_res_Err_iff split: if_splits)
    next
      case Panic
      then have "write_loop v off bs s = Some (Panic, s)" using step 3(1) get by (simp add: Let_def)
      with "1.prems"(2) same show ?thesis by simp
    qed
  qed
qed

lemma kin_new:
  assumes "vm_inv s" and "vs_vmos s v = None" and "\<forall>w. w \<noteq> v \<longrightarrow> vs_vmos s' w = vs_vmos s w" and "vs_vmos s' v = Some x" "vm_parent x = None"
    and "kin (vs_vmos s') w v"
  shows "w = v"
proof (rule ccontr)
  assume "w \<noteq> v"
  with assms(6) obtain u y where u: "vs_vmos s' u = Some y" "vm_parent y = Some v" unfolding kin_def by (auto elim: rtranclE)
  then have "u \<noteq> v" using assms(4,5) by auto
  with u assms(3) have "vs_vmos s u = Some y" by simp
  with u(2) vm_inv_rank[OF assms(1)] assms(2) show False unfolding ranked_def by blast
qed

lemma filled_enlarged:
  assumes ok: "as_ok S pt s" and v: "vs_vmos s v = None" and e: "enlarged S pt v s s1"
    and x: "vs_vmos s1 v = Some x" "vm_parent x = None" and same: "vs_vmos s2 = vs_vmos s1"
    and mem: "\<exists>m. vs_frames s2 = (vs_frames s1)\<lparr>ba_mem := m\<rparr> \<and>
      changed_only (\<Union> (frame_bytes ` free_frames (vs_frames s))) (ba_mem (vs_frames s1)) m"
    and st: "steady s1 s2" and wr: "wrote s1 v off bs s2"
  shows "enlarged S pt v s s2" and "free_frames (vs_frames s2) = free_frames (vs_frames s1)"
proof -
  let ?F = "free_frames (vs_frames s)"
  have inv: "vm_inv s" and tree: "tree_ok S (vs_frames s) pt" using ok by (auto simp: as_ok_def)
  have ok1: "as_ok S pt s1" and tabs1: "tables S (vs_frames s1) pt = tables S (vs_frames s) pt" using e by (auto simp: enlarged_def)
  then have inv1: "vm_inv s1" and tree1: "tree_ok S (vs_frames s1) pt" by (auto simp: as_ok_def)
  have inv2: "vm_inv s2" using st by (simp add: steady_def)
  have disj: "frame_bytes f \<inter> \<Union> (frame_bytes ` ?F) = {}" if "frame_of (vs_frames s) f" "f \<notin> ?F" for f
    using frames_apart[OF vm_inv_buddy[OF inv] that(1)] free_frame_of[OF vm_inv_buddy[OF inv]] that(2) by blast
  have kept: "phys_byte (vs_frames s2) x = phys_byte (vs_frames s1) x" if "x \<notin> \<Union> (frame_bytes ` ?F)" for x
    using mem that by (auto simp: changed_only_def phys_byte_def)
  have ent: "entry_at (vs_frames s2) g j = entry_at (vs_frames s1) g j" if "g \<in> tables S (vs_frames s1) pt" "j < 512" for g j
  proof -
    have "frame_bytes g \<inter> \<Union> (frame_bytes ` ?F) = {}" using disj[of g] tree_tables[OF tree, of g] tabs1 that(1) by blast
    then have "phys_byte (vs_frames s2) x = phys_byte (vs_frames s1) x" if "x \<in> frame_bytes g" for x using that by (intro kept) blast
    then show ?thesis using that(2) by (intro entry_at_frame) auto
  qed
  note tsame = tables_same[of S "vs_frames s1" pt "vs_frames s2", OF ent]
  have free: "free_frames (vs_frames s2) = free_frames (vs_frames s1)"
    using st same inv1 inv2 unfolding steady_def accounts_def vm_inv_def books_ok_def by auto
  then show "free_frames (vs_frames s2) = free_frames (vs_frames s1)" .
  have tab: "ba_table (vs_frames s2) = ba_table (vs_frames s1)" using mem by auto
  have tabs2: "tables S (vs_frames s2) pt = tables S (vs_frames s1) pt" using tsame(1) by (auto simp: tables_def)
  have tree2: "tree_ok S (vs_frames s2) pt"
    using tree1 free tab tsame(1) vm_inv_buddy[OF inv2] unfolding tree_ok_def by auto
  have ok2: "as_ok S pt s2" using ok1 inv2 tree2 same tabs2 by (simp add: as_ok_def devices_aligned_def)
  have data: "data_frame S pt (vs_frames s2) f \<and> frame_content (vs_frames s2) f = frame_content (vs_frames s) f"
    if d: "data_frame S pt (vs_frames s) f" for f
  proof -
    have d1: "data_frame S pt (vs_frames s1) f" "frame_content (vs_frames s1) f = frame_content (vs_frames s) f"
      using e d by (auto simp: enlarged_def)
    have "frame_bytes f \<inter> \<Union> (frame_bytes ` ?F) = {}"
    proof (cases "frame_of (vs_frames s) f \<and> f \<notin> ?F")
      case False
      with d have "frame_bytes f \<inter> table_range (ba_table (vs_frames s)) = {}" by (auto simp: data_frame_def reachable_frame_def)
      with free_frame_of[OF vm_inv_buddy[OF inv]] frame_of_range show ?thesis by blast
    qed (use disj in blast)
    then have "frame_content (vs_frames s2) f = frame_content (vs_frames s1) f" by (intro frame_content_eqI kept) blast
    with d1 tab free tabs2 show ?thesis by (simp add: data_frame_def reachable_frame_def)
  qed
  have "displays s2 k g" if "fst k \<noteq> v" "displays s k g" for k g
  proof -
    have "displays s1 k g" using e that unfolding enlarged_def by blast
    moreover have "\<not> kin (vs_vmos s1) (fst k) v" using kin_new[OF inv v _ x] e that(1) by (auto simp: enlarged_def)
    ultimately show ?thesis using wr unfolding wrote_def by blast
  qed
  then show "enlarged S pt v s s2"
    using ok2 same tsame(2) ent[OF tables_root] tabs2 free data e unfolding enlarged_def by simp
qed

lemma fill_object:
  assumes ok: "as_ok S pt s" and v: "vs_vmos s v = None" and n: "0 < n" "n * 4096 + 4096 < usize_limit"
    and free: "n \<le> card (free_frames (vs_frames s))" and off: "off < n * 4096"
  shows "\<exists>s1 s2 k pgs. vm_create v (n * 4096) VMO_COMMIT s = (Ok (), s1) \<and> vm_write v off bs s1 = Some (Ok k, s2) \<and>
    enlarged S pt v s s2 \<and> takes n (vs_frames s) (vs_frames s2) \<and> vs_vmos s2 v = Some (new_vmo (n * 4096) pgs VMO_COMMIT None) \<and>
    length pgs = n \<and> (\<forall>pg \<in> set pgs. \<exists>f. pg = Committed f True) \<and>
    (\<forall>i < n. displays s2 (v, i) (patch off (take (n * 4096 - off) bs) i (\<lambda>_. 0)))"
proof -
  obtain pgs s1 where c: "vm_create v (n * 4096) VMO_COMMIT s = (Ok (), s1)" "enlarged S pt v s s1"
    "takes n (vs_frames s) (vs_frames s1)" "vs_vmos s1 v = Some (new_vmo (n * 4096) pgs VMO_COMMIT None)" "length pgs = n"
    "\<forall>pg \<in> set pgs. \<exists>f \<in> free_frames (vs_frames s). pg = Committed f True" "\<forall>i < n. displays s1 (v, i) (\<lambda>_. 0)"
    using create_committed[OF ok v n free] by blast
  let ?x = "new_vmo (n * 4096) pgs VMO_COMMIT None" and ?bs = "take (n * 4096 - off) bs" and ?F = "free_frames (vs_frames s)"
  have ok1: "as_ok S pt s1" using c(2) by (simp add: enlarged_def)
  then have inv1: "vm_inv s1" by (simp add: as_ok_def)
  obtain rank where rank: "ranked rank (vs_vmos s1)" using vm_inv_rank[OF inv1] by blast
  have ord: "ordinary ?x" using c(6) by (auto simp: ordinary_def new_vmo_def)
  obtain r s2 where w: "write_loop v off ?bs s1 = Some (r, s2)" "steady s1 s2" "r \<noteq> Panic"
    "\<forall>k. r = Ok k \<longrightarrow> k = length ?bs \<and> wrote s1 v off ?bs s2"
    using write_loop_spec[OF inv1 rank c(4), of off ?bs] ord by blast
  have pg: "\<forall>pg \<in> set (vm_pages ?x). \<exists>f \<in> ?F. pg = Committed f True" using c(6) by (simp add: new_vmo_def)
  note touch = write_touches[OF c(4) pg w(1)]
  have "off + length ?bs \<le> length (vm_pages ?x) * 4096" using off c(5) by (simp add: new_vmo_def)
  with touch w(3) obtain k where k: "r = Ok k" by (cases r) auto
  have call: "vm_write v off bs s1 = Some (Ok k, s2)" using w(1) k c(4) off by (simp add: vm_write_def new_vmo_def del: write_loop.simps)
  have wr: "wrote s1 v off ?bs s2" using w(4) k by blast
  have "vm_parent ?x = None" by (simp add: new_vmo_def)
  note big = filled_enlarged[OF ok v c(2) c(4) this touch[THEN conjunct1] touch[THEN conjunct2, THEN conjunct2] w(2) wr]
  then have "takes n (vs_frames s) (vs_frames s2)" using c(3) by (simp add: takes_def)
  moreover have "displays s2 (v, i) (patch off ?bs i (\<lambda>_. 0))" if "i < n" for i
    using wr c(7) that by (simp add: wrote_def)
  moreover have "\<forall>pg \<in> set pgs. \<exists>f. pg = Committed f True" using c(6) by blast
  moreover have "vs_vmos s2 v = Some ?x" using touch c(4) by simp
  ultimately show ?thesis using c(1,5) call big(1) by blast
qed


section \<open>Mapping them\<close>

lemma enlarged_space:
  assumes "space_ok True a pt s" and "vs_vmos (as_vm s) v = None" and e: "enlarged USER_SLOTS pt v (as_vm s) vm"
  shows "space_ok True a pt (s\<lparr>as_vm := vm\<rparr>)"
proof -
  obtain x where x: "as_vmars s a = Some x" "region_ok x" "va_page_table x = Some pt"
    and just: "\<And>w. slot 3 w \<in> USER_SLOTS \<Longrightarrow> justified pt (as_vm s) x w" using assms(1) unfolding space_ok_def by blast
  have "justified pt vm x w" if sl: "slot 3 w \<in> USER_SLOTS" for w
  proof (cases "mapped_to (vs_frames (as_vm s)) pt w")
    case None
    with e sl show ?thesis by (simp add: justified_def enlarged_def)
  next
    case (Some fg)
    obtain f g where fg: "fg = (f, g)" by fastforce
    with just[OF sl] Some obtain k m i where m: "bt_get (va_mappings x) k = Some m" "i < mp_size m div 4096"
      "page_of w = page_of (k + i * 4096)" "g = mapping_page_flags (mp_flags m)" "data_frame USER_SLOTS pt (vs_frames (as_vm s)) f"
      "displays (as_vm s) (mp_vmo m, (mp_vmo_offset m + i * 4096) div 4096) (frame_content (vs_frames (as_vm s)) f)"
      by (auto simp: justified_def)
    have "mp_vmo m \<noteq> v" using m(6) assms(2) by (auto simp: cells_def elim: displays_inE)
    with e m Some fg sl show ?thesis by (intro justifiedI[where f = f and m = m and k = k and i = i]) (auto simp: enlarged_def)
  qed
  with e x show ?thesis unfolding space_ok_def enlarged_def by auto
qed

text \<open>Page \<open>i\<close> of the mapping of \<open>v\<close> at \<open>k\<close> shows \<open>c i\<close>.\<close>

definition image_at :: "oid \<Rightarrow> nat \<Rightarrow> nat \<Rightarrow> nat \<Rightarrow> (nat \<Rightarrow> nat \<Rightarrow> u8) \<Rightarrow> as_sys \<Rightarrow> bool" where
  "image_at a pt k n c s \<longleftrightarrow> (\<exists>x v fl. as_vmars s a = Some x \<and> bt_get (va_mappings x) k = Some (mapping_of v 0 (n * 4096) fl) \<and>
     (\<forall>i < n. displays (as_vm s) (v, i) (c i) \<and> mapped_to (vs_frames (as_vm s)) pt (k + i * 4096) \<noteq> None))"

lemma region_slot:
  assumes "region_ok x" and "bt_get (va_mappings x) k = Some m" and "i < mp_size m div 4096"
  shows "slot 3 (k + i * 4096) \<in> USER_SLOTS"
  using region_get(2)[OF assms(1,2)] assms(3) by (auto simp: page_span_ok_def)

lemma image_enlarged:
  assumes "image_at a pt k n c s" and sp: "space_ok J a pt s" and "vs_vmos (as_vm s) v = None" and e: "enlarged USER_SLOTS pt v (as_vm s) vm"
  shows "image_at a pt k n c (s\<lparr>as_vm := vm\<rparr>)"
proof -
  obtain x u fl where x: "as_vmars s a = Some x" "bt_get (va_mappings x) k = Some (mapping_of u 0 (n * 4096) fl)"
    and pg: "\<And>i. i < n \<Longrightarrow> displays (as_vm s) (u, i) (c i) \<and> mapped_to (vs_frames (as_vm s)) pt (k + i * 4096) \<noteq> None"
    using assms(1) unfolding image_at_def by blast
  have r: "region_ok x" using sp x(1) by (auto simp: space_ok_def)
  have "displays vm (u, i) (c i) \<and> mapped_to (vs_frames vm) pt (k + i * 4096) \<noteq> None" if i: "i < n" for i
  proof -
    have "u \<noteq> v" using pg[OF i] assms(3) by (auto simp: cells_def elim: displays_inE)
    moreover have "slot 3 (k + i * 4096) \<in> USER_SLOTS" by (rule region_slot[OF r x(2)]) (simp add: mapping_of_def i)
    ultimately show ?thesis using pg[OF i] e by (auto simp: enlarged_def)
  qed
  with x show ?thesis unfolding image_at_def by auto
qed

lemma committed_loop_ok:
  assumes "vs_vmos s v = Some y" and "\<forall>pg \<in> set (vm_pages y). \<exists>f b. pg = Committed f b"
    and "\<forall>i \<in> set is. (off + i * PAGE_SIZE) div PAGE_SIZE < length (vm_pages y)"
    and "va_map_loop pt addr v off fl is s = Some (r, s')"
  shows "r \<noteq> Err VmoFailed"
  using assms(1,3,4)
proof (induction "is" arbitrary: s)
  case (Cons i "is")
  have get: "\<exists>f. vm_get_page v p False s = Some (Ok f, s)" if "p div PAGE_SIZE < length (vm_pages y)" for p
  proof -
    from that assms(2) obtain f b where "vm_pages y ! (p div PAGE_SIZE) = Committed f b" by (meson nth_mem)
    with that Cons.prems(1) show ?thesis by (simp add: vm_get_page.simps[of v p])
  qed
  let ?a = "bind_res (chk_add addr (i * PAGE_SIZE)) (\<lambda>virt. bind_res (chk_add off (i * PAGE_SIZE)) (\<lambda>po. Ok (virt, po)))
    :: (vmar_error, nat \<times> nat) res"
  show ?case
  proof (cases ?a)
    case (Ok q)
    then obtain virt where q: "q = (virt, off + i * PAGE_SIZE)" by (auto simp: chk_add_def split: if_splits)
    obtain f where f: "vm_get_page v (off + i * PAGE_SIZE) False s = Some (Ok f, s)" using get Cons.prems(2) by auto
    obtain r1 b where m: "va_map_page pt virt f fl (vs_frames s) = (r1, b)" by fastforce
    then have "\<forall>e. r1 \<noteq> Err e" by (auto simp: va_map_page_def split: prod.splits res.splits)
    with Cons.prems(3) Ok q f m Cons.IH[of "s\<lparr>vs_frames := b\<rparr>"] Cons.prems(1,2) show ?thesis by (cases r1) auto
  next
    case (Err e)
    then show ?thesis by (auto simp: chk_add_def bind_res_Err_iff split: if_splits)
  next
    case Panic
    with Cons.prems(3) show ?thesis by simp
  qed
qed auto

lemma committed_loop_takes:
  assumes "as_ok S pt s" and "vs_vmos s v = Some y" and "\<forall>pg \<in> set (vm_pages y). \<exists>f b. pg = Committed f b"
    and "page_span_ok S addr off is" and "va_map_loop pt addr v off fl is s = Some (r, s')"
  shows "takes (3 * length is) (vs_frames s) (vs_frames s')"
  using assms(1,2,4,5)
proof (induction "is" arbitrary: s)
  case (Cons i "is")
  let ?va = "addr + i * 4096" and ?off = "off + i * 4096"
  have lim: "?va < usize_limit" "?off < usize_limit" and sl: "slot 3 ?va \<in> S" and rest: "page_span_ok S addr off is"
    using Cons.prems(3) by (auto simp: page_span_ok_def)
  show ?case
  proof (cases "?off div PAGE_SIZE < length (vm_pages y)")
    case False
    then have "vm_get_page v ?off False s = Some (Err OutOfRange, s)" using Cons.prems(2) by (simp add: vm_get_page.simps[of v ?off])
    with Cons.prems(4) lim have "s' = s" by (simp add: chk_add_eq PAGE_SIZE_def)
    then show ?thesis by simp
  next
    case True
    with assms(3) obtain f b where "vm_pages y ! (?off div PAGE_SIZE) = Committed f b" by (meson nth_mem)
    with True Cons.prems(2) have get: "vm_get_page v ?off False s = Some (Ok f, s)" by (simp add: vm_get_page.simps[of v ?off])
    have pf: "page_address f" using get_page_undisturbed[OF Cons.prems(1,2), of ?off False] get by (auto simp: data_frame_def)
    obtain b where b: "va_map_page pt ?va f fl (vs_frames s) = (Ok (), b)" "undisturbed S pt s (s\<lparr>vs_frames := b\<rparr>)" "takes 3 (vs_frames s) b"
      using map_page_at[OF Cons.prems(1) sl pf, of fl] by blast
    have "va_map_loop pt addr v off fl is (s\<lparr>vs_frames := b\<rparr>) = Some (r, s')"
      using Cons.prems(4) get b(1) lim by (simp add: chk_add_eq PAGE_SIZE_def)
    moreover have "as_ok S pt (s\<lparr>vs_frames := b\<rparr>)" using b(2) by (simp add: undisturbed_def)
    ultimately have "takes (3 * length is) b (vs_frames s')" using Cons.IH[of "s\<lparr>vs_frames := b\<rparr>"] Cons.prems(2) rest by simp
    from takes_trans[OF b(3) this] show ?thesis by simp
  qed
qed simp


lemma align_up_pages: "n * 4096 + 4096 < usize_limit \<Longrightarrow> align_up (n * 4096) = n * 4096"
  by (simp add: align_up_def PAGE_SIZE_def)

text \<open>\<open>s'\<close> is \<open>s\<close> with one more mapping.\<close>

definition mapped_more :: "oid \<Rightarrow> nat \<Rightarrow> nat \<Rightarrow> nat \<Rightarrow> as_sys \<Rightarrow> as_sys \<Rightarrow> bool" where
  "mapped_more a pt u n s s' \<longleftrightarrow> undisturbed USER_SLOTS pt (as_vm s) (as_vm s') \<and> vs_vmos (as_vm s') = vs_vmos (as_vm s) \<and>
     (\<exists>x m. as_vmars s a = Some x \<and> (\<forall>(k, m) \<in> set (va_mappings x). u + n * 4096 \<le> k \<or> k + mp_size m \<le> u) \<and> u + n * 4096 \<le> 2 ^ 47 \<and>
        mp_size m = n * 4096 \<and> as_vmars s' = (as_vmars s)(a \<mapsto> x\<lparr>va_mappings := bt_insert u m (va_mappings x)\<rparr>)) \<and>
     (\<forall>w. slot 3 w \<in> USER_SLOTS \<longrightarrow> (\<forall>i < n. page_of w \<noteq> page_of (u + i * 4096)) \<longrightarrow>
        mapped_to (vs_frames (as_vm s')) pt w = mapped_to (vs_frames (as_vm s)) pt w)"

lemma map_committed:
  assumes sp: "space_ok True a pt s" and x: "as_vmars s a = Some x" and u: "contains fl MF_SPECIFIC" "within x u (n * 4096)"
    and apart: "\<forall>(k, m) \<in> set (va_mappings x). u + n * 4096 \<le> k \<or> k + mp_size m \<le> u"
    and y: "vs_vmos (as_vm s) v = Some y" "\<forall>pg \<in> set (vm_pages y). \<exists>f b. pg = Committed f b" "length (vm_pages y) = n"
    and n: "0 < n" and c: "\<forall>i < n. displays (as_vm s) (v, i) (c i)" and free: "3 * n < card (free_frames (vs_frames (as_vm s)))"
  shows "\<exists>s'. va_map a v 0 (n * 4096) fl (Some u) s = Some (Ok u, s') \<and> space_ok True a pt s' \<and> image_at a pt u n c s' \<and>
    mapped_more a pt u n s s' \<and> takes (3 * n) (vs_frames (as_vm s)) (vs_frames (as_vm s'))"
proof -
  have ok: "as_ok USER_SLOTS pt (as_vm s)" and r: "region_ok x" "va_page_table x = Some pt" using sp x by (auto simp: space_ok_def)
  have lim: "u + n * 4096 \<le> 2 ^ 47" using u(2) r(1) by (auto simp: within_def region_ok_def)
  then have al: "align_up (n * 4096) = n * 4096" by (intro align_up_pages) simp
  have span: "page_span_ok USER_SLOTS u 0 [0..<n]" by (rule span_user) (use lim in simp_all)
  obtain r1 vm where l: "va_map_loop pt u v 0 fl [0..<n] (as_vm s) = Some (r1, vm)" "r1 \<in> {Ok (), Err VmoFailed}"
    "undisturbed USER_SLOTS pt (as_vm s) vm"
    "\<forall>w. slot 3 w \<in> USER_SLOTS \<longrightarrow> (\<forall>i < n. page_of w \<noteq> page_of (u + i * 4096)) \<longrightarrow>
       mapped_to (vs_frames vm) pt w = mapped_to (vs_frames (as_vm s)) pt w"
    "r1 = Ok () \<Longrightarrow> \<forall>i < n. shows_page USER_SLOTS pt vm v i fl (u + i * 4096)"
    using map_loop_spec[OF ok y(1) span, of fl] by auto
  have "r1 \<noteq> Err VmoFailed" by (rule committed_loop_ok[OF y(1,2) _ l(1)]) (simp add: y(3) PAGE_SIZE_def)
  then have r1: "r1 = Ok ()" using l(2) by blast
  have tk: "takes (3 * n) (vs_frames (as_vm s)) (vs_frames vm)" using committed_loop_takes[OF ok y(1,2) span l(1)] by simp
  have same: "vs_vmos vm = vs_vmos (as_vm s)" by (rule committed_loop[OF y(1,2) l(1)])
  let ?x = "x\<lparr>va_mappings := bt_insert u (mapping_of v 0 (n * 4096) fl) (va_mappings x)\<rparr>"
  let ?s = "put_vmar a ?x (s\<lparr>as_vm := vm\<rparr>)"
  have call: "va_map a v 0 (n * 4096) fl (Some u) s = Some (Ok u, ?s)"
    using va_map_specific[OF x r u(1), of u "n * 4096" v 0] u(2) apart l(1) r1 by (simp add: al)
  have "request_ok (\<lambda>v. vs_vmos (as_vm s) v \<noteq> None) (MapOp v 0 (n * 4096) fl (Some u))" using y(1) n lim by simp
  from space_map[OF sp this] call have sp': "space_ok True a pt ?s" by simp
  have "free_frames (vs_frames vm) \<noteq> {}" using tk free by (auto simp: takes_def)
  then have "mapped_to (vs_frames vm) pt (u + i * 4096) \<noteq> None" if "i < n" for i
    using l(5)[OF r1] that by (auto simp: shows_page_def)
  moreover have "displays vm (v, i) (c i)" if "i < n" for i using c that l(3) by (simp add: undisturbed_def)
  ultimately have "image_at a pt u n c ?s" unfolding image_at_def by (auto simp: put_vmar_def bt_get_insert)
  moreover have "mapped_more a pt u n s ?s"
    using l(3,4) same x apart lim unfolding mapped_more_def
    by (auto simp: put_vmar_def mapping_of_def intro!: exI[of _ x] exI[of _ "mapping_of v 0 (n * 4096) fl"])
  ultimately show ?thesis using call sp' tk by (auto simp: put_vmar_def)
qed

lemma image_more:
  assumes "image_at a pt k n c s" and sp: "space_ok J a pt s" and "0 < n" "0 < l" and more: "mapped_more a pt u l s s'"
  shows "image_at a pt k n c s'"
proof -
  obtain x v fl where x: "as_vmars s a = Some x" "bt_get (va_mappings x) k = Some (mapping_of v 0 (n * 4096) fl)"
    and pg: "\<And>i. i < n \<Longrightarrow> displays (as_vm s) (v, i) (c i) \<and> mapped_to (vs_frames (as_vm s)) pt (k + i * 4096) \<noteq> None"
    using assms(1) unfolding image_at_def by blast
  have r: "region_ok x" using sp x(1) by (auto simp: space_ok_def)
  obtain m where m: "\<forall>(k, m) \<in> set (va_mappings x). u + l * 4096 \<le> k \<or> k + mp_size m \<le> u" "u + l * 4096 \<le> 2 ^ 47" "mp_size m = l * 4096"
    "as_vmars s' = (as_vmars s)(a \<mapsto> x\<lparr>va_mappings := bt_insert u m (va_mappings x)\<rparr>)"
    using more x(1) unfolding mapped_more_def by auto
  have apart: "u + l * 4096 \<le> k \<or> k + n * 4096 \<le> u" using m(1) bt_get_Some_mem[OF x(2)] by (auto simp: mapping_of_def)
  have "displays (as_vm s') (v, i) (c i) \<and> mapped_to (vs_frames (as_vm s')) pt (k + i * 4096) \<noteq> None" if i: "i < n" for i
  proof -
    have im: "in_mapping k (mapping_of v 0 (n * 4096) fl) (k + i * 4096)" using i by (auto simp: in_mapping_def mapping_of_def)
    have "page_of (k + i * 4096) \<noteq> page_of (u + j * 4096)" if "j < l" for j
      by (rule pages_apart[OF r x(2) im, of u "l * 4096"]) (use apart m(2) that in \<open>auto simp: mapping_of_def\<close>)
    moreover have "slot 3 (k + i * 4096) \<in> USER_SLOTS" by (rule region_slot[OF r x(2)]) (simp add: mapping_of_def i)
    ultimately show ?thesis using more pg[OF i] unfolding mapped_more_def undisturbed_def by auto
  qed
  moreover have "u \<noteq> k" using apart assms(3,4) by auto
  ultimately show ?thesis using x(2) m(4) unfolding image_at_def by (auto simp: bt_get_insert)
qed

section \<open>Loading a segment\<close>

text \<open>The range of pages of a segment and what they are to show.\<close>

definition seg_lo :: "nat \<Rightarrow> load_segment \<Rightarrow> nat" where
  "seg_lo base sg = align_down (base + ls_vaddr sg)"

definition seg_pages :: "nat \<Rightarrow> load_segment \<Rightarrow> nat" where
  "seg_pages base sg = (align_up (base + ls_vaddr sg + ls_memsz sg) - seg_lo base sg) div 4096"

definition seg_page :: "nat \<Rightarrow> load_segment \<Rightarrow> nat \<Rightarrow> nat \<Rightarrow> u8" where
  "seg_page base sg i = patch (base + ls_vaddr sg - seg_lo base sg)
     (take (seg_pages base sg * 4096 - (base + ls_vaddr sg - seg_lo base sg)) (the (ls_data sg))) i (\<lambda>_. 0)"

text \<open>A segment that can be loaded: it has data, is not empty and lies in user space.\<close>

definition seg_ok :: "nat \<Rightarrow> load_segment \<Rightarrow> bool" where
  "seg_ok base sg \<longleftrightarrow> ls_data sg \<noteq> None \<and> 0 < seg_pages base sg \<and> USER_SPACE_START \<le> seg_lo base sg \<and>
     base + ls_vaddr sg + ls_memsz sg \<le> USER_SPACE_END"

lemma seg_span:
  assumes "seg_ok base sg"
  shows "segment_span base sg = Ok (seg_lo base sg, base + ls_vaddr sg - seg_lo base sg, seg_pages base sg * 4096)"
    and "seg_lo base sg + seg_pages base sg * 4096 \<le> USER_SPACE_END"
    and "base + ls_vaddr sg - seg_lo base sg < 4096" and "seg_lo base sg \<le> base + ls_vaddr sg" and "seg_lo base sg mod 4096 = 0"
    and "base + ls_vaddr sg + ls_memsz sg \<le> seg_lo base sg + seg_pages base sg * 4096"
proof -
  let ?v = "base + ls_vaddr sg" and ?e = "base + ls_vaddr sg + ls_memsz sg"
  have e: "?e \<le> 0x7FFFFFFF0000" using assms by (simp add: seg_ok_def USER_SPACE_END_def)
  show lo: "?v - seg_lo base sg < 4096" "seg_lo base sg \<le> ?v" "seg_lo base sg mod 4096 = 0"
    by (simp_all add: seg_lo_def align_down_def PAGE_SIZE_def minus_div_mult_eq_mod)
  have up: "align_up ?e = (?e + 4095) div 4096 * 4096" using e by (simp add: align_up_def PAGE_SIZE_def)
  have "align_up ?e mod 4096 = 0" by (rule align_up_mult)
  moreover have "seg_lo base sg \<le> align_up ?e" unfolding up using lo(2) by linarith
  ultimately have sz: "seg_pages base sg * 4096 = align_up ?e - seg_lo base sg"
    unfolding seg_pages_def using lo(3) by (metis dvd_div_mult_self dvd_diff_nat mod_0_imp_dvd)
  show "segment_span base sg = Ok (seg_lo base sg, ?v - seg_lo base sg, seg_pages base sg * 4096)"
    using e lo(2) \<open>seg_lo base sg \<le> align_up ?e\<close>
    unfolding segment_span_def sz by (simp add: chk_add_eq chk_sub_eq seg_lo_def[symmetric])
  show "?e \<le> seg_lo base sg + seg_pages base sg * 4096" unfolding sz up using \<open>seg_lo base sg \<le> align_up ?e\<close> up by linarith
  have "(?e + 4095) div 4096 \<le> (0x7FFFFFFF0000 + 4095) div 4096" using e by (intro div_le_mono) simp
  then have "(?e + 4095) div 4096 \<le> 0x7FFFFFFF0" by simp
  then show "seg_lo base sg + seg_pages base sg * 4096 \<le> USER_SPACE_END"
    unfolding sz using \<open>seg_lo base sg \<le> align_up ?e\<close> e unfolding up USER_SPACE_END_def by linarith
qed

text \<open>The identifiers from the counter on are unused.\<close>

definition fresh_ids :: "load_sys \<Rightarrow> bool" where
  "fresh_ids s \<longleftrightarrow> (\<forall>w \<ge> ld_next s. vs_vmos (as_vm (ld_as s)) w = None)"

text \<open>One step of loading: \<open>n\<close> pages that show \<open>c\<close> have been added at \<open>u\<close>, and nothing else has changed.\<close>

definition added :: "oid \<Rightarrow> nat \<Rightarrow> nat \<Rightarrow> nat \<Rightarrow> (nat \<Rightarrow> nat \<Rightarrow> u8) \<Rightarrow> load_sys \<Rightarrow> load_sys \<Rightarrow> bool" where
  "added a pt u n c s s' \<longleftrightarrow> space_ok True a pt (ld_as s') \<and> fresh_ids s' \<and> image_at a pt u n c (ld_as s') \<and>
     takes (4 * n) (vs_frames (as_vm (ld_as s))) (vs_frames (as_vm (ld_as s'))) \<and>
     (\<exists>x m. as_vmars (ld_as s) a = Some x \<and> mp_size m = n * 4096 \<and>
        as_vmars (ld_as s') = (as_vmars (ld_as s))(a \<mapsto> x\<lparr>va_mappings := bt_insert u m (va_mappings x)\<rparr>)) \<and>
     (\<forall>k l d. 0 < l \<longrightarrow> image_at a pt k l d (ld_as s) \<longrightarrow> image_at a pt k l d (ld_as s')) \<and>
     (\<forall>j < 512. j \<notin> USER_SLOTS \<longrightarrow> entry_at (vs_frames (as_vm (ld_as s'))) pt j = entry_at (vs_frames (as_vm (ld_as s))) pt j)"

lemma add_object:
  assumes sp: "space_ok True a pt (ld_as s)" and fr: "fresh_ids s" and x: "as_vmars (ld_as s) a = Some x"
    and u: "contains fl MF_SPECIFIC" "within x u (n * 4096)" and n: "0 < n"
    and apart: "\<forall>(k, m) \<in> set (va_mappings x). u + n * 4096 \<le> k \<or> k + mp_size m \<le> u"
    and free: "4 * n < card (free_frames (vs_frames (as_vm (ld_as s))))"
    and e: "enlarged USER_SLOTS pt (ld_next s) (as_vm (ld_as s)) vm" and tk: "takes n (vs_frames (as_vm (ld_as s))) (vs_frames vm)"
    and v: "vs_vmos vm (ld_next s) = Some y" "\<forall>pg \<in> set (vm_pages y). \<exists>f b. pg = Committed f b" "length (vm_pages y) = n"
    and c: "\<forall>i < n. displays vm (ld_next s, i) (c i)"
  shows "\<exists>s'. map_whole a (ld_next s) (n * 4096) fl u (ld_map_vm vm (s\<lparr>ld_next := Suc (ld_next s)\<rparr>)) = Some (Ok (), s') \<and> added a pt u n c s s'"
proof -
  let ?v = "ld_next s" and ?as = "(ld_as s)\<lparr>as_vm := vm\<rparr>"
  have new: "vs_vmos (as_vm (ld_as s)) ?v = None" using fr by (simp add: fresh_ids_def)
  have sp1: "space_ok True a pt ?as" by (rule enlarged_space[OF sp new e])
  have x1: "as_vmars ?as a = Some x" using x by simp
  have "3 * n < card (free_frames (vs_frames (as_vm ?as)))" using tk free by (simp add: takes_def)
  with map_committed[OF sp1 x1 u apart _ v(2,3) n, of ?v c] v(1) c obtain as' where
    m: "va_map a ?v 0 (n * 4096) fl (Some u) ?as = Some (Ok u, as')" "space_ok True a pt as'" "image_at a pt u n c as'"
      "mapped_more a pt u n ?as as'" "takes (3 * n) (vs_frames vm) (vs_frames (as_vm as'))" by auto
  let ?s = "s\<lparr>ld_next := Suc ?v, ld_as := as'\<rparr>"
  have call: "map_whole a ?v (n * 4096) fl u (ld_map_vm vm (s\<lparr>ld_next := Suc ?v\<rparr>)) = Some (Ok (), ?s)"
    using m(1) by (simp add: map_whole_def ld_map_vm_def)
  have "fresh_ids ?s"
    using fr m(4) e by (auto simp: fresh_ids_def mapped_more_def enlarged_def)
  moreover have "takes (4 * n) (vs_frames (as_vm (ld_as s))) (vs_frames (as_vm as'))" using takes_trans[OF tk m(5)] by simp
  moreover have "\<exists>m. mp_size m = n * 4096 \<and> as_vmars as' = (as_vmars (ld_as s))(a \<mapsto> x\<lparr>va_mappings := bt_insert u m (va_mappings x)\<rparr>)"
    using m(4) x unfolding mapped_more_def by auto
  moreover have "image_at a pt k l d as'" if "0 < l" "image_at a pt k l d (ld_as s)" for k l d
    using image_more[OF image_enlarged[OF that(2) sp new e] sp1 that(1) n m(4)] .
  moreover have "entry_at (vs_frames (as_vm as')) pt j = entry_at (vs_frames (as_vm (ld_as s))) pt j" if "j < 512" "j \<notin> USER_SLOTS" for j
    using m(4) e that by (simp add: mapped_more_def undisturbed_def enlarged_def)
  ultimately show ?thesis using call m(2,3) x unfolding added_def by auto
qed


lemma load_flags_specific: "contains load_flags MF_SPECIFIC" "contains stack_flags MF_SPECIFIC"
  by (simp_all add: contains_def load_flags_def stack_flags_def MF_READ_def MF_WRITE_def MF_EXECUTE_def MF_SPECIFIC_def)

lemma load_segment_adds:
  assumes sp: "space_ok True a pt (ld_as s)" and fr: "fresh_ids s" and x: "as_vmars (ld_as s) a = Some x"
    and user: "va_base x = USER_SPACE_START" "va_base x + va_size x = USER_SPACE_END" and sg: "seg_ok base sg"
    and apart: "\<forall>(k, m) \<in> set (va_mappings x). seg_lo base sg + seg_pages base sg * 4096 \<le> k \<or> k + mp_size m \<le> seg_lo base sg"
    and free: "4 * seg_pages base sg < card (free_frames (vs_frames (as_vm (ld_as s))))"
  shows "\<exists>s'. load_segment_at a base sg s = Some (Ok (), s') \<and>
    added a pt (seg_lo base sg) (seg_pages base sg) (seg_page base sg) s s'"
proof -
  let ?n = "seg_pages base sg" and ?u = "seg_lo base sg" and ?off = "base + ls_vaddr sg - seg_lo base sg" and ?v = "ld_next s"
  note span = seg_span[OF sg]
  obtain bs where bs: "ls_data sg = Some bs" and n: "0 < ?n" using sg by (auto simp: seg_ok_def)
  have ok: "as_ok USER_SLOTS pt (as_vm (ld_as s))" using sp by (simp add: space_ok_def)
  have new: "vs_vmos (as_vm (ld_as s)) ?v = None" using fr by (simp add: fresh_ids_def)
  have lim: "?n * 4096 + 4096 < usize_limit" using span(2) by (simp add: USER_SPACE_END_def)
  have some: "?n \<le> card (free_frames (vs_frames (as_vm (ld_as s))))" using free by simp
  have off: "?off < ?n * 4096" using span(3) n by linarith
  obtain s1 s2 k pgs where f: "vm_create ?v (?n * 4096) VMO_COMMIT (as_vm (ld_as s)) = (Ok (), s1)" "vm_write ?v ?off bs s1 = Some (Ok k, s2)"
    "enlarged USER_SLOTS pt ?v (as_vm (ld_as s)) s2" "takes ?n (vs_frames (as_vm (ld_as s))) (vs_frames s2)"
    "vs_vmos s2 ?v = Some (new_vmo (?n * 4096) pgs VMO_COMMIT None)" "length pgs = ?n" "\<forall>pg \<in> set pgs. \<exists>f. pg = Committed f True"
    "\<forall>i < ?n. displays s2 (?v, i) (patch ?off (take (?n * 4096 - ?off) bs) i (\<lambda>_. 0))"
    using fill_object[OF ok new n lim some off, of bs] by blast
  have within: "within x ?u (?n * 4096)" using user span(2) sg by (simp add: within_def seg_ok_def)
  have c: "\<forall>i < ?n. displays s2 (?v, i) (seg_page base sg i)" using f(8) bs by (simp add: seg_page_def)
  have pgs: "\<forall>pg \<in> set (vm_pages (new_vmo (?n * 4096) pgs VMO_COMMIT None)). \<exists>f b. pg = Committed f b"
    "length (vm_pages (new_vmo (?n * 4096) pgs VMO_COMMIT None)) = ?n" using f(6,7) by (simp_all add: new_vmo_def) blast
  from add_object[OF sp fr x load_flags_specific(1) within n apart free f(3,4,5) pgs c]
  show ?thesis using span(1) f(1,2) bs by (simp add: load_segment_at_def Let_def)
qed

lemma load_stack_adds:
  assumes sp: "space_ok True a pt (ld_as s)" and fr: "fresh_ids s" and x: "as_vmars (ld_as s) a = Some x"
    and user: "va_base x = USER_SPACE_START" "va_base x + va_size x = USER_SPACE_END"
    and apart: "\<forall>(k, m) \<in> set (va_mappings x). k + mp_size m \<le> STACK_TOP - DEFAULT_STACK_SIZE"
    and free: "4 * 8192 < card (free_frames (vs_frames (as_vm (ld_as s))))"
  shows "\<exists>s'. load_stack a s = Some (Ok (), s') \<and> added a pt (STACK_TOP - DEFAULT_STACK_SIZE) 8192 (\<lambda>_ _. 0) s s'"
proof -
  have ok: "as_ok USER_SLOTS pt (as_vm (ld_as s))" using sp by (simp add: space_ok_def)
  have new: "vs_vmos (as_vm (ld_as s)) (ld_next s) = None" using fr by (simp add: fresh_ids_def)
  obtain pgs s1 where f: "vm_create (ld_next s) (8192 * 4096) VMO_COMMIT (as_vm (ld_as s)) = (Ok (), s1)"
    "enlarged USER_SLOTS pt (ld_next s) (as_vm (ld_as s)) s1" "takes 8192 (vs_frames (as_vm (ld_as s))) (vs_frames s1)"
    "vs_vmos s1 (ld_next s) = Some (new_vmo (8192 * 4096) pgs VMO_COMMIT None)" "length pgs = 8192"
    "\<forall>pg \<in> set pgs. \<exists>f \<in> free_frames (vs_frames (as_vm (ld_as s))). pg = Committed f True" "\<forall>i < 8192. displays s1 (ld_next s, i) (\<lambda>_. 0)"
    using create_committed[OF ok new, of 8192] free by auto
  have within: "within x (STACK_TOP - DEFAULT_STACK_SIZE) (8192 * 4096)"
    using user by (simp add: within_def STACK_TOP_def DEFAULT_STACK_SIZE_def USER_SPACE_END_def USER_SPACE_START_def)
  have pgs: "\<forall>pg \<in> set (vm_pages (new_vmo (8192 * 4096) pgs VMO_COMMIT None)). \<exists>f b. pg = Committed f b"
    "length (vm_pages (new_vmo (8192 * 4096) pgs VMO_COMMIT None)) = 8192" using f(5,6) by (simp_all add: new_vmo_def) blast
  have apart': "\<forall>(k, m) \<in> set (va_mappings x). STACK_TOP - DEFAULT_STACK_SIZE + 8192 * 4096 \<le> k \<or> k + mp_size m \<le> STACK_TOP - DEFAULT_STACK_SIZE"
    using apart by auto
  from add_object[OF sp fr x load_flags_specific(2) within _ apart' free f(2-4) pgs f(7)[folded]]
  show ?thesis using f(1) by (simp add: load_stack_def Let_def DEFAULT_STACK_SIZE_def)
qed


section \<open>Loading a program\<close>

definition seg_below :: "nat \<Rightarrow> load_segment \<Rightarrow> bool" where
  "seg_below base sg \<longleftrightarrow> seg_lo base sg + seg_pages base sg * 4096 \<le> STACK_TOP - DEFAULT_STACK_SIZE"

fun segs_apart :: "nat \<Rightarrow> load_segment list \<Rightarrow> bool" where
  "segs_apart base [] \<longleftrightarrow> True"
| "segs_apart base (sg # sgs) \<longleftrightarrow> (\<forall>t \<in> set sgs. seg_lo base sg + seg_pages base sg * 4096 \<le> seg_lo base t \<or>
     seg_lo base t + seg_pages base t * 4096 \<le> seg_lo base sg) \<and> segs_apart base sgs"

text \<open>A region of user space whose mappings lie below the stack and apart from the segments to come.\<close>

definition ready_for :: "nat \<Rightarrow> load_segment list \<Rightarrow> vmar \<Rightarrow> bool" where
  "ready_for base sgs x \<longleftrightarrow> va_base x = USER_SPACE_START \<and> va_base x + va_size x = USER_SPACE_END \<and>
     (\<forall>(k, m) \<in> set (va_mappings x). k + mp_size m \<le> STACK_TOP - DEFAULT_STACK_SIZE \<and>
        (\<forall>sg \<in> set sgs. seg_lo base sg + seg_pages base sg * 4096 \<le> k \<or> k + mp_size m \<le> seg_lo base sg))"

lemma set_bt_insert_cases:
  assumes "bt_wf M" and "(k, m) \<in> set (bt_insert u v M)"
  shows "(k, m) = (u, v) \<or> (k, m) \<in> set M"
proof -
  have "bt_get (bt_insert u v M) k = Some m" using assms by (simp add: btm.entries_get bt_wf_insert)
  then show ?thesis using assms(1) by (auto simp: bt_get_insert btm.entries_get split: if_splits)
qed

lemma load_all_adds:
  assumes "space_ok True a pt (ld_as s)" and "fresh_ids s" and "as_vmars (ld_as s) a = Some x" and "ready_for base sgs x"
    and "\<forall>sg \<in> set sgs. seg_ok base sg \<and> seg_below base sg" and "segs_apart base sgs"
    and "4 * (\<Sum>sg \<leftarrow> sgs. seg_pages base sg) < card (free_frames (vs_frames (as_vm (ld_as s))))"
  shows "\<exists>s' y. load_all a base sgs s = Some (Ok (), s') \<and> space_ok True a pt (ld_as s') \<and> fresh_ids s' \<and>
    as_vmars (ld_as s') a = Some y \<and> ready_for base [] y \<and>
    takes (4 * (\<Sum>sg \<leftarrow> sgs. seg_pages base sg)) (vs_frames (as_vm (ld_as s))) (vs_frames (as_vm (ld_as s'))) \<and>
    (\<forall>sg \<in> set sgs. image_at a pt (seg_lo base sg) (seg_pages base sg) (seg_page base sg) (ld_as s')) \<and>
    (\<forall>k l d. 0 < l \<longrightarrow> image_at a pt k l d (ld_as s) \<longrightarrow> image_at a pt k l d (ld_as s')) \<and>
    (\<forall>j < 512. j \<notin> USER_SLOTS \<longrightarrow> entry_at (vs_frames (as_vm (ld_as s'))) pt j = entry_at (vs_frames (as_vm (ld_as s))) pt j)"
  using assms
proof (induction sgs arbitrary: s x)
  case Nil
  then show ?case by (simp add: ready_for_def)
next
  case (Cons sg sgs)
  let ?n = "seg_pages base sg" and ?u = "seg_lo base sg"
  have sg: "seg_ok base sg" "seg_below base sg" "0 < ?n" using Cons.prems(5) by (auto simp: seg_ok_def)
  have user: "va_base x = USER_SPACE_START" "va_base x + va_size x = USER_SPACE_END"
    "\<forall>(k, m) \<in> set (va_mappings x). ?u + ?n * 4096 \<le> k \<or> k + mp_size m \<le> ?u" using Cons.prems(4) by (auto simp: ready_for_def)
  have "4 * ?n < card (free_frames (vs_frames (as_vm (ld_as s))))" using Cons.prems(7) by simp
  from load_segment_adds[OF Cons.prems(1-3) user(1,2) sg(1) user(3) this] obtain s1 where
    s1: "load_segment_at a base sg s = Some (Ok (), s1)" "added a pt ?u ?n (seg_page base sg) s s1" by blast
  then obtain m where m: "mp_size m = ?n * 4096"
    "as_vmars (ld_as s1) a = Some (x\<lparr>va_mappings := bt_insert ?u m (va_mappings x)\<rparr>)"
    using Cons.prems(3) by (auto simp: added_def)
  have wf: "bt_wf (va_mappings x)" using Cons.prems(1,3) by (auto simp: space_ok_def region_ok_def)
  have ready: "ready_for base sgs (x\<lparr>va_mappings := bt_insert ?u m (va_mappings x)\<rparr>)"
    using Cons.prems(4,6) sg(2) m(1) unfolding ready_for_def
    by (auto simp: seg_below_def dest!: set_bt_insert_cases[OF wf])
  have tk: "takes (4 * ?n) (vs_frames (as_vm (ld_as s))) (vs_frames (as_vm (ld_as s1)))" using s1(2) by (simp add: added_def)
  then have free: "4 * (\<Sum>sg \<leftarrow> sgs. seg_pages base sg) < card (free_frames (vs_frames (as_vm (ld_as s1))))"
    using Cons.prems(7) by (auto simp: takes_def)
  have "space_ok True a pt (ld_as s1)" "fresh_ids s1" using s1(2) by (simp_all add: added_def)
  from Cons.IH[OF this m(2) ready _ _ free] Cons.prems(5,6) obtain s' y where IH: "load_all a base sgs s1 = Some (Ok (), s')"
    "space_ok True a pt (ld_as s')" "fresh_ids s'" "as_vmars (ld_as s') a = Some y" "ready_for base [] y"
    "takes (4 * (\<Sum>sg \<leftarrow> sgs. seg_pages base sg)) (vs_frames (as_vm (ld_as s1))) (vs_frames (as_vm (ld_as s')))"
    "\<forall>sg \<in> set sgs. image_at a pt (seg_lo base sg) (seg_pages base sg) (seg_page base sg) (ld_as s')"
    "\<forall>k l d. 0 < l \<longrightarrow> image_at a pt k l d (ld_as s1) \<longrightarrow> image_at a pt k l d (ld_as s')"
    "\<forall>j < 512. j \<notin> USER_SLOTS \<longrightarrow> entry_at (vs_frames (as_vm (ld_as s'))) pt j = entry_at (vs_frames (as_vm (ld_as s1))) pt j"
    by auto
  have "takes (4 * (\<Sum>sg \<leftarrow> sg # sgs. seg_pages base sg)) (vs_frames (as_vm (ld_as s))) (vs_frames (as_vm (ld_as s')))"
    using takes_trans[OF tk IH(6)] by (simp add: algebra_simps)
  moreover have "image_at a pt ?u ?n (seg_page base sg) (ld_as s')" using IH(8) s1(2) sg(3) by (simp add: added_def)
  ultimately show ?case using s1 IH unfolding added_def by (auto simp del: One_nat_def)
qed

text \<open>The new top-level table: no user page is mapped, and the upper half is that of the kernel.\<close>

lemma copy_entries_at:
  assumes "\<forall>i < 4096. \<not> (dst \<le> src + i \<and> src + i < dst + 4096)" and "\<forall>i \<in> set is. i < 512"
  shows "copy_entries src dst is m x = (if dst \<le> x \<and> (x - dst) div 8 \<in> set is then m (src + (x - dst)) else m x)"
  using assms(2)
proof (induction "is" arbitrary: m)
  case (Cons i "is")
  let ?m = "mem_write (dst + i * 8) (mem_read m (src + i * 8) 8) m"
  have i: "i < 512" using Cons.prems by simp
  have at: "?m y = (if dst \<le> y \<and> (y - dst) div 8 = i then m (src + (y - dst)) else m y)" for y
  proof -
    have "dst + i * 8 \<le> y \<and> y < dst + i * 8 + 8 \<longleftrightarrow> dst \<le> y \<and> (y - dst) div 8 = i" by auto
    moreover have "mem_read m (src + i * 8) 8 ! (y - (dst + i * 8)) = m (src + (y - dst))" if "dst + i * 8 \<le> y" "y < dst + i * 8 + 8"
    proof -
      have k: "y - (dst + i * 8) < 8" and e: "src + i * 8 + (y - (dst + i * 8)) = src + (y - dst)" using that by auto
      have "mem_read m (src + i * 8) 8 ! (y - (dst + i * 8)) = m (src + i * 8 + (y - (dst + i * 8)))" using k by (simp add: mem_read_def)
      then show ?thesis by (simp only: e)
    qed
    ultimately show ?thesis by (auto simp: mem_write_def)
  qed
  have src: "?m (src + (x - dst)) = m (src + (x - dst))" if "dst \<le> x" "(x - dst) div 8 \<in> set is"
  proof -
    have "x - dst < 4096" using that Cons.prems by (auto simp: div_less_iff_less_mult)
    from assms(1)[rule_format, OF this] show ?thesis using at[of "src + (x - dst)"] i by (auto simp: div_less_iff_less_mult)
  qed
  show ?case using Cons.IH[of ?m] Cons.prems src at[of x] by auto
qed simp


declare copy_entries.simps [simp del]

lemma copied_entries:
  assumes "\<forall>i < 4096. \<not> (dst \<le> src + i \<and> src + i < dst + 4096)" and "j < 512" and ks: "set ks = {256..<512}"
  shows "mem_u64 (copy_entries src dst ks m) (dst + j * 8) = (if 256 \<le> j then mem_u64 m (src + j * 8) else mem_u64 m (dst + j * 8))"
proof -
  have at: "copy_entries src dst ks m (dst + j * 8 + i) = (if 256 \<le> j then m (src + j * 8 + i) else m (dst + j * 8 + i))"
    if "i < 8" for i
  proof -
    have d: "dst + j * 8 + i - dst = j * 8 + i" "(j * 8 + i) div 8 = j" using that by simp_all
    have "copy_entries src dst ks m (dst + j * 8 + i) =
        (if dst \<le> dst + j * 8 + i \<and> j \<in> set ks then m (src + (j * 8 + i)) else m (dst + j * 8 + i))"
      using copy_entries_at[OF assms(1), of ks m "dst + j * 8 + i"] ks unfolding d by simp
    then show ?thesis using assms(2) ks by (simp add: add.assoc)
  qed
  have "mem_read (copy_entries src dst ks m) (dst + j * 8) 8 = mem_read m (if 256 \<le> j then src + j * 8 else dst + j * 8) 8"
    unfolding mem_read_def by (intro map_cong refl) (use at in simp)
  then show ?thesis by (simp add: mem_u64_def)
qed

lemma new_root_ready:
  assumes inv: "vm_inv (as_vm (ld_as s))" and dev: "devices_aligned (as_vm (ld_as s))"
    and al: "\<forall>f. frame_of (vs_frames (as_vm (ld_as s))) f \<longrightarrow> page_address f"
    and fr: "fresh_ids s" and free: "0 < card (free_frames (vs_frames (as_vm (ld_as s))))"
    and k: "reachable_frame (vs_frames (as_vm (ld_as s))) kpt"
  shows "\<exists>s' pt. new_root kpt s = (Ok (ld_next s), s') \<and> space_ok True (ld_next s) pt (ld_as s') \<and> fresh_ids s' \<and>
    as_vmars (ld_as s') (ld_next s) = Some (va_create_root USER_SPACE_START (USER_SPACE_END - USER_SPACE_START) ALLOC_START pt) \<and>
    takes 1 (vs_frames (as_vm (ld_as s))) (vs_frames (as_vm (ld_as s'))) \<and>
    (\<forall>j < 512. 256 \<le> j \<longrightarrow> entry_at (vs_frames (as_vm (ld_as s'))) pt j = entry_at (vs_frames (as_vm (ld_as s))) kpt j)"
proof -
  let ?vm = "as_vm (ld_as s)" and ?b = "vs_frames (as_vm (ld_as s))"
  have binv: "buddy_inv ?b" by (rule vm_inv_buddy[OF inv])
  show ?thesis
  proof (cases rule: allocate_granted[OF binv zero_less_one])
    case 1
    with no_single_free[OF binv] free show ?thesis by simp
  next
    case (2 pt b1)
    have pt: "frame_of ?b pt" "pt \<in> free_frames ?b" using 2(2) by (auto simp: granted_def)
    have lim: "pt + 4096 \<le> phys_limit" "kpt + 4096 \<le> phys_limit"
      using k frame_of_limit[OF binv pt(1)] by (auto simp: reachable_frame_def)
    have far: "\<forall>i < 4096. \<not> (pt + PHYS_OFFSET \<le> kpt + PHYS_OFFSET + i \<and> kpt + PHYS_OFFSET + i < pt + PHYS_OFFSET + 4096)"
    proof (intro allI impI)
      fix i :: nat assume i: "i < 4096"
      have "frame_bytes kpt \<inter> frame_bytes pt = {}"
      proof (cases "frame_of ?b kpt \<and> kpt \<notin> free_frames ?b")
        case True
        with frames_apart[OF binv _ pt(1), of kpt] pt(2) show ?thesis by auto
      next
        case False
        with k frame_of_range[OF pt(1)] show ?thesis by (auto simp: reachable_frame_def)
      qed
      moreover have "kpt + i \<in> frame_bytes kpt" using i by (simp add: frame_bytes_def)
      ultimately have "kpt + i \<notin> frame_bytes pt" by blast
      then show "\<not> (pt + PHYS_OFFSET \<le> kpt + PHYS_OFFSET + i \<and> kpt + PHYS_OFFSET + i < pt + PHYS_OFFSET + 4096)"
        by (auto simp: frame_bytes_def)
    qed
    let ?m1 = "write_bytes (pt + PHYS_OFFSET) 0 PAGE_SIZE (ba_mem b1)"
    define ks :: "nat list" where "ks = [256..<512]"
    have ks: "set ks = {256..<512}" unfolding ks_def by (rule set_upt)
    let ?m2 = "copy_entries (kpt + PHYS_OFFSET) (pt + PHYS_OFFSET) ks ?m1"
    let ?b2 = "b1\<lparr>ba_mem := ?m2\<rparr>"
    have "changed_only (frame_bytes pt) (ba_mem b1) ?m2"
      unfolding changed_only_def
    proof (intro allI impI)
      fix x assume "x \<notin> frame_bytes pt"
      then have out: "x + PHYS_OFFSET < pt + PHYS_OFFSET \<or> pt + PHYS_OFFSET + 4096 \<le> x + PHYS_OFFSET" by (auto simp: frame_bytes_def)
      then have no: "\<not> (pt + PHYS_OFFSET \<le> x + PHYS_OFFSET \<and> (x + PHYS_OFFSET - (pt + PHYS_OFFSET)) div 8 \<in> set ks)"
        by (auto simp: ks div_less_iff_less_mult)
      have "\<forall>i \<in> set ks. i < 512" by (simp add: ks)
      from copy_entries_at[OF far this, of ?m1 "x + PHYS_OFFSET"]
      have "?m2 (x + PHYS_OFFSET) = ?m1 (x + PHYS_OFFSET)" unfolding if_not_P[OF no] .
      then show "?m2 (x + PHYS_OFFSET) = ba_mem b1 (x + PHYS_OFFSET)" using out by (auto simp: write_bytes_def PAGE_SIZE_def)
    qed
    then have g: "granted ?b pt 1 ?b2" using 2(2) by (intro granted_fill) auto
    have phys: "phys_byte (b1\<lparr>ba_mem := ?m1\<rparr>) x = (if x \<in> frame_bytes pt then 0 else phys_byte b1 x)" for x
      by (auto simp: phys_byte_def write_bytes_def frame_bytes_def PAGE_SIZE_def)
    have kept: "phys_byte (b1\<lparr>ba_mem := ?m1\<rparr>) x = phys_byte ?b x" if x: "x \<in> frame_bytes kpt" for x
    proof -
      obtain i where i: "x = kpt + i" "i < 4096" using x by (auto simp: frame_bytes_def le_iff_add)
      with far[rule_format, OF i(2)] have "x \<notin> frame_bytes pt" by (auto simp: frame_bytes_def)
      moreover have "phys_byte b1 x = phys_byte ?b x"
      proof (cases "frame_of ?b kpt \<and> kpt \<notin> free_frames ?b")
        case True
        with pt(2) have "kpt \<noteq> pt" by auto
        with 2(2) True x show ?thesis unfolding granted_def by (auto simp del: One_nat_def)
      next
        case False
        with k x have "x \<notin> table_range (ba_table ?b)" by (auto simp: reachable_frame_def)
        with 2(2) show ?thesis unfolding granted_def by blast
      qed
      ultimately show ?thesis using phys by simp
    qed
    have e1: "entry_at ?b2 pt j = (if 256 \<le> j then entry_at (b1\<lparr>ba_mem := ?m1\<rparr>) kpt j else entry_at (b1\<lparr>ba_mem := ?m1\<rparr>) pt j)" if "j < 512" for j
      unfolding entry_at_def using copied_entries[OF far that ks, of ?m1] by simp
    have upper: "entry_at ?b2 pt j = entry_at ?b kpt j" if "j < 512" "256 \<le> j" for j
      using e1[OF that(1)] entry_at_frame[of kpt "b1\<lparr>ba_mem := ?m1\<rparr>" ?b j] kept that by simp
    have lower: "\<not> entry_present (entry_at ?b2 pt j)" if "j \<in> USER_SLOTS" for j
      using e1[of j] zero_entry[of pt "b1\<lparr>ba_mem := ?m1\<rparr>" j] phys that by (simp add: USER_SLOTS_def)
    have inv2: "buddy_inv ?b2" and run2: "buddy_run ?b2 = buddy_run ?b" and free2: "free_frames ?b2 = free_frames ?b - {pt}"
      and range2: "table_range (ba_table ?b2) = table_range (ba_table ?b)" using g by (auto simp: granted_def)
    have fo: "frame_of ?b2 f = frame_of ?b f" for f using run2 by metis
    note root = empty_root[OF lower inv2]
    have "frame_of ?b2 pt" "pt \<notin> free_frames ?b2" "\<And>f. frame_of ?b2 f \<Longrightarrow> page_address f" using fo pt(1) free2 al by auto
    note root = empty_root[OF lower inv2 this]
    have books: "books_ok ?b2 (ledger (vs_vmos ?vm))"
      using inv inv2 fo free2 unfolding vm_inv_def books_ok_def by auto
    then have vm2: "vm_inv (?vm\<lparr>vs_frames := ?b2\<rparr>)" using inv range2 by (simp add: vm_inv_def)
    have "pt \<notin> ran (ledger (vs_vmos ?vm))" using inv pt(2) by (auto simp: vm_inv_def books_ok_def)
    then have ok: "as_ok USER_SLOTS pt (?vm\<lparr>vs_frames := ?b2\<rparr>)"
      using vm2 root(1,2) dev by (simp add: as_ok_def devices_aligned_def)
    let ?x = "va_create_root USER_SPACE_START (USER_SPACE_END - USER_SPACE_START) ALLOC_START pt"
    let ?s = "s\<lparr>ld_next := Suc (ld_next s), ld_as := put_vmar (ld_next s) ?x ((ld_as s)\<lparr>as_vm := ?vm\<lparr>vs_frames := ?b2\<rparr>\<rparr>)\<rparr>"
    have "region_ok ?x" by (simp add: region_ok_def va_create_root_def USER_SPACE_START_def USER_SPACE_END_def ALLOC_START_def)
    then have sp: "space_ok True (ld_next s) pt (ld_as ?s)"
      using ok root(3) by (simp add: space_ok_def put_vmar_def justified_def) (simp add: va_create_root_def)
    have call: "new_root kpt s = (Ok (ld_next s), ?s)"
      unfolding new_root_def copy_kernel_mappings_def ks_def[symmetric]
      using 2(1) lim by (simp add: buddy_allocate_one_def phys_to_virt_ok with_mem_def Let_def)
    have tk: "takes 1 ?b ?b2" by (rule takes_one[OF free2])
    have "fresh_ids ?s" using fr by (simp add: fresh_ids_def put_vmar_def)
    with sp call tk upper show ?thesis by (intro exI[of _ ?s] exI[of _ pt]) (simp add: put_vmar_def)
  qed
qed


text \<open>A byte of user memory, as the processor finds it through the page table.\<close>

definition user_byte :: "buddy \<Rightarrow> nat \<Rightarrow> nat \<Rightarrow> u8 option" where
  "user_byte b pt va = map_option (\<lambda>(f, _). phys_byte b (f + va mod 4096)) (mapped_to b pt va)"

lemma image_byte:
  assumes sp: "space_ok True a pt s" and im: "image_at a pt k n c s" and k: "k mod 4096 = 0" and j: "j < n * 4096"
  shows "user_byte (vs_frames (as_vm s)) pt (k + j) = Some (c (j div 4096) (j mod 4096))"
proof -
  let ?b = "vs_frames (as_vm s)" and ?i = "j div 4096"
  obtain x v fl where x: "as_vmars s a = Some x" "bt_get (va_mappings x) k = Some (mapping_of v 0 (n * 4096) fl)"
    and pg: "\<And>i. i < n \<Longrightarrow> displays (as_vm s) (v, i) (c i) \<and> mapped_to ?b pt (k + i * 4096) \<noteq> None"
    using im unfolding image_at_def by blast
  have r: "region_ok x" and just: "\<And>w. slot 3 w \<in> USER_SLOTS \<Longrightarrow> justified pt (as_vm s) x w"
    using sp x(1) by (auto simp: space_ok_def)
  have i: "?i < n" using j by (simp add: div_less_iff_less_mult)
  have off: "(k + j) mod 4096 = j mod 4096" using k by (metis mod_add_left_eq add_0)
  obtain q where "k = 4096 * q" using k by auto
  then have "(k + j) div 4096 = (k + ?i * 4096) div 4096" by simp
  then have page: "page_of (k + j) = page_of (k + ?i * 4096)" by (simp add: page_of_def)
  let ?w = "k + ?i * 4096"
  have sl: "slot 3 ?w \<in> USER_SLOTS" by (rule region_slot[OF r x(2)]) (simp add: mapping_of_def i)
  obtain f g where fg: "mapped_to ?b pt ?w = Some (f, g)" using pg[OF i] by auto
  with just[OF sl] obtain k' m i' where m: "bt_get (va_mappings x) k' = Some m" "i' < mp_size m div 4096" "page_of ?w = page_of (k' + i' * 4096)"
    "displays (as_vm s) (mp_vmo m, (mp_vmo_offset m + i' * 4096) div 4096) (frame_content ?b f)" by (auto simp: justified_def)
  have im: "in_mapping k (mapping_of v 0 (n * 4096) fl) ?w" using i by (auto simp: in_mapping_def mapping_of_def)
  have "k' = k"
    using pages_apart[OF r x(2) im region_apart[OF r x(2) m(1)] _ _ m(2)] m(3) region_get(1)[OF r m(1)] r
    by (auto simp: within_def region_ok_def)
  with m x(2) have same: "m = mapping_of v 0 (n * 4096) fl" by simp
  have "inj_on (\<lambda>i. page_of (k + i * 4096)) {0..<n}"
    using region_get(2)[OF r x(2)] by (simp add: page_span_ok_def mapping_of_def distinct_map)
  then have "i' = ?i" using m(2,3) same i \<open>k' = k\<close> by (auto simp: inj_on_def mapping_of_def)
  then have "displays (as_vm s) (v, ?i) (frame_content ?b f)" using m(4) same by (simp add: mapping_of_def)
  then have "frame_content ?b f = c ?i" using displays_det pg[OF i] by metis
  then have "phys_byte ?b (f + j mod 4096) = c ?i (j mod 4096)" by (simp add: frame_content_def fun_eq_iff split: if_splits)
  moreover have "mapped_to ?b pt (k + j) = Some (f, g)" using mapped_page[OF page] fg by simp
  ultimately show ?thesis by (simp add: user_byte_def off)
qed

text \<open>The bytes of a segment: those of the file, then zeros.\<close>

lemma seg_page_byte:
  assumes sg: "seg_ok base sg" and j: "j < ls_memsz sg" and d: "ls_data sg = Some bs"
  defines "u \<equiv> base + ls_vaddr sg + j - seg_lo base sg"
  shows "seg_page base sg (u div 4096) (u mod 4096) = (if j < length bs then bs ! j else 0)" and "u < seg_pages base sg * 4096"
    and "seg_lo base sg + u = base + ls_vaddr sg + j"
proof -
  let ?off = "base + ls_vaddr sg - seg_lo base sg"
  note span = seg_span[OF sg]
  have u: "u = ?off + j" using span(4) by (simp add: u_def)
  show lt: "u < seg_pages base sg * 4096" using span(4,6) j by (simp add: u_def)
  show "seg_lo base sg + u = base + ls_vaddr sg + j" using span(4) by (simp add: u_def)
  have "u div 4096 * 4096 + u mod 4096 = u" by simp
  then show "seg_page base sg (u div 4096) (u mod 4096) = (if j < length bs then bs ! j else 0)"
    using lt u by (auto simp: seg_page_def patch_def d)
qed

text \<open>The end of the program, for segments in user space.\<close>

lemma align_up_user:
  assumes "e \<le> USER_SPACE_END"
  shows "e \<le> align_up e" "align_up e \<le> USER_SPACE_END"
proof -
  have e: "e \<le> 0x7FFFFFFF0000" using assms by (simp add: USER_SPACE_END_def)
  then have up: "align_up e = (e + 4095) div 4096 * 4096" by (simp add: align_up_def PAGE_SIZE_def)
  show "e \<le> align_up e" unfolding up by linarith
  have "(e + 4095) div 4096 \<le> (0x7FFFFFFF0000 + 4095) div 4096" using e by (intro div_le_mono) simp
  then show "align_up e \<le> USER_SPACE_END" unfolding up USER_SPACE_END_def by simp
qed

lemma max_end_ok:
  assumes "\<forall>sg \<in> set sgs. base + ls_vaddr sg + ls_memsz sg \<le> USER_SPACE_END" and "m \<le> USER_SPACE_END"
  shows "\<exists>m'. max_end_loop base sgs m = Ok m' \<and> m' \<le> USER_SPACE_END \<and> m \<le> m' \<and>
    (\<forall>sg \<in> set sgs. base + ls_vaddr sg + ls_memsz sg \<le> m')"
  using assms
proof (induction sgs arbitrary: m)
  case Nil
  then show ?case by simp
next
  case (Cons sg sgs)
  let ?e = "base + ls_vaddr sg + ls_memsz sg"
  have e: "?e \<le> USER_SPACE_END" "max m ?e \<le> USER_SPACE_END" using Cons.prems by auto
  obtain m' where "max_end_loop base sgs (align_up (max m ?e)) = Ok m'" "m' \<le> USER_SPACE_END" "align_up (max m ?e) \<le> m'"
    "\<forall>sg \<in> set sgs. base + ls_vaddr sg + ls_memsz sg \<le> m'"
    using Cons.IH[OF _ align_up_user(2)[OF e(2)]] Cons.prems(1) by auto
  with align_up_user(1)[OF e(2)] e(1) show ?case by (auto simp: chk_add_eq USER_SPACE_END_def)
qed

lemma brk_above:
  assumes "m \<le> USER_SPACE_END"
  shows "m \<le> (m + 0xFFF) div 4096 * 4096" "chk_add m 0xFFF = (Ok (m + 0xFFF) :: (loader_error, nat) res)"
  using assms by (linarith, simp add: chk_add_eq USER_SPACE_END_def)

text \<open>The address space with all segments and the stack.\<close>

lemma space_filled:
  assumes inv: "vm_inv (as_vm (ld_as s))" "devices_aligned (as_vm (ld_as s))" "\<forall>f. frame_of (vs_frames (as_vm (ld_as s))) f \<longrightarrow> page_address f"
      "fresh_ids s" "reachable_frame (vs_frames (as_vm (ld_as s))) kpt"
    and sgs: "\<forall>sg \<in> set sgs. seg_ok base sg \<and> seg_below base sg" "segs_apart base sgs"
    and free: "1 + 4 * (\<Sum>sg \<leftarrow> sgs. seg_pages base sg) + 4 * 8192 < card (free_frames (vs_frames (as_vm (ld_as s))))"
  shows "\<exists>s1 s2 s3 pt. new_root kpt s = (Ok (ld_next s), s1) \<and> load_all (ld_next s) base sgs s1 = Some (Ok (), s2) \<and>
    load_stack (ld_next s) s2 = Some (Ok (), s3) \<and> space_ok True (ld_next s) pt (ld_as s3) \<and>
    (\<forall>sg \<in> set sgs. image_at (ld_next s) pt (seg_lo base sg) (seg_pages base sg) (seg_page base sg) (ld_as s3)) \<and>
    image_at (ld_next s) pt (STACK_TOP - DEFAULT_STACK_SIZE) 8192 (\<lambda>_ _. 0) (ld_as s3) \<and>
    (\<forall>j < 512. 256 \<le> j \<longrightarrow> entry_at (vs_frames (as_vm (ld_as s3))) pt j = entry_at (vs_frames (as_vm (ld_as s))) kpt j)"
proof -
  let ?a = "ld_next s"
  let ?fr = "\<lambda>s. free_frames (vs_frames (as_vm (ld_as s)))" and ?n = "\<Sum>sg \<leftarrow> sgs. seg_pages base sg"
  have "0 < card (?fr s)" using free by simp
  from new_root_ready[OF inv(1-4) this inv(5)] obtain s1 pt where s1: "new_root kpt s = (Ok ?a, s1)" "space_ok True ?a pt (ld_as s1)" "fresh_ids s1"
    "as_vmars (ld_as s1) ?a = Some (va_create_root USER_SPACE_START (USER_SPACE_END - USER_SPACE_START) ALLOC_START pt)"
    "takes 1 (vs_frames (as_vm (ld_as s))) (vs_frames (as_vm (ld_as s1)))"
    "\<forall>j < 512. 256 \<le> j \<longrightarrow> entry_at (vs_frames (as_vm (ld_as s1))) pt j = entry_at (vs_frames (as_vm (ld_as s))) kpt j" by blast
  have ready: "ready_for base sgs (va_create_root USER_SPACE_START (USER_SPACE_END - USER_SPACE_START) ALLOC_START pt)"
    by (simp add: ready_for_def va_create_root_def USER_SPACE_START_def USER_SPACE_END_def)
  have "4 * ?n < card (?fr s1)" using s1(5) free by (auto simp: takes_def)
  from load_all_adds[OF s1(2-4) ready sgs this] obtain s2 y where s2: "load_all ?a base sgs s1 = Some (Ok (), s2)"
    "space_ok True ?a pt (ld_as s2)" "fresh_ids s2" "as_vmars (ld_as s2) ?a = Some y" "ready_for base [] y"
    "takes (4 * ?n) (vs_frames (as_vm (ld_as s1))) (vs_frames (as_vm (ld_as s2)))"
    "\<forall>sg \<in> set sgs. image_at ?a pt (seg_lo base sg) (seg_pages base sg) (seg_page base sg) (ld_as s2)"
    "\<forall>j < 512. j \<notin> USER_SLOTS \<longrightarrow> entry_at (vs_frames (as_vm (ld_as s2))) pt j = entry_at (vs_frames (as_vm (ld_as s1))) pt j" by blast
  have y: "va_base y = USER_SPACE_START" "va_base y + va_size y = USER_SPACE_END"
    "\<forall>(k, m) \<in> set (va_mappings y). k + mp_size m \<le> STACK_TOP - DEFAULT_STACK_SIZE" using s2(5) by (auto simp: ready_for_def)
  have "4 * 8192 < card (?fr s2)" using s1(5) s2(6) free by (auto simp: takes_def)
  from load_stack_adds[OF s2(2-4) y this] obtain s3 where s3: "load_stack ?a s2 = Some (Ok (), s3)"
    "added ?a pt (STACK_TOP - DEFAULT_STACK_SIZE) 8192 (\<lambda>_ _. 0) s2 s3" by blast
  have "\<forall>sg \<in> set sgs. image_at ?a pt (seg_lo base sg) (seg_pages base sg) (seg_page base sg) (ld_as s3)"
    using s2(7) s3(2) sgs(1) by (simp add: added_def seg_ok_def)
  moreover have "\<forall>j < 512. 256 \<le> j \<longrightarrow> entry_at (vs_frames (as_vm (ld_as s3))) pt j = entry_at (vs_frames (as_vm (ld_as s))) kpt j"
    using s1(6) s2(8) s3(2) by (auto simp: added_def USER_SLOTS_def)
  ultimately show ?thesis using s1(1) s2(1) s3 by (auto simp: added_def)
qed

section \<open>Properties\<close>

text \<open>C11: The loader does what it is for. In a system whose memory invariant holds, for a file that parses and whose loadable segments have data, lie in
  user space below the stack and on different pages, and with enough free frames, loading succeeds. The new address space is faithful: every present
  entry of its page table belongs to a mapping of the root region. Through the page table each byte of a segment's memory reads as the byte of the file, and as 0
  beyond the data of the file, the whole stack reads as 0, and the upper half of the table is that of the kernel. Entry, stack top and base are those the
  file and the layout name, and the break lies above all segments.\<close>

theorem program_load_correct:
  assumes inv: "vm_inv (as_vm (ld_as s))" "devices_aligned (as_vm (ld_as s))" "\<forall>f. frame_of (vs_frames (as_vm (ld_as s))) f \<longrightarrow> page_address f"
      "fresh_ids s" "reachable_frame (vs_frames (as_vm (ld_as s))) kpt"
    and elf: "elf_parse elf = Ok p" "elf_load_segments p = Ok sgs" "load_base p + unat (elf_entry_point p) < usize_limit"
    and sgs: "\<forall>sg \<in> set sgs. seg_ok (load_base p) sg \<and> seg_below (load_base p) sg" "segs_apart (load_base p) sgs"
    and free: "1 + 4 * (\<Sum>sg \<leftarrow> sgs. seg_pages (load_base p) sg) + 4 * 8192 < card (free_frames (vs_frames (as_vm (ld_as s))))"
  shows "\<exists>lp s' pt. program_load kpt elf s = Some (Ok lp, s') \<and> space_ok True (lp_root_vmar lp) pt (ld_as s') \<and>
    (\<forall>sg \<in> set sgs. \<forall>j < ls_memsz sg. user_byte (vs_frames (as_vm (ld_as s'))) pt (load_base p + ls_vaddr sg + j) =
       Some (if j < length (the (ls_data sg)) then the (ls_data sg) ! j else 0)) \<and>
    (\<forall>j < DEFAULT_STACK_SIZE. user_byte (vs_frames (as_vm (ld_as s'))) pt (lp_stack_top lp - DEFAULT_STACK_SIZE + j) = Some 0) \<and>
    (\<forall>j < 512. 256 \<le> j \<longrightarrow> entry_at (vs_frames (as_vm (ld_as s'))) pt j = entry_at (vs_frames (as_vm (ld_as s))) kpt j) \<and>
    lp_entry lp = load_base p + unat (elf_entry_point p) \<and> lp_stack_top lp = STACK_TOP \<and> lp_base_address lp = load_base p \<and>
    (\<forall>sg \<in> set sgs. load_base p + ls_vaddr sg + ls_memsz sg \<le> lp_brk lp)"
proof -
  let ?base = "load_base p" and ?a = "ld_next s"
  from space_filled[OF inv sgs free] obtain s1 s2 s3 pt where s1: "new_root kpt s = (Ok ?a, s1)"
    and s2: "load_all ?a ?base sgs s1 = Some (Ok (), s2)" and s3: "load_stack ?a s2 = Some (Ok (), s3)"
    and sp: "space_ok True ?a pt (ld_as s3)" and im: "\<forall>sg \<in> set sgs. image_at ?a pt (seg_lo ?base sg) (seg_pages ?base sg) (seg_page ?base sg) (ld_as s3)"
    and st: "image_at ?a pt (STACK_TOP - DEFAULT_STACK_SIZE) 8192 (\<lambda>_ _. 0) (ld_as s3)"
    and upper: "\<forall>j < 512. 256 \<le> j \<longrightarrow> entry_at (vs_frames (as_vm (ld_as s3))) pt j = entry_at (vs_frames (as_vm (ld_as s))) kpt j" by blast
  have ends: "\<forall>sg \<in> set sgs. ?base + ls_vaddr sg + ls_memsz sg \<le> USER_SPACE_END" using sgs(1) by (simp add: seg_ok_def)
  obtain m where m: "max_end_loop ?base sgs 0 = Ok m" "m \<le> USER_SPACE_END" "\<forall>sg \<in> set sgs. ?base + ls_vaddr sg + ls_memsz sg \<le> m"
    using max_end_ok[OF ends, of 0] by auto
  define lp where "lp = \<lparr>lp_entry = ?base + unat (elf_entry_point p), lp_stack_top = STACK_TOP, lp_root_vmar = ?a,
    lp_base_address = ?base, lp_brk = (m + 0xFFF) div 4096 * 4096\<rparr>"
  have call: "program_load kpt elf s = Some (Ok lp, s3)"
    using elf m s1 s2 s3 brk_above(2)[OF m(2)] by (simp add: program_load_def abandon_def chk_add_eq lp_def)
  have byte: "user_byte (vs_frames (as_vm (ld_as s3))) pt (?base + ls_vaddr sg + j) =
      Some (if j < length (the (ls_data sg)) then the (ls_data sg) ! j else 0)" if "sg \<in> set sgs" "j < ls_memsz sg" for sg j
  proof -
    have ok: "seg_ok ?base sg" using sgs(1) that(1) by blast
    then obtain bs where bs: "ls_data sg = Some bs" by (auto simp: seg_ok_def)
    note b = seg_page_byte[OF ok that(2) bs]
    from image_byte[OF sp im[rule_format, OF that(1)] seg_span(5)[OF ok] b(2)] show ?thesis using b(1,3) bs by simp
  qed
  have stack: "user_byte (vs_frames (as_vm (ld_as s3))) pt (STACK_TOP - DEFAULT_STACK_SIZE + j) = Some 0" if "j < DEFAULT_STACK_SIZE" for j
    by (rule image_byte[OF sp st]) (use that in \<open>simp_all add: STACK_TOP_def DEFAULT_STACK_SIZE_def\<close>)
  have "\<forall>sg \<in> set sgs. ?base + ls_vaddr sg + ls_memsz sg \<le> lp_brk lp" using m(3) brk_above(1)[OF m(2)] by (auto simp: lp_def intro: order_trans)
  with call sp byte stack upper show ?thesis
    by (intro exI[of _ lp] exI[of _ s3] exI[of _ pt]) (simp add: lp_def)
qed


text \<open>The loader unwraps the data of a segment. A segment without data, such as one that holds only zero-initialised variables and has no bytes in
  the file, makes loading panic in the kernel, although the file is accepted and the segment lies in user space.\<close>

theorem dataless_segment_panics:
  assumes inv: "vm_inv (as_vm (ld_as s))" "devices_aligned (as_vm (ld_as s))" "\<forall>f. frame_of (vs_frames (as_vm (ld_as s))) f \<longrightarrow> page_address f"
      "fresh_ids s" "reachable_frame (vs_frames (as_vm (ld_as s))) kpt"
    and elf: "elf_parse elf = Ok p" "elf_load_segments p = Ok (sg # sgs)" "ls_data sg = None"
    and lo: "USER_SPACE_START \<le> seg_lo (load_base p) sg" "0 < seg_pages (load_base p) sg"
    and ends: "\<forall>t \<in> set (sg # sgs). load_base p + ls_vaddr t + ls_memsz t \<le> USER_SPACE_END"
    and free: "1 + seg_pages (load_base p) sg \<le> card (free_frames (vs_frames (as_vm (ld_as s))))"
  shows "\<exists>s'. program_load kpt elf s = Some (Panic, s')"
proof -
  let ?base = "load_base p" and ?a = "ld_next s" and ?sg = "sg\<lparr>ls_data := Some []\<rparr>" and ?n = "seg_pages (load_base p) sg"
  have same: "segment_span ?base ?sg = segment_span ?base sg" "seg_pages ?base ?sg = ?n" "seg_lo ?base ?sg = seg_lo ?base sg"
    by (simp_all add: segment_span_def seg_pages_def seg_lo_def)
  have "seg_ok ?base ?sg" using lo ends by (simp add: seg_ok_def same)
  note span = seg_span[OF this, unfolded same]
  have "0 < card (free_frames (vs_frames (as_vm (ld_as s))))" using free by simp
  from new_root_ready[OF inv(1-4) this inv(5)] obtain s1 pt where s1: "new_root kpt s = (Ok ?a, s1)" "space_ok True ?a pt (ld_as s1)" "fresh_ids s1"
    "takes 1 (vs_frames (as_vm (ld_as s))) (vs_frames (as_vm (ld_as s1)))" by blast
  have "as_ok USER_SLOTS pt (as_vm (ld_as s1))" "vs_vmos (as_vm (ld_as s1)) (ld_next s1) = None"
    using s1(2,3) by (simp_all add: space_ok_def fresh_ids_def)
  note create = create_committed[OF this lo(2)]
  have "?n * 4096 + 4096 < usize_limit" "?n \<le> card (free_frames (vs_frames (as_vm (ld_as s1))))"
    using span(2) s1(4) free by (auto simp: USER_SPACE_END_def takes_def)
  from create[OF this] obtain vm where "vm_create (ld_next s1) (?n * 4096) VMO_COMMIT (as_vm (ld_as s1)) = (Ok (), vm)" by blast
  then obtain s2 where "load_all ?a ?base (sg # sgs) s1 = Some (Panic, s2)"
    using span(1) elf(3) by (simp add: load_segment_at_def Let_def)
  moreover obtain m where "max_end_loop ?base (sg # sgs) 0 = Ok m" using max_end_ok[OF ends, of 0] by auto
  ultimately have "program_load kpt elf s = Some (Panic, s2)"
    using elf(1,2) s1(1) by (simp add: program_load_def abandon_def del: load_all.simps max_end_loop.simps)
  then show ?thesis by blast
qed

section \<open>A sample system\<close>

text \<open>An area of 65536 pages at \<open>0x200000\<close>: sixteen pages of usage counters, then the top-level table of the kernel; the others are free. There is no
  object.\<close>

abbreviation wide_entry :: buddy_entry where
  "wide_entry \<equiv> \<lparr>be_base = 0x200000, be_size = 0x10000000, be_skip = 16, be_used = 17\<rparr>"

definition wide_buddy :: buddy where
  "wide_buddy = \<lparr>ba_table_virt = 0xFFFF800000000000, ba_table = wide_entry # replicate 127 be_empty,
     ba_mem = (\<lambda>x. if 0x200000 + PHYS_OFFSET \<le> x \<and> x < 0x200011 + PHYS_OFFSET then 1 else 0)\<rparr>"

definition wide_sys :: load_sys where
  "wide_sys = \<lparr>ld_as = \<lparr>as_vm = \<lparr>vs_frames = wide_buddy, vs_vmos = Map.empty\<rparr>, as_vmars = Map.empty\<rparr>, ld_next = 1\<rparr>"

lemma wide_taken: "{p. p < 0x10000 \<and> be_taken wide_entry (ba_mem wide_buddy) p} = {..<17}"
  by (auto simp: be_taken_def be_pages_def be_usage_pages_def page_defs wide_buddy_def split: if_splits)

lemma wide_pages: "be_pages wide_entry = 0x10000" "be_usage_pages wide_entry = 16"
  by (simp_all add: be_pages_def be_usage_pages_def page_defs)

lemma wide_buddy_inv: "buddy_inv wide_buddy"
proof -
  have "be_ok wide_entry (ba_mem wide_buddy)"
    unfolding be_ok_def wide_pages wide_taken by (auto simp: be_bounded_def phys_limit_def be_taken_def wide_pages wide_buddy_def)
  moreover have "be_range be_empty = {}" by (simp add: be_range_def be_empty_def)
  moreover have "ba_table wide_buddy = wide_entry # replicate 127 be_empty" "ba_table_virt wide_buddy = 0xFFFF800000000000"
    by (simp_all add: wide_buddy_def)
  ultimately show ?thesis by (simp add: buddy_inv_def table_ok_empty BUDDY_ENTRIES_def PAGE_SIZE_def)
qed

lemma wide_free: "free_frames wide_buddy = (\<lambda>p. 0x200000 + p * 4096) ` {17..<0x10000}"
proof -
  have "be_free be_empty m = {}" for m by (simp add: be_free_def be_empty_def be_pages_def page_defs)
  moreover have "be_free wide_entry (ba_mem wide_buddy) = (\<lambda>p. 0x200000 + p * 4096) ` {17..<0x10000}"
    unfolding be_free_def wide_pages using wide_taken by (auto simp: set_eq_iff image_iff not_less) (metis lessThan_iff not_less)+
  moreover have "ba_table wide_buddy = wide_entry # replicate 127 be_empty" by (simp add: wide_buddy_def)
  ultimately show ?thesis by (auto simp: free_frames_def table_free_def)
qed

lemma wide_frames: "frame_of wide_buddy f \<longleftrightarrow> (\<exists>p. 16 \<le> p \<and> p < 0x10000 \<and> f = 0x200000 + p * 4096)"
proof -
  have "ba_table wide_buddy = wide_entry # replicate 127 be_empty" by (simp add: wide_buddy_def)
  then show ?thesis by (auto simp: managed_def be_empty_def be_pages_def be_usage_pages_def page_defs)
qed

lemma wide_card: "card (free_frames wide_buddy) = 0x10000 - 17"
  unfolding wide_free by (subst card_image) (simp_all add: inj_on_def)

lemma wide_ready:
  "vm_inv (as_vm (ld_as wide_sys))" "devices_aligned (as_vm (ld_as wide_sys))"
  "\<forall>f. frame_of (vs_frames (as_vm (ld_as wide_sys))) f \<longrightarrow> page_address f" "fresh_ids wide_sys"
  "reachable_frame (vs_frames (as_vm (ld_as wide_sys))) 0x210000" "card (free_frames (vs_frames (as_vm (ld_as wide_sys)))) = 0x10000 - 17"
proof -
  have fr: "vs_frames (as_vm (ld_as wide_sys)) = wide_buddy" "vs_vmos (as_vm (ld_as wide_sys)) = Map.empty" by (simp_all add: wide_sys_def)
  have "ledger Map.empty = Map.empty" by (auto simp: ledger_def fun_eq_iff)
  then show "vm_inv (as_vm (ld_as wide_sys))" "devices_aligned (as_vm (ld_as wide_sys))" "fresh_ids wide_sys"
    using wide_buddy_inv by (simp_all add: vm_inv_def fr books_ok_def heap_ok_def ranked_def devices_aligned_def fresh_ids_def)
  show "\<forall>f. frame_of (vs_frames (as_vm (ld_as wide_sys))) f \<longrightarrow> page_address f" by (auto simp: fr wide_frames page_address_def)
  show "reachable_frame (vs_frames (as_vm (ld_as wide_sys))) 0x210000"
    by (auto simp: fr reachable_frame_def wide_frames wide_free phys_limit_def intro: exI[of _ 16])
  show "card (free_frames (vs_frames (as_vm (ld_as wide_sys)))) = 0x10000 - 17" by (simp only: fr wide_card)
qed

theorem program_load_correct_witness:
  "\<exists>lp s' pt. program_load 0x210000 sample_file wide_sys = Some (Ok lp, s') \<and> lp_entry lp = 0x400000 \<and>
     user_byte (vs_frames (as_vm (ld_as s'))) pt 0x400003 = Some 4 \<and> user_byte (vs_frames (as_vm (ld_as s'))) pt 0x400FFF = Some 0 \<and>
     user_byte (vs_frames (as_vm (ld_as s'))) pt (STACK_TOP - 1) = Some 0"
proof -
  let ?sg = "segment_of sample_file sample_load"
  have segs: "elf_load_segments sample_parser = Ok [?sg]"
    using sample_range table_iter[of sample_parser]
    by (simp add: elf_load_segments_def segs_collect_rest sample_headers load_segment_in_range sample_load_facts)
      (simp add: sample_parser_def)
  have base: "load_base sample_parser = 0" "unat (elf_entry_point sample_parser) = 0x400000"
    by (simp_all add: load_base_def elf_is_pie_def eh_type_def elf_entry_point_def sample_parser_def sample_header_def elf_type_from_def)
  have sg: "ls_vaddr ?sg = 0x400000" "ls_memsz ?sg = 4096" by (simp_all add: segment_of_def sample_load_def)
  have pages: "seg_lo 0 ?sg = 0x400000" "seg_pages 0 ?sg = 1"
    by (simp_all add: seg_lo_def seg_pages_def sg align_down_def align_up_def PAGE_SIZE_def)
  have ok: "\<forall>sg \<in> set [?sg]. seg_ok (load_base sample_parser) sg \<and> seg_below (load_base sample_parser) sg"
    "segs_apart (load_base sample_parser) [?sg]"
    by (simp_all add: base seg_ok_def seg_below_def pages sg sample_segment USER_SPACE_START_def USER_SPACE_END_def STACK_TOP_def DEFAULT_STACK_SIZE_def)
  have free: "1 + 4 * (\<Sum>sg \<leftarrow> [?sg]. seg_pages (load_base sample_parser) sg) + 4 * 8192 < card (free_frames (vs_frames (as_vm (ld_as wide_sys))))"
    by (simp add: wide_ready base pages)
  have entry: "load_base sample_parser + unat (elf_entry_point sample_parser) < usize_limit" by (simp add: base)
  have data: "(if j < length (the (ls_data ?sg)) then the (ls_data ?sg) ! j else 0) = (if j < 4 then [1, 2, 3, 4] ! j else 0)" for j
    by (simp add: sample_segment)
  obtain lp s' pt where r: "program_load 0x210000 sample_file wide_sys = Some (Ok lp, s')" "lp_entry lp = 0x400000" "lp_stack_top lp = STACK_TOP"
    "\<forall>j < 4096. user_byte (vs_frames (as_vm (ld_as s'))) pt (0x400000 + j) = Some (if j < 4 then [1, 2, 3, 4] ! j else 0)"
    "\<forall>j < DEFAULT_STACK_SIZE. user_byte (vs_frames (as_vm (ld_as s'))) pt (STACK_TOP - DEFAULT_STACK_SIZE + j) = Some 0"
    using program_load_correct[OF wide_ready(1-5) sample_parse segs entry ok free, simplified list.set ball_simps]
    by (auto simp: base sg data)
  have "user_byte (vs_frames (as_vm (ld_as s'))) pt (STACK_TOP - 1) = Some 0"
    using r(5)[rule_format, of "DEFAULT_STACK_SIZE - 1"] by (simp add: STACK_TOP_def DEFAULT_STACK_SIZE_def)
  with r(1,2) r(4)[rule_format, of 3] r(4)[rule_format, of 4095] show ?thesis by auto
qed

text \<open>A file whose only segment has no bytes in the file.\<close>

definition bss_load :: program_header where
  "bss_load = sample_load\<lparr>ph_filesz := 0\<rparr>"

definition bss_file :: "u8 list" where
  "bss_file = eh_bytes (sample_header 64) @ ph_bytes bss_load"

theorem dataless_segment_panics_witness: "\<exists>s'. program_load 0x210000 bss_file wide_sys = Some (Panic, s')"
proof -
  let ?p = "\<lparr>ep_data = bss_file, ep_header = sample_header 64\<rparr>" and ?sg = "segment_of bss_file bss_load"
  have len: "length bss_file = 120" using length_eh_bytes[OF sample_shape(1)] by (simp add: bss_file_def)
  have parse: "elf_parse bss_file = Ok ?p"
    using len sample_shape(2) read_eh_bytes[OF sample_shape(1)] by (simp add: elf_parse_def EH_SIZE_def bss_file_def Let_def)
  have load: "ph_is_load bss_load" "load_in_range bss_load"
    by (simp_all add: bss_load_def ph_is_load_def ph_type_def sample_load_def segment_type_from_def load_in_range_def)
  have "drop 64 bss_file = ph_bytes bss_load @ []" using length_eh_bytes[OF sample_shape(1)] by (simp add: bss_file_def)
  then have headers: "visible_headers ?p = [bss_load]"
    unfolding visible_headers_def headers_from_def using read_ph_bytes[of bss_load "[]"]
    by (simp add: sample_header_def entry_fits_def len PH_SIZE_def)
  have range: "table_in_range ?p" by (simp add: table_in_range_def sample_header_def PH_SIZE_def)
  have segs: "elf_load_segments ?p = Ok [?sg]"
    using range table_iter[of ?p] by (simp add: elf_load_segments_def segs_collect_rest headers load_segment_in_range load)
  have base: "load_base ?p = 0" by (simp add: load_base_def elf_is_pie_def eh_type_def sample_header_def elf_type_from_def)
  have sg: "ls_vaddr ?sg = 0x400000" "ls_memsz ?sg = 4096" "ls_data ?sg = None"
    by (simp_all add: segment_of_def bss_load_def sample_load_def)
  have pages: "seg_lo 0 ?sg = 0x400000" "seg_pages 0 ?sg = 1"
    by (simp_all add: seg_lo_def seg_pages_def sg align_down_def align_up_def PAGE_SIZE_def)
  show ?thesis
    by (rule dataless_segment_panics[OF wide_ready(1-5) parse segs sg(3)])
      (simp_all add: base pages sg wide_ready USER_SPACE_START_def USER_SPACE_END_def)
qed

end
