(* ===== verification/Memory_Syscalls.thy ===== *)
theory Memory_Syscalls
  imports Ipc_Isolation Address_Space
begin

text \<open>
  The system calls on memory objects and address regions: \<open>kernel/src/syscall/memory.rs\<close>. The state joins that of the calls on handles
  (\<open>Ipc_Syscalls\<close>) with the heap of memory objects and regions (\<open>Vmar\<close>) and the root regions of the processes. Strong counts cover
  all objects: a reference is held by a handle, a mapping, a parent region, a clone or a process. A buffer of the caller is a part of its user
  memory, which is kept apart from the frames. A result of \<open>None\<close> stands for a call that does not return.
\<close>

section \<open>State\<close>

record msys =
  ms_sys :: sys
  ms_as :: as_sys
  ms_roots :: "nat \<Rightarrow> oid option"

type_synonym moutcome = "((error, nat) res \<times> msys) option"

abbreviation mfail :: "i32 \<Rightarrow> msys \<Rightarrow> moutcome" where
  "mfail e s \<equiv> Some (Err (Error e), s)"

abbreviation ms_refs :: "msys \<Rightarrow> oid \<Rightarrow> nat" where
  "ms_refs s \<equiv> sy_refs (ms_sys s)"

abbreviation ms_vmos :: "msys \<Rightarrow> oid \<Rightarrow> vmo option" where
  "ms_vmos s \<equiv> vs_vmos (as_vm (ms_as s))"

abbreviation ms_vmars :: "msys \<Rightarrow> oid \<Rightarrow> vmar option" where
  "ms_vmars s \<equiv> as_vmars (ms_as s)"

definition on_sys :: "(sys \<Rightarrow> sys) \<Rightarrow> msys \<Rightarrow> msys" where
  "on_sys f s = s\<lparr>ms_sys := f (ms_sys s)\<rparr>"

definition set_vm :: "vm_sys \<Rightarrow> msys \<Rightarrow> msys" where
  "set_vm vm s = s\<lparr>ms_as := (ms_as s)\<lparr>as_vm := vm\<rparr>\<rparr>"

definition set_refs :: "oid \<Rightarrow> nat \<Rightarrow> msys \<Rightarrow> msys" where
  "set_refs x n = on_sys (\<lambda>q. q\<lparr>sy_refs := (sy_refs q)(x := n)\<rparr>)"

definition set_kernel :: "kernel \<Rightarrow> msys \<Rightarrow> msys" where
  "set_kernel k = on_sys (\<lambda>q. q\<lparr>sy_k := k\<rparr>)"

definition mtable :: "nat option \<Rightarrow> msys \<Rightarrow> (nat \<times> handle_table) option" where
  "mtable me s = current_table me (ms_sys s)"

section \<open>References\<close>

definition mclone :: "oid \<Rightarrow> msys \<Rightarrow> msys" where
  "mclone x = on_sys (arc_clone x)"

text \<open>
  Dropping references, for every kind of object. With its last reference a memory object returns its frames and drops the object it was
  cloned from; a region drops the objects of its mappings and its sub-regions, but leaves the page tables as they are; channels and
  ports as in \<open>drop_arcs\<close>.
\<close>

definition vmo_refs :: "vmo \<Rightarrow> oid list" where
  "vmo_refs x = (case vm_parent x of None \<Rightarrow> [] | Some p \<Rightarrow> [p])"

definition vmar_refs :: "vmar \<Rightarrow> oid list" where
  "vmar_refs x = map (\<lambda>(k, m). mp_vmo m) (va_mappings x) @ va_children x"

partial_function (option) drop_objects :: "oid list \<Rightarrow> msys \<Rightarrow> (unit, msys) res option" where
  "drop_objects xs s =
     (case xs of
        [] \<Rightarrow> Some (Ok s)
      | x # xs \<Rightarrow>
          if ms_refs s x > 1 then drop_objects xs (set_refs x (ms_refs s x - 1) s)
          else let s1 = set_refs x 0 s; k = sy_k (ms_sys s)
               in case ms_vmos s x of
                    Some v \<Rightarrow>
                      (case vm_drop x (as_vm (ms_as s)) of
                         Ok vm \<Rightarrow> drop_objects (vmo_refs v @ xs) (set_vm vm s1)
                       | _ \<Rightarrow> Some Panic)
                  | None \<Rightarrow>
                      (case ms_vmars s x of
                         Some r \<Rightarrow>
                           drop_objects (vmar_refs r @ xs) (s1\<lparr>ms_as := (ms_as s)\<lparr>as_vmars := (ms_vmars s)(x := None)\<rparr>\<rparr>)
                       | None \<Rightarrow>
                           (case k_chans k x of
                              Some c \<Rightarrow>
                                (case k_close x k of
                                   None \<Rightarrow> None
                                 | Some (Ok k') \<Rightarrow>
                                     drop_objects (map fst (concat (map msg_objects (ch_messages c))) @ xs)
                                       (set_kernel (k'\<lparr>k_chans := (k_chans k')(x := None)\<rparr>) s1)
                                 | Some _ \<Rightarrow> Some Panic)
                            | None \<Rightarrow>
                                (case k_ports k x of
                                   Some p \<Rightarrow>
                                     drop_objects (map bi_object (po_bindings p) @ xs)
                                       (set_kernel (k\<lparr>k_ports := (k_ports k)(x := None)\<rparr>) s1)
                                 | None \<Rightarrow>
                                     drop_objects xs (set_kernel (k\<lparr>k_plain := (k_plain k)(x := None)\<rparr>) s1)))))"

definition mdropping :: "oid list \<Rightarrow> (error, nat) res \<times> msys \<Rightarrow> moutcome" where
  "mdropping xs q =
     (case drop_objects xs (snd q) of
        None \<Rightarrow> None
      | Some (Ok s) \<Rightarrow> Some (fst q, s)
      | Some _ \<Rightarrow> Some (Panic, snd q))"

definition mholding :: "oid \<Rightarrow> msys \<Rightarrow> (msys \<Rightarrow> moutcome) \<Rightarrow> moutcome" where
  "mholding x s f = Option.bind (f (mclone x s)) (mdropping [x])"

text \<open>A new object takes the next identifier, with one reference.\<close>

definition mnew :: "msys \<Rightarrow> oid" where
  "mnew s = sy_next (ms_sys s)"

definition adopt :: "msys \<Rightarrow> msys" where
  "adopt s = on_sys (\<lambda>q. q\<lparr>sy_refs := (sy_refs q)(mnew s := 1), sy_next := Suc (mnew s)\<rparr>) s"

definition VMO_RIGHTS :: rights where
  "VMO_RIGHTS = R_BASIC OR R_MAP OR R_DUPLICATE OR R_TRANSFER"

text \<open>The end of the calls that create an object: the new object gets a handle, which is written to the caller's memory.\<close>

definition publish :: "nat option \<Rightarrow> oid \<Rightarrow> nat \<Rightarrow> msys \<Rightarrow> moutcome" where
  "publish me x handle_out s =
     (case mtable me s of
        None \<Rightarrow> mdropping [x] (Err (Error EINVAL), s)
      | Some (pid, t) \<Rightarrow>
          (case insert_object pid x VMO_RIGHTS (ms_sys s) of
             (Ok h, q) \<Rightarrow> Some (Ok 0, s\<lparr>ms_sys := write_user me (mem_write handle_out (le_bytes 4 h)) q\<rparr>)
           | (Err e, q) \<Rightarrow> Some (Err e, s\<lparr>ms_sys := q\<rparr>)
           | (Panic, q) \<Rightarrow> Some (Panic, s\<lparr>ms_sys := q\<rparr>)))"

section \<open>Handles\<close>

text \<open>\<open>sys_handle_close\<close> and \<open>sys_handle_duplicate\<close> on this state.\<close>

definition mem_handle_close :: "nat option \<Rightarrow> nat \<Rightarrow> msys \<Rightarrow> moutcome" where
  "mem_handle_close me h s =
     (case mtable me s of
        None \<Rightarrow> mfail EINVAL s
      | Some (pid, t) \<Rightarrow>
          (case ht_remove (handle_from h) t of
             (None, _) \<Rightarrow> mfail EBADF s
           | (Some e, t') \<Rightarrow> mdropping [he_object e] (Ok 0, on_sys (set_table pid t') s)))"

definition mem_handle_duplicate :: "nat option \<Rightarrow> nat \<Rightarrow> nat \<Rightarrow> msys \<Rightarrow> moutcome" where
  "mem_handle_duplicate me h r s =
     map_option (\<lambda>(q, y). (q, s\<lparr>ms_sys := y\<rparr>)) (sys_handle_duplicate me h r (ms_sys s))"

section \<open>Memory objects\<close>

definition vmo_options_from :: "u32 \<Rightarrow> u32" where
  "vmo_options_from = from_bits_truncate (VMO_COMMIT OR VMO_CONTIGUOUS OR VMO_RESIZABLE OR VMO_DISCARDABLE)"

definition create_errno :: "vmo_error \<Rightarrow> i32" where
  "create_errno e = (case e of InvalidSize \<Rightarrow> EINVAL | NoMemory \<Rightarrow> ENOMEM | _ \<Rightarrow> EINVAL)"

definition clone_errno :: "vmo_error \<Rightarrow> i32" where
  "clone_errno e = (case e of OutOfRange \<Rightarrow> EINVAL | NoMemory \<Rightarrow> ENOMEM | _ \<Rightarrow> EINVAL)"

definition sys_vmo_create :: "nat option \<Rightarrow> nat \<Rightarrow> nat \<Rightarrow> msys \<Rightarrow> moutcome" where
  "sys_vmo_create me args_ptr handle_out s =
     (if args_ptr = 0 \<or> handle_out = 0 then mfail EINVAL s
      else let m = sy_umem (ms_sys s) me;
               opts = vmo_options_from (word_of_nat (mem_u32 m (args_ptr + 8)))
           in case vm_create (mnew s) (mem_u64 m args_ptr) opts (as_vm (ms_as s)) of
                (Ok _, vm) \<Rightarrow> publish me (mnew s) handle_out (adopt (set_vm vm s))
              | (Err e, vm) \<Rightarrow> mfail (create_errno e) (set_vm vm s)
              | (Panic, vm) \<Rightarrow> Some (Panic, set_vm vm s))"

definition sys_vmo_create_physical :: "nat option \<Rightarrow> nat \<Rightarrow> nat \<Rightarrow> nat \<Rightarrow> msys \<Rightarrow> moutcome" where
  "sys_vmo_create_physical me phys_addr sz handle_out s =
     (if handle_out = 0 then mfail EINVAL s
      else case vm_create_physical (mnew s) phys_addr sz (as_vm (ms_as s)) of
             (Ok _, vm) \<Rightarrow> publish me (mnew s) handle_out (adopt (set_vm vm s))
           | (Err _, vm) \<Rightarrow> mfail EINVAL (set_vm vm s)
           | (Panic, vm) \<Rightarrow> Some (Panic, set_vm vm s))"

text \<open>The lookup that opens the calls on a memory object: the handle, the right, the type.\<close>

definition with_vmo :: "nat option \<Rightarrow> nat \<Rightarrow> rights \<Rightarrow> msys \<Rightarrow> (oid \<Rightarrow> msys \<Rightarrow> moutcome) \<Rightarrow> moutcome" where
  "with_vmo me vmo_handle r s f =
     (case mtable me s of
        None \<Rightarrow> mfail EINVAL s
      | Some (pid, t) \<Rightarrow>
          (case ht_get t (handle_from vmo_handle) r of
             None \<Rightarrow> mfail EBADF s
           | Some v \<Rightarrow> mholding v s (\<lambda>s1. if ms_vmos s1 v = None then mfail EINVAL s1 else f v s1)))"

text \<open>The typed copy of the reference is a second one; the clone keeps a third.\<close>

definition sys_vmo_create_child :: "nat option \<Rightarrow> nat \<Rightarrow> nat \<Rightarrow> nat \<Rightarrow> nat \<Rightarrow> msys \<Rightarrow> moutcome" where
  "sys_vmo_create_child me vmo_handle offset sz handle_out s =
     (if handle_out = 0 then mfail EINVAL s
      else with_vmo me vmo_handle R_DUPLICATE s (\<lambda>p s1. mholding p s1 (\<lambda>s2.
        case vm_create_cow_clone (mnew s2) p offset sz (as_vm (ms_as s2)) of
          (Ok _, vm) \<Rightarrow> publish me (mnew s2) handle_out (adopt (mclone p (set_vm vm s2)))
        | (Err e, vm) \<Rightarrow> mfail (clone_errno e) (set_vm vm s2)
        | (Panic, vm) \<Rightarrow> Some (Panic, set_vm vm s2))))"

text \<open>The bytes that a read has copied to the buffer when it ends, also when it ends with an error.\<close>

function copied_loop :: "oid \<Rightarrow> nat \<Rightarrow> nat \<Rightarrow> vm_sys \<Rightarrow> u8 list" where
  "copied_loop v offset todo s =
     (if todo = 0 then []
      else let page_offset = offset mod PAGE_SIZE;
               chunk = min (PAGE_SIZE - page_offset) todo
           in case vm_get_page v offset False s of
                Some (Ok phys, s1) \<Rightarrow>
                  (case bind_res (phys_to_virt phys) (\<lambda>a. chk_add a page_offset :: (vmo_error, nat) res) of
                     Ok src \<Rightarrow> peek src chunk s1 @ copied_loop v (offset + chunk) (todo - chunk) s1
                   | _ \<Rightarrow> [])
              | _ \<Rightarrow> [])"
  by pat_completeness auto
termination
proof (relation "measure (\<lambda>(v, offset, todo, s). todo)")
qed (auto simp: PAGE_SIZE_def)

definition vm_copied :: "oid \<Rightarrow> nat \<Rightarrow> nat \<Rightarrow> vm_sys \<Rightarrow> u8 list" where
  "vm_copied v offset len s =
     (case vs_vmos s v of
        None \<Rightarrow> []
      | Some x \<Rightarrow> if offset \<ge> vm_size x then [] else copied_loop v offset (min len (vm_size x - offset)) s)"

definition sys_vmo_read :: "nat option \<Rightarrow> nat \<Rightarrow> nat \<Rightarrow> nat \<Rightarrow> nat \<Rightarrow> msys \<Rightarrow> moutcome" where
  "sys_vmo_read me vmo_handle offset buf_ptr buf_len s =
     (if buf_ptr = 0 \<or> buf_len = 0 then mfail EINVAL s
      else with_vmo me vmo_handle R_READ s (\<lambda>v s1.
        let put = (\<lambda>vm. on_sys (write_user me (mem_write buf_ptr (vm_copied v offset buf_len (as_vm (ms_as s1))))) (set_vm vm s1))
        in case vm_read v offset buf_len (as_vm (ms_as s1)) of
             None \<Rightarrow> None
           | Some (Ok bs, vm) \<Rightarrow> Some (Ok (length bs), put vm)
           | Some (Err _, vm) \<Rightarrow> mfail EINVAL (put vm)
           | Some (Panic, vm) \<Rightarrow> Some (Panic, put vm)))"

definition sys_vmo_write :: "nat option \<Rightarrow> nat \<Rightarrow> nat \<Rightarrow> nat \<Rightarrow> nat \<Rightarrow> msys \<Rightarrow> moutcome" where
  "sys_vmo_write me vmo_handle offset buf_ptr buf_len s =
     (if buf_ptr = 0 \<or> buf_len = 0 then mfail EINVAL s
      else with_vmo me vmo_handle R_WRITE s (\<lambda>v s1.
        case vm_write v offset (mem_read (sy_umem (ms_sys s1) me) buf_ptr buf_len) (as_vm (ms_as s1)) of
          None \<Rightarrow> None
        | Some (Ok n, vm) \<Rightarrow> Some (Ok n, set_vm vm s1)
        | Some (Err _, vm) \<Rightarrow> mfail EINVAL (set_vm vm s1)
        | Some (Panic, vm) \<Rightarrow> Some (Panic, set_vm vm s1)))"

definition sys_vmo_get_size :: "nat option \<Rightarrow> nat \<Rightarrow> msys \<Rightarrow> moutcome" where
  "sys_vmo_get_size me vmo_handle s =
     with_vmo me vmo_handle R_READ s (\<lambda>v s1.
       case ms_vmos s1 v of None \<Rightarrow> mfail EINVAL s1 | Some x \<Rightarrow> Some (Ok (vm_size x), s1))"

definition sys_vmo_set_size :: "nat option \<Rightarrow> nat \<Rightarrow> nat \<Rightarrow> msys \<Rightarrow> moutcome" where
  "sys_vmo_set_size me vmo_handle sz s =
     with_vmo me vmo_handle R_READ s (\<lambda>v s1.
       case vm_resize v sz (as_vm (ms_as s1)) of
         (Ok _, vm) \<Rightarrow> Some (Ok 0, set_vm vm s1)
       | (Err _, vm) \<Rightarrow> mfail EPERM (set_vm vm s1)
       | (Panic, vm) \<Rightarrow> Some (Panic, set_vm vm s1))"

definition sys_vmo_get_phys :: "nat option \<Rightarrow> nat \<Rightarrow> msys \<Rightarrow> moutcome" where
  "sys_vmo_get_phys me vmo_handle s =
     with_vmo me vmo_handle R_READ s (\<lambda>v s1. Some (vm_get_physical v (as_vm (ms_as s1)), s1))"

section \<open>Address regions\<close>

definition mapping_flags_from :: "u32 \<Rightarrow> u32" where
  "mapping_flags_from =
     from_bits_truncate (MF_READ OR MF_WRITE OR MF_EXECUTE OR MF_SPECIFIC OR MF_OFFSET_IS_UPPER_LIMIT)"

record vmar_map_args =
  vma_vmar_handle :: nat
  vma_vmo_handle :: nat
  vma_vmo_offset :: nat
  vma_size :: nat
  vma_flags :: u32
  vma_vaddr :: nat

definition load_map_args :: "(nat \<Rightarrow> u8) \<Rightarrow> nat \<Rightarrow> vmar_map_args" where
  "load_map_args m a =
     \<lparr>vma_vmar_handle = mem_u32 m a, vma_vmo_handle = mem_u32 m (a + 4), vma_vmo_offset = mem_u64 m (a + 8),
      vma_size = mem_u64 m (a + 16), vma_flags = word_of_nat (mem_u32 m (a + 24)), vma_vaddr = mem_u64 m (a + 32)\<rparr>"

text \<open>
  The region that a call names: the caller's root region for 0, otherwise the object of a handle with the right to map. Only
  \<open>sys_vmar_map\<close> checks that this object is a region (\<open>typed\<close>); the other calls take any object for one, which the operations on
  regions turn into \<open>Panic\<close>.
\<close>

definition find_vmar :: "bool \<Rightarrow> nat \<Rightarrow> nat \<Rightarrow> handle_table \<Rightarrow> msys \<Rightarrow> (error, oid) res" where
  "find_vmar typed vmar_handle pid t s =
     (if vmar_handle = 0 then (case ms_roots s pid of None \<Rightarrow> Err (Error EINVAL) | Some a \<Rightarrow> Ok a)
      else case ht_get t (handle_from vmar_handle) R_MAP of
             None \<Rightarrow> Err (Error EBADF)
           | Some a \<Rightarrow> if typed \<and> ms_vmars s a = None then Err (Error EINVAL) else Ok a)"

definition with_vmar :: "bool \<Rightarrow> nat option \<Rightarrow> nat \<Rightarrow> msys \<Rightarrow> (nat \<Rightarrow> handle_table \<Rightarrow> oid \<Rightarrow> msys \<Rightarrow> moutcome) \<Rightarrow> moutcome" where
  "with_vmar typed me vmar_handle s f =
     (case mtable me s of
        None \<Rightarrow> mfail EINVAL s
      | Some (pid, t) \<Rightarrow>
          (case find_vmar typed vmar_handle pid t s of
             Ok a \<Rightarrow> mholding a s (f pid t a)
           | Err e \<Rightarrow> Some (Err e, s)
           | Panic \<Rightarrow> Some (Panic, s)))"

definition map_errno :: "vmar_error \<Rightarrow> i32" where
  "map_errno e = (case e of NoSpace \<Rightarrow> ENOMEM | Overlap \<Rightarrow> EEXIST | VaOutOfRange \<Rightarrow> EINVAL | _ \<Rightarrow> EINVAL)"

text \<open>The mapping takes over the reference to the object. A mapping that the new one replaces is dropped, as is the reference when
  the region refuses.\<close>

definition replaced :: "oid \<Rightarrow> nat \<Rightarrow> msys \<Rightarrow> oid list" where
  "replaced a addr s =
     (case ms_vmars s a of
        None \<Rightarrow> []
      | Some x \<Rightarrow> (case bt_get (va_mappings x) addr of None \<Rightarrow> [] | Some m \<Rightarrow> [mp_vmo m]))"

definition sys_vmar_map :: "nat option \<Rightarrow> nat \<Rightarrow> nat \<Rightarrow> msys \<Rightarrow> moutcome" where
  "sys_vmar_map me args_ptr addr_out s =
     (if args_ptr = 0 \<or> addr_out = 0 then mfail EINVAL s
      else let g = load_map_args (sy_umem (ms_sys s) me) args_ptr; fl = mapping_flags_from (vma_flags g)
           in with_vmar True me (vma_vmar_handle g) s (\<lambda>pid t a s1.
                case ht_get t (handle_from (vma_vmo_handle g)) R_MAP of
                  None \<Rightarrow> mfail EBADF s1
                | Some v \<Rightarrow>
                    if ms_vmos s1 v = None then mfail EINVAL s1
                    else let s2 = mclone v s1;
                             vaddr = (if contains fl MF_SPECIFIC \<and> vma_vaddr g \<noteq> 0 then Some (vma_vaddr g) else None)
                         in case va_map a v (vma_vmo_offset g) (vma_size g) fl vaddr (ms_as s2) of
                              None \<Rightarrow> None
                            | Some (Ok addr, y) \<Rightarrow>
                                mdropping (replaced a addr s2)
                                  (Ok 0, on_sys (write_user me (mem_write addr_out (le_bytes 8 addr))) (s2\<lparr>ms_as := y\<rparr>))
                            | Some (Err e, y) \<Rightarrow> mdropping [v] (Err (Error (map_errno e)), s2\<lparr>ms_as := y\<rparr>)
                            | Some (Panic, y) \<Rightarrow> Some (Panic, s2\<lparr>ms_as := y\<rparr>)))"

definition sys_vmar_unmap :: "nat option \<Rightarrow> nat \<Rightarrow> nat \<Rightarrow> nat \<Rightarrow> msys \<Rightarrow> moutcome" where
  "sys_vmar_unmap me vmar_handle addr sz s =
     with_vmar False me vmar_handle s (\<lambda>pid t a s1.
       case va_unmap a addr sz (ms_as s1) of
         (Ok m, y) \<Rightarrow> mdropping [mp_vmo m] (Ok 0, s1\<lparr>ms_as := y\<rparr>)
       | (Err e, y) \<Rightarrow> mfail (case e of NotMapped \<Rightarrow> ENOENT | _ \<Rightarrow> EINVAL) (s1\<lparr>ms_as := y\<rparr>)
       | (Panic, y) \<Rightarrow> Some (Panic, s1\<lparr>ms_as := y\<rparr>))"

definition protect_errno :: "vmar_error \<Rightarrow> i32" where
  "protect_errno e = (case e of NotMapped \<Rightarrow> ENOENT | VaAccessDenied \<Rightarrow> EACCES | _ \<Rightarrow> EINVAL)"

definition sys_vmar_protect :: "nat option \<Rightarrow> nat \<Rightarrow> nat \<Rightarrow> nat \<Rightarrow> nat \<Rightarrow> msys \<Rightarrow> moutcome" where
  "sys_vmar_protect me vmar_handle addr sz flags s =
     with_vmar False me vmar_handle s (\<lambda>pid t a s1.
       case va_protect a addr sz (mapping_flags_from (word_of_nat flags)) (ms_as s1) of
         (Ok _, y) \<Rightarrow> Some (Ok 0, s1\<lparr>ms_as := y\<rparr>)
       | (Err e, y) \<Rightarrow> mfail (protect_errno e) (s1\<lparr>ms_as := y\<rparr>)
       | (Panic, y) \<Rightarrow> Some (Panic, s1\<lparr>ms_as := y\<rparr>))"

end
