(* ===== verification/Memory_References.thy ===== *)
theory Memory_References
  imports Memory_Syscalls "HOL-Library.Multiset"
begin

text \<open>
  What the calls of \<open>Memory_Syscalls\<close> guarantee together: the strong counts are exact, so an object lives as long as something names it
  and no longer, and no sequence of calls makes the kernel panic, frees a frame twice or leaves a handle without its object.
\<close>

section \<open>Who names what\<close>

datatype holder = HEntry nat nat | HMapping oid nat | HChild oid nat | HParent oid | HRoot nat | HMessage oid nat | HBinding oid nat

fun points :: "msys \<Rightarrow> holder \<Rightarrow> oid option" where
  "points s (HEntry pid h) =
     (case sy_tables (ms_sys s) pid of None \<Rightarrow> None | Some t \<Rightarrow> map_option he_object (ht_lookup t h))"
| "points s (HMapping a k) =
     (case ms_vmars s a of None \<Rightarrow> None | Some r \<Rightarrow> map_option mp_vmo (bt_get (va_mappings r) k))"
| "points s (HChild a i) =
     (case ms_vmars s a of None \<Rightarrow> None | Some r \<Rightarrow> if i < length (va_children r) then Some (va_children r ! i) else None)"
| "points s (HParent v) = (case ms_vmos s v of None \<Rightarrow> None | Some x \<Rightarrow> vm_parent x)"
| "points s (HRoot pid) = ms_roots s pid"
| "points s (HMessage c i) =
     (case k_chans (sy_k (ms_sys s)) c of
        None \<Rightarrow> None
      | Some d \<Rightarrow> (let xs = concat (map msg_objects (ch_messages d)) in if i < length xs then Some (fst (xs ! i)) else None))"
| "points s (HBinding p i) =
     (case k_ports (sy_k (ms_sys s)) p of
        None \<Rightarrow> None
      | Some q \<Rightarrow> if i < length (po_bindings q) then Some (bi_object (po_bindings q ! i)) else None)"

text \<open>The other objects of the kernel: channels, ports, and those that only have signals, such as processes and threads. They are also referred to from elsewhere.\<close>

definition foreign :: "msys \<Rightarrow> oid \<Rightarrow> bool" where
  "foreign s x \<longleftrightarrow> k_chans (sy_k (ms_sys s)) x \<noteq> None \<or> k_ports (sy_k (ms_sys s)) x \<noteq> None \<or> k_plain (sy_k (ms_sys s)) x \<noteq> None"

fun in_memory :: "holder \<Rightarrow> bool" where
  "in_memory (HMapping a k) = True"
| "in_memory (HChild a i) = True"
| "in_memory (HParent v) = True"
| "in_memory (HRoot pid) = True"
| "in_memory _ = False"

text \<open>The objects named, each as often as it is named.\<close>

definition named :: "(holder \<Rightarrow> oid option) \<Rightarrow> oid multiset" where
  "named P = image_mset (the \<circ> P) (mset_set (dom P))"

text \<open>The counts are exact, where \<open>ps\<close> are the references that a call itself holds, except that other objects (\<open>F\<close>) may have more.\<close>

definition counted :: "(oid \<Rightarrow> bool) \<Rightarrow> (holder \<Rightarrow> oid option) \<Rightarrow> oid list \<Rightarrow> (oid \<Rightarrow> nat) \<Rightarrow> bool" where
  "counted F P ps R \<longleftrightarrow> finite (dom P) \<and> (\<forall>x. count (named P + mset ps) x \<le> R x) \<and> (\<forall>x. \<not> F x \<longrightarrow> R x = count (named P + mset ps) x)"

lemma named_split:
  assumes "finite (dom P)" and "distinct hs" and "set hs \<subseteq> dom P"
    and "\<And>h. P' h = (if h \<in> set hs then None else P h)"
  shows "named P = named P' + mset (map (the \<circ> P) hs)"
proof -
  have d: "dom P' = dom P - set hs" using assms(4) by (auto simp: dom_def split: if_splits)
  have "mset_set (dom P) = mset_set (dom P - set hs) + mset_set (set hs)"
    using assms(1,3) by (metis Diff_disjoint Diff_partition finite_Diff finite_set inf_commute mset_set_Union sup_commute)
  then have "named P = image_mset (the \<circ> P) (mset_set (dom P - set hs)) + mset (map (the \<circ> P) hs)"
    using assms(2) by (simp add: named_def mset_set_set)
  moreover have "image_mset (the \<circ> P) (mset_set (dom P - set hs)) = named P'"
    unfolding named_def d using assms(1,4) by (intro image_mset_cong) auto
  ultimately show ?thesis by simp
qed

lemma named_upd: "finite (dom P) \<Longrightarrow> P h = None \<Longrightarrow> named (P(h \<mapsto> x)) = named P + {#x#}"
  using named_split[of "P(h \<mapsto> x)" "[h]" P] by (auto simp: fun_eq_iff)

lemma counted_clone: "counted F P ps R \<Longrightarrow> counted F P (x # ps) (R(x := Suc (R x)))"
  by (simp add: counted_def)

lemma counted_drop:
  assumes "counted F P (x # ps) R"
  shows "counted F P ps (R(x := R x - 1))"
proof -
  have c: "count (named P + mset (x # ps)) y \<le> R y" "\<not> F y \<longrightarrow> R y = count (named P + mset (x # ps)) y" for y
    using assms unfolding counted_def by blast+
  have "count (named P + mset ps) y \<le> (R(x := R x - 1)) y \<and> (\<not> F y \<longrightarrow> (R(x := R x - 1)) y = count (named P + mset ps) y)" for y
    using c[of y] by (cases "y = x") auto
  with assms show ?thesis by (simp add: counted_def)
qed

lemma counted_store: "counted F P (x # ps) R \<Longrightarrow> P h = None \<Longrightarrow> counted F (P(h \<mapsto> x)) ps R"
  by (auto simp: counted_def named_upd)

lemma counted_release:
  assumes "counted F P ps R" and "distinct hs" and "set hs \<subseteq> dom P"
    and "\<And>h. P' h = (if h \<in> set hs then None else P h)"
  shows "counted F P' (map (the \<circ> P) hs @ ps) R" and "size (named P) = size (named P') + length hs"
proof -
  have fin: "finite (dom P)" using assms(1) by (simp add: counted_def)
  have "dom P' \<subseteq> dom P" using assms(4) by (auto split: if_splits)
  then have "finite (dom P')" using fin by (rule finite_subset)
  with named_split[OF fin assms(2-4)] assms(1)
  show "counted F P' (map (the \<circ> P) hs @ ps) R" by (simp add: counted_def add.assoc)
  show "size (named P) = size (named P') + length hs"
    using named_split[OF fin assms(2-4)] by (metis length_map size_mset size_union)
qed

lemma named_iff: "finite (dom P) \<Longrightarrow> x \<in># named P \<longleftrightarrow> (\<exists>h. P h = Some x)"
  by (force simp: named_def dom_def)

lemma counted_unnamed:
  assumes "counted F P (x # ps) R" and "R x \<le> 1"
  shows "P h \<noteq> Some x" and "x \<notin> set ps" and "R x = 1"
proof -
  have "count (named P + mset (x # ps)) x \<le> 1" using assms unfolding counted_def by (meson le_trans)
  then have c: "x \<notin># named P" "x \<notin> set ps" by (auto simp: count_eq_zero_iff)
  then show "x \<notin> set ps" by simp
  have "count (named P + mset (x # ps)) x \<le> R x" using assms(1) unfolding counted_def by blast
  then show "R x = 1" using assms(2) by simp
  show "P h \<noteq> Some x" using c(1) assms(1) named_iff by (auto simp: counted_def)
qed

lemma counted_pos: "counted F P [] R \<Longrightarrow> \<not> F x \<Longrightarrow> 0 < R x \<longleftrightarrow> (\<exists>h. P h = Some x)"
  by (simp add: counted_def named_iff)

lemma counted_named: "counted F P ps R \<Longrightarrow> P h = Some x \<Longrightarrow> 0 < R x"
  unfolding counted_def by (metis count_greater_zero_iff named_iff union_iff less_le_trans)

section \<open>The invariant\<close>

definition live :: "msys \<Rightarrow> oid \<Rightarrow> bool" where
  "live s x \<longleftrightarrow> ms_vmos s x \<noteq> None \<or> ms_vmars s x \<noteq> None"

text \<open>
  Memory objects and regions exist exactly while they are counted. Any object may be in a handle table, in a message or bound to a port; mappings, clones, regions and
  processes hold memory objects and regions. An object of another kind that a call holds is also referred to from elsewhere.
\<close>

definition held :: "oid list \<Rightarrow> msys \<Rightarrow> bool" where
  "held ps s \<longleftrightarrow> counted (foreign s) (points s) ps (ms_refs s) \<and> (\<forall>x. \<not> foreign s x \<longrightarrow> (0 < ms_refs s x \<longleftrightarrow> live s x)) \<and>
     (\<forall>x. foreign s x \<longrightarrow> \<not> live s x \<and> x < mnew s \<and> (x \<in> set ps \<longrightarrow> count (mset ps) x < ms_refs s x)) \<and>
     (\<forall>h x. points s h = Some x \<longrightarrow> in_memory h \<longrightarrow> \<not> foreign s x) \<and> (\<forall>x \<ge> mnew s. ms_refs s x = 0) \<and>
     (\<forall>x. ms_vmos s x = None \<or> ms_vmars s x = None) \<and> (\<forall>a r. ms_vmars s a = Some r \<longrightarrow> bt_wf (va_mappings r)) \<and>
     (\<forall>pid t. sy_tables (ms_sys s) pid = Some t \<longrightarrow> ht_wf t) \<and> vm_inv (as_vm (ms_as s))"

lemma heldD:
  assumes "held ps s"
  shows held_counted: "counted (foreign s) (points s) ps (ms_refs s)" and held_exact: "\<not> foreign s x \<Longrightarrow> 0 < ms_refs s x \<longleftrightarrow> live s x"
    and held_foreign: "foreign s x \<Longrightarrow> \<not> live s x" "foreign s x \<Longrightarrow> x < mnew s"
    and held_spare: "foreign s x \<Longrightarrow> x \<in> set ps \<Longrightarrow> count (mset ps) x < ms_refs s x"
    and held_inner: "points s h = Some x \<Longrightarrow> in_memory h \<Longrightarrow> \<not> foreign s x" and held_fresh: "mnew s \<le> x \<Longrightarrow> ms_refs s x = 0"
    and held_kinds: "ms_vmos s x = None \<or> ms_vmars s x = None" and held_maps: "ms_vmars s a = Some r \<Longrightarrow> bt_wf (va_mappings r)"
    and held_tables: "sy_tables (ms_sys s) pid = Some t \<Longrightarrow> ht_wf t" and held_frames: "vm_inv (as_vm (ms_as s))"
  using assms by (simp_all add: held_def)

lemma heldI:
  assumes "counted (foreign s) (points s) ps (ms_refs s)" and "\<And>x. \<not> foreign s x \<Longrightarrow> 0 < ms_refs s x \<longleftrightarrow> live s x"
    and "\<And>x. foreign s x \<Longrightarrow> \<not> live s x" and "\<And>x. foreign s x \<Longrightarrow> x < mnew s"
    and "\<And>x. foreign s x \<Longrightarrow> x \<in> set ps \<Longrightarrow> count (mset ps) x < ms_refs s x"
    and "\<And>h x. points s h = Some x \<Longrightarrow> in_memory h \<Longrightarrow> \<not> foreign s x" and "\<And>x. mnew s \<le> x \<Longrightarrow> ms_refs s x = 0"
    and "\<And>x. ms_vmos s x = None \<or> ms_vmars s x = None" and "\<And>a r. ms_vmars s a = Some r \<Longrightarrow> bt_wf (va_mappings r)"
    and "\<And>pid t. sy_tables (ms_sys s) pid = Some t \<Longrightarrow> ht_wf t" and "vm_inv (as_vm (ms_as s))"
  shows "held ps s"
  using assms unfolding held_def by blast

abbreviation mem_inv :: "msys \<Rightarrow> bool" where
  "mem_inv s \<equiv> held [] s"

lemma set_sels [simp]:
  "ms_as (on_sys f s) = ms_as s" "ms_sys (on_sys f s) = f (ms_sys s)" "ms_roots (on_sys f s) = ms_roots s"
  "ms_sys (set_vm vm s) = ms_sys s" "ms_roots (set_vm vm s) = ms_roots s" "as_vm (ms_as (set_vm vm s)) = vm"
  "ms_vmars (set_vm vm s) = ms_vmars s"
  "mnew (set_vm vm s) = mnew s" "mtable me (set_vm vm s) = mtable me s"
  by (simp_all add: on_sys_def set_vm_def mnew_def mtable_def)

lemma set_refs_sels [simp]:
  "ms_as (set_refs x n s) = ms_as s" "ms_refs (set_refs x n s) = (ms_refs s)(x := n)" "ms_roots (set_refs x n s) = ms_roots s"
  "sy_tables (ms_sys (set_refs x n s)) = sy_tables (ms_sys s)" "mnew (set_refs x n s) = mnew s"
  "sy_next (ms_sys (set_refs x n s)) = sy_next (ms_sys s)"
  "sy_umem (ms_sys (set_refs x n s)) = sy_umem (ms_sys s)" "sy_k (ms_sys (set_refs x n s)) = sy_k (ms_sys s)"
  by (simp_all add: set_refs_def mnew_def)

text \<open>The holders depend on the tables, the regions, the parents and the roots only.\<close>

lemma points_cong:
  assumes "sy_tables (ms_sys s') = sy_tables (ms_sys s)" and "sy_k (ms_sys s') = sy_k (ms_sys s)" and "ms_vmars s' = ms_vmars s" and "ms_roots s' = ms_roots s"
    and "\<And>v. map_option vm_parent (ms_vmos s' v) = map_option vm_parent (ms_vmos s v)"
  shows "points s' = points s"
proof
  fix h
  show "points s' h = points s h"
  proof (cases h)
    case (HParent v)
    with assms(5)[of v] show ?thesis by (auto split: option.splits)
  qed (use assms in auto)
qed

lemma foreign_cong: "sy_k (ms_sys s') = sy_k (ms_sys s) \<Longrightarrow> foreign s' = foreign s"
  by (simp add: foreign_def fun_eq_iff)

lemma foreign_refs [simp]: "foreign (set_refs x n s) = foreign s"
  by (rule foreign_cong) simp

lemma foreign_vm [simp]: "foreign (set_vm vm s) = foreign s"
  by (rule foreign_cong) simp

lemma points_refs [simp]: "points (set_refs x n s) = points s"
  by (rule points_cong) simp_all

section \<open>Dropping\<close>

text \<open>What a call leaves alone when it drops references.\<close>

definition survives :: "msys \<Rightarrow> msys \<Rightarrow> bool" where
  "survives s s' \<longleftrightarrow> sy_tables (ms_sys s') = sy_tables (ms_sys s) \<and> sy_umem (ms_sys s') = sy_umem (ms_sys s) \<and> mnew s' = mnew s \<and>
     ms_roots s' = ms_roots s \<and> accounts (as_vm (ms_as s')) = accounts (as_vm (ms_as s)) \<and>
     (\<forall>x. ms_vmos s' x = ms_vmos s x \<or> ms_vmos s' x = None)"

lemma survives_refl [simp]: "survives s s"
  by (simp add: survives_def)

lemma survives_trans: "survives s s1 \<Longrightarrow> survives s1 s2 \<Longrightarrow> survives s s2"
  unfolding survives_def by metis

text \<open>The last reference to a memory object or region goes, and the references that it held are in the hands of the call.\<close>

lemma held_shrink:
  assumes h: "held (x # xs) s" and x: "live s x" "ms_refs s' = (ms_refs s)(x := 0)"
    and same: "sy_k (ms_sys s') = sy_k (ms_sys s)" "sy_tables (ms_sys s') = sy_tables (ms_sys s)" "mnew s' = mnew s"
    and c: "counted (foreign s) (points s') (rs @ xs) (ms_refs s')"
    and P: "\<And>k. points s' k = (if k \<in> set ks then None else points s k)" "set rs \<subseteq> (the \<circ> points s) ` set ks"
      "\<And>k. k \<in> set ks \<Longrightarrow> in_memory k \<and> points s k \<noteq> None"
    and vm: "vm_inv (as_vm (ms_as s'))" "\<And>y. live s' y \<longleftrightarrow> live s y \<and> y \<noteq> x" "\<And>y. ms_vmos s' y = None \<or> ms_vmars s' y = None"
      "\<And>a r. ms_vmars s' a = Some r \<Longrightarrow> bt_wf (va_mappings r)"
  shows "held (rs @ xs) s'"
proof -
  have F: "foreign s' = foreign s" by (rule foreign_cong[OF same(1)])
  have rs: "\<not> foreign s y" if "y \<in> set rs" for y
  proof -
    from that P(2) obtain k where "k \<in> set ks" "y = the (points s k)" by auto
    with P(3) show ?thesis using held_inner[OF h, of k] by auto
  qed
  show ?thesis
  proof (rule heldI)
    fix y assume "foreign s' y"
    then have y: "foreign s y" using F by simp
    show "y < mnew s'" using held_foreign(2)[OF h y] same(3) by simp
    show "\<not> live s' y" using held_foreign(1)[OF h y] vm(2) by simp
    assume "y \<in> set (rs @ xs)"
    moreover have "y \<notin> set rs" "y \<noteq> x" using rs[of y] y held_foreign(1)[OF h y] x(1) by auto
    then have e: "count (mset (rs @ xs)) y = count (mset xs) y" by simp
    ultimately show "count (mset (rs @ xs)) y < ms_refs s' y" unfolding e using held_spare[OF h y] \<open>y \<noteq> x\<close> \<open>y \<notin> set rs\<close> x(2) by simp
  next
    fix y assume "\<not> foreign s' y"
    then show "0 < ms_refs s' y \<longleftrightarrow> live s' y" using held_exact[OF h, of y] F x(2) vm(2)[of y] by auto
  next
    fix k y assume "points s' k = Some y" "in_memory k"
    then show "\<not> foreign s' y" using held_inner[OF h, of k y] P(1)[of k] F by (simp split: if_splits)
  qed (use c F h same x(2) vm in \<open>auto dest: held_fresh held_tables\<close>)
qed

lemma drop_vmo_held:
  assumes h: "held (x # xs) s" and x: "ms_refs s x \<le> 1" "ms_vmos s x = Some v"
  shows "\<exists>vm. vm_drop x (as_vm (ms_as s)) = Ok vm \<and> held (vmo_refs v @ xs) (set_vm vm (set_refs x 0 s)) \<and>
    survives s (set_vm vm (set_refs x 0 s)) \<and>
    size (named (points s)) = size (named (points (set_vm vm (set_refs x 0 s)))) + length (vmo_refs v)"
proof -
  have c: "counted (foreign s) (points s) (x # xs) (ms_refs s)" using h by (simp add: held_def)
  note free = counted_unnamed[OF c x(1)]
  have "vm_parent y \<noteq> Some x" if "ms_vmos s w = Some y" for w y
    using free(1)[of "HParent w"] that by simp
  then obtain vm where vm: "vm_drop x (as_vm (ms_as s)) = Ok vm" "vm_inv vm" "accounts vm = accounts (as_vm (ms_as s))"
    "vs_vmos vm = (ms_vmos s)(x := None)"
    using vm_drop_spec[of "as_vm (ms_as s)" x] h by (auto simp: held_def)
  let ?s = "set_vm vm (set_refs x 0 s)" and ?hs = "case vm_parent v of None \<Rightarrow> [] | Some p \<Rightarrow> [HParent x]"
  have hs: "distinct ?hs" "set ?hs \<subseteq> dom (points s)" "map (the \<circ> points s) ?hs = vmo_refs v"
    using x(2) by (cases "vm_parent v"; simp add: vmo_refs_def dom_def)+
  have P: "points ?s h = (if h \<in> set ?hs then None else points s h)" for h
    using x(2) vm(4) by (cases h; cases "vm_parent v") auto
  note rel = counted_release[OF counted_drop[OF c] hs(1,2) P]
  have "length ?hs = length (vmo_refs v)" by (metis hs(3) length_map)
  moreover have "ms_vmars s x = None" using h x(2) unfolding held_def by (metis option.distinct(1))
  then have live: "live ?s y \<longleftrightarrow> live s y \<and> y \<noteq> x" for y using vm(4) by (auto simp: live_def)
  have "held (vmo_refs v @ xs) ?s"
  proof (rule held_shrink[OF h, where ks = ?hs])
    show "counted (foreign s) (points ?s) (vmo_refs v @ xs) (ms_refs ?s)" using rel(1) unfolding hs(3) by (simp add: free(3))
    show "set (vmo_refs v) \<subseteq> (the \<circ> points s) ` set ?hs" using hs(3) by (metis order_refl set_map)
    show "in_memory k \<and> points s k \<noteq> None" if "k \<in> set ?hs" for k using that hs(2) by (auto split: option.splits)
  qed (use h x(2) vm live P in \<open>auto simp: held_def live_def\<close>)
  ultimately show ?thesis using vm rel(2) by (auto simp: survives_def)
qed

lemma children_holders: "map (the \<circ> points s) (map (HChild a) [0..<length (va_children r)]) = va_children r"
  if "ms_vmars s a = Some r"
  by (rule nth_equalityI) (use that in auto)

lemma mapping_holders: "map (the \<circ> points s) (map (HMapping a \<circ> fst) (va_mappings r)) = map (\<lambda>(k, m). mp_vmo m) (va_mappings r)"
  if "ms_vmars s a = Some r" and "bt_wf (va_mappings r)"
proof -
  have "bt_get (va_mappings r) k = Some m" if "(k, m) \<in> set (va_mappings r)" for k m
    using that \<open>bt_wf (va_mappings r)\<close> btm.entries_set by blast
  with that(1) show ?thesis by auto
qed

lemma drop_vmar_held:
  assumes h: "held (x # xs) s" and x: "ms_refs s x \<le> 1" "ms_vmos s x = None" "ms_vmars s x = Some r"
  defines "s' \<equiv> (set_refs x 0 s)\<lparr>ms_as := (ms_as s)\<lparr>as_vmars := (ms_vmars s)(x := None)\<rparr>\<rparr>"
  shows "held (vmar_refs r @ xs) s' \<and> survives s s' \<and> size (named (points s)) = size (named (points s')) + length (vmar_refs r)"
proof -
  have c: "counted (foreign s) (points s) (x # xs) (ms_refs s)" and wf: "bt_wf (va_mappings r)" using h x(3) by (auto simp: held_def)
  note free = counted_unnamed[OF c x(1)]
  let ?hs = "map (HMapping x \<circ> fst) (va_mappings r) @ map (HChild x) [0..<length (va_children r)]"
  have dom: "k \<in> fst ` set (va_mappings r) \<longleftrightarrow> bt_get (va_mappings r) k \<noteq> None" for k
    using btm.entries_set[OF wf] by force
  have hs: "distinct ?hs" "set ?hs \<subseteq> dom (points s)" "map (the \<circ> points s) ?hs = vmar_refs r"
  proof -
    have "distinct (map fst (va_mappings r))" by (rule bt_wf_distinct[OF wf])
    then have "distinct (map (HMapping x \<circ> fst) (va_mappings r))" by (auto simp: distinct_map inj_on_def)
    then show "distinct ?hs" by (auto simp: distinct_map inj_on_def)
    show "set ?hs \<subseteq> dom (points s)" using x(3) dom by force
    show "map (the \<circ> points s) ?hs = vmar_refs r"
      unfolding map_append children_holders[OF x(3)] mapping_holders[OF x(3) wf] vmar_refs_def ..
  qed
  have P: "points s' h = (if h \<in> set ?hs then None else points s h)" for h
  proof (cases h)
    case (HMapping a k)
    then show ?thesis using x(3) dom[of k] by (auto simp: s'_def image_iff)
  next
    case (HChild a i)
    then show ?thesis using x(3) by (auto simp: s'_def)
  qed (auto simp: s'_def)
  note rel = counted_release[OF counted_drop[OF c] hs(1,2) P]
  have "length ?hs = length (vmar_refs r)" by (metis hs(3) length_map)
  moreover have refs: "ms_refs s' = (ms_refs s)(x := ms_refs s x - 1)" using free(3) by (simp add: s'_def)
  have "held (vmar_refs r @ xs) s'"
  proof (rule held_shrink[OF h, where ks = ?hs])
    show "counted (foreign s) (points s') (vmar_refs r @ xs) (ms_refs s')" using rel(1) unfolding hs(3) refs .
    show "set (vmar_refs r) \<subseteq> (the \<circ> points s) ` set ?hs" using hs(3) by (metis order_refl set_map)
    show "in_memory k \<and> points s k \<noteq> None" if "k \<in> set ?hs" for k using that hs(2) by auto
  qed (use h x P refs free(3) in \<open>auto simp: held_def live_def s'_def mnew_def split: if_splits\<close>)
  moreover have "survives s s'" by (auto simp: survives_def s'_def mnew_def)
  ultimately show ?thesis using rel(2) by simp
qed

lemma held_forget:
  assumes h: "held (x # xs) s" and "1 < ms_refs s x"
  shows "held xs (set_refs x (ms_refs s x - 1) s)"
proof (rule heldI)
  fix y assume "foreign (set_refs x (ms_refs s x - 1) s) y" "y \<in> set xs"
  then show "count (mset xs) y < ms_refs (set_refs x (ms_refs s x - 1) s) y" using held_spare[OF h, of y] by (cases "y = x") auto
next
  fix y assume "\<not> foreign (set_refs x (ms_refs s x - 1) s) y"
  then show "0 < ms_refs (set_refs x (ms_refs s x - 1) s) y \<longleftrightarrow> live (set_refs x (ms_refs s x - 1) s) y"
    using held_exact[OF h, of y] assms(2) by (cases "y = x") (simp_all add: live_def)
qed (use h counted_drop[OF held_counted[OF h]] in \<open>auto simp: live_def held_def\<close>)

lemma held_last:
  assumes h: "held (x # xs) s" and "ms_refs s x \<le> 1"
  shows "live s x"
proof -
  have c: "ms_refs s x = 1" by (rule counted_unnamed(3)[OF held_counted[OF h] assms(2)])
  then have "\<not> foreign s x" using held_spare[OF h, of x] by fastforce
  with held_exact[OF h, of x] c show ?thesis by simp
qed

text \<open>Dropping references that the counts know of ends, without panic, with exact counts.\<close>

lemma drop_objects_held:
  assumes "held (xs @ ps) s"
  shows "\<exists>s'. drop_objects xs s = Some (Ok s') \<and> held ps s' \<and> survives s s'"
  using assms
proof (induction "size (named (points s)) + length xs" arbitrary: xs s rule: less_induct)
  case less
  show ?case
  proof (cases xs)
    case Nil
    with less.prems show ?thesis by (subst drop_objects.simps) simp
  next
    case (Cons x ys)
    with less.prems have h: "held (x # ys @ ps) s" by simp
    show ?thesis
    proof (cases "ms_refs s x > 1")
      case True
      let ?s = "set_refs x (ms_refs s x - 1) s"
      have "held (ys @ ps) ?s" by (rule held_forget[OF h True])
      moreover have "survives s ?s" by (simp add: survives_def)
      moreover have "drop_objects xs s = drop_objects ys ?s" using Cons True by (subst drop_objects.simps) simp
      ultimately show ?thesis using less.hyps[of ?s ys] Cons survives_trans by force
    next
      case False
      then have one: "ms_refs s x \<le> 1" by simp
      have "live s x" by (rule held_last[OF h one])
      show ?thesis
      proof (cases "ms_vmos s x")
        case (Some v)
        from drop_vmo_held[OF h one this] obtain vm where
          vm: "vm_drop x (as_vm (ms_as s)) = Ok vm" "held ((vmo_refs v @ ys) @ ps) (set_vm vm (set_refs x 0 s))"
            "survives s (set_vm vm (set_refs x 0 s))"
            "size (named (points s)) = size (named (points (set_vm vm (set_refs x 0 s)))) + length (vmo_refs v)" by auto
        have "drop_objects xs s = drop_objects (vmo_refs v @ ys) (set_vm vm (set_refs x 0 s))"
          using Cons False Some vm(1) by (subst drop_objects.simps) simp
        with less.hyps[OF _ vm(2)] vm(3,4) Cons survives_trans show ?thesis by force
      next
        case None
        with \<open>live s x\<close> obtain r where r: "ms_vmars s x = Some r" by (auto simp: live_def)
        let ?s = "(set_refs x 0 s)\<lparr>ms_as := (ms_as s)\<lparr>as_vmars := (ms_vmars s)(x := None)\<rparr>\<rparr>"
        have d: "held ((vmar_refs r @ ys) @ ps) ?s" "survives s ?s"
          "size (named (points s)) = size (named (points ?s)) + length (vmar_refs r)"
          using drop_vmar_held[OF h one None r] by auto
        have "drop_objects xs s = drop_objects (vmar_refs r @ ys) ?s"
          using Cons False None r by (subst drop_objects.simps) simp
        with less.hyps[OF _ d(1)] d(2,3) Cons survives_trans show ?thesis by force
      qed
    qed
  qed
qed

section \<open>Calls\<close>

text \<open>A call that ends well: it returns without panic and with exact counts, where \<open>ps\<close> are references still held on the caller's
  behalf; all frames are accounted for, unless it is one that may lose frames and says that there is no memory.\<close>

definition sound :: "bool \<Rightarrow> oid list \<Rightarrow> msys \<Rightarrow> moutcome \<Rightarrow> bool" where
  "sound exact ps s q \<longleftrightarrow> (\<exists>r s'. q = Some (r, s') \<and> r \<noteq> Panic \<and> held ps s' \<and>
     (accounts (as_vm (ms_as s')) = accounts (as_vm (ms_as s)) \<or> \<not> exact \<and> r = Err (Error ENOMEM)))"

lemma sound_same: "held ps s \<Longrightarrow> r \<noteq> Panic \<Longrightarrow> sound e ps s (Some (r, s))"
  by (auto simp: sound_def)

lemma sound_dropping:
  assumes "held (xs @ ps) s1" and "r \<noteq> Panic" and "accounts (as_vm (ms_as s1)) = accounts (as_vm (ms_as s)) \<or> \<not> e \<and> r = Err (Error ENOMEM)"
  shows "sound e ps s (mdropping xs (r, s1))"
proof -
  obtain s' where "drop_objects xs s1 = Some (Ok s')" "held ps s'" "survives s1 s'" using drop_objects_held[OF assms(1)] by blast
  with assms(2,3) show ?thesis by (auto simp: sound_def mdropping_def survives_def)
qed

lemma mclone_sels [simp]:
  "ms_as (mclone x s) = ms_as s" "ms_refs (mclone x s) = (ms_refs s)(x := Suc (ms_refs s x))" "ms_roots (mclone x s) = ms_roots s"
  "sy_tables (ms_sys (mclone x s)) = sy_tables (ms_sys s)" "mnew (mclone x s) = mnew s"
  "sy_umem (ms_sys (mclone x s)) = sy_umem (ms_sys s)" "sy_k (ms_sys (mclone x s)) = sy_k (ms_sys s)" "mtable me (mclone x s) = mtable me s"
  by (simp_all add: mclone_def mnew_def arc_clone_def mtable_def current_table_def split: option.split)

lemma mclone_set_vm: "mclone x (set_vm vm s) = set_vm vm (mclone x s)"
  by (simp add: mclone_def on_sys_def set_vm_def)

lemma foreign_clone [simp]: "foreign (mclone x s) = foreign s"
  by (rule foreign_cong) simp

lemma points_clone [simp]: "points (mclone x s) = points s"
  by (rule points_cong) simp_all

lemma held_clone:
  assumes h: "held ps s" and "0 < ms_refs s x"
  shows "held (x # ps) (mclone x s)"
proof (rule heldI)
  show "counted (foreign (mclone x s)) (points (mclone x s)) (x # ps) (ms_refs (mclone x s))"
    using counted_clone[OF held_counted[OF h]] by simp
next
  fix y assume "\<not> foreign (mclone x s) y"
  then show "0 < ms_refs (mclone x s) y \<longleftrightarrow> live (mclone x s) y"
    using held_exact[OF h, of y] assms(2) by (cases "y = x") (simp_all add: live_def)
next
  fix y assume "foreign (mclone x s) y" "y \<in> set (x # ps)"
  then show "count (mset (x # ps)) y < ms_refs (mclone x s) y"
    using held_spare[OF h, of y] assms(2) by (cases "y = x"; cases "y \<in> set ps") (auto simp: count_eq_zero_iff[THEN iffD2])
next
  fix y assume "mnew (mclone x s) \<le> y"
  then show "ms_refs (mclone x s) y = 0" using held_fresh[OF h, of y] assms(2) by (cases "y = x") simp_all
qed (use h in \<open>auto simp: live_def held_def\<close>)

lemma sound_holding:
  assumes "held ps s" and "0 < ms_refs s x" and "held (x # ps) (mclone x s) \<Longrightarrow> sound e (x # ps) s (f (mclone x s))"
  shows "sound e ps s (mholding x s f)"
proof -
  obtain r s1 where f: "f (mclone x s) = Some (r, s1)" "r \<noteq> Panic" "held ([x] @ ps) s1"
    "accounts (as_vm (ms_as s1)) = accounts (as_vm (ms_as s)) \<or> \<not> e \<and> r = Err (Error ENOMEM)"
    using assms(3)[OF held_clone[OF assms(1,2)]] by (auto simp: sound_def)
  with sound_dropping[OF f(3,2,4)] show ?thesis by (simp add: mholding_def)
qed

lemma mtable_Some: "mtable me s = Some (pid, t) \<longleftrightarrow> me = Some pid \<and> sy_tables (ms_sys s) pid = Some t"
  by (auto simp: mtable_def current_table_def split: option.splits)

lemma get_points:
  assumes "mtable me s = Some (pid, t)" and "ht_get t h r = Some x"
  shows "points s (HEntry pid h) = Some x"
  using assms by (auto simp: mtable_Some ht_get_def split: option.splits if_splits)

lemma held_refs: "held ps s \<Longrightarrow> points s h = Some x \<Longrightarrow> 0 < ms_refs s x"
  unfolding held_def by (metis counted_named)

lemma sound_with_vmo:
  assumes "held ps s"
    and "\<And>v x s1. held (v # ps) s1 \<Longrightarrow> ms_vmos s1 v = Some x \<Longrightarrow> ms_as s1 = ms_as s \<Longrightarrow> mnew s1 = mnew s \<Longrightarrow>
      sy_tables (ms_sys s1) = sy_tables (ms_sys s) \<Longrightarrow> sound e (v # ps) s (f v s1)"
  shows "sound e ps s (with_vmo me h r s f)"
proof -
  have *: "sound e ps s (mholding v s (\<lambda>s1. if ms_vmos s1 v = None then mfail EINVAL s1 else f v s1))" if "0 < ms_refs s v" for v
    by (rule sound_holding[OF assms(1) that]) (use assms(2)[of v "mclone v s"] in \<open>auto simp: sound_def\<close>)
  show ?thesis
  proof (cases "mtable me s")
    case (Some q)
    obtain pid t where q: "q = (pid, t)" by fastforce
    show ?thesis
    proof (cases "ht_get t (handle_from h) r")
      case (Some v)
      with * held_refs[OF assms(1) get_points] \<open>mtable me s = Some q\<close> q show ?thesis by (simp add: with_vmo_def)
    qed (use Some q assms(1) in \<open>simp add: with_vmo_def sound_same\<close>)
  qed (use assms(1) in \<open>simp add: with_vmo_def sound_same\<close>)
qed


subsection \<open>Objects\<close>

lemma parents_live:
  assumes "\<And>v. map_option vm_parent (H v) = map_option vm_parent (H' v)"
  shows "H v = None \<longleftrightarrow> H' v = None"
  using assms[of v] by (cases "H v"; cases "H' v") auto

lemma held_vm:
  assumes "held ps s" and "vm_inv vm" and "\<And>v. map_option vm_parent (vs_vmos vm v) = map_option vm_parent (ms_vmos s v)"
  shows "held ps (set_vm vm s)"
proof -
  have "points (set_vm vm s) = points s" by (rule points_cong) (use assms(3) in simp_all)
  moreover have "live (set_vm vm s) x = live s x" for x using parents_live[of "vs_vmos vm" "ms_vmos s"] assms(3) by (simp add: live_def)
  ultimately show ?thesis using assms(1,2) parents_live[of "vs_vmos vm" "ms_vmos s"] assms(3) by (simp add: held_def)
qed

lemma sound_vm:
  assumes "held ps s1" and "tidy (as_vm (ms_as s)) (r, vm)" and "ms_as s1 = ms_as s" and "q \<noteq> Panic"
    and "\<And>v. map_option vm_parent (vs_vmos vm v) = map_option vm_parent (ms_vmos s v)"
  shows "sound e ps s (Some (q, set_vm vm s1))"
  using held_vm[OF assms(1), of vm] assms(2-) by (auto simp: sound_def tidy_def)

lemma adopt_sels [simp]:
  "ms_as (adopt s) = ms_as s" "ms_refs (adopt s) = (ms_refs s)(mnew s := 1)" "ms_roots (adopt s) = ms_roots s"
  "sy_tables (ms_sys (adopt s)) = sy_tables (ms_sys s)" "mnew (adopt s) = Suc (mnew s)"
  "sy_umem (ms_sys (adopt s)) = sy_umem (ms_sys s)" "sy_k (ms_sys (adopt s)) = sy_k (ms_sys s)"
  by (simp_all add: adopt_def mnew_def)

lemma foreign_adopt [simp]: "foreign (adopt s) = foreign s"
  by (rule foreign_cong) simp

lemma held_next:
  assumes "held ps s"
  shows "ms_vmos s (mnew s) = None \<and> ms_vmars s (mnew s) = None \<and> ms_refs s (mnew s) = 0 \<and> \<not> foreign s (mnew s)"
proof -
  have "ms_refs s (mnew s) = 0" "\<not> foreign s (mnew s)" using held_fresh[OF assms] held_foreign(2)[OF assms] by auto
  with held_exact[OF assms, of "mnew s"] show ?thesis by (auto simp: live_def)
qed

lemma held_live: "held ps s \<Longrightarrow> live s x \<Longrightarrow> 0 < ms_refs s x \<and> \<not> foreign s x"
  using held_exact held_foreign(1) by blast

text \<open>A new object takes over the reference to its parent, and gets one itself.\<close>

lemma held_adopt:
  assumes h: "held (vmo_refs x @ ps) s" and vm: "vm_inv vm" "vs_vmos vm = (ms_vmos s)(mnew s \<mapsto> x)"
    and par: "\<And>p. vm_parent x = Some p \<Longrightarrow> live s p"
  shows "held (mnew s # ps) (adopt (set_vm vm s))"
proof -
  let ?s = "adopt (set_vm vm s)" and ?n = "mnew s"
  note new = held_next[OF h]
  have c: "counted (foreign s) (points s) (vmo_refs x @ ps) (ms_refs s)" by (rule held_counted[OF h])
  have P: "points ?s = (case vm_parent x of None \<Rightarrow> points s | Some p \<Rightarrow> (points s)(HParent ?n \<mapsto> p))"
  proof
    fix k show "points ?s k = (case vm_parent x of None \<Rightarrow> points s | Some p \<Rightarrow> (points s)(HParent ?n \<mapsto> p)) k"
      using vm(2) new by (cases k; cases "vm_parent x") auto
  qed
  have "points s (HParent ?n) = None" using new by simp
  with c have c': "counted (foreign s) (points ?s) ps (ms_refs s)"
    unfolding P vmo_refs_def by (cases "vm_parent x") (auto intro: counted_store)
  show ?thesis
  proof (rule heldI)
    show "counted (foreign ?s) (points ?s) (?n # ps) (ms_refs ?s)" using counted_clone[OF c', of ?n] new by simp
  next
    fix y assume "\<not> foreign ?s y"
    then show "0 < ms_refs ?s y \<longleftrightarrow> live ?s y" using held_exact[OF h, of y] vm(2) by (cases "y = ?n") (simp_all add: live_def)
  next
    fix y assume f: "foreign ?s y"
    then have y: "foreign s y" "y \<noteq> ?n" using new by auto
    show "\<not> live ?s y" using held_foreign(1)[OF h y(1)] y(2) vm(2) by (simp add: live_def)
    show "y < mnew ?s" using held_foreign(2)[OF h y(1)] by simp
    assume "y \<in> set (?n # ps)"
    then show "count (mset (?n # ps)) y < ms_refs ?s y" using held_spare[OF h y(1)] y(2) by (simp add: le_less_trans)
  next
    fix k y assume "points ?s k = Some y" "in_memory k"
    then show "\<not> foreign ?s y"
      unfolding P using held_inner[OF h, of k y] par held_foreign(1)[OF h, of y] by (auto split: option.splits if_splits)
  qed (use h vm new in \<open>auto simp: held_def live_def\<close>)
qed

definition room :: "nat option \<Rightarrow> msys \<Rightarrow> bool" where
  "room me s \<longleftrightarrow> (case mtable me s of None \<Rightarrow> True | Some (pid, t) \<Rightarrow> Suc (ht_next_id t) < 2 ^ 32)"

lemma mtable_cong: "sy_tables (ms_sys s') = sy_tables (ms_sys s) \<Longrightarrow> mtable me s' = mtable me s"
  by (cases me) (simp_all add: mtable_def current_table_def)

lemma room_cong: "sy_tables (ms_sys s') = sy_tables (ms_sys s) \<Longrightarrow> room me s' = room me s"
  unfolding room_def by (drule mtable_cong[where me = me]) simp

lemma held_umem: "held ps (s\<lparr>ms_sys := write_user me f q\<rparr>) = held ps (s\<lparr>ms_sys := q\<rparr>)"
proof -
  have "points (s\<lparr>ms_sys := write_user me f q\<rparr>) = points (s\<lparr>ms_sys := q\<rparr>)" "foreign (s\<lparr>ms_sys := write_user me f q\<rparr>) = foreign (s\<lparr>ms_sys := q\<rparr>)"
    by (rule points_cong, simp_all add: write_user_def) (rule foreign_cong, simp)
  then show ?thesis by (simp add: held_def live_def mnew_def write_user_def)
qed

lemma held_write_user: "held ps (on_sys (write_user me f) s) = held ps s"
proof -
  have "s\<lparr>ms_sys := ms_sys s\<rparr> = s" by (cases s) simp
  with held_umem[where s = s and q = "ms_sys s" and ps = ps] show ?thesis by (simp add: on_sys_def)
qed

text \<open>A reference that the call holds is stored in the caller's table.\<close>

lemma held_store:
  assumes h: "held (x # ps) s" and t: "sy_tables (ms_sys s) pid = Some t" and "ht_lookup t n = None" and "ht_wf t'"
    and "\<And>k. ht_lookup t' k = (if k = n then Some e else ht_lookup t k)" and "he_object e = x"
  shows "held ps (on_sys (set_table pid t') s)"
proof -
  have P: "points (on_sys (set_table pid t') s) = (points s)(HEntry pid n \<mapsto> x)"
  proof
    fix k show "points (on_sys (set_table pid t') s) k = ((points s)(HEntry pid n \<mapsto> x)) k"
      using t assms(5,6) by (cases k) auto
  qed
  have "points s (HEntry pid n) = None" using t assms(3) by simp
  with h P counted_store[of "foreign s" "points s" x ps] have c: "counted (foreign s) (points (on_sys (set_table pid t') s)) ps (ms_refs s)"
    by (simp add: held_def)
  have F: "foreign (on_sys (set_table pid t') s) = foreign s" by (rule foreign_cong) simp
  show ?thesis
  proof (rule heldI)
    fix y assume "foreign (on_sys (set_table pid t') s) y" "y \<in> set ps"
    then show "count (mset ps) y < ms_refs (on_sys (set_table pid t') s) y" using held_spare[OF h, of y] F by (auto split: if_splits)
  next
    fix k y assume "points (on_sys (set_table pid t') s) k = Some y" "in_memory k"
    then show "\<not> foreign (on_sys (set_table pid t') s) y" unfolding F P using held_inner[OF h, of k y] by (cases k) auto
  qed (use h assms(4) c F in \<open>auto simp: held_def live_def mnew_def set_table_def split: if_splits\<close>)
qed

lemma sound_publish:
  assumes h: "held (x # ps) s1" and "room me s1" and "accounts (as_vm (ms_as s1)) = accounts (as_vm (ms_as s))"
  shows "sound e ps s (publish me x out s1)"
proof (cases "mtable me s1")
  case None
  with sound_dropping[of "[x]" ps s1 "Err (Error EINVAL)" s e] h assms(3) show ?thesis by (simp add: publish_def)
next
  case (Some q)
  obtain pid t where q: "q = (pid, t)" by fastforce
  have t: "sy_tables (ms_sys s1) pid = Some t" "Suc (ht_next_id t) < 2 ^ 32"
    using Some q assms(2) by (simp add: mtable_Some, simp add: room_def)
  let ?h = "ht_next_id t"
  let ?e = "\<lparr>he_object = x, he_rights = VMO_RIGHTS\<rparr>"
  let ?t = "t\<lparr>ht_next_id := Suc ?h, ht_handles := bt_insert ?h ?e (ht_handles t)\<rparr>"
  have ins: "ht_insert x VMO_RIGHTS t = (Ok (?h, ?t) :: (error, nat \<times> handle_table) res)" using t(2) by (simp add: ht_insert_def Let_def)
  have wf: "ht_wf t" using h t(1) by (auto simp: held_def)
  have "held ps (on_sys (set_table pid ?t) s1)"
    by (rule held_store[where e = ?e, OF h t(1) ht_wf_fresh[OF wf order_refl] ht_wf_insert[OF ins wf]]) (simp_all add: bt_get_insert)
  then show ?thesis
    using Some q t(1) ins assms(3) by (auto simp: publish_def insert_object_def sound_def held_umem on_sys_def set_table_def)
qed


subsection \<open>The heap under each operation\<close>

lemma take_frames_heap: "vs_vmos (snd (take_frames n s)) = vs_vmos s"
  by (auto simp: take_frames_def vs_map_mem_def Let_def split: res.split option.split prod.split)

lemma commit_each_heap: "vs_vmos (snd (commit_each n s)) = vs_vmos s"
proof (induction n arbitrary: s)
  case (Suc n)
  show ?case
    using Suc[of "snd (take_frames 1 s)"] take_frames_heap[of 1 s] by (auto split: res.split prod.split)
qed simp

lemma vm_create_heap:
  assumes "vm_create v n opts s = (r, s')"
  shows "case r of Ok _ \<Rightarrow> \<exists>x. vs_vmos s' = (vs_vmos s)(v \<mapsto> x) \<and> vm_parent x = None | _ \<Rightarrow> vs_vmos s' = vs_vmos s"
proof -
  have tf: "vs_vmos s1 = vs_vmos s" if "take_frames k s = (q, s1)" for k q s1 using take_frames_heap[of k s] that by simp
  have ce: "vs_vmos s1 = vs_vmos s" if "commit_each k s = (q, s1)" for k q s1 using commit_each_heap[of k s] that by simp
  show ?thesis
    using assms unfolding vm_create_def
    by (auto simp: put_vmo_def new_vmo_def Let_def split: if_splits res.splits prod.splits dest!: tf ce)
qed

lemma vm_create_physical_heap:
  "vm_create_physical v phys n s = (r, s') \<Longrightarrow>
    (case r of Ok _ \<Rightarrow> \<exists>x. vs_vmos s' = (vs_vmos s)(v \<mapsto> x) \<and> vm_parent x = None | _ \<Rightarrow> vs_vmos s' = vs_vmos s)"
  by (auto simp: vm_create_physical_def put_vmo_def new_vmo_def Let_def split: if_splits res.splits)

lemma vm_create_cow_clone_heap:
  "vm_create_cow_clone v p off n s = (r, s') \<Longrightarrow>
    (case r of Ok _ \<Rightarrow> \<exists>x. vs_vmos s' = (vs_vmos s)(v \<mapsto> x) \<and> vm_parent x = Some p | _ \<Rightarrow> vs_vmos s' = vs_vmos s)"
  by (auto simp: vm_create_cow_clone_def put_vmo_def new_vmo_def Let_def split: if_splits res.splits option.splits)

lemma vm_resize_heap:
  "vm_resize v n s = (r, s') \<Longrightarrow> map_option vm_parent (vs_vmos s' w) = map_option vm_parent (vs_vmos s w)"
  by (auto simp: vm_resize_def put_vmo_def Let_def split: if_splits res.splits option.splits)

lemma same_shape_parents: "same_shape H H' \<Longrightarrow> map_option vm_parent (H' v) = map_option vm_parent (H v)"
  unfolding same_shape_def by (drule spec[of _ v], cases "H v"; cases "H' v") (auto simp: same_vmo_def)

lemma vm_read_shape:
  assumes "vm_inv s" and "vs_vmos s v = Some x"
  shows "\<exists>r s'. vm_read v off n s = Some (r, s') \<and> r \<noteq> Panic \<and> quiet s s'"
proof (cases "off \<ge> vm_size x")
  case False
  obtain rank where "ranked rank (vs_vmos s)" using vm_inv_rank[OF assms(1)] by blast
  from read_loop_spec[OF assms(1) this assms(2), of off "min n (vm_size x - off)"] False assms(2)
  show ?thesis by (auto simp: vm_read_def simp del: read_loop.simps)
qed (use assms in \<open>simp add: vm_read_def quiet_refl\<close>)

lemma vm_write_shape:
  assumes "vm_inv s" and "vs_vmos s v = Some x"
  shows "\<exists>r s'. vm_write v off bs s = Some (r, s') \<and> r \<noteq> Panic \<and> steady s s'"
proof (cases "off \<ge> vm_size x")
  case False
  obtain rank where "ranked rank (vs_vmos s)" using vm_inv_rank[OF assms(1)] by blast
  from write_loop_spec[OF assms(1) this assms(2), of off "take (vm_size x - off) bs"] False assms(2)
  show ?thesis by (auto simp: vm_write_def simp del: write_loop.simps)
qed (use assms in \<open>simp add: vm_write_def quiet_steady quiet_refl\<close>)


subsection \<open>Every call\<close>

lemma sound_new:
  assumes h: "held (vmo_refs x @ ps) s1" and "ms_as s1 = ms_as s" and "room me s1" and vm: "tidy (as_vm (ms_as s)) (r, vm)"
    "vs_vmos vm = (ms_vmos s)(mnew s1 \<mapsto> x)"
    and par: "\<And>p. vm_parent x = Some p \<Longrightarrow> live s1 p"
  shows "sound True ps s (publish me (mnew s1) out (adopt (set_vm vm s1)))"
proof (rule sound_publish)
  show "held (mnew s1 # ps) (adopt (set_vm vm s1))" by (rule held_adopt[OF h]) (use vm assms(2) par in \<open>auto simp: tidy_def\<close>)
  show "room me (adopt (set_vm vm s1))" using assms(3) room_cong[of "adopt (set_vm vm s1)" s1] by simp
qed (use vm in \<open>simp add: tidy_def\<close>)

lemma sound_weaken: "sound True ps s q \<Longrightarrow> sound e ps s q"
  by (auto simp: sound_def)

lemma create_sound:
  assumes h: "mem_inv s" and "room me s" and "mem_u64 (sy_umem (ms_sys s) me) a + 4096 < usize_limit"
  shows "sound False [] s (sys_vmo_create me a out s)"
proof (cases "a = 0 \<or> out = 0")
  case True
  with h show ?thesis by (auto simp: sys_vmo_create_def sound_same)
next
  case False
  let ?n = "mem_u64 (sy_umem (ms_sys s) me) a" and ?o = "vmo_options_from (word_of_nat (mem_u32 (sy_umem (ms_sys s) me) (a + 8)))"
  let ?vm = "as_vm (ms_as s)"
  have inv: "vm_inv ?vm" using h by (simp add: held_def)
  obtain r vm where c: "vm_create (mnew s) ?n ?o ?vm = (r, vm)" by fastforce
  note heap = vm_create_heap[OF c]
  have t: "tidy ?vm (r, vm) \<or> r = Err NoMemory \<and> vm_inv vm \<and> vs_vmos vm = ms_vmos s"
    using vm_create_tidy[OF inv _ assms(3), of "mnew s" ?o] held_next[OF h] c by auto
  show ?thesis
  proof (cases r)
    case (Ok u)
    with heap obtain x where x: "vs_vmos vm = (ms_vmos s)(mnew s \<mapsto> x)" "vm_parent x = None" by auto
    have "held (vmo_refs x @ []) s" using h x(2) by (simp add: vmo_refs_def)
    from sound_new[OF this refl assms(2) _ x(1)] x(2) t Ok c False show ?thesis
      by (auto simp: sys_vmo_create_def Let_def intro: sound_weaken)
  next
    case (Err e)
    have "held [] (set_vm vm s)" by (rule held_vm[OF h]) (use t heap Err in \<open>auto simp: tidy_def\<close>)
    with c Err False t show ?thesis by (auto simp: sys_vmo_create_def Let_def sound_def create_errno_def tidy_def)
  qed (use t in \<open>simp add: tidy_def\<close>)
qed

lemma physical_sound:
  assumes h: "mem_inv s" and "room me s" and "phys + n + 4096 \<le> phys_limit"
    and "{phys ..< phys + n + 4096} \<inter> table_range (ba_table (vs_frames (as_vm (ms_as s)))) = {}"
  shows "sound True [] s (sys_vmo_create_physical me phys n out s)"
proof (cases "out = 0")
  case True
  with h show ?thesis by (auto simp: sys_vmo_create_physical_def sound_same)
next
  case False
  have inv: "vm_inv (as_vm (ms_as s))" using h by (simp add: held_def)
  obtain r vm where c: "vm_create_physical (mnew s) phys n (as_vm (ms_as s)) = (r, vm)" by fastforce
  note heap = vm_create_physical_heap[OF c]
  have t: "tidy (as_vm (ms_as s)) (r, vm)" using vm_create_physical_tidy[OF inv _ assms(3,4), of "mnew s"] held_next[OF h] c by auto
  show ?thesis
  proof (cases r)
    case (Ok u)
    with heap obtain x where x: "vs_vmos vm = (ms_vmos s)(mnew s \<mapsto> x)" "vm_parent x = None" by auto
    have "held (vmo_refs x @ []) s" using h x(2) by (simp add: vmo_refs_def)
    from sound_new[OF this refl assms(2) t x(1)] x(2) Ok c False show ?thesis by (simp add: sys_vmo_create_physical_def)
  next
    case (Err e)
    from sound_vm[OF h t refl, of "Err (Error EINVAL)"] c heap Err False
    show ?thesis by (simp add: sys_vmo_create_physical_def)
  qed (use t in \<open>simp add: tidy_def\<close>)
qed

lemma child_sound:
  assumes h: "mem_inv s" and "room me s" and "off + n + 4096 < usize_limit"
  shows "sound True [] s (sys_vmo_create_child me vh off n out s)"
proof -
  have "sound True [p] s (mholding p s1 (\<lambda>s2.
        case vm_create_cow_clone (mnew s2) p off n (as_vm (ms_as s2)) of
          (Ok _, vm) \<Rightarrow> publish me (mnew s2) out (adopt (mclone p (set_vm vm s2)))
        | (Err e, vm) \<Rightarrow> mfail (clone_errno e) (set_vm vm s2)
        | (Panic, vm) \<Rightarrow> Some (Panic, set_vm vm s2)))"
    if s1: "held [p] s1" "ms_vmos s1 p = Some x" "ms_as s1 = ms_as s" "mnew s1 = mnew s" "sy_tables (ms_sys s1) = sy_tables (ms_sys s)"
    for p x s1
  proof -
    have pos: "0 < ms_refs s1 p" using held_live[OF s1(1), of p] s1(2) by (simp add: live_def)
    have inv: "vm_inv (as_vm (ms_as s))" using h by (simp add: held_def)
    have rm: "room me s1" using assms(2) room_cong[OF s1(5)] by simp
    obtain r vm where c: "vm_create_cow_clone (mnew s) p off n (as_vm (ms_as s)) = (r, vm)" by fastforce
    note heap = vm_create_cow_clone_heap[OF c]
    have t: "tidy (as_vm (ms_as s)) (r, vm)"
      using vm_create_cow_clone_tidy[OF inv _ _ assms(3), of "mnew s" p x] held_next[OF h] c s1 by auto
    have "sound True [p] s1 (mholding p s1 (\<lambda>s2.
        case vm_create_cow_clone (mnew s2) p off n (as_vm (ms_as s2)) of
          (Ok _, vm) \<Rightarrow> publish me (mnew s2) out (adopt (mclone p (set_vm vm s2)))
        | (Err e, vm) \<Rightarrow> mfail (clone_errno e) (set_vm vm s2)
        | (Panic, vm) \<Rightarrow> Some (Panic, set_vm vm s2)))"
    proof (rule sound_holding[OF s1(1) pos])
      let ?s2 = "mclone p s1"
      assume h2: "held [p, p] ?s2"
      show "sound True [p, p] s1 (case vm_create_cow_clone (mnew ?s2) p off n (as_vm (ms_as ?s2)) of
          (Ok _, vm) \<Rightarrow> publish me (mnew ?s2) out (adopt (mclone p (set_vm vm ?s2)))
        | (Err e, vm) \<Rightarrow> mfail (clone_errno e) (set_vm vm ?s2)
        | (Panic, vm) \<Rightarrow> Some (Panic, set_vm vm ?s2))"
      proof (cases r)
        case (Ok u)
        with heap obtain y where y: "vs_vmos vm = (ms_vmos s)(mnew s \<mapsto> y)" "vm_parent y = Some p" by auto
        have "held (vmo_refs y @ [p, p]) (mclone p ?s2)" using held_clone[OF h2, of p] y(2) by (simp add: vmo_refs_def)
        from sound_new[OF this, of s1 me r vm out] room_cong[of "mclone p ?s2" s1] rm t y s1 c Ok
        show ?thesis by (simp add: mclone_set_vm live_def)
      next
        case (Err e)
        from sound_vm[OF h2, of s1 r vm "Err (Error (clone_errno e))" True] t c heap Err s1 show ?thesis by simp
      qed (use t in \<open>simp add: tidy_def\<close>)
    qed
    with s1(3) show ?thesis by (simp add: sound_def)
  qed
  then show ?thesis
    unfolding sys_vmo_create_child_def by (auto intro!: sound_same[OF h] sound_with_vmo[OF h])
qed


lemma read_sound:
  assumes h: "mem_inv s"
  shows "sound True [] s (sys_vmo_read me vh off a n s)"
proof -
  have inv: "vm_inv (as_vm (ms_as s))" using h by (simp add: held_def)
  have "sound True [v] s (case vm_read v off n (as_vm (ms_as s1)) of
             None \<Rightarrow> None
           | Some (Ok bs, vm) \<Rightarrow> Some (Ok (length bs), on_sys (write_user me f) (set_vm vm s1))
           | Some (Err _, vm) \<Rightarrow> mfail EINVAL (on_sys (write_user me f) (set_vm vm s1))
           | Some (Panic, vm) \<Rightarrow> Some (Panic, on_sys (write_user me f) (set_vm vm s1)))"
    if s1: "held [v] s1" "ms_vmos s1 v = Some x" "ms_as s1 = ms_as s" for v x s1 f
  proof -
    obtain r vm where r: "vm_read v off n (as_vm (ms_as s)) = Some (r, vm)" "r \<noteq> Panic" "quiet (as_vm (ms_as s)) vm"
      using vm_read_shape[OF inv] s1(2,3) by fastforce
    have "held [v] (on_sys (write_user me f) (set_vm vm s1))"
      using held_vm[OF s1(1), of vm] r(3) s1(3) same_shape_parents by (auto simp: held_write_user quiet_def)
    with r s1(3) show ?thesis by (cases r) (auto simp: sound_def quiet_def)
  qed
  then show ?thesis
    unfolding sys_vmo_read_def Let_def by (auto intro!: sound_same[OF h] sound_with_vmo[OF h])
qed

lemma write_sound:
  assumes h: "mem_inv s"
  shows "sound True [] s (sys_vmo_write me vh off a n s)"
proof -
  have inv: "vm_inv (as_vm (ms_as s))" using h by (simp add: held_def)
  have "sound True [v] s (case vm_write v off bs (as_vm (ms_as s1)) of
          None \<Rightarrow> None
        | Some (Ok n, vm) \<Rightarrow> Some (Ok n, set_vm vm s1)
        | Some (Err _, vm) \<Rightarrow> mfail EINVAL (set_vm vm s1)
        | Some (Panic, vm) \<Rightarrow> Some (Panic, set_vm vm s1))"
    if s1: "held [v] s1" "ms_vmos s1 v = Some x" "ms_as s1 = ms_as s" for v x s1 bs
  proof -
    obtain r vm where r: "vm_write v off bs (as_vm (ms_as s)) = Some (r, vm)" "r \<noteq> Panic" "steady (as_vm (ms_as s)) vm"
      using vm_write_shape[OF inv] s1(2,3) by fastforce
    have "held [v] (set_vm vm s1)"
      using held_vm[OF s1(1), of vm] r(3) s1(3) same_shape_parents by (auto simp: steady_def)
    with r s1(3) show ?thesis by (cases r) (auto simp: sound_def steady_def)
  qed
  then show ?thesis
    unfolding sys_vmo_write_def by (auto intro!: sound_same[OF h] sound_with_vmo[OF h])
qed

lemma get_size_sound: "mem_inv s \<Longrightarrow> sound True [] s (sys_vmo_get_size me vh s)"
  unfolding sys_vmo_get_size_def by (rule sound_with_vmo) (auto simp: sound_def)

lemma vm_get_physical_total: "vs_vmos s v = Some x \<Longrightarrow> vm_get_physical v s \<noteq> Panic"
  by (auto simp: vm_get_physical_def split: list.split page_state.split)

lemma get_phys_sound: "mem_inv s \<Longrightarrow> sound True [] s (sys_vmo_get_phys me vh s)"
  unfolding sys_vmo_get_phys_def by (rule sound_with_vmo) (auto simp: sound_def dest: vm_get_physical_total)

lemma set_size_sound:
  assumes h: "mem_inv s" and "n + 4096 < usize_limit"
  shows "sound True [] s (sys_vmo_set_size me vh n s)"
  unfolding sys_vmo_set_size_def
proof (rule sound_with_vmo[OF h])
  fix v x s1 assume s1: "held [v] s1" "ms_vmos s1 v = Some x" "ms_as s1 = ms_as s"
  have inv: "vm_inv (as_vm (ms_as s))" using h by (simp add: held_def)
  obtain r vm where c: "vm_resize v n (as_vm (ms_as s)) = (r, vm)" by fastforce
  with vm_resize_tidy[OF inv _ assms(2), of v x] s1 have t: "tidy (as_vm (ms_as s)) (r, vm)" by simp
  have "sound True [v] s (Some (q, set_vm vm s1))" if "q \<noteq> Panic" for q
    by (rule sound_vm[OF s1(1) t s1(3) that vm_resize_heap[OF c]])
  with c t s1(3) show "sound True [v] s (case vm_resize v n (as_vm (ms_as s1)) of
         (Ok _, vm) \<Rightarrow> Some (Ok 0, set_vm vm s1)
       | (Err _, vm) \<Rightarrow> mfail EPERM (set_vm vm s1)
       | (Panic, vm) \<Rightarrow> Some (Panic, set_vm vm s1))"
    by (cases r) (simp_all add: tidy_def)
qed

text \<open>A handle that leaves the table becomes a reference that the call holds.\<close>

lemma held_unstore:
  assumes h: "held ps s" and t: "sy_tables (ms_sys s) pid = Some t" and e: "ht_lookup t n = Some e" and "ht_wf t'"
    and "\<And>k. ht_lookup t' k = (if k = n then None else ht_lookup t k)"
    and spare: "foreign s (he_object e) \<Longrightarrow> Suc (count (mset ps) (he_object e)) < ms_refs s (he_object e)"
  shows "held (he_object e # ps) (on_sys (set_table pid t') s)"
proof -
  have P: "points (on_sys (set_table pid t') s) k = (if k \<in> set [HEntry pid n] then None else points s k)" for k
    using t assms(5) by (cases k) auto
  have "set [HEntry pid n] \<subseteq> dom (points s)" "the (points s (HEntry pid n)) = he_object e" using t e by auto
  with counted_release(1)[of "foreign s" "points s" ps "ms_refs s" "[HEntry pid n]", OF _ _ _ P] h
  have c: "counted (foreign s) (points (on_sys (set_table pid t') s)) (he_object e # ps) (ms_refs s)" by (simp add: held_def)
  have F: "foreign (on_sys (set_table pid t') s) = foreign s" by (rule foreign_cong) simp
  show ?thesis
  proof (rule heldI)
    fix y assume "foreign (on_sys (set_table pid t') s) y" "y \<in> set (he_object e # ps)"
    then show "count (mset (he_object e # ps)) y < ms_refs (on_sys (set_table pid t') s) y"
      using held_spare[OF h, of y] spare F by (cases "y = he_object e") auto
  next
    fix k y assume "points (on_sys (set_table pid t') s) k = Some y" "in_memory k"
    then show "\<not> foreign (on_sys (set_table pid t') s) y" unfolding F P using held_inner[OF h, of k y] by (auto split: if_splits)
  qed (use h assms(4) c F in \<open>auto simp: held_def live_def mnew_def set_table_def split: if_splits\<close>)
qed

text \<open>Closing a handle, unless it is to the last reference to an object of another kind.\<close>

definition spared :: "nat option \<Rightarrow> nat \<Rightarrow> msys \<Rightarrow> bool" where
  "spared me h s \<longleftrightarrow> (\<forall>pid t e. mtable me s = Some (pid, t) \<longrightarrow> ht_lookup t (handle_from h) = Some e \<longrightarrow> foreign s (he_object e) \<longrightarrow>
     1 < ms_refs s (he_object e))"

lemma close_sound:
  assumes h: "mem_inv s" and "spared me n s"
  shows "sound True [] s (mem_handle_close me n s)"
proof (cases "mtable me s")
  case (Some q)
  obtain pid t where q: "q = (pid, t)" by fastforce
  with Some have t: "sy_tables (ms_sys s) pid = Some t" by (simp add: mtable_Some)
  have wf: "ht_wf t" using h t by (auto simp: held_def)
  show ?thesis
  proof (cases "ht_lookup t (handle_from n)")
    case (Some e)
    let ?t = "t\<lparr>ht_handles := bt_remove (handle_from n) (ht_handles t)\<rparr>"
    have "held ([he_object e] @ []) (on_sys (set_table pid ?t) s)"
      using held_unstore[OF h t Some ht_wf_remove[OF wf]] assms(2) \<open>mtable me s = Some q\<close> q Some by (simp add: bt_get_remove spared_def)
    from sound_dropping[OF this, of "Ok 0" s True] Some \<open>mtable me s = Some q\<close> q
    show ?thesis by (simp add: mem_handle_close_def ht_remove_def)
  qed (use Some q h in \<open>simp add: mem_handle_close_def ht_remove_def sound_same\<close>)
qed (use h in \<open>simp add: mem_handle_close_def sound_same\<close>)

lemma duplicate_sound:
  assumes h: "mem_inv s" and "room me s"
  shows "sound True [] s (mem_handle_duplicate me n r s)"
proof (cases "mtable me s")
  case None
  with h show ?thesis by (auto simp: mem_handle_duplicate_def sys_handle_duplicate_def mtable_def intro: sound_same)
next
  case (Some q)
  obtain pid t where q: "q = (pid, t)" by fastforce
  with Some have t: "sy_tables (ms_sys s) pid = Some t" "me = Some pid" by (simp_all add: mtable_Some)
  have c: "current_table me (ms_sys s) = Some (pid, t)" using Some q by (simp add: mtable_def)
  have lim: "Suc (ht_next_id t) < 2 ^ 32" using assms(2) Some q by (simp add: room_def)
  have wf: "ht_wf t" using h t by (auto simp: held_def)
  let ?R = "rights_from_bits_truncate (word_of_nat r)"
  show ?thesis
  proof (cases "\<exists>e. ht_lookup t (handle_from n) = Some e \<and> contains (he_rights e) R_DUPLICATE")
    case False
    then have "ht_duplicate (handle_from n) ?R t = (Ok (None, t) :: (error, nat option \<times> handle_table) res)"
      by (auto simp: ht_duplicate_def split: option.split)
    with c sound_same[OF h] show ?thesis by (simp add: mem_handle_duplicate_def sys_handle_duplicate_def)
  next
    case True
    then obtain e where e: "ht_lookup t (handle_from n) = Some e" "contains (he_rights e) R_DUPLICATE" by blast
    let ?h = "ht_next_id t" and ?x = "he_object e"
    let ?e = "\<lparr>he_object = ?x, he_rights = he_rights e AND ?R\<rparr>"
    let ?t = "t\<lparr>ht_next_id := Suc ?h, ht_handles := bt_insert ?h ?e (ht_handles t)\<rparr>"
    have d: "ht_duplicate (handle_from n) ?R t = (Ok (Some ?h, ?t) :: (error, nat option \<times> handle_table) res)"
      using e lim by (simp add: ht_duplicate_def Let_def)
    have ins: "ht_insert ?x (he_rights e AND ?R) t = (Ok (?h, ?t) :: (error, nat \<times> handle_table) res)"
      using lim by (simp add: ht_insert_def Let_def)
    have "points s (HEntry pid (handle_from n)) = Some ?x" using t e by simp
    from held_clone[OF h held_refs[OF h this]] have c1: "held [?x] (mclone ?x s)" .
    have "held [] (on_sys (set_table pid ?t) (mclone ?x s))"
      by (rule held_store[where e = ?e, OF c1 _ ht_wf_fresh[OF wf order_refl] ht_wf_insert[OF ins wf]]) (simp_all add: bt_get_insert t)
    moreover have "on_sys (set_table pid ?t) (mclone ?x s) = s\<lparr>ms_sys := arc_clone ?x (set_table pid ?t (ms_sys s))\<rparr>"
      by (simp add: on_sys_def mclone_def arc_clone_def set_table_def)
    ultimately show ?thesis
      using c d e by (simp add: mem_handle_duplicate_def sys_handle_duplicate_def sound_def ht_get_unchecked_def)
  qed
qed


datatype mem_call = MClose nat | MDuplicate nat nat | MCreate nat nat | MPhysical nat nat nat | MChild nat nat nat nat
  | MRead nat nat nat nat | MWrite nat nat nat nat | MGetSize nat | MSetSize nat nat | MGetPhys nat

fun mem_do :: "nat option \<Rightarrow> mem_call \<Rightarrow> msys \<Rightarrow> moutcome" where
  "mem_do me (MClose h) s = mem_handle_close me h s"
| "mem_do me (MDuplicate h r) s = mem_handle_duplicate me h r s"
| "mem_do me (MCreate a out) s = sys_vmo_create me a out s"
| "mem_do me (MPhysical phys n out) s = sys_vmo_create_physical me phys n out s"
| "mem_do me (MChild h off n out) s = sys_vmo_create_child me h off n out s"
| "mem_do me (MRead h off a n) s = sys_vmo_read me h off a n s"
| "mem_do me (MWrite h off a n) s = sys_vmo_write me h off a n s"
| "mem_do me (MGetSize h) s = sys_vmo_get_size me h s"
| "mem_do me (MSetSize h n) s = sys_vmo_set_size me h n s"
| "mem_do me (MGetPhys h) s = sys_vmo_get_phys me h s"

text \<open>Sizes do not overflow, device memory is not memory of the allocator, and the caller has a handle number left.\<close>

fun mem_allowed :: "nat option \<Rightarrow> mem_call \<Rightarrow> msys \<Rightarrow> bool" where
  "mem_allowed me (MClose h) s \<longleftrightarrow> spared me h s"
| "mem_allowed me (MDuplicate h r) s \<longleftrightarrow> room me s"
| "mem_allowed me (MCreate a out) s \<longleftrightarrow> room me s \<and> mem_u64 (sy_umem (ms_sys s) me) a + 4096 < usize_limit"
| "mem_allowed me (MPhysical phys n out) s \<longleftrightarrow> room me s \<and> phys + n + 4096 \<le> phys_limit \<and>
     {phys ..< phys + n + 4096} \<inter> table_range (ba_table (vs_frames (as_vm (ms_as s)))) = {}"
| "mem_allowed me (MChild h off n out) s \<longleftrightarrow> room me s \<and> off + n + 4096 < usize_limit"
| "mem_allowed me (MSetSize h n) s \<longleftrightarrow> n + 4096 < usize_limit"
| "mem_allowed me _ s \<longleftrightarrow> True"

fun is_create :: "mem_call \<Rightarrow> bool" where
  "is_create (MCreate a out) = True"
| "is_create _ = False"

lemmas calls_sound = close_sound duplicate_sound create_sound physical_sound child_sound read_sound write_sound
  get_size_sound set_size_sound get_phys_sound

lemma mem_do_sound:
  assumes "mem_inv s" and "mem_allowed me c s"
  shows "sound (\<not> is_create c) [] s (mem_do me c s)"
  using assms by (cases c) (simp_all add: calls_sound)

inductive mem_reach :: "msys \<Rightarrow> msys \<Rightarrow> bool" for s0 where
  start: "mem_reach s0 s0"
| call: "mem_reach s0 s \<Longrightarrow> mem_allowed me c s \<Longrightarrow> mem_do me c s = Some (r, s') \<Longrightarrow> mem_reach s0 s'"

lemma mem_reach_inv: "mem_reach s0 s \<Longrightarrow> mem_inv s0 \<Longrightarrow> mem_inv s"
proof (induction rule: mem_reach.induct)
  case (call s me c r s')
  from mem_do_sound[OF call.IH[OF call.prems] call.hyps(2)] call.hyps(3) show ?case by (simp add: sound_def)
qed

section \<open>Sharing\<close>

definition page_at :: "vm_sys \<Rightarrow> oid \<Rightarrow> nat \<Rightarrow> page_state option" where
  "page_at s v i = (case vs_vmos s v of None \<Rightarrow> None | Some x \<Rightarrow> if i < length (vm_pages x) then Some (vm_pages x ! i) else None)"

text \<open>A committed page stays with its frame, and no page goes away.\<close>

definition keeps_frames :: "vm_sys \<Rightarrow> vm_sys \<Rightarrow> bool" where
  "keeps_frames s s' \<longleftrightarrow> (\<forall>u j f b. page_at s u j = Some (Committed f b) \<longrightarrow> page_at s' u j = Some (Committed f b)) \<and>
     (\<forall>u j. page_at s u j \<noteq> None \<longrightarrow> page_at s' u j \<noteq> None)"

lemma keeps_frames_heap: "vs_vmos s' = vs_vmos s \<Longrightarrow> keeps_frames s s'"
  by (simp add: keeps_frames_def page_at_def)

lemma keeps_frames_trans: "keeps_frames s s1 \<Longrightarrow> keeps_frames s1 s2 \<Longrightarrow> keeps_frames s s2"
  by (simp add: keeps_frames_def)

lemma page_at_set_page:
  "page_at (set_page v i pg s) u j = (if u = v \<and> j = i \<and> page_at s v i \<noteq> None then Some pg else page_at s u j)"
  by (auto simp: page_at_def set_page_def put_vmo_def split: option.split)

lemma copy_frame_heap: "vs_vmos (snd (copy_frame f s)) = vs_vmos s"
  by (auto simp: copy_frame_def vs_map_mem_def Let_def split: res.split option.split prod.split)

lemma set_page_keeps:
  assumes "\<And>f b. page_at s v i \<noteq> Some (Committed f b)" and "keeps_frames s s1" and "vs_vmos s2 = vs_vmos s1"
  shows "keeps_frames s (set_page v i pg s2)"
proof -
  have "page_at s2 = page_at s1" using assms(3) by (simp add: page_at_def fun_eq_iff)
  with assms(1,2) show ?thesis by (auto simp: keeps_frames_def page_at_set_page)
qed


lemma get_page_keeps:
  assumes "vm_get_page v off w s = Some q"
  shows "keeps_frames s (snd q)"
proof (rule vm_get_page.raw_induct[where P = "\<lambda>v off w s q. keeps_frames s (snd q)", OF _ assms])
  fix D :: "oid \<Rightarrow> nat \<Rightarrow> bool \<Rightarrow> vm_sys \<Rightarrow> ((vmo_error, nat) res \<times> vm_sys) option" and v off w s q
  assume IH: "\<And>v off w s q. D v off w s = Some q \<Longrightarrow> keeps_frames s (snd q)"
    and eq: "(case vs_vmos s v of
        None \<Rightarrow> Some (Panic, s)
      | Some x \<Rightarrow>
          let i = off div PAGE_SIZE
          in if i \<ge> length (vm_pages x) then Some (Err OutOfRange, s)
             else case vm_pages x ! i of
                    Committed phys _ \<Rightarrow> Some (Ok phys, s)
                  | Uncommitted \<Rightarrow>
                      Some (case take_frames 1 s of
                              (Ok phys, s1) \<Rightarrow> (Ok phys, set_page v i (Committed phys True) s1)
                            | (Err e, s1) \<Rightarrow> (Err e, s1)
                            | (Panic, s1) \<Rightarrow> (Panic, s1))
                  | CopyOnWrite parent_offset \<Rightarrow>
                      (case vm_parent x of
                         None \<Rightarrow> Some (Err InvalidState, s)
                       | Some p \<Rightarrow>
                           Option.bind (D p parent_offset False s) (\<lambda>(r, s1).
                             if w then
                               (case r of
                                  Ok parent_phys \<Rightarrow>
                                    Some (case copy_frame parent_phys s1 of
                                            (Ok phys, s2) \<Rightarrow> (Ok phys, set_page v i (Committed phys True) s2)
                                          | (Err e, s2) \<Rightarrow> (Err e, s2)
                                          | (Panic, s2) \<Rightarrow> (Panic, s2))
                                | Err e \<Rightarrow> Some (Err e, s1)
                                | Panic \<Rightarrow> Some (Panic, s1))
                             else Some (r, s1)))) = Some q"
  show "keeps_frames s (snd q)"
  proof (cases "vs_vmos s v")
    case None
    with eq show ?thesis by (auto simp: keeps_frames_heap)
  next
    case (Some x)
    let ?i = "off div PAGE_SIZE"
    show ?thesis
    proof (cases "?i \<ge> length (vm_pages x)")
      case True
      with eq Some show ?thesis by (auto simp: keeps_frames_heap)
    next
      case False
      then have at: "page_at s v ?i = Some (vm_pages x ! ?i)" using Some by (simp add: page_at_def)
      show ?thesis
      proof (cases "vm_pages x ! ?i")
        case Uncommitted
        obtain r s1 where t: "take_frames 1 s = (r, s1)" by fastforce
        then have "vs_vmos s1 = vs_vmos s" using take_frames_heap[of 1 s] by simp
        with set_page_keeps[of s v ?i s s1] at Uncommitted keeps_frames_heap[of s s] keeps_frames_heap[of s1 s] eq Some False t
        show ?thesis by (cases r) auto
      next
        case (Committed f b)
        with eq Some False show ?thesis by (auto simp: keeps_frames_heap)
      next
        case (CopyOnWrite po)
        show ?thesis
        proof (cases "vm_parent x")
          case None
          with eq Some False CopyOnWrite show ?thesis by (auto simp: keeps_frames_heap)
        next
          case (Some p)
          with eq \<open>vs_vmos s v = Some x\<close> False CopyOnWrite obtain r s1 where d: "D p po False s = Some (r, s1)"
            by (auto simp: bind_eq_Some_conv)
          have k1: "keeps_frames s s1" using IH[OF d] by simp
          show ?thesis
          proof (cases "\<exists>f. w \<and> r = Ok f")
            case True
            then obtain f where f: "w" "r = Ok f" by blast
            obtain r2 s2 where c: "copy_frame f s1 = (r2, s2)" by fastforce
            then have h: "vs_vmos s2 = vs_vmos s1" using copy_frame_heap[of f s1] by simp
            from set_page_keeps[of s v ?i s1 s2] at CopyOnWrite k1 h keeps_frames_trans[OF k1 keeps_frames_heap[OF h]]
              eq \<open>vs_vmos s v = Some x\<close> False Some d f c
            show ?thesis by (cases r2) auto
          qed (use eq \<open>vs_vmos s v = Some x\<close> False CopyOnWrite Some d k1 in \<open>auto split: if_splits res.splits\<close>)
        qed
      qed
    qed
  qed
qed

definition committed_span :: "vm_sys \<Rightarrow> oid \<Rightarrow> nat \<Rightarrow> nat \<Rightarrow> bool" where
  "committed_span s v off n \<longleftrightarrow> (\<forall>k. off \<le> k \<and> k < off + n \<longrightarrow> (\<exists>f b. page_at s v (k div 4096) = Some (Committed f b)))"

lemma get_page_commits:
  assumes "vm_get_page v off True s = Some (Ok f, s1)"
  shows "\<exists>b. page_at s1 v (off div 4096) = Some (Committed f b)"
proof -
  from assms obtain x where x: "vs_vmos s v = Some x" "off div 4096 < length (vm_pages x)"
    by (subst (asm) vm_get_page.simps) (auto simp: PAGE_SIZE_def Let_def split: option.splits if_splits)
  then have at: "page_at s v (off div 4096) = Some (vm_pages x ! (off div 4096))" by (simp add: page_at_def)
  show ?thesis
  proof (cases "vm_pages x ! (off div 4096)")
    case Uncommitted
    obtain r s2 where t: "take_frames 1 s = (r, s2)" by fastforce
    then have "vs_vmos s2 = vs_vmos s" using take_frames_heap[of 1 s] by simp
    then have "page_at s2 v (off div 4096) \<noteq> None" using at by (simp add: page_at_def)
    with assms x Uncommitted t show ?thesis
      by (subst (asm) vm_get_page.simps) (auto simp: PAGE_SIZE_def Let_def page_at_set_page split: res.splits)
  next
    case (Committed g b)
    with assms x at show ?thesis by (subst (asm) vm_get_page.simps) (auto simp: PAGE_SIZE_def Let_def)
  next
    case (CopyOnWrite po)
    note eq = assms[unfolded vm_get_page.simps[of v off True s]]
    from eq x CopyOnWrite obtain p r s2 where r: "vm_parent x = Some p" "vm_get_page p po False s = Some (r, s2)"
      by (auto simp: PAGE_SIZE_def Let_def bind_eq_Some_conv split: option.splits)
    with eq x CopyOnWrite obtain g where g: "r = Ok g" by (cases r) (auto simp: PAGE_SIZE_def Let_def)
    obtain r3 s3 where c: "copy_frame g s2 = (r3, s3)" by fastforce
    with eq x CopyOnWrite r g have p: "vm_get_page p po False s = Some (Ok g, s2)" "copy_frame g s2 = (Ok f, s3)"
      "s1 = set_page v (off div 4096) (Committed f True) s3"
      by (cases r3; simp add: PAGE_SIZE_def Let_def)+
    have "page_at s2 v (off div 4096) \<noteq> None" using get_page_keeps[OF p(1)] at by (simp add: keeps_frames_def)
    moreover have "vs_vmos s3 = vs_vmos s2" using copy_frame_heap[of g s2] p(2) by simp
    ultimately have "page_at s3 v (off div 4096) \<noteq> None" by (simp add: page_at_def)
    with p(3) show ?thesis by (auto simp: page_at_set_page)
  qed
qed

lemma committed_span_keeps: "committed_span s v off n \<Longrightarrow> keeps_frames s s' \<Longrightarrow> committed_span s' v off n"
  unfolding committed_span_def keeps_frames_def by metis


lemma committed_span_append:
  assumes "committed_span s v off m" and "committed_span s v (off + m) n"
  shows "committed_span s v off (m + n)"
  unfolding committed_span_def
proof (intro allI impI)
  fix k assume "off \<le> k \<and> k < off + (m + n)"
  then show "\<exists>f b. page_at s v (k div 4096) = Some (Committed f b)"
    using assms unfolding committed_span_def by (cases "k < off + m") auto
qed

lemma committed_span_page:
  assumes "page_at s v (off div 4096) = Some (Committed f b)" and "n \<le> 4096 - off mod 4096"
  shows "committed_span s v off n"
  unfolding committed_span_def
proof (intro allI impI)
  fix k assume "off \<le> k \<and> k < off + n"
  with in_page(1)[of "k - off" off] assms show "\<exists>f b. page_at s v (k div 4096) = Some (Committed f b)" by auto
qed

lemma write_commits:
  assumes "write_loop v off bs s = Some (Ok n, s')"
  shows "committed_span s' v off (length bs) \<and> keeps_frames s s'"
  using assms
proof (induction v off bs s arbitrary: n s' rule: write_loop.induct)
  case (1 v off bs s)
  show ?case
  proof (cases "bs = []")
    case True
    with "1.prems" show ?thesis by (auto simp: committed_span_def keeps_frames_heap)
  next
    case False
    let ?p = "off mod PAGE_SIZE"
    let ?c = "min (PAGE_SIZE - ?p) (length bs)"
    from "1.prems" False obtain f s1 dst m where
      g: "vm_get_page v off True s = Some (Ok f, s1)" "bind_res (phys_to_virt f) (\<lambda>a. chk_add a ?p) = (Ok dst :: (vmo_error, nat) res)"
      "write_loop v (off + ?c) (drop ?c bs) (poke dst (take ?c bs) s1) = Some (Ok m, s')"
      by (subst (asm) write_loop.simps) (auto simp: Let_def simp del: write_loop.simps bind_res_Ok_iff split: option.splits prod.splits res.splits)
    have IH: "committed_span s' v (off + ?c) (length bs - ?c)" "keeps_frames (poke dst (take ?c bs) s1) s'"
      using "1.IH"[OF False refl refl g(1) refl refl g(2,3)] by simp_all
    obtain b where "page_at s1 v (off div 4096) = Some (Committed f b)" using get_page_commits[OF g(1)] by blast
    then have "committed_span s1 v off ?c" by (rule committed_span_page) (simp add: PAGE_SIZE_def)
    moreover have k: "keeps_frames s1 s'" using keeps_frames_trans[OF keeps_frames_heap IH(2), of s1] by simp
    ultimately have "committed_span s' v off ?c" using committed_span_keeps by blast
    from committed_span_append[OF this IH(1)] keeps_frames_trans[OF get_page_keeps[OF g(1)]] k show ?thesis by simp
  qed
qed

lemma read_committed:
  assumes "vm_inv s" and "committed_span s v off n"
  shows "\<exists>bs. read_loop v off n s = Some (Ok bs, s) \<and> length bs = n"
  using assms(2)
proof (induction n arbitrary: off rule: less_induct)
  case (less n)
  show ?case
  proof (cases "n = 0")
    case False
    let ?p = "off mod PAGE_SIZE"
    let ?c = "min (PAGE_SIZE - ?p) n"
    have c: "0 < ?c" "?c \<le> n" using False by (simp_all add: PAGE_SIZE_def)
    obtain f b where at: "page_at s v (off div 4096) = Some (Committed f b)"
      using less.prems False unfolding committed_span_def by (metis add_diff_cancel_left' le_add1 less_add_same_cancel1 not_gr_zero order_refl)
    then obtain x where x: "vs_vmos s v = Some x" "off div 4096 < length (vm_pages x)" "vm_pages x ! (off div 4096) = Committed f b"
      by (auto simp: page_at_def split: option.splits if_splits)
    have get: "vm_get_page v off False s = Some (Ok f, s)"
      using x by (subst vm_get_page.simps) (simp add: PAGE_SIZE_def)
    have dst: "bind_res (phys_to_virt f) (\<lambda>a. chk_add a ?p) = (Ok (f + PHYS_OFFSET + ?p) :: (vmo_error, nat) res)"
      by (rule frame_address[OF committed_reachable[OF assms(1) x]]) (simp add: PAGE_SIZE_def)
    have "committed_span s v (off + ?c) (n - ?c)" using less.prems c unfolding committed_span_def by auto
    from less.IH[OF _ this] c obtain bs where bs: "read_loop v (off + ?c) (n - ?c) s = Some (Ok bs, s)" "length bs = n - ?c" by auto
    have "read_loop v off n s = Some (Ok (peek (f + PHYS_OFFSET + ?p) ?c s @ bs), s)"
      using False by (subst read_loop.simps) (simp add: Let_def get dst bs(1) del: read_loop.simps)
    with bs(2) c show ?thesis by (simp add: peek_def)
  qed simp
qed

lemma copied_loop_read: "read_loop v off n s = Some (Ok bs, s') \<Longrightarrow> copied_loop v off n s = bs"
proof (induction v off n s arbitrary: bs rule: read_loop.induct)
  case (1 v off n s)
  show ?case
  proof (cases "n = 0")
    case False
    let ?p = "off mod PAGE_SIZE"
    let ?c = "min (PAGE_SIZE - ?p) n"
    from "1.prems" False obtain f s1 src cs where
      g: "vm_get_page v off False s = Some (Ok f, s1)" "bind_res (phys_to_virt f) (\<lambda>a. chk_add a ?p) = (Ok src :: (vmo_error, nat) res)"
      "read_loop v (off + ?c) (n - ?c) s1 = Some (Ok cs, s')" "bs = peek src ?c s1 @ cs"
      by (subst (asm) read_loop.simps) (auto simp: Let_def simp del: read_loop.simps bind_res_Ok_iff split: option.splits prod.splits res.splits)
    have c: "copied_loop v (off + ?c) (n - ?c) s1 = cs" by (rule "1.IH"[OF False refl refl g(1) refl refl g(2,3)])
    show ?thesis using False by (subst copied_loop.simps) (simp add: Let_def g(1,2,4) c del: copied_loop.simps)
  qed (use 1 in simp)
qed


text \<open>A call that holds an object which something else names too only lends its reference.\<close>

lemma holding_shared:
  assumes "0 < ms_refs s v" and "f (mclone v s) = Some (r, s1)" and "ms_refs s1 = ms_refs (mclone v s)"
  shows "mholding v s f = Some (r, set_refs v (ms_refs s v) s1)"
proof -
  have "drop_objects [v] s1 = Some (Ok (set_refs v (ms_refs s v) s1))"
    using assms(1,3) by (subst drop_objects.simps) (simp add: drop_objects.simps[of "[]"])
  with assms(2) show ?thesis by (simp add: mholding_def mdropping_def)
qed

lemma with_vmo_shared:
  assumes "mem_inv s" and "mtable me s = Some (pid, t)" and "ht_get t (handle_from h) r = Some v" and "ms_vmos s v \<noteq> None"
    and "f v (mclone v s) = Some (q, s1)" and "ms_refs s1 = ms_refs (mclone v s)"
  shows "with_vmo me h r s f = Some (q, set_refs v (ms_refs s v) s1)"
proof -
  have "0 < ms_refs s v" by (rule held_refs[OF assms(1) get_points[OF assms(2,3)]])
  from holding_shared[OF this _ assms(6), where f = "\<lambda>s1. if ms_vmos s1 v = None then mfail EINVAL s1 else f v s1" and r = q] assms
  show ?thesis by (simp add: with_vmo_def)
qed

lemma vm_write_read:
  assumes "vm_inv s" and "vs_vmos s v = Some x" and "ordinary x" and "off < vm_size x" and "vm_write v off bs s = Some (Ok n, s1)"
  shows "vm_read v off n s1 = Some (Ok (take n bs), s1)" and "vm_copied v off n s1 = take n bs"
    and "n = min (length bs) (vm_size x - off)"
proof -
  let ?bs = "take (vm_size x - off) bs"
  obtain rank where rank: "ranked rank (vs_vmos s)" using vm_inv_rank[OF assms(1)] by blast
  have w: "write_loop v off ?bs s = Some (Ok n, s1)" using assms(2,4,5) by (simp add: vm_write_def del: write_loop.simps)
  with write_loop_spec[OF assms(1) rank assms(2), of off ?bs] assms(3) have st: "steady s s1" "n = length ?bs"
    by (auto simp del: write_loop.simps)
  then show n: "n = min (length bs) (vm_size x - off)" by simp
  have "same_shape (vs_vmos s) (vs_vmos s1)" using st(1) by (simp add: steady_def)
  from same_shape_Some[where v = v and x = x, OF this assms(2)] obtain y where y: "vs_vmos s1 v = Some y" "vm_size y = vm_size x"
    by (metis same_vmo_def)
  have "committed_span s1 v off n" using write_commits[OF w] st(2) by simp
  from read_committed[OF _ this] st(1) obtain cs where cs: "read_loop v off n s1 = Some (Ok cs, s1)" by (auto simp: steady_def)
  have "min n (vm_size y - off) = n" using n y(2) by simp
  then have r: "vm_read v off n s1 = Some (Ok cs, s1)" and c: "vm_copied v off n s1 = copied_loop v off n s1"
    using cs y assms(4) by (simp_all add: vm_read_def vm_copied_def del: read_loop.simps copied_loop.simps)
  have "cs = ?bs" by (rule vmo_read_after_write[OF assms(1-5) r])
  also have "?bs = take n bs" using n by (simp add: min_def)
  finally show "vm_read v off n s1 = Some (Ok (take n bs), s1)" "vm_copied v off n s1 = take n bs"
    using r c copied_loop_read[OF cs] by simp_all
qed

section \<open>A system of two processes\<close>

text \<open>
  Process 1 holds an object and process 2 a handle to the same object and one to a clone of it. A channel joins the processes, with a third handle to the
  object on its way to process 2, and there is an object of a process, which only the kernel refers to.
\<close>

definition share_table :: "(oid \<times> rights) list \<Rightarrow> handle_table" where
  "share_table xs = \<lparr>ht_handles = map (\<lambda>i. (Suc i, \<lparr>he_object = fst (xs ! i), he_rights = snd (xs ! i)\<rparr>)) [0..<length xs],
     ht_next_id = Suc (length xs)\<rparr>"

definition first_table :: handle_table where
  "first_table = share_table [(1, VMO_RIGHTS), (3, R_ALL)]"

definition second_table :: handle_table where
  "second_table = share_table [(1, R_READ OR R_MAP), (2, VMO_RIGHTS), (4, R_ALL)]"

definition joined :: kernel where
  "joined = empty_kernel\<lparr>k_chans := [3 \<mapsto> ch_fresh 4, 4 \<mapsto> (ch_fresh 3)\<lparr>ch_messages := [msg_with_objects [9] [(1, R_READ)]]\<rparr>],
     k_plain := [5 \<mapsto> ss_new]\<rparr>"

definition two_sharing :: msys where
  "two_sharing = \<lparr>ms_sys = \<lparr>sy_k = joined, sy_tables = [1 \<mapsto> first_table, 2 \<mapsto> second_table],
     sy_umem = (\<lambda>_ a. word_of_nat a), sy_refs = (\<lambda>x. if x = 1 then 4 else if 2 \<le> x \<and> x \<le> 5 then 1 else 0), sy_next = 6\<rparr>,
     ms_as = \<lparr>as_vm = sample_vm, as_vmars = (\<lambda>_. None)\<rparr>, ms_roots = (\<lambda>_. None)\<rparr>"

lemma two_sharing_sels [simp]:
  "ms_as two_sharing = \<lparr>as_vm = sample_vm, as_vmars = (\<lambda>_. None)\<rparr>" "sy_umem (ms_sys two_sharing) = (\<lambda>_ a. word_of_nat a)"
  "mtable (Some 1) two_sharing = Some (1, first_table)" "mtable (Some 2) two_sharing = Some (2, second_table)"
  "ms_refs two_sharing = (\<lambda>x. if x = 1 then 4 else if 2 \<le> x \<and> x \<le> 5 then 1 else 0)" "mnew two_sharing = 6"
  "sy_tables (ms_sys two_sharing) = [1 \<mapsto> first_table, 2 \<mapsto> second_table]"
  by (simp_all add: two_sharing_def mtable_def current_table_def mnew_def)

lemma two_sharing_points:
  "points two_sharing = [HEntry 1 1 \<mapsto> 1, HEntry 1 2 \<mapsto> 3, HEntry 2 1 \<mapsto> 1, HEntry 2 2 \<mapsto> 2, HEntry 2 3 \<mapsto> 4, HParent 2 \<mapsto> 1, HMessage 4 0 \<mapsto> 1]"
proof
  fix h show "points two_sharing h =
      [HEntry 1 1 \<mapsto> 1, HEntry 1 2 \<mapsto> 3, HEntry 2 1 \<mapsto> 1, HEntry 2 2 \<mapsto> 2, HEntry 2 3 \<mapsto> 4, HParent 2 \<mapsto> 1, HMessage 4 0 \<mapsto> 1] h"
    by (cases h) (auto simp: two_sharing_def joined_def empty_kernel_def ch_fresh_def msg_with_objects_def first_table_def second_table_def share_table_def
        bt_get_def sample_vm_def new_vmo_def upt_rec)
qed

lemma two_sharing_foreign: "foreign two_sharing x \<longleftrightarrow> x = 3 \<or> x = 4 \<or> x = 5"
  by (auto simp: foreign_def two_sharing_def joined_def empty_kernel_def)

lemma two_sharing_wf: "ht_wf first_table" "ht_wf second_table"
  by (auto simp: first_table_def second_table_def share_table_def ht_wf_def bt_wf_def bt_get_def upt_rec split: if_splits)

lemma two_sharing_inv: "mem_inv two_sharing"
proof (rule heldI)
  show "counted (foreign two_sharing) (points two_sharing) [] (ms_refs two_sharing)"
    unfolding two_sharing_points counted_def two_sharing_foreign by (simp add: named_upd) (auto simp: named_def)
qed (use sample_vm_inv two_sharing_wf in
    \<open>auto simp: two_sharing_foreign two_sharing_points live_def sample_vm_def split: if_splits\<close>)

section \<open>Properties\<close>

text \<open>C6: memory objects live exactly as long as something names them. From a state with exact reference counts, in which processes may also hold channels, ports and processes
  and messages may be on their way, any sequence of closing and duplicating handles and of creating, cloning, reading, writing and resizing memory objects, by any processes, leads to a state in
  which every memory object and region that exists is named by a handle, a message, a binding, a mapping, a clone, a parent region or a process, everything so named exists, no frame
  belongs to two pages and no page owns a free frame; and every further call returns without panic and loses no frame, except that a creation may lose frames when it reports that there is
  no memory. The calls are those with sizes that do not overflow and, for physical objects, with addresses outside the memory of the frame allocator; the caller has a handle number left,
  and a handle that is closed is not the last reference to a channel, port, process or thread.\<close>

theorem memory_calls_safe:
  assumes "mem_inv s0" and "mem_reach s0 s"
  shows "(\<forall>x. live s x \<longrightarrow> (\<exists>h. points s h = Some x)) \<and> (\<forall>h x. points s h = Some x \<longrightarrow> live s x \<or> foreign s x) \<and>
    books_ok (vs_frames (as_vm (ms_as s))) (ledger (ms_vmos s)) \<and>
    (\<forall>me c. mem_allowed me c s \<longrightarrow> (\<exists>r s'. mem_do me c s = Some (r, s') \<and> r \<noteq> Panic \<and>
       (accounts (as_vm (ms_as s')) = accounts (as_vm (ms_as s)) \<or> is_create c \<and> r = Err (Error ENOMEM))))"
proof -
  have inv: "mem_inv s" by (rule mem_reach_inv[OF assms(2,1)])
  have "\<forall>x. live s x \<longrightarrow> (\<exists>h. points s h = Some x)" using held_live[OF inv] counted_pos[OF held_counted[OF inv]] by blast
  moreover have "\<forall>h x. points s h = Some x \<longrightarrow> live s x \<or> foreign s x" using held_exact[OF inv] held_refs[OF inv] by blast
  moreover have "books_ok (vs_frames (as_vm (ms_as s))) (ledger (ms_vmos s))" using held_frames[OF inv] by (simp add: vm_inv_def)
  ultimately show ?thesis using mem_do_sound[OF inv] unfolding sound_def by blast
qed

theorem memory_calls_safe_witness:
  "(\<exists>h. points two_sharing h = Some 1) \<and> (\<exists>r s'. mem_do (Some 2) (MClose 2) two_sharing = Some (r, s') \<and> r \<noteq> Panic \<and>
     accounts (as_vm (ms_as s')) = accounts (as_vm (ms_as two_sharing)))"
proof -
  note safe = memory_calls_safe[OF two_sharing_inv mem_reach.start]
  have "live two_sharing 1" by (simp add: live_def two_sharing_def sample_vm_def)
  moreover have "mem_allowed (Some 2) (MClose 2) two_sharing"
    by (simp add: spared_def two_sharing_foreign second_table_def share_table_def bt_get_def handle_from_def upt_rec)
  moreover have "\<not> is_create (MClose 2)" by simp
  ultimately show ?thesis using safe by blast
qed

text \<open>C7: memory objects are shared. In a state with exact reference counts, in which processes may also hold channels, ports and processes, let two processes hold handles to the same
  object without physical pages, the first with the right to write, the second with the right to read. When a write of the first succeeds, it has written as many bytes as lie below the size of the
  object, and when the second reads at the same place as many bytes as were written, it gets exactly the bytes that were in the buffer of the first, whatever pages had to be allocated or copied.\<close>

theorem shared_object_crosses:
  assumes inv: "mem_inv s"
    and a: "mtable a s = Some (pa, ta)" "ht_get ta (handle_from ha) R_WRITE = Some v"
    and b: "mtable b s = Some (pb, tb)" "ht_get tb (handle_from hb) R_READ = Some v"
    and x: "ms_vmos s v = Some x" "ordinary x" "off < vm_size x"
    and w: "sys_vmo_write a ha off wp len s = Some (Ok n, s1)" and rp: "rp \<noteq> 0"
  shows "n = min len (vm_size x - off) \<and>
    (\<exists>s2. sys_vmo_read b hb off rp n s1 = Some (Ok n, s2) \<and>
       mem_read (sy_umem (ms_sys s2) b) rp n = mem_read (sy_umem (ms_sys s) a) wp n)"
proof -
  let ?bs = "mem_read (sy_umem (ms_sys s) a) wp len"
  have vm: "vm_inv (as_vm (ms_as s))" using inv by (simp add: held_def)
  have args: "wp \<noteq> 0" "len \<noteq> 0" using w by (auto simp: sys_vmo_write_def split: if_splits)
  obtain r vm1 where r: "vm_write v off ?bs (as_vm (ms_as s)) = Some (r, vm1)" "r \<noteq> Panic" using vm_write_shape[OF vm x(1)] by blast
  from with_vmo_shared[OF inv a _ _ , where f = "\<lambda>v s1.
        case vm_write v off (mem_read (sy_umem (ms_sys s1) a) wp len) (as_vm (ms_as s1)) of
          None \<Rightarrow> None
        | Some (Ok n, vm) \<Rightarrow> Some (Ok n, set_vm vm s1)
        | Some (Err _, vm) \<Rightarrow> mfail EINVAL (set_vm vm s1)
        | Some (Panic, vm) \<Rightarrow> Some (Panic, set_vm vm s1)"] x(1) r
  have "sys_vmo_write a ha off wp len s =
      Some (case r of Ok n \<Rightarrow> Ok n | _ \<Rightarrow> Err (Error EINVAL), set_refs v (ms_refs s v) (set_vm vm1 (mclone v s)))"
    using args by (cases r) (simp_all add: sys_vmo_write_def)
  with w have ok: "r = Ok n" "s1 = set_refs v (ms_refs s v) (set_vm vm1 (mclone v s))" by (auto split: res.splits)
  note wr = vm_write_read[OF vm x r(1)[unfolded ok(1)]]
  have n: "n = min len (vm_size x - off)" "0 < n" using wr(3) x(3) args by simp_all
  have inv1: "mem_inv s1" using write_sound[OF inv, of a ha off wp len] w by (simp add: sound_def)
  have s1: "as_vm (ms_as s1) = vm1" "mtable b s1 = Some (pb, tb)" using ok(2) b(1) mtable_cong[of s1 s b] by simp_all
  have "ms_vmos s1 v \<noteq> None" using wr(1) s1(1) by (cases "ms_vmos s1 v") (auto simp: vm_read_def)
  let ?s2 = "on_sys (write_user b (mem_write rp (take n ?bs))) (set_vm vm1 (mclone v s1))"
  have "n \<le> len" using n(1) by simp
  then have "sys_vmo_read b hb off rp n s1 = Some (Ok n, set_refs v (ms_refs s1 v) ?s2)"
    unfolding sys_vmo_read_def using rp n(2)
    by (simp add: with_vmo_shared[OF inv1 s1(2) b(2) \<open>ms_vmos s1 v \<noteq> None\<close>] s1(1) wr(1,2))
  moreover have "mem_read (mem_write rp (take n ?bs) m) rp n = take n ?bs" for m
    using mem_read_write_same[of rp "take n ?bs"] n(1) by simp
  moreover have "take n ?bs = mem_read (sy_umem (ms_sys s) a) wp n"
    using mem_read_append[of _ wp n "len - n"] n(1) by simp
  ultimately show ?thesis using n(1) by simp
qed


lemma share_get:
  "ht_get first_table 1 R_WRITE = Some 1" "ht_get second_table 1 R_READ = Some 1"
  by (simp_all add: first_table_def second_table_def share_table_def ht_get_def bt_get_def contains_def VMO_RIGHTS_def rights_defs upt_rec)

lemma two_sharing_write: "\<exists>s1. sys_vmo_write (Some 1) 1 10 100 2 two_sharing = Some (Ok 2, s1)"
proof -
  obtain vm where vm: "vm_write 1 10 (mem_read word_of_nat 100 2) sample_vm = Some (Ok 2, vm)"
    using sample_vm_write[of "mem_read word_of_nat 100 2"] by auto
  have "ms_vmos two_sharing 1 \<noteq> None" by (simp add: sample_vm_def)
  from with_vmo_shared[OF two_sharing_inv two_sharing_sels(3) _ this, of 1 R_WRITE "\<lambda>v s1.
        case vm_write v 10 (mem_read (sy_umem (ms_sys s1) (Some 1)) 100 2) (as_vm (ms_as s1)) of
          None \<Rightarrow> None
        | Some (Ok n, vm) \<Rightarrow> Some (Ok n, set_vm vm s1)
        | Some (Err _, vm) \<Rightarrow> mfail EINVAL (set_vm vm s1)
        | Some (Panic, vm) \<Rightarrow> Some (Panic, set_vm vm s1)"] vm share_get(1)
  show ?thesis by (simp add: sys_vmo_write_def handle_from_def)
qed

theorem shared_object_crosses_witness:
  "\<exists>s1 s2. sys_vmo_write (Some 1) 1 10 100 2 two_sharing = Some (Ok 2, s1) \<and>
     sys_vmo_read (Some 2) 1 10 200 2 s1 = Some (Ok 2, s2) \<and> mem_read (sy_umem (ms_sys s2) (Some 2)) 200 2 = [100, 101]"
proof -
  obtain s1 where w: "sys_vmo_write (Some 1) 1 10 100 2 two_sharing = Some (Ok 2, s1)" using two_sharing_write by blast
  let ?x = "new_vmo 8192 [Uncommitted, Uncommitted] 0 None"
  have x: "ms_vmos two_sharing 1 = Some ?x" "ordinary ?x" "10 < vm_size ?x"
    using sample_vm_objects(1) by (simp_all add: ordinary_def new_vmo_def)
  have h: "handle_from 1 = 1" by (simp add: handle_from_def)
  have "mem_read word_of_nat 100 2 = [100, 101]" by (simp add: mem_read_def upt_rec)
  with shared_object_crosses[OF two_sharing_inv two_sharing_sels(3) _ two_sharing_sels(4) _ x w, of 1 200] share_get h w
  show ?thesis by auto
qed

end
