(* ===== verification/Memory_Mapping.thy ===== *)
theory Memory_Mapping
  imports Memory_References
begin

text \<open>
  What the calls on address regions do for a process: \<open>sys_vmar_map\<close> with the caller's root region, through the handle table, down to
  the page table entries.
\<close>

text \<open>The call ends with a reference that something else shares.\<close>

lemma mdropping_shared: "1 < ms_refs s v \<Longrightarrow> mdropping [v] (r, s) = Some (r, set_refs v (ms_refs s v - 1) s)"
  by (subst mdropping_def, subst drop_objects.simps) (simp add: drop_objects.simps[of "[]"])

lemma mdropping_nothing: "mdropping [] (r, s) = Some (r, s)"
  by (subst mdropping_def, subst drop_objects.simps) simp

lemma holding_lent:
  assumes "f (mclone v s) = Some (r, s1)" and "1 < ms_refs s1 v"
  shows "mholding v s f = Some (r, set_refs v (ms_refs s1 v - 1) s1)"
  using assms mdropping_shared by (simp add: mholding_def)

text \<open>A request of a process to map an object into its root region, with a size and an offset below a quarter of the range of addresses.\<close>

definition map_request :: "nat option \<Rightarrow> nat \<Rightarrow> vmar_map_args \<Rightarrow> oid \<Rightarrow> oid \<Rightarrow> nat \<Rightarrow> handle_table \<Rightarrow> msys \<Rightarrow> bool" where
  "map_request me args g a v pid t s \<longleftrightarrow> mtable me s = Some (pid, t) \<and> ms_roots s pid = Some a \<and>
     g = load_map_args (sy_umem (ms_sys s) me) args \<and> args \<noteq> 0 \<and> vma_vmar_handle g = 0 \<and>
     ht_get t (handle_from (vma_vmo_handle g)) R_MAP = Some v \<and> ms_vmos s v \<noteq> None \<and>
     0 < vma_size g \<and> vma_size g < 2 ^ 62 \<and> vma_vmo_offset g < 2 ^ 62 \<and> vma_vaddr g < 2 ^ 62"

text \<open>The address that the request asks for, if any.\<close>

definition asked_address :: "vmar_map_args \<Rightarrow> nat option" where
  "asked_address g = (if contains (mapping_flags_from (vma_flags g)) MF_SPECIFIC \<and> vma_vaddr g \<noteq> 0 then Some (vma_vaddr g) else None)"

definition no_empty_mappings :: "oid \<Rightarrow> msys \<Rightarrow> bool" where
  "no_empty_mappings a s \<longleftrightarrow> (\<forall>x k m. ms_vmars s a = Some x \<longrightarrow> bt_get (va_mappings x) k = Some m \<longrightarrow> 0 < mp_size m)"

text \<open>What the call leaves: the outcome of the region's \<open>map\<close>, reported to the caller, and one more reference to the object if it was
  mapped.\<close>

definition map_reported :: "nat option \<Rightarrow> nat \<Rightarrow> oid \<Rightarrow> (vmar_error, nat) res \<Rightarrow> msys \<Rightarrow> (error, nat) res \<Rightarrow> msys \<Rightarrow> bool" where
  "map_reported me out v q s r s' \<longleftrightarrow>
     (case q of
        Ok addr \<Rightarrow> r = Ok 0 \<and> mem_u64 (sy_umem (ms_sys s') me) out = addr \<and> ms_refs s' = (ms_refs s)(v := Suc (ms_refs s v))
      | Err e \<Rightarrow> r = Err (Error (map_errno e)) \<and> ms_refs s' = ms_refs s \<and> sy_umem (ms_sys s') = sy_umem (ms_sys s)
      | Panic \<Rightarrow> False)"

lemma map_call_spec:
  assumes inv: "mem_inv s" and sp: "space_ok J a pt (ms_as s)" and ne: "no_empty_mappings a s"
    and rq: "map_request me args g a v pid t s" and out: "out \<noteq> 0"
  shows "\<exists>q r s'. sys_vmar_map me args out s = Some (r, s') \<and> map_reported me out v q s r s' \<and>
    map_outcome a pt v (vma_vmo_offset g) (align_up (vma_size g)) (mapping_flags_from (vma_flags g)) (ms_as s) q (ms_as s') \<and>
    (\<exists>y. va_map a v (vma_vmo_offset g) (vma_size g) (mapping_flags_from (vma_flags g)) (asked_address g) (ms_as s) = Some (q, y))"
proof -
  have r: "mtable me s = Some (pid, t)" "ms_roots s pid = Some a" "load_map_args (sy_umem (ms_sys s) me) args = g" "args \<noteq> 0"
    "vma_vmar_handle g = 0" "ht_get t (handle_from (vma_vmo_handle g)) R_MAP = Some v" "ms_vmos s v \<noteq> None"
    using rq by (auto simp: map_request_def)
  obtain z where z: "ms_vmos s v = Some z" using r(7) by blast
  let ?fl = "mapping_flags_from (vma_flags g)"
  let ?va = "if contains ?fl MF_SPECIFIC \<and> vma_vaddr g \<noteq> 0 then Some (vma_vaddr g) else None"
  have "request_ok (\<lambda>v. ms_vmos s v \<noteq> None) (MapOp v (vma_vmo_offset g) (vma_size g) ?fl ?va)"
    using rq by (auto simp: map_request_def)
  from request_outcome[OF sp this] obtain q y where
    m: "va_map a v (vma_vmo_offset g) (vma_size g) ?fl ?va (ms_as s) = Some (q, y)"
      "map_outcome a pt v (vma_vmo_offset g) (align_up (vma_size g)) ?fl (ms_as s) q y" by blast
  obtain x where x: "ms_vmars s a = Some x" "region_ok x" using sp by (auto simp: space_ok_def)
  have "points s (HRoot pid) = Some a" using rq by (simp add: map_request_def)
  from held_refs[OF inv this] have ra: "0 < ms_refs s a" .
  have rv: "0 < ms_refs s v" using held_live[OF inv, of v] rq by (simp add: live_def map_request_def)
  have "ms_vmos s a = None" using held_kinds[OF inv, of a] x(1) by simp
  then have av: "a \<noteq> v" using rq by (auto simp: map_request_def)
  let ?s2 = "mclone v (mclone a s)"
  let ?f = "\<lambda>pid t a s1.
                case ht_get t (handle_from (vma_vmo_handle g)) R_MAP of
                  None \<Rightarrow> mfail EBADF s1
                | Some v \<Rightarrow>
                    if ms_vmos s1 v = None then mfail EINVAL s1
                    else let s2 = mclone v s1;
                             vaddr = (if contains ?fl MF_SPECIFIC \<and> vma_vaddr g \<noteq> 0 then Some (vma_vaddr g) else None)
                         in case va_map a v (vma_vmo_offset g) (vma_size g) ?fl vaddr (ms_as s2) of
                              None \<Rightarrow> None
                            | Some (Ok addr, y) \<Rightarrow>
                                mdropping (replaced a addr s2)
                                  (Ok 0, on_sys (write_user me (mem_write out (le_bytes 8 addr))) (s2\<lparr>ms_as := y\<rparr>))
                            | Some (Err e, y) \<Rightarrow> mdropping [v] (Err (Error (map_errno e)), s2\<lparr>ms_as := y\<rparr>)
                            | Some (Panic, y) \<Rightarrow> Some (Panic, s2\<lparr>ms_as := y\<rparr>)"
  have call: "sys_vmar_map me args out s = mholding a s (?f pid t a)"
    by (simp add: sys_vmar_map_def with_vmar_def find_vmar_def r out Let_def split del: if_split)
  show ?thesis
  proof (cases q)
    case (Ok addr)
    have apart: "\<forall>(k, m) \<in> set (va_mappings x). addr + align_up (vma_size g) \<le> k \<or> k + mp_size m \<le> addr"
      and w: "within x addr (align_up (vma_size g))" using m(2) Ok x(1) by (auto simp: map_outcome_def)
    have "bt_get (va_mappings x) addr = None"
    proof (rule ccontr)
      assume "bt_get (va_mappings x) addr \<noteq> None"
      then obtain mp where mp: "bt_get (va_mappings x) addr = Some mp" by blast
      then have "0 < mp_size mp" using ne x(1) by (auto simp: no_empty_mappings_def)
      moreover have "0 < align_up (vma_size g)" using rq align_up_bounds(2) by (auto simp: map_request_def)
      ultimately show False using apart bt_get_Some_mem[OF mp] by fastforce
    qed
    then have rep: "replaced a addr ?s2 = []" using x(1) by (simp add: replaced_def)
    let ?s3 = "on_sys (write_user me (mem_write out (le_bytes 8 addr))) (?s2\<lparr>ms_as := y\<rparr>)"
    have "?f pid t a (mclone a s) = Some (Ok 0, ?s3)"
      using r(6) z m(1) Ok rep by (simp add: Let_def mdropping_nothing split del: if_split)
    moreover have refs: "ms_refs ?s3 = (ms_refs s)(a := Suc (ms_refs s a), v := Suc (ms_refs s v))" using av by auto
    ultimately have "sys_vmar_map me args out s = Some (Ok 0, set_refs a (ms_refs s a) ?s3)"
      unfolding call using holding_lent[of "?f pid t a" a s "Ok 0" ?s3] ra av by simp
    moreover have "addr < 256 ^ 8" using w x(2) by (auto simp: within_def region_ok_def)
    then have "mem_u64 (mem_write out (le_bytes 8 addr) b) out = addr" for b
      using mem_read_write_same[of out "le_bytes 8 addr" b] by (simp add: mem_u64_def le_roundtrip)
    then have "map_reported me out v q s (Ok 0) (set_refs a (ms_refs s a) ?s3)" using Ok av by (auto simp: map_reported_def fun_eq_iff)
    ultimately show ?thesis using m unfolding asked_address_def by fastforce
  next
    case (Err e)
    let ?s3 = "set_refs v (ms_refs s v) (?s2\<lparr>ms_as := y\<rparr>)"
    have "?f pid t a (mclone a s) = Some (Err (Error (map_errno e)), ?s3)"
      using r(6) z m(1) Err rv av by (simp add: Let_def mdropping_shared split del: if_split)
    moreover have "ms_refs ?s3 a = Suc (ms_refs s a)" using av by simp
    ultimately have "sys_vmar_map me args out s = Some (Err (Error (map_errno e)), set_refs a (ms_refs s a) ?s3)"
      unfolding call using holding_lent[of "?f pid t a" a s _ ?s3] ra by simp
    moreover have "map_reported me out v q s (Err (Error (map_errno e))) (set_refs a (ms_refs s a) ?s3)"
      using Err av by (auto simp: map_reported_def fun_eq_iff)
    ultimately show ?thesis using m unfolding asked_address_def by fastforce
  qed (use m(2) in \<open>simp add: map_outcome_def\<close>)
qed


section \<open>A process with an address space\<close>

text \<open>A process whose only handle to object 1 has the rights to read and to map. Its memory holds a request to map one page of that
  object, readable and writable, at a given address of the root region.\<close>

definition request_bytes :: "u8 list" where
  "request_bytes = le_bytes 4 0 @ le_bytes 4 1 @ le_bytes 8 0 @ le_bytes 8 4096 @ le_bytes 4 0xB @ le_bytes 4 0 @ le_bytes 8 0x500000"

definition mapping_process :: msys where
  "mapping_process = \<lparr>ms_sys = \<lparr>sy_k = empty_kernel,
     sy_tables = [1 \<mapsto> share_table [(1, R_READ OR R_MAP), (2, VMO_RIGHTS), (3, VMO_RIGHTS)]],
     sy_umem = (\<lambda>_. mem_write 16 request_bytes (\<lambda>_. 0)),
     sy_refs = (\<lambda>x. if x = 1 then 2 else if x = 2 \<or> x = 3 \<or> x = 9 then 1 else 0), sy_next = 10\<rparr>,
     ms_as = area_space, ms_roots = [1 \<mapsto> 9]\<rparr>"

lemma mapping_process_inv: "mem_inv mapping_process"
proof (rule heldI)
  let ?P = "(((((\<lambda>_. None)(HEntry 1 1 \<mapsto> 1))(HEntry 1 2 \<mapsto> 2))(HEntry 1 3 \<mapsto> 3))(HParent 2 \<mapsto> 1))(HRoot 1 \<mapsto> 9)"
  have P: "points mapping_process = ?P"
  proof
    fix h show "points mapping_process h = ?P h"
      by (cases h) (auto simp: mapping_process_def empty_kernel_def share_table_def bt_get_def area_space_def new_vmo_def va_create_root_def upt_rec)
  qed
  show "counted (foreign mapping_process) (points mapping_process) [] (ms_refs mapping_process)"
    unfolding P by (simp add: counted_def named_upd) (simp add: mapping_process_def named_def)
  have F: "\<not> foreign mapping_process x" for x by (simp add: foreign_def mapping_process_def empty_kernel_def)
  show "\<not> live mapping_process x" "x < mnew mapping_process" "count (mset []) x < ms_refs mapping_process x" if "foreign mapping_process x" for x
    using that F by blast+
  show "\<not> foreign mapping_process x" for x by (rule F)
  have "ht_wf (share_table [(1, R_READ OR R_MAP), (2, VMO_RIGHTS), (3, VMO_RIGHTS)])"
    by (auto simp: share_table_def ht_wf_def bt_wf_def bt_get_def upt_rec split: if_splits)
  then show "ht_wf t" if "sy_tables (ms_sys mapping_process) pid = Some t" for pid t
    using that by (auto simp: mapping_process_def split: if_splits)
qed (use area_vm_inv in \<open>auto simp: live_def mnew_def mapping_process_def area_space_def va_create_root_def split: if_splits\<close>)

lemma mem_slice:
  "a \<le> b \<Longrightarrow> b + n \<le> a + length bs \<Longrightarrow> mem_read (mem_write a bs m) b n = take n (drop (b - a) bs)"
  by (intro nth_equalityI) (auto simp: mem_write_def)

lemma mapping_process_args:
  "load_map_args (mem_write 16 request_bytes (\<lambda>_. 0)) 16 =
     \<lparr>vma_vmar_handle = 0, vma_vmo_handle = 1, vma_vmo_offset = 0, vma_size = 4096, vma_flags = 0xB, vma_vaddr = 0x500000\<rparr>"
  by (simp add: load_map_args_def mem_u32_def mem_u64_def mem_slice request_bytes_def le_value_bytes)

lemma mapping_process_request:
  "map_request (Some 1) 16 \<lparr>vma_vmar_handle = 0, vma_vmo_handle = 1, vma_vmo_offset = 0, vma_size = 4096, vma_flags = 0xB, vma_vaddr = 0x500000\<rparr>
     9 1 1 (share_table [(1, R_READ OR R_MAP), (2, VMO_RIGHTS), (3, VMO_RIGHTS)]) mapping_process"
  using mapping_process_args
  by (simp add: map_request_def mapping_process_def mtable_def current_table_def area_space_def share_table_def ht_get_def bt_get_def
      contains_def rights_defs handle_from_def upt_rec)

lemma mapping_process_space: "space_ok True 9 0x201000 (ms_as mapping_process)" "no_empty_mappings 9 mapping_process"
  using area_space_ok by (simp_all add: mapping_process_def no_empty_mappings_def area_space_def va_create_root_def)

section \<open>Properties\<close>

text \<open>C10: mapping through the system call. In a state with exact reference counts, a process that names an object by a handle with the right to map asks for a mapping in its root region,
  which has no mapping of no bytes, with a size that is not 0 and with size, offset and address below \<open>2 ^ 62\<close>. The call returns without panic. It either reports an error and leaves counts,
  records and the caller's memory as they were; or it stores the address of the new mapping in the caller's memory and counts one reference more, and each page of the mapping has an entry with the
  requested flags that shows the object there, or has none because the frames have run out; everything else in the region is as before.\<close>

theorem vmar_map_call_shows:
  assumes "mem_inv s" and "space_ok J a pt (ms_as s)" and "no_empty_mappings a s" and "map_request me args g a v pid t s" and "out \<noteq> 0"
  shows "\<exists>q r s'. sys_vmar_map me args out s = Some (r, s') \<and> map_reported me out v q s r s' \<and>
    map_outcome a pt v (vma_vmo_offset g) (align_up (vma_size g)) (mapping_flags_from (vma_flags g)) (ms_as s) q (ms_as s')"
  using map_call_spec[OF assms] by blast

theorem vmar_map_call_shows_witness:
  "\<exists>q r s'. sys_vmar_map (Some 1) 16 200 mapping_process = Some (r, s') \<and> map_reported (Some 1) 200 1 q mapping_process r s' \<and>
     map_outcome 9 0x201000 1 0 (align_up 4096) (mapping_flags_from 0xB) (ms_as mapping_process) q (ms_as s')"
  using vmar_map_call_shows[OF mapping_process_inv mapping_process_space mapping_process_request, of 200] by simp

text \<open>C35: the right to map is the right to write. A process whose handle has the right to map but lacks the right to write is refused when it writes to the object through the system call. When it asks, in a state with exact reference counts and with a
  size that is not 0 and size, offset and address below \<open>2 ^ 62\<close>, for a writable mapping in its root region that the region grants, the call succeeds, and each page of the mapping has a writable entry for the object, or no entry because the frames have run out.\<close>

theorem readonly_handle_maps_writable:
  assumes "mem_inv s" and "space_ok J a pt (ms_as s)" and "no_empty_mappings a s" and rq: "map_request me args g a v pid t s" and "out \<noteq> 0"
    and ro: "ht_get t (handle_from (vma_vmo_handle g)) R_WRITE = None" and fl: "contains (mapping_flags_from (vma_flags g)) MF_WRITE"
    and room: "va_map a v (vma_vmo_offset g) (vma_size g) (mapping_flags_from (vma_flags g)) (asked_address g) (ms_as s) = Some (Ok addr, y)"
  shows "sys_vmo_write me (vma_vmo_handle g) off (Suc p) (Suc n) s = Some (Err (Error EBADF), s) \<and>
    (\<exists>s'. sys_vmar_map me args out s = Some (Ok 0, s') \<and> mem_u64 (sy_umem (ms_sys s') me) out = addr \<and>
       (\<forall>i < align_up (vma_size g) div 4096.
         (\<exists>f w. mapped_to (vs_frames (as_vm (ms_as s'))) pt (addr + i * 4096) = Some (f, w) \<and> pf_has_write w \<and>
            displays (as_vm (ms_as s')) (v, (vma_vmo_offset g + i * 4096) div 4096) (frame_content (vs_frames (as_vm (ms_as s'))) f)) \<or>
         mapped_to (vs_frames (as_vm (ms_as s'))) pt (addr + i * 4096) = None \<and> free_frames (vs_frames (as_vm (ms_as s'))) = {}))"
proof -
  obtain q r s' y' where c: "sys_vmar_map me args out s = Some (r, s')" "map_reported me out v q s r s'"
    "map_outcome a pt v (vma_vmo_offset g) (align_up (vma_size g)) (mapping_flags_from (vma_flags g)) (ms_as s) q (ms_as s')"
    "va_map a v (vma_vmo_offset g) (vma_size g) (mapping_flags_from (vma_flags g)) (asked_address g) (ms_as s) = Some (q, y')"
    using map_call_spec[OF assms(1-5)] by blast
  from c(4) room have q: "q = Ok addr" by simp
  have "shows_page USER_SLOTS pt (as_vm (ms_as s')) v ((vma_vmo_offset g + i * 4096) div 4096) (mapping_flags_from (vma_flags g)) (addr + i * 4096)"
    if "i < align_up (vma_size g) div 4096" for i
    using c(3) that by (auto simp: q map_outcome_def)
  moreover have "r = Ok 0" "mem_u64 (sy_umem (ms_sys s') me) out = addr" using c(2) by (simp_all add: q map_reported_def)
  moreover have "sys_vmo_write me (vma_vmo_handle g) off (Suc p) (Suc n) s = Some (Err (Error EBADF), s)"
    using rq ro by (simp add: sys_vmo_write_def with_vmo_def map_request_def)
  ultimately show ?thesis using c(1) writable_flags[OF fl] unfolding shows_page_def by blast
qed

lemma mapping_process_room: "\<exists>y. va_map 9 1 0 4096 0xB (Some 0x500000) (ms_as mapping_process) = Some (Ok 0x500000, y)"
proof -
  let ?x = "va_create_root 0x400000 0x10000000 0x400000 0x201000" and ?y = "new_vmo 4096 [Committed 0x202000 True] 0 None"
  have fl: "contains 0xB MF_SPECIFIC" by code_simp
  have x: "as_vmars area_space 9 = Some ?x" "region_ok ?x" "va_page_table ?x = Some 0x201000" "as_ok USER_SLOTS 0x201000 (as_vm area_space)"
    using area_space_ok by (auto simp: space_ok_def area_space_def)
  have y: "vs_vmos (as_vm area_space) 1 = Some ?y" by (simp add: area_space_def)
  then have "vm_get_page 1 0 False (as_vm area_space) = Some (Ok 0x202000, as_vm area_space)"
    by (subst vm_get_page.simps) (simp add: new_vmo_def)
  then show ?thesis
    using single_page_map[OF x fl _ _ y, of "0x500000" 0 "0x202000"] area_card by (auto simp: within_def va_create_root_def mapping_process_def)
qed

theorem readonly_handle_maps_writable_witness:
  "sys_vmo_write (Some 1) 1 0 300 4 mapping_process = Some (Err (Error EBADF), mapping_process) \<and>
   (\<exists>s'. sys_vmar_map (Some 1) 16 200 mapping_process = Some (Ok 0, s') \<and>
     ((\<exists>f w. mapped_to (vs_frames (as_vm (ms_as s'))) 0x201000 0x500000 = Some (f, w) \<and> pf_has_write w) \<or>
      free_frames (vs_frames (as_vm (ms_as s'))) = {}))"
proof -
  obtain y where y: "va_map 9 1 0 4096 0xB (Some 0x500000) (ms_as mapping_process) = Some (Ok 0x500000, y)" using mapping_process_room by blast
  have ro: "ht_get (share_table [(1, R_READ OR R_MAP), (2, VMO_RIGHTS), (3, VMO_RIGHTS)]) (handle_from 1) R_WRITE = None"
    by (simp add: share_table_def ht_get_def bt_get_def contains_def rights_defs handle_from_def upt_rec)
  have fl: "contains (mapping_flags_from 0xB) MF_WRITE" "contains 0xB MF_SPECIFIC" "mapping_flags_from 0xB = 0xB" by code_simp+
  have out: "(200 :: nat) \<noteq> 0" and n: "0 < align_up 4096 div (4096 :: nat)" by (simp_all add: align_up_def PAGE_SIZE_def)
  have e: "Suc 299 = 300" "Suc 3 = 4" by simp_all
  have at: "va_map 9 1 0 4096 (mapping_flags_from 0xB) (asked_address \<lparr>vma_vmar_handle = 0, vma_vmo_handle = 1, vma_vmo_offset = 0, vma_size = 4096,
      vma_flags = 0xB, vma_vaddr = 0x500000\<rparr>) (ms_as mapping_process) = Some (Ok 0x500000, y)"
    using y fl by (simp add: asked_address_def)
  note t = readonly_handle_maps_writable[OF mapping_process_inv mapping_process_space mapping_process_request out,
      unfolded vmar_map_args.simps, OF ro fl(1) at, of 0 299 3, unfolded e]
  from conjunct2[OF t] n show ?thesis using conjunct1[OF t] by fastforce
qed

end
