(* ===== verification/Processes.thy ===== *)
theory Processes
  imports Memory_Syscalls Program_Loader
begin

text \<open>
  Processes: \<open>kernel/src/object/process.rs\<close>, \<open>kernel/src/syscall/process.rs\<close>, the creation of a process from a program
  (\<open>load_and_create_process\<close> of \<open>kernel/src/loader/program.rs\<close>) and the end of threads, where tasks call back into their process. A process is a
  kernel object; its handle table and root region are those that \<open>Memory_Syscalls\<close> keeps under its pid, and its signals are those of a
  plain object. The allocator of tasks and that of memory objects are one.

  The lock of a process is part of the model where it matters: \<open>exit_task\<close> takes it, and is called again with the lock held. A spin lock
  that its holder asks for again is never granted, so such a call does not return, which is the value \<open>None\<close>.
\<close>

section \<open>State\<close>

datatype process_state = ProcCreated | ProcRunning | ProcStopped | ProcExited

record process =
  pr_pid :: nat
  pr_name :: "u8 list"
  pr_state :: process_state
  pr_exit_code :: i32
  pr_parent :: "oid option"
  pr_children :: "oid list"
  pr_main_thread :: "tref option"
  pr_threads :: "tref list"
  pr_init_handles :: "nat list"
  pr_bootstrap_channel :: "nat option"

text \<open>What \<open>set_user_context_info\<close> and the argument of a thread leave in its registers.\<close>

record user_context =
  uc_ip :: nat
  uc_sp :: nat
  uc_args :: "nat list"

record psys =
  ps_mem :: msys
  ps_procs :: "oid \<Rightarrow> process option"
  ps_processes :: "(nat, oid) btree"
  ps_next_pid :: nat
  ps_next_task :: tref
  ps_contexts :: "tref \<Rightarrow> user_context option"
  ps_loaded :: "(nat, loaded_program) btree"

abbreviation ps_sys :: "psys \<Rightarrow> sys" where
  "ps_sys s \<equiv> ms_sys (ps_mem s)"

abbreviation ps_k :: "psys \<Rightarrow> kernel" where
  "ps_k s \<equiv> sy_k (ps_sys s)"

definition on_mem :: "(msys \<Rightarrow> msys) \<Rightarrow> psys \<Rightarrow> psys" where
  "on_mem f s = s\<lparr>ps_mem := f (ps_mem s)\<rparr>"

definition put_proc :: "oid \<Rightarrow> process \<Rightarrow> psys \<Rightarrow> psys" where
  "put_proc p x s = s\<lparr>ps_procs := (ps_procs s)(p \<mapsto> x)\<rparr>"

definition set_k :: "kernel \<Rightarrow> psys \<Rightarrow> psys" where
  "set_k k = on_mem (set_kernel k)"

text \<open>A function of the task system, with the frames that memory objects use as well.\<close>

definition task_view :: "psys \<Rightarrow> kernel" where
  "task_view s = (ps_k s)\<lparr>tk_frames := vs_frames (as_vm (ms_as (ps_mem s)))\<rparr>"

definition after_tasks :: "kernel \<Rightarrow> psys \<Rightarrow> psys" where
  "after_tasks k s = set_k k (on_mem (\<lambda>m. set_vm ((as_vm (ms_as m))\<lparr>vs_frames := tk_frames k\<rparr>) m) s)"

section \<open>The process object\<close>

text \<open>Weak references: a process or a task that is gone cannot be upgraded to.\<close>

definition proc_upgrade :: "psys \<Rightarrow> oid option \<Rightarrow> oid option" where
  "proc_upgrade s p = (case p of None \<Rightarrow> None | Some x \<Rightarrow> if ps_procs s x = None then None else Some x)"

definition task_upgrade :: "psys \<Rightarrow> tref option \<Rightarrow> tref option" where
  "task_upgrade s t = (case t of None \<Rightarrow> None | Some x \<Rightarrow> if tk_heap (ps_k s) x = None then None else Some x)"

text \<open>The page table of a new process: that of the parent's root region, or the kernel's (\<open>kpt\<close>).\<close>

definition inherited_table :: "nat \<Rightarrow> oid option \<Rightarrow> psys \<Rightarrow> nat option" where
  "inherited_table kpt parent s =
     (case parent of
        None \<Rightarrow> Some kpt
      | Some p \<Rightarrow>
          (case ps_procs s p of
             None \<Rightarrow> None
           | Some x \<Rightarrow>
               (case ms_roots (ps_mem s) (pr_pid x) of
                  None \<Rightarrow> None
                | Some a \<Rightarrow> (case ms_vmars (ps_mem s) a of None \<Rightarrow> None | Some r \<Rightarrow> va_page_table_addr r))))"

definition new_process :: "nat \<Rightarrow> u8 list \<Rightarrow> oid option \<Rightarrow> process" where
  "new_process pid name parent = \<lparr>pr_pid = pid, pr_name = name, pr_state = ProcCreated, pr_exit_code = 0, pr_parent = parent,
     pr_children = [], pr_main_thread = None, pr_threads = [], pr_init_handles = [], pr_bootstrap_channel = None\<rparr>"

text \<open>A new region, with one reference.\<close>

definition new_region :: "vmar \<Rightarrow> msys \<Rightarrow> oid \<times> msys" where
  "new_region x m = (mnew m, adopt (m\<lparr>ms_as := put_vmar (mnew m) x (ms_as m)\<rparr>))"

definition user_root :: "nat \<Rightarrow> nat \<Rightarrow> vmar" where
  "user_root next_alloc page_table =
     va_create_root USER_SPACE_START (USER_SPACE_END - USER_SPACE_START) next_alloc page_table"

definition proc_new :: "nat \<Rightarrow> u8 list \<Rightarrow> oid option \<Rightarrow> psys \<Rightarrow> (unit, oid) res \<times> psys" where
  "proc_new kpt name parent s =
     (let pid = ps_next_pid s; s1 = s\<lparr>ps_next_pid := (pid + 1) mod usize_limit\<rparr>
      in case inherited_table kpt parent s1 of
           None \<Rightarrow> (Panic, s1)
         | Some pt \<Rightarrow>
             (let (a, m1) = new_region (user_root USER_SPACE_START pt) (ps_mem s1);
                  p = mnew m1;
                  m2 = adopt m1;
                  m3 = m2\<lparr>ms_roots := (ms_roots m2)(pid \<mapsto> a)\<rparr>;
                  m4 = on_sys (\<lambda>q. q\<lparr>sy_tables := (sy_tables q)(pid \<mapsto> ht_new),
                                    sy_k := (sy_k q)\<lparr>k_plain := (k_plain (sy_k q))(p \<mapsto> ss_new)\<rparr>\<rparr>) m3;
                  s2 = put_proc p (new_process pid name parent) (s1\<lparr>ps_mem := m4\<rparr>)
              in (Ok p,
                  case proc_upgrade s2 parent of
                    None \<Rightarrow> s2
                  | Some q \<Rightarrow>
                      (case ps_procs s2 q of
                         None \<Rightarrow> s2
                       | Some y \<Rightarrow> put_proc q (y\<lparr>pr_children := pr_children y @ [p]\<rparr>) s2))))"

definition proc_insert :: "oid \<Rightarrow> oid \<Rightarrow> rights \<Rightarrow> psys \<Rightarrow> (error, nat) res \<times> psys" where
  "proc_insert p x r s =
     (case ps_procs s p of
        None \<Rightarrow> (Panic, s)
      | Some y \<Rightarrow>
          (let (h, q) = insert_object (pr_pid y) x r (ps_sys s) in (h, on_mem (\<lambda>m. m\<lparr>ms_sys := q\<rparr>) s)))"

text \<open>The child's end of the new channel goes to its table; the parent's end, with its reference, is returned.\<close>

definition proc_new_with_bootstrap :: "nat \<Rightarrow> u8 list \<Rightarrow> oid option \<Rightarrow> psys \<Rightarrow> (unit, oid \<times> oid) res \<times> psys" where
  "proc_new_with_bootstrap kpt name parent s =
     (case proc_new kpt name parent s of
        (Ok p, s1) \<Rightarrow>
          (let (parent_end, child_end, q) = new_channels (ps_sys s1);
               s2 = on_mem (\<lambda>m. m\<lparr>ms_sys := q\<rparr>) s1
           in case proc_insert p child_end (R_BASIC OR R_TRANSFER) s2 of
                (Ok h, s3) \<Rightarrow>
                  (case ps_procs s3 p of
                     None \<Rightarrow> (Panic, s3)
                   | Some x \<Rightarrow> (Ok (p, parent_end), put_proc p (x\<lparr>pr_bootstrap_channel := Some h\<rparr>) s3))
              | (_, s3) \<Rightarrow> (Panic, s3))
      | (Err e, s1) \<Rightarrow> (Err e, s1)
      | (Panic, s1) \<Rightarrow> (Panic, s1))"

text \<open>\<open>set_root_vmar\<close> takes over a reference and drops the one it replaces.\<close>

definition proc_set_root_vmar :: "oid \<Rightarrow> oid \<Rightarrow> psys \<Rightarrow> (unit, psys) res option" where
  "proc_set_root_vmar p a s =
     (case ps_procs s p of
        None \<Rightarrow> Some Panic
      | Some x \<Rightarrow>
          (let m = ps_mem s; old = ms_roots m (pr_pid x); m1 = m\<lparr>ms_roots := (ms_roots m)(pr_pid x \<mapsto> a)\<rparr>
           in map_option (\<lambda>r. bind_res r (\<lambda>m2. Ok (s\<lparr>ps_mem := m2\<rparr>)))
                (drop_objects (case old of None \<Rightarrow> [] | Some b \<Rightarrow> [b]) m1)))"

text \<open>\<open>create_main_thread\<close> and \<open>create_thread\<close>; the process itself is not gone while one of its methods runs.\<close>

definition main_name :: "u8 list \<Rightarrow> string" where
  "main_name name = map (\<lambda>b. char_of (unat b)) name @ ''/main''"

definition spawn :: "string \<Rightarrow> oid \<Rightarrow> nat \<Rightarrow> nat \<Rightarrow> psys \<Rightarrow> (unit, tref \<times> psys) res" where
  "spawn name p entry stack_top s =
     (let t = ps_next_task s
      in bind_res (new_user name p t (task_view s)) (\<lambda>k.
           Ok (t, (after_tasks (register_task t k) s)\<lparr>ps_next_task := Suc t,
                 ps_contexts := (ps_contexts s)(t \<mapsto> \<lparr>uc_ip = entry, uc_sp = stack_top, uc_args = []\<rparr>)\<rparr>)))"

definition proc_create_main_thread :: "oid \<Rightarrow> nat \<Rightarrow> nat \<Rightarrow> psys \<Rightarrow> (unit, tref option \<times> psys) res" where
  "proc_create_main_thread p entry stack_top s =
     (case ps_procs s p of
        None \<Rightarrow> Panic
      | Some x \<Rightarrow>
          if pr_main_thread x \<noteq> None then Ok (None, s)
          else bind_res (spawn (main_name (pr_name x)) p entry stack_top s) (\<lambda>(t, s1).
                 Ok (Some t, put_proc p (x\<lparr>pr_main_thread := Some t, pr_threads := pr_threads x @ [t]\<rparr>) s1)))"

definition proc_create_thread :: "oid \<Rightarrow> string \<Rightarrow> nat \<Rightarrow> nat \<Rightarrow> psys \<Rightarrow> (unit, tref option \<times> psys) res" where
  "proc_create_thread p name entry stack_top s =
     (case ps_procs s p of
        None \<Rightarrow> Panic
      | Some x \<Rightarrow>
          bind_res (spawn name p entry stack_top s) (\<lambda>(t, s1).
            Ok (Some t, put_proc p (x\<lparr>pr_threads := pr_threads x @ [t]\<rparr>) s1)))"

text \<open>Starting and stopping all threads.\<close>

fun each_task :: "(tref \<Rightarrow> kernel \<Rightarrow> (unit, kernel) res) \<Rightarrow> tref list \<Rightarrow> kernel \<Rightarrow> (unit, kernel) res" where
  "each_task f [] k = Ok k"
| "each_task f (t # ts) k =
     (if tk_heap k t = None then each_task f ts k else bind_res (f t k) (each_task f ts))"

definition plain_signals :: "oid \<Rightarrow> kernel \<Rightarrow> signals" where
  "plain_signals p k = (case k_plain k p of None \<Rightarrow> 0 | Some g \<Rightarrow> ss_get g)"

definition plain_set :: "oid \<Rightarrow> signals \<Rightarrow> kernel \<Rightarrow> (unit, kernel) res option" where
  "plain_set p sg k =
     (case k_plain k p of
        None \<Rightarrow> Some (Ok k)
      | Some g \<Rightarrow> (let (cs, g') = ss_set sg g in run_calls cs (k\<lparr>k_plain := (k_plain k)(p \<mapsto> g')\<rparr>)))"

definition plain_clear :: "oid \<Rightarrow> signals \<Rightarrow> kernel \<Rightarrow> kernel" where
  "plain_clear p sg k =
     (case k_plain k p of None \<Rightarrow> k | Some g \<Rightarrow> k\<lparr>k_plain := (k_plain k)(p \<mapsto> ss_clear sg g)\<rparr>)"

definition proc_start :: "oid \<Rightarrow> psys \<Rightarrow> (unit, psys) res" where
  "proc_start p s =
     (case ps_procs s p of
        None \<Rightarrow> Panic
      | Some x \<Rightarrow>
          if pr_state x \<noteq> ProcCreated \<and> pr_state x \<noteq> ProcStopped then Ok s
          else bind_res (each_task (\<lambda>t k. if can_start (state_of (tk_heap k) t) then start_task t k else Ok k) (pr_threads x) (ps_k s)) (\<lambda>k.
                 Ok (set_k (plain_clear p TERMINATED k) (put_proc p (x\<lparr>pr_state := ProcRunning\<rparr>) s))))"

definition proc_stop :: "oid \<Rightarrow> psys \<Rightarrow> (unit, psys) res" where
  "proc_stop p s =
     (case ps_procs s p of
        None \<Rightarrow> Panic
      | Some x \<Rightarrow>
          if pr_state x \<noteq> ProcRunning then Ok s
          else bind_res (each_task stop_task (pr_threads x) (ps_k s)) (\<lambda>k. Ok (set_k k (put_proc p (x\<lparr>pr_state := ProcStopped\<rparr>) s))))"

section \<open>The end of threads and processes\<close>

text \<open>
  \<open>on_thread_exit\<close>: the thread leaves the list, along with those that are gone. The exit code is returned when the process is to exit.
\<close>

definition proc_on_thread_exit :: "oid \<Rightarrow> tref \<Rightarrow> psys \<Rightarrow> i32 option \<times> psys" where
  "proc_on_thread_exit p t s =
     (case ps_procs s p of
        None \<Rightarrow> (None, s)
      | Some x \<Rightarrow>
          let ts = filter (\<lambda>u. tk_heap (ps_k s) u \<noteq> None \<and> u \<noteq> t) (pr_threads x);
              is_main = (task_upgrade s (pr_main_thread x) = Some t);
              code = (case tk_heap (ps_k s) t of None \<Rightarrow> 0 | Some k \<Rightarrow> (case t_exit_code k of None \<Rightarrow> 0 | Some c \<Rightarrow> c))
          in (if is_main \<or> ts = [] then Some code else None, put_proc p (x\<lparr>pr_threads := ts\<rparr>) s))"

text \<open>
  \<open>exit\<close>, up to its loop: the threads that are still there, to be ended with the code. The list is drained.
\<close>

definition proc_exit_begin :: "oid \<Rightarrow> i32 \<Rightarrow> psys \<Rightarrow> tref list option \<times> psys" where
  "proc_exit_begin p code s =
     (case ps_procs s p of
        None \<Rightarrow> (None, s)
      | Some x \<Rightarrow>
          if pr_state x = ProcExited then (None, s)
          else (Some (filter (\<lambda>u. tk_heap (ps_k s) u \<noteq> None) (pr_threads x)),
                put_proc p (x\<lparr>pr_state := ProcExited, pr_exit_code := code, pr_threads := []\<rparr>) s))"

text \<open>
  The work that ends threads: \<open>exit_task\<close> of a thread, by a caller that holds the locks \<open>ls\<close>, and the signal that a process sets at the end of
  its \<open>exit\<close>. \<open>exit_task\<close> marks the thread and takes it off the scheduler, then takes the lock of the thread's process for
  \<open>on_thread_exit\<close>, which may end the process, whose other threads are then ended with that lock held.
\<close>

datatype exit_work = ExitThread "oid list" tref i32 | Terminate oid

partial_function (option) run_exits :: "exit_work list \<Rightarrow> psys \<Rightarrow> (unit, psys) res option" where
  "run_exits ws s =
     (case ws of
        [] \<Rightarrow> Some (Ok s)
      | Terminate p # rest \<Rightarrow>
          (case plain_set p TERMINATED (ps_k s) of
             None \<Rightarrow> None
           | Some (Ok k) \<Rightarrow> run_exits rest (set_k k s)
           | Some _ \<Rightarrow> Some Panic)
      | ExitThread ls t code # rest \<Rightarrow>
          (case exit_task t code (ps_k s) of
             Ok (proc, k) \<Rightarrow>
               (let s1 = set_k k s
                in case proc_upgrade s1 proc of
                     None \<Rightarrow> run_exits rest s1
                   | Some p \<Rightarrow>
                       if p \<in> set ls then None
                       else (case proc_on_thread_exit p t s1 of
                               (None, s2) \<Rightarrow> run_exits rest s2
                             | (Some c, s2) \<Rightarrow>
                                 (case proc_exit_begin p c s2 of
                                    (None, s3) \<Rightarrow> run_exits rest s3
                                  | (Some ts, s3) \<Rightarrow>
                                      run_exits (map (\<lambda>u. ExitThread (p # ls) u c) ts @ Terminate p # rest) s3)))
           | _ \<Rightarrow> Some Panic))"

text \<open>\<open>Process::exit\<close> called by someone who holds the lock of the process, as its callers must.\<close>

definition proc_exit :: "oid \<Rightarrow> i32 \<Rightarrow> psys \<Rightarrow> (unit, psys) res option" where
  "proc_exit p code s =
     (case proc_exit_begin p code s of
        (None, s1) \<Rightarrow> Some (Ok s1)
      | (Some ts, s1) \<Rightarrow> run_exits (map (\<lambda>u. ExitThread [p] u code) ts @ [Terminate p]) s1)"

section \<open>Handles of a process\<close>

definition proc_add_init_handle :: "oid \<Rightarrow> oid \<Rightarrow> rights \<Rightarrow> psys \<Rightarrow> (error, nat) res \<times> psys" where
  "proc_add_init_handle p x r s =
     (case proc_insert p x r s of
        (Ok h, s1) \<Rightarrow>
          (case ps_procs s1 p of
             None \<Rightarrow> (Panic, s1)
           | Some y \<Rightarrow> (Ok h, put_proc p (y\<lparr>pr_init_handles := pr_init_handles y @ [h]\<rparr>) s1))
      | q \<Rightarrow> q)"

definition proc_copy_handle_from :: "oid \<Rightarrow> oid \<Rightarrow> nat \<Rightarrow> rights \<Rightarrow> psys \<Rightarrow> (error, nat option) res \<times> psys" where
  "proc_copy_handle_from p source h r s =
     (case ps_procs s source of
        None \<Rightarrow> (Panic, s)
      | Some y \<Rightarrow>
          (case sy_tables (ps_sys s) (pr_pid y) of
             None \<Rightarrow> (Panic, s)
           | Some t \<Rightarrow>
               (case ht_get t h R_TRANSFER of
                  None \<Rightarrow> (Ok None, s)
                | Some x \<Rightarrow>
                    (case proc_insert p x r (on_mem (mclone x) s) of
                       (Ok n, s1) \<Rightarrow> (Ok (Some n), s1)
                     | (Err e, s1) \<Rightarrow> (Err e, s1)
                     | (Panic, s1) \<Rightarrow> (Panic, s1)))))"

section \<open>The global table\<close>

definition register_process :: "oid \<Rightarrow> psys \<Rightarrow> psys" where
  "register_process p s =
     (case ps_procs s p of
        None \<Rightarrow> s
      | Some x \<Rightarrow> on_mem (mclone p) (s\<lparr>ps_processes := bt_insert (pr_pid x) p (ps_processes s)\<rparr>))"

definition get_process :: "nat \<Rightarrow> psys \<Rightarrow> oid option" where
  "get_process pid s = bt_get (ps_processes s) pid"


section \<open>System calls\<close>

text \<open>The caller is a task of process \<open>me\<close>, or of none.\<close>

type_synonym poutcome = "((error, nat) res \<times> psys) option"

abbreviation pfail :: "i32 \<Rightarrow> psys \<Rightarrow> poutcome" where
  "pfail e s \<equiv> Some (Err (Error e), s)"

definition pid_of :: "oid option \<Rightarrow> psys \<Rightarrow> nat option" where
  "pid_of me s = (case me of None \<Rightarrow> None | Some p \<Rightarrow> map_option pr_pid (ps_procs s p))"

definition proc_table :: "oid option \<Rightarrow> psys \<Rightarrow> handle_table option" where
  "proc_table me s = (case pid_of me s of None \<Rightarrow> None | Some pid \<Rightarrow> sy_tables (ps_sys s) pid)"

definition proc_umem :: "oid option \<Rightarrow> psys \<Rightarrow> nat \<Rightarrow> u8" where
  "proc_umem me s = sy_umem (ps_sys s) (pid_of me s)"

definition proc_write :: "oid option \<Rightarrow> nat \<Rightarrow> u8 list \<Rightarrow> psys \<Rightarrow> psys" where
  "proc_write me a bs s = on_mem (on_sys (write_user (pid_of me s) (mem_write a bs))) s"

definition pdropping :: "oid list \<Rightarrow> (error, nat) res \<times> psys \<Rightarrow> poutcome" where
  "pdropping xs q =
     (case drop_objects xs (ps_mem (snd q)) of
        None \<Rightarrow> None
      | Some (Ok m) \<Rightarrow> Some (fst q, (snd q)\<lparr>ps_mem := m\<rparr>)
      | Some _ \<Rightarrow> Some (Panic, snd q))"

text \<open>A name in the caller's memory, or a default.\<close>

definition read_name :: "(nat \<Rightarrow> u8) \<Rightarrow> nat \<Rightarrow> nat \<Rightarrow> string \<Rightarrow> u8 list option" where
  "read_name m name_ptr name_len fallback =
     (if name_ptr \<noteq> 0 \<and> name_len > 0 then from_utf8 (mem_read m name_ptr name_len) else Some (map of_char fallback))"

subsection \<open>Creating a process\<close>

text \<open>A fresh top-level table with the kernel's half of the address space.\<close>

definition fresh_table :: "nat \<Rightarrow> buddy \<Rightarrow> (unit, nat \<times> buddy) res" where
  "fresh_table kpt b =
     (case buddy_allocate_one b of
        Ok (Some pt, b1) \<Rightarrow>
          (case bind_res (phys_to_virt pt) (\<lambda>virt. copy_kernel_mappings kpt pt (with_mem (write_bytes virt 0 PAGE_SIZE (ba_mem b1)) b1)) of
             Ok b2 \<Rightarrow> Ok (pt, b2)
           | _ \<Rightarrow> Panic)
      | _ \<Rightarrow> Panic)"

definition equip :: "nat \<Rightarrow> oid \<Rightarrow> psys \<Rightarrow> (unit, psys) res option" where
  "equip kpt p s =
     (case fresh_table kpt (vs_frames (as_vm (ms_as (ps_mem s)))) of
        Ok (pt, b) \<Rightarrow>
          (let m = set_vm ((as_vm (ms_as (ps_mem s)))\<lparr>vs_frames := b\<rparr>) (ps_mem s);
               (a, m1) = new_region (user_root ALLOC_START pt) m
           in proc_set_root_vmar p a (s\<lparr>ps_mem := m1\<rparr>))
      | _ \<Rightarrow> Some Panic)"

text \<open>The end of the call: the new process is registered and gets a handle in its parent's table, as does the parent's end of the
  bootstrap channel; the call's own reference to the process is dropped.\<close>

definition announce :: "oid option \<Rightarrow> nat \<Rightarrow> oid \<Rightarrow> oid option \<Rightarrow> psys \<Rightarrow> poutcome" where
  "announce me result_ptr p channel s =
     (let s1 = register_process p s
      in case (case me of
                 None \<Rightarrow> (case ps_procs s1 p of None \<Rightarrow> (Panic, s1) | Some x \<Rightarrow> (Ok (pr_pid x mod 2 ^ 32), s1))
               | Some q \<Rightarrow> proc_insert q p (R_BASIC OR R_MANAGE) (on_mem (mclone p) s1)) of
           (Ok ph, s2) \<Rightarrow>
             (case (case channel of
                      None \<Rightarrow> (Ok 0, s2, [])
                    | Some c \<Rightarrow>
                        (case me of
                           None \<Rightarrow> (Ok 0, s2, [c])
                         | Some q \<Rightarrow> (let (r, s3) = proc_insert q c (R_BASIC OR R_TRANSFER) s2 in (r, s3, [])))) of
                (Ok bh, s3, dropped) \<Rightarrow>
                  pdropping (dropped @ [p]) (Ok 0, proc_write me result_ptr (le_bytes 4 ph @ le_bytes 4 bh) s3)
              | (_, s3, dropped) \<Rightarrow> Some (Panic, s3))
         | (_, s2) \<Rightarrow> Some (Panic, s2))"

definition sys_process_create :: "nat \<Rightarrow> oid option \<Rightarrow> nat \<Rightarrow> nat \<Rightarrow> psys \<Rightarrow> poutcome" where
  "sys_process_create kpt me options_ptr result_ptr s =
     (if options_ptr = 0 \<or> result_ptr = 0 then pfail EINVAL s
      else let m = proc_umem me s
           in case read_name m (mem_u64 m options_ptr) (mem_u64 m (options_ptr + 8)) ''unnamed'' of
                None \<Rightarrow> pfail EINVAL s
              | Some name \<Rightarrow>
                  (case (if m (options_ptr + 16) \<noteq> 0
                         then (case proc_new_with_bootstrap kpt name me s of
                                 (Ok (p, c), s1) \<Rightarrow> (Ok (p, Some c), s1)
                               | (_, s1) \<Rightarrow> (Panic, s1))
                         else (case proc_new kpt name me s of
                                 (Ok p, s1) \<Rightarrow> (Ok (p, None), s1)
                               | (_, s1) \<Rightarrow> (Panic :: (unit, oid \<times> oid option) res, s1))) of
                     (Ok (p, c), s1) \<Rightarrow>
                       (case equip kpt p s1 of
                          None \<Rightarrow> None
                        | Some (Ok s2) \<Rightarrow> announce me result_ptr p c s2
                        | Some _ \<Rightarrow> Some (Panic, s1))
                   | (_, s1) \<Rightarrow> Some (Panic, s1)))"

subsection \<open>Threads\<close>

text \<open>The object behind a handle, whatever rights the handle has.\<close>

definition named_object :: "oid option \<Rightarrow> nat \<Rightarrow> psys \<Rightarrow> (error, oid) res" where
  "named_object me h s =
     (case proc_table me s of
        None \<Rightarrow> Err (Error EINVAL)
      | Some t \<Rightarrow> ok_or (Error EBADF) (ht_get_unchecked t (handle_from h)))"

definition named_process :: "oid option \<Rightarrow> nat \<Rightarrow> psys \<Rightarrow> (error, oid) res" where
  "named_process me h s =
     bind_res (if h = 0 then ok_or (Error EINVAL) (proc_upgrade s me) else named_object me h s) (\<lambda>x.
       if ps_procs s x = None then Err (Error EINVAL) else Ok x)"

definition set_arg :: "tref \<Rightarrow> nat \<Rightarrow> psys \<Rightarrow> psys" where
  "set_arg t arg s =
     (case ps_contexts s t of
        None \<Rightarrow> s
      | Some c \<Rightarrow> if arg = 0 then s else s\<lparr>ps_contexts := (ps_contexts s)(t \<mapsto> c\<lparr>uc_args := [arg, 0, 0, 0, 0, 0]\<rparr>)\<rparr>)"

definition tid_of :: "tref \<Rightarrow> psys \<Rightarrow> nat" where
  "tid_of t s = (case tk_heap (ps_k s) t of None \<Rightarrow> 0 | Some k \<Rightarrow> t_tid k)"

definition sys_thread_create :: "oid option \<Rightarrow> nat \<Rightarrow> nat \<Rightarrow> psys \<Rightarrow> poutcome" where
  "sys_thread_create me options_ptr thread_handle_out s =
     (if options_ptr = 0 then pfail EINVAL s
      else let m = proc_umem me s
           in case named_process me (mem_u32 m options_ptr) s of
                Err e \<Rightarrow> Some (Err e, s)
              | Panic \<Rightarrow> Some (Panic, s)
              | Ok p \<Rightarrow>
                  (case read_name m (mem_u64 m (options_ptr + 8)) (mem_u64 m (options_ptr + 16)) ''thread'' of
                     None \<Rightarrow> pfail EINVAL s
                   | Some name \<Rightarrow>
                       (let entry = mem_u64 m (options_ptr + 24); stack_top = mem_u64 m (options_ptr + 32);
                            main = (case ps_procs s p of None \<Rightarrow> None | Some x \<Rightarrow> task_upgrade s (pr_main_thread x))
                        in case (if main = None then proc_create_main_thread p entry stack_top s
                                 else proc_create_thread p (map (\<lambda>b. char_of (unat b)) name) entry stack_top s) of
                             Ok (None, s1) \<Rightarrow> pfail ENOMEM s1
                           | Ok (Some t, s1) \<Rightarrow>
                               (let s2 = set_arg t (mem_u64 m (options_ptr + 40)) s1; tid = tid_of t s2
                                in Some (Ok tid, if thread_handle_out \<noteq> 0 then proc_write me thread_handle_out (le_bytes 4 tid) s2 else s2))
                           | _ \<Rightarrow> Some (Panic, s))))"

definition sys_process_start :: "oid option \<Rightarrow> nat \<Rightarrow> psys \<Rightarrow> poutcome" where
  "sys_process_start me process_handle s =
     (if process_handle = 0 then pfail EINVAL s
      else case named_object me process_handle s of
             Err e \<Rightarrow> Some (Err e, s)
           | Panic \<Rightarrow> Some (Panic, s)
           | Ok x \<Rightarrow>
               if ps_procs s x = None then pfail EINVAL s
               else (case proc_start x s of Ok s1 \<Rightarrow> Some (Ok 0, s1) | _ \<Rightarrow> Some (Panic, s)))"

text \<open>The call does not return to its caller; its effects are those of \<open>exit_task\<close> on the current task.\<close>

definition sys_exit :: "tref \<Rightarrow> nat \<Rightarrow> psys \<Rightarrow> (unit, psys) res option" where
  "sys_exit current exit_code s = run_exits [ExitThread [] current (word_of_nat exit_code)] s"

subsection \<open>Asking\<close>

definition sys_process_get_init_handle :: "oid option \<Rightarrow> nat \<Rightarrow> psys \<Rightarrow> (error, nat) res" where
  "sys_process_get_init_handle me index s =
     (case (case me of None \<Rightarrow> None | Some p \<Rightarrow> ps_procs s p) of
        None \<Rightarrow> Err (Error EINVAL)
      | Some x \<Rightarrow>
          if index = 0 then ok_or (Error EBADF) (pr_bootstrap_channel x)
          else if index \<le> length (pr_init_handles x) then Ok (pr_init_handles x ! (index - 1))
          else Err (Error EBADF))"

definition sys_process_get_vmar_handle :: "oid option \<Rightarrow> nat \<Rightarrow> psys \<Rightarrow> (error, nat) res \<times> psys" where
  "sys_process_get_vmar_handle me process_handle s =
     (case me of
        None \<Rightarrow> (Err (Error EINVAL), s)
      | Some q \<Rightarrow>
          (case named_process me process_handle s of
             Err e \<Rightarrow> (Err e, s)
           | Panic \<Rightarrow> (Panic, s)
           | Ok p \<Rightarrow>
               (case Option.bind (pid_of (Some p) s) (ms_roots (ps_mem s)) of
                  None \<Rightarrow> (Err (Error EINVAL), s)
                | Some a \<Rightarrow> proc_insert q a (R_BASIC OR R_MANAGE OR R_MAP) (on_mem (mclone a) s))))"

text \<open>The signals of an object of any kind.\<close>

definition object_signals :: "oid \<Rightarrow> psys \<Rightarrow> signals" where
  "object_signals x s =
     (case k_chans (ps_k s) x of
        Some c \<Rightarrow> ch_signals c
      | None \<Rightarrow>
          (case k_ports (ps_k s) x of
             Some p \<Rightarrow> po_signals p
           | None \<Rightarrow>
               (case ms_vmos (ps_mem s) x of
                  Some v \<Rightarrow> vm_signals v
                | None \<Rightarrow>
                    (case ms_vmars (ps_mem s) x of Some r \<Rightarrow> va_signals r | None \<Rightarrow> plain_signals x (ps_k s)))))"

definition sys_process_wait :: "oid option \<Rightarrow> nat \<Rightarrow> nat \<Rightarrow> nat \<Rightarrow> psys \<Rightarrow> (error, nat) res \<times> psys" where
  "sys_process_wait me process_handle exit_code_out timeout_ns s =
     (case proc_table me s of
        None \<Rightarrow> (Err (Error EINVAL), s)
      | Some t \<Rightarrow>
          (case ht_get t (handle_from process_handle) R_WAIT of
             None \<Rightarrow> (Err (Error EBADF), s)
           | Some x \<Rightarrow>
               if contains (object_signals x s) TERMINATED then
                 (Ok 0, if exit_code_out \<noteq> 0 then
                          (case ps_procs s x of
                             None \<Rightarrow> s
                           | Some p \<Rightarrow> proc_write me exit_code_out (le_bytes 4 (unat (pr_exit_code p))) s)
                        else s)
               else (Err (Error EAGAIN), s)))"

section \<open>The first process\<close>

text \<open>
  \<open>load_and_create_process\<close>: the loader builds the address space, whose objects have one reference each, the region from the loaded program
  and the others from their mappings; the new process shares the region.
\<close>

definition count_loaded :: "nat \<Rightarrow> msys \<Rightarrow> msys" where
  "count_loaded first m =
     on_sys (\<lambda>q. q\<lparr>sy_refs := (\<lambda>x. if first \<le> x \<and> x < sy_next q \<and> (ms_vmos m x \<noteq> None \<or> ms_vmars m x \<noteq> None) then 1 else sy_refs q x)\<rparr>) m"

definition load_and_create_process :: "nat \<Rightarrow> u8 list \<Rightarrow> u8 list \<Rightarrow> psys \<Rightarrow> ((loader_error, oid) res \<times> psys) option" where
  "load_and_create_process kpt elf_data name s =
     (let m = ps_mem s
      in case program_load kpt elf_data \<lparr>ld_as = ms_as m, ld_next = mnew m\<rparr> of
           None \<Rightarrow> None
         | Some (r, l) \<Rightarrow>
             (let s1 = s\<lparr>ps_mem := count_loaded (mnew m) (on_sys (\<lambda>q. q\<lparr>sy_next := ld_next l\<rparr>) (m\<lparr>ms_as := ld_as l\<rparr>))\<rparr>
              in case r of
                   Err e \<Rightarrow> Some (Err e, s1)
                 | Panic \<Rightarrow> Some (Panic, s1)
                 | Ok loaded \<Rightarrow>
                     (case proc_new kpt name None s1 of
                        (Ok p, s2) \<Rightarrow>
                          (case proc_set_root_vmar p (lp_root_vmar loaded) (on_mem (mclone (lp_root_vmar loaded)) s2) of
                             None \<Rightarrow> None
                           | Some (Ok s3) \<Rightarrow>
                               (case proc_create_main_thread p (lp_entry loaded) (lp_stack_top loaded div 16 * 16) s3 of
                                  Ok (Some t, s4) \<Rightarrow>
                                    (case ps_procs s4 p of
                                       None \<Rightarrow> Some (Panic, s4)
                                     | Some x \<Rightarrow>
                                         Some (Ok p, register_process p
                                           (s4\<lparr>ps_loaded := bt_insert (pr_pid x) loaded (ps_loaded s4)\<rparr>)))
                                | Ok (None, s4) \<Rightarrow> Some (Err OutOfMemory, s4)
                                | _ \<Rightarrow> Some (Panic, s3))
                           | Some _ \<Rightarrow> Some (Panic, s2))
                      | (_, s2) \<Rightarrow> Some (Panic, s2))))"

end
