(* ===== verification/Process_Life.thy ===== *)
theory Process_Life
  imports Processes Memory_References
begin

text \<open>
  How processes begin and end: the exit code of a process reaches whoever waits for it; the end of a process with several threads hangs; a
  thread made in a running process is never started; and any handle to a process opens its address space.
\<close>

section \<open>Access to the state\<close>

lemma on_mem_sels [simp]:
  "ps_mem (on_mem f s) = f (ps_mem s)" "ps_procs (on_mem f s) = ps_procs s" "ps_contexts (on_mem f s) = ps_contexts s"
  "ps_next_task (on_mem f s) = ps_next_task s" "ps_processes (on_mem f s) = ps_processes s"
  by (simp_all add: on_mem_def)

lemma set_k_sels [simp]:
  "ps_k (set_k k s) = k" "ps_procs (set_k k s) = ps_procs s" "ms_as (ps_mem (set_k k s)) = ms_as (ps_mem s)"
  "sy_tables (ps_sys (set_k k s)) = sy_tables (ps_sys s)" "sy_umem (ps_sys (set_k k s)) = sy_umem (ps_sys s)"
  "ms_roots (ps_mem (set_k k s)) = ms_roots (ps_mem s)" "ps_contexts (set_k k s) = ps_contexts s"
  by (simp_all add: set_k_def set_kernel_def)

lemma put_proc_sels [simp]:
  "ps_mem (put_proc p x s) = ps_mem s" "ps_procs (put_proc p x s) = (ps_procs s)(p \<mapsto> x)" "ps_contexts (put_proc p x s) = ps_contexts s"
  by (simp_all add: put_proc_def)

section \<open>Scheduling\<close>

text \<open>What ending a thread leaves alone.\<close>

definition same_but_tasks :: "kernel \<Rightarrow> kernel \<Rightarrow> bool" where
  "same_but_tasks k k' \<longleftrightarrow> k_plain k' = k_plain k \<and> k_chans k' = k_chans k \<and> k_ports k' = k_ports k \<and>
     (\<forall>u. placed k u \<longrightarrow> placed k' u) \<and> (\<forall>u. map_option t_process (tk_heap k' u) = map_option t_process (tk_heap k u))"

lemma remove_task_heap:
  "sc_remove_task t (sc, h) = (sc', h') \<Longrightarrow> h' u = (if u = t \<and> sc_current sc = Some t then map_option (\<lambda>k. k\<lparr>t_state := Stopped\<rparr>) (h u) else h u)"
  by (auto simp: remove_from_all_queues_def set_state_def upd_task_def Let_def split: option.splits if_splits)

lemma exit_task_spec:
  assumes "placed k t" and "tk_heap k t = Some x"
  shows "\<exists>k'. exit_task t code k = Ok (t_process x, k') \<and> same_but_tasks k k' \<and>
    map_option t_exit_code (tk_heap k' t) = Some (Some code)"
proof -
  obtain a sc where a: "bt_get (tk_archids k) (t_cpu_id x) = Some a" "bt_get (tk_scheds k) a = Some sc"
    using assms by (auto simp: placed_def)
  let ?h = "upd_task t (\<lambda>k. k\<lparr>t_state := Exited, t_exit_code := Some code\<rparr>) (tk_heap k)"
  obtain sc' h' where r: "sc_remove_task t (sc, ?h) = (sc', h')" by fastforce
  let ?k = "k\<lparr>tk_heap := h', tk_scheds := bt_insert a sc' (tk_scheds k)\<rparr>"
  note h' = remove_task_heap[OF r]
  have ht: "?h t = Some (x\<lparr>t_state := Exited, t_exit_code := Some code\<rparr>)" "\<And>u. u \<noteq> t \<Longrightarrow> ?h u = tk_heap k u"
    using assms(2) by (auto simp: upd_task_def)
  have h't: "\<exists>st. h' t = Some (x\<lparr>t_state := st, t_exit_code := Some code\<rparr>)"
    using h'[of t] ht(1) by (cases "sc_current sc = Some t") (auto intro: exI[of _ Stopped] exI[of _ Exited])
  have rest: "h' u = tk_heap k u" if "u \<noteq> t" for u using h'[of u] ht(2)[OF that] that by simp
  have "exit_task t code k = Ok (t_process x, ?k)"
    using a r ht(1) h't by (auto simp: exit_task_def Let_def cpu_of_def get_archid_by_cpuid_def on_scheduler_def get_scheduler_by_archid_def)
  moreover have "placed ?k u" if "placed k u" for u
  proof -
    have "\<exists>y. h' u = Some y \<and> map_option t_cpu_id (tk_heap k u) = Some (t_cpu_id y)"
      using that assms(2) h't rest[of u] by (cases "u = t") (auto simp: placed_def)
    with that show ?thesis by (fastforce simp: placed_def bt_get_insert)
  qed
  moreover have "map_option t_process (h' u) = map_option t_process (tk_heap k u)" for u
    using h't rest[of u] assms(2) by (cases "u = t") auto
  ultimately show ?thesis using h't by (intro exI[of _ ?k]) (auto simp: same_but_tasks_def)
qed

lemma run_exits_thread:
  assumes "placed (ps_k s) t" and "tk_heap (ps_k s) t = Some x" and "t_process x = Some p" and "ps_procs s p = Some y"
  obtains k where "same_but_tasks (ps_k s) k" "map_option t_exit_code (tk_heap k t) = Some (Some code)"
    "run_exits (ExitThread ls t code # rest) s =
      (if p \<in> set ls then None
       else (case proc_on_thread_exit p t (set_k k s) of
               (None, s2) \<Rightarrow> run_exits rest s2
             | (Some c, s2) \<Rightarrow>
                 (case proc_exit_begin p c s2 of
                    (None, s3) \<Rightarrow> run_exits rest s3
                  | (Some ts, s3) \<Rightarrow> run_exits (map (\<lambda>u. ExitThread (p # ls) u c) ts @ Terminate p # rest) s3)))"
proof -
  obtain k where k: "exit_task t code (ps_k s) = Ok (t_process x, k)" "same_but_tasks (ps_k s) k"
    "map_option t_exit_code (tk_heap k t) = Some (Some code)" using exit_task_spec[OF assms(1,2)] by blast
  have "proc_upgrade (set_k k s) (t_process x) = Some p" using assms(3,4) by (simp add: proc_upgrade_def)
  then show thesis using k by (intro that[of k]) (simp_all add: run_exits.simps[of "ExitThread ls t code # rest"] Let_def)
qed


lemma same_but_tasks_heap: "same_but_tasks k k' \<Longrightarrow> tk_heap k' u = None \<longleftrightarrow> tk_heap k u = None"
  unfolding same_but_tasks_def by (metis map_option_is_None)

section \<open>Ending\<close>

text \<open>The other threads of the process that are still there.\<close>

definition companions :: "tref \<Rightarrow> process \<Rightarrow> psys \<Rightarrow> tref list" where
  "companions t y s = filter (\<lambda>u. tk_heap (ps_k s) u \<noteq> None \<and> u \<noteq> t) (pr_threads y)"

lemma thread_exit_of_main:
  assumes p: "ps_procs s p = Some y" "pr_state y \<noteq> ProcExited" and k: "same_but_tasks (ps_k s) k"
    "map_option t_exit_code (tk_heap k t) = Some (Some code)" and last: "pr_main_thread y = Some t \<or> companions t y s = []"
  shows "\<exists>s2. proc_on_thread_exit p t (set_k k s) = (Some code, s2) \<and>
    proc_exit_begin p code s2 = (Some (companions t y s),
      put_proc p (y\<lparr>pr_state := ProcExited, pr_exit_code := code, pr_threads := []\<rparr>) (set_k k s))"
proof -
  have c: "filter (\<lambda>u. tk_heap k u \<noteq> None \<and> u \<noteq> t) (pr_threads y) = companions t y s"
    unfolding companions_def using same_but_tasks_heap[OF k(1)] by simp
  have "filter (\<lambda>u. tk_heap k u \<noteq> None) (companions t y s) = companions t y s"
    unfolding companions_def using same_but_tasks_heap[OF k(1)] by (auto simp: conj_commute intro: filter_cong)
  moreover have "tk_heap k t \<noteq> None" using k(2) by auto
  ultimately show ?thesis
    using p c k(2) last by (auto simp: proc_on_thread_exit_def proc_exit_begin_def task_upgrade_def put_proc_def Let_def)
qed

lemma exit_alone:
  assumes t: "placed (ps_k s) t" "tk_heap (ps_k s) t = Some x" "t_process x = Some p"
    and p: "ps_procs s p = Some y" "pr_state y \<noteq> ProcExited" "companions t y s = []"
    and g: "k_plain (ps_k s) p = Some g" "ss_observers g = []"
  shows "\<exists>s'. sys_exit t code s = Some (Ok s') \<and>
    ps_procs s' = (ps_procs s)(p \<mapsto> y\<lparr>pr_state := ProcExited, pr_exit_code := word_of_nat code, pr_threads := []\<rparr>) \<and>
    plain_signals p (ps_k s') = ss_get g OR TERMINATED \<and> k_chans (ps_k s') = k_chans (ps_k s) \<and> k_ports (ps_k s') = k_ports (ps_k s) \<and>
    ms_as (ps_mem s') = ms_as (ps_mem s) \<and> sy_tables (ps_sys s') = sy_tables (ps_sys s) \<and> sy_umem (ps_sys s') = sy_umem (ps_sys s)"
proof -
  let ?c = "word_of_nat code :: i32"
  from run_exits_thread[OF t p(1), of ?c "[]" "[]"] obtain k where k: "same_but_tasks (ps_k s) k"
    "map_option t_exit_code (tk_heap k t) = Some (Some ?c)"
    "run_exits [ExitThread [] t ?c] s =
       (case proc_on_thread_exit p t (set_k k s) of
               (None, s2) \<Rightarrow> run_exits [] s2
             | (Some c, s2) \<Rightarrow>
                 (case proc_exit_begin p c s2 of
                    (None, s3) \<Rightarrow> run_exits [] s3
                  | (Some ts, s3) \<Rightarrow> run_exits (map (\<lambda>u. ExitThread [p] u c) ts @ [Terminate p]) s3))" by auto
  let ?s = "put_proc p (y\<lparr>pr_state := ProcExited, pr_exit_code := ?c, pr_threads := []\<rparr>) (set_k k s)"
  have "run_exits [ExitThread [] t ?c] s = run_exits [Terminate p] ?s"
    using thread_exit_of_main[OF p(1,2) k(1,2)] p(3) unfolding k(3) by auto
  moreover have kp: "k_plain k p = Some g" using k(1) g(1) by (simp add: same_but_tasks_def)
  obtain cs g' where ss: "ss_set TERMINATED g = (cs, g')" by fastforce
  have g': "cs = []" "ss_get g' = ss_get g OR TERMINATED"
    using ss g(2) by (auto simp: ss_set_def ss_notify_def ss_get_def Let_def split: if_splits)
  have "plain_set p TERMINATED k = Some (Ok (k\<lparr>k_plain := (k_plain k)(p \<mapsto> g')\<rparr>))"
    using kp ss g'(1) by (simp add: plain_set_def run_calls_def deliver.simps)
  then have "run_exits [Terminate p] ?s = Some (Ok (set_k (k\<lparr>k_plain := (k_plain k)(p \<mapsto> g')\<rparr>) ?s))"
    by (simp add: run_exits.simps[of "[Terminate p]"] run_exits.simps[of "[]"])
  ultimately show ?thesis
    using k(1) g'(2) by (auto simp: sys_exit_def same_but_tasks_def plain_signals_def)
qed

lemma wait_sees:
  assumes "proc_table q s = Some t" and "ht_get t (handle_from h) R_WAIT = Some p" and "contains (object_signals p s) TERMINATED"
    and "ps_procs s p = Some y" and "out \<noteq> 0"
  shows "\<exists>s'. sys_process_wait q h out timeout s = (Ok 0, s') \<and> mem_u32 (proc_umem q s') out = unat (pr_exit_code y)"
proof -
  have "unat (pr_exit_code y) < 256 ^ 4" using unsigned_less[of "pr_exit_code y", where ?'a = nat] by simp
  then have "mem_u32 (mem_write out (le_bytes 4 (unat (pr_exit_code y))) m) out = unat (pr_exit_code y)" for m
    using mem_read_write_same[of out "le_bytes 4 (unat (pr_exit_code y))" m] by (simp add: mem_u32_def le_roundtrip)
  moreover have "pid_of q (on_mem f s) = pid_of q s" for f by (simp add: pid_of_def split: option.split)
  ultimately show ?thesis
    using assms by (simp add: sys_process_wait_def proc_write_def proc_umem_def write_user_def)
qed


section \<open>A parent and its child\<close>

text \<open>The child, object 5, has the main thread 7 and, in \<open>family True\<close>, a second thread 8. The parent, object 6, has a handle
  to the child that allows nothing but waiting. Object 4 is the child's root region.\<close>

definition child_task :: "nat \<Rightarrow> task" where
  "child_task tid = sample_task\<lparr>t_tid := tid, t_process := Some 5\<rparr>"

definition family_kernel :: "bool \<Rightarrow> kernel" where
  "family_kernel two = empty_kernel\<lparr>tk_heap := [7 \<mapsto> child_task 7, 8 \<mapsto> child_task 8],
     tk_scheds := [(0, sc_new\<lparr>sc_current := Some 7, sc_ready := if two then [8] else []\<rparr>)], tk_archids := [(0, 0)],
     k_plain := [5 \<mapsto> ss_new, 6 \<mapsto> ss_new]\<rparr>"

definition family :: "bool \<Rightarrow> psys" where
  "family two = \<lparr>ps_mem = \<lparr>ms_sys = \<lparr>sy_k = family_kernel two, sy_tables = [1 \<mapsto> ht_new, 2 \<mapsto> share_table [(5, R_WAIT)]],
       sy_umem = (\<lambda>_ _. 0), sy_refs = (\<lambda>_. 1), sy_next = 9\<rparr>,
     ms_as = \<lparr>as_vm = sample_vm, as_vmars = [4 \<mapsto> user_root ALLOC_START 0]\<rparr>, ms_roots = [1 \<mapsto> 4]\<rparr>,
   ps_procs = [5 \<mapsto> (new_process 1 [65] (Some 6))\<lparr>pr_state := ProcRunning, pr_main_thread := Some 7, pr_threads := if two then [7, 8] else [7]\<rparr>,
               6 \<mapsto> new_process 2 [66] None],
   ps_processes = [(1, 5), (2, 6)], ps_next_pid = 3, ps_next_task = 9, ps_contexts = (\<lambda>_. None), ps_loaded = []\<rparr>"

lemmas family_defs = family_def family_kernel_def child_task_def sample_task_def empty_kernel_def new_process_def sc_new_def

lemma family_tasks:
  "placed (ps_k (family two)) 7" "placed (ps_k (family two)) 8"
  "tk_heap (ps_k (family two)) 7 = Some (child_task 7)" "tk_heap (ps_k (family two)) 8 = Some (child_task 8)"
  "t_process (child_task n) = Some 5"
  by (simp_all add: placed_def family_defs bt_get_def)

lemma family_parent:
  "proc_table (Some 6) (family two) = Some (share_table [(5, R_WAIT)])" "ht_get (share_table [(5, R_WAIT)]) (handle_from 1) R_WAIT = Some 5"
  by (simp_all add: proc_table_def pid_of_def family_defs share_table_def ht_get_def bt_get_def handle_from_def)

section \<open>Properties\<close>

text \<open>C12: an exit code reaches whoever waits. While a process runs, a call of \<open>sys_process_wait\<close> through a handle with the right to wait
  says to try again. When the last thread of the process exits with a code, the process ends, and the same call then succeeds and
  stores that code, as 32 bits, where the caller asked.\<close>

theorem exit_code_reaches_waiter:
  assumes t: "placed (ps_k s) t" "tk_heap (ps_k s) t = Some x" "t_process x = Some p"
    and p: "ps_procs s p = Some y" "pr_state y \<noteq> ProcExited" "companions t y s = []"
    and g: "k_plain (ps_k s) p = Some g" "ss_observers g = []" "\<not> contains (ss_get g) TERMINATED"
    and kind: "k_chans (ps_k s) p = None" "k_ports (ps_k s) p = None" "ms_vmos (ps_mem s) p = None" "ms_vmars (ps_mem s) p = None"
    and q: "proc_table q s = Some tb" "ht_get tb (handle_from h) R_WAIT = Some p" and out: "out \<noteq> 0"
  shows "sys_process_wait q h out timeout s = (Err (Error EAGAIN), s) \<and>
    (\<exists>s1 s2. sys_exit t code s = Some (Ok s1) \<and> sys_process_wait q h out timeout s1 = (Ok 0, s2) \<and>
       mem_u32 (proc_umem q s2) out = code mod 2 ^ 32)"
proof -
  let ?y = "y\<lparr>pr_state := ProcExited, pr_exit_code := word_of_nat code, pr_threads := []\<rparr>"
  have now: "object_signals p s = ss_get g" using kind g(1) by (simp add: object_signals_def plain_signals_def)
  from exit_alone[OF t p g(1,2), of code] obtain s1 where s1: "sys_exit t code s = Some (Ok s1)" "ps_procs s1 = (ps_procs s)(p \<mapsto> ?y)"
    "plain_signals p (ps_k s1) = ss_get g OR TERMINATED" "k_chans (ps_k s1) = k_chans (ps_k s)" "k_ports (ps_k s1) = k_ports (ps_k s)"
    "ms_as (ps_mem s1) = ms_as (ps_mem s)" "sy_tables (ps_sys s1) = sy_tables (ps_sys s)" by blast
  have "pid_of q s1 = pid_of q s" using s1(2) p(1) by (auto simp: pid_of_def split: option.split)
  then have tb: "proc_table q s1 = Some tb" using q(1) s1(7) by (cases "pid_of q s") (simp_all add: proc_table_def)
  have "contains (object_signals p s1) TERMINATED"
    using kind s1(3-6) by (simp add: object_signals_def contains_or_right)
  from wait_sees[OF tb q(2) this _ out, of ?y timeout] s1(2) have
    "\<exists>s2. sys_process_wait q h out timeout s1 = (Ok 0, s2) \<and> mem_u32 (proc_umem q s2) out = code mod 2 ^ 32"
    by (simp add: unat_of_nat)
  with s1(1) now g(3) q show ?thesis by (auto simp: sys_process_wait_def)
qed

theorem exit_code_reaches_waiter_witness:
  "sys_process_wait (Some 6) 1 100 0 (family False) = (Err (Error EAGAIN), family False) \<and>
   (\<exists>s1 s2. sys_exit 7 42 (family False) = Some (Ok s1) \<and> sys_process_wait (Some 6) 1 100 0 s1 = (Ok 0, s2) \<and>
      mem_u32 (proc_umem (Some 6) s2) 100 = 42)"
proof -
  let ?y = "(new_process 1 [65] (Some 6))\<lparr>pr_state := ProcRunning, pr_main_thread := Some 7, pr_threads := [7]\<rparr>"
  have "ps_procs (family False) 5 = Some ?y" "pr_state ?y \<noteq> ProcExited" "companions 7 ?y (family False) = []"
    "k_plain (ps_k (family False)) 5 = Some ss_new" "ss_observers ss_new = []" "\<not> contains (ss_get ss_new) TERMINATED"
    "k_chans (ps_k (family False)) 5 = None" "k_ports (ps_k (family False)) 5 = None"
    "ms_vmos (ps_mem (family False)) 5 = None" "ms_vmars (ps_mem (family False)) 5 = None"
    by (simp_all add: companions_def family_defs ss_new_def ss_get_def contains_def signal_defs sample_vm_def)
  from exit_code_reaches_waiter[OF family_tasks(1,3,5) this family_parent, of 100 0 42] show ?thesis by simp
qed

text \<open>C36: a process with two threads cannot end. When the main thread exits while another thread of the process exists, the call
  never comes back: \<open>on_thread_exit\<close> holds the lock of the process while \<open>exit\<close> ends the other threads, and ending a thread asks for the
  same lock.\<close>

theorem main_thread_exit_hangs:
  assumes t: "placed (ps_k s) t" "tk_heap (ps_k s) t = Some x" "t_process x = Some p"
    and p: "ps_procs s p = Some y" "pr_state y \<noteq> ProcExited" "pr_main_thread y = Some t"
    and u: "companions t y s = u # us" "placed (ps_k s) u" "tk_heap (ps_k s) u = Some z" "t_process z = Some p"
  shows "sys_exit t code s = None"
proof -
  let ?c = "word_of_nat code :: i32"
  from run_exits_thread[OF t p(1), of ?c "[]" "[]"] obtain k where k: "same_but_tasks (ps_k s) k"
    "map_option t_exit_code (tk_heap k t) = Some (Some ?c)"
    "run_exits [ExitThread [] t ?c] s =
       (case proc_on_thread_exit p t (set_k k s) of
               (None, s2) \<Rightarrow> run_exits [] s2
             | (Some c, s2) \<Rightarrow>
                 (case proc_exit_begin p c s2 of
                    (None, s3) \<Rightarrow> run_exits [] s3
                  | (Some ts, s3) \<Rightarrow> run_exits (map (\<lambda>u. ExitThread [p] u c) ts @ [Terminate p]) s3))" by auto
  let ?s = "put_proc p (y\<lparr>pr_state := ProcExited, pr_exit_code := ?c, pr_threads := []\<rparr>) (set_k k s)"
  have "run_exits [ExitThread [] t ?c] s = run_exits (ExitThread [p] u ?c # map (\<lambda>u. ExitThread [p] u ?c) us @ [Terminate p]) ?s"
    using thread_exit_of_main[OF p(1,2) k(1,2)] p(3) u(1) unfolding k(3) by auto
  moreover obtain z' where z': "tk_heap k u = Some z'" "t_process z' = Some p"
    using k(1) u(3,4) unfolding same_but_tasks_def by (metis (no_types, lifting) map_option_eq_Some)
  moreover have "placed (ps_k ?s) u" using k(1) u(2) by (simp add: same_but_tasks_def)
  ultimately show ?thesis
    using run_exits_thread[of ?s u z' p _ ?c "[p]" "map (\<lambda>u. ExitThread [p] u ?c) us @ [Terminate p]"] by (auto simp: sys_exit_def)
qed

theorem main_thread_exit_hangs_witness: "sys_exit 7 0 (family True) = None"
proof -
  let ?y = "(new_process 1 [65] (Some 6))\<lparr>pr_state := ProcRunning, pr_main_thread := Some 7, pr_threads := [7, 8]\<rparr>"
  have "ps_procs (family True) 5 = Some ?y" "pr_state ?y \<noteq> ProcExited" "pr_main_thread ?y = Some 7"
    "companions 7 ?y (family True) = [8]"
    by (simp_all add: companions_def family_defs)
  from main_thread_exit_hangs[OF family_tasks(1,3,5) this family_tasks(2,4,5)] show ?thesis .
qed


text \<open>C37: a thread that is made in a running process never runs. \<open>sys_thread_create\<close> leaves the new task in the state \<open>Created\<close> and in
  no scheduler queue, and \<open>sys_process_start\<close>, the only call that starts threads, does nothing for a process that runs.\<close>

theorem late_thread_never_starts:
  assumes "named_process me (mem_u32 (proc_umem me s) opt) s = Ok p" and "ps_procs s p = Some y" and "pr_state y = ProcRunning"
    and "sys_thread_create me opt out s = Some (Ok tid, s1)" and "named_object q h s1 = Ok p" and "h \<noteq> 0"
  shows "state_of (tk_heap (ps_k s1)) (ps_next_task s) = Created \<and> tk_scheds (ps_k s1) = tk_scheds (ps_k s) \<and>
    sys_process_start q h s1 = Some (Ok 0, s1)"
proof -
  obtain name e st t s2 where sp: "spawn name p e st s = Ok (t, s2)" "ps_k s1 = ps_k s2"
    "\<exists>y'. ps_procs s1 p = Some y' \<and> pr_state y' = ProcRunning"
    using assms(1-4) by (auto simp: sys_thread_create_def proc_create_main_thread_def proc_create_thread_def Let_def set_arg_def proc_write_def
        split: if_splits res.splits option.splits prod.splits)
  from sp(1) obtain k where k: "new_user name p (ps_next_task s) (task_view s) = Ok k" "ps_k s2 = register_task (ps_next_task s) k"
    by (auto simp: spawn_def Let_def after_tasks_def)
  have "state_of (tk_heap k) (ps_next_task s) = Created" "tk_scheds k = tk_scheds (ps_k s)"
    using k(1) by (auto simp: new_user_def new_inner_def alloc_stack_def fetch_tid_def alloc_cpuid_def task_view_def state_of_def Let_def
        split: if_splits option.splits)
  moreover have "sys_process_start q h s1 = Some (Ok 0, s1)"
    using sp(3) assms(5,6) by (auto simp: sys_process_start_def proc_start_def)
  ultimately show ?thesis using k(2) sp(2) by (simp add: register_task_def)
qed

text \<open>The family with memory for stacks.\<close>

definition roomy :: psys where
  "roomy = on_mem (set_vm (sample_vm\<lparr>vs_frames := large_buddy 1 (\<lambda>x. if x = 0x100000 + PHYS_OFFSET then 1 else 0)\<rparr>)) (family False)"

lemma roomy_stacks: "\<exists>k. new_user name p t (task_view roomy) = Ok k \<and> tk_heap k t \<noteq> None"
proof -
  let ?m = "\<lambda>x. if x = 0x100000 + PHYS_OFFSET then 1 else 0 :: u8"
  have m: "large_mem 1 ?m" by (auto simp: large_mem_def)
  from large_allocate[OF m] obtain m1 where
    m1: "buddy_allocate 1024 (large_buddy 1 ?m) = Ok (Some 0x101000, large_buddy 1025 m1)" "large_mem 1025 m1" by auto
  from large_allocate[OF m1(2)] obtain m2 where
    m2: "buddy_allocate 1024 (large_buddy 1025 m1) = Ok (Some 0x501000, large_buddy 2049 m2)" by auto
  have "tk_frames (task_view roomy) = large_buddy 1 ?m" "tk_cpu_count (task_view roomy) = 1"
    by (simp_all add: task_view_def roomy_def family_defs)
  with m1(1) m2 show ?thesis
    by (simp add: new_user_def new_inner_def fetch_tid_def alloc_cpuid_def alloc_stack_def STACK_SIZE_def PAGE_SIZE_def
        phys_to_virt_def PHYS_OFFSET_def chk_add_def Let_def)
qed

lemma roomy_create: "\<exists>tid s1. sys_thread_create (Some 5) 16 0 roomy = Some (Ok tid, s1) \<and> named_object (Some 6) 1 s1 = Ok 5"
proof -
  let ?y = "(new_process 1 [65] (Some 6))\<lparr>pr_state := ProcRunning, pr_main_thread := Some 7, pr_threads := [7]\<rparr>"
  obtain k where k: "new_user ''thread'' 5 9 (task_view roomy) = Ok k" using roomy_stacks by blast
  have m: "proc_umem (Some 5) roomy = (\<lambda>_. 0)" and y: "ps_procs roomy 5 = Some ?y" and t: "task_upgrade roomy (Some 7) = Some 7"
    and n: "ps_next_task roomy = 9"
    by (simp_all add: proc_umem_def roomy_def task_upgrade_def family_defs)
  have z: "mem_u32 (\<lambda>_. 0) a = 0" "mem_u64 (\<lambda>_. 0) a = 0" for a by (simp_all add: mem_u32_def mem_u64_def mem_read_def upt_rec)
  have name: "map (\<lambda>b. char_of (unat (b :: u8))) (map of_char ''thread'') = ''thread''" by code_simp
  let ?s = "put_proc 5 (?y\<lparr>pr_threads := [7, 9]\<rparr>) ((after_tasks (register_task 9 k) roomy)\<lparr>ps_next_task := 10,
      ps_contexts := (ps_contexts roomy)(9 \<mapsto> \<lparr>uc_ip = 0, uc_sp = 0, uc_args = []\<rparr>)\<rparr>)"
  have "named_process (Some 5) 0 roomy = Ok 5" using y by (simp add: named_process_def proc_upgrade_def)
  with m y t n z name k have "\<exists>tid. sys_thread_create (Some 5) 16 0 roomy = Some (Ok tid, ?s)"
    by (simp add: sys_thread_create_def read_name_def proc_create_thread_def spawn_def set_arg_def Let_def del: list.map)
  moreover have "named_object (Some 6) 1 ?s = Ok 5"
    by (simp add: named_object_def proc_table_def pid_of_def after_tasks_def set_k_def set_kernel_def roomy_def family_defs
        share_table_def ht_get_unchecked_def bt_get_def handle_from_def)
  ultimately show ?thesis by blast
qed

theorem late_thread_never_starts_witness:
  "\<exists>tid s1. sys_thread_create (Some 5) 16 0 roomy = Some (Ok tid, s1) \<and> state_of (tk_heap (ps_k s1)) 9 = Created \<and>
     sys_process_start (Some 6) 1 s1 = Some (Ok 0, s1)"
proof -
  let ?y = "(new_process 1 [65] (Some 6))\<lparr>pr_state := ProcRunning, pr_main_thread := Some 7, pr_threads := [7]\<rparr>"
  obtain tid s1 where c: "sys_thread_create (Some 5) 16 0 roomy = Some (Ok tid, s1)" "named_object (Some 6) 1 s1 = Ok 5"
    using roomy_create by blast
  have p: "named_process (Some 5) (mem_u32 (proc_umem (Some 5) roomy) 16) roomy = Ok 5" "ps_procs roomy 5 = Some ?y" "pr_state ?y = ProcRunning"
    by (simp_all add: named_process_def proc_upgrade_def proc_umem_def mem_u32_def mem_read_def upt_rec roomy_def family_defs)
  have "ps_next_task roomy = 9" by (simp add: roomy_def family_defs)
  with late_thread_never_starts[OF p c(1,2)] c(1) show ?thesis by auto
qed

text \<open>C34: any handle to a process opens its address space. Whatever rights a handle to a process has, even none,
  \<open>sys_process_get_vmar_handle\<close> answers it with a new handle to the root region of that process that has the rights to read, write, map and
  manage.\<close>

theorem any_handle_opens_address_space:
  assumes "ps_procs s q = Some z" and t: "sy_tables (ps_sys s) (pr_pid z) = Some t" "Suc (ht_next_id t) < 2 ^ 32"
    and e: "ht_lookup t (handle_from h) = Some e" "ps_procs s (he_object e) = Some y" "h \<noteq> 0"
    and a: "ms_roots (ps_mem s) (pr_pid y) = Some a"
  shows "\<exists>n s' t'. sys_process_get_vmar_handle (Some q) h s = (Ok n, s') \<and> proc_table (Some q) s' = Some t' \<and>
    ht_get t' n (R_READ OR R_WRITE OR R_MAP OR R_MANAGE) = Some a"
proof -
  have np: "named_process (Some q) h s = Ok (he_object e)"
    using assms by (simp add: named_process_def named_object_def proc_table_def pid_of_def ht_get_unchecked_def)
  let ?t = "t\<lparr>ht_next_id := Suc (ht_next_id t),
    ht_handles := bt_insert (ht_next_id t) \<lparr>he_object = a, he_rights = R_BASIC OR R_MANAGE OR R_MAP\<rparr> (ht_handles t)\<rparr>"
  have ins: "ht_insert a (R_BASIC OR R_MANAGE OR R_MAP) t = (Ok (ht_next_id t, ?t) :: (error, nat \<times> handle_table) res)"
    using t(2) by (simp add: ht_insert_def Let_def)
  have "sys_process_get_vmar_handle (Some q) h s =
      (Ok (ht_next_id t), on_mem (\<lambda>m. m\<lparr>ms_sys := set_table (pr_pid z) ?t (ms_sys m)\<rparr>) (on_mem (mclone a) s))"
    using np assms(1) t(1) e a ins
    by (simp add: sys_process_get_vmar_handle_def pid_of_def proc_insert_def insert_object_def on_mem_def)
  moreover have "contains (R_BASIC OR R_MANAGE OR R_MAP) (R_READ OR R_WRITE OR R_MAP OR R_MANAGE)"
    by (simp add: contains_def rights_defs R_BASIC_def)
  then have "ht_get ?t (ht_next_id t) (R_READ OR R_WRITE OR R_MAP OR R_MANAGE) = Some a"
    by (simp add: ht_get_def bt_get_insert)
  ultimately show ?thesis using assms(1) by (simp add: proc_table_def pid_of_def)
qed

theorem any_handle_opens_address_space_witness:
  "\<exists>n s' t'. sys_process_get_vmar_handle (Some 6) 1 (family False) = (Ok n, s') \<and> proc_table (Some 6) s' = Some t' \<and>
     ht_get t' n (R_READ OR R_WRITE OR R_MAP OR R_MANAGE) = Some 4"
proof (rule any_handle_opens_address_space)
  show "ps_procs (family False) 6 = Some (new_process 2 [66] None)" by (simp add: family_defs)
  show "sy_tables (ps_sys (family False)) (pr_pid (new_process 2 [66] None)) = Some (share_table [(5, R_WAIT)])"
    by (simp add: family_defs)
  show "Suc (ht_next_id (share_table [(5, R_WAIT)])) < 2 ^ 32" by (simp add: share_table_def)
  show "ht_lookup (share_table [(5, R_WAIT)]) (handle_from 1) = Some \<lparr>he_object = 5, he_rights = R_WAIT\<rparr>"
    by (simp add: share_table_def bt_get_def handle_from_def)
  show "ps_procs (family False) (he_object \<lparr>he_object = 5, he_rights = R_WAIT\<rparr>) =
    Some ((new_process 1 [65] (Some 6))\<lparr>pr_state := ProcRunning, pr_main_thread := Some 7, pr_threads := [7]\<rparr>)"
    by (simp add: family_defs)
  show "ms_roots (ps_mem (family False)) (pr_pid ((new_process 1 [65] (Some 6))\<lparr>pr_state := ProcRunning, pr_main_thread := Some 7,
      pr_threads := [7]\<rparr>)) = Some 4" by (simp add: family_defs)
qed simp

end
