(* ===== verification/Dma.thy ===== *)
theory Dma
  imports Bytes Errors
begin

text \<open>
  Memory for device drivers: \<open>libdriver/src/dma.rs\<close> and the driver errors of \<open>libdriver/src/lib.rs\<close>. What the kernel answers to
  the creation, mapping and address query of a contiguous VMO is a parameter of the allocation: an error, or a
  pointer, a physical address and the contents. The bytes of a region are indexed from its start.
\<close>

section \<open>Errors\<close>

datatype driver_error =
    InvalidArgument
  | OutOfMemory
  | InvalidHandle
  | Disconnected
  | Timeout
  | BufferTooSmall
  | DeviceBusy
  | IoError
  | PermissionDenied
  | NotSupported
  | SystemError i32

definition ETIMEDOUT :: i32 where "ETIMEDOUT = 110"

definition driver_error_from :: "error \<Rightarrow> driver_error" where
  "driver_error_from e =
     (let n = errno e
      in if n = EINVAL then InvalidArgument else if n = ENOMEM then OutOfMemory else if n = EBADF then InvalidHandle
         else if n = EPIPE then Disconnected else if n = ETIMEDOUT then Timeout else if n = EACCES then PermissionDenied
         else SystemError n)"

section \<open>Physical addresses and rounding\<close>

type_synonym phys_addr = nat

definition phys_add :: "phys_addr \<Rightarrow> nat \<Rightarrow> (driver_error, phys_addr) res" where
  "phys_add a off = chk_add a off"

text \<open>\<open>x & !m\<close> on \<open>usize\<close>.\<close>

definition and_not :: "nat \<Rightarrow> nat \<Rightarrow> nat" where
  "and_not x m = unat ((word_of_nat x :: u64) AND NOT (word_of_nat m))"

lemma and_not_mask:
  assumes "x < usize_limit" and "k < 64"
  shows "and_not x (2 ^ k - 1) = x - x mod 2 ^ k"
proof -
  have m: "(word_of_nat (2 ^ k - 1) :: u64) = mask k" by (simp add: mask_eq_exp_minus_1 of_nat_diff)
  let ?x = "word_of_nat x :: u64"
  have x: "unat ?x = x" using assms(1) by (simp add: unat_of_nat)
  have "unat (?x AND mask k) = take_bit k (unat ?x)" by (simp only: take_bit_eq_mask[symmetric] unsigned_take_bit_eq)
  then have t: "unat (?x AND mask k) = x mod 2 ^ k" unfolding x by (simp only: take_bit_eq_mod)
  have "NOT ?x AND (?x AND mask k) = 0" by (simp add: bit_eq_iff bit_simps)
  from disjunctive_diff_eq_and_not[OF this] have "?x AND NOT (mask k) = ?x - (?x AND mask k)"
    by (simp add: bit_eq_iff bit_simps) blast
  moreover have "unat (?x - (?x AND mask k)) = x - x mod 2 ^ k"
    using x t by (simp add: unat_sub word_le_nat_alt)
  ultimately show ?thesis unfolding and_not_def m by simp
qed

section \<open>Regions\<close>

record dma_region =
  dr_mem :: "nat \<Rightarrow> u8"
  dr_phys :: phys_addr
  dr_size :: nat

type_synonym kernel_alloc = "nat \<Rightarrow> (driver_error, nat \<times> phys_addr \<times> (nat \<Rightarrow> u8)) res"

definition allocate_aligned :: "kernel_alloc \<Rightarrow> nat \<Rightarrow> nat \<Rightarrow> (driver_error, dma_region) res" where
  "allocate_aligned kalloc n alignment =
     (if n = 0 then Err InvalidArgument
      else let al = max alignment 4096
           in bind_res (chk_add n al) (\<lambda>e.
                let aligned = and_not (e - 1) (al - 1)
                in bind_res (kalloc aligned) (\<lambda>(ptr, phys, mem).
                     if ptr = 0 then Err OutOfMemory
                     else Ok \<lparr>dr_mem = mem, dr_phys = phys, dr_size = aligned\<rparr>)))"

definition dma_allocate :: "kernel_alloc \<Rightarrow> nat \<Rightarrow> (driver_error, dma_region) res" where
  "dma_allocate kalloc n = allocate_aligned kalloc n 4096"

definition dr_zero :: "dma_region \<Rightarrow> dma_region" where
  "dr_zero r = r\<lparr>dr_mem := mem_write 0 (replicate (dr_size r) 0) (dr_mem r)\<rparr>"

definition phys_addr_at :: "dma_region \<Rightarrow> nat \<Rightarrow> (driver_error, phys_addr option) res" where
  "phys_addr_at r off =
     (if off < dr_size r then bind_res (phys_add (dr_phys r) off) (\<lambda>a. Ok (Some a)) else Ok None)"

text \<open>A region is the requested size rounded up to whole pages.\<close>

lemma dma_allocate_size:
  assumes "dma_allocate kalloc n = Ok r"
  shows "0 < n \<and> dr_size r = (n + 4095) div 4096 * 4096 \<and> n \<le> dr_size r"
proof -
  from assms have n: "0 < n" "n + 4096 < usize_limit" and r: "dr_size r = and_not (n + 4096 - 1) (4096 - 1)"
    by (auto simp: dma_allocate_def allocate_aligned_def Let_def chk_simps split: if_splits)
  have "and_not (n + 4095) (2 ^ 12 - 1) = (n + 4095) - (n + 4095) mod 2 ^ 12"
    using n(2) by (intro and_not_mask) auto
  then have "dr_size r = (n + 4095) div 4096 * 4096" using r by (simp add: minus_mod_eq_div_mult add.commute)
  moreover have "n \<le> (n + 4095) div 4096 * 4096" by simp
  ultimately show ?thesis using n(1) by simp
qed

section \<open>Buffers with positions\<close>

record dma_buffer =
  db_region :: dma_region
  db_read_pos :: nat
  db_write_pos :: nat

definition db_new :: "kernel_alloc \<Rightarrow> nat \<Rightarrow> (driver_error, dma_buffer) res" where
  "db_new kalloc n =
     bind_res (dma_allocate kalloc n) (\<lambda>r. Ok \<lparr>db_region = dr_zero r, db_read_pos = 0, db_write_pos = 0\<rparr>)"

definition db_readable :: "dma_buffer \<Rightarrow> (driver_error, nat) res" where
  "db_readable b = chk_sub (db_write_pos b) (db_read_pos b)"

definition db_writable :: "dma_buffer \<Rightarrow> (driver_error, nat) res" where
  "db_writable b = chk_sub (dr_size (db_region b)) (db_write_pos b)"

definition db_write :: "u8 list \<Rightarrow> dma_buffer \<Rightarrow> (driver_error, nat \<times> dma_buffer) res" where
  "db_write d b =
     bind_res (db_writable b) (\<lambda>room.
       let n = min (length d) room
       in Ok (n, if n > 0
                 then b\<lparr>db_region := (db_region b)\<lparr>dr_mem := mem_write (db_write_pos b) (take n d) (dr_mem (db_region b))\<rparr>,
                        db_write_pos := db_write_pos b + n\<rparr>
                 else b))"

text \<open>Read into a buffer of \<open>len\<close> bytes: the bytes that are copied to its start.\<close>

definition db_read :: "nat \<Rightarrow> dma_buffer \<Rightarrow> (driver_error, u8 list \<times> dma_buffer) res" where
  "db_read len b =
     bind_res (db_readable b) (\<lambda>have.
       let n = min len have
       in Ok (mem_read (dr_mem (db_region b)) (db_read_pos b) n, if n > 0 then b\<lparr>db_read_pos := db_read_pos b + n\<rparr> else b))"

definition db_reset :: "dma_buffer \<Rightarrow> dma_buffer" where
  "db_reset b = b\<lparr>db_read_pos := 0, db_write_pos := 0\<rparr>"

definition db_ok :: "dma_buffer \<Rightarrow> bool" where
  "db_ok b \<longleftrightarrow> db_read_pos b \<le> db_write_pos b \<and> db_write_pos b \<le> dr_size (db_region b)"

text \<open>The bytes written and not yet read.\<close>

definition db_pending :: "dma_buffer \<Rightarrow> u8 list" where
  "db_pending b = mem_read (dr_mem (db_region b)) (db_read_pos b) (db_write_pos b - db_read_pos b)"

lemma db_write_pending:
  assumes "db_ok b"
  shows "\<exists>n b'. db_write d b = Ok (n, b') \<and> db_ok b' \<and> n \<le> length d \<and> db_pending b' = db_pending b @ take n d \<and>
    (length d \<le> dr_size (db_region b) - db_write_pos b \<longrightarrow> n = length d)"
proof -
  let ?n = "min (length d) (dr_size (db_region b) - db_write_pos b)"
  let ?m = "dr_mem (db_region b)"
  obtain k where k: "db_write_pos b = db_read_pos b + k" using assms by (metis db_ok_def le_Suc_ex)
  have "mem_read (mem_write (db_write_pos b) (take ?n d) ?m) (db_read_pos b) (k + ?n) = mem_read ?m (db_read_pos b) k @ take ?n d"
    using mem_read_write_same[of "db_write_pos b" "take ?n d" ?m] by (simp add: mem_read_append mem_read_write_other k)
  with assms k show ?thesis
    by (auto simp: db_write_def db_writable_def chk_sub_eq db_ok_def db_pending_def Let_def)
qed

lemma db_read_pending:
  assumes "db_ok b"
  shows "\<exists>bs b'. db_read len b = Ok (bs, b') \<and> db_ok b' \<and> bs = take len (db_pending b) \<and> db_pending b' = drop len (db_pending b)"
proof -
  let ?m = "dr_mem (db_region b)"
  obtain k where k: "db_write_pos b = db_read_pos b + k" using assms by (metis db_ok_def le_Suc_ex)
  have t: "take len (mem_read ?m a k) = mem_read ?m a (min len k)" for a
    by (rule nth_equalityI) auto
  have d: "drop len (mem_read ?m a k) = mem_read ?m (a + min len k) (k - min len k)" for a
    by (rule nth_equalityI) (auto simp: add.assoc)
  from assms k show ?thesis
    by (auto simp: db_read_def db_readable_def chk_sub_eq db_ok_def db_pending_def Let_def t d)
qed

section \<open>Pools\<close>

record dma_pool =
  dp_buffer_size :: nat
  dp_free :: "dma_region list"
  dp_allocated :: nat
  dp_max :: nat

definition dp_new :: "nat \<Rightarrow> nat \<Rightarrow> dma_pool" where
  "dp_new sz mx = \<lparr>dp_buffer_size = sz, dp_free = [], dp_allocated = 0, dp_max = mx\<rparr>"

text \<open>The answers of the kernel to successive allocations are a list of functions; \<open>None\<close> in the count means success.\<close>

fun dp_preallocate :: "kernel_alloc list \<Rightarrow> dma_pool \<Rightarrow> (driver_error, unit) res \<times> dma_pool" where
  "dp_preallocate [] p = (Ok (), p)"
| "dp_preallocate (kalloc # ks) p =
     (if dp_allocated p \<ge> dp_max p then (Ok (), p)
      else case dma_allocate kalloc (dp_buffer_size p) of
             Ok r \<Rightarrow> dp_preallocate ks (p\<lparr>dp_free := dp_free p @ [r], dp_allocated := dp_allocated p + 1\<rparr>)
           | Err e \<Rightarrow> (Err e, p)
           | Panic \<Rightarrow> (Panic, p))"

definition dp_acquire :: "kernel_alloc \<Rightarrow> dma_pool \<Rightarrow> (driver_error, dma_region) res \<times> dma_pool" where
  "dp_acquire kalloc p =
     (if dp_free p \<noteq> [] then (Ok (last (dp_free p)), p\<lparr>dp_free := butlast (dp_free p)\<rparr>)
      else if dp_allocated p \<ge> dp_max p then (Err OutOfMemory, p)
      else (dma_allocate kalloc (dp_buffer_size p), p\<lparr>dp_allocated := dp_allocated p + 1\<rparr>))"

definition dp_release :: "dma_region \<Rightarrow> dma_pool \<Rightarrow> dma_pool" where
  "dp_release r p = p\<lparr>dp_free := dp_free p @ [r]\<rparr>"

definition dp_stats :: "dma_pool \<Rightarrow> nat \<times> nat \<times> nat \<times> nat" where
  "dp_stats p = (dp_buffer_size p, length (dp_free p), dp_allocated p, dp_max p)"

text \<open>A sequence of acquisitions, each with the kernel's answer to the allocation it may make.\<close>

fun acquire_each :: "kernel_alloc list \<Rightarrow> dma_pool \<Rightarrow> (driver_error, dma_region) res list \<times> dma_pool" where
  "acquire_each [] p = ([], p)"
| "acquire_each (k # ks) p =
     (let (r, p1) = dp_acquire k p; (rs, p2) = acquire_each ks p1 in (r # rs, p2))"

lemma acquire_failing:
  assumes "dp_free p = []" and "dp_allocated p + length ks \<le> dp_max p"
    and "\<forall>k \<in> set ks. \<exists>e. dma_allocate k (dp_buffer_size p) = Err e"
  shows "snd (acquire_each ks p) = p\<lparr>dp_allocated := dp_allocated p + length ks\<rparr>"
  using assms
proof (induction ks arbitrary: p)
  case (Cons k ks)
  let ?p = "p\<lparr>dp_allocated := dp_allocated p + 1\<rparr>"
  have "snd (dp_acquire k p) = ?p" using Cons.prems by (simp add: dp_acquire_def)
  moreover have "snd (acquire_each ks ?p) = ?p\<lparr>dp_allocated := dp_allocated ?p + length ks\<rparr>"
    using Cons.prems by (intro Cons.IH) auto
  ultimately show ?case by (simp add: case_prod_beta)
qed simp

section \<open>Scatter-gather lists\<close>

record sg_descriptor =
  sg_phys :: u64
  sg_length :: u32
  sg_flags :: u32

definition SG_FLAG_LAST :: u32 where "SG_FLAG_LAST = 1"
definition SG_FLAG_INTERRUPT :: u32 where "SG_FLAG_INTERRUPT = 2"

definition sg_descriptor_new :: "u64 \<Rightarrow> u32 \<Rightarrow> sg_descriptor" where
  "sg_descriptor_new a n = \<lparr>sg_phys = a, sg_length = n, sg_flags = 0\<rparr>"

record sg_list =
  sl_descriptors :: "sg_descriptor list"
  sl_table :: "dma_region option"

definition sl_new :: sg_list where
  "sl_new = \<lparr>sl_descriptors = [], sl_table = None\<rparr>"

definition sl_push :: "u64 \<Rightarrow> u32 \<Rightarrow> sg_list \<Rightarrow> sg_list" where
  "sl_push a n l = l\<lparr>sl_descriptors := sl_descriptors l @ [sg_descriptor_new a n], sl_table := None\<rparr>"

definition sl_push_region :: "dma_region \<Rightarrow> nat \<Rightarrow> nat \<Rightarrow> sg_list \<Rightarrow> (driver_error, sg_list) res" where
  "sl_push_region r off n l =
     bind_res (phys_addr_at r off) (\<lambda>a.
       Ok (case a of None \<Rightarrow> l | Some a \<Rightarrow> sl_push (word_of_nat a) (word_of_nat n) l))"

definition sg_bytes :: "sg_descriptor \<Rightarrow> u8 list" where
  "sg_bytes d = le_bytes 8 (unat (sg_phys d)) @ le_bytes 4 (unat (sg_length d)) @ le_bytes 4 (unat (sg_flags d))"

text \<open>\<open>prepare_hw_table\<close>: the cached table, or a new region with the descriptors, the last one flagged.\<close>

definition sl_prepare_hw_table :: "kernel_alloc \<Rightarrow> sg_list \<Rightarrow> (driver_error, phys_addr) res \<times> sg_list" where
  "sl_prepare_hw_table kalloc l =
     (case sl_table l of
        Some r \<Rightarrow> (Ok (dr_phys r), l)
      | None \<Rightarrow>
          (case bind_res (chk_mul (length (sl_descriptors l)) 16) (dma_allocate kalloc) of
             Err e \<Rightarrow> (Err e, l)
           | Panic \<Rightarrow> (Panic, l)
           | Ok r \<Rightarrow>
               let ds = sl_descriptors l;
                   m = mem_write 0 (concat (map sg_bytes ds)) (dr_mem r);
                   m1 = (if ds \<noteq> []
                         then mem_write (16 * (length ds - 1) + 12) (le_bytes 4 (unat (sg_flags (last ds) OR SG_FLAG_LAST))) m
                         else m)
               in (Ok (dr_phys r), l\<lparr>sl_table := Some (r\<lparr>dr_mem := m1\<rparr>)\<rparr>)))"

definition sl_clear :: "sg_list \<Rightarrow> sg_list" where
  "sl_clear l = l\<lparr>sl_descriptors := [], sl_table := None\<rparr>"

definition sl_total_length :: "sg_list \<Rightarrow> nat" where
  "sl_total_length l = sum_list (map (\<lambda>d. unat (sg_length d)) (sl_descriptors l))"

text \<open>What a device finds in the table, entry by entry.\<close>

definition sg_read :: "(nat \<Rightarrow> u8) \<Rightarrow> nat \<Rightarrow> sg_descriptor" where
  "sg_read m i =
     \<lparr>sg_phys = word_of_nat (le_value (mem_read m (16 * i) 8)), sg_length = word_of_nat (le_value (mem_read m (16 * i + 8) 4)),
      sg_flags = word_of_nat (le_value (mem_read m (16 * i + 12) 4))\<rparr>"

lemma length_sg_bytes [simp]: "length (sg_bytes d) = 16"
  by (simp add: sg_bytes_def)

lemma length_sg_table [simp]: "length (concat (map sg_bytes ds)) = 16 * length ds"
  by (induction ds) simp_all

lemma mem_read_sg_table:
  "i < length ds \<Longrightarrow> mem_read (mem_write a (concat (map sg_bytes ds)) m) (a + 16 * i) 16 = sg_bytes (ds ! i)"
proof (induction ds arbitrary: a i m)
  case (Cons d ds)
  let ?m = "mem_write a (sg_bytes d) m"
  show ?case
  proof (cases i)
    case 0
    have "mem_read (mem_write (a + 16) (concat (map sg_bytes ds)) ?m) a 16 = mem_read ?m a 16"
      by (rule mem_read_write_other) simp
    with 0 show ?thesis using mem_read_write_same[of a "sg_bytes d" m] by (simp add: mem_write_append)
  next
    case (Suc j)
    then have e: "a + 16 * i = a + 16 + 16 * j" by simp
    show ?thesis using Cons.prems Cons.IH[of j "a + 16" ?m] unfolding e by (simp add: mem_write_append Suc)
  qed
qed simp

lemma sg_read_bytes:
  assumes "mem_read m (16 * i) 16 = sg_bytes d"
  shows "sg_read m i = d"
proof -
  note part = mem_read_part[OF assms]
  have "mem_read m (16 * i) 8 = le_bytes 8 (unat (sg_phys d))" "mem_read m (16 * i + 8) 4 = le_bytes 4 (unat (sg_length d))"
    "mem_read m (16 * i + 12) 4 = le_bytes 4 (unat (sg_flags d))"
    using part[of 0 8] part[of 8 4] part[of 12 4] by (simp_all add: sg_bytes_def)
  moreover have "unat w mod 2 ^ 64 = unat w" for w :: u64 using unsigned_less[of w, where ?'a = nat] by simp
  moreover have "unat w mod 2 ^ 32 = unat w" for w :: u32 using unsigned_less[of w, where ?'a = nat] by simp
  ultimately show ?thesis by (simp add: sg_read_def le_value_bytes)
qed

text \<open>A driver's memory pool loses capacity on failures. A slot is counted before the kernel is asked for memory and is not
  given back when the kernel refuses, so after as many refused requests as the pool has slots left, the pool refuses
  every later request, even when the kernel has memory again.\<close>

theorem pool_slots_lost:
  assumes "dp_free p = []" and "dp_allocated p + length ks = dp_max p"
    and "\<forall>k \<in> set ks. \<exists>e. dma_allocate k (dp_buffer_size p) = Err e"
  shows "dp_acquire kalloc (snd (acquire_each ks p)) = (Err OutOfMemory, snd (acquire_each ks p))"
  using acquire_failing[of p ks] assms by (simp add: dp_acquire_def)

definition refusing_kernel :: kernel_alloc where
  "refusing_kernel n = Err OutOfMemory"

definition giving_kernel :: kernel_alloc where
  "giving_kernel n = Ok (4096, 65536, \<lambda>_. 0)"

theorem pool_slots_lost_witness:
  "is_ok (dma_allocate giving_kernel 4096) \<and>
   fst (dp_acquire giving_kernel (snd (acquire_each [refusing_kernel, refusing_kernel] (dp_new 4096 2)))) = Err OutOfMemory"
proof -
  have "dma_allocate refusing_kernel 4096 = Err OutOfMemory" "is_ok (dma_allocate giving_kernel 4096)"
    by (simp_all add: dma_allocate_def allocate_aligned_def chk_add_def Let_def refusing_kernel_def giving_kernel_def)
  moreover from this pool_slots_lost[of "dp_new 4096 2" "[refusing_kernel, refusing_kernel]" giving_kernel]
  have "dp_acquire giving_kernel (snd (acquire_each [refusing_kernel, refusing_kernel] (dp_new 4096 2))) =
    (Err OutOfMemory, snd (acquire_each [refusing_kernel, refusing_kernel] (dp_new 4096 2)))"
    by (simp add: dp_new_def)
  ultimately show ?thesis by simp
qed

text \<open>The table a device reads is the list of descriptors, with the flag \<open>LAST\<close> on the last one.\<close>

lemma hw_table_contents:
  assumes "sl_table l = None" and "sl_prepare_hw_table kalloc l = (Ok a, l')" and "i < length (sl_descriptors l)"
  shows "\<exists>r. sl_table l' = Some r \<and> dr_phys r = a \<and> 16 * length (sl_descriptors l) \<le> dr_size r \<and>
    sg_read (dr_mem r) i = (let d = sl_descriptors l ! i
       in if Suc i = length (sl_descriptors l) then d\<lparr>sg_flags := sg_flags d OR SG_FLAG_LAST\<rparr> else d)"
proof -
  let ?ds = "sl_descriptors l"
  from assms(3) have ne: "?ds \<noteq> []" by auto
  from assms(1,2) ne obtain r where r: "dma_allocate kalloc (16 * length ?ds) = Ok r" and a: "a = dr_phys r"
    and l': "l' = l\<lparr>sl_table := Some (r\<lparr>dr_mem := mem_write (16 * (length ?ds - 1) + 12) (le_bytes 4 (unat (sg_flags (last ?ds) OR SG_FLAG_LAST)))
      (mem_write 0 (concat (map sg_bytes ?ds)) (dr_mem r))\<rparr>)\<rparr>"
    by (auto simp: sl_prepare_hw_table_def Let_def chk_simps mult.commute split: res.splits)
  let ?m = "mem_write 0 (concat (map sg_bytes ?ds)) (dr_mem r)"
  let ?v = "sg_flags (last ?ds) OR SG_FLAG_LAST"
  let ?m' = "mem_write (16 * (length ?ds - 1) + 12) (le_bytes 4 (unat ?v)) ?m"
  have old: "mem_read ?m (16 * i) 16 = sg_bytes (?ds ! i)" using mem_read_sg_table[OF assms(3), of 0] by simp
  have "sg_read ?m' i = (let d = ?ds ! i in if Suc i = length ?ds then d\<lparr>sg_flags := sg_flags d OR SG_FLAG_LAST\<rparr> else d)"
  proof (cases "Suc i = length ?ds")
    case True
    then have i: "i = length ?ds - 1" by simp
    then have l: "last ?ds = ?ds ! i" using ne by (simp add: last_conv_nth)
    have "unat ?v mod 2 ^ 32 = unat ?v" using unsigned_less[of ?v, where ?'a = nat] by simp
    then have "le_value (mem_read ?m' (16 * i + 12) 4) = unat ?v"
      using mem_read_write_same[of "16 * i + 12" "le_bytes 4 (unat ?v)" ?m] by (simp add: i le_value_bytes)
    moreover have "mem_read ?m' (16 * i) 8 = mem_read ?m (16 * i) 8" "mem_read ?m' (16 * i + 8) 4 = mem_read ?m (16 * i + 8) 4"
      by (simp_all add: i mem_read_write_other)
    ultimately have "sg_read ?m' i = (sg_read ?m i)\<lparr>sg_flags := ?v\<rparr>" by (simp add: sg_read_def)
    then show ?thesis using True l sg_read_bytes[OF old] by (simp add: Let_def)
  next
    case False
    then have "mem_read ?m' (16 * i) 16 = mem_read ?m (16 * i) 16" using assms(3) by (intro mem_read_write_other) auto
    then show ?thesis using False old sg_read_bytes[of ?m' i "?ds ! i"] by (simp add: Let_def)
  qed
  with dma_allocate_size[OF r] a l' show ?thesis by simp
qed

end
