(* ===== verification/Ring.thy ===== *)
theory Ring
  imports Dma "HOL-Library.Multiset"
begin

text \<open>
  The descriptor ring between a driver and a device: \<open>libdriver/src/ring.rs\<close>. The descriptor table, the available ring and the used
  ring are bytes of one DMA region, at the offsets the code computes; descriptor indices are \<open>u16\<close>, and the
  running indices of both rings wrap around. The device side, which is hardware, is modelled from its part of the
  protocol: it takes entries of the available ring in order and appends entries to the used ring.
\<close>

section \<open>Data\<close>

record descriptor =
  de_addr :: u64
  de_len :: u32
  de_flags :: u16
  de_next :: u16

definition FLAG_NEXT :: u16 where "FLAG_NEXT = 1"
definition FLAG_WRITE :: u16 where "FLAG_WRITE = 2"
definition FLAG_INDIRECT :: u16 where "FLAG_INDIRECT = 4"

definition descriptor_new :: "u64 \<Rightarrow> u32 \<Rightarrow> descriptor" where
  "descriptor_new a n = \<lparr>de_addr = a, de_len = n, de_flags = 0, de_next = 0\<rparr>"

definition with_flags :: "u16 \<Rightarrow> descriptor \<Rightarrow> descriptor" where
  "with_flags f d = d\<lparr>de_flags := f\<rparr>"

definition with_next :: "u16 \<Rightarrow> descriptor \<Rightarrow> descriptor" where
  "with_next n d = d\<lparr>de_flags := de_flags d OR FLAG_NEXT, de_next := n\<rparr>"

record used_elem =
  ue_id :: u32
  ue_len :: u32

record ring_buffer =
  rb_region :: dma_region
  rb_size :: u16
  rb_free_head :: u16
  rb_free_count :: u16
  rb_last_used_idx :: u16
  rb_desc_offset :: nat
  rb_avail_offset :: nat
  rb_used_offset :: nat

section \<open>Access to the region\<close>

definition mem_u16 :: "(nat \<Rightarrow> u8) \<Rightarrow> nat \<Rightarrow> u16" where
  "mem_u16 m a = word_of_nat (le_value (mem_read m a 2))"

definition read_desc :: "(nat \<Rightarrow> u8) \<Rightarrow> nat \<Rightarrow> descriptor" where
  "read_desc m a =
     \<lparr>de_addr = word_of_nat (mem_u64 m a), de_len = word_of_nat (mem_u32 m (a + 8)), de_flags = mem_u16 m (a + 12),
      de_next = mem_u16 m (a + 14)\<rparr>"

definition desc_bytes :: "descriptor \<Rightarrow> u8 list" where
  "desc_bytes d = le_bytes 8 (unat (de_addr d)) @ le_bytes 4 (unat (de_len d)) @ le_bytes 2 (unat (de_flags d)) @
     le_bytes 2 (unat (de_next d))"

abbreviation rb_mem :: "ring_buffer \<Rightarrow> nat \<Rightarrow> u8" where
  "rb_mem r \<equiv> dr_mem (rb_region r)"

definition store :: "nat \<Rightarrow> u8 list \<Rightarrow> ring_buffer \<Rightarrow> ring_buffer" where
  "store a bs r = r\<lparr>rb_region := (rb_region r)\<lparr>dr_mem := mem_write a bs (rb_mem r)\<rparr>\<rparr>"

definition desc_addr :: "ring_buffer \<Rightarrow> u16 \<Rightarrow> nat" where
  "desc_addr r i = rb_desc_offset r + 16 * unat i"

definition desc :: "ring_buffer \<Rightarrow> u16 \<Rightarrow> descriptor" where
  "desc r i = read_desc (rb_mem r) (desc_addr r i)"

definition set_desc :: "u16 \<Rightarrow> descriptor \<Rightarrow> ring_buffer \<Rightarrow> ring_buffer" where
  "set_desc i d r = store (desc_addr r i) (desc_bytes d) r"

definition set_desc_next :: "u16 \<Rightarrow> u16 \<Rightarrow> ring_buffer \<Rightarrow> ring_buffer" where
  "set_desc_next i v r = store (desc_addr r i + 14) (le_bytes 2 (unat v)) r"

definition avail_idx :: "ring_buffer \<Rightarrow> u16" where
  "avail_idx r = mem_u16 (rb_mem r) (rb_avail_offset r + 2)"

definition avail_ring :: "ring_buffer \<Rightarrow> nat \<Rightarrow> u16" where
  "avail_ring r k = mem_u16 (rb_mem r) (rb_avail_offset r + 4 + 2 * k)"

definition used_idx :: "ring_buffer \<Rightarrow> u16" where
  "used_idx r = mem_u16 (rb_mem r) (rb_used_offset r + 2)"

definition used_ring :: "ring_buffer \<Rightarrow> nat \<Rightarrow> used_elem" where
  "used_ring r k =
     \<lparr>ue_id = word_of_nat (mem_u32 (rb_mem r) (rb_used_offset r + 4 + 8 * k)),
      ue_len = word_of_nat (mem_u32 (rb_mem r) (rb_used_offset r + 4 + 8 * k + 4))\<rparr>"

section \<open>Operations\<close>

definition init_free_list :: "ring_buffer \<Rightarrow> ring_buffer" where
  "init_free_list r =
     set_desc_next (rb_size r - 1) 0xFFFF
       (fold (\<lambda>i. set_desc_next (word_of_nat i) (word_of_nat (i + 1))) [0..<unat (rb_size r - 1)] r)"

definition is_power_of_two :: "u16 \<Rightarrow> bool" where
  "is_power_of_two n \<longleftrightarrow> (\<exists>k \<in> {0..<16}. unat n = 2 ^ k)"

definition rb_new :: "kernel_alloc \<Rightarrow> u16 \<Rightarrow> (driver_error, ring_buffer) res" where
  "rb_new kalloc n =
     (if n = 0 \<or> \<not> is_power_of_two n then Err InvalidArgument
      else let desc_size = unat n * 16;
               avail_size = 4 + unat n * 2 + 2;
               used_size = 4 + unat n * 8 + 2;
               avail_offset = desc_size;
               used_offset = and_not (avail_offset + avail_size + 4095) 4095;
               total_size = used_offset + used_size
           in bind_res (dma_allocate kalloc total_size) (\<lambda>region.
                Ok (init_free_list
                      \<lparr>rb_region = dr_zero region, rb_size = n, rb_free_head = 0, rb_free_count = n,
                       rb_last_used_idx = 0, rb_desc_offset = 0, rb_avail_offset = avail_offset,
                       rb_used_offset = used_offset\<rparr>)))"

definition alloc_desc :: "ring_buffer \<Rightarrow> u16 option \<times> ring_buffer" where
  "alloc_desc r =
     (if rb_free_count r = 0 then (None, r)
      else let idx = rb_free_head r
           in (Some idx, r\<lparr>rb_free_head := de_next (desc r idx), rb_free_count := rb_free_count r - 1\<rparr>))"

definition free_desc :: "u16 \<Rightarrow> ring_buffer \<Rightarrow> (driver_error, ring_buffer) res" where
  "free_desc idx r =
     (let r1 = set_desc_next idx (rb_free_head r) r
      in if rb_free_count r = 0xFFFF then Panic
         else Ok (r1\<lparr>rb_free_head := idx, rb_free_count := rb_free_count r + 1\<rparr>))"

lemma free_desc_count: "free_desc i r = Ok r' \<Longrightarrow> unat (rb_free_count r') = Suc (unat (rb_free_count r))"
proof -
  assume "free_desc i r = Ok r'"
  then have "rb_free_count r \<noteq> 0xFFFF" "rb_free_count r' = rb_free_count r + 1"
    by (auto simp: free_desc_def Let_def split: if_splits)
  moreover have "1 + rb_free_count r \<noteq> 0" if "rb_free_count r \<noteq> - 1"
    using that by (metis add.commute eq_neg_iff_add_eq_0)
  moreover have "(0xFFFF :: u16) = - 1" by simp
  ultimately show ?thesis using unatSuc[of "rb_free_count r"] by (simp add: add.commute)
qed

function free_chain :: "u16 \<Rightarrow> ring_buffer \<Rightarrow> (driver_error, ring_buffer) res" where
  "free_chain idx r =
     (case free_desc idx r of
        Ok r' \<Rightarrow> if de_flags (desc r idx) AND FLAG_NEXT = 0 then Ok r' else free_chain (de_next (desc r idx)) r'
      | Err e \<Rightarrow> Err e
      | Panic \<Rightarrow> Panic)"
  by pat_completeness auto
termination
proof (relation "measure (\<lambda>(i, r). 65536 - unat (rb_free_count r))", goal_cases)
  case (2 idx r r')
  have "unat (rb_free_count r') < 65536" using unsigned_less[of "rb_free_count r'", where ?'a = nat] by simp
  with free_desc_count[OF 2(1)] show ?case by simp
qed simp

declare free_chain.simps [simp del]

definition push_avail :: "u16 \<Rightarrow> ring_buffer \<Rightarrow> ring_buffer" where
  "push_avail head r =
     (let i = avail_idx r;
          r1 = store (rb_avail_offset r + 4 + 2 * (unat i mod unat (rb_size r))) (le_bytes 2 (unat head)) r
      in store (rb_avail_offset r + 2) (le_bytes 2 (unat (i + 1))) r1)"

definition pop_used :: "ring_buffer \<Rightarrow> used_elem option \<times> ring_buffer" where
  "pop_used r =
     (if rb_last_used_idx r = used_idx r then (None, r)
      else (Some (used_ring r (unat (rb_last_used_idx r) mod unat (rb_size r))),
            r\<lparr>rb_last_used_idx := rb_last_used_idx r + 1\<rparr>))"

definition has_used :: "ring_buffer \<Rightarrow> bool" where
  "has_used r \<longleftrightarrow> rb_last_used_idx r \<noteq> used_idx r"

definition desc_phys :: "ring_buffer \<Rightarrow> phys_addr" where
  "desc_phys r = dr_phys (rb_region r)"

definition avail_phys :: "ring_buffer \<Rightarrow> (driver_error, phys_addr) res" where
  "avail_phys r = phys_add (dr_phys (rb_region r)) (rb_avail_offset r)"

definition used_phys :: "ring_buffer \<Rightarrow> (driver_error, phys_addr) res" where
  "used_phys r = phys_add (dr_phys (rb_region r)) (rb_used_offset r)"

type_synonym buffer = "u64 \<times> u32 \<times> bool"

definition add_buffer :: "buffer \<Rightarrow> ring_buffer \<Rightarrow> u16 option \<times> ring_buffer" where
  "add_buffer b r =
     (case alloc_desc r of
        (None, r1) \<Rightarrow> (None, r1)
      | (Some idx, r1) \<Rightarrow>
          (case b of (a, n, w) \<Rightarrow>
             (Some idx, push_avail idx
                (set_desc idx \<lparr>de_addr = a, de_len = n, de_flags = (if w then 0 OR FLAG_WRITE else 0), de_next = 0\<rparr> r1))))"

text \<open>The loop of \<open>add_buffer_chain\<close>, with the head of the chain and the previous index as its variables.\<close>

fun chain_loop :: "buffer list \<Rightarrow> u16 option \<Rightarrow> u16 option \<Rightarrow> ring_buffer \<Rightarrow> u16 option \<times> ring_buffer" where
  "chain_loop [] head prev r = (head, r)"
| "chain_loop ((a, n, w) # bs) head prev r =
     (case alloc_desc r of
        (None, r1) \<Rightarrow> (None, r1)
      | (Some idx, r1) \<Rightarrow>
          (let f0 = (if w then 0 OR FLAG_WRITE else 0);
               flags = (if bs \<noteq> [] then f0 OR FLAG_NEXT else f0);
               r2 = set_desc idx \<lparr>de_addr = a, de_len = n, de_flags = flags, de_next = 0\<rparr> r1;
               r3 = (case prev of None \<Rightarrow> r2 | Some p \<Rightarrow> set_desc_next p idx r2)
           in chain_loop bs (case head of None \<Rightarrow> Some idx | Some h \<Rightarrow> Some h) (Some idx) r3))"

definition add_buffer_chain :: "buffer list \<Rightarrow> ring_buffer \<Rightarrow> u16 option \<times> ring_buffer" where
  "add_buffer_chain bs r =
     (if bs = [] \<or> length bs > unat (rb_free_count r) then (None, r)
      else case chain_loop bs None None r of
             (None, r1) \<Rightarrow> (None, r1)
           | (Some h, r1) \<Rightarrow> (Some h, push_avail h r1))"

section \<open>The three areas\<close>

text \<open>The layout \<open>new\<close> computes: the areas lie one after the other inside the region.\<close>

definition layout_ok :: "ring_buffer \<Rightarrow> bool" where
  "layout_ok r \<longleftrightarrow> is_power_of_two (rb_size r) \<and> rb_desc_offset r = 0 \<and> rb_avail_offset r = 16 * unat (rb_size r) \<and>
     rb_avail_offset r + 4 + 2 * unat (rb_size r) \<le> rb_used_offset r \<and>
     rb_used_offset r + 4 + 8 * unat (rb_size r) \<le> dr_size (rb_region r)"

lemma layout_size: "layout_ok r \<Longrightarrow> 0 < unat (rb_size r) \<and> unat (rb_size r) dvd 65536 \<and> unat (rb_size r) < 65536"
proof -
  assume "layout_ok r"
  then obtain k where "k < 16" "unat (rb_size r) = 2 ^ k" by (auto simp: layout_ok_def is_power_of_two_def)
  moreover have "(65536 :: nat) = 2 ^ 16" by simp
  moreover have "unat (rb_size r) < 65536" using unsigned_less[of "rb_size r", where ?'a = nat] by simp
  ultimately show ?thesis using le_imp_power_dvd[of k 16 "2 :: nat"] by simp
qed

lemma store_sel [simp]:
  "rb_size (store a bs r) = rb_size r" "rb_free_head (store a bs r) = rb_free_head r"
  "rb_free_count (store a bs r) = rb_free_count r" "rb_last_used_idx (store a bs r) = rb_last_used_idx r"
  "rb_desc_offset (store a bs r) = rb_desc_offset r" "rb_avail_offset (store a bs r) = rb_avail_offset r"
  "rb_used_offset (store a bs r) = rb_used_offset r" "rb_mem (store a bs r) = mem_write a bs (rb_mem r)"
  "dr_size (rb_region (store a bs r)) = dr_size (rb_region r)" "desc_addr (store a bs r) = desc_addr r"
  "layout_ok (store a bs r) \<longleftrightarrow> layout_ok r"
  by (simp_all add: store_def desc_addr_def fun_eq_iff layout_ok_def)

lemma mem_u16_other: "apart a 2 b (length bs) \<Longrightarrow> mem_u16 (mem_write b bs m) a = mem_u16 m a"
  by (simp add: mem_u16_def apart_def mem_read_write_other)

lemma mem_u32_other: "apart a 4 b (length bs) \<Longrightarrow> mem_u32 (mem_write b bs m) a = mem_u32 m a"
  by (simp add: mem_u32_def apart_def mem_read_write_other)

lemma mem_u64_other: "apart a 8 b (length bs) \<Longrightarrow> mem_u64 (mem_write b bs m) a = mem_u64 m a"
  by (simp add: mem_u64_def apart_def mem_read_write_other)

lemma mem_u16_same: "mem_u16 (mem_write a (le_bytes 2 (unat v)) m) a = v"
proof -
  have "unat v mod 65536 = unat v" using unsigned_less[of v, where ?'a = nat] by simp
  then show ?thesis using mem_read_write_same[of a "le_bytes 2 (unat v)" m] by (simp add: mem_u16_def le_value_bytes)
qed

lemma read_desc_other: "apart a 16 b (length bs) \<Longrightarrow> read_desc (mem_write b bs m) a = read_desc m a"
proof -
  assume "apart a 16 b (length bs)"
  then have "apart a 8 b (length bs)" "apart (a + 8) 4 b (length bs)" "apart (a + 12) 2 b (length bs)" "apart (a + 14) 2 b (length bs)"
    by (auto simp: apart_def)
  then show ?thesis by (simp add: read_desc_def mem_u16_other mem_u32_other mem_u64_other)
qed

lemma read_desc_bytes: "read_desc (mem_write a (desc_bytes d) m) a = d"
proof -
  have all: "mem_read (mem_write a (desc_bytes d) m) a 16 = desc_bytes d"
    using mem_read_write_same[of a "desc_bytes d" m] by (simp add: desc_bytes_def)
  note part = mem_read_part[OF all]
  have "mem_read (mem_write a (desc_bytes d) m) a 8 = le_bytes 8 (unat (de_addr d))"
    "mem_read (mem_write a (desc_bytes d) m) (a + 8) 4 = le_bytes 4 (unat (de_len d))"
    "mem_read (mem_write a (desc_bytes d) m) (a + 12) 2 = le_bytes 2 (unat (de_flags d))"
    "mem_read (mem_write a (desc_bytes d) m) (a + 14) 2 = le_bytes 2 (unat (de_next d))"
    using part[of 0 8] part[of 8 4] part[of 12 2] part[of 14 2] by (simp_all add: desc_bytes_def)
  moreover have "unat w mod 2 ^ 64 = unat w" for w :: u64 using unsigned_less[of w, where ?'a = nat] by simp
  moreover have "unat w mod 2 ^ 32 = unat w" for w :: u32 using unsigned_less[of w, where ?'a = nat] by simp
  moreover have "unat w mod 2 ^ 16 = unat w" for w :: u16 using unsigned_less[of w, where ?'a = nat] by simp
  ultimately show ?thesis by (simp add: read_desc_def mem_u16_def mem_u32_def mem_u64_def le_value_bytes)
qed

lemma length_desc_bytes [simp]: "length (desc_bytes d) = 16"
  by (simp add: desc_bytes_def)

lemma unat_u16_neq: "i \<noteq> j \<Longrightarrow> unat i < unat j \<or> unat j < unat i" for i j :: u16
  by (meson linorder_neqE_nat word_unat_eq_iff)

lemma desc_set: "desc (set_desc i d r) j = (if j = i then d else desc r j)"
proof (cases "j = i")
  case False
  then have "apart (desc_addr r j) 16 (desc_addr r i) 16" using unat_u16_neq[of i j] by (auto simp: apart_def desc_addr_def)
  with False show ?thesis by (simp add: desc_def set_desc_def read_desc_other)
qed (simp add: desc_def set_desc_def read_desc_bytes)

lemma desc_set_next: "desc (set_desc_next i v r) j = (if j = i then (desc r j)\<lparr>de_next := v\<rparr> else desc r j)"
proof (cases "j = i")
  case True
  have "apart (desc_addr r i) 8 (desc_addr r i + 14) 2" "apart (desc_addr r i + 8) 4 (desc_addr r i + 14) 2"
    "apart (desc_addr r i + 12) 2 (desc_addr r i + 14) 2" by (simp_all add: apart_def)
  with True show ?thesis
    by (simp add: desc_def set_desc_next_def read_desc_def mem_u16_other mem_u32_other mem_u64_other mem_u16_same)
next
  case False
  then have "apart (desc_addr r j) 16 (desc_addr r i + 14) 2" using unat_u16_neq[of i j] by (auto simp: apart_def desc_addr_def)
  with False show ?thesis by (simp add: desc_def set_desc_next_def read_desc_other)
qed

text \<open>A store inside one area leaves the other two alone.\<close>

definition in_desc :: "ring_buffer \<Rightarrow> nat \<Rightarrow> nat \<Rightarrow> bool" where
  "in_desc r a n \<longleftrightarrow> a + n \<le> rb_avail_offset r"

definition in_avail :: "ring_buffer \<Rightarrow> nat \<Rightarrow> nat \<Rightarrow> bool" where
  "in_avail r a n \<longleftrightarrow> rb_avail_offset r \<le> a \<and> a + n \<le> rb_used_offset r"

definition in_used :: "ring_buffer \<Rightarrow> nat \<Rightarrow> nat \<Rightarrow> bool" where
  "in_used r a n \<longleftrightarrow> rb_used_offset r \<le> a"

lemma avail_store_other:
  assumes "layout_ok r" and "in_desc r a (length bs) \<or> in_used r a (length bs)"
  shows "avail_idx (store a bs r) = avail_idx r" "k < unat (rb_size r) \<Longrightarrow> avail_ring (store a bs r) k = avail_ring r k"
  using assms by (auto simp: avail_idx_def avail_ring_def layout_ok_def in_desc_def in_used_def apart_def intro!: mem_u16_other)

lemma used_store_other:
  assumes "layout_ok r" and "in_desc r a (length bs) \<or> in_avail r a (length bs)"
  shows "used_idx (store a bs r) = used_idx r" "used_ring (store a bs r) k = used_ring r k"
  using assms by (auto simp: used_idx_def used_ring_def layout_ok_def in_desc_def in_avail_def apart_def mem_u16_other mem_u32_other)

lemma desc_store_other:
  assumes "layout_ok r" and "in_avail r a (length bs) \<or> in_used r a (length bs)" and "unat i < unat (rb_size r)"
  shows "desc (store a bs r) i = desc r i"
  using assms by (auto simp: desc_def desc_addr_def layout_ok_def in_avail_def in_used_def apart_def intro!: read_desc_other)

lemma in_desc_addr:
  "layout_ok r \<Longrightarrow> unat i < unat (rb_size r) \<Longrightarrow> in_desc r (desc_addr r i) 16"
  "layout_ok r \<Longrightarrow> unat i < unat (rb_size r) \<Longrightarrow> in_desc r (desc_addr r i + 14) 2"
  by (simp_all add: in_desc_def desc_addr_def layout_ok_def)

lemma set_desc_frame:
  assumes "layout_ok r" and "unat i < unat (rb_size r)"
  shows "avail_idx (set_desc i d r) = avail_idx r" "k < unat (rb_size r) \<Longrightarrow> avail_ring (set_desc i d r) k = avail_ring r k"
    "used_idx (set_desc i d r) = used_idx r" "used_ring (set_desc i d r) k = used_ring r k"
    "avail_idx (set_desc_next i v r) = avail_idx r" "k < unat (rb_size r) \<Longrightarrow> avail_ring (set_desc_next i v r) k = avail_ring r k"
    "used_idx (set_desc_next i v r) = used_idx r" "used_ring (set_desc_next i v r) k = used_ring r k"
  using assms in_desc_addr[OF assms] by (simp_all add: set_desc_def set_desc_next_def avail_store_other used_store_other)

lemma set_desc_sel [simp]:
  "rb_size (set_desc i d r) = rb_size r" "rb_free_head (set_desc i d r) = rb_free_head r" "rb_free_count (set_desc i d r) = rb_free_count r"
  "rb_last_used_idx (set_desc i d r) = rb_last_used_idx r" "layout_ok (set_desc i d r) = layout_ok r"
  "rb_size (set_desc_next i v r) = rb_size r" "rb_free_head (set_desc_next i v r) = rb_free_head r" "rb_free_count (set_desc_next i v r) = rb_free_count r"
  "rb_last_used_idx (set_desc_next i v r) = rb_last_used_idx r" "layout_ok (set_desc_next i v r) = layout_ok r"
  by (simp_all add: set_desc_def set_desc_next_def)

lemma field_upd_sel [simp]:
  "desc (r\<lparr>rb_free_head := h\<rparr>) = desc r" "desc (r\<lparr>rb_free_count := c\<rparr>) = desc r" "desc (r\<lparr>rb_last_used_idx := u\<rparr>) = desc r"
  "layout_ok (r\<lparr>rb_free_head := h\<rparr>) = layout_ok r" "layout_ok (r\<lparr>rb_free_count := c\<rparr>) = layout_ok r"
  "layout_ok (r\<lparr>rb_last_used_idx := u\<rparr>) = layout_ok r"
  "avail_idx (r\<lparr>rb_free_head := h\<rparr>) = avail_idx r" "avail_idx (r\<lparr>rb_free_count := c\<rparr>) = avail_idx r"
  "avail_idx (r\<lparr>rb_last_used_idx := u\<rparr>) = avail_idx r" "avail_ring (r\<lparr>rb_free_head := h\<rparr>) = avail_ring r"
  "avail_ring (r\<lparr>rb_free_count := c\<rparr>) = avail_ring r" "avail_ring (r\<lparr>rb_last_used_idx := u\<rparr>) = avail_ring r"
  "used_idx (r\<lparr>rb_free_head := h\<rparr>) = used_idx r" "used_idx (r\<lparr>rb_free_count := c\<rparr>) = used_idx r"
  "used_idx (r\<lparr>rb_last_used_idx := u\<rparr>) = used_idx r" "used_ring (r\<lparr>rb_free_head := h\<rparr>) = used_ring r"
  "used_ring (r\<lparr>rb_free_count := c\<rparr>) = used_ring r" "used_ring (r\<lparr>rb_last_used_idx := u\<rparr>) = used_ring r"
  by (simp_all add: desc_def desc_addr_def layout_ok_def avail_idx_def avail_ring_def used_idx_def used_ring_def fun_eq_iff)

lemma push_avail_sel [simp]:
  "rb_size (push_avail h r) = rb_size r" "rb_free_head (push_avail h r) = rb_free_head r" "rb_free_count (push_avail h r) = rb_free_count r"
  "rb_last_used_idx (push_avail h r) = rb_last_used_idx r" "layout_ok (push_avail h r) = layout_ok r"
  by (simp_all add: push_avail_def Let_def)

lemma push_avail_effect:
  assumes "layout_ok r"
  shows "avail_idx (push_avail h r) = avail_idx r + 1"
    "k < unat (rb_size r) \<Longrightarrow> avail_ring (push_avail h r) k = (if k = unat (avail_idx r) mod unat (rb_size r) then h else avail_ring r k)"
    "unat i < unat (rb_size r) \<Longrightarrow> desc (push_avail h r) i = desc r i"
    "used_idx (push_avail h r) = used_idx r" "used_ring (push_avail h r) k = used_ring r k"
proof -
  let ?k = "unat (avail_idx r) mod unat (rb_size r)"
  let ?r = "store (rb_avail_offset r + 4 + 2 * ?k) (le_bytes 2 (unat h)) r"
  have k: "?k < unat (rb_size r)" using layout_size[OF assms] by simp
  have push: "push_avail h r = store (rb_avail_offset r + 2) (le_bytes 2 (unat (avail_idx r + 1))) ?r"
    by (simp add: push_avail_def Let_def)
  have "layout_ok ?r" using assms by simp
  have in1: "in_avail r (rb_avail_offset r + 4 + 2 * ?k) 2" using k assms by (simp add: in_avail_def layout_ok_def)
  have in2: "in_avail ?r (rb_avail_offset r + 2) 2" using k assms by (simp add: in_avail_def layout_ok_def)
  show "avail_idx (push_avail h r) = avail_idx r + 1" by (simp add: push avail_idx_def mem_u16_same)
  show "k < unat (rb_size r) \<Longrightarrow> avail_ring (push_avail h r) k = (if k = ?k then h else avail_ring r k)"
    by (cases "k < ?k"; cases "k = ?k") (auto simp: push avail_ring_def mem_u16_other mem_u16_same apart_def)
  show "unat i < unat (rb_size r) \<Longrightarrow> desc (push_avail h r) i = desc r i"
    unfolding push using in1 in2 assms by (simp add: desc_store_other)
  show "used_idx (push_avail h r) = used_idx r" "used_ring (push_avail h r) k = used_ring r k"
    unfolding push using in1 in2 assms by (simp_all add: used_store_other)
qed

section \<open>Wrapping queues\<close>

text \<open>The entries between two running \<open>u16\<close> indices of a ring of \<open>n\<close> slots.\<close>

definition pending :: "(nat \<Rightarrow> 'a) \<Rightarrow> nat \<Rightarrow> u16 \<Rightarrow> u16 \<Rightarrow> 'a list" where
  "pending E n lo hi = map (\<lambda>j. E (unat (lo + word_of_nat j) mod n)) [0..<unat (hi - lo)]"

lemma length_pending [simp]: "length (pending E n lo hi) = unat (hi - lo)"
  by (simp add: pending_def)

lemma pending_empty [simp]: "pending E n lo lo = []"
  by (simp add: pending_def)

lemma wrap_mod:
  assumes "n dvd 65536"
  shows "unat ((lo :: u16) + word_of_nat j) mod n = (unat lo + j) mod n"
proof -
  have "unat (lo + word_of_nat j) = (unat lo + j) mod 65536"
    by (simp add: unat_word_ariths(1) unat_of_nat mod_simps)
  with assms show ?thesis by (simp add: mod_mod_cancel)
qed

lemma pending_pop:
  assumes "lo \<noteq> hi"
  shows "pending E n lo hi = E (unat lo mod n) # pending E n (lo + 1) hi"
proof -
  have "hi - lo \<noteq> 0" using assms by simp
  then have len: "unat (hi - lo) = Suc (unat (hi - (lo + 1)))"
    by (metis diff_diff_add unat_minus_one Suc_pred unat_gt_0 word_gt_0 One_nat_def)
  have "map (\<lambda>j. E (unat (lo + word_of_nat j) mod n)) [0..<Suc m] =
    E (unat lo mod n) # map (\<lambda>j. E (unat (lo + 1 + word_of_nat j) mod n)) [0..<m]" for m
    by (simp add: upt_conv_Cons map_Suc_upt[symmetric] o_def add.assoc del: upt_Suc)
  then show ?thesis unfolding pending_def len .
qed

lemma pending_push:
  assumes "n dvd 65536" and "n < 65536" and "unat (hi - lo) < n"
  shows "pending (E(unat hi mod n := v)) n lo (hi + 1) = pending E n lo hi @ [v]"
proof -
  let ?c = "unat (hi - lo)"
  have hi: "hi = lo + word_of_nat ?c" by simp
  have "hi + 1 - lo = 1 + (hi - lo)" by simp
  moreover have "1 + (hi - lo) \<noteq> 0"
  proof
    assume "1 + (hi - lo) = 0"
    then have "hi - lo = - 1" by (metis add.commute eq_neg_iff_add_eq_0)
    then have "?c = unat (- 1 :: u16)" by (simp only:)
    then have "?c = 65535" by (simp add: unsigned_minus_1_eq_mask mask_eq_exp_minus_1)
    with assms(2,3) show False by simp
  qed
  ultimately have len: "unat (hi + 1 - lo) = Suc ?c" using unatSuc[of "hi - lo"] by metis
  have slot: "unat (lo + word_of_nat j) mod n \<noteq> unat hi mod n" if "j < ?c" for j
  proof
    assume "unat (lo + word_of_nat j) mod n = unat hi mod n"
    then have "(unat lo + j) mod n = (unat lo + ?c) mod n"
      using wrap_mod[OF assms(1), of lo j] wrap_mod[OF assms(1), of lo ?c] hi by simp
    then have "n dvd ?c - j" using that mod_eq_dvd_iff_nat[of "unat lo + j" "unat lo + ?c" n] by (simp add: eq_commute)
    with that assms(3) show False using dvd_imp_le[of n "?c - j"] by simp
  qed
  have "map (\<lambda>j. (E(unat hi mod n := v)) (unat (lo + word_of_nat j) mod n)) [0..<?c] = map (\<lambda>j. E (unat (lo + word_of_nat j) mod n)) [0..<?c]"
    using slot by simp
  then show ?thesis by (simp add: pending_def len)
qed

section \<open>Free descriptors and chains\<close>

fun follow :: "(u16 \<Rightarrow> descriptor) \<Rightarrow> u16 \<Rightarrow> nat \<Rightarrow> u16 list" where
  "follow D h 0 = []"
| "follow D h (Suc n) = h # follow D (de_next (D h)) n"

definition free_list :: "ring_buffer \<Rightarrow> u16 list" where
  "free_list r = follow (desc r) (rb_free_head r) (unat (rb_free_count r))"

lemma length_follow [simp]: "length (follow D h n) = n"
  by (induction n arbitrary: h) simp_all

lemma follow_cong: "(\<And>i. i \<in> set (follow D h n) \<Longrightarrow> de_next (D' i) = de_next (D i)) \<Longrightarrow> follow D' h n = follow D h n"
proof (induction n arbitrary: h)
  case (Suc n)
  from Suc.prems[of h] have "de_next (D' h) = de_next (D h)" by simp
  with Suc show ?case by simp
qed simp

lemma free_list_cong:
  assumes "rb_free_head r' = rb_free_head r" and "rb_free_count r' = rb_free_count r"
    and "\<And>i. i \<in> set (free_list r) \<Longrightarrow> de_next (desc r' i) = de_next (desc r i)"
  shows "free_list r' = free_list r"
  using assms follow_cong[of "desc r" "rb_free_head r" "unat (rb_free_count r)" "desc r'"] by (simp add: free_list_def)

lemma length_free_list [simp]: "length (free_list r) = unat (rb_free_count r)"
  by (simp add: free_list_def)

text \<open>Everything but the descriptor table and the free list is the same.\<close>

definition same_rings :: "ring_buffer \<Rightarrow> ring_buffer \<Rightarrow> bool" where
  "same_rings r r' \<longleftrightarrow> rb_size r' = rb_size r \<and> rb_last_used_idx r' = rb_last_used_idx r \<and> layout_ok r' = layout_ok r \<and>
     avail_idx r' = avail_idx r \<and> (\<forall>k < unat (rb_size r). avail_ring r' k = avail_ring r k) \<and>
     used_idx r' = used_idx r \<and> (\<forall>k. used_ring r' k = used_ring r k)"

lemma same_rings_refl [simp]: "same_rings r r"
  by (simp add: same_rings_def)

lemma same_rings_trans: "same_rings r r1 \<Longrightarrow> same_rings r1 r2 \<Longrightarrow> same_rings r r2"
  by (auto simp: same_rings_def)

lemma same_rings_sets:
  assumes "layout_ok r" and "unat i < unat (rb_size r)"
  shows "same_rings r (set_desc i d r)" "same_rings r (set_desc_next i v r)"
  using assms by (simp_all add: same_rings_def set_desc_frame)

lemma same_rings_fields [simp]:
  "same_rings r (r\<lparr>rb_free_head := h\<rparr>)" "same_rings r (r\<lparr>rb_free_count := c\<rparr>)"
  by (simp_all add: same_rings_def)

lemma same_rings_both [simp]: "same_rings r (r\<lparr>rb_free_head := h, rb_free_count := c\<rparr>)"
  by (simp add: same_rings_def)

lemma alloc_desc_effect:
  assumes "free_list r = i # xs"
  shows "\<exists>r'. alloc_desc r = (Some i, r') \<and> free_list r' = xs \<and> desc r' = desc r \<and> same_rings r r' \<and>
    unat (rb_free_count r') = length xs"
proof -
  have n: "unat (rb_free_count r) = Suc (length xs)" using assms length_free_list[of r] by simp
  then have ne: "rb_free_count r \<noteq> 0" by auto
  from n assms have i: "i = rb_free_head r" "xs = follow (desc r) (de_next (desc r i)) (length xs)"
    by (auto simp: free_list_def)
  have c: "unat (rb_free_count r - 1) = length xs" using n unat_minus_one[OF ne] by simp
  let ?r = "r\<lparr>rb_free_head := de_next (desc r i), rb_free_count := rb_free_count r - 1\<rparr>"
  have "alloc_desc r = (Some i, ?r)" using ne i(1) by (simp add: alloc_desc_def Let_def)
  moreover have "free_list ?r = xs" using i(2) c by (simp add: free_list_def)
  ultimately show ?thesis using c by simp
qed

lemma free_desc_effect:
  assumes "layout_ok r" and "unat i < unat (rb_size r)" and "i \<notin> set (free_list r)" and "unat (rb_free_count r) < 65535"
  shows "\<exists>r'. free_desc i r = Ok r' \<and> free_list r' = i # free_list r \<and> same_rings r r' \<and>
    (\<forall>j. j \<noteq> i \<longrightarrow> desc r' j = desc r j)"
proof -
  let ?r = "set_desc_next i (rb_free_head r) r"
  let ?r' = "?r\<lparr>rb_free_head := i, rb_free_count := rb_free_count r + 1\<rparr>"
  have "rb_free_count r \<noteq> 0xFFFF" using assms(4) by auto
  then have ok: "free_desc i r = Ok ?r'" by (simp add: free_desc_def Let_def)
  have same: "follow (desc ?r) (rb_free_head r) (unat (rb_free_count r)) = free_list r"
    unfolding free_list_def by (rule follow_cong) (use assms(3) in \<open>auto simp: desc_set_next free_list_def\<close>)
  have "unat (rb_free_count r + 1) = Suc (unat (rb_free_count r))" using free_desc_count[OF ok] by simp
  then have "free_list ?r' = i # free_list r" using same by (simp add: free_list_def desc_set_next)
  moreover have "same_rings r ?r'"
    using same_rings_trans[OF same_rings_sets(2)[OF assms(1,2)] same_rings_both] .
  ultimately show ?thesis using ok by (auto simp: desc_set_next)
qed

subsection \<open>Chains\<close>

fun linked :: "(u16 \<Rightarrow> descriptor) \<Rightarrow> u16 list \<Rightarrow> bool" where
  "linked D [] \<longleftrightarrow> False"
| "linked D [x] \<longleftrightarrow> de_flags (D x) AND FLAG_NEXT = 0"
| "linked D (x # y # xs) \<longleftrightarrow> de_flags (D x) AND FLAG_NEXT \<noteq> 0 \<and> de_next (D x) = y \<and> linked D (y # xs)"

lemma linked_cong: "(\<And>i. i \<in> set xs \<Longrightarrow> D' i = D i) \<Longrightarrow> linked D' xs = linked D xs"
  by (induction D' xs rule: linked.induct) auto

lemma free_chain_effect:
  assumes "linked (desc r) xs" and "layout_ok r" and "distinct (xs @ free_list r)"
    and "\<forall>i \<in> set xs. unat i < unat (rb_size r)" and "length xs + unat (rb_free_count r) \<le> 65535"
  shows "\<exists>r'. free_chain (hd xs) r = Ok r' \<and> free_list r' = rev xs @ free_list r \<and> same_rings r r' \<and>
    (\<forall>j. j \<notin> set xs \<longrightarrow> desc r' j = desc r j)"
  using assms
proof (induction xs arbitrary: r)
  case (Cons x xs)
  then obtain r1 where r1: "free_desc x r = Ok r1" "free_list r1 = x # free_list r" "same_rings r r1"
    "\<And>j. j \<noteq> x \<Longrightarrow> desc r1 j = desc r j"
    using free_desc_effect[of r x] by auto
  show ?case
  proof (cases xs)
    case Nil
    with r1 Cons.prems(1) show ?thesis by (auto simp: free_chain.simps[of x r])
  next
    case (Cons y ys)
    have nx: "de_flags (desc r x) AND FLAG_NEXT \<noteq> 0" "de_next (desc r x) = hd xs" "linked (desc r) xs"
      using Cons Cons.prems(1) by auto
    have "x \<notin> set xs" using Cons.prems(3) by simp
    then have "desc r1 i = desc r i" if "i \<in> set xs" for i using that r1(4) by metis
    then have "linked (desc r1) xs" using nx(3) linked_cong[of xs "desc r1" "desc r"] by blast
    moreover have "layout_ok r1" "rb_size r1 = rb_size r" using r1(3) Cons.prems(2) by (auto simp: same_rings_def)
    moreover have "unat (rb_free_count r1) = Suc (unat (rb_free_count r))" using free_desc_count[OF r1(1)] .
    ultimately have "\<exists>r'. free_chain (hd xs) r1 = Ok r' \<and> free_list r' = rev xs @ free_list r1 \<and> same_rings r1 r' \<and>
      (\<forall>j. j \<notin> set xs \<longrightarrow> desc r' j = desc r1 j)"
      using Cons.prems r1(2) by (intro Cons.IH) auto
    then obtain r' where r': "free_chain (hd xs) r1 = Ok r'" "free_list r' = rev xs @ free_list r1" "same_rings r1 r'"
      "\<And>j. j \<notin> set xs \<Longrightarrow> desc r' j = desc r1 j" by blast
    have "free_chain x r = Ok r'" using r1(1) nx r'(1) by (simp add: free_chain.simps[of x r])
    then show ?thesis using r1 r' same_rings_trans by auto
  qed
qed simp

text \<open>What \<open>add_buffer_chain\<close> leaves in the descriptor table.\<close>

definition buffer_desc :: "buffer \<Rightarrow> bool \<Rightarrow> u16 \<Rightarrow> descriptor" where
  "buffer_desc b go_on nx =
     (case b of (a, n, w) \<Rightarrow>
        \<lparr>de_addr = a, de_len = n, de_flags = (if w then FLAG_WRITE else 0) OR (if go_on then FLAG_NEXT else 0), de_next = nx\<rparr>)"

fun holds_chain :: "(u16 \<Rightarrow> descriptor) \<Rightarrow> u16 list \<Rightarrow> buffer list \<Rightarrow> bool" where
  "holds_chain D [x] [b] \<longleftrightarrow> D x = buffer_desc b False 0"
| "holds_chain D (x # y # xs) (b # c # bs) \<longleftrightarrow> D x = buffer_desc b True y \<and> holds_chain D (y # xs) (c # bs)"
| "holds_chain D _ _ \<longleftrightarrow> False"

lemma buffer_desc_flags: "de_flags (buffer_desc b go_on nx) AND FLAG_NEXT = 0 \<longleftrightarrow> \<not> go_on"
  by (cases b) (simp add: buffer_desc_def FLAG_NEXT_def FLAG_WRITE_def)

lemma buffer_desc_next [simp]: "de_next (buffer_desc b go_on nx) = nx" "(buffer_desc b go_on nx)\<lparr>de_next := v\<rparr> = buffer_desc b go_on v"
  by (cases b; simp add: buffer_desc_def)+

lemma holds_linked: "holds_chain D xs bs \<Longrightarrow> linked D xs"
  by (induction D xs bs rule: holds_chain.induct) (auto simp: buffer_desc_flags)

lemma holds_cong: "(\<And>i. i \<in> set xs \<Longrightarrow> D' i = D i) \<Longrightarrow> holds_chain D' xs bs = holds_chain D xs bs"
  by (induction D' xs bs rule: holds_chain.induct) auto

lemma chain_loop_effect:
  assumes "layout_ok r" and "free_list r = xs @ ys" and "length xs = length bs" and "bs \<noteq> []" and "distinct (xs @ ys)"
    and "\<forall>i \<in> set xs. unat i < unat (rb_size r)" and "\<forall>p. prev = Some p \<longrightarrow> unat p < unat (rb_size r) \<and> p \<notin> set (xs @ ys)"
  shows "\<exists>r'. chain_loop bs hd0 prev r = (Some (case hd0 of None \<Rightarrow> hd xs | Some h \<Rightarrow> h), r') \<and> free_list r' = ys \<and>
    same_rings r r' \<and> holds_chain (desc r') xs bs \<and>
    (\<forall>i. i \<notin> set xs \<longrightarrow> desc r' i = (if prev = Some i then (desc r i)\<lparr>de_next := hd xs\<rparr> else desc r i))"
  using assms
proof (induction bs arbitrary: hd0 prev r xs)
  case (Cons b bs)
  obtain a n w where b: "b = (a, n, w)" by (metis prod_cases3)
  from Cons.prems(3) obtain x xs' where xs: "xs = x # xs'" by (cases xs) auto
  from Cons.prems(2) xs obtain r1 where r1: "alloc_desc r = (Some x, r1)" "free_list r1 = xs' @ ys" "desc r1 = desc r" "same_rings r r1"
    using alloc_desc_effect[of r x "xs' @ ys"] by auto
  let ?d = "buffer_desc b (bs \<noteq> []) 0"
  let ?r2 = "set_desc x ?d r1"
  let ?r3 = "case prev of None \<Rightarrow> ?r2 | Some p \<Rightarrow> set_desc_next p x ?r2"
  have x: "unat x < unat (rb_size r)" "x \<notin> set (xs' @ ys)" using Cons.prems(5,6) xs by auto
  have lay: "layout_ok r1" "rb_size r1 = rb_size r" using r1(4) Cons.prems(1) by (auto simp: same_rings_def)
  have s2: "same_rings r ?r2" using same_rings_trans[OF r1(4) same_rings_sets(1)] lay x by simp
  have s3: "same_rings r ?r3" using Cons.prems(7) s2 same_rings_trans[OF s2 same_rings_sets(2)] lay
    by (auto split: option.splits)
  have d3: "desc ?r3 i = (if i = x then ?d else if prev = Some i then (desc r i)\<lparr>de_next := x\<rparr> else desc r i)" for i
    using Cons.prems(7) xs by (auto simp: desc_set desc_set_next r1(3) split: option.splits)
  have f3: "free_list ?r3 = xs' @ ys"
  proof -
    have "free_list ?r3 = free_list r1"
      by (rule free_list_cong) (use d3 x(2) r1(2,3) Cons.prems(7) xs in \<open>auto split: option.splits\<close>)
    with r1(2) show ?thesis by simp
  qed
  have step: "chain_loop (b # bs) hd0 prev r = chain_loop bs (Some (case hd0 of None \<Rightarrow> x | Some h \<Rightarrow> h)) (Some x) ?r3"
    using r1(1) by (simp add: b buffer_desc_def Let_def split: option.splits)
  show ?case
  proof (cases "bs = []")
    case True
    then have "xs' = []" using Cons.prems(3) xs by simp
    with True step f3 s3 d3 xs show ?thesis by (auto split: option.splits)
  next
    case False
    have "\<exists>r'. chain_loop bs (Some (case hd0 of None \<Rightarrow> x | Some h \<Rightarrow> h)) (Some x) ?r3 =
      (Some (case hd0 of None \<Rightarrow> x | Some h \<Rightarrow> h), r') \<and> free_list r' = ys \<and> same_rings ?r3 r' \<and> holds_chain (desc r') xs' bs \<and>
      (\<forall>i. i \<notin> set xs' \<longrightarrow> desc r' i = (if Some x = Some i then (desc ?r3 i)\<lparr>de_next := hd xs'\<rparr> else desc ?r3 i))"
      using Cons.IH[of ?r3 xs' "Some x" "Some (case hd0 of None \<Rightarrow> x | Some h \<Rightarrow> h)"] s3 f3 Cons.prems(1,3,5,6) xs x False
      by (simp add: same_rings_def)
    then obtain r' where r': "chain_loop (b # bs) hd0 prev r = (Some (case hd0 of None \<Rightarrow> x | Some h \<Rightarrow> h), r')" "free_list r' = ys"
      "same_rings ?r3 r'" "holds_chain (desc r') xs' bs"
      "\<And>i. i \<notin> set xs' \<Longrightarrow> desc r' i = (if i = x then (desc ?r3 i)\<lparr>de_next := hd xs'\<rparr> else desc ?r3 i)"
      unfolding step by auto
    from False Cons.prems(3) xs obtain y ys' c cs where yc: "xs' = y # ys'" "bs = c # cs" by (cases bs; cases xs') auto
    have "desc r' x = buffer_desc b True y" using r'(5)[of x] x(2) d3[of x] False yc by simp
    then have "holds_chain (desc r') xs (b # bs)" using r'(4) yc xs by simp
    moreover have "desc r' i = (if prev = Some i then (desc r i)\<lparr>de_next := hd xs\<rparr> else desc r i)" if "i \<notin> set xs" for i
      using that r'(5)[of i] d3[of i] xs by auto
    ultimately show ?thesis using r'(1-3) same_rings_trans[OF s3] xs by (cases hd0) auto
  qed
qed simp

section \<open>Driver and device together\<close>

record ring_sys =
  rs_ring :: ring_buffer
  rs_dev_avail :: u16
  rs_held :: "u16 list"

text \<open>The device appends an element to the used ring.\<close>

definition device_put :: "u16 \<Rightarrow> u32 \<Rightarrow> ring_buffer \<Rightarrow> ring_buffer" where
  "device_put h n r =
     (let i = used_idx r;
          r1 = store (rb_used_offset r + 4 + 8 * (unat i mod unat (rb_size r))) (le_bytes 4 (unat h) @ le_bytes 4 (unat n)) r
      in store (rb_used_offset r + 2) (le_bytes 2 (unat (i + 1))) r1)"

text \<open>The driver queues a chain, or reaps a completed one and frees it; the device takes the next available
  chain, or completes one it holds, in any order.\<close>

datatype ring_op = DriverAdd "buffer list" | DriverReap | DeviceTake | DeviceComplete u16 u32

fun ring_step :: "ring_op \<Rightarrow> ring_sys \<Rightarrow> (driver_error, ring_sys) res" where
  "ring_step (DriverAdd bs) s = Ok (s\<lparr>rs_ring := snd (add_buffer_chain bs (rs_ring s))\<rparr>)"
| "ring_step DriverReap s =
     (case pop_used (rs_ring s) of
        (None, r) \<Rightarrow> Ok s
      | (Some e, r) \<Rightarrow> bind_res (free_chain (ucast (ue_id e)) r) (\<lambda>r'. Ok (s\<lparr>rs_ring := r'\<rparr>)))"
| "ring_step DeviceTake s =
     (let r = rs_ring s
      in Ok (if rs_dev_avail s = avail_idx r then s
             else s\<lparr>rs_dev_avail := rs_dev_avail s + 1,
                    rs_held := rs_held s @ [avail_ring r (unat (rs_dev_avail s) mod unat (rb_size r))]\<rparr>))"
| "ring_step (DeviceComplete h n) s =
     Ok (if h \<in> set (rs_held s) then s\<lparr>rs_held := remove1 h (rs_held s), rs_ring := device_put h n (rs_ring s)\<rparr> else s)"

fun ring_run :: "ring_op list \<Rightarrow> ring_sys \<Rightarrow> (driver_error, ring_sys) res" where
  "ring_run [] s = Ok s"
| "ring_run (x # xs) s = bind_res (ring_step x s) (ring_run xs)"

definition avail_pending :: "ring_sys \<Rightarrow> u16 list" where
  "avail_pending s = pending (avail_ring (rs_ring s)) (unat (rb_size (rs_ring s))) (rs_dev_avail s) (avail_idx (rs_ring s))"

definition used_pending :: "ring_sys \<Rightarrow> u16 list" where
  "used_pending s = map (\<lambda>e. ucast (ue_id e))
     (pending (used_ring (rs_ring s)) (unat (rb_size (rs_ring s))) (rb_last_used_idx (rs_ring s)) (used_idx (rs_ring s)))"

text \<open>The heads of the chains in flight: queued, held by the device, or completed and not yet reaped.\<close>

definition in_flight :: "ring_sys \<Rightarrow> u16 list" where
  "in_flight s = avail_pending s @ rs_held s @ used_pending s"

text \<open>Every descriptor is free or in exactly one chain, and the chains are those of the heads in flight.\<close>

definition ring_inv :: "ring_sys \<Rightarrow> bool" where
  "ring_inv s \<longleftrightarrow> layout_ok (rs_ring s) \<and>
     (\<exists>cs. (\<forall>c \<in> set cs. linked (desc (rs_ring s)) c) \<and> mset (map hd cs) = mset (in_flight s) \<and>
        distinct (free_list (rs_ring s) @ concat cs) \<and>
        set (free_list (rs_ring s) @ concat cs) = {i. unat i < unat (rb_size (rs_ring s))})"

lemma ring_invI:
  assumes "layout_ok (rs_ring s)" and "\<And>c. c \<in> set cs \<Longrightarrow> linked (desc (rs_ring s)) c" and "mset (map hd cs) = mset (in_flight s)"
    and "distinct (free_list (rs_ring s) @ concat cs)"
    and "set (free_list (rs_ring s) @ concat cs) = {i. unat i < unat (rb_size (rs_ring s))}"
  shows "ring_inv s"
  unfolding ring_inv_def using assms by blast

lemma u16_below: "{i :: u16. unat i < n} = word_of_nat ` {..<n}" if "n \<le> 65536"
proof (intro set_eqI iffI)
  fix i :: u16 assume "i \<in> {i. unat i < n}"
  then show "i \<in> word_of_nat ` {..<n}" by (intro image_eqI[of _ _ "unat i"]) auto
qed (use that in \<open>auto simp: unat_of_nat\<close>)

lemma inj_u16: "inj_on (word_of_nat :: nat \<Rightarrow> u16) {..<n}" if "n \<le> 65536"
  by (rule inj_onI) (use that in \<open>auto simp: word_of_nat_eq_iff take_bit_eq_mod\<close>)

lemma card_u16_below: "card {i :: u16. unat i < n} = n" if "n \<le> 65536"
  using u16_below[OF that] inj_u16[OF that] by (simp add: card_image)

lemma chains_length: "(\<And>c. c \<in> set cs \<Longrightarrow> c \<noteq> []) \<Longrightarrow> length cs \<le> length (concat cs)"
proof (induction cs)
  case (Cons c cs)
  then have "c \<noteq> []" by simp
  then have "1 \<le> length c" by (cases c) auto
  moreover have "length cs \<le> length (concat cs)" using Cons by simp
  moreover have "length (concat (c # cs)) = length c + length (concat cs)" by simp
  ultimately show ?case by (simp only: list.size)
qed simp

lemma linked_ne: "linked D c \<Longrightarrow> c \<noteq> []"
  by auto

text \<open>The invariant in the form its clients use.\<close>

lemma ring_invE:
  assumes "ring_inv s"
  obtains cs where "layout_ok (rs_ring s)" "\<forall>c \<in> set cs. linked (desc (rs_ring s)) c" "mset (map hd cs) = mset (in_flight s)"
    "distinct (free_list (rs_ring s) @ concat cs)"
    "\<And>i. i \<in> set (free_list (rs_ring s) @ concat cs) \<longleftrightarrow> unat i < unat (rb_size (rs_ring s))"
    "unat (rb_free_count (rs_ring s)) + length (concat cs) = unat (rb_size (rs_ring s))" "length (in_flight s) \<le> length (concat cs)"
proof -
  from assms obtain cs where lay: "layout_ok (rs_ring s)" and cs: "\<forall>c \<in> set cs. linked (desc (rs_ring s)) c"
    "mset (map hd cs) = mset (in_flight s)" "distinct (free_list (rs_ring s) @ concat cs)"
    "set (free_list (rs_ring s) @ concat cs) = {i. unat i < unat (rb_size (rs_ring s))}"
    unfolding ring_inv_def by blast
  have "length (free_list (rs_ring s) @ concat cs) = card {i :: u16. unat i < unat (rb_size (rs_ring s))}"
    using distinct_card[OF cs(3)] cs(4) by simp
  also have "\<dots> = unat (rb_size (rs_ring s))" using layout_size[OF lay] by (intro card_u16_below) simp
  finally have "unat (rb_free_count (rs_ring s)) + length (concat cs) = unat (rb_size (rs_ring s))" by simp
  moreover have "length (in_flight s) = length cs" using arg_cong[OF cs(2), of size] by simp
  moreover have "length cs \<le> length (concat cs)" using cs(1) linked_ne by (intro chains_length) blast
  ultimately show ?thesis using that[OF lay cs(1-3)] cs(4) by auto
qed

lemma pending_cong: "0 < n \<Longrightarrow> (\<And>k. k < n \<Longrightarrow> E' k = E k) \<Longrightarrow> pending E' n lo hi = pending E n lo hi"
  by (simp add: pending_def)

lemma in_flight_same:
  assumes "layout_ok (rs_ring s)" and "same_rings (rs_ring s) r"
  shows "avail_pending (s\<lparr>rs_ring := r\<rparr>) = avail_pending s" "used_pending (s\<lparr>rs_ring := r\<rparr>) = used_pending s"
proof -
  have n: "0 < unat (rb_size (rs_ring s))" using layout_size[OF assms(1)] by simp
  show "avail_pending (s\<lparr>rs_ring := r\<rparr>) = avail_pending s"
    using assms(2) n by (auto simp: avail_pending_def same_rings_def intro!: pending_cong)
  have "used_ring r = used_ring (rs_ring s)" using assms(2) by (auto simp: same_rings_def)
  with assms(2) show "used_pending (s\<lparr>rs_ring := r\<rparr>) = used_pending s" by (simp add: used_pending_def same_rings_def)
qed

subsection \<open>Adding a chain\<close>

lemma add_chain_effect:
  assumes "ring_inv s" and "bs \<noteq> []" and "length bs \<le> unat (rb_free_count (rs_ring s))"
  shows "\<exists>xs r'. add_buffer_chain bs (rs_ring s) = (Some (hd xs), r') \<and> holds_chain (desc r') xs bs \<and>
    free_list (rs_ring s) = xs @ free_list r' \<and> layout_ok r' \<and> rb_size r' = rb_size (rs_ring s) \<and>
    (\<forall>i. i \<notin> set xs \<and> unat i < unat (rb_size r') \<longrightarrow> desc r' i = desc (rs_ring s) i) \<and>
    avail_pending (s\<lparr>rs_ring := r'\<rparr>) = avail_pending s @ [hd xs] \<and> used_pending (s\<lparr>rs_ring := r'\<rparr>) = used_pending s"
proof -
  let ?r = "rs_ring s"
  let ?xs = "take (length bs) (free_list ?r)" and ?ys = "drop (length bs) (free_list ?r)"
  from assms(1) obtain cs where inv: "layout_ok ?r" "distinct (free_list ?r @ concat cs)"
    "\<And>i. i \<in> set (free_list ?r @ concat cs) \<longleftrightarrow> unat i < unat (rb_size ?r)"
    "unat (rb_free_count ?r) + length (concat cs) = unat (rb_size ?r)" "length (in_flight s) \<le> length (concat cs)"
    using ring_invE[OF assms(1)] by metis
  have fl: "free_list ?r = ?xs @ ?ys" by simp
  have small: "\<forall>i \<in> set ?xs. unat i < unat (rb_size ?r)" using inv(3) by (auto dest: in_set_takeD)
  have "\<exists>r'. chain_loop bs None None ?r = (Some (case None of None \<Rightarrow> hd ?xs | Some h \<Rightarrow> h), r') \<and> free_list r' = ?ys \<and>
    same_rings ?r r' \<and> holds_chain (desc r') ?xs bs \<and>
    (\<forall>i. i \<notin> set ?xs \<longrightarrow> desc r' i = (if None = Some i then (desc ?r i)\<lparr>de_next := hd ?xs\<rparr> else desc ?r i))"
    by (rule chain_loop_effect[OF inv(1) fl]) (use assms(2,3) inv(2) small in auto)
  then obtain r1 where r1: "chain_loop bs None None ?r = (Some (hd ?xs), r1)" "free_list r1 = ?ys" "same_rings ?r r1"
    "holds_chain (desc r1) ?xs bs" "\<And>i. i \<notin> set ?xs \<Longrightarrow> desc r1 i = desc ?r i" by auto
  let ?h = "hd ?xs" let ?r' = "push_avail ?h r1"
  have lay: "layout_ok r1" "rb_size r1 = rb_size ?r" "avail_idx r1 = avail_idx ?r" using r1(3) inv(1) by (auto simp: same_rings_def)
  note push = push_avail_effect[OF lay(1)]
  have add: "add_buffer_chain bs ?r = (Some ?h, ?r')" using assms(2,3) r1(1) by (simp add: add_buffer_chain_def)
  have "free_list ?r' = ?ys"
  proof -
    have "unat i < unat (rb_size r1)" if "i \<in> set (free_list r1)" for i
      using that r1(2) inv(3)[of i] lay(2) by (auto dest!: in_set_dropD)
    with push(3) have "free_list ?r' = free_list r1" by (intro free_list_cong) simp_all
    with r1(2) show ?thesis by simp
  qed
  moreover have "holds_chain (desc ?r') ?xs bs" using r1(4) holds_cong[of ?xs "desc ?r'" "desc r1" bs] push(3) small lay(2) by auto
  moreover have "avail_pending (s\<lparr>rs_ring := ?r'\<rparr>) = avail_pending s @ [?h]"
  proof -
    have n: "0 < unat (rb_size ?r)" "unat (rb_size ?r) dvd 65536" "unat (rb_size ?r) < 65536" using layout_size[OF inv(1)] by auto
    have room: "unat (avail_idx ?r - rs_dev_avail s) < unat (rb_size ?r)"
      using inv(4,5) assms(2,3) by (cases bs) (auto simp: in_flight_def avail_pending_def)
    have "avail_pending (s\<lparr>rs_ring := ?r'\<rparr>) =
      pending ((avail_ring ?r)(unat (avail_idx ?r) mod unat (rb_size ?r) := ?h)) (unat (rb_size ?r)) (rs_dev_avail s) (avail_idx ?r + 1)"
      unfolding avail_pending_def using push(1,2) lay r1(3) n
      by (simp add: same_rings_def) (rule pending_cong; simp)
    with pending_push[OF n(2,3) room, where E = "avail_ring ?r"] show ?thesis by (simp add: avail_pending_def)
  qed
  moreover have "used_pending (s\<lparr>rs_ring := ?r'\<rparr>) = used_pending s"
    using push(4,5) r1(3) by (simp add: used_pending_def same_rings_def pending_def)
  ultimately show ?thesis using add fl lay push(3) r1(5) by (intro exI[of _ ?xs] exI[of _ ?r']) auto
qed

lemma add_inv:
  assumes "ring_inv s"
  shows "ring_inv (s\<lparr>rs_ring := snd (add_buffer_chain bs (rs_ring s))\<rparr>)"
proof (cases "bs = [] \<or> length bs > unat (rb_free_count (rs_ring s))")
  case True
  then have "snd (add_buffer_chain bs (rs_ring s)) = rs_ring s" by (auto simp: add_buffer_chain_def)
  with assms show ?thesis by simp
next
  case False
  from assms obtain cs where inv: "layout_ok (rs_ring s)" "\<forall>c \<in> set cs. linked (desc (rs_ring s)) c" "mset (map hd cs) = mset (in_flight s)"
    "distinct (free_list (rs_ring s) @ concat cs)" "\<And>i. i \<in> set (free_list (rs_ring s) @ concat cs) \<longleftrightarrow> unat i < unat (rb_size (rs_ring s))"
    using ring_invE[OF assms(1)] by metis
  from add_chain_effect[OF assms, of bs] False obtain xs r' where a: "add_buffer_chain bs (rs_ring s) = (Some (hd xs), r')"
    "holds_chain (desc r') xs bs" "free_list (rs_ring s) = xs @ free_list r'" "layout_ok r'" "rb_size r' = rb_size (rs_ring s)"
    "\<And>i. i \<notin> set xs \<Longrightarrow> unat i < unat (rb_size r') \<Longrightarrow> desc r' i = desc (rs_ring s) i"
    "avail_pending (s\<lparr>rs_ring := r'\<rparr>) = avail_pending s @ [hd xs]" "used_pending (s\<lparr>rs_ring := r'\<rparr>) = used_pending s" by auto
  have old: "linked (desc r') c" if "c \<in> set cs" for c
  proof -
    have "desc r' i = desc (rs_ring s) i" if "i \<in> set c" for i
    proof -
      have i: "i \<in> set (concat cs)" using that \<open>c \<in> set cs\<close> by auto
      with inv(4) a(3) have "i \<notin> set xs" by auto
      moreover have "unat i < unat (rb_size r')" using inv(5)[of i] i a(5) by simp
      ultimately show ?thesis by (rule a(6))
    qed
    with inv(2) that linked_cong[of c "desc r'" "desc (rs_ring s)"] show ?thesis by blast
  qed
  have "ring_inv (s\<lparr>rs_ring := r'\<rparr>)"
  proof (rule ring_invI[where cs = "xs # cs"])
    show "linked (desc (rs_ring (s\<lparr>rs_ring := r'\<rparr>))) c" if "c \<in> set (xs # cs)" for c
      using that old holds_linked[OF a(2)] by auto
    show "mset (map hd (xs # cs)) = mset (in_flight (s\<lparr>rs_ring := r'\<rparr>))"
      using inv(3) a(7,8) by (simp add: in_flight_def)
    show "distinct (free_list (rs_ring (s\<lparr>rs_ring := r'\<rparr>)) @ concat (xs # cs))" using inv(4) a(3) by auto
    show "set (free_list (rs_ring (s\<lparr>rs_ring := r'\<rparr>)) @ concat (xs # cs)) = {i. unat i < unat (rb_size (rs_ring (s\<lparr>rs_ring := r'\<rparr>)))}"
      using inv(5) a(3,5) by auto
  qed (use a(4) in simp)
  with a(1) show ?thesis by simp
qed

subsection \<open>The device\<close>

lemma device_put_effect:
  assumes "layout_ok r"
  shows "used_idx (device_put h n r) = used_idx r + 1"
    "k < unat (rb_size r) \<Longrightarrow> used_ring (device_put h n r) k =
       (if k = unat (used_idx r) mod unat (rb_size r) then \<lparr>ue_id = ucast h, ue_len = n\<rparr> else used_ring r k)"
    "unat i < unat (rb_size r) \<Longrightarrow> desc (device_put h n r) i = desc r i"
    "avail_idx (device_put h n r) = avail_idx r" "k < unat (rb_size r) \<Longrightarrow> avail_ring (device_put h n r) k = avail_ring r k"
    "rb_size (device_put h n r) = rb_size r" "rb_free_head (device_put h n r) = rb_free_head r"
    "rb_free_count (device_put h n r) = rb_free_count r" "rb_last_used_idx (device_put h n r) = rb_last_used_idx r"
    "layout_ok (device_put h n r)"
proof -
  let ?k = "unat (used_idx r) mod unat (rb_size r)"
  let ?b = "le_bytes 4 (unat h) @ le_bytes 4 (unat n)"
  let ?r = "store (rb_used_offset r + 4 + 8 * ?k) ?b r"
  have put: "device_put h n r = store (rb_used_offset r + 2) (le_bytes 2 (unat (used_idx r + 1))) ?r"
    by (simp add: device_put_def Let_def)
  have in1: "in_used r (rb_used_offset r + 4 + 8 * ?k) 8" and in2: "in_used ?r (rb_used_offset r + 2) 2" by (simp_all add: in_used_def)
  show "used_idx (device_put h n r) = used_idx r + 1" by (simp add: put used_idx_def mem_u16_same)
  have "unat n mod 2 ^ 32 = unat n" using unsigned_less[of n, where ?'a = nat] by simp
  moreover have "unat h mod 2 ^ 32 = unat h" using unsigned_less[of h, where ?'a = nat] by simp
  ultimately have elem: "word_of_nat (mem_u32 (mem_write a ?b m) a) = (ucast h :: u32)" "word_of_nat (mem_u32 (mem_write a ?b m) (a + 4)) = n" for a m
  proof -
    assume v: "unat n mod 2 ^ 32 = unat n" "unat h mod 2 ^ 32 = unat h"
    have all: "mem_read (mem_write a ?b m) a 8 = ?b" using mem_read_write_same[of a ?b m] by simp
    have "mem_read (mem_write a ?b m) a 4 = le_bytes 4 (unat h)" "mem_read (mem_write a ?b m) (a + 4) 4 = le_bytes 4 (unat n)"
      using mem_read_part[OF all, of 0 4] mem_read_part[OF all, of 4 4] by simp_all
    with v show "word_of_nat (mem_u32 (mem_write a ?b m) a) = (ucast h :: u32)" "word_of_nat (mem_u32 (mem_write a ?b m) (a + 4)) = n"
      by (simp_all add: mem_u32_def le_value_bytes)
  qed
  show "k < unat (rb_size r) \<Longrightarrow> used_ring (device_put h n r) k =
    (if k = ?k then \<lparr>ue_id = ucast h, ue_len = n\<rparr> else used_ring r k)"
    using elem[of "rb_used_offset r + 4 + 8 * ?k" "rb_mem r"]
    by (cases "k < ?k"; cases "k = ?k") (auto simp: put used_ring_def mem_u32_other apart_def add.commute add.left_commute)
  show "unat i < unat (rb_size r) \<Longrightarrow> desc (device_put h n r) i = desc r i"
    unfolding put using in1 in2 assms by (simp add: desc_store_other)
  show "avail_idx (device_put h n r) = avail_idx r" "k < unat (rb_size r) \<Longrightarrow> avail_ring (device_put h n r) k = avail_ring r k"
    unfolding put using in1 in2 assms by (simp_all add: avail_store_other)
qed (use assms in \<open>simp_all add: device_put_def Let_def\<close>)

lemma ucast_up_down: "(ucast (ucast h :: u32) :: u16) = h" for h :: u16
  by (rule bit_word_eqI) (simp add: bit_unsigned_iff)

lemma take_inv:
  assumes "ring_inv s"
  shows "\<exists>s'. ring_step DeviceTake s = Ok s' \<and> ring_inv s'"
proof (cases "rs_dev_avail s = avail_idx (rs_ring s)")
  case False
  let ?h = "avail_ring (rs_ring s) (unat (rs_dev_avail s) mod unat (rb_size (rs_ring s)))"
  let ?s = "s\<lparr>rs_dev_avail := rs_dev_avail s + 1, rs_held := rs_held s @ [?h]\<rparr>"
  have "avail_pending s = ?h # avail_pending ?s" using pending_pop[OF False, where E = "avail_ring (rs_ring s)"] by (simp add: avail_pending_def)
  then have "mset (in_flight ?s) = mset (in_flight s)" by (simp add: in_flight_def used_pending_def)
  with assms have "ring_inv ?s" by (simp add: ring_inv_def)
  with False show ?thesis by (simp add: Let_def)
qed (use assms in simp)

lemma complete_inv:
  assumes "ring_inv s"
  shows "\<exists>s'. ring_step (DeviceComplete h n) s = Ok s' \<and> ring_inv s'"
proof (cases "h \<in> set (rs_held s)")
  case True
  let ?r = "rs_ring s" let ?r' = "device_put h n ?r"
  let ?s = "s\<lparr>rs_held := remove1 h (rs_held s), rs_ring := ?r'\<rparr>"
  from assms obtain cs where inv: "layout_ok ?r" "\<forall>c \<in> set cs. linked (desc ?r) c" "mset (map hd cs) = mset (in_flight s)"
    "distinct (free_list ?r @ concat cs)" "\<And>i. i \<in> set (free_list ?r @ concat cs) \<longleftrightarrow> unat i < unat (rb_size ?r)"
    "unat (rb_free_count ?r) + length (concat cs) = unat (rb_size ?r)" "length (in_flight s) \<le> length (concat cs)"
    using ring_invE[OF assms(1)] by metis
  note put = device_put_effect[OF inv(1), where h = h and n = n]
  have n: "0 < unat (rb_size ?r)" "unat (rb_size ?r) dvd 65536" "unat (rb_size ?r) < 65536" using layout_size[OF inv(1)] by auto
  have same: "desc ?r' i = desc ?r i" if "i \<in> set (free_list ?r @ concat cs)" for i using put(3) inv(5)[of i] that by simp
  have fl: "free_list ?r' = free_list ?r" by (rule free_list_cong) (use put(7,8) same in auto)
  have old: "linked (desc ?r') c" if "c \<in> set cs" for c
    using inv(2) that linked_cong[of c "desc ?r'" "desc ?r"] same by auto
  have avail: "avail_pending ?s = avail_pending s"
    using n put(4-6) by (auto simp: avail_pending_def intro!: pending_cong)
  moreover have "used_pending ?s = used_pending s @ [h]"
  proof -
    have "rs_held s \<noteq> []" using True by auto
    then have "length (used_pending s) < length (in_flight s)" by (simp add: in_flight_def)
    then have room: "unat (used_idx ?r - rb_last_used_idx ?r) < unat (rb_size ?r)" using inv(6,7) by (simp add: used_pending_def)
    have "pending (used_ring ?r') (unat (rb_size ?r)) (rb_last_used_idx ?r) (used_idx ?r + 1) =
      pending ((used_ring ?r)(unat (used_idx ?r) mod unat (rb_size ?r) := \<lparr>ue_id = ucast h, ue_len = n\<rparr>)) (unat (rb_size ?r)) (rb_last_used_idx ?r) (used_idx ?r + 1)"
      using n put(2) by (auto intro!: pending_cong)
    with pending_push[OF n(2,3) room, where E = "used_ring ?r"] show ?thesis using put(1,6,9) by (simp add: used_pending_def ucast_up_down)
  qed
  ultimately have "mset (map hd cs) = mset (in_flight ?s)" using inv(3) True by (simp add: in_flight_def)
  then have "ring_inv ?s"
    by (intro ring_invI[where cs = cs]) (use inv(4,5) put(6,10) fl old in \<open>auto simp: set_eq_iff\<close>)
  with True show ?thesis by simp
qed (use assms in simp)

subsection \<open>Reaping\<close>

lemma reap_inv:
  assumes "ring_inv s"
  shows "\<exists>s'. ring_step DriverReap s = Ok s' \<and> ring_inv s'"
proof (cases "rb_last_used_idx (rs_ring s) = used_idx (rs_ring s)")
  case False
  let ?r = "rs_ring s"
  let ?e = "used_ring ?r (unat (rb_last_used_idx ?r) mod unat (rb_size ?r))"
  let ?h = "ucast (ue_id ?e) :: u16"
  let ?r1 = "?r\<lparr>rb_last_used_idx := rb_last_used_idx ?r + 1\<rparr>"
  let ?s1 = "s\<lparr>rs_ring := ?r1\<rparr>"
  from assms obtain cs where inv: "layout_ok ?r" "\<forall>c \<in> set cs. linked (desc ?r) c" "mset (map hd cs) = mset (in_flight s)"
    "distinct (free_list ?r @ concat cs)" "\<And>i. i \<in> set (free_list ?r @ concat cs) \<longleftrightarrow> unat i < unat (rb_size ?r)"
    "unat (rb_free_count ?r) + length (concat cs) = unat (rb_size ?r)" "length (in_flight s) \<le> length (concat cs)"
    using ring_invE[OF assms(1)] by metis
  have fl1: "free_list ?r1 = free_list ?r" by (rule free_list_cong) simp_all
  have used: "used_pending s = ?h # used_pending ?s1" using pending_pop[OF False, where E = "used_ring ?r"] by (simp add: used_pending_def)
  have avail: "avail_pending ?s1 = avail_pending s" by (simp add: avail_pending_def)
  have "?h \<in># mset (map hd cs)" using inv(3) used by (simp add: in_flight_def)
  then obtain c where c: "c \<in> set cs" "hd c = ?h" by auto
  then obtain cs1 cs2 where cs: "cs = cs1 @ c # cs2" by (meson split_list)
  have pre: "linked (desc ?r1) c" "layout_ok ?r1" "distinct (c @ free_list ?r1)" "\<forall>i \<in> set c. unat i < unat (rb_size ?r1)"
    "length c + unat (rb_free_count ?r1) \<le> 65535"
    using inv(1,2,4,6) c(1) cs fl1 layout_size[OF inv(1)] inv(5) by auto
  from free_chain_effect[OF pre] obtain r' where r': "free_chain ?h ?r1 = Ok r'" "free_list r' = rev c @ free_list ?r" "same_rings ?r1 r'"
    "\<And>j. j \<notin> set c \<Longrightarrow> desc r' j = desc ?r j" using c(2) fl1 by auto
  have old: "linked (desc r') d" if "d \<in> set (cs1 @ cs2)" for d
  proof -
    have "set d \<inter> set c = {}" using inv(4) that cs by auto
    then have "desc r' i = desc ?r i" if "i \<in> set d" for i using that r'(4) by auto
    with inv(2) that cs linked_cong[of d "desc r'" "desc ?r"] show ?thesis by auto
  qed
  have fl: "mset (map hd (cs1 @ cs2)) = mset (in_flight (s\<lparr>rs_ring := r'\<rparr>))"
  proof -
    have "layout_ok (rs_ring ?s1)" "same_rings (rs_ring ?s1) r'" using pre(2) r'(3) by simp_all
    from in_flight_same[OF this] have "in_flight (s\<lparr>rs_ring := r'\<rparr>) = avail_pending s @ rs_held s @ used_pending ?s1"
      using avail by (simp add: in_flight_def)
    with inv(3) used c(2) cs show ?thesis by (simp add: in_flight_def)
  qed
  have "ring_inv (s\<lparr>rs_ring := r'\<rparr>)"
  proof (rule ring_invI[where cs = "cs1 @ cs2"])
    show "set (free_list (rs_ring (s\<lparr>rs_ring := r'\<rparr>)) @ concat (cs1 @ cs2)) = {i. unat i < unat (rb_size (rs_ring (s\<lparr>rs_ring := r'\<rparr>)))}"
    proof -
      have "set (free_list r' @ concat (cs1 @ cs2)) = set (free_list ?r @ concat cs)" using r'(2) cs by auto
      also have "\<dots> = {i. unat i < unat (rb_size ?r)}" unfolding set_eq_iff using inv(5) by simp
      finally show ?thesis using r'(3) by (simp add: same_rings_def)
    qed
    show "distinct (free_list (rs_ring (s\<lparr>rs_ring := r'\<rparr>)) @ concat (cs1 @ cs2))" using inv(4) r'(2) cs by auto
  qed (use old fl r'(3) pre(2) in \<open>auto simp: same_rings_def\<close>)
  with False r'(1) show ?thesis by (simp add: pop_used_def)
qed (use assms in \<open>simp add: pop_used_def\<close>)

lemma ring_step_inv: "ring_inv s \<Longrightarrow> \<exists>s'. ring_step x s = Ok s' \<and> ring_inv s'"
  using add_inv take_inv complete_inv reap_inv by (cases x) auto

lemma ring_run_inv: "ring_inv s \<Longrightarrow> \<exists>s'. ring_run xs s = Ok s' \<and> ring_inv s'"
proof (induction xs arbitrary: s)
  case (Cons x xs)
  then obtain s1 where "ring_step x s = Ok s1" "ring_inv s1" using ring_step_inv by blast
  with Cons show ?case by simp
qed simp

subsection \<open>A new ring\<close>

lemma links_fold:
  assumes "k \<le> 65535"
  shows "desc (fold (\<lambda>i. set_desc_next (word_of_nat i) (word_of_nat (i + 1))) [0..<k] r) i =
    (if unat i < k then (desc r i)\<lparr>de_next := i + 1\<rparr> else desc r i)"
  using assms
proof (induction k)
  case (Suc k)
  have "word_of_nat k = i \<longleftrightarrow> unat i = k" using Suc.prems by (auto simp: unat_of_nat)
  with Suc show ?case by (auto simp: desc_set_next less_Suc_eq)
qed simp

lemma fold_sel:
  assumes "layout_ok r" and "k \<le> unat (rb_size r)"
  shows "same_rings r (fold (\<lambda>i. set_desc_next (word_of_nat i) (word_of_nat (i + 1))) [0..<k] r)"
    "rb_free_head (fold (\<lambda>i. set_desc_next (word_of_nat i) (word_of_nat (i + 1))) [0..<k] r) = rb_free_head r"
    "rb_free_count (fold (\<lambda>i. set_desc_next (word_of_nat i) (word_of_nat (i + 1))) [0..<k] r) = rb_free_count r"
proof -
  have "k \<le> unat (rb_size r) \<Longrightarrow> same_rings r (fold (\<lambda>i. set_desc_next (word_of_nat i) (word_of_nat (i + 1))) [0..<k] r)"
  proof (induction k)
    case (Suc k)
    let ?f = "fold (\<lambda>i. set_desc_next (word_of_nat i) (word_of_nat (i + 1))) [0..<k] r"
    have "unat (word_of_nat k :: u16) < unat (rb_size ?f)" "layout_ok ?f"
      using Suc assms(1) layout_size[OF assms(1)] by (auto simp: same_rings_def unat_of_nat)
    with Suc show ?case using same_rings_trans same_rings_sets(2) by simp
  qed simp
  then show "same_rings r (fold (\<lambda>i. set_desc_next (word_of_nat i) (word_of_nat (i + 1))) [0..<k] r)" using assms(2) by blast
  show "rb_free_head (fold (\<lambda>i. set_desc_next (word_of_nat i) (word_of_nat (i + 1))) [0..<k] r) = rb_free_head r"
    "rb_free_count (fold (\<lambda>i. set_desc_next (word_of_nat i) (word_of_nat (i + 1))) [0..<k] r) = rb_free_count r"
    by (induction k) simp_all
qed

lemma follow_links:
  "(\<And>i. j \<le> unat i \<Longrightarrow> unat i < j + m - 1 \<Longrightarrow> de_next (D i) = i + 1) \<Longrightarrow> j + m \<le> 65535 \<Longrightarrow>
   follow D (word_of_nat j) m = map word_of_nat [j..<j + m]"
proof (induction m arbitrary: j)
  case (Suc m)
  have cons: "[j..<j + Suc m] = j # [Suc j..<Suc j + m]" using upt_conv_Cons[of j "j + Suc m"] by simp
  show ?case
  proof (cases m)
    case 0
    then show ?thesis by simp
  next
    case (Suc m')
    have "unat (word_of_nat j :: u16) = j" using Suc.prems(2) by (simp add: unat_of_nat)
    with Suc.prems(1)[of "word_of_nat j"] Suc have "de_next (D (word_of_nat j)) = word_of_nat (Suc j)" by (simp add: add.commute)
    moreover have "follow D (word_of_nat (Suc j)) m = map word_of_nat [Suc j..<Suc j + m]"
      using Suc.prems by (intro Suc.IH) auto
    ultimately show ?thesis unfolding cons by simp
  qed
qed simp

lemma mem_zero:
  assumes "a + k \<le> dr_size g"
  shows "mem_read (dr_mem (dr_zero g)) a k = replicate k 0"
  by (rule nth_equalityI) (use assms in \<open>auto simp: dr_zero_def mem_write_def\<close>)

lemma le_value_zeros [simp]: "le_value (replicate k 0) = 0"
  by (induction k) simp_all

definition ring_start :: "ring_buffer \<Rightarrow> ring_sys" where
  "ring_start r = \<lparr>rs_ring = r, rs_dev_avail = 0, rs_held = []\<rparr>"

abbreviation blank_ring :: "dma_region \<Rightarrow> u16 \<Rightarrow> nat \<Rightarrow> ring_buffer" where
  "blank_ring g n u \<equiv> \<lparr>rb_region = dr_zero g, rb_size = n, rb_free_head = 0, rb_free_count = n,
     rb_last_used_idx = 0, rb_desc_offset = 0, rb_avail_offset = unat n * 16, rb_used_offset = u\<rparr>"

lemma new_cases:
  assumes "rb_new kalloc n = Ok r"
  obtains g u where "0 < unat n" "r = init_free_list (blank_ring g n u)"
    "layout_ok (blank_ring g n u)"
proof -
  let ?x = "unat n * 16 + (4 + unat n * 2 + 2) + 4095"
  let ?u = "and_not ?x 4095"
  from assms obtain g where n: "n \<noteq> 0" "is_power_of_two n" and g: "dma_allocate kalloc (?u + (4 + unat n * 8 + 2)) = Ok g"
    and r: "r = init_free_list (blank_ring g n ?u)"
    by (auto simp: rb_new_def Let_def split: if_splits)
  have "unat n < 65536" using unsigned_less[of n, where ?'a = nat] by simp
  then have "and_not ?x (2 ^ 12 - 1) = ?x - ?x mod 2 ^ 12" by (intro and_not_mask) auto
  then have "?u = ?x - ?x mod 4096" by simp
  moreover have "?x mod 4096 < 4096" by simp
  ultimately have "unat n * 16 + 4 + 2 * unat n \<le> ?u" by linarith
  moreover have "?u + 4 + 8 * unat n \<le> dr_size g" using dma_allocate_size[OF g] by simp
  ultimately have "layout_ok (blank_ring g n ?u)"
    using n by (simp add: layout_ok_def dr_zero_def)
  moreover have "0 < unat n" using n(1) by (simp add: unat_gt_0)
  ultimately show ?thesis using r that by blast
qed

lemma new_inv:
  assumes "rb_new kalloc n = Ok r"
  shows "ring_inv (ring_start r) \<and> free_list r = map word_of_nat [0..<unat n] \<and> in_flight (ring_start r) = []"
proof -
  from assms obtain g u where n: "0 < unat n" and r: "r = init_free_list (blank_ring g n u)"
    and lay: "layout_ok (blank_ring g n u)" by (rule new_cases)
  let ?init = "blank_ring g n u"
  let ?m = "unat (n - 1)"
  let ?f = "fold (\<lambda>i. set_desc_next (word_of_nat i) (word_of_nat (i + 1))) [0..<?m] ?init"
  have m: "?m = unat n - 1" using n by (simp add: unat_minus_one unat_gt_0)
  have n16: "unat n < 65536" using layout_size[OF lay] by simp
  have f: "same_rings ?init ?f" "rb_free_head ?f = 0" "rb_free_count ?f = n" using fold_sel[OF lay, of ?m] m by simp_all
  then have lf: "layout_ok ?f" "rb_size ?f = n" using lay by (simp_all add: same_rings_def)
  have r': "r = set_desc_next (n - 1) 0xFFFF ?f" by (simp add: r init_free_list_def)
  have same: "same_rings ?init r"
    unfolding r' using same_rings_trans[OF f(1) same_rings_sets(2)[OF lf(1)]] lf(2) m n by simp
  have head: "rb_free_head r = 0" "rb_free_count r = n" unfolding r' using f(2,3) by simp_all
  have links: "de_next (desc r i) = i + 1" if "unat i < unat n - 1" for i
  proof -
    have "i \<noteq> n - 1" using that m by auto
    then show ?thesis unfolding r' using links_fold[of ?m ?init i] that m n16 by (simp add: desc_set_next)
  qed
  have fl: "free_list r = map word_of_nat [0..<unat n]"
    using follow_links[of 0 "unat n" "desc r"] links n16 head by (simp add: free_list_def)
  have "avail_idx ?init = 0" "used_idx ?init = 0"
    using lay by (simp_all add: avail_idx_def used_idx_def mem_u16_def mem_zero layout_ok_def dr_zero_def[of g, THEN arg_cong[of _ _ dr_size], simplified])
  then have "in_flight (ring_start r) = []"
    using same by (simp add: in_flight_def avail_pending_def used_pending_def ring_start_def same_rings_def)
  moreover have "distinct (free_list r)" unfolding fl using inj_u16[of "unat n"] n16 by (simp add: distinct_map atLeast0LessThan)
  moreover have "set (free_list r) = {i. unat i < unat n}" unfolding fl using u16_below[of "unat n"] n16 by (simp add: atLeast0LessThan)
  moreover have "layout_ok r" "rb_size r = n" using same lay by (simp_all add: same_rings_def)
  ultimately show ?thesis using fl by (intro conjI ring_invI[where cs = "[]"]) (simp_all add: ring_start_def)
qed

section \<open>Properties\<close>

text \<open>C28: driver and device never share a descriptor. Whatever sequence of queueing, taking, completing and reaping follows the
  creation of a ring, nothing panics, and each of its descriptors is either on the free list or in exactly one chain; the
  chains are those whose heads are queued, held by the device, or completed and not yet reaped.\<close>

theorem ring_descriptors_owned:
  assumes "rb_new kalloc n = Ok r"
  shows "\<exists>s cs. ring_run xs (ring_start r) = Ok s \<and> (\<forall>c \<in> set cs. linked (desc (rs_ring s)) c) \<and>
    mset (map hd cs) = mset (avail_pending s @ rs_held s @ used_pending s) \<and> distinct (free_list (rs_ring s) @ concat cs) \<and>
    set (free_list (rs_ring s) @ concat cs) = {i. unat i < unat (rb_size (rs_ring s))}"
proof -
  from new_inv[OF assms] ring_run_inv obtain s where "ring_run xs (ring_start r) = Ok s" "ring_inv s" by blast
  then show ?thesis unfolding ring_inv_def in_flight_def by blast
qed

text \<open>C29: a queued chain reaches the device as it was given. In any state reached that way, \<open>add_buffer_chain\<close> with at
  most as many buffers as there are free descriptors takes that many from the free list, links them in order
  with the addresses, lengths and directions of the buffers, and appends the head behind the chains already queued,
  although the 16-bit index of the ring wraps around.\<close>

theorem add_chain_delivered:
  assumes "ring_inv s" and "bs \<noteq> []" and "length bs \<le> unat (rb_free_count (rs_ring s))"
  shows "\<exists>xs r'. add_buffer_chain bs (rs_ring s) = (Some (hd xs), r') \<and> holds_chain (desc r') xs bs \<and>
    free_list (rs_ring s) = xs @ free_list r' \<and> avail_pending (s\<lparr>rs_ring := r'\<rparr>) = avail_pending s @ [hd xs]"
  using add_chain_effect[OF assms] by blast

text \<open>\<open>add_buffer\<close> is \<open>add_buffer_chain\<close> with one buffer.\<close>

lemma add_buffer_is_chain: "add_buffer b r = add_buffer_chain [b] r"
proof (cases "rb_free_count r = 0")
  case False
  then have "1 \<le> unat (rb_free_count r)" by (simp add: unat_gt_0 Suc_le_eq)
  then show ?thesis using False
    by (cases b) (simp add: add_buffer_def add_buffer_chain_def alloc_desc_def Let_def)
qed (simp add: add_buffer_def add_buffer_chain_def alloc_desc_def)

definition sample_kernel :: kernel_alloc where
  "sample_kernel n = Ok (4096, 65536, \<lambda>_. 0)"

lemma sample_ring: "\<exists>r. rb_new sample_kernel 4 = Ok r"
proof -
  have "is_power_of_two 4" unfolding is_power_of_two_def by (rule bexI[of _ 2]) simp_all
  then show ?thesis
    by (simp add: rb_new_def Let_def dma_allocate_def allocate_aligned_def chk_add_def and_not_def sample_kernel_def)
qed

definition sample_buffers :: "buffer list" where
  "sample_buffers = [(4096, 512, False), (8192, 16, True)]"

theorem ring_descriptors_owned_witness:
  "\<exists>r s cs. rb_new sample_kernel 4 = Ok r \<and>
     ring_run [DriverAdd sample_buffers, DeviceTake, DriverAdd sample_buffers, DeviceComplete 0 16, DriverReap] (ring_start r) = Ok s \<and>
     distinct (free_list (rs_ring s) @ concat cs)"
proof -
  obtain r where r: "rb_new sample_kernel 4 = Ok r" using sample_ring by blast
  from ring_descriptors_owned[OF r] show ?thesis using r by blast
qed

theorem add_chain_delivered_witness:
  "\<exists>r xs r'. rb_new sample_kernel 4 = Ok r \<and> add_buffer_chain sample_buffers r = (Some (hd xs), r') \<and>
     holds_chain (desc r') xs sample_buffers \<and> avail_pending ((ring_start r)\<lparr>rs_ring := r'\<rparr>) = [hd xs]"
proof -
  obtain r where r: "rb_new sample_kernel 4 = Ok r" using sample_ring by blast
  note inv = new_inv[OF r]
  have n: "length sample_buffers \<le> unat (rb_free_count (rs_ring (ring_start r)))"
    using inv length_free_list[of r] by (simp add: ring_start_def sample_buffers_def)
  have "avail_pending (ring_start r) = []" using inv by (simp add: in_flight_def)
  with add_chain_delivered[OF conjunct1[OF inv] _ n] r show ?thesis by (auto simp: ring_start_def sample_buffers_def)
qed

end
