(* ===== verification/Shared_Buffer.thy ===== *)
theory Shared_Buffer
  imports Dma
begin

text \<open>
  Buffers shared between processes and the pool of them: \<open>libdriver/src/buffer.rs\<close>. As for DMA regions, the kernel's
  answer to the creation and mapping of a VMO is a parameter; the bytes of a buffer are indexed from its start.
\<close>

section \<open>Buffers\<close>

record shared_buffer =
  sb_mem :: "nat \<Rightarrow> u8"
  sb_size :: nat
  sb_owned :: bool

type_synonym kernel_map = "nat \<Rightarrow> (driver_error, nat \<Rightarrow> u8) res"

definition sb_new :: "kernel_map \<Rightarrow> nat \<Rightarrow> (driver_error, shared_buffer) res" where
  "sb_new kmap n =
     (if n = 0 then Err InvalidArgument
      else bind_res (chk_add n 4095) (\<lambda>e.
             let aligned = and_not e 4095
             in bind_res (kmap aligned) (\<lambda>mem. Ok \<lparr>sb_mem = mem, sb_size = aligned, sb_owned = True\<rparr>)))"

definition sb_from_vmo :: "kernel_map \<Rightarrow> nat \<Rightarrow> (driver_error, shared_buffer) res" where
  "sb_from_vmo kmap n =
     bind_res (chk_add n 4095) (\<lambda>e.
       let aligned = and_not e 4095
       in bind_res (kmap aligned) (\<lambda>mem. Ok \<lparr>sb_mem = mem, sb_size = aligned, sb_owned = True\<rparr>))"

definition sb_zero :: "shared_buffer \<Rightarrow> shared_buffer" where
  "sb_zero b = b\<lparr>sb_mem := mem_write 0 (replicate (sb_size b) 0) (sb_mem b)\<rparr>"

definition sb_slice :: "shared_buffer \<Rightarrow> u8 list" where
  "sb_slice b = mem_read (sb_mem b) 0 (sb_size b)"

section \<open>The pool\<close>

record buffer_pool =
  bp_buffer_size :: nat
  bp_max :: nat
  bp_free :: "shared_buffer list"
  bp_total :: nat

definition bp_new :: "nat \<Rightarrow> nat \<Rightarrow> buffer_pool" where
  "bp_new sz mx = \<lparr>bp_buffer_size = sz, bp_max = mx, bp_free = [], bp_total = 0\<rparr>"

text \<open>\<open>preallocate\<close>, with the number of buffers made so far and the kernel's answers to the requests.\<close>

fun bp_preallocate :: "kernel_map list \<Rightarrow> nat \<Rightarrow> buffer_pool \<Rightarrow> (driver_error, nat) res \<times> buffer_pool" where
  "bp_preallocate [] done_count p = (Ok done_count, p)"
| "bp_preallocate (k # ks) done_count p =
     (if bp_total p \<ge> bp_max p then (Ok done_count, p)
      else case sb_new k (bp_buffer_size p) of
             Ok b \<Rightarrow> bp_preallocate ks (done_count + 1) (p\<lparr>bp_free := bp_free p @ [b], bp_total := bp_total p + 1\<rparr>)
           | Err e \<Rightarrow> (if done_count = 0 then Err e else Ok done_count, p)
           | Panic \<Rightarrow> (Panic, p))"

definition bp_acquire :: "kernel_map \<Rightarrow> buffer_pool \<Rightarrow> (driver_error, shared_buffer) res \<times> buffer_pool" where
  "bp_acquire kmap p =
     (if bp_free p \<noteq> [] then (Ok (last (bp_free p)), p\<lparr>bp_free := butlast (bp_free p)\<rparr>)
      else if bp_total p \<ge> bp_max p then (Err OutOfMemory, p)
      else (sb_new kmap (bp_buffer_size p), p\<lparr>bp_total := bp_total p + 1\<rparr>))"

definition bp_release :: "shared_buffer \<Rightarrow> buffer_pool \<Rightarrow> buffer_pool" where
  "bp_release b p = p\<lparr>bp_free := bp_free p @ [sb_zero b]\<rparr>"

section \<open>Use of a pool\<close>

text \<open>Clients take buffers, write whatever they like into those they hold, give them back, or detach them from the
  pool. The state is the pool with the buffers held.\<close>

datatype pool_op = PTake kernel_map | PFill nat "nat \<Rightarrow> u8" | PGive nat | PDetach nat

definition drop_nth :: "nat \<Rightarrow> 'a list \<Rightarrow> 'a list" where
  "drop_nth i xs = take i xs @ drop (Suc i) xs"

fun pool_step :: "pool_op \<Rightarrow> buffer_pool \<times> shared_buffer list \<Rightarrow> (driver_error, shared_buffer option) res \<times> buffer_pool \<times> shared_buffer list" where
  "pool_step (PTake k) (p, held) =
     (case bp_acquire k p of
        (Ok b, p') \<Rightarrow> (Ok (Some b), p', held @ [b])
      | (Err e, p') \<Rightarrow> (Err e, p', held)
      | (Panic, p') \<Rightarrow> (Panic, p', held))"
| "pool_step (PFill i m) (p, held) = (Ok None, p, if i < length held then held[i := (held ! i)\<lparr>sb_mem := m\<rparr>] else held)"
| "pool_step (PGive i) (p, held) =
     (Ok None, if i < length held then (bp_release (held ! i) p, drop_nth i held) else (p, held))"
| "pool_step (PDetach i) (p, held) = (Ok None, p, if i < length held then drop_nth i held else held)"

fun pool_run :: "pool_op list \<Rightarrow> buffer_pool \<times> shared_buffer list \<Rightarrow> buffer_pool \<times> shared_buffer list" where
  "pool_run [] s = s"
| "pool_run (x # xs) s = pool_run xs (snd (pool_step x s))"

definition pool_ok :: "buffer_pool \<times> shared_buffer list \<Rightarrow> bool" where
  "pool_ok = (\<lambda>(p, held). (\<forall>b \<in> set (bp_free p). sb_slice b = replicate (sb_size b) 0) \<and>
     length (bp_free p) + length held \<le> bp_total p \<and> bp_total p \<le> bp_max p)"

lemma sb_zero_slice: "sb_slice (sb_zero b) = replicate (sb_size b) 0"
  using mem_read_write_same[of 0 "replicate (sb_size b) 0" "sb_mem b"] by (simp add: sb_slice_def sb_zero_def)

lemma length_drop_nth: "i < length xs \<Longrightarrow> Suc (length (drop_nth i xs)) = length xs"
  by (simp add: drop_nth_def)

lemma pool_step_ok:
  assumes "pool_ok s"
  shows "pool_ok (snd (pool_step x s))"
proof -
  obtain p held where s: "s = (p, held)" by force
  show ?thesis
  proof (cases x)
    case (PTake k)
    show ?thesis
    proof (cases "bp_free p = []")
      case True
      with assms PTake s show ?thesis by (auto simp: pool_ok_def bp_acquire_def split: res.splits)
    next
      case False
      then obtain bs b where "bp_free p = bs @ [b]" by (metis rev_exhaust)
      with assms PTake s show ?thesis by (auto simp: pool_ok_def bp_acquire_def)
    qed
  next
    case (PGive i)
    have z: "sb_size (sb_zero (held ! i)) = sb_size (held ! i)" by (simp add: sb_zero_def)
    from assms PGive s z length_drop_nth[of i held] show ?thesis
      by (auto simp: pool_ok_def bp_release_def sb_zero_slice)
  next
    case (PDetach i)
    with assms s length_drop_nth[of i held] show ?thesis by (auto simp: pool_ok_def)
  qed (use assms s in \<open>auto simp: pool_ok_def\<close>)
qed

lemma pool_run_ok: "pool_ok s \<Longrightarrow> pool_ok (pool_run xs s)"
  by (induction xs arbitrary: s) (auto simp: pool_step_ok)

lemma pool_new_ok: "pool_ok (bp_new sz mx, [])"
  by (simp add: pool_ok_def bp_new_def)

text \<open>A pool of shared buffers does not carry data from one client to the next. Whatever clients did before, a
  buffer taken from the free list of a pool holds only zero bytes; and the pool never hands out more buffers than
  its maximum.\<close>

theorem pool_hands_out_zeroed:
  assumes "pool_run xs (bp_new sz mx, []) = (p, held)"
  shows "length held \<le> mx \<and> (bp_free p \<noteq> [] \<longrightarrow>
    (\<exists>b p'. bp_acquire k p = (Ok b, p') \<and> sb_slice b = replicate (sb_size b) 0))"
proof -
  have ok: "pool_ok (p, held)" using pool_run_ok[OF pool_new_ok, of xs sz mx] assms by simp
  have "bp_max (fst (snd (pool_step x s))) = bp_max (fst s)" for x s
    by (cases x; cases s) (auto simp: bp_acquire_def bp_release_def split: res.splits)
  then have "bp_max (fst (pool_run xs s)) = bp_max (fst s)" for s by (induction xs arbitrary: s) auto
  from this[of "(bp_new sz mx, [])"] assms have "bp_max p = mx" by (simp add: bp_new_def)
  with ok show ?thesis by (auto simp: pool_ok_def bp_acquire_def)
qed

definition zero_kernel :: kernel_map where
  "zero_kernel n = Ok (\<lambda>_. 0)"

theorem pool_hands_out_zeroed_witness:
  "\<exists>p held b p'. pool_run [PTake zero_kernel, PFill 0 (\<lambda>_. 77), PGive 0] (bp_new 4096 1, []) = (p, held) \<and>
     bp_acquire zero_kernel p = (Ok b, p') \<and> sb_slice b = replicate (sb_size b) 0"
proof -
  obtain p held where run: "pool_run [PTake zero_kernel, PFill 0 (\<lambda>_. 77), PGive 0] (bp_new 4096 1, []) = (p, held)" by force
  then have "bp_free p \<noteq> []"
    by (auto simp: bp_new_def bp_acquire_def sb_new_def zero_kernel_def chk_add_def Let_def bp_release_def)
  with pool_hands_out_zeroed[OF run, of zero_kernel] run show ?thesis by blast
qed

end
