(* ===== verification/Namespace.thy ===== *)
theory Namespace
  imports Ordered_Map Errors "HOL-Library.List_Lexorder" "HOL-Library.Sublist"
begin

text \<open>
  The namespace: \<open>drivers/namespace/src/server.rs\<close> and the flags of \<open>protocol.rs\<close>. Drivers are bound to paths; a path is resolved to the driver that is bound to the longest
  part of it, and to the rest. Strings are their bytes. The abstract namespace is a map from lists of path components to entries; binding,
  unbinding and resolving refine its operations.
\<close>

section \<open>The namespace\<close>

abbreviation SLASH :: u8 where "SLASH \<equiv> 0x2F"
abbreviation DOT :: u8 where "DOT \<equiv> 0x2E"

definition MOUNT_READABLE :: u32 where "MOUNT_READABLE = 1"
definition MOUNT_WRITABLE :: u32 where "MOUNT_WRITABLE = 2"
definition MOUNT_EXECUTABLE :: u32 where "MOUNT_EXECUTABLE = 4"
definition MOUNT_ADMIN :: u32 where "MOUNT_ADMIN = 8"

definition mount_known :: u32 where
  "mount_known = MOUNT_READABLE OR MOUNT_WRITABLE OR MOUNT_EXECUTABLE OR MOUNT_ADMIN"

record namespace_entry =
  en_path :: "u8 list"
  en_name :: "u8 list"
  en_flags :: u32

type_synonym namespace = "(u8 list, namespace_entry) btree"

definition namespace_new :: namespace where
  "namespace_new = []"

text \<open>\<open>str::split('/')\<close>: the parts between the slashes, one more than there are slashes.\<close>

fun split_slash :: "u8 list \<Rightarrow> u8 list list" where
  "split_slash [] = [[]]"
| "split_slash (c # cs) =
     (if c = SLASH then [] # split_slash cs
      else case split_slash cs of [] \<Rightarrow> [[c]] | p # ps \<Rightarrow> (c # p) # ps)"

text \<open>\<open>trim_end_matches('/')\<close> and \<open>join("/")\<close>.\<close>

definition trim_slashes :: "u8 list \<Rightarrow> u8 list" where
  "trim_slashes p = rev (dropWhile (\<lambda>c. c = SLASH) (rev p))"

fun join_slash :: "u8 list list \<Rightarrow> u8 list" where
  "join_slash [] = []"
| "join_slash [c] = c"
| "join_slash (c # cs) = c @ SLASH # join_slash cs"

text \<open>The loop over the components; \<open>pop\<close> of an empty vector does nothing.\<close>

fun push_components :: "u8 list list \<Rightarrow> u8 list list \<Rightarrow> u8 list list" where
  "push_components acc [] = acc"
| "push_components acc (c # cs) =
     (if c = [] \<or> c = [DOT] then push_components acc cs
      else if c = [DOT, DOT] then push_components (butlast acc) cs
      else push_components (acc @ [c]) cs)"

definition normalize_path :: "u8 list \<Rightarrow> error + u8 list" where
  "normalize_path path =
     (if \<not> prefix [SLASH] path then Inl (Error EINVAL)
      else
        let normalized = (if length path > 1 \<and> suffix [SLASH] path then trim_slashes path else path);
            components = push_components [] (split_slash normalized)
        in if components = [] then Inr [SLASH] else Inr (SLASH # join_slash components))"

definition path_starts_with :: "u8 list \<Rightarrow> u8 list \<Rightarrow> bool" where
  "path_starts_with path pre \<longleftrightarrow> pre = [SLASH] \<or> path = pre \<or> prefix (pre @ [SLASH]) path"

definition strip_prefix :: "u8 list \<Rightarrow> u8 list \<Rightarrow> u8 list" where
  "strip_prefix path pre =
     (if pre = [SLASH] then path
      else if path = pre then [SLASH]
      else if prefix pre path then drop (length pre) path else path)"

definition namespace_bind :: "u8 list \<Rightarrow> u8 list \<Rightarrow> u32 \<Rightarrow> namespace \<Rightarrow> (error + unit) \<times> namespace" where
  "namespace_bind path name flags mounts =
     (case normalize_path path of
        Inl e \<Rightarrow> (Inl e, mounts)
      | Inr path \<Rightarrow>
          if bt_get mounts path \<noteq> None then (Inl (Error EEXIST), mounts)
          else (Inr (), bt_insert path \<lparr>en_path = path, en_name = name, en_flags = flags\<rparr> mounts))"

definition namespace_unbind :: "u8 list \<Rightarrow> namespace \<Rightarrow> (error + namespace_entry) \<times> namespace" where
  "namespace_unbind path mounts =
     (case normalize_path path of
        Inl e \<Rightarrow> (Inl e, mounts)
      | Inr path \<Rightarrow>
          (case bt_get mounts path of
             None \<Rightarrow> (Inl (Error ESRCH), mounts)
           | Some entry \<Rightarrow> (Inr entry, bt_remove path mounts)))"

fun best_match :: "u8 list \<Rightarrow> (u8 list \<times> namespace_entry) list \<Rightarrow> (u8 list \<times> namespace_entry) option \<Rightarrow> (u8 list \<times> namespace_entry) option" where
  "best_match path [] best = best"
| "best_match path ((pre, entry) # ms) best =
     best_match path ms
       (if path_starts_with path pre
        then (case best of
                None \<Rightarrow> Some (pre, entry)
              | Some (best_prefix, _) \<Rightarrow> if length pre > length best_prefix then Some (pre, entry) else best)
        else best)"

definition namespace_resolve :: "u8 list \<Rightarrow> namespace \<Rightarrow> error + (namespace_entry \<times> u8 list)" where
  "namespace_resolve path mounts =
     (case normalize_path path of
        Inl e \<Rightarrow> Inl e
      | Inr path \<Rightarrow>
          (case best_match path (rev mounts) None of
             Some (pre, entry) \<Rightarrow> Inr (entry, strip_prefix path pre)
           | None \<Rightarrow> Inl (Error ENOENT)))"

section \<open>Paths as lists of components\<close>

definition component :: "u8 list \<Rightarrow> bool" where
  "component c \<longleftrightarrow> c \<noteq> [] \<and> c \<noteq> [DOT] \<and> c \<noteq> [DOT, DOT] \<and> SLASH \<notin> set c"

definition render :: "u8 list list \<Rightarrow> u8 list" where
  "render cs = (if cs = [] then [SLASH] else concat (map (\<lambda>c. SLASH # c) cs))"

definition components_of :: "u8 list \<Rightarrow> u8 list list" where
  "components_of path = push_components [] (split_slash path)"

lemma join_render: "cs \<noteq> [] \<Longrightarrow> SLASH # join_slash cs = render cs"
proof -
  have "cs \<noteq> [] \<Longrightarrow> SLASH # join_slash cs = concat (map (\<lambda>c. SLASH # c) cs)"
    by (induction cs rule: join_slash.induct) simp_all
  then show "cs \<noteq> [] \<Longrightarrow> SLASH # join_slash cs = render cs" by (simp add: render_def)
qed

lemma split_slash_not_Nil [simp]: "split_slash p \<noteq> []"
  by (induction p) (simp_all split: list.split)

lemma split_slash_no_slash: "c \<in> set (split_slash p) \<Longrightarrow> SLASH \<notin> set c"
proof (induction p arbitrary: c)
  case (Cons x p)
  then show ?case by (cases "split_slash p") (auto split: if_splits)
qed simp

lemma split_slash_append: "SLASH \<notin> set c \<Longrightarrow> split_slash (c @ SLASH # p) = c # split_slash p"
  by (induction c) auto

lemma split_slash_single: "SLASH \<notin> set c \<Longrightarrow> split_slash c = [c]"
  by (induction c) auto

lemma push_components_good:
  "\<forall>c \<in> set cs. SLASH \<notin> set c \<Longrightarrow> \<forall>c \<in> set acc. component c \<Longrightarrow> \<forall>c \<in> set (push_components acc cs). component c"
proof (induction acc cs rule: push_components.induct)
  case (2 acc c cs)
  have rest: "\<forall>d \<in> set cs. SLASH \<notin> set d" and less: "\<forall>d \<in> set (butlast acc). component d" using 2(4,5) by (auto dest: in_set_butlastD)
  consider "c = [] \<or> c = [DOT]" | "\<not> (c = [] \<or> c = [DOT])" "c = [DOT, DOT]" | "\<not> (c = [] \<or> c = [DOT])" "c \<noteq> [DOT, DOT]" by blast
  then show ?case
  proof cases
    case 1
    then show ?thesis using 2(1)[OF 1 rest 2(5)] by auto
  next
    case b: 2
    show ?thesis using 2(2)[OF b rest less] b by simp
  next
    case c: 3
    then have "component c" using 2(4) by (simp add: component_def)
    then have "\<forall>d \<in> set (acc @ [c]). component d" using 2(5) by simp
    from 2(3)[OF c rest this] c show ?thesis by simp
  qed
qed simp

lemma components_of_good: "\<forall>c \<in> set (components_of p). component c"
  unfolding components_of_def by (rule push_components_good) (auto dest: split_slash_no_slash)

lemma push_components_id: "\<forall>c \<in> set cs. component c \<Longrightarrow> push_components acc cs = acc @ cs"
  by (induction acc cs rule: push_components.induct) (auto simp: component_def)

lemma split_concat: "\<forall>c \<in> set cs. SLASH \<notin> set c \<Longrightarrow> SLASH \<notin> set d \<Longrightarrow> split_slash (d @ concat (map (\<lambda>c. SLASH # c) cs)) = d # cs"
  by (induction cs arbitrary: d) (simp_all add: split_slash_append split_slash_single)

lemma components_of_render: "\<forall>c \<in> set cs. component c \<Longrightarrow> components_of (render cs) = cs"
  using split_concat[of cs "[]"]
  by (auto simp: components_of_def render_def component_def push_components_id)

lemma push_append: "push_components acc (cs @ ds) = push_components (push_components acc cs) ds"
  by (induction acc cs rule: push_components.induct) simp_all

lemma split_snoc_slash: "split_slash (p @ [SLASH]) = split_slash p @ [[]]"
  by (induction p) (auto split: list.split)

lemma components_of_snoc: "components_of (p @ [SLASH]) = components_of p"
  by (simp add: components_of_def split_snoc_slash push_append)

lemma components_of_trim: "components_of (trim_slashes p) = components_of p"
proof (induction p rule: rev_induct)
  case (snoc c p)
  then show ?case by (cases "c = SLASH") (simp_all add: trim_slashes_def components_of_snoc)
qed (simp add: trim_slashes_def)

text \<open>What normalisation computes.\<close>

lemma normalize_path_eq:
  "normalize_path path = (if prefix [SLASH] path then Inr (render (components_of path)) else Inl (Error EINVAL))"
proof -
  let ?n = "if length path > 1 \<and> suffix [SLASH] path then trim_slashes path else path"
  have "push_components [] (split_slash ?n) = components_of path"
    using components_of_trim[of path] by (simp add: components_of_def)
  then show ?thesis by (simp add: normalize_path_def Let_def join_render) (simp add: render_def)
qed

lemma prefix_render: "prefix [SLASH] (render cs)"
  by (cases cs) (simp_all add: render_def)

lemma normalize_render: "\<forall>c \<in> set cs. component c \<Longrightarrow> normalize_path (render cs) = Inr (render cs)"
  by (simp add: normalize_path_eq prefix_render components_of_render)

lemma render_inj: "\<forall>c \<in> set cs. component c \<Longrightarrow> \<forall>c \<in> set ds. component c \<Longrightarrow> render cs = render ds \<longleftrightarrow> cs = ds"
  using components_of_render by metis

lemma render_not_root: "\<forall>c \<in> set ds. component c \<Longrightarrow> ds \<noteq> [] \<Longrightarrow> render ds \<noteq> [SLASH]"
  using render_inj[of ds "[]"] by (simp add: render_def)

lemma render_append: "cs \<noteq> [] \<Longrightarrow> ds \<noteq> [] \<Longrightarrow> render (cs @ ds) = render cs @ render ds"
  by (simp add: render_def)

text \<open>Of two lists of components, the text of one starts with that of the other and a slash, or equals it, exactly when the lists are prefixes.\<close>

lemma append_slash_split:
  "SLASH \<notin> set c \<Longrightarrow> SLASH \<notin> set d \<Longrightarrow> c @ SLASH # p = d @ q \<Longrightarrow> q = [] \<or> hd q = SLASH \<Longrightarrow> c = d \<and> q = SLASH # p"
proof (induction c arbitrary: d)
  case Nil
  then show ?case by (cases d) (auto simp: Cons_eq_append_conv)
next
  case (Cons x c)
  then show ?case by (cases d) (auto simp: Cons_eq_append_conv)
qed

lemma slashed_prefix:
  "\<forall>c \<in> set cs. SLASH \<notin> set c \<Longrightarrow> \<forall>c \<in> set ds. SLASH \<notin> set c \<Longrightarrow>
   concat (map (\<lambda>c. SLASH # c) ds) @ SLASH # x = concat (map (\<lambda>c. SLASH # c) cs) \<Longrightarrow> prefix ds cs"
proof (induction ds arbitrary: cs)
  case (Cons d ds)
  then obtain c cs' where cs: "cs = c # cs'" by (cases cs) auto
  let ?p = "concat (map (\<lambda>c. SLASH # c) ds) @ SLASH # x" and ?q = "concat (map (\<lambda>c. SLASH # c) cs')"
  have q: "?q = [] \<or> hd ?q = SLASH" by (cases cs') simp_all
  obtain p where p: "?p = SLASH # p" by (cases ds) simp_all
  have "d @ ?p = c @ ?q" using Cons.prems(3) by (simp add: cs)
  then have "d = c \<and> ?q = ?p" using append_slash_split[of d c p ?q] q Cons.prems(1,2) p cs by simp
  with Cons show ?case by (simp add: cs)
qed simp

lemma path_starts_with_render:
  assumes "\<forall>c \<in> set cs. component c" and "\<forall>c \<in> set ds. component c"
  shows "path_starts_with (render cs) (render ds) \<longleftrightarrow> prefix ds cs"
proof (cases "ds = [] \<or> cs = ds")
  case True
  then show ?thesis by (auto simp: path_starts_with_def render_def)
next
  case False
  then have ds: "ds \<noteq> []" and ne: "render cs \<noteq> render ds" "render ds \<noteq> [SLASH]"
    using render_inj[OF assms] render_not_root[OF assms(2)] by simp_all
  have slash: "\<forall>c \<in> set cs. SLASH \<notin> set c" "\<forall>c \<in> set ds. SLASH \<notin> set c" using assms by (auto simp: component_def)
  show ?thesis
  proof
    assume "path_starts_with (render cs) (render ds)"
    then obtain x where "render cs = render ds @ SLASH # x" using ne by (auto simp: path_starts_with_def prefix_def)
    moreover have "cs \<noteq> []" using calculation prefix_render[of ds] by (auto simp: render_def prefix_def)
    ultimately show "prefix ds cs" using slashed_prefix[OF slash] ds by (simp add: render_def)
  next
    assume "prefix ds cs"
    then obtain es where cs: "cs = ds @ es" by (auto simp: prefix_def)
    with False have "es \<noteq> []" by auto
    then obtain x where "render es = SLASH # x" using prefix_render[of es] by (auto simp: prefix_def)
    then show "path_starts_with (render cs) (render ds)" using render_append[OF ds \<open>es \<noteq> []\<close>] by (auto simp: cs path_starts_with_def prefix_def)
  qed
qed

lemma strip_prefix_render:
  assumes "\<forall>c \<in> set (ds @ es). component c"
  shows "strip_prefix (render (ds @ es)) (render ds) = render es"
proof (cases "ds = [] \<or> es = []")
  case True
  then show ?thesis using assms render_not_root[of ds] by (auto simp: strip_prefix_def) (simp_all add: render_def)
next
  case False
  then have "render (ds @ es) = render ds @ render es" by (simp add: render_append)
  moreover have "render ds \<noteq> [SLASH]" using assms False render_not_root by simp
  moreover have "render es \<noteq> []" using prefix_render[of es] by auto
  ultimately show ?thesis by (simp add: strip_prefix_def)
qed

lemma render_longer:
  assumes "\<forall>c \<in> set cs. component c" and "prefix ds cs" "prefix es cs"
  shows "length (render es) > length (render ds) \<longleftrightarrow> length es > length ds"
proof -
  have mono: "length (render as) < length (render (as @ bs))" if good: "\<forall>c \<in> set (as @ bs). component c" and "bs \<noteq> []" for as bs
  proof (cases "as = []")
    case True
    then obtain b bs' where "bs = b # bs'" "b \<noteq> []" using \<open>bs \<noteq> []\<close> good by (cases bs) (auto simp: component_def)
    then show ?thesis using True by (simp add: render_def)
  next
    case False
    then show ?thesis using \<open>bs \<noteq> []\<close> prefix_render[of bs] by (auto simp: render_append prefix_def)
  qed
  have good: "\<forall>c \<in> set ds. component c" "\<forall>c \<in> set es. component c" using assms set_mono_prefix by blast+
  consider us where "es = ds @ us" | us where "ds = es @ us" using assms(2,3) by (metis prefix_same_cases prefix_def)
  then show ?thesis
  proof cases
    case 1
    then show ?thesis using mono[of ds us] good by (cases "us = []") auto
  next
    case 2
    have "us \<noteq> [] \<Longrightarrow> length (render es) < length (render ds)" using mono[of es us] good 2 by auto
    then show ?thesis using 2 by (cases "us = []") auto
  qed
qed

section \<open>Longest match\<close>

lemma best_match_None: "best_match path ms best = None \<longleftrightarrow> best = None \<and> (\<forall>q \<in> set ms. \<not> path_starts_with path (fst q))"
  by (induction path ms best rule: best_match.induct) (auto split: option.splits)

lemma best_match_mem:
  "best_match path ms best = Some q \<Longrightarrow> best = Some q \<or> q \<in> set ms \<and> path_starts_with path (fst q)"
  by (induction path ms best rule: best_match.induct) (fastforce split: option.splits if_splits)+

lemma best_match_longest:
  "best_match path ms best = Some q \<Longrightarrow>
   (\<forall>r \<in> set ms. path_starts_with path (fst r) \<longrightarrow> length (fst r) \<le> length (fst q)) \<and> (\<forall>r. best = Some r \<longrightarrow> length (fst r) \<le> length (fst q))"
  by (induction path ms best rule: best_match.induct) (fastforce split: option.splits if_splits)+

section \<open>The abstract namespace\<close>

type_synonym spec_namespace = "u8 list list \<Rightarrow> namespace_entry option"

definition spec_resolve :: "spec_namespace \<Rightarrow> u8 list list \<Rightarrow> (namespace_entry \<times> u8 list list) option" where
  "spec_resolve M cs =
     (case filter (\<lambda>n. M (take n cs) \<noteq> None) (rev [0..<Suc (length cs)]) of
        [] \<Rightarrow> None
      | n # _ \<Rightarrow> map_option (\<lambda>e. (e, drop n cs)) (M (take n cs)))"

definition mounted :: "namespace \<Rightarrow> spec_namespace" where
  "mounted m cs = (if list_all component cs then bt_get m (render cs) else None)"

definition namespace_ok :: "namespace \<Rightarrow> bool" where
  "namespace_ok m \<longleftrightarrow> bt_wf m \<and> (\<forall>(p, e) \<in> set m. en_path e = p \<and> (\<exists>cs. list_all component cs \<and> p = render cs))"

lemma components_of_all: "list_all component (components_of p)"
  using components_of_good by (simp add: list_all_iff)

lemma namespace_ok_new: "namespace_ok namespace_new"
  by (simp add: namespace_ok_def namespace_new_def)

lemma set_bt_insert_subset: "set (bt_insert k v m) \<subseteq> insert (k, v) (set m)"
  by (induction k v m rule: bt_insert.induct) auto

lemma namespace_ok_insert:
  assumes "namespace_ok m" "list_all component cs"
  shows "namespace_ok (bt_insert (render cs) \<lparr>en_path = render cs, en_name = name, en_flags = flags\<rparr> m)"
proof -
  let ?e = "\<lparr>en_path = render cs, en_name = name, en_flags = flags\<rparr>"
  have "set (bt_insert (render cs) ?e m) \<subseteq> insert (render cs, ?e) (set m)" by (rule set_bt_insert_subset)
  moreover have "\<forall>(p, e) \<in> insert (render cs, ?e) (set m). en_path e = p \<and> (\<exists>cs. list_all component cs \<and> p = render cs)"
    using assms by (auto simp: namespace_ok_def)
  ultimately show ?thesis using assms(1) unfolding namespace_ok_def by (meson bt_wf_insert subsetD)
qed

lemma namespace_ok_remove: "namespace_ok m \<Longrightarrow> namespace_ok (bt_remove p m)"
  unfolding namespace_ok_def by (auto simp: bt_remove_def[of p m] bt_wf_remove[unfolded bt_remove_def])

lemma mounted_insert:
  assumes "list_all component cs"
  shows "mounted (bt_insert (render cs) e m) = (mounted m)(cs \<mapsto> e)"
  using assms render_inj by (auto simp: mounted_def fun_eq_iff list_all_iff)

lemma mounted_remove:
  assumes "list_all component cs"
  shows "mounted (bt_remove (render cs) m) = (mounted m)(cs := None)"
  using assms render_inj by (auto simp: mounted_def fun_eq_iff list_all_iff)

lemma first_of_descending:
  assumes "filter P (rev [0..<Suc k]) = n # ns"
  shows "P n" "n \<le> k" "\<forall>j \<le> k. P j \<longrightarrow> j \<le> n"
proof -
  have mem: "set (filter P (rev [0..<Suc k])) = {j. j \<le> k \<and> P j}" by (auto simp del: upt_Suc)
  have "sorted_wrt (\<ge>) (rev [0..<Suc k])" by (simp add: sorted_wrt_rev del: upt_Suc)
  then have sorted: "sorted_wrt (\<ge>) (filter P (rev [0..<Suc k]))" by (rule sorted_wrt_filter)
  have "n \<in> set (filter P (rev [0..<Suc k]))" unfolding assms by simp
  then show "P n" "n \<le> k" unfolding mem by auto
  show "\<forall>j \<le> k. P j \<longrightarrow> j \<le> n"
  proof (intro allI impI)
    fix j assume "j \<le> k" "P j"
    then have "j \<in> set (n # ns)" using mem assms by (metis (mono_tags) mem_Collect_eq)
    then show "j \<le> n" using sorted assms by auto
  qed
qed

lemma spec_resolve_None: "spec_resolve M cs = None \<longleftrightarrow> (\<forall>ds. prefix ds cs \<longrightarrow> M ds = None)"
proof (cases "filter (\<lambda>n. M (take n cs) \<noteq> None) (rev [0..<Suc (length cs)])")
  case Nil
  then have "\<forall>n \<le> length cs. M (take n cs) = None" by (auto simp: filter_empty_conv simp del: upt_Suc)
  then have "M ds = None" if "prefix ds cs" for ds using that by (metis append_eq_conv_conj prefix_def prefix_length_le)
  then show ?thesis unfolding spec_resolve_def Nil by simp
next
  case (Cons n ns)
  from first_of_descending[OF this] have "M (take n cs) \<noteq> None" by simp
  then show ?thesis unfolding spec_resolve_def Cons using take_is_prefix by auto
qed

lemma spec_resolve_Some:
  assumes "M ds = Some e" "cs = ds @ es" and longest: "\<forall>ds'. prefix ds' cs \<longrightarrow> M ds' \<noteq> None \<longrightarrow> length ds' \<le> length ds"
  shows "spec_resolve M cs = Some (e, es)"
proof (cases "filter (\<lambda>n. M (take n cs) \<noteq> None) (rev [0..<Suc (length cs)])")
  case Nil
  have "length ds \<in> set (filter (\<lambda>n. M (take n cs) \<noteq> None) (rev [0..<Suc (length cs)]))" using assms(1,2) by (simp del: upt_Suc)
  then show ?thesis unfolding Nil by simp
next
  case (Cons n ns)
  note F = first_of_descending[OF this]
  have "length ds \<le> n" using F(3) assms(1,2) by simp
  moreover have "n \<le> length ds" using longest F(1,2) take_is_prefix[of n cs] by (metis length_take min.absorb2)
  ultimately have "n = length ds" by simp
  then show ?thesis unfolding spec_resolve_def Cons using assms(1,2) by simp
qed

lemma resolve_refines:
  assumes ok: "namespace_ok m" and abs: "prefix [SLASH] path"
  shows "namespace_resolve path m =
    (case spec_resolve (mounted m) (components_of path) of None \<Rightarrow> Inl (Error ENOENT) | Some (e, es) \<Rightarrow> Inr (e, render es))"
proof -
  let ?cs = "components_of path" and ?p = "render (components_of path)"
  have norm: "normalize_path path = Inr ?p" by (simp add: normalize_path_eq abs)
  have cs: "\<forall>c \<in> set ?cs. component c" by (rule components_of_good)
  have mem: "(p, e) \<in> set m \<longleftrightarrow> bt_get m p = Some e" for p e using ok btm.entries_get[of m p e] by (simp add: namespace_ok_def)
  have key: "\<exists>ds. p = render ds \<and> (\<forall>d \<in> set ds. component d) \<and> prefix ds ?cs \<and> mounted m ds = Some e"
    if "(p, e) \<in> set m" "path_starts_with ?p p" for p e
  proof -
    obtain ds where ds: "list_all component ds" "p = render ds" using ok \<open>(p, e) \<in> set m\<close> unfolding namespace_ok_def by blast
    then have "prefix ds ?cs" using \<open>path_starts_with ?p p\<close> path_starts_with_render[OF cs, of ds] by (simp add: list_all_iff)
    with ds that(1) show ?thesis by (auto simp: mem mounted_def list_all_iff)
  qed
  have conv: "(render ds, e) \<in> set m \<and> path_starts_with ?p (render ds) \<and> (\<forall>d \<in> set ds. component d)" if "prefix ds ?cs" "mounted m ds = Some e" for ds e
    using that path_starts_with_render[OF cs, of ds] by (auto simp: mem mounted_def list_all_iff split: if_splits)
  show ?thesis
  proof (cases "best_match ?p (rev m) None")
    case None
    then have "mounted m ds = None" if "prefix ds ?cs" for ds using conv[OF that] unfolding best_match_None by (cases "mounted m ds") force+
    then have "spec_resolve (mounted m) ?cs = None" by (simp add: spec_resolve_None)
    then show ?thesis by (simp add: namespace_resolve_def norm None)
  next
    case (Some q)
    then have q: "(fst q, snd q) \<in> set m" "path_starts_with ?p (fst q)" using best_match_mem[OF Some] by auto
    obtain ds where ds: "fst q = render ds" "\<forall>d \<in> set ds. component d" "prefix ds ?cs" "mounted m ds = Some (snd q)" using key[OF q] by blast
    then obtain es where es: "?cs = ds @ es" by (auto simp: prefix_def)
    have "length ds' \<le> length ds" if "prefix ds' ?cs" "mounted m ds' = Some e" for ds' e
    proof -
      have "length (render ds') \<le> length (render ds)" using best_match_longest[OF Some] conv[OF that] ds(1) by fastforce
      then show ?thesis using render_longer[OF cs ds(3) that(1)] by simp
    qed
    then have "spec_resolve (mounted m) ?cs = Some (snd q, es)" using spec_resolve_Some[of "mounted m" ds "snd q" ?cs es] ds(4) es by blast
    moreover have "strip_prefix ?p (fst q) = render es" using strip_prefix_render[of ds es] cs es ds(1) by simp
    ultimately show ?thesis by (cases q) (simp add: namespace_resolve_def norm Some)
  qed
qed

text \<open>C20: binding, unbinding and resolving on absolute paths refine the abstract namespace, a map from lists of path components to entries: a path is bound once,
  and resolves to the entry bound to the longest list of leading components, with the remaining components as its rest. They keep the invariant of the table of
  mounts. A path that does not start with a slash is refused.\<close>

theorem namespace_refines:
  fixes path :: "u8 list"
  defines "cs \<equiv> components_of path"
  assumes ok: "namespace_ok m"
  shows "namespace_ok (snd (namespace_bind path name flags m)) \<and> namespace_ok (snd (namespace_unbind path m)) \<and>
    (if \<not> prefix [SLASH] path
     then namespace_bind path name flags m = (Inl (Error EINVAL), m) \<and> namespace_unbind path m = (Inl (Error EINVAL), m) \<and>
          namespace_resolve path m = Inl (Error EINVAL)
     else
       (case mounted m cs of
          None \<Rightarrow> fst (namespace_bind path name flags m) = Inr () \<and>
            mounted (snd (namespace_bind path name flags m)) = (mounted m)(cs \<mapsto> \<lparr>en_path = render cs, en_name = name, en_flags = flags\<rparr>) \<and>
            namespace_unbind path m = (Inl (Error ESRCH), m)
        | Some e \<Rightarrow> namespace_bind path name flags m = (Inl (Error EEXIST), m) \<and>
            fst (namespace_unbind path m) = Inr e \<and> mounted (snd (namespace_unbind path m)) = (mounted m)(cs := None)) \<and>
       namespace_resolve path m =
         (case spec_resolve (mounted m) cs of None \<Rightarrow> Inl (Error ENOENT) | Some (e, rest) \<Rightarrow> Inr (e, render rest)))"
proof (cases "prefix [SLASH] path")
  case False
  then show ?thesis using ok by (simp add: namespace_bind_def namespace_unbind_def namespace_resolve_def normalize_path_eq)
next
  case True
  have cs: "list_all component cs" by (simp add: cs_def components_of_all)
  have norm: "normalize_path path = Inr (render cs)" by (simp add: normalize_path_eq True cs_def)
  have get: "bt_get m (render cs) = mounted m cs" by (simp add: mounted_def cs)
  have res: "namespace_resolve path m =
      (case spec_resolve (mounted m) cs of None \<Rightarrow> Inl (Error ENOENT) | Some (e, rest) \<Rightarrow> Inr (e, render rest))"
    using resolve_refines[OF ok True] by (simp add: cs_def)
  show ?thesis
  proof (cases "mounted m cs")
    case None
    then show ?thesis using True ok res cs
      by (simp add: namespace_bind_def namespace_unbind_def norm get mounted_insert namespace_ok_insert)
  next
    case (Some e)
    then show ?thesis using True ok res cs
      by (simp add: namespace_bind_def namespace_unbind_def norm get mounted_remove namespace_ok_remove)
  qed
qed

text \<open>A sample: \<open>fs\<close> is bound to \<open>/d\<close>; the path \<open>/d/./x/\<close> resolves to it, with \<open>/x\<close> left.\<close>

definition one_mount :: namespace where
  "one_mount = snd (namespace_bind [SLASH, 100] [102, 115] 1 namespace_new)"

lemma one_mount_ok: "namespace_ok one_mount"
  unfolding one_mount_def namespace_bind_def
  using namespace_ok_insert[OF namespace_ok_new, of "components_of [SLASH, 100]" "[102, 115]" 1] components_of_all namespace_ok_new
  by (simp add: normalize_path_eq)

theorem namespace_refines_witness:
  "fst (namespace_bind [SLASH, 100] [103] 0 one_mount) = Inl (Error EEXIST) \<and>
   fst (namespace_unbind [SLASH, 100] one_mount) = Inr \<lparr>en_path = [SLASH, 100], en_name = [102, 115], en_flags = 1\<rparr> \<and>
   namespace_resolve [SLASH, 100, SLASH, DOT, SLASH, 120, SLASH] one_mount = Inr (\<lparr>en_path = [SLASH, 100], en_name = [102, 115], en_flags = 1\<rparr>, [SLASH, 120])"
proof -
  have m: "one_mount = [([SLASH, 100], \<lparr>en_path = [SLASH, 100], en_name = [102, 115], en_flags = 1\<rparr>)]"
    by (simp add: one_mount_def namespace_bind_def normalize_path_eq components_of_def render_def namespace_new_def)
  show ?thesis
    using namespace_refines[OF one_mount_ok, of "[SLASH, 100]" "[103]" 0] namespace_refines[OF one_mount_ok, of "[SLASH, 100, SLASH, DOT, SLASH, 120, SLASH]" "[]" 0]
    by (simp add: m components_of_def render_def mounted_def component_def bt_get_def spec_resolve_def)
qed

end
