(* ===== verification/Name_Protocol.thy ===== *)
theory Name_Protocol
  imports Bytes Errors "HOL-Library.Sublist"
begin

text \<open>
  The protocol of the name server: \<open>nameserver/src/protocol.rs\<close> and the error type of \<open>nameserver/src/lib.rs\<close>. Messages are byte lists; a structure is
  written and read field by field, as \<open>repr(C)\<close> lays it out. Strings are their UTF-8 bytes.
\<close>

section \<open>Codes\<close>

definition PROTOCOL_MAGIC :: u32 where "PROTOCOL_MAGIC = 0x4E535652"
definition PROTOCOL_VERSION :: u32 where "PROTOCOL_VERSION = 1"
definition MAX_SERVICE_NAME_LEN :: nat where "MAX_SERVICE_NAME_LEN = 256"
definition MAX_DESCRIPTION_LEN :: nat where "MAX_DESCRIPTION_LEN = 512"

datatype op_code = OpRegister | OpUnregister | OpLookup | OpList | OpExists | OpWatch | OpUnwatch | OpConnect | OpGetInfo | OpUpdateInfo |
  OpNotifyOnline | OpNotifyOffline

fun op_value :: "op_code \<Rightarrow> u32" where
  "op_value OpRegister = 1"
| "op_value OpUnregister = 2"
| "op_value OpLookup = 3"
| "op_value OpList = 4"
| "op_value OpExists = 5"
| "op_value OpWatch = 10"
| "op_value OpUnwatch = 11"
| "op_value OpConnect = 20"
| "op_value OpGetInfo = 30"
| "op_value OpUpdateInfo = 31"
| "op_value OpNotifyOnline = 100"
| "op_value OpNotifyOffline = 101"

definition op_from :: "u32 \<Rightarrow> op_code" where
  "op_from v =
     (if v = 1 then OpRegister else if v = 2 then OpUnregister else if v = 3 then OpLookup else if v = 4 then OpList
      else if v = 5 then OpExists else if v = 10 then OpWatch else if v = 11 then OpUnwatch else if v = 20 then OpConnect
      else if v = 30 then OpGetInfo else if v = 31 then OpUpdateInfo else if v = 100 then OpNotifyOnline
      else if v = 101 then OpNotifyOffline else OpLookup)"

datatype status = StOk | StAlreadyExists | StNotFound | StPermissionDenied | StInvalidArgument | StServiceUnavailable | StTimeout |
  StInternalError | StNameTooLong | StResourceExhausted

fun status_value :: "status \<Rightarrow> i32" where
  "status_value StOk = 0"
| "status_value StAlreadyExists = - 1"
| "status_value StNotFound = - 2"
| "status_value StPermissionDenied = - 3"
| "status_value StInvalidArgument = - 4"
| "status_value StServiceUnavailable = - 5"
| "status_value StTimeout = - 6"
| "status_value StInternalError = - 7"
| "status_value StNameTooLong = - 8"
| "status_value StResourceExhausted = - 9"

definition status_from :: "i32 \<Rightarrow> status" where
  "status_from v =
     (if v = 0 then StOk else if v = - 1 then StAlreadyExists else if v = - 2 then StNotFound else if v = - 3 then StPermissionDenied
      else if v = - 4 then StInvalidArgument else if v = - 5 then StServiceUnavailable else if v = - 6 then StTimeout
      else if v = - 7 then StInternalError else if v = - 8 then StNameTooLong else if v = - 9 then StResourceExhausted
      else StInternalError)"

datatype ns_error = NsAlreadyExists | NsNotFound | NsPermissionDenied | NsInvalidArgument | NsServiceUnavailable | NsTimeout | NsInternalError |
  NsNameTooLong | NsResourceExhausted | NsDisconnected | NsSystemError i32

text \<open>\<open>From<Status> for Error\<close>: a panic on \<open>Ok\<close>.\<close>

fun error_of_status :: "status \<Rightarrow> (ns_error, 'a) res" where
  "error_of_status StOk = Panic"
| "error_of_status StAlreadyExists = Err NsAlreadyExists"
| "error_of_status StNotFound = Err NsNotFound"
| "error_of_status StPermissionDenied = Err NsPermissionDenied"
| "error_of_status StInvalidArgument = Err NsInvalidArgument"
| "error_of_status StServiceUnavailable = Err NsServiceUnavailable"
| "error_of_status StTimeout = Err NsTimeout"
| "error_of_status StInternalError = Err NsInternalError"
| "error_of_status StNameTooLong = Err NsNameTooLong"
| "error_of_status StResourceExhausted = Err NsResourceExhausted"

definition ns_error_of :: "error \<Rightarrow> ns_error" where
  "ns_error_of e = NsSystemError (errno e)"

fun kernel_error_of :: "ns_error \<Rightarrow> error" where
  "kernel_error_of NsAlreadyExists = Error EEXIST"
| "kernel_error_of NsNotFound = Error ENOENT"
| "kernel_error_of NsPermissionDenied = Error EPERM"
| "kernel_error_of NsInvalidArgument = Error EINVAL"
| "kernel_error_of NsServiceUnavailable = Error 101"
| "kernel_error_of NsTimeout = Error EWOULDBLOCK"
| "kernel_error_of NsInternalError = Error EINVAL"
| "kernel_error_of NsNameTooLong = Error 36"
| "kernel_error_of NsResourceExhausted = Error ENOMEM"
| "kernel_error_of NsDisconnected = Error EPIPE"
| "kernel_error_of (NsSystemError e) = Error e"

section \<open>Message header\<close>

record message_header =
  mh_magic :: u32
  mh_version :: u32
  mh_opcode :: u32
  mh_flags :: u32
  mh_sequence :: u32
  mh_status :: i32
  mh_data_len :: u32
  mh_handle_count :: u32

definition MH_SIZE :: nat where "MH_SIZE = 32"

definition MSG_REQUEST :: u32 where "MSG_REQUEST = 1"
definition MSG_RESPONSE :: u32 where "MSG_RESPONSE = 2"
definition MSG_NOTIFICATION :: u32 where "MSG_NOTIFICATION = 4"
definition MSG_NEED_ACK :: u32 where "MSG_NEED_ACK = 8"

definition new_request :: "op_code \<Rightarrow> u32 \<Rightarrow> message_header" where
  "new_request opc seq =
     \<lparr>mh_magic = PROTOCOL_MAGIC, mh_version = PROTOCOL_VERSION, mh_opcode = op_value opc, mh_flags = MSG_REQUEST, mh_sequence = seq,
      mh_status = 0, mh_data_len = 0, mh_handle_count = 0\<rparr>"

definition new_response :: "u32 \<Rightarrow> status \<Rightarrow> message_header" where
  "new_response seq st =
     \<lparr>mh_magic = PROTOCOL_MAGIC, mh_version = PROTOCOL_VERSION, mh_opcode = 0, mh_flags = MSG_RESPONSE, mh_sequence = seq,
      mh_status = status_value st, mh_data_len = 0, mh_handle_count = 0\<rparr>"

definition new_notification :: "op_code \<Rightarrow> message_header" where
  "new_notification opc =
     \<lparr>mh_magic = PROTOCOL_MAGIC, mh_version = PROTOCOL_VERSION, mh_opcode = op_value opc, mh_flags = MSG_NOTIFICATION, mh_sequence = 0,
      mh_status = 0, mh_data_len = 0, mh_handle_count = 0\<rparr>"

definition mh_is_valid :: "message_header \<Rightarrow> bool" where
  "mh_is_valid h \<longleftrightarrow> mh_magic h = PROTOCOL_MAGIC \<and> mh_version h = PROTOCOL_VERSION"

abbreviation u32_bytes :: "u32 \<Rightarrow> u8 list" where
  "u32_bytes w \<equiv> le_bytes 4 (unat w)"

abbreviation u64_bytes :: "u64 \<Rightarrow> u8 list" where
  "u64_bytes w \<equiv> le_bytes 8 (unat w)"

definition mh_to_bytes :: "message_header \<Rightarrow> u8 list" where
  "mh_to_bytes h = u32_bytes (mh_magic h) @ u32_bytes (mh_version h) @ u32_bytes (mh_opcode h) @ u32_bytes (mh_flags h) @
     u32_bytes (mh_sequence h) @ u32_bytes (mh_status h) @ u32_bytes (mh_data_len h) @ u32_bytes (mh_handle_count h)"

definition mh_read :: "u8 list \<Rightarrow> message_header" where
  "mh_read bs = \<lparr>mh_magic = field bs 0 4, mh_version = field bs 4 4, mh_opcode = field bs 8 4, mh_flags = field bs 12 4,
     mh_sequence = field bs 16 4, mh_status = field bs 20 4, mh_data_len = field bs 24 4, mh_handle_count = field bs 28 4\<rparr>"

definition mh_from_bytes :: "u8 list \<Rightarrow> message_header option" where
  "mh_from_bytes bs = (if length bs < MH_SIZE then None else if mh_is_valid (mh_read bs) then Some (mh_read bs) else None)"

section \<open>Flags and requests\<close>

definition SF_EXCLUSIVE :: u32 where "SF_EXCLUSIVE = 1"
definition SF_PERSISTENT :: u32 where "SF_PERSISTENT = 2"
definition SF_SYSTEM :: u32 where "SF_SYSTEM = 4"
definition SF_HIDDEN :: u32 where "SF_HIDDEN = 8"
definition SF_MULTI_INSTANCE :: u32 where "SF_MULTI_INSTANCE = 16"

definition sf_known :: u32 where
  "sf_known = SF_EXCLUSIVE OR SF_PERSISTENT OR SF_SYSTEM OR SF_HIDDEN OR SF_MULTI_INSTANCE"

definition WE_ONLINE :: u32 where "WE_ONLINE = 1"
definition WE_OFFLINE :: u32 where "WE_OFFLINE = 2"
definition WE_ALL :: u32 where "WE_ALL = WE_ONLINE OR WE_OFFLINE"

record register_request =
  rr_flags :: u32
  rr_name_len :: u32
  rr_desc_len :: u32
  rr_reserved :: u32

definition rr_bytes :: "register_request \<Rightarrow> u8 list" where
  "rr_bytes r = u32_bytes (rr_flags r) @ u32_bytes (rr_name_len r) @ u32_bytes (rr_desc_len r) @ u32_bytes (rr_reserved r)"

definition rr_read :: "u8 list \<Rightarrow> register_request" where
  "rr_read bs = \<lparr>rr_flags = field bs 0 4, rr_name_len = field bs 4 4, rr_desc_len = field bs 8 4, rr_reserved = field bs 12 4\<rparr>"

text \<open>\<open>LookupRequest\<close>, \<open>ListRequest\<close>, \<open>ListResponse\<close> and \<open>WatchRequest\<close> are two words each.\<close>

record lookup_request =
  lr_name_len :: u32
  lr_timeout_ms :: u32

definition lr_bytes :: "lookup_request \<Rightarrow> u8 list" where
  "lr_bytes r = u32_bytes (lr_name_len r) @ u32_bytes (lr_timeout_ms r)"

definition lr_read :: "u8 list \<Rightarrow> lookup_request" where
  "lr_read bs = \<lparr>lr_name_len = field bs 0 4, lr_timeout_ms = field bs 4 4\<rparr>"

record list_request =
  lq_limit :: u32
  lq_contain_name_len :: u32

definition lq_bytes :: "list_request \<Rightarrow> u8 list" where
  "lq_bytes r = u32_bytes (lq_limit r) @ u32_bytes (lq_contain_name_len r)"

definition lq_read :: "u8 list \<Rightarrow> list_request" where
  "lq_read bs = \<lparr>lq_limit = field bs 0 4, lq_contain_name_len = field bs 4 4\<rparr>"

record list_response =
  ln_total_count :: u32
  ln_returned_count :: u32

definition ln_bytes :: "list_response \<Rightarrow> u8 list" where
  "ln_bytes r = u32_bytes (ln_total_count r) @ u32_bytes (ln_returned_count r)"

definition ln_read :: "u8 list \<Rightarrow> list_response" where
  "ln_read bs = \<lparr>ln_total_count = field bs 0 4, ln_returned_count = field bs 4 4\<rparr>"

record watch_request =
  wr_name_len :: u32
  wr_events :: u32

definition wr_bytes :: "watch_request \<Rightarrow> u8 list" where
  "wr_bytes r = u32_bytes (wr_name_len r) @ u32_bytes (wr_events r)"

definition wr_read :: "u8 list \<Rightarrow> watch_request" where
  "wr_read bs = \<lparr>wr_name_len = field bs 0 4, wr_events = field bs 4 4\<rparr>"

text \<open>\<open>ServiceInfo\<close> has four bytes of padding after \<open>flags\<close>. The server sends whatever they hold; \<open>pad\<close> stands for it.\<close>

record service_info =
  si_service_id :: u64
  si_flags :: u32
  si_registered_at :: u64
  si_connection_count :: u32
  si_name_len :: u32
  si_desc_len :: u32
  si_owner_pid :: u32

definition SI_SIZE :: nat where "SI_SIZE = 40"

definition si_bytes :: "u32 \<Rightarrow> service_info \<Rightarrow> u8 list" where
  "si_bytes pad i = u64_bytes (si_service_id i) @ u32_bytes (si_flags i) @ u32_bytes pad @ u64_bytes (si_registered_at i) @
     u32_bytes (si_connection_count i) @ u32_bytes (si_name_len i) @ u32_bytes (si_desc_len i) @ u32_bytes (si_owner_pid i)"

definition si_read :: "u8 list \<Rightarrow> service_info" where
  "si_read bs = \<lparr>si_service_id = field bs 0 8, si_flags = field bs 8 4, si_registered_at = field bs 16 8, si_connection_count = field bs 24 4,
     si_name_len = field bs 28 4, si_desc_len = field bs 32 4, si_owner_pid = field bs 36 4\<rparr>"

record notification_data =
  nd_service_id :: u64
  nd_name_len :: u32
  nd_reserved :: u32

definition ND_SIZE :: nat where "ND_SIZE = 16"

definition nd_bytes :: "notification_data \<Rightarrow> u8 list" where
  "nd_bytes d = u64_bytes (nd_service_id d) @ u32_bytes (nd_name_len d) @ u32_bytes (nd_reserved d)"

definition nd_read :: "u8 list \<Rightarrow> notification_data" where
  "nd_read bs = \<lparr>nd_service_id = field bs 0 8, nd_name_len = field bs 8 4, nd_reserved = field bs 12 4\<rparr>"

section \<open>Round trips\<close>

named_theorems wire_simps \<open>reading back what was written\<close>

lemma op_roundtrip [simp]: "op_from (op_value opc) = opc"
  by (cases opc) (simp_all add: op_from_def)

lemma status_roundtrip [simp]: "status_from (status_value st) = st"
  by (cases st) (simp_all add: status_from_def)

lemma status_zero_iff [simp]: "status_value st = 0 \<longleftrightarrow> st = StOk"
  by (cases st) simp_all

lemma wire_lengths [simp]:
  "length (mh_to_bytes h) = 32" "length (rr_bytes r) = 16" "length (lr_bytes l) = 8" "length (lq_bytes q) = 8" "length (ln_bytes n) = 8"
  "length (wr_bytes w) = 8" "length (si_bytes pad i) = 40" "length (nd_bytes d) = 16"
  by (simp_all add: mh_to_bytes_def rr_bytes_def lr_bytes_def lq_bytes_def ln_bytes_def wr_bytes_def si_bytes_def nd_bytes_def)

lemma mh_roundtrip [wire_simps]: "mh_read (mh_to_bytes h @ rest) = h"
  by (simp add: mh_read_def mh_to_bytes_def field_def field_word)

lemma rr_roundtrip [wire_simps]: "rr_read (rr_bytes r @ rest) = r"
  by (simp add: rr_read_def rr_bytes_def field_def field_word)

lemma lr_roundtrip [wire_simps]: "lr_read (lr_bytes r @ rest) = r"
  by (simp add: lr_read_def lr_bytes_def field_def field_word)

lemma lq_roundtrip [wire_simps]: "lq_read (lq_bytes r @ rest) = r"
  by (simp add: lq_read_def lq_bytes_def field_def field_word)

lemma ln_roundtrip [wire_simps]: "ln_read (ln_bytes r @ rest) = r"
  by (simp add: ln_read_def ln_bytes_def field_def field_word)

lemma wr_roundtrip [wire_simps]: "wr_read (wr_bytes r @ rest) = r"
  by (simp add: wr_read_def wr_bytes_def field_def field_word)

lemma si_roundtrip [wire_simps]: "si_read (si_bytes pad i @ rest) = i"
  by (simp add: si_read_def si_bytes_def field_def field_word)

lemma nd_roundtrip [wire_simps]: "nd_read (nd_bytes d @ rest) = d"
  by (simp add: nd_read_def nd_bytes_def field_def field_word)

lemma mh_from_to_bytes: "mh_is_valid h \<Longrightarrow> mh_from_bytes (mh_to_bytes h @ rest) = Some h"
  by (simp add: mh_from_bytes_def MH_SIZE_def wire_simps)

lemma new_headers_valid [simp]: "mh_is_valid (new_request opc seq)" "mh_is_valid (new_response seq st)" "mh_is_valid (new_notification opc)"
  by (simp_all add: mh_is_valid_def new_request_def new_response_def new_notification_def)

lemma mh_is_valid_update [simp]:
  "mh_is_valid (h\<lparr>mh_data_len := n\<rparr>) = mh_is_valid h" "mh_is_valid (h\<lparr>mh_handle_count := n\<rparr>) = mh_is_valid h"
  by (simp_all add: mh_is_valid_def)

end
