(* ===== verification/Driver_Protocol.thy ===== *)
theory Driver_Protocol
  imports Name_Protocol Dma
begin

text \<open>
  The messages between drivers and their clients: \<open>libdriver/src/protocol.rs\<close>. A message is a header of six words and the data it announces; a structure is written and read
  field by field, as \<open>repr(C)\<close> lays it out, and \<open>pad\<close> stands for what the padding holds.
\<close>

section \<open>Header\<close>

record driver_header =
  dh_op :: u32
  dh_flags :: u32
  dh_request_id :: u32
  dh_data_len :: u32
  dh_handle_count :: u32
  dh_status :: i32

definition MF_REQUEST :: u32 where "MF_REQUEST = 1"
definition MF_RESPONSE :: u32 where "MF_RESPONSE = 2"
definition MF_NEED_REPLY :: u32 where "MF_NEED_REPLY = 4"
definition MF_ONE_WAY :: u32 where "MF_ONE_WAY = 8"
definition MF_HAS_BUFFER :: u32 where "MF_HAS_BUFFER = 16"
definition MF_URGENT :: u32 where "MF_URGENT = 32"

definition DH_SIZE :: nat where "DH_SIZE = 24"

definition dh_new_request :: "u32 \<Rightarrow> u32 \<Rightarrow> driver_header" where
  "dh_new_request opc request_id =
     \<lparr>dh_op = opc, dh_flags = MF_REQUEST OR MF_NEED_REPLY, dh_request_id = request_id, dh_data_len = 0, dh_handle_count = 0, dh_status = 0\<rparr>"

definition dh_new_response :: "u32 \<Rightarrow> i32 \<Rightarrow> driver_header" where
  "dh_new_response request_id status =
     \<lparr>dh_op = 0, dh_flags = MF_RESPONSE, dh_request_id = request_id, dh_data_len = 0, dh_handle_count = 0, dh_status = status\<rparr>"

definition dh_new_oneway :: "u32 \<Rightarrow> driver_header" where
  "dh_new_oneway opc =
     \<lparr>dh_op = opc, dh_flags = MF_REQUEST OR MF_ONE_WAY, dh_request_id = 0, dh_data_len = 0, dh_handle_count = 0, dh_status = 0\<rparr>"

definition dh_to_bytes :: "driver_header \<Rightarrow> u8 list" where
  "dh_to_bytes h = u32_bytes (dh_op h) @ u32_bytes (dh_flags h) @ u32_bytes (dh_request_id h) @ u32_bytes (dh_data_len h) @
     u32_bytes (dh_handle_count h) @ u32_bytes (dh_status h)"

definition dh_read :: "u8 list \<Rightarrow> driver_header" where
  "dh_read bs = \<lparr>dh_op = field bs 0 4, dh_flags = field bs 4 4, dh_request_id = field bs 8 4, dh_data_len = field bs 12 4,
     dh_handle_count = field bs 16 4, dh_status = field bs 20 4\<rparr>"

definition dh_from_bytes :: "u8 list \<Rightarrow> driver_header option" where
  "dh_from_bytes bs = (if length bs < DH_SIZE then None else Some (dh_read bs))"

section \<open>Operations\<close>

datatype driver_op = DrvOpen | DrvClose | DrvRead | DrvWrite | DrvIoctl | DrvGetBuffer | DrvReleaseBuffer | DrvMapMmio | DrvWaitIrq | DrvAckIrq | DrvUserDefined

fun driver_op_value :: "driver_op \<Rightarrow> u32" where
  "driver_op_value DrvOpen = 1"
| "driver_op_value DrvClose = 2"
| "driver_op_value DrvRead = 10"
| "driver_op_value DrvWrite = 11"
| "driver_op_value DrvIoctl = 12"
| "driver_op_value DrvGetBuffer = 20"
| "driver_op_value DrvReleaseBuffer = 21"
| "driver_op_value DrvMapMmio = 22"
| "driver_op_value DrvWaitIrq = 30"
| "driver_op_value DrvAckIrq = 31"
| "driver_op_value DrvUserDefined = 256"

definition driver_op_from :: "u32 \<Rightarrow> driver_op" where
  "driver_op_from v =
     (if v = 1 then DrvOpen else if v = 2 then DrvClose else if v = 10 then DrvRead else if v = 11 then DrvWrite else if v = 12 then DrvIoctl
      else if v = 20 then DrvGetBuffer else if v = 21 then DrvReleaseBuffer else if v = 22 then DrvMapMmio else if v = 30 then DrvWaitIrq
      else if v = 31 then DrvAckIrq else DrvUserDefined)"

section \<open>Requests and responses\<close>

record drv_message =
  dm_header :: driver_header
  dm_data :: "u8 list"
  dm_handles :: "u32 list"

type_synonym drv_request = drv_message
type_synonym drv_response = drv_message

definition drv_request_new :: "driver_op \<Rightarrow> u32 \<Rightarrow> drv_request" where
  "drv_request_new opc request_id = \<lparr>dm_header = dh_new_request (driver_op_value opc) request_id, dm_data = [], dm_handles = []\<rparr>"

definition drv_success :: "u32 \<Rightarrow> drv_response" where
  "drv_success request_id = \<lparr>dm_header = dh_new_response request_id 0, dm_data = [], dm_handles = []\<rparr>"

definition drv_error :: "u32 \<Rightarrow> i32 \<Rightarrow> drv_response" where
  "drv_error request_id status = \<lparr>dm_header = dh_new_response request_id status, dm_data = [], dm_handles = []\<rparr>"

text \<open>\<open>with_data\<close> and \<open>with_handles\<close> are the same for requests and responses, and \<open>as u32\<close> truncates.\<close>

definition with_data :: "u8 list \<Rightarrow> drv_message \<Rightarrow> drv_message" where
  "with_data bs m = m\<lparr>dm_header := (dm_header m)\<lparr>dh_data_len := word_of_nat (length bs)\<rparr>, dm_data := bs\<rparr>"

definition with_handles :: "u32 list \<Rightarrow> drv_message \<Rightarrow> drv_message" where
  "with_handles hs m = m\<lparr>dm_header := (dm_header m)\<lparr>dh_handle_count := word_of_nat (length hs)\<rparr>, dm_handles := hs\<rparr>"

definition dm_is_success :: "drv_response \<Rightarrow> bool" where
  "dm_is_success m \<longleftrightarrow> dh_status (dm_header m) = 0"

definition dm_encode :: "drv_message \<Rightarrow> u8 list" where
  "dm_encode m = dh_to_bytes (dm_header m) @ dm_data m"

section \<open>Arguments\<close>

record io_request =
  io_offset :: u64
  io_length :: u32
  io_flags :: u32

definition io_bytes :: "io_request \<Rightarrow> u8 list" where
  "io_bytes r = u64_bytes (io_offset r) @ u32_bytes (io_length r) @ u32_bytes (io_flags r)"

definition io_read :: "u8 list \<Rightarrow> io_request" where
  "io_read bs = \<lparr>io_offset = field bs 0 8, io_length = field bs 8 4, io_flags = field bs 12 4\<rparr>"

record ioctl_request =
  ic_cmd :: u32
  ic_arg :: u64

definition ic_bytes :: "u32 \<Rightarrow> ioctl_request \<Rightarrow> u8 list" where
  "ic_bytes pad r = u32_bytes (ic_cmd r) @ u32_bytes pad @ u64_bytes (ic_arg r)"

definition ic_read :: "u8 list \<Rightarrow> ioctl_request" where
  "ic_read bs = \<lparr>ic_cmd = field bs 0 4, ic_arg = field bs 8 8\<rparr>"

record buffer_request =
  bfq_size :: u64
  bfq_alignment :: u64
  bfq_flags :: u32

definition bfq_bytes :: "u32 \<Rightarrow> buffer_request \<Rightarrow> u8 list" where
  "bfq_bytes pad r = u64_bytes (bfq_size r) @ u64_bytes (bfq_alignment r) @ u32_bytes (bfq_flags r) @ u32_bytes pad"

definition bfq_read :: "u8 list \<Rightarrow> buffer_request" where
  "bfq_read bs = \<lparr>bfq_size = field bs 0 8, bfq_alignment = field bs 8 8, bfq_flags = field bs 16 4\<rparr>"

section \<open>Round trips\<close>

lemma driver_op_roundtrip [simp]: "driver_op_from (driver_op_value opc) = opc"
  by (cases opc) (simp_all add: driver_op_from_def)

lemma driver_lengths [simp]: "length (dh_to_bytes h) = 24" "length (io_bytes i) = 16" "length (ic_bytes pad c) = 16" "length (bfq_bytes pad b) = 24"
  by (simp_all add: dh_to_bytes_def io_bytes_def ic_bytes_def bfq_bytes_def)

lemma dh_roundtrip [wire_simps]: "dh_read (dh_to_bytes h @ rest) = h"
  by (simp add: dh_read_def dh_to_bytes_def field_def field_word)

lemma io_roundtrip [wire_simps]: "io_read (io_bytes r @ rest) = r"
  by (simp add: io_read_def io_bytes_def field_def field_word)

lemma ic_roundtrip [wire_simps]: "ic_read (ic_bytes pad r @ rest) = r"
  by (simp add: ic_read_def ic_bytes_def field_def field_word)

lemma bfq_roundtrip [wire_simps]: "bfq_read (bfq_bytes pad r @ rest) = r"
  by (simp add: bfq_read_def bfq_bytes_def field_def field_word)

text \<open>A message whose header tells the lengths of its data and its handles.\<close>

definition well_formed :: "drv_message \<Rightarrow> bool" where
  "well_formed m \<longleftrightarrow> unat (dh_data_len (dm_header m)) = length (dm_data m) \<and> unat (dh_handle_count (dm_header m)) = length (dm_handles m)"

lemma well_formed_new [simp]: "well_formed (drv_request_new opc i)" "well_formed (drv_success i)" "well_formed (drv_error i st)"
  by (simp_all add: well_formed_def drv_request_new_def drv_success_def drv_error_def dh_new_request_def dh_new_response_def)

lemma well_formed_with_data [simp]: "well_formed m \<Longrightarrow> length bs < 2 ^ 32 \<Longrightarrow> well_formed (with_data bs m)"
  by (simp add: well_formed_def with_data_def unat_of_nat)

lemma well_formed_with_handles [simp]: "well_formed m \<Longrightarrow> length hs < 2 ^ 32 \<Longrightarrow> well_formed (with_handles hs m)"
  by (simp add: well_formed_def with_handles_def unat_of_nat)

end
