(* ===== verification/User_Calls.thy ===== *)
theory User_Calls
  imports Errors Signals
begin

text \<open>
  What programs in user space ask of the kernel, as \<open>libradon/src\<close> wraps it (\<open>channel.rs\<close>, \<open>port.rs\<close>, \<open>handle.rs\<close>, \<open>syscall.rs\<close>). The servers are
  verified for every kernel: the calls are the fields of a record that acts on an abstract kernel state. The blocking receive
  may not return, which is \<open>None\<close>. A receive yields the whole message; the
  library copies what fits into the caller's buffers and reports the full lengths, as the kernel does.
\<close>

section \<open>The calls\<close>

datatype deadline = Immediate | Infinite | Absolute nat | Relative nat

record 'k kernel_api =
  ka_clock :: "'k \<Rightarrow> (error + nat) \<times> 'k"
  ka_channel_create :: "'k \<Rightarrow> (error + (u32 \<times> u32)) \<times> 'k"
  ka_port_create :: "'k \<Rightarrow> (error + u32) \<times> 'k"
  ka_send :: "u32 \<Rightarrow> u8 list \<Rightarrow> u32 list \<Rightarrow> 'k \<Rightarrow> (error + unit) \<times> 'k"
  ka_try_recv :: "u32 \<Rightarrow> nat \<Rightarrow> nat \<Rightarrow> 'k \<Rightarrow> (error + (u8 list \<times> u32 list)) \<times> 'k"
  ka_close :: "u32 \<Rightarrow> 'k \<Rightarrow> 'k"
  ka_bind :: "u32 \<Rightarrow> nat \<Rightarrow> u32 \<Rightarrow> signals \<Rightarrow> bool \<Rightarrow> 'k \<Rightarrow> (error + unit) \<times> 'k"
  ka_unbind :: "u32 \<Rightarrow> nat \<Rightarrow> 'k \<Rightarrow> 'k"
  ka_wait :: "u32 \<Rightarrow> nat \<Rightarrow> nat \<Rightarrow> 'k \<Rightarrow> (error + (nat \<times> signals) list) \<times> 'k"
  ka_queue :: "u32 \<Rightarrow> nat \<Rightarrow> 'k \<Rightarrow> 'k"
  ka_recv :: "u32 \<Rightarrow> nat \<Rightarrow> nat \<Rightarrow> 'k \<Rightarrow> ((error + (u8 list \<times> u32 list)) \<times> 'k) option"
  ka_init_handle :: "nat \<Rightarrow> 'k \<Rightarrow> (error + u32) \<times> 'k"
  ka_nanosleep :: "nat \<Rightarrow> 'k \<Rightarrow> (error + unit) \<times> 'k"

text \<open>A buffer of fixed size after \<open>xs\<close> has been received into it.\<close>

definition recv_into :: "'a list \<Rightarrow> 'a list \<Rightarrow> 'a list" where
  "recv_into xs buf = take (length buf) xs @ drop (length xs) buf"

lemma length_recv_into [simp]: "length (recv_into xs buf) = length buf"
  by (simp add: recv_into_def)

lemma recv_into_fits: "length xs \<le> length buf \<Longrightarrow> take (length xs) (recv_into xs buf) = xs"
  by (simp add: recv_into_def)

text \<open>\<open>OwnedHandle\<close> and its \<open>Drop\<close>. A \<open>Channel\<close> or \<open>Port\<close> is one owned handle.\<close>

record owned_handle =
  oh_raw :: u32
  oh_nodrop :: bool

definition oh_from_raw :: "u32 \<Rightarrow> owned_handle" where
  "oh_from_raw h = \<lparr>oh_raw = h, oh_nodrop = False\<rparr>"

definition oh_drop :: "'k kernel_api \<Rightarrow> owned_handle \<Rightarrow> 'k \<Rightarrow> 'k" where
  "oh_drop K h k = (if oh_raw h \<noteq> 0 \<and> \<not> oh_nodrop h then ka_close K (oh_raw h) k else k)"

text \<open>\<open>Deadline::to_timeout_ns\<close>.\<close>

definition to_timeout_ns :: "'k kernel_api \<Rightarrow> deadline \<Rightarrow> 'k \<Rightarrow> (error, nat) res \<times> 'k" where
  "to_timeout_ns K d k =
     (case d of
        Immediate \<Rightarrow> (Ok 0, k)
      | Infinite \<Rightarrow> (Ok (2 ^ 64 - 1), k)
      | Absolute t \<Rightarrow>
          (case ka_clock K k of
             (Inl _, k') \<Rightarrow> (Panic, k')
           | (Inr now, k') \<Rightarrow> (chk_add now t, k'))
      | Relative t \<Rightarrow> (Ok t, k))"

section \<open>A sample kernel\<close>

text \<open>A kernel that hands out a list of messages, whatever the channel, and accepts everything else; its state is the list.\<close>

definition script_kernel :: "(u8 list \<times> u32 list) list kernel_api" where
  "script_kernel =
     \<lparr>ka_clock = (\<lambda>k. (Inr 7, k)), ka_channel_create = (\<lambda>k. (Inr (11, 12), k)), ka_port_create = (\<lambda>k. (Inr 10, k)),
      ka_send = (\<lambda>_ _ _ k. (Inr (), k)),
      ka_try_recv = (\<lambda>_ _ _ k. case k of [] \<Rightarrow> (Inl (Error EAGAIN), []) | m # ms \<Rightarrow> (Inr m, ms)),
      ka_close = (\<lambda>_ k. k), ka_bind = (\<lambda>_ _ _ _ _ k. (Inr (), k)), ka_unbind = (\<lambda>_ _ k. k),
      ka_wait = (\<lambda>_ _ _ k. (Inr [], k)), ka_queue = (\<lambda>_ _ k. k),
      ka_recv = (\<lambda>_ _ _ k. case k of [] \<Rightarrow> None | m # ms \<Rightarrow> Some (Inr m, ms)), ka_init_handle = (\<lambda>_ k. (Inr 9, k)),
      ka_nanosleep = (\<lambda>_ k. (Inr (), k))\<rparr>"

lemma script_simps [simp]:
  "ka_clock script_kernel k = (Inr 7, k)" "ka_channel_create script_kernel k = (Inr (11, 12), k)" "ka_port_create script_kernel k = (Inr 10, k)"
  "ka_send script_kernel h bs hs k = (Inr (), k)" "ka_bind script_kernel p i h x b k = (Inr (), k)" "ka_close script_kernel h k = k"
  "ka_try_recv script_kernel h n m [] = (Inl (Error EAGAIN), [])" "ka_try_recv script_kernel h n m (q # qs) = (Inr q, qs)"
  "ka_recv script_kernel h n m (q # qs) = Some (Inr q, qs)" "ka_init_handle script_kernel i k = (Inr 9, k)" "ka_unbind script_kernel p i k = k"
  "ka_nanosleep script_kernel i k = (Inr (), k)"
  by (simp_all add: script_kernel_def)

end
