(* ===== verification/Name_Registry.thy ===== *)
theory Name_Registry
  imports Name_Protocol User_Calls Ordered_Map "HOL-Library.List_Lexorder"
begin

text \<open>
  The tables of the name server: the registered services, indexed by name and by number (\<open>nameserver/src/server/registry.rs\<close>), and the watchers
  (\<open>watcher.rs\<close>). Both indices share one object per service, of which only the count of connections changes; it lives in a cell that the
  records of both indices name. A \<open>BTreeMap\<close> keyed by strings is ordered by their bytes.
\<close>

section \<open>Registry\<close>

record registered_service =
  rs_id :: nat
  rs_name :: "u8 list"
  rs_description :: "u8 list"
  rs_flags :: u32
  rs_registered_at :: nat
  rs_owner_id :: nat
  rs_channel :: owned_handle
  rs_count_cell :: nat

record service_registry =
  rg_max_services :: nat
  rg_next_id :: nat
  rg_by_name :: "(u8 list, registered_service) btree"
  rg_by_id :: "(nat, registered_service) btree"
  rg_cells :: "nat \<Rightarrow> nat"
  rg_next_cell :: nat

definition rs_to_info :: "service_registry \<Rightarrow> registered_service \<Rightarrow> service_info" where
  "rs_to_info r s =
     \<lparr>si_service_id = word_of_nat (rs_id s), si_flags = rs_flags s, si_registered_at = word_of_nat (rs_registered_at s),
      si_connection_count = word_of_nat (rg_cells r (rs_count_cell s)), si_name_len = word_of_nat (length (rs_name s)),
      si_desc_len = word_of_nat (length (rs_description s)), si_owner_pid = word_of_nat (rs_owner_id s)\<rparr>"

definition rg_new :: "nat \<Rightarrow> service_registry" where
  "rg_new max_services =
     \<lparr>rg_max_services = max_services, rg_next_id = 1, rg_by_name = [], rg_by_id = [], rg_cells = (\<lambda>_. 0), rg_next_cell = 0\<rparr>"

text \<open>A channel that is not kept is dropped with the other arguments. \<open>fetch_add\<close> wraps around.\<close>

definition rg_register :: "'k kernel_api \<Rightarrow> u8 list \<Rightarrow> u8 list \<Rightarrow> u32 \<Rightarrow> nat \<Rightarrow> owned_handle \<Rightarrow> service_registry \<times> 'k \<Rightarrow>
    (ns_error, registered_service) res \<times> service_registry \<times> 'k" where
  "rg_register K name description flags owner_id channel rk =
     (let (r, k) = rk
      in if length (rg_by_name r) \<ge> rg_max_services r then (Err NsResourceExhausted, r, oh_drop K channel k)
         else if bt_get (rg_by_name r) name \<noteq> None then (Err NsAlreadyExists, r, oh_drop K channel k)
         else
           let id = rg_next_id r; r1 = r\<lparr>rg_next_id := (id + 1) mod 2 ^ 64\<rparr>
           in case ka_clock K k of
                (Inl _, k1) \<Rightarrow> (Panic, r1, k1)
              | (Inr now, k1) \<Rightarrow>
                  (let service = \<lparr>rs_id = id, rs_name = name, rs_description = description, rs_flags = flags, rs_registered_at = now,
                                  rs_owner_id = owner_id, rs_channel = channel, rs_count_cell = rg_next_cell r\<rparr>
                   in (Ok service,
                       r1\<lparr>rg_by_name := bt_insert name service (rg_by_name r), rg_by_id := bt_insert id service (rg_by_id r),
                          rg_cells := (rg_cells r)(rg_next_cell r := 0), rg_next_cell := Suc (rg_next_cell r)\<rparr>, k1)))"

definition rg_lookup :: "u8 list \<Rightarrow> service_registry \<Rightarrow> registered_service option" where
  "rg_lookup name r = bt_get (rg_by_name r) name"

definition rg_lookup_by_id :: "nat \<Rightarrow> service_registry \<Rightarrow> registered_service option" where
  "rg_lookup_by_id i r = bt_get (rg_by_id r) i"

definition rg_remove :: "u8 list \<Rightarrow> service_registry \<Rightarrow> registered_service option \<times> service_registry" where
  "rg_remove name r =
     (case bt_get (rg_by_name r) name of
        None \<Rightarrow> (None, r)
      | Some s \<Rightarrow> (Some s, r\<lparr>rg_by_name := bt_remove name (rg_by_name r), rg_by_id := bt_remove (rs_id s) (rg_by_id r)\<rparr>))"

definition rg_remove_by_id :: "nat \<Rightarrow> service_registry \<Rightarrow> registered_service option \<times> service_registry" where
  "rg_remove_by_id i r =
     (case bt_get (rg_by_id r) i of
        None \<Rightarrow> (None, r)
      | Some s \<Rightarrow> (Some s, r\<lparr>rg_by_id := bt_remove i (rg_by_id r), rg_by_name := bt_remove (rs_name s) (rg_by_name r)\<rparr>))"

definition rg_list :: "u8 list \<Rightarrow> nat \<Rightarrow> service_registry \<Rightarrow> registered_service list" where
  "rg_list contain_name limit r =
     map snd (take limit (filter (\<lambda>(name, s). sublist contain_name name \<and> \<not> contains (rs_flags s) SF_HIDDEN) (rg_by_name r)))"

definition rg_count :: "service_registry \<Rightarrow> nat" where
  "rg_count r = length (rg_by_name r)"

definition rg_exists :: "u8 list \<Rightarrow> service_registry \<Rightarrow> bool" where
  "rg_exists name r \<longleftrightarrow> bt_get (rg_by_name r) name \<noteq> None"

fun rg_remove_each :: "registered_service list \<Rightarrow> service_registry \<Rightarrow> registered_service list \<times> service_registry" where
  "rg_remove_each [] r = ([], r)"
| "rg_remove_each (s # ss) r =
     (let (x, r1) = rg_remove (rs_name s) r; (xs, r2) = rg_remove_each ss r1
      in (case x of None \<Rightarrow> xs | Some t \<Rightarrow> t # xs, r2))"

definition rg_remove_by_owner :: "nat \<Rightarrow> service_registry \<Rightarrow> registered_service list \<times> service_registry" where
  "rg_remove_by_owner owner_id r = rg_remove_each (filter (\<lambda>s. rs_owner_id s = owner_id) (map snd (rg_by_id r))) r"

text \<open>\<open>connection_count.fetch_add(1)\<close>.\<close>

definition rg_connected :: "registered_service \<Rightarrow> service_registry \<Rightarrow> service_registry" where
  "rg_connected s r = r\<lparr>rg_cells := (rg_cells r)(rs_count_cell s := (rg_cells r (rs_count_cell s) + 1) mod 2 ^ 64)\<rparr>"

section \<open>Watchers\<close>

record watcher =
  wa_id :: u32
  wa_client_id :: nat
  wa_pattern :: "u8 list option"
  wa_events :: u32

record watcher_manager =
  wm_max_watchers :: nat
  wm_next_id :: u32
  wm_watchers :: "(u32, watcher) btree"

definition wa_matches :: "u8 list \<Rightarrow> u32 \<Rightarrow> watcher \<Rightarrow> bool" where
  "wa_matches name event w \<longleftrightarrow> contains (wa_events w) event \<and> (case wa_pattern w of Some p \<Rightarrow> prefix p name | None \<Rightarrow> True)"

definition wm_new :: "nat \<Rightarrow> watcher_manager" where
  "wm_new max_watchers = \<lparr>wm_max_watchers = max_watchers, wm_next_id = 1, wm_watchers = []\<rparr>"

definition wm_add :: "nat \<Rightarrow> u8 list option \<Rightarrow> u32 \<Rightarrow> watcher_manager \<Rightarrow> u32 \<times> watcher_manager" where
  "wm_add client_id pattern events m =
     (let id = wm_next_id m; w = \<lparr>wa_id = id, wa_client_id = client_id, wa_pattern = pattern, wa_events = events\<rparr>
      in (id, m\<lparr>wm_next_id := id + 1, wm_watchers := bt_insert id w (wm_watchers m)\<rparr>))"

definition wm_remove :: "u32 \<Rightarrow> watcher_manager \<Rightarrow> watcher_manager" where
  "wm_remove i m = m\<lparr>wm_watchers := bt_remove i (wm_watchers m)\<rparr>"

definition wm_remove_by_client :: "nat \<Rightarrow> watcher_manager \<Rightarrow> watcher_manager" where
  "wm_remove_by_client client_id m = m\<lparr>wm_watchers := filter (\<lambda>(_, w). wa_client_id w \<noteq> client_id) (wm_watchers m)\<rparr>"

definition wm_count :: "watcher_manager \<Rightarrow> nat" where
  "wm_count m = length (wm_watchers m)"

section \<open>The indices agree\<close>

text \<open>Both indices hold the same services, under their names and numbers, no more than allowed, and no two share a cell.\<close>

definition registry_ok :: "service_registry \<Rightarrow> bool" where
  "registry_ok r \<longleftrightarrow> bt_wf (rg_by_name r) \<and> bt_wf (rg_by_id r) \<and> length (rg_by_name r) \<le> rg_max_services r \<and> rg_next_id r < 2 ^ 64 \<and>
     (\<forall>name s. rg_lookup name r = Some s \<longrightarrow> rs_name s = name \<and> rg_lookup_by_id (rs_id s) r = Some s \<and>
        rs_id s < rg_next_id r \<and> rs_count_cell s < rg_next_cell r) \<and>
     (\<forall>i s. rg_lookup_by_id i r = Some s \<longrightarrow> rs_id s = i \<and> rg_lookup (rs_name s) r = Some s) \<and>
     (\<forall>m n s t. rg_lookup m r = Some s \<longrightarrow> rg_lookup n r = Some t \<longrightarrow> rs_count_cell s = rs_count_cell t \<longrightarrow> m = n)"

text \<open>The services of a registry, as a set.\<close>

definition services :: "service_registry \<Rightarrow> registered_service set" where
  "services r = {s. rg_lookup (rs_name s) r = Some s}"

lemma registry_okD:
  assumes "registry_ok r"
  shows "bt_wf (rg_by_name r)" "bt_wf (rg_by_id r)" "length (rg_by_name r) \<le> rg_max_services r" "rg_next_id r < 2 ^ 64"
    and "rg_lookup name r = Some s \<Longrightarrow> rs_name s = name" "rg_lookup name r = Some s \<Longrightarrow> rg_lookup_by_id (rs_id s) r = Some s"
    and "rg_lookup name r = Some s \<Longrightarrow> rs_id s < rg_next_id r" "rg_lookup name r = Some s \<Longrightarrow> rs_count_cell s < rg_next_cell r"
    and "rg_lookup_by_id i r = Some s \<Longrightarrow> rs_id s = i" "rg_lookup_by_id i r = Some s \<Longrightarrow> rg_lookup (rs_name s) r = Some s"
    and "rg_lookup m r = Some s \<Longrightarrow> rg_lookup n r = Some t \<Longrightarrow> rs_count_cell s = rs_count_cell t \<Longrightarrow> m = n"
  using assms unfolding registry_ok_def by blast+

lemma lookup_service: "registry_ok r \<Longrightarrow> rg_lookup name r = Some s \<longleftrightarrow> s \<in> services r \<and> rs_name s = name"
  by (auto simp: services_def dest: registry_okD(5))

lemma lookup_by_id_service: "registry_ok r \<Longrightarrow> rg_lookup_by_id i r = Some s \<longleftrightarrow> s \<in> services r \<and> rs_id s = i"
  by (auto simp: services_def dest: registry_okD(6,9,10))

lemma registry_ok_new [simp]: "registry_ok (rg_new n)" "services (rg_new n) = {}" "rg_next_id (rg_new n) = 1"
  by (simp_all add: registry_ok_def rg_new_def rg_lookup_def rg_lookup_by_id_def services_def)

text \<open>Adding a service under a fresh name.\<close>

definition rg_added :: "registered_service \<Rightarrow> service_registry \<Rightarrow> service_registry" where
  "rg_added s r = r\<lparr>rg_next_id := (rg_next_id r + 1) mod 2 ^ 64, rg_by_name := bt_insert (rs_name s) s (rg_by_name r),
     rg_by_id := bt_insert (rs_id s) s (rg_by_id r), rg_cells := (rg_cells r)(rg_next_cell r := 0), rg_next_cell := Suc (rg_next_cell r)\<rparr>"

lemma lookup_added:
  "rg_lookup name (rg_added s r) = (if name = rs_name s then Some s else rg_lookup name r)"
  "rg_lookup_by_id i (rg_added s r) = (if i = rs_id s then Some s else rg_lookup_by_id i r)"
  by (simp_all add: rg_lookup_def rg_lookup_by_id_def rg_added_def)

lemma registry_added:
  assumes ok: "registry_ok r" and new: "rg_lookup (rs_name s) r = None" and s: "rs_id s = rg_next_id r" "rs_count_cell s = rg_next_cell r"
    and room: "length (rg_by_name r) < rg_max_services r" "rg_next_id r + 1 < 2 ^ 64"
  shows "registry_ok (rg_added s r)" and "services (rg_added s r) = insert s (services r)"
proof -
  have fresh: "rg_lookup_by_id (rs_id s) r = None"
    using registry_okD(7,9,10)[OF ok] s(1) by (metis less_irrefl not_None_eq)
  have len: "length (rg_by_name (rg_added s r)) = Suc (length (rg_by_name r))"
    using btm.length_entries_put[OF registry_okD(1)[OF ok]] new by (simp add: rg_added_def rg_lookup_def)
  note D = registry_okD[OF ok]
  have sel: "bt_wf (rg_by_name (rg_added s r))" "bt_wf (rg_by_id (rg_added s r))" "rg_max_services (rg_added s r) = rg_max_services r"
    "rg_next_id (rg_added s r) = Suc (rg_next_id r)" "rg_next_cell (rg_added s r) = Suc (rg_next_cell r)"
    using D(1,2) room(2) by (simp_all add: rg_added_def)
  have old: "rs_id t \<noteq> rs_id s \<and> rs_count_cell t \<noteq> rs_count_cell s" if "rg_lookup name r = Some t" for name t
    using D(7,8)[OF that] s by simp
  show "registry_ok (rg_added s r)"
    unfolding registry_ok_def lookup_added len sel
  proof (intro conjI allI impI)
    fix name t
    assume t: "(if name = rs_name s then Some s else rg_lookup name r) = Some t"
    have "t = s \<and> name = rs_name s \<or> rg_lookup name r = Some t \<and> rs_name t = name \<and> rg_lookup_by_id (rs_id t) r = Some t \<and>
        rs_id t < rg_next_id r \<and> rs_count_cell t < rg_next_cell r \<and> rs_id t \<noteq> rs_id s"
      using t D(5-8)[of name t] old[of name t] by (simp split: if_splits)
    then show "rs_name t = name" "rs_id t < Suc (rg_next_id r)" "rs_count_cell t < Suc (rg_next_cell r)"
      "(if rs_id t = rs_id s then Some s else rg_lookup_by_id (rs_id t) r) = Some t"
      using s by (elim disjE conjE; simp)+
  next
    fix i t
    assume t: "(if i = rs_id s then Some s else rg_lookup_by_id i r) = Some t"
    show "rs_id t = i" using t D(9)[of i t] by (cases "i = rs_id s") simp_all
    show "(if rs_name t = rs_name s then Some s else rg_lookup (rs_name t) r) = Some t"
      using t D(10)[of i t] new by (cases "i = rs_id s") auto
  next
    fix m n t u
    assume "(if m = rs_name s then Some s else rg_lookup m r) = Some t" "(if n = rs_name s then Some s else rg_lookup n r) = Some u"
      "rs_count_cell t = rs_count_cell u"
    then show "m = n" using old[of m t] old[of n u] D(11)[of m t n u] by (cases "m = rs_name s"; cases "n = rs_name s") auto
  qed (use room sel in simp_all)
  show "services (rg_added s r) = insert s (services r)"
    using new by (auto simp: services_def lookup_added split: if_splits)
qed

lemma rg_register_cases [consumes 1, case_names Full Exists NoClock Added]:
  assumes "rg_register K name description flags owner ch (r, k) = (x, r', k')"
  obtains "rg_max_services r \<le> length (rg_by_name r)" "x = Err NsResourceExhausted" "r' = r" "k' = oh_drop K ch k"
  | "rg_lookup name r \<noteq> None" "x = Err NsAlreadyExists" "r' = r" "k' = oh_drop K ch k"
  | e where "ka_clock K k = (Inl e, k')" "x = Panic" "r' = r\<lparr>rg_next_id := (rg_next_id r + 1) mod 2 ^ 64\<rparr>"
  | now s where "length (rg_by_name r) < rg_max_services r" "rg_lookup name r = None" "ka_clock K k = (Inr now, k')" "x = Ok s" "r' = rg_added s r"
      "s = \<lparr>rs_id = rg_next_id r, rs_name = name, rs_description = description, rs_flags = flags, rs_registered_at = now,
            rs_owner_id = owner, rs_channel = ch, rs_count_cell = rg_next_cell r\<rparr>"
proof -
  let ?n = "length (rg_by_name r)"
  obtain c k1 where c: "ka_clock K k = (c, k1)" by fastforce
  consider "rg_max_services r \<le> ?n" | "?n < rg_max_services r" "rg_lookup name r \<noteq> None"
    | e where "?n < rg_max_services r" "rg_lookup name r = None" "c = Inl e" | now where "?n < rg_max_services r" "rg_lookup name r = None" "c = Inr now"
    by (cases c) (auto simp: not_le[symmetric])
  then show thesis
  proof cases
    case 1
    with assms show thesis by (intro that(1)) (simp_all add: rg_register_def)
  next
    case 2
    with assms show thesis by (intro that(2)) (simp_all add: rg_register_def rg_lookup_def)
  next
    case 3
    with assms c show thesis by (intro that(3)[of e]) (simp_all add: rg_register_def rg_lookup_def Let_def)
  next
    case (4 now)
    with assms c show thesis by (intro that(4)[of now, OF _ _ _ _ _ refl]) (simp_all add: rg_register_def rg_lookup_def rg_added_def Let_def)
  qed
qed

text \<open>Removing a service.\<close>

definition rg_removed :: "registered_service \<Rightarrow> service_registry \<Rightarrow> service_registry" where
  "rg_removed s r = r\<lparr>rg_by_name := bt_remove (rs_name s) (rg_by_name r), rg_by_id := bt_remove (rs_id s) (rg_by_id r)\<rparr>"

lemma lookup_removed:
  "rg_lookup name (rg_removed s r) = (if name = rs_name s then None else rg_lookup name r)"
  "rg_lookup_by_id i (rg_removed s r) = (if i = rs_id s then None else rg_lookup_by_id i r)"
  by (simp_all add: rg_lookup_def rg_lookup_by_id_def rg_removed_def)

lemma registry_removed:
  assumes ok: "registry_ok r" and s: "s \<in> services r"
  shows "registry_ok (rg_removed s r)" and "services (rg_removed s r) = services r - {s}"
proof -
  note D = registry_okD[OF ok]
  have look: "rg_lookup (rs_name s) r = Some s" "rg_lookup_by_id (rs_id s) r = Some s"
    using s lookup_by_id_service[OF ok] by (auto simp: services_def)
  have "length (rg_by_name (rg_removed s r)) \<le> length (rg_by_name r)" by (simp add: rg_removed_def bt_remove_def)
  then have len: "length (rg_by_name (rg_removed s r)) \<le> rg_max_services r" using D(3) by simp
  have inj: "rs_name t = rs_name s \<longleftrightarrow> rs_id t = rs_id s" if "rg_lookup (rs_name t) r = Some t" for t
    using look that D(6)[OF that] by force
  have sel: "bt_wf (rg_by_name (rg_removed s r))" "bt_wf (rg_by_id (rg_removed s r))" "rg_max_services (rg_removed s r) = rg_max_services r"
    "rg_next_id (rg_removed s r) = rg_next_id r" "rg_next_cell (rg_removed s r) = rg_next_cell r"
    using D(1,2) by (simp_all add: rg_removed_def)
  show "registry_ok (rg_removed s r)"
    unfolding registry_ok_def lookup_removed sel
  proof (intro conjI allI impI)
    fix name t
    assume "(if name = rs_name s then None else rg_lookup name r) = Some t"
    then have t: "name \<noteq> rs_name s" "rg_lookup name r = Some t" by (auto split: if_splits)
    with D(5)[OF t(2)] inj[of t] show "rs_name t = name" "rs_id t < rg_next_id r" "rs_count_cell t < rg_next_cell r"
      "(if rs_id t = rs_id s then None else rg_lookup_by_id (rs_id t) r) = Some t" using D(6-8)[OF t(2)] by auto
  next
    fix i t
    assume "(if i = rs_id s then None else rg_lookup_by_id i r) = Some t"
    then have t: "i \<noteq> rs_id s" "rg_lookup_by_id i r = Some t" by (auto split: if_splits)
    with D(9,10)[OF t(2)] inj[of t] show "rs_id t = i" "(if rs_name t = rs_name s then None else rg_lookup (rs_name t) r) = Some t" by auto
  next
    fix m n t u
    assume "(if m = rs_name s then None else rg_lookup m r) = Some t" "(if n = rs_name s then None else rg_lookup n r) = Some u"
      "rs_count_cell t = rs_count_cell u"
    then show "m = n" using D(11) by (metis option.distinct(1))
  qed (use len D(4) sel in simp_all)
  show "services (rg_removed s r) = services r - {s}"
    using look by (auto simp: services_def lookup_removed split: if_splits)
qed

lemma rg_remove_eq:
  "registry_ok r \<Longrightarrow> rg_remove name r = (case rg_lookup name r of None \<Rightarrow> (None, r) | Some s \<Rightarrow> (Some s, rg_removed s r))"
  by (auto simp: rg_remove_def rg_lookup_def rg_removed_def dest: registry_okD(5)[unfolded rg_lookup_def] split: option.splits)

lemma rg_remove_by_id_eq:
  "registry_ok r \<Longrightarrow> rg_remove_by_id i r = (case rg_lookup_by_id i r of None \<Rightarrow> (None, r) | Some s \<Rightarrow> (Some s, rg_removed s r))"
  by (auto simp: rg_remove_by_id_def rg_lookup_by_id_def rg_removed_def dest: registry_okD(9)[unfolded rg_lookup_by_id_def] split: option.splits)

text \<open>A connection counts in one cell.\<close>

lemma registry_connected [simp]:
  "registry_ok (rg_connected s r) = registry_ok r" "services (rg_connected s r) = services r" "rg_lookup name (rg_connected s r) = rg_lookup name r"
  "rg_next_id (rg_connected s r) = rg_next_id r"
  by (simp_all add: registry_ok_def rg_connected_def services_def rg_lookup_def rg_lookup_by_id_def)

lemma services_next_id [simp]: "services (r\<lparr>rg_next_id := n\<rparr>) = services r"
  by (simp add: services_def rg_lookup_def)

lemma rg_count_services:
  assumes "registry_ok r"
  shows "rg_count r = card (services r)"
proof -
  have "distinct (rg_by_name r)" "distinct (map fst (rg_by_name r))"
    using btm.distinct_entries btm.distinct_keys registry_okD(1)[OF assms] by blast+
  moreover have mem: "(name, s) \<in> set (rg_by_name r) \<longleftrightarrow> rg_lookup name r = Some s" for name s
    using btm.entries_get[OF registry_okD(1)[OF assms]] by (simp add: rg_lookup_def)
  then have "s \<in> snd ` set (rg_by_name r) \<longleftrightarrow> (\<exists>name. rg_lookup name r = Some s)" for s by (simp add: image_iff Bex_def)
  then have "services r = snd ` set (rg_by_name r)" using lookup_service[OF assms] by auto
  moreover have "inj_on snd (set (rg_by_name r))"
  proof (intro inj_onI)
    fix x y assume xy: "x \<in> set (rg_by_name r)" "y \<in> set (rg_by_name r)" "snd x = snd y"
    then have "rg_lookup (fst x) r = Some (snd x)" "rg_lookup (fst y) r = Some (snd x)" using mem by (metis prod.collapse)+
    then have "fst x = fst y" using registry_okD(5)[OF assms] by metis
    then show "x = y" using xy(3) by (rule prod_eqI)
  qed
  ultimately show ?thesis by (simp add: rg_count_def card_image distinct_card)
qed

end
