(* ===== verification/Bootstrap.thy ===== *)
theory Bootstrap
  imports Name_Registry
begin

text \<open>
  How a process reaches its first service: \<open>bootstrap/src/protocol.rs\<close>, \<open>client.rs\<close> and \<open>handler.rs\<close>, and the initial handle of \<open>libradon/src/process.rs\<close>. The handler runs in
  the init process, with one channel per child; privileged children may register services, and every child may ask for a channel to one.
  The handler runs in one thread and reads the table of children beside its lock, so no call waits for a lock.
\<close>

section \<open>Protocol\<close>

definition BOOTSTRAP_MAGIC :: u32 where "BOOTSTRAP_MAGIC = 0x424F4F54"
definition MAX_SERVICE_NAME :: nat where "MAX_SERVICE_NAME = 64"

datatype request_type = GetService | RegisterProvider | ListServices | Ping

fun rt_value :: "request_type \<Rightarrow> u32" where
  "rt_value GetService = 1"
| "rt_value RegisterProvider = 2"
| "rt_value ListServices = 3"
| "rt_value Ping = 4"

definition rt_from :: "u32 \<Rightarrow> request_type" where
  "rt_from v = (if v = 1 then GetService else if v = 2 then RegisterProvider else if v = 3 then ListServices else if v = 4 then Ping else GetService)"

datatype response_status = BsOk | BsNotFound | BsAlreadyExists | BsPermissionDenied | BsInvalidRequest | BsServiceUnavailable

fun bs_value :: "response_status \<Rightarrow> i32" where
  "bs_value BsOk = 0"
| "bs_value BsNotFound = - 1"
| "bs_value BsAlreadyExists = - 2"
| "bs_value BsPermissionDenied = - 3"
| "bs_value BsInvalidRequest = - 4"
| "bs_value BsServiceUnavailable = - 5"

definition bs_from :: "i32 \<Rightarrow> response_status" where
  "bs_from v =
     (if v = 0 then BsOk else if v = - 1 then BsNotFound else if v = - 2 then BsAlreadyExists else if v = - 3 then BsPermissionDenied
      else if v = - 4 then BsInvalidRequest else if v = - 5 then BsServiceUnavailable else BsInvalidRequest)"

record bootstrap_request =
  bq_magic :: u32
  bq_request_type :: u32
  bq_name_len :: u32
  bq_reserved :: u32

definition BQ_SIZE :: nat where "BQ_SIZE = 16"

definition bq_new :: "request_type \<Rightarrow> nat \<Rightarrow> bootstrap_request" where
  "bq_new t name_len = \<lparr>bq_magic = BOOTSTRAP_MAGIC, bq_request_type = rt_value t, bq_name_len = word_of_nat name_len, bq_reserved = 0\<rparr>"

definition bq_is_valid :: "bootstrap_request \<Rightarrow> bool" where
  "bq_is_valid q \<longleftrightarrow> bq_magic q = BOOTSTRAP_MAGIC"

definition bq_to_bytes :: "bootstrap_request \<Rightarrow> u8 list" where
  "bq_to_bytes q = u32_bytes (bq_magic q) @ u32_bytes (bq_request_type q) @ u32_bytes (bq_name_len q) @ u32_bytes (bq_reserved q)"

definition bq_read :: "u8 list \<Rightarrow> bootstrap_request" where
  "bq_read bs = \<lparr>bq_magic = field bs 0 4, bq_request_type = field bs 4 4, bq_name_len = field bs 8 4, bq_reserved = field bs 12 4\<rparr>"

definition bq_from_bytes :: "u8 list \<Rightarrow> bootstrap_request option" where
  "bq_from_bytes bs = (if length bs < BQ_SIZE then None else if bq_is_valid (bq_read bs) then Some (bq_read bs) else None)"

record bootstrap_response =
  br_magic :: u32
  br_status :: i32
  br_data_len :: u32
  br_handle_count :: u32

definition BR_SIZE :: nat where "BR_SIZE = 16"

definition br_success :: bootstrap_response where
  "br_success = \<lparr>br_magic = BOOTSTRAP_MAGIC, br_status = bs_value BsOk, br_data_len = 0, br_handle_count = 0\<rparr>"

definition br_error :: "response_status \<Rightarrow> bootstrap_response" where
  "br_error st = \<lparr>br_magic = BOOTSTRAP_MAGIC, br_status = bs_value st, br_data_len = 0, br_handle_count = 0\<rparr>"

definition br_with_handle :: "bootstrap_response \<Rightarrow> bootstrap_response" where
  "br_with_handle r = r\<lparr>br_handle_count := 1\<rparr>"

definition br_is_success :: "bootstrap_response \<Rightarrow> bool" where
  "br_is_success r \<longleftrightarrow> br_status r = 0"

definition br_to_bytes :: "bootstrap_response \<Rightarrow> u8 list" where
  "br_to_bytes r = u32_bytes (br_magic r) @ u32_bytes (br_status r) @ u32_bytes (br_data_len r) @ u32_bytes (br_handle_count r)"

definition br_read :: "u8 list \<Rightarrow> bootstrap_response" where
  "br_read bs = \<lparr>br_magic = field bs 0 4, br_status = field bs 4 4, br_data_len = field bs 8 4, br_handle_count = field bs 12 4\<rparr>"

definition br_from_bytes :: "u8 list \<Rightarrow> bootstrap_response option" where
  "br_from_bytes bs = (if length bs < BR_SIZE then None else Some (br_read bs))"

text \<open>\<open>"NAMESERVER"\<close>.\<close>

definition NAMESERVER :: "u8 list" where
  "NAMESERVER = [0x4E, 0x41, 0x4D, 0x45, 0x53, 0x45, 0x52, 0x56, 0x45, 0x52]"

section \<open>Client\<close>

datatype bootstrap_error = NoBootstrapChannel | ServiceNotFound | BePermissionDenied | InvalidResponse | CommunicationError | BeServiceUnavailable

definition get_bootstrap_channel :: "'k kernel_api \<Rightarrow> 'k \<Rightarrow> (error + owned_handle) \<times> 'k" where
  "get_bootstrap_channel K k =
     (case ka_init_handle K 0 k of
        (Inl e, k1) \<Rightarrow> (Inl e, k1)
      | (Inr h, k1) \<Rightarrow> if h = 0 then (Inl (Error EINVAL), k1) else (Inr ((oh_from_raw h)\<lparr>oh_nodrop := True\<rparr>), k1))"

definition bc_connect :: "'k kernel_api \<Rightarrow> 'k \<Rightarrow> (bootstrap_error + owned_handle) \<times> 'k" where
  "bc_connect K k = (case get_bootstrap_channel K k of (Inl _, k1) \<Rightarrow> (Inl NoBootstrapChannel, k1) | (Inr c, k1) \<Rightarrow> (Inr c, k1))"

text \<open>The buffers are cleared before the call and parsed whatever the length of the message.\<close>

definition read_service :: "u8 list \<Rightarrow> u32 list \<Rightarrow> bootstrap_error + owned_handle" where
  "read_service bs hs =
     (let resp_buf = recv_into bs (replicate 256 0); handles = recv_into hs (replicate 4 0)
      in case br_from_bytes resp_buf of
           None \<Rightarrow> Inl InvalidResponse
         | Some r \<Rightarrow>
             (case bs_from (br_status r) of
                BsOk \<Rightarrow>
                  if length hs > 0 \<and> handles ! 0 \<noteq> 0 then Inr ((oh_from_raw (handles ! 0))\<lparr>oh_nodrop := True\<rparr>) else Inl InvalidResponse
              | BsNotFound \<Rightarrow> Inl ServiceNotFound
              | BsPermissionDenied \<Rightarrow> Inl BePermissionDenied
              | BsServiceUnavailable \<Rightarrow> Inl BeServiceUnavailable
              | _ \<Rightarrow> Inl InvalidResponse))"

definition bc_get_service :: "'k kernel_api \<Rightarrow> owned_handle \<Rightarrow> u8 list \<Rightarrow> 'k \<Rightarrow> ((bootstrap_error + owned_handle) \<times> 'k) option" where
  "bc_get_service K channel name k =
     (if length name > MAX_SERVICE_NAME then Some (Inl InvalidResponse, k)
      else
        (case ka_send K (oh_raw channel) (bq_to_bytes (bq_new GetService (length name)) @ name) [] k of
           (Inl _, k1) \<Rightarrow> Some (Inl CommunicationError, k1)
         | (Inr _, k1) \<Rightarrow>
             (case ka_recv K (oh_raw channel) 256 4 k1 of
                None \<Rightarrow> None
              | Some (Inl _, k2) \<Rightarrow> Some (Inl CommunicationError, k2)
              | Some (Inr (bs, hs), k2) \<Rightarrow> Some (read_service bs hs, k2))))"

definition bc_get_nameserver :: "'k kernel_api \<Rightarrow> owned_handle \<Rightarrow> 'k \<Rightarrow> ((bootstrap_error + owned_handle) \<times> 'k) option" where
  "bc_get_nameserver K channel = bc_get_service K channel NAMESERVER"

definition read_registered_provider :: "u8 list \<Rightarrow> bootstrap_error + unit" where
  "read_registered_provider bs =
     (case br_from_bytes (recv_into bs (replicate 64 0)) of
        None \<Rightarrow> Inl InvalidResponse
      | Some r \<Rightarrow>
          (case bs_from (br_status r) of BsOk \<Rightarrow> Inr () | BsPermissionDenied \<Rightarrow> Inl BePermissionDenied | _ \<Rightarrow> Inl InvalidResponse))"

definition bc_register_provider :: "'k kernel_api \<Rightarrow> owned_handle \<Rightarrow> u8 list \<Rightarrow> u32 \<Rightarrow> 'k \<Rightarrow> ((bootstrap_error + unit) \<times> 'k) option" where
  "bc_register_provider K channel name service k =
     (if length name > MAX_SERVICE_NAME then Some (Inl InvalidResponse, k)
      else
        (case ka_send K (oh_raw channel) (bq_to_bytes (bq_new RegisterProvider (length name)) @ name) [service] k of
           (Inl _, k1) \<Rightarrow> Some (Inl CommunicationError, k1)
         | (Inr _, k1) \<Rightarrow>
             (case ka_recv K (oh_raw channel) 64 0 k1 of
                None \<Rightarrow> None
              | Some (Inl _, k2) \<Rightarrow> Some (Inl CommunicationError, k2)
              | Some (Inr (bs, _), k2) \<Rightarrow> Some (read_registered_provider bs, k2))))"

definition bc_ping :: "'k kernel_api \<Rightarrow> owned_handle \<Rightarrow> 'k \<Rightarrow> ((bootstrap_error + unit) \<times> 'k) option" where
  "bc_ping K channel k =
     (case ka_send K (oh_raw channel) (bq_to_bytes (bq_new Ping 0)) [] k of
        (Inl _, k1) \<Rightarrow> Some (Inl CommunicationError, k1)
      | (Inr _, k1) \<Rightarrow>
          (case ka_recv K (oh_raw channel) 64 0 k1 of
             None \<Rightarrow> None
           | Some (Inl _, k2) \<Rightarrow> Some (Inl CommunicationError, k2)
           | Some (Inr (bs, _), k2) \<Rightarrow>
               Some (case br_from_bytes (recv_into bs (replicate 64 0)) of
                       None \<Rightarrow> Inl InvalidResponse
                     | Some r \<Rightarrow> if br_is_success r then Inr () else Inl CommunicationError, k2)))"

text \<open>The convenience functions. The client's channel is not closed when the client is dropped.\<close>

definition bootstrap_get_service :: "'k kernel_api \<Rightarrow> u8 list \<Rightarrow> 'k \<Rightarrow> ((bootstrap_error + owned_handle) \<times> 'k) option" where
  "bootstrap_get_service K name k =
     (case bc_connect K k of
        (Inl e, k1) \<Rightarrow> Some (Inl e, k1)
      | (Inr c, k1) \<Rightarrow> map_option (\<lambda>(r, k2). (r, oh_drop K c k2)) (bc_get_service K c name k1))"

definition bootstrap_get_nameserver :: "'k kernel_api \<Rightarrow> 'k \<Rightarrow> ((bootstrap_error + owned_handle) \<times> 'k) option" where
  "bootstrap_get_nameserver K k =
     (case bc_connect K k of
        (Inl e, k1) \<Rightarrow> Some (Inl e, k1)
      | (Inr c, k1) \<Rightarrow> map_option (\<lambda>(r, k2). (r, oh_drop K c k2)) (bc_get_nameserver K c k1))"

section \<open>Handler\<close>

record service_entry =
  se_name :: "u8 list"
  se_channel :: owned_handle
  se_is_system :: bool

record child_connection =
  ch_id :: nat
  ch_channel :: owned_handle
  ch_port_key :: nat
  ch_privileged :: bool

record 'k bootstrap_handler =
  bh_port :: owned_handle
  bh_services :: "(u8 list, service_entry) btree"
  bh_children :: "(nat, child_connection) btree"
  bh_next_conn_id :: nat
  bh_running :: bool
  bh_kernel :: 'k

type_synonym ('k, 'a) bh_outcome = "(error, 'a) res \<times> 'k bootstrap_handler"

definition bh_new :: "'k kernel_api \<Rightarrow> 'k \<Rightarrow> (error + 'k bootstrap_handler) \<times> 'k" where
  "bh_new K k =
     (case ka_port_create K k of
        (Inl e, k1) \<Rightarrow> (Inl e, k1)
      | (Inr port, k1) \<Rightarrow>
          (Inr \<lparr>bh_port = oh_from_raw port, bh_services = [], bh_children = [], bh_next_conn_id = 1, bh_running = False, bh_kernel = k1\<rparr>, k1))"

definition register_service :: "'k kernel_api \<Rightarrow> u8 list \<Rightarrow> owned_handle \<Rightarrow> bool \<Rightarrow> 'k bootstrap_handler \<Rightarrow> 'k bootstrap_handler" where
  "register_service K name channel is_system s =
     (let s1 = s\<lparr>bh_services := bt_insert name \<lparr>se_name = name, se_channel = channel, se_is_system = is_system\<rparr> (bh_services s)\<rparr>
      in case bt_get (bh_services s) name of
           None \<Rightarrow> s1
         | Some old \<Rightarrow> s1\<lparr>bh_kernel := oh_drop K (se_channel old) (bh_kernel s)\<rparr>)"

definition ping_service :: "u8 list \<Rightarrow> 'k bootstrap_handler \<Rightarrow> bool" where
  "ping_service name s \<longleftrightarrow> bt_get (bh_services s) name \<noteq> None"

definition add_child :: "'k kernel_api \<Rightarrow> owned_handle \<Rightarrow> bool \<Rightarrow> 'k bootstrap_handler \<Rightarrow> ('k, nat) bh_outcome" where
  "add_child K channel privileged s =
     (let id = bh_next_conn_id s
      in case (chk_add id 1 :: (error, nat) res) of
           Ok next \<Rightarrow>
             (Ok id,
              s\<lparr>bh_next_conn_id := next,
                bh_kernel := snd (ka_bind K (oh_raw (bh_port s)) id (oh_raw channel) (READABLE OR PEER_CLOSED) True (bh_kernel s)),
                bh_children := bt_insert id \<lparr>ch_id = id, ch_channel = channel, ch_port_key = id, ch_privileged = privileged\<rparr> (bh_children s)\<rparr>)
         | _ \<Rightarrow> (Panic, s))"

definition remove_child :: "'k kernel_api \<Rightarrow> nat \<Rightarrow> 'k bootstrap_handler \<Rightarrow> 'k bootstrap_handler" where
  "remove_child K child_id s =
     (case bt_get (bh_children s) child_id of
        None \<Rightarrow> s
      | Some child \<Rightarrow>
          s\<lparr>bh_children := bt_remove child_id (bh_children s),
            bh_kernel := oh_drop K (ch_channel child) (ka_unbind K (oh_raw (bh_port s)) (ch_port_key child) (bh_kernel s))\<rparr>)"

text \<open>Responses. A failing send is ignored.\<close>

definition bh_send :: "'k kernel_api \<Rightarrow> owned_handle \<Rightarrow> u8 list \<Rightarrow> u32 list \<Rightarrow> 'k bootstrap_handler \<Rightarrow> 'k bootstrap_handler" where
  "bh_send K channel bs hs s = s\<lparr>bh_kernel := snd (ka_send K (oh_raw channel) bs hs (bh_kernel s))\<rparr>"

definition send_error :: "'k kernel_api \<Rightarrow> owned_handle \<Rightarrow> response_status \<Rightarrow> 'k bootstrap_handler \<Rightarrow> 'k bootstrap_handler" where
  "send_error K channel st = bh_send K channel (br_to_bytes (br_error st)) []"

definition send_error_to :: "'k kernel_api \<Rightarrow> nat \<Rightarrow> response_status \<Rightarrow> 'k bootstrap_handler \<Rightarrow> 'k bootstrap_handler" where
  "send_error_to K child_id st s = (case bt_get (bh_children s) child_id of None \<Rightarrow> s | Some child \<Rightarrow> send_error K (ch_channel child) st s)"

definition send_success_to :: "'k kernel_api \<Rightarrow> nat \<Rightarrow> 'k bootstrap_handler \<Rightarrow> 'k bootstrap_handler" where
  "send_success_to K child_id s =
     (case bt_get (bh_children s) child_id of None \<Rightarrow> s | Some child \<Rightarrow> bh_send K (ch_channel child) (br_to_bytes br_success) [] s)"

text \<open>Both ends of the new channel are dropped after they have been sent.\<close>

definition handle_get_service :: "'k kernel_api \<Rightarrow> nat \<Rightarrow> u8 list \<Rightarrow> 'k bootstrap_handler \<Rightarrow> 'k bootstrap_handler" where
  "handle_get_service K child_id name s =
     (case bt_get (bh_children s) child_id of
        None \<Rightarrow> s
      | Some child \<Rightarrow>
          (case bt_get (bh_services s) name of
             Some entry \<Rightarrow>
               if se_is_system entry \<and> \<not> ch_privileged child then send_error K (ch_channel child) BsPermissionDenied s
               else
                 (case ka_channel_create K (bh_kernel s) of
                    (Inr (for_child, for_service), k1) \<Rightarrow>
                      (let s1 = bh_send K (se_channel entry) [0] [for_service] (s\<lparr>bh_kernel := k1\<rparr>);
                           s2 = bh_send K (ch_channel child) (br_to_bytes (br_with_handle br_success)) [for_child] s1
                       in s2\<lparr>bh_kernel := oh_drop K (oh_from_raw for_child) (oh_drop K (oh_from_raw for_service) (bh_kernel s2))\<rparr>)
                  | (Inl _, k1) \<Rightarrow> send_error K (ch_channel child) BsServiceUnavailable (s\<lparr>bh_kernel := k1\<rparr>))
           | None \<Rightarrow> send_error K (ch_channel child) BsNotFound s))"

definition handle_register_provider :: "'k kernel_api \<Rightarrow> nat \<Rightarrow> u8 list \<Rightarrow> owned_handle \<Rightarrow> 'k bootstrap_handler \<Rightarrow> 'k bootstrap_handler" where
  "handle_register_provider K child_id name channel s =
     (if bt_get (bh_services s) name \<noteq> None then
        (let s1 = send_error_to K child_id BsAlreadyExists s in s1\<lparr>bh_kernel := oh_drop K channel (bh_kernel s1)\<rparr>)
      else
        send_success_to K child_id
          (s\<lparr>bh_services := bt_insert name \<lparr>se_name = name, se_channel = channel, se_is_system = False\<rparr> (bh_services s)\<rparr>))"

definition service_list :: "'k bootstrap_handler \<Rightarrow> u8 list" where
  "service_list s =
     u32_bytes (word_of_nat (length (bh_services s))) @
     concat (map (\<lambda>(name, _). u32_bytes (word_of_nat (length name)) @ name) (bh_services s))"

definition handle_list_services :: "'k kernel_api \<Rightarrow> nat \<Rightarrow> 'k bootstrap_handler \<Rightarrow> 'k bootstrap_handler" where
  "handle_list_services K child_id s =
     (case bt_get (bh_children s) child_id of
        None \<Rightarrow> s
      | Some child \<Rightarrow>
          bh_send K (ch_channel child) (br_to_bytes (br_success\<lparr>br_data_len := word_of_nat (length (service_list s))\<rparr>) @ service_list s) [] s)"

definition serve_request :: "'k kernel_api \<Rightarrow> nat \<Rightarrow> bool \<Rightarrow> request_type \<Rightarrow> u8 list \<Rightarrow> u32 list \<Rightarrow> nat \<Rightarrow> 'k bootstrap_handler \<Rightarrow> 'k bootstrap_handler" where
  "serve_request K child_id privileged t name handles handle_count s =
     (case t of
        GetService \<Rightarrow> handle_get_service K child_id name s
      | RegisterProvider \<Rightarrow>
          if \<not> privileged then send_error_to K child_id BsPermissionDenied s
          else if handle_count > 0 \<and> handles ! 0 \<noteq> 0 then handle_register_provider K child_id name (oh_from_raw (handles ! 0)) s
          else send_error_to K child_id BsInvalidRequest s
      | ListServices \<Rightarrow> handle_list_services K child_id s
      | Ping \<Rightarrow> send_success_to K child_id s)"

definition handle_request :: "'k kernel_api \<Rightarrow> nat \<Rightarrow> 'k bootstrap_handler \<Rightarrow> ('k, unit) bh_outcome" where
  "handle_request K child_id s =
     (case bt_get (bh_children s) child_id of
        None \<Rightarrow> (Ok (), s)
      | Some child \<Rightarrow>
          (case ka_try_recv K (oh_raw (ch_channel child)) 256 4 (bh_kernel s) of
             (Inl _, k1) \<Rightarrow> (Ok (), s\<lparr>bh_kernel := k1\<rparr>)
           | (Inr (bs, hs), k1) \<Rightarrow>
               (let buf = recv_into bs (replicate 256 0); handles = recv_into hs (replicate 4 0); s1 = s\<lparr>bh_kernel := k1\<rparr>
                in if length bs < BQ_SIZE then (Ok (), s1)
                   else case bq_from_bytes buf of
                          None \<Rightarrow> (Ok (), send_error K (ch_channel child) BsInvalidRequest s1)
                        | Some request \<Rightarrow>
                            (let name_end = BQ_SIZE + unat (bq_name_len request)
                             in if length bs < name_end then (Ok (), send_error K (ch_channel child) BsInvalidRequest s1)
                                else if name_end > length buf then (Panic, s1)
                                else case from_utf8 (take (unat (bq_name_len request)) (drop BQ_SIZE buf)) of
                                       None \<Rightarrow> (Ok (), send_error K (ch_channel child) BsInvalidRequest s1)
                                     | Some name \<Rightarrow>
                                         (Ok (), serve_request K child_id (ch_privileged child) (rt_from (bq_request_type request)) name
                                                   handles (length hs) s1)))))"

definition bh_event :: "'k kernel_api \<Rightarrow> nat \<Rightarrow> signals \<Rightarrow> 'k bootstrap_handler \<Rightarrow> ('k, unit) bh_outcome" where
  "bh_event K key signals s =
     (if contains signals PEER_CLOSED then (Ok (), remove_child K key s)
      else if contains signals READABLE then handle_request K key s
      else (Ok (), s))"

fun bh_events :: "'k kernel_api \<Rightarrow> (nat \<times> signals) list \<Rightarrow> 'k bootstrap_handler \<Rightarrow> ('k, unit) bh_outcome" where
  "bh_events K [] s = (Ok (), s)"
| "bh_events K (p # ps) s = (case bh_event K (fst p) (snd p) s of (Ok _, s1) \<Rightarrow> bh_events K ps s1 | r \<Rightarrow> r)"

definition bh_turn :: "'k kernel_api \<Rightarrow> 'k bootstrap_handler \<Rightarrow> ('k, unit) bh_outcome" where
  "bh_turn K s =
     (case ka_wait K (oh_raw (bh_port s)) 32 (2 ^ 64 - 1) (bh_kernel s) of
        (Inl e, k) \<Rightarrow> (Err e, s\<lparr>bh_kernel := k\<rparr>)
      | (Inr ps, k) \<Rightarrow> bh_events K ps (s\<lparr>bh_kernel := k\<rparr>))"

partial_function (option) bh_loop :: "'k kernel_api \<Rightarrow> 'k bootstrap_handler \<Rightarrow> ('k, unit) bh_outcome option" where
  "bh_loop K s =
     (if bh_running s then (let rs = bh_turn K s in if is_ok (fst rs) then bh_loop K (snd rs) else Some rs) else Some (Ok (), s))"

definition bh_run :: "'k kernel_api \<Rightarrow> 'k bootstrap_handler \<Rightarrow> ('k, unit) bh_outcome option" where
  "bh_run K s = bh_loop K (s\<lparr>bh_running := True\<rparr>)"

definition bh_poll :: "'k kernel_api \<Rightarrow> 'k bootstrap_handler \<Rightarrow> ('k, unit) bh_outcome" where
  "bh_poll K s =
     (case ka_wait K (oh_raw (bh_port s)) 32 0 (bh_kernel s) of
        (Inl _, k) \<Rightarrow> (Ok (), s\<lparr>bh_kernel := k\<rparr>)
      | (Inr ps, k) \<Rightarrow> bh_events K ps (s\<lparr>bh_kernel := k\<rparr>))"

definition bh_stop :: "'k kernel_api \<Rightarrow> 'k bootstrap_handler \<Rightarrow> 'k bootstrap_handler" where
  "bh_stop K s = s\<lparr>bh_running := False, bh_kernel := ka_queue K (oh_raw (bh_port s)) (2 ^ 64 - 1) (bh_kernel s)\<rparr>"

section \<open>Round trips\<close>

lemma rt_roundtrip [simp]: "rt_from (rt_value t) = t"
  by (cases t) (simp_all add: rt_from_def)

lemma bs_roundtrip [simp]: "bs_from (bs_value st) = st"
  by (cases st) (simp_all add: bs_from_def)

lemma boot_lengths [simp]: "length (bq_to_bytes q) = 16" "length (br_to_bytes r) = 16"
  by (simp_all add: bq_to_bytes_def br_to_bytes_def)

lemma bq_roundtrip [wire_simps]: "bq_read (bq_to_bytes q @ rest) = q"
  by (simp add: bq_read_def bq_to_bytes_def field_def field_word)

lemma br_roundtrip [wire_simps]: "br_read (br_to_bytes r @ rest) = r"
  by (simp add: br_read_def br_to_bytes_def field_def field_word)

lemma recv_into_long: "length buf \<le> length xs \<Longrightarrow> recv_into xs buf = take (length buf) xs"
  by (simp add: recv_into_def)

lemma recv_into_short: "length xs \<le> length buf \<Longrightarrow> recv_into xs buf = xs @ drop (length xs) buf"
  by (simp add: recv_into_def)

text \<open>The header in the buffer, whether or not the message fits.\<close>

lemma received_header:
  assumes "16 \<le> n"
  shows "\<exists>rest. recv_into (bq_to_bytes q @ xs) (replicate n 0) = bq_to_bytes q @ rest \<and> length rest = n - 16"
  using assms by (intro exI[of _ "recv_into xs (replicate (n - 16) 0)"]) (simp add: recv_into_def drop_replicate)

lemma bq_read_received:
  assumes "bq_magic q = BOOTSTRAP_MAGIC"
  shows "bq_from_bytes (recv_into (bq_to_bytes q @ xs) (replicate 256 0)) = Some q"
proof -
  obtain rest where "recv_into (bq_to_bytes q @ xs) (replicate 256 0) = bq_to_bytes q @ rest"
    using received_header[of 256 q xs] by auto
  then show ?thesis using assms by (simp add: bq_from_bytes_def BQ_SIZE_def wire_simps bq_is_valid_def)
qed

lemma handle_request_served:
  assumes "bt_get (bh_children s) c = Some x" and "ka_try_recv K (oh_raw (ch_channel x)) 256 4 (bh_kernel s) = (Inr (bq_to_bytes (bq_new t (length name)) @ name, hs), k)"
    and "utf8_valid name" "length name \<le> 240"
  shows "handle_request K c s = (Ok (), serve_request K c (ch_privileged x) t name (recv_into hs (replicate 4 0)) (length hs) (s\<lparr>bh_kernel := k\<rparr>))"
proof -
  have n: "unat (word_of_nat (length name) :: u32) = length name" using assms(4) by (simp add: unat_of_nat)
  have "take (length name) (drop 16 (recv_into (bq_to_bytes (bq_new t (length name)) @ name) (replicate 256 0))) = name"
    using assms(4) by (simp add: recv_into_def)
  then show ?thesis
    using assms by (simp add: handle_request_def bq_read_received bq_new_def[of t] n BQ_SIZE_def from_utf8_def Let_def)
qed

lemma read_service_success: "a \<noteq> 0 \<Longrightarrow> read_service (br_to_bytes (br_with_handle br_success)) [a] = Inr ((oh_from_raw a)\<lparr>oh_nodrop := True\<rparr>)"
  by (simp add: read_service_def br_from_bytes_def BR_SIZE_def recv_into_def wire_simps br_success_def br_with_handle_def bs_from_def Let_def)

section \<open>Services\<close>

lemma bh_send_services [simp]: "bh_services (bh_send K c bs hs s) = bh_services s" "bh_children (bh_send K c bs hs s) = bh_children s"
  by (simp_all add: bh_send_def)

lemma answers_keep_tables [simp]:
  "bh_services (send_error K c st s) = bh_services s" "bh_children (send_error K c st s) = bh_children s"
  "bh_services (send_error_to K i st s) = bh_services s" "bh_children (send_error_to K i st s) = bh_children s"
  "bh_services (send_success_to K i s) = bh_services s" "bh_children (send_success_to K i s) = bh_children s"
  "bh_services (handle_list_services K i s) = bh_services s" "bh_children (handle_list_services K i s) = bh_children s"
  by (simp_all add: send_error_def send_error_to_def send_success_to_def handle_list_services_def split: option.split)

lemma get_service_keeps_tables [simp]:
  "bh_services (handle_get_service K i name s) = bh_services s" "bh_children (handle_get_service K i name s) = bh_children s"
  by (simp_all add: handle_get_service_def Let_def split: option.split sum.split prod.split)

lemma register_provider_services:
  "bh_services (handle_register_provider K i name c s) =
     (if bt_get (bh_services s) name \<noteq> None then bh_services s
      else bt_insert name \<lparr>se_name = name, se_channel = c, se_is_system = False\<rparr> (bh_services s))"
  by (simp add: handle_register_provider_def Let_def)

lemma serve_request_services:
  "bh_services (serve_request K i p t name handles n s) =
     (if t = RegisterProvider \<and> p \<and> n > 0 \<and> handles ! 0 \<noteq> 0 \<and> bt_get (bh_services s) name = None
      then bt_insert name \<lparr>se_name = name, se_channel = oh_from_raw (handles ! 0), se_is_system = False\<rparr> (bh_services s)
      else bh_services s)"
  by (cases t) (simp_all add: serve_request_def register_provider_services)

text \<open>C23: whatever message arrives, a service that the init process offers stays what it is; only a request of a privileged child adds one, under a name that was
  free, and never a system service.\<close>

theorem bootstrap_services_protected:
  assumes "bh_event K key sigs s = (r, s')"
  shows "bh_services s' = bh_services s \<or>
    (\<exists>child name channel. bt_get (bh_children s) key = Some child \<and> ch_privileged child \<and> utf8_valid name \<and> length name \<le> 240 \<and>
       bt_get (bh_services s) name = None \<and> \<not> contains sigs PEER_CLOSED \<and> contains sigs READABLE \<and>
       bh_services s' = bt_insert name \<lparr>se_name = name, se_channel = channel, se_is_system = False\<rparr> (bh_services s))"
proof (cases "contains sigs PEER_CLOSED \<or> \<not> contains sigs READABLE \<or> bt_get (bh_children s) key = None")
  case True
  then show ?thesis using assms
    by (auto simp: bh_event_def remove_child_def handle_request_def split: if_splits option.splits)
next
  case False
  then obtain child where child: "bt_get (bh_children s) key = Some child" by auto
  with False assms have req: "handle_request K key s = (r, s')" by (auto simp: bh_event_def)
  show ?thesis
  proof (cases "ka_try_recv K (oh_raw (ch_channel child)) 256 4 (bh_kernel s)")
    case (Pair q k)
    show ?thesis
    proof (cases q)
      case (Inl e)
      then show ?thesis using req child Pair by (auto simp: handle_request_def)
    next
      case (Inr m)
      obtain bs hs where m: "m = (bs, hs)" by (cases m)
      let ?buf = "recv_into bs (replicate 256 0)"
      show ?thesis
      proof (cases "length bs < BQ_SIZE \<or> bq_from_bytes ?buf = None")
        case True
        then show ?thesis using req child Pair Inr m by (auto simp: handle_request_def Let_def split: if_splits)
      next
        case valid: False
        then obtain h where h: "bq_from_bytes ?buf = Some h" by auto
        let ?n = "unat (bq_name_len h)" and ?name = "take (unat (bq_name_len h)) (drop BQ_SIZE ?buf)"
        show ?thesis
        proof (cases "length bs < BQ_SIZE + ?n \<or> BQ_SIZE + ?n > 256 \<or> \<not> utf8_valid ?name")
          case True
          then show ?thesis using req child Pair Inr m valid h
            by (auto simp: handle_request_def Let_def from_utf8_def split: if_splits)
        next
          case ok: False
          then have s': "s' = serve_request K key (ch_privileged child) (rt_from (bq_request_type h)) ?name (recv_into hs (replicate 4 0)) (length hs) (s\<lparr>bh_kernel := k\<rparr>)"
            using req child Pair Inr m valid h by (simp add: handle_request_def Let_def from_utf8_def)
          have "length ?name \<le> 240" using ok by (simp add: BQ_SIZE_def)
          then show ?thesis using False ok child by (auto simp: s' serve_request_services)
        qed
      qed
    qed
  qed
qed

text \<open>What a privileged child has registered is handed out. After its request, every child that asks for the name gets one end of a new channel, in the response that its
  client reads, and the provider gets the other end.\<close>

theorem registered_provider_served:
  assumes provider: "bt_get (bh_children s) p = Some x" "ch_privileged x"
    and name: "utf8_valid name" "length name \<le> MAX_SERVICE_NAME" "bt_get (bh_services s) name = None"
    and request: "ka_try_recv K (oh_raw (ch_channel x)) 256 4 (bh_kernel s) = (Inr (bq_to_bytes (bq_new RegisterProvider (length name)) @ name, [h]), k)" "h \<noteq> 0"
  shows "\<exists>s1. bh_event K p READABLE s = (Ok (), s1) \<and> ping_service name s1 \<and> bh_children s1 = bh_children s \<and>
    bh_kernel s1 = snd (ka_send K (oh_raw (ch_channel x)) (br_to_bytes br_success) [] k) \<and>
    read_registered_provider (br_to_bytes br_success) = Inr () \<and>
    (\<forall>c y ka kb kc a b. bt_get (bh_children s) c = Some y \<longrightarrow> a \<noteq> 0 \<longrightarrow>
       ka_try_recv K (oh_raw (ch_channel y)) 256 4 ka = (Inr (bq_to_bytes (bq_new GetService (length name)) @ name, []), kb) \<longrightarrow>
       ka_channel_create K kb = (Inr (a, b), kc) \<longrightarrow>
       bh_event K c READABLE (s1\<lparr>bh_kernel := ka\<rparr>) =
         (Ok (), s1\<lparr>bh_kernel := oh_drop K (oh_from_raw a) (oh_drop K (oh_from_raw b)
            (snd (ka_send K (oh_raw (ch_channel y)) (br_to_bytes (br_with_handle br_success)) [a] (snd (ka_send K h [0] [b] kc)))))\<rparr>) \<and>
       read_service (br_to_bytes (br_with_handle br_success)) [a] = Inr ((oh_from_raw a)\<lparr>oh_nodrop := True\<rparr>))"
proof -
  have sig: "\<not> contains READABLE PEER_CLOSED" "contains READABLE READABLE" by (simp_all add: contains_def signal_defs)
  have len: "length name \<le> 240" using name(2) by (simp add: MAX_SERVICE_NAME_def)
  let ?e = "\<lparr>se_name = name, se_channel = oh_from_raw h, se_is_system = False\<rparr>"
  let ?s1 = "s\<lparr>bh_services := bt_insert name ?e (bh_services s), bh_kernel := snd (ka_send K (oh_raw (ch_channel x)) (br_to_bytes br_success) [] k)\<rparr>"
  have one: "bh_event K p READABLE s = (Ok (), ?s1)"
    using handle_request_served[OF provider(1) request(1) name(1) len] sig provider name(3) request(2)
    by (simp add: bh_event_def serve_request_def handle_register_provider_def send_success_to_def bh_send_def recv_into_def)
  have two: "bh_event K c READABLE (?s1\<lparr>bh_kernel := ka\<rparr>) =
         (Ok (), ?s1\<lparr>bh_kernel := oh_drop K (oh_from_raw a) (oh_drop K (oh_from_raw b)
            (snd (ka_send K (oh_raw (ch_channel y)) (br_to_bytes (br_with_handle br_success)) [a] (snd (ka_send K h [0] [b] kc)))))\<rparr>)"
    if "bt_get (bh_children s) c = Some y"
      and "ka_try_recv K (oh_raw (ch_channel y)) 256 4 ka = (Inr (bq_to_bytes (bq_new GetService (length name)) @ name, []), kb)"
      and "ka_channel_create K kb = (Inr (a, b), kc)" for c y ka kb kc a b
    using handle_request_served[of "?s1\<lparr>bh_kernel := ka\<rparr>" c y K GetService name "[]" kb] sig that name(1) len
    by (simp add: bh_event_def serve_request_def handle_get_service_def bh_send_def Let_def oh_from_raw_def)
  have four: "read_registered_provider (br_to_bytes br_success) = Inr ()"
    by (simp add: read_registered_provider_def br_from_bytes_def BR_SIZE_def recv_into_def wire_simps br_success_def bs_from_def)
  show ?thesis
    by (rule exI[of _ ?s1]) (use one two four in \<open>simp add: ping_service_def read_service_success\<close>)
qed

text \<open>A request that announces a name longer than the buffer, and is as long as it says, panics the init process, whichever child sends it.\<close>

theorem long_name_panics_init:
  assumes child: "bt_get (bh_children s) c = Some x"
    and message: "ka_try_recv K (oh_raw (ch_channel x)) 256 4 (bh_kernel s) = (Inr (bq_to_bytes q @ name, hs), k)"
    and magic: "bq_magic q = BOOTSTRAP_MAGIC" and long: "unat (bq_name_len q) = length name" "length name > 240"
  shows "bh_event K c READABLE s = (Panic, s\<lparr>bh_kernel := k\<rparr>)"
proof -
  have sig: "\<not> contains READABLE PEER_CLOSED" "contains READABLE READABLE" by (simp_all add: contains_def signal_defs)
  show ?thesis using child message magic long sig by (simp add: bh_event_def handle_request_def bq_read_received Let_def BQ_SIZE_def)
qed

section \<open>A sample handler\<close>

definition sample_boot :: "(u8 list \<times> u32 list) list \<Rightarrow> (u8 list \<times> u32 list) list bootstrap_handler" where
  "sample_boot k =
     \<lparr>bh_port = oh_from_raw 10, bh_services = [],
      bh_children = [(1, \<lparr>ch_id = 1, ch_channel = oh_from_raw 20, ch_port_key = 1, ch_privileged = True\<rparr>),
                     (2, \<lparr>ch_id = 2, ch_channel = oh_from_raw 21, ch_port_key = 2, ch_privileged = False\<rparr>)],
      bh_next_conn_id = 3, bh_running = True, bh_kernel = k\<rparr>"

lemma sample_boot_simps [simp]:
  "bh_services (sample_boot k) = []" "bh_kernel (sample_boot k) = k"
  "bt_get (bh_children (sample_boot k)) 1 = Some \<lparr>ch_id = 1, ch_channel = oh_from_raw 20, ch_port_key = 1, ch_privileged = True\<rparr>"
  "bt_get (bh_children (sample_boot k)) 2 = Some \<lparr>ch_id = 2, ch_channel = oh_from_raw 21, ch_port_key = 2, ch_privileged = False\<rparr>"
  by (simp_all add: sample_boot_def bt_get_def)

theorem bootstrap_services_protected_witness:
  "bh_services (snd (bh_event script_kernel 2 READABLE (sample_boot [(bq_to_bytes (bq_new RegisterProvider 1) @ [65], [30])]))) = []"
proof -
  let ?s = "sample_boot [(bq_to_bytes (bq_new RegisterProvider 1) @ [65], [30])]"
  obtain r s' where e: "bh_event script_kernel 2 READABLE ?s = (r, s')" by (cases "bh_event script_kernel 2 READABLE ?s")
  from bootstrap_services_protected[OF e] show ?thesis by (auto simp: e simp del: One_nat_def)
qed

theorem registered_provider_served_witness:
  "\<exists>s1. bh_event script_kernel 1 READABLE (sample_boot [(bq_to_bytes (bq_new RegisterProvider 1) @ [65], [30])]) = (Ok (), s1) \<and> ping_service [65] s1 \<and>
     bh_event script_kernel 2 READABLE (s1\<lparr>bh_kernel := [(bq_to_bytes (bq_new GetService 1) @ [65], [])]\<rparr>) = (Ok (), s1\<lparr>bh_kernel := []\<rparr>) \<and>
     read_service (br_to_bytes (br_with_handle br_success)) [11] = Inr ((oh_from_raw 11)\<lparr>oh_nodrop := True\<rparr>)"
proof -
  let ?s = "sample_boot [(bq_to_bytes (bq_new RegisterProvider 1) @ [65], [30])]"
  have ok: "utf8_valid [65]" by simp
  obtain s1 where s1: "bh_event script_kernel 1 READABLE ?s = (Ok (), s1)" "ping_service [65] s1" "bh_children s1 = bh_children ?s"
    and later: "\<forall>c y ka kb kc a b. bt_get (bh_children ?s) c = Some y \<longrightarrow> a \<noteq> 0 \<longrightarrow>
       ka_try_recv script_kernel (oh_raw (ch_channel y)) 256 4 ka = (Inr (bq_to_bytes (bq_new GetService (length [65::u8])) @ [65], []), kb) \<longrightarrow>
       ka_channel_create script_kernel kb = (Inr (a, b), kc) \<longrightarrow>
       bh_event script_kernel c READABLE (s1\<lparr>bh_kernel := ka\<rparr>) =
         (Ok (), s1\<lparr>bh_kernel := oh_drop script_kernel (oh_from_raw a) (oh_drop script_kernel (oh_from_raw b)
            (snd (ka_send script_kernel (oh_raw (ch_channel y)) (br_to_bytes (br_with_handle br_success)) [a] (snd (ka_send script_kernel 30 [0] [b] kc)))))\<rparr>) \<and>
       read_service (br_to_bytes (br_with_handle br_success)) [a] = Inr ((oh_from_raw a)\<lparr>oh_nodrop := True\<rparr>)"
    using registered_provider_served[OF sample_boot_simps(3), of "[65]" "[(bq_to_bytes (bq_new RegisterProvider 1) @ [65], [30])]" script_kernel 30 "[]"] ok
    by (auto simp: MAX_SERVICE_NAME_def)
  have "bh_event script_kernel 2 READABLE (s1\<lparr>bh_kernel := [(bq_to_bytes (bq_new GetService 1) @ [65], [])]\<rparr>) = (Ok (), s1\<lparr>bh_kernel := []\<rparr>) \<and>
     read_service (br_to_bytes (br_with_handle br_success)) [11] = Inr ((oh_from_raw 11)\<lparr>oh_nodrop := True\<rparr>)"
    using later[rule_format, OF sample_boot_simps(4), of 11 "[(bq_to_bytes (bq_new GetService 1) @ [65], [])]" "[]" 12 "[]"]
    by (simp add: oh_drop_def)
  with s1 show ?thesis by blast
qed

theorem long_name_panics_init_witness:
  "fst (bh_event script_kernel 2 READABLE (sample_boot [(bq_to_bytes (bq_new Ping 241) @ replicate 241 0, [])])) = Panic"
  using long_name_panics_init[OF sample_boot_simps(4), of script_kernel _ "bq_new Ping 241" "replicate 241 0" "[]" "[]"]
  by (simp add: bq_new_def)

end
