(* ===== verification/Name_Server.thy ===== *)
theory Name_Server
  imports Name_Registry
begin

text \<open>
  The name server: \<open>nameserver/src/server/mod.rs\<close> and \<open>handler.rs\<close>, with the notifications of \<open>watcher.rs\<close>. The server is a single loop over the packets of
  its port. \<open>None\<close> is a call that does not return: the table of clients is guarded by a spinning \<open>Mutex\<close>, and the thread that holds it
  (\<open>ns_guard\<close>) waits forever when it locks it again.
\<close>

section \<open>State\<close>

record client_connection =
  cc_id :: nat
  cc_channel :: owned_handle
  cc_key :: nat
  cc_registered_services :: "nat list"
  cc_watches :: "u32 list"

record ns_config =
  cf_max_services :: nat
  cf_max_clients :: nat
  cf_max_watchers :: nat

definition default_config :: ns_config where
  "default_config = \<lparr>cf_max_services = 1024, cf_max_clients = 256, cf_max_watchers = 512\<rparr>"

record 'k name_server =
  ns_config :: ns_config
  ns_registry :: service_registry
  ns_watchers :: watcher_manager
  ns_port :: owned_handle
  ns_accept :: owned_handle
  ns_clients :: "(nat, client_connection) btree"
  ns_guard :: bool
  ns_next_client_id :: nat
  ns_running :: bool
  ns_kernel :: 'k

type_synonym ('k, 'a) ns_outcome = "((ns_error, 'a) res \<times> 'k name_server) option"

text \<open>\<open>clients.lock()\<close> for the length of one statement.\<close>

definition with_clients :: "((nat, client_connection) btree \<Rightarrow> (nat, client_connection) btree) \<Rightarrow> 'k name_server \<Rightarrow> 'k name_server option" where
  "with_clients f s = (if ns_guard s then None else Some (s\<lparr>ns_clients := f (ns_clients s)\<rparr>))"

definition update_client :: "nat \<Rightarrow> (client_connection \<Rightarrow> client_connection) \<Rightarrow> 'k name_server \<Rightarrow> 'k name_server option" where
  "update_client c f = with_clients (\<lambda>cs. case bt_get cs c of None \<Rightarrow> cs | Some x \<Rightarrow> bt_insert c (f x) cs)"

section \<open>Notifications\<close>

definition to_notify :: "u8 list \<Rightarrow> u32 \<Rightarrow> 'k name_server \<Rightarrow> client_connection list" where
  "to_notify name event s =
     List.map_filter (\<lambda>w. if wa_matches name event w then bt_get (ns_clients s) (wa_client_id w) else None)
       (map snd (wm_watchers (ns_watchers s)))"

definition notification :: "u8 list \<Rightarrow> nat \<Rightarrow> op_code \<Rightarrow> u8 list" where
  "notification name service_id opc =
     mh_to_bytes ((new_notification opc)\<lparr>mh_data_len := word_of_nat (ND_SIZE + length name)\<rparr>) @
     nd_bytes \<lparr>nd_service_id = word_of_nat service_id, nd_name_len = word_of_nat (length name), nd_reserved = 0\<rparr> @ name"

fun send_all :: "'k kernel_api \<Rightarrow> u8 list \<Rightarrow> client_connection list \<Rightarrow> 'k \<Rightarrow> 'k" where
  "send_all K msg [] k = k"
| "send_all K msg (c # cs) k = send_all K msg cs (snd (ka_send K (oh_raw (cc_channel c)) msg [] k))"

definition ns_notify :: "'k kernel_api \<Rightarrow> u8 list \<Rightarrow> nat \<Rightarrow> u32 \<Rightarrow> op_code \<Rightarrow> 'k name_server \<Rightarrow> 'k name_server option" where
  "ns_notify K name service_id event opc s =
     (if ns_guard s then None
      else if to_notify name event s = [] then Some s
      else Some (s\<lparr>ns_kernel := send_all K (notification name service_id opc) (to_notify name event s) (ns_kernel s)\<rparr>))"

definition notify_online :: "'k kernel_api \<Rightarrow> u8 list \<Rightarrow> nat \<Rightarrow> 'k name_server \<Rightarrow> 'k name_server option" where
  "notify_online K name service_id = ns_notify K name service_id WE_ONLINE OpNotifyOnline"

definition notify_offline :: "'k kernel_api \<Rightarrow> u8 list \<Rightarrow> nat \<Rightarrow> 'k name_server \<Rightarrow> 'k name_server option" where
  "notify_offline K name service_id = ns_notify K name service_id WE_OFFLINE OpNotifyOffline"

section \<open>Responses\<close>

record response =
  rp_data :: "u8 list"
  rp_handles :: "u32 list"

definition rp_success :: "u32 \<Rightarrow> response" where
  "rp_success seq = \<lparr>rp_data = mh_to_bytes (new_response seq StOk), rp_handles = []\<rparr>"

definition rp_error :: "u32 \<Rightarrow> status \<Rightarrow> response" where
  "rp_error seq st = \<lparr>rp_data = mh_to_bytes (new_response seq st), rp_handles = []\<rparr>"

definition splice :: "nat \<Rightarrow> 'a list \<Rightarrow> 'a list \<Rightarrow> 'a list" where
  "splice off xs ys = take off ys @ xs @ drop (off + length xs) ys"

definition rp_with_data :: "u8 list \<Rightarrow> response \<Rightarrow> response" where
  "rp_with_data bs r =
     (let d = (if length (rp_data r) \<ge> MH_SIZE then splice 24 (u32_bytes (word_of_nat (length bs))) (rp_data r) else rp_data r)
      in r\<lparr>rp_data := d @ bs\<rparr>)"

definition rp_with_handles :: "u32 list \<Rightarrow> response \<Rightarrow> response" where
  "rp_with_handles hs r =
     (let d = (if length (rp_data r) \<ge> MH_SIZE then splice 28 (u32_bytes (word_of_nat (length hs))) (rp_data r) else rp_data r)
      in r\<lparr>rp_data := d, rp_handles := hs\<rparr>)"

section \<open>Request handlers\<close>

definition answer :: "'a \<Rightarrow> 'k name_server \<Rightarrow> ('k, 'a) ns_outcome" where
  "answer r s = Some (Ok r, s)"

definition handle_register :: "'k kernel_api \<Rightarrow> nat \<Rightarrow> u32 \<Rightarrow> u8 list \<Rightarrow> u32 list \<Rightarrow> 'k name_server \<Rightarrow> ('k, response) ns_outcome" where
  "handle_register K client_id seq data handles s =
     (if handles = [] then answer (rp_error seq StInvalidArgument) s
      else if length data < 16 then answer (rp_error seq StInvalidArgument) s
      else
        let req = rr_read data; name_end = 16 + unat (rr_name_len req); desc_end = name_end + unat (rr_desc_len req)
        in if length data < desc_end then answer (rp_error seq StInvalidArgument) s
           else case from_utf8 (take (name_end - 16) (drop 16 data)) of
                  None \<Rightarrow> answer (rp_error seq StInvalidArgument) s
                | Some name \<Rightarrow>
                    (case from_utf8 (take (desc_end - name_end) (drop name_end data)) of
                       None \<Rightarrow> answer (rp_error seq StInvalidArgument) s
                     | Some description \<Rightarrow>
                         if length name > MAX_SERVICE_NAME_LEN then answer (rp_error seq StNameTooLong) s
                         else
                           (case rg_register K name description (from_bits_truncate sf_known (rr_flags req)) client_id (oh_from_raw (hd handles))
                                   (ns_registry s, ns_kernel s) of
                              (Ok service, r, k) \<Rightarrow>
                                Option.bind (update_client client_id
                                    (\<lambda>x. x\<lparr>cc_registered_services := cc_registered_services x @ [rs_id service]\<rparr>)
                                    (s\<lparr>ns_registry := r, ns_kernel := k\<rparr>)) (\<lambda>s1.
                                Option.bind (notify_online K name (rs_id service) s1) (\<lambda>s2.
                                  answer (rp_with_data (u64_bytes (word_of_nat (rs_id service))) (rp_success seq)) s2))
                            | (Err NsAlreadyExists, r, k) \<Rightarrow> answer (rp_error seq StAlreadyExists) (s\<lparr>ns_registry := r, ns_kernel := k\<rparr>)
                            | (Err NsResourceExhausted, r, k) \<Rightarrow> answer (rp_error seq StResourceExhausted) (s\<lparr>ns_registry := r, ns_kernel := k\<rparr>)
                            | (Err _, r, k) \<Rightarrow> answer (rp_error seq StInternalError) (s\<lparr>ns_registry := r, ns_kernel := k\<rparr>)
                            | (Panic, r, k) \<Rightarrow> Some (Panic, s\<lparr>ns_registry := r, ns_kernel := k\<rparr>))))"

text \<open>The name after a length of four bytes, as several requests have it; and after a \<open>LookupRequest\<close>.\<close>

definition counted_name :: "u8 list \<Rightarrow> u8 list option" where
  "counted_name data =
     (if length data < 4 then None
      else let n = unat (field data 0 4 :: u32)
           in if length data < 4 + n then None else from_utf8 (take n (drop 4 data)))"

definition lookup_name :: "u8 list \<Rightarrow> u8 list option" where
  "lookup_name data =
     (if length data < 8 then None
      else let n = unat (lr_name_len (lr_read data))
           in if length data < 8 + n then None else from_utf8 (take n (drop 8 data)))"

definition handle_unregister :: "'k kernel_api \<Rightarrow> nat \<Rightarrow> u32 \<Rightarrow> u8 list \<Rightarrow> 'k name_server \<Rightarrow> ('k, response) ns_outcome" where
  "handle_unregister K client_id seq data s =
     (case counted_name data of
        None \<Rightarrow> answer (rp_error seq StInvalidArgument) s
      | Some name \<Rightarrow>
          (case rg_lookup name (ns_registry s) of
             None \<Rightarrow> answer (rp_error seq StNotFound) s
           | Some service \<Rightarrow>
               if rs_owner_id service \<noteq> client_id then answer (rp_error seq StPermissionDenied) s
               else
                 (case rg_remove name (ns_registry s) of
                    (None, r) \<Rightarrow> Some (Panic, s\<lparr>ns_registry := r\<rparr>)
                  | (Some service, r) \<Rightarrow>
                      Option.bind (update_client client_id
                          (\<lambda>x. x\<lparr>cc_registered_services := filter (\<lambda>i. i \<noteq> rs_id service) (cc_registered_services x)\<rparr>)
                          (s\<lparr>ns_registry := r\<rparr>)) (\<lambda>s1.
                      Option.bind (notify_offline K (rs_name service) (rs_id service) s1) (\<lambda>s2.
                        answer (rp_success seq) (s2\<lparr>ns_kernel := oh_drop K (rs_channel service) (ns_kernel s2)\<rparr>))))))"

definition handle_lookup :: "u32 \<Rightarrow> u32 \<Rightarrow> u8 list \<Rightarrow> 'k name_server \<Rightarrow> ('k, response) ns_outcome" where
  "handle_lookup pad seq data s =
     (case lookup_name data of
        None \<Rightarrow> answer (rp_error seq StInvalidArgument) s
      | Some name \<Rightarrow>
          (case rg_lookup name (ns_registry s) of
             Some service \<Rightarrow> answer (rp_with_data (si_bytes pad (rs_to_info (ns_registry s) service)) (rp_success seq)) s
           | None \<Rightarrow> answer (rp_error seq StNotFound) s))"

text \<open>When the request is handed on, the end of the server has been moved to the service; its \<open>OwnedHandle\<close> is still dropped.\<close>

definition handle_connect :: "'k kernel_api \<Rightarrow> u32 \<Rightarrow> u8 list \<Rightarrow> 'k name_server \<Rightarrow> ('k, response) ns_outcome" where
  "handle_connect K seq data s =
     (case lookup_name data of
        None \<Rightarrow> answer (rp_error seq StInvalidArgument) s
      | Some name \<Rightarrow>
          (case rg_lookup name (ns_registry s) of
             None \<Rightarrow> answer (rp_error seq StNotFound) s
           | Some service \<Rightarrow>
               (case ka_channel_create K (ns_kernel s) of
                  (Inl _, k1) \<Rightarrow> answer (rp_error seq StInternalError) (s\<lparr>ns_kernel := k1\<rparr>)
                | (Inr (client_end, server_end), k1) \<Rightarrow>
                    (case ka_send K (oh_raw (rs_channel service)) [0] [server_end] k1 of
                       (Inl _, k2) \<Rightarrow>
                         answer (rp_error seq StInternalError)
                           (s\<lparr>ns_kernel := oh_drop K (oh_from_raw client_end) (oh_drop K (oh_from_raw server_end) k2)\<rparr>)
                     | (Inr _, k2) \<Rightarrow>
                         answer (rp_with_handles [client_end] (rp_success seq))
                           (s\<lparr>ns_registry := rg_connected service (ns_registry s), ns_kernel := oh_drop K (oh_from_raw server_end) k2\<rparr>)))))"

definition service_entry :: "u32 \<Rightarrow> service_registry \<Rightarrow> registered_service \<Rightarrow> u8 list" where
  "service_entry pad r service = si_bytes pad (rs_to_info r service) @ rs_name service @ rs_description service"

definition handle_list :: "u32 \<Rightarrow> u32 \<Rightarrow> u8 list \<Rightarrow> 'k name_server \<Rightarrow> ('k, response) ns_outcome" where
  "handle_list pad seq data s =
     (if length data < 8 then answer (rp_error seq StInvalidArgument) s
      else
        let req = lq_read data; n = unat (lq_contain_name_len req);
            contain_name = (if n > 0 \<and> length data \<ge> 8 + n
                            then (case from_utf8 (take n (drop 8 data)) of None \<Rightarrow> [] | Some name \<Rightarrow> name) else []);
            found = rg_list contain_name (unat (lq_limit req)) (ns_registry s);
            resp = ln_bytes \<lparr>ln_total_count = word_of_nat (rg_count (ns_registry s)), ln_returned_count = word_of_nat (length found)\<rparr>
        in answer (rp_with_data (resp @ concat (map (service_entry pad (ns_registry s)) found)) (rp_success seq)) s)"

definition handle_exists :: "u32 \<Rightarrow> u8 list \<Rightarrow> 'k name_server \<Rightarrow> ('k, response) ns_outcome" where
  "handle_exists seq data s =
     (case counted_name data of
        None \<Rightarrow> answer (rp_error seq StInvalidArgument) s
      | Some name \<Rightarrow>
          if rg_exists name (ns_registry s) then answer (rp_success seq) s else answer (rp_error seq StNotFound) s)"

definition handle_watch :: "nat \<Rightarrow> u32 \<Rightarrow> u8 list \<Rightarrow> 'k name_server \<Rightarrow> ('k, response) ns_outcome" where
  "handle_watch client_id seq data s =
     (if length data < 8 then answer (rp_error seq StInvalidArgument) s
      else
        let req = wr_read data; n = unat (wr_name_len req)
        in if n > 0 \<and> length data < 8 + n then answer (rp_error seq StInvalidArgument) s
           else
             let pattern = (if n > 0 then Some (case from_utf8 (take n (drop 8 data)) of None \<Rightarrow> [] | Some p \<Rightarrow> p) else None);
                 (watch_id, m) = wm_add client_id pattern (from_bits_truncate WE_ALL (wr_events req)) (ns_watchers s)
             in Option.bind (update_client client_id (\<lambda>x. x\<lparr>cc_watches := cc_watches x @ [watch_id]\<rparr>) (s\<lparr>ns_watchers := m\<rparr>))
                  (answer (rp_success seq)))"

definition handle_unwatch :: "nat \<Rightarrow> u32 \<Rightarrow> u8 list \<Rightarrow> 'k name_server \<Rightarrow> ('k, response) ns_outcome" where
  "handle_unwatch client_id seq data s =
     (if length data < 4 then answer (rp_error seq StInvalidArgument) s
      else
        let watch_id = field data 0 4
        in Option.bind (update_client client_id (\<lambda>x. x\<lparr>cc_watches := filter (\<lambda>i. i \<noteq> watch_id) (cc_watches x)\<rparr>)
               (s\<lparr>ns_watchers := wm_remove watch_id (ns_watchers s)\<rparr>))
             (answer (rp_success seq)))"

definition handle_get_info :: "u32 \<Rightarrow> u32 \<Rightarrow> u8 list \<Rightarrow> 'k name_server \<Rightarrow> ('k, response) ns_outcome" where
  "handle_get_info pad seq data s =
     (case counted_name data of
        None \<Rightarrow> answer (rp_error seq StInvalidArgument) s
      | Some name \<Rightarrow>
          (case rg_lookup name (ns_registry s) of
             Some service \<Rightarrow> answer (rp_with_data (service_entry pad (ns_registry s) service) (rp_success seq)) s
           | None \<Rightarrow> answer (rp_error seq StNotFound) s))"

definition rh_handle :: "'k kernel_api \<Rightarrow> u32 \<Rightarrow> nat \<Rightarrow> message_header \<Rightarrow> u8 list \<Rightarrow> u32 list \<Rightarrow> 'k name_server \<Rightarrow> ('k, response) ns_outcome" where
  "rh_handle K pad client_id header data handles s =
     (let seq = mh_sequence header
      in case op_from (mh_opcode header) of
           OpRegister \<Rightarrow> handle_register K client_id seq data handles s
         | OpUnregister \<Rightarrow> handle_unregister K client_id seq data s
         | OpLookup \<Rightarrow> handle_lookup pad seq data s
         | OpConnect \<Rightarrow> handle_connect K seq data s
         | OpList \<Rightarrow> handle_list pad seq data s
         | OpExists \<Rightarrow> handle_exists seq data s
         | OpWatch \<Rightarrow> handle_watch client_id seq data s
         | OpUnwatch \<Rightarrow> handle_unwatch client_id seq data s
         | OpGetInfo \<Rightarrow> handle_get_info pad seq data s
         | _ \<Rightarrow> answer (rp_error seq StInvalidArgument) s)"

section \<open>Clients\<close>

definition add_client :: "'k kernel_api \<Rightarrow> owned_handle \<Rightarrow> 'k name_server \<Rightarrow> (ns_error, nat) res \<times> 'k name_server" where
  "add_client K channel s =
     (let client_id = ns_next_client_id s
      in case (chk_add client_id 1 :: (ns_error, nat) res) of
           Ok next \<Rightarrow>
             (let s1 = s\<lparr>ns_next_client_id := next\<rparr>
              in if length (ns_clients s) \<ge> cf_max_clients (ns_config s)
                 then (Err NsResourceExhausted, s1\<lparr>ns_kernel := oh_drop K channel (ns_kernel s)\<rparr>)
                 else
                   (case ka_bind K (oh_raw (ns_port s)) client_id (oh_raw channel) (READABLE OR PEER_CLOSED) True (ns_kernel s) of
                      (Inl e, k1) \<Rightarrow> (Err (ns_error_of e), s1\<lparr>ns_kernel := oh_drop K channel k1\<rparr>)
                    | (Inr _, k1) \<Rightarrow>
                        (Ok client_id,
                         s1\<lparr>ns_kernel := k1,
                            ns_clients := bt_insert client_id \<lparr>cc_id = client_id, cc_channel = channel, cc_key = client_id,
                              cc_registered_services = [], cc_watches = []\<rparr> (ns_clients s)\<rparr>)))
         | _ \<Rightarrow> (Panic, s))"

text \<open>One turn of the loop that accepts connections: \<open>Inl\<close> takes another one.\<close>

definition accept_turn :: "'k kernel_api \<Rightarrow> 'k name_server \<Rightarrow> 'k name_server + (ns_error, unit) res \<times> 'k name_server" where
  "accept_turn K s =
     (case ka_try_recv K (oh_raw (ns_accept s)) 256 4 (ns_kernel s) of
        (Inr (_, hs), k) \<Rightarrow>
          if length hs > 0 then
            (case add_client K (oh_from_raw (hd hs)) (s\<lparr>ns_kernel := k\<rparr>) of
               (Ok _, s1) \<Rightarrow> Inl s1
             | (Err e, s1) \<Rightarrow> Inr (Err e, s1)
             | (Panic, s1) \<Rightarrow> Inr (Panic, s1))
          else Inr (Ok (), s\<lparr>ns_kernel := k\<rparr>)
      | (Inl e, k) \<Rightarrow>
          if errno e = EAGAIN then Inr (Ok (), s\<lparr>ns_kernel := k\<rparr>) else Inr (Err (ns_error_of e), s\<lparr>ns_kernel := k\<rparr>))"

partial_function (option) handle_accept :: "'k kernel_api \<Rightarrow> 'k name_server \<Rightarrow> ('k, unit) ns_outcome" where
  "handle_accept K s = (if isl (accept_turn K s) then handle_accept K (projl (accept_turn K s)) else Some (projr (accept_turn K s)))"

text \<open>\<open>remove_client\<close> holds the table of clients while it takes back the services and tells the watchers.\<close>

fun offline_each :: "'k kernel_api \<Rightarrow> nat list \<Rightarrow> 'k name_server \<Rightarrow> 'k name_server option" where
  "offline_each K [] s = Some s"
| "offline_each K (i # is) s =
     (case rg_remove_by_id i (ns_registry s) of
        (None, r) \<Rightarrow> offline_each K is (s\<lparr>ns_registry := r\<rparr>)
      | (Some service, r) \<Rightarrow>
          Option.bind (notify_offline K (rs_name service) i (s\<lparr>ns_registry := r\<rparr>)) (\<lambda>s1.
            offline_each K is (s1\<lparr>ns_kernel := oh_drop K (rs_channel service) (ns_kernel s1)\<rparr>)))"

definition remove_client :: "'k kernel_api \<Rightarrow> nat \<Rightarrow> 'k name_server \<Rightarrow> 'k name_server option" where
  "remove_client K client_id s =
     (if ns_guard s then None
      else
        let s0 = s\<lparr>ns_guard := True\<rparr>;
            (registered, watches, s1) =
              (case bt_get (ns_clients s) client_id of
                 None \<Rightarrow> ([], [], s0)
               | Some c \<Rightarrow>
                   (cc_registered_services c, cc_watches c,
                    s0\<lparr>ns_clients := bt_remove client_id (ns_clients s),
                       ns_kernel := oh_drop K (cc_channel c) (ka_unbind K (oh_raw (ns_port s)) (cc_key c) (ns_kernel s))\<rparr>))
        in Option.bind (offline_each K registered s1) (\<lambda>s2.
             Some (s2\<lparr>ns_watchers := fold wm_remove watches (ns_watchers s2), ns_guard := False\<rparr>)))"

text \<open>The loop of \<open>handle_client_request\<close> on the buffers it keeps: a message with a broken header is skipped, the first other one is served.\<close>

datatype 'k request_turn = Again 'k "u8 list" "u32 list" | NoRequest 'k | LostPeer 'k | BadLength 'k | Serve message_header "u8 list" "u32 list" 'k

definition request_turn :: "'k kernel_api \<Rightarrow> u32 \<Rightarrow> u8 list \<Rightarrow> u32 list \<Rightarrow> 'k \<Rightarrow> 'k request_turn" where
  "request_turn K ch buf handles k =
     (case ka_try_recv K ch (length buf) (length handles) k of
        (Inr (bs, hs), k1) \<Rightarrow>
          if length bs \<ge> MH_SIZE then
            (let buf1 = recv_into bs buf; handles1 = recv_into hs handles
             in case mh_from_bytes buf1 of
                  None \<Rightarrow> Again k1 buf1 handles1
                | Some header \<Rightarrow>
                    if MH_SIZE + unat (mh_data_len header) > length buf1 \<or> length hs > length handles1 then BadLength k1
                    else Serve header (take (unat (mh_data_len header)) (drop MH_SIZE buf1)) (take (length hs) handles1) k1)
          else NoRequest k1
      | (Inl e, k1) \<Rightarrow> if errno e = EAGAIN then NoRequest k1 else LostPeer k1)"

definition is_again :: "'k request_turn \<Rightarrow> bool" where
  "is_again t \<longleftrightarrow> (case t of Again _ _ _ \<Rightarrow> True | _ \<Rightarrow> False)"

definition again_args :: "'k request_turn \<Rightarrow> 'k \<times> u8 list \<times> u32 list" where
  "again_args t = (case t of Again k b h \<Rightarrow> (k, b, h) | NoRequest k \<Rightarrow> (k, [], []) | LostPeer k \<Rightarrow> (k, [], []) | BadLength k \<Rightarrow> (k, [], [])
     | Serve _ _ _ k \<Rightarrow> (k, [], []))"

partial_function (option) next_request :: "'k kernel_api \<Rightarrow> u32 \<Rightarrow> 'k \<times> u8 list \<times> u32 list \<Rightarrow> 'k request_turn option" where
  "next_request K ch a =
     (let t = request_turn K ch (fst (snd a)) (snd (snd a)) (fst a)
      in if is_again t then next_request K ch (again_args t) else Some t)"

definition handle_client_request :: "'k kernel_api \<Rightarrow> u32 \<Rightarrow> nat \<Rightarrow> 'k name_server \<Rightarrow> ('k, unit) ns_outcome" where
  "handle_client_request K pad client_id s =
     (if ns_guard s then None
      else case bt_get (ns_clients s) client_id of
             None \<Rightarrow> answer () s
           | Some client \<Rightarrow>
               Option.bind (next_request K (oh_raw (cc_channel client)) (ns_kernel s, replicate 4096 0, replicate 16 0)) (\<lambda>t.
                 case t of
                   Serve header data handles k \<Rightarrow>
                     Option.bind (rh_handle K pad client_id header data handles (s\<lparr>ns_kernel := k\<rparr>)) (\<lambda>(r, s1).
                       case r of
                         Ok resp \<Rightarrow>
                           answer () (case bt_get (ns_clients s1) client_id of
                                        None \<Rightarrow> s1
                                      | Some c \<Rightarrow>
                                          s1\<lparr>ns_kernel := snd (ka_send K (oh_raw (cc_channel c)) (rp_data resp) (rp_handles resp) (ns_kernel s1))\<rparr>)
                       | Err e \<Rightarrow> Some (Err e, s1)
                       | Panic \<Rightarrow> Some (Panic, s1))
                 | LostPeer k \<Rightarrow> Option.bind (remove_client K client_id (s\<lparr>ns_kernel := k\<rparr>)) (answer ())
                 | BadLength k \<Rightarrow> Some (Panic, s\<lparr>ns_kernel := k\<rparr>)
                 | NoRequest k \<Rightarrow> answer () (s\<lparr>ns_kernel := k\<rparr>)
                 | Again k _ _ \<Rightarrow> answer () (s\<lparr>ns_kernel := k\<rparr>)))"

definition handle_client_event :: "'k kernel_api \<Rightarrow> u32 \<Rightarrow> nat \<Rightarrow> signals \<Rightarrow> 'k name_server \<Rightarrow> ('k, unit) ns_outcome" where
  "handle_client_event K pad key signals s =
     (if contains signals PEER_CLOSED then Option.bind (remove_client K key s) (answer ())
      else if contains signals READABLE then handle_client_request K pad key s
      else answer () s)"

section \<open>The server\<close>

definition ns_new :: "'k kernel_api \<Rightarrow> ns_config \<Rightarrow> 'k \<Rightarrow> (ns_error, 'k name_server \<times> owned_handle) res \<times> 'k" where
  "ns_new K config k =
     (case ka_channel_create K k of
        (Inl e, k1) \<Rightarrow> (Err (ns_error_of e), k1)
      | (Inr (accept_server, accept_client), k1) \<Rightarrow>
          (case ka_port_create K k1 of
             (Inl e, k2) \<Rightarrow> (Err (ns_error_of e), oh_drop K (oh_from_raw accept_server) (oh_drop K (oh_from_raw accept_client) k2))
           | (Inr port, k2) \<Rightarrow>
               (case ka_bind K port 0 accept_server (READABLE OR PEER_CLOSED) True k2 of
                  (Inl e, k3) \<Rightarrow>
                    (Err (ns_error_of e),
                     oh_drop K (oh_from_raw accept_server) (oh_drop K (oh_from_raw accept_client) (oh_drop K (oh_from_raw port) k3)))
                | (Inr _, k3) \<Rightarrow>
                    (Ok (\<lparr>ns_config = config, ns_registry = rg_new (cf_max_services config), ns_watchers = wm_new (cf_max_watchers config),
                          ns_port = oh_from_raw port, ns_accept = oh_from_raw accept_server, ns_clients = [], ns_guard = False,
                          ns_next_client_id = 1, ns_running = False, ns_kernel = k3\<rparr>, oh_from_raw accept_client), k3))))"

definition ns_packet :: "'k kernel_api \<Rightarrow> u32 \<Rightarrow> nat \<times> signals \<Rightarrow> 'k name_server \<Rightarrow> ('k, unit) ns_outcome" where
  "ns_packet K pad p s = (if fst p = 0 then handle_accept K s else handle_client_event K pad (fst p) (snd p) s)"

fun ns_packets :: "'k kernel_api \<Rightarrow> u32 \<Rightarrow> (nat \<times> signals) list \<Rightarrow> 'k name_server \<Rightarrow> ('k, unit) ns_outcome" where
  "ns_packets K pad [] s = answer () s"
| "ns_packets K pad (p # ps) s =
     Option.bind (ns_packet K pad p s) (\<lambda>(r, s1). case r of Ok _ \<Rightarrow> ns_packets K pad ps s1 | Err e \<Rightarrow> Some (Err e, s1) | Panic \<Rightarrow> Some (Panic, s1))"

text \<open>One turn of the main loop. An error of any packet ends the server.\<close>

definition ns_turn :: "'k kernel_api \<Rightarrow> u32 \<Rightarrow> 'k name_server \<Rightarrow> ('k, unit) ns_outcome" where
  "ns_turn K pad s =
     (case ka_wait K (oh_raw (ns_port s)) 32 (2 ^ 64 - 1) (ns_kernel s) of
        (Inl e, k) \<Rightarrow> Some (Err (ns_error_of e), s\<lparr>ns_kernel := k\<rparr>)
      | (Inr ps, k) \<Rightarrow> ns_packets K pad ps (s\<lparr>ns_kernel := k\<rparr>))"

partial_function (option) run_loop :: "'k kernel_api \<Rightarrow> u32 \<Rightarrow> 'k name_server \<Rightarrow> ('k, unit) ns_outcome" where
  "run_loop K pad s =
     (if ns_running s
      then Option.bind (ns_turn K pad s) (\<lambda>rs. if is_ok (fst rs) then run_loop K pad (snd rs) else Some rs)
      else Some (Ok (), s))"

definition ns_run :: "'k kernel_api \<Rightarrow> u32 \<Rightarrow> 'k name_server \<Rightarrow> ('k, unit) ns_outcome" where
  "ns_run K pad s = run_loop K pad (s\<lparr>ns_running := True\<rparr>)"

definition ns_stop :: "'k kernel_api \<Rightarrow> 'k name_server \<Rightarrow> 'k name_server" where
  "ns_stop K s = s\<lparr>ns_running := False, ns_kernel := ka_queue K (oh_raw (ns_port s)) (2 ^ 64 - 1) (ns_kernel s)\<rparr>"

end
