(* ===== verification/Name_Ownership.thy ===== *)
theory Name_Ownership
  imports Name_Server
begin

text \<open>
  What the name server guarantees. Its invariant: the tables agree, every service belongs to a connected client that knows it, and every watcher to a
  connected client. It holds after any packets. Services of a client change only through the packets of that client.
\<close>

section \<open>The invariant\<close>

definition owned_ids :: "nat \<Rightarrow> service_registry \<Rightarrow> nat set" where
  "owned_ids c r = rs_id ` {t \<in> services r. rs_owner_id t = c}"

definition client_ok :: "nat \<Rightarrow> 'k name_server \<Rightarrow> client_connection \<Rightarrow> bool" where
  "client_ok c s x \<longleftrightarrow> cc_id x = c \<and> cc_key x = c \<and> c < ns_next_client_id s \<and> set (cc_registered_services x) = owned_ids c (ns_registry s)"

definition text_ok :: "registered_service \<Rightarrow> bool" where
  "text_ok t \<longleftrightarrow> utf8_valid (rs_name t) \<and> utf8_valid (rs_description t) \<and> length (rs_name t) \<le> MAX_SERVICE_NAME_LEN \<and> length (rs_description t) < 2 ^ 32"

definition ns_ok :: "'k name_server \<Rightarrow> bool" where
  "ns_ok s \<longleftrightarrow> \<not> ns_guard s \<and> registry_ok (ns_registry s) \<and> bt_wf (ns_clients s) \<and> length (ns_clients s) \<le> cf_max_clients (ns_config s) \<and>
     bt_wf (wm_watchers (ns_watchers s)) \<and> 0 < ns_next_client_id s \<and>
     (\<forall>c x. bt_get (ns_clients s) c = Some x \<longrightarrow> client_ok c s x) \<and>
     (\<forall>t \<in> services (ns_registry s). bt_get (ns_clients s) (rs_owner_id t) \<noteq> None \<and> text_ok t) \<and>
     (\<forall>i w. bt_get (wm_watchers (ns_watchers s)) i = Some w \<longrightarrow> wa_id w = i \<and>
        (\<exists>x. bt_get (ns_clients s) (wa_client_id w) = Some x \<and> i \<in> set (cc_watches x)))"

text \<open>What the processing of a packet on behalf of client \<open>c\<close> leaves alone.\<close>

definition keeps_others :: "nat \<Rightarrow> 'k name_server \<Rightarrow> 'k name_server \<Rightarrow> bool" where
  "keeps_others c s s' \<longleftrightarrow> {t \<in> services (ns_registry s'). rs_owner_id t \<noteq> c} = {t \<in> services (ns_registry s). rs_owner_id t \<noteq> c}"

lemma keeps_refl [simp]: "keeps_others c s s"
  by (simp add: keeps_others_def)

lemma ns_ok_kernel [simp]: "ns_ok (s\<lparr>ns_kernel := k\<rparr>) = ns_ok s" "keeps_others c s (s'\<lparr>ns_kernel := k\<rparr>) = keeps_others c s s'"
  by (simp_all add: ns_ok_def client_ok_def keeps_others_def)

lemma ns_notify_eq:
  "\<not> ns_guard s \<Longrightarrow> ns_notify K name i ev opc s = Some (s\<lparr>ns_kernel := send_all K (notification name i opc) (to_notify name ev s) (ns_kernel s)\<rparr>)"
  by (simp add: ns_notify_def)

lemma notify_same:
  assumes "\<not> ns_guard s"
  obtains k where "ns_notify K name i ev opc s = Some (s\<lparr>ns_kernel := k\<rparr>)"
  using assms that by (simp add: ns_notify_eq)

lemma ns_okD:
  assumes "ns_ok s"
  shows "\<not> ns_guard s" "registry_ok (ns_registry s)" "bt_wf (ns_clients s)" "bt_wf (wm_watchers (ns_watchers s))"
    and "bt_get (ns_clients s) c = Some x \<Longrightarrow> client_ok c s x" "t \<in> services (ns_registry s) \<Longrightarrow> bt_get (ns_clients s) (rs_owner_id t) \<noteq> None"
    and "t \<in> services (ns_registry s) \<Longrightarrow> text_ok t"
  using assms unfolding ns_ok_def by blast+

lemma ns_ok_watcher:
  assumes "ns_ok s" and "bt_get (wm_watchers (ns_watchers s)) i = Some w"
  shows "wa_id w = i" "bt_get (ns_clients s) (wa_client_id w) = Some x \<Longrightarrow> i \<in> set (cc_watches x)" "bt_get (ns_clients s) (wa_client_id w) \<noteq> None"
  using assms unfolding ns_ok_def by fastforce+

lemma owned_ids_added:
  assumes "services r' = insert t (services r)"
  shows "owned_ids c r' = (if rs_owner_id t = c then insert (rs_id t) (owned_ids c r) else owned_ids c r)"
  using assms by (auto simp: owned_ids_def)

lemma owned_ids_removed:
  assumes ok: "registry_ok r" and t: "t \<in> services r" and "services r' = services r - {t}"
  shows "owned_ids c r' = (if rs_owner_id t = c then owned_ids c r - {rs_id t} else owned_ids c r)"
proof -
  have "u = t" if "u \<in> services r" "rs_id u = rs_id t" for u
    using lookup_by_id_service[OF ok, of "rs_id t"] that t by (metis option.inject)
  with assms(3) show ?thesis by (auto simp: owned_ids_def)
qed

text \<open>A change of the services of one client, of which its record is told.\<close>

lemma ns_ok_services:
  assumes ok: "ns_ok s" and x: "bt_get (ns_clients s) c = Some x" and r: "registry_ok r" "set is = owned_ids c r"
    and others: "\<And>d. d \<noteq> c \<Longrightarrow> owned_ids d r = owned_ids d (ns_registry s)"
    and owners: "\<And>t. t \<in> services r \<Longrightarrow> rs_owner_id t = c \<and> text_ok t \<or> t \<in> services (ns_registry s)"
  shows "ns_ok (s\<lparr>ns_registry := r, ns_clients := bt_insert c (x\<lparr>cc_registered_services := is\<rparr>) (ns_clients s)\<rparr>)"
proof -
  have len: "length (bt_insert c y (ns_clients s)) = length (ns_clients s)" for y
    using ok x btm.length_entries_del[of "ns_clients s" c x] btm.length_entries_put[of "bt_remove c (ns_clients s)" c y]
      btm.entries_ext[of "bt_insert c y (ns_clients s)" "bt_insert c y (bt_remove c (ns_clients s))"]
    by (simp add: ns_ok_def)
  let ?cs = "bt_insert c (x\<lparr>cc_registered_services := is\<rparr>) (ns_clients s)"
  have own: "bt_get ?cs (rs_owner_id t) \<noteq> None \<and> text_ok t" if "t \<in> services r" for t
    using owners[OF that] x ns_okD(6,7)[OF ok] by auto
  have watch: "wa_id w = i \<and> (\<exists>y. bt_get ?cs (wa_client_id w) = Some y \<and> i \<in> set (cc_watches y))"
    if "bt_get (wm_watchers (ns_watchers s)) i = Some w" for i w
    using ns_ok_watcher[OF ok that] x by (cases "wa_client_id w = c") auto
  have client: "client_ok d (s\<lparr>ns_registry := r, ns_clients := ?cs\<rparr>) y" if "bt_get ?cs d = Some y" for d y
    using that ns_okD(5)[OF ok] x r(2) others by (auto simp: client_ok_def split: if_splits)
  show ?thesis using ok r(1) own watch client unfolding ns_ok_def by (simp add: len)
qed

section \<open>Requests\<close>

lemma update_client_eq:
  "\<not> ns_guard s \<Longrightarrow> bt_get (ns_clients s) c = Some x \<Longrightarrow> update_client c f s = Some (s\<lparr>ns_clients := bt_insert c (f x) (ns_clients s)\<rparr>)"
  by (simp add: update_client_def with_clients_def)

lemma register_outcome:
  assumes r: "handle_register K c seq data hs s = Some (r, s')" and g: "\<not> ns_guard s" and x: "bt_get (ns_clients s) c = Some x"
  obtains "s' = s"
  | q name desc fl rg k where "rg_register K name desc fl c (oh_from_raw (hd hs)) (ns_registry s, ns_kernel s) = (q, rg, k)" "\<not> is_ok q"
      "s' = s\<lparr>ns_registry := rg, ns_kernel := k\<rparr>"
  | t name desc fl rg k k' where "rg_register K name desc fl c (oh_from_raw (hd hs)) (ns_registry s, ns_kernel s) = (Ok t, rg, k)"
      "utf8_valid name" "utf8_valid desc" "length name \<le> MAX_SERVICE_NAME_LEN" "length desc < 2 ^ 32"
      "s' = s\<lparr>ns_registry := rg, ns_clients := bt_insert c (x\<lparr>cc_registered_services := cc_registered_services x @ [rs_id t]\<rparr>) (ns_clients s),
         ns_kernel := k'\<rparr>"
proof (cases "s' = s")
  case False
  define n1 n2 where "n1 = unat (rr_name_len (rr_read data))" and "n2 = unat (rr_desc_len (rr_read data))"
  let ?name = "take n1 (drop 16 data)" and ?desc = "take n2 (drop (16 + n1) data)" and ?fl = "from_bits_truncate sf_known (rr_flags (rr_read data))"
  obtain q rg k where q: "rg_register K ?name ?desc ?fl c (oh_from_raw (hd hs)) (ns_registry s, ns_kernel s) = (q, rg, k)" by (metis prod_cases3)
  have run: "Some (r, s') =
    (case q of
       Ok t \<Rightarrow> Option.bind (update_client c (\<lambda>x. x\<lparr>cc_registered_services := cc_registered_services x @ [rs_id t]\<rparr>) (s\<lparr>ns_registry := rg, ns_kernel := k\<rparr>))
         (\<lambda>s1. Option.bind (notify_online K ?name (rs_id t) s1) (answer (rp_with_data (u64_bytes (word_of_nat (rs_id t))) (rp_success seq))))
     | Err NsAlreadyExists \<Rightarrow> answer (rp_error seq StAlreadyExists) (s\<lparr>ns_registry := rg, ns_kernel := k\<rparr>)
     | Err NsResourceExhausted \<Rightarrow> answer (rp_error seq StResourceExhausted) (s\<lparr>ns_registry := rg, ns_kernel := k\<rparr>)
     | Err _ \<Rightarrow> answer (rp_error seq StInternalError) (s\<lparr>ns_registry := rg, ns_kernel := k\<rparr>)
     | Panic \<Rightarrow> Some (Panic, s\<lparr>ns_registry := rg, ns_kernel := k\<rparr>))"
    using r False q unfolding handle_register_def Let_def
    by (cases q) (simp_all add: answer_def from_utf8_def n1_def[symmetric] n2_def[symmetric] split: if_splits ns_error.splits)
  have texts: "utf8_valid ?name" "utf8_valid ?desc" "length ?name \<le> MAX_SERVICE_NAME_LEN"
    using r False unfolding handle_register_def Let_def
    by (simp_all add: answer_def from_utf8_def n1_def[symmetric] n2_def[symmetric] split: if_splits)
  have "n2 < 2 ^ 32" unfolding n2_def by (rule order.strict_trans2[OF unsigned_less]) simp
  then have small: "length ?desc < 2 ^ 32" by simp
  show thesis
  proof (cases q)
    case (Ok t)
    let ?s = "s\<lparr>ns_registry := rg, ns_kernel := k, ns_clients := bt_insert c (x\<lparr>cc_registered_services := cc_registered_services x @ [rs_id t]\<rparr>) (ns_clients s)\<rparr>"
    obtain k' where "notify_online K ?name (rs_id t) ?s = Some (?s\<lparr>ns_kernel := k'\<rparr>)"
      using g by (rule_tac notify_same[of ?s K ?name "rs_id t" WE_ONLINE OpNotifyOnline]) (simp_all add: notify_online_def)
    with run Ok g x have "s' = ?s\<lparr>ns_kernel := k'\<rparr>" by (simp add: update_client_eq answer_def)
    with q Ok that(3)[of ?name ?desc ?fl t rg k k'] texts small show thesis by simp
  next
    case (Err e)
    with run q that(2) show thesis by (cases e) (auto simp: answer_def)
  next
    case Panic
    with run q that(2) show thesis by auto
  qed
qed (rule that(1))

lemma register_keeps:
  assumes ok: "ns_ok s" and x: "bt_get (ns_clients s) c = Some x" and room: "rg_next_id (ns_registry s) + 1 < 2 ^ 64"
    and r: "handle_register K c seq data hs s = Some (r, s')"
  shows "ns_ok s' \<and> keeps_others c s s' \<and> rg_next_id (ns_registry s') \<le> rg_next_id (ns_registry s) + 1"
proof -
  note D = ns_okD[OF ok]
  show ?thesis
  proof (cases rule: register_outcome[OF r D(1) x])
    case 1
    with ok show ?thesis by simp
  next
    case (2 q name desc fl rg k)
    from 2(1) show ?thesis
    proof (cases rule: rg_register_cases)
      case (NoClock e)
      have "registry_ok rg" using D(2) room unfolding NoClock registry_ok_def by (auto simp: rg_lookup_def rg_lookup_by_id_def intro: less_SucI)
      then show ?thesis using ok 2(3) NoClock room unfolding ns_ok_def client_ok_def owned_ids_def keeps_others_def by simp
    next
      case (Added now t)
      with 2(2) show ?thesis by simp
    qed (use ok 2(3) in \<open>simp_all\<close>)
  next
    case (3 t name desc fl rg k k')
    from 3(1) obtain now where "length (rg_by_name (ns_registry s)) < rg_max_services (ns_registry s)" "rg_lookup name (ns_registry s) = None"
      and t: "rg = rg_added t (ns_registry s)" "t = \<lparr>rs_id = rg_next_id (ns_registry s), rs_name = name, rs_description = desc, rs_flags = fl,
        rs_registered_at = now, rs_owner_id = c, rs_channel = oh_from_raw (hd hs), rs_count_cell = rg_next_cell (ns_registry s)\<rparr>"
      by (cases rule: rg_register_cases) auto
    then have rg: "registry_ok rg" "services rg = insert t (services (ns_registry s))" "rs_owner_id t = c"
      using registry_added[OF D(2), of t] room by simp_all
    have ids: "set (cc_registered_services x @ [rs_id t]) = owned_ids c rg"
      using D(5)[OF x] owned_ids_added[OF rg(2)] rg(3) by (simp add: client_ok_def)
    have "text_ok t" using 3(2-5) t(2) by (simp add: text_ok_def)
    with ns_ok_services[OF ok x rg(1) ids] owned_ids_added[OF rg(2)] rg(2,3) have "ns_ok s'" by (auto simp: 3(6))
    moreover have "keeps_others c s s'" using rg(2,3) 3(6) by (auto simp: keeps_others_def)
    ultimately show ?thesis using 3(6) t(1) room by (simp add: rg_added_def)
  qed
qed

lemma unregister_keeps:
  assumes ok: "ns_ok s" and x: "bt_get (ns_clients s) c = Some x" and r: "handle_unregister K c seq data s = Some (r, s')"
  shows "ns_ok s' \<and> keeps_others c s s' \<and> rg_next_id (ns_registry s') = rg_next_id (ns_registry s)"
proof (cases "s' = s")
  case False
  note D = ns_okD[OF ok]
  obtain name t where t: "counted_name data = Some name" "rg_lookup name (ns_registry s) = Some t" "rs_owner_id t = c"
    using r False by (auto simp: handle_unregister_def answer_def split: option.splits if_splits)
  let ?rg = "rg_removed t (ns_registry s)" and ?is = "filter (\<lambda>i. i \<noteq> rs_id t) (cc_registered_services x)"
  let ?s = "s\<lparr>ns_registry := ?rg, ns_clients := bt_insert c (x\<lparr>cc_registered_services := ?is\<rparr>) (ns_clients s)\<rparr>"
  obtain k where k: "notify_offline K (rs_name t) (rs_id t) ?s = Some (?s\<lparr>ns_kernel := k\<rparr>)"
    using D(1) by (rule_tac notify_same[of ?s K "rs_name t" "rs_id t" WE_OFFLINE OpNotifyOffline]) (simp_all add: notify_offline_def)
  have s': "s' = ?s\<lparr>ns_kernel := oh_drop K (rs_channel t) k\<rparr>"
    using r t k D(1) x by (simp add: handle_unregister_def rg_remove_eq[OF D(2)] update_client_eq answer_def)
  have mem: "t \<in> services (ns_registry s)" using t(2) lookup_service[OF D(2)] by blast
  note rg = registry_removed[OF D(2) mem]
  have "set ?is = owned_ids c ?rg" using D(5)[OF x] owned_ids_removed[OF D(2) mem rg(2)] t(3) by (auto simp: client_ok_def)
  from ns_ok_services[OF ok x rg(1) this] owned_ids_removed[OF D(2) mem rg(2)] rg(2) t(3) have "ns_ok s'" by (auto simp: s')
  moreover have "keeps_others c s s'" using rg(2) t(3) by (auto simp: keeps_others_def s')
  ultimately show ?thesis by (simp add: s' rg_removed_def)
qed (use ok in simp)

lemma ns_ok_connected:
  "ns_ok (s\<lparr>ns_registry := rg_connected t (ns_registry s)\<rparr>) = ns_ok s"
  by (simp add: ns_ok_def client_ok_def owned_ids_def)

lemma ns_ok_watches:
  assumes ok: "ns_ok s" and x: "bt_get (ns_clients s) c = Some x" and m: "bt_wf (wm_watchers m)"
    and w: "\<forall>i w. bt_get (wm_watchers m) i = Some w \<longrightarrow> wa_id w = i \<and>
      (if wa_client_id w = c then i \<in> set ws else bt_get (wm_watchers (ns_watchers s)) i = Some w)"
  shows "ns_ok (s\<lparr>ns_watchers := m, ns_clients := bt_insert c (x\<lparr>cc_watches := ws\<rparr>) (ns_clients s)\<rparr>)"
proof -
  have len: "length (bt_insert c y (ns_clients s)) = length (ns_clients s)" for y
    using ok x btm.length_entries_del[of "ns_clients s" c x] btm.length_entries_put[of "bt_remove c (ns_clients s)" c y]
      btm.entries_ext[of "bt_insert c y (ns_clients s)" "bt_insert c y (bt_remove c (ns_clients s))"]
    by (simp add: ns_ok_def)
  show ?thesis using ok x m w unfolding ns_ok_def client_ok_def by (auto simp: len split: if_splits)
qed

lemma watch_keeps:
  assumes ok: "ns_ok s" and x: "bt_get (ns_clients s) c = Some x" and r: "handle_watch c seq data s = Some (r, s')"
  shows "ns_ok s' \<and> ns_registry s' = ns_registry s"
proof (cases "s' = s")
  case False
  note D = ns_okD[OF ok]
  obtain p ev where s': "s' = s\<lparr>ns_watchers := snd (wm_add c p ev (ns_watchers s)),
      ns_clients := bt_insert c (x\<lparr>cc_watches := cc_watches x @ [fst (wm_add c p ev (ns_watchers s))]\<rparr>) (ns_clients s)\<rparr>"
    using r False D(1) x by (auto simp: handle_watch_def answer_def update_client_eq Let_def case_prod_beta split: if_splits)
  have "ns_ok s'" unfolding s'
    by (rule ns_ok_watches[OF ok x]) (use x ns_okD(4)[OF ok] in \<open>auto simp: wm_add_def Let_def split: if_splits dest: ns_ok_watcher[OF ok]\<close>)
  then show ?thesis by (simp add: s')
qed (use ok in simp)

lemma unwatch_keeps:
  assumes ok: "ns_ok s" and x: "bt_get (ns_clients s) c = Some x" and r: "handle_unwatch c seq data s = Some (r, s')"
  shows "ns_ok s' \<and> ns_registry s' = ns_registry s"
proof (cases "s' = s")
  case False
  let ?i = "field data 0 4 :: u32"
  note D = ns_okD[OF ok]
  have s': "s' = s\<lparr>ns_watchers := wm_remove ?i (ns_watchers s),
      ns_clients := bt_insert c (x\<lparr>cc_watches := filter (\<lambda>j. j \<noteq> ?i) (cc_watches x)\<rparr>) (ns_clients s)\<rparr>"
    using r False D(1) x by (auto simp: handle_unwatch_def answer_def update_client_eq Let_def split: if_splits)
  have "ns_ok s'" unfolding s'
    by (rule ns_ok_watches[OF ok x]) (use x ns_okD(4)[OF ok] in \<open>auto simp: wm_remove_def split: if_splits dest: ns_ok_watcher[OF ok]\<close>)
  then show ?thesis by (simp add: s')
qed (use ok in simp)

lemma connect_keeps:
  assumes ok: "ns_ok s" and r: "handle_connect K seq data s = Some (r, s')"
  shows "ns_ok s' \<and> keeps_others c s s' \<and> rg_next_id (ns_registry s') = rg_next_id (ns_registry s) \<and> ns_clients s' = ns_clients s"
  using assms
  by (auto simp: handle_connect_def answer_def ns_ok_connected keeps_others_def
      split: option.splits sum.splits prod.splits)

lemmas reads_defs = handle_lookup_def handle_list_def handle_exists_def handle_get_info_def answer_def Let_def

lemma request_keeps:
  assumes ok: "ns_ok s" and x: "bt_get (ns_clients s) c = Some x" and room: "rg_next_id (ns_registry s) + 1 < 2 ^ 64"
    and r: "rh_handle K pad c h data hs s = Some (r, s')"
  shows "ns_ok s' \<and> keeps_others c s s' \<and> rg_next_id (ns_registry s') \<le> rg_next_id (ns_registry s) + 1"
proof (cases "op_from (mh_opcode h)")
  case OpRegister
  with r register_keeps[OF ok x room] show ?thesis by (simp add: rh_handle_def Let_def)
next
  case OpUnregister
  with r unregister_keeps[OF ok x, of K "mh_sequence h" data r s'] show ?thesis by (simp add: rh_handle_def Let_def)
next
  case OpConnect
  with r connect_keeps[OF ok, of K "mh_sequence h" data r s' c] show ?thesis by (simp add: rh_handle_def Let_def)
next
  case OpWatch
  with r watch_keeps[OF ok x, of "mh_sequence h" data r s'] show ?thesis by (simp add: rh_handle_def Let_def keeps_others_def)
next
  case OpUnwatch
  with r unwatch_keeps[OF ok x, of "mh_sequence h" data r s'] show ?thesis by (simp add: rh_handle_def Let_def keeps_others_def)
qed (use r ok in \<open>auto simp: rh_handle_def reads_defs split: option.splits if_splits\<close>)

section \<open>Clients\<close>

lemma remove_client_outcome:
  assumes ok: "ns_ok s" and x: "bt_get (ns_clients s) c = Some x"
  shows "remove_client K c s =
    (if cc_registered_services x = [] then
       Some (s\<lparr>ns_clients := bt_remove c (ns_clients s),
         ns_kernel := oh_drop K (cc_channel x) (ka_unbind K (oh_raw (ns_port s)) (cc_key x) (ns_kernel s)),
         ns_watchers := fold wm_remove (cc_watches x) (ns_watchers s)\<rparr>)
     else None)"
proof (cases "cc_registered_services x")
  case Nil
  with ns_okD(1)[OF ok] x show ?thesis by (simp add: remove_client_def Let_def)
next
  case (Cons i js)
  note D = ns_okD[OF ok]
  have "i \<in> owned_ids c (ns_registry s)" using D(5)[OF x] Cons by (auto simp: client_ok_def)
  then obtain t where "rg_lookup_by_id i (ns_registry s) = Some t" using lookup_by_id_service[OF D(2)] by (auto simp: owned_ids_def)
  with Cons D(1,2) x show ?thesis by (simp add: remove_client_def Let_def rg_remove_by_id_eq notify_offline_def ns_notify_def)
qed

lemma remove_client_absent:
  "ns_ok s \<Longrightarrow> bt_get (ns_clients s) c = None \<Longrightarrow> remove_client K c s = Some s"
  by (simp add: remove_client_def ns_okD(1))

lemma fold_wm_remove:
  "bt_wf (wm_watchers m) \<Longrightarrow> bt_wf (wm_watchers (fold wm_remove is m))"
  "bt_get (wm_watchers (fold wm_remove is m)) i = (if i \<in> set is then None else bt_get (wm_watchers m) i)"
  by (induction "is" arbitrary: m) (auto simp: wm_remove_def)

lemma remove_client_keeps:
  assumes ok: "ns_ok s" and r: "remove_client K c s = Some s'"
  shows "ns_ok s' \<and> ns_registry s' = ns_registry s"
proof (cases "bt_get (ns_clients s) c")
  case None
  with ok r show ?thesis by (simp add: remove_client_absent)
next
  case (Some x)
  then have none: "cc_registered_services x = []" and s': "s' = s\<lparr>ns_clients := bt_remove c (ns_clients s),
      ns_kernel := oh_drop K (cc_channel x) (ka_unbind K (oh_raw (ns_port s)) (cc_key x) (ns_kernel s)),
      ns_watchers := fold wm_remove (cc_watches x) (ns_watchers s)\<rparr>"
    using r remove_client_outcome[OF ok Some] by (auto split: if_splits)
  have "owned_ids c (ns_registry s) = {}" using ns_okD(5)[OF ok Some] none by (simp add: client_ok_def)
  then have "rs_owner_id t \<noteq> c" if "t \<in> services (ns_registry s)" for t using that by (auto simp: owned_ids_def)
  moreover have "length (bt_remove c (ns_clients s)) \<le> length (ns_clients s)" by (simp add: bt_remove_def)
  moreover have "wa_client_id w \<noteq> c" if "bt_get (wm_watchers (ns_watchers s)) i = Some w" "i \<notin> set (cc_watches x)" for i w
    using ns_ok_watcher(2)[OF ok that(1), of x] that(2) Some by auto
  ultimately have "ns_ok s'"
    using ok unfolding s' ns_ok_def by (auto simp: fold_wm_remove client_ok_def split: if_splits)
  then show ?thesis by (simp add: s')
qed

lemma add_client_keeps:
  assumes ok: "ns_ok s" and r: "add_client K ch s = (r, s')"
  shows "ns_ok s' \<and> ns_registry s' = ns_registry s"
proof -
  let ?c = "ns_next_client_id s"
  note D = ns_okD[OF ok]
  have next_ok: "ns_ok (s\<lparr>ns_next_client_id := Suc ?c\<rparr>)" using ok unfolding ns_ok_def by (auto simp: client_ok_def intro: less_SucI)
  have fresh: "bt_get (ns_clients s) ?c = None" using D(5)[of ?c] by (cases "bt_get (ns_clients s) ?c") (auto simp: client_ok_def)
  have "owned_ids ?c (ns_registry s) = {}" using D(6) fresh by (fastforce simp: owned_ids_def)
  moreover have "wa_client_id w \<noteq> ?c" if "bt_get (wm_watchers (ns_watchers s)) i = Some w" for i w
    using ns_ok_watcher(3)[OF ok that] fresh by auto
  moreover have "length (bt_insert ?c y (ns_clients s)) = Suc (length (ns_clients s))" for y
    using btm.length_entries_put[OF D(3) fresh] .
  ultimately have "ns_ok (s\<lparr>ns_next_client_id := Suc ?c, ns_kernel := k, ns_clients := bt_insert ?c \<lparr>cc_id = ?c, cc_channel = ch, cc_key = ?c,
      cc_registered_services = [], cc_watches = []\<rparr> (ns_clients s)\<rparr>)" if "length (ns_clients s) < cf_max_clients (ns_config s)" for k
    using ok that fresh unfolding ns_ok_def by (auto simp: client_ok_def split: if_splits intro: less_SucI)
  then show ?thesis
    using r next_ok ok unfolding add_client_def by (auto simp: chk_add_def not_le Let_def split: if_splits sum.splits prod.splits)
qed

lemma accept_turn_keeps:
  assumes "ns_ok s"
  shows "case accept_turn K s of Inl s1 \<Rightarrow> ns_ok s1 \<and> ns_registry s1 = ns_registry s | Inr q \<Rightarrow> ns_ok (snd q) \<and> ns_registry (snd q) = ns_registry s"
proof -
  have add: "ns_ok s1 \<and> ns_registry s1 = ns_registry s" if "add_client K ch (s\<lparr>ns_kernel := k\<rparr>) = (r, s1)" for ch k r s1
    using add_client_keeps[OF _ that] assms by simp
  show ?thesis
    using assms by (auto simp: accept_turn_def split: sum.splits prod.splits res.splits if_splits dest!: add)
qed

lemma accept_keeps:
  assumes "ns_ok s" and "handle_accept K s = Some q"
  shows "ns_ok (snd q) \<and> ns_registry (snd q) = ns_registry s"
proof -
  have "ns_ok s \<longrightarrow> ns_ok (snd q) \<and> ns_registry (snd q) = ns_registry s"
  proof (rule handle_accept.raw_induct[where P = "\<lambda>K s q. ns_ok s \<longrightarrow> ns_ok (snd q) \<and> ns_registry (snd q) = ns_registry s", OF _ assms(2)])
    fix go :: "'a kernel_api \<Rightarrow> 'a name_server \<Rightarrow> ('a, unit) ns_outcome" and K s q
    assume IH: "\<And>K s q. go K s = Some q \<Longrightarrow> ns_ok s \<longrightarrow> ns_ok (snd q) \<and> ns_registry (snd q) = ns_registry s"
      and step: "(if isl (accept_turn K s) then go K (projl (accept_turn K s)) else Some (projr (accept_turn K s))) = Some q"
    show "ns_ok s \<longrightarrow> ns_ok (snd q) \<and> ns_registry (snd q) = ns_registry s"
    proof
      assume "ns_ok s"
      from accept_turn_keeps[OF this, of K] step IH show "ns_ok (snd q) \<and> ns_registry (snd q) = ns_registry s"
        by (cases "accept_turn K s") fastforce+
    qed
  qed
  with assms(1) show ?thesis by blast
qed

section \<open>Packets\<close>

lemma client_request_keeps:
  assumes ok: "ns_ok s" and room: "rg_next_id (ns_registry s) + 1 < 2 ^ 64" and r: "handle_client_request K pad c s = Some (r, s')"
  shows "ns_ok s' \<and> keeps_others c s s' \<and> rg_next_id (ns_registry s') \<le> rg_next_id (ns_registry s) + 1"
proof (cases "bt_get (ns_clients s) c")
  case None
  with ok r show ?thesis by (simp add: handle_client_request_def ns_okD(1) answer_def)
next
  case (Some x)
  have served: "ns_ok s1 \<and> keeps_others c s s1 \<and> rg_next_id (ns_registry s1) \<le> rg_next_id (ns_registry s) + 1"
    if "rh_handle K pad c h data hs (s\<lparr>ns_kernel := k\<rparr>) = Some (q, s1)" for h data hs k q s1
    using request_keeps[OF _ _ _ that] ok Some room by (simp add: keeps_others_def)
  have lost: "ns_ok s1 \<and> keeps_others c s s1 \<and> rg_next_id (ns_registry s1) \<le> rg_next_id (ns_registry s) + 1"
    if "remove_client K c (s\<lparr>ns_kernel := k\<rparr>) = Some s1" for k s1
    using remove_client_keeps[OF _ that] ok by (simp add: keeps_others_def)
  obtain t where t: "next_request K (oh_raw (cc_channel x)) (ns_kernel s, replicate 4096 0, replicate 16 0) = Some t"
    using r Some ns_okD(1)[OF ok] by (auto simp: handle_client_request_def bind_eq_Some_conv)
  show ?thesis
  proof (cases t)
    case (LostPeer k)
    with r Some t ns_okD(1)[OF ok] lost[of k] show ?thesis by (auto simp: handle_client_request_def answer_def bind_eq_Some_conv)
  next
    case (Serve h data hs k)
    with r Some t ns_okD(1)[OF ok] obtain q s1 where q: "rh_handle K pad c h data hs (s\<lparr>ns_kernel := k\<rparr>) = Some (q, s1)"
      by (auto simp: handle_client_request_def bind_eq_Some_conv)
    have "\<exists>k'. s' = s1\<lparr>ns_kernel := k'\<rparr>"
    proof (cases "s' = s1")
      case True
      then show ?thesis by (intro exI[of _ "ns_kernel s1"]) simp
    next
      case False
      with r Some t ns_okD(1)[OF ok] Serve q show ?thesis
        by (auto simp: handle_client_request_def answer_def split: res.splits option.splits)
    qed
    with served[OF q] show ?thesis by auto
  qed (use r Some t ok ns_okD(1)[OF ok] in \<open>auto simp: handle_client_request_def answer_def\<close>)
qed

lemma packet_keeps:
  assumes ok: "ns_ok s" and room: "rg_next_id (ns_registry s) + 1 < 2 ^ 64" and r: "ns_packet K pad p s = Some (r, s')"
  shows "ns_ok s' \<and> keeps_others (fst p) s s' \<and> rg_next_id (ns_registry s') \<le> rg_next_id (ns_registry s) + 1"
proof -
  consider "fst p = 0" "handle_accept K s = Some (r, s')" | "remove_client K (fst p) s = Some s'" | "handle_client_request K pad (fst p) s = Some (r, s')"
    | "s' = s" using r by (auto simp: ns_packet_def handle_client_event_def answer_def bind_eq_Some_conv split: if_splits)
  then show ?thesis
  proof cases
    case 1
    with accept_keeps[OF ok] show ?thesis by (fastforce simp: keeps_others_def)
  next
    case 2
    with remove_client_keeps[OF ok] show ?thesis by (fastforce simp: keeps_others_def)
  qed (use client_request_keeps[OF ok room] ok in simp_all)
qed

lemma packets_keep:
  assumes "ns_ok s" and "rg_next_id (ns_registry s) + length ps < 2 ^ 64" and "ns_packets K pad ps s = Some (r, s')" and "\<forall>p \<in> set ps. fst p \<noteq> c"
  shows "ns_ok s' \<and> {t \<in> services (ns_registry s'). rs_owner_id t = c} = {t \<in> services (ns_registry s). rs_owner_id t = c}"
  using assms
proof (induction ps arbitrary: s)
  case Nil
  then show ?case by (simp add: answer_def)
next
  case (Cons p ps)
  obtain q s1 where p: "ns_packet K pad p s = Some (q, s1)" using Cons.prems(3) by (auto simp: bind_eq_Some_conv)
  have s1: "ns_ok s1" "keeps_others (fst p) s s1" "rg_next_id (ns_registry s1) + length ps < 2 ^ 64"
    using packet_keeps[OF Cons.prems(1) _ p] Cons.prems(2) by simp_all
  then have same: "{t \<in> services (ns_registry s1). rs_owner_id t = c} = {t \<in> services (ns_registry s). rs_owner_id t = c}"
    using Cons.prems(4) unfolding keeps_others_def by auto
  show ?case
  proof (cases q)
    case (Ok u)
    with p Cons.prems(3) have "ns_packets K pad ps s1 = Some (r, s')" by simp
    with Cons.IH[OF s1(1,3)] Cons.prems(4) same show ?thesis by simp
  qed (use p Cons.prems(3) s1(1) same in simp_all)
qed

lemma new_ok: "ns_new K cf k = (Ok (s, a), k') \<Longrightarrow> ns_ok s \<and> rg_next_id (ns_registry s) = 1"
  by (auto simp: ns_new_def ns_ok_def wm_new_def split: sum.splits prod.splits)

text \<open>The states of a server that has dealt with \<open>n\<close> packets. Between its turns other programs may change the state of the kernel.\<close>

inductive ns_reach :: "'k kernel_api \<Rightarrow> u32 \<Rightarrow> nat \<Rightarrow> 'k name_server \<Rightarrow> bool" for K pad where
  start: "ns_new K cf k = (Ok (s, a), k') \<Longrightarrow> ns_reach K pad 0 s"
| packets: "ns_reach K pad n s \<Longrightarrow> ns_packets K pad ps (s\<lparr>ns_kernel := k\<rparr>) = Some (Ok (), s') \<Longrightarrow> ns_reach K pad (n + length ps) s'"

lemma packets_next_id:
  assumes "ns_ok s" and "rg_next_id (ns_registry s) + length ps < 2 ^ 64" and "ns_packets K pad ps s = Some (r, s')"
  shows "rg_next_id (ns_registry s') \<le> rg_next_id (ns_registry s) + length ps"
  using assms
proof (induction ps arbitrary: s)
  case Nil
  then show ?case by (simp add: answer_def)
next
  case (Cons p ps)
  obtain q s1 where p: "ns_packet K pad p s = Some (q, s1)" using Cons.prems(3) by (auto simp: bind_eq_Some_conv)
  have s1: "ns_ok s1" "rg_next_id (ns_registry s1) \<le> rg_next_id (ns_registry s) + 1"
    using packet_keeps[OF Cons.prems(1) _ p] Cons.prems(2) by simp_all
  show ?case
  proof (cases q)
    case (Ok u)
    with p Cons.prems(3) have "ns_packets K pad ps s1 = Some (r, s')" by simp
    with Cons.IH[OF s1(1)] s1(2) Cons.prems(2) show ?thesis by simp
  qed (use p Cons.prems(3) s1(2) in simp_all)
qed

lemma reach_ok: "ns_reach K pad n s \<Longrightarrow> n + 1 < 2 ^ 64 \<Longrightarrow> ns_ok s \<and> rg_next_id (ns_registry s) \<le> n + 1"
proof (induction rule: ns_reach.induct)
  case (start cf k s a k')
  with new_ok[OF start(1)] show ?case by simp
next
  case (packets n s ps k s')
  then have ok: "ns_ok (s\<lparr>ns_kernel := k\<rparr>)" "rg_next_id (ns_registry (s\<lparr>ns_kernel := k\<rparr>)) \<le> n + 1" by simp_all
  have lim: "rg_next_id (ns_registry (s\<lparr>ns_kernel := k\<rparr>)) + length ps < 2 ^ 64" using ok(2) packets.prems by simp
  obtain c where "c \<notin> fst ` set ps" using ex_new_if_finite[OF infinite_UNIV_nat, of "fst ` set ps"] by blast
  then have "\<forall>p \<in> set ps. fst p \<noteq> c" by auto
  from packets_keep[OF ok(1) lim packets.hyps(2) this] packets_next_id[OF ok(1) lim packets.hyps(2)] ok(2) show ?case by simp
qed

lemma next_request_done:
  assumes "request_turn K ch buf hs k = t" and "\<not> is_again t"
  shows "next_request K ch (k, buf, hs) = Some t"
  using assms by (simp add: next_request.simps Let_def)

text \<open>A message that a client has put together as the protocol says is served.\<close>

lemma request_received:
  assumes recv: "ka_try_recv K ch 4096 16 k = (Inr (mh_to_bytes h @ data, hs), k1)" and h: "mh_is_valid h" "unat (mh_data_len h) = length data"
    and fits: "length data \<le> 4064" "length hs \<le> 16"
  shows "next_request K ch (k, replicate 4096 0, replicate 16 0) = Some (Serve h data hs k1)"
proof (rule next_request_done)
  let ?buf = "recv_into (mh_to_bytes h @ data) (replicate 4096 0)"
  have buf: "?buf = mh_to_bytes h @ (data @ replicate (4064 - length data) 0)" using fits(1) by (simp add: recv_into_def)
  have "mh_from_bytes ?buf = Some h" unfolding buf by (rule mh_from_to_bytes[OF h(1)])
  moreover have "take (length data) (drop MH_SIZE ?buf) = data" unfolding buf by (simp add: MH_SIZE_def)
  ultimately show "request_turn K ch (replicate 4096 0) (replicate 16 0) k = Serve h data hs k1"
    using recv h(2) fits recv_into_fits[of hs "replicate 16 0"] unfolding request_turn_def by (simp add: MH_SIZE_def)
qed (simp add: is_again_def)

section \<open>A registration\<close>

definition new_service :: "nat \<Rightarrow> u8 list \<Rightarrow> u8 list \<Rightarrow> u32 \<Rightarrow> nat \<Rightarrow> u32 \<Rightarrow> service_registry \<Rightarrow> registered_service" where
  "new_service c name desc fl now h r = \<lparr>rs_id = rg_next_id r, rs_name = name, rs_description = desc, rs_flags = fl, rs_registered_at = now,
     rs_owner_id = c, rs_channel = oh_from_raw h, rs_count_cell = rg_next_cell r\<rparr>"

definition registered_state :: "nat \<Rightarrow> client_connection \<Rightarrow> registered_service \<Rightarrow> 'k name_server \<Rightarrow> 'k name_server" where
  "registered_state c x t s = s\<lparr>ns_registry := rg_added t (ns_registry s),
     ns_clients := bt_insert c (x\<lparr>cc_registered_services := cc_registered_services x @ [rs_id t]\<rparr>) (ns_clients s)\<rparr>"

lemma register_succeeds:
  fixes h :: u32
  assumes s: "\<not> ns_guard s" "bt_get (ns_clients s) c = Some x"
    and data: "rr_name_len req = word_of_nat (length name)" "rr_desc_len req = word_of_nat (length desc)" "utf8_valid name" "utf8_valid desc"
      "length name \<le> MAX_SERVICE_NAME_LEN" "length desc < 2 ^ 32"
    and free: "length (rg_by_name (ns_registry s)) < rg_max_services (ns_registry s)" "rg_lookup name (ns_registry s) = None"
    and clock: "ka_clock K (ns_kernel s) = (Inr now, k)"
  defines "t \<equiv> new_service c name desc (from_bits_truncate sf_known (rr_flags req)) now h (ns_registry s)"
  defines "s1 \<equiv> registered_state c x t (s\<lparr>ns_kernel := k\<rparr>)"
  shows "handle_register K c seq (rr_bytes req @ name @ desc) (h # hs) s =
    Some (Ok (rp_with_data (u64_bytes (word_of_nat (rs_id t))) (rp_success seq)),
      s1\<lparr>ns_kernel := send_all K (notification name (rs_id t) OpNotifyOnline) (to_notify name WE_ONLINE s1) k\<rparr>)"
proof -
  let ?data = "rr_bytes req @ name @ desc"
  have len: "unat (rr_name_len req) = length name" "unat (rr_desc_len req) = length desc"
    using data(5,6) unfolding data(1,2) MAX_SERVICE_NAME_LEN_def by (simp_all add: unat_of_nat)
  have rd: "rr_read ?data = req" by (rule rr_roundtrip)
  have reg: "rg_register K name desc (from_bits_truncate sf_known (rr_flags req)) c (oh_from_raw h) (ns_registry s, ns_kernel s) =
      (Ok t, rg_added t (ns_registry s), k)"
    using free clock by (simp add: rg_register_def rg_lookup_def t_def new_service_def rg_added_def Let_def)
  have up: "update_client c (\<lambda>x. x\<lparr>cc_registered_services := cc_registered_services x @ [rs_id t]\<rparr>)
      (s\<lparr>ns_registry := rg_added t (ns_registry s), ns_kernel := k\<rparr>) = Some s1"
    using s by (simp add: update_client_eq s1_def registered_state_def)
  have "notify_online K name (rs_id t) s1 =
      Some (s1\<lparr>ns_kernel := send_all K (notification name (rs_id t) OpNotifyOnline) (to_notify name WE_ONLINE s1) k\<rparr>)"
    using s(1) by (simp add: notify_online_def ns_notify_eq s1_def registered_state_def)
  with reg up data(3-5) show ?thesis
    unfolding handle_register_def Let_def rd len by (simp add: from_utf8_def answer_def)
qed

section \<open>Properties\<close>

text \<open>C18: In every state the server reaches from its start, whatever clients and kernel do, fewer than 2^64 packets long, the two indices hold the same
  services under distinct names and numbers, at most as many as configured; every service belongs to a connected client whose record lists exactly the
  numbers of its services; and every watcher belongs to a connected client that has it in its list.\<close>

theorem name_server_invariant:
  assumes "ns_reach K pad n s" and "n + 1 < 2 ^ 64"
  shows "registry_ok (ns_registry s) \<and> card (services (ns_registry s)) \<le> rg_max_services (ns_registry s) \<and>
    (\<forall>t \<in> services (ns_registry s). \<exists>x. bt_get (ns_clients s) (rs_owner_id t) = Some x \<and> rs_id t \<in> set (cc_registered_services x)) \<and>
    (\<forall>c x. bt_get (ns_clients s) c = Some x \<longrightarrow>
       set (cc_registered_services x) = rs_id ` {t \<in> services (ns_registry s). rs_owner_id t = c}) \<and>
    (\<forall>i w. bt_get (wm_watchers (ns_watchers s)) i = Some w \<longrightarrow>
       (\<exists>x. bt_get (ns_clients s) (wa_client_id w) = Some x \<and> i \<in> set (cc_watches x)))"
proof -
  have ok: "ns_ok s" using reach_ok[OF assms] by blast
  note D = ns_okD[OF ok]
  have "card (services (ns_registry s)) \<le> rg_max_services (ns_registry s)"
    using rg_count_services[OF D(2)] registry_okD(3)[OF D(2)] by (simp add: rg_count_def)
  moreover have "\<exists>x. bt_get (ns_clients s) (rs_owner_id t) = Some x \<and> rs_id t \<in> set (cc_registered_services x)"
    if t: "t \<in> services (ns_registry s)" for t
  proof -
    obtain x where x: "bt_get (ns_clients s) (rs_owner_id t) = Some x" using D(6)[OF t] by blast
    with D(5)[OF x] t show ?thesis by (auto simp: client_ok_def owned_ids_def)
  qed
  ultimately show ?thesis
    using D(2,5) ns_ok_watcher[OF ok] by (fastforce simp: client_ok_def owned_ids_def)
qed

text \<open>C16: Services are protected from other clients. Whatever packets are dealt with in a reachable state, the services of a client from which none of
  the packets comes are after it exactly those before it, with the same names, numbers, flags and channels, whether the turn succeeds or fails. (The counter of connections of a service,
  which a client that connects to it increases, is a shared cell in the code and in the model, and not part of the record.)\<close>

theorem name_services_protected:
  assumes "ns_reach K pad n s" and "n + length ps + 1 < 2 ^ 64" and "ns_packets K pad ps s = Some (r, s')" and "\<forall>p \<in> set ps. fst p \<noteq> c"
  shows "{t \<in> services (ns_registry s'). rs_owner_id t = c} = {t \<in> services (ns_registry s). rs_owner_id t = c}"
  using packets_keep[OF _ _ assms(3,4)] reach_ok[OF assms(1)] assms(2) by simp

text \<open>C39: When a client that offers a service disconnects, the server hangs: it holds the lock of the table of clients and takes it again to notify the
  watchers, so the turn does not return, whatever follows in the batch.\<close>

theorem provider_disconnect_hangs:
  assumes "ns_reach K pad n s" and "n + 1 < 2 ^ 64" and "t \<in> services (ns_registry s)" and "rs_owner_id t = c" and "contains sig PEER_CLOSED" and "c \<noteq> 0"
  shows "ns_packets K pad ((c, sig) # ps) s = None"
proof -
  have ok: "ns_ok s" using reach_ok[OF assms(1,2)] by blast
  note D = ns_okD[OF ok]
  obtain x where x: "bt_get (ns_clients s) c = Some x" using D(6)[OF assms(3)] assms(4) by auto
  have "rs_id t \<in> set (cc_registered_services x)" using D(5)[OF x] assms(3,4) by (auto simp: client_ok_def owned_ids_def)
  then have "cc_registered_services x \<noteq> []" by auto
  with remove_client_outcome[OF ok x, of K] assms(5,6) show ?thesis by (simp add: ns_packet_def handle_client_event_def)
qed

text \<open>A message of any connected client whose header announces more data than the buffer holds makes the server panic.\<close>

theorem announced_length_panics:
  assumes "ns_reach K pad n s" and "n + 1 < 2 ^ 64" and "bt_get (ns_clients s) c = Some x" and "c \<noteq> 0"
    and "ka_try_recv K (oh_raw (cc_channel x)) 4096 16 (ns_kernel s) = (Inr (mh_to_bytes h @ data, hs), k)" and "mh_is_valid h"
    and "4064 < unat (mh_data_len h)"
  shows "\<exists>s'. ns_packets K pad ((c, READABLE) # ps) s = Some (Panic, s')"
proof -
  let ?buf = "recv_into (mh_to_bytes h @ data) (replicate 4096 0)"
  have "?buf = mh_to_bytes h @ (take 4064 data @ drop (length data) (replicate 4064 0))" by (simp add: recv_into_def)
  then have "mh_from_bytes ?buf = Some h" using mh_from_to_bytes[OF assms(6)] by simp
  then have "request_turn K (oh_raw (cc_channel x)) (replicate 4096 0) (replicate 16 0) (ns_kernel s) = BadLength k"
    using assms(5,7) unfolding request_turn_def by (simp add: MH_SIZE_def)
  from next_request_done[OF this] have "handle_client_request K pad c s = Some (Panic, s\<lparr>ns_kernel := k\<rparr>)"
    using reach_ok[OF assms(1,2)] ns_okD(1)[of s] assms(3) by (simp add: handle_client_request_def is_again_def)
  moreover have "\<not> contains READABLE PEER_CLOSED" by (simp add: contains_def signal_defs)
  ultimately show ?thesis using assms(4) by (simp add: ns_packet_def handle_client_event_def)
qed

section \<open>A sample server\<close>

definition script_config :: ns_config where
  "script_config = \<lparr>cf_max_services = 4, cf_max_clients = 2, cf_max_watchers = 4\<rparr>"

text \<open>The server after the client 1 has connected, with the handle 20, and after it has registered the service \<open>A\<close>.\<close>

abbreviation empty_server :: "(u8 list \<times> u32 list) list name_server" where
  "empty_server \<equiv> \<lparr>ns_config = script_config, ns_registry = rg_new 4, ns_watchers = wm_new 4, ns_port = oh_from_raw 10, ns_accept = oh_from_raw 11,
     ns_clients = [], ns_guard = False, ns_next_client_id = 1, ns_running = False, ns_kernel = []\<rparr>"

definition sample_client :: "nat list \<Rightarrow> client_connection" where
  "sample_client is = \<lparr>cc_id = 1, cc_channel = oh_from_raw 20, cc_key = 1, cc_registered_services = is, cc_watches = []\<rparr>"

definition sample_service :: registered_service where
  "sample_service = \<lparr>rs_id = 1, rs_name = [65], rs_description = [], rs_flags = 0, rs_registered_at = 7, rs_owner_id = 1,
     rs_channel = oh_from_raw 30, rs_count_cell = 0\<rparr>"

definition one_client :: "(u8 list \<times> u32 list) list name_server" where
  "one_client = empty_server\<lparr>ns_clients := [(1, sample_client [])], ns_next_client_id := 2\<rparr>"

definition one_service :: "(u8 list \<times> u32 list) list name_server" where
  "one_service = empty_server\<lparr>ns_clients := [(1, sample_client [1])], ns_next_client_id := 2, ns_registry := rg_added sample_service (rg_new 4)\<rparr>"

definition register_data :: "u8 list" where
  "register_data = rr_bytes \<lparr>rr_flags = 0, rr_name_len = 1, rr_desc_len = 0, rr_reserved = 0\<rparr> @ [65]"

lemma one_client_reached: "ns_reach script_kernel 0 1 one_client"
proof -
  have new: "ns_new script_kernel script_config [] = (Ok (empty_server, oh_from_raw 12), [])"
    by (simp add: ns_new_def) (simp add: script_config_def)
  have "ns_packets script_kernel 0 [(0, READABLE)] (empty_server\<lparr>ns_kernel := [([], [20])]\<rparr>) = Some (Ok (), one_client)"
    by (simp add: ns_packet_def handle_accept.simps accept_turn_def add_client_def chk_add_def oh_from_raw_def script_config_def answer_def
        one_client_def sample_client_def Let_def)
  from ns_reach.packets[OF ns_reach.start[OF new] this] show ?thesis by simp
qed

lemma one_service_reached: "ns_reach script_kernel 0 2 one_service"
proof -
  let ?h = "(new_request OpRegister 1)\<lparr>mh_data_len := 17\<rparr>" and ?k = "[(mh_to_bytes ((new_request OpRegister 1)\<lparr>mh_data_len := 17\<rparr>) @ register_data, [30])]"
  have len: "length register_data = 17" by (simp add: register_data_def)
  have req: "next_request script_kernel 20 (?k, replicate 4096 0, replicate 16 0) = Some (Serve ?h register_data [30] [])"
    by (rule request_received) (simp_all add: len)
  have c: "\<not> ns_guard one_client" "bt_get (ns_clients one_client) 1 = Some (sample_client [])" "ns_registry one_client = rg_new 4"
    "ns_kernel one_client = []" "ns_watchers one_client = wm_new 4" by (simp_all add: one_client_def bt_get_def)
  have t: "new_service 1 [65] [] (from_bits_truncate sf_known 0) 7 30 (rg_new 4) = sample_service"
    by (simp add: new_service_def sample_service_def rg_new_def from_bits_truncate_def)
  have s1: "registered_state 1 (sample_client []) sample_service one_client = one_service"
    by (simp add: registered_state_def one_client_def one_service_def sample_client_def sample_service_def)
  have nobody: "to_notify [65] WE_ONLINE one_service = []" by (simp add: to_notify_def one_service_def wm_new_def map_filter_simps)
  have room: "length (rg_by_name (rg_new 4)) < rg_max_services (rg_new 4)" "rg_lookup [65] (rg_new 4) = None" by (simp_all add: rg_new_def rg_lookup_def)
  have same: "one_client\<lparr>ns_kernel := []\<rparr> = one_client" "one_service\<lparr>ns_kernel := []\<rparr> = one_service" by (simp_all add: one_client_def one_service_def)
  let ?req = "\<lparr>rr_flags = 0, rr_name_len = 1, rr_desc_len = 0, rr_reserved = 0\<rparr>"
  have "handle_register script_kernel 1 1 register_data [30] one_client = Some (Ok (rp_with_data (u64_bytes 1) (rp_success 1)), one_service)"
    using register_succeeds[OF c(1,2), where req = ?req and name = "[65]" and desc = "[]" and K = script_kernel and now = 7 and k = "[]" and h = 30
        and seq = 1 and hs = "[]", unfolded c(3)]
    by (simp add: room same t s1 nobody c(4) register_data_def MAX_SERVICE_NAME_LEN_def del: One_nat_def) (simp add: sample_service_def same)
  then have "rh_handle script_kernel 0 1 ?h register_data [30] one_client = Some (Ok (rp_with_data (u64_bytes 1) (rp_success 1)), one_service)"
    by (simp add: rh_handle_def new_request_def op_from_def)
  moreover have "\<not> contains READABLE PEER_CLOSED" by (simp add: contains_def signal_defs)
  moreover have "bt_get (ns_clients one_service) 1 = Some (sample_client [1])" "ns_kernel one_service = []"
    by (simp_all add: one_service_def bt_get_def)
  ultimately have "ns_packets script_kernel 0 [(1, READABLE)] (one_client\<lparr>ns_kernel := ?k\<rparr>) = Some (Ok (), one_service)"
    using req c(1,2) same by (simp add: ns_packet_def handle_client_event_def handle_client_request_def answer_def sample_client_def oh_from_raw_def)
  from ns_reach.packets[OF one_client_reached this] show ?thesis by (simp add: numeral_2_eq_2)
qed

lemma one_service_has: "sample_service \<in> services (ns_registry one_service)"
  by (simp add: services_def one_service_def lookup_added)

theorem name_server_invariant_witness:
  "registry_ok (ns_registry one_service) \<and> (\<exists>x. bt_get (ns_clients one_service) 1 = Some x \<and> 1 \<in> set (cc_registered_services x))"
  using name_server_invariant[OF one_service_reached] one_service_has by (force simp: sample_service_def)

theorem name_services_protected_witness:
  "\<exists>s'. ns_packets script_kernel 0 [(0, READABLE)] one_service = Some (Ok (), s') \<and> sample_service \<in> services (ns_registry s')"
proof -
  have run: "ns_packets script_kernel 0 [(0, READABLE)] one_service = Some (Ok (), one_service)"
    by (simp add: ns_packet_def handle_accept.simps accept_turn_def one_service_def answer_def)
  from name_services_protected[OF one_service_reached _ run, of 1] one_service_has
  have "sample_service \<in> services (ns_registry one_service)" by (simp add: sample_service_def set_eq_iff)
  with run show ?thesis by blast
qed

theorem provider_disconnect_hangs_witness: "ns_packets script_kernel 0 [(1, PEER_CLOSED), (0, READABLE)] one_service = None"
  by (rule provider_disconnect_hangs[OF one_service_reached _ one_service_has]) (simp_all add: sample_service_def)

theorem announced_length_panics_witness:
  "\<exists>s'. ns_packets script_kernel 0 [(1, READABLE)] (one_client\<lparr>ns_kernel := [(mh_to_bytes ((new_request OpLookup 1)\<lparr>mh_data_len := 5000\<rparr>), [])]\<rparr>) =
     Some (Panic, s')"
proof -
  let ?h = "(new_request OpLookup 1)\<lparr>mh_data_len := 5000\<rparr>" and ?s = "one_client\<lparr>ns_kernel := [(mh_to_bytes ((new_request OpLookup 1)\<lparr>mh_data_len := 5000\<rparr>), [])]\<rparr>"
  have "ns_packets script_kernel 0 [] (one_client\<lparr>ns_kernel := ns_kernel ?s\<rparr>) = Some (Ok (), ?s)" by (simp add: answer_def)
  from ns_reach.packets[OF one_client_reached this] have reach: "ns_reach script_kernel 0 1 ?s" by simp
  show ?thesis
    by (rule announced_length_panics[OF reach, of 1 "sample_client []" ?h "[]" "[]"]) (simp_all add: one_client_def bt_get_def)
qed

end
