(* ===== verification/Name_Client.thy ===== *)
theory Name_Client
  imports Name_Ownership
begin

text \<open>
  The client of the name server, \<open>nameserver/src/client.rs\<close>, and what client and server achieve together: a service that is registered is found, with what
  was registered, by every client; a listing shows what is registered. \<open>None\<close> is a call that does not return.
\<close>

section \<open>Requests\<close>

record 'k name_service =
  nc_channel :: owned_handle
  nc_port :: owned_handle
  nc_next_seq :: u32
  nc_kernel :: 'k

type_synonym ('k, 'a) nc_outcome = "((ns_error, 'a) res \<times> 'k name_service) option"

definition nc_from_channel :: "'k kernel_api \<Rightarrow> owned_handle \<Rightarrow> 'k \<Rightarrow> (ns_error, 'k name_service) res \<times> 'k" where
  "nc_from_channel K channel k =
     (case ka_port_create K k of
        (Inl e, k1) \<Rightarrow> (Err (ns_error_of e), oh_drop K channel k1)
      | (Inr port, k1) \<Rightarrow>
          (case ka_bind K port 1 (oh_raw channel) (READABLE OR PEER_CLOSED) True k1 of
             (Inl e, k2) \<Rightarrow> (Err (ns_error_of e), oh_drop K channel (oh_drop K (oh_from_raw port) k2))
           | (Inr _, k2) \<Rightarrow> (Ok \<lparr>nc_channel = channel, nc_port = oh_from_raw port, nc_next_seq = 1, nc_kernel = k2\<rparr>, k2)))"

text \<open>What the client makes of a message in its buffers; \<open>None\<close> is a message that is not the response.\<close>

definition read_response :: "u32 \<Rightarrow> u8 list \<Rightarrow> u32 list \<Rightarrow> nat \<Rightarrow> (ns_error, message_header \<times> u8 list \<times> u32 list) res option" where
  "read_response seq buf handles handle_count =
     (case mh_from_bytes buf of
        None \<Rightarrow> Some (Err NsInvalidArgument)
      | Some h \<Rightarrow>
          if mh_sequence h = seq then
            (if mh_status h \<noteq> 0 then Some (error_of_status (status_from (mh_status h)))
             else if MH_SIZE + unat (mh_data_len h) > length buf \<or> handle_count > length handles then Some Panic
             else Some (Ok (h, take (unat (mh_data_len h)) (drop MH_SIZE buf), take handle_count handles)))
          else None)"

definition wait_events :: "'k kernel_api \<Rightarrow> u32 \<Rightarrow> deadline \<Rightarrow> 'k \<Rightarrow> (ns_error, (nat \<times> signals) list) res \<times> 'k" where
  "wait_events K port timeout k =
     (case to_timeout_ns K timeout k of
        (Ok ns, k1) \<Rightarrow>
          (case ka_wait K port 4 ns k1 of
             (Inl e, k2) \<Rightarrow> (Err (ns_error_of e), k2)
           | (Inr ps, k2) \<Rightarrow> if ps = [] then (Err NsTimeout, k2) else (Ok ps, k2))
      | (Err e, k1) \<Rightarrow> (Err (ns_error_of e), k1)
      | (Panic, k1) \<Rightarrow> (Panic, k1))"

type_synonym 'k buffers = "'k \<times> u8 list \<times> u32 list"

definition response_turn :: "'k kernel_api \<Rightarrow> 'k name_service \<Rightarrow> u32 \<Rightarrow> deadline \<Rightarrow> 'k buffers \<Rightarrow>
    'k buffers + (ns_error, message_header \<times> u8 list \<times> u32 list) res \<times> 'k" where
  "response_turn K s seq timeout b =
     (let (k, buf, handles) = b;
          sleep = (\<lambda>(k, buf, handles).
            case wait_events K (oh_raw (nc_port s)) timeout k of
              (Ok ps, k1) \<Rightarrow>
                if list_ex (\<lambda>p. contains (snd p) PEER_CLOSED) ps then Inr (Err NsDisconnected, k1) else Inl (k1, buf, handles)
            | (Err e, k1) \<Rightarrow> Inr (Err e, k1)
            | (Panic, k1) \<Rightarrow> Inr (Panic, k1))
      in case ka_try_recv K (oh_raw (nc_channel s)) (length buf) (length handles) k of
           (Inr (bs, hs), k1) \<Rightarrow>
             (let buf1 = recv_into bs buf; handles1 = recv_into hs handles
              in if length bs \<ge> MH_SIZE then
                   (case read_response seq buf1 handles1 (length hs) of
                      Some r \<Rightarrow> Inr (r, k1)
                    | None \<Rightarrow> sleep (k1, buf1, handles1))
                 else sleep (k1, buf1, handles1))
         | (Inl e, k1) \<Rightarrow>
             if errno e = EAGAIN then sleep (k1, buf, handles)
             else if errno e = EPIPE then Inr (Err NsDisconnected, k1)
             else Inr (Err (ns_error_of e), k1))"

partial_function (option) response_loop :: "'k kernel_api \<Rightarrow> 'k name_service \<Rightarrow> u32 \<Rightarrow> deadline \<Rightarrow> 'k buffers \<Rightarrow>
    ((ns_error, message_header \<times> u8 list \<times> u32 list) res \<times> 'k) option" where
  "response_loop K s seq timeout b =
     (let t = response_turn K s seq timeout b in if isl t then response_loop K s seq timeout (projl t) else Some (projr t))"

definition wait_response :: "'k kernel_api \<Rightarrow> u32 \<Rightarrow> deadline \<Rightarrow> 'k name_service \<Rightarrow> ('k, message_header \<times> u8 list \<times> u32 list) nc_outcome" where
  "wait_response K seq timeout s =
     map_option (\<lambda>(r, k). (r, s\<lparr>nc_kernel := k\<rparr>)) (response_loop K s seq timeout (nc_kernel s, replicate 4096 0, replicate 16 0))"

definition request_header :: "op_code \<Rightarrow> u32 \<Rightarrow> u8 list \<Rightarrow> u32 list \<Rightarrow> message_header" where
  "request_header opc seq data handles =
     (new_request opc seq)\<lparr>mh_data_len := word_of_nat (length data), mh_handle_count := word_of_nat (length handles)\<rparr>"

definition nc_request :: "'k kernel_api \<Rightarrow> op_code \<Rightarrow> u8 list \<Rightarrow> u32 list \<Rightarrow> deadline \<Rightarrow> 'k name_service \<Rightarrow>
    ('k, message_header \<times> u8 list \<times> u32 list) nc_outcome" where
  "nc_request K opc data handles timeout s =
     (let seq = nc_next_seq s; s1 = s\<lparr>nc_next_seq := seq + 1\<rparr>
      in case ka_send K (oh_raw (nc_channel s)) (mh_to_bytes (request_header opc seq data handles) @ data) handles (nc_kernel s) of
           (Inl e, k) \<Rightarrow> Some (Err (ns_error_of e), s1\<lparr>nc_kernel := k\<rparr>)
         | (Inr _, k) \<Rightarrow> wait_response K seq timeout (s1\<lparr>nc_kernel := k\<rparr>))"

definition nc_then :: "('k, 'a) nc_outcome \<Rightarrow> ('a \<Rightarrow> (ns_error, 'b) res) \<Rightarrow> ('k, 'b) nc_outcome" where
  "nc_then m f = map_option (\<lambda>(r, s). (bind_res r f, s)) m"

section \<open>Operations\<close>

record service_handle =
  sh_service_id :: u64
  sh_name :: "u8 list"

record watch_handle =
  wh_watch_id :: u32
  wh_pattern :: "u8 list option"

datatype notification_event = Online | Offline

record notification_msg =
  nm_event :: notification_event
  nm_service_id :: u64
  nm_service_name :: "u8 list"

definition register_bytes :: "u8 list \<Rightarrow> u8 list \<Rightarrow> u32 \<Rightarrow> u8 list" where
  "register_bytes name description flags =
     rr_bytes \<lparr>rr_flags = flags, rr_name_len = word_of_nat (length name), rr_desc_len = word_of_nat (length description), rr_reserved = 0\<rparr> @
     name @ description"

definition read_registered :: "u8 list \<Rightarrow> message_header \<times> u8 list \<times> u32 list \<Rightarrow> (ns_error, service_handle) res" where
  "read_registered name q =
     (let resp_data = fst (snd q)
      in if length resp_data \<ge> 8 then Ok \<lparr>sh_service_id = field resp_data 0 8, sh_name = name\<rparr> else Err NsInternalError)"

definition nc_register :: "'k kernel_api \<Rightarrow> u8 list \<Rightarrow> u8 list \<Rightarrow> u32 \<Rightarrow> u32 \<Rightarrow> 'k name_service \<Rightarrow> ('k, service_handle) nc_outcome" where
  "nc_register K name description flags service_channel s =
     (if length name > MAX_SERVICE_NAME_LEN then Some (Err NsNameTooLong, s)
      else nc_then (nc_request K OpRegister (register_bytes name description flags) [service_channel] Infinite s) (read_registered name))"

definition counted_bytes :: "u8 list \<Rightarrow> u8 list" where
  "counted_bytes name = u32_bytes (word_of_nat (length name)) @ name"

definition nc_unregister :: "'k kernel_api \<Rightarrow> u8 list \<Rightarrow> 'k name_service \<Rightarrow> ('k, unit) nc_outcome" where
  "nc_unregister K name s =
     (if length name > MAX_SERVICE_NAME_LEN then Some (Err NsNameTooLong, s)
      else nc_then (nc_request K OpUnregister (counted_bytes name) [] Infinite s) (\<lambda>_. Ok ()))"

definition parse_service_info :: "u8 list \<Rightarrow> (ns_error, service_info \<times> u8 list) res" where
  "parse_service_info data =
     (if length data < SI_SIZE then Err NsInvalidArgument
      else
        let info = si_read data; n = unat (si_name_len info)
        in if n > 0 \<and> length data \<ge> SI_SIZE + n
           then (case from_utf8 (take n (drop SI_SIZE data)) of None \<Rightarrow> Err NsInvalidArgument | Some name \<Rightarrow> Ok (info, name))
           else Ok (info, []))"

definition lookup_bytes :: "u8 list \<Rightarrow> u32 \<Rightarrow> u8 list" where
  "lookup_bytes name timeout_ms = lr_bytes \<lparr>lr_name_len = word_of_nat (length name), lr_timeout_ms = timeout_ms\<rparr> @ name"

definition lookup_deadline :: "u32 \<Rightarrow> deadline" where
  "lookup_deadline timeout_ms = (if timeout_ms = 0 then Infinite else Relative (unat timeout_ms * 1000000))"

definition nc_lookup_timeout :: "'k kernel_api \<Rightarrow> u8 list \<Rightarrow> u32 \<Rightarrow> 'k name_service \<Rightarrow> ('k, service_info \<times> u8 list) nc_outcome" where
  "nc_lookup_timeout K name timeout_ms s =
     (if length name > MAX_SERVICE_NAME_LEN then Some (Err NsNameTooLong, s)
      else nc_then (nc_request K OpLookup (lookup_bytes name timeout_ms) [] (lookup_deadline timeout_ms) s) (\<lambda>q. parse_service_info (fst (snd q))))"

definition nc_lookup :: "'k kernel_api \<Rightarrow> u8 list \<Rightarrow> 'k name_service \<Rightarrow> ('k, service_info \<times> u8 list) nc_outcome" where
  "nc_lookup K name = nc_lookup_timeout K name 0"

definition nc_connect_timeout :: "'k kernel_api \<Rightarrow> u8 list \<Rightarrow> u32 \<Rightarrow> 'k name_service \<Rightarrow> ('k, owned_handle) nc_outcome" where
  "nc_connect_timeout K name timeout_ms s =
     (if length name > MAX_SERVICE_NAME_LEN then Some (Err NsNameTooLong, s)
      else nc_then (nc_request K OpConnect (lookup_bytes name timeout_ms) [] (lookup_deadline timeout_ms) s)
             (\<lambda>q. case snd (snd q) of [] \<Rightarrow> Err NsServiceUnavailable | h # _ \<Rightarrow> Ok (oh_from_raw h)))"

definition nc_connect_to :: "'k kernel_api \<Rightarrow> u8 list \<Rightarrow> 'k name_service \<Rightarrow> ('k, owned_handle) nc_outcome" where
  "nc_connect_to K name = nc_connect_timeout K name 0"

definition nc_exists :: "'k kernel_api \<Rightarrow> u8 list \<Rightarrow> 'k name_service \<Rightarrow> ('k, bool) nc_outcome" where
  "nc_exists K name s =
     map_option (\<lambda>(r, s1). (case r of Ok _ \<Rightarrow> Ok True | Err NsNotFound \<Rightarrow> Ok False | Err e \<Rightarrow> Err e | Panic \<Rightarrow> Panic, s1)) (nc_lookup K name s)"

fun parse_entries :: "nat \<Rightarrow> nat \<Rightarrow> u8 list \<Rightarrow> (ns_error, (service_info \<times> u8 list) list) res" where
  "parse_entries 0 off data = Ok []"
| "parse_entries (Suc n) off data =
     (if off + SI_SIZE > length data then Ok []
      else
        let info = si_read (drop off data); name_base = off + SI_SIZE; l = unat (si_name_len info);
            name = (if l > 0 \<and> length data \<ge> name_base + l
                    then (case from_utf8 (take l (drop name_base data)) of None \<Rightarrow> Err NsInvalidArgument | Some name \<Rightarrow> Ok name) else Ok [])
        in bind_res name (\<lambda>name.
             bind_res (parse_entries n (off + SI_SIZE + l + unat (si_desc_len info)) data) (\<lambda>es. Ok ((info, name) # es))))"

definition parse_service_list :: "u8 list \<Rightarrow> (ns_error, service_info list \<times> u8 list list) res" where
  "parse_service_list data =
     (if length data < 8 then Err NsInvalidArgument
      else bind_res (parse_entries (unat (ln_returned_count (ln_read data))) 8 data) (\<lambda>es. Ok (map fst es, map snd es)))"

definition list_bytes :: "u8 list \<Rightarrow> u32 \<Rightarrow> u8 list" where
  "list_bytes contain_name limit = lq_bytes \<lparr>lq_limit = limit, lq_contain_name_len = word_of_nat (length contain_name)\<rparr> @ contain_name"

definition nc_list :: "'k kernel_api \<Rightarrow> u8 list option \<Rightarrow> u32 \<Rightarrow> 'k name_service \<Rightarrow> ('k, service_info list \<times> u8 list list) nc_outcome" where
  "nc_list K contain_name limit s =
     (let name = (case contain_name of None \<Rightarrow> [] | Some n \<Rightarrow> n)
      in nc_then (nc_request K OpList (list_bytes name limit) [] Infinite s) (\<lambda>q. parse_service_list (fst (snd q))))"

definition watch_bytes :: "u8 list \<Rightarrow> u32 \<Rightarrow> u8 list" where
  "watch_bytes name events = wr_bytes \<lparr>wr_name_len = word_of_nat (length name), wr_events = events\<rparr> @ name"

definition read_watched :: "u8 list \<Rightarrow> message_header \<times> u8 list \<times> u32 list \<Rightarrow> watch_handle" where
  "read_watched name q = \<lparr>wh_watch_id = mh_sequence (fst q), wh_pattern = (if name = [] then None else Some name)\<rparr>"

definition nc_watch :: "'k kernel_api \<Rightarrow> u8 list option \<Rightarrow> u32 \<Rightarrow> 'k name_service \<Rightarrow> ('k, watch_handle) nc_outcome" where
  "nc_watch K name events s =
     (let name = (case name of None \<Rightarrow> [] | Some n \<Rightarrow> n)
      in nc_then (nc_request K OpWatch (watch_bytes name events) [] Infinite s) (\<lambda>q. Ok (read_watched name q)))"

definition nc_unwatch :: "'k kernel_api \<Rightarrow> watch_handle \<Rightarrow> 'k name_service \<Rightarrow> ('k, unit) nc_outcome" where
  "nc_unwatch K handle s = nc_then (nc_request K OpUnwatch (u32_bytes (wh_watch_id handle)) [] Infinite s) (\<lambda>_. Ok ())"

definition parse_notification :: "message_header \<Rightarrow> u8 list \<Rightarrow> (ns_error, notification_msg) res" where
  "parse_notification h data =
     (if MH_SIZE + unat (mh_data_len h) > length data then Panic
      else
        let payload = take (unat (mh_data_len h)) (drop MH_SIZE data)
        in if length payload < ND_SIZE then Err NsInvalidArgument
           else
             let d = nd_read payload; n = unat (nd_name_len d)
             in if ND_SIZE + n > length payload then Panic
                else case from_utf8 (take n (drop ND_SIZE payload)) of
                       None \<Rightarrow> Err NsInvalidArgument
                     | Some name \<Rightarrow>
                         (case op_from (mh_opcode h) of
                            OpNotifyOnline \<Rightarrow> Ok \<lparr>nm_event = Online, nm_service_id = nd_service_id d, nm_service_name = name\<rparr>
                          | OpNotifyOffline \<Rightarrow> Ok \<lparr>nm_event = Offline, nm_service_id = nd_service_id d, nm_service_name = name\<rparr>
                          | _ \<Rightarrow> Err NsInvalidArgument))"

text \<open>The packets of one wait, in order: \<open>None\<close> goes on to the next wait.\<close>

fun notification_scan :: "'k kernel_api \<Rightarrow> u32 \<Rightarrow> (nat \<times> signals) list \<Rightarrow> 'k \<times> u8 list \<Rightarrow>
    (ns_error, notification_msg) res option \<times> 'k \<times> u8 list" where
  "notification_scan K ch [] b = (None, b)"
| "notification_scan K ch (p # ps) b =
     (let (k, buf) = b
      in if contains (snd p) PEER_CLOSED then (Some (Err NsDisconnected), b)
         else if contains (snd p) READABLE then
           (case ka_try_recv K ch (length buf) 4 k of
              (Inr (bs, _), k1) \<Rightarrow>
                (let buf1 = recv_into bs buf
                 in if length bs \<ge> MH_SIZE then
                      (case mh_from_bytes buf1 of
                         None \<Rightarrow> (Some (Err NsInvalidArgument), k1, buf1)
                       | Some h \<Rightarrow>
                           if mh_flags h AND MSG_NOTIFICATION \<noteq> 0 then (Some (parse_notification h buf1), k1, buf1)
                           else notification_scan K ch ps (k1, buf1))
                    else notification_scan K ch ps (k1, buf1))
            | (Inl _, k1) \<Rightarrow> notification_scan K ch ps (k1, buf))
         else notification_scan K ch ps b)"

definition notification_turn :: "'k kernel_api \<Rightarrow> 'k name_service \<Rightarrow> deadline \<Rightarrow> 'k \<times> u8 list \<Rightarrow>
    'k \<times> u8 list + (ns_error, notification_msg) res \<times> 'k" where
  "notification_turn K s timeout b =
     (case wait_events K (oh_raw (nc_port s)) timeout (fst b) of
        (Ok ps, k1) \<Rightarrow>
          (case notification_scan K (oh_raw (nc_channel s)) ps (k1, snd b) of
             (Some r, k2, _) \<Rightarrow> Inr (r, k2)
           | (None, b2) \<Rightarrow> Inl b2)
      | (Err e, k1) \<Rightarrow> Inr (Err e, k1)
      | (Panic, k1) \<Rightarrow> Inr (Panic, k1))"

partial_function (option) notification_loop :: "'k kernel_api \<Rightarrow> 'k name_service \<Rightarrow> deadline \<Rightarrow> 'k \<times> u8 list \<Rightarrow>
    ((ns_error, notification_msg) res \<times> 'k) option" where
  "notification_loop K s timeout b =
     (let t = notification_turn K s timeout b in if isl t then notification_loop K s timeout (projl t) else Some (projr t))"

definition nc_wait_notification :: "'k kernel_api \<Rightarrow> deadline \<Rightarrow> 'k name_service \<Rightarrow> ('k, notification_msg) nc_outcome" where
  "nc_wait_notification K timeout s =
     map_option (\<lambda>(r, k). (r, s\<lparr>nc_kernel := k\<rparr>)) (notification_loop K s timeout (nc_kernel s, replicate 1024 0))"

section \<open>Client and server together\<close>

text \<open>What the client makes of a response of the server.\<close>

definition client_reads :: "u32 \<Rightarrow> response \<Rightarrow> (ns_error, message_header \<times> u8 list \<times> u32 list) res option" where
  "client_reads seq resp =
     read_response seq (recv_into (rp_data resp) (replicate 4096 0)) (recv_into (rp_handles resp) (replicate 16 0)) (length (rp_handles resp))"

lemma rp_data_with:
  "rp_data (rp_with_data bs (rp_success seq)) = mh_to_bytes ((new_response seq StOk)\<lparr>mh_data_len := word_of_nat (length bs)\<rparr>) @ bs"
  "rp_handles (rp_with_data bs (rp_success seq)) = []"
  by (simp_all add: rp_with_data_def rp_success_def MH_SIZE_def splice_def mh_to_bytes_def)

lemma buffer_header:
  assumes "length bs \<le> 4064" and "mh_is_valid h"
  shows "mh_from_bytes (recv_into (mh_to_bytes h @ bs) (replicate 4096 0)) = Some h"
    and "take (length bs) (drop 32 (recv_into (mh_to_bytes h @ bs) (replicate 4096 0))) = bs"
proof -
  have "recv_into (mh_to_bytes h @ bs) (replicate 4096 0) = mh_to_bytes h @ bs @ replicate (4064 - length bs) 0"
    using assms(1) by (simp add: recv_into_def)
  with mh_from_to_bytes[OF assms(2)] show "mh_from_bytes (recv_into (mh_to_bytes h @ bs) (replicate 4096 0)) = Some h"
    and "take (length bs) (drop 32 (recv_into (mh_to_bytes h @ bs) (replicate 4096 0))) = bs" by simp_all
qed

lemma reads_data:
  assumes "length bs \<le> 4064"
  shows "client_reads seq (rp_with_data bs (rp_success seq)) =
    Some (Ok ((new_response seq StOk)\<lparr>mh_data_len := word_of_nat (length bs)\<rparr>, bs, []))"
proof -
  let ?h = "(new_response seq StOk)\<lparr>mh_data_len := word_of_nat (length bs)\<rparr>"
  have "unat (mh_data_len ?h) = length bs" "mh_sequence ?h = seq" "mh_status ?h = 0" using assms by (simp_all add: unat_of_nat new_response_def)
  then show ?thesis
    using buffer_header[OF assms, of ?h] assms unfolding client_reads_def read_response_def rp_data_with by (simp add: MH_SIZE_def)
qed

lemma unat_length: "length xs < 2 ^ 32 \<Longrightarrow> unat (word_of_nat (length xs) :: u32) = length xs"
  by (simp add: unat_of_nat)

lemma lookup_name_bytes:
  "utf8_valid name \<Longrightarrow> length name < 2 ^ 32 \<Longrightarrow> lookup_name (lookup_bytes name ms) = Some name"
  by (simp add: lookup_name_def lookup_bytes_def wire_simps from_utf8_def unat_length)

lemma op_of_request [simp]: "op_from (mh_opcode (request_header opc seq data hs)) = opc" "mh_sequence (request_header opc seq data hs) = seq"
  by (simp_all add: request_header_def new_request_def)

lemma service_entry_parsed:
  assumes "\<forall>t \<in> set ts. text_ok t" and "data = pre @ concat (map (service_entry pad r) ts) @ post"
  shows "parse_entries (length ts) (length pre) data = Ok (map (\<lambda>t. (rs_to_info r t, rs_name t)) ts)"
  using assms
proof (induction ts arbitrary: pre)
  case Nil
  then show ?case by simp
next
  case (Cons t ts)
  let ?e = "service_entry pad r t" and ?rest = "concat (map (service_entry pad r) ts) @ post"
  have t: "utf8_valid (rs_name t)" "length (rs_name t) < 2 ^ 32" "length (rs_description t) < 2 ^ 32"
    using Cons.prems(1) by (auto simp: text_ok_def MAX_SERVICE_NAME_LEN_def)
  have info: "unat (si_name_len (rs_to_info r t)) = length (rs_name t)" "unat (si_desc_len (rs_to_info r t)) = length (rs_description t)"
    using t(2,3) by (simp_all add: rs_to_info_def unat_length)
  have data: "data = pre @ si_bytes pad (rs_to_info r t) @ rs_name t @ rs_description t @ ?rest"
    using Cons.prems(2) by (simp add: service_entry_def[of pad r t])
  have "si_read (drop (length pre) data) = rs_to_info r t" unfolding data by (simp add: wire_simps)
  moreover have "take (length (rs_name t)) (drop (length pre + 40) data) = rs_name t" unfolding data by simp
  moreover have "length data \<ge> length pre + 40 + length (rs_name t)" unfolding data by simp
  moreover have "parse_entries (length ts) (length (pre @ ?e)) data = Ok (map (\<lambda>t. (rs_to_info r t, rs_name t)) ts)"
    by (rule Cons.IH) (use Cons.prems in simp_all)
  then have "parse_entries (length ts) (length pre + 40 + length (rs_name t) + length (rs_description t)) data =
      Ok (map (\<lambda>t. (rs_to_info r t, rs_name t)) ts)" by (simp add: service_entry_def add.assoc)
  ultimately show ?case using t(1) info by (simp add: SI_SIZE_def Let_def from_utf8_def)
qed

lemma list_found:
  assumes "registry_ok r"
  shows "sorted_wrt (<) (map rs_name (rg_list w lim r))" and "set (rg_list w lim r) \<subseteq> {t \<in> services r. sublist w (rs_name t) \<and> \<not> contains (rs_flags t) SF_HIDDEN}"
    and "rg_count r \<le> lim \<Longrightarrow> set (rg_list w lim r) = {t \<in> services r. sublist w (rs_name t) \<and> \<not> contains (rs_flags t) SF_HIDDEN}"
proof -
  let ?P = "\<lambda>(name, s). sublist w name \<and> \<not> contains (rs_flags s) SF_HIDDEN"
  have mem: "(name, s) \<in> set (rg_by_name r) \<longleftrightarrow> s \<in> services r \<and> rs_name s = name" for name s
    using btm.entries_get[OF registry_okD(1)[OF assms]] lookup_service[OF assms] by (simp add: rg_lookup_def)
  have names: "map rs_name (map snd es) = map fst es" if "set es \<subseteq> set (rg_by_name r)" for es
    using that by (induction es) (auto simp: mem)
  have sub: "set (take lim (filter ?P (rg_by_name r))) \<subseteq> set (rg_by_name r)" using set_take_subset[of lim] by fastforce
  have "sorted_wrt (<) (map fst (filter ?P (rg_by_name r)))"
    using btm.entries_sorted[OF registry_okD(1)[OF assms]] by (simp add: sorted_wrt_map sorted_wrt_filter)
  then show "sorted_wrt (<) (map rs_name (rg_list w lim r))"
    unfolding rg_list_def names[OF sub] by (subst take_map[symmetric]) (rule sorted_wrt_take)
  show "set (rg_list w lim r) \<subseteq> {t \<in> services r. sublist w (rs_name t) \<and> \<not> contains (rs_flags t) SF_HIDDEN}"
    unfolding rg_list_def using set_take_subset[of lim "filter ?P (rg_by_name r)"] by (auto simp: mem)
  assume "rg_count r \<le> lim"
  then have "length (filter ?P (rg_by_name r)) \<le> lim" by (intro order_trans[OF length_filter_le]) (simp add: rg_count_def)
  then show "set (rg_list w lim r) = {t \<in> services r. sublist w (rs_name t) \<and> \<not> contains (rs_flags t) SF_HIDDEN}"
    unfolding rg_list_def by (force simp: mem image_iff)
qed

lemma notification_roundtrip:
  assumes "utf8_valid name" and "length name \<le> 976" and "opc = OpNotifyOnline \<or> opc = OpNotifyOffline"
  shows "mh_from_bytes (recv_into (notification name i opc) (replicate 1024 0)) = Some ((new_notification opc)\<lparr>mh_data_len := word_of_nat (16 + length name)\<rparr>)"
    and "parse_notification ((new_notification opc)\<lparr>mh_data_len := word_of_nat (16 + length name)\<rparr>) (recv_into (notification name i opc) (replicate 1024 0)) =
      Ok \<lparr>nm_event = (if opc = OpNotifyOnline then Online else Offline), nm_service_id = word_of_nat i, nm_service_name = name\<rparr>"
proof -
  let ?h = "(new_notification opc)\<lparr>mh_data_len := word_of_nat (16 + length name)\<rparr>"
  let ?d = "nd_bytes \<lparr>nd_service_id = word_of_nat i, nd_name_len = word_of_nat (length name), nd_reserved = 0\<rparr>"
  have buf: "recv_into (notification name i opc) (replicate 1024 0) = mh_to_bytes ?h @ ?d @ name @ replicate (976 - length name) 0"
    using assms(2) by (simp add: recv_into_def notification_def ND_SIZE_def)
  show "mh_from_bytes (recv_into (notification name i opc) (replicate 1024 0)) = Some ?h" unfolding buf by (rule mh_from_to_bytes) simp
  have len: "unat (mh_data_len ?h) = 16 + length name" "unat (word_of_nat (length name) :: u32) = length name"
    using assms(2) by (simp_all add: unat_of_nat del: of_nat_add)
  show "parse_notification ?h (recv_into (notification name i opc) (replicate 1024 0)) =
      Ok \<lparr>nm_event = (if opc = OpNotifyOnline then Online else Offline), nm_service_id = word_of_nat i, nm_service_name = name\<rparr>"
    using assms(1,3) unfolding parse_notification_def buf len Let_def
    by (auto simp: MH_SIZE_def ND_SIZE_def wire_simps len from_utf8_def new_notification_def)
qed

section \<open>Properties\<close>

text \<open>The states a server passes through in \<open>n\<close> packets from a state \<open>s\<close>, none of which comes from the client \<open>c\<close>. Between its turns other programs may
  change the state of the kernel.\<close>

inductive ns_without :: "'k kernel_api \<Rightarrow> u32 \<Rightarrow> nat \<Rightarrow> 'k name_server \<Rightarrow> nat \<Rightarrow> 'k name_server \<Rightarrow> bool" for K pad c s where
  start: "ns_without K pad c s 0 (s\<lparr>ns_kernel := k\<rparr>)"
| packets: "ns_without K pad c s n s1 \<Longrightarrow> ns_packets K pad ps s1 = Some (Ok (), s2) \<Longrightarrow> \<forall>p \<in> set ps. fst p \<noteq> c \<Longrightarrow>
    ns_without K pad c s (n + length ps) (s2\<lparr>ns_kernel := k\<rparr>)"

lemma without_keeps:
  assumes "ns_without K pad c s n s'" and "ns_ok s" and "rg_next_id (ns_registry s) + n < 2 ^ 64"
  shows "ns_ok s' \<and> rg_next_id (ns_registry s') \<le> rg_next_id (ns_registry s) + n \<and>
    {t \<in> services (ns_registry s'). rs_owner_id t = c} = {t \<in> services (ns_registry s). rs_owner_id t = c}"
  using assms
proof (induction rule: ns_without.induct)
  case (start k)
  then show ?case by simp
next
  case (packets n s1 ps s2 k)
  have s1: "ns_ok s1" "rg_next_id (ns_registry s1) \<le> rg_next_id (ns_registry s) + n"
    "{t \<in> services (ns_registry s1). rs_owner_id t = c} = {t \<in> services (ns_registry s). rs_owner_id t = c}"
    using packets.IH packets.prems by simp_all
  then have lim: "rg_next_id (ns_registry s1) + length ps < 2 ^ 64" using packets.prems(2) by simp
  note keep = packets_keep[OF s1(1) lim packets.hyps(2,3)] and nxt = packets_next_id[OF s1(1) lim packets.hyps(2)]
  from keep have "ns_ok (s2\<lparr>ns_kernel := k\<rparr>)" by simp
  moreover have "rg_next_id (ns_registry s2) \<le> rg_next_id (ns_registry s) + (n + length ps)" using nxt s1(2) by simp
  ultimately show ?case using keep s1(3) by simp
qed

text \<open>A message in the channel of a client, as the client's request puts it together.\<close>

definition request_waits :: "'k kernel_api \<Rightarrow> client_connection \<Rightarrow> op_code \<Rightarrow> u32 \<Rightarrow> u8 list \<Rightarrow> u32 list \<Rightarrow> 'k \<Rightarrow> 'k \<Rightarrow> bool" where
  "request_waits K x opc seq data hs k k' \<longleftrightarrow>
     ka_try_recv K (oh_raw (cc_channel x)) 4096 16 k = (Inr (mh_to_bytes (request_header opc seq data hs) @ data, hs), k')"

text \<open>The server deals with a request of client \<open>c\<close> and sends a response that the client reads as \<open>q\<close>.\<close>

definition request_answered :: "'k kernel_api \<Rightarrow> u32 \<Rightarrow> nat \<Rightarrow> client_connection \<Rightarrow> u32 \<Rightarrow> 'k name_server \<Rightarrow> 'k name_server \<Rightarrow>
    message_header \<times> u8 list \<times> u32 list \<Rightarrow> bool" where
  "request_answered K pad c x seq s s' q \<longleftrightarrow> handle_client_request K pad c s = Some (Ok (), s') \<and>
     (\<exists>resp k. ns_kernel s' = snd (ka_send K (oh_raw (cc_channel x)) (rp_data resp) (rp_handles resp) k) \<and> client_reads seq resp = Some (Ok q))"

lemma request_answeredI:
  assumes "\<not> ns_guard s" and "bt_get (ns_clients s) c = Some x" and "request_waits K x opc seq data hs (ns_kernel s) k"
    and "length data \<le> 4064" and "length hs \<le> 16"
    and "rh_handle K pad c (request_header opc seq data hs) data hs (s\<lparr>ns_kernel := k\<rparr>) = Some (Ok resp, s1)"
    and "bt_get (ns_clients s1) c = Some x1" "cc_channel x1 = cc_channel x" and "client_reads seq resp = Some (Ok q)"
  shows "request_answered K pad c x seq s
    (s1\<lparr>ns_kernel := snd (ka_send K (oh_raw (cc_channel x)) (rp_data resp) (rp_handles resp) (ns_kernel s1))\<rparr>) q"
proof -
  have "next_request K (oh_raw (cc_channel x)) (ns_kernel s, replicate 4096 0, replicate 16 0) = Some (Serve (request_header opc seq data hs) data hs k)"
    by (rule request_received[OF assms(3)[unfolded request_waits_def] _ _ assms(4,5)])
      (use assms(4) in \<open>simp_all add: request_header_def new_request_def mh_is_valid_def unat_of_nat\<close>)
  with assms show ?thesis
    by (auto simp: request_answered_def handle_client_request_def answer_def)
qed

lemma lookup_answered:
  assumes "ns_ok s" and "t \<in> services (ns_registry s)" and "bt_get (ns_clients s) d = Some y"
    and "request_waits K y OpLookup seq (lookup_bytes (rs_name t) ms) [] (ns_kernel s) k"
  shows "\<exists>s' q info. request_answered K pad d y seq s s' q \<and> parse_service_info (fst (snd q)) = Ok (info, []) \<and>
    si_service_id info = word_of_nat (rs_id t) \<and> si_flags info = rs_flags t \<and> si_owner_pid info = word_of_nat (rs_owner_id t)"
proof -
  let ?s = "s\<lparr>ns_kernel := k\<rparr>" and ?info = "rs_to_info (ns_registry s) t"
  note D = ns_okD[OF assms(1)]
  have name: "utf8_valid (rs_name t)" "length (rs_name t) \<le> MAX_SERVICE_NAME_LEN" using D(7)[OF assms(2)] by (auto simp: text_ok_def)
  then have short: "length (lookup_bytes (rs_name t) ms) \<le> 4064" by (simp add: lookup_bytes_def MAX_SERVICE_NAME_LEN_def)
  have "rg_lookup (rs_name t) (ns_registry s) = Some t" using lookup_service[OF D(2)] assms(2) by simp
  then have call: "rh_handle K pad d (request_header OpLookup seq (lookup_bytes (rs_name t) ms) []) (lookup_bytes (rs_name t) ms) [] ?s =
      Some (Ok (rp_with_data (si_bytes pad ?info) (rp_success seq)), ?s)"
    using name by (simp add: rh_handle_def handle_lookup_def lookup_name_bytes MAX_SERVICE_NAME_LEN_def answer_def)
  have "parse_service_info (si_bytes pad ?info) = Ok (?info, [])"
    using si_roundtrip[of pad ?info "[]"] by (simp add: parse_service_info_def SI_SIZE_def from_utf8_def Let_def)
  moreover have "si_service_id ?info = word_of_nat (rs_id t)" "si_flags ?info = rs_flags t" "si_owner_pid ?info = word_of_nat (rs_owner_id t)"
    by (simp_all add: rs_to_info_def)
  moreover have "client_reads seq (rp_with_data (si_bytes pad ?info) (rp_success seq)) =
      Some (Ok ((new_response seq StOk)\<lparr>mh_data_len := word_of_nat (length (si_bytes pad ?info))\<rparr>, si_bytes pad ?info, []))"
    by (rule reads_data) simp
  moreover have "bt_get (ns_clients ?s) d = Some y" using assms(3) by simp
  ultimately show ?thesis
    using request_answeredI[OF D(1) assms(3,4) short _ call _ refl] by fastforce
qed

lemma register_answered:
  assumes ok: "ns_ok s" "rg_next_id (ns_registry s) + 1 < 2 ^ 64" and x: "bt_get (ns_clients s) c = Some x"
    and texts: "utf8_valid name" "utf8_valid desc" "length name \<le> MAX_SERVICE_NAME_LEN" "length (register_bytes name desc fl) \<le> 4064"
    and free: "length (rg_by_name (ns_registry s)) < rg_max_services (ns_registry s)" "rg_lookup name (ns_registry s) = None"
    and sent: "request_waits K x OpRegister seq (register_bytes name desc fl) [h] (ns_kernel s) k" and clock: "ka_clock K k = (Inr now, k1)"
  defines "t \<equiv> new_service c name desc (from_bits_truncate sf_known fl) now h (ns_registry s)"
  shows "\<exists>s1 q. request_answered K pad c x seq s s1 q \<and> read_registered name q = Ok \<lparr>sh_service_id = word_of_nat (rs_id t), sh_name = name\<rparr> \<and>
    ns_registry s1 = rg_added t (ns_registry s) \<and>
    bt_get (ns_clients s1) c = Some (x\<lparr>cc_registered_services := cc_registered_services x @ [rs_id t]\<rparr>)"
proof -
  let ?req = "\<lparr>rr_flags = fl, rr_name_len = word_of_nat (length name), rr_desc_len = word_of_nat (length desc), rr_reserved = 0\<rparr>"
  let ?resp = "rp_with_data (u64_bytes (word_of_nat (rs_id t))) (rp_success seq)" and ?s1 = "registered_state c x t (s\<lparr>ns_kernel := k1\<rparr>)"
  note D = ns_okD[OF ok(1)]
  have "length desc < 2 ^ 32" using texts(4) by (simp add: register_bytes_def)
  then obtain k' where "handle_register K c seq (register_bytes name desc fl) [h] (s\<lparr>ns_kernel := k\<rparr>) = Some (Ok ?resp, ?s1\<lparr>ns_kernel := k'\<rparr>)"
    using register_succeeds[of "s\<lparr>ns_kernel := k\<rparr>" c x ?req name desc K now k1 seq h "[]"] D(1) x texts free clock by (simp add: register_bytes_def t_def)
  then have call: "rh_handle K pad c (request_header OpRegister seq (register_bytes name desc fl) [h]) (register_bytes name desc fl) [h] (s\<lparr>ns_kernel := k\<rparr>) =
      Some (Ok ?resp, ?s1\<lparr>ns_kernel := k'\<rparr>)" by (simp add: rh_handle_def)
  have reads: "client_reads seq ?resp = Some (Ok ((new_response seq StOk)\<lparr>mh_data_len := 8\<rparr>, u64_bytes (word_of_nat (rs_id t)), []))"
    by (subst reads_data) simp_all
  have "bt_get (ns_clients (?s1\<lparr>ns_kernel := k'\<rparr>)) c = Some (x\<lparr>cc_registered_services := cc_registered_services x @ [rs_id t]\<rparr>)"
    by (simp add: registered_state_def)
  note ans = request_answeredI[OF D(1) x sent texts(4) _ call this _ reads]
  have "read_registered name ((new_response seq StOk)\<lparr>mh_data_len := 8\<rparr>, u64_bytes (word_of_nat (rs_id t)), []) =
      Ok \<lparr>sh_service_id = word_of_nat (rs_id t), sh_name = name\<rparr>" by (simp add: read_registered_def field_def field_word)
  with ans show ?thesis by (fastforce simp: registered_state_def)
qed

text \<open>C17: Registration and lookup through the wire format. In a reachable state a request is waiting in the channel of a connected client, the bytes of its header and its data
  as the client puts them together, to register a service under a free name, with valid strings that fit a message and room in the registry. The server deals with it, and the client reads from the response
  the number of the new service; exactly this service is added, with the client as owner, whose record lists it, and the channel it sent. After that, and after any further packets of
  which none comes from the owner, a lookup that waits in the channel of any connected client is answered, and the response reads as the record of this service,
  with its number, its flags and its owner. The response to a lookup carries no name, so the name the client reports with the record is empty.\<close>

theorem registered_service_found:
  assumes reach: "ns_reach K pad n s" "n + m + 3 < 2 ^ 64" and x: "bt_get (ns_clients s) c = Some x"
    and texts: "utf8_valid name" "utf8_valid desc" "length name \<le> MAX_SERVICE_NAME_LEN" "length (register_bytes name desc fl) \<le> 4064"
    and free: "length (rg_by_name (ns_registry s)) < rg_max_services (ns_registry s)" "rg_lookup name (ns_registry s) = None"
    and sent: "request_waits K x OpRegister seq (register_bytes name desc fl) [h] (ns_kernel s) k" and clock: "ka_clock K k = (Inr now, k1)"
  shows "\<exists>s1 t q. request_answered K pad c x seq s s1 q \<and> read_registered name q = Ok \<lparr>sh_service_id = word_of_nat (rs_id t), sh_name = name\<rparr> \<and>
    services (ns_registry s1) = insert t (services (ns_registry s)) \<and> t \<notin> services (ns_registry s) \<and>
    rs_name t = name \<and> rs_description t = desc \<and> rs_owner_id t = c \<and> rs_channel t = oh_from_raw h \<and> rs_flags t = fl AND sf_known \<and>
    bt_get (ns_clients s1) c = Some (x\<lparr>cc_registered_services := cc_registered_services x @ [rs_id t]\<rparr>) \<and>
    (\<forall>s2 d y seq2 ms k2. ns_without K pad c s1 m s2 \<longrightarrow> bt_get (ns_clients s2) d = Some y \<longrightarrow>
       request_waits K y OpLookup seq2 (lookup_bytes name ms) [] (ns_kernel s2) k2 \<longrightarrow>
       (\<exists>s3 q2 info. request_answered K pad d y seq2 s2 s3 q2 \<and> parse_service_info (fst (snd q2)) = Ok (info, []) \<and>
          si_service_id info = word_of_nat (rs_id t) \<and> si_flags info = rs_flags t \<and> si_owner_pid info = word_of_nat c))"
proof -
  let ?t = "new_service c name desc (from_bits_truncate sf_known fl) now h (ns_registry s)"
  have ok: "ns_ok s" and nxt: "rg_next_id (ns_registry s) \<le> n + 1" using reach_ok[OF reach(1)] reach(2) by simp_all
  then have room: "rg_next_id (ns_registry s) + 1 < 2 ^ 64" using reach(2) by simp
  note D = ns_okD[OF ok]
  obtain s1 q where s1: "request_answered K pad c x seq s s1 q" "read_registered name q = Ok \<lparr>sh_service_id = word_of_nat (rs_id ?t), sh_name = name\<rparr>"
    "ns_registry s1 = rg_added ?t (ns_registry s)" "bt_get (ns_clients s1) c = Some (x\<lparr>cc_registered_services := cc_registered_services x @ [rs_id ?t]\<rparr>)"
    using register_answered[OF ok room x texts free sent clock] by blast
  have new: "services (ns_registry s1) = insert ?t (services (ns_registry s))"
    using registry_added[OF D(2), of ?t] free room by (simp add: new_service_def s1(3))
  have "?t \<notin> services (ns_registry s)" using free(2) by (auto simp: services_def new_service_def)
  have ok1: "ns_ok s1" using client_request_keeps[OF ok] room s1(1) by (auto simp: request_answered_def)
  have "rg_next_id (ns_registry s1) + m < 2 ^ 64" using nxt reach(2) by (simp add: s1(3) rg_added_def)
  note keep = without_keeps[OF _ ok1 this]
  have "\<exists>s3 q2 info. request_answered K pad d y seq2 s2 s3 q2 \<and> parse_service_info (fst (snd q2)) = Ok (info, []) \<and>
      si_service_id info = word_of_nat (rs_id ?t) \<and> si_flags info = rs_flags ?t \<and> si_owner_pid info = word_of_nat c"
    if s2: "ns_without K pad c s1 m s2" "bt_get (ns_clients s2) d = Some y" "request_waits K y OpLookup seq2 (lookup_bytes name ms) [] (ns_kernel s2) k2"
    for s2 d y seq2 ms k2
  proof -
    have own: "rs_owner_id ?t = c" and waits: "request_waits K y OpLookup seq2 (lookup_bytes (rs_name ?t) ms) [] (ns_kernel s2) k2"
      using s2(3) by (simp_all add: new_service_def)
    then have "?t \<in> services (ns_registry s2)" using keep[OF s2(1)] new by blast
    from lookup_answered[OF conjunct1[OF keep[OF s2(1)]] this s2(2) waits, of pad] show ?thesis unfolding own .
  qed
  with s1 new \<open>?t \<notin> services (ns_registry s)\<close> show ?thesis
    by (intro exI[of _ s1] exI[of _ ?t] exI[of _ q]) (simp add: new_service_def from_bits_truncate_def)
qed

text \<open>C19: A listing shows the registry. In a reachable state, when the response fits into the client's buffer, the client reads from it the records and the
  names of exactly the services the registry lists: services that are not hidden and whose names contain the given text, in the order of their names, and
  all of them when the limit is no less than the number of services.\<close>

theorem listing_shows_registry:
  assumes reach: "ns_reach K pad n s" "n + 2 < 2 ^ 64" and w: "utf8_valid w" "length w < 2 ^ 32"
    and fits: "8 + length (concat (map (service_entry pad (ns_registry s)) (rg_list w (unat limit) (ns_registry s)))) \<le> 4064"
  defines "r \<equiv> ns_registry s" and "found \<equiv> rg_list w (unat limit) (ns_registry s)"
  shows "(\<exists>resp q. rh_handle K pad c (request_header OpList seq (list_bytes w limit) []) (list_bytes w limit) [] s = Some (Ok resp, s) \<and>
      client_reads seq resp = Some (Ok q) \<and> parse_service_list (fst (snd q)) = Ok (map (rs_to_info r) found, map rs_name found)) \<and>
    sorted_wrt (<) (map rs_name found) \<and> set found \<subseteq> {t \<in> services r. sublist w (rs_name t) \<and> \<not> contains (rs_flags t) SF_HIDDEN} \<and>
    (card (services r) \<le> unat limit \<longrightarrow> set found = {t \<in> services r. sublist w (rs_name t) \<and> \<not> contains (rs_flags t) SF_HIDDEN})"
proof -
  have ok: "ns_ok s" using reach_ok[OF reach(1)] reach(2) by simp
  note D = ns_okD[OF ok] and F = list_found[OF ns_okD(2)[OF ok], where w = w and lim = "unat limit"]
  let ?es = "concat (map (service_entry pad r) found)"
  let ?ln = "\<lparr>ln_total_count = word_of_nat (rg_count r), ln_returned_count = word_of_nat (length found)\<rparr>"
  have short: "8 + length ?es \<le> 4064" using fits by (simp add: r_def found_def)
  have "40 * length found \<le> length ?es" by (induction found) (simp_all add: service_entry_def)
  then have cnt: "unat (ln_returned_count ?ln) = length found" using short by (simp add: unat_of_nat)
  have call: "rh_handle K pad c (request_header OpList seq (list_bytes w limit) []) (list_bytes w limit) [] s =
      Some (Ok (rp_with_data (ln_bytes ?ln @ ?es) (rp_success seq)), s)"
    using w by (simp add: rh_handle_def handle_list_def list_bytes_def wire_simps unat_length from_utf8_def answer_def Let_def r_def found_def)
  have "\<forall>t \<in> set found. text_ok t" using F(2) D(7) by (auto simp: found_def)
  from service_entry_parsed[OF this, of "ln_bytes ?ln @ ?es" "ln_bytes ?ln" pad r "[]"]
  have "parse_service_list (ln_bytes ?ln @ ?es) = Ok (map (rs_to_info r) found, map rs_name found)"
    using cnt by (simp add: parse_service_list_def wire_simps comp_def)
  moreover have "client_reads seq (rp_with_data (ln_bytes ?ln @ ?es) (rp_success seq)) =
      Some (Ok ((new_response seq StOk)\<lparr>mh_data_len := word_of_nat (length (ln_bytes ?ln @ ?es))\<rparr>, ln_bytes ?ln @ ?es, []))"
    by (rule reads_data) (use short in simp)
  ultimately show ?thesis using call F rg_count_services[OF D(2)] by (auto simp: r_def found_def)
qed

text \<open>A client cannot take back its watch. The client takes the sequence number of its request for the number of the watch, but the server numbers watches with
  a counter of its own. After a watch request with sequence number \<open>q\<close>, the request that \<open>unwatch\<close> makes from the returned handle removes the watch with the number \<open>q\<close>, which may be
  that of another client, and leaves the client's own watch in place when the numbers differ.\<close>

theorem unwatch_hits_other:
  assumes reach: "ns_reach K pad n s" "n + 2 < 2 ^ 64" and x: "bt_get (ns_clients s) c = Some x" and q: "q \<noteq> wm_next_id (ns_watchers s)"
  shows "\<exists>resp a s1 resp2 s2 w. rh_handle K pad c (request_header OpWatch q (watch_bytes [] ev) []) (watch_bytes [] ev) [] s = Some (Ok resp, s1) \<and>
    client_reads q resp = Some (Ok a) \<and>
    rh_handle K pad c (request_header OpUnwatch q2 (u32_bytes (wh_watch_id (read_watched [] a))) []) (u32_bytes (wh_watch_id (read_watched [] a))) [] s1 =
      Some (Ok resp2, s2) \<and>
    bt_get (wm_watchers (ns_watchers s2)) q = None \<and>
    bt_get (wm_watchers (ns_watchers s2)) (wm_next_id (ns_watchers s)) = Some w \<and> wa_client_id w = c"
proof -
  have ok: "ns_ok s" using reach_ok[OF reach(1)] reach(2) by simp
  let ?m = "snd (wm_add c None (from_bits_truncate WE_ALL ev) (ns_watchers s))" and ?i = "wm_next_id (ns_watchers s)"
  let ?s1 = "s\<lparr>ns_watchers := ?m, ns_clients := bt_insert c (x\<lparr>cc_watches := cc_watches x @ [?i]\<rparr>) (ns_clients s)\<rparr>"
  have watch: "rh_handle K pad c (request_header OpWatch q (watch_bytes [] ev) []) (watch_bytes [] ev) [] s = Some (Ok (rp_success q), ?s1)"
    using ns_okD(1)[OF ok] x wr_roundtrip[of "\<lparr>wr_name_len = 0, wr_events = ev\<rparr>" "[]"]
    by (simp add: rh_handle_def handle_watch_def watch_bytes_def update_client_eq answer_def Let_def wm_add_def)
  have reads: "client_reads q (rp_success q) = Some (Ok (new_response q StOk, [], []))"
    using buffer_header(1)[of "[]" "new_response q StOk"]
    by (simp add: client_reads_def read_response_def rp_success_def) (simp add: new_response_def MH_SIZE_def)
  have fld: "field (u32_bytes q) 0 4 = q" by (simp add: field_def field_word)
  let ?s2 = "?s1\<lparr>ns_watchers := wm_remove q ?m, ns_clients := bt_insert c (x\<lparr>cc_watches := filter (\<lambda>i. i \<noteq> q) (cc_watches x @ [?i])\<rparr>) (ns_clients ?s1)\<rparr>"
  have "rh_handle K pad c (request_header OpUnwatch q2 (u32_bytes q) []) (u32_bytes q) [] ?s1 = Some (Ok (rp_success q2), ?s2)"
    using ns_okD(1)[OF ok] x fld by (simp add: rh_handle_def handle_unwatch_def update_client_eq answer_def Let_def)
  moreover have "bt_get (wm_watchers (ns_watchers ?s2)) q = None"
    "\<exists>w. bt_get (wm_watchers (ns_watchers ?s2)) ?i = Some w \<and> wa_client_id w = c"
    using q by (simp_all add: wm_remove_def wm_add_def Let_def)
  moreover have "wh_watch_id (read_watched [] (new_response q StOk, [], [])) = q" by (simp add: read_watched_def new_response_def)
  ultimately show ?thesis using watch reads by fastforce
qed

section \<open>The sample server\<close>

lemma one_client_facts:
  "bt_get (ns_clients one_client) 1 = Some (sample_client [])" "ns_registry one_client = rg_new 4" "ns_kernel one_client = []"
  "ns_watchers one_client = wm_new 4"
  by (simp_all add: one_client_def bt_get_def)

abbreviation waiting_register :: "(u8 list \<times> u32 list) list" where
  "waiting_register \<equiv> [(mh_to_bytes (request_header OpRegister 1 (register_bytes [65] [66] 0) [30]) @ register_bytes [65] [66] 0, [30])]"

abbreviation waiting_lookup :: "(u8 list \<times> u32 list) list" where
  "waiting_lookup \<equiv> [(mh_to_bytes (request_header OpLookup 7 (lookup_bytes [65] 0) []) @ lookup_bytes [65] 0, [])]"

theorem registered_service_found_witness:
  "\<exists>s1 t q y s3 q2 info. request_answered script_kernel 0 1 (sample_client []) 1 (one_client\<lparr>ns_kernel := waiting_register\<rparr>) s1 q \<and>
     t \<in> services (ns_registry s1) \<and> rs_name t = [65] \<and> rs_description t = [66] \<and>
     request_answered script_kernel 0 1 y 7 (s1\<lparr>ns_kernel := waiting_lookup\<rparr>) s3 q2 \<and>
     parse_service_info (fst (snd q2)) = Ok (info, []) \<and> si_owner_pid info = 1"
proof -
  let ?s = "one_client\<lparr>ns_kernel := waiting_register\<rparr>"
  have "ns_packets script_kernel 0 [] (one_client\<lparr>ns_kernel := waiting_register\<rparr>) = Some (Ok (), ?s)" by (simp add: answer_def)
  from ns_reach.packets[OF one_client_reached this] have reach: "ns_reach script_kernel 0 1 ?s" by simp
  have sent: "request_waits script_kernel (sample_client []) OpRegister 1 (register_bytes [65] [66] 0) [30] (ns_kernel ?s) []"
    "request_waits script_kernel y OpLookup 7 (lookup_bytes [65] 0) [] waiting_lookup []" for y
    by (simp_all add: request_waits_def)
  have client: "bt_get (ns_clients ?s) 1 = Some (sample_client [])" using one_client_facts(1) by simp
  have clock: "ka_clock script_kernel [] = (Inr 7, [])" by simp
  have fits: "length (register_bytes [65] [66] 0) \<le> 4064" by (simp add: register_bytes_def)
  have free: "length (rg_by_name (ns_registry ?s)) < rg_max_services (ns_registry ?s)" "rg_lookup [65] (ns_registry ?s) = None"
    by (simp_all add: one_client_facts rg_new_def rg_lookup_def)
  have sizes: "1 + 0 + 3 < (2 :: nat) ^ 64" "utf8_valid [65]" "utf8_valid [66]" "length [65 :: u8] \<le> MAX_SERVICE_NAME_LEN"
    by (simp_all add: MAX_SERVICE_NAME_LEN_def)
  from registered_service_found[OF reach sizes(1) client sizes(2-4) fits free sent(1) clock]
  obtain s1 t q where s1: "request_answered script_kernel 0 1 (sample_client []) 1 ?s s1 q" "services (ns_registry s1) = insert t (services (ns_registry ?s))"
    "rs_name t = [65]" "rs_description t = [66]"
    "bt_get (ns_clients s1) 1 = Some ((sample_client [])\<lparr>cc_registered_services := cc_registered_services (sample_client []) @ [rs_id t]\<rparr>)"
    and look: "\<forall>s2 d y seq2 ms k2. ns_without script_kernel 0 1 s1 0 s2 \<longrightarrow> bt_get (ns_clients s2) d = Some y \<longrightarrow>
       request_waits script_kernel y OpLookup seq2 (lookup_bytes [65] ms) [] (ns_kernel s2) k2 \<longrightarrow>
       (\<exists>s3 q2 info. request_answered script_kernel 0 d y seq2 s2 s3 q2 \<and> parse_service_info (fst (snd q2)) = Ok (info, []) \<and>
          si_service_id info = word_of_nat (rs_id t) \<and> si_flags info = rs_flags t \<and> si_owner_pid info = word_of_nat 1)"
    by blast
  have "ns_without script_kernel 0 1 s1 0 (s1\<lparr>ns_kernel := waiting_lookup\<rparr>)" by (rule ns_without.start)
  with look[rule_format, of "s1\<lparr>ns_kernel := waiting_lookup\<rparr>" 1 _ 7 0 "[]"] s1(5) sent(2)
  obtain y s3 q2 info where "request_answered script_kernel 0 1 y 7 (s1\<lparr>ns_kernel := waiting_lookup\<rparr>) s3 q2"
    "parse_service_info (fst (snd q2)) = Ok (info, [])" "si_owner_pid info = 1" by fastforce
  moreover have "t \<in> services (ns_registry s1)" using s1(2) by simp
  ultimately show ?thesis using s1(1,3,4) by blast
qed

theorem listing_shows_registry_witness:
  "\<exists>resp q. rh_handle script_kernel 0 1 (request_header OpList 3 (list_bytes [] 10) []) (list_bytes [] 10) [] one_service = Some (Ok resp, one_service) \<and>
     client_reads 3 resp = Some (Ok q) \<and> parse_service_list (fst (snd q)) = Ok ([rs_to_info (ns_registry one_service) sample_service], [[65]])"
proof -
  have found: "rg_list [] (unat (10 :: u32)) (ns_registry one_service) = [sample_service]"
    by (simp add: rg_list_def one_service_def rg_added_def rg_new_def sample_service_def contains_def SF_HIDDEN_def)
  have "8 + length (concat (map (service_entry 0 (ns_registry one_service)) (rg_list [] (unat (10 :: u32)) (ns_registry one_service)))) \<le> 4064"
    unfolding found by (simp add: service_entry_def sample_service_def)
  from listing_shows_registry[OF one_service_reached _ _ _ this, of 1 3] found show ?thesis by (simp add: sample_service_def)
qed

theorem unwatch_hits_other_witness:
  "\<exists>resp a s1 resp2 s2 w. rh_handle script_kernel 0 1 (request_header OpWatch 5 (watch_bytes [] 3) []) (watch_bytes [] 3) [] one_client = Some (Ok resp, s1) \<and>
     client_reads 5 resp = Some (Ok a) \<and>
     rh_handle script_kernel 0 1 (request_header OpUnwatch 6 (u32_bytes (wh_watch_id (read_watched [] a))) []) (u32_bytes (wh_watch_id (read_watched [] a))) [] s1 =
       Some (Ok resp2, s2) \<and> bt_get (wm_watchers (ns_watchers s2)) 1 = Some w"
proof -
  have "(5 :: u32) \<noteq> wm_next_id (ns_watchers one_client)" "wm_next_id (ns_watchers one_client) = 1" by (simp_all add: one_client_facts wm_new_def)
  from unwatch_hits_other[OF one_client_reached _ one_client_facts(1) this(1), of 3 6] this(2) show ?thesis by fastforce
qed

end
