(* ===== verification/Service_Connect.thy ===== *)
theory Service_Connect
  imports Bootstrap Name_Client
begin

text \<open>
  From a process to a named service: the convenience functions of \<open>nameserver/src/client.rs\<close>, which ask the init process for the name server first, and the main function of
  the name server, \<open>nameserver/src/bin/nameserver.rs\<close>. \<open>None\<close> is a call that does not return.
\<close>

section \<open>Convenience functions\<close>

fun nc_error_of_bootstrap :: "bootstrap_error \<Rightarrow> ns_error" where
  "nc_error_of_bootstrap ServiceNotFound = NsServiceUnavailable"
| "nc_error_of_bootstrap NoBootstrapChannel = NsServiceUnavailable"
| "nc_error_of_bootstrap _ = NsInternalError"

definition nc_connect :: "'k kernel_api \<Rightarrow> 'k \<Rightarrow> ((ns_error, 'k name_service) res \<times> 'k) option" where
  "nc_connect K k =
     (case bootstrap_get_nameserver K k of
        None \<Rightarrow> None
      | Some (Inl e, k1) \<Rightarrow> Some (Err (nc_error_of_bootstrap e), k1)
      | Some (Inr channel, k1) \<Rightarrow> Some (nc_from_channel K channel k1))"

text \<open>Dropping a \<open>NameService\<close>. The channel came from the bootstrap client, which marks it as not to be closed.\<close>

definition nc_drop :: "'k kernel_api \<Rightarrow> 'k name_service \<Rightarrow> 'k" where
  "nc_drop K s = oh_drop K (nc_port s) (oh_drop K (nc_channel s) (nc_kernel s))"

definition with_nameserver :: "'k kernel_api \<Rightarrow> ('k name_service \<Rightarrow> ('k, 'a) nc_outcome) \<Rightarrow> 'k \<Rightarrow> ((ns_error, 'a) res \<times> 'k) option" where
  "with_nameserver K f k =
     (case nc_connect K k of
        None \<Rightarrow> None
      | Some (Ok s, _) \<Rightarrow> map_option (\<lambda>(r, s1). (r, nc_drop K s1)) (f s)
      | Some (Err e, k1) \<Rightarrow> Some (Err e, k1)
      | Some (Panic, k1) \<Rightarrow> Some (Panic, k1))"

definition name_connect :: "'k kernel_api \<Rightarrow> u8 list \<Rightarrow> 'k \<Rightarrow> ((ns_error, owned_handle) res \<times> 'k) option" where
  "name_connect K name = with_nameserver K (nc_connect_to K name)"

definition name_register :: "'k kernel_api \<Rightarrow> u8 list \<Rightarrow> u32 \<Rightarrow> 'k \<Rightarrow> ((ns_error, service_handle) res \<times> 'k) option" where
  "name_register K name channel = with_nameserver K (nc_register K name [] 0 channel)"

definition name_lookup :: "'k kernel_api \<Rightarrow> u8 list \<Rightarrow> 'k \<Rightarrow> ((ns_error, service_info) res \<times> 'k) option" where
  "name_lookup K name = with_nameserver K (\<lambda>s. nc_then (nc_lookup K name s) (\<lambda>q. Ok (fst q)))"

definition name_list :: "'k kernel_api \<Rightarrow> u8 list option \<Rightarrow> u32 \<Rightarrow> 'k \<Rightarrow> ((ns_error, service_info list \<times> u8 list list) res \<times> 'k) option" where
  "name_list K contain_name limit = with_nameserver K (nc_list K contain_name limit)"

section \<open>The name server's main function\<close>

text \<open>The code of the failing step; the process exits with the result.\<close>

definition nameserver_main :: "'k kernel_api \<Rightarrow> u32 \<Rightarrow> 'k \<Rightarrow> (int, unit) res option" where
  "nameserver_main K pad k =
     (case bc_connect K k of
        (Inl _, k1) \<Rightarrow> Some (Err (- 1))
      | (Inr bootstrap, k1) \<Rightarrow>
          (case ns_new K default_config k1 of
             (Ok (server, ch), k2) \<Rightarrow>
               (case bc_register_provider K bootstrap NAMESERVER (oh_raw ch) k2 of
                  None \<Rightarrow> None
                | Some (Inl _, k3) \<Rightarrow> Some (Err (- 4))
                | Some (Inr _, k3) \<Rightarrow> map_option (\<lambda>(r, s). map_err (\<lambda>_. - 5) r) (ns_run K pad (server\<lparr>ns_kernel := k3\<rparr>)))
           | (Err _, k2) \<Rightarrow> Some (Err (- 2))
           | (Panic, k2) \<Rightarrow> Some Panic))"

section \<open>A sample conversation\<close>

lemma nc_request_answered:
  assumes "ka_send K (oh_raw (nc_channel s)) (mh_to_bytes (request_header opc (nc_next_seq s) data hs) @ data) hs (nc_kernel s) = (Inr (), k0)"
    and "ka_try_recv K (oh_raw (nc_channel s)) 4096 16 k0 = (Inr (rp_data resp, rp_handles resp), k1)"
    and "client_reads (nc_next_seq s) resp = Some r" and "length (rp_data resp) \<ge> 32"
  shows "nc_request K opc data hs d s = Some (r, s\<lparr>nc_next_seq := nc_next_seq s + 1, nc_kernel := k1\<rparr>)"
  using assms by (simp add: nc_request_def wait_response_def response_loop.simps response_turn_def client_reads_def MH_SIZE_def Let_def)

text \<open>The name server's channel is handed out, and the name server answers one request.\<close>

lemma nameserver_reached:
  "nc_connect script_kernel ((br_to_bytes (br_with_handle br_success), [5]) # ms) =
    Some (Ok \<lparr>nc_channel = (oh_from_raw 5)\<lparr>oh_nodrop := True\<rparr>, nc_port = oh_from_raw 10, nc_next_seq = 1, nc_kernel = ms\<rparr>, ms)"
  by (simp add: nc_connect_def bootstrap_get_nameserver_def bc_connect_def get_bootstrap_channel_def bc_get_nameserver_def bc_get_service_def NAMESERVER_def
      MAX_SERVICE_NAME_def read_service_success nc_from_channel_def oh_drop_def)

lemma script_request:
  assumes "client_reads 1 resp = Some r" "length (rp_data resp) \<ge> 32"
  shows "nc_request script_kernel opc data hs d \<lparr>nc_channel = (oh_from_raw 5)\<lparr>oh_nodrop := True\<rparr>, nc_port = oh_from_raw 10, nc_next_seq = 1, nc_kernel = (rp_data resp, rp_handles resp) # ms\<rparr> =
    Some (r, \<lparr>nc_channel = (oh_from_raw 5)\<lparr>oh_nodrop := True\<rparr>, nc_port = oh_from_raw 10, nc_next_seq = 2, nc_kernel = ms\<rparr>)"
  using nc_request_answered[where K = script_kernel and s = "\<lparr>nc_channel = (oh_from_raw 5)\<lparr>oh_nodrop := True\<rparr>, nc_port = oh_from_raw 10, nc_next_seq = 1, nc_kernel = (rp_data resp, rp_handles resp) # ms\<rparr>"
      and opc = opc and data = data and hs = hs and d = d and r = r and resp = resp] assms by simp

definition found :: response where
  "found = rp_with_data (replicate 40 0) (rp_success 1)"

definition joined :: response where
  "joined = rp_with_handles [31] (rp_success 1)"

abbreviation handed_out :: "u8 list \<times> u32 list" where
  "handed_out \<equiv> (br_to_bytes (br_with_handle br_success), [5])"

lemma found_read: "client_reads 1 found = Some (Ok ((new_response 1 StOk)\<lparr>mh_data_len := 40\<rparr>, replicate 40 0, []))" "length (rp_data found) \<ge> 32"
  unfolding found_def by (subst reads_data) (simp_all add: rp_data_with)

lemma joined_read: "client_reads 1 joined = Some (Ok ((new_response 1 StOk)\<lparr>mh_handle_count := 1\<rparr>, [], [31]))" "length (rp_data joined) \<ge> 32"
proof -
  have j: "rp_data joined = mh_to_bytes ((new_response 1 StOk)\<lparr>mh_handle_count := 1\<rparr>)" "rp_handles joined = [31]"
    by (simp_all add: joined_def rp_with_handles_def rp_success_def MH_SIZE_def splice_def mh_to_bytes_def)
  show "client_reads 1 joined = Some (Ok ((new_response 1 StOk)\<lparr>mh_handle_count := 1\<rparr>, [], [31]))"
    using buffer_header(1)[of "[]" "(new_response 1 StOk)\<lparr>mh_handle_count := 1\<rparr>"] recv_into_fits[of "[31]" "replicate 16 0"]
    unfolding client_reads_def read_response_def j by (simp add: MH_SIZE_def) (simp add: new_response_def)
  show "length (rp_data joined) \<ge> 32" by (simp add: j)
qed

lemma script_lookup:
  "length name \<le> 256 \<Longrightarrow> \<exists>i. name_lookup script_kernel name (handed_out # (rp_data found, rp_handles found) # ms) = Some (Ok i, ms)"
  by (simp add: name_lookup_def with_nameserver_def nameserver_reached nc_lookup_def nc_lookup_timeout_def script_request[OF found_read] nc_then_def
      parse_service_info_def SI_SIZE_def si_read_def field_def MAX_SERVICE_NAME_LEN_def nc_drop_def oh_drop_def Let_def from_utf8_def)

lemma script_join:
  "length name \<le> 256 \<Longrightarrow> name_connect script_kernel name (handed_out # (rp_data joined, rp_handles joined) # ms) = Some (Ok (oh_from_raw 31), ms)"
  by (simp add: name_connect_def with_nameserver_def nameserver_reached nc_connect_to_def nc_connect_timeout_def script_request[OF joined_read] nc_then_def
      MAX_SERVICE_NAME_LEN_def nc_drop_def oh_drop_def)

end
