(* ===== verification/Driver_Server.thy ===== *)
theory Driver_Server
  imports Driver_Protocol Service_Connect
begin

text \<open>
  The server of a driver: \<open>libdriver/src/server.rs\<close>. It is a single loop over the packets of its port; the handler of requests, a trait object, is a record of functions on a
  state of its own and on the kernel. \<open>None\<close> is a call that does not return, and a handler that answers \<open>None\<close> has panicked.
\<close>

section \<open>Handlers\<close>

record request_context =
  rc_conn_id :: nat
  rc_request_id :: u32

type_synonym ('h, 'k) handler_fn = "drv_request \<Rightarrow> request_context \<Rightarrow> 'h \<times> 'k \<Rightarrow> (drv_response option \<times> 'h \<times> 'k) option"

record ('h, 'k) request_handler =
  hn_handle :: "('h, 'k) handler_fn"
  hn_on_connect :: "nat \<Rightarrow> 'h \<times> 'k \<Rightarrow> (driver_error, unit) res \<times> 'h \<times> 'k"
  hn_on_disconnect :: "nat \<Rightarrow> 'h \<times> 'k \<Rightarrow> 'h \<times> 'k"

text \<open>The handler made of functions, \<open>FnHandler\<close>. Its functions have no state of their own.\<close>

record 'k fn_handler =
  fh_handlers :: "(u32, (unit, 'k) handler_fn) btree"
  fh_default :: "(unit, 'k) handler_fn option"

definition fh_new :: "'k fn_handler" where
  "fh_new = \<lparr>fh_handlers = [], fh_default = None\<rparr>"

definition fh_on :: "driver_op \<Rightarrow> (unit, 'k) handler_fn \<Rightarrow> 'k fn_handler \<Rightarrow> 'k fn_handler" where
  "fh_on opc f h = h\<lparr>fh_handlers := bt_insert (driver_op_value opc) f (fh_handlers h)\<rparr>"

definition fh_set_default :: "(unit, 'k) handler_fn \<Rightarrow> 'k fn_handler \<Rightarrow> 'k fn_handler" where
  "fh_set_default f h = h\<lparr>fh_default := Some f\<rparr>"

definition fh_handle :: "'k fn_handler \<Rightarrow> (unit, 'k) handler_fn" where
  "fh_handle h request ctx hk =
     (case bt_get (fh_handlers h) (dh_op (dm_header request)) of
        Some f \<Rightarrow> f request ctx hk
      | None \<Rightarrow>
          (case fh_default h of
             Some f \<Rightarrow> f request ctx hk
           | None \<Rightarrow> Some (Some (drv_error (rc_request_id ctx) (- 1)), hk)))"

section \<open>Server\<close>

record drv_connection =
  dn_id :: nat
  dn_channel :: owned_handle
  dn_key :: nat

record ('h, 'k) driver_server =
  ds_name :: "u8 list"
  ds_accept :: owned_handle
  ds_port :: owned_handle
  ds_clients :: "(nat, drv_connection) btree"
  ds_next_conn_id :: nat
  ds_handler :: 'h
  ds_running :: bool
  ds_kernel :: 'k

type_synonym ('h, 'k, 'a) ds_outcome = "((driver_error, 'a) res \<times> ('h, 'k) driver_server) option"

text \<open>\<open>"driver."\<close>.\<close>

definition driver_name :: "u8 list \<Rightarrow> u8 list" where
  "driver_name name = [0x64, 0x72, 0x69, 0x76, 0x65, 0x72, 0x2E] @ name"

text \<open>The locals are dropped in reverse order. On success the end that was registered, and so moved to the name server, is dropped as well.\<close>

definition ds_new :: "'k kernel_api \<Rightarrow> u8 list \<Rightarrow> 'h \<Rightarrow> 'k \<Rightarrow> ((driver_error, ('h, 'k) driver_server) res \<times> 'k) option" where
  "ds_new K name handler k =
     (case ka_channel_create K k of
        (Inl e, k1) \<Rightarrow> Some (Err (driver_error_from e), k1)
      | (Inr (accept, connect), k1) \<Rightarrow>
          (let drop2 = (\<lambda>k. oh_drop K (oh_from_raw accept) (oh_drop K (oh_from_raw connect) k))
           in case ka_port_create K k1 of
                (Inl e, k2) \<Rightarrow> Some (Err (driver_error_from e), drop2 k2)
              | (Inr port, k2) \<Rightarrow>
                  (case ka_bind K port 0 accept (READABLE OR PEER_CLOSED) True k2 of
                     (Inl e, k3) \<Rightarrow> Some (Err (driver_error_from e), drop2 (oh_drop K (oh_from_raw port) k3))
                   | (Inr _, k3) \<Rightarrow>
                       (case name_register K (driver_name name) connect k3 of
                          None \<Rightarrow> None
                        | Some (Ok _, k4) \<Rightarrow>
                            (let k5 = oh_drop K (oh_from_raw connect) k4
                             in Some (Ok \<lparr>ds_name = name, ds_accept = oh_from_raw accept, ds_port = oh_from_raw port, ds_clients = [],
                                          ds_next_conn_id = 1, ds_handler = handler, ds_running = False, ds_kernel = k5\<rparr>, k5))
                        | Some (Err e, k4) \<Rightarrow>
                            Some (Err (driver_error_from (kernel_error_of e)), drop2 (oh_drop K (oh_from_raw port) k4))
                        | Some (Panic, k4) \<Rightarrow> Some (Panic, k4)))))"

definition service_builder_build :: "'k kernel_api \<Rightarrow> u8 list \<Rightarrow> 'h \<Rightarrow> 'k \<Rightarrow> ((driver_error, ('h, 'k) driver_server) res \<times> 'k) option" where
  "service_builder_build = ds_new"

definition ds_stop :: "'k kernel_api \<Rightarrow> ('h, 'k) driver_server \<Rightarrow> ('h, 'k) driver_server" where
  "ds_stop K s = s\<lparr>ds_running := False, ds_kernel := ka_queue K (oh_raw (ds_port s)) (2 ^ 64 - 1) (ds_kernel s)\<rparr>"

definition ds_add_client :: "'k kernel_api \<Rightarrow> ('h, 'k) request_handler \<Rightarrow> owned_handle \<Rightarrow> ('h, 'k) driver_server \<Rightarrow>
    (driver_error, nat) res \<times> ('h, 'k) driver_server" where
  "ds_add_client K H channel s =
     (let conn_id = ds_next_conn_id s
      in case (chk_add conn_id 1 :: (driver_error, nat) res) of
           Ok next \<Rightarrow>
             (let s1 = s\<lparr>ds_next_conn_id := next\<rparr>
              in case ka_bind K (oh_raw (ds_port s)) conn_id (oh_raw channel) (READABLE OR PEER_CLOSED) True (ds_kernel s) of
                   (Inl e, k1) \<Rightarrow> (Err (driver_error_from e), s1\<lparr>ds_kernel := oh_drop K channel k1\<rparr>)
                 | (Inr _, k1) \<Rightarrow>
                     (case hn_on_connect H conn_id (ds_handler s, k1) of
                        (Ok _, h, k2) \<Rightarrow>
                          (Ok conn_id,
                           s1\<lparr>ds_handler := h, ds_kernel := k2,
                              ds_clients := bt_insert conn_id \<lparr>dn_id = conn_id, dn_channel = channel, dn_key = conn_id\<rparr> (ds_clients s)\<rparr>)
                      | (Err e, h, k2) \<Rightarrow> (Err e, s1\<lparr>ds_handler := h, ds_kernel := oh_drop K channel k2\<rparr>)
                      | (Panic, h, k2) \<Rightarrow> (Panic, s1\<lparr>ds_handler := h, ds_kernel := k2\<rparr>)))
         | _ \<Rightarrow> (Panic, s))"

text \<open>One turn of the loop that accepts connections: \<open>Inl\<close> takes another one.\<close>

definition ds_accept_turn :: "'k kernel_api \<Rightarrow> ('h, 'k) request_handler \<Rightarrow> ('h, 'k) driver_server \<Rightarrow>
    ('h, 'k) driver_server + (driver_error, unit) res \<times> ('h, 'k) driver_server" where
  "ds_accept_turn K H s =
     (case ka_try_recv K (oh_raw (ds_accept s)) 256 4 (ds_kernel s) of
        (Inr (_, hs), k) \<Rightarrow>
          if length hs > 0 then
            (case ds_add_client K H (oh_from_raw (hd hs)) (s\<lparr>ds_kernel := k\<rparr>) of
               (Ok _, s1) \<Rightarrow> Inl s1
             | (Err e, s1) \<Rightarrow> Inr (Err e, s1)
             | (Panic, s1) \<Rightarrow> Inr (Panic, s1))
          else Inr (Ok (), s\<lparr>ds_kernel := k\<rparr>)
      | (Inl e, k) \<Rightarrow>
          if errno e = EAGAIN then Inr (Ok (), s\<lparr>ds_kernel := k\<rparr>) else Inr (Err (driver_error_from e), s\<lparr>ds_kernel := k\<rparr>))"

partial_function (option) ds_handle_accept :: "'k kernel_api \<Rightarrow> ('h, 'k) request_handler \<Rightarrow> ('h, 'k) driver_server \<Rightarrow> ('h, 'k, unit) ds_outcome" where
  "ds_handle_accept K H s =
     (let t = ds_accept_turn K H s in if isl t then ds_handle_accept K H (projl t) else Some (projr t))"

definition ds_remove_client :: "'k kernel_api \<Rightarrow> ('h, 'k) request_handler \<Rightarrow> nat \<Rightarrow> ('h, 'k) driver_server \<Rightarrow> ('h, 'k) driver_server" where
  "ds_remove_client K H conn_id s =
     (case bt_get (ds_clients s) conn_id of
        None \<Rightarrow> s
      | Some client \<Rightarrow>
          (let k1 = ka_unbind K (oh_raw (ds_port s)) (dn_key client) (ds_kernel s);
               (h, k2) = hn_on_disconnect H conn_id (ds_handler s, k1)
           in s\<lparr>ds_clients := bt_remove conn_id (ds_clients s), ds_handler := h, ds_kernel := oh_drop K (dn_channel client) k2\<rparr>))"

text \<open>One turn of the loop of \<open>handle_client_request\<close>, on the buffers it keeps.\<close>

type_synonym ('h, 'k) serving = "('h, 'k) driver_server \<times> u8 list \<times> u32 list"

definition ds_request :: "driver_header \<Rightarrow> u8 list \<Rightarrow> u32 list \<Rightarrow> nat \<Rightarrow> drv_request option" where
  "ds_request header buf handles handle_count =
     (if DH_SIZE + unat (dh_data_len header) > length buf \<or> handle_count > length handles then None
      else Some \<lparr>dm_header = header, dm_data = take (unat (dh_data_len header)) (drop DH_SIZE buf), dm_handles = take handle_count handles\<rparr>)"

definition ds_answer :: "'k kernel_api \<Rightarrow> drv_connection \<Rightarrow> drv_request \<Rightarrow> drv_response \<Rightarrow> ('h, 'k) driver_server \<Rightarrow>
    (driver_error, unit) res \<times> ('h, 'k) driver_server" where
  "ds_answer K client request response s =
     (if contains (dh_flags (dm_header request)) MF_NEED_REPLY then
        (case ka_send K (oh_raw (dn_channel client)) (dm_encode response) (dm_handles response) (ds_kernel s) of
           (Inl e, k) \<Rightarrow> (Err (driver_error_from e), s\<lparr>ds_kernel := k\<rparr>)
         | (Inr _, k) \<Rightarrow> (Ok (), s\<lparr>ds_kernel := k\<rparr>))
      else (Ok (), s))"

definition ds_serve :: "'k kernel_api \<Rightarrow> ('h, 'k) request_handler \<Rightarrow> nat \<Rightarrow> drv_connection \<Rightarrow> drv_request \<Rightarrow> ('h, 'k) driver_server \<Rightarrow>
    ('h, 'k, unit) ds_outcome" where
  "ds_serve K H conn_id client request s =
     (case hn_handle H request \<lparr>rc_conn_id = conn_id, rc_request_id = dh_request_id (dm_header request)\<rparr> (ds_handler s, ds_kernel s) of
        None \<Rightarrow> None
      | Some (None, h, k) \<Rightarrow> Some (Panic, s\<lparr>ds_handler := h, ds_kernel := k\<rparr>)
      | Some (Some response, h, k) \<Rightarrow> Some (ds_answer K client request response (s\<lparr>ds_handler := h, ds_kernel := k\<rparr>)))"

definition ds_client_turn :: "'k kernel_api \<Rightarrow> ('h, 'k) request_handler \<Rightarrow> nat \<Rightarrow> drv_connection \<Rightarrow> ('h, 'k) serving \<Rightarrow>
    (('h, 'k) serving + (driver_error, unit) res \<times> ('h, 'k) driver_server) option" where
  "ds_client_turn K H conn_id client b =
     (let (s, buf, handles) = b
      in case ka_try_recv K (oh_raw (dn_channel client)) (length buf) (length handles) (ds_kernel s) of
           (Inr (bs, hs), k) \<Rightarrow>
             (let buf1 = recv_into bs buf; handles1 = recv_into hs handles; s1 = s\<lparr>ds_kernel := k\<rparr>
              in if length bs \<ge> DH_SIZE then
                   (case dh_from_bytes (take DH_SIZE buf1) of
                      None \<Rightarrow> Some (Inr (Err InvalidArgument, s1))
                    | Some header \<Rightarrow>
                        (case ds_request header buf1 handles1 (length hs) of
                           None \<Rightarrow> Some (Inr (Panic, s1))
                         | Some request \<Rightarrow>
                             (case ds_serve K H conn_id client request s1 of
                                None \<Rightarrow> None
                              | Some (Ok _, s2) \<Rightarrow> Some (Inl (s2, buf1, handles1))
                              | Some (Err e, s2) \<Rightarrow> Some (Inr (Err e, s2))
                              | Some (Panic, s2) \<Rightarrow> Some (Inr (Panic, s2)))))
                 else Some (Inr (Ok (), s1)))
         | (Inl e, k) \<Rightarrow>
             if errno e = EAGAIN then Some (Inr (Ok (), s\<lparr>ds_kernel := k\<rparr>))
             else Some (Inr (Ok (), ds_remove_client K H conn_id (s\<lparr>ds_kernel := k\<rparr>))))"

partial_function (option) ds_client_loop :: "'k kernel_api \<Rightarrow> ('h, 'k) request_handler \<Rightarrow> nat \<Rightarrow> drv_connection \<Rightarrow> ('h, 'k) serving \<Rightarrow>
    ('h, 'k, unit) ds_outcome" where
  "ds_client_loop K H conn_id client b =
     Option.bind (ds_client_turn K H conn_id client b) (\<lambda>t. if isl t then ds_client_loop K H conn_id client (projl t) else Some (projr t))"

definition ds_client_request :: "'k kernel_api \<Rightarrow> ('h, 'k) request_handler \<Rightarrow> nat \<Rightarrow> ('h, 'k) driver_server \<Rightarrow> ('h, 'k, unit) ds_outcome" where
  "ds_client_request K H conn_id s =
     (case bt_get (ds_clients s) conn_id of
        None \<Rightarrow> Some (Ok (), s)
      | Some client \<Rightarrow> ds_client_loop K H conn_id client (s, replicate 4096 0, replicate 16 0))"

definition ds_client_event :: "'k kernel_api \<Rightarrow> ('h, 'k) request_handler \<Rightarrow> nat \<Rightarrow> signals \<Rightarrow> ('h, 'k) driver_server \<Rightarrow> ('h, 'k, unit) ds_outcome" where
  "ds_client_event K H key sigs s =
     (if contains sigs PEER_CLOSED then Some (Ok (), ds_remove_client K H key s)
      else if contains sigs READABLE then ds_client_request K H key s
      else Some (Ok (), s))"

definition ds_packet :: "'k kernel_api \<Rightarrow> ('h, 'k) request_handler \<Rightarrow> nat \<times> signals \<Rightarrow> ('h, 'k) driver_server \<Rightarrow> ('h, 'k, unit) ds_outcome" where
  "ds_packet K H p s = (if fst p = 0 then ds_handle_accept K H s else ds_client_event K H (fst p) (snd p) s)"

fun ds_packets :: "'k kernel_api \<Rightarrow> ('h, 'k) request_handler \<Rightarrow> (nat \<times> signals) list \<Rightarrow> ('h, 'k) driver_server \<Rightarrow> ('h, 'k, unit) ds_outcome" where
  "ds_packets K H [] s = Some (Ok (), s)"
| "ds_packets K H (p # ps) s =
     Option.bind (ds_packet K H p s) (\<lambda>(r, s1). case r of Ok _ \<Rightarrow> ds_packets K H ps s1 | Err e \<Rightarrow> Some (Err e, s1) | Panic \<Rightarrow> Some (Panic, s1))"

definition ds_run_once :: "'k kernel_api \<Rightarrow> ('h, 'k) request_handler \<Rightarrow> ('h, 'k) driver_server \<Rightarrow> ('h, 'k, unit) ds_outcome" where
  "ds_run_once K H s =
     (case ka_wait K (oh_raw (ds_port s)) 32 0 (ds_kernel s) of
        (Inl _, k) \<Rightarrow> Some (Ok (), s\<lparr>ds_kernel := k\<rparr>)
      | (Inr ps, k) \<Rightarrow> ds_packets K H ps (s\<lparr>ds_kernel := k\<rparr>))"

definition ds_turn :: "'k kernel_api \<Rightarrow> ('h, 'k) request_handler \<Rightarrow> ('h, 'k) driver_server \<Rightarrow> ('h, 'k, unit) ds_outcome" where
  "ds_turn K H s =
     (case ka_wait K (oh_raw (ds_port s)) 32 (2 ^ 64 - 1) (ds_kernel s) of
        (Inl e, k) \<Rightarrow> Some (Err (driver_error_from e), s\<lparr>ds_kernel := k\<rparr>)
      | (Inr ps, k) \<Rightarrow> ds_packets K H ps (s\<lparr>ds_kernel := k\<rparr>))"

partial_function (option) ds_loop :: "'k kernel_api \<Rightarrow> ('h, 'k) request_handler \<Rightarrow> ('h, 'k) driver_server \<Rightarrow> ('h, 'k, unit) ds_outcome" where
  "ds_loop K H s =
     (if ds_running s
      then Option.bind (ds_turn K H s) (\<lambda>rs. if is_ok (fst rs) then ds_loop K H (snd rs) else Some rs)
      else Some (Ok (), s))"

definition ds_run :: "'k kernel_api \<Rightarrow> ('h, 'k) request_handler \<Rightarrow> ('h, 'k) driver_server \<Rightarrow> ('h, 'k, unit) ds_outcome" where
  "ds_run K H s = ds_loop K H (s\<lparr>ds_running := True\<rparr>)"

end
