(* ===== verification/Driver_Client.thy ===== *)
theory Driver_Client
  imports Driver_Server
begin

text \<open>
  The client of a driver: \<open>libdriver/src/client.rs\<close>, and what client and server achieve together. A call sends one request and waits for the response with its number;
  \<open>None\<close> is a call that does not return.
\<close>

section \<open>Calls\<close>

record 'k driver_client =
  dc_channel :: owned_handle
  dc_port :: owned_handle
  dc_next_request_id :: u32
  dc_kernel :: 'k

type_synonym ('k, 'a) dc_outcome = "((driver_error, 'a) res \<times> 'k driver_client) option"

definition dc_from_channel :: "'k kernel_api \<Rightarrow> owned_handle \<Rightarrow> 'k \<Rightarrow> (driver_error, 'k driver_client) res \<times> 'k" where
  "dc_from_channel K channel k =
     (case ka_port_create K k of
        (Inl e, k1) \<Rightarrow> (Err (driver_error_from e), oh_drop K channel k1)
      | (Inr port, k1) \<Rightarrow>
          (case ka_bind K port 1 (oh_raw channel) (READABLE OR PEER_CLOSED) True k1 of
             (Inl e, k2) \<Rightarrow> (Err (driver_error_from e), oh_drop K channel (oh_drop K (oh_from_raw port) k2))
           | (Inr _, k2) \<Rightarrow> (Ok \<lparr>dc_channel = channel, dc_port = oh_from_raw port, dc_next_request_id = 1, dc_kernel = k2\<rparr>, k2)))"

text \<open>Waiting until the name server knows the service.\<close>

partial_function (option) await_service :: "'k kernel_api \<Rightarrow> u8 list \<Rightarrow> 'k \<Rightarrow> ((driver_error, unit) res \<times> 'k) option" where
  "await_service K name k =
     Option.bind (name_lookup K name k) (\<lambda>t.
       if is_ok (fst t) then Some (Ok (), snd t)
       else if fst t = Panic then Some (Panic, snd t)
       else
         (let u = ka_nanosleep K 1000000000 (snd t)
          in if isl (fst u) then Some (Err (driver_error_from (projl (fst u))), snd u) else await_service K name (snd u)))"

definition dc_connect :: "'k kernel_api \<Rightarrow> u8 list \<Rightarrow> 'k \<Rightarrow> ((driver_error, 'k driver_client) res \<times> 'k) option" where
  "dc_connect K service_name k =
     (let name = driver_name service_name
      in case await_service K name k of
           None \<Rightarrow> None
         | Some (Ok _, k1) \<Rightarrow>
             (case name_connect K name k1 of
                None \<Rightarrow> None
              | Some (Ok channel, k2) \<Rightarrow> Some (dc_from_channel K channel k2)
              | Some (Err e, k2) \<Rightarrow> Some (Err (driver_error_from (kernel_error_of e)), k2)
              | Some (Panic, k2) \<Rightarrow> Some (Panic, k2))
         | Some (Err e, k1) \<Rightarrow> Some (Err e, k1)
         | Some (Panic, k1) \<Rightarrow> Some (Panic, k1))"

definition dc_alloc_request_id :: "'k driver_client \<Rightarrow> u32 \<times> 'k driver_client" where
  "dc_alloc_request_id s = (dc_next_request_id s, s\<lparr>dc_next_request_id := dc_next_request_id s + 1\<rparr>)"

text \<open>What the client makes of a message in its buffers; \<open>None\<close> is a message that is not the response.\<close>

definition dc_read_response :: "u32 \<Rightarrow> u8 list \<Rightarrow> u32 list \<Rightarrow> nat \<Rightarrow> (driver_error, drv_response) res option" where
  "dc_read_response request_id buf handles handle_count =
     (case dh_from_bytes (take DH_SIZE buf) of
        None \<Rightarrow> Some (Err InvalidArgument)
      | Some header \<Rightarrow>
          if dh_request_id header = request_id then
            (if DH_SIZE + unat (dh_data_len header) > length buf \<or> handle_count > length handles then Some Panic
             else Some (Ok \<lparr>dm_header = header, dm_data = take (unat (dh_data_len header)) (drop DH_SIZE buf), dm_handles = take handle_count handles\<rparr>))
          else None)"

definition dc_sleep :: "'k kernel_api \<Rightarrow> u32 \<Rightarrow> deadline \<Rightarrow> 'k \<times> u8 list \<times> u32 list \<Rightarrow>
    ('k \<times> u8 list \<times> u32 list) + (driver_error, drv_response) res \<times> 'k" where
  "dc_sleep K port deadline b =
     (let (k, bufs) = b
      in case to_timeout_ns K deadline k of
           (Ok ns, k1) \<Rightarrow>
             (case ka_wait K port 4 ns k1 of
                (Inl e, k2) \<Rightarrow> Inr (Err (driver_error_from e), k2)
              | (Inr ps, k2) \<Rightarrow>
                  if ps = [] then Inr (Err Timeout, k2)
                  else if list_ex (\<lambda>p. contains (snd p) PEER_CLOSED) ps then Inr (Err Disconnected, k2)
                  else Inl (k2, bufs))
         | (Err e, k1) \<Rightarrow> Inr (Err (driver_error_from e), k1)
         | (Panic, k1) \<Rightarrow> Inr (Panic, k1))"

definition dc_turn :: "'k kernel_api \<Rightarrow> 'k driver_client \<Rightarrow> u32 \<Rightarrow> deadline \<Rightarrow> 'k \<times> u8 list \<times> u32 list \<Rightarrow>
    ('k \<times> u8 list \<times> u32 list) + (driver_error, drv_response) res \<times> 'k" where
  "dc_turn K s request_id deadline b =
     (let (k, buf, handles) = b; sleep = dc_sleep K (oh_raw (dc_port s)) deadline
      in case ka_try_recv K (oh_raw (dc_channel s)) (length buf) (length handles) k of
           (Inr (bs, hs), k1) \<Rightarrow>
             (let buf1 = recv_into bs buf; handles1 = recv_into hs handles
              in if length bs \<ge> DH_SIZE then
                   (case dc_read_response request_id buf1 handles1 (length hs) of
                      Some r \<Rightarrow> Inr (r, k1)
                    | None \<Rightarrow> sleep (k1, buf1, handles1))
                 else sleep (k1, buf1, handles1))
         | (Inl e, k1) \<Rightarrow>
             if errno e = EAGAIN then sleep (k1, buf, handles)
             else if errno e = EPIPE then Inr (Err Disconnected, k1)
             else Inr (Err (driver_error_from e), k1))"

partial_function (option) dc_loop :: "'k kernel_api \<Rightarrow> 'k driver_client \<Rightarrow> u32 \<Rightarrow> deadline \<Rightarrow> 'k \<times> u8 list \<times> u32 list \<Rightarrow>
    ((driver_error, drv_response) res \<times> 'k) option" where
  "dc_loop K s request_id deadline b =
     (let t = dc_turn K s request_id deadline b in if isl t then dc_loop K s request_id deadline (projl t) else Some (projr t))"

definition dc_wait_response :: "'k kernel_api \<Rightarrow> u32 \<Rightarrow> deadline \<Rightarrow> 'k driver_client \<Rightarrow> ('k, drv_response) dc_outcome" where
  "dc_wait_response K request_id deadline s =
     map_option (\<lambda>(r, k). (r, s\<lparr>dc_kernel := k\<rparr>)) (dc_loop K s request_id deadline (dc_kernel s, replicate 4096 0, replicate 16 0))"

definition dc_request :: "driver_op \<Rightarrow> u32 \<Rightarrow> u8 list \<Rightarrow> u32 list \<Rightarrow> drv_request" where
  "dc_request opc request_id data handles = with_handles handles (with_data data (drv_request_new opc request_id))"

definition dc_call_with_handles :: "'k kernel_api \<Rightarrow> driver_op \<Rightarrow> u8 list \<Rightarrow> u32 list \<Rightarrow> 'k driver_client \<Rightarrow> ('k, drv_response) dc_outcome" where
  "dc_call_with_handles K opc data handles s =
     (let (request_id, s1) = dc_alloc_request_id s
      in case ka_send K (oh_raw (dc_channel s)) (dm_encode (dc_request opc request_id data handles)) handles (dc_kernel s) of
           (Inl e, k) \<Rightarrow> Some (Err (driver_error_from e), s1\<lparr>dc_kernel := k\<rparr>)
         | (Inr _, k) \<Rightarrow> dc_wait_response K request_id Infinite (s1\<lparr>dc_kernel := k\<rparr>))"

definition dc_call :: "'k kernel_api \<Rightarrow> driver_op \<Rightarrow> u8 list \<Rightarrow> 'k driver_client \<Rightarrow> ('k, drv_response) dc_outcome" where
  "dc_call K opc data = dc_call_with_handles K opc data []"

definition dc_oneway_header :: "driver_op \<Rightarrow> u8 list \<Rightarrow> u32 list \<Rightarrow> driver_header" where
  "dc_oneway_header opc data handles =
     (dh_new_oneway (driver_op_value opc))\<lparr>dh_data_len := word_of_nat (length data), dh_handle_count := word_of_nat (length handles)\<rparr>"

definition dc_send_with_handles :: "'k kernel_api \<Rightarrow> driver_op \<Rightarrow> u8 list \<Rightarrow> u32 list \<Rightarrow> 'k driver_client \<Rightarrow> (driver_error, unit) res \<times> 'k driver_client" where
  "dc_send_with_handles K opc data handles s =
     (case ka_send K (oh_raw (dc_channel s)) (dh_to_bytes (dc_oneway_header opc data handles) @ data) handles (dc_kernel s) of
        (Inl e, k) \<Rightarrow> (Err (driver_error_from e), s\<lparr>dc_kernel := k\<rparr>)
      | (Inr _, k) \<Rightarrow> (Ok (), s\<lparr>dc_kernel := k\<rparr>))"

definition dc_send :: "'k kernel_api \<Rightarrow> driver_op \<Rightarrow> u8 list \<Rightarrow> 'k driver_client \<Rightarrow> (driver_error, unit) res \<times> 'k driver_client" where
  "dc_send K opc data = dc_send_with_handles K opc data []"

definition dc_with_nodrop :: "bool \<Rightarrow> 'k driver_client \<Rightarrow> 'k driver_client" where
  "dc_with_nodrop nodrop s = s\<lparr>dc_channel := (dc_channel s)\<lparr>oh_nodrop := nodrop\<rparr>\<rparr>"

definition dc_drop :: "'k kernel_api \<Rightarrow> 'k driver_client \<Rightarrow> 'k" where
  "dc_drop K s = oh_drop K (dc_port s) (oh_drop K (dc_channel s) (dc_kernel s))"

section \<open>Remote procedures\<close>

definition dc_then :: "('k, 'a) dc_outcome \<Rightarrow> ('a \<Rightarrow> (driver_error, 'b) res) \<Rightarrow> ('k, 'b) dc_outcome" where
  "dc_then m f = map_option (\<lambda>(r, s). (bind_res r f, s)) m"

definition rpc_read_result :: "u8 list \<Rightarrow> drv_response \<Rightarrow> (driver_error, nat \<times> u8 list) res" where
  "rpc_read_result buf response =
     (if \<not> dm_is_success response then Err IoError
      else let copy_len = min (length buf) (length (dm_data response))
           in Ok (copy_len, take copy_len (dm_data response) @ drop copy_len buf))"

definition rpc_read :: "'k kernel_api \<Rightarrow> u64 \<Rightarrow> u8 list \<Rightarrow> 'k driver_client \<Rightarrow> ('k, nat \<times> u8 list) dc_outcome" where
  "rpc_read K offset buf s =
     dc_then (dc_call K DrvRead (io_bytes \<lparr>io_offset = offset, io_length = word_of_nat (length buf), io_flags = 0\<rparr>) s) (rpc_read_result buf)"

definition rpc_write_result :: "u8 list \<Rightarrow> drv_response \<Rightarrow> (driver_error, nat) res" where
  "rpc_write_result data response =
     (if \<not> dm_is_success response then Err IoError
      else if length (dm_data response) \<ge> 4 then Ok (unat (field (dm_data response) 0 4 :: u32))
      else Ok (length data))"

definition rpc_write :: "'k kernel_api \<Rightarrow> u64 \<Rightarrow> u8 list \<Rightarrow> 'k driver_client \<Rightarrow> ('k, nat) dc_outcome" where
  "rpc_write K offset data s =
     dc_then (dc_call K DrvWrite (io_bytes \<lparr>io_offset = offset, io_length = word_of_nat (length data), io_flags = 0\<rparr> @ data) s) (rpc_write_result data)"

definition rpc_u64 :: "drv_response \<Rightarrow> u64" where
  "rpc_u64 response = (if length (dm_data response) \<ge> 8 then field (dm_data response) 0 8 else 0)"

definition rpc_ioctl :: "'k kernel_api \<Rightarrow> u32 \<Rightarrow> u32 \<Rightarrow> u64 \<Rightarrow> 'k driver_client \<Rightarrow> ('k, u64) dc_outcome" where
  "rpc_ioctl K pad cmd arg s =
     dc_then (dc_call K DrvIoctl (ic_bytes pad \<lparr>ic_cmd = cmd, ic_arg = arg\<rparr>) s)
       (\<lambda>response. if \<not> dm_is_success response then Err IoError else Ok (rpc_u64 response))"

definition rpc_get_buffer :: "'k kernel_api \<Rightarrow> u32 \<Rightarrow> nat \<Rightarrow> 'k driver_client \<Rightarrow> ('k, u32 \<times> u64) dc_outcome" where
  "rpc_get_buffer K pad n s =
     dc_then (dc_call K DrvGetBuffer (bfq_bytes pad \<lparr>bfq_size = word_of_nat n, bfq_alignment = 4096, bfq_flags = 0\<rparr>) s)
       (\<lambda>response. if \<not> dm_is_success response then Err OutOfMemory
                   else case dm_handles response of [] \<Rightarrow> Err InvalidArgument | h # _ \<Rightarrow> Ok (h, rpc_u64 response))"

definition rpc_connect :: "'k kernel_api \<Rightarrow> u8 list \<Rightarrow> 'k \<Rightarrow> ((driver_error, 'k driver_client) res \<times> 'k) option" where
  "rpc_connect = dc_connect"

section \<open>Messages in buffers\<close>

lemma driver_buffer:
  assumes "length buf = 4096" and "length bs \<le> 4072"
  shows "take 24 (recv_into (dh_to_bytes h @ bs) buf) = dh_to_bytes h"
    and "take (length bs) (drop 24 (recv_into (dh_to_bytes h @ bs) buf)) = bs"
  using assms by (simp_all add: recv_into_def)

lemma driver_header_read: "dh_from_bytes (dh_to_bytes h) = Some h"
  using dh_roundtrip[of h "[]"] by (simp add: dh_from_bytes_def DH_SIZE_def)

lemma driver_header_buffer:
  assumes "length buf = 4096"
  shows "dh_from_bytes (take DH_SIZE (recv_into (dh_to_bytes h @ bs) buf)) = Some h"
  using assms by (simp add: recv_into_def DH_SIZE_def driver_header_read)

text \<open>A message fits when its data and its handles fit the receiver's buffers.\<close>

definition fits :: "drv_message \<Rightarrow> bool" where
  "fits m \<longleftrightarrow> well_formed m \<and> length (dm_data m) \<le> 4072 \<and> length (dm_handles m) \<le> 16"

lemma request_read:
  assumes "length buf = 4096" "length handles = 16" and "fits m" and "length hs = length (dm_handles m)"
  shows "ds_request (dm_header m) (recv_into (dm_encode m) buf) (recv_into hs handles) (length hs) = Some (m\<lparr>dm_handles := hs\<rparr>)"
  using assms driver_buffer[OF assms(1), of "dm_data m" "dm_header m"] recv_into_fits[of hs handles]
  by (cases m) (simp add: ds_request_def fits_def well_formed_def dm_encode_def DH_SIZE_def)

lemma response_read:
  assumes "length buf = 4096" "length handles = 16" and "fits m" and "length hs = length (dm_handles m)"
  shows "dc_read_response (dh_request_id (dm_header m)) (recv_into (dm_encode m) buf) (recv_into hs handles) (length hs) = Some (Ok (m\<lparr>dm_handles := hs\<rparr>))"
  using assms driver_buffer[OF assms(1), of "dm_data m" "dm_header m"] recv_into_fits[of hs handles] driver_header_buffer[OF assms(1), of "dm_header m" "dm_data m"]
  by (cases m) (simp add: dc_read_response_def fits_def well_formed_def dm_encode_def DH_SIZE_def)

lemma length_encode [simp]: "length (dm_encode m) = 24 + length (dm_data m)"
  by (simp add: dm_encode_def)

lemma fits_request: "length data \<le> 4072 \<Longrightarrow> length handles \<le> 16 \<Longrightarrow> fits (dc_request opc i data handles)"
  by (simp add: fits_def dc_request_def with_handles_def with_data_def well_formed_def unat_of_nat drv_request_new_def)

lemma request_fields [simp]:
  "driver_op_from (dh_op (dm_header (dc_request opc i data hs))) = opc" "dh_request_id (dm_header (dc_request opc i data hs)) = i"
  "dm_data (dc_request opc i data hs) = data" "dm_handles (dc_request opc i data hs) = hs"
  by (simp_all add: dc_request_def with_handles_def with_data_def drv_request_new_def dh_new_request_def)

text \<open>What the server does with a message that fits.\<close>

lemma client_turn_serves:
  assumes "length buf = 4096" "length handles = 16" and "fits m" and "length hs = length (dm_handles m)"
    and "ka_try_recv K (oh_raw (dn_channel client)) 4096 16 (ds_kernel s) = (Inr (dm_encode m, hs), k)"
  shows "ds_client_turn K H conn client (s, buf, handles) =
    (case ds_serve K H conn client (m\<lparr>dm_handles := hs\<rparr>) (s\<lparr>ds_kernel := k\<rparr>) of
       None \<Rightarrow> None
     | Some (Ok _, s2) \<Rightarrow> Some (Inl (s2, recv_into (dm_encode m) buf, recv_into hs handles))
     | Some (Err e, s2) \<Rightarrow> Some (Inr (Err e, s2))
     | Some (Panic, s2) \<Rightarrow> Some (Inr (Panic, s2)))"
  using assms request_read[OF assms(1-4)] driver_header_buffer[OF assms(1), of "dm_header m" "dm_data m", folded dm_encode_def]
  by (simp add: ds_client_turn_def DH_SIZE_def)

section \<open>Properties\<close>

text \<open>How a message \<open>q\<close> reaches a client that waits for the response with the number \<open>i\<close>: it is there at once, or the channel is empty, or a response with another number is there, and
  the client sleeps until its port wakes it, the peer still being there, and looks again.\<close>

definition woken :: "'k kernel_api \<Rightarrow> u32 \<Rightarrow> 'k \<Rightarrow> 'k \<Rightarrow> bool" where
  "woken K port k k' \<longleftrightarrow> (\<exists>ps. ka_wait K port 4 (2 ^ 64 - 1) k = (Inr ps, k') \<and> ps \<noteq> [] \<and> \<not> list_ex (\<lambda>p. contains (snd p) PEER_CLOSED) ps)"

inductive comes_to :: "'k kernel_api \<Rightarrow> u32 \<Rightarrow> u32 \<Rightarrow> u32 \<Rightarrow> u8 list \<times> u32 list \<Rightarrow> 'k \<Rightarrow> 'k \<Rightarrow> bool" for K ch port i q where
  here: "ka_try_recv K ch 4096 16 k = (Inr q, k') \<Longrightarrow> comes_to K ch port i q k k'"
| empty: "ka_try_recv K ch 4096 16 k = (Inl (Error EAGAIN), k1) \<Longrightarrow> woken K port k1 k2 \<Longrightarrow> comes_to K ch port i q k2 k' \<Longrightarrow> comes_to K ch port i q k k'"
| other: "ka_try_recv K ch 4096 16 k = (Inr (dm_encode m, hs), k1) \<Longrightarrow> dh_request_id (dm_header m) \<noteq> i \<Longrightarrow> woken K port k1 k2 \<Longrightarrow>
    comes_to K ch port i q k2 k' \<Longrightarrow> comes_to K ch port i q k k'"

lemma woken_sleep: "woken K port k k' \<Longrightarrow> dc_sleep K port Infinite (k, bufs) = Inl (k', bufs)"
  by (auto simp: woken_def dc_sleep_def to_timeout_ns_def)

lemma response_awaited:
  assumes "comes_to K (oh_raw (dc_channel c)) (oh_raw (dc_port c)) i (dm_encode r, hs) k k'" and "length buf = 4096" "length handles = 16"
    and r: "fits r" "dh_request_id (dm_header r) = i" "length hs = length (dm_handles r)"
  shows "dc_loop K c i Infinite (k, buf, handles) = Some (Ok (r\<lparr>dm_handles := hs\<rparr>), k')"
  using assms(1-3)
proof (induction arbitrary: buf handles rule: comes_to.induct)
  case (here k k')
  have "dc_read_response i (recv_into (dm_encode r) buf) (recv_into hs handles) (length hs) = Some (Ok (r\<lparr>dm_handles := hs\<rparr>))"
    using response_read[OF here.prems r(1,3)] r(2) by simp
  then have "dc_turn K c i Infinite (k, buf, handles) = Inr (Ok (r\<lparr>dm_handles := hs\<rparr>), k')" using here by (simp add: dc_turn_def DH_SIZE_def)
  then show ?case by (subst dc_loop.simps) simp
next
  case (empty k k1 k2 k')
  then have "dc_turn K c i Infinite (k, buf, handles) = Inl (k2, buf, handles)" by (simp add: dc_turn_def woken_sleep)
  with empty show ?case by (subst dc_loop.simps) simp
next
  case (other k m hs' k1 k2 k')
  have "dc_read_response i (recv_into (dm_encode m) buf) (recv_into hs' handles) (length hs') = None"
    using driver_header_buffer[OF other.prems(1), of "dm_header m" "dm_data m"] other.hyps(2) by (simp add: dc_read_response_def dm_encode_def)
  then have "dc_turn K c i Infinite (k, buf, handles) = Inl (k2, recv_into (dm_encode m) buf, recv_into hs' handles)"
    using other by (simp add: dc_turn_def DH_SIZE_def woken_sleep)
  with other show ?case by (subst dc_loop.simps) simp
qed

text \<open>C22: a call with at most 4072 bytes of data and 16 handles reaches the handler of the server as the client made it, and the client gets the handler's response, if that keeps to the same limits and
  carries the number of the request. The channel is assumed to take both messages and to hand them over unchanged; the response may come at any time later, so that the client sleeps on
  its port and is woken any number of times, and responses to other requests may come before it. The handles are numbers in the tables of the processes, so the receiver has its own for them.\<close>

theorem driver_call_roundtrip:
  fixes K :: "'k kernel_api" and H :: "('h, 'k) request_handler" and s :: "('h, 'k) driver_server" and c :: "'k driver_client" and opc :: driver_op and data :: "u8 list" and hs :: "u32 list"
  defines "i \<equiv> dc_next_request_id c"
  defines "m \<equiv> dc_request opc i data hs"
  assumes size: "length data \<le> 4072" "length hs \<le> 16" "length hs1 = length hs"
    and sent: "ka_send K (oh_raw (dc_channel c)) (dm_encode m) hs (dc_kernel c) = (Inr (), k0)"
    and client: "bt_get (ds_clients s) conn = Some x"
    and arrives: "ka_try_recv K (oh_raw (dn_channel x)) 4096 16 (ds_kernel s) = (Inr (dm_encode m, hs1), k1)"
    and handled: "hn_handle H (m\<lparr>dm_handles := hs1\<rparr>) \<lparr>rc_conn_id = conn, rc_request_id = i\<rparr> (ds_handler s, k1) = Some (Some r, h2, k2)"
    and answered: "ka_send K (oh_raw (dn_channel x)) (dm_encode r) (dm_handles r) k2 = (Inr (), k3)"
    and response: "fits r" "dh_request_id (dm_header r) = i" "length rhs = length (dm_handles r)"
    and returns: "comes_to K (oh_raw (dc_channel c)) (oh_raw (dc_port c)) i (dm_encode r, rhs) k0 k4"
  shows "ds_client_turn K H conn x (s, replicate 4096 0, replicate 16 0) =
      Some (Inl (s\<lparr>ds_handler := h2, ds_kernel := k3\<rparr>, recv_into (dm_encode m) (replicate 4096 0), recv_into hs1 (replicate 16 0))) \<and>
    driver_op_from (dh_op (dm_header m)) = opc \<and> dm_data m = data \<and>
    dc_call_with_handles K opc data hs c = Some (Ok (r\<lparr>dm_handles := rhs\<rparr>), c\<lparr>dc_next_request_id := i + 1, dc_kernel := k4\<rparr>)"
proof -
  have m: "fits m" "dm_data m = data" "dm_handles m = hs" "dh_request_id (dm_header m) = i" "driver_op_from (dh_op (dm_header m)) = opc"
    using fits_request[OF size(1,2)] by (simp_all add: m_def)
  have flags: "dh_flags (dm_header m) = MF_REQUEST OR MF_NEED_REPLY"
    by (simp add: m_def dc_request_def with_handles_def with_data_def drv_request_new_def dh_new_request_def)
  have reply: "contains (dh_flags (dm_header m)) MF_NEED_REPLY" by (simp add: flags contains_or_right)
  have "ds_serve K H conn x (m\<lparr>dm_handles := hs1\<rparr>) (s\<lparr>ds_kernel := k1\<rparr>) = Some (Ok (), s\<lparr>ds_handler := h2, ds_kernel := k3\<rparr>)"
    using handled answered reply by (simp add: ds_serve_def ds_answer_def m(4))
  then have one: "ds_client_turn K H conn x (s, replicate 4096 0, replicate 16 0) =
      Some (Inl (s\<lparr>ds_handler := h2, ds_kernel := k3\<rparr>, recv_into (dm_encode m) (replicate 4096 0), recv_into hs1 (replicate 16 0)))"
    using client_turn_serves[of "replicate 4096 0" "replicate 16 0" m hs1 K x s k1 H conn] m(1,3) size(3) arrives by simp
  have "dc_loop K (c\<lparr>dc_next_request_id := i + 1, dc_kernel := k0\<rparr>) i Infinite (k0, replicate 4096 0, replicate 16 0) = Some (Ok (r\<lparr>dm_handles := rhs\<rparr>), k4)"
    by (rule response_awaited[OF _ _ _ response]) (use returns in simp_all)
  then have "dc_call_with_handles K opc data hs c = Some (Ok (r\<lparr>dm_handles := rhs\<rparr>), c\<lparr>dc_next_request_id := i + 1, dc_kernel := k4\<rparr>)"
    using sent by (simp add: dc_call_with_handles_def dc_alloc_request_id_def i_def[symmetric] m_def[symmetric] dc_wait_response_def)
  with one m show ?thesis by simp
qed

text \<open>The messages that wait for a channel, those that were sent on it, and how many more it takes, for a kernel that has such queues: a channel holds a bounded number of messages, and
  takes none once its peer is closed. Receiving does not use up the room. (The peer may take messages at any time, so that there is more room than the last send left.) And the handlers that leave all this alone.\<close>

definition mailbox :: "'k kernel_api \<Rightarrow> u32 \<Rightarrow> ('k \<Rightarrow> (u8 list \<times> u32 list) list) \<Rightarrow> ('k \<Rightarrow> (u8 list \<times> u32 list) list) \<Rightarrow> ('k \<Rightarrow> nat) \<Rightarrow> bool" where
  "mailbox K ch inbox outbox room \<longleftrightarrow>
     (\<forall>k n l. case inbox k of
        [] \<Rightarrow> (\<exists>k'. ka_try_recv K ch n l k = (Inl (Error EAGAIN), k') \<and> inbox k' = [] \<and> outbox k' = outbox k \<and> room k \<le> room k')
      | q # qs \<Rightarrow> (\<exists>k'. ka_try_recv K ch n l k = (Inr q, k') \<and> inbox k' = qs \<and> outbox k' = outbox k \<and> room k \<le> room k')) \<and>
     (\<forall>bs hs k. room k > 0 \<longrightarrow>
        (\<exists>k'. ka_send K ch bs hs k = (Inr (), k') \<and> inbox k' = inbox k \<and> outbox k' = outbox k @ [(bs, hs)] \<and> room k \<le> Suc (room k')))"

lemma mailbox_empty:
  "mailbox K ch inbox outbox room \<Longrightarrow> inbox k = [] \<Longrightarrow> \<exists>k'. ka_try_recv K ch n l k = (Inl (Error EAGAIN), k') \<and> inbox k' = [] \<and> outbox k' = outbox k"
  unfolding mailbox_def by (elim conjE, drule spec[of _ k]) fastforce

lemma mailbox_next:
  "mailbox K ch inbox outbox room \<Longrightarrow> inbox k = q # qs \<Longrightarrow>
   \<exists>k'. ka_try_recv K ch n l k = (Inr q, k') \<and> inbox k' = qs \<and> outbox k' = outbox k \<and> room k \<le> room k'"
  unfolding mailbox_def by (auto dest: spec[of _ k])

lemma mailbox_send:
  "mailbox K ch inbox outbox room \<Longrightarrow> room k > 0 \<Longrightarrow>
   \<exists>k'. ka_send K ch bs hs k = (Inr (), k') \<and> inbox k' = inbox k \<and> outbox k' = outbox k @ [(bs, hs)] \<and> room k \<le> Suc (room k')"
  unfolding mailbox_def by blast

definition answers :: "('h, 'k) request_handler \<Rightarrow> ('k \<Rightarrow> 'b) \<Rightarrow> (drv_request \<Rightarrow> request_context \<Rightarrow> 'h \<Rightarrow> drv_response \<times> 'h) \<Rightarrow> bool" where
  "answers H queues g \<longleftrightarrow>
     (\<forall>m ctx h k. \<exists>k'. hn_handle H m ctx (h, k) = Some (Some (fst (g m ctx h)), snd (g m ctx h), k') \<and> queues k' = queues k)"

text \<open>What the requests of a client are answered with, and the handler's state afterwards.\<close>

fun replies :: "(drv_request \<Rightarrow> request_context \<Rightarrow> 'h \<Rightarrow> drv_response \<times> 'h) \<Rightarrow> nat \<Rightarrow> drv_request list \<Rightarrow> 'h \<Rightarrow> (u8 list \<times> u32 list) list \<times> 'h" where
  "replies g conn [] h = ([], h)"
| "replies g conn (m # ms) h =
     (let (r, h1) = g m \<lparr>rc_conn_id = conn, rc_request_id = dh_request_id (dm_header m)\<rparr> h; (out, h2) = replies g conn ms h1
      in ((if contains (dh_flags (dm_header m)) MF_NEED_REPLY then [(dm_encode r, dm_handles r)] else []) @ out, h2))"

lemma client_loop_serves:
  assumes mail: "mailbox K (oh_raw (dn_channel x)) inbox outbox room" and handler: "answers H (\<lambda>k. (inbox k, outbox k, room k)) g"
  shows "\<forall>m \<in> set ms. fits m \<Longrightarrow> inbox (ds_kernel s) = map (\<lambda>m. (dm_encode m, dm_handles m)) ms \<Longrightarrow> length buf = 4096 \<Longrightarrow> length handles = 16 \<Longrightarrow>
    length (fst (replies g conn ms (ds_handler s))) \<le> room (ds_kernel s) \<Longrightarrow>
    \<exists>k. ds_client_loop K H conn x (s, buf, handles) = Some (Ok (), s\<lparr>ds_handler := snd (replies g conn ms (ds_handler s)), ds_kernel := k\<rparr>) \<and>
      inbox k = [] \<and> outbox k = outbox (ds_kernel s) @ fst (replies g conn ms (ds_handler s))"
proof (induction ms arbitrary: s buf handles)
  case Nil
  then obtain k where k: "ka_try_recv K (oh_raw (dn_channel x)) 4096 16 (ds_kernel s) = (Inl (Error EAGAIN), k)" "inbox k = []" "outbox k = outbox (ds_kernel s)"
    using mailbox_empty[OF mail, of "ds_kernel s"] by auto
  have "ds_client_turn K H conn x (s, buf, handles) = Some (Inr (Ok (), s\<lparr>ds_kernel := k\<rparr>))" using k(1) Nil(3,4) by (simp add: ds_client_turn_def)
  then have "ds_client_loop K H conn x (s, buf, handles) = Some (Ok (), s\<lparr>ds_kernel := k\<rparr>)" by (subst ds_client_loop.simps) simp
  then show ?case using k(2,3) by (intro exI[of _ k]) simp
next
  case (Cons m ms)
  let ?ch = "oh_raw (dn_channel x)" and ?q = "(dm_encode m, dm_handles m)" and ?qs = "map (\<lambda>m. (dm_encode m, dm_handles m)) ms"
  let ?ctx = "\<lparr>rc_conn_id = conn, rc_request_id = dh_request_id (dm_header m)\<rparr>"
  have "inbox (ds_kernel s) = ?q # ?qs" using Cons.prems(2) by simp
  then obtain k1 where k1: "ka_try_recv K ?ch 4096 16 (ds_kernel s) = (Inr ?q, k1)" "inbox k1 = ?qs" "outbox k1 = outbox (ds_kernel s)" "room (ds_kernel s) \<le> room k1"
    using mailbox_next[OF mail] by blast
  obtain k2 where k2: "hn_handle H m ?ctx (ds_handler s, k1) = Some (Some (fst (g m ?ctx (ds_handler s))), snd (g m ?ctx (ds_handler s)), k2)"
      "inbox k2 = ?qs" "outbox k2 = outbox (ds_kernel s)" "room (ds_kernel s) \<le> room k2"
    using handler k1(2-4) unfolding answers_def by fastforce
  obtain r h1 where g: "g m ?ctx (ds_handler s) = (r, h1)" by (cases "g m ?ctx (ds_handler s)")
  let ?need = "contains (dh_flags (dm_header m)) MF_NEED_REPLY"
  have "\<exists>k3. (?need \<longrightarrow> ka_send K ?ch (dm_encode r) (dm_handles r) k2 = (Inr (), k3)) \<and> (\<not> ?need \<longrightarrow> k3 = k2) \<and> inbox k3 = ?qs \<and>
      outbox k3 = outbox (ds_kernel s) @ (if ?need then [(dm_encode r, dm_handles r)] else []) \<and> length (fst (replies g conn ms h1)) \<le> room k3"
  proof (cases ?need)
    case True
    have room: "Suc (length (fst (replies g conn ms h1))) \<le> room k2" using Cons.prems(5) g k2(4) True by (simp add: Let_def split_beta)
    then obtain k3 where "ka_send K ?ch (dm_encode r) (dm_handles r) k2 = (Inr (), k3)" "inbox k3 = ?qs"
      "outbox k3 = outbox (ds_kernel s) @ [(dm_encode r, dm_handles r)]" "room k2 \<le> Suc (room k3)"
      using mailbox_send[OF mail, of k2 "dm_encode r" "dm_handles r"] k2(2,3) by auto
    then show ?thesis using True room by (intro exI[of _ k3]) simp
  next
    case False
    then show ?thesis using k2(2-4) Cons.prems(5) g by (intro exI[of _ k2]) (simp add: Let_def split_beta)
  qed
  then obtain k3 where k3: "?need \<longrightarrow> ka_send K ?ch (dm_encode r) (dm_handles r) k2 = (Inr (), k3)" "\<not> ?need \<longrightarrow> k3 = k2" "inbox k3 = ?qs"
    "outbox k3 = outbox (ds_kernel s) @ (if ?need then [(dm_encode r, dm_handles r)] else [])" "length (fst (replies g conn ms h1)) \<le> room k3" by blast
  let ?s2 = "s\<lparr>ds_handler := h1, ds_kernel := k3\<rparr>"
  have serve: "ds_serve K H conn x m (s\<lparr>ds_kernel := k1\<rparr>) = Some (Ok (), ?s2)" using k2(1) k3(1,2) g by (simp add: ds_serve_def ds_answer_def)
  have "ds_client_turn K H conn x (s, buf, handles) = Some (Inl (?s2, recv_into (dm_encode m) buf, recv_into (dm_handles m) handles))"
    using client_turn_serves[OF Cons.prems(3,4), of m "dm_handles m" K x s k1 H conn] Cons.prems(1) k1(1) serve by simp
  then have loop: "ds_client_loop K H conn x (s, buf, handles) = ds_client_loop K H conn x (?s2, recv_into (dm_encode m) buf, recv_into (dm_handles m) handles)"
    by (subst ds_client_loop.simps) simp
  from Cons.IH[of ?s2 "recv_into (dm_encode m) buf" "recv_into (dm_handles m) handles"] Cons.prems k3(3,5) obtain k where
    k: "ds_client_loop K H conn x (?s2, recv_into (dm_encode m) buf, recv_into (dm_handles m) handles) = Some (Ok (), ?s2\<lparr>ds_handler := snd (replies g conn ms h1), ds_kernel := k\<rparr>)"
      "inbox k = []" "outbox k = outbox k3 @ fst (replies g conn ms h1)" by auto
  show ?case
    by (rule exI[of _ k]) (use k k3(4) g loop in \<open>simp add: Let_def split_beta\<close>)
qed

text \<open>C21: when a client's channel becomes readable, the server takes every request that waits there, in order, hands each to the handler, and sends the responses in that order to the
  requests that ask for one; then it returns. It needs a handler that returns and does not touch the channel, requests with at most 4072 bytes of data and 16 handles, and a client that is still there and whose
  channel has room for as many responses as are sent: without room for one the server ends, see below.\<close>

theorem driver_requests_answered:
  assumes client: "bt_get (ds_clients s) conn = Some x" "conn \<noteq> 0"
    and mail: "mailbox K (oh_raw (dn_channel x)) inbox outbox room" and handler: "answers H (\<lambda>k. (inbox k, outbox k, room k)) g"
    and waiting: "inbox (ds_kernel s) = map (\<lambda>m. (dm_encode m, dm_handles m)) ms" "list_all fits ms"
    and room: "length (fst (replies g conn ms (ds_handler s))) \<le> room (ds_kernel s)"
  shows "\<exists>k. ds_packet K H (conn, READABLE) s = Some (Ok (), s\<lparr>ds_handler := snd (replies g conn ms (ds_handler s)), ds_kernel := k\<rparr>) \<and>
    inbox k = [] \<and> outbox k = outbox (ds_kernel s) @ fst (replies g conn ms (ds_handler s))"
proof -
  have sig: "\<not> contains READABLE PEER_CLOSED" by (simp add: contains_def signal_defs)
  then have "ds_packet K H (conn, READABLE) s = ds_client_loop K H conn x (s, replicate 4096 0, replicate 16 0)"
    using client by (simp add: ds_packet_def ds_client_event_def ds_client_request_def)
  then show ?thesis using client_loop_serves[OF mail handler, of ms s "replicate 4096 0" "replicate 16 0"] waiting room by (simp add: list_all_iff)
qed

text \<open>A response that cannot be sent, as when the client has closed its end after the request, ends the whole server: the main loop returns the error, with all other clients
  still connected.\<close>

theorem lost_reply_ends_server:
  assumes client: "bt_get (ds_clients s) conn = Some x" "conn \<noteq> 0"
    and running: "ds_running s" "ka_wait K (oh_raw (ds_port s)) 32 (2 ^ 64 - 1) (ds_kernel s) = (Inr ((conn, READABLE) # ps), k0)"
    and request: "ka_try_recv K (oh_raw (dn_channel x)) 4096 16 k0 = (Inr (dm_encode m, dm_handles m), k1)" "fits m"
      "contains (dh_flags (dm_header m)) MF_NEED_REPLY"
    and handled: "hn_handle H m \<lparr>rc_conn_id = conn, rc_request_id = dh_request_id (dm_header m)\<rparr> (ds_handler s, k1) = Some (Some r, h2, k2)"
    and lost: "ka_send K (oh_raw (dn_channel x)) (dm_encode r) (dm_handles r) k2 = (Inl e, k3)"
  shows "ds_run K H s = Some (Err (driver_error_from e), s\<lparr>ds_handler := h2, ds_kernel := k3\<rparr>)"
proof -
  have sig: "\<not> contains READABLE PEER_CLOSED" by (simp add: contains_def signal_defs)
  have run: "s\<lparr>ds_running := True\<rparr> = s" using running(1) by simp
  have "ds_serve K H conn x m (s\<lparr>ds_kernel := k1\<rparr>) = Some (Err (driver_error_from e), s\<lparr>ds_handler := h2, ds_kernel := k3\<rparr>)"
    using handled lost request(3) by (simp add: ds_serve_def ds_answer_def)
  then have "ds_client_turn K H conn x (s\<lparr>ds_kernel := k0\<rparr>, replicate 4096 0, replicate 16 0) =
      Some (Inr (Err (driver_error_from e), s\<lparr>ds_handler := h2, ds_kernel := k3\<rparr>))"
    using client_turn_serves[of "replicate 4096 0" "replicate 16 0" m "dm_handles m" K x "s\<lparr>ds_kernel := k0\<rparr>" k1 H conn] request by simp
  then have "ds_packet K H (conn, READABLE) (s\<lparr>ds_kernel := k0\<rparr>) = Some (Err (driver_error_from e), s\<lparr>ds_handler := h2, ds_kernel := k3\<rparr>)"
    using client sig by (simp add: ds_packet_def ds_client_event_def ds_client_request_def ds_client_loop.simps)
  then have "ds_turn K H s = Some (Err (driver_error_from e), s\<lparr>ds_handler := h2, ds_kernel := k3\<rparr>)"
    using running(2) by (simp add: ds_turn_def)
  then show ?thesis using running(1) by (simp add: ds_run_def run ds_loop.simps)
qed

section \<open>A sample driver\<close>

text \<open>A kernel with one queue of messages to receive and one of messages sent, which takes 64 of them, and a handler that sends the data back.\<close>

type_synonym post = "(u8 list \<times> u32 list) list"

definition post_kernel :: "(post \<times> post) kernel_api" where
  "post_kernel =
     \<lparr>ka_clock = (\<lambda>k. (Inr 7, k)), ka_channel_create = (\<lambda>k. (Inr (11, 12), k)), ka_port_create = (\<lambda>k. (Inr 10, k)),
      ka_send = (\<lambda>_ bs hs k. if length (snd k) < 64 then (Inr (), fst k, snd k @ [(bs, hs)]) else (Inl (Error EAGAIN), k)),
      ka_try_recv = (\<lambda>_ _ _ k. case fst k of [] \<Rightarrow> (Inl (Error EAGAIN), k) | m # ms \<Rightarrow> (Inr m, ms, snd k)),
      ka_close = (\<lambda>_ k. k), ka_bind = (\<lambda>_ _ _ _ _ k. (Inr (), k)), ka_unbind = (\<lambda>_ _ k. k),
      ka_wait = (\<lambda>_ _ _ k. (Inr [(1, READABLE)], k)), ka_queue = (\<lambda>_ _ k. k),
      ka_recv = (\<lambda>_ _ _ k. None), ka_init_handle = (\<lambda>_ k. (Inr 9, k)), ka_nanosleep = (\<lambda>_ k. (Inr (), k))\<rparr>"

lemma post_simps [simp]:
  "length (snd k) < 64 \<Longrightarrow> ka_send post_kernel h bs hs k = (Inr (), fst k, snd k @ [(bs, hs)])" "ka_try_recv post_kernel h n l (m # ms, os) = (Inr m, ms, os)"
  "ka_wait post_kernel p n t k = (Inr [(1, READABLE)], k)"
  by (simp_all add: post_kernel_def)

lemma post_mailbox: "mailbox post_kernel ch fst snd (\<lambda>k. 64 - length (snd k))"
  by (auto simp: mailbox_def post_kernel_def split: list.split)

definition echo :: "drv_request \<Rightarrow> request_context \<Rightarrow> unit \<Rightarrow> drv_response \<times> unit" where
  "echo m ctx h = (with_data (dm_data m) (drv_success (rc_request_id ctx)), h)"

definition echo_handler :: "(unit, 'k) request_handler" where
  "echo_handler =
     \<lparr>hn_handle = (\<lambda>m ctx hk. Some (Some (fst (echo m ctx (fst hk))), hk)), hn_on_connect = (\<lambda>_ hk. (Ok (), hk)), hn_on_disconnect = (\<lambda>_ hk. hk)\<rparr>"

lemma echo_answers: "answers echo_handler q echo"
  by (simp add: answers_def echo_handler_def echo_def)

definition echo_server :: "'k \<Rightarrow> (unit, 'k) driver_server" where
  "echo_server k =
     \<lparr>ds_name = [101], ds_accept = oh_from_raw 11, ds_port = oh_from_raw 10, ds_clients = [(1, \<lparr>dn_id = 1, dn_channel = oh_from_raw 20, dn_key = 1\<rparr>)],
      ds_next_conn_id = 2, ds_handler = (), ds_running = True, ds_kernel = k\<rparr>"

lemma echo_client: "bt_get (ds_clients (echo_server k)) 1 = Some \<lparr>dn_id = 1, dn_channel = oh_from_raw 20, dn_key = 1\<rparr>"
  by (simp add: echo_server_def bt_get_def)

abbreviation echo_request :: drv_request where
  "echo_request \<equiv> dc_request DrvRead 1 [7, 8] []"

abbreviation echo_response :: drv_response where
  "echo_response \<equiv> with_data [7, 8] (drv_success 1)"

abbreviation late_response :: drv_response where
  "late_response \<equiv> with_data [6] (drv_success 9)"

lemma echo_messages:
  "fits echo_request" "fits echo_response" "dm_handles echo_request = []" "dm_handles echo_response = []" "dm_data echo_request = [7, 8]"
  "dh_request_id (dm_header echo_request) = 1" "dh_request_id (dm_header echo_response) = 1" "contains (dh_flags (dm_header echo_request)) MF_NEED_REPLY"
  by (simp_all add: fits_def dc_request_def with_handles_def with_data_def drv_request_new_def dh_new_request_def drv_success_def dh_new_response_def well_formed_def contains_or_right)

theorem driver_call_roundtrip_witness:
  "dc_call_with_handles post_kernel DrvRead [7, 8] [] \<lparr>dc_channel = oh_from_raw 21, dc_port = oh_from_raw 22, dc_next_request_id = 1, dc_kernel = ([(dm_encode late_response, []), (dm_encode echo_response, [])], [])\<rparr> =
    Some (Ok echo_response, \<lparr>dc_channel = oh_from_raw 21, dc_port = oh_from_raw 22, dc_next_request_id = 2, dc_kernel = ([], [(dm_encode echo_request, [])])\<rparr>)"
proof -
  let ?c = "\<lparr>dc_channel = oh_from_raw 21, dc_port = oh_from_raw 22, dc_next_request_id = 1, dc_kernel = ([(dm_encode late_response, []), (dm_encode echo_response, [])], [])\<rparr>"
  have same: "echo_response\<lparr>dm_handles := []\<rparr> = echo_response" "echo_request\<lparr>dm_handles := []\<rparr> = echo_request"
    by (simp_all add: dc_request_def with_handles_def with_data_def drv_request_new_def drv_success_def)
  have woken: "woken post_kernel 22 k k" for k by (simp add: woken_def contains_def signal_defs)
  have first: "comes_to post_kernel 21 22 1 (dm_encode echo_response, []) ([(dm_encode echo_response, [])], [(dm_encode echo_request, [])]) ([], [(dm_encode echo_request, [])])"
    by (rule comes_to.here) simp
  have late: "dh_request_id (dm_header late_response) \<noteq> 1" by (simp add: with_data_def drv_success_def dh_new_response_def)
  have comes: "comes_to post_kernel 21 22 1 (dm_encode echo_response, []) ([(dm_encode late_response, []), (dm_encode echo_response, [])], [(dm_encode echo_request, [])])
      ([], [(dm_encode echo_request, [])])"
    by (rule comes_to.other[OF post_simps(2) late woken first])
  have "ds_client_turn post_kernel echo_handler 1 \<lparr>dn_id = 1, dn_channel = oh_from_raw 20, dn_key = 1\<rparr> (echo_server ([(dm_encode echo_request, [])], []), replicate 4096 0, replicate 16 0) =
      Some (Inl ((echo_server ([(dm_encode echo_request, [])], []))\<lparr>ds_handler := (), ds_kernel := ([], [(dm_encode echo_response, [])])\<rparr>,
        recv_into (dm_encode echo_request) (replicate 4096 0), recv_into [] (replicate 16 0))) \<and>
    driver_op_from (dh_op (dm_header echo_request)) = DrvRead \<and> dm_data echo_request = [7, 8] \<and>
    dc_call_with_handles post_kernel DrvRead [7, 8] [] ?c =
      Some (Ok (echo_response\<lparr>dm_handles := []\<rparr>), ?c\<lparr>dc_next_request_id := dc_next_request_id ?c + 1, dc_kernel := ([], [(dm_encode echo_request, [])])\<rparr>)"
    using driver_call_roundtrip[where K = post_kernel and c = ?c and opc = DrvRead and data = "[7, 8]" and hs = "[]" and ?hs1.0 = "[]" and
        ?k0.0 = "([(dm_encode late_response, []), (dm_encode echo_response, [])], [(dm_encode echo_request, [])])" and s = "echo_server ([(dm_encode echo_request, [])], [])" and conn = 1 and
        ?k1.0 = "([], [])" and H = echo_handler and r = echo_response and ?h2.0 = "()" and ?k2.0 = "([], [])" and ?k3.0 = "([], [(dm_encode echo_response, [])])" and
        rhs = "[]" and ?k4.0 = "([], [(dm_encode echo_request, [])])" and x = "\<lparr>dn_id = 1, dn_channel = oh_from_raw 20, dn_key = 1\<rparr>"]
      echo_messages echo_client[of "([(dm_encode echo_request, [])], [])"] same comes
    by (simp add: echo_handler_def echo_def echo_server_def oh_from_raw_def)
  then show ?thesis by (simp add: same)
qed

theorem driver_requests_answered_witness:
  "\<exists>k. ds_packet post_kernel echo_handler (1, READABLE) (echo_server ([(dm_encode echo_request, []), (dm_encode echo_request, [])], [])) =
      Some (Ok (), echo_server k) \<and> fst k = [] \<and> snd k = [(dm_encode echo_response, []), (dm_encode echo_response, [])]"
proof -
  let ?s = "echo_server ([(dm_encode echo_request, []), (dm_encode echo_request, [])], []) :: (unit, post \<times> post) driver_server"
  have out: "fst (replies echo 1 [echo_request, echo_request] ()) = [(dm_encode echo_response, []), (dm_encode echo_response, [])]"
    using echo_messages by (simp add: echo_def Let_def)
  have "\<exists>k. ds_packet post_kernel echo_handler (1, READABLE) ?s =
        Some (Ok (), ?s\<lparr>ds_handler := snd (replies echo 1 [echo_request, echo_request] (ds_handler ?s)), ds_kernel := k\<rparr>) \<and>
      fst k = [] \<and> snd k = snd (ds_kernel ?s) @ fst (replies echo 1 [echo_request, echo_request] (ds_handler ?s))"
    by (rule driver_requests_answered[OF echo_client _ post_mailbox echo_answers])
      (use echo_messages out in \<open>simp_all add: echo_server_def\<close>)
  then show ?thesis using out by (auto simp: echo_server_def)
qed

definition deaf_kernel :: "(post \<times> post) kernel_api" where
  "deaf_kernel = post_kernel\<lparr>ka_send := (\<lambda>_ _ _ k. (Inl (Error EPIPE), k))\<rparr>"

lemma deaf_simps [simp]:
  "ka_send deaf_kernel h bs hs k = (Inl (Error EPIPE), k)" "ka_try_recv deaf_kernel h n l (m # ms, os) = (Inr m, ms, os)"
  "ka_wait deaf_kernel p n t k = (Inr [(1, READABLE)], k)"
  by (simp_all add: deaf_kernel_def)

theorem lost_reply_ends_server_witness:
  "ds_run deaf_kernel echo_handler (echo_server ([(dm_encode echo_request, [])], [])) = Some (Err Disconnected, echo_server ([], []))"
proof -
  have "ds_run deaf_kernel echo_handler (echo_server ([(dm_encode echo_request, [])], [])) =
      Some (Err (driver_error_from (Error EPIPE)), (echo_server ([(dm_encode echo_request, [])], []))\<lparr>ds_handler := (), ds_kernel := ([], [])\<rparr>)"
    by (rule lost_reply_ends_server[OF echo_client, where m = echo_request and r = echo_response and ps = "[]" and ?k0.0 = "([(dm_encode echo_request, [])], [])" and
          ?k1.0 = "([], [])" and ?k2.0 = "([], [])" and ?h2.0 = "()"])
      (use echo_messages in \<open>simp_all add: echo_server_def echo_handler_def echo_def\<close>)
  then show ?thesis by (simp add: driver_error_from_def errno_defs echo_server_def)
qed

end
