(* ===== verification/Namespace_Service.thy ===== *)
theory Namespace_Service
  imports Namespace Driver_Client
begin

text \<open>
  The namespace as a driver service: the request handler of \<open>drivers/namespace/src/main.rs\<close>, the status codes of \<open>protocol.rs\<close> and the client of \<open>client.rs\<close>. Opening a path connects to the driver that
  is bound to it and hands the connection to the caller.
\<close>

section \<open>Handler\<close>

definition NAMESPACE_UNKNOWN_OP :: i32 where "NAMESPACE_UNKNOWN_OP = 1"
definition NAMESPACE_INVALID_ARGUMENT :: i32 where "NAMESPACE_INVALID_ARGUMENT = 2"
definition NAMESPACE_BIND_FAILED :: i32 where "NAMESPACE_BIND_FAILED = 3"
definition NAMESPACE_RESOLVE_FAILED :: i32 where "NAMESPACE_RESOLVE_FAILED = 4"
definition NAMESPACE_INTERNAL_ERROR :: i32 where "NAMESPACE_INTERNAL_ERROR = 5"

lemmas namespace_status_defs = NAMESPACE_UNKNOWN_OP_def NAMESPACE_INVALID_ARGUMENT_def NAMESPACE_BIND_FAILED_def NAMESPACE_RESOLVE_FAILED_def NAMESPACE_INTERNAL_ERROR_def

type_synonym 'k ns_answer = "(drv_response option \<times> namespace \<times> 'k) option"

text \<open>The client that was connected is dropped after its channel has been marked as not to be closed.\<close>

definition namespace_open :: "'k kernel_api \<Rightarrow> drv_request \<Rightarrow> namespace \<times> 'k \<Rightarrow> 'k ns_answer" where
  "namespace_open K request mk =
     (let (mounts, k) = mk; i = dh_request_id (dm_header request)
      in case from_utf8 (dm_data request) of
           None \<Rightarrow> Some (Some (drv_error i NAMESPACE_INVALID_ARGUMENT), mounts, k)
         | Some path \<Rightarrow>
             (case namespace_resolve path mounts of
                Inl _ \<Rightarrow> Some (Some (drv_error i NAMESPACE_RESOLVE_FAILED), mounts, k)
              | Inr (entry, remaining) \<Rightarrow>
                  (case dc_connect K (en_name entry) k of
                     None \<Rightarrow> None
                   | Some (Ok client, _) \<Rightarrow>
                       (let client = dc_with_nodrop True client
                        in Some (Some (with_handles [oh_raw (dc_channel client)] (with_data remaining (drv_success i))), mounts, dc_drop K client))
                   | Some (Err _, k1) \<Rightarrow> Some (Some (drv_error i NAMESPACE_INTERNAL_ERROR), mounts, k1)
                   | Some (Panic, k1) \<Rightarrow> Some (None, mounts, k1))))"

definition namespace_user :: "drv_request \<Rightarrow> namespace \<times> 'k \<Rightarrow> 'k ns_answer" where
  "namespace_user request mk =
     (let (mounts, k) = mk; i = dh_request_id (dm_header request); data = dm_data request
      in if length data < 4 then Some (Some (drv_error i NAMESPACE_INVALID_ARGUMENT), mounts, k)
         else if length data < 8 then Some (None, mounts, k)
         else
           let flags = (field data 0 4 :: u32); path_len = unat (field data 4 4 :: u32)
           in if 8 + path_len > length data then Some (None, mounts, k)
              else case (from_utf8 (take path_len (drop 8 data)), from_utf8 (drop (8 + path_len) data)) of
                     (Some path, Some name) \<Rightarrow>
                       (case namespace_bind path name (from_bits_truncate mount_known flags) mounts of
                          (Inr _, mounts1) \<Rightarrow> Some (Some (drv_success i), mounts1, k)
                        | (Inl _, mounts1) \<Rightarrow> Some (Some (drv_error i NAMESPACE_BIND_FAILED), mounts1, k))
                   | _ \<Rightarrow> Some (Some (drv_error i NAMESPACE_INVALID_ARGUMENT), mounts, k))"

definition namespace_handle :: "'k kernel_api \<Rightarrow> drv_request \<Rightarrow> request_context \<Rightarrow> namespace \<times> 'k \<Rightarrow> 'k ns_answer" where
  "namespace_handle K request ctx mk =
     (case driver_op_from (dh_op (dm_header request)) of
        DrvOpen \<Rightarrow> namespace_open K request mk
      | DrvUserDefined \<Rightarrow> namespace_user request mk
      | _ \<Rightarrow> Some (Some (drv_error (dh_request_id (dm_header request)) NAMESPACE_UNKNOWN_OP), mk))"

definition namespace_handler :: "'k kernel_api \<Rightarrow> (namespace, 'k) request_handler" where
  "namespace_handler K = \<lparr>hn_handle = namespace_handle K, hn_on_connect = (\<lambda>_ mk. (Ok (), mk)), hn_on_disconnect = (\<lambda>_ mk. mk)\<rparr>"

text \<open>\<open>"namespace"\<close>; a service that cannot be built panics, and the process exits with the result.\<close>

definition namespace_name :: "u8 list" where
  "namespace_name = [0x6E, 0x61, 0x6D, 0x65, 0x73, 0x70, 0x61, 0x63, 0x65]"

definition namespace_main :: "'k kernel_api \<Rightarrow> 'k \<Rightarrow> (error, unit) res option" where
  "namespace_main K k =
     (case service_builder_build K namespace_name namespace_new k of
        None \<Rightarrow> None
      | Some (Ok server, _) \<Rightarrow> map_option (\<lambda>(r, _). map_err (\<lambda>_. Error EINVAL) r) (ds_run K (namespace_handler K) server)
      | Some (_, _) \<Rightarrow> Some Panic)"

section \<open>Client\<close>

definition namespace_connect :: "'k kernel_api \<Rightarrow> 'k \<Rightarrow> ((error, 'k driver_client) res \<times> 'k) option" where
  "namespace_connect K k = map_option (\<lambda>(r, k1). (map_err (\<lambda>_. Error ENOENT) r, k1)) (dc_connect K namespace_name k)"

definition bind_bytes :: "u8 list \<Rightarrow> u8 list \<Rightarrow> u32 \<Rightarrow> u8 list" where
  "bind_bytes path name flags = u32_bytes flags @ u32_bytes (word_of_nat (length path)) @ path @ name"

definition nsc_bind :: "'k kernel_api \<Rightarrow> u8 list \<Rightarrow> u8 list \<Rightarrow> u32 \<Rightarrow> 'k driver_client \<Rightarrow> ((error, unit) res \<times> 'k driver_client) option" where
  "nsc_bind K path name flags s =
     map_option (\<lambda>(r, s1). (bind_res (map_err (\<lambda>_. Error EEXIST) r) (\<lambda>_. Ok ()), s1)) (dc_call K DrvUserDefined (bind_bytes path name flags) s)"

definition read_opened :: "drv_response \<Rightarrow> (error, owned_handle \<times> u8 list) res" where
  "read_opened response =
     (case from_utf8 (dm_data response) of
        None \<Rightarrow> Err (Error EINVAL)
      | Some remaining \<Rightarrow> (case dm_handles response of [] \<Rightarrow> Err (Error EINVAL) | h # _ \<Rightarrow> Ok (oh_from_raw h, remaining)))"

definition nsc_open :: "'k kernel_api \<Rightarrow> u8 list \<Rightarrow> 'k driver_client \<Rightarrow> ((error, owned_handle \<times> u8 list) res \<times> 'k driver_client) option" where
  "nsc_open K path s = map_option (\<lambda>(r, s1). (bind_res (map_err (\<lambda>_. Error ENOENT) r) read_opened, s1)) (dc_call K DrvOpen path s)"

section \<open>Properties\<close>

lemma bind_bytes_fields:
  assumes "length path < 2 ^ 32"
  shows "(field (bind_bytes path name flags) 0 4 :: u32) = flags" "unat (field (bind_bytes path name flags) 4 4 :: u32) = length path"
    "take (length path) (drop 8 (bind_bytes path name flags)) = path" "drop (8 + length path) (bind_bytes path name flags) = name"
    "length (bind_bytes path name flags) = 8 + length path + length name"
proof -
  let ?b = "bind_bytes path name flags"
  show "(field ?b 0 4 :: u32) = flags" by (simp add: bind_bytes_def field_def field_word)
  have "(field ?b 4 4 :: u32) = word_of_nat (length path)" by (simp add: bind_bytes_def field_def field_word)
  then show "unat (field ?b 4 4 :: u32) = length path" using assms by (simp add: unat_of_nat)
qed (simp_all add: bind_bytes_def)

lemma bind_request_handled:
  assumes "utf8_valid path" "utf8_valid name" "length path < 2 ^ 32"
  shows "namespace_handle K (dc_request DrvUserDefined i (bind_bytes path name flags) []) ctx (m, k) =
    (case namespace_bind path name (from_bits_truncate mount_known flags) m of
       (Inr _, m1) \<Rightarrow> Some (Some (drv_success i), m1, k)
     | (Inl _, m1) \<Rightarrow> Some (Some (drv_error i NAMESPACE_BIND_FAILED), m1, k))"
  using assms bind_bytes_fields[OF assms(3), of name flags] by (simp add: namespace_handle_def namespace_user_def from_utf8_def Let_def)

text \<open>C24: what a client binds can be opened. When a client binds an absolute path that is not bound yet, with path and name of at most 4064 bytes together, the server takes the message for exactly that binding. A path below
  it that no longer binding covers, sent by any client, is then connected to the driver of this binding, if the driver accepts the connection, and the client reads the driver's channel and the rest of the path from the response.\<close>

theorem bound_driver_opened:
  assumes ok: "namespace_ok m" and texts: "utf8_valid path" "utf8_valid name" "utf8_valid p" and abs: "prefix [SLASH] path" "prefix [SLASH] p"
    and small: "length path + length name \<le> 4064"
    and free: "mounted m (components_of path) = None" and below: "components_of p = components_of path @ rest"
    and deepest: "\<forall>ds. prefix ds (components_of p) \<longrightarrow> mounted m ds \<noteq> None \<longrightarrow> length ds \<le> length (components_of path)"
    and connected: "dc_connect K name k2 = Some (Ok c, k3)"
  shows "\<exists>m1. namespace_handle K (dc_request DrvUserDefined i (bind_bytes path name flags) []) ctx (m, k) = Some (Some (drv_success i), m1, k) \<and> namespace_ok m1 \<and>
    namespace_handle K (dc_request DrvOpen j p []) ctx2 (m1, k2) =
      Some (Some (with_handles [oh_raw (dc_channel c)] (with_data (render rest) (drv_success j))), m1, dc_drop K (dc_with_nodrop True c)) \<and>
    (utf8_valid (render rest) \<longrightarrow> read_opened (with_handles [h] (with_data (render rest) (drv_success j))) = Ok (oh_from_raw h, render rest))"
proof -
  let ?cs = "components_of path" and ?f = "from_bits_truncate mount_known flags"
  let ?e = "\<lparr>en_path = render ?cs, en_name = name, en_flags = ?f\<rparr>" and ?m1 = "snd (namespace_bind path name ?f m)"
  have cs: "list_all component ?cs" by (rule components_of_all)
  have get: "bt_get m (render ?cs) = None" using free cs by (simp add: mounted_def)
  have b: "namespace_bind path name ?f m = (Inr (), bt_insert (render ?cs) ?e m)"
    by (simp add: namespace_bind_def normalize_path_eq abs get)
  have ok1: "namespace_ok ?m1" and map1: "mounted ?m1 = (mounted m)(?cs \<mapsto> ?e)"
    using namespace_ok_insert[OF ok cs] mounted_insert[OF cs] by (simp_all add: b)
  have "spec_resolve (mounted ?m1) (components_of p) = Some (?e, rest)"
    by (rule spec_resolve_Some[of _ ?cs]) (use map1 below deepest in auto)
  then have "namespace_resolve p ?m1 = Inr (?e, render rest)" by (simp add: resolve_refines[OF ok1 abs(2)])
  then have "namespace_handle K (dc_request DrvOpen j p []) ctx2 (?m1, k2) =
      Some (Some (with_handles [oh_raw (dc_channel c)] (with_data (render rest) (drv_success j))), ?m1, dc_drop K (dc_with_nodrop True c))"
    using texts(3) connected by (simp add: namespace_handle_def namespace_open_def from_utf8_def Let_def dc_with_nodrop_def)
  moreover have "namespace_handle K (dc_request DrvUserDefined i (bind_bytes path name flags) []) ctx (m, k) = Some (Some (drv_success i), ?m1, k)"
    using bind_request_handled[OF texts(1,2), of K i flags ctx m k] small by (simp add: b)
  moreover have "utf8_valid (render rest) \<longrightarrow> read_opened (with_handles [h] (with_data (render rest) (drv_success j))) = Ok (oh_from_raw h, render rest)"
    by (simp add: read_opened_def with_handles_def with_data_def from_utf8_def)
  ultimately show ?thesis using ok1 by blast
qed

text \<open>A client is told that its binding succeeded even when the path is already bound to another driver: the server answers with the status of a failed binding, and the client does not look at
  it.\<close>

theorem refused_binding_reported_bound:
  assumes bound: "mounted m (components_of path) \<noteq> None" "prefix [SLASH] path" "utf8_valid path" "utf8_valid name" "length path + length name \<le> 4064"
    and sent: "ka_send K (oh_raw (dc_channel c)) (dm_encode (dc_request DrvUserDefined (dc_next_request_id c) (bind_bytes path name flags) [])) [] (dc_kernel c) = (Inr (), k0)"
    and returns: "ka_try_recv K (oh_raw (dc_channel c)) 4096 16 k0 = (Inr (dm_encode (drv_error (dc_next_request_id c) NAMESPACE_BIND_FAILED), []), k1)"
  shows "namespace_handle K (dc_request DrvUserDefined (dc_next_request_id c) (bind_bytes path name flags) []) ctx (m, k) =
      Some (Some (drv_error (dc_next_request_id c) NAMESPACE_BIND_FAILED), m, k) \<and>
    map_option fst (nsc_bind K path name flags c) = Some (Ok ())"
proof -
  let ?i = "dc_next_request_id c" and ?r = "drv_error (dc_next_request_id c) NAMESPACE_BIND_FAILED"
  have "\<exists>e. namespace_bind path name (from_bits_truncate mount_known flags) m = (Inl e, m)"
    using bound(1,2) components_of_all by (auto simp: namespace_bind_def normalize_path_eq mounted_def split: if_splits)
  then have one: "namespace_handle K (dc_request DrvUserDefined ?i (bind_bytes path name flags) []) ctx (m, k) = Some (Some ?r, m, k)"
    using bind_request_handled[OF bound(3,4), of K ?i flags ctx m k] bound(5) by auto
  have r: "fits ?r" "dh_request_id (dm_header ?r) = ?i" "dm_handles ?r = []"
    by (simp_all add: fits_def drv_error_def dh_new_response_def well_formed_def)
  have "dc_read_response ?i (recv_into (dm_encode ?r) (replicate 4096 0)) (recv_into [] (replicate 16 0)) 0 = Some (Ok (?r\<lparr>dm_handles := []\<rparr>))"
    using response_read[of "replicate 4096 0" "replicate 16 0" ?r "[]"] r by simp
  then have "dc_turn K (c\<lparr>dc_next_request_id := ?i + 1, dc_kernel := k0\<rparr>) ?i Infinite (k0, replicate 4096 0, replicate 16 0) = Inr (Ok (?r\<lparr>dm_handles := []\<rparr>), k1)"
    using returns by (simp add: dc_turn_def DH_SIZE_def)
  then have "map_option fst (nsc_bind K path name flags c) = Some (Ok ())"
    using sent by (simp add: nsc_bind_def dc_call_def dc_call_with_handles_def dc_alloc_request_id_def dc_wait_response_def dc_loop.simps)
  with one show ?thesis by blast
qed

section \<open>A sample namespace\<close>

definition join_script :: "(u8 list \<times> u32 list) list" where
  "join_script = [handed_out, (rp_data found, rp_handles found), handed_out, (rp_data joined, rp_handles joined)]"

lemma script_dc_connect:
  assumes "length name \<le> 200"
  shows "dc_connect script_kernel name join_script =
    Some (Ok \<lparr>dc_channel = oh_from_raw 31, dc_port = oh_from_raw 10, dc_next_request_id = 1, dc_kernel = []\<rparr>, [])"
proof -
  have n: "length (driver_name name) \<le> 256" using assms by (simp add: driver_name_def)
  obtain i where "name_lookup script_kernel (driver_name name) join_script = Some (Ok i, [handed_out, (rp_data joined, rp_handles joined)])"
    using script_lookup[OF n] unfolding join_script_def by blast
  then have "await_service script_kernel (driver_name name) join_script = Some (Ok (), [handed_out, (rp_data joined, rp_handles joined)])"
    by (simp add: await_service.simps)
  then show ?thesis using script_join[OF n, of "[]"] by (simp add: dc_connect_def dc_from_channel_def)
qed

theorem bound_driver_opened_witness:
  "\<exists>m1. namespace_handle script_kernel (dc_request DrvUserDefined 1 (bind_bytes [SLASH, 100] [102] 1) []) \<lparr>rc_conn_id = 1, rc_request_id = 1\<rparr> ([], []) = Some (Some (drv_success 1), m1, []) \<and>
    namespace_handle script_kernel (dc_request DrvOpen 2 [SLASH, 100, SLASH, 120] []) \<lparr>rc_conn_id = 1, rc_request_id = 2\<rparr> (m1, join_script) =
      Some (Some (with_handles [31] (with_data [SLASH, 120] (drv_success 2))), m1, [])"
proof -
  let ?c = "\<lparr>dc_channel = oh_from_raw 31, dc_port = oh_from_raw 10, dc_next_request_id = 1, dc_kernel = []\<rparr>"
  have ok: "namespace_ok []" using namespace_ok_new by (simp add: namespace_new_def)
  have cs: "components_of [SLASH, 100] = [[100]]" "components_of [SLASH, 100, SLASH, 120] = [[100], [120]]" by (simp_all add: components_of_def)
  have none: "mounted [] ds = None" for ds by (simp add: mounted_def)
  have valid: "utf8_valid [SLASH, 100]" "utf8_valid [102]" "utf8_valid [SLASH, 100, SLASH, 120]" by simp_all
  have conn: "dc_connect script_kernel [102] join_script = Some (Ok ?c, [])" by (rule script_dc_connect) simp
  show ?thesis
    using bound_driver_opened[OF ok valid _ _ _ _ _ _ conn, where rest = "[[120]]" and i = 1 and flags = 1 and ctx = "\<lparr>rc_conn_id = 1, rc_request_id = 1\<rparr>" and k = "[]" and
        j = 2 and ?ctx2.0 = "\<lparr>rc_conn_id = 1, rc_request_id = 2\<rparr>" and h = 31]
    by (auto simp: cs none render_def oh_from_raw_def dc_drop_def dc_with_nodrop_def oh_drop_def)
qed

theorem refused_binding_reported_bound_witness:
  "map_option fst (nsc_bind script_kernel [SLASH, 100] [103] 0
     \<lparr>dc_channel = oh_from_raw 31, dc_port = oh_from_raw 10, dc_next_request_id = 1, dc_kernel = [(dm_encode (drv_error 1 NAMESPACE_BIND_FAILED), [])]\<rparr>) = Some (Ok ()) \<and>
   namespace_handle script_kernel (dc_request DrvUserDefined 1 (bind_bytes [SLASH, 100] [103] 0) []) \<lparr>rc_conn_id = 1, rc_request_id = 1\<rparr> (one_mount, []) =
     Some (Some (drv_error 1 NAMESPACE_BIND_FAILED), one_mount, [])"
proof -
  let ?c = "\<lparr>dc_channel = oh_from_raw 31, dc_port = oh_from_raw 10, dc_next_request_id = 1, dc_kernel = [(dm_encode (drv_error 1 NAMESPACE_BIND_FAILED), [])]\<rparr>"
  have m: "mounted one_mount (components_of [SLASH, 100]) \<noteq> None"
    by (simp add: one_mount_def namespace_bind_def normalize_path_eq components_of_def render_def namespace_new_def mounted_def component_def bt_get_def)
  show ?thesis
    using refused_binding_reported_bound[OF m, where name = "[103]" and K = script_kernel and c = ?c and flags = 0 and ?k0.0 = "dc_kernel ?c" and ?k1.0 = "[]" and
        ctx = "\<lparr>rc_conn_id = 1, rc_request_id = 1\<rparr>" and k = "[]"] by simp
qed

end
