(* ===== verification/Block_Device.thy ===== *)
theory Block_Device
  imports Driver_Client
begin

text \<open>
  Partitions as driver services: \<open>drivers/block_protocol/src/protocol.rs\<close>. The block device is a record of functions on its state. Requests are read through raw pointers without a look at the length of the
  data, so a short request reads the memory behind it: \<open>beyond\<close> stands for these bytes. The parser of partition tables is a library; what it finds on the disk is an argument of the probe.
\<close>

section \<open>Devices and partitions\<close>

definition BLOCK_ERR_IO :: i32 where "BLOCK_ERR_IO = 1"
definition BLOCK_IOCTL_GETSIZE :: u32 where "BLOCK_IOCTL_GETSIZE = 1"

text \<open>\<open>read_block\<close> fills the buffer it is given.\<close>

record 'd block_device =
  bd_read :: "nat \<Rightarrow> u8 list \<Rightarrow> 'd \<Rightarrow> (error + u8 list) \<times> 'd"
  bd_write :: "nat \<Rightarrow> u8 list \<Rightarrow> 'd \<Rightarrow> (error + unit) \<times> 'd"
  bd_size :: "'d \<Rightarrow> nat"

record partition =
  pt_offset :: nat
  pt_size :: nat

definition pt_read_block :: "'d block_device \<Rightarrow> partition \<Rightarrow> nat \<Rightarrow> u8 list \<Rightarrow> 'd \<Rightarrow> (error, u8 list) res \<times> 'd" where
  "pt_read_block D p start_byte buf d =
     (case (chk_add start_byte (pt_offset p) :: (error, nat) res) of
        Ok a \<Rightarrow> (case bd_read D a buf d of (Inr bs, d1) \<Rightarrow> (Ok bs, d1) | (Inl e, d1) \<Rightarrow> (Err e, d1))
      | _ \<Rightarrow> (Panic, d))"

definition pt_write_block :: "'d block_device \<Rightarrow> partition \<Rightarrow> nat \<Rightarrow> u8 list \<Rightarrow> 'd \<Rightarrow> (error, unit) res \<times> 'd" where
  "pt_write_block D p start_byte buf d =
     (case (chk_add start_byte (pt_offset p) :: (error, nat) res) of
        Ok a \<Rightarrow> (case bd_write D a buf d of (Inr _, d1) \<Rightarrow> (Ok (), d1) | (Inl e, d1) \<Rightarrow> (Err e, d1))
      | _ \<Rightarrow> (Panic, d))"

section \<open>Requests\<close>

definition peek :: "(nat \<Rightarrow> u8) \<Rightarrow> u8 list \<Rightarrow> nat \<Rightarrow> nat \<Rightarrow> u8 list" where
  "peek beyond data a n = map (\<lambda>i. if i < length data then data ! i else beyond i) [a..<a + n]"

type_synonym ('d, 'k) block_answer = "(drv_response option \<times> 'd \<times> 'k) option"

definition partition_read :: "'d block_device \<Rightarrow> (nat \<Rightarrow> u8) \<Rightarrow> partition \<Rightarrow> drv_request \<Rightarrow> 'd \<times> 'k \<Rightarrow> ('d, 'k) block_answer" where
  "partition_read D beyond p request dk =
     (let (d, k) = dk; i = dh_request_id (dm_header request); io = io_read (peek beyond (dm_data request) 0 16)
      in case pt_read_block D p (unat (io_offset io)) (replicate (unat (io_length io)) 0) d of
           (Ok buf, d1) \<Rightarrow> Some (Some (with_data buf (drv_success i)), d1, k)
         | (Err _, d1) \<Rightarrow> Some (Some (drv_error i BLOCK_ERR_IO), d1, k)
         | (Panic, d1) \<Rightarrow> Some (None, d1, k))"

definition partition_write :: "'d block_device \<Rightarrow> (nat \<Rightarrow> u8) \<Rightarrow> partition \<Rightarrow> drv_request \<Rightarrow> 'd \<times> 'k \<Rightarrow> ('d, 'k) block_answer" where
  "partition_write D beyond p request dk =
     (let (d, k) = dk; i = dh_request_id (dm_header request); io = io_read (peek beyond (dm_data request) 0 16);
          buf = peek beyond (dm_data request) 16 (unat (io_length io))
      in case pt_write_block D p (unat (io_offset io)) buf d of
           (Ok _, d1) \<Rightarrow> Some (Some (with_data (u32_bytes (io_length io)) (drv_success i)), d1, k)
         | (Err _, d1) \<Rightarrow> Some (Some (drv_error i BLOCK_ERR_IO), d1, k)
         | (Panic, d1) \<Rightarrow> Some (None, d1, k))"

definition partition_ioctl :: "(nat \<Rightarrow> u8) \<Rightarrow> partition \<Rightarrow> drv_request \<Rightarrow> 'd \<times> 'k \<Rightarrow> ('d, 'k) block_answer" where
  "partition_ioctl beyond p request dk =
     (let i = dh_request_id (dm_header request); ic = ic_read (peek beyond (dm_data request) 0 16)
      in if ic_cmd ic = BLOCK_IOCTL_GETSIZE then Some (Some (with_data (le_bytes 8 (pt_size p)) (drv_success i)), dk)
         else Some (Some (drv_error i 1), dk))"

definition partition_handle :: "'d block_device \<Rightarrow> (nat \<Rightarrow> u8) \<Rightarrow> partition \<Rightarrow> drv_request \<Rightarrow> request_context \<Rightarrow> 'd \<times> 'k \<Rightarrow> ('d, 'k) block_answer" where
  "partition_handle D beyond p request ctx dk =
     (case driver_op_from (dh_op (dm_header request)) of
        DrvRead \<Rightarrow> partition_read D beyond p request dk
      | DrvWrite \<Rightarrow> partition_write D beyond p request dk
      | DrvIoctl \<Rightarrow> partition_ioctl beyond p request dk
      | _ \<Rightarrow> Some (Some (drv_error (dh_request_id (dm_header request)) 1), dk))"

definition partition_handler :: "'d block_device \<Rightarrow> (nat \<Rightarrow> u8) \<Rightarrow> partition \<Rightarrow> ('d, 'k) request_handler" where
  "partition_handler D beyond p =
     \<lparr>hn_handle = partition_handle D beyond p, hn_on_connect = (\<lambda>_ dk. (Ok (), dk)), hn_on_disconnect = (\<lambda>_ dk. dk)\<rparr>"

section \<open>Probing\<close>

text \<open>\<open>TmpBlock\<close>, through which the library reads the table.\<close>

definition tb_read_blocks :: "'d block_device \<Rightarrow> nat \<Rightarrow> u8 list \<Rightarrow> 'd \<Rightarrow> (error, u8 list) res \<times> 'd" where
  "tb_read_blocks D start_lba dst d =
     (case (chk_mul start_lba 512 :: (error, nat) res) of
        Ok a \<Rightarrow> (case bd_read D a dst d of (Inr bs, d1) \<Rightarrow> (Ok bs, d1) | (Inl e, d1) \<Rightarrow> (Err e, d1))
      | _ \<Rightarrow> (Panic, d))"

definition tb_write_blocks :: "'d block_device \<Rightarrow> nat \<Rightarrow> u8 list \<Rightarrow> 'd \<Rightarrow> (error, unit) res \<times> 'd" where
  "tb_write_blocks D start_lba src d =
     (case (chk_mul start_lba 512 :: (error, nat) res) of
        Ok a \<Rightarrow> (case bd_write D a src d of (Inr _, d1) \<Rightarrow> (Ok (), d1) | (Inl e, d1) \<Rightarrow> (Err e, d1))
      | _ \<Rightarrow> (Panic, d))"

definition tb_num_blocks :: "'d block_device \<Rightarrow> 'd \<Rightarrow> nat" where
  "tb_num_blocks D d = bd_size D d div 512"

record gpt_entry =
  ge_is_used :: bool
  ge_starting_lba :: nat
  ge_ending_lba :: nat

text \<open>The header the library reads, if it finds one: the number of entries, whether the size of an entry is one the format allows, and the entries it can iterate over, \<open>None\<close> where an
  entry cannot be read.\<close>

record gpt_header =
  gh_entries :: nat
  gh_entry_size_ok :: bool
  gh_iter :: "gpt_entry option list option"

fun decimal :: "nat \<Rightarrow> u8 list" where
  "decimal n = (if n < 10 then [word_of_nat (48 + n)] else decimal (n div 10) @ [word_of_nat (48 + n mod 10)])"

declare decimal.simps [simp del]

definition part_name :: "u8 list \<Rightarrow> nat \<Rightarrow> u8 list" where
  "part_name pre i = pre @ [0x70, 0x61, 0x72, 0x74] @ decimal i"

definition part_device :: "gpt_entry \<Rightarrow> (unit, partition) res" where
  "part_device e =
     bind_res (chk_mul (ge_starting_lba e) 512) (\<lambda>off.
     bind_res (chk_sub (ge_ending_lba e) (ge_starting_lba e)) (\<lambda>n.
     bind_res (chk_add n 1) (\<lambda>n.
     bind_res (chk_mul n 512) (\<lambda>sz. Ok \<lparr>pt_offset = off, pt_size = sz\<rparr>))))"

fun probe_entries :: "u8 list \<Rightarrow> nat \<Rightarrow> gpt_entry option list \<Rightarrow> (unit, (u8 list \<times> partition) list) res" where
  "probe_entries pre i [] = Ok []"
| "probe_entries pre i (None # es) = probe_entries pre (Suc i) es"
| "probe_entries pre i (Some e # es) =
     (if \<not> ge_is_used e then Ok []
      else bind_res (part_device e) (\<lambda>p. bind_res (probe_entries pre (Suc i) es) (\<lambda>ps. Ok ((part_name pre i, p) # ps))))"

text \<open>The partitions for which the callback is called, in order. \<open>Err\<close> is \<open>DiskError::Io(0)\<close>.\<close>

definition probe_partitions :: "u8 list \<Rightarrow> gpt_header option \<Rightarrow> 'd block_device \<Rightarrow> 'd \<Rightarrow> (unit, (u8 list \<times> partition) list) res" where
  "probe_partitions pre header D d =
     (let whole = Ok [(part_name pre 0, \<lparr>pt_offset = 0, pt_size = bd_size D d\<rparr>)]
      in case header of
           None \<Rightarrow> whole
         | Some h \<Rightarrow>
             if gh_entries h = 0 then whole
             else if \<not> gh_entry_size_ok h then Err ()
             else (case gh_iter h of None \<Rightarrow> whole | Some es \<Rightarrow> probe_entries pre 0 es))"

section \<open>Properties\<close>

lemma peek_inside: "a + n \<le> length data \<Longrightarrow> peek beyond data a n = take n (drop a data)"
  by (rule nth_equalityI) (auto simp: peek_def)

lemma io_request_read: "io_read (peek beyond (io_bytes r @ data) 0 16) = r"
  using peek_inside[of 0 16 "io_bytes r @ data" beyond] io_roundtrip[of r "[]"] by simp

lemma io_data_read: "length data = n \<Longrightarrow> peek beyond (io_bytes r @ data) 16 n = data"
  by (simp add: peek_inside)

lemma unat_of_length: "n < 2 ^ 32 \<Longrightarrow> unat (word_of_nat n :: u32) = n"
  by (simp add: unat_of_nat)

lemma response_with_data [simp]:
  "dm_data (with_data bs (drv_success i)) = bs" "dm_is_success (with_data bs (drv_success i))" "dm_handles (with_data bs (drv_success i)) = []"
  "dh_request_id (dm_header (with_data bs (drv_success i))) = i" "dh_data_len (dm_header (with_data bs (drv_success i))) = word_of_nat (length bs)"
  by (simp_all add: with_data_def drv_success_def dm_is_success_def dh_new_response_def)

lemma fits_response: "length bs \<le> 4072 \<Longrightarrow> fits (with_data bs (drv_success i))"
  by (simp add: fits_def)

lemma long_response_panics:
  assumes "length bs > 4072" "length bs < 2 ^ 32"
  shows "dc_read_response i (recv_into (dm_encode (with_data bs (drv_success i))) (replicate 4096 0)) (recv_into [] (replicate 16 0)) 0 = Some Panic"
  using driver_header_buffer[of "replicate 4096 0" "dm_header (with_data bs (drv_success i))" bs] assms
  by (simp add: dc_read_response_def dm_encode_def unat_of_length DH_SIZE_def)

text \<open>C25: reading from a partition through the client. The device is asked for the bytes at the offset from the start of the partition, and what it returns is what the client's \<open>read\<close> leaves in
  the buffer, when it fits one message; a read of more than 4072 bytes panics the client.\<close>

theorem partition_read_through:
  fixes i :: u32 and buf :: "u8 list" and off :: u64
  defines "m \<equiv> dc_request DrvRead i (io_bytes \<lparr>io_offset = off, io_length = word_of_nat (length buf), io_flags = 0\<rparr>) []"
  assumes small: "length buf < 2 ^ 32" "unat off + pt_offset p < 2 ^ 64"
    and device: "bd_read D (unat off + pt_offset p) (replicate (length buf) 0) d = (Inr bs, d1)" "length bs = length buf"
  shows "\<exists>r. partition_handle D beyond p m ctx (d, k) = Some (Some r, d1, k) \<and>
    dc_read_response i (recv_into (dm_encode r) (replicate 4096 0)) (recv_into (dm_handles r) (replicate 16 0)) (length (dm_handles r)) =
      (if length buf \<le> 4072 then Some (Ok r) else Some Panic) \<and>
    rpc_read_result buf r = Ok (length buf, bs)"
proof -
  let ?r = "with_data bs (drv_success i)"
  have io: "io_read (peek beyond (dm_data m) 0 16) = \<lparr>io_offset = off, io_length = word_of_nat (length buf), io_flags = 0\<rparr>"
    using io_request_read[of beyond _ "[]"] by (simp add: m_def)
  have add: "(chk_add (unat off) (pt_offset p) :: (error, nat) res) = Ok (unat off + pt_offset p)"
    using small(2) by (simp add: chk_add_def)
  have handled: "partition_handle D beyond p m ctx (d, k) = Some (Some ?r, d1, k)"
    using device small(1) io add by (simp add: partition_handle_def partition_read_def pt_read_block_def unat_of_length m_def Let_def)
  have "dc_read_response i (recv_into (dm_encode ?r) (replicate 4096 0)) (recv_into (dm_handles ?r) (replicate 16 0)) (length (dm_handles ?r)) =
      (if length buf \<le> 4072 then Some (Ok ?r) else Some Panic)"
  proof (cases "length buf \<le> 4072")
    case True
    have "?r\<lparr>dm_handles := []\<rparr> = ?r" by (simp add: with_data_def drv_success_def)
    then show ?thesis using response_read[of "replicate 4096 0" "replicate 16 0" ?r "[]"] fits_response[of bs i] True device(2) by simp
  next
    case False
    then show ?thesis using long_response_panics[of bs i] small(1) device(2) by simp
  qed
  moreover have "rpc_read_result buf ?r = Ok (length buf, bs)" using device(2) by (simp add: rpc_read_result_def)
  ultimately show ?thesis using handled by blast
qed

text \<open>C40: a partition does not confine its clients. Of two partitions that follow each other on the device, a client of the first reads and writes the second: a request at an offset from the end
  of the first does exactly what the request at this offset does on the second.\<close>

theorem partition_reaches_neighbour:
  assumes next_to: "pt_offset q = pt_offset p + pt_size p" and range: "unat off + pt_size p < 2 ^ 64"
    and op: "opc = DrvRead \<or> opc = DrvWrite"
  shows "partition_handle D beyond p (dc_request opc i (io_bytes \<lparr>io_offset = off + word_of_nat (pt_size p), io_length = n, io_flags = 0\<rparr> @ data) []) ctx dk =
    partition_handle D beyond q (dc_request opc i (io_bytes \<lparr>io_offset = off, io_length = n, io_flags = 0\<rparr> @ data) []) ctx dk"
proof -
  have off: "unat (off + word_of_nat (pt_size p)) = unat off + pt_size p"
  proof -
    have "unat (word_of_nat (pt_size p) :: u64) = pt_size p" using range by (simp add: unat_of_nat)
    then show ?thesis using range by (simp add: unat_word_ariths(1))
  qed
  have rd: "pt_read_block D p (unat off + pt_size p) b d = pt_read_block D q (unat off) b d"
    and wr: "pt_write_block D p (unat off + pt_size p) b d = pt_write_block D q (unat off) b d" for b d
    by (simp_all add: pt_read_block_def pt_write_block_def next_to chk_add_def add.assoc add.commute[of "pt_size p"])
  have pk: "peek beyond (io_bytes r @ data) 16 l = peek beyond (io_bytes r' @ data) 16 l" for r r' l
    by (rule nth_equalityI) (simp_all add: peek_def nth_append)
  from op show ?thesis
  proof
    assume "opc = DrvRead"
    then show ?thesis by (cases dk) (simp add: partition_handle_def partition_read_def io_request_read off rd)
  next
    assume "opc = DrvWrite"
    then show ?thesis using pk[where r = "\<lparr>io_offset = off + word_of_nat (pt_size p), io_length = n, io_flags = 0\<rparr>" and r' = "\<lparr>io_offset = off, io_length = n, io_flags = 0\<rparr>"]
      by (cases dk) (simp add: partition_handle_def partition_write_def io_request_read off wr Let_def split: prod.split res.split)
  qed
qed

text \<open>A write that announces more bytes than it carries writes the memory behind the request to the device.\<close>

lemma short_write_leaks:
  assumes "unat n > 0" "unat off + pt_offset p < 2 ^ 64"
    and "bd_write D (unat off + pt_offset p) (map beyond [16..<16 + unat n]) d = (Inr (), d1)"
  shows "partition_handle D beyond p (dc_request DrvWrite i (io_bytes \<lparr>io_offset = off, io_length = n, io_flags = 0\<rparr>) []) ctx (d, k) =
    Some (Some (with_data (u32_bytes n) (drv_success i)), d1, k)"
proof -
  have "peek beyond (io_bytes \<lparr>io_offset = off, io_length = n, io_flags = 0\<rparr>) 16 (unat n) = map beyond [16..<16 + unat n]" by (simp add: peek_def)
  moreover have "io_read (peek beyond (io_bytes \<lparr>io_offset = off, io_length = n, io_flags = 0\<rparr>) 0 16) = \<lparr>io_offset = off, io_length = n, io_flags = 0\<rparr>"
    using io_request_read[of beyond _ "[]"] by simp
  ultimately show ?thesis using assms(2,3) by (simp add: partition_handle_def partition_write_def pt_write_block_def chk_add_def)
qed

text \<open>The partitions of a table are the ranges of its entries, up to the first entry that is not used.\<close>

lemma part_device_range:
  "part_device e = Ok p \<longleftrightarrow> ge_starting_lba e \<le> ge_ending_lba e \<and> pt_offset p = ge_starting_lba e * 512 \<and> pt_offset p + pt_size p = (ge_ending_lba e + 1) * 512 \<and>
     ge_starting_lba e * 512 < 2 ^ 64 \<and> ge_ending_lba e - ge_starting_lba e + 1 < 2 ^ 64 \<and> pt_size p < 2 ^ 64"
  by (cases p) (auto simp: part_device_def chk_simps algebra_simps)

lemma probe_entries_in_table:
  "probe_entries pre i es = Ok ps \<Longrightarrow> \<forall>p \<in> set (map snd ps). \<exists>e. Some e \<in> set es \<and> ge_is_used e \<and> part_device e = Ok p"
proof (induction pre i es arbitrary: ps rule: probe_entries.induct)
  case (3 pre i e es)
  then show ?case by (cases "ge_is_used e") fastforce+
qed auto

section \<open>A sample disk\<close>

definition ram_disk :: "u8 list block_device" where
  "ram_disk =
     \<lparr>bd_read = (\<lambda>a buf d. if a + length buf \<le> length d then (Inr (take (length buf) (drop a d)), d) else (Inl (Error EINVAL), d)),
      bd_write = (\<lambda>a buf d. if a + length buf \<le> length d then (Inr (), take a d @ buf @ drop (a + length buf) d) else (Inl (Error EINVAL), d)),
      bd_size = length\<rparr>"

theorem partition_read_through_witness:
  "\<exists>r. partition_handle ram_disk (\<lambda>_. 0) \<lparr>pt_offset = 2, pt_size = 2\<rparr>
      (dc_request DrvRead 1 (io_bytes \<lparr>io_offset = 1, io_length = 2, io_flags = 0\<rparr>) []) \<lparr>rc_conn_id = 1, rc_request_id = 1\<rparr> ([10, 11, 12, 13, 14], ()) =
      Some (Some r, [10, 11, 12, 13, 14], ()) \<and> rpc_read_result [0, 0] r = Ok (2, [13, 14])"
proof -
  have len: "length [0 :: u8, 0] = 2" by simp
  have dev: "bd_read ram_disk (unat (1 :: u64) + pt_offset \<lparr>pt_offset = 2, pt_size = 2\<rparr>) (replicate 2 0) [10, 11, 12, 13, 14] = (Inr [13, 14], [10, 11, 12, 13, 14])"
    by (simp add: ram_disk_def)
  obtain r where "partition_handle ram_disk (\<lambda>_. 0) \<lparr>pt_offset = 2, pt_size = 2\<rparr>
      (dc_request DrvRead 1 (io_bytes \<lparr>io_offset = 1, io_length = word_of_nat 2, io_flags = 0\<rparr>) []) \<lparr>rc_conn_id = 1, rc_request_id = 1\<rparr> ([10, 11, 12, 13, 14], ()) =
      Some (Some r, [10, 11, 12, 13, 14], ())" "rpc_read_result [0, 0] r = Ok (2, [13, 14])"
    using partition_read_through[where buf = "[0, 0]" and beyond = "\<lambda>_. 0", unfolded len, OF _ _ dev, of 1 "\<lparr>rc_conn_id = 1, rc_request_id = 1\<rparr>" "()"] by auto
  then show ?thesis by auto
qed

theorem partition_reaches_neighbour_witness:
  "partition_handle ram_disk (\<lambda>_. 0) \<lparr>pt_offset = 0, pt_size = 2\<rparr>
      (dc_request DrvWrite 1 (io_bytes \<lparr>io_offset = 0 + word_of_nat (pt_size \<lparr>pt_offset = 0, pt_size = 2\<rparr>), io_length = 1, io_flags = 0\<rparr> @ [99]) []) \<lparr>rc_conn_id = 1, rc_request_id = 1\<rparr> ([10, 11, 12, 13], ()) =
    Some (Some (with_data (u32_bytes 1) (drv_success 1)), [10, 11, 99, 13], ())"
proof -
  have "partition_handle ram_disk (\<lambda>_. 0) \<lparr>pt_offset = 2, pt_size = 2\<rparr>
      (dc_request DrvWrite 1 (io_bytes \<lparr>io_offset = 0, io_length = 1, io_flags = 0\<rparr> @ [99]) []) \<lparr>rc_conn_id = 1, rc_request_id = 1\<rparr> ([10, 11, 12, 13], ()) =
    Some (Some (with_data (u32_bytes 1) (drv_success 1)), [10, 11, 99, 13], ())"
    by (simp add: partition_handle_def partition_write_def io_request_read io_data_read pt_write_block_def chk_add_def ram_disk_def)
  then show ?thesis
    by (subst partition_reaches_neighbour[where q = "\<lparr>pt_offset = 2, pt_size = 2\<rparr>"]) simp_all
qed

end
