(* ===== verification/Spec2Isabelle.thy ===== *)
theory Spec2Isabelle
  imports Errors Handles Ipc_Isolation Program_Image Memory_Mapping Process_Life Ring Shared_Buffer Namespace_Service Block_Device
begin

text \<open>
  Radon OS is a microkernel for x86-64 with its user-space libraries and servers, written in Rust. The kernel
  (\<open>kernel/src\<close>) keeps objects (channels, ports, virtual memory objects, address regions, processes, threads) that
  processes reach only through handles; its frame allocator and page mapper are the crate \<open>kernel/crates/rmm\<close>. User
  space talks to it through \<open>libradon\<close>; drivers are written against \<open>libdriver\<close>. This development models the core of
  the kernel, the driver library and the servers as executable functions and proves what makes them correct.

  \<^bold>\<open>How code becomes definitions.\<close> A struct is a record, an enum a datatype, a method a function of the same name (with a
  prefix for its type: \<open>ht_\<close> for \<open>HandleTable\<close>, \<open>ch_\<close> for \<open>Channel\<close>, \<open>vm_\<close> for \<open>Vmo\<close>) that takes the state and returns it
  changed. Results are values of \<open>res\<close>: \<open>Ok\<close>, \<open>Err\<close> or \<open>Panic\<close>; a panic is an explicit \<open>panic!\<close>, a failed \<open>unwrap\<close> or
  index, or an arithmetic overflow, which the profile the kernel is built with checks. \<open>usize\<close> and \<open>u64\<close> values that are used as
  numbers are naturals below \<open>2 ^ 64\<close> with the check written out (\<open>chk_add\<close>, \<open>chk_sub\<close>, \<open>chk_mul\<close>); values used as bit
  sets, and values with wrapping arithmetic, are words. An \<open>Arc\<close> is an identifier into a heap of objects; reference
  counts are modelled where dropping the last one has an effect (\<open>Ipc_Syscalls\<close>, \<open>Memory_Syscalls\<close>). A \<open>Mutex\<close> held over a whole
  operation makes it one step; where an operation gives up its lock in the middle, as the blocking receives do, its parts are
  separate definitions and the theorems speak about their interleavings.

  \<^bold>\<open>Shared layer.\<close> \<open>Prelude\<close>: machine types, \<open>res\<close>, checked arithmetic, the operations \<open>bitflags!\<close> generates.
  \<open>Ordered_Map\<close>: \<open>BTreeMap\<close> as a sorted association list, with the locale of what its clients rely on and its
  interpretation. \<open>Bytes\<close>: little-endian integers in memory. \<open>Errors\<close>: \<open>kernel/src/error.rs\<close> and \<open>libradon/src/syscall.rs\<close>;
  an error crosses the system call boundary unchanged.

  \<^bold>\<open>Kernel objects and authority.\<close> \<open>Signals\<close> (\<open>object/signal.rs\<close>, \<open>object/mod.rs\<close>): who is called when signals are raised.
  \<open>Handles\<close> (\<open>object/handle.rs\<close>): the table is well formed in every reachable state, a closed handle never becomes
  valid again, duplication only attenuates, transfer is all or nothing.

  \<^bold>\<open>Tasks.\<close> \<open>Tasks\<close> (\<open>task/mod.rs\<close>, \<open>task/sched.rs\<close>, \<open>task/state.rs\<close>): each task is in at most one queue as long as no task is woken between
  blocking itself and switching away, and a ready task runs after as many switches as tasks are before it; such a wake-up, which the code does not prevent,
  enters a task twice, and an exited task can be started again. \<open>Wait_Queue\<close> (\<open>object/wait_queue.rs\<close>) is built on it.

  \<^bold>\<open>Communication.\<close> \<open>Channel\<close> (\<open>object/channel.rs\<close>) refines a pair of bounded queues; \<open>Port\<close> and \<open>Ipc\<close> (\<open>object/port.rs\<close>) join
  channels, ports and tasks: delivery of a signal through ports is a \<open>partial_function (option)\<close>, because a port that
  watches itself makes it run forever, and it is proved to end when no cycle of ports watch each other. \<open>Ipc_Syscalls\<close> is
  \<open>syscall/object.rs\<close> with the reference counts that decide when objects are dropped (again a
  \<open>partial_function (option)\<close>, as dropping a channel drops the messages in it); a blocking call is modelled turn by
  turn. \<open>Ipc_Isolation\<close> proves that no sequence of calls creates authority, that a call leaves the handle tables of other
  processes alone and writes only to the buffers it is given, and that a message with its handles arrives as it was sent. The code uses the pointers
  of user space as they are, without any test; the model gives each process a memory of its own, so a pointer to the kernel's half, or into memory that two processes
  have mapped, is outside it.

  \<^bold>\<open>Memory.\<close> \<open>Frames\<close> (\<open>rmm/src/allocator\<close>): the bump and the buddy allocator on the bytes of physical memory.
  \<open>Frame_Allocation\<close> states the contract of a frame allocator as a locale, proves what clients conclude from it, and
  interprets it on the buddy allocator; \<open>Frame_Memory\<close> says what holders of frames may do to their bytes. \<open>Vmo\<close>
  (\<open>object/vmo.rs\<close>) is built on these; \<open>Vmo_Contents\<close> proves that frames are never owned twice, and that reads,
  writes, faults and copy-on-write clones show the right bytes. \<open>Page_Table\<close> (\<open>rmm/src/page\<close>, \<open>rmm/src/arch/x86_64.rs\<close>): entries, flags
  and the four-level tables on the same bytes; the recursion over the levels ends because each step goes one level down.
  \<open>Page_Mapping\<close> proves that the mapper refines a map from pages to frames. \<open>Vmar\<close> (\<open>object/vmar.rs\<close>) joins objects and page
  tables; \<open>Address_Space\<close> proves that every entry a region leaves in a page table is backed by one of its mappings and shows what
  the object shows, and exhibits the three requests that break this: a mapping that fails halfway, a mapping of no bytes, and a writable
  mapping of a clone. The processor's cache of translations is taken to be in step with the tables: every change of an entry is followed
  by the flush of its address.

  \<^bold>\<open>Memory system calls.\<close> \<open>Memory_Syscalls\<close> (\<open>syscall/memory.rs\<close>): every call on memory objects and regions, on the state of \<open>Ipc_Syscalls\<close> joined with the
  objects, regions and frames. Dropping the last reference to an object drops what it names in turn, which is a \<open>partial_function (option)\<close>; the proofs show that it
  returns. \<open>Memory_References\<close> proves that the counts are exact: the memory objects and regions that exist are those that a handle, a message, a binding, a mapping, a clone, a parent region or a process names,
  whatever sequence of admissible calls was made, also while processes hold channels, ports and processes; closing the last reference to one of these is left out, since its effect on other
  objects belongs to \<open>Ipc_Syscalls\<close> and \<open>Processes\<close>. It also proves that what one process writes to a shared object another reads. \<open>Memory_Mapping\<close> takes the theorem on mapping to
  the call a process makes, and shows that a handle without the right to write gives a writable mapping. The buffers of user space, which the calls read and
  write, are the memory per process of \<open>Ipc_Syscalls\<close>, kept apart from the frames: a process that maps an object and passes an address inside the mapping
  as a buffer is outside the model.

  \<^bold>\<open>Loading.\<close> \<open>Elf\<close> (\<open>loader/elf.rs\<close>, the same file as \<open>init/src/elf.rs\<close>): which files are accepted, the round trip of headers, the
  iterator and the segments, all within the file. \<open>Program_Loader\<close> (\<open>loader/program.rs\<close>, \<open>layout.rs\<close>) puts a file into a new address space;
  \<open>Program_Image\<close> proves that the page table then shows the bytes of the file, an empty stack and the kernel's half, and that a segment
  without bytes in the file panics the kernel.

  \<^bold>\<open>Processes.\<close> \<open>Processes\<close> (\<open>object/process.rs\<close>, \<open>syscall/process.rs\<close>, the end of \<open>loader/program.rs\<close>): process objects, their threads, and every process system call. The
  end of threads and of their process call each other; \<open>run_exits\<close> runs them from a list of work with the locks that are held, and its value is \<open>None\<close> when a lock
  is taken by its holder, since the lock spins. \<open>Process_Life\<close> proves that the exit code of the last thread reaches whoever waits, and exhibits three faults: a main thread
  that exits before another hangs, a thread made in a running process never runs, and any handle to a process opens its address space.

  \<^bold>\<open>Drivers.\<close> \<open>Dma\<close> and \<open>Shared_Buffer\<close> (\<open>libdriver/src/dma.rs\<close>, \<open>buffer.rs\<close>): what the kernel answers to their requests is a
  parameter. \<open>Ring\<close> (\<open>ring.rs\<close>): the descriptor ring on the bytes of its region, with the device as a second party that
  consumes what is available and returns it in any order; no descriptor is lost or owned twice. \<open>free_chain\<close> has no bound of its
  own: it ends because the 16-bit count of free descriptors would overflow, which its measure uses.

  \<^bold>\<open>Name server.\<close> \<open>User_Calls\<close>: what servers and clients ask of the kernel, as a record of functions on an abstract kernel state, so that the
  theorems hold for every kernel. \<open>Name_Protocol\<close> (\<open>nameserver/src/protocol.rs\<close>, \<open>lib.rs\<close>): the messages as bytes. \<open>Name_Registry\<close> (\<open>server/registry.rs\<close>,
  \<open>server/watcher.rs\<close>): services and watchers. \<open>Name_Server\<close> (\<open>server/handler.rs\<close>, \<open>server/mod.rs\<close>): every request and the server loop; a lock that is taken
  twice is a call that does not return. \<open>Name_Ownership\<close> proves the invariant of the server, that clients cannot touch each other's services, and
  exhibits the hang and the panic it can be brought to. \<open>Name_Client\<close> (\<open>client.rs\<close>) proves that what is registered is found, until its owner is heard of again, and listed, through the wire format.
  The loops of server and client are \<open>partial_function (option)\<close>: a kernel may keep them waiting forever.

  \<^bold>\<open>Services.\<close> \<open>Bootstrap\<close> (\<open>bootstrap/src\<close>): how a process gets its first channels from the init process; offered services are protected, and what a privileged
  child registers is handed out to every child. \<open>Service_Connect\<close>: the functions that reach a named service from nothing, through init and the name server. \<open>Driver_Protocol\<close>,
  \<open>Driver_Server\<close> and \<open>Driver_Client\<close> (\<open>libdriver/src/protocol.rs\<close>, \<open>server.rs\<close>, \<open>client.rs\<close>): remote calls to drivers for an arbitrary request handler; every waiting request is answered
  in order while the client's channel has room for the responses (without room the server ends), and a call returns the handler's response, however long the client sleeps before it. \<open>Namespace\<close> and \<open>Namespace_Service\<close> (\<open>drivers/namespace/src\<close>): paths are normalised and resolved to the longest bound prefix, as a map over lists of
  components says; what is bound can be opened. \<open>Block_Device\<close> (\<open>drivers/block_protocol/src\<close>): partitions as handlers on a block device, which return the right bytes but do not confine their clients.

  \<^bold>\<open>Not modelled.\<close> The code that only drives the machine (assembly entry points, the APIC, timers, descriptor tables, the
  frame buffer, serial port and logger), the device drivers proper, the start-up code with the main function of init (which creates the first processes from
  files built into its image), the wrappers and the executor of \<open>libradon\<close>, and the vendored crates \<open>acpi\<close>, \<open>x2apic\<close> and \<open>efs\<close>, which the
  system only calls. Of the processes, the dropping of process objects. A call on a region through a handle to an object of another type, which
  \<open>sys_vmar_unmap\<close> and \<open>sys_vmar_protect\<close> reinterpret without a test, has no meaning in the source and none in the model.
\<close>

end
